(* ===== verification/Avb_Prelude.thy ===== *)
theory Avb_Prelude
  imports Main "HOL-Library.Word" "HOL-Library.Monad_Syntax"
begin

text \<open>
  Shared ground of the development: the C integer types, the crash-aware option
  style in which stateful C code is written, big-endian byte strings, and the
  generic list lemmas the components use.

  A C operation that can run into undefined behaviour (a NULL or dangling
  dereference, a read past the end of an array, a division by zero), that can
  fail an \<open>assert\<close>, or that may not return, is a function into
  \<open>'a option\<close>: \<open>None\<close> is exactly ``this call does not return normally''.
  A theorem that such an operation equals \<open>Some r\<close> therefore shows at once that
  it terminates, that it is memory safe and that its assertions hold.
\<close>

unbundle bit_operations_syntax

section \<open>Types\<close>

type_synonym u8 = "8 word"
type_synonym u16 = "16 word"
type_synonym u32 = "32 word"
type_synonym u64 = "64 word"

text \<open>A pointer is an address or \<open>None\<close> for NULL; a heap maps the live addresses.\<close>

type_synonym addr = nat
type_synonym ptr = "addr option"
type_synonym 'a heap = "addr \<rightharpoonup> 'a"

named_theorems byte_simps "big-endian reading and writing"
named_theorems frame_simps "what an operation leaves unchanged"
named_theorems step_defs "definitions that unfold one step of a component"

section \<open>Crashes\<close>

definition c_assert :: "bool \<Rightarrow> unit option" where
  "c_assert b = (if b then Some () else None)"

lemma c_assert_True [simp]: "c_assert True = Some ()"
  by (simp add: c_assert_def)

lemma c_assert_False [simp]: "c_assert False = None"
  by (simp add: c_assert_def)

lemma c_assert_eq_Some [simp]: "c_assert b = Some u \<longleftrightarrow> b"
  by (simp add: c_assert_def)

lemma bind_SomeE:
  assumes "Option.bind m f = Some y"
  obtains x where "m = Some x" and "f x = Some y"
  using assms by (auto simp: bind_eq_Some_conv)

text \<open>\<open>free(p)\<close> on a heap: an address that is not live is a double free.\<close>

definition heap_free :: "'a heap \<Rightarrow> addr \<Rightarrow> 'a heap option" where
  "heap_free h a = (case h a of None \<Rightarrow> None | Some _ \<Rightarrow> Some (h(a := None)))"

lemma heap_free_Some [simp]: "h a = Some x \<Longrightarrow> heap_free h a = Some (h(a := None))"
  by (simp add: heap_free_def)

text \<open>Assigning to a field of the object at an address.\<close>

definition heap_upd :: "'a heap \<Rightarrow> addr \<Rightarrow> ('a \<Rightarrow> 'a) \<Rightarrow> 'a heap option" where
  "heap_upd h a f = (case h a of None \<Rightarrow> None | Some x \<Rightarrow> Some (h(a \<mapsto> f x)))"

lemma heap_upd_Some [simp]: "h a = Some x \<Longrightarrow> heap_upd h a f = Some (h(a \<mapsto> f x))"
  by (simp add: heap_upd_def)

section \<open>Big-endian byte strings\<close>

definition word_be :: "u8 list \<Rightarrow> 'a::len word" where
  "word_be bs = foldl (\<lambda>acc b. push_bit 8 acc OR ucast b) 0 bs"

definition bytes_be :: "nat \<Rightarrow> 'a::len word \<Rightarrow> u8 list" where
  "bytes_be n v = map (\<lambda>i. ucast (drop_bit (8 * (n - 1 - i)) v)) [0..<n]"

lemma word_be_Nil [simp]: "word_be [] = 0"
  by (simp add: word_be_def)

lemma word_be_snoc [simp]: "word_be (bs @ [b]) = push_bit 8 (word_be bs) OR ucast b"
  by (simp add: word_be_def)

lemma length_bytes_be [simp]: "length (bytes_be n v) = n"
  by (simp add: bytes_be_def)

lemma nth_bytes_be [simp]: "i < n \<Longrightarrow> bytes_be n v ! i = ucast (drop_bit (8 * (n - 1 - i)) v)"
  by (simp add: bytes_be_def)

lemma bit_byte_bound: "bit (b :: u8) n \<Longrightarrow> n < 8"
  by (auto dest: bit_imp_le_length)

lemma bit_word_be:
  "bit (word_be bs :: 'a::len word) k \<longleftrightarrow>
     k < LENGTH('a) \<and> k div 8 < length bs \<and> bit (bs ! (length bs - 1 - k div 8)) (k mod 8)"
proof (induction bs arbitrary: k rule: rev_induct)
  case Nil
  then show ?case by simp
next
  case (snoc b bs)
  show ?case
  proof (cases "k < 8")
    case True
    then show ?thesis
      by (auto simp: bit_or_iff bit_push_bit_iff bit_ucast_iff nth_append possible_bit_word)
  next
    case False
    then have k: "(k - 8) div 8 = k div 8 - 1" "(k - 8) mod 8 = k mod 8" "0 < k div 8"
      by (simp_all add: le_div_geq le_mod_geq)
    have len: "k div 8 - 1 < length bs \<longleftrightarrow> k div 8 < length (bs @ [b])"
      using k(3) by (simp add: less_Suc_eq_le) linarith
    have nb: "\<not> bit b k"
      using False bit_byte_bound by blast
    have "bit (word_be (bs @ [b]) :: 'a word) k \<longleftrightarrow>
        k < LENGTH('a) \<and> bit (word_be bs :: 'a word) (k - 8)"
      using False nb by (auto simp: bit_or_iff bit_push_bit_iff bit_ucast_iff possible_bit_word)
    also have "\<dots> \<longleftrightarrow> k < LENGTH('a) \<and> k div 8 - 1 < length bs \<and>
        bit (bs ! (length bs - k div 8)) (k mod 8)"
      using k snoc.IH [of "k - 8"] by auto
    also have "\<dots> \<longleftrightarrow> k < LENGTH('a) \<and> k div 8 < length (bs @ [b]) \<and>
        bit ((bs @ [b]) ! (length (bs @ [b]) - 1 - k div 8)) (k mod 8)"
      using k len by (auto simp: nth_append)
    finally show ?thesis .
  qed
qed

text \<open>Reading back what was written keeps the low \<open>8 * n\<close> bits.\<close>

lemma word_be_bytes_be [byte_simps]:
  "word_be (bytes_be n (v :: 'a::len word)) = (take_bit (8 * n) v :: 'a word)"
proof (rule bit_word_eqI)
  fix k
  assume "k < LENGTH('a)"
  have eq: "8 * (k div 8) + k mod 8 = k"
    by simp
  have "bit (word_be (bytes_be n v) :: 'a word) k \<longleftrightarrow> k div 8 < n \<and> bit v (8 * (k div 8) + k mod 8)"
    using \<open>k < LENGTH('a)\<close> by (auto simp: bit_word_be bit_ucast_iff bit_drop_bit_eq add.commute)
  also have "\<dots> \<longleftrightarrow> k < 8 * n \<and> bit v k"
    unfolding eq by (auto simp: less_mult_imp_div_less mult.commute div_less_iff_less_mult)
  finally show "bit (word_be (bytes_be n v) :: 'a word) k \<longleftrightarrow> bit (take_bit (8 * n) v) k"
    by (simp add: bit_take_bit_iff)
qed

text \<open>Writing back what was read gives the same bytes.\<close>

lemma bytes_be_word_be [byte_simps]:
  assumes "length bs = n" and "8 * n \<le> LENGTH('a::len)"
  shows "bytes_be n (word_be bs :: 'a word) = bs"
proof (rule nth_equalityI)
  show "length (bytes_be n (word_be bs :: 'a word)) = length bs"
    using assms by simp
next
  fix i
  assume i: "i < length (bytes_be n (word_be bs :: 'a word))"
  then have i': "i < n" by simp
  let ?k = "8 * (n - 1 - i)"
  show "bytes_be n (word_be bs :: 'a word) ! i = bs ! i"
  proof (rule bit_word_eqI)
    fix j
    assume "j < LENGTH(8)"
    then have j: "j < 8" by simp
    have dm: "(?k + j) div 8 = n - 1 - i" "(?k + j) mod 8 = j"
      using j by simp_all
    have lt: "?k + j < LENGTH('a)"
      using j i' assms(2) by linarith
    show "bit (bytes_be n (word_be bs :: 'a word) ! i) j \<longleftrightarrow> bit (bs ! i) j"
      using i' j dm lt assms(1)
      by (auto simp: bit_ucast_iff bit_drop_bit_eq bit_word_be)
  qed
qed

section \<open>Lists\<close>

lemma distinct_split_unique:
  assumes "distinct (xs @ a # ys)" and "xs @ a # ys = us @ a # vs"
  shows "xs = us \<and> ys = vs"
  using assms by (auto simp: append_eq_append_conv2 Cons_eq_append_conv append_eq_Cons_conv)

lemma remove1_split: "a \<notin> set xs \<Longrightarrow> remove1 a (xs @ a # ys) = xs @ ys"
  by (simp add: remove1_append)

end
