(* ===== verification/Intervals.thy ===== *)
theory Intervals
  imports Avb_Prelude "HOL-Library.Tree"
begin

text \<open>
  The interval set of the MAAP daemon, \<open>maap/common/intervals.[ch]\<close>: an
  unbalanced binary search tree of disjoint \<open>uint32\<close> intervals with parent
  pointers, updated in place.  The model keeps the pointers: a heap of nodes, and
  one definition per C function that follows and assigns the same links.
\<close>

section \<open>Data\<close>

text \<open>\<open>struct interval_node\<close>.\<close>

record interval =
  low :: u32
  high :: u32
  data :: ptr
  parent :: ptr
  left_child :: ptr
  right_child :: ptr

type_synonym iheap = "interval heap"

definition INTERVAL_SUCCESS :: int where
  "INTERVAL_SUCCESS = 0"

definition INTERVAL_OVERLAP :: int where
  "INTERVAL_OVERLAP = -1"

section \<open>Operations\<close>

definition interval_check_overlap :: "interval \<Rightarrow> u32 \<Rightarrow> u32 \<Rightarrow> bool" where
  "interval_check_overlap iv start cnt \<longleftrightarrow> low iv \<le> start + cnt - 1 \<and> start \<le> high iv"

definition check_overlap :: "interval \<Rightarrow> interval \<Rightarrow> bool" where
  "check_overlap a b \<longleftrightarrow> low a \<le> high b \<and> low b \<le> high a"

text \<open>The argument \<open>r\<close> is what \<open>calloc\<close> returned.\<close>

definition alloc_interval :: "iheap \<Rightarrow> ptr \<Rightarrow> u32 \<Rightarrow> u32 \<Rightarrow> ptr \<times> iheap" where
  "alloc_interval h r start cnt =
     (case r of None \<Rightarrow> (None, h)
      | Some a \<Rightarrow> (Some a, h(a \<mapsto> \<lparr>low = start, high = start + cnt - 1, data = None,
                     parent = None, left_child = None, right_child = None\<rparr>)))"

definition free_interval :: "iheap \<Rightarrow> addr \<Rightarrow> iheap option" where
  "free_interval h node = heap_free h node"

partial_function (option) insert_loop :: "iheap \<Rightarrow> addr \<Rightarrow> addr \<Rightarrow> (int \<times> iheap) option" where
  "insert_loop h current node = do {
     c \<leftarrow> h current;
     n \<leftarrow> h node;
     if check_overlap c n then Some (INTERVAL_OVERLAP, h)
     else if low n < low c then
       (case left_child c of
          None \<Rightarrow> do {
            h \<leftarrow> heap_upd h current (\<lambda>x. x\<lparr>left_child := Some node\<rparr>);
            h \<leftarrow> heap_upd h node (\<lambda>x. x\<lparr>parent := Some current\<rparr>);
            Some (INTERVAL_SUCCESS, h) }
        | Some l \<Rightarrow> insert_loop h l node)
     else
       (case right_child c of
          None \<Rightarrow> do {
            h \<leftarrow> heap_upd h current (\<lambda>x. x\<lparr>right_child := Some node\<rparr>);
            h \<leftarrow> heap_upd h node (\<lambda>x. x\<lparr>parent := Some current\<rparr>);
            Some (INTERVAL_SUCCESS, h) }
        | Some r \<Rightarrow> insert_loop h r node) }"

text \<open>\<open>*root\<close> is passed in and returned beside the heap.\<close>

definition insert_interval :: "iheap \<Rightarrow> ptr \<Rightarrow> addr \<Rightarrow> (int \<times> iheap \<times> ptr) option" where
  "insert_interval h root node =
     (case root of
        None \<Rightarrow> Some (INTERVAL_SUCCESS, h, Some node)
      | Some current \<Rightarrow> do {
          (rv, h) \<leftarrow> insert_loop h current node;
          Some (rv, h, root) })"

partial_function (option) minimum_interval :: "iheap \<Rightarrow> ptr \<Rightarrow> ptr option" where
  "minimum_interval h current =
     (case current of
        None \<Rightarrow> Some None
      | Some c \<Rightarrow> do {
          n \<leftarrow> h c;
          (case left_child n of None \<Rightarrow> Some current | Some l \<Rightarrow> minimum_interval h (Some l)) })"

partial_function (option) maximum_interval :: "iheap \<Rightarrow> ptr \<Rightarrow> ptr option" where
  "maximum_interval h current =
     (case current of
        None \<Rightarrow> Some None
      | Some c \<Rightarrow> do {
          n \<leftarrow> h c;
          (case right_child n of None \<Rightarrow> Some current | Some r \<Rightarrow> maximum_interval h (Some r)) })"

partial_function (option) next_loop :: "iheap \<Rightarrow> addr \<Rightarrow> ptr \<Rightarrow> ptr option" where
  "next_loop h child par =
     (case par of
        None \<Rightarrow> Some None
      | Some p \<Rightarrow> do {
          n \<leftarrow> h p;
          if Some child = right_child n then next_loop h p (parent n) else Some par })"

definition next_interval :: "iheap \<Rightarrow> addr \<Rightarrow> ptr option" where
  "next_interval h node = do {
     n \<leftarrow> h node;
     (case right_child n of
        Some r \<Rightarrow> minimum_interval h (Some r)
      | None \<Rightarrow> next_loop h node (parent n)) }"

partial_function (option) prev_loop :: "iheap \<Rightarrow> addr \<Rightarrow> ptr \<Rightarrow> ptr option" where
  "prev_loop h child par =
     (case par of
        None \<Rightarrow> Some None
      | Some p \<Rightarrow> do {
          n \<leftarrow> h p;
          if Some child = left_child n then prev_loop h p (parent n) else Some par })"

definition prev_interval :: "iheap \<Rightarrow> addr \<Rightarrow> ptr option" where
  "prev_interval h node = do {
     n \<leftarrow> h node;
     (case left_child n of
        Some l \<Rightarrow> maximum_interval h (Some l)
      | None \<Rightarrow> prev_loop h node (parent n)) }"

text \<open>
  \<open>remove_interval\<close> unlinks a node with at most one child (the node itself or its
  successor), swapping contents in the second case; it returns the unlinked node,
  which the caller frees.
\<close>

definition unlink_interval :: "iheap \<Rightarrow> ptr \<Rightarrow> addr \<Rightarrow> (iheap \<times> ptr) option" where
  "unlink_interval h root snip = do {
     s \<leftarrow> h snip;
     let child = (case left_child s of Some l \<Rightarrow> Some l | None \<Rightarrow> right_child s);
     h \<leftarrow> (case child of
             None \<Rightarrow> Some h
           | Some c \<Rightarrow> heap_upd h c (\<lambda>x. x\<lparr>parent := parent s\<rparr>));
     (case parent s of
        None \<Rightarrow> Some (h, child)
      | Some p \<Rightarrow> do {
          pn \<leftarrow> h p;
          h \<leftarrow> (if Some snip = left_child pn
                 then heap_upd h p (\<lambda>x. x\<lparr>left_child := child\<rparr>)
                 else heap_upd h p (\<lambda>x. x\<lparr>right_child := child\<rparr>));
          Some (h, root) }) }"

definition remove_interval :: "iheap \<Rightarrow> ptr \<Rightarrow> addr \<Rightarrow> (addr \<times> iheap \<times> ptr) option" where
  "remove_interval h root node = do {
     n \<leftarrow> h node;
     snip \<leftarrow> (if left_child n = None \<or> right_child n = None then Some node
               else do { s \<leftarrow> next_interval h node; s });
     (h, root) \<leftarrow> unlink_interval h root snip;
     if snip \<noteq> node then do {
       nd \<leftarrow> h node;
       s \<leftarrow> h snip;
       h \<leftarrow> heap_upd h node (\<lambda>x. x\<lparr>low := low s, high := high s, data := data s\<rparr>);
       h \<leftarrow> heap_upd h snip (\<lambda>x. x\<lparr>data := data nd\<rparr>);
       Some (snip, h, root) }
     else Some (snip, h, root) }"

partial_function (option) search_loop :: "iheap \<Rightarrow> ptr \<Rightarrow> interval \<Rightarrow> ptr option" where
  "search_loop h current i =
     (case current of
        None \<Rightarrow> Some None
      | Some c \<Rightarrow> do {
          n \<leftarrow> h c;
          if check_overlap n i then Some current
          else if low i < low n then search_loop h (left_child n) i
          else search_loop h (right_child n) i })"

partial_function (option) search_back :: "iheap \<Rightarrow> addr \<Rightarrow> ptr \<Rightarrow> interval \<Rightarrow> ptr option" where
  "search_back h current test i =
     (case test of
        None \<Rightarrow> Some (Some current)
      | Some t \<Rightarrow> do {
          n \<leftarrow> h t;
          if check_overlap n i then do {
            test' \<leftarrow> prev_interval h t;
            search_back h t test' i }
          else Some (Some current) })"

definition query :: "u32 \<Rightarrow> u32 \<Rightarrow> interval" where
  "query start cnt = \<lparr>low = start, high = start + cnt - 1, data = None, parent = None,
     left_child = None, right_child = None\<rparr>"

definition search_interval :: "iheap \<Rightarrow> ptr \<Rightarrow> u32 \<Rightarrow> u32 \<Rightarrow> ptr option" where
  "search_interval h root start cnt = do {
     current \<leftarrow> search_loop h root (query start cnt);
     (case current of
        None \<Rightarrow> Some None
      | Some c \<Rightarrow> do {
          test \<leftarrow> prev_interval h c;
          search_back h c test (query start cnt) }) }"

text \<open>A visitor may change the heap and a state of its own.\<close>

partial_function (option) traverse_interval ::
  "(addr \<Rightarrow> iheap \<times> 's \<Rightarrow> (iheap \<times> 's) option) \<Rightarrow> ptr \<Rightarrow> iheap \<times> 's \<Rightarrow> (iheap \<times> 's) option" where
  "traverse_interval action root hs =
     (case root of
        None \<Rightarrow> Some hs
      | Some r \<Rightarrow> do {
          n \<leftarrow> fst hs r;
          hs \<leftarrow> traverse_interval action (left_child n) hs;
          hs \<leftarrow> action r hs;
          n \<leftarrow> fst hs r;
          traverse_interval action (right_child n) hs })"

end
