(* ===== verification/Interval_Tree.thy ===== *)
theory Interval_Tree
  imports Intervals
begin

text \<open>
  The heap of interval nodes against the in-order list of their addresses: a
  representation relation between a heap, a root pointer and a list, and for each
  operation of \<open>Intervals\<close> the lemma that it follows the links without a
  dangling dereference, returns, and does to the list what it should.
\<close>

section \<open>The heap as a list of addresses\<close>

type_synonym entry = "u32 \<times> u32 \<times> ptr"

definition entry_of :: "interval \<Rightarrow> entry" where
  "entry_of n = (low n, high n, data n)"

definition entries :: "iheap \<Rightarrow> addr list \<Rightarrow> entry list" where
  "entries h as = map (\<lambda>a. entry_of (the (h a))) as"

fun before :: "entry \<Rightarrow> entry \<Rightarrow> bool" where
  "before (l, u, d) (l', u', d') \<longleftrightarrow> u < l'"

fun proper :: "entry \<Rightarrow> bool" where
  "proper (l, u, d) \<longleftrightarrow> l \<le> u"

definition disjoint_sorted :: "entry list \<Rightarrow> bool" where
  "disjoint_sorted es \<longleftrightarrow> sorted_wrt before es \<and> list_all proper es"

definition links :: "interval \<Rightarrow> ptr \<times> ptr \<times> ptr" where
  "links n = (parent n, left_child n, right_child n)"

fun root_of :: "addr tree \<Rightarrow> ptr" where
  "root_of Leaf = None"
| "root_of (Node l a r) = Some a"

fun tree_at :: "iheap \<Rightarrow> ptr \<Rightarrow> addr tree \<Rightarrow> bool" where
  "tree_at h par Leaf \<longleftrightarrow> True"
| "tree_at h par (Node l a r) \<longleftrightarrow>
     map_option links (h a) = Some (par, root_of l, root_of r) \<and>
     tree_at h (Some a) l \<and> tree_at h (Some a) r"

definition irep :: "iheap \<Rightarrow> ptr \<Rightarrow> addr list \<Rightarrow> bool" where
  "irep h root as \<longleftrightarrow> (\<exists>t. root = root_of t \<and> tree_at h None t \<and> inorder t = as \<and> distinct as)"

section \<open>Walking the tree\<close>

lemma root_of_None [simp]: "root_of t = None \<longleftrightarrow> t = Leaf"
  by (cases t) auto

lemma None_root_of [simp]: "None = root_of t \<longleftrightarrow> t = Leaf"
  by (cases t) auto

lemma root_of_Some: "root_of t = Some a \<Longrightarrow> a \<in> set_tree t"
  by (cases t) auto

lemma tree_at_cong:
  "(\<And>a. a \<in> set_tree t \<Longrightarrow> map_option links (h' a) = map_option links (h a)) \<Longrightarrow>
   tree_at h' par t = tree_at h par t"
  by (induction t arbitrary: par) auto

lemma tree_at_live: "tree_at h par t \<Longrightarrow> a \<in> set_tree t \<Longrightarrow> \<exists>n. h a = Some n"
  by (induction t arbitrary: par) auto

lemma split_cases:
  assumes "us @ x # vs = xs @ a # ys"
  obtains (left) zs where "us = xs @ a # zs" "ys = zs @ x # vs"
  | (here) "us = xs" "x = a" "vs = ys"
  | (right) zs where "xs = us @ x # zs" "vs = zs @ a # ys"
  using assms by (auto simp: append_eq_append_conv2 append_eq_Cons_conv Cons_eq_append_conv)

lemma minimum_interval_tree:
  "tree_at h par t \<Longrightarrow> t \<noteq> Leaf \<Longrightarrow> minimum_interval h (root_of t) = Some (Some (hd (inorder t)))"
proof (induction t arbitrary: par)
  case Leaf
  then show ?case by simp
next
  case (Node l x r)
  then obtain n where n: "h x = Some n" "left_child n = root_of l"
    by (auto simp: links_def)
  show ?case
  proof (cases l)
    case Leaf
    with n show ?thesis by (simp add: minimum_interval.simps)
  next
    case (Node ll y lr)
    with n Node.prems have "minimum_interval h (Some x) = minimum_interval h (root_of l)"
      by (simp add: minimum_interval.simps [of h "Some x"])
    with Node Node.IH(1) [of "Some x"] Node.prems show ?thesis
      by (simp add: hd_append)
  qed
qed

lemma maximum_interval_tree:
  "tree_at h par t \<Longrightarrow> t \<noteq> Leaf \<Longrightarrow> maximum_interval h (root_of t) = Some (Some (last (inorder t)))"
proof (induction t arbitrary: par)
  case Leaf
  then show ?case by simp
next
  case (Node l x r)
  then obtain n where n: "h x = Some n" "right_child n = root_of r"
    by (auto simp: links_def)
  show ?case
  proof (cases r)
    case Leaf
    with n show ?thesis by (simp add: maximum_interval.simps)
  next
    case (Node rl y rr)
    with n Node.prems have "maximum_interval h (Some x) = maximum_interval h (root_of r)"
      by (simp add: maximum_interval.simps [of h "Some x"])
    with Node Node.IH(2) [of "Some x"] Node.prems show ?thesis
      by simp
  qed
qed

lemma next_loop_left:
  assumes "map_option links (h x) = Some (par, root_of l, root_of r)"
    and "root_of l = Some c" and "set_tree l \<inter> set_tree r = {}"
  shows "next_loop h c (Some x) = Some (Some x)"
proof -
  from assms(2,3) have "root_of r \<noteq> Some c"
    using root_of_Some by fastforce
  with assms(1) show ?thesis
    by (auto simp: next_loop.simps [of h c "Some x"] links_def)
qed

lemma next_loop_right:
  assumes "map_option links (h x) = Some (par, root_of l, Some c)"
  shows "next_loop h c (Some x) = next_loop h x par"
  using assms by (auto simp: next_loop.simps [of h c] links_def)

text \<open>
  From a node of a subtree, \<open>next_interval\<close> gives the following node of that subtree,
  or, from the last one, goes on climbing from the root of the subtree.
\<close>

lemma next_interval_subtree:
  assumes "tree_at h par t" and "distinct (inorder t)" and "inorder t = xs @ a # ys"
  shows "next_interval h a =
    (case ys of [] \<Rightarrow> next_loop h (the (root_of t)) par | b # _ \<Rightarrow> Some (Some b))"
  using assms
proof (induction t arbitrary: par xs ys)
  case Leaf
  then show ?case by simp
next
  case (Node l x r)
  from Node.prems(1) have x: "map_option links (h x) = Some (par, root_of l, root_of r)"
    and tl: "tree_at h (Some x) l" and tr: "tree_at h (Some x) r" by auto
  from Node.prems(2) have dl: "distinct (inorder l)" and dr: "distinct (inorder r)"
    and disj: "set_tree l \<inter> set_tree r = {}" by auto
  from Node.prems(3) have eq: "inorder l @ x # inorder r = xs @ a # ys" by simp
  then show ?case
  proof (cases rule: split_cases)
    case (left zs)
    then have "l \<noteq> Leaf" by auto
    then obtain c where c: "root_of l = Some c" by (cases l) auto
    from Node.IH(1) [OF tl dl left(1)] next_loop_left [where h = h, OF x c disj] c left(2)
    show ?thesis by (cases zs) auto
  next
    case here
    from x obtain n where n: "h x = Some n" "right_child n = root_of r" "parent n = par"
      by (auto simp: links_def)
    show ?thesis
    proof (cases r)
      case Leaf
      with n here show ?thesis by (simp add: next_interval_def)
    next
      case (Node rl y rr)
      with n here minimum_interval_tree [OF tr]
      have "next_interval h a = Some (Some (hd (inorder r)))"
        by (simp add: next_interval_def)
      with here Node show ?thesis by (cases ys) auto
    qed
  next
    case (right zs)
    then have "r \<noteq> Leaf" by auto
    then obtain c where c: "root_of r = Some c" by (cases r) auto
    from Node.IH(2) [OF tr dr right(2)] next_loop_right [of h x par l c] x c
    show ?thesis by (cases ys) auto
  qed
qed

lemma prev_loop_right:
  assumes "map_option links (h x) = Some (par, root_of l, root_of r)"
    and "root_of r = Some c" and "set_tree l \<inter> set_tree r = {}"
  shows "prev_loop h c (Some x) = Some (Some x)"
proof -
  from assms(2,3) have "root_of l \<noteq> Some c"
    using root_of_Some by fastforce
  with assms(1) show ?thesis
    by (auto simp: prev_loop.simps [of h c "Some x"] links_def)
qed

lemma prev_loop_left:
  assumes "map_option links (h x) = Some (par, Some c, root_of r)"
  shows "prev_loop h c (Some x) = prev_loop h x par"
  using assms by (auto simp: prev_loop.simps [of h c] links_def)

lemma prev_interval_subtree:
  assumes "tree_at h par t" and "distinct (inorder t)" and "inorder t = xs @ a # ys"
  shows "prev_interval h a =
    (if xs = [] then prev_loop h (the (root_of t)) par else Some (Some (last xs)))"
  using assms
proof (induction t arbitrary: par xs ys)
  case Leaf
  then show ?case by simp
next
  case (Node l x r)
  from Node.prems(1) have x: "map_option links (h x) = Some (par, root_of l, root_of r)"
    and tl: "tree_at h (Some x) l" and tr: "tree_at h (Some x) r" by auto
  from Node.prems(2) have dl: "distinct (inorder l)" and dr: "distinct (inorder r)"
    and disj: "set_tree l \<inter> set_tree r = {}" by auto
  from Node.prems(3) have eq: "inorder l @ x # inorder r = xs @ a # ys" by simp
  then show ?case
  proof (cases rule: split_cases)
    case (left zs)
    then have "l \<noteq> Leaf" by auto
    then obtain c where c: "root_of l = Some c" by (cases l) auto
    from Node.IH(1) [OF tl dl left(1)] prev_loop_left [of h x par c r] x c
    show ?thesis by auto
  next
    case here
    from x obtain n where n: "h x = Some n" "left_child n = root_of l" "parent n = par"
      by (auto simp: links_def)
    show ?thesis
    proof (cases l)
      case Leaf
      with n here show ?thesis by (simp add: prev_interval_def)
    next
      case (Node ll y lr)
      with n here maximum_interval_tree [OF tl]
      show ?thesis by (auto simp: prev_interval_def)
    qed
  next
    case (right zs)
    then have "r \<noteq> Leaf" by auto
    then obtain c where c: "root_of r = Some c" by (cases r) auto
    from Node.IH(2) [OF tr dr right(2)] prev_loop_right [where h = h, OF x c disj] c right(1)
    show ?thesis by auto
  qed
qed

lemma next_interval_irep:
  assumes "irep h root (xs @ a # ys)"
  shows "next_interval h a = Some (case ys of [] \<Rightarrow> None | b # _ \<Rightarrow> Some b)"
proof -
  from assms obtain t where t: "tree_at h None t" "distinct (inorder t)" "inorder t = xs @ a # ys"
    by (auto simp: irep_def)
  from next_interval_subtree [OF t] show ?thesis
    by (auto simp: next_loop.simps split: list.split)
qed

lemma prev_interval_irep:
  assumes "irep h root (xs @ a # ys)"
  shows "prev_interval h a = Some (if xs = [] then None else Some (last xs))"
proof -
  from assms obtain t where t: "tree_at h None t" "distinct (inorder t)" "inorder t = xs @ a # ys"
    by (auto simp: irep_def)
  from prev_interval_subtree [OF t] show ?thesis
    by (auto simp: prev_loop.simps)
qed

lemma minimum_interval_irep:
  assumes "irep h root as"
  shows "minimum_interval h root = Some (case as of [] \<Rightarrow> None | a # _ \<Rightarrow> Some a)"
proof -
  from assms obtain t where t: "root = root_of t" "tree_at h None t" "inorder t = as"
    by (auto simp: irep_def)
  show ?thesis
  proof (cases "t = Leaf")
    case True
    with t show ?thesis by (auto simp: minimum_interval.simps)
  next
    case False
    with t minimum_interval_tree [OF t(2) False] show ?thesis
      by (cases as) auto
  qed
qed

lemma maximum_interval_irep:
  assumes "irep h root as"
  shows "maximum_interval h root = Some (if as = [] then None else Some (last as))"
proof -
  from assms obtain t where t: "root = root_of t" "tree_at h None t" "inorder t = as"
    by (auto simp: irep_def)
  show ?thesis
  proof (cases "t = Leaf")
    case True
    with t show ?thesis by (auto simp: maximum_interval.simps)
  next
    case False
    with t maximum_interval_tree [OF t(2) False] show ?thesis by auto
  qed
qed

section \<open>Overlap and search\<close>

fun overlaps :: "entry \<Rightarrow> entry \<Rightarrow> bool" where
  "overlaps (l, u, d) (l', u', d') \<longleftrightarrow> l \<le> u' \<and> l' \<le> u"

lemma check_overlap_entry: "check_overlap a b = overlaps (entry_of a) (entry_of b)"
  by (simp add: check_overlap_def entry_of_def)

definition hits :: "iheap \<Rightarrow> addr \<Rightarrow> interval \<Rightarrow> bool" where
  "hits h a i \<longleftrightarrow> overlaps (entry_of (the (h a))) (entry_of i)"

lemma entries_Nil [simp]: "entries h [] = []"
  by (simp add: entries_def)

lemma entries_Cons [simp]: "entries h (a # as) = entry_of (the (h a)) # entries h as"
  by (simp add: entries_def)

lemma entries_append [simp]: "entries h (as @ bs) = entries h as @ entries h bs"
  by (simp add: entries_def)

lemma length_entries [simp]: "length (entries h as) = length as"
  by (simp add: entries_def)

lemma disjoint_sorted_append:
  "disjoint_sorted (es @ fs) \<longleftrightarrow>
     disjoint_sorted es \<and> disjoint_sorted fs \<and> (\<forall>e\<in>set es. \<forall>f\<in>set fs. before e f)"
  by (auto simp: disjoint_sorted_def sorted_wrt_append)

lemma disjoint_sorted_Cons:
  "disjoint_sorted (e # es) \<longleftrightarrow> proper e \<and> disjoint_sorted es \<and> (\<forall>f\<in>set es. before e f)"
  by (auto simp: disjoint_sorted_def)

lemma disjoint_sorted_Nil [simp]: "disjoint_sorted []"
  by (simp add: disjoint_sorted_def)

lemma disjoint_sorted_proper: "disjoint_sorted es \<Longrightarrow> e \<in> set es \<Longrightarrow> proper e"
  by (auto simp: disjoint_sorted_def list_all_iff)

text \<open>What the descent relies on: an interval that overlaps lies on the side it takes.\<close>

lemma overlap_goes_left:
  assumes "before c e" and "proper e" and "overlaps c i"
  shows "fst i < fst e"
  using assms by (cases c; cases e; cases i) auto

lemma overlap_goes_right:
  assumes "before e c" and "proper e" and "proper c" and "overlaps c i" and "\<not> overlaps e i"
  shows "\<not> fst i < fst e"
  using assms by (cases c; cases e; cases i) auto

lemma overlap_between:
  assumes "before a b" and "before b c" and "proper b" and "overlaps a i" and "overlaps c i"
  shows "overlaps b i"
  using assms by (cases a; cases b; cases c; cases i) auto

lemma search_loop_tree:
  assumes "tree_at h par t" and "disjoint_sorted (entries h (inorder t))"
  shows "\<exists>r. search_loop h (root_of t) i = Some r \<and>
    (case r of None \<Rightarrow> \<forall>a\<in>set_tree t. \<not> hits h a i | Some a \<Rightarrow> a \<in> set_tree t \<and> hits h a i)"
  using assms
proof (induction t arbitrary: par)
  case Leaf
  then show ?case by (simp add: search_loop.simps)
next
  case (Node l x r)
  from Node.prems obtain n where n: "h x = Some n" "left_child n = root_of l" "right_child n = root_of r"
    and tl: "tree_at h (Some x) l" and tr: "tree_at h (Some x) r"
    by (auto simp: links_def)
  let ?e = "entry_of n"
  from Node.prems(2) n have dl: "disjoint_sorted (entries h (inorder l))"
    and dr: "disjoint_sorted (entries h (inorder r))" and px: "proper ?e"
    and bl: "\<And>a. a \<in> set_tree l \<Longrightarrow> before (entry_of (the (h a))) ?e"
    and br: "\<And>a. a \<in> set_tree r \<Longrightarrow> before ?e (entry_of (the (h a)))"
    and pr: "\<And>a. a \<in> set_tree r \<Longrightarrow> proper (entry_of (the (h a)))"
    by (auto simp: disjoint_sorted_append disjoint_sorted_Cons entries_def
        intro: disjoint_sorted_proper)
  have unfold: "search_loop h (Some x) i =
      (if overlaps ?e (entry_of i) then Some (Some x)
       else if low i < low n then search_loop h (root_of l) i else search_loop h (root_of r) i)"
    using n by (simp add: search_loop.simps [of h "Some x"] check_overlap_entry)
  show ?case
  proof (cases "overlaps ?e (entry_of i)")
    case True
    with n unfold show ?thesis by (auto simp: hits_def)
  next
    case miss: False
    show ?thesis
    proof (cases "low i < low n")
      case True
      have "\<not> hits h a i" if "a \<in> set_tree r" for a
        using overlap_goes_right [OF br [OF that] px pr [OF that] _ miss] True
        by (auto simp: hits_def entry_of_def)
      moreover obtain q where "search_loop h (root_of l) i = Some q"
        "case q of None \<Rightarrow> \<forall>a\<in>set_tree l. \<not> hits h a i | Some a \<Rightarrow> a \<in> set_tree l \<and> hits h a i"
        using Node.IH(1) [OF tl dl] by blast
      ultimately show ?thesis
        using unfold True miss n by (cases q) (auto simp: hits_def)
    next
      case False
      have "\<not> hits h a i" if "a \<in> set_tree l" for a
        using overlap_goes_left [OF bl [OF that] px] False
        by (auto simp: hits_def entry_of_def)
      moreover obtain q where "search_loop h (root_of r) i = Some q"
        "case q of None \<Rightarrow> \<forall>a\<in>set_tree r. \<not> hits h a i | Some a \<Rightarrow> a \<in> set_tree r \<and> hits h a i"
        using Node.IH(2) [OF tr dr] by blast
      ultimately show ?thesis
        using unfold False miss n by (cases q) (auto simp: hits_def)
    qed
  qed
qed

lemma irep_live: "irep h root as \<Longrightarrow> a \<in> set as \<Longrightarrow> \<exists>n. h a = Some n"
  by (auto simp: irep_def dest: tree_at_live)

lemma irep_distinct: "irep h root as \<Longrightarrow> distinct as"
  by (auto simp: irep_def)

text \<open>Walking back from an overlapping node stops at the first overlapping one.\<close>

lemma search_back_irep:
  assumes "irep h root (xs @ a # ys)"
    and "disjoint_sorted (entries h (xs @ a # ys))" and "hits h a i"
  shows "search_back h a (if xs = [] then None else Some (last xs)) i =
    Some (find (\<lambda>b. hits h b i) (xs @ [a]))"
  using assms
proof (induction xs arbitrary: a ys rule: rev_induct)
  case Nil
  then show ?case by (simp add: search_back.simps)
next
  case (snoc b xs)
  from irep_live [OF snoc.prems(1)] obtain n where n: "h b = Some n" by auto
  have unfold: "search_back h a (Some b) i =
      (if hits h b i then do { test' \<leftarrow> prev_interval h b; search_back h b test' i } else Some (Some a))"
    using n by (simp add: search_back.simps [of h a] hits_def check_overlap_entry)
  show ?case
  proof (cases "hits h b i")
    case True
    have rep: "irep h root (xs @ b # (a # ys))" and ds: "disjoint_sorted (entries h (xs @ b # (a # ys)))"
      using snoc.prems by simp_all
    have "find (\<lambda>b. hits h b i) (xs @ [b, a]) = find (\<lambda>b. hits h b i) (xs @ [b])"
      using True by (induction xs) auto
    with True unfold prev_interval_irep [OF rep] snoc.IH [OF rep ds True] show ?thesis
      by simp
  next
    case False
    have "\<not> hits h c i" if "c \<in> set xs" for c
    proof
      assume "hits h c i"
      with that snoc.prems(2,3) have "hits h b i"
        using overlap_between [of "entry_of (the (h c))" "entry_of (the (h b))" "entry_of (the (h a))" "entry_of i"]
        by (auto simp: hits_def disjoint_sorted_append disjoint_sorted_Cons entries_def)
      with False show False by contradiction
    qed
    then have "find (\<lambda>b. hits h b i) (xs @ [b, a]) = Some a"
      using False snoc.prems(3) by (induction xs) auto
    with False unfold show ?thesis by simp
  qed
qed

lemma find_append_hit: "P a \<Longrightarrow> find P (xs @ a # ys) = find P (xs @ [a])"
  by (induction xs) auto

lemma search_interval_irep:
  assumes "irep h root as" and "disjoint_sorted (entries h as)"
  shows "search_interval h root start cnt = Some (find (\<lambda>a. hits h a (query start cnt)) as)"
proof -
  let ?i = "query start cnt"
  from assms(1) obtain t where t: "root = root_of t" "tree_at h None t" "inorder t = as"
    by (auto simp: irep_def)
  obtain r where r: "search_loop h root ?i = Some r"
    "case r of None \<Rightarrow> \<forall>a\<in>set_tree t. \<not> hits h a ?i | Some a \<Rightarrow> a \<in> set_tree t \<and> hits h a ?i"
    using search_loop_tree [OF t(2), of ?i] assms(2) t by auto
  show ?thesis
  proof (cases r)
    case None
    with r t have "find (\<lambda>a. hits h a ?i) as = None"
      by (auto simp: find_None_iff simp flip: set_inorder)
    with r None show ?thesis by (simp add: search_interval_def)
  next
    case (Some a)
    with r(2) have "a \<in> set as" "hits h a ?i"
      using t(3) by (auto simp flip: set_inorder)
    then obtain xs ys where as: "as = xs @ a # ys" by (meson split_list)
    with assms prev_interval_irep [of h root xs a ys]
      search_back_irep [of h root xs a ys ?i] \<open>hits h a ?i\<close> r(1) Some
    show ?thesis by (simp add: search_interval_def find_append_hit [of _ a xs ys])
  qed
qed

section \<open>Insertion\<close>

text \<open>
  What inserting \<open>node\<close> does to a heap: nothing but links changes, and outside the
  old nodes and \<open>node\<close> nothing changes at all.
\<close>

definition relinked :: "addr set \<Rightarrow> iheap \<Rightarrow> iheap \<Rightarrow> bool" where
  "relinked S h h' \<longleftrightarrow> (\<forall>a. a \<notin> S \<longrightarrow> h' a = h a) \<and>
     (\<forall>a. map_option entry_of (h' a) = map_option entry_of (h a))"

lemma relinked_entry: "relinked S h h' \<Longrightarrow> entry_of (the (h' a)) = entry_of (the (h a)) \<or> h a = None"
  by (cases "h a"; cases "h' a") (auto simp: relinked_def dest: spec [of _ a])

lemma relinked_entries:
  "relinked S h h' \<Longrightarrow> \<forall>a\<in>set as. h a \<noteq> None \<Longrightarrow> entries h' as = entries h as"
  using relinked_entry by (fastforce simp: entries_def)

lemma relinked_Some:
  "relinked S h h' \<Longrightarrow> h a = Some n \<Longrightarrow> \<exists>n'. h' a = Some n' \<and> entry_of n' = entry_of n"
  by (cases "h' a") (auto simp: relinked_def dest!: spec [of _ a])

lemma relinked_mono: "relinked S h h' \<Longrightarrow> S \<subseteq> T \<Longrightarrow> relinked T h h'"
  by (auto simp: relinked_def)

lemma relinked_dom: "relinked S h h' \<Longrightarrow> (h' a = None) = (h a = None)"
  by (auto simp: relinked_def dest!: spec [of _ a] split: option.splits)

fun tree_insert :: "iheap \<Rightarrow> u32 \<Rightarrow> addr \<Rightarrow> addr tree \<Rightarrow> addr tree" where
  "tree_insert h k node Leaf = Node Leaf node Leaf"
| "tree_insert h k node (Node l a r) =
     (if k < low (the (h a)) then Node (tree_insert h k node l) a r
      else Node l a (tree_insert h k node r))"

lemma set_tree_insert [simp]: "set_tree (tree_insert h k node t) = insert node (set_tree t)"
  by (induction t) auto

lemma root_of_tree_insert: "t \<noteq> Leaf \<Longrightarrow> root_of (tree_insert h k node t) = root_of t"
  by (cases t) auto

text \<open>Hanging a fresh node below \<open>x\<close>.\<close>

lemma tree_at_fresh_leaf:
  "h node = Some n \<Longrightarrow> left_child n = None \<Longrightarrow> right_child n = None \<Longrightarrow>
   tree_at (h(node \<mapsto> n\<lparr>parent := Some x\<rparr>)) (Some x) (Node Leaf node Leaf)"
  by (simp add: links_def)

lemma insert_loop_tree:
  assumes "tree_at h par t" and "t \<noteq> Leaf" and "distinct (inorder t)"
    and "h node = Some n" and "left_child n = None" and "right_child n = None"
    and "node \<notin> set_tree t" and "\<forall>a\<in>set_tree t. \<not> hits h a n"
  shows "\<exists>h'. insert_loop h (the (root_of t)) node = Some (INTERVAL_SUCCESS, h') \<and>
    tree_at h' par (tree_insert h (low n) node t) \<and> relinked (insert node (set_tree t)) h h'"
  using assms
proof (induction t arbitrary: par)
  case Leaf
  then show ?case by simp
next
  case (Node l x r)
  from Node.prems(1) obtain m where m: "h x = Some m" "links m = (par, root_of l, root_of r)"
    and tl: "tree_at h (Some x) l" and tr: "tree_at h (Some x) r"
    by auto
  from Node.prems(3,7) have d: "distinct (inorder l)" "distinct (inorder r)" "x \<notin> set_tree l"
    "x \<notin> set_tree r" "set_tree l \<inter> set_tree r = {}" "node \<noteq> x"
    by auto
  have miss: "\<not> check_overlap m n"
    using Node.prems(8) m by (simp add: hits_def check_overlap_entry)
  let ?k = "low n"
  have frame: "tree_at h' q s = tree_at h q s"
    if "relinked S h h'" "S \<inter> set_tree s = {}" for h' q s S
    using that by (intro tree_at_cong) (auto simp: relinked_def)
  show ?case
  proof (cases "?k < low m")
    case True
    show ?thesis
    proof (cases "l = Leaf")
      case leaf: True
      let ?h = "h(x \<mapsto> m\<lparr>left_child := Some node\<rparr>, node \<mapsto> n\<lparr>parent := Some x\<rparr>)"
      have "insert_loop h x node = Some (INTERVAL_SUCCESS, ?h)"
        using m miss True leaf Node.prems(4) d by (simp add: insert_loop.simps [of h x] links_def)
      moreover have "relinked (insert node (set_tree (Node l x r))) h ?h"
        using m Node.prems(4) by (auto simp: relinked_def entry_of_def)
      moreover have "tree_at ?h (Some x) r = tree_at h (Some x) r"
        using Node.prems(7) d by (intro tree_at_cong) auto
      ultimately show ?thesis
        using m True leaf tr Node.prems(5,6) d by (auto simp: links_def)
    next
      case False
      then obtain c where c: "root_of l = Some c" by (cases l) auto
      obtain h' where h': "insert_loop h c node = Some (INTERVAL_SUCCESS, h')"
        "tree_at h' (Some x) (tree_insert h ?k node l)" "relinked (insert node (set_tree l)) h h'"
        using Node.IH(1) [OF tl False d(1) Node.prems(4-6)] Node.prems(7,8) c by auto
      have "insert_loop h x node = insert_loop h c node"
        using m miss True c Node.prems(4) by (simp add: insert_loop.simps [of h x] links_def)
      moreover have "h' x = h x" using h'(3) d by (auto simp: relinked_def)
      moreover have "tree_at h' (Some x) r"
        using frame [OF h'(3), of r] tr d Node.prems(7) by auto
      ultimately show ?thesis
        using h' m True root_of_tree_insert [OF False] c by (auto intro: relinked_mono)
    qed
  next
    case False
    show ?thesis
    proof (cases "r = Leaf")
      case leaf: True
      let ?h = "h(x \<mapsto> m\<lparr>right_child := Some node\<rparr>, node \<mapsto> n\<lparr>parent := Some x\<rparr>)"
      have "insert_loop h x node = Some (INTERVAL_SUCCESS, ?h)"
        using m miss False leaf Node.prems(4) d by (simp add: insert_loop.simps [of h x] links_def)
      moreover have "relinked (insert node (set_tree (Node l x r))) h ?h"
        using m Node.prems(4) by (auto simp: relinked_def entry_of_def)
      moreover have "tree_at ?h (Some x) l = tree_at h (Some x) l"
        using Node.prems(7) d by (intro tree_at_cong) auto
      ultimately show ?thesis
        using m False leaf tl Node.prems(5,6) d by (auto simp: links_def)
    next
      case right: False
      then obtain c where c: "root_of r = Some c" by (cases r) auto
      obtain h' where h': "insert_loop h c node = Some (INTERVAL_SUCCESS, h')"
        "tree_at h' (Some x) (tree_insert h ?k node r)" "relinked (insert node (set_tree r)) h h'"
        using Node.IH(2) [OF tr right d(2) Node.prems(4-6)] Node.prems(7,8) c by auto
      have "insert_loop h x node = insert_loop h c node"
        using m miss False c Node.prems(4) by (simp add: insert_loop.simps [of h x] links_def)
      moreover have "h' x = h x" using h'(3) d by (auto simp: relinked_def)
      moreover have "tree_at h' (Some x) l"
        using frame [OF h'(3), of l] tl d Node.prems(7) by auto
      ultimately show ?thesis
        using h' m False root_of_tree_insert [OF right] c by (auto intro: relinked_mono)
    qed
  qed
qed

text \<open>A node that overlaps one of the tree is refused and the heap is unchanged.\<close>

lemma insert_loop_overlap:
  assumes "tree_at h par t" and "t \<noteq> Leaf" and "disjoint_sorted (entries h (inorder t))"
    and "h node = Some n" and "b \<in> set_tree t" and "hits h b n"
  shows "insert_loop h (the (root_of t)) node = Some (INTERVAL_OVERLAP, h)"
  using assms
proof (induction t arbitrary: par)
  case Leaf
  then show ?case by simp
next
  case (Node l x r)
  from Node.prems(1) obtain m where m: "h x = Some m" "links m = (par, root_of l, root_of r)"
    and tl: "tree_at h (Some x) l" and tr: "tree_at h (Some x) r"
    by auto
  let ?e = "entry_of m"
  from Node.prems(3) m have dl: "disjoint_sorted (entries h (inorder l))"
    and dr: "disjoint_sorted (entries h (inorder r))" and px: "proper ?e"
    and bl: "\<And>a. a \<in> set_tree l \<Longrightarrow> before (entry_of (the (h a))) ?e"
    and br: "\<And>a. a \<in> set_tree r \<Longrightarrow> before ?e (entry_of (the (h a)))"
    and pr: "\<And>a. a \<in> set_tree r \<Longrightarrow> proper (entry_of (the (h a)))"
    by (auto simp: disjoint_sorted_append disjoint_sorted_Cons entries_def
        intro: disjoint_sorted_proper)
  show ?case
  proof (cases "check_overlap m n")
    case True
    with m Node.prems(4) show ?thesis by (simp add: insert_loop.simps [of h x])
  next
    case miss: False
    with Node.prems(5,6) m consider (l) "b \<in> set_tree l" | (r) "b \<in> set_tree r"
      by (auto simp: hits_def check_overlap_entry)
    then show ?thesis
    proof cases
      case l
      then have "l \<noteq> Leaf" by auto
      moreover have "low n < low m"
        using overlap_goes_left [OF bl [OF l] px, of "entry_of n"] Node.prems(6)
        by (simp add: hits_def entry_of_def)
      ultimately show ?thesis
        using Node.IH(1) [OF tl _ dl Node.prems(4) l Node.prems(6)] m miss Node.prems(4)
        by (cases l) (auto simp: insert_loop.simps [of h x] links_def)
    next
      case r
      then have "r \<noteq> Leaf" by auto
      moreover have "\<not> low n < low m"
        using overlap_goes_right [OF br [OF r] px pr [OF r], of "entry_of n"] Node.prems(6) miss
        by (simp add: hits_def check_overlap_entry) (simp add: entry_of_def)
      ultimately show ?thesis
        using Node.IH(2) [OF tr _ dr Node.prems(4) r Node.prems(6)] m miss Node.prems(4)
        by (cases r) (auto simp: insert_loop.simps [of h x] links_def)
    qed
  qed
qed

text \<open>Where the new node lands: between the intervals below it and those above it.\<close>

lemma not_overlap_cases:
  assumes "proper e" and "proper i" and "\<not> overlaps e i"
  shows "if fst i < fst e then before i e else before e i"
  using assms by (cases e; cases i) auto

lemma inorder_tree_insert:
  assumes "disjoint_sorted (entries h (inorder t))" and "proper (entry_of n)"
    and "\<forall>a\<in>set_tree t. \<not> hits h a n"
  shows "\<exists>us vs. inorder t = us @ vs \<and> inorder (tree_insert h (low n) node t) = us @ node # vs \<and>
    (\<forall>a\<in>set us. before (entry_of (the (h a))) (entry_of n)) \<and>
    (\<forall>a\<in>set vs. before (entry_of n) (entry_of (the (h a))))"
  using assms
proof (induction t)
  case Leaf
  then show ?case by simp
next
  case (Node l x r)
  let ?e = "\<lambda>a. entry_of (the (h a))"
  from Node.prems(1) have dl: "disjoint_sorted (entries h (inorder l))"
    and dr: "disjoint_sorted (entries h (inorder r))" and px: "proper (?e x)"
    and bl: "\<And>a. a \<in> set_tree l \<Longrightarrow> before (?e a) (?e x)"
    and br: "\<And>a. a \<in> set_tree r \<Longrightarrow> before (?e x) (?e a)"
    by (auto simp: disjoint_sorted_append disjoint_sorted_Cons entries_def)
  have side: "if fst (entry_of n) < fst (?e x) then before (entry_of n) (?e x) else before (?e x) (entry_of n)"
    using not_overlap_cases [OF px Node.prems(2)] Node.prems(3) by (simp add: hits_def)
  have trans: "before a c" if "before a b" "before b c" "proper b" for a b c
    using that by (cases a; cases b; cases c) auto
  show ?case
  proof (cases "low n < low (the (h x))")
    case True
    then have bx: "before (entry_of n) (?e x)" using side by (simp add: entry_of_def)
    obtain us vs where "inorder l = us @ vs" "inorder (tree_insert h (low n) node l) = us @ node # vs"
      "\<forall>a\<in>set us. before (?e a) (entry_of n)" "\<forall>a\<in>set vs. before (entry_of n) (?e a)"
      using Node.IH(1) [OF dl Node.prems(2)] Node.prems(3) by auto
    moreover have "before (entry_of n) (?e a)" if "a \<in> set_tree r" for a
      using trans [OF bx br [OF that] px] .
    ultimately show ?thesis
      using True bx by (intro exI [of _ us] exI [of _ "vs @ x # inorder r"]) auto
  next
    case False
    then have bx: "before (?e x) (entry_of n)" using side by (simp add: entry_of_def)
    obtain us vs where "inorder r = us @ vs" "inorder (tree_insert h (low n) node r) = us @ node # vs"
      "\<forall>a\<in>set us. before (?e a) (entry_of n)" "\<forall>a\<in>set vs. before (entry_of n) (?e a)"
      using Node.IH(2) [OF dr Node.prems(2)] Node.prems(3) by auto
    moreover have "before (?e a) (entry_of n)" if "a \<in> set_tree l" for a
      using trans [OF bl [OF that] bx px] .
    ultimately show ?thesis
      using False bx by (intro exI [of _ "inorder l @ x # us"] exI [of _ vs]) auto
  qed
qed

lemma insert_interval_overlap:
  assumes "irep h root as" and "disjoint_sorted (entries h as)"
    and "h node = Some n" and "b \<in> set as" and "hits h b n"
  shows "insert_interval h root node = Some (INTERVAL_OVERLAP, h, root)"
proof -
  from assms(1) obtain t where t: "root = root_of t" "tree_at h None t" "inorder t = as"
    by (auto simp: irep_def)
  with assms(4) have "t \<noteq> Leaf" by auto
  moreover from t assms(4) have "b \<in> set_tree t"
    using set_inorder by fastforce
  ultimately show ?thesis
    using insert_loop_overlap [OF t(2) _ _ assms(3) _ assms(5)] assms(2) t
    by (cases t) (auto simp: insert_interval_def)
qed

lemma insert_interval_success:
  assumes rep: "irep h root as" and ds: "disjoint_sorted (entries h as)"
    and node: "h node = Some n" "parent n = None" "left_child n = None" "right_child n = None"
    and fresh: "node \<notin> set as" and ok: "proper (entry_of n)"
    and miss: "\<forall>a\<in>set as. \<not> hits h a n"
  obtains h' root' us vs where
    "insert_interval h root node = Some (INTERVAL_SUCCESS, h', root')"
    "as = us @ vs" "irep h' root' (us @ node # vs)" "relinked (insert node (set as)) h h'"
    "disjoint_sorted (entries h' (us @ node # vs))"
proof -
  from rep obtain t where t: "root = root_of t" "tree_at h None t" "inorder t = as" and d: "distinct as"
    by (auto simp: irep_def)
  then have st: "set as = set_tree t" by auto
  obtain us vs where uv: "as = us @ vs" "inorder (tree_insert h (low n) node t) = us @ node # vs"
    "\<forall>a\<in>set us. before (entry_of (the (h a))) (entry_of n)"
    "\<forall>a\<in>set vs. before (entry_of n) (entry_of (the (h a)))"
    using inorder_tree_insert [of h t n node] ds ok miss t st by auto
  obtain h' root' where h': "insert_interval h root node = Some (INTERVAL_SUCCESS, h', root')"
    "root' = root_of (tree_insert h (low n) node t)"
    "tree_at h' None (tree_insert h (low n) node t)" "relinked (insert node (set as)) h h'"
  proof (cases "t = Leaf")
    case True
    with t node show ?thesis
      by (intro that [of h "Some node"]) (auto simp: insert_interval_def links_def relinked_def)
  next
    case False
    then obtain c where c: "root_of t = Some c" by (cases t) auto
    obtain h' where "insert_loop h c node = Some (INTERVAL_SUCCESS, h')"
      "tree_at h' None (tree_insert h (low n) node t)" "relinked (insert node (set as)) h h'"
      using insert_loop_tree [OF t(2) False _ node(1,3,4)] t d fresh miss st c by auto
    with c t(1) root_of_tree_insert [OF False] show ?thesis
      by (intro that [of h' root]) (auto simp: insert_interval_def)
  qed
  have "irep h' root' (us @ node # vs)"
    using h' uv d fresh by (auto simp: irep_def intro!: exI [of _ "tree_insert h (low n) node t"])
  moreover have "entries h' (us @ node # vs) = entries h (us @ node # vs)"
    using h'(4) irep_live [OF rep] uv(1) node(1) by (intro relinked_entries) auto
  moreover have "disjoint_sorted (entries h (us @ node # vs))"
    using ds uv ok node(1)
    by (auto simp: disjoint_sorted_append disjoint_sorted_Cons entries_def)
  ultimately show ?thesis
    using that h' uv(1) by simp
qed

section \<open>Removal\<close>

fun tree_unlink :: "addr \<Rightarrow> addr tree \<Rightarrow> addr tree" where
  "tree_unlink s Leaf = Leaf"
| "tree_unlink s (Node l a r) =
     (if a = s then (if l = Leaf then r else l)
      else if s \<in> set_tree l then Node (tree_unlink s l) a r
      else Node l a (tree_unlink s r))"

text \<open>A node that is its own only child holder: at most one of its subtrees is not empty.\<close>

fun one_child :: "addr \<Rightarrow> addr tree \<Rightarrow> bool" where
  "one_child s Leaf \<longleftrightarrow> True"
| "one_child s (Node l a r) \<longleftrightarrow>
     (if a = s then l = Leaf \<or> r = Leaf else one_child s l \<and> one_child s r)"

lemma inorder_tree_unlink:
  "distinct (inorder t) \<Longrightarrow> s \<in> set_tree t \<Longrightarrow> one_child s t \<Longrightarrow>
   inorder (tree_unlink s t) = remove1 s (inorder t)"
  by (induction t) (auto simp: remove1_append)

definition child_of :: "interval \<Rightarrow> ptr" where
  "child_of n = (case left_child n of Some l \<Rightarrow> Some l | None \<Rightarrow> right_child n)"

text \<open>The heap after the links around \<open>s\<close> have been closed.\<close>

definition closed_over :: "iheap \<Rightarrow> addr \<Rightarrow> interval \<Rightarrow> iheap \<Rightarrow> bool" where
  "closed_over h s n h' \<longleftrightarrow>
     (\<forall>a. a \<noteq> s \<longrightarrow> Some a \<noteq> child_of n \<longrightarrow> Some a \<noteq> parent n \<longrightarrow> map_option links (h' a) = map_option links (h a)) \<and>
     (\<forall>c m. child_of n = Some c \<longrightarrow> h c = Some m \<longrightarrow>
        map_option links (h' c) = Some (parent n, left_child m, right_child m)) \<and>
     (\<forall>p m. parent n = Some p \<longrightarrow> h p = Some m \<longrightarrow>
        map_option links (h' p) = Some (if left_child m = Some s then (parent m, child_of n, right_child m)
          else (parent m, left_child m, child_of n)))"

lemma tree_at_reparent:
  assumes "tree_at h q t" and "\<And>a. a \<in> set_tree t \<Longrightarrow> Some a \<noteq> root_of t \<Longrightarrow> map_option links (h' a) = map_option links (h a)"
    and "\<And>c m. root_of t = Some c \<Longrightarrow> h c = Some m \<Longrightarrow> map_option links (h' c) = Some (q', left_child m, right_child m)"
    and "distinct (inorder t)"
  shows "tree_at h' q' t"
proof (cases t)
  case Leaf
  then show ?thesis by simp
next
  case (Node l a r)
  from assms(1) Node obtain m where m: "h a = Some m" "links m = (q, root_of l, root_of r)" by auto
  have "tree_at h' (Some a) l = tree_at h (Some a) l" "tree_at h' (Some a) r = tree_at h (Some a) r"
    using assms(2,4) Node by (auto intro!: tree_at_cong)
  with m assms(1) assms(3) [of a m] Node show ?thesis by (auto simp: links_def)
qed

lemma tree_at_neighbours:
  assumes "tree_at h par t" and "s \<in> set_tree t" and "h s = Some n"
  shows "(\<forall>c. child_of n = Some c \<longrightarrow> c \<in> set_tree t) \<and>
    (if Some s = root_of t then parent n = par else \<exists>p\<in>set_tree t. parent n = Some p)"
  using assms
proof (induction t arbitrary: par)
  case Leaf
  then show ?case by simp
next
  case (Node l x r)
  from Node.prems(1) have x: "map_option links (h x) = Some (par, root_of l, root_of r)"
    and tl: "tree_at h (Some x) l" and tr: "tree_at h (Some x) r" by auto
  consider (root) "s = x" | (left) "s \<noteq> x" "s \<in> set_tree l" | (right) "s \<noteq> x" "s \<in> set_tree r"
    using Node.prems(2) by auto
  then show ?case
  proof cases
    case root
    with x Node.prems(3) show ?thesis
      by (auto simp: links_def child_of_def dest: root_of_Some split: option.splits)
  next
    case left
    with Node.IH(1) [OF tl _ Node.prems(3)] show ?thesis by (auto split: if_splits)
  next
    case right
    with Node.IH(2) [OF tr _ Node.prems(3)] show ?thesis by (auto split: if_splits)
  qed
qed

lemma root_of_tree_unlink:
  assumes "tree_at h par t" and "one_child s t" and "h s = Some n"
  shows "root_of (tree_unlink s t) = (if Some s = root_of t then child_of n else root_of t)"
  using assms by (cases t) (auto simp: links_def child_of_def split: option.split)

lemma tree_unlink_at:
  assumes "tree_at h par t" and "distinct (inorder t)" and "s \<in> set_tree t" and "one_child s t"
    and "h s = Some n" and "closed_over h s n h'" and "\<forall>p. par = Some p \<longrightarrow> p \<notin> set_tree t"
  shows "tree_at h' par (tree_unlink s t)"
  using assms
proof (induction t arbitrary: par)
  case Leaf
  then show ?case by simp
next
  case (Node l x r)
  note co = Node.prems(6) [unfolded closed_over_def]
  from Node.prems(1) have x: "map_option links (h x) = Some (par, root_of l, root_of r)"
    and tl: "tree_at h (Some x) l" and tr: "tree_at h (Some x) r" by auto
  from Node.prems(2) have d: "distinct (inorder l)" "distinct (inorder r)" "x \<notin> set_tree l"
    "x \<notin> set_tree r" "set_tree l \<inter> set_tree r = {}" by auto
  consider (root) "s = x" | (left) "s \<noteq> x" "s \<in> set_tree l" | (right) "s \<noteq> x" "s \<in> set_tree r" "s \<notin> set_tree l"
    using Node.prems(3) by auto
  then show ?case
  proof cases
    case root
    define ct where "ct = (if l = Leaf then r else l)"
    have n: "parent n = par" "child_of n = root_of ct"
      using x root Node.prems(4,5) by (auto simp: links_def child_of_def ct_def split: option.split)
    have ct: "tree_at h (Some x) ct" "distinct (inorder ct)" "x \<notin> set_tree ct"
      "\<And>p. par = Some p \<Longrightarrow> p \<notin> set_tree ct"
      using tl tr d Node.prems(7) by (auto simp: ct_def)
    have "tree_at h' par ct"
    proof (rule tree_at_reparent [OF ct(1) _ _ ct(2)])
      fix a
      assume "a \<in> set_tree ct" "Some a \<noteq> root_of ct"
      with ct n root co show "map_option links (h' a) = map_option links (h a)" by metis
    next
      fix c m
      assume "root_of ct = Some c" "h c = Some m"
      with n co show "map_option links (h' c) = Some (par, left_child m, right_child m)" by simp
    qed
    with root show ?thesis by (simp add: ct_def)
  next
    case left
    note nb = tree_at_neighbours [OF tl left(2) Node.prems(5)]
    have sub: "tree_at h' (Some x) (tree_unlink s l)"
      using Node.IH(1) [OF tl d(1) left(2) _ Node.prems(5,6)] Node.prems(4) left d by auto
    have far: "tree_at h' (Some x) r = tree_at h (Some x) r"
      using co nb left d by (intro tree_at_cong) (metis disjoint_iff option.inject)
    have "map_option links (h' x) = Some (par, root_of (tree_unlink s l), root_of r)"
    proof (cases "Some s = root_of l")
      case True
      with nb co x root_of_tree_unlink [OF tl _ Node.prems(5)] Node.prems(4) left show ?thesis
        by (auto simp: links_def)
    next
      case False
      with nb d have "Some x \<noteq> child_of n" "Some x \<noteq> parent n" by (metis option.inject)+
      with False co x left root_of_tree_unlink [OF tl _ Node.prems(5)] Node.prems(4) show ?thesis
        by auto
    qed
    with sub far tr left show ?thesis by simp
  next
    case right
    note nb = tree_at_neighbours [OF tr right(2) Node.prems(5)]
    have sub: "tree_at h' (Some x) (tree_unlink s r)"
      using Node.IH(2) [OF tr d(2) right(2) _ Node.prems(5,6)] Node.prems(4) right d by auto
    have far: "tree_at h' (Some x) l = tree_at h (Some x) l"
      using co nb right d by (intro tree_at_cong) (metis disjoint_iff option.inject)
    have "map_option links (h' x) = Some (par, root_of l, root_of (tree_unlink s r))"
    proof (cases "Some s = root_of r")
      case True
      have "root_of l \<noteq> Some s" using right(3) root_of_Some by blast
      with True nb co x root_of_tree_unlink [OF tr _ Node.prems(5)] Node.prems(4) right show ?thesis
        by (auto simp: links_def)
    next
      case False
      with nb d have "Some x \<noteq> child_of n" "Some x \<noteq> parent n" by (metis option.inject)+
      with False co x right root_of_tree_unlink [OF tr _ Node.prems(5)] Node.prems(4) show ?thesis
        by auto
    qed
    with sub far tl right show ?thesis by simp
  qed
qed

lemma child_not_parent:
  assumes "tree_at h par t" and "distinct (inorder t)" and "s \<in> set_tree t" and "h s = Some n"
    and "child_of n = Some c" and "\<forall>p. par = Some p \<longrightarrow> p \<notin> set_tree t"
  shows "parent n \<noteq> Some c"
  using assms
proof (induction t arbitrary: par)
  case Leaf
  then show ?case by simp
next
  case (Node l x r)
  from tree_at_neighbours [OF Node.prems(1,3,4)] Node.prems(5) have c: "c \<in> set_tree (Node l x r)"
    by blast
  consider (root) "s = x" | (left) "s \<in> set_tree l" | (right) "s \<in> set_tree r"
    using Node.prems(3) by auto
  then show ?case
  proof cases
    case root
    with Node.prems c show ?thesis by (auto simp: links_def)
  next
    case left
    with Node.IH(1) [of "Some x"] Node.prems show ?thesis by auto
  next
    case right
    with Node.IH(2) [of "Some x"] Node.prems show ?thesis by auto
  qed
qed

lemma one_child_links:
  "tree_at h par t \<Longrightarrow> h s = Some n \<Longrightarrow> left_child n = None \<or> right_child n = None \<Longrightarrow> one_child s t"
  by (induction t arbitrary: par) (auto simp: links_def)

lemma right_subtree:
  "tree_at h par t \<Longrightarrow> a \<in> set_tree t \<Longrightarrow> h a = Some n \<Longrightarrow>
   \<exists>r. tree_at h (Some a) r \<and> root_of r = right_child n"
  by (induction t arbitrary: par) (auto simp: links_def)

lemma first_no_left:
  "tree_at h par t \<Longrightarrow> t \<noteq> Leaf \<Longrightarrow> h (hd (inorder t)) = Some m \<Longrightarrow> left_child m = None"
proof (induction t arbitrary: par)
  case Leaf
  then show ?case by simp
next
  case (Node l x r)
  then show ?case
    by (cases "l = Leaf") (auto simp: hd_append links_def)
qed

lemma unlink_interval_irep:
  assumes rep: "irep h root as" and s: "s \<in> set as" "h s = Some n"
    and one: "left_child n = None \<or> right_child n = None"
  obtains h' root' where "unlink_interval h root s = Some (h', root')"
    "irep h' root' (remove1 s as)" "relinked (set as) h h'"
proof -
  from rep obtain t where t: "root = root_of t" "tree_at h None t" "inorder t = as" and d: "distinct as"
    by (auto simp: irep_def)
  then have st: "s \<in> set_tree t" "set as = set_tree t" using s by auto
  have oc: "one_child s t" using one_child_links [OF t(2) s(2) one] .
  note nb = tree_at_neighbours [OF t(2) st(1) s(2)]
  note cnp = child_not_parent [OF t(2) _ st(1) s(2)]
  have live: "\<exists>m. h a = Some m" if "a \<in> set_tree t" for a
    using tree_at_live [OF t(2) that] .
  obtain h1 where h1: "(case child_of n of None \<Rightarrow> Some h
      | Some c \<Rightarrow> heap_upd h c (\<lambda>x. x\<lparr>parent := parent n\<rparr>)) = Some h1"
    "h1 = (case child_of n of None \<Rightarrow> h | Some c \<Rightarrow> h(c \<mapsto> (the (h c))\<lparr>parent := parent n\<rparr>))"
    using nb live by (cases "child_of n") auto
  define root' where "root' = (if parent n = None then child_of n else root)"
  define h' where "h' = (case parent n of None \<Rightarrow> h1
      | Some p \<Rightarrow> h1(p \<mapsto> (if Some s = left_child (the (h1 p)) then (the (h1 p))\<lparr>left_child := child_of n\<rparr>
           else (the (h1 p))\<lparr>right_child := child_of n\<rparr>)))"
  have plive: "\<exists>m. h p = Some m" "h1 p = h p" if "parent n = Some p" for p
  proof -
    show "\<exists>m. h p = Some m" using that nb live by (auto split: if_splits)
    show "h1 p = h p" using that h1(2) cnp d t(3) by (auto split: option.split)
  qed
  have run: "unlink_interval h root s = Some (h', root')"
  proof (cases "parent n")
    case None
    with h1(1) s(2) show ?thesis
      by (simp add: unlink_interval_def child_of_def h'_def root'_def)
  next
    case (Some p)
    with plive obtain m where "h1 p = Some m" by auto
    with Some h1(1) s(2) show ?thesis
      by (simp add: unlink_interval_def child_of_def h'_def root'_def)
  qed
  have co: "closed_over h s n h'"
    unfolding closed_over_def
  proof (intro conjI allI impI)
    fix a
    assume "a \<noteq> s" "Some a \<noteq> child_of n" "Some a \<noteq> parent n"
    then show "map_option links (h' a) = map_option links (h a)"
      by (auto simp: h'_def h1(2) split: option.split)
  next
    fix c m
    assume "child_of n = Some c" "h c = Some m"
    with cnp d t(3) show "map_option links (h' c) = Some (parent n, left_child m, right_child m)"
      by (auto simp: h'_def h1(2) links_def split: option.split)
  next
    fix p m
    assume "parent n = Some p" "h p = Some m"
    with plive show "map_option links (h' p) = Some (if left_child m = Some s then (parent m, child_of n, right_child m)
          else (parent m, left_child m, child_of n))"
      by (auto simp: h'_def links_def)
  qed
  have "root' = root_of (tree_unlink s t)"
    using root_of_tree_unlink [OF t(2) oc s(2)] nb t(1) by (auto simp: root'_def split: if_splits)
  moreover have "tree_at h' None (tree_unlink s t)"
    using tree_unlink_at [OF t(2) _ st(1) oc s(2) co] d t(3) by simp
  ultimately have "irep h' root' (remove1 s as)"
    using inorder_tree_unlink [of t s] st oc d t(3) unfolding irep_def
    by (intro exI [of _ "tree_unlink s t"]) auto
  moreover have "relinked (set as) h h'"
  proof -
    have "map_option entry_of (h1 a) = map_option entry_of (h a)" for a
      using nb live [of a] by (auto simp: h1(2) entry_of_def split: option.split)
    then have "map_option entry_of (h' a) = map_option entry_of (h a)" for a
      using plive [of a] by (auto simp: h'_def entry_of_def split: option.split)
    moreover have "h' a = h a" if "a \<notin> set as" for a
    proof -
      have "Some a \<noteq> child_of n" "Some a \<noteq> parent n"
        using that nb st by (auto split: if_splits)
      then show ?thesis by (auto simp: h'_def h1(2) split: option.split)
    qed
    ultimately show ?thesis by (simp add: relinked_def)
  qed
  ultimately show ?thesis
    using that run by blast
qed

lemma irep_cong:
  assumes "irep h root as" and "\<And>a. a \<in> set as \<Longrightarrow> map_option links (h' a) = map_option links (h a)"
  shows "irep h' root as"
proof -
  from assms(1) obtain t where t: "root = root_of t" "tree_at h None t" "inorder t = as" "distinct as"
    by (auto simp: irep_def)
  have "tree_at h' None t = tree_at h None t"
    using assms(2) t(3) by (intro tree_at_cong) auto
  with t show ?thesis by (auto simp: irep_def)
qed

text \<open>
  Removing \<open>node\<close>: the in-order sequence of intervals loses exactly the interval
  of \<open>node\<close>; the node to free is no longer in the tree, and it carries the data of
  the removed interval.
\<close>

lemma remove_interval_irep:
  assumes rep: "irep h root (xs @ node # ys)"
  obtains snip h' root' as' where "remove_interval h root node = Some (snip, h', root')"
    "irep h' root' as'" "set (xs @ node # ys) = insert snip (set as')" "snip \<notin> set as'"
    "entries h' as' = entries h (xs @ ys)" "map_option data (h' snip) = map_option data (h node)"
    "\<And>a. a \<notin> set (xs @ node # ys) \<Longrightarrow> h' a = h a" "\<And>a. (h' a = None) = (h a = None)"
proof -
  let ?as = "xs @ node # ys"
  from irep_live [OF rep] obtain n where n: "h node = Some n" by auto
  have d: "distinct ?as" using irep_distinct [OF rep] .
  show ?thesis
  proof (cases "left_child n = None \<or> right_child n = None")
    case True
    obtain h' root' where u: "unlink_interval h root node = Some (h', root')"
      "irep h' root' (remove1 node ?as)" "relinked (set ?as) h h'"
      using unlink_interval_irep [OF rep _ n True] by auto
    have "remove_interval h root node = Some (node, h', root')"
      using n True u(1) by (simp add: remove_interval_def)
    moreover have r1: "remove1 node ?as = xs @ ys" using d by (simp add: remove1_append)
    moreover have "entries h' (xs @ ys) = entries h (xs @ ys)"
      using u(3) irep_live [OF rep] by (intro relinked_entries) auto
    moreover have "map_option data (h' node) = map_option data (h node)"
      using u(3) by (auto simp: relinked_def entry_of_def n dest!: spec [of _ node])
    ultimately show ?thesis
      using that [of node h' root' "xs @ ys"] u d relinked_dom [OF u(3)] by (auto simp: relinked_def)
  next
    case False
    from rep obtain t where t: "tree_at h None t" "inorder t = ?as" by (auto simp: irep_def)
    then have "node \<in> set_tree t" by (metis in_set_conv_decomp set_inorder)
    from right_subtree [OF t(1) this n] obtain r where r: "tree_at h (Some node) r" "root_of r = right_child n"
      by blast
    from False r have rne: "r \<noteq> Leaf" by (cases r) auto
    have "next_interval h node = Some (Some (hd (inorder r)))"
      using n r rne False minimum_interval_tree [OF r(1)] by (auto simp: next_interval_def)
    moreover note next_interval_irep [OF rep]
    ultimately obtain s zs where ys: "ys = s # zs" "s = hd (inorder r)" "next_interval h node = Some (Some s)"
      by (cases ys) auto
    obtain m where m: "h s = Some m" using irep_live [OF rep] ys(1) by auto
    have "left_child m = None" using first_no_left [OF r(1) rne] m ys(2) by simp
    then obtain h1 root' where u: "unlink_interval h root s = Some (h1, root')"
      "irep h1 root' (remove1 s ?as)" "relinked (set ?as) h h1"
      using unlink_interval_irep [OF rep _ m] ys(1) by auto
    have r1: "remove1 s ?as = xs @ node # zs" using d ys(1) by (auto simp: remove1_append)
    obtain n1 m1 where n1: "h1 node = Some n1" "h1 s = Some m1" "entry_of n1 = entry_of n" "entry_of m1 = entry_of m"
      using relinked_Some [OF u(3) n] relinked_Some [OF u(3) m] by blast
    define h' where "h' = h1(node \<mapsto> n1\<lparr>low := low m1, high := high m1, data := data m1\<rparr>, s \<mapsto> m1\<lparr>data := data n1\<rparr>)"
    have sn: "s \<noteq> node" using d ys(1) by auto
    have run: "remove_interval h root node = Some (s, h', root')"
      using n False ys(3) u(1) sn n1 by (auto simp: remove_interval_def h'_def)
    have "irep h' root' (xs @ node # zs)"
      using irep_cong [OF u(2), of h'] r1 n1 sn by (auto simp: h'_def links_def)
    moreover have "entries h' (xs @ node # zs) = entries h (xs @ ys)"
    proof -
      have "entries h1 (xs @ zs) = entries h (xs @ zs)"
        using u(3) irep_live [OF rep] ys(1) by (intro relinked_entries) auto
      moreover have "entries h' xs = entries h1 xs" "entries h' zs = entries h1 zs"
        using d ys(1) by (auto simp: entries_def h'_def)
      ultimately show ?thesis
        using n1 m sn ys(1) by (auto simp: h'_def entry_of_def)
    qed
    moreover have "map_option data (h' s) = map_option data (h node)"
      using n n1 by (simp add: h'_def entry_of_def)
    moreover have "h' a = h a" if "a \<notin> set ?as" for a
      using that u(3) ys(1) by (auto simp: h'_def relinked_def)
    moreover have "(h' a = None) = (h a = None)" for a
      using relinked_dom [OF u(3), of a] n m by (auto simp: h'_def)
    ultimately show ?thesis
      using that [of s h' root' "xs @ node # zs"] run ys(1) d sn by auto
  qed
qed

section \<open>Traversal\<close>

text \<open>A visitor that leaves the heap alone sees the nodes in increasing order.\<close>

lemma traverse_interval_tree:
  assumes "tree_at h par t" and "\<And>a s. a \<in> set_tree t \<Longrightarrow> action a (h, s) = Some (h, f a s)"
  shows "traverse_interval action (root_of t) (h, s) = Some (h, fold f (inorder t) s)"
  using assms
proof (induction t arbitrary: par s)
  case Leaf
  then show ?case by (simp add: traverse_interval.simps)
next
  case (Node l x r)
  then obtain n where "h x = Some n" "left_child n = root_of l" "right_child n = root_of r"
    by (auto simp: links_def)
  with Node.prems Node.IH(1) [of "Some x"] Node.IH(2) [of "Some x"] show ?case
    by (subst traverse_interval.simps) auto
qed

end
