(* ===== verification/Interval_Store.thy ===== *)
theory Interval_Store
  imports Interval_Tree
begin

text \<open>
  The contract of the interval set as a locale, its consequences for a client, the
  interpretation on the heap operations of \<open>Intervals\<close>, and the properties of
  the component.
\<close>

section \<open>The interface of an interval store\<close>

text \<open>
  What the MAAP client relies on: a store holds, in increasing order, the nodes of
  disjoint intervals; insertion refuses exactly the overlapping ones, removal takes
  out one interval, and search returns the lowest interval that meets a query.
\<close>

locale interval_store =
  fixes rep :: "'h \<Rightarrow> ptr \<Rightarrow> addr list \<Rightarrow> bool"
    and ent :: "'h \<Rightarrow> addr \<Rightarrow> entry"
    and loose :: "'h \<Rightarrow> addr \<Rightarrow> bool"
    and ins :: "'h \<Rightarrow> ptr \<Rightarrow> addr \<Rightarrow> (int \<times> 'h \<times> ptr) option"
    and rem :: "'h \<Rightarrow> ptr \<Rightarrow> addr \<Rightarrow> (addr \<times> 'h \<times> ptr) option"
    and srch :: "'h \<Rightarrow> ptr \<Rightarrow> u32 \<Rightarrow> u32 \<Rightarrow> ptr option"
  assumes ins_overlap:
      "rep h root as \<Longrightarrow> disjoint_sorted (map (ent h) as) \<Longrightarrow> loose h a \<Longrightarrow> a \<notin> set as \<Longrightarrow>
       \<exists>b\<in>set as. overlaps (ent h b) (ent h a) \<Longrightarrow>
       ins h root a = Some (INTERVAL_OVERLAP, h, root)"
    and ins_success:
      "rep h root as \<Longrightarrow> disjoint_sorted (map (ent h) as) \<Longrightarrow> loose h a \<Longrightarrow> a \<notin> set as \<Longrightarrow>
       proper (ent h a) \<Longrightarrow> \<forall>b\<in>set as. \<not> overlaps (ent h b) (ent h a) \<Longrightarrow>
       \<exists>h' root' us vs. ins h root a = Some (INTERVAL_SUCCESS, h', root') \<and> as = us @ vs \<and>
         rep h' root' (us @ a # vs) \<and> disjoint_sorted (map (ent h') (us @ a # vs)) \<and>
         map (ent h') (us @ a # vs) = map (ent h) (us @ a # vs)"
    and rem_node:
      "rep h root (us @ a # vs) \<Longrightarrow>
       \<exists>s h' root' as'. rem h root a = Some (s, h', root') \<and> rep h' root' as' \<and> s \<notin> set as' \<and>
         map (ent h') as' = map (ent h) (us @ vs)"
    and srch_first:
      "rep h root as \<Longrightarrow> disjoint_sorted (map (ent h) as) \<Longrightarrow>
       srch h root start cnt = Some (find (\<lambda>b. overlaps (ent h b) (start, start + cnt - 1, None)) as)"
    and rep_distinct: "rep h root as \<Longrightarrow> distinct as"
begin

text \<open>Removing an interval keeps the rest disjoint and sorted.\<close>

lemma rem_disjoint:
  assumes "rep h root (us @ a # vs)" and "disjoint_sorted (map (ent h) (us @ a # vs))"
  shows "\<exists>s h' root' as'. rem h root a = Some (s, h', root') \<and> rep h' root' as' \<and>
    map (ent h') as' = map (ent h) (us @ vs) \<and> disjoint_sorted (map (ent h') as')"
proof -
  have "disjoint_sorted (map (ent h) (us @ vs))"
    using assms(2) by (auto simp: disjoint_sorted_append disjoint_sorted_Cons)
  with rem_node [OF assms(1)] show ?thesis by metis
qed

text \<open>An interval that was inserted is what a search for its range returns.\<close>

lemma ins_then_srch:
  assumes "rep h root as" and "disjoint_sorted (map (ent h) as)" and "loose h a" and "a \<notin> set as"
    and "proper (ent h a)" and "\<forall>b\<in>set as. \<not> overlaps (ent h b) (ent h a)"
    and "ent h a = (start, start + cnt - 1, d)"
  shows "\<exists>h' root'. ins h root a = Some (INTERVAL_SUCCESS, h', root') \<and> srch h' root' start cnt = Some (Some a)"
proof -
  obtain h' root' us vs where r: "ins h root a = Some (INTERVAL_SUCCESS, h', root')" "as = us @ vs"
    "rep h' root' (us @ a # vs)" "disjoint_sorted (map (ent h') (us @ a # vs))"
    "map (ent h') (us @ a # vs) = map (ent h) (us @ a # vs)"
    using ins_success [OF assms(1-6)] by blast
  let ?q = "(start, start + cnt - 1, None :: ptr)"
  have q: "overlaps e ?q = overlaps e (ent h a)" for e
    using assms(7) by (cases e) simp
  have "\<not> overlaps (ent h' b) ?q" if "b \<in> set us" for b
    using that r(2,5) assms(6) q by (auto simp: map_eq_conv)
  moreover have "overlaps (ent h' a) ?q"
    using q [of "ent h' a"] r(5) assms(5,7) by auto
  ultimately have "find (\<lambda>b. overlaps (ent h' b) ?q) (us @ a # vs) = Some a"
    by (induction us) auto
  with r srch_first [OF r(3,4)] show ?thesis by auto
qed

text \<open>Inserting an interval and removing it again restores the sequence.\<close>

lemma ins_then_rem:
  assumes "rep h root as" and "disjoint_sorted (map (ent h) as)" and "loose h a" and "a \<notin> set as"
    and "proper (ent h a)" and "\<forall>b\<in>set as. \<not> overlaps (ent h b) (ent h a)"
  shows "\<exists>h' root' s h'' root'' as''. ins h root a = Some (INTERVAL_SUCCESS, h', root') \<and>
    rem h' root' a = Some (s, h'', root'') \<and> rep h'' root'' as'' \<and> map (ent h'') as'' = map (ent h) as"
proof -
  obtain h' root' us vs where r: "ins h root a = Some (INTERVAL_SUCCESS, h', root')" "as = us @ vs"
    "rep h' root' (us @ a # vs)" "map (ent h') (us @ a # vs) = map (ent h) (us @ a # vs)"
    using ins_success [OF assms(1-6)] by blast
  then have "map (ent h') (us @ vs) = map (ent h) as" by simp
  with rem_node [OF r(3)] r(1) show ?thesis by metis
qed

end

definition loose_node :: "iheap \<Rightarrow> addr \<Rightarrow> bool" where
  "loose_node h a \<longleftrightarrow> map_option links (h a) = Some (None, None, None)"

interpretation ivs: interval_store irep "\<lambda>h a. entry_of (the (h a))" loose_node
  insert_interval remove_interval search_interval
proof (unfold_locales, goal_cases)
  case (1 h root as a)
  then show ?case
    using insert_interval_overlap [of h root as a]
    by (auto simp: loose_node_def entries_def hits_def)
next
  case (2 h root as a)
  then obtain n where n: "h a = Some n" "parent n = None" "left_child n = None" "right_child n = None"
    by (auto simp: loose_node_def links_def)
  have ds: "disjoint_sorted (entries h as)" using 2(2) by (simp add: entries_def)
  have ok: "proper (entry_of n)" and miss: "\<forall>b\<in>set as. \<not> hits h b n"
    using 2(5,6) n(1) by (simp_all add: hits_def)
  obtain h' root' us vs where r: "insert_interval h root a = Some (INTERVAL_SUCCESS, h', root')"
    "as = us @ vs" "irep h' root' (us @ a # vs)" "relinked (insert a (set as)) h h'"
    "disjoint_sorted (entries h' (us @ a # vs))"
    by (rule insert_interval_success [OF 2(1) ds n 2(4) ok miss])
  moreover have "entries h' (us @ a # vs) = entries h (us @ a # vs)"
    using r(2,4) irep_live [OF 2(1)] n(1) by (intro relinked_entries) auto
  ultimately show ?case unfolding entries_def by blast
next
  case (3 h root us a vs)
  then show ?case
    by (elim remove_interval_irep) (auto simp: entries_def)
next
  case (4 h root as start cnt)
  then show ?case
    using search_interval_irep [of h root as start cnt]
    by (simp add: entries_def hits_def query_def entry_of_def)
next
  case (5 h root as)
  then show ?case by (rule irep_distinct)
qed

section \<open>Properties\<close>

text \<open>
  Property C19. \<open>insert_interval\<close> on a set of disjoint intervals and a fresh node:
  it answers \<open>INTERVAL_OVERLAP\<close> and changes nothing exactly when some interval of the set
  overlaps the new one; otherwise it answers \<open>INTERVAL_SUCCESS\<close>, the node appears at one
  place of the order, all intervals keep their bounds, and the set stays disjoint
  and sorted.
\<close>

theorem insert_interval_spec:
  assumes "irep h root as" and "disjoint_sorted (entries h as)" and "loose_node h node"
    and "node \<notin> set as" and "proper (entry_of (the (h node)))"
  shows "if \<exists>b\<in>set as. overlaps (entry_of (the (h b))) (entry_of (the (h node)))
    then insert_interval h root node = Some (INTERVAL_OVERLAP, h, root)
    else \<exists>h' root' us vs. insert_interval h root node = Some (INTERVAL_SUCCESS, h', root') \<and>
      as = us @ vs \<and> irep h' root' (us @ node # vs) \<and>
      entries h' (us @ node # vs) = entries h (us @ node # vs) \<and>
      disjoint_sorted (entries h' (us @ node # vs))"
proof -
  have ds: "disjoint_sorted (map (\<lambda>a. entry_of (the (h a))) as)"
    using assms(2) by (simp add: entries_def)
  show ?thesis
    using ivs.ins_overlap [OF assms(1) ds assms(3,4)] ivs.ins_success [OF assms(1) ds assms(3-5)]
    unfolding entries_def by (intro if_bool_eq_conj [THEN iffD2] conjI impI) blast+
qed

text \<open>A concrete heap: \<open>[10,19]\<close> at the root, \<open>[0,4]\<close> to its left, \<open>[30,39]\<close> not linked yet.\<close>

definition iv_node :: "u32 \<Rightarrow> u32 \<Rightarrow> ptr \<Rightarrow> ptr \<Rightarrow> ptr \<Rightarrow> ptr \<Rightarrow> interval" where
  "iv_node l u d p lc rc = \<lparr>low = l, high = u, data = d, parent = p, left_child = lc, right_child = rc\<rparr>"

definition sample_heap :: iheap where
  "sample_heap = [1 \<mapsto> iv_node 10 19 (Some 71) None (Some 2) None,
     2 \<mapsto> iv_node 0 4 (Some 72) (Some 1) None None,
     3 \<mapsto> iv_node 30 39 None None None None]"

lemma sample_heap_rep:
  "irep sample_heap (Some 1) [2, 1]" "disjoint_sorted (entries sample_heap [2, 1])"
  "loose_node sample_heap 3" "proper (entry_of (the (sample_heap 3)))"
proof -
  show "irep sample_heap (Some 1) [2, 1]"
    unfolding irep_def
    by (rule exI [of _ "Node (Node Leaf 2 Leaf) 1 Leaf"])
      (simp add: sample_heap_def iv_node_def links_def)
qed (simp_all add: sample_heap_def iv_node_def loose_node_def links_def entry_of_def disjoint_sorted_def)

theorem insert_interval_spec_witness:
  "\<exists>h' root' us vs. insert_interval sample_heap (Some 1) 3 = Some (INTERVAL_SUCCESS, h', root') \<and>
     [2, 1] = us @ vs \<and> irep h' root' (us @ 3 # vs) \<and> disjoint_sorted (entries h' (us @ 3 # vs))"
proof -
  have "\<not> (\<exists>b\<in>set [2, 1]. overlaps (entry_of (the (sample_heap b))) (entry_of (the (sample_heap 3))))"
    by (simp add: sample_heap_def iv_node_def entry_of_def)
  moreover have "(3::addr) \<notin> set [2, 1]" by simp
  ultimately show ?thesis
    using insert_interval_spec [OF sample_heap_rep(1-3) _ sample_heap_rep(4)] by metis
qed

text \<open>
  Property C20. \<open>search_interval\<close> returns the lowest interval of the set that overlaps the
  queried numbers, and NULL when none does, for every start and count, wrapping
  ones included.
\<close>

theorem search_interval_lowest:
  assumes "irep h root as" and "disjoint_sorted (entries h as)"
  shows "search_interval h root start cnt =
    Some (find (\<lambda>a. interval_check_overlap (the (h a)) start cnt) as)"
proof -
  have "(\<lambda>a. hits h a (query start cnt)) = (\<lambda>a. interval_check_overlap (the (h a)) start cnt)"
    by (auto simp: hits_def query_def entry_of_def interval_check_overlap_def)
  with search_interval_irep [OF assms, of start cnt] show ?thesis by simp
qed

theorem search_interval_lowest_witness:
  "search_interval sample_heap (Some 1) 3 10 = Some (Some 2)"
  using search_interval_lowest [OF sample_heap_rep(1,2), of 3 10]
  by (simp add: sample_heap_def iv_node_def interval_check_overlap_def)

text \<open>
  Property C21. \<open>remove_interval\<close> of a node of the set always returns a node to free that is no
  longer linked; the bounds and data left, in order, are those of the other nodes;
  the returned node carries the data of the removed interval.
\<close>

theorem remove_interval_spec:
  assumes "irep h root (xs @ node # ys)"
  shows "\<exists>snip h' root' as'. remove_interval h root node = Some (snip, h', root') \<and>
    irep h' root' as' \<and> snip \<notin> set as' \<and> insert snip (set as') = set (xs @ node # ys) \<and>
    entries h' as' = entries h (xs @ ys) \<and> map_option data (h' snip) = map_option data (h node)"
  by (rule remove_interval_irep [OF assms]) blast

theorem remove_interval_spec_witness:
  "\<exists>snip h' root' as'. remove_interval sample_heap (Some 1) 1 = Some (snip, h', root') \<and>
     irep h' root' as' \<and> snip \<notin> set as' \<and> entries h' as' = [(0, 4, Some 72)]"
proof -
  have "irep sample_heap (Some 1) ([2] @ 1 # [])" using sample_heap_rep(1) by simp
  moreover have "entries sample_heap ([2] @ []) = [(0, 4, Some 72)]"
    by (simp add: sample_heap_def iv_node_def entry_of_def)
  ultimately show ?thesis
    using remove_interval_spec [of sample_heap "Some 1" "[2]" 1 "[]"] by metis
qed

text \<open>
  Inserting an interval that meets no other and removing it again leaves the
  sequence of intervals as it was.
\<close>

theorem insert_remove_roundtrip:
  assumes "irep h root as" and "disjoint_sorted (entries h as)" and "loose_node h node"
    and "node \<notin> set as" and "proper (entry_of (the (h node)))"
    and "\<forall>b\<in>set as. \<not> overlaps (entry_of (the (h b))) (entry_of (the (h node)))"
  shows "\<exists>h' root' s h'' root'' as''. insert_interval h root node = Some (INTERVAL_SUCCESS, h', root') \<and>
    remove_interval h' root' node = Some (s, h'', root'') \<and> irep h'' root'' as'' \<and>
    entries h'' as'' = entries h as"
  using ivs.ins_then_rem [OF assms(1) _ assms(3-6)] assms(2) by (simp add: entries_def)

text \<open>
  \<open>traverse_interval\<close> visits every interval exactly once, in increasing order of
  the bounds (for a visitor that does not relink the tree).
\<close>

theorem traverse_interval_order:
  assumes "irep h root as" and "\<And>a s. a \<in> set as \<Longrightarrow> action a (h, s) = Some (h, f a s)"
  shows "traverse_interval action root (h, s) = Some (h, fold f as s)"
  using assms by (auto simp: irep_def intro!: traverse_interval_tree)

end
