(* ===== verification/Maap_Packet.thy ===== *)
theory Maap_Packet
  imports Avb_Prelude
begin

text \<open>
  The MAAP wire format, \<open>maap/common/maap_packet.[ch]\<close>: packing and unpacking of the
  42-byte PDU, and the comparison of MAC addresses that decides which of two
  conflicting devices yields.
\<close>

section \<open>Data\<close>

definition MAAP_PROBE :: u8 where "MAAP_PROBE = 1"
definition MAAP_DEFEND :: u8 where "MAAP_DEFEND = 2"
definition MAAP_ANNOUNCE :: u8 where "MAAP_ANNOUNCE = 3"

definition MAAP_TYPE :: u16 where "MAAP_TYPE = 0x22F0"
definition MAAP_SUBTYPE :: u16 where "MAAP_SUBTYPE = 0xFE"
definition MAAP_PKT_SIZE :: nat where "MAAP_PKT_SIZE = 42"

record maap_packet =
  DA :: u64
  SA :: u64
  Ethertype :: u16
  subtype :: u16
  SV :: u8
  version :: u8
  message_type :: u8
  maap_version :: u8
  control_data_length :: u16
  stream_id :: u64
  requested_start_address :: u64
  requested_count :: u16
  conflict_start_address :: u64
  conflict_count :: u16

section \<open>Unpacking\<close>

text \<open>
  \<open>memcpy(&tmp, stream, n); stream += n\<close>: the first \<open>n\<close> bytes of the variable
  \<open>tmp\<close> are overwritten, the others keep what they held, which for a variable
  without initialiser is anything.
\<close>

definition load :: "nat \<Rightarrow> u8 list \<Rightarrow> u8 list \<Rightarrow> (u8 list \<times> u8 list) option" where
  "load n tmp stream =
     (if n \<le> length stream then Some (take n stream @ drop n tmp, drop n stream) else None)"

definition BE64TOH :: "u8 list \<Rightarrow> u64" where
  "BE64TOH bs = word_be bs"

definition BE16TOH :: "u8 list \<Rightarrow> u16" where
  "BE16TOH bs = word_be bs"

text \<open>The first two arguments are the initial bytes of \<open>tmp64\<close> and \<open>tmp16\<close>.\<close>

definition unpack_maap :: "u8 list \<Rightarrow> u8 list \<Rightarrow> u8 list \<Rightarrow> (int \<times> maap_packet) option" where
  "unpack_maap tmp64 tmp16 stream = do {
     (tmp64, stream) \<leftarrow> load 6 tmp64 stream;
     let da = drop_bit 16 (BE64TOH tmp64);
     (tmp64, stream) \<leftarrow> load 6 tmp64 stream;
     let sa = drop_bit 16 (BE64TOH tmp64);
     (tmp16, stream) \<leftarrow> load 2 tmp16 stream;
     let et = BE16TOH tmp16;
     (tmp8, stream) \<leftarrow> load 1 [] stream;
     let st = ucast (hd tmp8);
     (tmp8, stream) \<leftarrow> load 1 [] stream;
     let sv = drop_bit 7 (hd tmp8 AND 0x80);
     let vs = drop_bit 4 (hd tmp8 AND 0x70);
     let mt = hd tmp8 AND 0x0f;
     (tmp8, _) \<leftarrow> load 1 [] stream;
     let mv = drop_bit 3 (hd tmp8 AND 0xf8);
     (tmp16, stream) \<leftarrow> load 2 tmp16 stream;
     let cdl = BE16TOH tmp16 AND 0x07ff;
     (tmp64, stream) \<leftarrow> load 8 tmp64 stream;
     let sid = BE64TOH tmp64;
     (tmp64, stream) \<leftarrow> load 6 tmp64 stream;
     let rsa = drop_bit 16 (BE64TOH tmp64);
     (tmp16, stream) \<leftarrow> load 2 tmp16 stream;
     let rc = BE16TOH tmp16;
     (tmp64, stream) \<leftarrow> load 6 tmp64 stream;
     let csa = drop_bit 16 (BE64TOH tmp64);
     (tmp16, stream) \<leftarrow> load 2 tmp16 stream;
     let cc = BE16TOH tmp16;
     Some (0, \<lparr>DA = da, SA = sa, Ethertype = et, subtype = st, SV = sv, version = vs,
       message_type = mt, maap_version = mv, control_data_length = cdl, stream_id = sid,
       requested_start_address = rsa, requested_count = rc,
       conflict_start_address = csa, conflict_count = cc\<rparr>) }"

section \<open>Packing\<close>

text \<open>\<open>memcpy(stream, src, n); stream += n\<close> on a buffer split into what is written and what is left.\<close>

definition put :: "u8 list \<Rightarrow> u8 list \<times> u8 list \<Rightarrow> (u8 list \<times> u8 list) option" where
  "put bs st = (if length bs \<le> length (snd st) then Some (fst st @ bs, drop (length bs) (snd st)) else None)"

definition HTOBE64 :: "u64 \<Rightarrow> u8 list" where
  "HTOBE64 v = bytes_be 8 v"

definition HTOBE16 :: "u16 \<Rightarrow> u8 list" where
  "HTOBE16 v = bytes_be 2 v"

definition pack_maap :: "maap_packet \<Rightarrow> u8 list \<Rightarrow> (int \<times> u8 list) option" where
  "pack_maap p buf = do {
     st \<leftarrow> put (take 6 (HTOBE64 (push_bit 16 (DA p)))) ([], buf);
     st \<leftarrow> put (take 6 (HTOBE64 (push_bit 16 (SA p)))) st;
     st \<leftarrow> put (HTOBE16 (Ethertype p)) st;
     st \<leftarrow> put [ucast (subtype p)] st;
     st \<leftarrow> put [push_bit 7 (SV p) OR push_bit 4 (version p AND 0x07) OR (message_type p AND 0x0f)] st;
     st \<leftarrow> put (HTOBE16 (push_bit 11 (ucast (maap_version p) AND 0x001f) OR
                          (control_data_length p AND 0x07ff))) st;
     st \<leftarrow> put (HTOBE64 (stream_id p)) st;
     st \<leftarrow> put (take 6 (HTOBE64 (push_bit 16 (requested_start_address p)))) st;
     st \<leftarrow> put (HTOBE16 (requested_count p)) st;
     st \<leftarrow> put (take 6 (HTOBE64 (push_bit 16 (conflict_start_address p)))) st;
     st \<leftarrow> put (HTOBE16 (conflict_count p)) st;
     Some (0, fst st @ snd st) }"

definition init_packet :: "u64 \<Rightarrow> u64 \<Rightarrow> maap_packet option" where
  "init_packet dest_mac src_mac = do {
     c_assert (dest_mac \<noteq> 0);
     c_assert (src_mac \<noteq> 0);
     Some \<lparr>DA = dest_mac, SA = src_mac, Ethertype = MAAP_TYPE, subtype = MAAP_SUBTYPE, SV = 0,
       version = 0, message_type = 0, maap_version = 1, control_data_length = 16, stream_id = 0,
       requested_start_address = 0, requested_count = 0,
       conflict_start_address = 0, conflict_count = 0\<rparr> }"

section \<open>MAC addresses\<close>

text \<open>The cast to \<open>uint64_t *\<close> reads eight bytes from the array.\<close>

definition convert_mac_address :: "u8 list \<Rightarrow> u64 option" where
  "convert_mac_address macaddr =
     (if 8 \<le> length macaddr then Some (drop_bit 16 (BE64TOH (take 8 macaddr))) else None)"

fun compare_mac_loop :: "nat \<Rightarrow> u64 \<Rightarrow> u64 \<Rightarrow> bool" where
  "compare_mac_loop 0 local_mac remote_mac = True"
| "compare_mac_loop (Suc i) local_mac remote_mac =
     (let local_byte = (ucast (local_mac AND 0xFF) :: u8);
          remote_byte = (ucast (remote_mac AND 0xFF) :: u8)
      in if local_byte < remote_byte then True
         else if remote_byte < local_byte then False
         else compare_mac_loop i (drop_bit 8 local_mac) (drop_bit 8 remote_mac))"

definition compare_mac_addresses :: "u64 \<Rightarrow> u64 \<Rightarrow> bool" where
  "compare_mac_addresses local_mac remote_mac = compare_mac_loop 6 local_mac remote_mac"

section \<open>The bytes of a packet\<close>

definition flags_byte :: "u8 \<Rightarrow> u8 \<Rightarrow> u8 \<Rightarrow> u8" where
  "flags_byte sv vs mt = push_bit 7 sv OR push_bit 4 (vs AND 0x07) OR (mt AND 0x0f)"

definition length_word :: "u8 \<Rightarrow> u16 \<Rightarrow> u16" where
  "length_word mv cdl = push_bit 11 (ucast mv AND 0x001f) OR (cdl AND 0x07ff)"

definition maap_bytes :: "maap_packet \<Rightarrow> u8 list" where
  "maap_bytes p = bytes_be 6 (DA p) @ bytes_be 6 (SA p) @ bytes_be 2 (Ethertype p) @
     [ucast (subtype p)] @ [flags_byte (SV p) (version p) (message_type p)] @
     bytes_be 2 (length_word (maap_version p) (control_data_length p)) @
     bytes_be 8 (stream_id p) @ bytes_be 6 (requested_start_address p) @
     bytes_be 2 (requested_count p) @ bytes_be 6 (conflict_start_address p) @
     bytes_be 2 (conflict_count p)"

definition wf_packet :: "maap_packet \<Rightarrow> bool" where
  "wf_packet p \<longleftrightarrow> take_bit 48 (DA p) = DA p \<and> take_bit 48 (SA p) = SA p \<and>
     take_bit 8 (subtype p) = subtype p \<and> take_bit 1 (SV p) = SV p \<and> take_bit 3 (version p) = version p \<and>
     take_bit 4 (message_type p) = message_type p \<and> take_bit 5 (maap_version p) = maap_version p \<and>
     take_bit 11 (control_data_length p) = control_data_length p \<and>
     take_bit 48 (requested_start_address p) = requested_start_address p \<and>
     take_bit 48 (conflict_start_address p) = conflict_start_address p"

lemma length_maap_bytes [simp]: "length (maap_bytes p) = 42"
  by (simp add: maap_bytes_def)

lemma load_append: "length bs = n \<Longrightarrow> load n tmp (bs @ rest) = Some (bs @ drop n tmp, rest)"
  by (simp add: load_def)

lemma put_append: "length bs \<le> length rest \<Longrightarrow> put bs (out, rest) = Some (out @ bs, drop (length bs) rest)"
  by (simp add: put_def)

lemma word_be_top [byte_simps]:
  assumes "length bs = 6" and "length js = 2"
  shows "drop_bit 16 (word_be (bs @ js) :: u64) = word_be bs"
proof (rule bit_word_eqI)
  fix k
  assume "k < LENGTH(64)"
  then have k: "k < 64" by simp
  have e: "(16 + k) div 8 = 2 + k div 8" "(16 + k) mod 8 = k mod 8" by presburger+
  show "bit (drop_bit 16 (word_be (bs @ js) :: u64)) k \<longleftrightarrow> bit (word_be bs :: u64) k"
    using k assms unfolding bit_drop_bit_eq comp_def bit_word_be length_append e
    by (auto simp: nth_append dest: bit_byte_bound)
qed

lemma take_bytes_shift [byte_simps]: "take 6 (bytes_be 8 (push_bit 16 (v :: u64))) = bytes_be 6 v"
proof (rule nth_equalityI)
  fix i
  assume "i < length (take 6 (bytes_be 8 (push_bit 16 v)))"
  then have i: "i < 6" by simp
  show "take 6 (bytes_be 8 (push_bit 16 v)) ! i = bytes_be 6 v ! i"
  proof (rule bit_word_eqI)
    fix n
    assume "n < LENGTH(8)"
    moreover have "8 * (7 - i) + n - 16 = 8 * (5 - i) + n" using i by linarith
    ultimately show "bit (take 6 (bytes_be 8 (push_bit 16 v)) ! i) n \<longleftrightarrow> bit (bytes_be 6 v ! i) n"
      using i by (auto simp: bit_ucast_iff bit_drop_bit_eq bit_push_bit_iff possible_bit_word)
  qed
qed simp

lemma pack_maap_bytes:
  assumes "42 \<le> length buf"
  shows "pack_maap p buf = Some (0, maap_bytes p @ drop 42 buf)"
  using assms
  by (simp add: pack_maap_def HTOBE64_def HTOBE16_def take_bytes_shift put_append maap_bytes_def
      flags_byte_def length_word_def)

text \<open>Splitting the two packed fields, on the finitely many bits.\<close>

lemma bit8_cases:
  assumes "n < 8"
  obtains "n = 0" | "n = 1" | "n = 2" | "n = 3" | "n = 4" | "n = 5" | "n = 6" | "n = (7::nat)"
  using assms by linarith

lemma u8_eqI: "(\<And>n. n < 8 \<Longrightarrow> bit a n = bit (b :: u8) n) \<Longrightarrow> a = b"
  by (rule bit_word_eqI) simp

lemma u16_eqI: "(\<And>n. n < 16 \<Longrightarrow> bit a n = bit (b :: u16) n) \<Longrightarrow> a = b"
  by (rule bit_word_eqI) simp

lemma mask_u8: "(0x80::u8) = push_bit 7 1" "(0x70::u8) = push_bit 4 (mask 3)" "(0x0f::u8) = mask 4"
  "(0x07::u8) = mask 3" "(0xf8::u8) = push_bit 3 (mask 5)"
  by (simp_all add: mask_eq_exp_minus_1)

lemma mask_u16: "(0x001f::u16) = mask 5" "(0x07ff::u16) = mask 11"
  by (simp_all add: mask_eq_exp_minus_1)

lemmas field_bits = bit_and_iff bit_or_iff bit_push_bit_iff bit_drop_bit_eq bit_mask_iff
  bit_take_bit_iff bit_ucast_iff possible_bit_word bit_1_iff

lemma flags_SV: "drop_bit 7 (flags_byte sv vs mt AND 0x80) = take_bit 1 sv"
  unfolding flags_byte_def mask_u8
  by (rule u8_eqI, erule bit8_cases; auto simp: field_bits; simp add: bit_0)

lemma flags_version: "drop_bit 4 (flags_byte sv vs mt AND 0x70) = take_bit 3 vs"
  unfolding flags_byte_def mask_u8
  by (rule u8_eqI, erule bit8_cases) (auto simp: field_bits)

lemma flags_type: "flags_byte sv vs mt AND 0x0f = take_bit 4 mt"
  unfolding flags_byte_def mask_u8
  by (rule u8_eqI, erule bit8_cases) (auto simp: field_bits)

lemmas flags_split = flags_SV flags_version flags_type

lemma flags_join: "flags_byte (drop_bit 7 (b AND 0x80)) (drop_bit 4 (b AND 0x70)) (b AND 0x0f) = b"
  unfolding flags_byte_def mask_u8
  by (rule u8_eqI, erule bit8_cases; auto simp: field_bits)

lemma length_word_split: "length_word mv cdl AND 0x07ff = take_bit 11 cdl"
  unfolding length_word_def mask_u16
  by (rule u16_eqI) (auto simp: field_bits)

lemma length_word_version:
  "drop_bit 3 (hd (bytes_be 2 (length_word mv cdl)) AND 0xf8) = take_bit 5 mv"
proof -
  have "hd (bytes_be 2 (length_word mv cdl)) = ucast (drop_bit 8 (length_word mv cdl))"
    by (simp add: bytes_be_def upt_conv_Cons)
  then show ?thesis
    unfolding length_word_def mask_u8 mask_u16
    by (simp only:) (rule u8_eqI, auto simp: field_bits)
qed

lemma length_word_join:
  "length_word (drop_bit 3 (a AND 0xf8)) (word_be [a, b] AND 0x07ff) = word_be [a, b]"
proof -
  have w: "(word_be [a, b] :: u16) = push_bit 8 (ucast a) OR ucast b"
    by (simp add: word_be_def)
  show ?thesis
    unfolding length_word_def w mask_u8 mask_u16
    by (rule u16_eqI) (auto simp: field_bits dest: bit_byte_bound)
qed


section \<open>Round trips\<close>

lemma list_split6:
  assumes "n \<le> length xs"
  obtains ys zs where "xs = ys @ zs" and "length ys = n"
  using assms by (metis append_take_drop_id length_take min.absorb2)

lemma BE64TOH_top: "length bs = 6 \<Longrightarrow> length tmp = 8 \<Longrightarrow> drop_bit 16 (BE64TOH (bs @ drop 6 tmp)) = word_be bs"
  by (simp add: BE64TOH_def word_be_top)

lemma unpack_chunks:
  assumes "length b1 = 6" "length b2 = 6" "length b3 = 2" "length b6 = 2" "length b7 = 8" "length b8 = 6"
    "length b9 = 2" "length b10 = 6" "length b11 = 2" and "length t64 = 8" "length t16 = 2"
  shows "unpack_maap t64 t16 (b1 @ b2 @ b3 @ [b4] @ [b5] @ b6 @ b7 @ b8 @ b9 @ b10 @ b11 @ rest) =
    Some (0, \<lparr>DA = word_be b1, SA = word_be b2, Ethertype = word_be b3, subtype = ucast b4,
      SV = drop_bit 7 (b5 AND 0x80), version = drop_bit 4 (b5 AND 0x70), message_type = b5 AND 0x0f,
      maap_version = drop_bit 3 (hd b6 AND 0xf8), control_data_length = word_be b6 AND 0x07ff,
      stream_id = word_be b7, requested_start_address = word_be b8, requested_count = word_be b9,
      conflict_start_address = word_be b10, conflict_count = word_be b11\<rparr>)"
proof -
  have l6: "load (Suc 0) [] (b6 @ rest') = Some ([hd b6], tl b6 @ rest')" for rest'
    using assms(4) by (cases b6) (auto simp: load_def)
  have l: "load (Suc 0) [] (b # rest') = Some ([b], rest')" for b rest'
    by (simp add: load_def)
  show ?thesis
    unfolding unpack_maap_def
    by (simp add: assms load_append l l6 BE64TOH_top) (simp add: assms BE64TOH_def BE16TOH_def)
qed


lemma wf_packet_unpacked:
  assumes "length b1 = 6" "length b2 = 6" "length b8 = 6" "length b10 = 6"
  shows "wf_packet \<lparr>DA = word_be b1, SA = word_be b2, Ethertype = et, subtype = ucast (b4 :: u8),
      SV = drop_bit 7 (b5 AND 0x80), version = drop_bit 4 (b5 AND 0x70), message_type = b5 AND 0x0f,
      maap_version = drop_bit 3 (b6 AND 0xf8), control_data_length = w AND 0x07ff,
      stream_id = sid, requested_start_address = word_be b8, requested_count = rc,
      conflict_start_address = word_be b10, conflict_count = cc\<rparr>"
proof -
  have w48: "take_bit 48 (word_be b :: u64) = word_be b" if "length b = 6" for b
    using that by (intro bit_word_eqI) (auto simp: bit_take_bit_iff bit_word_be)
  have "take_bit 8 (ucast (b4 :: u8) :: u16) = ucast b4"
    by (rule u16_eqI) (auto simp: field_bits dest: bit_byte_bound)
  moreover have "take_bit 1 (drop_bit 7 (b5 AND 0x80)) = drop_bit 7 (b5 AND 0x80)"
    unfolding mask_u8
    by (rule u8_eqI, erule bit8_cases; auto simp: field_bits; simp add: bit_iff_odd_drop_bit)
  moreover have "take_bit 3 (drop_bit 4 (b5 AND 0x70)) = drop_bit 4 (b5 AND 0x70)"
    unfolding mask_u8 by (rule u8_eqI, erule bit8_cases; auto simp: field_bits)
  moreover have "take_bit 4 (b5 AND 0x0f) = b5 AND 0x0f"
    unfolding mask_u8 by (rule u8_eqI, erule bit8_cases; auto simp: field_bits)
  moreover have "take_bit 5 (drop_bit 3 (b6 AND 0xf8)) = drop_bit 3 (b6 AND 0xf8)"
    unfolding mask_u8 by (rule u8_eqI, erule bit8_cases; auto simp: field_bits)
  moreover have "take_bit 11 (w AND 0x07ff) = w AND 0x07ff"
    unfolding mask_u16 by (rule u16_eqI) (auto simp: field_bits)
  ultimately show ?thesis
    by (simp add: wf_packet_def w48 assms)
qed

lemma be_fields:
  "word_be (bytes_be 6 a) = (take_bit 48 a :: u64)" "word_be (bytes_be 8 a) = (a :: u64)"
  "word_be (bytes_be 2 b) = (b :: u16)" "(ucast (ucast b :: u8) :: u16) = take_bit 8 b"
proof -
  show "word_be (bytes_be 6 a) = (take_bit 48 a :: u64)"
    using word_be_bytes_be [of 6 a] by simp
  show "word_be (bytes_be 8 a) = (a :: u64)"
    using word_be_bytes_be [of 8 a] by (simp add: take_bit_word_eq_self)
  show "word_be (bytes_be 2 b) = (b :: u16)"
    using word_be_bytes_be [of 2 b] by (simp add: take_bit_word_eq_self)
  show "(ucast (ucast b :: u8) :: u16) = take_bit 8 b"
    by (rule u16_eqI) (auto simp: field_bits)
qed

lemma unpack_maap_bytes:
  assumes "wf_packet p" and "length t64 = 8" and "length t16 = 2"
  shows "unpack_maap t64 t16 (maap_bytes p @ rest) = Some (0, p)"
proof -
  have "unpack_maap t64 t16 (maap_bytes p @ rest) = Some (0, \<lparr>DA = take_bit 48 (DA p), SA = take_bit 48 (SA p),
      Ethertype = Ethertype p, subtype = take_bit 8 (subtype p), SV = take_bit 1 (SV p),
      version = take_bit 3 (version p), message_type = take_bit 4 (message_type p),
      maap_version = take_bit 5 (maap_version p), control_data_length = take_bit 11 (control_data_length p),
      stream_id = stream_id p, requested_start_address = take_bit 48 (requested_start_address p),
      requested_count = requested_count p, conflict_start_address = take_bit 48 (conflict_start_address p),
      conflict_count = conflict_count p\<rparr>)"
    unfolding maap_bytes_def append_assoc
    by (simp only: unpack_chunks length_bytes_be assms(2,3) be_fields flags_split
        length_word_version length_word_split)
  also have "\<dots> = Some (0, p)"
    using assms(1) unfolding wf_packet_def by (simp only: maap_packet.surjective [symmetric] surjective_pairing) simp
  finally show ?thesis .
qed

lemma stream_chunks:
  assumes "42 \<le> length s"
  obtains b1 b2 b3 b4 b5 b6 b7 b8 b9 b10 b11 rest where
    "s = b1 @ b2 @ b3 @ [b4] @ [b5] @ b6 @ b7 @ b8 @ b9 @ b10 @ b11 @ rest"
    "length b1 = 6" "length b2 = 6" "length b3 = 2" "length b6 = 2" "length b7 = 8" "length b8 = 6"
    "length b9 = 2" "length b10 = 6" "length b11 = 2"
proof -
  let ?c = "\<lambda>i n. take n (drop i s)"
  have e: "?c i n @ drop (i + n) s = drop i s" for i n
    by (metis add.commute append_take_drop_id drop_drop)
  have one: "?c i 1 = [s ! i]" if "i < 42" for i
    using that assms by (simp add: take_Suc_conv_app_nth)
  have "s = ?c 0 6 @ ?c 6 6 @ ?c 12 2 @ ?c 14 1 @ ?c 15 1 @ ?c 16 2 @ ?c 18 8 @ ?c 26 6 @ ?c 32 2 @ ?c 34 6 @ ?c 40 2 @ drop 42 s"
    using e [where i = 40 and n = 2] e [where i = 34 and n = 6] e [where i = 32 and n = 2] e [where i = 26 and n = 6] e [where i = 18 and n = 8] e [where i = 16 and n = 2] e [where i = 15 and n = 1] e [where i = 14 and n = 1]
      e [where i = 12 and n = 2] e [where i = 6 and n = 6] e [where i = 0 and n = 6] by simp
  then show ?thesis
    using that [of "?c 0 6" "?c 6 6" "?c 12 2" "s ! 14" "s ! 15" "?c 16 2" "?c 18 8" "?c 26 6" "?c 32 2" "?c 34 6" "?c 40 2" "drop 42 s"]
      one [of 14] one [of 15] assms by simp
qed

lemma unpack_maap_stream:
  assumes "42 \<le> length s" and "length t64 = 8" and "length t16 = 2"
  shows "\<exists>p. unpack_maap t64 t16 s = Some (0, p) \<and> wf_packet p \<and> maap_bytes p = take 42 s"
proof -
  obtain b1 b2 b3 b4 b5 b6 b7 b8 b9 b10 b11 rest where
    s: "s = b1 @ b2 @ b3 @ [b4] @ [b5] @ b6 @ b7 @ b8 @ b9 @ b10 @ b11 @ rest"
    and len: "length b1 = 6" "length b2 = 6" "length b3 = 2" "length b6 = 2" "length b7 = 8" "length b8 = 6"
    "length b9 = 2" "length b10 = 6" "length b11 = 2"
    using stream_chunks [OF assms(1)] .
  from len(4) obtain x y where b6: "b6 = [x, y]" by (auto simp: numeral_2_eq_2 length_Suc_conv)
  have b4: "(ucast (ucast b4 :: u16) :: u8) = b4"
    by (rule u8_eqI) (auto simp: field_bits)
  have be: "bytes_be 6 (word_be c :: u64) = c" if "length c = 6" for c
    using that by (simp add: bytes_be_word_be)
  have be': "bytes_be 2 (word_be c :: u16) = c" if "length c = 2" for c
    using that by (simp add: bytes_be_word_be)
  have be'': "bytes_be 8 (word_be b7 :: u64) = b7"
    using len by (simp add: bytes_be_word_be)
  have tk: "take 42 s = b1 @ b2 @ b3 @ [b4] @ [b5] @ b6 @ b7 @ b8 @ b9 @ b10 @ b11"
    using len by (simp add: s)
  let ?p = "\<lparr>DA = word_be b1, SA = word_be b2, Ethertype = word_be b3, subtype = ucast b4,
      SV = drop_bit 7 (b5 AND 0x80), version = drop_bit 4 (b5 AND 0x70), message_type = b5 AND 0x0f,
      maap_version = drop_bit 3 (hd b6 AND 0xf8), control_data_length = word_be b6 AND 0x07ff,
      stream_id = word_be b7, requested_start_address = word_be b8, requested_count = word_be b9,
      conflict_start_address = word_be b10, conflict_count = word_be b11\<rparr>"
  have "length_word (drop_bit 3 (hd b6 AND 0xf8)) (word_be b6 AND 0x07ff) = word_be b6"
    using length_word_join [of x y] by (simp only: b6 list.sel)
  then have "maap_bytes ?p = take 42 s"
    unfolding maap_bytes_def tk maap_packet.simps by (simp only: be be' be'' len flags_join b4)
  then show ?thesis
    using unpack_chunks [OF len assms(2,3)] wf_packet_unpacked [OF len(1,2,6,8)] s by blast
qed

lemma load_eq_Some: "load n tmp s = Some (t, s') \<longleftrightarrow> n \<le> length s \<and> t = take n s @ drop n tmp \<and> s' = drop n s"
  by (auto simp: load_def)

lemma load_bindE:
  assumes "load n tmp s \<bind> f = Some r"
  obtains t s' where "f (t, s') = Some r" "length s = n + length s'"
  using assms by (cases "load n tmp s") (auto simp: load_eq_Some)

lemma unpack_maap_length: "unpack_maap t64 t16 s = Some r \<Longrightarrow> 42 \<le> length s"
  unfolding unpack_maap_def Let_def by (erule load_bindE, simp only: prod.case)+

section \<open>The order behind the comparison\<close>

text \<open>The number whose bytes are the lowest \<open>i\<close> bytes of \<open>m\<close> in reverse order.\<close>

fun reversed_mac :: "nat \<Rightarrow> u64 \<Rightarrow> nat" where
  "reversed_mac 0 m = 0"
| "reversed_mac (Suc i) m = unat (m AND 0xFF) * 256 ^ i + reversed_mac i (drop_bit 8 m)"

lemma low_byte: "unat (ucast (m AND 0xFF :: u64) :: u8) = unat (m AND 0xFF)" "unat (m AND 0xFF :: u64) < 256"
proof -
  have "m AND 0xFF = take_bit 8 m"
    by (simp add: take_bit_eq_mask mask_eq_exp_minus_1)
  then have l: "unat (m AND 0xFF) = unat m mod 256"
    by (simp only: unsigned_take_bit_eq) (simp add: take_bit_eq_mod)
  then show "unat (m AND 0xFF :: u64) < 256" by simp
  then show "unat (ucast (m AND 0xFF :: u64) :: u8) = unat (m AND 0xFF)"
    by (simp add: unsigned_ucast_eq take_bit_eq_mod)
qed

lemma reversed_mac_less: "reversed_mac i m < 256 ^ i"
proof (induction i arbitrary: m)
  case 0
  then show ?case by simp
next
  case (Suc i)
  have "unat (m AND 0xFF) \<le> 255" using low_byte(2) [of m] by simp
  then have "unat (m AND 0xFF) * 256 ^ i \<le> 255 * 256 ^ i" by (rule mult_le_mono1)
  then have "unat (m AND 0xFF) * 256 ^ i + reversed_mac i (drop_bit 8 m) < 255 * 256 ^ i + 256 ^ i"
    using Suc.IH [of "drop_bit 8 m"] by (rule add_le_less_mono)
  then show ?case by simp
qed

lemma compare_digit:
  fixes x y :: nat
  assumes "r < n" and "s < n"
  shows "x * n + r \<le> y * n + s \<longleftrightarrow> x < y \<or> x = y \<and> r \<le> s"
proof -
  have less: "x * n + r < y * n + s" if "x < y" "r < n" for x y r s :: nat
  proof -
    have "x * n + r < (x + 1) * n" using that(2) by simp
    also have "\<dots> \<le> y * n" using that(1) by (intro mult_le_mono1) simp
    finally show ?thesis by simp
  qed
  show ?thesis
    using less [of x y r s] less [of y x s r] assms
    by (cases x y rule: linorder_cases) (auto simp: not_le)
qed

lemma digit_eq:
  fixes x y :: nat
  assumes "r < n" and "s < n"
  shows "x * n + r = y * n + s \<longleftrightarrow> x = y \<and> r = s"
proof -
  have "(x * n + r) div n = x" "(x * n + r) mod n = r" "(y * n + s) div n = y" "(y * n + s) mod n = s"
    using assms by simp_all
  then show ?thesis by metis
qed

lemma compare_mac_loop_le: "compare_mac_loop i a b \<longleftrightarrow> reversed_mac i a \<le> reversed_mac i b"
proof (induction i arbitrary: a b)
  case 0
  then show ?case by simp
next
  case (Suc i)
  let ?x = "unat (a AND 0xFF)" and ?y = "unat (b AND 0xFF)"
  have "compare_mac_loop (Suc i) a b \<longleftrightarrow> ?x < ?y \<or> ?x = ?y \<and> reversed_mac i (drop_bit 8 a) \<le> reversed_mac i (drop_bit 8 b)"
    using Suc.IH low_byte(1) [of a] low_byte(1) [of b]
    by (auto simp: Let_def word_less_nat_alt simp del: unsigned_ucast_eq)
  also have "\<dots> \<longleftrightarrow> reversed_mac (Suc i) a \<le> reversed_mac (Suc i) b"
    unfolding reversed_mac.simps using compare_digit [OF reversed_mac_less reversed_mac_less] by metis
  finally show ?case .
qed

lemma reversed_mac_inj:
  "reversed_mac i a = reversed_mac i b \<longleftrightarrow> take_bit (8 * i) a = take_bit (8 * i) b"
proof (induction i arbitrary: a b)
  case 0
  then show ?case by simp
next
  case (Suc i)
  have eq: "take_bit (8 * Suc i) a = take_bit (8 * Suc i) b \<longleftrightarrow>
      take_bit 8 a = take_bit 8 b \<and> take_bit (8 * i) (drop_bit 8 a) = take_bit (8 * i) (drop_bit 8 b)"
    (is "?l \<longleftrightarrow> ?r")
  proof
    assume ?l
    then have "bit (take_bit (8 * Suc i) a) n = bit (take_bit (8 * Suc i) b) n" for n by simp
    then have "n < 8 * Suc i \<Longrightarrow> bit a n = bit b n" for n by (auto simp: bit_take_bit_iff)
    then show ?r
      by (auto intro!: bit_eqI simp: bit_take_bit_iff bit_drop_bit_eq)
  next
    assume ?r
    then have "bit (take_bit 8 a) n = bit (take_bit 8 b) n"
      "bit (take_bit (8 * i) (drop_bit 8 a)) n = bit (take_bit (8 * i) (drop_bit 8 b)) n" for n
      by simp_all
    then have lo: "n < 8 \<Longrightarrow> bit a n = bit b n"
      and hi: "n < 8 * i \<Longrightarrow> bit a (8 + n) = bit b (8 + n)" for n
      by (auto simp: bit_take_bit_iff bit_drop_bit_eq)
    have "bit a n \<longleftrightarrow> bit b n" if "n < 8 * Suc i" for n
      using lo [of n] hi [of "n - 8"] that by (cases "n < 8") auto
    then show ?l by (auto intro!: bit_eqI simp: bit_take_bit_iff)
  qed
  have "reversed_mac (Suc i) a = reversed_mac (Suc i) b \<longleftrightarrow>
      unat (a AND 0xFF) = unat (b AND 0xFF) \<and> reversed_mac i (drop_bit 8 a) = reversed_mac i (drop_bit 8 b)"
    unfolding reversed_mac.simps by (rule digit_eq [OF reversed_mac_less reversed_mac_less])
  moreover have "m AND 0xFF = take_bit 8 m" for m :: u64
    by (simp add: take_bit_eq_mask mask_eq_exp_minus_1)
  ultimately show ?case using eq Suc.IH by (simp add: word_unat_eq_iff [of "take_bit 8 a"])
qed

section \<open>Properties\<close>

text \<open>
  Property C33. Packing a packet whose fields fit their wire widths into a buffer of at least
  42 bytes and unpacking the buffer gives the packet back, whatever the
  uninitialised temporaries of \<open>unpack_maap\<close> held.
\<close>

theorem pack_unpack_roundtrip:
  assumes "wf_packet p" and "MAAP_PKT_SIZE \<le> length buf" and "length tmp64 = 8" and "length tmp16 = 2"
  shows "\<exists>out. pack_maap p buf = Some (0, out) \<and> length out = length buf \<and>
    unpack_maap tmp64 tmp16 out = Some (0, p)"
  using assms pack_maap_bytes [of buf p] unpack_maap_bytes [of p tmp64 tmp16]
  by (simp add: MAAP_PKT_SIZE_def)

definition sample_packet :: maap_packet where
  "sample_packet = \<lparr>DA = 0x91E0F000FF00, SA = 0x123456789ABC, Ethertype = MAAP_TYPE,
     subtype = MAAP_SUBTYPE, SV = 0, version = 0, message_type = MAAP_PROBE, maap_version = 1,
     control_data_length = 16, stream_id = 0, requested_start_address = 0x91E0F0001234,
     requested_count = 8, conflict_start_address = 0, conflict_count = 0\<rparr>"

lemma sample_packet_wf: "wf_packet sample_packet"
  by (simp add: wf_packet_def sample_packet_def MAAP_SUBTYPE_def MAAP_PROBE_def take_bit_eq_mod)

theorem pack_unpack_roundtrip_witness:
  "\<exists>out. pack_maap sample_packet (replicate 64 0) = Some (0, out) \<and> length out = 64 \<and>
    unpack_maap (replicate 8 0xAA) (replicate 2 0x55) out = Some (0, sample_packet)"
  using pack_unpack_roundtrip [OF sample_packet_wf, of "replicate 64 0" "replicate 8 0xAA" "replicate 2 0x55"]
  by (simp add: MAAP_PKT_SIZE_def)

text \<open>
  Unpacking reads exactly the first 42 bytes: it never fails on a longer stream,
  every field it delivers fits its wire width, and packing the result reproduces
  those 42 bytes.
\<close>

theorem unpack_pack_roundtrip:
  assumes "MAAP_PKT_SIZE \<le> length stream" and "MAAP_PKT_SIZE \<le> length buf"
    and "length tmp64 = 8" and "length tmp16 = 2"
  shows "\<exists>p. unpack_maap tmp64 tmp16 stream = Some (0, p) \<and> wf_packet p \<and>
    pack_maap p buf = Some (0, take 42 stream @ drop 42 buf)"
  using assms unpack_maap_stream [of stream tmp64 tmp16] pack_maap_bytes [of buf]
  by (auto simp: MAAP_PKT_SIZE_def)

text \<open>
  \<open>compare_mac_addresses\<close> is a total order on MAC addresses, the one of the
  byte-reversed numbers: of two devices with different addresses exactly one sees
  itself as the lower one, so exactly one of them yields; for equal addresses both
  answers are 1.
\<close>

theorem compare_mac_addresses_order:
  "(compare_mac_addresses a b \<longleftrightarrow> reversed_mac 6 a \<le> reversed_mac 6 b) \<and>
   (compare_mac_addresses a b \<or> compare_mac_addresses b a) \<and>
   (compare_mac_addresses a b \<and> compare_mac_addresses b a \<longleftrightarrow> take_bit 48 a = take_bit 48 b)"
  using reversed_mac_inj [of 6 a b]
  by (auto simp: compare_mac_addresses_def compare_mac_loop_le simp del: reversed_mac.simps)

text \<open>
  \<open>convert_mac_address\<close> reads two bytes past the end of a six-byte MAC address (the
  daemon passes six-byte arrays); where those bytes are readable, their value has no
  influence on the result.
\<close>

theorem convert_mac_address_overread:
  "convert_mac_address [a, b, c, d, e, f] = None \<and>
   convert_mac_address [a, b, c, d, e, f, x, y] = Some (word_be [a, b, c, d, e, f])"
  using word_be_top [of "[a, b, c, d, e, f]" "[x, y]"]
  by (simp add: convert_mac_address_def BE64TOH_def)

end
