(* ===== verification/Maap_Time.thy ===== *)
theory Maap_Time
  imports Avb_Prelude
begin

text \<open>
  Times and the one platform timer of the MAAP daemon,
  \<open>maap/linux/src/maap_timer_linux.c\<close>.  A \<open>struct timespec\<close> is a pair of
  unbounded integers (the seconds of a monotonic clock stay far below \<open>2^63\<close>).
  The POSIX timer behind \<open>Timer\<close> is modelled by what it is armed for;
  \<open>timer_settime\<close> refuses a nanosecond part outside \<open>0 .. 999999999\<close>, as its
  specification says, and the C code ignores that answer.
\<close>

section \<open>Times\<close>

datatype time = Time (tv_sec: int) (tv_nsec: int)

instantiation time :: linorder
begin

definition less_eq_time :: "time \<Rightarrow> time \<Rightarrow> bool" where
  "less_eq_time a b \<longleftrightarrow> tv_sec a < tv_sec b \<or> tv_sec a = tv_sec b \<and> tv_nsec a \<le> tv_nsec b"

definition less_time :: "time \<Rightarrow> time \<Rightarrow> bool" where
  "less_time a b \<longleftrightarrow> tv_sec a < tv_sec b \<or> tv_sec a = tv_sec b \<and> tv_nsec a < tv_nsec b"

instance
  by standard (auto simp: less_eq_time_def less_time_def time.expand)

end

definition Time_add :: "time \<Rightarrow> time \<Rightarrow> time" where
  "Time_add a b =
     (let sec = tv_sec a + tv_sec b; nsec = tv_nsec a + tv_nsec b
      in if nsec > 1000000000 then Time (sec + 1) (nsec - 1000000000) else Time sec nsec)"

definition Time_diff :: "time \<Rightarrow> time \<Rightarrow> int" where
  "Time_diff a b =
     (let a_ns = tv_sec a * 1000000000 + tv_nsec a;
          b_ns = tv_sec b * 1000000000 + tv_nsec b
      in b_ns - a_ns)"

definition Time_cmp :: "time \<Rightarrow> time \<Rightarrow> int" where
  "Time_cmp a b =
     (if tv_sec a < tv_sec b then -1
      else if tv_sec a > tv_sec b then 1
      else if tv_nsec a < tv_nsec b then -1
      else if tv_nsec a > tv_nsec b then 1
      else 0)"

definition Time_passed :: "time \<Rightarrow> time \<Rightarrow> bool" where
  "Time_passed current target =
     (if tv_sec current < tv_sec target then False
      else if tv_sec current = tv_sec target \<and> tv_nsec current < tv_nsec target then False
      else True)"

definition Time_setFromNanos :: "u64 \<Rightarrow> time" where
  "Time_setFromNanos nsec =
     (let sec = uint (nsec div 1000000000) in Time sec (uint nsec - sec * 1000000000))"

section \<open>The timer\<close>

record timer =
  created :: bool
  armed :: "time option"

text \<open>The arguments say whether \<open>malloc\<close> and \<open>timer_create\<close> succeed.\<close>

definition Time_newTimer :: "bool \<Rightarrow> bool \<Rightarrow> timer option" where
  "Time_newTimer malloc_ok create_ok =
     (if malloc_ok then Some \<lparr>created = create_ok, armed = None\<rparr> else None)"

definition timer_settime :: "timer \<Rightarrow> time \<Rightarrow> timer" where
  "timer_settime tm t =
     (if created tm \<and> 0 \<le> tv_nsec t \<and> tv_nsec t < 1000000000
      then tm\<lparr>armed := (if t = Time 0 0 then None else Some t)\<rparr> else tm)"

definition Time_setTimer :: "timer \<Rightarrow> time \<Rightarrow> timer" where
  "Time_setTimer tm t = timer_settime tm t"

definition Time_remaining :: "timer \<Rightarrow> time \<Rightarrow> int" where
  "Time_remaining tm now =
     (if created tm
      then (case armed tm of None \<Rightarrow> 0 | Some t \<Rightarrow> max 0 (Time_diff now t))
      else -1)"

section \<open>Lemmas\<close>

definition nanos :: "time \<Rightarrow> int" where
  "nanos t = tv_sec t * 1000000000 + tv_nsec t"

definition normal :: "time \<Rightarrow> bool" where
  "normal t \<longleftrightarrow> 0 \<le> tv_nsec t \<and> tv_nsec t < 1000000000"

lemma Time_cmp_le [simp]: "Time_cmp a b \<le> 0 \<longleftrightarrow> a \<le> b"
  by (auto simp: Time_cmp_def less_eq_time_def)

lemma Time_cmp_less [simp]: "Time_cmp a b < 0 \<longleftrightarrow> a < b"
  by (auto simp: Time_cmp_def less_time_def)

lemma Time_passed_le [simp]: "Time_passed current target \<longleftrightarrow> target \<le> current"
  by (auto simp: Time_passed_def less_eq_time_def)

lemma nanos_Time_add: "nanos (Time_add a b) = nanos a + nanos b"
  by (auto simp: nanos_def Time_add_def Let_def)

lemma normal_le_nanos: "normal a \<Longrightarrow> 0 \<le> tv_nsec b \<Longrightarrow> tv_nsec b \<le> 1000000000 \<Longrightarrow> nanos a < nanos b \<Longrightarrow> a < b"
  by (auto simp: normal_def nanos_def less_time_def)

lemma Time_add_range:
  assumes "normal a" and "normal b"
  shows "0 \<le> tv_nsec (Time_add a b)" and "tv_nsec (Time_add a b) \<le> 1000000000"
  using assms by (auto simp: normal_def Time_add_def Let_def)

lemma Time_setFromNanos_normal: "normal (Time_setFromNanos n)"
  and nanos_Time_setFromNanos: "nanos (Time_setFromNanos n) = uint n"
  by (auto simp: normal_def nanos_def Time_setFromNanos_def Let_def uint_div minus_div_mult_eq_mod)

text \<open>Adding a positive normal time to a normal one gives a later time.\<close>

lemma Time_add_later:
  assumes "normal a" and "normal b" and "0 < nanos b"
  shows "a < Time_add a b"
  using assms Time_add_range [OF assms(1,2)] nanos_Time_add [of a b]
  by (intro normal_le_nanos) auto

section \<open>Properties\<close>

text \<open>
  \<open>Time_cmp\<close>, \<open>Time_passed\<close> and \<open>Time_diff\<close> agree: on normal times the
  comparison is that of the nanosecond counts, \<open>Time_passed\<close> holds exactly when
  the comparison is not negative, and \<open>Time_diff\<close> is the signed distance.
\<close>

theorem Time_cmp_nanos:
  assumes "normal a" and "normal b"
  shows "sgn (Time_cmp a b) = sgn (nanos a - nanos b) \<and>
    (Time_passed a b \<longleftrightarrow> 0 \<le> Time_cmp a b) \<and> Time_diff a b = nanos b - nanos a"
  using assms
  by (cases a; cases b; auto simp: Time_cmp_def Time_diff_def nanos_def normal_def sgn_if less_eq_time_def; presburger)

text \<open>
  \<open>Time_add\<close> carries only when the nanoseconds exceed \<open>10^9\<close>: the sum is right as a
  number of nanoseconds, but for two halves of a second the nanosecond part is
  exactly \<open>10^9\<close>, and arming the timer with such a time has no effect.
\<close>

theorem Time_add_missed_carry:
  "nanos (Time_add (Time s 500000000) (Time 0 500000000)) = nanos (Time (s + 1) 0) \<and>
   Time_add (Time s 500000000) (Time 0 500000000) = Time s 1000000000 \<and>
   Time_setTimer tm (Time_add (Time s 500000000) (Time 0 500000000)) = tm"
  by (simp add: Time_add_def nanos_def Time_setTimer_def timer_settime_def)

end
