(* ===== verification/Maap_Net.thy ===== *)
theory Maap_Net
  imports Avb_Prelude "HOL-Library.Multiset"
begin

text \<open>
  The transmit buffers of the MAAP daemon, \<open>maap/common/maap_net.[ch]\<close>: four
  preallocated buffers and a linked list of overflow buffers, each going through
  free, supplied, queued, sending and back to free.
\<close>

section \<open>Data\<close>

definition NUM_BUFFERS :: nat where "NUM_BUFFERS = 4"
definition MAAP_NET_BUFFER_SIZE :: nat where "MAAP_NET_BUFFER_SIZE = 64"

datatype buffer_state = BUFFER_FREE | BUFFER_SUPPLIED | BUFFER_QUEUED | BUFFER_SENDING

record maap_buffer =
  buffer :: "u8 list"
  buf_state :: buffer_state

text \<open>A buffer pointer names a slot of the array or an overflow node.\<close>

datatype buf_ref = Slot nat | Over addr

text \<open>\<open>pFirst\<close> is the linked list of overflow buffers, with the addresses of its nodes.\<close>

record net =
  net_buffer :: "maap_buffer list"
  pFirst :: "(addr \<times> maap_buffer) list"

section \<open>Operations\<close>

definition zero_buffer :: maap_buffer where
  "zero_buffer = \<lparr>buffer = replicate MAAP_NET_BUFFER_SIZE 0, buf_state = BUFFER_FREE\<rparr>"

definition Net_newNet :: "bool \<Rightarrow> net option" where
  "Net_newNet malloc_ok =
     (if malloc_ok then Some \<lparr>net_buffer = replicate NUM_BUFFERS zero_buffer, pFirst = []\<rparr> else None)"

text \<open>\<open>Net_delNet\<close> frees the overflow buffers from the front; the result lists them in that order.\<close>

fun Net_delNet_loop :: "(addr \<times> maap_buffer) list \<Rightarrow> addr list" where
  "Net_delNet_loop [] = []"
| "Net_delNet_loop (b # bs) = fst b # Net_delNet_loop bs"

definition Net_delNet :: "net \<Rightarrow> addr list" where
  "Net_delNet n = Net_delNet_loop (pFirst n)"

text \<open>The first slot, and the first overflow buffer, in a given state.\<close>

fun find_slot :: "buffer_state \<Rightarrow> maap_buffer list \<Rightarrow> nat option" where
  "find_slot st [] = None"
| "find_slot st (b # bs) = (if buf_state b = st then Some 0 else map_option Suc (find_slot st bs))"

fun find_over :: "buffer_state \<Rightarrow> (addr \<times> maap_buffer) list \<Rightarrow> addr option" where
  "find_over st [] = None"
| "find_over st ((a, b) # bs) = (if buf_state b = st then Some a else find_over st bs)"

fun upd_over :: "addr \<Rightarrow> (maap_buffer \<Rightarrow> maap_buffer) \<Rightarrow> (addr \<times> maap_buffer) list \<Rightarrow> (addr \<times> maap_buffer) list" where
  "upd_over x f [] = []"
| "upd_over x f ((a, b) # bs) = (if a = x then (a, f b) # bs else (a, b) # upd_over x f bs)"

fun del_over :: "addr \<Rightarrow> (addr \<times> maap_buffer) list \<Rightarrow> (addr \<times> maap_buffer) list" where
  "del_over x [] = []"
| "del_over x ((a, b) # bs) = (if a = x then bs else (a, b) # del_over x bs)"

definition get_buffer :: "net \<Rightarrow> buf_ref \<Rightarrow> maap_buffer option" where
  "get_buffer n r =
     (case r of
        Slot i \<Rightarrow> if i < length (net_buffer n) then Some (net_buffer n ! i) else None
      | Over a \<Rightarrow> map_of (pFirst n) a)"

definition set_buffer :: "net \<Rightarrow> buf_ref \<Rightarrow> (maap_buffer \<Rightarrow> maap_buffer) \<Rightarrow> net" where
  "set_buffer n r f =
     (case r of
        Slot i \<Rightarrow> n\<lparr>net_buffer := (net_buffer n)[i := f (net_buffer n ! i)]\<rparr>
      | Over a \<Rightarrow> n\<lparr>pFirst := upd_over a f (pFirst n)\<rparr>)"

text \<open>The argument \<open>r\<close> is what \<open>malloc\<close> would return for an overflow buffer.\<close>

definition Net_getPacketBuffer :: "net \<Rightarrow> ptr \<Rightarrow> (buf_ref \<times> net) option" where
  "Net_getPacketBuffer n r =
     (case find_slot BUFFER_FREE (net_buffer n) of
        Some i \<Rightarrow> Some (Slot i, set_buffer n (Slot i) (\<lambda>b. b\<lparr>buf_state := BUFFER_SUPPLIED\<rparr>))
      | None \<Rightarrow>
          (case r of
             Some a \<Rightarrow> Some (Over a, n\<lparr>pFirst := pFirst n @ [(a, zero_buffer\<lparr>buf_state := BUFFER_SUPPLIED\<rparr>)]\<rparr>)
           | None \<Rightarrow> None))"

definition Net_queuePacket :: "net \<Rightarrow> buf_ref \<Rightarrow> (int \<times> net) option" where
  "Net_queuePacket n r = do {
     b \<leftarrow> get_buffer n r;
     c_assert (buf_state b = BUFFER_SUPPLIED);
     Some (0, set_buffer n r (\<lambda>b. b\<lparr>buf_state := BUFFER_QUEUED\<rparr>)) }"

definition Net_getNextQueuedPacket :: "net \<Rightarrow> buf_ref option \<times> net" where
  "Net_getNextQueuedPacket n =
     (case find_slot BUFFER_QUEUED (net_buffer n) of
        Some i \<Rightarrow> (Some (Slot i), set_buffer n (Slot i) (\<lambda>b. b\<lparr>buf_state := BUFFER_SENDING\<rparr>))
      | None \<Rightarrow>
          (case find_over BUFFER_QUEUED (pFirst n) of
             Some a \<Rightarrow> (Some (Over a), set_buffer n (Over a) (\<lambda>b. b\<lparr>buf_state := BUFFER_SENDING\<rparr>))
           | None \<Rightarrow> (None, n)))"

definition Net_freeQueuedPacket :: "net \<Rightarrow> buf_ref \<Rightarrow> (int \<times> net) option" where
  "Net_freeQueuedPacket n r = do {
     b \<leftarrow> get_buffer n r;
     c_assert (buf_state b = BUFFER_SENDING);
     (case r of
        Slot i \<Rightarrow> Some (0, set_buffer n r (\<lambda>b. b\<lparr>buf_state := BUFFER_FREE\<rparr>))
      | Over a \<Rightarrow> Some (0, n\<lparr>pFirst := del_over a (pFirst n)\<rparr>)) }"

text \<open>The caller fills a buffer it was supplied with.\<close>

definition Net_fill :: "net \<Rightarrow> buf_ref \<Rightarrow> u8 list \<Rightarrow> net" where
  "Net_fill n r bs = set_buffer n r (\<lambda>b. b\<lparr>buffer := bs\<rparr>)"

text \<open>
  Sending, as \<open>send_packet\<close> of \<open>maap.c\<close> does it around \<open>pack_maap\<close>, and the loop of the
  daemon that hands the queued packets to the socket: \<open>ok i\<close> answers whether the \<open>i\<close>-th call of \<open>send\<close>
  succeeds.  A packet whose call fails is freed, and the loop is left.
\<close>

definition Net_send :: "net \<Rightarrow> ptr \<Rightarrow> u8 list \<Rightarrow> net option" where
  "Net_send n r bs = do {
     (p, n) \<leftarrow> Net_getPacketBuffer n r;
     (rv, n) \<leftarrow> Net_queuePacket (Net_fill n p bs) p;
     Some n }"

partial_function (option) Net_transmit :: "(nat \<Rightarrow> bool) \<Rightarrow> nat \<Rightarrow> net \<Rightarrow> (u8 list list \<times> net) option" where
  "Net_transmit ok i n =
     (case Net_getNextQueuedPacket n of
        (None, n) \<Rightarrow> Some ([], n)
      | (Some p, n) \<Rightarrow> do {
          b \<leftarrow> get_buffer n p;
          (rv, n) \<leftarrow> Net_freeQueuedPacket n p;
          if \<not> ok i then Some ([], n)
          else do {
            (out, n) \<leftarrow> Net_transmit ok (Suc i) n;
            Some (buffer b # out, n) } })"

section \<open>Invariant and abstraction\<close>

definition net_inv :: "net \<Rightarrow> bool" where
  "net_inv n \<longleftrightarrow> length (net_buffer n) = NUM_BUFFERS \<and> distinct (map fst (pFirst n)) \<and>
     (\<forall>b\<in>set (net_buffer n). length (buffer b) = MAAP_NET_BUFFER_SIZE) \<and>
     (\<forall>(a, b)\<in>set (pFirst n). length (buffer b) = MAAP_NET_BUFFER_SIZE \<and> buf_state b \<noteq> BUFFER_FREE)"

definition buffers :: "net \<Rightarrow> maap_buffer list" where
  "buffers n = net_buffer n @ map snd (pFirst n)"

text \<open>The packets in a given state, as a multiset of their contents.\<close>

definition packets :: "buffer_state \<Rightarrow> net \<Rightarrow> u8 list multiset" where
  "packets st n = image_mset buffer (filter_mset (\<lambda>b. buf_state b = st) (mset (buffers n)))"

text \<open>The queued packets in the order in which the transmit loop meets them.\<close>

definition waiting :: "net \<Rightarrow> u8 list list" where
  "waiting n = map buffer (filter (\<lambda>b. buf_state b = BUFFER_QUEUED) (buffers n))"

section \<open>Lemmas\<close>

lemma find_slot_Some:
  "find_slot st bs = Some i \<Longrightarrow> i < length bs \<and> buf_state (bs ! i) = st"
  by (induction bs arbitrary: i) (auto split: if_splits)

lemma find_slot_None: "find_slot st bs = None \<longleftrightarrow> (\<forall>b\<in>set bs. buf_state b \<noteq> st)"
  by (induction bs) auto

lemma find_over_Some:
  "distinct (map fst bs) \<Longrightarrow> find_over st bs = Some a \<Longrightarrow> \<exists>b. map_of bs a = Some b \<and> buf_state b = st"
  by (induction bs) (auto split: if_splits dest: map_of_SomeD, metis map_of_SomeD fst_conv image_iff)

lemma find_over_None: "find_over st bs = None \<longleftrightarrow> (\<forall>(a, b)\<in>set bs. buf_state b \<noteq> st)"
  by (induction bs) (auto split: if_splits)

lemma fst_upd_over [simp]: "map fst (upd_over x f bs) = map fst bs"
  by (induction bs) auto

lemma upd_over_split:
  "map_of bs x = Some b \<Longrightarrow> \<exists>us vs. bs = us @ (x, b) # vs \<and> upd_over x f bs = us @ (x, f b) # vs \<and>
     del_over x bs = us @ vs"
proof (induction bs)
  case Nil
  then show ?case by simp
next
  case (Cons c bs)
  show ?case
  proof (cases "fst c = x")
    case True
    with Cons.prems show ?thesis by (intro exI [of _ "[]"] exI [of _ bs]) (cases c, auto)
  next
    case False
    with Cons obtain us vs where "bs = us @ (x, b) # vs" "upd_over x f bs = us @ (x, f b) # vs" "del_over x bs = us @ vs"
      by (cases c) auto
    with False show ?thesis by (intro exI [of _ "c # us"] exI [of _ vs]) (cases c, auto)
  qed
qed

text \<open>Changing one buffer, on the multiset of all buffers.\<close>

lemma mset_set_buffer:
  assumes "get_buffer n r = Some b"
  shows "add_mset b (mset (buffers (set_buffer n r f))) = add_mset (f b) (mset (buffers n))"
proof (cases r)
  case (Slot i)
  with assms have i: "i < length (net_buffer n)" "b = net_buffer n ! i"
    by (auto simp: get_buffer_def split: if_splits)
  then have "net_buffer n = take i (net_buffer n) @ b # drop (Suc i) (net_buffer n)"
    by (simp add: id_take_nth_drop)
  moreover have "(net_buffer n)[i := f b] = take i (net_buffer n) @ f b # drop (Suc i) (net_buffer n)"
    using i by (simp add: upd_conv_take_nth_drop)
  ultimately have "add_mset b (mset ((net_buffer n)[i := f b])) = add_mset (f b) (mset (net_buffer n))"
    by (metis (no_types, opaque_lifting) add_mset_commute mset.simps(2) mset_append union_mset_add_mset_right)
  then show ?thesis
    using Slot i by (simp add: set_buffer_def buffers_def flip: union_mset_add_mset_left)
next
  case (Over a)
  with assms obtain us vs where "pFirst n = us @ (a, b) # vs" "upd_over a f (pFirst n) = us @ (a, f b) # vs"
    by (auto simp: get_buffer_def dest: upd_over_split [of _ _ _ f])
  with Over show ?thesis by (simp add: set_buffer_def buffers_def)
qed

lemma get_set_buffer:
  assumes "get_buffer n r = Some b"
  shows "get_buffer (set_buffer n r f) r = Some (f b)"
proof (cases r)
  case (Slot i)
  with assms show ?thesis by (auto simp: get_buffer_def set_buffer_def split: if_splits)
next
  case (Over a)
  have "map_of bs a = Some b \<Longrightarrow> map_of (upd_over a f bs) a = Some (f b)" for bs
    by (induction bs) (auto split: if_splits)
  with assms Over show ?thesis by (simp add: get_buffer_def set_buffer_def)
qed

lemma net_inv_set_buffer:
  assumes "net_inv n" and "get_buffer n r = Some b" and "length (buffer (f b)) = MAAP_NET_BUFFER_SIZE"
    and "buf_state (f b) \<noteq> BUFFER_FREE \<or> (\<exists>i. r = Slot i)"
  shows "net_inv (set_buffer n r f)"
proof (cases r)
  case (Slot i)
  with assms show ?thesis
    by (auto simp: net_inv_def set_buffer_def get_buffer_def split: if_splits
        dest!: set_update_subset_insert [THEN subsetD])
next
  case (Over a)
  with assms obtain us vs where "pFirst n = us @ (a, b) # vs" "upd_over a f (pFirst n) = us @ (a, f b) # vs"
    by (auto simp: get_buffer_def dest: upd_over_split [of _ _ _ f])
  with assms Over show ?thesis by (auto simp: net_inv_def set_buffer_def)
qed

text \<open>How the packets in each state change with one buffer.\<close>

lemma packets_set_buffer:
  assumes "get_buffer n r = Some b"
  shows "packets st (set_buffer n r f) + (if buf_state b = st then {#buffer b#} else {#}) =
    packets st n + (if buf_state (f b) = st then {#buffer (f b)#} else {#})"
proof -
  have "image_mset buffer (filter_mset (\<lambda>b. buf_state b = st) (add_mset b (mset (buffers (set_buffer n r f))))) =
      image_mset buffer (filter_mset (\<lambda>b. buf_state b = st) (add_mset (f b) (mset (buffers n))))"
    by (simp only: mset_set_buffer [OF assms])
  then show ?thesis by (auto simp: packets_def split: if_splits)
qed

lemma get_buffer_length: "net_inv n \<Longrightarrow> get_buffer n r = Some b \<Longrightarrow> length (buffer b) = MAAP_NET_BUFFER_SIZE"
  by (auto simp: get_buffer_def net_inv_def split: buf_ref.splits if_splits dest!: map_of_SomeD)


lemma get_buffer_find_slot: "find_slot st (net_buffer n) = Some i \<Longrightarrow>
    \<exists>b. get_buffer n (Slot i) = Some b \<and> buf_state b = st"
  by (auto simp: get_buffer_def dest: find_slot_Some)

lemma get_buffer_find_over: "net_inv n \<Longrightarrow> find_over st (pFirst n) = Some a \<Longrightarrow>
    \<exists>b. get_buffer n (Over a) = Some b \<and> buf_state b = st"
  using find_over_Some [of "pFirst n" st a] by (simp add: get_buffer_def net_inv_def)

lemma packets_empty: "packets st n = {#} \<longleftrightarrow>
    find_slot st (net_buffer n) = None \<and> find_over st (pFirst n) = None"
  by (auto simp: packets_def buffers_def find_slot_None find_over_None filter_mset_eq_conv
      filter_empty_conv simp flip: mset_filter)

text \<open>\<open>fresh n r\<close>: an address that \<open>malloc\<close> may return.\<close>

definition fresh :: "net \<Rightarrow> ptr \<Rightarrow> bool" where
  "fresh n r \<longleftrightarrow> (\<exists>a. r = Some a \<and> a \<notin> fst ` set (pFirst n))"

lemma Net_getPacketBuffer_ok:
  assumes "net_inv n" and "fresh n r"
  shows "\<exists>p b m. Net_getPacketBuffer n r = Some (p, m) \<and> net_inv m \<and>
    get_buffer m p = Some b \<and> buf_state b = BUFFER_SUPPLIED \<and>
    packets BUFFER_QUEUED m = packets BUFFER_QUEUED n \<and> packets BUFFER_SENDING m = packets BUFFER_SENDING n"
proof (cases "find_slot BUFFER_FREE (net_buffer n)")
  case (Some i)
  let ?f = "\<lambda>b. b\<lparr>buf_state := BUFFER_SUPPLIED\<rparr>"
  from get_buffer_find_slot [OF Some] obtain b where b: "get_buffer n (Slot i) = Some b" "buf_state b = BUFFER_FREE"
    by blast
  have "net_inv (set_buffer n (Slot i) ?f)"
    using assms(1) b(1) get_buffer_length [OF assms(1) b(1)] by (intro net_inv_set_buffer) auto
  moreover have "packets st (set_buffer n (Slot i) ?f) = packets st n" if "st \<in> {BUFFER_QUEUED, BUFFER_SENDING}" for st
    using packets_set_buffer [OF b(1), of st ?f] b(2) that by auto
  ultimately show ?thesis
    using Some get_set_buffer [OF b(1), of ?f] by (simp add: Net_getPacketBuffer_def)
next
  case None
  from assms(2) obtain a where a: "r = Some a" "a \<notin> fst ` set (pFirst n)"
    by (auto simp: fresh_def)
  have "map_of (pFirst n) a = None"
    using a(2) by (simp add: map_of_eq_None_iff)
  then show ?thesis
    using None a assms(1)
    by (auto simp: Net_getPacketBuffer_def net_inv_def get_buffer_def packets_def buffers_def zero_buffer_def
        map_add_def map_of_append)
qed

lemma Net_send_ok:
  assumes "net_inv n" and "fresh n r" and "length bs = MAAP_NET_BUFFER_SIZE"
  shows "\<exists>m. Net_send n r bs = Some m \<and> net_inv m \<and>
    packets BUFFER_QUEUED m = add_mset bs (packets BUFFER_QUEUED n) \<and>
    packets BUFFER_SENDING m = packets BUFFER_SENDING n"
proof -
  from Net_getPacketBuffer_ok [OF assms(1,2)] obtain p b m where
    g: "Net_getPacketBuffer n r = Some (p, m)" "net_inv m" and b: "get_buffer m p = Some b" "buf_state b = BUFFER_SUPPLIED"
    and same: "packets BUFFER_QUEUED m = packets BUFFER_QUEUED n" "packets BUFFER_SENDING m = packets BUFFER_SENDING n"
    by blast
  let ?f = "\<lambda>b. b\<lparr>buffer := bs\<rparr>" and ?g = "\<lambda>b. b\<lparr>buf_state := BUFFER_QUEUED\<rparr>"
  let ?m = "set_buffer m p ?f"
  have i: "net_inv ?m"
    using g(2) b assms(3) by (intro net_inv_set_buffer) auto
  have b': "get_buffer ?m p = Some (?f b)"
    by (rule get_set_buffer [OF b(1)])
  have "net_inv (set_buffer ?m p ?g)"
    using i b' assms(3) by (intro net_inv_set_buffer [OF i b']) auto
  moreover have "packets BUFFER_QUEUED (set_buffer ?m p ?g) = add_mset bs (packets BUFFER_QUEUED m)"
    "packets BUFFER_SENDING (set_buffer ?m p ?g) = packets BUFFER_SENDING m"
    using packets_set_buffer [OF b', of BUFFER_QUEUED ?g] packets_set_buffer [OF b(1), of BUFFER_QUEUED ?f]
      packets_set_buffer [OF b', of BUFFER_SENDING ?g] packets_set_buffer [OF b(1), of BUFFER_SENDING ?f] b(2)
    by simp_all
  ultimately show ?thesis
    using g(1) b' b(2) same by (simp add: Net_send_def Net_queuePacket_def Net_fill_def)
qed

lemma Net_free_ok:
  assumes "net_inv n" and "get_buffer n p = Some b" and "buf_state b = BUFFER_SENDING"
  shows "\<exists>m. Net_freeQueuedPacket n p = Some (0, m) \<and> net_inv m \<and>
    packets BUFFER_QUEUED m = packets BUFFER_QUEUED n \<and>
    packets BUFFER_SENDING n = add_mset (buffer b) (packets BUFFER_SENDING m)"
proof (cases p)
  case (Slot i)
  let ?f = "\<lambda>b. b\<lparr>buf_state := BUFFER_FREE\<rparr>"
  have "net_inv (set_buffer n p ?f)"
    using assms Slot get_buffer_length [OF assms(1,2)] by (intro net_inv_set_buffer) auto
  moreover have "packets BUFFER_QUEUED (set_buffer n p ?f) = packets BUFFER_QUEUED n"
    using packets_set_buffer [OF assms(2), of BUFFER_QUEUED ?f] assms(3) by simp
  moreover have "packets BUFFER_SENDING n = add_mset (buffer b) (packets BUFFER_SENDING (set_buffer n p ?f))"
    using packets_set_buffer [OF assms(2), of BUFFER_SENDING ?f] assms(3) by simp
  ultimately show ?thesis
    using Slot assms(2,3) by (simp add: Net_freeQueuedPacket_def)
next
  case (Over a)
  with assms(2) obtain us vs where "pFirst n = us @ (a, b) # vs" "del_over a (pFirst n) = us @ vs"
    by (auto simp: get_buffer_def dest: upd_over_split)
  then show ?thesis
    using Over assms by (auto simp: Net_freeQueuedPacket_def net_inv_def packets_def buffers_def)
qed

lemma Net_next_ok:
  assumes "net_inv n"
  shows "(packets BUFFER_QUEUED n = {#} \<and> Net_getNextQueuedPacket n = (None, n)) \<or>
    (\<exists>p b m. Net_getNextQueuedPacket n = (Some p, m) \<and> net_inv m \<and>
       get_buffer m p = Some b \<and> buf_state b = BUFFER_SENDING \<and>
       packets BUFFER_QUEUED n = add_mset (buffer b) (packets BUFFER_QUEUED m) \<and>
       packets BUFFER_SENDING m = add_mset (buffer b) (packets BUFFER_SENDING n))"
proof -
  let ?f = "\<lambda>b. b\<lparr>buf_state := BUFFER_SENDING\<rparr>"
  have step: "\<exists>c m. (Some p, set_buffer n p ?f) = (Some p, m) \<and> net_inv m \<and> get_buffer m p = Some c \<and>
       buf_state c = BUFFER_SENDING \<and>
       packets BUFFER_QUEUED n = add_mset (buffer c) (packets BUFFER_QUEUED m) \<and>
       packets BUFFER_SENDING m = add_mset (buffer c) (packets BUFFER_SENDING n)"
    if b: "get_buffer n p = Some b" "buf_state b = BUFFER_QUEUED" for p b
  proof -
    have "net_inv (set_buffer n p ?f)"
      using assms b(1) get_buffer_length [OF assms b(1)] by (intro net_inv_set_buffer) auto
    then show ?thesis
      using b(2) get_set_buffer [OF b(1), of ?f] packets_set_buffer [OF b(1), of BUFFER_QUEUED ?f]
        packets_set_buffer [OF b(1), of BUFFER_SENDING ?f] by simp
  qed
  show ?thesis
  proof (cases "find_slot BUFFER_QUEUED (net_buffer n)")
    case (Some i)
    with get_buffer_find_slot [OF Some] step show ?thesis
      by (fastforce simp: Net_getNextQueuedPacket_def)
  next
    case none: None
    show ?thesis
    proof (cases "find_over BUFFER_QUEUED (pFirst n)")
      case None
      with none show ?thesis by (simp add: packets_empty Net_getNextQueuedPacket_def)
    next
      case (Some a)
      with get_buffer_find_over [OF assms Some] step none show ?thesis
        by (fastforce simp: Net_getNextQueuedPacket_def)
    qed
  qed
qed

section \<open>The order of transmission\<close>

lemma packets_waiting: "packets BUFFER_QUEUED n = mset (waiting n)"
  by (simp add: packets_def waiting_def mset_filter)

lemma find_slot_filter:
  "find_slot st bs = Some i \<Longrightarrow> buf_state c \<noteq> st \<Longrightarrow>
    filter (\<lambda>b. buf_state b = st) bs = bs ! i # filter (\<lambda>b. buf_state b = st) (bs[i := c])"
  by (induction bs arbitrary: i) (auto split: if_splits)

lemma find_over_filter:
  "distinct (map fst bs) \<Longrightarrow> find_over st bs = Some a \<Longrightarrow> map_of bs a = Some b \<Longrightarrow> buf_state (f b) \<noteq> st \<Longrightarrow>
    filter (\<lambda>b. buf_state b = st) (map snd bs) = b # filter (\<lambda>b. buf_state b = st) (map snd (upd_over a f bs))"
proof (induction bs)
  case Nil
  then show ?case by simp
next
  case (Cons c bs)
  obtain x y where c: "c = (x, y)" by (cases c)
  show ?case
  proof (cases "buf_state y = st")
    case True
    with Cons.prems c show ?thesis by auto
  next
    case False
    with Cons.prems(2) c have fa: "find_over st bs = Some a" by simp
    have "x \<noteq> a" using find_over_Some [OF _ fa] Cons.prems(1) c by (auto dest: map_of_SomeD) (metis fst_conv image_iff map_of_SomeD)
    with False fa Cons c show ?thesis by simp
  qed
qed

lemma waiting_next:
  assumes inv: "net_inv n" and x: "Net_getNextQueuedPacket n = (Some p, m)" and b: "get_buffer m p = Some b"
  shows "waiting n = buffer b # waiting m"
proof (cases "find_slot BUFFER_QUEUED (net_buffer n)")
  case (Some i)
  let ?c = "net_buffer n ! i"
  have i: "i < length (net_buffer n)" using find_slot_Some [OF Some] by simp
  have m: "p = Slot i" "m = set_buffer n (Slot i) (\<lambda>b. b\<lparr>buf_state := BUFFER_SENDING\<rparr>)"
    using x Some by (auto simp: Net_getNextQueuedPacket_def)
  have "b = ?c\<lparr>buf_state := BUFFER_SENDING\<rparr>" using b i m by (simp add: get_buffer_def set_buffer_def)
  then show ?thesis
    using find_slot_filter [OF Some, of "?c\<lparr>buf_state := BUFFER_SENDING\<rparr>"] m by (simp add: waiting_def buffers_def set_buffer_def)
next
  case None
  then obtain a where a: "find_over BUFFER_QUEUED (pFirst n) = Some a" "p = Over a"
    "m = set_buffer n (Over a) (\<lambda>b. b\<lparr>buf_state := BUFFER_SENDING\<rparr>)"
    using x by (auto simp: Net_getNextQueuedPacket_def split: option.splits)
  have d: "distinct (map fst (pFirst n))" using inv by (simp add: net_inv_def)
  obtain c where c: "map_of (pFirst n) a = Some c" using find_over_Some [OF d a(1)] by blast
  have "get_buffer n (Over a) = Some c" using c by (simp add: get_buffer_def)
  from get_set_buffer [OF this, of "\<lambda>b. b\<lparr>buf_state := BUFFER_SENDING\<rparr>"] have bc: "b = c\<lparr>buf_state := BUFFER_SENDING\<rparr>" using a b by simp
  have "filter (\<lambda>b. buf_state b = BUFFER_QUEUED) (net_buffer n) = []" using None by (simp add: find_slot_None filter_empty_conv)
  then show ?thesis
    using find_over_filter [OF d a(1) c, of "\<lambda>b. b\<lparr>buf_state := BUFFER_SENDING\<rparr>"] a(3) bc
    by (simp add: waiting_def buffers_def set_buffer_def)
qed

lemma waiting_free:
  assumes "get_buffer n p = Some b" and "buf_state b = BUFFER_SENDING" and "Net_freeQueuedPacket n p = Some (rv, m)"
  shows "waiting m = waiting n"
proof (cases p)
  case (Slot i)
  then have i: "i < length (net_buffer n)" "net_buffer n ! i = b" using assms(1) by (auto simp: get_buffer_def split: if_splits)
  have "filter P (xs[i := c]) = filter P xs" if "i < length xs" "\<not> P (xs ! i)" "\<not> P c" for P xs and c :: maap_buffer
    using that by (simp add: upd_conv_take_nth_drop) (metis (no_types) filter.simps(2) filter_append id_take_nth_drop)
  then show ?thesis
    using Slot assms i by (auto simp: Net_freeQueuedPacket_def set_buffer_def waiting_def buffers_def)
next
  case (Over a)
  with assms(1) obtain us vs where "pFirst n = us @ (a, b) # vs" "del_over a (pFirst n) = us @ vs"
    by (auto simp: get_buffer_def dest: upd_over_split)
  then show ?thesis
    using Over assms by (auto simp: Net_freeQueuedPacket_def waiting_def buffers_def)
qed

section \<open>The contract\<close>

text \<open>
  What \<open>maap.c\<close> and the daemon rely on: a send adds exactly one packet to the
  queue, and taking the next packet and freeing it removes exactly the first one.
\<close>

locale packet_queue =
  fixes inv :: "'s \<Rightarrow> bool"
    and ready :: "'s \<Rightarrow> 'a \<Rightarrow> bool"
    and valid :: "'p \<Rightarrow> bool"
    and queued :: "'s \<Rightarrow> 'p list"
    and send :: "'s \<Rightarrow> 'a \<Rightarrow> 'p \<Rightarrow> 's option"
    and take_one :: "'s \<Rightarrow> ('p \<times> 's) option option"
  assumes send_ok: "inv s \<Longrightarrow> ready s r \<Longrightarrow> valid p \<Longrightarrow>
      \<exists>s'. send s r p = Some s' \<and> inv s' \<and> mset (queued s') = add_mset p (mset (queued s))"
    and take_empty: "inv s \<Longrightarrow> queued s = [] \<Longrightarrow> take_one s = Some None"
    and take_one: "inv s \<Longrightarrow> queued s = p # ps \<Longrightarrow> \<exists>s'. take_one s = Some (Some (p, s')) \<and> inv s' \<and> queued s' = ps"
begin

text \<open>
  A loop that takes packets until none is left or an answer is negative hands over the
  packets before the first negative answer, loses the packet of that answer and leaves the others.
\<close>

lemma drain_prefix:
  assumes loop: "\<And>i s. drain i s = do { t \<leftarrow> take_one s;
      (case t of None \<Rightarrow> Some ([], s)
       | Some (p, s') \<Rightarrow> if \<not> ok i then Some ([], s') else do { (out, s'') \<leftarrow> drain (Suc i) s'; Some (p # out, s'') }) }"
    and inv: "inv s"
  shows "\<exists>out lost s'. drain i s = Some (out, s') \<and> inv s' \<and> queued s = out @ lost @ queued s' \<and> (\<forall>j<length out. ok (i + j)) \<and>
    (if lost = [] then queued s' = [] else length lost = 1 \<and> \<not> ok (i + length out))"
  using inv
proof (induction "queued s" arbitrary: s i)
  case Nil
  then show ?case using take_empty [of s] loop [of i s] by - (rule exI [of _ "[]"], rule exI [of _ "[]"], auto)
next
  case (Cons p ps)
  from take_one [OF Cons.prems Cons.hyps(2) [symmetric]] obtain s1 where
    s1: "take_one s = Some (Some (p, s1))" "inv s1" "queued s1 = ps" by blast
  show ?case
  proof (cases "ok i")
    case False
    then have "drain i s = Some ([], s1)" using loop [of i s] s1(1) by simp
    with False s1 Cons.hyps(2) [symmetric] show ?thesis by - (rule exI [of _ "[]"], rule exI [of _ "[p]"], auto)
  next
    case True
    from Cons.hyps(1) [OF s1(3) [symmetric] s1(2), of "Suc i"] obtain out lost s' where r: "drain (Suc i) s1 = Some (out, s')" "inv s'"
      "queued s1 = out @ lost @ queued s'" "\<forall>j<length out. ok (Suc i + j)"
      "if lost = [] then queued s' = [] else length lost = 1 \<and> \<not> ok (Suc i + length out)" by blast
    have "drain i s = Some (p # out, s')" using True loop [of i s] s1(1) r(1) by simp
    moreover have "\<forall>j<length (p # out). ok (i + j)"
    proof (intro allI impI)
      fix j assume "j < length (p # out)"
      then show "ok (i + j)" using True r(4) by (cases j) auto
    qed
    ultimately show ?thesis
      using r s1(3) Cons.hyps(2) [symmetric] by - (rule exI [of _ "p # out"], rule exI [of _ lost], auto)
  qed
qed

end

definition Net_take :: "net \<Rightarrow> (u8 list \<times> net) option option" where
  "Net_take n =
     (case Net_getNextQueuedPacket n of
        (None, n) \<Rightarrow> Some None
      | (Some p, n) \<Rightarrow> do {
          b \<leftarrow> get_buffer n p;
          (rv, n) \<leftarrow> Net_freeQueuedPacket n p;
          Some (Some (buffer b, n)) })"

lemma Net_take_empty: "net_inv n \<Longrightarrow> waiting n = [] \<Longrightarrow> Net_take n = Some None"
  using Net_next_ok [of n] by (auto simp: Net_take_def packets_waiting)

lemma Net_take_one:
  assumes "net_inv n" and "waiting n = p # ps"
  shows "\<exists>m. Net_take n = Some (Some (p, m)) \<and> net_inv m \<and> waiting m = ps"
proof -
  have "packets BUFFER_QUEUED n \<noteq> {#}" using assms(2) by (simp add: packets_waiting)
  then obtain q b m where m: "Net_getNextQueuedPacket n = (Some q, m)" "net_inv m" "get_buffer m q = Some b" "buf_state b = BUFFER_SENDING"
    using Net_next_ok [OF assms(1)] by blast
  from Net_free_ok [OF m(2-4)] obtain m' where m': "Net_freeQueuedPacket m q = Some (0, m')" "net_inv m'" by blast
  have "buffer b = p" "waiting m' = ps"
    using waiting_next [OF assms(1) m(1,3)] waiting_free [OF m(3,4) m'(1)] assms(2) by simp_all
  then show ?thesis using m m' by (simp add: Net_take_def)
qed

interpretation pq: packet_queue net_inv fresh "\<lambda>p. length p = MAAP_NET_BUFFER_SIZE" waiting Net_send Net_take
proof unfold_locales
  show "\<exists>s'. Net_send s r p = Some s' \<and> net_inv s' \<and> mset (waiting s') = add_mset p (mset (waiting s))"
    if "net_inv s" "fresh s r" "length p = MAAP_NET_BUFFER_SIZE" for s r p
    using Net_send_ok [OF that] by (auto simp: packets_waiting)
qed (use Net_take_empty Net_take_one in blast)+

lemma Net_next_None: "Net_getNextQueuedPacket n = (None, m) \<Longrightarrow> m = n"
  by (auto simp: Net_getNextQueuedPacket_def split: option.splits)

lemma Net_transmit_loop:
  "Net_transmit ok i n = do { t \<leftarrow> Net_take n;
     (case t of None \<Rightarrow> Some ([], n)
      | Some (p, m) \<Rightarrow> if \<not> ok i then Some ([], m) else do { (out, m') \<leftarrow> Net_transmit ok (Suc i) m; Some (p # out, m') }) }"
  by (subst Net_transmit.simps) (auto simp: Net_take_def split: prod.splits option.splits bind_splits dest: Net_next_None)

section \<open>Properties\<close>

text \<open>
  Sending is safe and exact: on a well-formed net with memory left, taking a
  buffer, filling it and queueing it passes every assertion, keeps the net well formed and adds
  precisely the packet to the queued ones, whichever buffers are in use.
\<close>

theorem Net_send_exact:
  assumes "net_inv n" and "fresh n r" and "length bs = MAAP_NET_BUFFER_SIZE"
  shows "\<exists>m. Net_send n r bs = Some m \<and> net_inv m \<and>
    packets BUFFER_QUEUED m = add_mset bs (packets BUFFER_QUEUED n) \<and>
    packets BUFFER_SENDING m = packets BUFFER_SENDING n"
  by (rule Net_send_ok [OF assms])

text \<open>
  Property C34. The transmit loop of the daemon ends, whatever \<open>send\<close> answers.  The packets it hands over
  successfully are those before the first call that fails, in the order of the buffers, each once.  If no call fails, the queue is
  empty afterwards; otherwise the one packet whose call failed is lost and all later ones stay queued in their order.
\<close>

theorem Net_transmit_all:
  assumes "net_inv n"
  shows "\<exists>out lost m. Net_transmit ok i n = Some (out, m) \<and> net_inv m \<and> waiting n = out @ lost @ waiting m \<and>
    (\<forall>j<length out. ok (i + j)) \<and>
    (if lost = [] then waiting m = [] else length lost = 1 \<and> \<not> ok (i + length out))"
  by (rule pq.drain_prefix [where drain = "Net_transmit ok", OF Net_transmit_loop assms])

definition packet_of :: "u8 \<Rightarrow> maap_buffer" where
  "packet_of x = \<lparr>buffer = replicate MAAP_NET_BUFFER_SIZE x, buf_state = BUFFER_QUEUED\<rparr>"

definition busy_net :: net where
  "busy_net = \<lparr>net_buffer = [packet_of 1, zero_buffer, packet_of 2, packet_of 3], pFirst = [(9, packet_of 4)]\<rparr>"

lemma busy_net_inv: "net_inv busy_net"
  by (auto simp: busy_net_def net_inv_def zero_buffer_def packet_of_def NUM_BUFFERS_def)

theorem Net_transmit_all_witness:
  "(\<exists>out lost m. Net_transmit (\<lambda>j. j \<noteq> 2) 0 busy_net = Some (out, m) \<and> net_inv m \<and> length out \<le> 2 \<and>
      map buffer [packet_of 1, packet_of 2, packet_of 3, packet_of 4] = out @ lost @ waiting m \<and> length lost = 1) \<and>
   (\<exists>m. Net_transmit (\<lambda>_. True) 0 busy_net = Some (map buffer [packet_of 1, packet_of 2, packet_of 3, packet_of 4], m) \<and> waiting m = [])"
proof
  have w: "waiting busy_net = map buffer [packet_of 1, packet_of 2, packet_of 3, packet_of 4]"
    by (simp add: waiting_def buffers_def busy_net_def packet_of_def zero_buffer_def)
  obtain out lost m where r: "Net_transmit (\<lambda>j. j \<noteq> 2) 0 busy_net = Some (out, m)" "net_inv m" "waiting busy_net = out @ lost @ waiting m"
    "\<forall>j<length out. j \<noteq> 2" "if lost = [] then waiting m = [] else length lost = 1 \<and> length out = 2"
    using Net_transmit_all [OF busy_net_inv, of "\<lambda>j. j \<noteq> 2" 0] by (simp only: add_0 not_not) blast
  have len: "length out \<le> 2" using r(4) by (metis leI)
  have "lost \<noteq> []" using r(3,5) w len by (auto dest: arg_cong [of _ _ length])
  with r w len show "\<exists>out lost m. Net_transmit (\<lambda>j. j \<noteq> 2) 0 busy_net = Some (out, m) \<and> net_inv m \<and> length out \<le> 2 \<and>
      map buffer [packet_of 1, packet_of 2, packet_of 3, packet_of 4] = out @ lost @ waiting m \<and> length lost = 1" by auto
  show "\<exists>m. Net_transmit (\<lambda>_. True) 0 busy_net = Some (map buffer [packet_of 1, packet_of 2, packet_of 3, packet_of 4], m) \<and> waiting m = []"
    using Net_transmit_all [OF busy_net_inv, of "\<lambda>_. True" 0] w by (auto split: if_splits)
qed

text \<open>
  The queue is not first-in first-out: the loop scans the slots from the front, so with packets
  \<open>a\<close> and \<open>b\<close> queued and \<open>a\<close> sent, a packet \<open>c\<close> queued afterwards takes the slot of
  \<open>a\<close> and is sent before \<open>b\<close>.
\<close>

theorem Net_overtakes:
  "do { n \<leftarrow> Net_newNet True;
        n \<leftarrow> Net_send n None a;
        n \<leftarrow> Net_send n None b;
        t \<leftarrow> Net_take n;
        (first, n) \<leftarrow> t;
        n \<leftarrow> Net_send n None c;
        (out, n) \<leftarrow> Net_transmit (\<lambda>_. True) 0 n;
        Some (first # out) } = Some [a, c, b]"
  by (simp add: Net_newNet_def NUM_BUFFERS_def Net_send_def Net_getPacketBuffer_def zero_buffer_def set_buffer_def
      Net_fill_def Net_queuePacket_def get_buffer_def Net_take_def Net_getNextQueuedPacket_def
      Net_freeQueuedPacket_def numeral_eq_Suc Net_transmit.simps)

end
