(* ===== verification/Maap_Client.thy ===== *)
theory Maap_Client
  imports Interval_Store Maap_Packet Maap_Time Maap_Net
begin

text \<open>
  The MAAP negotiation, \<open>maap/common/maap.[ch]\<close>: the client state, every handler for
  commands, packets and timers, and the notifications to the users of the daemon.

  The linked lists \<open>timer_queue\<close> (through \<open>next_timer\<close>) and \<open>notifies\<close> are lists; the
  ranges and the intervals live in two heaps, since they point at each other.  What C
  gets from outside is part of the state: the answers of \<open>malloc\<close> (\<open>oom\<close>,
  addresses never reused), of \<open>random\<close> and of the monotonic clock.  Log output is left out.
\<close>

section \<open>Data\<close>

type_synonym sender = int

datatype maap_state = MAAP_STATE_INVALID | MAAP_STATE_PROBING | MAAP_STATE_DEFENDING | MAAP_STATE_RELEASED

record range =
  range_id :: int
  state :: maap_state
  counter :: int
  overlapping :: bool
  next_act_time :: time
  r_interval :: ptr
  r_sender :: sender

datatype notify_tag = MAAP_NOTIFY_INVALID | MAAP_NOTIFY_INITIALIZED | MAAP_NOTIFY_ACQUIRING
  | MAAP_NOTIFY_ACQUIRED | MAAP_NOTIFY_RELEASED | MAAP_NOTIFY_STATUS | MAAP_NOTIFY_YIELDED

datatype notify_error = MAAP_NOTIFY_ERROR_NONE | MAAP_NOTIFY_ERROR_REQUIRES_INITIALIZATION
  | MAAP_NOTIFY_ERROR_ALREADY_INITIALIZED | MAAP_NOTIFY_ERROR_RESERVE_NOT_AVAILABLE
  | MAAP_NOTIFY_ERROR_RELEASE_INVALID_ID | MAAP_NOTIFY_ERROR_OUT_OF_MEMORY | MAAP_NOTIFY_ERROR_INTERNAL

record maap_notify =
  kind :: notify_tag
  note_id :: int
  note_start :: u64
  note_count :: u32
  note_result :: notify_error

type_synonym rheap = "range heap"

record maap_client =
  dest_mac :: u64
  src_mac :: u64
  address_base :: u64
  range_len :: u32
  ranges :: ptr
  timer_queue :: "addr list"
  mc_timer :: "timer option"
  mc_net :: "net option"
  maxid :: int
  notifies :: "(maap_notify \<times> sender) list"
  initialized :: bool
  ih :: iheap
  rh :: rheap
  next_addr :: addr
  oom :: "addr \<Rightarrow> bool"
  rnd :: "nat \<Rightarrow> nat"
  rnd_pos :: nat
  clock :: "nat \<Rightarrow> time"
  clock_pos :: nat

definition MAAP_PROBE_RETRANSMITS :: int where "MAAP_PROBE_RETRANSMITS = 3"
definition MAAP_PROBE_INTERVAL_BASE :: nat where "MAAP_PROBE_INTERVAL_BASE = 500"
definition MAAP_PROBE_INTERVAL_VARIATION :: nat where "MAAP_PROBE_INTERVAL_VARIATION = 100"
definition MAAP_ANNOUNCE_INTERVAL_BASE :: nat where "MAAP_ANNOUNCE_INTERVAL_BASE = 30000"
definition MAAP_ANNOUNCE_INTERVAL_VARIATION :: nat where "MAAP_ANNOUNCE_INTERVAL_VARIATION = 2000"
definition MAAP_DYNAMIC_POOL_BASE :: u64 where "MAAP_DYNAMIC_POOL_BASE = 0x91E0F0000000"
definition MAAP_DYNAMIC_POOL_SIZE :: u32 where "MAAP_DYNAMIC_POOL_SIZE = 0xFE00"

definition INT_MAX :: int where "INT_MAX = 2147483647"

section \<open>The environment\<close>

definition malloc :: "maap_client \<Rightarrow> ptr \<times> maap_client" where
  "malloc s = (if oom s (next_addr s) then None else Some (next_addr s), s\<lparr>next_addr := Suc (next_addr s)\<rparr>)"

definition random :: "maap_client \<Rightarrow> nat \<times> maap_client" where
  "random s = (rnd s (rnd_pos s), s\<lparr>rnd_pos := Suc (rnd_pos s)\<rparr>)"

definition Time_setFromMonotonicTimer :: "maap_client \<Rightarrow> time \<times> maap_client" where
  "Time_setFromMonotonicTimer s = (clock s (clock_pos s), s\<lparr>clock_pos := Suc (clock_pos s)\<rparr>)"

text \<open>Assignment to a range through its pointer.\<close>

definition range_upd :: "maap_client \<Rightarrow> addr \<Rightarrow> (range \<Rightarrow> range) \<Rightarrow> maap_client option" where
  "range_upd s r f = do { h \<leftarrow> heap_upd (rh s) r f; Some (s\<lparr>rh := h\<rparr>) }"

definition range_free :: "maap_client \<Rightarrow> addr \<Rightarrow> maap_client option" where
  "range_free s r = do { h \<leftarrow> heap_free (rh s) r; Some (s\<lparr>rh := h\<rparr>) }"

definition interval_upd :: "maap_client \<Rightarrow> addr \<Rightarrow> (interval \<Rightarrow> interval) \<Rightarrow> maap_client option" where
  "interval_upd s a f = do { h \<leftarrow> heap_upd (ih s) a f; Some (s\<lparr>ih := h\<rparr>) }"

section \<open>Addresses of a range\<close>

definition interval_of :: "maap_client \<Rightarrow> addr \<Rightarrow> interval option" where
  "interval_of s r = do { rg \<leftarrow> rh s r; a \<leftarrow> r_interval rg; ih s a }"

definition get_count :: "maap_client \<Rightarrow> addr \<Rightarrow> u32 option" where
  "get_count s r = do { iv \<leftarrow> interval_of s r; Some (high iv - low iv + 1) }"

definition get_start_address :: "maap_client \<Rightarrow> addr \<Rightarrow> u64 option" where
  "get_start_address s r = do { iv \<leftarrow> interval_of s r; Some (address_base s + ucast (low iv)) }"

definition get_end_address :: "maap_client \<Rightarrow> addr \<Rightarrow> u64 option" where
  "get_end_address s r = do { iv \<leftarrow> interval_of s r; Some (address_base s + ucast (high iv)) }"

section \<open>Sending packets\<close>

definition send_packet :: "maap_client \<Rightarrow> maap_packet \<Rightarrow> (int \<times> maap_client) option" where
  "send_packet s p = do {
     n \<leftarrow> mc_net s;
     let (m, s') = malloc s;
     (pbuf, n) \<leftarrow> Net_getPacketBuffer n m;
     let s = (case pbuf of Slot _ \<Rightarrow> s | Over _ \<Rightarrow> s');
     b \<leftarrow> get_buffer n pbuf;
     (_, bytes) \<leftarrow> pack_maap p (buffer b);
     (ret, n) \<leftarrow> Net_queuePacket (Net_fill n pbuf bytes) pbuf;
     Some (ret, s\<lparr>mc_net := Some n\<rparr>) }"

definition send_probe :: "maap_client \<Rightarrow> addr \<Rightarrow> (int \<times> maap_client) option" where
  "send_probe s r = do {
     p \<leftarrow> init_packet (dest_mac s) (src_mac s);
     start \<leftarrow> get_start_address s r;
     cnt \<leftarrow> get_count s r;
     send_packet s (p\<lparr>message_type := MAAP_PROBE, requested_start_address := start,
       requested_count := ucast cnt\<rparr>) }"

definition send_announce :: "maap_client \<Rightarrow> addr \<Rightarrow> (int \<times> maap_client) option" where
  "send_announce s r = do {
     p \<leftarrow> init_packet (dest_mac s) (src_mac s);
     start \<leftarrow> get_start_address s r;
     cnt \<leftarrow> get_count s r;
     send_packet s (p\<lparr>message_type := MAAP_ANNOUNCE, requested_start_address := start,
       requested_count := ucast cnt\<rparr>) }"

definition send_defend :: "maap_client \<Rightarrow> addr \<Rightarrow> u64 \<Rightarrow> u16 \<Rightarrow> u64 \<Rightarrow> (int \<times> maap_client) option" where
  "send_defend s r start cnt destination = do {
     p \<leftarrow> init_packet (dest_mac s) (src_mac s);
     conflict_start \<leftarrow> get_start_address s r;
     let conflict_start = (if conflict_start < start then start else conflict_start);
     conflict_end \<leftarrow> get_end_address s r;
     let conflict_end = (if conflict_end > start + ucast cnt - 1 then start + ucast cnt - 1 else conflict_end);
     send_packet s (p\<lparr>DA := destination, message_type := MAAP_DEFEND,
       requested_start_address := start, requested_count := cnt,
       conflict_start_address := conflict_start,
       conflict_count := ucast (conflict_end - conflict_start + 1)\<rparr>) }"

section \<open>Notifications\<close>

definition add_notify :: "maap_client \<Rightarrow> sender \<Rightarrow> maap_notify \<Rightarrow> maap_client option" where
  "add_notify s sender mn = do {
     let (li, s) = malloc s;
     _ \<leftarrow> li;
     Some (s\<lparr>notifies := notifies s @ [(mn, sender)]\<rparr>) }"

definition get_notify :: "maap_client \<Rightarrow> (maap_notify \<times> sender) option \<times> maap_client" where
  "get_notify s =
     (case notifies s of
        [] \<Rightarrow> (None, s)
      | tmp # rest \<Rightarrow> (Some tmp, s\<lparr>notifies := rest\<rparr>))"

definition inform_initialized :: "maap_client \<Rightarrow> sender \<Rightarrow> notify_error \<Rightarrow> maap_client option" where
  "inform_initialized s sender res =
     add_notify s sender \<lparr>kind = MAAP_NOTIFY_INITIALIZED, note_id = -1, note_start = address_base s,
       note_count = range_len s, note_result = res\<rparr>"

definition inform_acquiring :: "maap_client \<Rightarrow> addr \<Rightarrow> maap_client option" where
  "inform_acquiring s r = do {
     rg \<leftarrow> rh s r;
     start \<leftarrow> get_start_address s r;
     cnt \<leftarrow> get_count s r;
     add_notify s (r_sender rg) \<lparr>kind = MAAP_NOTIFY_ACQUIRING, note_id = range_id rg, note_start = start,
       note_count = cnt, note_result = MAAP_NOTIFY_ERROR_NONE\<rparr> }"

definition inform_acquired :: "maap_client \<Rightarrow> addr \<Rightarrow> notify_error \<Rightarrow> maap_client option" where
  "inform_acquired s r res = do {
     rg \<leftarrow> rh s r;
     start \<leftarrow> get_start_address s r;
     cnt \<leftarrow> get_count s r;
     add_notify s (r_sender rg) \<lparr>kind = MAAP_NOTIFY_ACQUIRED, note_id = range_id rg, note_start = start,
       note_count = cnt, note_result = res\<rparr> }"

definition inform_not_acquired :: "maap_client \<Rightarrow> sender \<Rightarrow> int \<Rightarrow> u32 \<Rightarrow> notify_error \<Rightarrow> maap_client option" where
  "inform_not_acquired s sender i range_size res =
     add_notify s sender \<lparr>kind = MAAP_NOTIFY_ACQUIRED, note_id = i, note_start = 0,
       note_count = range_size, note_result = res\<rparr>"

text \<open>The start and count a notification reports for a range that may be NULL.\<close>

definition note_range :: "maap_client \<Rightarrow> ptr \<Rightarrow> (u64 \<times> u32) option" where
  "note_range s r =
     (case r of
        None \<Rightarrow> Some (0, 0)
      | Some r \<Rightarrow> do { start \<leftarrow> get_start_address s r; cnt \<leftarrow> get_count s r; Some (start, cnt) })"

definition inform_released :: "maap_client \<Rightarrow> sender \<Rightarrow> int \<Rightarrow> ptr \<Rightarrow> notify_error \<Rightarrow> maap_client option" where
  "inform_released s sender i r res = do {
     (start, cnt) \<leftarrow> note_range s r;
     add_notify s sender \<lparr>kind = MAAP_NOTIFY_RELEASED, note_id = i, note_start = start,
       note_count = cnt, note_result = res\<rparr> }"

definition inform_status :: "maap_client \<Rightarrow> sender \<Rightarrow> int \<Rightarrow> ptr \<Rightarrow> notify_error \<Rightarrow> maap_client option" where
  "inform_status s sender i r res = do {
     (start, cnt) \<leftarrow> note_range s r;
     add_notify s sender \<lparr>kind = MAAP_NOTIFY_STATUS, note_id = i, note_start = start,
       note_count = cnt, note_result = res\<rparr> }"

definition inform_yielded :: "maap_client \<Rightarrow> sender \<Rightarrow> int \<Rightarrow> ptr \<Rightarrow> notify_error \<Rightarrow> maap_client option" where
  "inform_yielded s sender i r res = do {
     (start, cnt) \<leftarrow> note_range s r;
     add_notify s sender \<lparr>kind = MAAP_NOTIFY_YIELDED, note_id = i, note_start = start,
       note_count = cnt, note_result = res\<rparr> }"

section \<open>Timers\<close>

definition start_timer :: "maap_client \<Rightarrow> maap_client option" where
  "start_timer s =
     (case timer_queue s of
        [] \<Rightarrow> Some s
      | r # _ \<Rightarrow> do {
          rg \<leftarrow> rh s r;
          tm \<leftarrow> mc_timer s;
          Some (s\<lparr>mc_timer := Some (Time_setTimer tm (next_act_time rg))\<rparr>) })"

definition rand_ms :: "maap_client \<Rightarrow> nat \<Rightarrow> nat \<times> maap_client" where
  "rand_ms s variation = (let (x, s) = random s in (x mod (variation - 1) + 1, s))"

text \<open>Insertion behind all entries that are not later, and the sanity check of the queue.\<close>

fun queue_walk :: "rheap \<Rightarrow> addr \<Rightarrow> time \<Rightarrow> addr list \<Rightarrow> addr list option" where
  "queue_walk h r t [] = Some [r]"
| "queue_walk h r t (x # xs) = do {
     n \<leftarrow> h x;
     if Time_cmp (next_act_time n) t \<le> 0 then do { ys \<leftarrow> queue_walk h r t xs; Some (x # ys) }
     else Some (r # x # xs) }"

definition queue_add :: "rheap \<Rightarrow> addr \<Rightarrow> time \<Rightarrow> addr list \<Rightarrow> addr list option" where
  "queue_add h r t q =
     (case q of
        [] \<Rightarrow> Some [r]
      | x # xs \<Rightarrow> do {
          n \<leftarrow> h x;
          if Time_cmp t (next_act_time n) < 0 then Some (r # x # xs)
          else do { ys \<leftarrow> queue_walk h r t xs; Some (x # ys) } })"

fun queue_check :: "nat \<Rightarrow> rheap \<Rightarrow> addr list \<Rightarrow> unit option" where
  "queue_check k h [] = Some ()"
| "queue_check 0 h (x # xs) = None"
| "queue_check (Suc k) h (x # xs) = do {
     n \<leftarrow> h x;
     (case xs of
        [] \<Rightarrow> Some ()
      | y # _ \<Rightarrow> do {
          c_assert (y \<noteq> x);
          m \<leftarrow> h y;
          c_assert (Time_cmp (next_act_time n) (next_act_time m) \<le> 0) });
     queue_check k h xs }"

text \<open>The delay in nanoseconds until the next action of a range in some state.\<close>

definition set_act_time :: "maap_client \<Rightarrow> addr \<Rightarrow> nat \<Rightarrow> nat \<Rightarrow> maap_client option" where
  "set_act_time s r base variation = do {
     let (ms, s) = rand_ms s variation;
     let ns = (of_nat (base + ms) :: u64) * 1000000;
     let ts = Time_setFromNanos ns;
     let (now, s) = Time_setFromMonotonicTimer s;
     range_upd s r (\<lambda>g. g\<lparr>next_act_time := Time_add now ts\<rparr>) }"

definition schedule_timer :: "maap_client \<Rightarrow> addr \<Rightarrow> maap_client option" where
  "schedule_timer s r = do {
     rg \<leftarrow> rh s r;
     s \<leftarrow> (if state rg = MAAP_STATE_PROBING
            then set_act_time s r MAAP_PROBE_INTERVAL_BASE MAAP_PROBE_INTERVAL_VARIATION
            else if state rg = MAAP_STATE_DEFENDING
            then set_act_time s r MAAP_ANNOUNCE_INTERVAL_BASE MAAP_ANNOUNCE_INTERVAL_VARIATION
            else Some s);
     rg \<leftarrow> rh s r;
     q \<leftarrow> queue_add (rh s) r (next_act_time rg) (remove1 r (timer_queue s));
     _ \<leftarrow> queue_check 100000 (rh s) q;
     Some (s\<lparr>timer_queue := q\<rparr>) }"

section \<open>Intervals of ranges\<close>

text \<open>The loop that points the ranges back at the nodes that hold them.\<close>

partial_function (option) repoint_loop :: "ptr \<Rightarrow> ptr \<Rightarrow> maap_client \<Rightarrow> maap_client option" where
  "repoint_loop old_range test s =
     (case test of
        None \<Rightarrow> Some s
      | Some t \<Rightarrow> do {
          n \<leftarrow> ih s t;
          r \<leftarrow> data n;
          c_assert (Some r \<noteq> old_range);
          rg \<leftarrow> rh s r;
          s \<leftarrow> (if r_interval rg \<noteq> Some t then range_upd s r (\<lambda>g. g\<lparr>r_interval := Some t\<rparr>) else Some s);
          test \<leftarrow> next_interval (ih s) t;
          repoint_loop old_range test s })"

definition remove_range_interval :: "maap_client \<Rightarrow> addr \<Rightarrow> maap_client option" where
  "remove_range_interval s node = do {
     n \<leftarrow> ih s node;
     let old_range = data n;
     _ \<leftarrow> (case old_range of
             None \<Rightarrow> Some ()
           | Some r \<Rightarrow> do { rg \<leftarrow> rh s r; c_assert (r_interval rg = Some node) });
     (free_inter, h, root) \<leftarrow> remove_interval (ih s) (ranges s) node;
     f \<leftarrow> h free_inter;
     c_assert (data f = old_range);
     h \<leftarrow> free_interval h free_inter;
     let s = s\<lparr>ih := h, ranges := root\<rparr>;
     test \<leftarrow> minimum_interval h root;
     repoint_loop old_range test s }"

text \<open>Allocating an interval and trying to insert it, as \<open>assign_interval\<close> does twice.\<close>

definition try_interval :: "maap_client \<Rightarrow> u32 \<Rightarrow> u16 \<Rightarrow> (int \<times> addr \<times> maap_client) option" where
  "try_interval s start len = do {
     let (m, s) = malloc s;
     let (iv, h) = alloc_interval (ih s) m start (ucast len);
     a \<leftarrow> iv;
     n \<leftarrow> h a;
     c_assert (high n \<le> range_len s - 1);
     (rv, h, root) \<leftarrow> insert_interval h (ranges s) a;
     h \<leftarrow> (if rv = INTERVAL_OVERLAP then free_interval h a else Some h);
     Some (rv, a, s\<lparr>ih := h, ranges := root\<rparr>) }"

text \<open>\<open>k\<close> is \<open>1000 - i\<close>.\<close>

fun assign_loop :: "nat \<Rightarrow> int \<Rightarrow> ptr \<Rightarrow> maap_client \<Rightarrow> u16 \<Rightarrow> (nat \<times> int \<times> ptr \<times> maap_client) option" where
  "assign_loop 0 rv iv s len = Some (0, rv, iv, s)"
| "assign_loop (Suc k) rv iv s len =
     (if rv = INTERVAL_OVERLAP then do {
        let (x, s) = random s;
        let m = range_len s + 1 - ucast len;
        c_assert (m \<noteq> 0);
        (rv, a, s) \<leftarrow> try_interval s (of_nat (x mod unat m)) len;
        assign_loop k rv (Some a) s len }
      else Some (Suc k, rv, iv, s))"

definition attempt_fits :: "maap_client \<Rightarrow> u64 \<Rightarrow> u16 \<Rightarrow> bool" where
  "attempt_fits s attempt_base len \<longleftrightarrow> attempt_base \<ge> address_base s \<and>
     attempt_base + ucast len - 1 \<le> address_base s + ucast (range_len s) - 1"

definition assign_interval :: "maap_client \<Rightarrow> addr \<Rightarrow> u64 \<Rightarrow> u16 \<Rightarrow> (int \<times> maap_client) option" where
  "assign_interval s r attempt_base len =
     (if ucast len > range_len s then Some (-1, s)
      else do {
        (rv, iv, s) \<leftarrow>
          (if attempt_fits s attempt_base len then do {
             (rv, a, s) \<leftarrow> try_interval s (ucast (attempt_base - address_base s)) len;
             Some (rv, Some a, s) }
           else Some (INTERVAL_OVERLAP, None, s));
        (k, rv, iv, s) \<leftarrow> assign_loop 1000 rv iv s len;
        if k = 0 then Some (-1, s)
        else do {
          a \<leftarrow> iv;
          s \<leftarrow> interval_upd s a (\<lambda>n. n\<lparr>data := Some r\<rparr>);
          s \<leftarrow> range_upd s r (\<lambda>g. g\<lparr>r_interval := Some a\<rparr>);
          Some (0, s) } })"

section \<open>Commands\<close>

text \<open>
  The first two arguments answer \<open>malloc\<close> and \<open>timer_create\<close> in \<open>Time_newTimer\<close>, the third \<open>Net_newNet\<close>.  If that
  one fails, the timer is deleted and its pointer dangles: like a null pointer it is \<open>None\<close>, so that its use would fail.
\<close>

definition maap_init_client ::
  "bool \<Rightarrow> bool \<Rightarrow> bool \<Rightarrow> maap_client \<Rightarrow> sender \<Rightarrow> u64 \<Rightarrow> u32 \<Rightarrow> (int \<times> maap_client) option" where
  "maap_init_client timer_ok create_ok net_ok s sender range_address_base len =
     (if initialized s then do {
        let matches = (range_address_base = address_base s \<and> len = range_len s);
        s \<leftarrow> inform_initialized s sender
               (if matches then MAAP_NOTIFY_ERROR_NONE else MAAP_NOTIFY_ERROR_ALREADY_INITIALIZED);
        Some (if matches then 0 else -1, s) }
      else
        (case Time_newTimer timer_ok create_ok of
           None \<Rightarrow> Some (-1, s\<lparr>mc_timer := None\<rparr>)
         | Some tm \<Rightarrow>
             (case Net_newNet net_ok of
                None \<Rightarrow> Some (-1, s\<lparr>mc_timer := None, mc_net := None\<rparr>)
              | Some n \<Rightarrow> do {
                  s \<leftarrow> inform_initialized
                    (s\<lparr>mc_timer := Some tm, mc_net := Some n, address_base := range_address_base,
                       range_len := len, ranges := None, timer_queue := [], maxid := 0, notifies := [],
                       initialized := True\<rparr>) sender MAAP_NOTIFY_ERROR_NONE;
                  Some (0, s) })))"

fun free_released :: "addr list \<Rightarrow> maap_client \<Rightarrow> maap_client option" where
  "free_released [] s = Some (s\<lparr>timer_queue := []\<rparr>)"
| "free_released (r # q) s = do {
     rg \<leftarrow> rh s r;
     s \<leftarrow> (if state rg = MAAP_STATE_RELEASED then range_free s r else Some s);
     free_released q s }"

partial_function (option) free_ranges :: "maap_client \<Rightarrow> maap_client option" where
  "free_ranges s =
     (case ranges s of
        None \<Rightarrow> Some s
      | Some node \<Rightarrow> do {
          n \<leftarrow> ih s node;
          let r = data n;
          s \<leftarrow> remove_range_interval s node;
          s \<leftarrow> (case r of None \<Rightarrow> Some s | Some r \<Rightarrow> range_free s r);
          free_ranges s })"

definition maap_deinit_client :: "maap_client \<Rightarrow> maap_client option" where
  "maap_deinit_client s =
     (if initialized s then do {
        s \<leftarrow> free_released (timer_queue s) s;
        s \<leftarrow> free_ranges s;
        Some (s\<lparr>mc_timer := None, mc_net := None, notifies := [], initialized := False\<rparr>) }
      else Some s)"

definition new_range :: "maap_client \<Rightarrow> addr \<Rightarrow> int \<Rightarrow> sender \<Rightarrow> maap_client" where
  "new_range s r i sender = (let (t, s) = Time_setFromMonotonicTimer s in
     s\<lparr>rh := (rh s)(r \<mapsto> \<lparr>range_id = i, state = MAAP_STATE_PROBING, counter = MAAP_PROBE_RETRANSMITS,
       overlapping = False, next_act_time = t, r_interval = None, r_sender = sender\<rparr>)\<rparr>)"

definition maap_reserve_range :: "maap_client \<Rightarrow> sender \<Rightarrow> u64 \<Rightarrow> u32 \<Rightarrow> (int \<times> maap_client) option" where
  "maap_reserve_range s sender attempt_base len =
     (if \<not> initialized s then do {
        s \<leftarrow> inform_not_acquired s sender (-1) len MAAP_NOTIFY_ERROR_REQUIRES_INITIALIZATION;
        Some (-1, s) }
      else if len > 0xFFFF \<or> len > range_len s then do {
        s \<leftarrow> inform_not_acquired s sender (-1) len MAAP_NOTIFY_ERROR_RESERVE_NOT_AVAILABLE;
        Some (-1, s) }
      else
        (case malloc s of
           (None, s) \<Rightarrow> do {
             s \<leftarrow> inform_not_acquired s sender (-1) len MAAP_NOTIFY_ERROR_OUT_OF_MEMORY;
             Some (-1, s) }
         | (Some r, s) \<Rightarrow> do {
             c_assert (maxid s < INT_MAX);
             let i = maxid s + 1;
             let s = new_range (s\<lparr>maxid := i\<rparr>) r i sender;
             (rv, s) \<leftarrow> assign_interval s r attempt_base (ucast len);
             if rv < 0 then do {
               s \<leftarrow> inform_not_acquired s sender (-1) len MAAP_NOTIFY_ERROR_RESERVE_NOT_AVAILABLE;
               s \<leftarrow> range_free s r;
               Some (-1, s) }
             else do {
               s \<leftarrow> inform_acquiring s r;
               s \<leftarrow> schedule_timer s r;
               s \<leftarrow> start_timer s;
               (_, s) \<leftarrow> send_probe s r;
               Some (i, s) } }))"

text \<open>The first range of the timer queue with an id, and a state that passes a test.\<close>

fun find_range :: "rheap \<Rightarrow> int \<Rightarrow> (maap_state \<Rightarrow> bool) \<Rightarrow> addr list \<Rightarrow> ptr option" where
  "find_range h i ok [] = Some None"
| "find_range h i ok (r # q) = do {
     rg \<leftarrow> h r;
     if range_id rg = i \<and> ok (state rg) then Some (Some r) else find_range h i ok q }"

definition maap_release_range :: "maap_client \<Rightarrow> sender \<Rightarrow> int \<Rightarrow> (int \<times> maap_client) option" where
  "maap_release_range s sender i =
     (if \<not> initialized s then do {
        s \<leftarrow> inform_released s sender i None MAAP_NOTIFY_ERROR_REQUIRES_INITIALIZATION;
        Some (-1, s) }
      else do {
        found \<leftarrow> find_range (rh s) i (\<lambda>st. st \<noteq> MAAP_STATE_RELEASED) (timer_queue s);
        (case found of
           None \<Rightarrow> do {
             s \<leftarrow> inform_released s sender i None MAAP_NOTIFY_ERROR_RELEASE_INVALID_ID;
             Some (-1, s) }
         | Some r \<Rightarrow> do {
             s \<leftarrow> inform_released s sender i (Some r) MAAP_NOTIFY_ERROR_NONE;
             rg \<leftarrow> rh s r;
             s \<leftarrow> (if sender \<noteq> r_sender rg
                    then inform_released s (r_sender rg) i (Some r) MAAP_NOTIFY_ERROR_NONE else Some s);
             iv \<leftarrow> r_interval rg;
             s \<leftarrow> remove_range_interval s iv;
             s \<leftarrow> range_upd s r (\<lambda>g. g\<lparr>state := MAAP_STATE_RELEASED\<rparr>);
             Some (0, s) }) })"

definition maap_range_status :: "maap_client \<Rightarrow> sender \<Rightarrow> int \<Rightarrow> maap_client option" where
  "maap_range_status s sender i =
     (if \<not> initialized s then inform_status s sender i None MAAP_NOTIFY_ERROR_REQUIRES_INITIALIZATION
      else do {
        found \<leftarrow> find_range (rh s) i (\<lambda>st. st = MAAP_STATE_DEFENDING) (timer_queue s);
        (case found of
           Some r \<Rightarrow> inform_status s sender i (Some r) MAAP_NOTIFY_ERROR_NONE
         | None \<Rightarrow> inform_status s sender i None MAAP_NOTIFY_ERROR_RELEASE_INVALID_ID) })"

section \<open>Packets\<close>

text \<open>Flagging the ranges that overlap an incoming packet, and counting them.\<close>

partial_function (option) flag_loop :: "ptr \<Rightarrow> u32 \<Rightarrow> u32 \<Rightarrow> nat \<Rightarrow> maap_client \<Rightarrow> (nat \<times> maap_client) option" where
  "flag_loop iv start cnt num s =
     (case iv of
        None \<Rightarrow> Some (num, s)
      | Some a \<Rightarrow> do {
          n \<leftarrow> ih s a;
          if interval_check_overlap n start cnt then do {
            r \<leftarrow> data n;
            s \<leftarrow> range_upd s r (\<lambda>g. g\<lparr>overlapping := True\<rparr>);
            iv \<leftarrow> next_interval (ih s) a;
            flag_loop iv start cnt (Suc num) s }
          else Some (num, s) })"

partial_function (option) find_flagged :: "maap_client \<Rightarrow> ptr \<Rightarrow> ptr option" where
  "find_flagged s iv =
     (case iv of
        None \<Rightarrow> Some None
      | Some a \<Rightarrow> do {
          n \<leftarrow> ih s a;
          r \<leftarrow> data n;
          rg \<leftarrow> rh s r;
          if overlapping rg then Some iv
          else do { iv \<leftarrow> next_interval (ih s) a; find_flagged s iv } })"

text \<open>A probing range that lost moves to another interval or gives up.\<close>

definition move_probing :: "maap_client \<Rightarrow> addr \<Rightarrow> addr \<Rightarrow> maap_client option" where
  "move_probing s iv r = do {
     n \<leftarrow> ih s iv;
     let range_size = high n - low n + 1;
     s \<leftarrow> interval_upd s iv (\<lambda>n. n\<lparr>data := None\<rparr>);
     (rv, s) \<leftarrow> assign_interval s r 0 (ucast range_size);
     if rv < 0 then do {
       rg \<leftarrow> rh s r;
       s \<leftarrow> inform_not_acquired s (r_sender rg) (range_id rg) range_size MAAP_NOTIFY_ERROR_RESERVE_NOT_AVAILABLE;
       s \<leftarrow> remove_range_interval s iv;
       range_upd s r (\<lambda>g. g\<lparr>state := MAAP_STATE_RELEASED\<rparr>) }
     else do {
       s \<leftarrow> inform_acquiring s r;
       s \<leftarrow> remove_range_interval s iv;
       s \<leftarrow> range_upd s r (\<lambda>g. g\<lparr>counter := MAAP_PROBE_RETRANSMITS\<rparr>);
       s \<leftarrow> schedule_timer s r;
       (_, s) \<leftarrow> send_probe s r;
       Some s } }"

text \<open>A defended range that lost is given up, with a new reservation under its id.\<close>

definition yield_defending :: "maap_client \<Rightarrow> addr \<Rightarrow> addr \<Rightarrow> maap_client option" where
  "yield_defending s iv r = do {
     n \<leftarrow> ih s iv;
     let range_size = high n - low n + 1;
     rg \<leftarrow> rh s r;
     s \<leftarrow> (case malloc s of
        (None, s) \<Rightarrow> inform_yielded s (r_sender rg) (range_id rg) (Some r) MAAP_NOTIFY_ERROR_OUT_OF_MEMORY
      | (Some nr, s) \<Rightarrow> do {
          let s = new_range s nr (range_id rg) (r_sender rg);
          (rv, s) \<leftarrow> assign_interval s nr 0 (ucast range_size);
          if rv < 0 then do {
            s \<leftarrow> inform_yielded s (r_sender rg) (range_id rg) (Some r) MAAP_NOTIFY_ERROR_RESERVE_NOT_AVAILABLE;
            range_free s nr }
          else do {
            s \<leftarrow> schedule_timer s nr;
            (_, s) \<leftarrow> send_probe s nr;
            s \<leftarrow> inform_yielded s (r_sender rg) (range_id rg) (Some r) MAAP_NOTIFY_ERROR_NONE;
            inform_acquiring s nr } });
     s \<leftarrow> remove_range_interval s iv;
     range_upd s r (\<lambda>g. g\<lparr>state := MAAP_STATE_RELEASED\<rparr>) }"

text \<open>The body of the loop over the flagged ranges.\<close>

definition handle_overlap :: "maap_client \<Rightarrow> maap_packet \<Rightarrow> u32 \<Rightarrow> maap_client option" where
  "handle_overlap s p start = do {
     first \<leftarrow> search_interval (ih s) (ranges s) start (ucast (requested_count p));
     flagged \<leftarrow> find_flagged s first;
     iv \<leftarrow> flagged;
     n \<leftarrow> ih s iv;
     r \<leftarrow> data n;
     s \<leftarrow> range_upd s r (\<lambda>g. g\<lparr>overlapping := False\<rparr>);
     rg \<leftarrow> rh s r;
     if state rg = MAAP_STATE_PROBING then
       (if message_type p = MAAP_PROBE \<and> compare_mac_addresses (src_mac s) (SA p) then Some s
        else move_probing s iv r)
     else if state rg = MAAP_STATE_DEFENDING then
       (if message_type p = MAAP_PROBE then do {
          (_, s) \<leftarrow> send_defend s r (requested_start_address p) (requested_count p) (SA p);
          Some s }
        else if compare_mac_addresses (src_mac s) (SA p) then Some s
        else yield_defending s iv r)
     else Some s }"

fun handle_overlaps :: "nat \<Rightarrow> maap_client \<Rightarrow> maap_packet \<Rightarrow> u32 \<Rightarrow> maap_client option" where
  "handle_overlaps 0 s p start = Some s"
| "handle_overlaps (Suc num) s p start = do {
     s \<leftarrow> handle_overlap s p start;
     handle_overlaps num s p start }"

definition is_maap :: "maap_packet \<Rightarrow> bool" where
  "is_maap p \<longleftrightarrow> \<not> (Ethertype p \<noteq> MAAP_TYPE \<or> subtype p \<noteq> MAAP_SUBTYPE \<or> control_data_length p \<noteq> 16) \<and>
     \<not> version p \<noteq> 0 \<and> \<not> (message_type p < MAAP_PROBE \<or> message_type p > MAAP_ANNOUNCE)"

definition of_concern :: "maap_client \<Rightarrow> maap_packet \<Rightarrow> bool" where
  "of_concern s p =
     (let own_base = address_base s;
          own_max = address_base s + ucast (range_len s) - 1;
          incoming_base = requested_start_address p;
          incoming_max = requested_start_address p + ucast (requested_count p) - 1
      in \<not> (incoming_max < own_base \<or> own_max < incoming_base))"

definition maap_handle_packet :: "maap_client \<Rightarrow> u8 list \<Rightarrow> int \<Rightarrow> (int \<times> maap_client) option" where
  "maap_handle_packet s stream len =
     (if len < int MAAP_PKT_SIZE then Some (-1, s)
      else do {
        (rv, p) \<leftarrow> unpack_maap (replicate 8 0) (replicate 2 0) stream;
        if rv \<noteq> 0 then Some (-1, s)
        else if \<not> is_maap p then Some (-1, s)
        else if \<not> of_concern s p then Some (0, s)
        else do {
          let start = ucast (requested_start_address p - address_base s);
          iv \<leftarrow> search_interval (ih s) (ranges s) start (ucast (requested_count p));
          (num_overlaps, s) \<leftarrow> flag_loop iv start (ucast (requested_count p)) 0 s;
          s \<leftarrow> handle_overlaps num_overlaps s p start;
          s \<leftarrow> start_timer s;
          Some (0, s) } })"

definition maap_yield_range :: "maap_client \<Rightarrow> sender \<Rightarrow> int \<Rightarrow> (int \<times> maap_client) option" where
  "maap_yield_range s sender i =
     (if \<not> initialized s then do {
        s \<leftarrow> inform_yielded s sender i None MAAP_NOTIFY_ERROR_REQUIRES_INITIALIZATION;
        Some (-1, s) }
      else do {
        found \<leftarrow> find_range (rh s) i (\<lambda>st. st = MAAP_STATE_DEFENDING) (timer_queue s);
        (case found of
           None \<Rightarrow> do {
             s \<leftarrow> inform_yielded s sender i None MAAP_NOTIFY_ERROR_RELEASE_INVALID_ID;
             Some (-1, s) }
         | Some r \<Rightarrow> do {
             p \<leftarrow> init_packet 0x010000000000 0x010000000000;
             start \<leftarrow> get_start_address s r;
             cnt \<leftarrow> get_count s r;
             (_, bytes) \<leftarrow> pack_maap (p\<lparr>message_type := MAAP_ANNOUNCE, requested_start_address := start,
               requested_count := ucast cnt\<rparr>) (replicate MAAP_NET_BUFFER_SIZE 0);
             (_, s) \<leftarrow> maap_handle_packet s bytes (int MAAP_NET_BUFFER_SIZE);
             Some (0, s) }) })"

section \<open>Timer events\<close>

definition handle_probe_timer :: "maap_client \<Rightarrow> addr \<Rightarrow> maap_client option" where
  "handle_probe_timer s r = do {
     rg \<leftarrow> rh s r;
     if counter rg = 0 then do {
       s \<leftarrow> inform_acquired s r MAAP_NOTIFY_ERROR_NONE;
       s \<leftarrow> range_upd s r (\<lambda>g. g\<lparr>state := MAAP_STATE_DEFENDING\<rparr>);
       s \<leftarrow> schedule_timer s r;
       (_, s) \<leftarrow> send_announce s r;
       Some s }
     else do {
       s \<leftarrow> range_upd s r (\<lambda>g. g\<lparr>counter := counter g - 1\<rparr>);
       s \<leftarrow> schedule_timer s r;
       (_, s) \<leftarrow> send_probe s r;
       Some s } }"

definition handle_defend_timer :: "maap_client \<Rightarrow> addr \<Rightarrow> maap_client option" where
  "handle_defend_timer s r = do {
     s \<leftarrow> schedule_timer s r;
     (_, s) \<leftarrow> send_announce s r;
     Some s }"

partial_function (option) timer_loop :: "time \<Rightarrow> maap_client \<Rightarrow> maap_client option" where
  "timer_loop currenttime s =
     (case timer_queue s of
        [] \<Rightarrow> Some s
      | r # q \<Rightarrow> do {
          rg \<leftarrow> rh s r;
          if Time_passed currenttime (next_act_time rg) then do {
            let s = s\<lparr>timer_queue := q\<rparr>;
            s \<leftarrow> (case state rg of
                    MAAP_STATE_PROBING \<Rightarrow> handle_probe_timer s r
                  | MAAP_STATE_DEFENDING \<Rightarrow> handle_defend_timer s r
                  | MAAP_STATE_RELEASED \<Rightarrow> range_free s r
                  | MAAP_STATE_INVALID \<Rightarrow> Some s);
            timer_loop currenttime s }
          else Some s })"

definition maap_handle_timer :: "maap_client \<Rightarrow> (int \<times> maap_client) option" where
  "maap_handle_timer s = do {
     let (currenttime, s) = Time_setFromMonotonicTimer s;
     s \<leftarrow> timer_loop currenttime s;
     s \<leftarrow> start_timer s;
     Some (0, s) }"

definition maap_get_delay_to_next_timer :: "maap_client \<Rightarrow> int \<times> maap_client" where
  "maap_get_delay_to_next_timer s =
     (case mc_timer s of
        None \<Rightarrow> (60 * 60 * 1000000000, s)
      | Some tm \<Rightarrow>
          if timer_queue s = [] then (60 * 60 * 1000000000, s)
          else (let (now, s) = Time_setFromMonotonicTimer s in (Time_remaining tm now, s)))"

end
