(* ===== verification/Maap_Invariant.thy ===== *)
theory Maap_Invariant
  imports Maap_Client
begin

text \<open>
  The invariant of the MAAP client and what each internal step does to it.  The
  invariant speaks about the interval tree, the range heap and the timer queue; it
  is indexed by the interval nodes and the ranges that are in transit inside a handler.
\<close>

section \<open>The invariant\<close>

definition active :: "range \<Rightarrow> bool" where
  "active g \<longleftrightarrow> state g = MAAP_STATE_PROBING \<or> state g = MAAP_STATE_DEFENDING"

definition node_data :: "iheap \<Rightarrow> addr \<Rightarrow> ptr" where
  "node_data h a = data (the (h a))"

definition in_pool :: "u32 \<Rightarrow> interval \<Rightarrow> bool" where
  "in_pool len n \<longleftrightarrow> high n < len \<and> unat (high n - low n) < 65535"

text \<open>
  \<open>tree_ok\<close>: the reachable nodes are the allocated ones, disjoint, in the pool.
  \<open>owned\<close>: a node and a range that points back at it.
\<close>

definition tree_ok :: "iheap \<Rightarrow> ptr \<Rightarrow> addr list \<Rightarrow> u32 \<Rightarrow> bool" where
  "tree_ok h root as len \<longleftrightarrow> irep h root as \<and> disjoint_sorted (entries h as) \<and> dom h = set as \<and>
     (\<forall>a\<in>set as. in_pool len (the (h a)))"

definition owned :: "iheap \<Rightarrow> rheap \<Rightarrow> addr \<Rightarrow> bool" where
  "owned h rg a \<longleftrightarrow> (\<exists>r g. node_data h a = Some r \<and> rg r = Some g \<and> r_interval g = Some a \<and> active g)"

definition held :: "iheap \<Rightarrow> addr list \<Rightarrow> addr \<Rightarrow> bool" where
  "held h as r \<longleftrightarrow> (\<exists>a\<in>set as. node_data h a = Some r)"

definition ranges_ok :: "addr set \<Rightarrow> iheap \<Rightarrow> addr list \<Rightarrow> rheap \<Rightarrow> bool" where
  "ranges_ok U h as rg \<longleftrightarrow> (\<forall>r g. rg r = Some g \<longrightarrow> state g \<noteq> MAAP_STATE_INVALID \<and> 0 \<le> counter g \<and>
     (r \<notin> U \<longrightarrow> active g \<longrightarrow> held h as r))"

definition act_time :: "rheap \<Rightarrow> addr \<Rightarrow> time" where
  "act_time rg r = next_act_time (the (rg r))"

definition queue_ok :: "addr set \<Rightarrow> rheap \<Rightarrow> addr list \<Rightarrow> bool" where
  "queue_ok U rg q \<longleftrightarrow> distinct q \<and> set q \<subseteq> dom rg \<and> dom rg - U \<subseteq> set q \<and> sorted (map (act_time rg) q)"

definition core :: "addr set \<Rightarrow> addr set \<Rightarrow> iheap \<Rightarrow> ptr \<Rightarrow> addr list \<Rightarrow> rheap \<Rightarrow> addr list \<Rightarrow> u32 \<Rightarrow> addr \<Rightarrow> bool" where
  "core N U h root as rg q len nxt \<longleftrightarrow>
     tree_ok h root as len \<and> (\<forall>a\<in>set as - N. owned h rg a) \<and> N \<subseteq> set as \<and> (\<forall>a\<in>N. node_data h a = None) \<and>
     ranges_ok U h as rg \<and> queue_ok U rg q \<and> (\<forall>a\<in>dom h \<union> dom rg. a < nxt)"

abbreviation client_core :: "addr set \<Rightarrow> addr set \<Rightarrow> maap_client \<Rightarrow> addr list \<Rightarrow> bool" where
  "client_core N U s as \<equiv> core N U (ih s) (ranges s) as (rh s) (timer_queue s) (range_len s) (next_addr s)"

text \<open>What the handlers need of the environment: memory, a net, a timer, a sane clock.\<close>

definition net_ok :: "net option \<Rightarrow> addr \<Rightarrow> bool" where
  "net_ok n nxt \<longleftrightarrow> (\<exists>m. n = Some m \<and> net_inv m \<and> (\<forall>a\<in>fst ` set (pFirst m). a < nxt))"

definition env :: "maap_client \<Rightarrow> bool" where
  "env s \<longleftrightarrow> net_ok (mc_net s) (next_addr s) \<and> mc_timer s \<noteq> None \<and> dest_mac s \<noteq> 0 \<and> src_mac s \<noteq> 0 \<and>
     (\<forall>a. \<not> oom s a) \<and> (\<forall>i. normal (clock s i)) \<and> mono (clock s) \<and>
     unat (address_base s) + unat (range_len s) \<le> 2 ^ 64"

lemma net_ok_mono: "net_ok n a \<Longrightarrow> a \<le> b \<Longrightarrow> net_ok n b"
  by (force simp: net_ok_def)

lemma core_mono: "core N U h root as rg q len nxt \<Longrightarrow> nxt \<le> nxt' \<Longrightarrow> core N U h root as rg q len nxt'"
  unfolding core_def by (blast intro: less_le_trans)

lemma core_tree:
  assumes "core N U h root as rg q len nxt"
  shows "irep h root as" "disjoint_sorted (entries h as)" "dom h = set as" "tree_ok h root as len"
  using assms by (simp_all add: core_def tree_ok_def)

lemma core_fresh:
  assumes "core N U h root as rg q len nxt" and "nxt \<le> a"
  shows "h a = None" "rg a = None" "a \<notin> set as"
proof -
  have lt: "\<forall>x\<in>dom h \<union> dom rg. x < nxt" and d: "dom h = set as"
    using assms(1) by (simp_all add: core_def tree_ok_def)
  have "a \<notin> dom h \<union> dom rg"
    using lt assms(2) by (meson leD)
  then show "h a = None" "rg a = None" "a \<notin> set as"
    using d by auto
qed

section \<open>Notifications, packets\<close>

lemma malloc_ok: "\<not> oom s (next_addr s) \<Longrightarrow> malloc s = (Some (next_addr s), s\<lparr>next_addr := Suc (next_addr s)\<rparr>)"
  by (simp add: malloc_def)

lemma add_notify_ok [step_defs]:
  "\<not> oom s (next_addr s) \<Longrightarrow>
   add_notify s sd mn = Some (s\<lparr>next_addr := Suc (next_addr s), notifies := notifies s @ [(mn, sd)]\<rparr>)"
  by (simp add: add_notify_def malloc_def)

text \<open>\<open>send_packet\<close> queues the bytes of the packet, padded.\<close>

lemma send_packet_ok:
  assumes "env s"
  shows "\<exists>n n' k pad. mc_net s = Some n \<and> send_packet s p = Some (0, s\<lparr>mc_net := Some n', next_addr := k\<rparr>) \<and>
    next_addr s \<le> k \<and> net_ok (Some n') k \<and> length pad = 22 \<and>
    packets BUFFER_QUEUED n' = add_mset (maap_bytes p @ pad) (packets BUFFER_QUEUED n)"
proof -
  from assms obtain n where n: "mc_net s = Some n" "net_inv n" "\<forall>a\<in>fst ` set (pFirst n). a < next_addr s"
    and oom: "\<not> oom s (next_addr s)"
    by (auto simp: env_def net_ok_def)
  have fr: "fresh n (Some (next_addr s))"
    using n(3) by (auto simp: fresh_def)
  obtain r b m where g: "Net_getPacketBuffer n (Some (next_addr s)) = Some (r, m)" "net_inv m"
    "get_buffer m r = Some b" "buf_state b = BUFFER_SUPPLIED"
    using Net_getPacketBuffer_ok [OF n(2) fr] by blast
  have len: "length (buffer b) = 64"
    using get_buffer_length [OF g(2,3)] by (simp add: MAAP_NET_BUFFER_SIZE_def)
  let ?bytes = "maap_bytes p @ drop 42 (buffer b)"
  have lb: "length ?bytes = MAAP_NET_BUFFER_SIZE"
    using len by (simp add: MAAP_NET_BUFFER_SIZE_def)
  obtain n' where s: "Net_send n (Some (next_addr s)) ?bytes = Some n'" "net_inv n'"
    "packets BUFFER_QUEUED n' = add_mset ?bytes (packets BUFFER_QUEUED n)"
    using Net_send_ok [OF n(2) fr lb] by blast
  then have q: "Net_queuePacket (Net_fill m r ?bytes) r = Some (0, n')"
    using g(1) by (auto simp: Net_send_def Net_queuePacket_def elim!: bind_SomeE)
  let ?k = "case r of Slot _ \<Rightarrow> next_addr s | Over _ \<Rightarrow> Suc (next_addr s)"
  have "pFirst n' = pFirst (set_buffer (set_buffer m r (\<lambda>b. b\<lparr>buffer := ?bytes\<rparr>)) r (\<lambda>b. b\<lparr>buf_state := BUFFER_QUEUED\<rparr>))"
    using q by (auto simp: Net_queuePacket_def Net_fill_def elim!: bind_SomeE)
  then have "map fst (pFirst n') = map fst (pFirst m)"
    by (simp add: set_buffer_def split: buf_ref.splits)
  then have "fst ` set (pFirst n') = fst ` set (pFirst m)"
    by (metis set_map)
  also have "\<dots> \<subseteq> (case r of Slot _ \<Rightarrow> {} | Over _ \<Rightarrow> {next_addr s}) \<union> fst ` set (pFirst n)"
    using g(1) by (auto simp: Net_getPacketBuffer_def set_buffer_def split: option.splits)
  finally have "net_ok (Some n') ?k"
    using s(2) n(3) by (fastforce simp: net_ok_def split: buf_ref.splits)
  moreover have "send_packet s p = Some (0, s\<lparr>mc_net := Some n', next_addr := ?k\<rparr>)"
    using n(1) oom g(1,3) q len by (auto simp: send_packet_def malloc_def pack_maap_bytes split: buf_ref.splits)
  moreover have "next_addr s \<le> ?k"
    by (simp split: buf_ref.splits)
  ultimately show ?thesis
    using n(1) s(3) len by (intro exI [of _ n] exI [of _ n'] exI [of _ ?k] exI [of _ "drop 42 (buffer b)"]) simp
qed

section \<open>Assigning an interval\<close>

text \<open>
  The numbers \<open>random\<close> offers from here on, and whether they are taken.  A number
  that is drawn last but free is the case the code treats as a failure although
  the interval is already in the tree.
\<close>

definition pick :: "maap_client \<Rightarrow> u16 \<Rightarrow> nat \<Rightarrow> u32" where
  "pick s len i = of_nat (rnd s (rnd_pos s + i) mod unat (range_len s + 1 - ucast len))"

definition blocked :: "maap_client \<Rightarrow> u32 \<Rightarrow> u16 \<Rightarrow> bool" where
  "blocked s start len \<longleftrightarrow> search_interval (ih s) (ranges s) start (ucast len) \<noteq> Some None"

definition late_success :: "maap_client \<Rightarrow> u16 \<Rightarrow> bool" where
  "late_success s len \<longleftrightarrow> (\<forall>i<999. blocked s (pick s len i) len) \<and> \<not> blocked s (pick s len 999) len"

definition taken :: "iheap \<Rightarrow> addr list \<Rightarrow> u32 \<Rightarrow> u16 \<Rightarrow> bool" where
  "taken h as start len \<longleftrightarrow> (\<exists>b\<in>set as. overlaps (entry_of (the (h b))) (start, start + ucast len - 1, None))"

lemma blocked_taken:
  assumes "irep (ih s) (ranges s) as" and "disjoint_sorted (entries (ih s) as)"
  shows "blocked s start len \<longleftrightarrow> taken (ih s) as start len"
  using search_interval_irep [OF assms, of start "ucast len"]
  by (auto simp: blocked_def taken_def find_None_iff hits_def query_def entry_of_def)

definition fits :: "u32 \<Rightarrow> u16 \<Rightarrow> u32 \<Rightarrow> bool" where
  "fits start len tot \<longleftrightarrow> 0 < len \<and> unat start + unat len \<le> unat tot"

lemma unat_u16: "unat (ucast (x :: u16) :: u32) = unat x" "unat x \<le> 65535"
proof -
  show b: "unat x \<le> 65535"
    using unsigned_less [of x, where ?'a = nat] by simp
  then show "unat (ucast x :: u32) = unat x"
    by (simp add: unsigned_ucast_eq take_bit_nat_eq_self_iff)
qed

lemma unat_minus_1: "0 < unat x \<Longrightarrow> unat (x - 1) = unat x - 1" for x :: "'a::len word"
  by (simp add: unat_minus_one unat_gt_0)

lemma fits_unat:
  assumes "fits start len tot"
  shows "unat (start + ucast len - 1) = unat start + unat len - 1" "0 < unat len"
proof -
  show pos: "0 < unat len"
    using assms by (auto simp: fits_def unat_gt_0)
  have lim: "unat start + unat len < 2 ^ LENGTH(32)"
    using assms unsigned_less [of tot, where ?'a = nat] by (simp add: fits_def)
  have "unat (start + ucast len) = unat start + unat len"
    using lim unat_add_lem [of start "ucast len"] by (simp add: unat_u16)
  then show "unat (start + ucast len - 1) = unat start + unat len - 1"
    using pos by (subst unat_minus_1) auto
qed

lemma fits_bounds:
  assumes "fits start len tot"
  shows "start \<le> start + ucast len - 1" "start + ucast len - 1 \<le> tot - 1" "start + ucast len - 1 - start + 1 = ucast len"
    "unat (start + ucast len - 1 - start) < 65535"
proof -
  note u = fits_unat [OF assms]
  have tot: "unat (tot - 1) = unat tot - 1"
    using assms u(2) by (intro unat_minus_1) (simp add: fits_def)
  show "start \<le> start + ucast len - 1" using u by (simp add: word_le_nat_alt)
  show "start + ucast len - 1 \<le> tot - 1" using u tot assms by (simp add: word_le_nat_alt fits_def diff_le_mono)
  show "start + ucast len - 1 - start + 1 = ucast len" by simp
  have "unat (ucast len - 1 :: u32) = unat len - 1"
    using u(2) by (simp add: unat_minus_1 unat_u16)
  then show "unat (start + ucast len - 1 - start) < 65535"
    using u(2) unat_u16(2) [of len] by (simp add: algebra_simps)
qed

lemma fits_high: "fits start len tot \<Longrightarrow> start + ucast len - 1 < tot"
  using fits_unat [of start len tot] unfolding fits_def word_less_nat_alt by linarith

lemma pick_fits:
  assumes "0 < len" and "ucast len \<le> range_len s" and "x = of_nat (y mod unat (range_len s + 1 - ucast len))"
  shows "range_len s + 1 - ucast len \<noteq> 0" "fits x len (range_len s)"
proof -
  have pos: "0 < unat len" and le: "unat len \<le> unat (range_len s)"
    using assms(1,2) by (auto simp: unat_gt_0 word_le_nat_alt unat_u16)
  have "unat (range_len s + 1 - ucast len) = unat (range_len s) - unat len + 1"
  proof -
    have "range_len s + 1 - ucast len = (range_len s - ucast len) + 1" by simp
    moreover have "unat (range_len s - ucast len) = unat (range_len s) - unat len"
      using assms(2) by (simp add: unat_sub unat_u16)
    moreover have "unat (range_len s) < 2 ^ LENGTH(32)" by (rule unsigned_less)
    ultimately show ?thesis using pos le by (simp only:) (simp add: unat_plus_if')
  qed
  then show "range_len s + 1 - ucast len \<noteq> 0" by (metis add_is_0 one_neq_zero unat_0)
  have "y mod unat (range_len s + 1 - ucast len) \<le> unat (range_len s) - unat len"
    using \<open>unat (range_len s + 1 - ucast len) = _\<close> by (metis Suc_eq_plus1 less_Suc_eq_le mod_less_divisor zero_less_Suc)
  moreover have "unat (range_len s) < 2 ^ LENGTH(32)" by (rule unsigned_less)
  ultimately have "unat x = y mod unat (range_len s + 1 - ucast len)"
    unfolding assms(3) unat_of_nat by (intro mod_less) linarith
  with \<open>y mod _ \<le> _\<close> show "fits x len (range_len s)"
    using pos le assms(1) by (simp add: fits_def)
qed


text \<open>What an insertion of a node into the tree of a client amounts to.\<close>

definition inserted :: "iheap \<Rightarrow> addr list \<Rightarrow> addr \<Rightarrow> entry \<Rightarrow> iheap \<Rightarrow> ptr \<Rightarrow> addr list \<Rightarrow> bool" where
  "inserted h as a e h' root' as' \<longleftrightarrow> (\<exists>us vs. as = us @ vs \<and> as' = us @ a # vs \<and> irep h' root' as' \<and>
     disjoint_sorted (entries h' as') \<and> entry_of (the (h' a)) = e \<and>
     (\<forall>b\<in>set as. entry_of (the (h' b)) = entry_of (the (h b))) \<and> dom h' = insert a (dom h))"

lemma try_interval_ok:
  assumes c: "tree_ok (ih s) (ranges s) as (range_len s)" and fresh: "ih s (next_addr s) = None"
    and m: "\<not> oom s (next_addr s)" and f: "fits start len (range_len s)"
  shows "if taken (ih s) as start len
    then try_interval s start len = Some (INTERVAL_OVERLAP, next_addr s, s\<lparr>next_addr := Suc (next_addr s)\<rparr>)
    else \<exists>h' root' as'. try_interval s start len =
        Some (INTERVAL_SUCCESS, next_addr s, s\<lparr>next_addr := Suc (next_addr s), ih := h', ranges := root'\<rparr>) \<and>
      inserted (ih s) as (next_addr s) (start, start + ucast len - 1, None) h' root' as'"
proof -
  let ?a = "next_addr s" and ?e = "(start, start + ucast len - 1, None :: ptr)"
  let ?n = "\<lparr>low = start, high = start + ucast len - 1, data = None, parent = None, left_child = None, right_child = None\<rparr>"
  let ?h = "(ih s)(?a \<mapsto> ?n)"
  have tr: "irep (ih s) (ranges s) as" "disjoint_sorted (entries (ih s) as)" "dom (ih s) = set as"
    using c by (simp_all add: tree_ok_def)
  have na: "?a \<notin> set as" using fresh tr(3) by auto
  have rep: "irep ?h (ranges s) as"
    using tr(1) na by (auto intro: irep_cong)
  have same: "\<forall>b\<in>set as. ?h b = ih s b" using na by auto
  then have ents: "entries ?h as = entries (ih s) as"
    by (simp add: entries_def)
  then have ds: "disjoint_sorted (entries ?h as)" using tr(2) by simp
  have "entry_of ?n = ?e" by (simp add: entry_of_def)
  note en = this
  have hit: "hits ?h b ?n \<longleftrightarrow> overlaps (entry_of (the (ih s b))) ?e" if "b \<in> set as" for b
    using same that by (simp add: hits_def en)
  have undo: "?h(?a := None) = ih s" using fresh by auto
  have try_eq: "try_interval s start len = do {
      (rv, h, root) \<leftarrow> insert_interval ?h (ranges s) ?a;
      h \<leftarrow> (if rv = INTERVAL_OVERLAP then free_interval h ?a else Some h);
      Some (rv, ?a, s\<lparr>next_addr := Suc ?a, ih := h, ranges := root\<rparr>) }"
    using m fits_bounds(2) [OF f] by (simp add: try_interval_def malloc_def alloc_interval_def)
  show ?thesis
  proof (cases "taken (ih s) as start len")
    case True
    then obtain b where b: "b \<in> set as" "hits ?h b ?n"
      using hit by (auto simp: taken_def)
    have "insert_interval ?h (ranges s) ?a = Some (INTERVAL_OVERLAP, ?h, ranges s)"
      using b by (intro insert_interval_overlap [OF rep ds _ b]) simp
    with True undo show ?thesis
      by (simp add: try_eq free_interval_def)
  next
    case False
    have ok: "proper (entry_of ?n)" using fits_bounds(1) [OF f] by (simp add: en)
    have miss: "\<forall>b\<in>set as. \<not> hits ?h b ?n" using False hit by (auto simp: taken_def)
    obtain h' root' us vs where r: "insert_interval ?h (ranges s) ?a = Some (INTERVAL_SUCCESS, h', root')"
      "as = us @ vs" "irep h' root' (us @ ?a # vs)" "relinked (insert ?a (set as)) ?h h'"
      "disjoint_sorted (entries h' (us @ ?a # vs))"
      by (rule insert_interval_success [OF rep ds _ _ _ _ na ok miss]) simp_all
    have "entry_of (the (h' b)) = entry_of (the (?h b))" if "b \<in> insert ?a (set as)" for b
    proof -
      have "b \<in> insert ?a (dom (ih s))" using that tr(3) by simp
      then have "?h b \<noteq> None" by auto
      with relinked_entry [OF r(4), of b] show ?thesis by blast
    qed
    moreover have "dom h' = insert ?a (dom (ih s))"
      using relinked_dom [OF r(4)] by (auto simp: dom_def)
    ultimately have "inserted (ih s) as ?a ?e h' root' (us @ ?a # vs)"
      using r(2,3,5) same en unfolding inserted_def by auto
    with False r(1) show ?thesis
      by (auto simp: try_eq INTERVAL_SUCCESS_def INTERVAL_OVERLAP_def)
  qed
qed


definition usable :: "maap_client \<Rightarrow> addr list \<Rightarrow> u16 \<Rightarrow> bool" where
  "usable s as len \<longleftrightarrow> tree_ok (ih s) (ranges s) as (range_len s) \<and> (\<forall>a\<ge>next_addr s. ih s a = None) \<and>
     (\<forall>a. \<not> oom s a) \<and> 0 < len \<and> ucast len \<le> range_len s"

abbreviation drawn :: "maap_client \<Rightarrow> maap_client" where
  "drawn s \<equiv> s\<lparr>next_addr := Suc (next_addr s), rnd_pos := Suc (rnd_pos s)\<rparr>"

lemma pick_drawn: "pick (drawn s) len i = pick s len (Suc i)"
  by (simp add: pick_def)

lemma usable_drawn: "usable s as len \<Longrightarrow> usable (drawn s) as len"
  by (simp add: usable_def)

lemma assign_loop_step:
  assumes u: "usable s as len"
  shows "if taken (ih s) as (pick s len 0) len
    then \<exists>iv'. assign_loop (Suc k) INTERVAL_OVERLAP iv s len = assign_loop k INTERVAL_OVERLAP iv' (drawn s) len
    else \<exists>h' root' as'. assign_loop (Suc k) INTERVAL_OVERLAP iv s len =
        Some (k, INTERVAL_SUCCESS, Some (next_addr s), (drawn s)\<lparr>ih := h', ranges := root'\<rparr>) \<and>
      inserted (ih s) as (next_addr s) (pick s len 0, pick s len 0 + ucast len - 1, None) h' root' as'"
proof -
  let ?s = "s\<lparr>rnd_pos := Suc (rnd_pos s)\<rparr>"
  note f = pick_fits [of len s "pick s len 0" "rnd s (rnd_pos s)"]
  have p: "range_len s + 1 - ucast len \<noteq> 0" "fits (pick s len 0) len (range_len s)"
    using f u by (simp_all add: usable_def pick_def)
  have x: "if taken (ih ?s) as (pick s len 0) len
    then try_interval ?s (pick s len 0) len = Some (INTERVAL_OVERLAP, next_addr ?s, ?s\<lparr>next_addr := Suc (next_addr ?s)\<rparr>)
    else \<exists>h' root' as'. try_interval ?s (pick s len 0) len =
        Some (INTERVAL_SUCCESS, next_addr ?s, ?s\<lparr>next_addr := Suc (next_addr ?s), ih := h', ranges := root'\<rparr>) \<and>
      inserted (ih ?s) as (next_addr ?s) (pick s len 0, pick s len 0 + ucast len - 1, None) h' root' as'"
    using u p(2) by (intro try_interval_ok) (simp_all add: usable_def)
  have step: "assign_loop (Suc k) INTERVAL_OVERLAP iv s len =
      do { (rv, a, s) \<leftarrow> try_interval ?s (pick s len 0) len; assign_loop k rv (Some a) s len }"
    using p(1) by (simp add: random_def pick_def)
  have stop: "assign_loop k INTERVAL_SUCCESS a s' len = Some (k, INTERVAL_SUCCESS, a, s')" for a s'
    by (cases k) (simp_all add: INTERVAL_SUCCESS_def INTERVAL_OVERLAP_def)
  have comm: "s\<lparr>rnd_pos := i, next_addr := j\<rparr> = s\<lparr>next_addr := j, rnd_pos := i\<rparr>" for i j by simp
  show ?thesis
  proof (cases "taken (ih s) as (pick s len 0) len")
    case True
    with x have "assign_loop (Suc k) INTERVAL_OVERLAP iv s len =
        assign_loop k INTERVAL_OVERLAP (Some (next_addr s)) (drawn s) len"
      unfolding step by (simp add: comm)
    with True show ?thesis by (simp del: assign_loop.simps) blast
  next
    case False
    with x obtain h' root' as' where "try_interval ?s (pick s len 0) len =
        Some (INTERVAL_SUCCESS, next_addr s, (drawn s)\<lparr>ih := h', ranges := root'\<rparr>)"
      and ins: "inserted (ih s) as (next_addr s) (pick s len 0, pick s len 0 + ucast len - 1, None) h' root' as'"
      by (auto simp: comm)
    then have "assign_loop (Suc k) INTERVAL_OVERLAP iv s len =
        Some (k, INTERVAL_SUCCESS, Some (next_addr s), (drawn s)\<lparr>ih := h', ranges := root'\<rparr>)"
      unfolding step by (simp add: stop)
    with False ins show ?thesis by (simp del: assign_loop.simps) blast
  qed
qed

lemma assign_loop_fail:
  assumes "usable s as len" and "\<forall>i<k. taken (ih s) as (pick s len i) len"
  shows "\<exists>iv'. assign_loop k INTERVAL_OVERLAP iv s len =
    Some (0, INTERVAL_OVERLAP, iv', s\<lparr>next_addr := next_addr s + k, rnd_pos := rnd_pos s + k\<rparr>)"
  using assms
proof (induction k arbitrary: s iv)
  case 0
  then show ?case by simp
next
  case (Suc k)
  obtain iv' where e: "assign_loop (Suc k) INTERVAL_OVERLAP iv s len = assign_loop k INTERVAL_OVERLAP iv' (drawn s) len"
    using assign_loop_step [OF Suc.prems(1), of k iv] Suc.prems(2) by auto
  have "\<forall>i<k. taken (ih (drawn s)) as (pick (drawn s) len i) len"
    using Suc.prems(2) by (simp add: pick_drawn)
  from Suc.IH [OF usable_drawn [OF Suc.prems(1)] this, of iv'] show ?case
    unfolding e by (auto simp: add.commute)
qed

lemma assign_loop_hit:
  assumes "usable s as len" and "\<forall>j<i. taken (ih s) as (pick s len j) len"
    and "\<not> taken (ih s) as (pick s len i) len"
  shows "\<exists>h' root' as'. assign_loop (Suc i + k) INTERVAL_OVERLAP iv s len =
      Some (k, INTERVAL_SUCCESS, Some (next_addr s + i), s\<lparr>next_addr := Suc (next_addr s + i),
        rnd_pos := Suc (rnd_pos s + i), ih := h', ranges := root'\<rparr>) \<and>
    inserted (ih s) as (next_addr s + i) (pick s len i, pick s len i + ucast len - 1, None) h' root' as'"
  using assms
proof (induction i arbitrary: s iv)
  case 0
  then show ?case using assign_loop_step [OF 0(1), of k iv] by (simp del: assign_loop.simps)
next
  case (Suc i)
  obtain iv' where e: "assign_loop (Suc (Suc i + k)) INTERVAL_OVERLAP iv s len =
      assign_loop (Suc i + k) INTERVAL_OVERLAP iv' (drawn s) len"
    using assign_loop_step [OF Suc.prems(1), of "Suc i + k" iv] Suc.prems(2) by auto
  have "\<forall>j<i. taken (ih (drawn s)) as (pick (drawn s) len j) len"
      "\<not> taken (ih (drawn s)) as (pick (drawn s) len i) len"
    using Suc.prems(2,3) by (simp_all add: pick_drawn)
  from Suc.IH [OF usable_drawn [OF Suc.prems(1)] this, of iv'] show ?case
    using e by (simp add: pick_drawn)
qed


text \<open>The preferred block lies in the pool, in numbers that do not wrap.\<close>

definition preferable :: "maap_client \<Rightarrow> u64 \<Rightarrow> u16 \<Rightarrow> bool" where
  "preferable s att len \<longleftrightarrow> unat (address_base s) \<le> unat att \<and> unat att + unat len \<le> unat (address_base s) + unat (range_len s)"

lemma attempt_fits_iff:
  assumes "0 < len" and "ucast len \<le> range_len s"
    and "unat att + unat len \<le> 2 ^ 64" and "unat (address_base s) + unat (range_len s) \<le> 2 ^ 64"
  shows "attempt_fits s att len \<longleftrightarrow> preferable s att len"
proof -
  have pos: "0 < unat len" and le: "unat len \<le> unat (range_len s)"
    using assms(1,2) by (auto simp: unat_gt_0 word_le_nat_alt unat_u16)
  have sum: "unat (x + y - 1) = unat x + unat y - 1" if "0 < unat y" "unat x + unat y \<le> 2 ^ 64" for x y :: u64
  proof -
    have "unat (y - 1) = unat y - 1" using that(1) by (rule unat_minus_1)
    moreover have "unat x + unat (y - 1) < 2 ^ LENGTH(64)" using that calculation by simp
    ultimately have "unat (x + (y - 1)) = unat x + (unat y - 1)" using unat_add_lem [of x "y - 1"] by simp
    then show ?thesis using that(1) by (simp add: algebra_simps)
  qed
  have u16: "unat (ucast len :: u64) = unat len"
    using unat_u16(2) [of len] by (simp add: unsigned_ucast_eq take_bit_nat_eq_self_iff)
  have u32: "unat (ucast (range_len s) :: u64) = unat (range_len s)"
    using unsigned_less [of "range_len s", where ?'a = nat] by (simp add: unsigned_ucast_eq take_bit_nat_eq_self_iff)
  show ?thesis
    using sum [of "ucast len" att] sum [of "ucast (range_len s)" "address_base s"] assms(3,4) pos le u16 u32
    by (auto simp: attempt_fits_def preferable_def word_le_nat_alt)
qed

lemma preferable_fits:
  assumes "preferable s att len" and "0 < len"
  shows "fits (ucast (att - address_base s)) len (range_len s)"
proof -
  have pos: "0 < unat len" using assms(2) by (simp add: unat_gt_0)
  have b: "unat (att - address_base s) + unat len \<le> unat (range_len s)"
    using assms(1) by (auto simp: preferable_def unat_sub word_le_nat_alt)
  then have "unat (att - address_base s) < 2 ^ 32"
    using pos unsigned_less [of "range_len s", where ?'a = nat] by simp
  then have "unat (ucast (att - address_base s) :: u32) = unat (att - address_base s)"
    by (simp add: unsigned_ucast_eq take_bit_nat_eq_self_iff)
  with b show ?thesis using assms(2) by (simp add: fits_def)
qed

lemma disjoint_sorted_bounds:
  "disjoint_sorted es \<longleftrightarrow> sorted_wrt (\<lambda>(l, u) (l', u'). u < l') (map (\<lambda>(l, u, d). (l, u)) es) \<and>
     list_all (\<lambda>(l, u). l \<le> u) (map (\<lambda>(l, u, d). (l, u)) es)"
proof -
  have "before = (\<lambda>x y. (case (case x of (l, u, d) \<Rightarrow> (l, u)) of (l, u) \<Rightarrow> \<lambda>(l', u'). u < l') (case y of (l, u, d) \<Rightarrow> (l, u)))"
    by (auto simp: fun_eq_iff)
  moreover have "proper = (\<lambda>x. case (case x of (l, u, d) \<Rightarrow> (l, u)) of (l, u) \<Rightarrow> l \<le> u)"
    by (auto simp: fun_eq_iff)
  ultimately show ?thesis
    by (simp add: disjoint_sorted_def sorted_wrt_map list.pred_map comp_def)
qed

lemma set_data:
  assumes "irep h root as" and "h a = Some n"
  shows "irep (h(a \<mapsto> n\<lparr>data := d\<rparr>)) root as"
    "disjoint_sorted (entries (h(a \<mapsto> n\<lparr>data := d\<rparr>)) as) = disjoint_sorted (entries h as)"
proof -
  show "irep (h(a \<mapsto> n\<lparr>data := d\<rparr>)) root as"
    using assms by (intro irep_cong [OF assms(1)]) (auto simp: links_def)
  have "map (\<lambda>(l, u, d). (l, u)) (entries (h(a \<mapsto> n\<lparr>data := d\<rparr>)) as) = map (\<lambda>(l, u, d). (l, u)) (entries h as)"
    using assms(2) by (auto simp: entries_def entry_of_def)
  then show "disjoint_sorted (entries (h(a \<mapsto> n\<lparr>data := d\<rparr>)) as) = disjoint_sorted (entries h as)"
    by (simp only: disjoint_sorted_bounds)
qed

lemma inserted_set_data:
  assumes i: "inserted h as a (l, u, d) h' root' as'" and n: "h' a = Some n" and a: "a \<notin> set as"
  shows "inserted h as a (l, u, d') (h'(a \<mapsto> n\<lparr>data := d'\<rparr>)) root' as'"
proof -
  from i obtain us vs where p: "as = us @ vs" "as' = us @ a # vs" "irep h' root' as'" "disjoint_sorted (entries h' as')"
    "entry_of (the (h' a)) = (l, u, d)" "\<forall>b\<in>set as. entry_of (the (h' b)) = entry_of (the (h b))"
    "dom h' = insert a (dom h)" by (auto simp: inserted_def)
  moreover have "\<forall>b\<in>set as. entry_of (the ((h'(a \<mapsto> n\<lparr>data := d'\<rparr>)) b)) = entry_of (the (h b))"
    using p(6) a by auto
  moreover have "entry_of (the ((h'(a \<mapsto> n\<lparr>data := d'\<rparr>)) a)) = (l, u, d')"
    using p(5) n by (simp add: entry_of_def)
  moreover have "dom (h'(a \<mapsto> n\<lparr>data := d'\<rparr>)) = insert a (dom h)"
    using p(7) by auto
  ultimately show ?thesis
    using set_data [OF p(3) n, of d'] unfolding inserted_def by blast
qed

text \<open>What \<open>assign_interval\<close> leaves alone: everything but the counters, the tree and the range's link.\<close>

definition assigned :: "maap_client \<Rightarrow> addr list \<Rightarrow> addr \<Rightarrow> u16 \<Rightarrow> u32 \<Rightarrow> addr \<Rightarrow> maap_client \<Rightarrow> addr list \<Rightarrow> bool" where
  "assigned s as r len start a s' as' \<longleftrightarrow> (\<exists>n p h' root' g. rh s r = Some g \<and>
     s' = s\<lparr>next_addr := n, rnd_pos := p, ih := h', ranges := root', rh := (rh s)(r \<mapsto> g\<lparr>r_interval := Some a\<rparr>)\<rparr> \<and>
     inserted (ih s) as a (start, start + ucast len - 1, Some r) h' root' as' \<and>
     fits start len (range_len s) \<and> next_addr s \<le> a \<and> a < n)"

lemma assign_interval_end:
  assumes "inserted (ih s) as a (start, start + ucast len - 1, None) h' root' as'" and "rh s r = Some g"
    and "fits start len (range_len s)" and "next_addr s \<le> a" and "a < n" and "a \<notin> set as"
    and "s' = s\<lparr>next_addr := n, rnd_pos := p, ih := h', ranges := root'\<rparr>"
  shows "\<exists>s''. do { s \<leftarrow> interval_upd s' a (\<lambda>n. n\<lparr>data := Some r\<rparr>);
      s \<leftarrow> range_upd s r (\<lambda>g. g\<lparr>r_interval := Some a\<rparr>); Some (0, s) } = Some (0::int, s'') \<and>
    assigned s as r len start a s'' as'"
proof -
  from assms(1) obtain n' where n': "h' a = Some n'"
    by (auto simp: inserted_def)
  let ?h = "h'(a \<mapsto> n'\<lparr>data := Some r\<rparr>)"
  let ?s = "s\<lparr>next_addr := n, rnd_pos := p, ih := ?h, ranges := root', rh := (rh s)(r \<mapsto> g\<lparr>r_interval := Some a\<rparr>)\<rparr>"
  have "assigned s as r len start a ?s as'"
    unfolding assigned_def using inserted_set_data [OF assms(1) n' assms(6), of "Some r"] assms(2-5)
    by (intro exI [of _ n] exI [of _ p] exI [of _ ?h] exI [of _ root'] exI [of _ g]) simp
  moreover have "do { s \<leftarrow> interval_upd s' a (\<lambda>n. n\<lparr>data := Some r\<rparr>);
      s \<leftarrow> range_upd s r (\<lambda>g. g\<lparr>r_interval := Some a\<rparr>); Some (0, s) } = Some (0::int, ?s)"
    using assms(2,7) n' by (simp add: interval_upd_def range_upd_def)
  ultimately show ?thesis by blast
qed


definition assign_end :: "addr \<Rightarrow> nat \<times> int \<times> ptr \<times> maap_client \<Rightarrow> (int \<times> maap_client) option" where
  "assign_end r = (\<lambda>(k, rv, iv, s). if k = 0 then Some (-1, s) else do { a \<leftarrow> iv;
      s \<leftarrow> interval_upd s a (\<lambda>n. n\<lparr>data := Some r\<rparr>); s \<leftarrow> range_upd s r (\<lambda>g. g\<lparr>r_interval := Some a\<rparr>); Some (0, s) })"

declare assign_end_def [simp]

text \<open>
  The block a search must find: the preferred one if it lies in the pool and is free, otherwise the
  first free one of a thousand random draws.
\<close>

definition candidates :: "maap_client \<Rightarrow> u64 \<Rightarrow> u16 \<Rightarrow> u32 list" where
  "candidates s att len = (if preferable s att len then [ucast (att - address_base s)] else []) @ map (pick s len) [0..<1000]"

definition chosen :: "maap_client \<Rightarrow> addr list \<Rightarrow> u64 \<Rightarrow> u16 \<Rightarrow> u32 option" where
  "chosen s as att len = find (\<lambda>x. \<not> taken (ih s) as x len) (candidates s att len)"

lemma chosen_cong:
  "ih s' = ih s \<Longrightarrow> address_base s' = address_base s \<Longrightarrow> range_len s' = range_len s \<Longrightarrow> rnd s' = rnd s \<Longrightarrow> rnd_pos s' = rnd_pos s \<Longrightarrow>
   chosen s' as att len = chosen s as att len"
  by (simp add: chosen_def candidates_def preferable_def pick_def [abs_def])

text \<open>The outcome of a search that must find \<open>c\<close>, for a computation \<open>m\<close>.\<close>

definition assign_outcome ::
  "maap_client \<Rightarrow> addr list \<Rightarrow> addr \<Rightarrow> u16 \<Rightarrow> u32 option \<Rightarrow> (int \<times> maap_client) option \<Rightarrow> bool" where
  "assign_outcome s as r len c m \<longleftrightarrow> (case c of
     None \<Rightarrow> \<exists>n p. m = Some (-1, s\<lparr>next_addr := n, rnd_pos := p\<rparr>) \<and> next_addr s \<le> n
   | Some start \<Rightarrow> \<exists>a s' as'. m = Some (0, s') \<and> assigned s as r len start a s' as')"

lemma assign_outcomeE:
  assumes "assign_outcome s as r len c m"
  obtains (fail) n p where "c = None" "m = Some (-1, s\<lparr>next_addr := n, rnd_pos := p\<rparr>)" "next_addr s \<le> n"
    | (ok) start a s' as' where "c = Some start" "m = Some (0, s')" "assigned s as r len start a s' as'"
  using assms unfolding assign_outcome_def by (cases c) auto

lemma usable_new: "usable s as len \<Longrightarrow> next_addr s \<le> b \<Longrightarrow> b \<notin> set as"
  unfolding usable_def tree_ok_def by (metis domIff)

lemma usable_blocked: "usable s as len \<Longrightarrow> blocked s x len = taken (ih s) as x len"
  by (intro blocked_taken) (simp_all add: usable_def tree_ok_def)

lemma assign_search_ok:
  assumes u: "usable s as len" and r: "rh s r = Some g" and late: "\<not> late_success s len"
    and s1: "s1 = s\<lparr>next_addr := m\<rparr>" "next_addr s \<le> m"
  shows "assign_outcome s as r len (find (\<lambda>x. \<not> taken (ih s) as x len) (map (pick s len) [0..<1000]))
    (assign_loop 1000 INTERVAL_OVERLAP iv s1 len \<bind> assign_end r)"
proof -
  have u1: "usable s1 as len" using u s1 by (simp add: usable_def)
  have pk: "pick s1 len i = pick s len i" for i using s1(1) by (simp add: pick_def)
  show ?thesis
  proof (cases "\<forall>i<1000. taken (ih s) as (pick s len i) len")
    case True
    then obtain iv' where "assign_loop 1000 INTERVAL_OVERLAP iv s1 len =
        Some (0, INTERVAL_OVERLAP, iv', s1\<lparr>next_addr := next_addr s1 + 1000, rnd_pos := rnd_pos s1 + 1000\<rparr>)"
      using assign_loop_fail [OF u1, of 1000 iv] s1(1) pk by auto
    then have "assign_loop 1000 INTERVAL_OVERLAP iv s1 len \<bind> assign_end r =
        Some (-1, s\<lparr>next_addr := m + 1000, rnd_pos := rnd_pos s + 1000\<rparr>)"
      using s1(1) by simp
    moreover have "find (\<lambda>x. \<not> taken (ih s) as x len) (map (pick s len) [0..<1000]) = None"
      using True by (simp add: find_None_iff)
    ultimately show ?thesis using s1(2) unfolding assign_outcome_def by (auto intro: trans_le_add1)
  next
    case False
    define i where "i = (LEAST i. \<not> taken (ih s) as (pick s len i) len)"
    obtain j where j: "j < 1000" "\<not> taken (ih s) as (pick s len j) len" using False by blast
    have i: "\<not> taken (ih s) as (pick s len i) len" "\<forall>j<i. taken (ih s) as (pick s len j) len"
      unfolding i_def using LeastI [of "\<lambda>i. \<not> taken (ih s) as (pick s len i) len", OF j(2)]
        not_less_Least [of _ "\<lambda>i. \<not> taken (ih s) as (pick s len i) len"] by blast+
    have "i < 1000" using j unfolding i_def
      by (meson Least_le le_less_trans)
    then have "find (\<lambda>x. \<not> taken (ih s) as x len) (map (pick s len) [0..<1000]) = Some (pick s len i)"
      unfolding find_Some_iff using i by (intro exI [of _ i]) simp
    moreover have "i \<noteq> 999" using late i by (auto simp: late_success_def usable_blocked [OF u])
    ultimately have k: "1000 = Suc i + Suc (998 - i)"
      and fd: "find (\<lambda>x. \<not> taken (ih s) as x len) (map (pick s len) [0..<1000]) = Some (pick s len i)"
      using \<open>i < 1000\<close> by simp_all
    have "\<forall>j<i. taken (ih s1) as (pick s1 len j) len" "\<not> taken (ih s1) as (pick s1 len i) len"
      unfolding pk using i s1(1) by simp_all
    from assign_loop_hit [OF u1 this, of "Suc (998 - i)" iv] obtain h' root' as' where
      l: "assign_loop 1000 INTERVAL_OVERLAP iv s1 len = Some (Suc (998 - i), INTERVAL_SUCCESS, Some (m + i),
         s\<lparr>next_addr := Suc (m + i), rnd_pos := Suc (rnd_pos s + i), ih := h', ranges := root'\<rparr>)"
      and ins: "inserted (ih s) as (m + i) (pick s len i, pick s len i + ucast len - 1, None) h' root' as'"
      unfolding k [symmetric] using s1(1) pk by auto
    have f: "fits (pick s len i) len (range_len s)"
      using pick_fits(2) [of len s "pick s len i" "rnd s (rnd_pos s + i)"] u by (simp add: pick_def usable_def)
    have "next_addr s \<le> m + i" "m + i < Suc (m + i)" using s1(2) by simp_all
    from assign_interval_end [OF ins r f this usable_new [OF u this(1)] refl, of "Suc (rnd_pos s + i)"] l show ?thesis
      unfolding assign_outcome_def fd by auto
  qed
qed

lemma assign_interval_ok:
  assumes u: "usable s as len" and att: "unat att + unat len \<le> 2 ^ 64" "unat (address_base s) + unat (range_len s) \<le> 2 ^ 64"
    and r: "rh s r = Some g" and late: "\<not> late_success s len"
  shows "assign_outcome s as r len (chosen s as att len) (assign_interval s r att len)"
proof -
  have len: "0 < len" "ucast len \<le> range_len s" and tr: "tree_ok (ih s) (ranges s) as (range_len s)"
      "ih s (next_addr s) = None" "\<not> oom s (next_addr s)"
    using u by (simp_all add: usable_def)
  have start: "assign_interval s r att len = do {
      (rv, iv, s1) \<leftarrow> (if attempt_fits s att len then do {
          (rv, a, s) \<leftarrow> try_interval s (ucast (att - address_base s)) len; Some (rv, Some a, s) }
        else Some (INTERVAL_OVERLAP, None, s));
      assign_loop 1000 rv iv s1 len \<bind> assign_end r }"
  proof -
    have "\<not> ucast len > range_len s" using len(2) by simp
    then show ?thesis unfolding assign_interval_def assign_end_def by (simp only: if_False)
  qed
  note search = assign_search_ok [OF u r late]
  note iff = attempt_fits_iff [OF len att]
  show ?thesis
  proof (cases "attempt_fits s att len")
    case False
    then have "chosen s as att len = find (\<lambda>x. \<not> taken (ih s) as x len) (map (pick s len) [0..<1000])"
      using iff by (simp add: chosen_def candidates_def del: upt_rec_numeral)
    with False show ?thesis using search [of s "next_addr s" None] start by simp
  next
    case True
    let ?x = "ucast (att - address_base s) :: u32"
    have f: "fits ?x len (range_len s)"
      using preferable_fits [OF _ len(1)] True iff by blast
    have ch: "chosen s as att len = (if \<not> taken (ih s) as ?x len then Some ?x
        else find (\<lambda>x. \<not> taken (ih s) as x len) (map (pick s len) [0..<1000]))"
      using True iff by (simp add: chosen_def candidates_def del: upt_rec_numeral)
    note t = try_interval_ok [OF tr f]
    show ?thesis
    proof (cases "taken (ih s) as ?x len")
      case taken: True
      with t have "try_interval s ?x len = Some (INTERVAL_OVERLAP, next_addr s, s\<lparr>next_addr := Suc (next_addr s)\<rparr>)"
        by simp
      with True search [OF refl, of "Suc (next_addr s)"] taken ch show ?thesis by (simp add: start del: upt_rec_numeral)
    next
      case False
      with t obtain h' root' as' where x: "try_interval s ?x len =
          Some (INTERVAL_SUCCESS, next_addr s, s\<lparr>next_addr := Suc (next_addr s), rnd_pos := rnd_pos s, ih := h', ranges := root'\<rparr>)"
        and ins: "inserted (ih s) as (next_addr s) (?x, ?x + ucast len - 1, None) h' root' as'"
        by auto
      have "assign_loop 1000 INTERVAL_SUCCESS iv s' len = Some (1000, INTERVAL_SUCCESS, iv, s')" for iv s'
        by (simp add: numeral_eq_Suc INTERVAL_SUCCESS_def INTERVAL_OVERLAP_def)
      then show ?thesis
        using True x False ch assign_interval_end [OF ins r f order.refl lessI usable_new [OF u order.refl] refl, of "rnd_pos s"]
        by (auto simp: start assign_outcome_def)
    qed
  qed
qed

end
