(* ===== verification/Maap_Steps.thy ===== *)
theory Maap_Steps
  imports Maap_Invariant
begin

text \<open>
  What the internal steps of the MAAP handlers do to the invariant: linking a range to
  a new interval, removing an interval, rescheduling a range, sending and informing.
\<close>

section \<open>Reading the invariant\<close>

lemma entry_of_iff:
  "entry_of m = entry_of n \<longleftrightarrow> low m = low n \<and> high m = high n \<and> data m = data n"
  by (simp add: entry_of_def)

lemma core_owned:
  "core N U h root as rg q len nxt \<Longrightarrow> a \<in> set as \<Longrightarrow> a \<notin> N \<Longrightarrow> owned h rg a"
  by (simp add: core_def)

lemma owned_interval:
  assumes "owned h rg a" and "node_data h a = Some r" and "rg r = Some g"
  shows "r_interval g = Some a" "active g"
  using assms by (auto simp: owned_def)

lemma held_unique:
  assumes "core N U h root as rg q len nxt" and "a \<in> set as" and "b \<in> set as"
    and "node_data h a = Some r" and "node_data h b = Some r"
  shows "a = b"
proof -
  have "a \<notin> N" "b \<notin> N" using assms by (auto simp: core_def)
  then have "owned h rg a" "owned h rg b" using core_owned [OF assms(1)] assms(2,3) by auto
  with assms(4,5) show ?thesis by (auto simp: owned_def)
qed

text \<open>Changing range fields that the tree part of the invariant does not read.\<close>

lemma owned_cong:
  assumes "owned h rg a"
    and "\<And>r g. rg r = Some g \<Longrightarrow> node_data h a = Some r \<Longrightarrow> active g \<Longrightarrow> \<exists>g'. rg' r = Some g' \<and> r_interval g' = r_interval g \<and> active g'"
  shows "owned h rg' a"
proof -
  from assms(1) obtain r g where g: "node_data h a = Some r" "rg r = Some g" "r_interval g = Some a" "active g"
    by (auto simp: owned_def)
  from assms(2) [OF g(2,1,4)] obtain g' where "rg' r = Some g'" "r_interval g' = Some a" "active g'"
    using g(3) by auto
  with g(1) show ?thesis unfolding owned_def by blast
qed

lemma core_settle:
  assumes "core N (insert r U) h root as rg q len nxt" and "r \<in> set q"
    and "\<And>g. rg r = Some g \<Longrightarrow> active g \<Longrightarrow> held h as r"
  shows "core N U h root as rg q len nxt"
  using assms unfolding core_def ranges_ok_def queue_ok_def by blast

lemma core_weaken: "core N U h root as rg q len nxt \<Longrightarrow> U \<subseteq> V \<Longrightarrow> core N V h root as rg q len nxt"
  unfolding core_def ranges_ok_def queue_ok_def by blast

section \<open>A range gets an interval\<close>

lemma core_assigned:
  assumes c: "client_core N U s as" and a: "assigned s as r len start a s' as'"
    and g: "rh s r = Some g" "active g" and nh: "\<not> held (ih s) as r"
  shows "client_core N U s' as'" "node_data (ih s') a = Some r" "a \<in> set as'"
proof -
  from a g(1) obtain n p h' root' where s': "s' = s\<lparr>next_addr := n, rnd_pos := p, ih := h', ranges := root',
        rh := (rh s)(r \<mapsto> g\<lparr>r_interval := Some a\<rparr>)\<rparr>"
    and ins: "inserted (ih s) as a (start, start + ucast len - 1, Some r) h' root' as'"
    and f: "fits start len (range_len s)" "next_addr s \<le> a" "a < n"
    by (auto simp: assigned_def)
  from ins have p: "set as' = insert a (set as)" "irep h' root' as'" "disjoint_sorted (entries h' as')"
    "entry_of (the (h' a)) = (start, start + ucast len - 1, Some r)"
    "\<forall>b\<in>set as. entry_of (the (h' b)) = entry_of (the (ih s b))" "dom h' = insert a (dom (ih s))"
    by (auto simp: inserted_def)
  let ?rg = "(rh s)(r \<mapsto> g\<lparr>r_interval := Some a\<rparr>)"
  have na: "a \<notin> set as" using core_fresh(3) [OF c f(2)] .
  have d: "node_data h' a = Some r" "\<And>b. b \<in> set as \<Longrightarrow> node_data h' b = node_data (ih s) b"
    using p(4,5) by (auto simp: node_data_def entry_of_def)
  then show "node_data (ih s') a = Some r" "a \<in> set as'" using s' p(1) by auto
  have "in_pool (range_len s) (the (h' a))"
    using p(4) fits_bounds [OF f(1)] fits_high [OF f(1)] by (auto simp: in_pool_def entry_of_def)
  moreover have "in_pool (range_len s) (the (h' b))" if "b \<in> set as" for b
    using p(5) that c by (auto simp: core_def tree_ok_def in_pool_def entry_of_def)
  ultimately have t: "tree_ok h' root' as' (range_len s)"
    using p c by (auto simp: tree_ok_def core_def)
  have N: "N \<subseteq> set as'" "\<forall>b\<in>N. node_data h' b = None"
    using c d(2) p(1) by (auto simp: core_def)
  have "owned h' ?rg b" if "b \<in> set as' - N" for b
  proof (cases "b = a")
    case True
    then show ?thesis using d(1) g(2) by (auto simp: owned_def active_def)
  next
    case False
    then have "b \<in> set as" "owned (ih s) (rh s) b" using that p(1) c by (auto simp: core_def)
    then obtain ra ga where ra: "node_data (ih s) b = Some ra" "rh s ra = Some ga" "r_interval ga = Some b" "active ga"
      by (auto simp: owned_def)
    then have "ra \<noteq> r" using nh \<open>b \<in> set as\<close> by (auto simp: held_def)
    with ra show ?thesis unfolding owned_def using d(2) [OF \<open>b \<in> set as\<close>] by (intro exI [of _ ra] exI [of _ ga]) simp
  qed
  moreover have "ranges_ok U h' as' ?rg"
    using c d p(1) g unfolding core_def ranges_ok_def by (auto simp: held_def active_def)
  moreover have "queue_ok U ?rg (timer_queue s)"
  proof -
    have "act_time ?rg = act_time (rh s)" using g(1) by (auto simp: act_time_def)
    with c g(1) show ?thesis by (auto simp: core_def queue_ok_def)
  qed
  moreover have "\<forall>b\<in>dom h' \<union> dom ?rg. b < n"
  proof -
    have "dom h' \<union> dom ?rg = insert a (dom (ih s) \<union> dom (rh s))" using g(1) p(6) by auto
    moreover have "\<forall>b\<in>dom (ih s) \<union> dom (rh s). b < next_addr s" using c by (simp add: core_def)
    then have "\<forall>b\<in>dom (ih s) \<union> dom (rh s). b < n" using f(2,3) by (meson le_less_trans less_trans)
    ultimately show ?thesis using f(3) by auto
  qed
  ultimately show "client_core N U s' as'"
    using t N unfolding s' core_def by simp
qed


section \<open>An interval is removed\<close>

text \<open>Two range heaps that differ in the links to intervals only.\<close>

definition same_ranges :: "rheap \<Rightarrow> rheap \<Rightarrow> bool" where
  "same_ranges rg rg' \<longleftrightarrow> (\<forall>r. map_option (\<lambda>g. g\<lparr>r_interval := None\<rparr>) (rg' r) = map_option (\<lambda>g. g\<lparr>r_interval := None\<rparr>) (rg r))"

lemma same_ranges_Some:
  assumes "same_ranges rg rg'" and "rg r = Some g"
  obtains i where "rg' r = Some (g\<lparr>r_interval := i\<rparr>)"
proof -
  from assms obtain g' where g': "rg' r = Some g'" "g'\<lparr>r_interval := None\<rparr> = g\<lparr>r_interval := None\<rparr>"
    using assms(1) [unfolded same_ranges_def, rule_format, of r] by (auto simp: map_option_eq_Some)
  then have "g' = g\<lparr>r_interval := r_interval g'\<rparr>" by (cases g; cases g') simp
  with g'(1) that show ?thesis by metis
qed

lemma same_ranges_sym: "same_ranges rg rg' \<Longrightarrow> same_ranges rg' rg"
  by (simp add: same_ranges_def)

lemma same_ranges_trans: "same_ranges a b \<Longrightarrow> same_ranges b c \<Longrightarrow> same_ranges a c"
  by (simp add: same_ranges_def)

lemma same_ranges_refl [simp]: "same_ranges a a"
  by (simp add: same_ranges_def)

lemma same_ranges_dom: "same_ranges rg rg' \<Longrightarrow> dom rg' = dom rg"
  unfolding dom_def same_ranges_def by (metis option.map_disc_iff)

lemma same_ranges_act_time: "same_ranges rg rg' \<Longrightarrow> r \<in> dom rg \<Longrightarrow> act_time rg' r = act_time rg r"
  by (auto simp: act_time_def elim: same_ranges_Some)

lemma same_ranges_queue: "same_ranges rg rg' \<Longrightarrow> queue_ok U rg q \<Longrightarrow> queue_ok U rg' q"
proof -
  assume s: "same_ranges rg rg'" and q: "queue_ok U rg q"
  then have "map (act_time rg') q = map (act_time rg) q"
    by (auto simp: queue_ok_def intro!: same_ranges_act_time)
  with q show ?thesis unfolding queue_ok_def same_ranges_dom [OF s] by (simp only: simp_thms)
qed

definition repoint :: "iheap \<Rightarrow> addr \<Rightarrow> rheap \<Rightarrow> rheap" where
  "repoint h a rg = (case node_data h a of None \<Rightarrow> rg
     | Some r \<Rightarrow> rg(r := map_option (\<lambda>g. g\<lparr>r_interval := Some a\<rparr>) (rg r)))"

lemma same_ranges_repoint: "same_ranges rg (repoint h a rg)"
  by (auto simp: same_ranges_def repoint_def option.map_comp comp_def split: option.splits)

lemma same_ranges_fold: "same_ranges rg (fold (repoint h) ys rg)"
  by (induction ys arbitrary: rg) (auto intro: same_ranges_trans same_ranges_repoint)

lemma fold_repoint_other: "\<forall>a\<in>set ys. node_data h a \<noteq> Some r \<Longrightarrow> fold (repoint h) ys rg r = rg r"
  by (induction ys arbitrary: rg) (auto simp: repoint_def split: option.splits)

lemma fold_repoint_node:
  "distinct (map (node_data h) ys) \<Longrightarrow> a \<in> set ys \<Longrightarrow> node_data h a = Some r \<Longrightarrow>
   fold (repoint h) ys rg r = map_option (\<lambda>g. g\<lparr>r_interval := Some a\<rparr>) (rg r)"
proof (induction ys arbitrary: rg)
  case Nil
  then show ?case by simp
next
  case (Cons b ys)
  show ?case
  proof (cases "a = b")
    case True
    then have "\<forall>c\<in>set ys. node_data h c \<noteq> Some r"
      using Cons.prems by (metis distinct.simps(2) image_eqI list.simps(9) set_map)
    from fold_repoint_other [OF this] True Cons.prems(3) show ?thesis by simp (simp add: repoint_def)
  next
    case False
    with Cons.prems have a: "a \<in> set ys" "node_data h b \<noteq> Some r" by (auto simp: image_iff)
    with Cons show ?thesis by (auto simp: repoint_def split: option.splits)
  qed
qed

lemma repoint_loop_ok:
  assumes "irep (ih s) (ranges s) (xs @ ys)"
    and "\<forall>a\<in>set ys. \<exists>r g. node_data (ih s) a = Some r \<and> rh s r = Some g \<and> Some r \<noteq> old"
  shows "repoint_loop old (case ys of [] \<Rightarrow> None | a # _ \<Rightarrow> Some a) s =
    Some (s\<lparr>rh := fold (repoint (ih s)) ys (rh s)\<rparr>)"
  using assms
proof (induction ys arbitrary: xs s)
  case Nil
  then show ?case by (simp add: repoint_loop.simps)
next
  case (Cons a ys)
  from Cons.prems(2) obtain r g where r: "node_data (ih s) a = Some r" "rh s r = Some g" "Some r \<noteq> old" by auto
  obtain n where n: "ih s a = Some n" using irep_live [OF Cons.prems(1), of a] by auto
  have nd: "data n = Some r" using r(1) n by (simp add: node_data_def)
  let ?s = "s\<lparr>rh := repoint (ih s) a (rh s)\<rparr>"
  have upd: "(if r_interval g \<noteq> Some a then range_upd s r (\<lambda>g. g\<lparr>r_interval := Some a\<rparr>) else Some s) = Some ?s"
    using r(1,2) by (auto simp: range_upd_def repoint_def fun_upd_idem)
  have nxt: "next_interval (ih s) a = Some (case ys of [] \<Rightarrow> None | b # _ \<Rightarrow> Some b)"
    using next_interval_irep [OF Cons.prems(1)] .
  have "\<forall>a\<in>set ys. \<exists>r g. node_data (ih ?s) a = Some r \<and> rh ?s r = Some g \<and> Some r \<noteq> old"
  proof
    fix b assume "b \<in> set ys"
    with Cons.prems(2) obtain r' g' where "node_data (ih s) b = Some r'" "rh s r' = Some g'" "Some r' \<noteq> old" by auto
    moreover from this obtain i where "rh ?s r' = Some (g'\<lparr>r_interval := i\<rparr>)"
      using same_ranges_Some [OF same_ranges_repoint [of "rh s" "ih s" a]] by auto
    ultimately show "\<exists>r g. node_data (ih ?s) b = Some r \<and> rh ?s r = Some g \<and> Some r \<noteq> old" by auto
  qed
  from Cons.IH [of ?s "xs @ [a]"] this Cons.prems(1)
  have ih: "repoint_loop old (case ys of [] \<Rightarrow> None | b # _ \<Rightarrow> Some b) ?s =
      Some (s\<lparr>rh := fold (repoint (ih s)) ys (repoint (ih s) a (rh s))\<rparr>)" by simp
  show ?case
    using n nd r(2,3) nxt by (subst repoint_loop.simps) (simp add: upd ih)
qed


lemma entries_node_data: "map (node_data h) as = map (snd \<circ> snd) (entries h as)"
  by (simp add: entries_def entry_of_def node_data_def)

lemma distinct_data:
  assumes c: "core N U h root as rg q len nxt" and as: "as = xs @ node # ys" and N: "N \<subseteq> {node}"
  shows "distinct (map (node_data h) (xs @ ys))"
proof -
  have d: "distinct as" using irep_distinct [OF core_tree(1) [OF c]] .
  have ow: "\<exists>r. node_data h a = Some r" if "a \<in> set (xs @ ys)" for a
  proof -
    have "a \<in> set as" "a \<notin> N" using that as d N by auto
    then show ?thesis using core_owned [OF c] by (auto simp: owned_def)
  qed
  have "inj_on (node_data h) (set (xs @ ys))"
  proof (rule inj_onI)
    fix a b assume ab: "a \<in> set (xs @ ys)" "b \<in> set (xs @ ys)" "node_data h a = node_data h b"
    with ow obtain r where "node_data h a = Some r" "node_data h b = Some r" by metis
    then show "a = b" using held_unique [OF c, of a b r] ab as by auto
  qed
  moreover have "distinct (xs @ ys)" using d as by auto
  ultimately show ?thesis unfolding distinct_map by blast
qed

lemma same_entries_data:
  assumes "entries h' as' = entries h as"
  shows "\<And>a'. a' \<in> set as' \<Longrightarrow> \<exists>a\<in>set as. entry_of (the (h' a')) = entry_of (the (h a))"
    "\<And>a. a \<in> set as \<Longrightarrow> \<exists>a'\<in>set as'. entry_of (the (h' a')) = entry_of (the (h a))"
proof -
  have e: "(\<lambda>a. entry_of (the (h' a))) ` set as' = (\<lambda>a. entry_of (the (h a))) ` set as"
    using arg_cong [OF assms, of set] by (simp add: entries_def)
  show "\<And>a'. a' \<in> set as' \<Longrightarrow> \<exists>a\<in>set as. entry_of (the (h' a')) = entry_of (the (h a))"
    using e by (metis (no_types, lifting) image_iff)
  show "\<And>a. a \<in> set as \<Longrightarrow> \<exists>a'\<in>set as'. entry_of (the (h' a')) = entry_of (the (h a))"
    using e by (metis (no_types, lifting) image_iff)
qed

text \<open>
  The invariant after an interval is gone: the other entries are unchanged but may
  sit in other nodes, and every range points at the node that holds it now.
\<close>

lemma core_removed:
  assumes c: "core N U h root as rg q len nxt" and as: "as = xs @ node # ys" and N: "N \<subseteq> {node}"
    and rep: "irep h' root' as'" and ent: "entries h' as' = entries h (xs @ ys)" and dom: "dom h' = set as'"
    and sub: "set as' \<subseteq> set as" and rg': "rg' = fold (repoint h') as' rg"
  shows "core {} (U \<union> set_option (node_data h node)) h' root' as' rg' q len nxt"
proof -
  have same: "same_ranges rg rg'" using rg' same_ranges_fold by simp
  have d: "distinct (map (node_data h') as')"
    using distinct_data [OF c as N] ent unfolding entries_node_data by simp
  have "\<exists>b\<in>set as - N. entry_of (the (h' a)) = entry_of (the (h b))" if a: "a \<in> set as'" for a
  proof -
    obtain b where "b \<in> set (xs @ ys)" "entry_of (the (h' a)) = entry_of (the (h b))"
      using same_entries_data(1) [OF ent a] by blast
    moreover have "distinct as" using irep_distinct [OF core_tree(1) [OF c]] .
    ultimately show ?thesis using as N by (intro bexI [of _ b]) auto
  qed
  note from_old = this
  have ow: "owned h' rg' a" if a: "a \<in> set as'" for a
  proof -
    obtain b where b: "b \<in> set as - N" "entry_of (the (h' a)) = entry_of (the (h b))" using from_old [OF a] by blast
    then have "owned h rg b" using c by (simp add: core_def)
    then obtain r g where r: "node_data h b = Some r" "rg r = Some g" "active g" by (auto simp: owned_def)
    have nd: "node_data h' a = Some r" using b(2) r(1) by (simp add: node_data_def entry_of_def)
    have "rg' r = Some (g\<lparr>r_interval := Some a\<rparr>)" using fold_repoint_node [OF d a nd, of rg] r(2) rg' by simp
    with nd r(3) show ?thesis by (auto simp: owned_def active_def)
  qed
  have "tree_ok h' root' as' len"
  proof -
    have "disjoint_sorted (entries h (xs @ ys))"
      using core_tree(2) [OF c] as by (auto simp: disjoint_sorted_append disjoint_sorted_Cons)
    moreover have "in_pool len (the (h' a))" if a: "a \<in> set as'" for a
      using from_old [OF a] c by (auto simp: core_def tree_ok_def in_pool_def entry_of_def)
    ultimately show ?thesis using rep ent dom by (simp add: tree_ok_def)
  qed
  moreover have "ranges_ok (U \<union> set_option (node_data h node)) h' as' rg'"
    unfolding ranges_ok_def
  proof (intro allI impI)
    fix r g' assume g': "rg' r = Some g'"
    then obtain g i where g: "rg r = Some g" "g = g'\<lparr>r_interval := i\<rparr>"
      using same_ranges_Some [OF same_ranges_sym [OF same]] by metis
    have ok: "state g \<noteq> MAAP_STATE_INVALID" "0 \<le> counter g" "r \<notin> U \<Longrightarrow> active g \<Longrightarrow> held h as r"
      using c g(1) by (auto simp: core_def ranges_ok_def)
    have "held h' as' r" if u: "r \<notin> U \<union> set_option (node_data h node)" "active g'"
    proof -
      have "held h as r" using ok(3) u g(2) by (simp add: active_def)
      then obtain b where b: "b \<in> set as" "node_data h b = Some r" by (auto simp: held_def)
      then have "b \<in> set (xs @ ys)" using u as by auto
      with same_entries_data(2) [OF ent] obtain a where "a \<in> set as'" "entry_of (the (h' a)) = entry_of (the (h b))" by blast
      with b(2) show ?thesis by (auto simp: held_def node_data_def entry_of_def)
    qed
    then show "state g' \<noteq> MAAP_STATE_INVALID \<and> 0 \<le> counter g' \<and>
        (r \<notin> U \<union> set_option (node_data h node) \<longrightarrow> active g' \<longrightarrow> held h' as' r)"
      using ok(1,2) g(2) by simp
  qed
  moreover have "queue_ok (U \<union> set_option (node_data h node)) rg' q"
  proof -
    have "queue_ok U rg' q" using same_ranges_queue [OF same, of U q] c by (simp add: core_def)
    then show ?thesis unfolding queue_ok_def by blast
  qed
  moreover have "\<forall>a\<in>dom h' \<union> dom rg'. a < nxt"
    using c dom sub same_ranges_dom [OF same] core_tree(3) [OF c] unfolding core_def by blast
  ultimately show ?thesis using ow by (simp add: core_def)
qed

lemma remove_range_interval_ok:
  assumes c: "client_core N U s as" and node: "node \<in> set as" and N: "N \<subseteq> {node}"
  shows "\<exists>h root rg as'. remove_range_interval s node = Some (s\<lparr>ih := h, ranges := root, rh := rg\<rparr>) \<and>
    core {} (U \<union> set_option (node_data (ih s) node)) h root as' rg (timer_queue s) (range_len s) (next_addr s) \<and>
    entries h as' = entries (ih s) (remove1 node as) \<and> same_ranges (rh s) rg"
proof -
  obtain xs ys where as: "as = xs @ node # ys" using node by (meson split_list)
  have d: "distinct as" using irep_distinct [OF core_tree(1) [OF c]] .
  have rm: "remove1 node as = xs @ ys" using d as by (simp add: remove1_split)
  obtain snip h1 root as' where r: "remove_interval (ih s) (ranges s) node = Some (snip, h1, root)"
    "irep h1 root as'" "set (xs @ node # ys) = insert snip (set as')" "snip \<notin> set as'"
    "entries h1 as' = entries (ih s) (xs @ ys)" "map_option data (h1 snip) = map_option data (ih s node)"
    "\<And>a. (h1 a = None) = (ih s a = None)"
    using core_tree(1) [OF c] unfolding as by (elim remove_interval_irep) blast
  let ?h = "h1(snip := None)" and ?old = "node_data (ih s) node"
  obtain n where n: "ih s node = Some n" using irep_live [OF core_tree(1) [OF c] node] by blast
  obtain f where f: "h1 snip = Some f" "data f = data n" using r(6) n by auto
  have old: "data n = ?old" using n by (simp add: node_data_def)
  have rep: "irep ?h root as'" using r(4) by (intro irep_cong [OF r(2)]) auto
  have ent: "entries ?h as' = entries (ih s) (xs @ ys)"
  proof -
    have "entries ?h as' = entries h1 as'" unfolding entries_def using r(4) by (intro map_cong) auto
    with r(5) show ?thesis by simp
  qed
  have dom: "dom ?h = set as'"
  proof -
    have "dom h1 = dom (ih s)" using r(7) by (simp add: dom_def)
    then have "dom ?h = insert snip (set as') - {snip}" using r(3) core_tree(3) [OF c] as by simp
    with r(4) show ?thesis by blast
  qed
  have sub: "set as' \<subseteq> set as" using r(3) as by auto
  have guard: "(case ?old of None \<Rightarrow> Some () | Some r \<Rightarrow> do { rg \<leftarrow> rh s r; c_assert (r_interval rg = Some node) }) = Some ()"
  proof (cases ?old)
    case (Some r)
    then have "node \<notin> N" using c by (auto simp: core_def)
    then show ?thesis using core_owned [OF c node] Some by (auto simp: owned_def)
  qed simp
  note core' = core_removed [OF c as N rep ent dom sub refl]
  have "\<forall>a\<in>set as'. \<exists>r g. node_data ?h a = Some r \<and> rh s r = Some g \<and> Some r \<noteq> ?old"
  proof
    fix a assume "a \<in> set as'"
    then obtain b where b: "b \<in> set (xs @ ys)" "entry_of (the (?h a)) = entry_of (the (ih s b))"
      using same_entries_data(1) [OF ent] by blast
    then have b': "b \<in> set as" "b \<noteq> node" "b \<notin> N" using d as N by auto
    then obtain r g where r: "node_data (ih s) b = Some r" "rh s r = Some g" using core_owned [OF c b'(1,3)] by (auto simp: owned_def)
    moreover have "?old \<noteq> Some r" using held_unique [OF c node b'(1) _ r(1)] b'(2) by auto
    ultimately show "\<exists>r g. node_data ?h a = Some r \<and> rh s r = Some g \<and> Some r \<noteq> ?old"
      using b(2) by (auto simp: node_data_def entry_of_def)
  qed
  then have loop: "repoint_loop ?old (case as' of [] \<Rightarrow> None | a # _ \<Rightarrow> Some a) (s\<lparr>ih := ?h, ranges := root\<rparr>) =
      Some (s\<lparr>ih := ?h, ranges := root, rh := fold (repoint ?h) as' (rh s)\<rparr>)"
    using repoint_loop_ok [of "s\<lparr>ih := ?h, ranges := root\<rparr>" "[]" as' ?old] rep by simp
  have "remove_range_interval s node = Some (s\<lparr>ih := ?h, ranges := root, rh := fold (repoint ?h) as' (rh s)\<rparr>)"
    unfolding remove_range_interval_def
    using n f r(1) guard loop minimum_interval_irep [OF rep] by (simp add: free_interval_def old)
  with core' ent same_ranges_fold show ?thesis unfolding rm by blast
qed


section \<open>Rescheduling a range\<close>

lemma queue_walk_ok:
  "set q \<subseteq> dom h \<Longrightarrow> queue_walk h r t q =
     Some (takeWhile (\<lambda>x. act_time h x \<le> t) q @ r # dropWhile (\<lambda>x. act_time h x \<le> t) q)"
proof (induction q)
  case Nil
  then show ?case by simp
next
  case (Cons x q)
  then obtain n where "h x = Some n" by auto
  with Cons show ?case by (simp add: act_time_def)
qed

lemma queue_add_ok:
  assumes "set q \<subseteq> dom h"
  shows "queue_add h r t q =
     Some (takeWhile (\<lambda>x. act_time h x \<le> t) q @ r # dropWhile (\<lambda>x. act_time h x \<le> t) q)"
proof (cases q)
  case Nil
  then show ?thesis by (simp add: queue_add_def)
next
  case (Cons x xs)
  then obtain n where "h x = Some n" using assms by auto
  with Cons assms queue_walk_ok [of xs h r t] show ?thesis
    by (cases "next_act_time n \<le> t") (auto simp: queue_add_def act_time_def dest: leD)
qed

lemma queue_check_ok:
  "length q \<le> k \<Longrightarrow> set q \<subseteq> dom h \<Longrightarrow> distinct q \<Longrightarrow> sorted (map (act_time h) q) \<Longrightarrow> queue_check k h q = Some ()"
proof (induction q arbitrary: k)
  case Nil
  then show ?case by simp
next
  case (Cons x xs)
  from Cons.prems obtain n where n: "h x = Some n" by auto
  from Cons.prems(1) obtain j where j: "k = Suc j" by (cases k) auto
  have IH: "queue_check j h xs = Some ()" using Cons j by simp
  show ?case
  proof (cases xs)
    case Nil
    with n j show ?thesis by simp
  next
    case ys: (Cons y ys)
    then obtain m where "h y = Some m" using Cons.prems(2) by auto
    with Cons.prems ys n IH j show ?thesis by (auto simp: act_time_def)
  qed
qed

lemma sorted_insert_after:
  fixes f :: "'a \<Rightarrow> 'b::linorder"
  assumes "sorted (map f q)" and "f r = t"
  shows "sorted (map f (takeWhile (\<lambda>x. f x \<le> t) q @ r # dropWhile (\<lambda>x. f x \<le> t) q))"
  using assms
proof (induction q)
  case Nil
  then show ?case by simp
next
  case (Cons x q)
  then show ?case
    by (auto dest: set_takeWhileD set_dropWhileD)
qed

lemma insert_after_perm:
  "set (takeWhile P q @ r # dropWhile P q) = insert r (set q)"
  "length (takeWhile P q @ r # dropWhile P q) = Suc (length q)"
  "distinct q \<Longrightarrow> r \<notin> set q \<Longrightarrow> distinct (takeWhile P q @ r # dropWhile P q)"
  by (induction q) (auto dest: set_takeWhileD set_dropWhileD)

lemma delay_nanos:
  assumes "base + m \<le> 32000"
  shows "nanos (Time_setFromNanos ((of_nat (base + m) :: u64) * 1000000)) = int (base + m) * 1000000"
proof -
  have "(of_nat (base + m) :: u64) * 1000000 = of_nat ((base + m) * 1000000)" by simp
  moreover have "uint (of_nat ((base + m) * 1000000) :: u64) = int ((base + m) * 1000000)"
    using assms by (simp add: uint_nat unat_of_nat del: of_nat_mult of_nat_add)
  ultimately show ?thesis by (simp only: nanos_Time_setFromNanos of_nat_mult of_nat_numeral)
qed


definition delay_ok :: "maap_state \<Rightarrow> time \<Rightarrow> time \<Rightarrow> bool" where
  "delay_ok st now t \<longleftrightarrow> now < t \<and>
     (st = MAAP_STATE_PROBING \<longrightarrow> nanos now + 501 * 1000000 \<le> nanos t \<and> nanos t \<le> nanos now + 599 * 1000000) \<and>
     (st = MAAP_STATE_DEFENDING \<longrightarrow> nanos now + 30001 * 1000000 \<le> nanos t \<and> nanos t \<le> nanos now + 31999 * 1000000)"

lemma Time_add_delay:
  assumes "normal now" and "base + m \<le> 32000" and "0 < m"
  shows "now < Time_add now (Time_setFromNanos ((of_nat (base + m) :: u64) * 1000000))"
    "nanos (Time_add now (Time_setFromNanos ((of_nat (base + m) :: u64) * 1000000))) = nanos now + int (base + m) * 1000000"
  using delay_nanos [OF assms(2)] Time_setFromNanos_normal assms
  by (auto simp: nanos_Time_add intro!: Time_add_later)

lemma set_act_time_eq:
  assumes "rh s r = Some g"
  shows "set_act_time s r base variation = Some (s\<lparr>rh := (rh s)(r \<mapsto> g\<lparr>next_act_time :=
      Time_add (clock s (clock_pos s))
        (Time_setFromNanos (of_nat (base + (rnd s (rnd_pos s) mod (variation - 1) + 1)) * 1000000))\<rparr>),
      rnd_pos := Suc (rnd_pos s), clock_pos := Suc (clock_pos s)\<rparr>)"
  using assms by (simp add: set_act_time_def rand_ms_def random_def Time_setFromMonotonicTimer_def range_upd_def
      del: of_nat_add)

lemmas interval_consts = MAAP_PROBE_INTERVAL_BASE_def MAAP_PROBE_INTERVAL_VARIATION_def
  MAAP_ANNOUNCE_INTERVAL_BASE_def MAAP_ANNOUNCE_INTERVAL_VARIATION_def

lemma act_time_set:
  assumes "env s" and "rh s r = Some g" and "active g"
  shows "\<exists>t. (if state g = MAAP_STATE_PROBING then set_act_time s r MAAP_PROBE_INTERVAL_BASE MAAP_PROBE_INTERVAL_VARIATION
      else if state g = MAAP_STATE_DEFENDING then set_act_time s r MAAP_ANNOUNCE_INTERVAL_BASE MAAP_ANNOUNCE_INTERVAL_VARIATION
      else Some s) = Some (s\<lparr>rh := (rh s)(r \<mapsto> g\<lparr>next_act_time := t\<rparr>), rnd_pos := Suc (rnd_pos s), clock_pos := Suc (clock_pos s)\<rparr>) \<and>
    delay_ok (state g) (clock s (clock_pos s)) t"
proof -
  let ?now = "clock s (clock_pos s)" and ?x = "rnd s (rnd_pos s)"
  have n: "normal ?now" using assms(1) by (simp add: env_def)
  have m: "?x mod 99 + 1 \<le> 99" "?x mod 1999 + 1 \<le> 1999"
    using mod_less_divisor [of 99 ?x] mod_less_divisor [of 1999 ?x] by linarith+
  show ?thesis
  proof (cases "state g = MAAP_STATE_PROBING")
    case True
    have "delay_ok (state g) ?now (Time_add ?now (Time_setFromNanos (of_nat (500 + (?x mod 99 + 1)) * 1000000)))"
      using Time_add_delay [OF n, of 500 "?x mod 99 + 1"] m(1) True by (simp add: delay_ok_def)
    with True set_act_time_eq [OF assms(2), of 500 100] show ?thesis
      by (intro exI, intro conjI) (auto simp: interval_consts simp del: of_nat_add)
  next
    case False
    with assms(3) have st: "state g = MAAP_STATE_DEFENDING" by (simp add: active_def)
    have "delay_ok (state g) ?now (Time_add ?now (Time_setFromNanos (of_nat (30000 + (?x mod 1999 + 1)) * 1000000)))"
      using Time_add_delay [OF n, of 30000 "?x mod 1999 + 1"] m(2) st by (simp add: delay_ok_def)
    with st set_act_time_eq [OF assms(2), of 30000 2000] show ?thesis
      by (intro exI, intro conjI) (auto simp: interval_consts simp del: of_nat_add)
  qed
qed

text \<open>What \<open>schedule_timer\<close> changes: the range's action time and its place in the queue.\<close>

definition rescheduled :: "maap_client \<Rightarrow> addr \<Rightarrow> range \<Rightarrow> time \<Rightarrow> addr list \<Rightarrow> maap_client" where
  "rescheduled s r g t q = s\<lparr>rh := (rh s)(r \<mapsto> g\<lparr>next_act_time := t\<rparr>), rnd_pos := Suc (rnd_pos s),
     clock_pos := Suc (clock_pos s), timer_queue := q\<rparr>"

lemma act_time_upd: "act_time (rg(r \<mapsto> g)) x = (if x = r then next_act_time g else act_time rg x)"
  by (simp add: act_time_def)

lemma core_rescheduled:
  assumes c: "core N (insert r U) h root as rg q len nxt" and g: "rg r = Some g" "active g" and hd: "held h as r"
    and q': "distinct q'" "set q' = insert r (set q)" "sorted (map (act_time (rg(r \<mapsto> g\<lparr>next_act_time := t\<rparr>))) q')"
  shows "core N U h root as (rg(r \<mapsto> g\<lparr>next_act_time := t\<rparr>)) q' len nxt"
proof -
  let ?rg = "rg(r \<mapsto> g\<lparr>next_act_time := t\<rparr>)"
  have dom: "dom ?rg = dom rg" using g(1) by auto
  have "owned h ?rg a" if "a \<in> set as - N" for a
  proof -
    have "owned h rg a" using c that by (simp add: core_def)
    then show ?thesis using g by (elim owned_cong) (auto simp: owned_def active_def)
  qed
  moreover have "ranges_ok U h as ?rg"
    using c g hd unfolding core_def ranges_ok_def by (auto simp: active_def)
  moreover have "queue_ok U ?rg q'"
    using c q' g(1) unfolding core_def queue_ok_def dom by auto
  ultimately show ?thesis using c unfolding core_def dom by simp
qed

lemma schedule_timer_ok:
  assumes c: "client_core N (insert r U) s as" and e: "env s" and g: "rh s r = Some g" "active g"
    and hd: "held (ih s) as r" and room: "length (remove1 r (timer_queue s)) < 100000"
  shows "\<exists>t q. schedule_timer s r = Some (rescheduled s r g t q) \<and> client_core N U (rescheduled s r g t q) as \<and>
    delay_ok (state g) (clock s (clock_pos s)) t \<and> set q = insert r (set (timer_queue s)) \<and>
    length q = Suc (length (remove1 r (timer_queue s)))"
proof -
  obtain t where t: "(if state g = MAAP_STATE_PROBING then set_act_time s r MAAP_PROBE_INTERVAL_BASE MAAP_PROBE_INTERVAL_VARIATION
      else if state g = MAAP_STATE_DEFENDING then set_act_time s r MAAP_ANNOUNCE_INTERVAL_BASE MAAP_ANNOUNCE_INTERVAL_VARIATION
      else Some s) = Some (s\<lparr>rh := (rh s)(r \<mapsto> g\<lparr>next_act_time := t\<rparr>), rnd_pos := Suc (rnd_pos s), clock_pos := Suc (clock_pos s)\<rparr>)"
    and d: "delay_ok (state g) (clock s (clock_pos s)) t"
    using act_time_set [OF e g] by blast
  let ?rg = "(rh s)(r \<mapsto> g\<lparr>next_act_time := t\<rparr>)" and ?q = "remove1 r (timer_queue s)"
  let ?P = "\<lambda>x. act_time ?rg x \<le> t"
  let ?q' = "takeWhile ?P ?q @ r # dropWhile ?P ?q"
  have qok: "distinct (timer_queue s)" "set (timer_queue s) \<subseteq> dom (rh s)" "sorted (map (act_time (rh s)) (timer_queue s))"
    using c by (simp_all add: core_def queue_ok_def)
  have r: "r \<notin> set ?q" "distinct ?q" using qok(1) by simp_all
  have live: "set ?q \<subseteq> dom ?rg" using qok(2) by (auto dest: in_set_remove1 set_remove1_subset [THEN subsetD])
  have "map (act_time ?rg) ?q = map (act_time (rh s)) ?q" using r(1) by (auto simp: act_time_upd)
  moreover have "sorted (map (act_time (rh s)) ?q)" using qok(3) by (metis sorted_map_remove1)
  ultimately have "sorted (map (act_time ?rg) ?q)" by (simp only:)
  then have srt: "sorted (map (act_time ?rg) ?q')"
    by (rule sorted_insert_after) (simp add: act_time_def)
  have perm: "set ?q' = insert r (set ?q)" "length ?q' = Suc (length ?q)" "distinct ?q'"
    using insert_after_perm [where P = ?P and q = ?q and r = r] r by blast+
  have st: "set ?q' = insert r (set (timer_queue s))" unfolding perm(1) using qok(1) by auto
  have "queue_check 100000 ?rg ?q' = Some ()"
    using perm room live srt by (intro queue_check_ok) auto
  then have "schedule_timer s r = Some (rescheduled s r g t ?q')"
    using g(1) t queue_add_ok [OF live, of r t] by (simp add: schedule_timer_def rescheduled_def)
  moreover have "client_core N U (rescheduled s r g t ?q') as"
    unfolding rescheduled_def using core_rescheduled [OF c g hd perm(3) st srt] by simp
  ultimately show ?thesis using d st perm(2) by blast
qed

end
