(* ===== verification/Maap_Safety.thy ===== *)
theory Maap_Safety
  imports Maap_Steps
begin

text \<open>
  Every command, packet and timer event of the MAAP client keeps the invariant and
  returns: no assertion fails, no dangling or NULL pointer is followed, every loop ends.
\<close>

section \<open>Flags and single updates\<close>

definition flags :: "rheap \<Rightarrow> addr set" where
  "flags rg = {r. \<exists>g. rg r = Some g \<and> overlapping g}"

lemma flags_upd: "flags (rg(r \<mapsto> g)) = (if overlapping g then insert r (flags rg) else flags rg - {r})"
  by (auto simp: flags_def)

lemma flags_same: "same_ranges rg rg' \<Longrightarrow> flags rg' = flags rg"
proof -
  have "flags rg' \<subseteq> flags rg" if "same_ranges rg rg'" for rg rg'
    using that by (auto simp: flags_def elim!: same_ranges_Some [OF same_ranges_sym [OF that]])
  then show "same_ranges rg rg' \<Longrightarrow> flags rg' = flags rg" using same_ranges_sym by blast
qed

lemma core_upd:
  assumes c: "core N U h root as rg q len nxt" and g: "rg r = Some g"
    and g': "r_interval g' = r_interval g" "active g' = active g" "state g' \<noteq> MAAP_STATE_INVALID" "0 \<le> counter g'"
      "next_act_time g' = next_act_time g"
  shows "core N U h root as (rg(r \<mapsto> g')) q len nxt"
proof -
  have dom: "dom (rg(r \<mapsto> g')) = dom rg" using g by auto
  have "owned h (rg(r \<mapsto> g')) a" if "a \<in> set as - N" for a
  proof -
    have "owned h rg a" using c that by (simp add: core_def)
    then show ?thesis using g g'(1,2) by (elim owned_cong) auto
  qed
  moreover have "ranges_ok U h as (rg(r \<mapsto> g'))"
    using c g g' unfolding core_def ranges_ok_def by auto
  moreover have "queue_ok U (rg(r \<mapsto> g')) q"
  proof -
    have "act_time (rg(r \<mapsto> g')) = act_time rg" using g g'(5) by (auto simp: act_time_def)
    with c show ?thesis unfolding core_def queue_ok_def dom by simp
  qed
  ultimately show ?thesis using c unfolding core_def dom by simp
qed

text \<open>A range without an interval is released; a range nobody refers to is freed.\<close>

lemma core_release:
  assumes c: "core N (insert r U) h root as rg q len nxt" and g: "rg r = Some g" and nh: "\<not> held h as r" and q: "r \<in> set q"
  shows "core N U h root as (rg(r \<mapsto> g\<lparr>state := MAAP_STATE_RELEASED\<rparr>)) q len nxt"
proof -
  let ?rg = "rg(r \<mapsto> g\<lparr>state := MAAP_STATE_RELEASED\<rparr>)"
  have dom: "dom ?rg = dom rg" using g by auto
  have "owned h ?rg a" if a: "a \<in> set as - N" for a
  proof -
    have "owned h rg a" using c a by (simp add: core_def)
    moreover have "node_data h a \<noteq> Some r" using nh a by (auto simp: held_def)
    ultimately show ?thesis by (elim owned_cong) auto
  qed
  moreover have "ranges_ok U h as ?rg"
    using c g unfolding core_def ranges_ok_def by (auto simp: active_def)
  moreover have "queue_ok U ?rg q"
  proof -
    have "act_time ?rg = act_time rg" using g by (auto simp: act_time_def)
    with c q show ?thesis unfolding core_def queue_ok_def dom by auto
  qed
  ultimately show ?thesis using c unfolding core_def dom by simp
qed

lemma core_free:
  assumes c: "core N (insert r U) h root as rg q len nxt" and nh: "\<not> held h as r" and q: "r \<notin> set q"
  shows "core N U h root as (rg(r := None)) q len nxt"
proof -
  have "owned h (rg(r := None)) a" if a: "a \<in> set as - N" for a
  proof -
    have "owned h rg a" using c a by (simp add: core_def)
    moreover have "node_data h a \<noteq> Some r" using nh a by (auto simp: held_def)
    ultimately show ?thesis by (elim owned_cong) auto
  qed
  moreover have "ranges_ok U h as (rg(r := None))"
    using c unfolding core_def ranges_ok_def by auto
  moreover have "queue_ok U (rg(r := None)) q"
  proof -
    have "map (act_time (rg(r := None))) q = map (act_time rg) q" using q by (auto simp: act_time_def)
    with c q show ?thesis unfolding core_def queue_ok_def by (simp only:) auto
  qed
  ultimately show ?thesis using c unfolding core_def by auto
qed

lemma core_new:
  assumes c: "core N U h root as rg q len nxt" and r: "nxt \<le> r" "r < nxt'" and g: "active g" "0 \<le> counter g"
  shows "core N (insert r U) h root as (rg(r \<mapsto> g)) q len nxt'" "\<not> held h as r" "r \<notin> set q"
proof -
  have f: "rg r = None" using core_fresh(2) [OF c r(1)] .
  have h: "\<not> held h as r"
  proof
    assume "held h as r"
    then obtain a where a: "a \<in> set as" "node_data h a = Some r" by (auto simp: held_def)
    then have "a \<notin> N" using c by (auto simp: core_def)
    with a c have "owned h rg a" by (simp add: core_def)
    with a(2) f show False by (auto simp: owned_def)
  qed
  then show "\<not> held h as r" .
  show nq: "r \<notin> set q" using c f by (auto simp: core_def queue_ok_def)
  have "owned h (rg(r \<mapsto> g)) a" if a: "a \<in> set as - N" for a
  proof -
    have "owned h rg a" using c a by (simp add: core_def)
    then show ?thesis using f by (elim owned_cong) auto
  qed
  moreover have "ranges_ok (insert r U) h as (rg(r \<mapsto> g))"
    using c g unfolding core_def ranges_ok_def by (auto simp: active_def)
  moreover have "queue_ok (insert r U) (rg(r \<mapsto> g)) q"
  proof -
    have "map (act_time (rg(r \<mapsto> g))) q = map (act_time rg) q" using nq by (auto simp: act_time_def)
    with c show ?thesis unfolding core_def queue_ok_def by (simp only:) auto
  qed
  moreover have "\<forall>a\<in>dom h \<union> dom (rg(r \<mapsto> g)). a < nxt'"
  proof -
    have "\<forall>a\<in>dom h \<union> dom rg. a < nxt" using c by (simp add: core_def)
    then have "\<forall>a\<in>dom h \<union> dom rg. a < nxt'" using r by (meson le_less_trans less_trans)
    moreover have "dom (rg(r \<mapsto> g)) = insert r (dom rg)" by auto
    ultimately show ?thesis using r(2) by auto
  qed
  ultimately show "core N (insert r U) h root as (rg(r \<mapsto> g)) q len nxt'"
    using c by (simp add: core_def)
qed

text \<open>An interval that is taken away from its range, before the range moves.\<close>

lemma core_disown:
  assumes c: "core {} U h root as rg q len nxt" and n: "h node = Some n" "node \<in> set as" "data n = Some r"
  shows "core {node} (insert r U) (h(node \<mapsto> n\<lparr>data := None\<rparr>)) root as rg q len nxt"
    "\<not> held (h(node \<mapsto> n\<lparr>data := None\<rparr>)) as r"
proof -
  let ?h = "h(node \<mapsto> n\<lparr>data := None\<rparr>)"
  have nd: "node_data ?h a = (if a = node then None else node_data h a)" for a by (simp add: node_data_def)
  have r: "node_data h node = Some r" using n by (simp add: node_data_def)
  show nh: "\<not> held ?h as r"
    using held_unique [OF c _ n(2) _ r] by (auto simp: held_def nd)
  have "tree_ok ?h root as len"
    using c n(1) set_data [OF core_tree(1) [OF c] n(1), of None] by (auto simp: core_def tree_ok_def in_pool_def)
  moreover have "owned ?h rg a" if "a \<in> set as - {node}" for a
    using c that by (auto simp: core_def owned_def nd)
  moreover have "ranges_ok (insert r U) ?h as rg"
    unfolding ranges_ok_def
  proof (intro allI impI)
    fix x g assume x: "rg x = Some g"
    have "held ?h as x" if "x \<noteq> r" "held h as x"
    proof -
      from that(2) obtain a where a: "a \<in> set as" "node_data h a = Some x" by (auto simp: held_def)
      with that(1) r have "a \<noteq> node" by auto
      with a show ?thesis unfolding held_def nd by auto
    qed
    then show "state g \<noteq> MAAP_STATE_INVALID \<and> 0 \<le> counter g \<and> (x \<notin> insert r U \<longrightarrow> active g \<longrightarrow> held ?h as x)"
      using c x by (auto simp: core_def ranges_ok_def)
  qed
  moreover have "queue_ok (insert r U) rg q" using c by (auto simp: core_def queue_ok_def)
  moreover have "dom ?h = dom h" using n(1) by auto
  ultimately show "core {node} (insert r U) ?h root as rg q len nxt"
    using c n(2) unfolding core_def by (simp add: nd)
qed


section \<open>Sending and informing\<close>

lemma env_frame:
  assumes "env s" and "mc_timer s' \<noteq> None" and "net_ok (mc_net s') (next_addr s')" and "dest_mac s' = dest_mac s" and "src_mac s' = src_mac s"
    and "oom s' = oom s" and "clock s' = clock s" and "address_base s' = address_base s" and "range_len s' = range_len s"
  shows "env s'"
  using assms by (simp add: env_def)

lemma env_no_oom: "env s \<Longrightarrow> \<not> oom s a"
  by (simp add: env_def)

lemma env_net: "env s \<Longrightarrow> next_addr s \<le> k \<Longrightarrow> net_ok (mc_net s) k"
  by (auto simp: env_def intro: net_ok_mono)

lemma env_timer: "env s \<Longrightarrow> \<exists>tm. mc_timer s = Some tm"
  by (auto simp: env_def)

text \<open>A state that differs in fields the environment condition does not read.\<close>

lemma env_notes: "env s \<Longrightarrow> next_addr s \<le> k \<Longrightarrow> env (s\<lparr>next_addr := k, notifies := ns\<rparr>)"
  using env_net [of s k] by (simp add: env_def)

lemma env_addr: "env s \<Longrightarrow> next_addr s \<le> k \<Longrightarrow> env (s\<lparr>next_addr := k\<rparr>)"
  using env_net [of s k] by (simp add: env_def)

lemma env_net_upd: "env s \<Longrightarrow> net_ok (Some n) k \<Longrightarrow> env (s\<lparr>mc_net := Some n, next_addr := k\<rparr>)"
  by (simp add: env_def)

definition claim_packet :: "maap_client \<Rightarrow> u8 \<Rightarrow> interval \<Rightarrow> maap_packet" where
  "claim_packet s mt iv = (the (init_packet (dest_mac s) (src_mac s)))\<lparr>message_type := mt,
     requested_start_address := address_base s + ucast (low iv), requested_count := ucast (high iv - low iv + 1)\<rparr>"

text \<open>\<open>sent s s' p\<close>: the only effect is that the packet \<open>p\<close> is queued.\<close>

definition sent :: "maap_client \<Rightarrow> maap_client \<Rightarrow> maap_packet \<Rightarrow> bool" where
  "sent s s' p \<longleftrightarrow> (\<exists>n n' k pad. mc_net s = Some n \<and> s' = s\<lparr>mc_net := Some n', next_addr := k\<rparr> \<and>
    next_addr s \<le> k \<and> net_ok (Some n') k \<and> length pad = 22 \<and>
    packets BUFFER_QUEUED n' = add_mset (maap_bytes p @ pad) (packets BUFFER_QUEUED n))"

lemma send_packet_sent: "env s \<Longrightarrow> \<exists>s'. send_packet s p = Some (0, s') \<and> sent s s' p"
  using send_packet_ok [of s p] unfolding sent_def by blast

lemma init_packet_ok: "env s \<Longrightarrow> \<exists>p. init_packet (dest_mac s) (src_mac s) = Some p"
  by (simp add: env_def init_packet_def)

lemma sent_core:
  assumes "sent s s' p" and "env s" and "client_core N U s as"
  shows "client_core N U s' as" "env s'" "rh s' = rh s" "ih s' = ih s" "ranges s' = ranges s" "timer_queue s' = timer_queue s"
    "initialized s' = initialized s" "notifies s' = notifies s" "maxid s' = maxid s"
  using assms by (auto simp: sent_def intro: core_mono env_net_upd)

lemma sent_env: "sent s s' p \<Longrightarrow> env s \<Longrightarrow> env s'"
  by (auto simp: sent_def intro: env_net_upd)

lemma send_probe_ok:
  assumes "env s" and "interval_of s r = Some iv"
  shows "\<exists>s'. send_probe s r = Some (0, s') \<and> sent s s' (claim_packet s MAAP_PROBE iv)"
proof -
  obtain p where "init_packet (dest_mac s) (src_mac s) = Some p" using init_packet_ok [OF assms(1)] by blast
  then have "send_probe s r = send_packet s (claim_packet s MAAP_PROBE iv)"
    using assms(2) by (simp add: send_probe_def get_start_address_def get_count_def claim_packet_def)
  then show ?thesis using send_packet_sent [OF assms(1)] by simp
qed

lemma send_announce_ok:
  assumes "env s" and "interval_of s r = Some iv"
  shows "\<exists>s'. send_announce s r = Some (0, s') \<and> sent s s' (claim_packet s MAAP_ANNOUNCE iv)"
proof -
  obtain p where "init_packet (dest_mac s) (src_mac s) = Some p" using init_packet_ok [OF assms(1)] by blast
  then have "send_announce s r = send_packet s (claim_packet s MAAP_ANNOUNCE iv)"
    using assms(2) by (simp add: send_announce_def get_start_address_def get_count_def claim_packet_def)
  then show ?thesis using send_packet_sent [OF assms(1)] by simp
qed

definition defend_packet :: "maap_client \<Rightarrow> interval \<Rightarrow> u64 \<Rightarrow> u16 \<Rightarrow> u64 \<Rightarrow> maap_packet" where
  "defend_packet s iv start cnt destination = (the (init_packet (dest_mac s) (src_mac s)))\<lparr>DA := destination,
     message_type := MAAP_DEFEND, requested_start_address := start, requested_count := cnt,
     conflict_start_address := max (address_base s + ucast (low iv)) start,
     conflict_count := ucast (min (address_base s + ucast (high iv)) (start + ucast cnt - 1) -
       max (address_base s + ucast (low iv)) start + 1)\<rparr>"

lemma send_defend_ok:
  assumes "env s" and "interval_of s r = Some iv"
  shows "\<exists>s'. send_defend s r start cnt destination = Some (0, s') \<and> sent s s' (defend_packet s iv start cnt destination)"
proof -
  obtain p where "init_packet (dest_mac s) (src_mac s) = Some p" using init_packet_ok [OF assms(1)] by blast
  moreover have "(if a < start then start else a) = max a start" "(if b < a then b else a) = min a b" for a b :: u64
    by (auto simp: max_def min_def)
  ultimately have "send_defend s r start cnt destination = send_packet s (defend_packet s iv start cnt destination)"
    using assms(2)
    by (simp add: send_defend_def get_start_address_def get_end_address_def defend_packet_def Let_def)
  then show ?thesis using send_packet_sent [OF assms(1)] by simp
qed

text \<open>\<open>noted s sd mn\<close>: the state after a notification was queued.\<close>

definition noted :: "maap_client \<Rightarrow> sender \<Rightarrow> maap_notify \<Rightarrow> maap_client" where
  "noted s sd mn = s\<lparr>next_addr := Suc (next_addr s), notifies := notifies s @ [(mn, sd)]\<rparr>"

lemma add_notify_noted: "env s \<Longrightarrow> add_notify s sd mn = Some (noted s sd mn)"
  by (simp add: add_notify_ok env_no_oom noted_def)

lemma noted_simps [simp]:
  "rh (noted s sd mn) = rh s" "ih (noted s sd mn) = ih s" "ranges (noted s sd mn) = ranges s"
  "timer_queue (noted s sd mn) = timer_queue s" "range_len (noted s sd mn) = range_len s"
  "address_base (noted s sd mn) = address_base s" "initialized (noted s sd mn) = initialized s"
  "next_addr (noted s sd mn) = Suc (next_addr s)" "notifies (noted s sd mn) = notifies s @ [(mn, sd)]"
  "src_mac (noted s sd mn) = src_mac s" "dest_mac (noted s sd mn) = dest_mac s" "mc_timer (noted s sd mn) = mc_timer s"
  "mc_net (noted s sd mn) = mc_net s" "maxid (noted s sd mn) = maxid s" "clock (noted s sd mn) = clock s"
  "clock_pos (noted s sd mn) = clock_pos s" "rnd (noted s sd mn) = rnd s" "rnd_pos (noted s sd mn) = rnd_pos s"
  by (simp_all add: noted_def)

lemma noted_env: "env s \<Longrightarrow> env (noted s sd mn)"
  unfolding noted_def by (rule env_notes) auto

lemma noted_core: "client_core N U s as \<Longrightarrow> client_core N U (noted s sd mn) as"
  by simp (rule core_mono, auto)

definition range_note :: "maap_client \<Rightarrow> notify_tag \<Rightarrow> int \<Rightarrow> interval \<Rightarrow> notify_error \<Rightarrow> maap_notify" where
  "range_note s k i iv res = \<lparr>kind = k, note_id = i, note_start = address_base s + ucast (low iv),
     note_count = high iv - low iv + 1, note_result = res\<rparr>"

definition null_note :: "notify_tag \<Rightarrow> int \<Rightarrow> u32 \<Rightarrow> notify_error \<Rightarrow> maap_notify" where
  "null_note k i c res = \<lparr>kind = k, note_id = i, note_start = 0, note_count = c, note_result = res\<rparr>"

lemma inform_ok:
  assumes "env s"
  shows "inform_not_acquired s sd i c res = Some (noted s sd (null_note MAAP_NOTIFY_ACQUIRED i c res))"
    "inform_released s sd i None res = Some (noted s sd (null_note MAAP_NOTIFY_RELEASED i 0 res))"
    "inform_status s sd i None res = Some (noted s sd (null_note MAAP_NOTIFY_STATUS i 0 res))"
    "inform_yielded s sd i None res = Some (noted s sd (null_note MAAP_NOTIFY_YIELDED i 0 res))"
  using assms by (simp_all add: inform_not_acquired_def inform_released_def inform_status_def inform_yielded_def
      note_range_def add_notify_noted null_note_def)

lemma inform_range_ok:
  assumes "env s" and "interval_of s r = Some iv"
  shows "inform_released s sd i (Some r) res = Some (noted s sd (range_note s MAAP_NOTIFY_RELEASED i iv res))"
    "inform_status s sd i (Some r) res = Some (noted s sd (range_note s MAAP_NOTIFY_STATUS i iv res))"
    "inform_yielded s sd i (Some r) res = Some (noted s sd (range_note s MAAP_NOTIFY_YIELDED i iv res))"
    "rh s r = Some g \<Longrightarrow> inform_acquiring s r =
       Some (noted s (r_sender g) (range_note s MAAP_NOTIFY_ACQUIRING (range_id g) iv MAAP_NOTIFY_ERROR_NONE))"
    "rh s r = Some g \<Longrightarrow> inform_acquired s r res =
       Some (noted s (r_sender g) (range_note s MAAP_NOTIFY_ACQUIRED (range_id g) iv res))"
  using assms by (simp_all add: inform_released_def inform_status_def inform_yielded_def inform_acquiring_def
      inform_acquired_def note_range_def get_start_address_def get_count_def add_notify_noted range_note_def)

lemma start_timer_ok:
  assumes "env s" and "client_core N U s as"
  shows "\<exists>tm. start_timer s = Some (s\<lparr>mc_timer := Some tm\<rparr>) \<and> env (s\<lparr>mc_timer := Some tm\<rparr>)"
proof -
  obtain tm where tm: "mc_timer s = Some tm" using env_timer [OF assms(1)] by blast
  have e: "env (s\<lparr>mc_timer := Some tm'\<rparr>)" for tm'
    using assms(1) by (simp add: env_def)
  show ?thesis
  proof (cases "timer_queue s")
    case Nil
    have "s = s\<lparr>mc_timer := Some tm\<rparr>" using tm by simp
    with Nil e show ?thesis by (auto simp: start_timer_def)
  next
    case (Cons r q)
    then have "r \<in> dom (rh s)" using assms(2) by (auto simp: core_def queue_ok_def)
    with Cons tm e show ?thesis by (auto simp: start_timer_def)
  qed
qed


section \<open>Ranges and their intervals\<close>

lemma held_interval:
  assumes c: "client_core N U s as" and h: "held (ih s) as r"
  obtains a n g where "a \<in> set as" "ih s a = Some n" "data n = Some r" "rh s r = Some g" "r_interval g = Some a" "active g"
    "interval_of s r = Some n" "in_pool (range_len s) n" "low n \<le> high n"
proof -
  from h obtain a where a: "a \<in> set as" "node_data (ih s) a = Some r" by (auto simp: held_def)
  then have "a \<notin> N" using c by (auto simp: core_def)
  with a c have "owned (ih s) (rh s) a" by (simp add: core_def)
  with a(2) obtain g where g: "rh s r = Some g" "r_interval g = Some a" "active g" by (auto simp: owned_def)
  obtain n where n: "ih s a = Some n" using irep_live [OF core_tree(1) [OF c] a(1)] by blast
  have "proper (entry_of n)"
    using disjoint_sorted_proper [OF core_tree(2) [OF c], of "entry_of n"] a(1) n by (force simp: entries_def)
  then have p: "low n \<le> high n" by (simp add: entry_of_def)
  have pool: "in_pool (range_len s) n" using c a(1) n by (force simp: core_def tree_ok_def)
  have "data n = Some r" using a(2) n by (simp add: node_data_def)
  with a(1) n g p pool show ?thesis by (intro that [of a n g]) (simp_all add: interval_of_def)
qed

lemma size_ok:
  assumes "in_pool len n" and "low n \<le> high n"
  shows "0 < (ucast (high n - low n + 1) :: u16)" "ucast (ucast (high n - low n + 1) :: u16) = high n - low n + 1"
    "high n - low n + 1 \<le> len"
proof -
  let ?d = "high n - low n"
  have d: "unat ?d < 65535" using assms(1) by (simp add: in_pool_def)
  then have s: "unat (?d + 1) = unat ?d + 1" by (simp add: unat_plus_if')
  then have u: "unat (ucast (?d + 1) :: u16) = unat ?d + 1" using d by (simp add: unsigned_ucast_eq take_bit_nat_eq_self_iff)
  then show "0 < (ucast (?d + 1) :: u16)" by (metis add_is_0 one_neq_zero unat_0 word_neq_0_conv)
  show "ucast (ucast (?d + 1) :: u16) = ?d + 1" by (simp add: word_unat_eq_iff unat_u16 u s)
  have "unat ?d = unat (high n) - unat (low n)" using assms(2) by (simp add: unat_sub)
  moreover have "unat (high n) < unat len" using assms(1) by (simp add: in_pool_def word_less_nat_alt)
  ultimately have "unat ?d + 1 \<le> unat len" by linarith
  then show "?d + 1 \<le> len" unfolding word_le_nat_alt s .
qed

definition queued :: "maap_client \<Rightarrow> u8 list multiset" where
  "queued s = (case mc_net s of None \<Rightarrow> {#} | Some n \<Rightarrow> packets BUFFER_QUEUED n)"

text \<open>\<open>queues s s' p\<close>: between the two states exactly the packet \<open>p\<close> was queued, padded to 64 bytes.\<close>

definition queues :: "maap_client \<Rightarrow> maap_client \<Rightarrow> maap_packet \<Rightarrow> bool" where
  "queues s s' p \<longleftrightarrow> (\<exists>pad. length pad = 22 \<and> queued s' = add_mset (maap_bytes p @ pad) (queued s))"

lemma sent_queues: "sent s s' p \<Longrightarrow> queues s s' p"
  by (auto simp: sent_def queues_def queued_def)

definition maap_inv :: "maap_client \<Rightarrow> addr list \<Rightarrow> bool" where
  "maap_inv s as \<longleftrightarrow> client_core {} {} s as \<and> env s \<and> initialized s \<and> flags (rh s) = {}"

lemma usable_core:
  assumes "client_core N U s as" and "env s" and "0 < len" and "ucast len \<le> range_len s"
  shows "usable s as len"
  using assms core_fresh(1) [OF assms(1)] by (simp add: usable_def core_def env_def)

lemma assigned_frame:
  assumes "assigned s as r len start a s' as'"
  shows "timer_queue s' = timer_queue s" "initialized s' = initialized s" "notifies s' = notifies s" "maxid s' = maxid s"
    "mc_net s' = mc_net s" "address_base s' = address_base s" "range_len s' = range_len s" "dest_mac s' = dest_mac s"
    "src_mac s' = src_mac s" "clock s' = clock s" "clock_pos s' = clock_pos s" "rnd s' = rnd s" "next_addr s \<le> next_addr s'"
    "mc_timer s' = mc_timer s" "oom s' = oom s"
  using assms by (auto simp: assigned_def)

lemma assigned_env:
  assumes "assigned s as r len start a s' as'" and "env s"
  shows "env s'"
  using env_net [OF assms(2) assigned_frame(13) [OF assms(1)]] env_timer [OF assms(2)]
  by (intro env_frame [OF assms(2)]) (auto simp: assigned_frame [OF assms(1)])

lemma assigned_range: "assigned s as r len start a s' as' \<Longrightarrow> rh s r = Some g \<Longrightarrow>
    rh s' = (rh s)(r \<mapsto> g\<lparr>r_interval := Some a\<rparr>)"
  by (auto simp: assigned_def)

lemma assigned_entries:
  assumes "assigned s as r len start a s' as'"
  shows "set (entries (ih s') as') = insert (start, start + ucast len - 1, Some r) (set (entries (ih s) as))"
proof -
  from assms have i: "inserted (ih s) as a (start, start + ucast len - 1, Some r) (ih s') (ranges s') as'"
    by (auto simp: assigned_def)
  then obtain us vs where "as = us @ vs" "as' = us @ a # vs" "entry_of (the (ih s' a)) = (start, start + ucast len - 1, Some r)"
    "\<forall>b\<in>set as. entry_of (the (ih s' b)) = entry_of (the (ih s b))" by (auto simp: inserted_def)
  then show ?thesis by (auto simp: entries_def image_iff)
qed

lemma assigned_interval:
  assumes a: "assigned s as r len start a s' as'" and c: "client_core N U s' as'" "node_data (ih s') a = Some r" "a \<in> set as'"
  obtains n where "interval_of s' r = Some n" "low n = start" "high n = start + ucast len - 1" "ih s' a = Some n"
proof -
  have "held (ih s') as' r" using c by (auto simp: held_def)
  from held_interval [OF c(1) this] obtain b n g where b: "b \<in> set as'" "ih s' b = Some n" "data n = Some r"
    "interval_of s' r = Some n" by metis
  have "b = a" using held_unique [OF c(1) b(1) c(3) _ c(2)] b(2,3) by (simp add: node_data_def)
  moreover have "entry_of (the (ih s' a)) = (start, start + ucast len - 1, Some r)"
    using a by (auto simp: assigned_def inserted_def)
  ultimately show ?thesis using b that by (auto simp: entry_of_def)
qed


section \<open>Reserving\<close>

lemma late_success_cong:
  assumes "rnd s' = rnd s" "rnd_pos s' = rnd_pos s" "range_len s' = range_len s" "ih s' = ih s" "ranges s' = ranges s"
  shows "late_success s' len = late_success s len"
  using assms by (simp add: late_success_def pick_def blocked_def)

text \<open>The state in which a new range exists but has no interval yet.\<close>

definition fresh_range :: "maap_client \<Rightarrow> int \<Rightarrow> sender \<Rightarrow> range" where
  "fresh_range s i sd = \<lparr>range_id = i, state = MAAP_STATE_PROBING, counter = MAAP_PROBE_RETRANSMITS,
     overlapping = False, next_act_time = clock s (clock_pos s), r_interval = None, r_sender = sd\<rparr>"

definition with_new :: "maap_client \<Rightarrow> int \<Rightarrow> sender \<Rightarrow> maap_client" where
  "with_new s i sd = s\<lparr>next_addr := Suc (next_addr s), clock_pos := Suc (clock_pos s),
     rh := (rh s)(next_addr s \<mapsto> fresh_range s i sd)\<rparr>"

lemma with_new_simps [simp]:
  "rh (with_new s i sd) = (rh s)(next_addr s \<mapsto> fresh_range s i sd)" "ih (with_new s i sd) = ih s"
  "ranges (with_new s i sd) = ranges s" "timer_queue (with_new s i sd) = timer_queue s" "range_len (with_new s i sd) = range_len s"
  "address_base (with_new s i sd) = address_base s" "initialized (with_new s i sd) = initialized s"
  "next_addr (with_new s i sd) = Suc (next_addr s)" "notifies (with_new s i sd) = notifies s"
  "src_mac (with_new s i sd) = src_mac s" "dest_mac (with_new s i sd) = dest_mac s" "mc_timer (with_new s i sd) = mc_timer s"
  "mc_net (with_new s i sd) = mc_net s" "maxid (with_new s i sd) = maxid s" "clock (with_new s i sd) = clock s"
  "clock_pos (with_new s i sd) = Suc (clock_pos s)" "rnd (with_new s i sd) = rnd s" "rnd_pos (with_new s i sd) = rnd_pos s"
  by (simp_all add: with_new_def)

lemma active_fresh [simp]: "active (fresh_range s i sd)" "0 \<le> counter (fresh_range s i sd)" "overlapping (fresh_range s i sd) = False"
  "range_id (fresh_range s i sd) = i" "r_sender (fresh_range s i sd) = sd" "state (fresh_range s i sd) = MAAP_STATE_PROBING"
  "counter (fresh_range s i sd) = MAAP_PROBE_RETRANSMITS"
  by (simp_all add: active_def fresh_range_def MAAP_PROBE_RETRANSMITS_def)

lemma with_new_env: "env s \<Longrightarrow> env (with_new s i sd)"
  using env_net [of s "Suc (next_addr s)"] by (simp add: env_def with_new_def)

lemma with_new_core:
  assumes "client_core {} {} s as"
  shows "client_core {} {next_addr s} (with_new s i sd) as" "\<not> held (ih s) as (next_addr s)" "next_addr s \<notin> set (timer_queue s)"
  using core_new [OF assms order.refl lessI, of "fresh_range s i sd"] by (simp_all add: MAAP_PROBE_RETRANSMITS_def)

text \<open>A new range that found an interval is announced, scheduled and probed for.\<close>

lemma flags_fresh: "flags rg = F \<Longrightarrow> rg r = None \<Longrightarrow> \<not> overlapping g \<Longrightarrow> flags (rg(r \<mapsto> g)) = F"
  by (auto simp: flags_upd flags_def)

definition reserved :: "maap_client \<Rightarrow> addr list \<Rightarrow> sender \<Rightarrow> int \<Rightarrow> u32 \<Rightarrow> u32 \<Rightarrow> maap_client \<Rightarrow> addr list \<Rightarrow> bool" where
  "reserved s as sd i start len s' as' \<longleftrightarrow> (\<exists>iv r g. rh s r = None \<and> rh s' r = Some g \<and> range_id g = i \<and> r_sender g = sd \<and>
     state g = MAAP_STATE_PROBING \<and> counter g = MAAP_PROBE_RETRANSMITS \<and> low iv = start \<and> high iv = start + len - 1 \<and>
     set (entries (ih s') as') = insert (low iv, high iv, Some r) (set (entries (ih s) as)) \<and>
     notifies s' = notifies s @ [(range_note s MAAP_NOTIFY_ACQUIRING i iv MAAP_NOTIFY_ERROR_NONE, sd)] \<and>
     queues s s' (claim_packet s MAAP_PROBE iv)) \<and>
     rh s \<subseteq>\<^sub>m rh s' \<and> length (timer_queue s') = Suc (length (timer_queue s)) \<and> maxid s' = i \<and> address_base s' = address_base s \<and>
     range_len s' = range_len s \<and> rnd s' = rnd s"

lemma new_assign:
  assumes c: "client_core {} {} s as" and e: "env s" and len: "0 < len" "ucast len \<le> range_len s"
    and att: "unat att + unat len \<le> 2 ^ 64" and late: "\<not> late_success s len"
  obtains (fail) n p where "chosen s as att len = None" "assign_interval (with_new s i sd) (next_addr s) att len =
      Some (-1, (with_new s i sd)\<lparr>next_addr := n, rnd_pos := p\<rparr>)" "next_addr s < n"
    "env ((with_new s i sd)\<lparr>next_addr := n, rnd_pos := p\<rparr>)"
    "client_core {} {next_addr s} ((with_new s i sd)\<lparr>next_addr := n, rnd_pos := p\<rparr>) as"
  | (ok) s' as' n g where "chosen s as att len = Some (low n)" "assign_interval (with_new s i sd) (next_addr s) att len = Some (0, s')"
    "client_core {} {next_addr s} s' as'" "env s'" "held (ih s') as' (next_addr s)"
    "interval_of s' (next_addr s) = Some n" "high n = low n + ucast len - 1"
    "rh s' = (rh s)(next_addr s \<mapsto> g)" "active g" "\<not> overlapping g" "range_id g = i" "r_sender g = sd"
    "counter g = MAAP_PROBE_RETRANSMITS" "state g = MAAP_STATE_PROBING"
    "set (entries (ih s') as') = insert (low n, high n, Some (next_addr s)) (set (entries (ih s) as))"
    "timer_queue s' = timer_queue s" "initialized s' = initialized s" "notifies s' = notifies s"
    "mc_net s' = mc_net s" "address_base s' = address_base s" "dest_mac s' = dest_mac s" "src_mac s' = src_mac s"
    "range_len s' = range_len s" "rnd s' = rnd s" "maxid s' = maxid s"
proof -
  let ?s = "with_new s i sd" and ?r = "next_addr s"
  note new = with_new_core(1) [OF c, of i sd] with_new_core(2,3) [OF c]
  have e1: "env ?s" using with_new_env [OF e] .
  have r: "rh ?s ?r = Some (fresh_range s i sd)" by simp
  have out: "assign_outcome ?s as ?r len (chosen ?s as att len) (assign_interval ?s ?r att len)"
  proof (rule assign_interval_ok)
    show "usable ?s as len" using usable_core [OF new(1) e1] len by simp
    show "unat (address_base ?s) + unat (range_len ?s) \<le> 2 ^ 64" using e by (simp add: env_def)
    show "\<not> late_success ?s len" using late late_success_cong [of ?s s] by simp
  qed (use att r in simp_all)
  have ch: "chosen ?s as att len = chosen s as att len" by (rule chosen_cong) (simp_all add: with_new_def)
  from out show ?thesis
  proof (cases rule: assign_outcomeE)
    case 1: (fail n p)
    have "env (?s\<lparr>next_addr := n, rnd_pos := p\<rparr>)"
      using env_addr [OF e1 1(3)] by (simp add: env_def)
    moreover have "client_core {} {?r} (?s\<lparr>next_addr := n, rnd_pos := p\<rparr>) as"
      using core_mono [OF new(1) 1(3)] by simp
    ultimately show ?thesis using 1 ch by (intro fail) simp_all
  next
    case 2: (ok start a s' as')
    have nh: "\<not> held (ih ?s) as ?r" using new(2) by simp
    note ca = core_assigned [OF new(1) 2(3) r active_fresh(1) nh]
    obtain n where n: "interval_of s' ?r = Some n" "low n = start" "high n = start + ucast len - 1"
      using assigned_interval [OF 2(3) ca] by metis
    have "held (ih s') as' ?r" using ca(2,3) by (auto simp: held_def)
    moreover have "rh s' = (rh s)(?r \<mapsto> (fresh_range s i sd)\<lparr>r_interval := Some a\<rparr>)"
      using assigned_range [OF 2(3) r] by simp
    moreover have "high n = low n + ucast len - 1" using n by simp
    ultimately show ?thesis
      using 2(1,2) ch ca(1) assigned_env [OF 2(3) e1] n assigned_entries [OF 2(3)]
      by (intro ok [where s' = s' and as' = as' and g = "(fresh_range s i sd)\<lparr>r_interval := Some a\<rparr>" and n = n])
        (simp_all add: assigned_frame [OF 2(3)] active_def)
  qed
qed

lemma rescheduled_simps [simp]:
  "rh (rescheduled s r g t q) = (rh s)(r \<mapsto> g\<lparr>next_act_time := t\<rparr>)" "ih (rescheduled s r g t q) = ih s"
  "ranges (rescheduled s r g t q) = ranges s" "timer_queue (rescheduled s r g t q) = q"
  "range_len (rescheduled s r g t q) = range_len s" "address_base (rescheduled s r g t q) = address_base s"
  "initialized (rescheduled s r g t q) = initialized s" "next_addr (rescheduled s r g t q) = next_addr s"
  "notifies (rescheduled s r g t q) = notifies s" "src_mac (rescheduled s r g t q) = src_mac s"
  "dest_mac (rescheduled s r g t q) = dest_mac s" "mc_timer (rescheduled s r g t q) = mc_timer s"
  "mc_net (rescheduled s r g t q) = mc_net s" "maxid (rescheduled s r g t q) = maxid s" "clock (rescheduled s r g t q) = clock s"
  "clock_pos (rescheduled s r g t q) = Suc (clock_pos s)"
  by (simp_all add: rescheduled_def)

lemma rescheduled_env: "env s \<Longrightarrow> env (rescheduled s r g t q)"
  by (simp add: env_def rescheduled_def)

lemma interval_of_cong:
  "rh s' r = Some g' \<Longrightarrow> rh s r = Some g \<Longrightarrow> r_interval g' = r_interval g \<Longrightarrow> ih s' = ih s \<Longrightarrow> interval_of s' r = interval_of s r"
  by (simp add: interval_of_def)

lemma claim_packet_cong: "dest_mac s' = dest_mac s \<Longrightarrow> src_mac s' = src_mac s \<Longrightarrow> address_base s' = address_base s \<Longrightarrow>
    claim_packet s' mt iv = claim_packet s mt iv"
  by (simp add: claim_packet_def)

lemma range_note_cong: "address_base s' = address_base s \<Longrightarrow> range_note s' k i iv res = range_note s k i iv res"
  by (simp add: range_note_def)

lemma sent_frame:
  assumes "sent s s' p"
  shows "rh s' = rh s" "ih s' = ih s" "ranges s' = ranges s" "timer_queue s' = timer_queue s" "range_len s' = range_len s"
    "initialized s' = initialized s" "notifies s' = notifies s" "address_base s' = address_base s" "next_addr s \<le> next_addr s'"
    "src_mac s' = src_mac s" "dest_mac s' = dest_mac s" "clock s' = clock s" "clock_pos s' = clock_pos s" "maxid s' = maxid s"
  using assms by (auto simp: sent_def)

lemma queues_cong: "mc_net s1 = mc_net s \<Longrightarrow> queues s1 s' p \<Longrightarrow> queues s s' p"
  by (simp add: queues_def queued_def)

text \<open>Scheduling a held range and sending a packet about it.\<close>

lemma schedule_and_send:
  assumes c: "client_core N (insert r U) s as" and e: "env s" and h: "held (ih s) as r" and g: "rh s r = Some g" "active g"
    and n: "interval_of s r = Some n" and room: "length (remove1 r (timer_queue s)) < 100000"
  obtains t q where "schedule_timer s r = Some (rescheduled s r g t q)" "client_core N U (rescheduled s r g t q) as"
    "env (rescheduled s r g t q)" "interval_of (rescheduled s r g t q) r = Some n"
    "delay_ok (state g) (clock s (clock_pos s)) t" "set q = insert r (set (timer_queue s))"
    "length q = Suc (length (remove1 r (timer_queue s)))"
proof -
  from schedule_timer_ok [OF c e g h room] obtain t q where t: "schedule_timer s r = Some (rescheduled s r g t q)"
    "client_core N U (rescheduled s r g t q) as" "delay_ok (state g) (clock s (clock_pos s)) t"
    "set q = insert r (set (timer_queue s))" "length q = Suc (length (remove1 r (timer_queue s)))" by blast
  moreover have "interval_of (rescheduled s r g t q) r = Some n" using n g by (simp add: interval_of_def)
  ultimately show ?thesis using rescheduled_env [OF e] that by blast
qed


lemma env_mc_timer: "env s \<Longrightarrow> env (s\<lparr>mc_timer := Some tm\<rparr>)"
  by (simp add: env_def)

lemma reserve_step:
  assumes c: "client_core {} {r} s as" and e: "env s" and ini: "initialized s" and h: "held (ih s) as r"
    and g: "rh s r = Some g" "active g" and n: "interval_of s r = Some n" and nq: "r \<notin> set (timer_queue s)"
    and room: "length (timer_queue s) < 100000"
  obtains s' t where "do { s \<leftarrow> inform_acquiring s r; s \<leftarrow> schedule_timer s r; s \<leftarrow> start_timer s; (_, s) \<leftarrow> send_probe s r; Some (i, s) } =
      Some (i, s')" "client_core {} {} s' as" "env s'" "initialized s'" "rh s' = (rh s)(r \<mapsto> g\<lparr>next_act_time := t\<rparr>)"
    "ih s' = ih s" "notifies s' = notifies s @ [(range_note s MAAP_NOTIFY_ACQUIRING (range_id g) n MAAP_NOTIFY_ERROR_NONE, r_sender g)]"
    "queues s s' (claim_packet s MAAP_PROBE n)" "length (timer_queue s') = Suc (length (timer_queue s))" "maxid s' = maxid s"
    "address_base s' = address_base s" "range_len s' = range_len s" "rnd s' = rnd s"
proof -
  let ?s1 = "noted s (r_sender g) (range_note s MAAP_NOTIFY_ACQUIRING (range_id g) n MAAP_NOTIFY_ERROR_NONE)"
  have n1: "interval_of ?s1 r = Some n" using n by (simp add: interval_of_def)
  have c1: "client_core {} (insert r {}) ?s1 as" using noted_core [OF c] by simp
  have l1: "length (remove1 r (timer_queue ?s1)) < 100000" using room nq by (simp add: remove1_idem)
  have h1: "held (ih ?s1) as r" "rh ?s1 r = Some g" using h g(1) by simp_all
  obtain t q where q: "schedule_timer ?s1 r = Some (rescheduled ?s1 r g t q)" "client_core {} {} (rescheduled ?s1 r g t q) as"
    "env (rescheduled ?s1 r g t q)" "interval_of (rescheduled ?s1 r g t q) r = Some n"
    "length q = Suc (length (remove1 r (timer_queue ?s1)))"
    by (rule schedule_and_send [OF c1 noted_env [OF e] h1 g(2) n1 l1]) blast
  let ?s2 = "rescheduled ?s1 r g t q"
  obtain tm where tm: "start_timer ?s2 = Some (?s2\<lparr>mc_timer := Some tm\<rparr>)" "env (?s2\<lparr>mc_timer := Some tm\<rparr>)"
    using start_timer_ok [OF q(3,2)] by blast
  let ?s3 = "?s2\<lparr>mc_timer := Some tm\<rparr>"
  have "interval_of ?s3 r = Some n" using q(4) by (simp add: interval_of_def)
  then obtain s' where s': "send_probe ?s3 r = Some (0, s')" "sent ?s3 s' (claim_packet ?s3 MAAP_PROBE n)"
    using send_probe_ok [OF tm(2)] by blast
  have c3: "client_core {} {} ?s3 as" using q(2) by simp
  have cp: "claim_packet ?s3 MAAP_PROBE n = claim_packet s MAAP_PROBE n" by (rule claim_packet_cong) simp_all
  have "queues s s' (claim_packet s MAAP_PROBE n)"
    using queues_cong [OF _ sent_queues [OF s'(2)], of s] by (simp add: cp)
  moreover have "rnd s' = rnd s" using s'(2) by (auto simp: sent_def rescheduled_def)
  ultimately show ?thesis
    using that [of s' t] inform_range_ok(4) [OF e n g(1)] q(1,5) tm(1) s'(1) sent_core [OF s'(2) tm(2) c3] ini nq
    by (simp add: sent_frame [OF s'(2)] remove1_idem)
qed

lemma u16_of_u32:
  assumes "0 < len" and "len \<le> (0xFFFF :: u32)"
  shows "unat (ucast len :: u16) = unat len" "ucast (ucast len :: u16) = len" "0 < (ucast len :: u16)"
proof -
  have "unat len < 2 ^ 16" using assms(2) by (simp add: word_le_nat_alt)
  then show u: "unat (ucast len :: u16) = unat len" by (simp add: unsigned_ucast_eq take_bit_nat_eq_self_iff)
  then show "ucast (ucast len :: u16) = len" by (simp add: word_unat_eq_iff unat_u16)
  show "0 < (ucast len :: u16)" using u assms(1) by (metis unat_eq_zero word_neq_0_conv)
qed

lemma reserve_ok:
  assumes inv: "maap_inv s as" and len: "0 < len" "len \<le> 0xFFFF" "len \<le> range_len s"
    and att: "unat att + unat len \<le> 2 ^ 64" and late: "\<not> late_success s (ucast len)"
    and i: "maxid s < INT_MAX" and room: "length (timer_queue s) < 100000"
  shows "case chosen s as att (ucast len) of
      None \<Rightarrow> \<exists>s'. maap_reserve_range s sd att len = Some (-1, s') \<and> maap_inv s' as \<and> ih s' = ih s \<and> rh s' = rh s \<and>
        notifies s' = notifies s @ [(null_note MAAP_NOTIFY_ACQUIRED (-1) len MAAP_NOTIFY_ERROR_RESERVE_NOT_AVAILABLE, sd)]
    | Some start \<Rightarrow> \<exists>s' as'. maap_reserve_range s sd att len = Some (maxid s + 1, s') \<and> maap_inv s' as' \<and>
        reserved s as sd (maxid s + 1) start len s' as'"
proof -
  let ?i = "maxid s + 1" and ?r = "next_addr s"
  let ?u = "s\<lparr>maxid := ?i\<rparr>"
  let ?s = "with_new ?u ?i sd"
  have c: "client_core {} {} ?u as" and e: "env ?u" and ini: "initialized s" and fl: "flags (rh s) = {}"
    using inv by (auto simp: maap_inv_def env_def)
  note l16 = u16_of_u32 [OF len(1,2)]
  have no: "rh s ?r = None" using core_fresh(2) [OF c] by simp
  have nq: "?r \<notin> set (timer_queue s)" using with_new_core(3) [OF c] by simp
  have start: "maap_reserve_range s sd att len = do { (rv, s) \<leftarrow> assign_interval ?s ?r att (ucast len);
      if rv < 0 then do { s \<leftarrow> inform_not_acquired s sd (-1) len MAAP_NOTIFY_ERROR_RESERVE_NOT_AVAILABLE;
        s \<leftarrow> range_free s ?r; Some (-1, s) }
      else do { s \<leftarrow> inform_acquiring s ?r; s \<leftarrow> schedule_timer s ?r; s \<leftarrow> start_timer s; (_, s) \<leftarrow> send_probe s ?r; Some (?i, s) } }"
  proof -
    have "new_range (s\<lparr>next_addr := Suc ?r, maxid := ?i\<rparr>) ?r ?i sd = ?s"
      by (simp add: new_range_def with_new_def fresh_range_def Time_setFromMonotonicTimer_def)
    moreover have "\<not> (len > 0xFFFF \<or> len > range_len s)" using len(2,3) by (simp add: not_less)
    ultimately show ?thesis
      using ini i env_no_oom [OF e, of ?r] by (simp add: maap_reserve_range_def malloc_def Let_def cong: if_cong)
  qed
  have la: "\<not> late_success ?u (ucast len)" using late late_success_cong [of ?u s] by simp
  have le: "ucast (ucast len :: u16) \<le> range_len ?u" using len(3) l16(2) by simp
  have at: "unat att + unat (ucast len :: u16) \<le> 2 ^ 64" using att l16(1) by simp
  have ch: "chosen ?u as att (ucast len) = chosen s as att (ucast len)" by (rule chosen_cong) simp_all
  show ?thesis
  proof (rule new_assign [OF c e l16(3) le at la, of ?i sd])
    fix n p
    let ?s2 = "?s\<lparr>next_addr := n, rnd_pos := p\<rparr>"
    assume none: "chosen ?u as att (ucast len) = None"
      and f: "assign_interval ?s (next_addr ?u) att (ucast len) = Some (-1, ?s2)" "next_addr ?u < n" "env ?s2"
      "client_core {} {next_addr ?u} ?s2 as"
    let ?s3 = "noted ?s2 sd (null_note MAAP_NOTIFY_ACQUIRED (-1) len MAAP_NOTIFY_ERROR_RESERVE_NOT_AVAILABLE)"
    have back_rh: "(rh ?s3)(?r := None) = rh s" using no by auto
    have c3: "client_core {} (insert ?r {}) ?s3 as" using noted_core [OF f(4)] by simp
    have "core {} {} (ih s) (ranges s) as ((rh ?s3)(?r := None)) (timer_queue s) (range_len s) (Suc n)"
      using core_free [OF c3] with_new_core(2,3) [OF c] by simp
    then have "maap_inv (?s3\<lparr>rh := rh s\<rparr>) as"
      using noted_env [OF f(3)] fl ini unfolding maap_inv_def back_rh by (simp add: env_def)
    moreover have "maap_reserve_range s sd att len = Some (-1, ?s3\<lparr>rh := rh s\<rparr>)"
      using f(1) inform_ok(1) [OF f(3)] back_rh by (simp add: start range_free_def heap_free_def)
    ultimately show ?thesis using none ch by auto
  next
    fix s' as' n g
    assume some: "chosen ?u as att (ucast len) = Some (low n)"
      and a: "assign_interval ?s (next_addr ?u) att (ucast len) = Some (0, s')"
      and k: "client_core {} {next_addr ?u} s' as'" "env s'" "held (ih s') as' (next_addr ?u)"
      "interval_of s' (next_addr ?u) = Some n" "high n = low n + ucast (ucast len :: u16) - 1"
      "rh s' = (rh ?u)(next_addr ?u \<mapsto> g)" "active g" "\<not> overlapping g" "range_id g = ?i" "r_sender g = sd"
      "counter g = MAAP_PROBE_RETRANSMITS" "state g = MAAP_STATE_PROBING"
      "set (entries (ih s') as') = insert (low n, high n, Some (next_addr ?u)) (set (entries (ih ?u) as))"
      "timer_queue s' = timer_queue ?u" "initialized s' = initialized ?u" "notifies s' = notifies ?u"
      "mc_net s' = mc_net ?u" "address_base s' = address_base ?u" "dest_mac s' = dest_mac ?u" "src_mac s' = src_mac ?u"
      "range_len s' = range_len ?u" "rnd s' = rnd ?u" "maxid s' = maxid ?u"
    have g: "rh s' ?r = Some g" using k(6) by simp
    obtain s2 t where r: "do { s \<leftarrow> inform_acquiring s' ?r; s \<leftarrow> schedule_timer s ?r; s \<leftarrow> start_timer s; (_, s) \<leftarrow> send_probe s ?r; Some (?i, s) } =
        Some (?i, s2)" "client_core {} {} s2 as'" "env s2" "initialized s2" "rh s2 = (rh s')(?r \<mapsto> g\<lparr>next_act_time := t\<rparr>)"
      "ih s2 = ih s'" "notifies s2 = notifies s' @ [(range_note s' MAAP_NOTIFY_ACQUIRING (range_id g) n MAAP_NOTIFY_ERROR_NONE, r_sender g)]"
      "queues s' s2 (claim_packet s' MAAP_PROBE n)" "length (timer_queue s2) = Suc (length (timer_queue s'))" "maxid s2 = maxid s'"
      "address_base s2 = address_base s'" "range_len s2 = range_len s'" "rnd s2 = rnd s'"
      by (rule reserve_step [of ?r s' as' g n ?i]) (use k ini g nq room in auto)
    have "flags (rh s2) = {}" using r(5) k(6,8) fl by (simp add: flags_upd)
    then have "maap_inv s2 as'" using r(2-4) by (simp add: maap_inv_def)
    moreover have "reserved s as sd ?i (low n) len s2 as'"
    proof -
      have "claim_packet s' MAAP_PROBE n = claim_packet s MAAP_PROBE n" using k by (intro claim_packet_cong) simp_all
      moreover have "range_note s' MAAP_NOTIFY_ACQUIRING ?i n MAAP_NOTIFY_ERROR_NONE = range_note s MAAP_NOTIFY_ACQUIRING ?i n MAAP_NOTIFY_ERROR_NONE"
        using k by (intro range_note_cong) simp
      moreover have "queues s s2 (claim_packet s' MAAP_PROBE n)" using queues_cong [OF _ r(8), of s] k by simp
      moreover have "rh s \<subseteq>\<^sub>m rh s2" using no k r(5) by (auto simp: map_le_def)
      ultimately show ?thesis unfolding reserved_def
        using no k r(5-7,9-) l16(2) by (intro conjI exI [of _ n] exI [of _ ?r] exI [of _ "g\<lparr>next_act_time := t\<rparr>"]) simp_all
    qed
    moreover have "maap_reserve_range s sd att len = Some (?i, s2)"
      using a r(1) by (simp add: start)
    ultimately show ?thesis using some ch by auto
  qed
qed


section \<open>Releasing and asking\<close>

lemma find_range_ok:
  "set q \<subseteq> dom h \<Longrightarrow> find_range h i ok q = Some (find (\<lambda>r. range_id (the (h r)) = i \<and> ok (state (the (h r)))) q)"
  by (induction q) auto

lemma inv_queue_live: "maap_inv s as \<Longrightarrow> set (timer_queue s) \<subseteq> dom (rh s)"
  by (simp add: maap_inv_def core_def queue_ok_def)

lemma active_iff: "maap_inv s as \<Longrightarrow> rh s r = Some g \<Longrightarrow> active g \<longleftrightarrow> state g \<noteq> MAAP_STATE_RELEASED"
  by (cases "state g") (auto simp: maap_inv_def core_def ranges_ok_def active_def)

lemma inv_held: "maap_inv s as \<Longrightarrow> rh s r = Some g \<Longrightarrow> active g \<Longrightarrow> held (ih s) as r"
  by (auto simp: maap_inv_def core_def ranges_ok_def)

lemma inv_queue: "maap_inv s as \<Longrightarrow> rh s r = Some g \<Longrightarrow> r \<in> set (timer_queue s)"
  by (auto simp: maap_inv_def core_def queue_ok_def)

text \<open>The range a command refers to, by the invariant, with its interval.\<close>

definition the_range :: "maap_client \<Rightarrow> int \<Rightarrow> (maap_state \<Rightarrow> bool) \<Rightarrow> ptr" where
  "the_range s i ok = find (\<lambda>r. range_id (the (rh s r)) = i \<and> ok (state (the (rh s r)))) (timer_queue s)"

lemma the_range_ok: "maap_inv s as \<Longrightarrow> find_range (rh s) i ok (timer_queue s) = Some (the_range s i ok)"
  by (simp add: the_range_def find_range_ok inv_queue_live)

lemma the_range_SomeE:
  assumes "maap_inv s as" and "the_range s i ok = Some r"
  obtains g where "rh s r = Some g" "range_id g = i" "ok (state g)"
proof -
  from assms(2) have "r \<in> set (timer_queue s)" "range_id (the (rh s r)) = i" "ok (state (the (rh s r)))"
    unfolding the_range_def by (auto simp: find_Some_iff)
  with inv_queue_live [OF assms(1)] that show ?thesis by force
qed

lemma image_remove: "(\<And>b. b \<in> A \<Longrightarrow> b \<noteq> a \<Longrightarrow> f b \<noteq> f a) \<Longrightarrow> f ` (A - {a}) = f ` A - {f a}"
  by auto

lemma remove_release:
  assumes c: "client_core {} {} s as" and e: "env s" and h: "held (ih s) as r"
  obtains s' as' a g n where "r_interval g = Some a" "rh s r = Some g" "interval_of s r = Some n"
    "do { s \<leftarrow> remove_range_interval s a; range_upd s r (\<lambda>g. g\<lparr>state := MAAP_STATE_RELEASED\<rparr>) } = Some s'"
    "client_core {} {} s' as'" "env s'" "set (entries (ih s') as') = set (entries (ih s) as) - {(low n, high n, Some r)}"
    "flags (rh s') = flags (rh s)" "\<exists>g'. rh s' r = Some g' \<and> state g' = MAAP_STATE_RELEASED \<and> range_id g' = range_id g"
    "initialized s' = initialized s" "notifies s' = notifies s" "mc_net s' = mc_net s" "timer_queue s' = timer_queue s"
    "address_base s' = address_base s" "src_mac s' = src_mac s" "dest_mac s' = dest_mac s" "range_len s' = range_len s"
    "rnd s' = rnd s" "\<forall>x f. x \<noteq> r \<longrightarrow> rh s x = Some f \<longrightarrow> (\<exists>i. rh s' x = Some (f\<lparr>r_interval := i\<rparr>))"
proof -
  from held_interval [OF c h] obtain a n g where a: "a \<in> set as" "ih s a = Some n" "data n = Some r" "rh s r = Some g"
    "r_interval g = Some a" "active g" "interval_of s r = Some n" by metis
  have nd: "node_data (ih s) a = Some r" using a by (simp add: node_data_def)
  obtain h' root rg as' where r: "remove_range_interval s a = Some (s\<lparr>ih := h', ranges := root, rh := rg\<rparr>)"
    "core {} {r} h' root as' rg (timer_queue s) (range_len s) (next_addr s)"
    "entries h' as' = entries (ih s) (remove1 a as)" "same_ranges (rh s) rg"
    using remove_range_interval_ok [OF c a(1)] nd by auto
  obtain i where i: "rg r = Some (g\<lparr>r_interval := i\<rparr>)" using same_ranges_Some [OF r(4) a(4)] by metis
  have d: "distinct as" using irep_distinct [OF core_tree(1) [OF c]] .
  have ent: "set (entries h' as') = set (entries (ih s) as) - {(low n, high n, Some r)}"
  proof -
    have ea: "entry_of (the (ih s a)) = (low n, high n, Some r)" using a by (simp add: entry_of_def)
    let ?f = "\<lambda>b. entry_of (the (ih s b))"
    have "?f b \<noteq> ?f a" if "b \<in> set as" "b \<noteq> a" for b
      using held_unique [OF c that(1) a(1) _ nd] that(2) nd by (auto simp: node_data_def entry_of_def)
    then have "?f ` (set as - {a}) = ?f ` set as - {?f a}" by (rule image_remove)
    with ea d show ?thesis unfolding r(3) by (simp add: entries_def)
  qed
  have nh: "\<not> held h' as' r"
  proof
    assume "held h' as' r"
    then obtain b where b: "b \<in> set as'" "node_data h' b = Some r" by (auto simp: held_def)
    obtain b' where b': "b' \<in> set (remove1 a as)" "entry_of (the (h' b)) = entry_of (the (ih s b'))"
      using same_entries_data(1) [OF r(3) b(1)] by blast
    then have "b' \<in> set as" "b' \<noteq> a" using d by auto
    moreover have "node_data (ih s) b' = Some r" using b(2) b'(2) by (simp add: node_data_def entry_of_def)
    ultimately show False using held_unique [OF c _ a(1) _ nd] by blast
  qed
  have q: "r \<in> set (timer_queue s)" using c a(4) by (auto simp: core_def queue_ok_def)
  let ?g = "g\<lparr>r_interval := i, state := MAAP_STATE_RELEASED\<rparr>"
  let ?s = "s\<lparr>ih := h', ranges := root, rh := rg(r \<mapsto> ?g)\<rparr>"
  have "client_core {} {} ?s as'" using core_release [OF r(2) i nh q] by simp
  moreover have "env ?s" using e by (simp add: env_def)
  moreover have "flags (rg(r \<mapsto> ?g)) = flags (rh s)"
  proof -
    have "overlapping g \<longleftrightarrow> r \<in> flags (rh s)" using a(4) by (simp add: flags_def)
    then show ?thesis using flags_same [OF r(4)] by (auto simp: flags_upd)
  qed
  moreover have "do { s \<leftarrow> remove_range_interval s a; range_upd s r (\<lambda>g. g\<lparr>state := MAAP_STATE_RELEASED\<rparr>) } = Some ?s"
    using r(1) i by (simp add: range_upd_def)
  moreover have "\<forall>x f. x \<noteq> r \<longrightarrow> rh s x = Some f \<longrightarrow> (\<exists>i. rh ?s x = Some (f\<lparr>r_interval := i\<rparr>))"
  proof (intro allI impI)
    fix x f assume x: "x \<noteq> r" "rh s x = Some f"
    obtain i where "rg x = Some (f\<lparr>r_interval := i\<rparr>)" using same_ranges_Some [OF r(4) x(2)] by metis
    then show "\<exists>i. rh ?s x = Some (f\<lparr>r_interval := i\<rparr>)" using x(1) by auto
  qed
  ultimately show ?thesis using a ent by (intro that [where s' = ?s and as' = as' and a = a and g = g and n = n]) simp_all
qed

lemma release_ok:
  assumes inv: "maap_inv s as"
  shows "case the_range s i (\<lambda>st. st \<noteq> MAAP_STATE_RELEASED) of
      None \<Rightarrow> maap_release_range s sd i = Some (-1, noted s sd (null_note MAAP_NOTIFY_RELEASED i 0 MAAP_NOTIFY_ERROR_RELEASE_INVALID_ID))
    | Some r \<Rightarrow> \<exists>s' as' n g. maap_release_range s sd i = Some (0, s') \<and> maap_inv s' as' \<and> interval_of s r = Some n \<and> rh s r = Some g \<and>
        set (entries (ih s') as') = set (entries (ih s) as) - {(low n, high n, Some r)} \<and>
        (\<exists>g'. rh s' r = Some g' \<and> state g' = MAAP_STATE_RELEASED) \<and> mc_net s' = mc_net s \<and>
        notifies s' = notifies s @ map (\<lambda>to. (range_note s MAAP_NOTIFY_RELEASED i n MAAP_NOTIFY_ERROR_NONE, to))
          (sd # (if sd \<noteq> r_sender g then [r_sender g] else []))"
proof -
  have e: "env s" and ini: "initialized s" and c: "client_core {} {} s as" using inv by (simp_all add: maap_inv_def)
  show ?thesis
  proof (cases "the_range s i (\<lambda>st. st \<noteq> MAAP_STATE_RELEASED)")
    case None
    then show ?thesis using the_range_ok [OF inv] ini inform_ok(2) [OF e] by (simp add: maap_release_range_def)
  next
    case (Some r)
    obtain g where g: "rh s r = Some g" "range_id g = i" "state g \<noteq> MAAP_STATE_RELEASED"
      using the_range_SomeE [OF inv Some] by metis
    have hd: "held (ih s) as r" using inv_held [OF inv g(1)] active_iff [OF inv g(1)] g(3) by simp
    then obtain n where n: "interval_of s r = Some n" using held_interval [OF c] by metis
    let ?m = "range_note s MAAP_NOTIFY_RELEASED i n MAAP_NOTIFY_ERROR_NONE"
    let ?s1 = "noted s sd ?m"
    have n1: "interval_of ?s1 r = Some n" and e1: "env ?s1" using n noted_env [OF e] by (simp_all add: interval_of_def)
    have m1: "range_note ?s1 MAAP_NOTIFY_RELEASED i n MAAP_NOTIFY_ERROR_NONE = ?m" by (simp add: range_note_def)
    define s2 where "s2 = (if sd \<noteq> r_sender g then noted ?s1 (r_sender g) ?m else ?s1)"
    have e2: "env s2" using noted_env [OF e1] e1 by (cases "sd \<noteq> r_sender g") (simp_all add: s2_def)
    have c2: "client_core {} {} s2 as" and h2: "held (ih s2) as r"
      and f2: "ih s2 = ih s" "rh s2 = rh s" "initialized s2" "mc_net s2 = mc_net s"
        "notifies s2 = notifies s @ map (\<lambda>to. (?m, to)) (sd # (if sd \<noteq> r_sender g then [r_sender g] else []))"
      using noted_core [OF noted_core [OF c]] noted_core [OF c] hd ini by (simp_all add: s2_def)
    from remove_release [OF c2 e2 h2] obtain s' as' a g2 n2 where r: "r_interval g2 = Some a" "rh s2 r = Some g2" "interval_of s2 r = Some n2"
      "do { s \<leftarrow> remove_range_interval s2 a; range_upd s r (\<lambda>g. g\<lparr>state := MAAP_STATE_RELEASED\<rparr>) } = Some s'"
      "client_core {} {} s' as'" "env s'" "set (entries (ih s') as') = set (entries (ih s2) as) - {(low n2, high n2, Some r)}"
      "flags (rh s') = flags (rh s2)" "\<exists>g'. rh s' r = Some g' \<and> state g' = MAAP_STATE_RELEASED \<and> range_id g' = range_id g2"
      "initialized s' = initialized s2" "notifies s' = notifies s2" "mc_net s' = mc_net s2" by metis
    have [simp]: "g2 = g" "n2 = n" using r(2,3) g(1) n f2 by (simp_all add: interval_of_def)
    have mid: "(if sd \<noteq> r_sender g then inform_released ?s1 (r_sender g) i (Some r) MAAP_NOTIFY_ERROR_NONE else Some ?s1) = Some s2"
      using inform_range_ok(1) [OF e1 n1] m1 by (simp add: s2_def)
    have "maap_release_range s sd i = Some (0, s')"
      using Some the_range_ok [OF inv] ini inform_range_ok(1) [OF e n] g(1) r(1,4) mid
      by (auto simp: maap_release_range_def elim!: bind_SomeE)
    moreover have "maap_inv s' as'" using r f2 inv by (simp add: maap_inv_def)
    ultimately show ?thesis using Some r f2 n g(1) by auto
  qed
qed

lemma status_ok:
  assumes inv: "maap_inv s as"
  shows "\<exists>mn. maap_range_status s sd i = Some (noted s sd mn) \<and>
    (case the_range s i (\<lambda>st. st = MAAP_STATE_DEFENDING) of
       None \<Rightarrow> mn = null_note MAAP_NOTIFY_STATUS i 0 MAAP_NOTIFY_ERROR_RELEASE_INVALID_ID
     | Some r \<Rightarrow> \<exists>n. interval_of s r = Some n \<and> mn = range_note s MAAP_NOTIFY_STATUS i n MAAP_NOTIFY_ERROR_NONE)"
proof -
  have e: "env s" and ini: "initialized s" and c: "client_core {} {} s as" using inv by (simp_all add: maap_inv_def)
  show ?thesis
  proof (cases "the_range s i (\<lambda>st. st = MAAP_STATE_DEFENDING)")
    case None
    then show ?thesis using the_range_ok [OF inv] ini inform_ok(3) [OF e] by (simp add: maap_range_status_def)
  next
    case (Some r)
    obtain g where g: "rh s r = Some g" "state g = MAAP_STATE_DEFENDING"
      using the_range_SomeE [OF inv Some] by metis
    then have "held (ih s) as r" using inv_held [OF inv g(1)] by (simp add: active_def)
    then obtain n where "interval_of s r = Some n" using held_interval [OF c] by metis
    then show ?thesis using Some the_range_ok [OF inv] ini inform_range_ok(2) [OF e] by (simp add: maap_range_status_def)
  qed
qed

lemma noted_inv: "maap_inv s as \<Longrightarrow> maap_inv (noted s sd mn) as"
  using noted_core noted_env by (simp add: maap_inv_def)

end
