(* ===== verification/Maap_Conflict.thy ===== *)
theory Maap_Conflict
  imports Maap_Safety
begin

text \<open>
  Incoming packets: flagging the ranges that overlap, and resolving each conflict by
  ignoring, defending, moving or yielding.
\<close>

section \<open>Moving a probing range\<close>

lemma late_success_data:
  assumes c: "client_core N U s as" and n: "ih s a = Some n"
  shows "late_success (s\<lparr>ih := (ih s)(a \<mapsto> n\<lparr>data := d\<rparr>)\<rparr>) len = late_success s len"
proof -
  let ?s = "s\<lparr>ih := (ih s)(a \<mapsto> n\<lparr>data := d\<rparr>)\<rparr>"
  note tr = core_tree(1,2) [OF c]
  have tr': "irep (ih ?s) (ranges ?s) as" "disjoint_sorted (entries (ih ?s) as)"
    using set_data [OF tr(1) n, of d] tr(2) by simp_all
  have "overlaps (entry_of (the (ih ?s b))) q = overlaps (entry_of (the (ih s b))) q" for b q
    using n by (cases q) (simp add: entry_of_def)
  then have "taken (ih ?s) as x len = taken (ih s) as x len" for x
    unfolding taken_def by (simp only:)
  then have "blocked ?s x len = blocked s x len" for x
    by (simp only: blocked_taken [OF tr'] blocked_taken [OF tr])
  then show ?thesis by (simp add: late_success_def pick_def)
qed

text \<open>What resolving a conflict of the range \<open>r\<close> leaves alone.\<close>

definition spares :: "addr \<Rightarrow> maap_client \<Rightarrow> addr list \<Rightarrow> maap_client \<Rightarrow> addr list \<Rightarrow> bool" where
  "spares r s as s' as' \<longleftrightarrow> flags (rh s') = flags (rh s) \<and> initialized s' = initialized s \<and> src_mac s' = src_mac s \<and>
     address_base s' = address_base s \<and> range_len s' = range_len s \<and>
     (\<forall>l u x. x \<noteq> r \<longrightarrow> (l, u, Some x) \<in> set (entries (ih s) as) \<longrightarrow> (l, u, Some x) \<in> set (entries (ih s') as'))"

lemma entries_iff: "e \<in> set (entries h as) \<longleftrightarrow> (\<exists>b\<in>set as. entry_of (the (h b)) = e)"
  by (auto simp: entries_def)

lemma entries_data_None:
  assumes "h a = Some n" and "data n = Some r" and "x \<noteq> r"
  shows "(l, u, Some x) \<in> set (entries (h(a \<mapsto> n\<lparr>data := None\<rparr>)) as) \<longleftrightarrow> (l, u, Some x) \<in> set (entries h as)"
proof -
  have "entry_of (the ((h(a \<mapsto> n\<lparr>data := None\<rparr>)) b)) = (l, u, Some x) \<longleftrightarrow> entry_of (the (h b)) = (l, u, Some x)" for b
    using assms by (simp add: entry_of_def)
  then show ?thesis unfolding entries_iff by (simp only:)
qed

lemma held_entries: "held h as r \<longleftrightarrow> (\<exists>l u. (l, u, Some r) \<in> set (entries h as))"
  by (auto simp: held_def entries_iff entry_of_def node_data_def)

text \<open>The address blocks that are held, with the ranges that hold them.\<close>

definition blocks :: "maap_client \<Rightarrow> addr list \<Rightarrow> (u32 \<times> u32 \<times> addr) set" where
  "blocks s as = {(l, u, x). (l, u, Some x) \<in> set (entries (ih s) as)}"

lemma blocks_cong: "ih s' = ih s \<Longrightarrow> blocks s' as = blocks s as"
  by (simp add: blocks_def)

lemma held_bounds:
  assumes c: "client_core N U s as" and hd: "held (ih s) as r" and n: "interval_of s r = Some n"
  shows "(l, u, Some r) \<in> set (entries (ih s) as) \<longleftrightarrow> l = low n \<and> u = high n"
proof -
  obtain a m where a: "a \<in> set as" "ih s a = Some m" "data m = Some r" "interval_of s r = Some m"
    using held_interval [OF c hd] by metis
  then have m: "m = n" using n by simp
  have "b = a" if "b \<in> set as" "entry_of (the (ih s b)) = (l, u, Some r)" for b
    using held_unique [OF c that(1) a(1), of r] that(2) a(2,3) by (simp add: node_data_def entry_of_def)
  then have "(l, u, Some r) \<in> set (entries (ih s) as) \<longleftrightarrow> entry_of (the (ih s a)) = (l, u, Some r)"
    using a(1) unfolding entries_iff by blast
  then show ?thesis using a(2,3) m by (auto simp: entry_of_def)
qed

lemma same_bounds:
  assumes "client_core N U s as" "held (ih s) as r" "interval_of s r = Some n"
    and "client_core N' U' s' as'" "held (ih s') as' r" "interval_of s' r = Some n'"
    and "set (entries (ih s) as) \<subseteq> set (entries (ih s') as')"
  shows "low n' = low n" "high n' = high n"
proof -
  have "(low n, high n, Some r) \<in> set (entries (ih s') as')" using held_bounds [OF assms(1-3)] assms(7) by auto
  then show "low n' = low n" "high n' = high n" using held_bounds [OF assms(4-6)] by simp_all
qed

lemma blocks_data_None:
  assumes c: "client_core {} U s as" and a: "a \<in> set as" "ih s a = Some n" "data n = Some r"
  shows "blocks (s\<lparr>ih := (ih s)(a \<mapsto> n\<lparr>data := None\<rparr>)\<rparr>) as = blocks s as - {(low n, high n, r)}"
proof -
  let ?h = "(ih s)(a \<mapsto> n\<lparr>data := None\<rparr>)"
  have nh: "\<not> held ?h as r" using core_disown(2) [OF c a(2,1,3)] .
  have hd: "held (ih s) as r" using a by (force simp: held_def node_data_def)
  obtain b m where b: "b \<in> set as" "ih s b = Some m" "data m = Some r" "interval_of s r = Some m"
    using held_interval [OF c hd] by metis
  have "b = a" using held_unique [OF c b(1) a(1)] a(2,3) b(2,3) by (simp add: node_data_def)
  then have "interval_of s r = Some n" using a(2) b(2,4) by simp
  note r = held_bounds [OF c hd this]
  have "(l, u, Some x) \<in> set (entries ?h as) \<longleftrightarrow> (l, u, Some x) \<in> set (entries (ih s) as) \<and> (l, u, x) \<noteq> (low n, high n, r)" for l u x
    using entries_data_None [where h = "ih s", OF a(2,3), of x] r nh by (cases "x = r") (auto simp: held_entries)
  then show ?thesis by (auto simp: blocks_def)
qed

lemma remove_disowned:
  assumes c: "client_core {a} U s as"
  obtains h root rg as' where "remove_range_interval s a = Some (s\<lparr>ih := h, ranges := root, rh := rg\<rparr>)"
    "core {} U h root as' rg (timer_queue s) (range_len s) (next_addr s)" "same_ranges (rh s) rg"
    "\<And>l u x. (l, u, Some x) \<in> set (entries (ih s) as) \<longleftrightarrow> (l, u, Some x) \<in> set (entries h as')"
proof -
  have a: "a \<in> set as" "node_data (ih s) a = None" using c by (auto simp: core_def)
  obtain h root rg as' where r: "remove_range_interval s a = Some (s\<lparr>ih := h, ranges := root, rh := rg\<rparr>)"
    "core {} U h root as' rg (timer_queue s) (range_len s) (next_addr s)"
    "entries h as' = entries (ih s) (remove1 a as)" "same_ranges (rh s) rg"
    using remove_range_interval_ok [OF c a(1)] a(2) by auto
  have d: "distinct as" using irep_distinct [OF core_tree(1) [OF c]] .
  have "(l, u, Some x) \<in> set (entries (ih s) as) \<longleftrightarrow> (l, u, Some x) \<in> set (entries h as')" for l u x
  proof -
    have "entry_of (the (ih s a)) \<noteq> (l, u, Some x)" using a(2) by (auto simp: node_data_def entry_of_def)
    then show ?thesis unfolding r(3) entries_iff using d by auto
  qed
  with r that show ?thesis by blast
qed

lemma remove1_room: "r \<in> set q \<Longrightarrow> (length (remove1 r q) < m) = (length q \<le> m) \<and> Suc (length (remove1 r q)) = length q"
proof -
  assume r: "r \<in> set q"
  have "length (remove1 r q) = length q - 1" using r by (simp add: length_remove1)
  with length_pos_if_in_set [OF r] show ?thesis by linarith
qed

lemma flags_upd_same: "rg r = Some g \<Longrightarrow> overlapping g' = overlapping g \<Longrightarrow> flags (rg(r \<mapsto> g')) = flags rg"
  by (auto simp: flags_upd flags_def)

text \<open>A range that found no new interval gives up.\<close>

lemma move_fail:
  assumes c: "client_core {a} {r} s as" and e: "env s" and g: "rh s r = Some g" and nh: "\<not> held (ih s) as r"
    and q: "r \<in> set (timer_queue s)"
  obtains s' as' where "do { s \<leftarrow> remove_range_interval s a; range_upd s r (\<lambda>g. g\<lparr>state := MAAP_STATE_RELEASED\<rparr>) } = Some s'"
    "client_core {} {} s' as'" "env s'" "spares r s as s' as'" "timer_queue s' = timer_queue s"
    "blocks s' as' = blocks s as" "rh s' r \<noteq> None" "state (the (rh s' r)) = MAAP_STATE_RELEASED" "mc_net s' = mc_net s"
    "notifies s' = notifies s"
proof -
  obtain h root rg as' where s1: "remove_range_interval s a = Some (s\<lparr>ih := h, ranges := root, rh := rg\<rparr>)"
    "core {} {r} h root as' rg (timer_queue s) (range_len s) (next_addr s)" "same_ranges (rh s) rg"
    "\<And>l u x. (l, u, Some x) \<in> set (entries (ih s) as) \<longleftrightarrow> (l, u, Some x) \<in> set (entries h as')"
    using remove_disowned [OF c] by metis
  obtain i where i: "rg r = Some (g\<lparr>r_interval := i\<rparr>)" using same_ranges_Some [OF s1(3) g] by metis
  have nh1: "\<not> held h as' r" using nh s1(4) by (simp add: held_entries)
  let ?rg = "rg(r \<mapsto> g\<lparr>r_interval := i, state := MAAP_STATE_RELEASED\<rparr>)"
  let ?s = "s\<lparr>ih := h, ranges := root, rh := ?rg\<rparr>"
  have "client_core {} {} ?s as'" using core_release [OF s1(2) i nh1 q] by simp
  moreover have "flags ?rg = flags (rh s)" using flags_upd_same [of rg r, OF i] flags_same [OF s1(3)] by simp
  then have "spares r s as ?s as'" using s1(4) by (simp add: spares_def)
  moreover have "env ?s" using e by (simp add: env_def)
  moreover have "do { s \<leftarrow> remove_range_interval s a; range_upd s r (\<lambda>g. g\<lparr>state := MAAP_STATE_RELEASED\<rparr>) } = Some ?s"
    using s1(1) i by (simp add: range_upd_def)
  moreover have "blocks ?s as' = blocks s as" using s1(4) by (simp add: blocks_def)
  ultimately show ?thesis by (intro that [of ?s as']) simp_all
qed

text \<open>A range that found a new interval drops the old one and starts probing again.\<close>

lemma move_found:
  assumes c: "client_core {a} {} s as" and e: "env s" and h: "held (ih s) as r" and room: "length (timer_queue s) \<le> 100000"
    and gn: "rh s r = Some g" "interval_of s r = Some n"
  obtains s' as' where "do { s \<leftarrow> inform_acquiring s r; s \<leftarrow> remove_range_interval s a;
      s \<leftarrow> range_upd s r (\<lambda>g. g\<lparr>counter := MAAP_PROBE_RETRANSMITS\<rparr>); s \<leftarrow> schedule_timer s r; (_, s) \<leftarrow> send_probe s r; Some s } = Some s'"
    "client_core {} {} s' as'" "env s'" "spares r s as s' as'" "length (timer_queue s') = length (timer_queue s)"
    "blocks s' as' = blocks s as" "queues s s' (claim_packet s MAAP_PROBE n)"
    "notifies s' = notifies s @ [(range_note s MAAP_NOTIFY_ACQUIRING (range_id g) n MAAP_NOTIFY_ERROR_NONE, r_sender g)]"
    "\<exists>i t. rh s' r = Some (g\<lparr>r_interval := i, counter := MAAP_PROBE_RETRANSMITS, next_act_time := t\<rparr>)"
proof -
  obtain b where n: "ih s b = Some n" "rh s r = Some g" "interval_of s r = Some n" "active g"
    using held_interval [OF c h] gn by (metis option.inject)
  let ?s1 = "noted s (r_sender g) (range_note s MAAP_NOTIFY_ACQUIRING (range_id g) n MAAP_NOTIFY_ERROR_NONE)"
  have c1: "client_core {a} {} ?s1 as" using noted_core [OF c] .
  obtain h' root rg as' where r: "remove_range_interval ?s1 a = Some (?s1\<lparr>ih := h', ranges := root, rh := rg\<rparr>)"
    "core {} {} h' root as' rg (timer_queue ?s1) (range_len ?s1) (next_addr ?s1)" "same_ranges (rh ?s1) rg"
    "\<And>l u x. (l, u, Some x) \<in> set (entries (ih ?s1) as) \<longleftrightarrow> (l, u, Some x) \<in> set (entries h' as')"
    using remove_disowned [OF c1] by metis
  have "rh ?s1 r = Some g" using n(2) by simp
  then obtain i where i: "rg r = Some (g\<lparr>r_interval := i\<rparr>)" using same_ranges_Some [OF r(3)] by metis
  let ?g = "g\<lparr>r_interval := i, counter := MAAP_PROBE_RETRANSMITS\<rparr>"
  let ?s2 = "?s1\<lparr>ih := h', ranges := root, rh := rg(r \<mapsto> ?g)\<rparr>"
  have cnt: "state g \<noteq> MAAP_STATE_INVALID" using n(4) by (auto simp: active_def)
  have c2: "client_core {} {} ?s2 as'"
    using core_upd [OF r(2) i, of ?g] cnt by (simp add: active_def MAAP_PROBE_RETRANSMITS_def)
  have h2: "held (ih ?s2) as' r" using h r(4) by (simp add: held_entries)
  have e2: "env ?s2" using noted_env [OF e] by (simp add: env_def)
  have g2: "rh ?s2 r = Some ?g" "active ?g" using n(4) by (simp_all add: active_def)
  obtain n2 where n2: "interval_of ?s2 r = Some n2" using held_interval [OF c2 h2] by metis
  have q: "r \<in> set (timer_queue s)" using c n(2) by (auto simp: core_def queue_ok_def)
  then have l2: "length (remove1 r (timer_queue ?s2)) < 100000" "Suc (length (remove1 r (timer_queue s))) = length (timer_queue s)"
    using room remove1_room [OF q] by simp_all
  have c2': "client_core {} (insert r {}) ?s2 as'" using core_weaken [OF c2] by blast
  obtain t q' where sc: "schedule_timer ?s2 r = Some (rescheduled ?s2 r ?g t q')" "client_core {} {} (rescheduled ?s2 r ?g t q') as'"
    "env (rescheduled ?s2 r ?g t q')" "interval_of (rescheduled ?s2 r ?g t q') r = Some n2"
    "length q' = Suc (length (remove1 r (timer_queue ?s2)))"
    by (rule schedule_and_send [OF c2' e2 h2 g2 n2 l2(1)]) blast
  let ?s3 = "rescheduled ?s2 r ?g t q'"
  obtain s' where s': "send_probe ?s3 r = Some (0, s')" "sent ?s3 s' (claim_packet ?s3 MAAP_PROBE n2)"
    using send_probe_ok [OF sc(3,4)] by blast
  have "flags (rh ?s3) = flags (rh s)"
  proof -
    have "flags (rh ?s3) = flags rg" using flags_upd_same [of rg r, OF i, of "?g\<lparr>next_act_time := t\<rparr>"] by simp
    also have "\<dots> = flags (rh s)" using flags_same [OF r(3)] by simp
    finally show ?thesis .
  qed
  then have "spares r s as s' as'" using r(4) by (simp add: spares_def sent_frame [OF s'(2)])
  moreover have "blocks s' as' = blocks s as" using r(4) by (simp add: blocks_def sent_frame [OF s'(2)])
  moreover have "queues s s' (claim_packet s MAAP_PROBE n)"
  proof -
    have "(low n, high n, Some r) \<in> set (entries (ih ?s2) as')" using held_bounds [OF c h gn(2)] r(4) by simp
    then have "low n2 = low n" "high n2 = high n" using held_bounds [OF c2 h2 n2] by auto
    then have "claim_packet ?s3 MAAP_PROBE n2 = claim_packet s MAAP_PROBE n" by (simp add: claim_packet_def)
    then show ?thesis using queues_cong [OF _ sent_queues [OF s'(2)], of s] by simp
  qed
  moreover have "do { s \<leftarrow> inform_acquiring s r; s \<leftarrow> remove_range_interval s a;
      s \<leftarrow> range_upd s r (\<lambda>g. g\<lparr>counter := MAAP_PROBE_RETRANSMITS\<rparr>); s \<leftarrow> schedule_timer s r; (_, s) \<leftarrow> send_probe s r; Some s } = Some s'"
    using inform_range_ok(4) [OF e n(3,2)] r(1) i sc(1) s'(1) by (simp add: range_upd_def)
  moreover have "\<exists>i t. rh s' r = Some (g\<lparr>r_interval := i, counter := MAAP_PROBE_RETRANSMITS, next_act_time := t\<rparr>)"
    unfolding sent_frame [OF s'(2)] by (intro exI [of _ i] exI [of _ t]) simp
  moreover note sent_core(1,2,6,8) [OF s'(2) sc(3,2)]
  ultimately show ?thesis using sc(5) l2(2) by (intro that [of s' as']) simp_all
qed


lemma spares_trans: "spares r s as s1 as1 \<Longrightarrow> spares r s1 as1 s2 as2 \<Longrightarrow> spares r s as s2 as2"
  by (simp add: spares_def)

lemma spares_noted: "spares r (noted s sd mn) as s' as' \<Longrightarrow> spares r s as s' as'"
  by (simp add: spares_def)

text \<open>
  What becomes of a probing range that loses its block: it moves to the first free one of the
  draws and starts again, or is released if none is free.
\<close>

definition moved :: "maap_client \<Rightarrow> addr list \<Rightarrow> addr \<Rightarrow> range \<Rightarrow> interval \<Rightarrow> maap_client \<Rightarrow> addr list \<Rightarrow> bool" where
  "moved s as r g n s' as' \<longleftrightarrow> (let len = high n - low n + 1 in case chosen s as 0 (ucast len) of
     None \<Rightarrow> blocks s' as' = blocks s as - {(low n, high n, r)} \<and> rh s' r \<noteq> None \<and> state (the (rh s' r)) = MAAP_STATE_RELEASED \<and>
       mc_net s' = mc_net s \<and>
       notifies s' = notifies s @ [(null_note MAAP_NOTIFY_ACQUIRED (range_id g) len MAAP_NOTIFY_ERROR_RESERVE_NOT_AVAILABLE, r_sender g)]
   | Some x \<Rightarrow> \<exists>iv i t. low iv = x \<and> high iv = x + (high n - low n) \<and>
       blocks s' as' = insert (low iv, high iv, r) (blocks s as - {(low n, high n, r)}) \<and>
       rh s' r = Some (g\<lparr>r_interval := i, counter := MAAP_PROBE_RETRANSMITS, next_act_time := t\<rparr>) \<and>
       queues s s' (claim_packet s MAAP_PROBE iv) \<and>
       notifies s' = notifies s @ [(range_note s MAAP_NOTIFY_ACQUIRING (range_id g) iv MAAP_NOTIFY_ERROR_NONE, r_sender g)])"

lemma moved_SomeI:
  assumes "chosen s as 0 (ucast (high n - low n + 1)) = Some (low iv)" and "high iv = low iv + (high n - low n)"
    and "blocks s' as' = insert (low iv, high iv, r) (blocks s as - {(low n, high n, r)})"
    and "\<exists>i t. rh s' r = Some (g\<lparr>r_interval := i, counter := MAAP_PROBE_RETRANSMITS, next_act_time := t\<rparr>)"
    and "queues s s' (claim_packet s MAAP_PROBE iv)"
    and "notifies s' = notifies s @ [(range_note s MAAP_NOTIFY_ACQUIRING (range_id g) iv MAAP_NOTIFY_ERROR_NONE, r_sender g)]"
  shows "moved s as r g n s' as'"
  unfolding moved_def Let_def assms(1) option.case using assms(2-6) by blast

lemma chosen_data:
  assumes "ih s a = Some n"
  shows "chosen (s\<lparr>ih := (ih s)(a \<mapsto> n\<lparr>data := d\<rparr>)\<rparr>) as att len = chosen s as att len"
proof -
  let ?s = "s\<lparr>ih := (ih s)(a \<mapsto> n\<lparr>data := d\<rparr>)\<rparr>"
  have "overlaps (entry_of (the (ih ?s b))) q = overlaps (entry_of (the (ih s b))) q" for b q
    using assms by (cases q) (simp add: entry_of_def)
  then have t: "taken (ih ?s) as x len = taken (ih s) as x len" for x unfolding taken_def by (simp only:)
  have "candidates ?s att len = candidates s att len" by (simp add: candidates_def preferable_def pick_def [abs_def])
  then show ?thesis unfolding chosen_def t by (simp only:)
qed

lemma move_probing_ok:
  assumes c: "client_core {} {} s as" and e: "env s" and a: "a \<in> set as" "ih s a = Some n" "data n = Some r"
    and late: "\<not> late_success s (ucast (high n - low n + 1))" and room: "length (timer_queue s) \<le> 100000"
  obtains s' as' g where "move_probing s a r = Some s'" "client_core {} {} s' as'" "env s'" "spares r s as s' as'"
    "length (timer_queue s') = length (timer_queue s)" "rh s r = Some g" "moved s as r g n s' as'"
proof -
  let ?sz = "high n - low n + 1"
  let ?len = "ucast ?sz :: u16"
  have hd: "held (ih s) as r" using a by (force simp: held_def node_data_def)
  from held_interval [OF c hd] obtain b m g where b: "b \<in> set as" "ih s b = Some m" "data m = Some r" "rh s r = Some g"
    "r_interval g = Some b" "active g" "in_pool (range_len s) m" "low m \<le> high m" by metis
  have "b = a" using held_unique [OF c b(1) a(1)] a(2,3) b(2,3) by (simp add: node_data_def)
  then have pool: "in_pool (range_len s) n" "low n \<le> high n" using a(2) b by simp_all
  note sz = size_ok [OF pool]
  let ?h = "(ih s)(a \<mapsto> n\<lparr>data := None\<rparr>)"
  let ?s1 = "s\<lparr>ih := ?h\<rparr>"
  note dis = core_disown [OF c a(2,1,3)]
  have c1: "client_core {a} {r} ?s1 as" using dis(1) by simp
  have e1: "env ?s1" using e by (simp add: env_def)
  have nh1: "\<not> held (ih ?s1) as r" using dis(2) by simp
  have q: "r \<in> set (timer_queue s)" using c b(4) by (auto simp: core_def queue_ok_def)
  have sp1: "spares r s as ?s1 as"
    using entries_data_None [where h = "ih s", OF a(2,3)] by (simp add: spares_def)
  have out: "assign_outcome ?s1 as r ?len (chosen ?s1 as 0 ?len) (assign_interval ?s1 r 0 ?len)"
  proof (rule assign_interval_ok)
    show "usable ?s1 as ?len" using usable_core [OF c1 e1] sz by simp
    show "unat (0 :: u64) + unat ?len \<le> 2 ^ 64" using unat_u16(2) [of ?len] by simp
    show "unat (address_base ?s1) + unat (range_len ?s1) \<le> 2 ^ 64" using e by (simp add: env_def)
    show "\<not> late_success ?s1 ?len" using late late_success_data [OF c a(2)] by simp
    show "rh ?s1 r = Some g" using b(4) by simp
  qed
  have unf: "move_probing s a r = do { (rv, s) \<leftarrow> assign_interval ?s1 r 0 ?len;
     if rv < 0 then do {
       rg \<leftarrow> rh s r;
       s \<leftarrow> inform_not_acquired s (r_sender rg) (range_id rg) ?sz MAAP_NOTIFY_ERROR_RESERVE_NOT_AVAILABLE;
       s \<leftarrow> remove_range_interval s a;
       range_upd s r (\<lambda>g. g\<lparr>state := MAAP_STATE_RELEASED\<rparr>) }
     else do {
       s \<leftarrow> inform_acquiring s r;
       s \<leftarrow> remove_range_interval s a;
       s \<leftarrow> range_upd s r (\<lambda>g. g\<lparr>counter := MAAP_PROBE_RETRANSMITS\<rparr>);
       s \<leftarrow> schedule_timer s r;
       (_, s) \<leftarrow> send_probe s r;
       Some s } }"
    using a(2) by (simp add: move_probing_def interval_upd_def Let_def)
  have ch: "chosen ?s1 as 0 ?len = chosen s as 0 ?len" using chosen_data [OF a(2)] .
  have bl: "blocks ?s1 as = blocks s as - {(low n, high n, r)}" using blocks_data_None [OF c a] .
  from out show ?thesis
  proof (cases rule: assign_outcomeE)
    case (fail k p)
    let ?s2 = "?s1\<lparr>next_addr := k, rnd_pos := p\<rparr>"
    have e2: "env ?s2" using env_addr [OF e1 fail(3)] by (simp add: env_def)
    let ?s3 = "noted ?s2 (r_sender g) (null_note MAAP_NOTIFY_ACQUIRED (range_id g) ?sz MAAP_NOTIFY_ERROR_RESERVE_NOT_AVAILABLE)"
    have c2: "client_core {a} {r} ?s2 as" using core_mono [OF c1 fail(3)] by simp
    obtain s' as' where s': "do { s \<leftarrow> remove_range_interval ?s3 a; range_upd s r (\<lambda>g. g\<lparr>state := MAAP_STATE_RELEASED\<rparr>) } = Some s'"
      "client_core {} {} s' as'" "env s'" "spares r ?s3 as s' as'" "timer_queue s' = timer_queue ?s3"
      "blocks s' as' = blocks ?s3 as" "rh s' r \<noteq> None" "state (the (rh s' r)) = MAAP_STATE_RELEASED" "mc_net s' = mc_net ?s3"
      "notifies s' = notifies ?s3"
      by (rule move_fail [OF noted_core [OF c2] noted_env [OF e2]]) (use b(4) nh1 q in auto)
    have "spares r s as ?s2 as" using sp1 by (simp add: spares_def)
    with spares_noted [OF s'(4)] have "spares r s as s' as'" using spares_trans by blast
    moreover have "move_probing s a r = Some s'"
      unfolding unf using fail(2) b(4) inform_ok(1) [OF e2] s'(1) by simp
    moreover have "moved s as r g n s' as'"
      using fail(1) ch bl s'(6-10) by (simp add: moved_def Let_def blocks_def)
    ultimately show ?thesis using s' b(4) by (intro that [of s' as' g]) simp_all
  next
    case (ok start x s2 as2)
    have r1: "rh ?s1 r = Some g" using b(4) by simp
    note ca = core_assigned [OF c1 ok(3) r1 b(6) nh1]
    note fr = assigned_frame [OF ok(3)]
    have h2: "held (ih s2) as2 r" using ca(2,3) by (auto simp: held_def)
    have q2: "r \<in> set (timer_queue s2)" using q fr(1) by simp
    have c2: "client_core {a} {} s2 as2" using core_settle [OF ca(1) q2] h2 by blast
    have room2: "length (timer_queue s2) \<le> 100000" using room fr(1) by simp
    obtain m2 where m2: "interval_of s2 r = Some m2" "low m2 = start" "high m2 = start + ucast ?len - 1"
      using assigned_interval [OF ok(3) ca] by metis
    let ?g2 = "g\<lparr>r_interval := Some x\<rparr>"
    have g2: "rh s2 r = Some ?g2" using assigned_range [OF ok(3) r1] by simp
    obtain s' as' where s': "do { s \<leftarrow> inform_acquiring s2 r; s \<leftarrow> remove_range_interval s a;
        s \<leftarrow> range_upd s r (\<lambda>g. g\<lparr>counter := MAAP_PROBE_RETRANSMITS\<rparr>); s \<leftarrow> schedule_timer s r; (_, s) \<leftarrow> send_probe s r; Some s } = Some s'"
      "client_core {} {} s' as'" "env s'" "spares r s2 as2 s' as'" "length (timer_queue s') = length (timer_queue s2)"
      "blocks s' as' = blocks s2 as2" "queues s2 s' (claim_packet s2 MAAP_PROBE m2)"
      "notifies s' = notifies s2 @ [(range_note s2 MAAP_NOTIFY_ACQUIRING (range_id ?g2) m2 MAAP_NOTIFY_ERROR_NONE, r_sender ?g2)]"
      "\<exists>i t. rh s' r = Some (?g2\<lparr>r_interval := i, counter := MAAP_PROBE_RETRANSMITS, next_act_time := t\<rparr>)"
      by (rule move_found [OF c2 assigned_env [OF ok(3) e1] h2 room2 g2 m2(1)]) blast
    have "spares r ?s1 as s2 as2"
      using flags_upd_same [of "rh s" r, OF b(4)] fr unfolding spares_def assigned_range [OF ok(3) r1] assigned_entries [OF ok(3)] by simp
    then have "spares r s as s' as'" using sp1 s'(4) spares_trans by blast
    moreover have "move_probing s a r = Some s'" unfolding unf using ok(2) s'(1) by simp
    moreover have "moved s as r g n s' as'"
    proof -
      have "blocks s2 as2 = insert (start, start + ucast ?len - 1, r) (blocks ?s1 as)"
        unfolding blocks_def assigned_entries [OF ok(3)] by auto
      moreover have "claim_packet s2 MAAP_PROBE m2 = claim_packet s MAAP_PROBE m2" using fr by (intro claim_packet_cong) simp_all
      moreover have "range_note s2 MAAP_NOTIFY_ACQUIRING (range_id g) m2 MAAP_NOTIFY_ERROR_NONE =
          range_note s MAAP_NOTIFY_ACQUIRING (range_id g) m2 MAAP_NOTIFY_ERROR_NONE" using fr by (intro range_note_cong) simp
      moreover have "queues s s' (claim_packet s2 MAAP_PROBE m2)" using queues_cong [OF _ s'(7), of s] fr by simp
      ultimately show ?thesis
        using ok(1) ch bl s'(6,8,9) m2 sz fr(3) by (intro moved_SomeI [of _ _ _ m2]) simp_all
    qed
    ultimately show ?thesis using s' fr(1) b(4) by (intro that [of s' as' g]) simp_all
  qed
qed


section \<open>Yielding a defended range\<close>

text \<open>\<open>grows\<close>: all entries stay, at most one range joins the timer queue.\<close>

definition grows :: "maap_client \<Rightarrow> addr list \<Rightarrow> maap_client \<Rightarrow> addr list \<Rightarrow> bool" where
  "grows s as s' as' \<longleftrightarrow> flags (rh s') = flags (rh s) \<and> initialized s' = initialized s \<and> src_mac s' = src_mac s \<and>
     address_base s' = address_base s \<and> range_len s' = range_len s \<and>
     rh s \<subseteq>\<^sub>m rh s' \<and> set (entries (ih s) as) \<subseteq> set (entries (ih s') as') \<and> length (timer_queue s') \<le> Suc (length (timer_queue s))"

text \<open>
  What a defended range that loses its block leaves: a new range with its id and its owner that probes for the first
  free one of the draws, if there is one; \<open>B\<close> are the blocks held besides the new one.
\<close>

definition renewed :: "maap_client \<Rightarrow> addr list \<Rightarrow> (u32 \<times> u32 \<times> addr) set \<Rightarrow> range \<Rightarrow> interval \<Rightarrow> maap_client \<Rightarrow> addr list \<Rightarrow> bool" where
  "renewed s as B g n s' as' \<longleftrightarrow> (case chosen s as 0 (ucast (high n - low n + 1)) of
     None \<Rightarrow> blocks s' as' = B \<and> mc_net s' = mc_net s \<and>
       notifies s' = notifies s @ [(range_note s MAAP_NOTIFY_YIELDED (range_id g) n MAAP_NOTIFY_ERROR_RESERVE_NOT_AVAILABLE, r_sender g)]
   | Some x \<Rightarrow> \<exists>iv r' g'. low iv = x \<and> high iv = x + (high n - low n) \<and> blocks s' as' = insert (low iv, high iv, r') B \<and>
       rh s r' = None \<and> rh s' r' = Some g' \<and> state g' = MAAP_STATE_PROBING \<and> counter g' = MAAP_PROBE_RETRANSMITS \<and>
       range_id g' = range_id g \<and> r_sender g' = r_sender g \<and> queues s s' (claim_packet s MAAP_PROBE iv) \<and>
       notifies s' = notifies s @ [(range_note s MAAP_NOTIFY_YIELDED (range_id g) n MAAP_NOTIFY_ERROR_NONE, r_sender g),
         (range_note s MAAP_NOTIFY_ACQUIRING (range_id g) iv MAAP_NOTIFY_ERROR_NONE, r_sender g)])"

definition yielded :: "maap_client \<Rightarrow> addr list \<Rightarrow> addr \<Rightarrow> range \<Rightarrow> interval \<Rightarrow> maap_client \<Rightarrow> addr list \<Rightarrow> bool" where
  "yielded s as r g n s' as' \<longleftrightarrow> renewed s as (blocks s as - {(low n, high n, r)}) g n s' as' \<and>
     rh s' r \<noteq> None \<and> state (the (rh s' r)) = MAAP_STATE_RELEASED"

lemma renewed_SomeI:
  assumes "chosen s as 0 (ucast (high n - low n + 1)) = Some (low iv)" and "high iv = low iv + (high n - low n)"
    and "blocks s' as' = insert (low iv, high iv, r') B" and "rh s r' = None" "rh s' r' = Some g'" "state g' = MAAP_STATE_PROBING"
      "counter g' = MAAP_PROBE_RETRANSMITS" "range_id g' = range_id g" "r_sender g' = r_sender g"
    and "queues s s' (claim_packet s MAAP_PROBE iv)"
    and "notifies s' = notifies s @ [(range_note s MAAP_NOTIFY_YIELDED (range_id g) n MAAP_NOTIFY_ERROR_NONE, r_sender g),
         (range_note s MAAP_NOTIFY_ACQUIRING (range_id g) iv MAAP_NOTIFY_ERROR_NONE, r_sender g)]"
  shows "renewed s as B g n s' as'"
  unfolding renewed_def assms(1) option.case using assms(2-) by blast

text \<open>Removing the old block and releasing its range keeps the new one.\<close>

lemma renewed_release:
  assumes "renewed s as (blocks s as) g n s1 as1" and "rh s r \<noteq> None"
    and "blocks s' as' = blocks s1 as1 - {(low n, high n, r)}"
    and "notifies s' = notifies s1" "mc_net s' = mc_net s1"
    and "\<forall>x f. x \<noteq> r \<longrightarrow> rh s1 x = Some f \<longrightarrow> (\<exists>i. rh s' x = Some (f\<lparr>r_interval := i\<rparr>))"
  shows "renewed s as (blocks s as - {(low n, high n, r)}) g n s' as'"
proof (cases "chosen s as 0 (ucast (high n - low n + 1))")
  case None
  with assms(1,3-5) show ?thesis by (simp add: renewed_def)
next
  case (Some x)
  with assms(1) obtain iv r' g' where iv: "low iv = x" "high iv = x + (high n - low n)" "blocks s1 as1 = insert (low iv, high iv, r') (blocks s as)"
    "rh s r' = None" "rh s1 r' = Some g'" "state g' = MAAP_STATE_PROBING" "counter g' = MAAP_PROBE_RETRANSMITS" "range_id g' = range_id g"
    "r_sender g' = r_sender g" "queues s s1 (claim_packet s MAAP_PROBE iv)"
    "notifies s1 = notifies s @ [(range_note s MAAP_NOTIFY_YIELDED (range_id g) n MAAP_NOTIFY_ERROR_NONE, r_sender g),
         (range_note s MAAP_NOTIFY_ACQUIRING (range_id g) iv MAAP_NOTIFY_ERROR_NONE, r_sender g)]"
    by (auto simp: renewed_def)
  have ne: "r' \<noteq> r" using iv(4) assms(2) by auto
  with assms(6) iv(5) obtain i where i: "rh s' r' = Some (g'\<lparr>r_interval := i\<rparr>)" by blast
  have "queues s s' (claim_packet s MAAP_PROBE iv)" using iv(10) assms(5) by (simp add: queues_def queued_def)
  then show ?thesis
    using iv i ne assms(3,4) Some by (intro renewed_SomeI [where iv = iv and r' = r' and g' = "g'\<lparr>r_interval := i\<rparr>"]) auto
qed

lemma yield_new:
  assumes c: "client_core {} {} s as" and e: "env s" and hd: "held (ih s) as r" and g: "rh s r = Some g"
    and len: "0 < len" "ucast len \<le> range_len s" and late: "\<not> late_success s len" and room: "length (timer_queue s) < 100000"
    and n: "interval_of s r = Some n" "len = ucast (high n - low n + 1)" "ucast len = high n - low n + 1"
  obtains s' as' where "(case malloc s of
        (None, s) \<Rightarrow> inform_yielded s (r_sender g) (range_id g) (Some r) MAAP_NOTIFY_ERROR_OUT_OF_MEMORY
      | (Some nr, s) \<Rightarrow> do {
          let s = new_range s nr (range_id g) (r_sender g);
          (rv, s) \<leftarrow> assign_interval s nr 0 len;
          if rv < 0 then do {
            s \<leftarrow> inform_yielded s (r_sender g) (range_id g) (Some r) MAAP_NOTIFY_ERROR_RESERVE_NOT_AVAILABLE;
            range_free s nr }
          else do {
            s \<leftarrow> schedule_timer s nr;
            (_, s) \<leftarrow> send_probe s nr;
            s \<leftarrow> inform_yielded s (r_sender g) (range_id g) (Some r) MAAP_NOTIFY_ERROR_NONE;
            inform_acquiring s nr } }) = Some s'"
    "client_core {} {} s' as'" "env s'" "grows s as s' as'" "renewed s as (blocks s as) g n s' as'"
proof -
  let ?i = "range_id g" and ?sd = "r_sender g" and ?r = "next_addr s"
  let ?s = "with_new s ?i ?sd"
  have no: "rh s ?r = None" using core_fresh(2) [OF c] by simp
  then have rne: "?r \<noteq> r" using g by auto
  have nq: "?r \<notin> set (timer_queue s)" using with_new_core(3) [OF c] .
  have nr: "new_range (s\<lparr>next_addr := Suc ?r\<rparr>) ?r ?i ?sd = ?s"
    by (simp add: new_range_def with_new_def fresh_range_def Time_setFromMonotonicTimer_def)
  have m: "malloc s = (Some ?r, s\<lparr>next_addr := Suc ?r\<rparr>)" using malloc_ok env_no_oom [OF e] by blast
  have at: "unat (0 :: u64) + unat len \<le> 2 ^ 64" using unat_u16(2) [of len] by simp
  show ?thesis
  proof (rule new_assign [OF c e len at late, of ?i ?sd])
    fix k p
    let ?s2 = "?s\<lparr>next_addr := k, rnd_pos := p\<rparr>"
    assume none: "chosen s as 0 len = None" and f: "assign_interval ?s ?r 0 len = Some (-1, ?s2)" "?r < k" "env ?s2" "client_core {} {?r} ?s2 as"
    have n2: "interval_of ?s2 r = Some n" using n(1) rne by (simp add: interval_of_def)
    let ?s3 = "noted ?s2 ?sd (range_note ?s2 MAAP_NOTIFY_YIELDED ?i n MAAP_NOTIFY_ERROR_RESERVE_NOT_AVAILABLE)"
    have c3: "client_core {} (insert ?r {}) ?s3 as" using noted_core [OF f(4)] by simp
    have undo: "(rh ?s3)(?r := None) = rh s" using no by auto
    have "client_core {} {} (?s3\<lparr>rh := rh s\<rparr>) as"
      using core_free [OF c3] with_new_core(2,3) [OF c] no by (simp add: fun_upd_idem)
    moreover have "env (?s3\<lparr>rh := rh s\<rparr>)" using noted_env [OF f(3)] by (simp add: env_def)
    moreover have "renewed s as (blocks s as) g n (?s3\<lparr>rh := rh s\<rparr>) as"
      using none n(2) by (simp add: renewed_def blocks_def range_note_def)
    ultimately show thesis
      using f(1) m nr inform_range_ok(3) [OF f(3) n2] undo
      by (intro that [of "?s3\<lparr>rh := rh s\<rparr>" as]) (simp_all add: range_free_def heap_free_def grows_def map_le_def)
  next
    fix s' as' n' g'
    assume some: "chosen s as 0 len = Some (low n')" and hi: "high n' = low n' + ucast len - 1"
      and pr: "counter g' = MAAP_PROBE_RETRANSMITS" "state g' = MAAP_STATE_PROBING" "dest_mac s' = dest_mac s"
      and a: "assign_interval ?s ?r 0 len = Some (0, s')"
      and k: "client_core {} {?r} s' as'" "env s'" "held (ih s') as' ?r" "interval_of s' ?r = Some n'"
      "rh s' = (rh s)(?r \<mapsto> g')" "active g'" "\<not> overlapping g'" "range_id g' = ?i" "r_sender g' = ?sd"
      "set (entries (ih s') as') = insert (low n', high n', Some ?r) (set (entries (ih s) as))"
      "timer_queue s' = timer_queue s" "initialized s' = initialized s" "notifies s' = notifies s"
      "mc_net s' = mc_net s" "address_base s' = address_base s" "src_mac s' = src_mac s" "range_len s' = range_len s"
    have g': "rh s' ?r = Some g'" using k(5) by simp
    have l1: "length (remove1 ?r (timer_queue s')) < 100000" using room nq k(11) by (simp add: remove1_idem)
    obtain t q where q: "schedule_timer s' ?r = Some (rescheduled s' ?r g' t q)" "client_core {} {} (rescheduled s' ?r g' t q) as'"
      "env (rescheduled s' ?r g' t q)" "interval_of (rescheduled s' ?r g' t q) ?r = Some n'" "length q = Suc (length (remove1 ?r (timer_queue s')))"
      by (rule schedule_and_send [OF k(1,2,3) g' k(6,4) l1]) blast
    let ?s3 = "rescheduled s' ?r g' t q"
    obtain s4 where s4: "send_probe ?s3 ?r = Some (0, s4)" "sent ?s3 s4 (claim_packet ?s3 MAAP_PROBE n')"
      using send_probe_ok [OF q(3,4)] by blast
    note sc = sent_core [OF s4(2) q(3,2)]
    have hr: "held (ih s4) as' r" using hd k(10) sc(4) by (auto simp: held_entries)
    obtain n4 where n4: "interval_of s4 r = Some n4" using held_interval [OF sc(1) hr] by metis
    let ?s5 = "noted s4 ?sd (range_note s4 MAAP_NOTIFY_YIELDED ?i n4 MAAP_NOTIFY_ERROR_NONE)"
    let ?g = "g'\<lparr>next_act_time := t\<rparr>"
    have n5: "interval_of ?s5 ?r = Some n'" using q(4) sc(3,4) by (simp add: interval_of_def)
    have g5: "rh ?s5 ?r = Some ?g" using sc(3) by simp
    let ?s6 = "noted ?s5 ?sd (range_note ?s5 MAAP_NOTIFY_ACQUIRING ?i n' MAAP_NOTIFY_ERROR_NONE)"
    have e5: "env ?s5" using noted_env [OF sc(2)] .
    have "rh ?s6 = (rh s)(?r \<mapsto> ?g)" using sc(3) k(5) by simp
    then have "flags (rh ?s6) = flags (rh s)" "rh s \<subseteq>\<^sub>m rh ?s6"
      using flags_fresh [of "rh s" _ ?r ?g] no k(7) by (auto simp: map_le_def)
    then have gr: "grows s as ?s6 as'"
      using k(10-17) sc(4,6,7) q(5) nq by (auto simp: grows_def sent_frame [OF s4(2)] remove1_idem)
    have b4: "low n4 = low n" "high n4 = high n"
      using same_bounds [OF c hd n(1) sc(1) hr n4] k(10) sc(4) by auto
    have rn: "renewed s as (blocks s as) g n ?s6 as'"
    proof (rule renewed_SomeI [where iv = n' and r' = ?r and g' = ?g])
      show "blocks ?s6 as' = insert (low n', high n', ?r) (blocks s as)" using k(10) sc(4) by (auto simp: blocks_def)
      have "claim_packet ?s3 MAAP_PROBE n' = claim_packet s MAAP_PROBE n'" using k pr(3) by (intro claim_packet_cong) simp_all
      moreover have "mc_net ?s3 = mc_net s" using k by simp
      ultimately show "queues s ?s6 (claim_packet s MAAP_PROBE n')"
        using queues_cong [OF _ sent_queues [OF s4(2)], of s] by (simp add: queues_def queued_def)
      have "address_base s4 = address_base s" "notifies s4 = notifies s" using k by (simp_all add: sent_frame [OF s4(2)])
      then show "notifies ?s6 = notifies s @ [(range_note s MAAP_NOTIFY_YIELDED ?i n MAAP_NOTIFY_ERROR_NONE, ?sd),
          (range_note s MAAP_NOTIFY_ACQUIRING ?i n' MAAP_NOTIFY_ERROR_NONE, ?sd)]" using b4 by (simp add: range_note_def)
    qed (use some n(2,3) hi g5 no pr k(8,9) in simp_all)
    have cc: "client_core {} {} ?s6 as'" using noted_core [OF noted_core [OF sc(1)]] .
    show thesis
      using a m nr q(1) s4(1) inform_range_ok(3) [OF sc(2) n4] inform_range_ok(4) [OF e5 n5 g5] k(8,9) noted_env [OF e5] gr cc rn
      by (intro that [of ?s6 as']) simp_all
  qed
qed

lemma yield_defending_ok:
  assumes c: "client_core {} {} s as" and e: "env s" and a: "a \<in> set as" "ih s a = Some n" "data n = Some r"
    and late: "\<not> late_success s (ucast (high n - low n + 1))" and room: "length (timer_queue s) < 100000"
  obtains s' as' g where "yield_defending s a r = Some s'" "client_core {} {} s' as'" "env s'" "spares r s as s' as'"
    "length (timer_queue s') \<le> Suc (length (timer_queue s))" "rh s r = Some g" "yielded s as r g n s' as'"
proof -
  have hd: "held (ih s) as r" using a by (force simp: held_def node_data_def)
  from held_interval [OF c hd] obtain b m g where b: "b \<in> set as" "ih s b = Some m" "data m = Some r" "rh s r = Some g"
    "r_interval g = Some b" "active g" "in_pool (range_len s) m" "low m \<le> high m" "interval_of s r = Some m" by metis
  have "b = a" using held_unique [OF c b(1) a(1)] a(2,3) b(2,3) by (simp add: node_data_def)
  then have pool: "in_pool (range_len s) n" "low n \<le> high n" and iv: "interval_of s r = Some n" using a(2) b by simp_all
  let ?len = "ucast (high n - low n + 1) :: u16"
  have len: "0 < ?len" "ucast ?len \<le> range_len s" using size_ok [OF pool] by simp_all
  show ?thesis
  proof (rule yield_new [OF c e hd b(4) len late room iv refl size_ok(2) [OF pool]])
    fix s1 as1
    assume y: "(case malloc s of
        (None, s) \<Rightarrow> inform_yielded s (r_sender g) (range_id g) (Some r) MAAP_NOTIFY_ERROR_OUT_OF_MEMORY
      | (Some nr, s) \<Rightarrow> do {
          let s = new_range s nr (range_id g) (r_sender g);
          (rv, s) \<leftarrow> assign_interval s nr 0 ?len;
          if rv < 0 then do {
            s \<leftarrow> inform_yielded s (r_sender g) (range_id g) (Some r) MAAP_NOTIFY_ERROR_RESERVE_NOT_AVAILABLE;
            range_free s nr }
          else do {
            s \<leftarrow> schedule_timer s nr;
            (_, s) \<leftarrow> send_probe s nr;
            s \<leftarrow> inform_yielded s (r_sender g) (range_id g) (Some r) MAAP_NOTIFY_ERROR_NONE;
            inform_acquiring s nr } }) = Some s1"
      and s1: "client_core {} {} s1 as1" "env s1" "grows s as s1 as1" "renewed s as (blocks s as) g n s1 as1"
    have hd1: "held (ih s1) as1 r" using hd s1(3) by (auto simp: held_entries grows_def)
    have g1: "rh s1 r = Some g" using s1(3) b(4) by (auto simp: grows_def map_le_def dom_def)
    show thesis
    proof (rule remove_release [OF s1(1,2) hd1])
      fix s' as' a1 g2 n1
      assume rel: "\<exists>g'. rh s' r = Some g' \<and> state g' = MAAP_STATE_RELEASED \<and> range_id g' = range_id g2" "interval_of s1 r = Some n1"
        "notifies s' = notifies s1" "mc_net s' = mc_net s1" "\<forall>x f. x \<noteq> r \<longrightarrow> rh s1 x = Some f \<longrightarrow> (\<exists>i. rh s' x = Some (f\<lparr>r_interval := i\<rparr>))"
        and r: "r_interval g2 = Some a1" "rh s1 r = Some g2"
        "do { s \<leftarrow> remove_range_interval s1 a1; range_upd s r (\<lambda>g. g\<lparr>state := MAAP_STATE_RELEASED\<rparr>) } = Some s'"
        "client_core {} {} s' as'" "env s'" "set (entries (ih s') as') = set (entries (ih s1) as1) - {(low n1, high n1, Some r)}"
        "flags (rh s') = flags (rh s1)" "initialized s' = initialized s1" "timer_queue s' = timer_queue s1"
        "address_base s' = address_base s1" "src_mac s' = src_mac s1" "range_len s' = range_len s1"
      have "a1 = a" using r(1,2) g1 b(5) \<open>b = a\<close> by simp
      then have "yield_defending s a r = Some s'"
        using a(2) b(4) y r(3) by (simp add: yield_defending_def Let_def)
      moreover have "spares r s as s' as'" using s1(3) r by (auto simp: grows_def spares_def)
      moreover have "length (timer_queue s') \<le> Suc (length (timer_queue s))" using s1(3) r(9) by (simp add: grows_def)
      moreover have "low n1 = low n" "high n1 = high n"
        using same_bounds [OF c hd iv s1(1) hd1 rel(2)] s1(3) by (simp_all add: grows_def)
      then have "blocks s' as' = blocks s1 as1 - {(low n, high n, r)}" using r(6) by (auto simp: blocks_def)
      then have "yielded s as r g n s' as'"
        using renewed_release [OF s1(4) _ _ rel(3,4,5)] b(4) rel(1) by (auto simp: yielded_def)
      ultimately show thesis using that [of s' as' g] r(4,5) b(4) by blast
    qed
  qed
qed

end
