(* ===== verification/Maap_Packets.thy ===== *)
theory Maap_Packets
  imports Maap_Conflict
begin

text \<open>
  The packet handler as a whole: which ranges it visits, that it resolves each conflict
  once, and that it returns with the invariant.
\<close>

section \<open>Flagging\<close>

definition hit :: "maap_client \<Rightarrow> u32 \<Rightarrow> u32 \<Rightarrow> addr \<Rightarrow> bool" where
  "hit s start cnt a \<longleftrightarrow> interval_check_overlap (the (ih s a)) start cnt"

definition ranges_of :: "iheap \<Rightarrow> addr list \<Rightarrow> addr set" where
  "ranges_of h as = {r. \<exists>a\<in>set as. node_data h a = Some r}"

lemma core_node:
  assumes c: "client_core {} {} s as" and a: "a \<in> set as"
  obtains n r g where "ih s a = Some n" "data n = Some r" "node_data (ih s) a = Some r" "rh s r = Some g" "active g" "r_interval g = Some a"
proof -
  have "owned (ih s) (rh s) a" using c a by (simp add: core_def)
  then obtain r g where r: "node_data (ih s) a = Some r" "rh s r = Some g" "r_interval g = Some a" "active g"
    by (auto simp: owned_def)
  obtain n where n: "ih s a = Some n" using irep_live [OF core_tree(1) [OF c] a] by blast
  with r that show ?thesis by (simp add: node_data_def)
qed

lemma core_flag:
  assumes c: "client_core {} {} s as" and g: "rh s r = Some g"
  shows "client_core {} {} (s\<lparr>rh := (rh s)(r \<mapsto> g\<lparr>overlapping := b\<rparr>)\<rparr>) as"
proof -
  have "state g \<noteq> MAAP_STATE_INVALID" "0 \<le> counter g" using c g by (auto simp: core_def ranges_ok_def)
  then show ?thesis using core_upd [OF c g, of "g\<lparr>overlapping := b\<rparr>"] by (simp add: active_def)
qed

lemma flag_loop_ok:
  assumes "client_core {} {} s (xs @ ys)"
  shows "\<exists>rg. flag_loop (case ys of [] \<Rightarrow> None | a # _ \<Rightarrow> Some a) start cnt k s =
      Some (k + length (takeWhile (hit s start cnt) ys), s\<lparr>rh := rg\<rparr>) \<and>
    client_core {} {} (s\<lparr>rh := rg\<rparr>) (xs @ ys) \<and>
    flags rg = flags (rh s) \<union> ranges_of (ih s) (takeWhile (hit s start cnt) ys)"
  using assms
proof (induction ys arbitrary: xs k s)
  case Nil
  have "s\<lparr>rh := rh s\<rparr> = s" by simp
  with Nil show ?case by (intro exI [of _ "rh s"]) (simp add: flag_loop.simps ranges_of_def)
next
  case (Cons a ys)
  obtain n r g where a: "ih s a = Some n" "data n = Some r" "node_data (ih s) a = Some r" "rh s r = Some g"
    by (rule core_node [OF Cons.prems, of a]) auto
  have nxt: "next_interval (ih s) a = Some (case ys of [] \<Rightarrow> None | b # _ \<Rightarrow> Some b)"
    using next_interval_irep [OF core_tree(1) [OF Cons.prems]] .
  show ?case
  proof (cases "hit s start cnt a")
    case False
    have "s\<lparr>rh := rh s\<rparr> = s" by simp
    with False a Cons.prems show ?thesis
      by (intro exI [of _ "rh s"]) (subst flag_loop.simps, simp add: hit_def ranges_of_def)
  next
    case True
    let ?s = "s\<lparr>rh := (rh s)(r \<mapsto> g\<lparr>overlapping := True\<rparr>)\<rparr>"
    have "client_core {} {} ?s ((xs @ [a]) @ ys)" using core_flag [OF Cons.prems a(4)] by simp
    from Cons.IH [OF this, of "Suc k"] obtain rg where rg:
      "flag_loop (case ys of [] \<Rightarrow> None | a # _ \<Rightarrow> Some a) start cnt (Suc k) ?s =
        Some (Suc k + length (takeWhile (hit ?s start cnt) ys), ?s\<lparr>rh := rg\<rparr>)"
      "client_core {} {} (?s\<lparr>rh := rg\<rparr>) ((xs @ [a]) @ ys)"
      "flags rg = flags (rh ?s) \<union> ranges_of (ih ?s) (takeWhile (hit ?s start cnt) ys)" by blast
    have h: "hit ?s start cnt = hit s start cnt" by (simp add: hit_def fun_eq_iff)
    have "flag_loop (Some a) start cnt k s = Some (k + length (takeWhile (hit s start cnt) (a # ys)), s\<lparr>rh := rg\<rparr>)"
    proof -
      have "interval_check_overlap n start cnt" using True a(1) by (simp add: hit_def)
      then show ?thesis using True a rg(1) [unfolded h] nxt by (subst flag_loop.simps) (simp add: range_upd_def)
    qed
    moreover have "flags rg = flags (rh s) \<union> ranges_of (ih s) (takeWhile (hit s start cnt) (a # ys))"
      using rg(3) True a(3) h by (auto simp: flags_upd ranges_of_def)
    ultimately show ?thesis using rg(2) by auto
  qed
qed

lemma find_flagged_ok:
  assumes "client_core {} {} s (xs @ ys)"
  shows "find_flagged s (case ys of [] \<Rightarrow> None | a # _ \<Rightarrow> Some a) =
    Some (find (\<lambda>a. \<exists>r\<in>flags (rh s). node_data (ih s) a = Some r) ys)"
  using assms
proof (induction ys arbitrary: xs)
  case Nil
  then show ?case by (simp add: find_flagged.simps)
next
  case (Cons a ys)
  obtain n r g where a: "ih s a = Some n" "data n = Some r" "node_data (ih s) a = Some r" "rh s r = Some g"
    by (rule core_node [OF Cons.prems, of a]) auto
  have nxt: "next_interval (ih s) a = Some (case ys of [] \<Rightarrow> None | b # _ \<Rightarrow> Some b)"
    using next_interval_irep [OF core_tree(1) [OF Cons.prems]] .
  have f: "overlapping g \<longleftrightarrow> r \<in> flags (rh s)" using a(4) by (simp add: flags_def)
  have "find_flagged s (case ys of [] \<Rightarrow> None | b # _ \<Rightarrow> Some b) = Some (find (\<lambda>a. \<exists>r\<in>flags (rh s). node_data (ih s) a = Some r) ys)"
    using Cons.IH [of "xs @ [a]"] Cons.prems by simp
  then show ?case using a f nxt by (subst find_flagged.simps) simp
qed

lemma search_split:
  assumes "client_core N U s as"
  obtains xs ys where "as = xs @ ys" "\<forall>a\<in>set xs. \<not> hit s start cnt a"
    "search_interval (ih s) (ranges s) start cnt = Some (case ys of [] \<Rightarrow> None | a # _ \<Rightarrow> Some a)"
proof -
  let ?ys = "dropWhile (\<lambda>a. \<not> hit s start cnt a) as" and ?xs = "takeWhile (\<lambda>a. \<not> hit s start cnt a) as"
  have h: "hits (ih s) a (query start cnt) = hit s start cnt a" for a
    by (auto simp: hits_def query_def entry_of_def hit_def interval_check_overlap_def)
  have "find P as = (case dropWhile (\<lambda>a. \<not> P a) as of [] \<Rightarrow> None | a # _ \<Rightarrow> Some a)" for P :: "addr \<Rightarrow> bool"
    by (induction as) auto
  then have "search_interval (ih s) (ranges s) start cnt = Some (case ?ys of [] \<Rightarrow> None | a # _ \<Rightarrow> Some a)"
    using search_interval_irep [OF core_tree(1,2) [OF assms], of start cnt] by (simp add: h)
  then show ?thesis by (intro that [of ?xs ?ys]) (auto dest: set_takeWhileD)
qed

section \<open>One conflict\<close>

text \<open>
  The condition that no search for a new interval succeeds exactly at the last try,
  along the iterations of the loop.
\<close>

definition late_overlap :: "maap_client \<Rightarrow> maap_packet \<Rightarrow> u32 \<Rightarrow> bool" where
  "late_overlap s p start =
     (case do { first \<leftarrow> search_interval (ih s) (ranges s) start (ucast (requested_count p));
                flagged \<leftarrow> find_flagged s first;
                iv \<leftarrow> flagged;
                ih s iv } of
        None \<Rightarrow> False
      | Some n \<Rightarrow> late_success s (ucast (high n - low n + 1)))"

fun settled :: "nat \<Rightarrow> maap_client \<Rightarrow> maap_packet \<Rightarrow> u32 \<Rightarrow> bool" where
  "settled 0 s p start = True"
| "settled (Suc k) s p start = (\<not> late_overlap s p start \<and>
     (case handle_overlap s p start of None \<Rightarrow> True | Some s' \<Rightarrow> settled k s' p start))"

definition conflicts :: "addr set \<Rightarrow> maap_packet \<Rightarrow> u32 \<Rightarrow> maap_client \<Rightarrow> addr list \<Rightarrow> bool" where
  "conflicts F p start s as \<longleftrightarrow> client_core {} {} s as \<and> env s \<and> initialized s \<and> flags (rh s) = F \<and> finite F \<and>
     (\<forall>r\<in>F. \<exists>l u. (l, u, Some r) \<in> set (entries (ih s) as) \<and>
        overlaps (l, u, None) (start, start + ucast (requested_count p) - 1, None)) \<and>
     length (timer_queue s) + card F \<le> 100000"

text \<open>The flagged range that is visited next.\<close>

lemma visit:
  assumes c: "conflicts F p start s as" and F: "F \<noteq> {}"
  obtains a n r g where "a \<in> set as" "ih s a = Some n" "data n = Some r" "rh s r = Some g" "active g" "r \<in> F"
    "do { first \<leftarrow> search_interval (ih s) (ranges s) start (ucast (requested_count p)); find_flagged s first } = Some (Some a)"
proof -
  let ?cnt = "ucast (requested_count p) :: u32"
  have cc: "client_core {} {} s as" and fl: "flags (rh s) = F" using c by (simp_all add: conflicts_def)
  obtain r0 where r0: "r0 \<in> F" using F by blast
  with c obtain l u where "(l, u, Some r0) \<in> set (entries (ih s) as)" "overlaps (l, u, None) (start, start + ?cnt - 1, None)"
    by (auto simp: conflicts_def)
  then obtain a0 where a0: "a0 \<in> set as" "entry_of (the (ih s a0)) = (l, u, Some r0)" "hit s start ?cnt a0"
    by (auto simp: entries_iff hit_def interval_check_overlap_def entry_of_def)
  obtain xs ys where y: "as = xs @ ys" "\<forall>a\<in>set xs. \<not> hit s start ?cnt a"
    "search_interval (ih s) (ranges s) start ?cnt = Some (case ys of [] \<Rightarrow> None | a # _ \<Rightarrow> Some a)"
    using search_split [OF cc] by metis
  have "a0 \<in> set ys" using a0 y by auto
  moreover have "node_data (ih s) a0 = Some r0" using a0(2) by (simp add: node_data_def entry_of_def)
  ultimately obtain a where a: "find (\<lambda>a. \<exists>r\<in>flags (rh s). node_data (ih s) a = Some r) ys = Some a"
    using r0 fl by (cases "find (\<lambda>a. \<exists>r\<in>flags (rh s). node_data (ih s) a = Some r) ys") (auto simp: find_None_iff)
  then obtain r where r: "a \<in> set ys" "r \<in> F" "node_data (ih s) a = Some r"
    using fl by (auto simp: find_Some_iff)
  have as: "a \<in> set as" using r(1) y(1) by simp
  obtain n r' g where n: "ih s a = Some n" "data n = Some r'" "node_data (ih s) a = Some r'" "rh s r' = Some g" "active g"
    using core_node [OF cc as] by metis
  have "find_flagged s (case ys of [] \<Rightarrow> None | a # _ \<Rightarrow> Some a) = Some (Some a)"
    using find_flagged_ok [of s xs ys] cc y(1) a by simp
  with y(3) n r as that show ?thesis by auto
qed


lemma conflicts_step:
  assumes c: "conflicts F p start s as" and r: "r \<in> F" and s': "client_core {} {} s' as'" "env s'"
    and f: "flags (rh s') = F - {r}" "initialized s' = initialized s"
      "\<And>l u x. x \<noteq> r \<Longrightarrow> (l, u, Some x) \<in> set (entries (ih s) as) \<Longrightarrow> (l, u, Some x) \<in> set (entries (ih s') as')"
      "length (timer_queue s') \<le> Suc (length (timer_queue s))"
  shows "conflicts (F - {r}) p start s' as'"
proof -
  have "finite F" using c by (simp add: conflicts_def)
  then have "Suc (card (F - {r})) = card F" using r by (rule card_Suc_Diff1)
  moreover have "length (timer_queue s) + card F \<le> 100000" using c by (simp add: conflicts_def)
  ultimately have "length (timer_queue s') + card (F - {r}) \<le> 100000" using f(4) by linarith
  moreover have "\<exists>l u. (l, u, Some x) \<in> set (entries (ih s') as') \<and>
      overlaps (l, u, None) (start, start + ucast (requested_count p) - 1, None)" if "x \<in> F - {r}" for x
    using that c f(3) by (fastforce simp: conflicts_def)
  ultimately show ?thesis using c s' f(1,2) by (simp add: conflicts_def)
qed

lemma handle_overlap_ok:
  assumes c: "conflicts F p start s as" and F: "F \<noteq> {}" and late: "\<not> late_overlap s p start"
  obtains r s' as' where "handle_overlap s p start = Some s'" "r \<in> F" "conflicts (F - {r}) p start s' as'"
proof -
  obtain a n r g where a: "a \<in> set as" "ih s a = Some n" "data n = Some r" "rh s r = Some g" "active g" "r \<in> F"
    "do { first \<leftarrow> search_interval (ih s) (ranges s) start (ucast (requested_count p)); find_flagged s first } = Some (Some a)"
    using visit [OF c F] by metis
  have cc: "client_core {} {} s as" and e: "env s" and fl: "flags (rh s) = F" and fin: "finite F"
    and room: "length (timer_queue s) + card F \<le> 100000" using c by (simp_all add: conflicts_def)
  have "0 < card F" using F fin by (simp add: card_gt_0_iff)
  with room have room1: "length (timer_queue s) < 100000" by linarith
  let ?g = "g\<lparr>overlapping := False\<rparr>"
  let ?s = "s\<lparr>rh := (rh s)(r \<mapsto> ?g)\<rparr>"
  have c1: "client_core {} {} ?s as" using core_flag [OF cc a(4)] .
  have e1: "env ?s" using e by (simp add: env_def)
  have f1: "flags (rh ?s) = F - {r}" using fl by (simp add: flags_upd)
  have late1: "\<not> late_success ?s (ucast (high n - low n + 1))"
    using late a(2,7) late_success_cong [of ?s s] by (auto simp: late_overlap_def elim!: bind_SomeE)
  have done_: "conflicts (F - {r}) p start s' as'"
    if "client_core {} {} s' as'" "env s'" "spares r ?s as s' as'" "length (timer_queue s') \<le> Suc (length (timer_queue s))" for s' as'
    using that f1 by (intro conflicts_step [OF c a(6)]) (auto simp: spares_def)
  have a1: "ih ?s a = Some n" using a(2) by simp
  obtain s1 as1 where mv: "move_probing ?s a r = Some s1" "conflicts (F - {r}) p start s1 as1"
  proof (rule move_probing_ok [OF c1 e1 a(1) a1 a(3) late1])
    fix s' as'
    assume "move_probing ?s a r = Some s'" "client_core {} {} s' as'" "env s'" "spares r ?s as s' as'"
      "length (timer_queue s') = length (timer_queue ?s)"
    then show thesis using done_ [of s' as'] that by simp
  qed (use room1 in simp)
  obtain s2 as2 where yd: "yield_defending ?s a r = Some s2" "conflicts (F - {r}) p start s2 as2"
  proof (rule yield_defending_ok [OF c1 e1 a(1) a1 a(3) late1])
    fix s' as'
    assume "yield_defending ?s a r = Some s'" "client_core {} {} s' as'" "env s'" "spares r ?s as s' as'"
      "length (timer_queue s') \<le> Suc (length (timer_queue ?s))"
    then show thesis using done_ [of s' as'] that by simp
  qed (use room1 in simp)
  have same: "conflicts (F - {r}) p start ?s as" using done_ [OF c1 e1] by (simp add: spares_def)
  have hd: "held (ih ?s) as r" using a(1-3) by (force simp: held_def node_data_def)
  obtain m where "interval_of ?s r = Some m" using held_interval [OF c1 hd] by metis
  then obtain s3 where df: "send_defend ?s r (requested_start_address p) (requested_count p) (SA p) = Some (0, s3)"
    "sent ?s s3 (defend_packet ?s m (requested_start_address p) (requested_count p) (SA p))"
    using send_defend_ok [OF e1] by blast
  have dfc: "conflicts (F - {r}) p start s3 as"
    using done_ [of s3 as] sent_core [OF df(2) e1 c1] by (simp add: spares_def sent_frame [OF df(2)])
  have unf: "handle_overlap s p start = (if state g = MAAP_STATE_PROBING then
       (if message_type p = MAAP_PROBE \<and> compare_mac_addresses (src_mac s) (SA p) then Some ?s else move_probing ?s a r)
     else if state g = MAAP_STATE_DEFENDING then
       (if message_type p = MAAP_PROBE then Some s3
        else if compare_mac_addresses (src_mac s) (SA p) then Some ?s else yield_defending ?s a r)
     else Some ?s)"
    using a(2-4,7) df(1) by (auto simp: handle_overlap_def range_upd_def elim!: bind_SomeE)
  have "\<exists>s' as'. handle_overlap s p start = Some s' \<and> conflicts (F - {r}) p start s' as'"
    using mv yd same dfc unfolding unf by auto
  with that a(6) show ?thesis by blast
qed

lemma handle_overlaps_ok:
  assumes "conflicts F p start s as" and "settled (card F) s p start"
  shows "\<exists>s' as'. handle_overlaps (card F) s p start = Some s' \<and> conflicts {} p start s' as'"
  using assms
proof (induction "card F" arbitrary: F s as)
  case 0
  then have "F = {}" by (simp add: conflicts_def)
  with 0 show ?case by auto
next
  case (Suc k)
  then have F: "F \<noteq> {}" by auto
  have st: "\<not> late_overlap s p start" "case handle_overlap s p start of None \<Rightarrow> True | Some s' \<Rightarrow> settled k s' p start"
    using Suc.prems(2) unfolding Suc.hyps(2) [symmetric] by simp_all
  obtain r s' as' where r: "handle_overlap s p start = Some s'" "r \<in> F" "conflicts (F - {r}) p start s' as'"
    using handle_overlap_ok [OF Suc.prems(1) F st(1)] by metis
  have k: "k = card (F - {r})" using Suc.hyps(2) r(2) by (simp add: card_Diff_singleton)
  from Suc.hyps(1) [OF k r(3)] st(2) r(1) k obtain s'' as'' where
    "handle_overlaps k s' p start = Some s''" "conflicts {} p start s'' as''" by auto
  with r(1) show ?case unfolding Suc.hyps(2) [symmetric] by auto
qed


section \<open>The handler\<close>

lemma card_ranges_of:
  assumes c: "client_core {} {} s as" and z: "set zs \<subseteq> set as" "distinct zs"
  shows "card (ranges_of (ih s) zs) = length zs" "finite (ranges_of (ih s) zs)" "ranges_of (ih s) zs \<subseteq> dom (rh s)"
proof -
  have some: "\<exists>r. node_data (ih s) a = Some r \<and> r \<in> dom (rh s)" if "a \<in> set zs" for a
    using core_node [OF c, of a] that z(1) by (metis domI subsetD)
  have im: "ranges_of (ih s) zs = (\<lambda>a. the (node_data (ih s) a)) ` set zs"
    unfolding ranges_of_def using some by (force simp: image_iff)
  have "inj_on (\<lambda>a. the (node_data (ih s) a)) (set zs)"
  proof (rule inj_onI)
    fix a b assume ab: "a \<in> set zs" "b \<in> set zs" "the (node_data (ih s) a) = the (node_data (ih s) b)"
    then obtain r where "node_data (ih s) a = Some r" "node_data (ih s) b = Some r" using some by force
    then show "a = b" using held_unique [OF c] ab(1,2) z(1) by (meson subsetD)
  qed
  then show "card (ranges_of (ih s) zs) = length zs" unfolding im using z(2) by (simp add: card_image distinct_card)
  show "finite (ranges_of (ih s) zs)" unfolding im by simp
  show "ranges_of (ih s) zs \<subseteq> dom (rh s)" unfolding im using some by force
qed

lemma ranges_le_queue: "maap_inv s as \<Longrightarrow> length as \<le> length (timer_queue s)"
proof -
  assume inv: "maap_inv s as"
  then have c: "client_core {} {} s as" by (simp add: maap_inv_def)
  have "distinct as" using irep_distinct [OF core_tree(1) [OF c]] .
  note r = card_ranges_of [OF c order.refl this]
  have "dom (rh s) \<subseteq> set (timer_queue s)" using c by (auto simp: core_def queue_ok_def)
  then have "card (ranges_of (ih s) as) \<le> card (set (timer_queue s))" using r(3) by (intro card_mono) auto
  then show ?thesis using r(1) card_length [of "timer_queue s"] by simp
qed

definition packet_settled :: "maap_client \<Rightarrow> u8 list \<Rightarrow> bool" where
  "packet_settled s stream =
     (case do {
        (rv, p) \<leftarrow> unpack_maap (replicate 8 0) (replicate 2 0) stream;
        let start = ucast (requested_start_address p - address_base s);
        iv \<leftarrow> search_interval (ih s) (ranges s) start (ucast (requested_count p));
        (num_overlaps, s) \<leftarrow> flag_loop iv start (ucast (requested_count p)) 0 s;
        Some (settled num_overlaps s p start) } of
      None \<Rightarrow> True | Some b \<Rightarrow> b)"

lemma conflicts_start:
  assumes inv: "maap_inv s as" and room: "2 * length (timer_queue s) \<le> 100000"
  obtains iv F s1 where "search_interval (ih s) (ranges s) start (ucast (requested_count p)) = Some iv"
    "flag_loop iv start (ucast (requested_count p)) 0 s = Some (card F, s1)" "conflicts F p start s1 as"
proof -
  let ?cnt = "ucast (requested_count p) :: u32"
  have c: "client_core {} {} s as" and e: "env s" and fl: "flags (rh s) = {}" and ini: "initialized s"
    using inv by (simp_all add: maap_inv_def)
  obtain xs ys where y: "as = xs @ ys" "search_interval (ih s) (ranges s) start ?cnt = Some (case ys of [] \<Rightarrow> None | a # _ \<Rightarrow> Some a)"
    using search_split [OF c, of start ?cnt] by metis
  let ?zs = "takeWhile (hit s start ?cnt) ys" and ?F = "ranges_of (ih s) (takeWhile (hit s start ?cnt) ys)"
  obtain rg where rg: "flag_loop (case ys of [] \<Rightarrow> None | a # _ \<Rightarrow> Some a) start ?cnt 0 s = Some (length ?zs, s\<lparr>rh := rg\<rparr>)"
    "client_core {} {} (s\<lparr>rh := rg\<rparr>) as" "flags rg = ?F"
    using flag_loop_ok [of s xs ys start ?cnt 0] c y(1) fl by auto
  have d: "distinct as" using irep_distinct [OF core_tree(1) [OF c]] .
  have z: "set ?zs \<subseteq> set as" "distinct ?zs" using y(1) d by (auto dest: set_takeWhileD)
  note F = card_ranges_of [OF c z]
  have "length ?zs \<le> length as" using length_takeWhile_le [of "hit s start ?cnt" ys] y(1) by simp
  then have "length (timer_queue s) + card ?F \<le> 100000" using F(1) ranges_le_queue [OF inv] room by linarith
  moreover have "\<exists>l u. (l, u, Some r) \<in> set (entries (ih s) as) \<and> overlaps (l, u, None) (start, start + ?cnt - 1, None)" if r: "r \<in> ?F" for r
  proof -
    from r obtain a where a: "a \<in> set ?zs" "node_data (ih s) a = Some r" by (auto simp: ranges_of_def)
    then have "a \<in> set as" "hit s start ?cnt a" using z(1) by (auto dest: set_takeWhileD)
    moreover have "entry_of (the (ih s a)) = (low (the (ih s a)), high (the (ih s a)), Some r)"
      using a(2) by (simp add: entry_of_def node_data_def)
    ultimately show ?thesis unfolding entries_iff
      by (intro exI [of _ "low (the (ih s a))"] exI [of _ "high (the (ih s a))"]) (auto simp: hit_def interval_check_overlap_def)
  qed
  ultimately have "conflicts ?F p start (s\<lparr>rh := rg\<rparr>) as"
    using rg(2,3) F(2) e ini by (simp add: conflicts_def env_def)
  with y(2) rg(1) F(1) that show ?thesis by metis
qed

lemma handle_packet_ok:
  assumes inv: "maap_inv s as" and room: "2 * length (timer_queue s) \<le> 100000" and st: "packet_settled s stream"
    and len: "len \<le> int (length stream)"
  shows "\<exists>rv s' as'. maap_handle_packet s stream len = Some (rv, s') \<and> maap_inv s' as'"
proof (cases "len < int MAAP_PKT_SIZE")
  case True
  then show ?thesis using inv by (auto simp: maap_handle_packet_def)
next
  case False
  then have l: "42 \<le> length stream" using len by (simp add: MAAP_PKT_SIZE_def)
  obtain p where p: "unpack_maap (replicate 8 0) (replicate 2 0) stream = Some (0, p)"
    using unpack_maap_stream [OF l, of "replicate 8 0" "replicate 2 0"] by auto
  let ?start = "ucast (requested_start_address p - address_base s) :: u32"
  obtain iv F s1 where k: "search_interval (ih s) (ranges s) ?start (ucast (requested_count p)) = Some iv"
    "flag_loop iv ?start (ucast (requested_count p)) 0 s = Some (card F, s1)" "conflicts F p ?start s1 as"
    using conflicts_start [OF inv room] by metis
  have "settled (card F) s1 p ?start" using st p k by (simp add: packet_settled_def Let_def)
  then obtain s2 as2 where s2: "handle_overlaps (card F) s1 p ?start = Some s2" "conflicts {} p ?start s2 as2"
    using handle_overlaps_ok [OF k(3)] by blast
  then have c2: "client_core {} {} s2 as2" "env s2" "initialized s2" "flags (rh s2) = {}" by (simp_all add: conflicts_def)
  obtain tm where tm: "start_timer s2 = Some (s2\<lparr>mc_timer := Some tm\<rparr>)" "env (s2\<lparr>mc_timer := Some tm\<rparr>)"
    using start_timer_ok [OF c2(2,1)] by blast
  have "maap_inv (s2\<lparr>mc_timer := Some tm\<rparr>) as2" using c2 tm(2) by (simp add: maap_inv_def)
  then show ?thesis
    using False p k(1,2) s2(1) tm(1) inv by (auto simp: maap_handle_packet_def Let_def)
qed

end
