(* ===== verification/Maap_Timers.thy ===== *)
theory Maap_Timers
  imports Maap_Packets
begin

text \<open>
  Timer events, and the beginning and the end of a client: the timer loop ends, each
  probing range counts down to its acquisition, and deinitialisation frees all memory.
\<close>

section \<open>One timer event\<close>

lemma core_dequeue:
  assumes "core N U h root as rg (r # q) len nxt"
  shows "core N (insert r U) h root as rg q len nxt"
  using assms unfolding core_def ranges_ok_def queue_ok_def by auto

text \<open>The ranges of the queue whose time has come.\<close>

definition due :: "time \<Rightarrow> maap_client \<Rightarrow> addr set" where
  "due T s = {x \<in> set (timer_queue s). act_time (rh s) x \<le> T}"

lemma finite_due [simp]: "finite (due T s)"
  by (simp add: due_def)

definition timed :: "time \<Rightarrow> maap_client \<Rightarrow> addr list \<Rightarrow> bool" where
  "timed T s as \<longleftrightarrow> maap_inv s as \<and> length (timer_queue s) \<le> 100000 \<and> T \<le> clock s (clock_pos s)"

text \<open>Rescheduling the range at the head of the queue, after its state or counter changed.\<close>

lemma event_reschedule:
  assumes t: "timed T s as" and q: "timer_queue s = r # q" and g: "rh s r = Some g" "active g"
    and g': "r_interval g' = r_interval g" "active g'" "0 \<le> counter g'" "next_act_time g' = next_act_time g" "overlapping g' = overlapping g"
    and u: "u = s\<lparr>timer_queue := q, rh := (rh s)(r \<mapsto> g'), next_addr := k, notifies := ns\<rparr>" "next_addr s \<le> k"
  obtains t' q' n where "schedule_timer u r = Some (rescheduled u r g' t' q')" "maap_inv (rescheduled u r g' t' q') as"
    "interval_of (rescheduled u r g' t' q') r = Some n" "T < t'" "delay_ok (state g') (clock s (clock_pos s)) t'"
    "set q' = set (timer_queue s)" "length q' = length (timer_queue s)" "interval_of s r = Some n"
proof -
  have inv: "maap_inv s as" and room: "length (timer_queue s) \<le> 100000" and T: "T \<le> clock s (clock_pos s)"
    using t by (simp_all add: timed_def)
  have c: "client_core {} {} s as" and e: "env s" and fl: "flags (rh s) = {}" and ini: "initialized s"
    using inv by (simp_all add: maap_inv_def)
  have c1: "core {} {r} (ih s) (ranges s) as (rh s) q (range_len s) (next_addr s)"
    using core_dequeue [of "{}" "{}"] c q by simp
  have st: "state g' \<noteq> MAAP_STATE_INVALID" using g'(2) by (auto simp: active_def)
  have "core {} {r} (ih s) (ranges s) as ((rh s)(r \<mapsto> g')) q (range_len s) (next_addr s)"
    using core_upd [OF c1 g(1) g'(1) _ st g'(3,4)] g(2) g'(2) by simp
  then have cu: "client_core {} (insert r {}) u as" using core_mono [OF _ u(2)] by (simp add: u(1))
  have eu: "env u" using env_net [OF e u(2)] e by (simp add: u(1) env_def)
  have hu: "held (ih u) as r" using inv_held [OF inv g] by (simp add: u(1))
  have gu: "rh u r = Some g'" by (simp add: u(1))
  obtain n where n: "interval_of u r = Some n" using held_interval [OF cu hu] by metis
  have ns: "interval_of s r = Some n" using n g(1) g'(1) by (simp add: u(1) interval_of_def)
  have nq: "r \<notin> set q" "distinct (timer_queue s)" using c q by (auto simp: core_def queue_ok_def)
  have len: "length (timer_queue s) = Suc (length q)" using q by simp
  have l: "length (remove1 r (timer_queue u)) < 100000" using room nq len by (simp add: u(1) remove1_idem)
  show ?thesis
  proof (rule schedule_and_send [OF cu eu hu gu g'(2) n l])
    fix t' q'
    assume k: "schedule_timer u r = Some (rescheduled u r g' t' q')" "client_core {} {} (rescheduled u r g' t' q') as"
      "env (rescheduled u r g' t' q')" "interval_of (rescheduled u r g' t' q') r = Some n"
      "delay_ok (state g') (clock u (clock_pos u)) t'" "set q' = insert r (set (timer_queue u))"
      "length q' = Suc (length (remove1 r (timer_queue u)))"
    have "flags (rh (rescheduled u r g' t' q')) = {}"
      using fl g(1) g'(5) by (auto simp: u(1) flags_upd flags_def)
    then have "maap_inv (rescheduled u r g' t' q') as" using k(2,3) ini by (simp add: maap_inv_def u(1))
    moreover have d: "delay_ok (state g') (clock s (clock_pos s)) t'" using k(5) by (simp add: u(1))
    then have "T < t'" using T by (auto simp: delay_ok_def)
    ultimately show thesis
      using that [of t' q' n] k nq ns len q by (simp add: u(1) remove1_idem)
  qed
qed

lemma due_reschedule:
  assumes "timer_queue s = r # q" and "set q' = set (timer_queue s)" and "T < t'"
    and "timer_queue s' = q'" and "rh s' = (rh s)(r \<mapsto> g\<lparr>next_act_time := t'\<rparr>)"
    and "act_time (rh s) r \<le> T"
  shows "due T s' = due T s - {r}" "r \<in> due T s"
  using assms by (auto simp: due_def act_time_upd)

lemma timed_sent:
  assumes "maap_inv s1 as" and "sent s1 s' p" and "length (timer_queue s1) \<le> 100000" and "T \<le> clock s1 (clock_pos s1)"
  shows "timed T s' as"
proof -
  have c: "client_core {} {} s1 as" and e: "env s1" using assms(1) by (simp_all add: maap_inv_def)
  show ?thesis using assms sent_core [OF assms(2) e c] by (simp add: timed_def maap_inv_def sent_frame [OF assms(2)])
qed

lemma clock_later: "env s \<Longrightarrow> T \<le> clock s (clock_pos s) \<Longrightarrow> T \<le> clock s (Suc (clock_pos s))"
  by (simp add: env_def) (meson lessI less_imp_le monoD order_trans)


text \<open>
  What the timer of a range leaves alone.  A probe timer in particular: either the last probe went unanswered and the
  range is acquired and announced, or another probe is sent.
\<close>

definition stepped :: "maap_client \<Rightarrow> addr \<Rightarrow> maap_client \<Rightarrow> bool" where
  "stepped s r s' \<longleftrightarrow> ih s' = ih s \<and> address_base s' = address_base s \<and> clock s' = clock s \<and> clock_pos s \<le> clock_pos s' \<and>
     (\<exists>ns. notifies s' = notifies s @ ns) \<and> (\<forall>x. x \<noteq> r \<longrightarrow> rh s' x = rh s x)"

definition probed :: "maap_client \<Rightarrow> addr \<Rightarrow> range \<Rightarrow> interval \<Rightarrow> maap_client \<Rightarrow> bool" where
  "probed s r g n s' \<longleftrightarrow> interval_of s r = Some n \<and> ih s' = ih s \<and> address_base s' = address_base s \<and>
     (\<exists>t. rh s' = (rh s)(r \<mapsto> (if counter g = 0 then g\<lparr>state := MAAP_STATE_DEFENDING\<rparr> else g\<lparr>counter := counter g - 1\<rparr>)
        \<lparr>next_act_time := t\<rparr>)) \<and>
     notifies s' = notifies s @ (if counter g = 0
       then [(range_note s MAAP_NOTIFY_ACQUIRED (range_id g) n MAAP_NOTIFY_ERROR_NONE, r_sender g)] else []) \<and>
     queues s s' (claim_packet s (if counter g = 0 then MAAP_ANNOUNCE else MAAP_PROBE) n)"

lemma probe_timer_ok:
  assumes t: "timed T s as" and q: "timer_queue s = r # q" and g: "rh s r = Some g" "state g = MAAP_STATE_PROBING"
  shows "\<exists>s' n. handle_probe_timer (s\<lparr>timer_queue := q\<rparr>) r = Some s' \<and> timed T s' as \<and>
    (act_time (rh s) r \<le> T \<longrightarrow> due T s' = due T s - {r}) \<and> probed s r g n s' \<and> stepped s r s'"
proof -
  have inv: "maap_inv s as" and room: "length (timer_queue s) \<le> 100000" and T: "T \<le> clock s (clock_pos s)"
    using t by (simp_all add: timed_def)
  have e: "env s" and c: "client_core {} {} s as" using inv by (simp_all add: maap_inv_def)
  have ac: "active g" using g(2) by (simp add: active_def)
  have cnt: "0 \<le> counter g" using c g(1) by (auto simp: core_def ranges_ok_def)
  obtain n where n: "interval_of s r = Some n" using held_interval [OF c inv_held [OF inv g(1) ac]] by metis
  let ?z = "counter g = 0"
  let ?g = "if ?z then g\<lparr>state := MAAP_STATE_DEFENDING\<rparr> else g\<lparr>counter := counter g - 1\<rparr>"
  let ?k = "if ?z then Suc (next_addr s) else next_addr s"
  let ?ns = "notifies s @ (if ?z then [(range_note s MAAP_NOTIFY_ACQUIRED (range_id g) n MAAP_NOTIFY_ERROR_NONE, r_sender g)] else [])"
  let ?u = "s\<lparr>timer_queue := q, rh := (rh s)(r \<mapsto> ?g), next_addr := ?k, notifies := ?ns\<rparr>"
  obtain t' q' n' where o: "schedule_timer ?u r = Some (rescheduled ?u r ?g t' q')" "maap_inv (rescheduled ?u r ?g t' q') as"
    "interval_of (rescheduled ?u r ?g t' q') r = Some n'" "T < t'" "set q' = set (timer_queue s)"
    "length q' = length (timer_queue s)" "interval_of s r = Some n'"
    by (rule event_reschedule [OF t q g(1) ac, where g' = ?g and u = ?u and k = ?k and ns = ?ns])
      (use g(2) cnt in \<open>auto simp: active_def\<close>)
  have nn: "n' = n" using o(7) n by simp
  define v where "v = rescheduled ?u r ?g t' q'"
  have ev: "env v" using o(2) by (simp add: maap_inv_def v_def)
  have vf: "rh v = (rh s)(r \<mapsto> ?g\<lparr>next_act_time := t'\<rparr>)" "ih v = ih s" "notifies v = ?ns" "mc_net v = mc_net s"
    "dest_mac v = dest_mac s" "src_mac v = src_mac s" "address_base v = address_base s" "timer_queue v = q'"
    "clock v = clock s" "clock_pos v = Suc (clock_pos s)"
    by (simp_all add: v_def)
  have Tv: "T \<le> clock v (clock_pos v)" using clock_later [OF e T] vf by simp
  obtain sa where sa: "send_announce v r = Some (0, sa)" "sent v sa (claim_packet v MAAP_ANNOUNCE n)"
    using send_announce_ok [OF ev] o(3) nn unfolding v_def by blast
  obtain sp where sp: "send_probe v r = Some (0, sp)" "sent v sp (claim_packet v MAAP_PROBE n)"
    using send_probe_ok [OF ev] o(3) nn unfolding v_def by blast
  define s' where "s' = (if ?z then sa else sp)"
  have snt: "sent v s' (claim_packet v (if ?z then MAAP_ANNOUNCE else MAAP_PROBE) n)" using sa sp by (simp add: s'_def)
  have "claim_packet v (if ?z then MAAP_ANNOUNCE else MAAP_PROBE) n = claim_packet s (if ?z then MAAP_ANNOUNCE else MAAP_PROBE) n"
    using vf by (intro claim_packet_cong) simp_all
  moreover have "queues s s' (claim_packet v (if ?z then MAAP_ANNOUNCE else MAAP_PROBE) n)"
    by (rule queues_cong [OF vf(4) sent_queues [OF snt]])
  ultimately have pr: "probed s r g n s'"
    using n unfolding probed_def sent_frame [OF snt] vf by auto
  have st: "stepped s r s'" unfolding stepped_def sent_frame [OF snt] vf by simp
  have "timed T s' as" using timed_sent [OF o(2) [folded v_def] snt _ Tv] o(6) room vf by simp
  moreover have "due T s' = due T s - {r}" if "act_time (rh s) r \<le> T"
    using that o(4,5) by (intro due_reschedule(1) [OF q, of q' T t' s' ?g]) (simp_all only: sent_frame [OF snt] vf)
  moreover have "handle_probe_timer (s\<lparr>timer_queue := q\<rparr>) r = Some s'"
  proof (cases ?z)
    case True
    let ?w = "s\<lparr>timer_queue := q\<rparr>"
    have w: "env ?w" "interval_of ?w r = Some n" "rh ?w r = Some g" using e n g(1) by (simp_all add: env_def interval_of_def)
    have rn: "range_note ?w k i n res = range_note s k i n res" for k i res by (simp add: range_note_def)
    have "range_upd (noted ?w (r_sender g) (range_note s MAAP_NOTIFY_ACQUIRED (range_id g) n MAAP_NOTIFY_ERROR_NONE)) r
        (\<lambda>g. g\<lparr>state := MAAP_STATE_DEFENDING\<rparr>) = Some ?u"
      using True g(1) by (simp add: range_upd_def noted_def)
    then show ?thesis
      using True g(1) inform_range_ok(5) [OF w] o(1) sa(1) unfolding v_def by (simp add: handle_probe_timer_def s'_def rn)
  next
    case False
    then show ?thesis using g(1) o(1) sp(1) unfolding v_def by (simp add: handle_probe_timer_def range_upd_def s'_def)
  qed
  ultimately show ?thesis using pr st by blast
qed

lemma defend_timer_ok:
  assumes t: "timed T s as" and q: "timer_queue s = r # q" and g: "rh s r = Some g" "state g = MAAP_STATE_DEFENDING"
  shows "\<exists>s' n. handle_defend_timer (s\<lparr>timer_queue := q\<rparr>) r = Some s' \<and> timed T s' as \<and>
    (act_time (rh s) r \<le> T \<longrightarrow> due T s' = due T s - {r}) \<and> interval_of s r = Some n \<and> ih s' = ih s \<and>
    (\<exists>t. rh s' = (rh s)(r \<mapsto> g\<lparr>next_act_time := t\<rparr>)) \<and> notifies s' = notifies s \<and> queues s s' (claim_packet s MAAP_ANNOUNCE n) \<and>
    stepped s r s'"
proof -
  have inv: "maap_inv s as" and room: "length (timer_queue s) \<le> 100000" and T: "T \<le> clock s (clock_pos s)"
    using t by (simp_all add: timed_def)
  have e: "env s" and c: "client_core {} {} s as" using inv by (simp_all add: maap_inv_def)
  have ac: "active g" using g(2) by (simp add: active_def)
  have cnt: "0 \<le> counter g" using c g(1) by (auto simp: core_def ranges_ok_def)
  let ?u = "s\<lparr>timer_queue := q, rh := (rh s)(r \<mapsto> g), next_addr := next_addr s, notifies := notifies s\<rparr>"
  have su: "?u = s\<lparr>timer_queue := q\<rparr>" using g(1) by (simp add: fun_upd_idem)
  obtain t' q' n where o: "schedule_timer ?u r = Some (rescheduled ?u r g t' q')" "maap_inv (rescheduled ?u r g t' q') as"
    "interval_of (rescheduled ?u r g t' q') r = Some n" "T < t'" "set q' = set (timer_queue s)"
    "length q' = length (timer_queue s)" "interval_of s r = Some n"
    by (rule event_reschedule [OF t q g(1) ac, where g' = g and u = ?u and k = "next_addr s" and ns = "notifies s"])
      (use cnt ac in auto)
  let ?v = "rescheduled ?u r g t' q'"
  have ev: "env ?v" using o(2) by (simp add: maap_inv_def)
  have Tv: "T \<le> clock ?v (clock_pos ?v)" using clock_later [OF e T] by simp
  obtain s' where sa: "send_announce ?v r = Some (0, s')" "sent ?v s' (claim_packet ?v MAAP_ANNOUNCE n)"
    using send_announce_ok [OF ev o(3)] by blast
  have "claim_packet ?v MAAP_ANNOUNCE n = claim_packet s MAAP_ANNOUNCE n" by (rule claim_packet_cong) simp_all
  moreover have "queues s s' (claim_packet ?v MAAP_ANNOUNCE n)" by (rule queues_cong [OF _ sent_queues [OF sa(2)]]) simp
  moreover have "timed T s' as" using timed_sent [OF o(2) sa(2) _ Tv] o(6) room by simp
  moreover have "due T s' = due T s - {r}" if "act_time (rh s) r \<le> T"
    using that o(4,5) by (intro due_reschedule(1) [OF q, of q' T t' s' g]) (simp_all add: sent_frame [OF sa(2)])
  moreover have "handle_defend_timer (s\<lparr>timer_queue := q\<rparr>) r = Some s'"
    using o(1) sa(1) unfolding su handle_defend_timer_def by simp
  moreover have "ih s' = ih s" "\<exists>t. rh s' = (rh s)(r \<mapsto> g\<lparr>next_act_time := t\<rparr>)" "notifies s' = notifies s"
    unfolding sent_frame [OF sa(2)] by auto
  moreover have "stepped s r s'" unfolding stepped_def sent_frame [OF sa(2)] by simp
  ultimately show ?thesis using o(7) by auto
qed

lemma release_timer_ok:
  assumes t: "timed T s as" and q: "timer_queue s = r # q" and g: "rh s r = Some g" "state g = MAAP_STATE_RELEASED"
  shows "\<exists>s'. range_free (s\<lparr>timer_queue := q\<rparr>) r = Some s' \<and> timed T s' as \<and> due T s' = due T s - {r} \<and> stepped s r s'"
proof -
  let ?s = "s\<lparr>timer_queue := q, rh := (rh s)(r := None)\<rparr>"
  have inv: "maap_inv s as" using t by (simp add: timed_def)
  have c: "client_core {} {} s as" using inv by (simp add: maap_inv_def)
  have nq: "r \<notin> set q" using c q by (auto simp: core_def queue_ok_def)
  have nh: "\<not> held (ih s) as r"
  proof
    assume "held (ih s) as r"
    then obtain g' where "rh s r = Some g'" "active g'" using held_interval [OF c] by metis
    with g show False by (simp add: active_def)
  qed
  have c1: "core {} {r} (ih s) (ranges s) as (rh s) q (range_len s) (next_addr s)"
    using core_dequeue [of "{}" "{}"] c q by simp
  have "client_core {} {} ?s as" using core_free [OF c1 nh nq] by simp
  moreover have "flags ((rh s)(r := None)) = {}" using inv by (auto simp: maap_inv_def flags_def)
  moreover have "env ?s" using inv by (simp add: maap_inv_def env_def)
  ultimately have "timed T ?s as" using t q by (simp add: timed_def maap_inv_def)
  moreover have "due T ?s = due T s - {r}" using q nq by (auto simp: due_def act_time_def)
  moreover have "stepped s r ?s" by (simp add: stepped_def)
  ultimately show ?thesis using g(1) by (simp add: range_free_def)
qed

section \<open>The timer loop\<close>

text \<open>The branch of the loop for the range at the head of the queue.\<close>

definition timer_event :: "maap_client \<Rightarrow> addr \<Rightarrow> addr list \<Rightarrow> maap_state \<Rightarrow> maap_client option" where
  "timer_event s r q st = (case st of MAAP_STATE_PROBING \<Rightarrow> handle_probe_timer (s\<lparr>timer_queue := q\<rparr>) r
     | MAAP_STATE_DEFENDING \<Rightarrow> handle_defend_timer (s\<lparr>timer_queue := q\<rparr>) r
     | MAAP_STATE_RELEASED \<Rightarrow> range_free (s\<lparr>timer_queue := q\<rparr>) r
     | MAAP_STATE_INVALID \<Rightarrow> Some (s\<lparr>timer_queue := q\<rparr>))"

lemma timer_event_ok:
  assumes t: "timed T s as" and q: "timer_queue s = r # q" and g: "rh s r = Some g" "next_act_time g \<le> T"
  shows "\<exists>s'. timer_event s r q (state g) = Some s' \<and> timed T s' as \<and> due T s' = due T s - {r} \<and> stepped s r s' \<and>
    (state g = MAAP_STATE_PROBING \<longrightarrow> (\<exists>n. probed s r g n s'))"
proof -
  have at: "act_time (rh s) r \<le> T" using g by (simp add: act_time_def)
  have c: "client_core {} {} s as" using t by (simp add: timed_def maap_inv_def)
  have "state g \<noteq> MAAP_STATE_INVALID" using c g(1) by (auto simp: core_def ranges_ok_def)
  then show ?thesis
  proof (cases "state g")
    case MAAP_STATE_PROBING
    with probe_timer_ok [OF t q g(1)] at show ?thesis by (auto simp: timer_event_def)
  next
    case MAAP_STATE_DEFENDING
    with defend_timer_ok [OF t q g(1)] at show ?thesis by (auto simp: timer_event_def)
  next
    case MAAP_STATE_RELEASED
    with release_timer_ok [OF t q g(1)] show ?thesis by (auto simp: timer_event_def)
  qed simp
qed

text \<open>
  What the whole loop does: ranges that are not due stay as they are; a probing range that
  is due acts exactly once, and its acquisition is among the new notifications.
\<close>

definition fired :: "range \<Rightarrow> time \<Rightarrow> range" where
  "fired g t = (if counter g = 0 then g\<lparr>state := MAAP_STATE_DEFENDING\<rparr> else g\<lparr>counter := counter g - 1\<rparr>)\<lparr>next_act_time := t\<rparr>"

definition passed :: "time \<Rightarrow> maap_client \<Rightarrow> maap_client \<Rightarrow> bool" where
  "passed T s s' \<longleftrightarrow> ih s' = ih s \<and> address_base s' = address_base s \<and> clock s' = clock s \<and> clock_pos s \<le> clock_pos s' \<and>
     (\<forall>x. x \<notin> due T s \<longrightarrow> rh s' x = rh s x) \<and>
     (\<forall>x\<in>due T s. \<forall>g. rh s x = Some g \<longrightarrow> state g = MAAP_STATE_PROBING \<longrightarrow> (\<exists>t. rh s' x = Some (fired g t))) \<and>
     (\<exists>ns. notifies s' = notifies s @ ns \<and> (\<forall>x\<in>due T s. \<forall>g n. rh s x = Some g \<longrightarrow> state g = MAAP_STATE_PROBING \<longrightarrow>
        interval_of s x = Some n \<longrightarrow> counter g = 0 \<longrightarrow>
        (range_note s MAAP_NOTIFY_ACQUIRED (range_id g) n MAAP_NOTIFY_ERROR_NONE, r_sender g) \<in> set ns))"

lemma passed_refl: "due T s = {} \<Longrightarrow> passed T s s"
  by (simp add: passed_def)

lemma passed_step:
  assumes st: "stepped s r s1" and due: "due T s1 = due T s - {r}" "r \<in> due T s" and g: "rh s r = Some g"
    and pr: "state g = MAAP_STATE_PROBING \<longrightarrow> (\<exists>n. probed s r g n s1)" and rest: "passed T s1 s'"
  shows "passed T s s'"
proof -
  have f: "ih s1 = ih s" "address_base s1 = address_base s" "clock s1 = clock s" "clock_pos s \<le> clock_pos s1"
    and o: "\<And>x. x \<noteq> r \<Longrightarrow> rh s1 x = rh s x" using st by (auto simp: stepped_def)
  have iv: "interval_of s1 x = interval_of s x" if "x \<noteq> r" for x using o [OF that] f(1) by (simp add: interval_of_def)
  have rn: "range_note s1 = range_note s" using f(2) by (intro ext range_note_cong)
  have r': "rh s' r = rh s1 r" using rest due by (auto simp: passed_def)
  obtain ms where ms: "notifies s1 = notifies s @ ms" using st by (auto simp: stepped_def)
  obtain ns where ns: "notifies s' = notifies s1 @ ns"
    "\<And>x h n. x \<in> due T s1 \<Longrightarrow> rh s1 x = Some h \<Longrightarrow> state h = MAAP_STATE_PROBING \<Longrightarrow> interval_of s1 x = Some n \<Longrightarrow> counter h = 0 \<Longrightarrow>
      (range_note s1 MAAP_NOTIFY_ACQUIRED (range_id h) n MAAP_NOTIFY_ERROR_NONE, r_sender h) \<in> set ns"
    using rest by (auto simp: passed_def)
  have self: "(range_note s MAAP_NOTIFY_ACQUIRED (range_id g) n MAAP_NOTIFY_ERROR_NONE, r_sender g) \<in> set ms"
    if "state g = MAAP_STATE_PROBING" "interval_of s r = Some n" "counter g = 0" for n
    using that pr ms by (auto simp: probed_def)
  have note_in: "(range_note s MAAP_NOTIFY_ACQUIRED (range_id h) n MAAP_NOTIFY_ERROR_NONE, r_sender h) \<in> set (ms @ ns)"
    if "x \<in> due T s" "rh s x = Some h" "state h = MAAP_STATE_PROBING" "interval_of s x = Some n" "counter h = 0" for x h n
  proof (cases "x = r")
    case True
    with that self g show ?thesis by simp
  next
    case False
    with that due(1) o iv rn ns(2) [of x h n] show ?thesis by simp
  qed
  have fire: "\<exists>t. rh s' x = Some (fired h t)" if "x \<in> due T s" "rh s x = Some h" "state h = MAAP_STATE_PROBING" for x h
  proof (cases "x = r")
    case True
    with that pr g r' show ?thesis by (auto simp: probed_def fired_def)
  next
    case False
    with that due(1) o rest show ?thesis by (auto simp: passed_def)
  qed
  have away: "rh s' x = rh s x" if "x \<notin> due T s" for x
  proof -
    have "x \<noteq> r" "x \<notin> due T s1" using that due by auto
    with o rest show ?thesis by (simp add: passed_def)
  qed
  have "ih s' = ih s1" "address_base s' = address_base s1" "clock s' = clock s1" "clock_pos s1 \<le> clock_pos s'"
    using rest by (simp_all add: passed_def)
  then show ?thesis
    unfolding passed_def using f fire note_in away ms ns(1) by (intro conjI exI [of _ "ms @ ns"]) auto
qed

lemma timer_loop_ok:
  assumes "timed T s as"
  shows "\<exists>s'. timer_loop T s = Some s' \<and> timed T s' as \<and> due T s' = {} \<and> passed T s s'"
  using assms
proof (induction "card (due T s)" arbitrary: s rule: less_induct)
  case less
  have c: "client_core {} {} s as" using less.prems by (simp add: timed_def maap_inv_def)
  have srt: "sorted (map (act_time (rh s)) (timer_queue s))" "set (timer_queue s) \<subseteq> dom (rh s)"
    using c by (simp_all add: core_def queue_ok_def)
  show ?case
  proof (cases "timer_queue s")
    case Nil
    then have "due T s = {}" by (simp add: due_def)
    with Nil less.prems show ?thesis by (simp add: timer_loop.simps passed_refl)
  next
    case (Cons r q)
    then obtain g where g: "rh s r = Some g" using srt(2) by auto
    have at: "act_time (rh s) r = next_act_time g" using g by (simp add: act_time_def)
    show ?thesis
    proof (cases "next_act_time g \<le> T")
      case False
      have "act_time (rh s) r \<le> act_time (rh s) x" if "x \<in> set (timer_queue s)" for x
        using srt(1) Cons that by auto
      then have "due T s = {}" unfolding due_def using False at order_trans by fastforce
      with False less.prems Cons g show ?thesis by (subst timer_loop.simps) (simp add: passed_refl)
    next
      case True
      from timer_event_ok [OF less.prems Cons g True] obtain s1 where s1: "timer_event s r q (state g) = Some s1" "timed T s1 as"
        "due T s1 = due T s - {r}" "stepped s r s1" "state g = MAAP_STATE_PROBING \<longrightarrow> (\<exists>n. probed s r g n s1)" by blast
      have d: "r \<in> due T s" using True at Cons by (simp add: due_def)
      then have "card (due T s1) < card (due T s)" unfolding s1(3) by (intro card_Diff1_less) simp_all
      from less.hyps [OF this s1(2)] obtain s' where s': "timer_loop T s1 = Some s'" "timed T s' as" "due T s' = {}" "passed T s1 s'" by blast
      have "timer_loop T s = Some s'"
        using True Cons g s1(1) s'(1) by (subst timer_loop.simps) (simp add: timer_event_def)
      with s' passed_step [OF s1(4,3) d g s1(5) s'(4)] show ?thesis by blast
    qed
  qed
qed

lemma handle_timer_passed:
  assumes inv: "maap_inv s as" and room: "length (timer_queue s) \<le> 100000"
  shows "\<exists>s' T. maap_handle_timer s = Some (0, s') \<and> T = clock s (clock_pos s) \<and> maap_inv s' as \<and> length (timer_queue s') \<le> 100000 \<and>
    due T s' = {} \<and> passed T s s' \<and> clock_pos s < clock_pos s'"
proof -
  let ?T = "clock s (clock_pos s)" and ?s = "s\<lparr>clock_pos := Suc (clock_pos s)\<rparr>"
  have e: "env s" using inv by (simp add: maap_inv_def)
  have "maap_inv ?s as" using inv by (simp add: maap_inv_def env_def)
  then have "timed ?T ?s as" using room clock_later [OF e order.refl] by (simp add: timed_def)
  from timer_loop_ok [OF this] obtain s' where s': "timer_loop ?T ?s = Some s'" "timed ?T s' as" "due ?T s' = {}" "passed ?T ?s s'" by blast
  then have i: "maap_inv s' as" "length (timer_queue s') \<le> 100000" by (simp_all add: timed_def)
  then obtain tm where tm: "start_timer s' = Some (s'\<lparr>mc_timer := Some tm\<rparr>)" "env (s'\<lparr>mc_timer := Some tm\<rparr>)"
    using start_timer_ok [of s' "{}" "{}" as] by (auto simp: maap_inv_def)
  have d: "due ?T ?s = due ?T s" "\<And>x. interval_of ?s x = interval_of s x" "range_note ?s = range_note s"
    by (simp_all add: due_def interval_of_def range_note_def [abs_def])
  have "passed ?T s (s'\<lparr>mc_timer := Some tm\<rparr>)" "clock_pos s < clock_pos s'" using s'(4) by (simp_all add: passed_def d)
  moreover have "maap_inv (s'\<lparr>mc_timer := Some tm\<rparr>) as" using i tm(2) by (simp add: maap_inv_def)
  ultimately show ?thesis
    using s'(1,3) i(2) tm(1) by (simp add: maap_handle_timer_def Time_setFromMonotonicTimer_def due_def)
qed

lemma handle_timer_ok:
  assumes inv: "maap_inv s as" and room: "length (timer_queue s) \<le> 100000"
  shows "\<exists>s'. maap_handle_timer s = Some (0, s') \<and> maap_inv s' as \<and> due (clock s (clock_pos s)) s' = {}"
  using handle_timer_passed [OF assms] by blast

end
