(* ===== verification/Maap_Lifecycle.thy ===== *)
theory Maap_Lifecycle
  imports Maap_Timers
begin

text \<open>
  The life of a client: initialisation establishes the invariant, every admissible
  event keeps it, probing ends in acquisition, and deinitialisation frees all memory.
\<close>

section \<open>The end\<close>

lemma free_released_ok:
  "distinct q \<Longrightarrow> set q \<subseteq> dom (rh s) \<Longrightarrow> free_released q s =
     Some (s\<lparr>timer_queue := [], rh := (\<lambda>r. if r \<in> set q \<and> state (the (rh s r)) = MAAP_STATE_RELEASED then None else rh s r)\<rparr>)"
proof (induction q arbitrary: s)
  case Nil
  then show ?case by simp
next
  case (Cons r q)
  then obtain g where g: "rh s r = Some g" by auto
  show ?case
  proof (cases "state g = MAAP_STATE_RELEASED")
    case True
    let ?s = "s\<lparr>rh := (rh s)(r := None)\<rparr>"
    have "set q \<subseteq> dom (rh ?s)" using Cons.prems by auto
    from Cons.IH [OF _ this] Cons.prems True g show ?thesis
      by (auto simp: range_free_def fun_eq_iff intro!: arg_cong [where f = "\<lambda>h. s\<lparr>timer_queue := [], rh := h\<rparr>"])
  next
    case False
    with Cons g show ?thesis
      by (auto simp: fun_eq_iff intro!: arg_cong [where f = "\<lambda>h. s\<lparr>timer_queue := [], rh := h\<rparr>"])
  qed
qed

lemma root_in: "irep h root as \<Longrightarrow> root = Some a \<Longrightarrow> a \<in> set as"
  by (auto simp: irep_def root_of_Some)

lemma root_None: "irep h None as \<Longrightarrow> as = []"
  by (auto simp: irep_def)

lemma core_free_all:
  assumes c: "core {} UNIV h root as rg [] len nxt" and nh: "\<not> held h as r"
  shows "core {} UNIV h root as (rg(r := None)) [] len nxt"
  using core_free [of "{}" r UNIV h root as rg "[]" len nxt] assms by (simp add: insert_UNIV)

lemma free_ranges_ok:
  assumes "client_core {} UNIV s as" and "timer_queue s = []" and "\<forall>r\<in>dom (rh s). held (ih s) as r"
  shows "\<exists>s'. free_ranges s = Some s' \<and> ih s' = Map.empty \<and> rh s' = Map.empty \<and> ranges s' = None \<and> timer_queue s' = []"
  using assms
proof (induction "length as" arbitrary: s as)
  case 0
  then have as: "as = []" by simp
  have "ranges s = None" using 0 root_in [OF core_tree(1) [OF 0(2)]] as by (cases "ranges s") auto
  moreover have "ih s = Map.empty" "rh s = Map.empty"
    using core_tree(3) [OF 0(2)] 0(4) as by (auto simp: held_def)
  ultimately show ?case using 0(3) by (subst free_ranges.simps) simp
next
  case (Suc k)
  note c = Suc.prems(1)
  have "ranges s \<noteq> None"
  proof
    assume "ranges s = None"
    then have "as = []" using root_None [of "ih s" as] core_tree(1) [OF c] by simp
    with Suc.hyps(2) show False by simp
  qed
  then obtain a where a: "ranges s = Some a" by blast
  then have as: "a \<in> set as" using root_in core_tree(1) [OF c] by blast
  have "owned (ih s) (rh s) a" using c as by (simp add: core_def)
  then obtain r g where r: "node_data (ih s) a = Some r" "rh s r = Some g" by (auto simp: owned_def)
  obtain n where n: "ih s a = Some n" using irep_live [OF core_tree(1) [OF c] as] by blast
  have dn: "data n = Some r" using r(1) n by (simp add: node_data_def)
  obtain h root rg as' where rm: "remove_range_interval s a = Some (s\<lparr>ih := h, ranges := root, rh := rg\<rparr>)"
    "core {} UNIV h root as' rg [] (range_len s) (next_addr s)"
    "entries h as' = entries (ih s) (remove1 a as)" "same_ranges (rh s) rg"
    using remove_range_interval_ok [OF c as] Suc.prems(2) by auto
  obtain i where i: "rg r = Some (g\<lparr>r_interval := i\<rparr>)" using same_ranges_Some [OF rm(4) r(2)] by metis
  have d: "distinct as" using irep_distinct [OF core_tree(1) [OF c]] .
  have ent: "(l, u, Some x) \<in> set (entries h as') \<longleftrightarrow> (l, u, Some x) \<in> set (entries (ih s) as) \<and> x \<noteq> r" for l u x
  proof -
    have "entry_of (the (ih s b)) = (l, u, Some x) \<Longrightarrow> b \<in> set as \<Longrightarrow> (b \<noteq> a) = (x \<noteq> r)" for b
      using held_unique [OF c _ as _ r(1), of b] r(1) by (auto simp: node_data_def entry_of_def)
    then show ?thesis unfolding rm(3) entries_iff using d by auto
  qed
  have nh: "\<not> held h as' r" using ent by (auto simp: held_entries)
  let ?s = "s\<lparr>ih := h, ranges := root, rh := rg(r := None)\<rparr>"
  have "client_core {} UNIV ?s as'" using core_free_all [OF rm(2) nh] Suc.prems(2) by simp
  moreover have "\<forall>x\<in>dom (rh ?s). held (ih ?s) as' x"
    using Suc.prems(3) same_ranges_dom [OF rm(4)] ent by (auto simp: held_entries dom_def split: if_splits) blast
  moreover have "k = length as'"
    using arg_cong [OF rm(3), of length] as Suc.hyps(2) by (simp add: length_remove1)
  ultimately obtain s' where "free_ranges ?s = Some s'" "ih s' = Map.empty" "rh s' = Map.empty" "ranges s' = None" "timer_queue s' = []"
    using Suc.hyps(1) [of as' ?s] Suc.prems(2) by auto
  then show ?case using a n dn rm(1) i by (subst free_ranges.simps) (auto simp: range_free_def)
qed

lemma deinit_ok:
  assumes inv: "maap_inv s as"
  shows "\<exists>s'. maap_deinit_client s = Some s' \<and> ih s' = Map.empty \<and> rh s' = Map.empty \<and> ranges s' = None \<and>
    timer_queue s' = [] \<and> notifies s' = [] \<and> mc_net s' = None \<and> mc_timer s' = None \<and> \<not> initialized s'"
proof -
  have c: "client_core {} {} s as" and ini: "initialized s" using inv by (simp_all add: maap_inv_def)
  have q: "distinct (timer_queue s)" "set (timer_queue s) = dom (rh s)" using c by (auto simp: core_def queue_ok_def)
  let ?rg = "\<lambda>r. if r \<in> set (timer_queue s) \<and> state (the (rh s r)) = MAAP_STATE_RELEASED then None else rh s r"
  let ?s = "s\<lparr>timer_queue := [], rh := ?rg\<rparr>"
  have fr: "free_released (timer_queue s) s = Some ?s" using free_released_ok q by blast
  have kept: "?rg r = Some g \<longleftrightarrow> rh s r = Some g \<and> active g" for r g
    using active_iff [OF inv, of r g] q(2) by auto
  have "owned (ih s) ?rg a" if "a \<in> set as" for a
  proof -
    have "owned (ih s) (rh s) a" using c that by (simp add: core_def)
    then show ?thesis using kept by (elim owned_cong) blast
  qed
  moreover have "ranges_ok UNIV (ih s) as ?rg"
    using c kept unfolding core_def ranges_ok_def by blast
  moreover have "\<forall>a\<in>dom (ih s) \<union> dom ?rg. a < next_addr s"
    using c kept unfolding core_def by blast
  ultimately have "client_core {} UNIV ?s as" using c by (simp add: core_def queue_ok_def)
  moreover have "\<forall>r\<in>dom (rh ?s). held (ih ?s) as r"
  proof
    fix r assume "r \<in> dom (rh ?s)"
    then obtain g where "?rg r = Some g" by auto
    then have "rh s r = Some g" "active g" using kept by blast+
    then show "held (ih ?s) as r" using inv_held [OF inv] by simp
  qed
  ultimately obtain s' where "free_ranges ?s = Some s'" "ih s' = Map.empty" "rh s' = Map.empty" "ranges s' = None" "timer_queue s' = []"
    using free_ranges_ok [of ?s as] by auto
  then show ?thesis using fr ini by (simp add: maap_deinit_client_def)
qed


section \<open>The beginning\<close>

text \<open>A client before initialisation, in a sane environment.\<close>

definition blank :: "maap_client \<Rightarrow> bool" where
  "blank s \<longleftrightarrow> \<not> initialized s \<and> ih s = Map.empty \<and> rh s = Map.empty \<and> dest_mac s \<noteq> 0 \<and> src_mac s \<noteq> 0 \<and>
     (\<forall>a. \<not> oom s a) \<and> (\<forall>i. normal (clock s i)) \<and> mono (clock s)"

lemma init_ok:
  assumes b: "blank s" and pool: "unat base + unat len \<le> 2 ^ 64"
  shows "\<exists>s'. maap_init_client True c True s sd base len = Some (0, s') \<and> maap_inv s' [] \<and>
    address_base s' = base \<and> range_len s' = len \<and>
    notifies s' = [(\<lparr>kind = MAAP_NOTIFY_INITIALIZED, note_id = -1, note_start = base, note_count = len,
      note_result = MAAP_NOTIFY_ERROR_NONE\<rparr>, sd)]"
proof -
  have "irep Map.empty None []" unfolding irep_def by (rule exI [of _ Leaf]) simp
  then have "core {} {} Map.empty None [] Map.empty [] len k" for k
    by (simp add: core_def tree_ok_def ranges_ok_def queue_ok_def)
  moreover have "net_inv \<lparr>net_buffer = replicate NUM_BUFFERS zero_buffer, pFirst = []\<rparr>"
    by (simp add: net_inv_def zero_buffer_def)
  ultimately show ?thesis using b pool
    by (simp add: maap_init_client_def Time_newTimer_def Net_newNet_def inform_initialized_def add_notify_ok blank_def
        maap_inv_def env_def net_ok_def flags_def)
qed

section \<open>Yielding on command\<close>

definition yield_bytes :: "maap_client \<Rightarrow> interval \<Rightarrow> u8 list" where
  "yield_bytes s n = maap_bytes ((the (init_packet 0x010000000000 0x010000000000))\<lparr>message_type := MAAP_ANNOUNCE,
     requested_start_address := address_base s + ucast (low n), requested_count := ucast (high n - low n + 1)\<rparr>) @ replicate 22 0"

lemma yield_ok:
  assumes inv: "maap_inv s as" and room: "2 * length (timer_queue s) \<le> 100000"
    and st: "\<And>r n. the_range s i (\<lambda>st. st = MAAP_STATE_DEFENDING) = Some r \<Longrightarrow> interval_of s r = Some n \<Longrightarrow> packet_settled s (yield_bytes s n)"
  shows "\<exists>rv s' as'. maap_yield_range s sd i = Some (rv, s') \<and> maap_inv s' as'"
proof -
  have e: "env s" and ini: "initialized s" and c: "client_core {} {} s as" using inv by (simp_all add: maap_inv_def)
  show ?thesis
  proof (cases "the_range s i (\<lambda>st. st = MAAP_STATE_DEFENDING)")
    case None
    then show ?thesis using the_range_ok [OF inv] ini inform_ok(4) [OF e]
      by (simp add: maap_yield_range_def) (blast intro: noted_inv [OF inv])
  next
    case (Some r)
    obtain g where g: "rh s r = Some g" "state g = MAAP_STATE_DEFENDING" using the_range_SomeE [OF inv Some] by metis
    then have "held (ih s) as r" using inv_held [OF inv g(1)] by (simp add: active_def)
    then obtain n where n: "interval_of s r = Some n" using held_interval [OF c] by metis
    obtain p where p: "init_packet 0x010000000000 0x010000000000 = Some p" by (simp add: init_packet_def)
    have len: "int MAAP_NET_BUFFER_SIZE \<le> int (length (yield_bytes s n))" by (simp add: yield_bytes_def MAAP_NET_BUFFER_SIZE_def)
    obtain rv s' as' where "maap_handle_packet s (yield_bytes s n) (int MAAP_NET_BUFFER_SIZE) = Some (rv, s')" "maap_inv s' as'"
      using handle_packet_ok [OF inv room st [OF Some n] len] by blast
    moreover have "maap_yield_range s sd i = do { (_, s) \<leftarrow> maap_handle_packet s (yield_bytes s n) (int MAAP_NET_BUFFER_SIZE); Some (0, s) }"
      using the_range_ok [OF inv] ini Some n p
      by (simp add: maap_yield_range_def get_start_address_def get_count_def pack_maap_bytes MAAP_NET_BUFFER_SIZE_def yield_bytes_def)
    ultimately show ?thesis by auto
  qed
qed

section \<open>Events and reachable states\<close>

datatype maap_event =
    Init sender u64 u32
  | Reserve sender u64 u32
  | Release sender int
  | Status sender int
  | Yield sender int
  | Packet "u8 list" int
  | Timer
  | NextNotify

definition maap_exec :: "maap_client \<Rightarrow> maap_event \<Rightarrow> maap_client option" where
  "maap_exec s e = (case e of
     Init sd base len \<Rightarrow> map_option snd (maap_init_client True True True s sd base len)
   | Reserve sd att len \<Rightarrow> map_option snd (maap_reserve_range s sd att len)
   | Release sd i \<Rightarrow> map_option snd (maap_release_range s sd i)
   | Status sd i \<Rightarrow> maap_range_status s sd i
   | Yield sd i \<Rightarrow> map_option snd (maap_yield_range s sd i)
   | Packet stream len \<Rightarrow> map_option snd (maap_handle_packet s stream len)
   | Timer \<Rightarrow> map_option snd (maap_handle_timer s)
   | NextNotify \<Rightarrow> Some (snd (get_notify s)))"

text \<open>
  What an event must satisfy: the documented lengths, no wrap-around in the preferred
  address, at most 50000 ranges waiting for their timer, the ids not exhausted, and no
  search for a free interval that succeeds exactly with its last draw.
\<close>

definition few :: "maap_client \<Rightarrow> bool" where
  "few s \<longleftrightarrow> 2 * length (timer_queue s) \<le> 100000"

definition admissible :: "maap_client \<Rightarrow> maap_event \<Rightarrow> bool" where
  "admissible s e = (few s \<and> (case e of
     Init sd base len \<Rightarrow> True
   | Reserve sd att len \<Rightarrow> 0 < len \<and> unat att + unat len \<le> 2 ^ 64 \<and> maxid s < INT_MAX \<and> \<not> late_success s (ucast len)
   | Release sd i \<Rightarrow> True
   | Status sd i \<Rightarrow> True
   | Yield sd i \<Rightarrow> (case the_range s i (\<lambda>st. st = MAAP_STATE_DEFENDING) of
        None \<Rightarrow> True
      | Some r \<Rightarrow> (case interval_of s r of None \<Rightarrow> True | Some n \<Rightarrow> packet_settled s (yield_bytes s n)))
   | Packet stream len \<Rightarrow> len \<le> int (length stream) \<and> packet_settled s stream
   | Timer \<Rightarrow> True
   | NextNotify \<Rightarrow> True))"

lemma get_notify_inv: "maap_inv s as \<Longrightarrow> maap_inv (snd (get_notify s)) as"
  by (auto simp: get_notify_def maap_inv_def env_def split: list.splits)

lemma exec_ok:
  assumes inv: "maap_inv s as" and a: "admissible s e"
  shows "\<exists>s' as'. maap_exec s e = Some s' \<and> maap_inv s' as'"
proof (cases e)
  case (Init sd base len)
  have "\<exists>mn rv. maap_init_client True True True s sd base len = Some (rv, noted s sd mn)"
    using inv add_notify_noted [of s] by (auto simp: maap_init_client_def inform_initialized_def maap_inv_def Let_def)
  with Init show ?thesis by (auto simp: maap_exec_def intro: noted_inv [OF inv])
next
  case (Reserve sd att len)
  have f: "length (timer_queue s) < 100000" using a by (simp add: admissible_def few_def)
  have e: "env s" "initialized s" using inv by (simp_all add: maap_inv_def)
  show ?thesis
  proof (cases "len \<le> 0xFFFF \<and> len \<le> range_len s")
    case True
    then show ?thesis
      using reserve_ok [OF inv, of len att sd] a f Reserve by (auto simp: admissible_def maap_exec_def split: option.splits)
  next
    case False
    then have "len > 0xFFFF \<or> len > range_len s" by auto
    then show ?thesis
      using e inform_ok(1) [OF e(1)] Reserve by (simp add: maap_exec_def maap_reserve_range_def) (blast intro: noted_inv [OF inv])
  qed
next
  case (Release sd i)
  show ?thesis
  proof (cases "the_range s i (\<lambda>st. st \<noteq> MAAP_STATE_RELEASED)")
    case None
    with release_ok [OF inv, where i = i and sd = sd] Release show ?thesis by (auto simp: maap_exec_def intro: noted_inv [OF inv])
  next
    case (Some r)
    with release_ok [OF inv, where i = i and sd = sd] Release show ?thesis by (auto simp: maap_exec_def)
  qed
next
  case (Status sd i)
  with status_ok [OF inv, where i = i and sd = sd] show ?thesis by (auto simp: maap_exec_def intro: noted_inv [OF inv])
next
  case (Yield sd i)
  have "packet_settled s (yield_bytes s n)" if "the_range s i (\<lambda>st. st = MAAP_STATE_DEFENDING) = Some r" "interval_of s r = Some n" for r n
    using a Yield that by (simp add: admissible_def)
  moreover have "2 * length (timer_queue s) \<le> 100000" using a by (simp add: admissible_def few_def)
  ultimately show ?thesis using yield_ok [OF inv, where i = i and sd = sd] Yield by (auto simp: maap_exec_def)
next
  case (Packet stream len)
  then show ?thesis using handle_packet_ok [OF inv, of stream len] a by (auto simp: admissible_def few_def maap_exec_def)
next
  case Timer
  have "length (timer_queue s) \<le> 100000" using a by (simp add: admissible_def few_def)
  with handle_timer_ok [OF inv] Timer show ?thesis by (auto simp: maap_exec_def)
next
  case NextNotify
  then show ?thesis using get_notify_inv [OF inv] by (auto simp: maap_exec_def)
qed

inductive maap_reach :: "maap_client \<Rightarrow> maap_client \<Rightarrow> bool" for start where
  init: "blank start \<Longrightarrow> unat base + unat len \<le> 2 ^ 64 \<Longrightarrow> maap_exec start (Init sd base len) = Some s \<Longrightarrow> maap_reach start s"
| step: "maap_reach start s \<Longrightarrow> admissible s e \<Longrightarrow> maap_exec s e = Some s' \<Longrightarrow> maap_reach start s'"

inductive_cases maap_reachE: "maap_reach start s"

lemma reach_inv: "maap_reach start s \<Longrightarrow> \<exists>as. maap_inv s as"
proof (induction rule: maap_reach.induct)
  case (init base len sd s)
  from init_ok [OF init(1,2), of True sd] init(3) show ?case by (auto simp: maap_exec_def)
next
  case (step s e s')
  then obtain as where "maap_inv s as" by blast
  from exec_ok [OF this step(2)] step(3) show ?case by auto
qed

text \<open>The addresses of two ranges in use, in a state with the invariant.\<close>

lemma inv_disjoint:
  assumes inv: "maap_inv s as" and r: "rh s r = Some g" "active g" and x: "rh s x = Some g'" "active g'" and ne: "r \<noteq> x"
  obtains n m where "interval_of s r = Some n" "interval_of s x = Some m" "high n < low m \<or> high m < low n"
    "low n \<le> high n" "high n < range_len s"
proof -
  have c: "client_core {} {} s as" using inv by (simp add: maap_inv_def)
  from held_interval [OF c inv_held [OF inv r]] obtain a n where a: "a \<in> set as" "ih s a = Some n" "data n = Some r"
    "interval_of s r = Some n" "in_pool (range_len s) n" "low n \<le> high n" by metis
  from held_interval [OF c inv_held [OF inv x]] obtain b m where b: "b \<in> set as" "ih s b = Some m" "data m = Some x"
    "interval_of s x = Some m" by metis
  have "a \<noteq> b" using a b ne by auto
  moreover have "sorted_wrt before (entries (ih s) as)" using core_tree(2) [OF c] by (simp add: disjoint_sorted_def)
  then have "sorted_wrt (\<lambda>a b. before (entry_of (the (ih s a))) (entry_of (the (ih s b)))) as" by (simp add: entries_def sorted_wrt_map)
  ultimately have "before (entry_of n) (entry_of m) \<or> before (entry_of m) (entry_of n)"
    using a(1,2) b(1,2) by (induction as) auto
  with a b that show ?thesis by (auto simp: entry_of_def in_pool_def)
qed

end
