(* ===== verification/Event_System.thy ===== *)
theory Event_System
  imports Avb_Prelude
begin

text \<open>
  The contract of a reactive component: an invariant, events that may be admissible in a
  state, and an executor that may crash.  Its client theorem is that a run of admissible
  events never crashes and ends in the invariant.  The MAAP client and the MRP
  machines are instances.
\<close>

locale event_system =
  fixes inv :: "'s \<Rightarrow> bool"
    and adm :: "'s \<Rightarrow> 'e \<Rightarrow> bool"
    and exec :: "'s \<Rightarrow> 'e \<Rightarrow> 's option"
  assumes exec_inv: "inv s \<Longrightarrow> adm s e \<Longrightarrow> \<exists>s'. exec s e = Some s' \<and> inv s'"
begin

fun run :: "'s \<Rightarrow> 'e list \<Rightarrow> 's option" where
  "run s [] = Some s"
| "run s (e # es) = do { s \<leftarrow> exec s e; run s es }"

fun adm_run :: "'s \<Rightarrow> 'e list \<Rightarrow> bool" where
  "adm_run s [] = True"
| "adm_run s (e # es) = (adm s e \<and> (case exec s e of None \<Rightarrow> True | Some s' \<Rightarrow> adm_run s' es))"

lemma run_inv: "inv s \<Longrightarrow> adm_run s es \<Longrightarrow> \<exists>s'. run s es = Some s' \<and> inv s'"
proof (induction es arbitrary: s)
  case Nil
  then show ?case by simp
next
  case (Cons e es)
  then obtain s' where "exec s e = Some s'" "inv s'" using exec_inv [of s e] by auto
  with Cons show ?case by simp
qed

lemma run_append: "run s (es @ fs) = do { s \<leftarrow> run s es; run s fs }"
  by (induction es arbitrary: s) (auto split: bind_splits)

end

text \<open>Runs outside the locale, for statements about concrete components.\<close>

fun exec_run :: "('s \<Rightarrow> 'e \<Rightarrow> 's option) \<Rightarrow> 's \<Rightarrow> 'e list \<Rightarrow> 's option" where
  "exec_run exec s [] = Some s"
| "exec_run exec s (e # es) = do { s \<leftarrow> exec s e; exec_run exec s es }"

fun all_admissible :: "('s \<Rightarrow> 'e \<Rightarrow> bool) \<Rightarrow> ('s \<Rightarrow> 'e \<Rightarrow> 's option) \<Rightarrow> 's \<Rightarrow> 'e list \<Rightarrow> bool" where
  "all_admissible adm exec s [] = True"
| "all_admissible adm exec s (e # es) =
     (adm s e \<and> (case exec s e of None \<Rightarrow> True | Some s' \<Rightarrow> all_admissible adm exec s' es))"

context event_system
begin

lemma run_exec_run: "run s es = exec_run exec s es"
  by (induction es arbitrary: s) auto

lemma adm_run_all: "adm_run s es = all_admissible adm exec s es"
  by (induction es arbitrary: s) (auto split: option.splits)

lemma exec_run_inv: "inv s \<Longrightarrow> all_admissible adm exec s es \<Longrightarrow> \<exists>s'. exec_run exec s es = Some s' \<and> inv s'"
  using run_inv [of s es] by (simp add: run_exec_run adm_run_all)

end

end
