(* ===== verification/Maap_Scenarios.thy ===== *)
theory Maap_Scenarios
  imports Maap_Lifecycle Event_System
begin

text \<open>
  Scenarios of the MAAP client: a concrete client that holds two address blocks, the
  whole probing phase under timer events, one conflict on its own with its outcomes, and the two sequences that end in a crash
  or in a missed conflict.
\<close>

section \<open>The client as an event system\<close>

interpretation maap: event_system "\<lambda>s. \<exists>as. maap_inv s as" admissible maap_exec
  by unfold_locales (use exec_ok in blast)

section \<open>A concrete client\<close>

definition demo_range :: "int \<Rightarrow> maap_state \<Rightarrow> int \<Rightarrow> time \<Rightarrow> addr \<Rightarrow> range" where
  "demo_range i st cnt t a = \<lparr>range_id = i, state = st, counter = cnt, overlapping = False, next_act_time = t,
     r_interval = Some a, r_sender = 5\<rparr>"

definition demo_client :: maap_client where
  "demo_client = \<lparr>dest_mac = 0x91E0F000FF00, src_mac = 0x0200000000FF, address_base = MAAP_DYNAMIC_POOL_BASE,
     range_len = MAAP_DYNAMIC_POOL_SIZE, ranges = Some 1, timer_queue = [11, 12], mc_timer = Some \<lparr>created = True, armed = None\<rparr>,
     mc_net = Some \<lparr>net_buffer = replicate NUM_BUFFERS zero_buffer, pFirst = []\<rparr>, maxid = 2, notifies = [], initialized = True,
     ih = [1 \<mapsto> iv_node 0 9 (Some 11) None None (Some 2), 2 \<mapsto> iv_node 20 29 (Some 12) (Some 1) None None],
     rh = [11 \<mapsto> demo_range 1 MAAP_STATE_PROBING 0 (Time 5 0) 1, 12 \<mapsto> demo_range 2 MAAP_STATE_DEFENDING 0 (Time 9 0) 2],
     next_addr = 100, oom = (\<lambda>_. False), rnd = (\<lambda>i. 100), rnd_pos = 0, clock = (\<lambda>i. Time (6 + int i) 0), clock_pos = 0\<rparr>"

lemma demo_inv: "maap_inv demo_client [1, 2]"
proof -
  have "irep (ih demo_client) (Some 1) [1, 2]"
    unfolding irep_def
    by (rule exI [of _ "Node Leaf 1 (Node Leaf 2 Leaf)"]) (simp add: demo_client_def iv_node_def links_def)
  then have "client_core {} {} demo_client [1, 2]"
    by (auto simp: core_def tree_ok_def ranges_ok_def queue_ok_def demo_client_def iv_node_def entry_of_def disjoint_sorted_def
        in_pool_def owned_def node_data_def held_def active_def demo_range_def act_time_def less_eq_time_def
        MAAP_DYNAMIC_POOL_SIZE_def)
  moreover have "env demo_client"
    by (auto simp: env_def demo_client_def net_ok_def net_inv_def zero_buffer_def normal_def mono_def less_eq_time_def
        MAAP_DYNAMIC_POOL_BASE_def MAAP_DYNAMIC_POOL_SIZE_def)
  ultimately show ?thesis by (auto simp: maap_inv_def flags_def demo_client_def demo_range_def split: if_splits)
qed


section \<open>Lemmas\<close>

text \<open>The probing phase: nothing but timer events, at whatever times.\<close>

fun timer_events :: "nat \<Rightarrow> maap_client \<Rightarrow> maap_client option" where
  "timer_events 0 s = Some s"
| "timer_events (Suc k) s = do { (_, s) \<leftarrow> maap_handle_timer s; timer_events k s }"

lemma timer_events_add: "timer_events m s = Some s1 \<Longrightarrow> timer_events (m + k) s = timer_events k s1"
  by (induction m arbitrary: s) (auto split: bind_splits)

text \<open>A client with a probing range, and what a number of timer events keeps.\<close>

definition probing :: "maap_client \<Rightarrow> addr list \<Rightarrow> addr \<Rightarrow> range \<Rightarrow> interval \<Rightarrow> bool" where
  "probing s as r g n \<longleftrightarrow> maap_inv s as \<and> length (timer_queue s) \<le> 100000 \<and> rh s r = Some g \<and> state g = MAAP_STATE_PROBING \<and>
     interval_of s r = Some n"

definition acquired_note :: "maap_client \<Rightarrow> range \<Rightarrow> interval \<Rightarrow> maap_notify \<times> sender" where
  "acquired_note s g n = (range_note s MAAP_NOTIFY_ACQUIRED (range_id g) n MAAP_NOTIFY_ERROR_NONE, r_sender g)"

definition keeps :: "maap_client \<Rightarrow> addr list \<Rightarrow> addr \<Rightarrow> interval \<Rightarrow> maap_client \<Rightarrow> bool" where
  "keeps s as r n s' \<longleftrightarrow> maap_inv s' as \<and> length (timer_queue s') \<le> 100000 \<and> interval_of s' r = Some n \<and> clock s' = clock s \<and>
     address_base s' = address_base s"

lemma probing_step:
  assumes "probing s as r g n"
  shows "\<exists>s' ns. maap_handle_timer s = Some (0, s') \<and> keeps s as r n s' \<and> clock_pos s < clock_pos s' \<and> notifies s' = notifies s @ ns \<and>
    (if next_act_time g \<le> clock s (clock_pos s)
     then (\<exists>t. rh s' r = Some (fired g t)) \<and> (counter g = 0 \<longrightarrow> acquired_note s g n \<in> set ns)
     else rh s' r = Some g)"
proof -
  let ?T = "clock s (clock_pos s)"
  have inv: "maap_inv s as" "length (timer_queue s) \<le> 100000" and g: "rh s r = Some g" "state g = MAAP_STATE_PROBING" "interval_of s r = Some n"
    using assms by (simp_all add: probing_def)
  obtain s' where s': "maap_handle_timer s = Some (0, s')" "maap_inv s' as" "length (timer_queue s') \<le> 100000" "passed ?T s s'"
    "clock_pos s < clock_pos s'" using handle_timer_passed [OF inv] by blast
  then obtain ns where ns: "notifies s' = notifies s @ ns" and note_in: "r \<in> due ?T s \<Longrightarrow> counter g = 0 \<Longrightarrow> acquired_note s g n \<in> set ns"
    using g by (auto simp: passed_def acquired_note_def)
  have "set (timer_queue s) = dom (rh s)" using inv(1) by (auto simp: maap_inv_def core_def queue_ok_def)
  then have d: "r \<in> due ?T s \<longleftrightarrow> next_act_time g \<le> ?T" using g(1) by (auto simp: due_def act_time_def)
  have rh': "if next_act_time g \<le> ?T then \<exists>t. rh s' r = Some (fired g t) else rh s' r = Some g"
    using s'(4) g d by (auto simp: passed_def)
  have "\<exists>g'. rh s' r = Some g' \<and> r_interval g' = r_interval g" using rh' by (auto simp: fired_def split: if_splits)
  then have "interval_of s' r = Some n" using g(1,3) s'(4) by (auto simp: interval_of_def passed_def)
  then have "keeps s as r n s'" using s' by (simp add: keeps_def passed_def)
  then show ?thesis using s'(1,5) ns rh' note_in d by auto
qed

text \<open>The timer of a probing range fires at the first event whose time is not before the due time.\<close>

lemma probing_fires:
  assumes "probing s as r g n" and "next_act_time g \<le> clock s (clock_pos s + d)"
  shows "\<exists>m s' t ns. timer_events (Suc m) s = Some s' \<and> keeps s as r n s' \<and> rh s' r = Some (fired g t) \<and> notifies s' = notifies s @ ns \<and>
    (counter g = 0 \<longrightarrow> acquired_note s g n \<in> set ns) \<and> (\<forall>j\<le>m. \<exists>s1. timer_events j s = Some s1 \<and> rh s1 r = Some g)"
  using assms
proof (induction d arbitrary: s)
  case 0
  from probing_step [OF 0(1)] 0(2) obtain s' t ns where "maap_handle_timer s = Some (0, s')" "keeps s as r n s'" "notifies s' = notifies s @ ns"
    "rh s' r = Some (fired g t)" "counter g = 0 \<longrightarrow> acquired_note s g n \<in> set ns" by auto
  with 0(1) show ?case by (intro exI [of _ 0] exI [of _ s']) (auto simp: probing_def)
next
  case (Suc d)
  obtain s1 ns where s1: "maap_handle_timer s = Some (0, s1)" "keeps s as r n s1" "clock_pos s < clock_pos s1" "notifies s1 = notifies s @ ns"
    "if next_act_time g \<le> clock s (clock_pos s) then (\<exists>t. rh s1 r = Some (fired g t)) \<and> (counter g = 0 \<longrightarrow> acquired_note s g n \<in> set ns)
     else rh s1 r = Some g"
    using probing_step [OF Suc.prems(1)] by blast
  have g: "rh s r = Some g" "state g = MAAP_STATE_PROBING" and mono: "mono (clock s)"
    using Suc.prems(1) by (simp_all add: probing_def maap_inv_def env_def)
  show ?case
  proof (cases "next_act_time g \<le> clock s (clock_pos s)")
    case True
    with s1 g(1) show ?thesis by (intro exI [of _ 0] exI [of _ s1]) auto
  next
    case False
    have "clock s (clock_pos s + Suc d) \<le> clock s1 (clock_pos s1 + d)"
      using monoD [OF mono, of "clock_pos s + Suc d" "clock_pos s1 + d"] s1(2,3) by (simp add: keeps_def)
    then have "next_act_time g \<le> clock s1 (clock_pos s1 + d)" using Suc.prems(2) by order
    moreover have "probing s1 as r g n" using s1(2,5) False g by (simp add: probing_def keeps_def)
    ultimately obtain m s' t ms where m: "timer_events (Suc m) s1 = Some s'" "keeps s1 as r n s'" "rh s' r = Some (fired g t)"
      "notifies s' = notifies s1 @ ms" "counter g = 0 \<longrightarrow> acquired_note s1 g n \<in> set ms"
      "\<forall>j\<le>m. \<exists>s2. timer_events j s1 = Some s2 \<and> rh s2 r = Some g" using Suc.IH by blast
    have "acquired_note s1 g n = acquired_note s g n" using s1(2) by (simp add: acquired_note_def keeps_def range_note_def)
    moreover have "\<forall>j\<le>Suc m. \<exists>s2. timer_events j s = Some s2 \<and> rh s2 r = Some g"
    proof (intro allI impI)
      fix j assume "j \<le> Suc m"
      then show "\<exists>s2. timer_events j s = Some s2 \<and> rh s2 r = Some g" using m(6) s1(1) g(1) by (cases j) auto
    qed
    ultimately show ?thesis
      using m(1-5) s1(1,2,4) by (intro exI [of _ "Suc m"] exI [of _ s'] exI [of _ t] exI [of _ "ns @ ms"]) (auto simp: keeps_def)
  qed
qed

lemma probing_ends:
  assumes "probing s as r g n" and "counter g = int k" and "\<forall>t. \<exists>i. t \<le> clock s i"
  shows "\<exists>m s' g' ns. k < m \<and> timer_events m s = Some s' \<and> keeps s as r n s' \<and> rh s' r = Some g' \<and> state g' = MAAP_STATE_DEFENDING \<and>
    notifies s' = notifies s @ ns \<and> acquired_note s g n \<in> set ns \<and>
    (\<forall>j<m. \<exists>s1 g1. timer_events j s = Some s1 \<and> rh s1 r = Some g1 \<and> state g1 = MAAP_STATE_PROBING)"
  using assms
proof (induction k arbitrary: s g)
  have fires: "\<exists>m s' t ns. timer_events (Suc m) s = Some s' \<and> keeps s as r n s' \<and> rh s' r = Some (fired g t) \<and> notifies s' = notifies s @ ns \<and>
      (counter g = 0 \<longrightarrow> acquired_note s g n \<in> set ns) \<and> (\<forall>j\<le>m. \<exists>s1. timer_events j s = Some s1 \<and> rh s1 r = Some g)"
    if p: "probing s as r g n" and u: "\<forall>t. \<exists>i. t \<le> clock s i" for s g
  proof -
    obtain i where "next_act_time g \<le> clock s i" using u by blast
    also have "clock s i \<le> clock s (clock_pos s + i)" using p by (auto simp: probing_def maap_inv_def env_def intro: monoD)
    finally show ?thesis by (rule probing_fires [OF p])
  qed
  {
    case 0
    from fires [OF 0(1,3)] obtain m s' t ns where m: "timer_events (Suc m) s = Some s'" "keeps s as r n s'" "rh s' r = Some (fired g t)"
      "notifies s' = notifies s @ ns" "acquired_note s g n \<in> set ns" "\<forall>j\<le>m. \<exists>s1. timer_events j s = Some s1 \<and> rh s1 r = Some g"
      using 0(2) by auto
    have "state (fired g t) = MAAP_STATE_DEFENDING" using 0(2) by (simp add: fired_def)
    moreover have "state g = MAAP_STATE_PROBING" using 0(1) by (simp add: probing_def)
    ultimately show ?case
      using m by (intro exI [of _ "Suc m"] exI [of _ s'] exI [of _ "fired g t"] exI [of _ ns]) (auto simp: less_Suc_eq_le)
  next
    case (Suc k)
    from fires [OF Suc.prems(1,3)] obtain m s1 t ns where m: "timer_events (Suc m) s = Some s1" "keeps s as r n s1" "rh s1 r = Some (fired g t)"
      "notifies s1 = notifies s @ ns" "\<forall>j\<le>m. \<exists>s1. timer_events j s = Some s1 \<and> rh s1 r = Some g" by blast
    have st: "state g = MAAP_STATE_PROBING" using Suc.prems(1) by (simp add: probing_def)
    let ?g = "fired g t"
    have f: "?g = g\<lparr>counter := int k, next_act_time := t\<rparr>" using Suc.prems(2) by (simp add: fired_def)
    have "probing s1 as r ?g n" using m(2,3) st by (simp add: probing_def keeps_def f)
    from Suc.IH [OF this] obtain l s' g' ms where l: "k < l" "timer_events l s1 = Some s'" "keeps s1 as r n s'" "rh s' r = Some g'"
      "state g' = MAAP_STATE_DEFENDING" "notifies s' = notifies s1 @ ms" "acquired_note s1 ?g n \<in> set ms"
      "\<forall>j<l. \<exists>s2 g1. timer_events j s1 = Some s2 \<and> rh s2 r = Some g1 \<and> state g1 = MAAP_STATE_PROBING"
      using Suc.prems(3) m(2) by (auto simp: f keeps_def)
    have eq: "acquired_note s1 ?g n = acquired_note s g n" using m(2) by (simp add: acquired_note_def keeps_def range_note_def f)
    have "\<exists>s2 g1. timer_events j s = Some s2 \<and> rh s2 r = Some g1 \<and> state g1 = MAAP_STATE_PROBING" if "j < Suc m + l" for j
    proof (cases "j \<le> m")
      case True
      with m(5) st show ?thesis by blast
    next
      case False
      then have j: "j = Suc m + (j - Suc m)" "j - Suc m < l" using that by simp_all
      then show ?thesis using timer_events_add [OF m(1), of "j - Suc m"] l(8) by metis
    qed
    then show ?case
      using timer_events_add [OF m(1), of l] l m(2,4) eq
      by (intro exI [of _ "Suc m + l"] exI [of _ s'] exI [of _ g'] exI [of _ "ns @ ms"]) (auto simp: keeps_def)
  }
qed

text \<open>Removing an interval while some node has no range fails the assertion of the repointing loop.\<close>

lemma repoint_loop_orphan:
  assumes "irep (ih s) (ranges s) (xs @ ys)" and "a \<in> set ys" "node_data (ih s) a = None"
    and "\<forall>b\<in>set ys. node_data (ih s) b = None \<or> (\<exists>r g. node_data (ih s) b = Some r \<and> rh s r = Some g)"
  shows "repoint_loop old (case ys of [] \<Rightarrow> None | a # _ \<Rightarrow> Some a) s = None"
  using assms
proof (induction ys arbitrary: xs s)
  case Nil
  then show ?case by simp
next
  case (Cons b ys)
  obtain n where n: "ih s b = Some n" using irep_live [OF Cons.prems(1), of b] by auto
  have nxt: "next_interval (ih s) b = Some (case ys of [] \<Rightarrow> None | c # _ \<Rightarrow> Some c)"
    using next_interval_irep [OF Cons.prems(1)] .
  show ?case
  proof (cases "node_data (ih s) b")
    case None
    then have "data n = None" using n by (simp add: node_data_def)
    with n show ?thesis by (subst repoint_loop.simps) simp
  next
    case (Some r)
    with Cons.prems(4) obtain g where g: "rh s r = Some g" by auto
    have "a \<in> set ys" using Cons.prems(2,3) Some by auto
    let ?s = "s\<lparr>rh := (rh s)(r \<mapsto> g\<lparr>r_interval := Some b\<rparr>)\<rparr>"
    have "\<forall>c\<in>set ys. node_data (ih ?s) c = None \<or> (\<exists>r g. node_data (ih ?s) c = Some r \<and> rh ?s r = Some g)"
    proof
      fix c assume "c \<in> set ys"
      with Cons.prems(4) have "node_data (ih s) c = None \<or> (\<exists>r g. node_data (ih s) c = Some r \<and> rh s r = Some g)" by simp
      then show "node_data (ih ?s) c = None \<or> (\<exists>r g. node_data (ih ?s) c = Some r \<and> rh ?s r = Some g)" by auto
    qed
    from Cons.IH [of ?s "xs @ [b]"] this \<open>a \<in> set ys\<close> Cons.prems(1,3)
    have "repoint_loop old (case ys of [] \<Rightarrow> None | c # _ \<Rightarrow> Some c) ?s = None" by simp
    moreover have "(if r_interval g \<noteq> Some b then range_upd s r (\<lambda>g. g\<lparr>r_interval := Some b\<rparr>) else Some s) = Some ?s"
      using g by (auto simp: range_upd_def fun_upd_idem)
    moreover have "data n = Some r" using Some n by (simp add: node_data_def)
    ultimately show ?thesis using n g nxt by (subst repoint_loop.simps) (cases "old = Some r"; simp)
  qed
qed

lemma remove_orphan:
  assumes rep: "irep (ih s) (ranges s) as" and b: "b \<in> set as" "node_data (ih s) b = Some r" "rh s r = Some g" "r_interval g = Some b"
    and a: "a \<in> set as" "node_data (ih s) a = None"
    and live: "\<forall>c\<in>set as. node_data (ih s) c = None \<or> (\<exists>r g. node_data (ih s) c = Some r \<and> rh s r = Some g)"
  shows "remove_range_interval s b = None"
proof -
  obtain xs ys where as: "as = xs @ b # ys" using b(1) by (meson split_list)
  obtain snip h1 root as' where r: "remove_interval (ih s) (ranges s) b = Some (snip, h1, root)"
    "irep h1 root as'" "snip \<notin> set as'" "entries h1 as' = entries (ih s) (xs @ ys)"
    "map_option data (h1 snip) = map_option data (ih s b)"
    using rep unfolding as by (elim remove_interval_irep) blast
  obtain n where n: "ih s b = Some n" using irep_live [OF rep b(1)] by blast
  have dn: "data n = Some r" using b(2) n by (simp add: node_data_def)
  obtain f where f: "h1 snip = Some f" "data f = Some r" using r(5) n dn by auto
  let ?h = "h1(snip := None)"
  have rep': "irep ?h root as'" using r(3) by (intro irep_cong [OF r(2)]) auto
  have ent: "entries ?h as' = entries (ih s) (xs @ ys)"
  proof -
    have "entries ?h as' = entries h1 as'" unfolding entries_def using r(3) by (intro map_cong) auto
    with r(4) show ?thesis by simp
  qed
  have "a \<noteq> b" using a b by auto
  then have "a \<in> set (xs @ ys)" using a(1) as by auto
  then obtain a' where a': "a' \<in> set as'" "entry_of (the (?h a')) = entry_of (the (ih s a))"
    using same_entries_data(2) [OF ent] by blast
  then have na: "node_data ?h a' = None" using a(2) by (simp add: node_data_def entry_of_def)
  have "\<forall>c\<in>set as'. node_data ?h c = None \<or> (\<exists>r g. node_data ?h c = Some r \<and> rh s r = Some g)"
  proof
    fix c assume "c \<in> set as'"
    then obtain d where d: "d \<in> set (xs @ ys)" "entry_of (the (?h c)) = entry_of (the (ih s d))"
      using same_entries_data(1) [OF ent] by blast
    then have "node_data ?h c = node_data (ih s) d" by (simp add: node_data_def entry_of_def)
    moreover have "d \<in> set as" using d(1) as by auto
    ultimately show "node_data ?h c = None \<or> (\<exists>r g. node_data ?h c = Some r \<and> rh s r = Some g)" using live by auto
  qed
  then have "repoint_loop (Some r) (case as' of [] \<Rightarrow> None | a # _ \<Rightarrow> Some a) (s\<lparr>ih := ?h, ranges := root\<rparr>) = None"
    using repoint_loop_orphan [of "s\<lparr>ih := ?h, ranges := root\<rparr>" "[]" as' a' "Some r"] rep' a'(1) na by simp
  then show ?thesis
    using n dn f r(1) b(3,4) minimum_interval_irep [OF rep'] by (simp add: remove_range_interval_def free_interval_def)
qed


text \<open>A reservation whose search succeeds with its last draw.\<close>

lemma late_reserve:
  assumes inv: "maap_inv s as" and len: "0 < len" "len \<le> 0xFFFF" "len \<le> range_len s"
    and att: "\<not> attempt_fits s att (ucast len)" and late: "late_success s (ucast len)" and i: "maxid s < INT_MAX"
  obtains s' as' a where "maap_reserve_range s sd att len = Some (-1, s')" "irep (ih s') (ranges s') as'" "a \<in> set as'"
    "node_data (ih s') a = None" "rh s' = rh s" "timer_queue s' = timer_queue s" "initialized s'" "env s'" "set as' = insert a (set as)"
    "\<forall>b\<in>set as. node_data (ih s') b = node_data (ih s) b \<and> ih s' b \<noteq> None"
proof -
  let ?i = "maxid s + 1" and ?r = "next_addr s" and ?len = "ucast len :: u16"
  let ?w = "s\<lparr>maxid := ?i\<rparr>"
  let ?s = "with_new ?w ?i sd"
  have c: "client_core {} {} ?w as" and e: "env ?w" and ini: "initialized s" using inv by (auto simp: maap_inv_def env_def)
  note l16 = u16_of_u32 [OF len(1,2)]
  have no: "rh s ?r = None" using core_fresh(2) [OF c] by simp
  have u: "usable ?s as ?len" using usable_core [OF with_new_core(1) [OF c] with_new_env [OF e]] l16 len(3) by simp
  have "late_success ?s ?len" using late late_success_cong [of ?s s] by simp
  then have "\<forall>j<999. taken (ih ?s) as (pick ?s ?len j) ?len" "\<not> taken (ih ?s) as (pick ?s ?len 999) ?len"
    by (simp_all add: late_success_def usable_blocked [OF u])
  from assign_loop_hit [OF u this, of 0 None] obtain h' root' as' where
    l: "assign_loop 1000 INTERVAL_OVERLAP None ?s ?len = Some (0, INTERVAL_SUCCESS, Some (Suc ?r + 999),
        ?s\<lparr>next_addr := Suc (Suc ?r + 999), rnd_pos := Suc (rnd_pos s + 999), ih := h', ranges := root'\<rparr>)"
    and ins: "inserted (ih s) as (Suc ?r + 999) (pick ?s ?len 999, pick ?s ?len 999 + ucast ?len - 1, None) h' root' as'"
    by auto
  let ?s2 = "?s\<lparr>next_addr := Suc (Suc ?r + 999), rnd_pos := Suc (rnd_pos s + 999), ih := h', ranges := root'\<rparr>"
  have "\<not> attempt_fits ?s att ?len" using att by (simp add: attempt_fits_def)
  then have as: "assign_interval ?s ?r att ?len = Some (-1, ?s2)"
    using len(3) l16(2) l by (simp add: assign_interval_def not_less)
  have e2: "env ?s2" using env_net [OF with_new_env [OF e, of ?i sd], of "Suc (Suc ?r + 999)"] with_new_env [OF e, of ?i sd] by (simp add: env_def)
  let ?s3 = "noted ?s2 sd (null_note MAAP_NOTIFY_ACQUIRED (-1) len MAAP_NOTIFY_ERROR_RESERVE_NOT_AVAILABLE)"
  have undo: "(rh ?s3)(?r := None) = rh s" using no by auto
  let ?s4 = "?s3\<lparr>rh := rh s\<rparr>"
  have nr: "new_range (s\<lparr>next_addr := Suc ?r, maxid := ?i\<rparr>) ?r ?i sd = ?s"
    by (simp add: new_range_def with_new_def fresh_range_def Time_setFromMonotonicTimer_def)
  have "\<not> (len > 0xFFFF \<or> len > range_len s)" using len(2,3) by (simp add: not_less)
  then have "maap_reserve_range s sd att len = Some (-1, ?s4)"
    using ini i nr as inform_ok(1) [OF e2] undo env_no_oom [OF e, of ?r]
    by (simp add: maap_reserve_range_def malloc_def Let_def range_free_def heap_free_def cong: if_cong)
  moreover have "irep (ih ?s4) (ranges ?s4) as'" "set as' = insert (Suc ?r + 999) (set as)" "node_data (ih ?s4) (Suc ?r + 999) = None"
    using ins by (auto simp: inserted_def node_data_def entry_of_def)
  moreover have "\<forall>b\<in>set as. node_data (ih ?s4) b = node_data (ih s) b \<and> ih ?s4 b \<noteq> None"
  proof -
    have d: "dom h' = insert (Suc ?r + 999) (dom (ih s))" "\<forall>b\<in>set as. entry_of (the (h' b)) = entry_of (the (ih s b))"
      using ins by (auto simp: inserted_def)
    moreover have "set as \<subseteq> dom h'" using d(1) core_tree(3) [OF c] by auto
    ultimately show ?thesis by (auto simp: node_data_def entry_of_def)
  qed
  moreover have "env ?s4" using noted_env [OF e2] by (simp add: env_def)
  ultimately show ?thesis using ini by (intro that [of ?s4 as' "Suc ?r + 999"]) simp_all
qed

lemma release_orphan:
  assumes e: "env s" "initialized s" and rep: "irep (ih s) (ranges s) as" and a: "a \<in> set as" "node_data (ih s) a = None"
    and live: "\<forall>c\<in>set as. node_data (ih s) c = None \<or> (\<exists>r g. node_data (ih s) c = Some r \<and> rh s r = Some g)"
    and q: "set (timer_queue s) \<subseteq> dom (rh s)" and f: "the_range s i (\<lambda>st. st \<noteq> MAAP_STATE_RELEASED) = Some r"
    and b: "b \<in> set as" "node_data (ih s) b = Some r" "rh s r = Some g" "r_interval g = Some b"
  shows "maap_release_range s sd i = None"
proof -
  obtain n where n: "ih s b = Some n" using irep_live [OF rep b(1)] by blast
  have iv: "interval_of s r = Some n" using b(3,4) n by (simp add: interval_of_def)
  have ff: "find_range (rh s) i (\<lambda>st. st \<noteq> MAAP_STATE_RELEASED) (timer_queue s) = Some (Some r)"
    using f find_range_ok [OF q] by (simp add: the_range_def)
  let ?s1 = "noted s sd (range_note s MAAP_NOTIFY_RELEASED i n MAAP_NOTIFY_ERROR_NONE)"
  have iv1: "interval_of ?s1 r = Some n" using iv by (simp add: interval_of_def)
  let ?m = "range_note ?s1 MAAP_NOTIFY_RELEASED i n MAAP_NOTIFY_ERROR_NONE"
  define s2 where "s2 = (if sd \<noteq> r_sender g then noted ?s1 (r_sender g) ?m else ?s1)"
  have s2: "(if sd \<noteq> r_sender g then inform_released ?s1 (r_sender g) i (Some r) MAAP_NOTIFY_ERROR_NONE else Some ?s1) = Some s2"
    using inform_range_ok(1) [OF noted_env [OF e(1)] iv1] by (simp add: s2_def)
  have "ih s2 = ih s" "ranges s2 = ranges s" "rh s2 = rh s" by (simp_all add: s2_def)
  then have "remove_range_interval s2 b = None"
    using remove_orphan [of s2 as b r g a] rep b a live by simp
  then show ?thesis
    using e(2) ff inform_range_ok(1) [OF e(1) iv] b(3,4) s2 by (simp add: maap_release_range_def)
qed

text \<open>A packet that begins below the pool and reaches into it is compared with wrapped numbers.\<close>

lemma straddle_misses:
  assumes n: "in_pool len n" and s: "start = - of_nat d" "0 < d" "d < cnt" "cnt \<le> 65535"
  shows "\<not> interval_check_overlap n start (of_nat cnt)"
proof
  assume o: "interval_check_overlap n start (of_nat cnt)"
  have d: "d < 2 ^ 32" "cnt < 2 ^ 32" using s(3,4) by simp_all
  have "start = 0 - of_nat d" using s(1) by simp
  then have us: "unat start = 2 ^ 32 - d" using s(2) d(1) by (simp only: unat_sub_if') (simp add: unat_of_nat)
  have ee: "start + of_nat cnt - 1 = of_nat (cnt - d - 1)" using s by (simp add: of_nat_diff)
  have ue: "unat (start + of_nat cnt - 1) = cnt - d - 1"
    unfolding ee unat_of_nat using d(2) by (intro mod_less) simp
  have lo: "unat (low n) \<le> cnt - d - 1" and hi: "2 ^ 32 - d \<le> unat (high n)"
    using o us ue by (simp_all add: interval_check_overlap_def word_le_nat_alt)
  have "low n \<le> high n" using lo hi s(3,4) by (simp add: word_le_nat_alt)
  then have "unat (high n - low n) = unat (high n) - unat (low n)" by (simp add: unat_sub)
  then have "unat (high n) - unat (low n) < 65535" using n by (simp add: in_pool_def)
  moreover have "(4294967296 :: nat) - d \<le> unat (high n)" using hi by simp
  ultimately show False using lo s(3,4) by linarith
qed


text \<open>Exactly one interval meets the packet: the conflict is resolved on the spot.\<close>

definition resolve :: "maap_client \<Rightarrow> maap_packet \<Rightarrow> addr \<Rightarrow> addr \<Rightarrow> range \<Rightarrow> maap_client option" where
  "resolve s p a r g =
     (if state g = MAAP_STATE_PROBING then
        (if message_type p = MAAP_PROBE \<and> compare_mac_addresses (src_mac s) (SA p) then Some s else move_probing s a r)
      else if message_type p = MAAP_PROBE then
        map_option snd (send_defend s r (requested_start_address p) (requested_count p) (SA p))
      else if compare_mac_addresses (src_mac s) (SA p) then Some s
      else yield_defending s a r)"

lemma single_conflict:
  assumes inv: "maap_inv s as" and a: "a \<in> set as" "ih s a = Some n" "data n = Some r" "rh s r = Some g"
    and p: "unpack_maap (replicate 8 0) (replicate 2 0) stream = Some (0, p)" "is_maap p" "of_concern s p"
    and len: "int MAAP_PKT_SIZE \<le> len" and start: "start = ucast (requested_start_address p - address_base s)"
    and one: "\<forall>b\<in>set as. hit s start (ucast (requested_count p)) b \<longleftrightarrow> b = a"
  shows "maap_handle_packet s stream len = do { s \<leftarrow> resolve s p a r g; s \<leftarrow> start_timer s; Some (0, s) }"
proof -
  let ?cnt = "ucast (requested_count p) :: u32"
  have c: "client_core {} {} s as" and fl: "flags (rh s) = {}" using inv by (simp_all add: maap_inv_def)
  have d: "distinct as" using irep_distinct [OF core_tree(1) [OF c]] .
  obtain xs ys where y: "as = xs @ ys" "\<forall>b\<in>set xs. \<not> hit s start ?cnt b"
    "search_interval (ih s) (ranges s) start ?cnt = Some (case ys of [] \<Rightarrow> None | a # _ \<Rightarrow> Some a)"
    using search_split [OF c] by metis
  obtain zs where ys: "ys = a # zs"
  proof -
    have ay: "a \<in> set ys" using a(1) y(1,2) one by auto
    then obtain b zs where "ys = b # zs" by (cases ys) auto
    have "search_interval (ih s) (ranges s) start ?cnt = Some (find (hit s start ?cnt) as)"
      using search_interval_irep [OF core_tree(1,2) [OF c], of start ?cnt]
      by (simp add: hits_def [abs_def] query_def entry_of_def hit_def [abs_def] interval_check_overlap_def)
    then have "find (hit s start ?cnt) as = Some b" using y(3) \<open>ys = b # zs\<close> by simp
    then have "hit s start ?cnt b" "b \<in> set as" by (auto simp: find_Some_iff)
    then have "b = a" using one by blast
    with \<open>ys = b # zs\<close> that show ?thesis by blast
  qed
  have "hit s start ?cnt a" using one a(1) by blast
  then have ov: "interval_check_overlap n start ?cnt" using a(2) by (simp add: hit_def)
  have rep: "irep (ih s) (ranges s) (xs @ a # zs)" using core_tree(1) [OF c] y(1) ys by simp
  note nxt = next_interval_irep [OF rep]
  let ?s1 = "s\<lparr>rh := (rh s)(r \<mapsto> g\<lparr>overlapping := True\<rparr>)\<rparr>"
  have "flag_loop (case zs of [] \<Rightarrow> None | b # _ \<Rightarrow> Some b) start ?cnt 1 ?s1 = Some (1, ?s1)"
  proof (cases zs)
    case Nil
    then show ?thesis by (simp add: flag_loop.simps)
  next
    case (Cons b bs)
    then have "b \<in> set as" "b \<noteq> a" using y(1) ys d by auto
    then have "\<not> hit s start ?cnt b" using one by blast
    moreover obtain m where "ih s b = Some m" using irep_live [OF core_tree(1) [OF c] \<open>b \<in> set as\<close>] by blast
    ultimately show ?thesis using Cons by (subst flag_loop.simps) (simp add: hit_def)
  qed
  then have fl1: "flag_loop (Some a) start ?cnt 0 s = Some (1, ?s1)"
    using a ov nxt by (subst flag_loop.simps) (simp add: range_upd_def)
  have ff: "find_flagged ?s1 (Some a) = Some (Some a)"
    using a by (subst find_flagged.simps) simp
  have ng: "\<not> overlapping g" using fl a(4) by (auto simp: flags_def)
  then have back_s: "(rh s)(r \<mapsto> g\<lparr>overlapping := False\<rparr>) = rh s" using a(4) by (simp add: fun_upd_idem)
  have act: "state g = MAAP_STATE_PROBING \<or> state g = MAAP_STATE_DEFENDING"
  proof -
    have "owned (ih s) (rh s) a" using c a(1) by (simp add: core_def)
    then show ?thesis using a by (auto simp: owned_def node_data_def active_def)
  qed
  have "handle_overlap ?s1 p start = resolve s p a r g"
    using y(3) ys ff a back_s act
    by (auto simp: handle_overlap_def resolve_def range_upd_def map_option_case split: option.splits bind_splits)
  then have "handle_overlaps 1 ?s1 p start = resolve s p a r g" by (cases "resolve s p a r g") simp_all
  then show ?thesis
    using len p y(3) ys fl1 by (simp add: maap_handle_packet_def Let_def start [symmetric])
qed


text \<open>
  The outcome of one conflict.  \<open>beats\<close> is the order of the addresses the standard
  prescribes, read as numbers with their bytes reversed; equal addresses count as won.
\<close>

definition beats :: "u64 \<Rightarrow> u64 \<Rightarrow> bool" where
  "beats x y \<longleftrightarrow> reversed_mac 6 x \<le> reversed_mac 6 y"

definition untouched :: "maap_client \<Rightarrow> maap_client \<Rightarrow> bool" where
  "untouched s s' \<longleftrightarrow> rh s' = rh s \<and> ih s' = ih s \<and> timer_queue s' = timer_queue s \<and> notifies s' = notifies s \<and> mc_net s' = mc_net s"

definition defended :: "maap_client \<Rightarrow> interval \<Rightarrow> maap_packet \<Rightarrow> maap_client \<Rightarrow> bool" where
  "defended s n p s' \<longleftrightarrow> rh s' = rh s \<and> ih s' = ih s \<and> timer_queue s' = timer_queue s \<and> notifies s' = notifies s \<and>
     queues s s' (defend_packet s n (requested_start_address p) (requested_count p) (SA p))"

definition settled :: "maap_client \<Rightarrow> addr list \<Rightarrow> maap_packet \<Rightarrow> addr \<Rightarrow> range \<Rightarrow> interval \<Rightarrow> maap_client \<Rightarrow> addr list \<Rightarrow> bool" where
  "settled s as p r g n s' as' \<longleftrightarrow>
     (if state g = MAAP_STATE_DEFENDING \<and> message_type p = MAAP_PROBE then defended s n p s'
      else if beats (src_mac s) (SA p) \<and> (state g = MAAP_STATE_DEFENDING \<or> message_type p = MAAP_PROBE) then untouched s s'
      else if state g = MAAP_STATE_DEFENDING then yielded s as r g n s' as'
      else moved s as r g n s' as')"

lemma settled_timer:
  "settled s as p r g n (s'\<lparr>mc_timer := t\<rparr>) as' = settled s as p r g n s' as'"
proof -
  have b: "blocks (s'\<lparr>mc_timer := t\<rparr>) as' = blocks s' as'" by (rule blocks_cong) simp
  have q: "queues s (s'\<lparr>mc_timer := t\<rparr>) x = queues s s' x" for x by (simp add: queues_def queued_def)
  show ?thesis
    unfolding settled_def defended_def untouched_def yielded_def renewed_def moved_def Let_def b q by (simp split: option.split)
qed

lemma resolve_ok:
  assumes inv: "maap_inv s as" and a: "a \<in> set as" "ih s a = Some n" "data n = Some r" "rh s r = Some g"
    and late: "\<not> late_success s (ucast (high n - low n + 1))" and room: "length (timer_queue s) < 100000"
  shows "\<exists>s' as'. resolve s p a r g = Some s' \<and> maap_inv s' as' \<and> settled s as p r g n s' as'"
proof -
  have c: "client_core {} {} s as" and e: "env s" and ini: "initialized s" "flags (rh s) = {}"
    using inv by (simp_all add: maap_inv_def)
  have cmp: "compare_mac_addresses x y \<longleftrightarrow> beats x y" for x y
    by (simp add: compare_mac_addresses_def compare_mac_loop_le beats_def del: reversed_mac.simps)
  have act: "state g = MAAP_STATE_PROBING \<or> state g = MAAP_STATE_DEFENDING" and iv: "r_interval g = Some a"
    using c a by (auto simp: core_def owned_def node_data_def active_def)
  obtain s1 as1 where m: "move_probing s a r = Some s1" "maap_inv s1 as1" "moved s as r g n s1 as1"
    by (rule move_probing_ok [OF c e a(1-3) late]) (use room a(4) ini in \<open>auto simp: maap_inv_def spares_def\<close>)
  obtain s2 as2 where y: "yield_defending s a r = Some s2" "maap_inv s2 as2" "yielded s as r g n s2 as2"
    by (rule yield_defending_ok [OF c e a(1-3) late room]) (use a(4) ini in \<open>auto simp: maap_inv_def spares_def\<close>)
  have "interval_of s r = Some n" using a(2,4) iv by (simp add: interval_of_def)
  from send_defend_ok [OF e this] obtain s3 where
    s3: "send_defend s r (requested_start_address p) (requested_count p) (SA p) = Some (0, s3)"
      "sent s s3 (defend_packet s n (requested_start_address p) (requested_count p) (SA p))" by blast
  have d: "maap_inv s3 as" "defended s n p s3"
    using sent_core [OF s3(2) e c] sent_queues [OF s3(2)] ini by (simp_all add: maap_inv_def defended_def)
  have u: "untouched s s" by (simp add: untouched_def)
  show ?thesis
    using act inv m y s3(1) d u by (auto simp: resolve_def settled_def cmp)
qed

lemma conflict_ok:
  assumes inv: "maap_inv s as" and a: "a \<in> set as" "ih s a = Some n" "data n = Some r" "rh s r = Some g"
    and p: "unpack_maap (replicate 8 0) (replicate 2 0) stream = Some (0, p)" "is_maap p" "of_concern s p"
    and len: "int MAAP_PKT_SIZE \<le> len"
    and one: "\<forall>b\<in>set as. hit s (ucast (requested_start_address p - address_base s)) (ucast (requested_count p)) b \<longleftrightarrow> b = a"
    and late: "\<not> late_success s (ucast (high n - low n + 1))" and room: "length (timer_queue s) < 100000"
  shows "\<exists>s' as'. maap_handle_packet s stream len = Some (0, s') \<and> maap_inv s' as' \<and> settled s as p r g n s' as'"
proof -
  obtain s1 as1 where s1: "resolve s p a r g = Some s1" "maap_inv s1 as1" "settled s as p r g n s1 as1"
    using resolve_ok [OF inv a late room] by blast
  obtain tm where tm: "start_timer s1 = Some (s1\<lparr>mc_timer := Some tm\<rparr>)" "env (s1\<lparr>mc_timer := Some tm\<rparr>)"
    using start_timer_ok [of s1 "{}" "{}" as1] s1(2) by (auto simp: maap_inv_def)
  have "maap_inv (s1\<lparr>mc_timer := Some tm\<rparr>) as1" using s1(2) tm(2) by (simp add: maap_inv_def)
  then show ?thesis using single_conflict [OF inv a p len refl one] s1(1) tm(1) s1(3) by (auto simp: settled_timer)
qed

end
