(* ===== verification/Maap_Properties.thy ===== *)
theory Maap_Properties
  imports Maap_Scenarios
begin

text \<open>
  The properties of the MAAP client, with witnesses on the concrete client of the
  scenarios.
\<close>

section \<open>Facts for the witnesses\<close>

lemma demo_simps [simp]:
  "address_base demo_client = MAAP_DYNAMIC_POOL_BASE" "range_len demo_client = MAAP_DYNAMIC_POOL_SIZE" "maxid demo_client = 2"
  "timer_queue demo_client = [11, 12]" "rnd demo_client = (\<lambda>i. 100)" "initialized demo_client" "src_mac demo_client = 0x0200000000FF"
  "rh demo_client = [11 \<mapsto> demo_range 1 MAAP_STATE_PROBING 0 (Time 5 0) 1, 12 \<mapsto> demo_range 2 MAAP_STATE_DEFENDING 0 (Time 9 0) 2]"
  "ih demo_client = [1 \<mapsto> iv_node 0 9 (Some 11) None None (Some 2), 2 \<mapsto> iv_node 20 29 (Some 12) (Some 1) None None]"
  "notifies demo_client = []"
  by (simp_all add: demo_client_def)

lemma demo_usable: "0 < len \<Longrightarrow> ucast len \<le> MAAP_DYNAMIC_POOL_SIZE \<Longrightarrow> usable demo_client [1, 2] len"
  using demo_inv usable_core [of "{}" "{}" demo_client "[1, 2]" len] by (simp add: maap_inv_def)

lemma demo_blocked:
  "0 < len \<Longrightarrow> ucast len \<le> MAAP_DYNAMIC_POOL_SIZE \<Longrightarrow> blocked demo_client start len \<longleftrightarrow> taken (ih demo_client) [1, 2] start len"
  by (rule usable_blocked [OF demo_usable])

lemma demo_not_late: "\<not> late_success demo_client 10"
proof -
  have "pick demo_client 10 0 = 100" by (simp add: pick_def MAAP_DYNAMIC_POOL_SIZE_def)
  then have "\<not> blocked demo_client (pick demo_client 10 0) 10"
    by (simp add: demo_blocked taken_def entry_of_def iv_node_def MAAP_DYNAMIC_POOL_SIZE_def)
  then show ?thesis unfolding late_success_def by force
qed

lemma demo_chosen: "chosen demo_client [1, 2] 0 10 = Some 100" "chosen demo_client [1, 2] 0x91E0F000000A 10 = Some 10"
proof -
  have "pick demo_client 10 0 = 100" by (simp add: pick_def MAAP_DYNAMIC_POOL_SIZE_def)
  moreover have "\<not> taken (ih demo_client) [1, 2] 100 10" "\<not> taken (ih demo_client) [1, 2] 10 10"
    by (simp_all add: taken_def entry_of_def iv_node_def)
  moreover have "\<not> preferable demo_client 0 10" "preferable demo_client 0x91E0F000000A 10"
    by (simp_all add: preferable_def MAAP_DYNAMIC_POOL_BASE_def MAAP_DYNAMIC_POOL_SIZE_def)
  moreover have "[0..<1000] = 0 # [Suc 0..<1000]" by (rule upt_conv_Cons) simp
  ultimately show "chosen demo_client [1, 2] 0 10 = Some 100" "chosen demo_client [1, 2] 0x91E0F000000A 10 = Some 10"
    unfolding chosen_def candidates_def by (simp_all add: MAAP_DYNAMIC_POOL_BASE_def del: upt_rec_numeral upt_Suc demo_simps(8,9))
qed

lemma empty_not_late: "ranges s = None \<Longrightarrow> \<not> late_success s len"
proof
  assume r: "ranges s = None" and l: "late_success s len"
  have "blocked s (pick s len 0) len" using l by (simp add: late_success_def)
  moreover have "irep (ih s) None []" unfolding irep_def by (rule exI [of _ Leaf]) simp
  then have "search_interval (ih s) None st cnt = Some None" for st cnt
    using search_interval_irep [of "ih s" None "[]" st cnt] by (simp add: disjoint_sorted_def)
  ultimately show False using r by (simp add: blocked_def)
qed

section \<open>Properties\<close>

text \<open>
  Property C2.  Reserving a block of a length from 1 to 65535 that is not longer than the pool,
  under the invariant, for a client whose ids are not used up (\<open>maxid s < INT_MAX\<close>), whose queue has room for
  the range, whose preferred block does not run past the end of the 64-bit address space, and whose random
  draws do not first meet a free block at the thousandth draw (\<open>late_success\<close>).  The function
  returns, and what it does is determined by the block it has to find: the
  preferred block if that lies in the pool and is free, otherwise the first of a thousand random draws that is
  free.  If all these candidates are taken, the return value is -1, the caller is told so and
  ranges and tree are as before.  Otherwise the new range has the next id, is in state probing with
  all its retransmissions ahead and holds exactly that block, its caller
  is notified, exactly one probe for the block is queued for transmission, and the
  invariant holds again (so the new block is disjoint from all others).
\<close>

theorem reserve_range_spec:
  assumes "maap_inv s as" and "0 < len" and "len \<le> 0xFFFF" and "len \<le> range_len s"
    and "unat att + unat len \<le> 2 ^ 64" and "\<not> late_success s (ucast len)"
    and "maxid s < INT_MAX" and "length (timer_queue s) < 100000"
  shows "case chosen s as att (ucast len) of
      None \<Rightarrow> \<exists>s'. maap_reserve_range s sd att len = Some (-1, s') \<and> maap_inv s' as \<and> ih s' = ih s \<and> rh s' = rh s \<and>
        notifies s' = notifies s @ [(null_note MAAP_NOTIFY_ACQUIRED (-1) len MAAP_NOTIFY_ERROR_RESERVE_NOT_AVAILABLE, sd)]
    | Some start \<Rightarrow> \<exists>s' as'. maap_reserve_range s sd att len = Some (maxid s + 1, s') \<and> maap_inv s' as' \<and>
        reserved s as sd (maxid s + 1) start len s' as'"
  using reserve_ok [OF assms] .

theorem reserve_range_spec_witness:
  "(\<exists>s' as'. maap_reserve_range demo_client 7 0 10 = Some (3, s') \<and> maap_inv s' as' \<and> reserved demo_client [1, 2] 7 3 100 10 s' as') \<and>
   (\<exists>s' as'. maap_reserve_range demo_client 7 0x91E0F000000A 10 = Some (3, s') \<and> maap_inv s' as' \<and> reserved demo_client [1, 2] 7 3 10 10 s' as')"
  using reserve_range_spec [OF demo_inv, of 10 0 7] reserve_range_spec [OF demo_inv, of 10 "0x91E0F000000A" 7] demo_not_late demo_chosen
  by (simp add: MAAP_DYNAMIC_POOL_SIZE_def INT_MAX_def)

text \<open>
  Property C22.  Releasing an id that no live range has changes nothing but a notification
  of an invalid id and returns -1.  Releasing a live one returns 0, takes exactly its
  interval out of the tree, marks the range as released (the timer frees it later), sends no
  packet, and notifies the caller and, if it is another, the owner of the range.
\<close>

theorem release_range_spec:
  assumes "maap_inv s as"
  shows "case the_range s i (\<lambda>st. st \<noteq> MAAP_STATE_RELEASED) of
      None \<Rightarrow> maap_release_range s sd i = Some (-1, noted s sd (null_note MAAP_NOTIFY_RELEASED i 0 MAAP_NOTIFY_ERROR_RELEASE_INVALID_ID))
    | Some r \<Rightarrow> \<exists>s' as' n g. maap_release_range s sd i = Some (0, s') \<and> maap_inv s' as' \<and> interval_of s r = Some n \<and> rh s r = Some g \<and>
        set (entries (ih s') as') = set (entries (ih s) as) - {(low n, high n, Some r)} \<and>
        (\<exists>g'. rh s' r = Some g' \<and> state g' = MAAP_STATE_RELEASED) \<and> mc_net s' = mc_net s \<and>
        notifies s' = notifies s @ map (\<lambda>to. (range_note s MAAP_NOTIFY_RELEASED i n MAAP_NOTIFY_ERROR_NONE, to))
          (sd # (if sd \<noteq> r_sender g then [r_sender g] else []))"
  using release_ok [OF assms] .

theorem release_range_spec_witness:
  "\<exists>s' as'. maap_release_range demo_client 7 2 = Some (0, s') \<and> maap_inv s' as' \<and> set (entries (ih s') as') = {(0, 9, Some 11)} \<and>
     map snd (notifies s') = [7, 5]"
proof -
  have "the_range demo_client 2 (\<lambda>st. st \<noteq> MAAP_STATE_RELEASED) = Some 12" by (simp add: the_range_def demo_range_def)
  then obtain s' as' where "maap_release_range demo_client 7 2 = Some (0, s')" "maap_inv s' as'" "map snd (notifies s') = [7, 5]"
    "set (entries (ih s') as') = {(0, 9, Some 11), (20, 29, Some 12)} - {(20, 29, Some 12)}"
    using release_range_spec [OF demo_inv, where i = 2 and sd = 7]
    by (auto simp: interval_of_def demo_range_def entries_def entry_of_def iv_node_def)
  moreover have "{(0, 9, Some 11), (20, 29, Some 12)} - {(20, 29, Some 12)} = {(0 :: u32, 9 :: u32, Some (11 :: nat))}" by auto
  ultimately show ?thesis by auto
qed

text \<open>
  Property C11.  Handling the timer ends: the loop runs as long as the first range of the
  queue is due, and each pass reschedules it strictly later or frees it.  Afterwards no
  range is due at the time the function read, the invariant holds, and the tree holds the same nodes.
\<close>

theorem handle_timer_terminates:
  assumes "maap_inv s as" and "length (timer_queue s) \<le> 100000"
  shows "\<exists>s'. maap_handle_timer s = Some (0, s') \<and> maap_inv s' as \<and> due (clock s (clock_pos s)) s' = {}"
  using handle_timer_ok [OF assms] .

theorem handle_timer_terminates_witness:
  "due (Time 6 0) demo_client = {11} \<and>
   (\<exists>s'. maap_handle_timer demo_client = Some (0, s') \<and> maap_inv s' [1, 2] \<and> due (Time 6 0) s' = {})"
proof
  have "clock demo_client (clock_pos demo_client) = Time 6 0" by (simp add: demo_client_def)
  then show "\<exists>s'. maap_handle_timer demo_client = Some (0, s') \<and> maap_inv s' [1, 2] \<and> due (Time 6 0) s' = {}"
    using handle_timer_terminates [OF demo_inv] by simp
  show "due (Time 6 0) demo_client = {11}"
    by (auto simp: due_def demo_range_def act_time_def less_eq_time_def)
qed

text \<open>
  Property C31.  Deinitialising a client returns, walks the whole tree, frees every interval
  node and every range, and leaves neither queue, timer, socket nor notification.
\<close>

theorem deinit_frees_all:
  assumes "maap_inv s as"
  shows "\<exists>s'. maap_deinit_client s = Some s' \<and> ih s' = Map.empty \<and> rh s' = Map.empty \<and> ranges s' = None \<and>
    timer_queue s' = [] \<and> notifies s' = [] \<and> mc_net s' = None \<and> mc_timer s' = None \<and> \<not> initialized s'"
  using deinit_ok [OF assms] .

theorem deinit_frees_all_witness:
  "\<exists>s'. maap_deinit_client demo_client = Some s' \<and> ih s' = Map.empty \<and> rh s' = Map.empty \<and> \<not> initialized s'"
  using deinit_frees_all [OF demo_inv] by blast

text \<open>
  Property C1.  A client that is initialised in a sane environment and then receives any
  sequence of commands, packets, timer events and reads of notifications, each admissible when
  it arrives, never crashes (no failed assertion, no dangling pointer, no endless loop)
  and satisfies the invariant at the end.
\<close>

theorem maap_run_safe:
  assumes "blank s" and "unat base + unat len \<le> 2 ^ 64" and "maap_exec s (Init sd base len) = Some s0"
    and "all_admissible admissible maap_exec s0 es"
  shows "\<exists>s' as. exec_run maap_exec s0 es = Some s' \<and> maap_inv s' as"
proof -
  have "maap_inv s0 []" using init_ok [OF assms(1,2), of True sd] assms(3) by (auto simp: maap_exec_def)
  then show ?thesis using maap.exec_run_inv assms(4) by blast
qed

definition blank_client :: maap_client where
  "blank_client = demo_client\<lparr>ranges := None, timer_queue := [], mc_timer := None, mc_net := None, maxid := 0, initialized := False,
     ih := Map.empty, rh := Map.empty\<rparr>"

definition blank_start :: maap_client where
  "blank_start = noted (blank_client\<lparr>mc_timer := Some \<lparr>created = True, armed = None\<rparr>,
    mc_net := Some \<lparr>net_buffer = replicate NUM_BUFFERS zero_buffer, pFirst = []\<rparr>, range_len := 100, initialized := True\<rparr>) 1
    \<lparr>kind = MAAP_NOTIFY_INITIALIZED, note_id = -1, note_start = MAAP_DYNAMIC_POOL_BASE, note_count = 100, note_result = MAAP_NOTIFY_ERROR_NONE\<rparr>"

lemma blank_client_init: "blank blank_client" "maap_exec blank_client (Init 1 MAAP_DYNAMIC_POOL_BASE 100) = Some blank_start"
  using demo_inv by (simp_all add: blank_def blank_client_def maap_inv_def env_def maap_exec_def maap_init_client_def Time_newTimer_def
      Net_newNet_def inform_initialized_def add_notify_ok blank_start_def noted_def demo_client_def)

lemma blank_start_simps [simp]:
  "address_base blank_start = MAAP_DYNAMIC_POOL_BASE" "range_len blank_start = 100" "maxid blank_start = 0" "timer_queue blank_start = []"
  "rnd blank_start = (\<lambda>i. 100)" "initialized blank_start" "rh blank_start = Map.empty" "ih blank_start = Map.empty" "ranges blank_start = None"
  by (simp_all add: blank_start_def noted_def blank_client_def demo_client_def)

lemma blank_start_inv: "maap_inv blank_start []"
proof -
  have "unat MAAP_DYNAMIC_POOL_BASE + unat (100 :: u32) \<le> 2 ^ 64" by (simp add: MAAP_DYNAMIC_POOL_BASE_def)
  from init_ok [OF blank_client_init(1) this, of True 1] blank_client_init(2) show ?thesis by (auto simp: maap_exec_def)
qed

theorem maap_run_safe_witness:
  "\<exists>s0 s' as. maap_exec blank_client (Init 1 MAAP_DYNAMIC_POOL_BASE 100) = Some s0 \<and>
     exec_run maap_exec s0 [Status 1 4, Release 2 4, NextNotify, Reserve 3 0 10] = Some s' \<and> maap_inv s' as"
proof -
  have "all_admissible admissible maap_exec blank_start [Status 1 4, Release 2 4, NextNotify, Reserve 3 0 10]"
    by (simp add: admissible_def few_def maap_exec_def blank_start_def noted_def blank_client_def demo_client_def maap_range_status_def
        maap_release_range_def inform_status_def inform_released_def note_range_def add_notify_ok get_notify_def empty_not_late INT_MAX_def split: option.split)
  moreover have "unat MAAP_DYNAMIC_POOL_BASE + unat (100 :: u32) \<le> 2 ^ 64" by (simp add: MAAP_DYNAMIC_POOL_BASE_def)
  ultimately show ?thesis using maap_run_safe [OF blank_client_init(1) _ blank_client_init(2)] blank_client_init(2) by blast
qed

text \<open>Two reservations from there.\<close>

lemma constant_not_late: "rnd s = (\<lambda>i. c) \<Longrightarrow> \<not> late_success s len"
proof
  assume "rnd s = (\<lambda>i. c)" and l: "late_success s len"
  then have "pick s len 999 = pick s len 0" by (simp add: pick_def)
  moreover have "blocked s (pick s len 0) len" "\<not> blocked s (pick s len 999) len" using l by (simp_all add: late_success_def)
  ultimately show False by simp
qed

lemma two_reservations:
  obtains s1 as1 s2 as2 where "maap_exec blank_start (Reserve 2 MAAP_DYNAMIC_POOL_BASE 10) = Some s1"
    "maap_exec s1 (Reserve 3 (MAAP_DYNAMIC_POOL_BASE + 10) 10) = Some s2"
    "reserved blank_start [] 2 1 0 10 s1 as1" "reserved s1 as1 3 2 10 10 s2 as2"
    "all_admissible admissible maap_exec blank_start [Reserve 2 MAAP_DYNAMIC_POOL_BASE 10, Reserve 3 (MAAP_DYNAMIC_POOL_BASE + 10) 10]"
proof -
  let ?p = "MAAP_DYNAMIC_POOL_BASE" and ?q = "MAAP_DYNAMIC_POOL_BASE + 10"
  have p: "preferable s ?p 10" "preferable s ?q 10" if "address_base s = ?p" "range_len s = 100" for s
    using that by (simp_all add: preferable_def MAAP_DYNAMIC_POOL_BASE_def)
  have w: "unat ?p + unat (10 :: u32) \<le> 2 ^ 64" "unat ?q + unat (10 :: u32) \<le> 2 ^ 64" by (simp_all add: MAAP_DYNAMIC_POOL_BASE_def)
  have ch1: "chosen blank_start [] ?p 10 = Some 0" using p(1) [of blank_start] by (simp add: chosen_def candidates_def taken_def)
  have a1: "admissible blank_start (Reserve 2 ?p 10)"
    using w(1) by (simp add: admissible_def few_def INT_MAX_def constant_not_late)
  obtain s1 as1 where s1: "maap_reserve_range blank_start 2 ?p 10 = Some (1, s1)" "maap_inv s1 as1" "reserved blank_start [] 2 1 0 10 s1 as1"
    using reserve_ok [OF blank_start_inv, of 10 ?p 2] ch1 w(1) by (auto simp: INT_MAX_def constant_not_late)
  have f: "address_base s1 = ?p" "range_len s1 = 100" "rnd s1 = (\<lambda>i. 100)" "maxid s1 = 1" "length (timer_queue s1) = 1"
    and e: "\<exists>r. set (entries (ih s1) as1) = {(0, 9, Some r)}"
    using s1(3) by (auto simp: reserved_def entries_def)
  have "\<not> taken (ih s1) as1 10 10"
  proof
    assume "taken (ih s1) as1 10 10"
    then have "\<exists>x\<in>set (entries (ih s1) as1). overlaps x (10, 19, None)" by (auto simp: taken_def entries_def)
    with e show False by auto
  qed
  then have ch2: "chosen s1 as1 ?q 10 = Some 10" using p(2) [OF f(1,2)] f(1) by (simp add: chosen_def candidates_def)
  have a2: "admissible s1 (Reserve 3 ?q 10)"
    using w(2) f by (simp add: admissible_def few_def INT_MAX_def constant_not_late)
  obtain s2 as2 where s2: "maap_reserve_range s1 3 ?q 10 = Some (2, s2)" "reserved s1 as1 3 2 10 10 s2 as2"
    using reserve_ok [OF s1(2), of 10 ?q 3] ch2 w(2) f by (auto simp: INT_MAX_def constant_not_late)
  show thesis by (rule that [of s1 s2 as1 as2]) (use s1 s2 a1 a2 in \<open>simp_all add: maap_exec_def\<close>)
qed

lemma two_active:
  assumes "reserved s as sd i st len s1 as1" and "reserved s1 as1 sd' i' st' len' s2 as2"
  obtains r g x g' where "r \<noteq> x" "rh s2 r = Some g" "active g" "rh s2 x = Some g'" "active g'"
proof -
  obtain r g where r: "rh s1 r = Some g" "state g = MAAP_STATE_PROBING" using assms(1) by (auto simp: reserved_def)
  obtain x g' where x: "rh s1 x = None" "rh s2 x = Some g'" "state g' = MAAP_STATE_PROBING" "rh s2 r = Some g"
    using assms(2) r(1) by (auto simp: reserved_def map_le_def dom_def)
  show thesis by (rule that [of r x g g']) (use r x in \<open>auto simp: active_def\<close>)
qed

text \<open>
  Property C25.  No two ranges of a station ever hold overlapping blocks: after the initialisation in a sane
  environment and any sequence of admissible events, two different ranges that are probing
  or defending hold disjoint address blocks, and each block lies within the pool.
\<close>

theorem ranges_disjoint:
  assumes "blank s" and "unat base + unat len \<le> 2 ^ 64" and "maap_exec s (Init sd base len) = Some s0"
    and "all_admissible admissible maap_exec s0 es"
  shows "\<exists>s'. exec_run maap_exec s0 es = Some s' \<and>
    (\<forall>r g x g'. rh s' r = Some g \<and> active g \<and> rh s' x = Some g' \<and> active g' \<and> r \<noteq> x \<longrightarrow>
      (\<exists>n m. interval_of s' r = Some n \<and> interval_of s' x = Some m \<and> (high n < low m \<or> high m < low n) \<and>
        low n \<le> high n \<and> high n < range_len s'))"
proof -
  have "maap_inv s0 []" using init_ok [OF assms(1,2), of True sd] assms(3) by (auto simp: maap_exec_def)
  then obtain s' as where s': "exec_run maap_exec s0 es = Some s'" "maap_inv s' as" using maap.exec_run_inv assms(4) by blast
  then show ?thesis using inv_disjoint [OF s'(2)] by metis
qed

theorem ranges_disjoint_witness:
  "\<exists>s0 s' n m. maap_exec blank_client (Init 1 MAAP_DYNAMIC_POOL_BASE 100) = Some s0 \<and>
     exec_run maap_exec s0 [Reserve 2 MAAP_DYNAMIC_POOL_BASE 10, Reserve 3 (MAAP_DYNAMIC_POOL_BASE + 10) 10] = Some s' \<and>
     (\<exists>r g x g'. r \<noteq> x \<and> rh s' r = Some g \<and> active g \<and> rh s' x = Some g' \<and> active g' \<and>
       interval_of s' r = Some n \<and> interval_of s' x = Some m \<and> (high n < low m \<or> high m < low n))"
proof -
  note s0 = blank_client_init
  obtain s1 as1 s2 as2 where s: "maap_exec blank_start (Reserve 2 MAAP_DYNAMIC_POOL_BASE 10) = Some s1"
    "maap_exec s1 (Reserve 3 (MAAP_DYNAMIC_POOL_BASE + 10) 10) = Some s2"
    "reserved blank_start [] 2 1 0 10 s1 as1" "reserved s1 as1 3 2 10 10 s2 as2"
    "all_admissible admissible maap_exec blank_start [Reserve 2 MAAP_DYNAMIC_POOL_BASE 10, Reserve 3 (MAAP_DYNAMIC_POOL_BASE + 10) 10]"
    by (rule two_reservations)
  have run: "exec_run maap_exec blank_start [Reserve 2 MAAP_DYNAMIC_POOL_BASE 10, Reserve 3 (MAAP_DYNAMIC_POOL_BASE + 10) 10] = Some s2"
    using s(1,2) by simp
  obtain r g x g' where a: "r \<noteq> x" "rh s2 r = Some g" "active g" "rh s2 x = Some g'" "active g'" by (rule two_active [OF s(3,4)])
  have "unat MAAP_DYNAMIC_POOL_BASE + unat (100 :: u32) \<le> 2 ^ 64" by (simp add: MAAP_DYNAMIC_POOL_BASE_def)
  from ranges_disjoint [OF s0(1) this s0(2) s(5)] obtain s' where s': "exec_run maap_exec blank_start [Reserve 2 MAAP_DYNAMIC_POOL_BASE 10,
      Reserve 3 (MAAP_DYNAMIC_POOL_BASE + 10) 10] = Some s'"
    and all: "\<And>r g x g'. rh s' r = Some g \<and> active g \<and> rh s' x = Some g' \<and> active g' \<and> r \<noteq> x \<Longrightarrow>
      \<exists>n m. interval_of s' r = Some n \<and> interval_of s' x = Some m \<and> (high n < low m \<or> high m < low n) \<and> low n \<le> high n \<and> high n < range_len s'"
    by blast
  have "s' = s2" using s' run by simp
  then obtain n m where "interval_of s2 r = Some n" "interval_of s2 x = Some m" "high n < low m \<or> high m < low n"
    using all [of r g x g'] a by blast
  with run a s0(2) show ?thesis by blast
qed

text \<open>
  Property C24.  Every probing range acquires its block if no packet arrives: for a client with the invariant, at
  most 100000 queued ranges and a clock that passes every time, some number of timer events, at whatever times
  they come and whatever other ranges are queued, makes a range in state probing defend its block, and the notification of
  its success for its owner is among the new ones.  A range with \<open>k\<close> retransmissions ahead needs more than \<open>k\<close> events: up to
  the last event it is still probing.
\<close>

theorem probing_completes:
  assumes "maap_inv s as" and "length (timer_queue s) \<le> 100000" and "\<forall>t. \<exists>i. t \<le> clock s i" and "rh s r = Some g"
    and "state g = MAAP_STATE_PROBING" and "counter g = int k" and "interval_of s r = Some n"
  shows "\<exists>m s' g' ns. k < m \<and> timer_events m s = Some s' \<and> maap_inv s' as \<and> rh s' r = Some g' \<and> state g' = MAAP_STATE_DEFENDING \<and>
    interval_of s' r = Some n \<and> notifies s' = notifies s @ ns \<and>
    (range_note s MAAP_NOTIFY_ACQUIRED (range_id g) n MAAP_NOTIFY_ERROR_NONE, r_sender g) \<in> set ns \<and>
    (\<forall>j<m. \<exists>s1 g1. timer_events j s = Some s1 \<and> rh s1 r = Some g1 \<and> state g1 = MAAP_STATE_PROBING)"
proof -
  have "probing s as r g n" using assms by (simp add: probing_def)
  from probing_ends [OF this assms(6,3)] show ?thesis unfolding keeps_def acquired_note_def by blast
qed

definition demo_probing :: maap_client where
  "demo_probing = demo_client\<lparr>rh := [11 \<mapsto> demo_range 1 MAAP_STATE_PROBING 3 (Time 5 0) 1, 12 \<mapsto> demo_range 2 MAAP_STATE_DEFENDING 0 (Time 9 0) 2]\<rparr>"

lemma demo_probing_inv: "maap_inv demo_probing [1, 2]"
proof -
  have "client_core {} {} demo_client [1, 2]" "env demo_client" using demo_inv by (simp_all add: maap_inv_def)
  then have "client_core {} {} demo_probing [1, 2]" "env demo_probing"
    by (auto simp: core_def ranges_ok_def queue_ok_def demo_probing_def owned_def node_data_def iv_node_def held_def active_def
        demo_range_def act_time_def less_eq_time_def env_def)
  then show ?thesis by (auto simp: maap_inv_def flags_def demo_probing_def demo_range_def split: if_splits)
qed

theorem probing_completes_witness:
  "\<exists>m s' g'. 3 < m \<and> timer_events m demo_probing = Some s' \<and> maap_inv s' [1, 2] \<and> rh s' 11 = Some g' \<and> state g' = MAAP_STATE_DEFENDING \<and>
     (range_note demo_probing MAAP_NOTIFY_ACQUIRED 1 (iv_node 0 9 (Some 11) None None (Some 2)) MAAP_NOTIFY_ERROR_NONE, 5) \<in> set (notifies s')"
proof -
  let ?g = "demo_range 1 MAAP_STATE_PROBING 3 (Time 5 0) 1"
  have "timer_queue demo_probing = [11, 12]" "rh demo_probing 11 = Some ?g" "notifies demo_probing = []"
    "interval_of demo_probing 11 = Some (iv_node 0 9 (Some 11) None None (Some 2))"
    by (simp_all add: demo_probing_def interval_of_def demo_range_def)
  moreover have "state ?g = MAAP_STATE_PROBING" "counter ?g = int 3" "range_id ?g = 1" "r_sender ?g = 5" by (simp_all add: demo_range_def)
  moreover have "\<forall>t. \<exists>i. t \<le> clock demo_probing i"
  proof
    fix t :: time
    obtain x y where "t = Time x y" by (cases t)
    then show "\<exists>i. t \<le> clock demo_probing i"
      by (intro exI [of _ "nat x"]) (simp add: demo_probing_def demo_client_def less_eq_time_def)
  qed
  ultimately show ?thesis using probing_completes [OF demo_probing_inv, of 11 ?g 3] by fastforce
qed

text \<open>
  Property C13.  A valid packet that meets exactly one held block is handled, the invariant holds again, and the
  outcome depends on the state of the range, the kind of packet and the order of
  the two stations' addresses, compared from the last byte on (equal addresses count as won, contrary to the
  description in the header file).  A defending range answers a probe with a defend packet.  A defending range that
  meets an announcement or a defend, and a probing range that meets a probe, keep the block and send nothing if the own
  address is not the higher one.  In all other cases the block is given up, and all other blocks stay: a probing range
  moves to the first free one of its random draws and starts probing again, with a notification of the new block
  and one probe for it; for a defending range the yield is notified, the range is released and a new range with its id
  does the same.  If no draw is free, the range is released and its owner is told that no block is available.
  The random draws must not first meet a free block at the thousandth draw, and the queue needs room for a range.
\<close>

theorem single_conflict_resolved:
  assumes "maap_inv s as" and "a \<in> set as" "ih s a = Some n" "data n = Some r" "rh s r = Some g"
    and "unpack_maap (replicate 8 0) (replicate 2 0) stream = Some (0, p)" "is_maap p" "of_concern s p" and "int MAAP_PKT_SIZE \<le> len"
    and "\<forall>b\<in>set as. hit s (ucast (requested_start_address p - address_base s)) (ucast (requested_count p)) b \<longleftrightarrow> b = a"
    and "\<not> late_success s (ucast (high n - low n + 1))" and "length (timer_queue s) < 100000"
  shows "\<exists>s' as'. maap_handle_packet s stream len = Some (0, s') \<and> maap_inv s' as' \<and>
    (if state g = MAAP_STATE_DEFENDING \<and> message_type p = MAAP_PROBE then defended s n p s'
     else if beats (src_mac s) (SA p) \<and> (state g = MAAP_STATE_DEFENDING \<or> message_type p = MAAP_PROBE) then untouched s s'
     else if state g = MAAP_STATE_DEFENDING then yielded s as r g n s' as'
     else moved s as r g n s' as')"
  using conflict_ok [OF assms] unfolding settled_def .

definition foreign_probe :: maap_packet where
  "foreign_probe = sample_packet\<lparr>requested_start_address := 0x91E0F0000019, requested_count := 2\<rparr>"

lemma foreign_probe_ok:
  "unpack_maap (replicate 8 0) (replicate 2 0) (maap_bytes foreign_probe) = Some (0, foreign_probe)" "is_maap foreign_probe"
  "of_concern demo_client foreign_probe" "requested_start_address foreign_probe - address_base demo_client = 25"
  "requested_count foreign_probe = 2"
proof -
  have "wf_packet foreign_probe"
    using sample_packet_wf by (simp add: wf_packet_def foreign_probe_def take_bit_eq_mod)
  then show "unpack_maap (replicate 8 0) (replicate 2 0) (maap_bytes foreign_probe) = Some (0, foreign_probe)"
    using unpack_maap_bytes [of foreign_probe "replicate 8 0" "replicate 2 0" "[]"] by simp
qed (simp_all add: is_maap_def of_concern_def foreign_probe_def sample_packet_def MAAP_TYPE_def MAAP_SUBTYPE_def MAAP_PROBE_def
      MAAP_ANNOUNCE_def MAAP_DYNAMIC_POOL_BASE_def MAAP_DYNAMIC_POOL_SIZE_def)

lemma foreign_probe_hits:
  "\<forall>b\<in>set [1, 2]. hit demo_client (ucast (requested_start_address foreign_probe - address_base demo_client))
      (ucast (requested_count foreign_probe)) b \<longleftrightarrow> b = 2"
  unfolding foreign_probe_ok(4,5) by (simp add: hit_def interval_check_overlap_def iv_node_def)

definition foreign_announce :: maap_packet where
  "foreign_announce = foreign_probe\<lparr>message_type := MAAP_ANNOUNCE\<rparr>"

definition rival_probe :: maap_packet where
  "rival_probe = sample_packet\<lparr>requested_start_address := 0x91E0F0000005, requested_count := 2\<rparr>"

lemma rivals_ok:
  "unpack_maap (replicate 8 0) (replicate 2 0) (maap_bytes foreign_announce) = Some (0, foreign_announce)" "is_maap foreign_announce"
  "of_concern demo_client foreign_announce"
  "unpack_maap (replicate 8 0) (replicate 2 0) (maap_bytes rival_probe) = Some (0, rival_probe)" "is_maap rival_probe"
  "of_concern demo_client rival_probe"
proof -
  have "wf_packet foreign_announce" "wf_packet rival_probe"
    using sample_packet_wf by (simp_all add: wf_packet_def foreign_announce_def foreign_probe_def rival_probe_def take_bit_eq_mod MAAP_ANNOUNCE_def)
  then show "unpack_maap (replicate 8 0) (replicate 2 0) (maap_bytes foreign_announce) = Some (0, foreign_announce)"
    "unpack_maap (replicate 8 0) (replicate 2 0) (maap_bytes rival_probe) = Some (0, rival_probe)"
    using unpack_maap_bytes [of foreign_announce "replicate 8 0" "replicate 2 0" "[]"]
      unpack_maap_bytes [of rival_probe "replicate 8 0" "replicate 2 0" "[]"] by simp_all
qed (simp_all add: is_maap_def of_concern_def foreign_announce_def foreign_probe_def rival_probe_def sample_packet_def MAAP_TYPE_def
      MAAP_SUBTYPE_def MAAP_PROBE_def MAAP_ANNOUNCE_def MAAP_DYNAMIC_POOL_BASE_def MAAP_DYNAMIC_POOL_SIZE_def)

lemma rivals_hit:
  "\<forall>b\<in>set [1, 2]. hit demo_client (ucast (requested_start_address foreign_announce - address_base demo_client))
      (ucast (requested_count foreign_announce)) b \<longleftrightarrow> b = 2"
  "\<forall>b\<in>set [1, 2]. hit demo_client (ucast (requested_start_address rival_probe - address_base demo_client))
      (ucast (requested_count rival_probe)) b \<longleftrightarrow> b = 1"
proof -
  show "\<forall>b\<in>set [1, 2]. hit demo_client (ucast (requested_start_address foreign_announce - address_base demo_client))
      (ucast (requested_count foreign_announce)) b \<longleftrightarrow> b = 2"
    using foreign_probe_hits by (simp add: foreign_announce_def)
  have "requested_start_address rival_probe - address_base demo_client = 5" "requested_count rival_probe = 2"
    by (simp_all add: rival_probe_def MAAP_DYNAMIC_POOL_BASE_def)
  then show "\<forall>b\<in>set [1, 2]. hit demo_client (ucast (requested_start_address rival_probe - address_base demo_client))
      (ucast (requested_count rival_probe)) b \<longleftrightarrow> b = 1"
    by (simp only:) (simp add: hit_def interval_check_overlap_def iv_node_def)
qed

theorem single_conflict_resolved_witness:
  "(\<exists>s' as'. maap_handle_packet demo_client (maap_bytes foreign_announce) 42 = Some (0, s') \<and> maap_inv s' as' \<and>
      yielded demo_client [1, 2] 12 (demo_range 2 MAAP_STATE_DEFENDING 0 (Time 9 0) 2) (iv_node 20 29 (Some 12) (Some 1) None None) s' as') \<and>
   (\<exists>s' as'. maap_handle_packet demo_client (maap_bytes rival_probe) 42 = Some (0, s') \<and> maap_inv s' as' \<and>
      moved demo_client [1, 2] 11 (demo_range 1 MAAP_STATE_PROBING 0 (Time 5 0) 1) (iv_node 0 9 (Some 11) None None (Some 2)) s' as')"
proof -
  have b: "\<not> beats (src_mac demo_client) (SA foreign_announce)" "\<not> beats (src_mac demo_client) (SA rival_probe)"
  proof -
    have "6 = Suc 5" by simp
    then have "\<not> beats 0x0200000000FF 0x123456789ABC"
      unfolding beats_def using reversed_mac_less [of 5 "0x123456789A"] by (simp only: reversed_mac.simps) simp
    then show "\<not> beats (src_mac demo_client) (SA foreign_announce)" "\<not> beats (src_mac demo_client) (SA rival_probe)"
      by (simp_all add: foreign_announce_def foreign_probe_def rival_probe_def sample_packet_def)
  qed
  have t: "message_type foreign_announce \<noteq> MAAP_PROBE"
    by (simp add: foreign_announce_def MAAP_ANNOUNCE_def MAAP_PROBE_def)
  let ?g = "demo_range 2 MAAP_STATE_DEFENDING 0 (Time 9 0) 2" and ?n = "iv_node 20 29 (Some 12) (Some 1) None None"
  let ?h = "demo_range 1 MAAP_STATE_PROBING 0 (Time 5 0) 1" and ?m = "iv_node 0 9 (Some 11) None None (Some 2)"
  have g: "2 \<in> set [1, 2 :: nat]" "ih demo_client 2 = Some ?n" "data ?n = Some 12" "rh demo_client 12 = Some ?g"
    "\<not> late_success demo_client (ucast (high ?n - low ?n + 1))" "state ?g = MAAP_STATE_DEFENDING"
    "1 \<in> set [1, 2 :: nat]" "ih demo_client 1 = Some ?m" "data ?m = Some 11" "rh demo_client 11 = Some ?h"
    "\<not> late_success demo_client (ucast (high ?m - low ?m + 1))" "state ?h \<noteq> MAAP_STATE_DEFENDING"
    "length (timer_queue demo_client) < 100000" "int MAAP_PKT_SIZE \<le> 42"
    using demo_not_late by (simp_all add: iv_node_def demo_range_def MAAP_PKT_SIZE_def)
  from single_conflict_resolved [OF demo_inv g(1-4) rivals_ok(1-3) g(14) rivals_hit(1) g(5,13)]
    single_conflict_resolved [OF demo_inv g(7-10) rivals_ok(4-6) g(14) rivals_hit(2) g(11,13)]
  show ?thesis by (simp only: b t g(6,12) simp_thms if_True if_False)
qed

text \<open>
  Property C12.  A probe of another station for a part of a block that is defended leaves
  ranges, intervals and notifications as they are and queues exactly one packet: a defend packet
  addressed to that station, with the requested block and its common part with ours.
\<close>

theorem probe_answered_by_defend:
  assumes "maap_inv s as" and "a \<in> set as" "ih s a = Some n" "data n = Some r" "rh s r = Some g" "state g = MAAP_STATE_DEFENDING"
    and "unpack_maap (replicate 8 0) (replicate 2 0) stream = Some (0, p)" "is_maap p" "of_concern s p" "message_type p = MAAP_PROBE"
    and "int MAAP_PKT_SIZE \<le> len"
    and "\<forall>b\<in>set as. hit s (ucast (requested_start_address p - address_base s)) (ucast (requested_count p)) b \<longleftrightarrow> b = a"
  shows "\<exists>s'. maap_handle_packet s stream len = Some (0, s') \<and> maap_inv s' as \<and> rh s' = rh s \<and> ih s' = ih s \<and>
    notifies s' = notifies s \<and> queues s s' (defend_packet s n (requested_start_address p) (requested_count p) (SA p))"
proof -
  have e: "env s" and c: "client_core {} {} s as" using assms(1) by (simp_all add: maap_inv_def)
  have "r_interval g = Some a" by (rule core_node [OF c assms(2)]) (use assms(3-5) in simp)
  then have iv: "interval_of s r = Some n" using assms(3,5) by (simp add: interval_of_def)
  from send_defend_ok [OF e iv] obtain s1 where s1: "send_defend s r (requested_start_address p) (requested_count p) (SA p) = Some (0, s1)"
    "sent s s1 (defend_packet s n (requested_start_address p) (requested_count p) (SA p))" by blast
  have r: "resolve s p a r g = Some s1" using assms(6,10) s1(1) by (simp add: resolve_def)
  note c1 = sent_core [OF s1(2) e c]
  obtain tm where tm: "start_timer s1 = Some (s1\<lparr>mc_timer := Some tm\<rparr>)" "env (s1\<lparr>mc_timer := Some tm\<rparr>)"
    using start_timer_ok [OF c1(2,1)] by blast
  have "maap_inv (s1\<lparr>mc_timer := Some tm\<rparr>) as" using c1 tm(2) assms(1) by (simp add: maap_inv_def)
  moreover have "queues s (s1\<lparr>mc_timer := Some tm\<rparr>) (defend_packet s n (requested_start_address p) (requested_count p) (SA p))"
    using sent_queues [OF s1(2)] by (simp add: queues_def queued_def)
  ultimately show ?thesis
    using single_conflict [OF assms(1-5,7-9,11) refl assms(12)] r tm(1) c1 by simp
qed

theorem probe_answered_by_defend_witness:
  "\<exists>s'. maap_handle_packet demo_client (maap_bytes foreign_probe) 42 = Some (0, s') \<and> maap_inv s' [1, 2] \<and> rh s' = rh demo_client \<and>
     queues demo_client s' (defend_packet demo_client (iv_node 20 29 (Some 12) (Some 1) None None) 0x91E0F0000019 2 0x123456789ABC)"
  using probe_answered_by_defend [OF demo_inv _ _ _ _ _ foreign_probe_ok(1-3) _ _ foreign_probe_hits,
      of "iv_node 20 29 (Some 12) (Some 1) None None" 12 "demo_range 2 MAAP_STATE_DEFENDING 0 (Time 9 0) 2" 42]
  by (auto simp: demo_range_def foreign_probe_def sample_packet_def MAAP_PKT_SIZE_def iv_node_def)

text \<open>
  Property C39.  If the search for a free block succeeds exactly with its thousandth
  draw, the reservation still reports failure, but the interval stays in the tree
  without a range.  From then on no range can be released: removing any interval visits the
  node without a range and fails the assertion there.
\<close>

theorem late_reserve_breaks_release:
  assumes "maap_inv s as" and "0 < len" and "len \<le> 0xFFFF" and "len \<le> range_len s" and "\<not> attempt_fits s att (ucast len)"
    and "late_success s (ucast len)" and "maxid s < INT_MAX"
  shows "\<exists>s'. maap_reserve_range s sd att len = Some (-1, s') \<and>
    (\<forall>i sd'. the_range s i (\<lambda>st. st \<noteq> MAAP_STATE_RELEASED) \<noteq> None \<longrightarrow> maap_release_range s' sd' i = None)"
proof -
  have c: "client_core {} {} s as" using assms(1) by (simp add: maap_inv_def)
  obtain s' as' a where s': "maap_reserve_range s sd att len = Some (-1, s')" "irep (ih s') (ranges s') as'" "a \<in> set as'"
    "node_data (ih s') a = None" "rh s' = rh s" "timer_queue s' = timer_queue s" "initialized s'" "env s'" "set as' = insert a (set as)"
    "\<forall>b\<in>set as. node_data (ih s') b = node_data (ih s) b \<and> ih s' b \<noteq> None"
    by (rule late_reserve [OF assms]) blast
  have live: "\<forall>c\<in>set as'. node_data (ih s') c = None \<or> (\<exists>r g. node_data (ih s') c = Some r \<and> rh s' r = Some g)"
    using s'(4,5,9,10) core_node [OF c] by (metis insertE)
  have q: "set (timer_queue s') \<subseteq> dom (rh s')" using inv_queue_live [OF assms(1)] s'(5,6) by simp
  have "maap_release_range s' sd' i = None" if some: "the_range s i (\<lambda>st. st \<noteq> MAAP_STATE_RELEASED) = Some r" for i sd' r
  proof -
    obtain g where g: "rh s r = Some g" "state g \<noteq> MAAP_STATE_RELEASED" by (rule the_range_SomeE [OF assms(1) some]) blast
    then have "held (ih s) as r" using inv_held [OF assms(1)] active_iff [OF assms(1)] by blast
    then have "\<exists>b. b \<in> set as \<and> node_data (ih s) b = Some r \<and> r_interval g = Some b"
      by (rule held_interval [OF c]) (use g(1) in \<open>auto simp: node_data_def\<close>)
    then obtain b where b: "b \<in> set as" "node_data (ih s) b = Some r" "r_interval g = Some b" by blast
    have "the_range s' i (\<lambda>st. st \<noteq> MAAP_STATE_RELEASED) = Some r" using some s'(5,6) by (simp add: the_range_def)
    from release_orphan [OF s'(8,7,2,3,4) live q this, of b g] s'(5,9,10) b g(1) show ?thesis by simp
  qed
  with s'(1) show ?thesis by auto
qed

definition unlucky :: maap_client where
  "unlucky = demo_client\<lparr>rnd := (\<lambda>i. if i = 999 then 100 else 5)\<rparr>"

theorem late_reserve_breaks_release_witness:
  "\<exists>s'. maap_reserve_range unlucky 7 0 10 = Some (-1, s') \<and> maap_release_range s' 5 2 = None"
proof -
  have inv: "maap_inv unlucky [1, 2]" using demo_inv by (simp add: maap_inv_def env_def unlucky_def)
  have u: "usable unlucky [1, 2] 10"
    using inv usable_core [of "{}" "{}" unlucky "[1, 2]" 10] by (simp add: maap_inv_def unlucky_def MAAP_DYNAMIC_POOL_SIZE_def)
  have "pick unlucky 10 i = (if i = 999 then 100 else 5)" for i
    by (simp add: pick_def unlucky_def MAAP_DYNAMIC_POOL_SIZE_def demo_client_def)
  moreover have "blocked unlucky 5 10" "\<not> blocked unlucky 100 10"
    unfolding usable_blocked [OF u] by (simp_all add: taken_def unlucky_def entry_of_def iv_node_def)
  ultimately have "late_success unlucky 10" by (simp add: late_success_def)
  moreover have "the_range unlucky 2 (\<lambda>st. st \<noteq> MAAP_STATE_RELEASED) = Some 12" by (simp add: the_range_def unlucky_def demo_range_def)
  moreover have "\<not> attempt_fits unlucky 0 10" by (simp add: attempt_fits_def unlucky_def MAAP_DYNAMIC_POOL_BASE_def)
  ultimately show ?thesis
    using late_reserve_breaks_release [OF inv, of 10 0 7] by (auto simp: unlucky_def MAAP_DYNAMIC_POOL_SIZE_def INT_MAX_def)
qed

text \<open>
  A valid packet whose block begins below the pool and reaches into it changes nothing,
  whatever blocks are held: the subtraction of the pool base wraps, so the search compares with
  numbers at the top of the 32-bit range, and a real conflict at the bottom of the pool is missed.
\<close>

theorem straddling_packet_ignored:
  assumes "maap_inv s as" and "unpack_maap (replicate 8 0) (replicate 2 0) stream = Some (0, p)" "is_maap p" "of_concern s p"
    and "int MAAP_PKT_SIZE \<le> len" and "requested_start_address p = address_base s - of_nat d" "0 < d" "d < unat (requested_count p)"
  shows "maap_handle_packet s stream len = do { s \<leftarrow> start_timer s; Some (0, s) }"
proof -
  have c: "client_core {} {} s as" using assms(1) by (simp add: maap_inv_def)
  let ?start = "ucast (requested_start_address p - address_base s) :: u32" and ?cnt = "ucast (requested_count p) :: u32"
  have "(ucast (- of_nat d :: u64) :: u32) = - of_nat d"
    by transfer (simp add: take_bit_minus)
  then have st: "?start = - of_nat d" using assms(6) by simp
  have cnt: "?cnt = of_nat (unat (requested_count p))" "unat (requested_count p) \<le> 65535"
    using unsigned_less [of "requested_count p"] by (simp_all add: unat_u16)
  have "\<not> hit s ?start ?cnt a" if a: "a \<in> set as" for a
  proof -
    obtain n r where n: "ih s a = Some n" "data n = Some r" by (rule core_node [OF c a]) blast
    have "in_pool (range_len s) (the (ih s a))" using c a unfolding core_def tree_ok_def by blast
    then have "in_pool (range_len s) n" using n(1) by simp
    from straddle_misses [OF this st assms(7,8) cnt(2)] show ?thesis
      unfolding hit_def cnt(1) n(1) option.sel .
  qed
  then have "find (hit s ?start ?cnt) as = None" by (simp add: find_None_iff)
  moreover have "search_interval (ih s) (ranges s) ?start ?cnt = Some (find (hit s ?start ?cnt) as)"
    using search_interval_irep [OF core_tree(1,2) [OF c], of ?start ?cnt]
    by (simp add: hits_def [abs_def] query_def entry_of_def hit_def [abs_def] interval_check_overlap_def)
  ultimately show ?thesis using assms(2-5) by (simp add: maap_handle_packet_def Let_def flag_loop.simps)
qed

definition straddling :: maap_packet where
  "straddling = sample_packet\<lparr>message_type := MAAP_DEFEND, requested_start_address := 0x91E0EFFFFFFB, requested_count := 10\<rparr>"

theorem straddling_packet_ignored_witness:
  "maap_handle_packet demo_client (maap_bytes straddling) 42 = do { s \<leftarrow> start_timer demo_client; Some (0, s) }"
proof -
  have "wf_packet straddling"
    using sample_packet_wf by (simp add: wf_packet_def straddling_def take_bit_eq_mod MAAP_DEFEND_def)
  then have u: "unpack_maap (replicate 8 0) (replicate 2 0) (maap_bytes straddling) = Some (0, straddling)"
    using unpack_maap_bytes [of straddling "replicate 8 0" "replicate 2 0" "[]"] by simp
  have "is_maap straddling" "of_concern demo_client straddling"
    "requested_start_address straddling = address_base demo_client - of_nat 5" "5 < unat (requested_count straddling)"
    by (simp_all add: is_maap_def of_concern_def straddling_def sample_packet_def MAAP_TYPE_def MAAP_SUBTYPE_def MAAP_PROBE_def
      MAAP_DEFEND_def MAAP_ANNOUNCE_def MAAP_DYNAMIC_POOL_BASE_def MAAP_DYNAMIC_POOL_SIZE_def)
  from straddling_packet_ignored [OF demo_inv u this(1,2) _ this(3) _ this(4), of 42] show ?thesis by (simp add: MAAP_PKT_SIZE_def)
qed

text \<open>
  Property C40.  With the standard pool, a preferred address so high that the requested
  block would wrap around the 64-bit address space passes the test for lying in the pool and
  makes the reservation fail an assertion.
\<close>

theorem attempt_wraps_crash:
  assumes "maap_inv s as" and "address_base s = MAAP_DYNAMIC_POOL_BASE" and "range_len s = MAAP_DYNAMIC_POOL_SIZE"
    and "len \<le> MAAP_DYNAMIC_POOL_SIZE" and "maxid s < INT_MAX" and "2 ^ 64 < unat att + unat len"
  shows "maap_reserve_range s sd att len = None"
proof -
  define k where "k = 2 ^ 64 - unat att"
  define m where "m = unat len"
  have "unat att < 2 ^ 64" using unsigned_less [of att, where 'a = nat] by simp
  then have k: "0 < k" "k < m" "unat att + k = 2 ^ 64" using assms(6) unfolding k_def m_def by linarith+
  have m: "m \<le> 0xFE00" using assms(4) by (simp add: MAAP_DYNAMIC_POOL_SIZE_def word_le_nat_alt m_def)
  have "of_nat (unat att + k) = (of_nat (2 ^ 64) :: u64)" unfolding k(3) ..
  then have att: "att = - of_nat k" by (simp add: eq_neg_iff_add_eq_0)
  have lm: "len = of_nat m" by (simp add: m_def)
  have len: "0 < len" "len \<le> 0xFFFF" using k(2) m by (simp_all add: word_le_nat_alt word_less_nat_alt m_def)
  note l16 = u16_of_u32 [OF len]
  have x: "unat (ucast x :: u64) = unat x" for x :: u16
    using unsigned_less [of x, where 'a = nat] by (simp add: unsigned_ucast_eq take_bit_nat_eq_self_iff)
  have y: "(ucast (ucast len :: u16) :: u64) = of_nat m" using l16(1) x [of "ucast len"] by (metis m_def of_nat_unat ucast_id)
  then have e64: "att + ucast (ucast len :: u16) - 1 = of_nat (m - k - 1)" using k(2) by (simp add: att of_nat_diff)
  have um: "unat (of_nat (m - k - 1) :: u64) = m - k - 1" using m by (simp add: unat_of_nat)
  have fits: "attempt_fits s att (ucast len)"
    using k m um unfolding attempt_fits_def e64 by (simp add: assms(2,3) MAAP_DYNAMIC_POOL_BASE_def MAAP_DYNAMIC_POOL_SIZE_def word_le_nat_alt)
  have st: "(ucast (att - address_base s) :: u32) = - of_nat k - 0xF0000000"
  proof -
    have d: "(ucast (a - b) :: u32) = ucast a - ucast b" for a b :: u64
    proof transfer
      fix a b :: int
      show "take_bit LENGTH(32) (take_bit LENGTH(64) (a - b)) =
        take_bit LENGTH(32) (take_bit LENGTH(64) a - take_bit LENGTH(64) b)"
        using take_bit_diff [of 32 a b] take_bit_diff [of 32 "take_bit 64 a" "take_bit 64 b"] by simp
    qed
    have n: "(ucast (- of_nat k :: u64) :: u32) = - of_nat k" by transfer (simp add: take_bit_minus)
    show ?thesis unfolding assms(2) att MAAP_DYNAMIC_POOL_BASE_def d n by simp
  qed
  have "(ucast (att - address_base s) :: u32) + ucast (ucast len :: u16) - 1 = of_nat (m - k - 1 + 0x10000000)"
  proof -
    have "(4294967296 :: u32) = 0" by simp
    then show ?thesis unfolding st l16(2) unfolding lm using k(2) by (simp add: of_nat_diff)
  qed
  then have "unat ((ucast (att - address_base s) :: u32) + ucast (ucast len :: u16) - 1) = m - k - 1 + 0x10000000"
    using m by (simp only: unat_of_nat) (intro mod_less, simp)
  then have "\<not> (ucast (att - address_base s) :: u32) + ucast (ucast len :: u16) - 1 \<le> range_len s - 1"
    unfolding word_le_nat_alt by (simp only: assms(3)) (simp add: MAAP_DYNAMIC_POOL_SIZE_def)
  then have "try_interval s' (ucast (att - address_base s)) (ucast len) = None" if "range_len s' = range_len s" for s'
    using that by (auto simp: try_interval_def malloc_def alloc_interval_def Let_def split: bind_splits)
  moreover have "\<not> (len > 0xFFFF \<or> len > range_len s)" using assms(3,4) len(2) by (simp add: not_less)
  moreover have "\<not> ucast (ucast len :: u16) > range_len s" using assms(3,4) l16(2) by (simp add: not_less)
  moreover have "attempt_fits s' att (ucast len)" if "range_len s' = range_len s" "address_base s' = address_base s" for s'
    using fits that by (simp add: attempt_fits_def)
  moreover have "initialized s" "\<not> oom s a" for a using assms(1) by (simp_all add: maap_inv_def env_def)
  ultimately show ?thesis
    using assms(5) by (simp add: maap_reserve_range_def assign_interval_def malloc_def new_range_def Time_setFromMonotonicTimer_def Let_def cong: if_cong)
qed

theorem attempt_wraps_crash_witness: "maap_reserve_range demo_client 7 0xFFFFFFFFFFFFFFFF 10 = None"
  using attempt_wraps_crash [OF demo_inv, of 10 "0xFFFFFFFFFFFFFFFF" 7] by (simp add: MAAP_DYNAMIC_POOL_SIZE_def INT_MAX_def)

end
