(* ===== verification/Parse.thy ===== *)
theory Parse
  imports Avb_Prelude
begin

text \<open>
  The parser of command parameters, \<open>common/parse.c\<close>: a list of fields
  \<open>name=value\<close>, separated by commas, is read into variables of given types.
\<close>

section \<open>The C library\<close>

text \<open>\<open>strstr\<close>: the rest of the string from the first occurrence of a word.\<close>

fun strstr :: "string \<Rightarrow> string \<Rightarrow> string option" where
  "strstr [] w = (if w = [] then Some [] else None)"
| "strstr (c # s) w = (if take (length w) (c # s) = w then Some (c # s) else strstr s w)"

definition isspace :: "char \<Rightarrow> bool" where
  "isspace c \<longleftrightarrow> c \<in> {CHR 0x20, CHR 0x09, CHR 0x0A, CHR 0x0B, CHR 0x0C, CHR 0x0D}"

definition digit_value :: "char \<Rightarrow> nat" where
  "digit_value c = (let n = of_char c in
     if 48 \<le> n \<and> n \<le> 57 then n - 48 else if 97 \<le> n \<and> n \<le> 102 then n - 87 else if 65 \<le> n \<and> n \<le> 70 then n - 55 else 16)"

definition digits_value :: "nat \<Rightarrow> string \<Rightarrow> nat" where
  "digits_value base ds = foldl (\<lambda>acc c. base * acc + digit_value c) 0 ds"

text \<open>
  \<open>sscanf\<close> with one unsigned conversion: white space is skipped, a sign and for base 16 the
  prefix 0x are accepted, the digits are converted as \<open>strtoul\<close> does, with saturation.
  \<open>None\<close> means that nothing was converted.
\<close>

definition sscanf_unsigned :: "nat \<Rightarrow> nat option \<Rightarrow> string \<Rightarrow> u64 option" where
  "sscanf_unsigned base width s =
     (let s = dropWhile isspace s;
          s = (case width of None \<Rightarrow> s | Some w \<Rightarrow> take w s);
          neg = (s \<noteq> [] \<and> hd s = CHR ''-'');
          s = (if s \<noteq> [] \<and> (hd s = CHR ''-'' \<or> hd s = CHR ''+'') then tl s else s);
          hex = (base = 16 \<and> 2 \<le> length s \<and> s ! 0 = CHR ''0'' \<and> (s ! 1 = CHR ''x'' \<or> s ! 1 = CHR ''X''));
          ds = takeWhile (\<lambda>c. digit_value c < base) (if hex then drop 2 s else s);
          n = digits_value base ds
      in if ds = [] \<and> \<not> hex then None
         else if 2 ^ 64 \<le> n then Some (- 1)
         else Some (if neg then - of_nat n else of_nat n))"

section \<open>Model\<close>

datatype parse_types =
    parse_null | parse_u8 | parse_u16 | parse_u16_04x | parse_u32 | parse_u64 | parse_h64 | parse_c64 | parse_mac

text \<open>A parameter has a name and a type; the value is delivered in the result.\<close>

record parse_param =
  pname :: string
  ptype :: parse_types

datatype parse_value = V_u8 u8 | V_u16 u16 | V_u32 u32 | V_u64 u64 | V_bytes "u8 list"

definition PARSE_DELIMITER :: char where "PARSE_DELIMITER = CHR '',''"

text \<open>One conversion: an array is filled from the most significant byte.\<close>

definition parse_field :: "parse_types \<Rightarrow> string \<Rightarrow> parse_value option" where
  "parse_field t d =
     (case t of
        parse_null \<Rightarrow> None
      | parse_u8 \<Rightarrow> map_option (\<lambda>v. V_u8 (ucast (ucast v :: u32))) (sscanf_unsigned 10 None d)
      | parse_u16_04x \<Rightarrow> map_option (\<lambda>v. V_u16 (ucast (ucast v :: u32))) (sscanf_unsigned 16 (Some 4) d)
      | parse_u16 \<Rightarrow> map_option (\<lambda>v. V_u16 (ucast (ucast v :: u32))) (sscanf_unsigned 10 None d)
      | parse_u32 \<Rightarrow> map_option (\<lambda>v. V_u32 (ucast v)) (sscanf_unsigned 10 None d)
      | parse_u64 \<Rightarrow> map_option V_u64 (sscanf_unsigned 10 None d)
      | parse_h64 \<Rightarrow> map_option V_u64 (sscanf_unsigned 16 None d)
      | parse_c64 \<Rightarrow> map_option (\<lambda>v. V_bytes (map (\<lambda>i. ucast (drop_bit ((7 - i) * 8) v)) [0..<8])) (sscanf_unsigned 16 None d)
      | parse_mac \<Rightarrow> map_option (\<lambda>v. V_bytes (map (\<lambda>i. ucast (drop_bit ((5 - i) * 8) v)) [0..<6])) (sscanf_unsigned 16 None d))"

text \<open>
  The loop over the parameters.  The string is what is left to search; \<open>ok\<close> is whether the last
  conversion succeeded, which a parameter of type \<open>parse_null\<close> takes over.  The result is the
  return value, the error index and the values; the last component is the length of the unread string
  that is cut off, because after a failed conversion the delimiter stays replaced by a null character.
\<close>

fun parse_loop :: "string \<Rightarrow> nat \<Rightarrow> bool \<Rightarrow> parse_param list \<Rightarrow> int \<times> nat \<times> parse_value list \<times> nat" where
  "parse_loop s k ok [] = (0, 0, [], 0)"
| "parse_loop s k ok (q # specs) =
     (case strstr s (pname q) of
        None \<Rightarrow> (-1, k + 1, [], 0)
      | Some param \<Rightarrow>
          let data = drop (length (pname q)) param;
              field = takeWhile (\<lambda>c. c \<noteq> PARSE_DELIMITER) data;
              rest = dropWhile (\<lambda>c. c \<noteq> PARSE_DELIMITER) data;
              v = parse_field (ptype q) field;
              ok = (if ptype q = parse_null then ok else v \<noteq> None)
          in if \<not> ok then (-1, k + 1, [], length rest)
             else (case parse_loop (if rest \<noteq> [] then tl rest else s) (k + 1) ok specs of
                     (rc, e, vs, lost) \<Rightarrow> (rc, e, (case v of None \<Rightarrow> vs | Some x \<Rightarrow> x # vs), lost)))"

text \<open>
  The buffer holds the characters from the start of the memory object; the string begins at an
  offset, and its length is the one of the buffer behind it.  The search for a null character runs
  backwards and reads the character before the string if it finds none.
\<close>

definition parse :: "string \<Rightarrow> nat \<Rightarrow> nat \<Rightarrow> parse_param list \<Rightarrow> (int \<times> nat option \<times> parse_value list \<times> string) option" where
  "parse buf start len specs = do {
     c_assert (start + len \<le> length buf);
     if CHR 0x00 \<notin> set (take len (drop start buf)) then do {
       c_assert (0 < start);
       Some (-1, None, [], buf) }
     else do {
       let s = takeWhile (\<lambda>c. c \<noteq> CHR 0x00) (drop start buf);
       let (rc, e, vs, lost) = parse_loop s 0 False specs;
       Some (rc, Some e, vs,
         if lost = 0 then buf else buf[start + length s - lost := CHR 0x00]) } }"

section \<open>Printing\<close>

text \<open>The text that \<open>printf\<close> produces for the conversions that the clients use.\<close>

definition digit_char :: "nat \<Rightarrow> char" where
  "digit_char n = char_of (if n < 10 then 48 + n else 87 + n)"

function print_base :: "nat \<Rightarrow> nat \<Rightarrow> string" where
  "print_base b n = (if n < b \<or> b < 2 then [digit_char n] else print_base b (n div b) @ [digit_char (n mod b)])"
  by pat_completeness auto
termination by (relation "measure snd") auto

declare print_base.simps [simp del]

definition zero_padded :: "nat \<Rightarrow> string \<Rightarrow> string" where
  "zero_padded w ds = replicate (w - length ds) (CHR ''0'') @ ds"

definition hex_byte :: "u8 \<Rightarrow> string" where
  "hex_byte b = [digit_char (unat b div 16), digit_char (unat b mod 16)]"

definition print_value :: "parse_types \<Rightarrow> parse_value \<Rightarrow> string" where
  "print_value t v = (case v of
     V_u8 x \<Rightarrow> print_base 10 (unat x)
   | V_u16 x \<Rightarrow> if t = parse_u16_04x then zero_padded 4 (print_base 16 (unat x)) else print_base 10 (unat x)
   | V_u32 x \<Rightarrow> print_base 10 (unat x)
   | V_u64 x \<Rightarrow> if t = parse_h64 then print_base 16 (unat x) else print_base 10 (unat x)
   | V_bytes bs \<Rightarrow> concat (map hex_byte bs))"

definition value_of_type :: "parse_types \<Rightarrow> parse_value \<Rightarrow> bool" where
  "value_of_type t v = (case v of
     V_u8 x \<Rightarrow> t = parse_u8
   | V_u16 x \<Rightarrow> t = parse_u16 \<or> t = parse_u16_04x
   | V_u32 x \<Rightarrow> t = parse_u32
   | V_u64 x \<Rightarrow> t = parse_u64 \<or> t = parse_h64
   | V_bytes bs \<Rightarrow> t = parse_c64 \<and> length bs = 8 \<or> t = parse_mac \<and> length bs = 6)"

fun join_fields :: "(parse_param \<times> parse_value) list \<Rightarrow> string" where
  "join_fields [] = []"
| "join_fields [(q, v)] = pname q @ print_value (ptype q) v"
| "join_fields ((q, v) # f # fs) = pname q @ print_value (ptype q) v @ PARSE_DELIMITER # join_fields (f # fs)"

section \<open>Lemmas\<close>

definition digits :: "nat \<Rightarrow> string \<Rightarrow> bool" where
  "digits base ds \<longleftrightarrow> (\<forall>c\<in>set ds. digit_value c < base)"

lemma digit_value_char: "n < 16 \<Longrightarrow> digit_value (digit_char n) = n"
  by (auto simp: digit_value_def digit_char_def Let_def)

lemma not_digit:
  "isspace c \<Longrightarrow> digit_value c = 16" "digit_value (CHR ''-'') = 16" "digit_value (CHR ''+'') = 16" "digit_value (CHR ''x'') = 16"
  "digit_value (CHR ''X'') = 16" "digit_value PARSE_DELIMITER = 16" "digit_value (CHR 0x00) = 16"
  by (auto simp: isspace_def digit_value_def PARSE_DELIMITER_def)

lemma digits_value_append: "digits_value b (xs @ ys) = digits_value b xs * b ^ length ys + digits_value b ys"
  unfolding digits_value_def
proof (induction ys rule: rev_induct)
  case (snoc y ys)
  then show ?case by (simp add: algebra_simps)
qed simp

lemma digits_value_single [simp]: "digits_value b [c] = digit_value c"
  by (simp add: digits_value_def)

lemma digits_value_zeros: "digits_value b (replicate k (CHR ''0'')) = 0"
  by (induction k) (simp_all add: digits_value_def digit_value_def)

lemma print_base_ok:
  assumes "2 \<le> b" and "b \<le> 16"
  shows "digits_value b (print_base b n) = n \<and> digits b (print_base b n) \<and> print_base b n \<noteq> []"
  using assms
proof (induction b n rule: print_base.induct)
  case (1 b n)
  show ?case
  proof (cases "n < b")
    case True
    then show ?thesis using 1 by (subst (1 2 3) print_base.simps) (simp add: digits_def digit_value_char)
  next
    case False
    have m: "n mod b < b" using "1.prems" by simp
    then have "digit_value (digit_char (n mod b)) = n mod b" using "1.prems" by (intro digit_value_char) linarith
    moreover have "print_base b n = print_base b (n div b) @ [digit_char (n mod b)]"
      using False "1.prems"(1) by (subst print_base.simps) simp
    ultimately show ?thesis using 1 False m by (simp add: digits_value_append digits_def)
  qed
qed

lemma print_base_length:
  assumes "n < b ^ k" and "0 < k" and "2 \<le> b"
  shows "length (print_base b n) \<le> k"
  using assms(1,2)
proof (induction k arbitrary: n)
  case (Suc k)
  show ?case
  proof (cases "n < b")
    case True
    then show ?thesis by (subst print_base.simps) simp
  next
    case False
    then have "0 < k" using Suc.prems by (cases k) auto
    moreover have "n div b < b ^ k" using Suc.prems assms(3) by (simp add: div_less_iff_less_mult mult.commute)
    ultimately show ?thesis using Suc.IH False by (subst print_base.simps) simp
  qed
qed simp

lemma sscanf_digits:
  assumes "digits base ds" "base \<le> 16" "ds \<noteq> []" "digits_value base ds < 2 ^ 64"
    and "case width of None \<Rightarrow> True | Some w \<Rightarrow> length ds \<le> w"
  shows "sscanf_unsigned base width ds = Some (of_nat (digits_value base ds))"
proof -
  have d: "digit_value x < 16" if "x \<in> set ds" for x using assms(1,2) that by (fastforce simp: digits_def)
  have c: "\<not> isspace (hd ds)" "hd ds \<noteq> CHR ''-''" "hd ds \<noteq> CHR ''+''"
    using d [of "hd ds"] assms(3) not_digit(1) [of "hd ds"] not_digit(2,3) hd_in_set [of ds] by auto
  have hex: "\<not> (base = 16 \<and> 2 \<le> length ds \<and> ds ! 0 = CHR ''0'' \<and> (ds ! 1 = CHR ''x'' \<or> ds ! 1 = CHR ''X''))"
  proof
    assume h: "base = 16 \<and> 2 \<le> length ds \<and> ds ! 0 = CHR ''0'' \<and> (ds ! 1 = CHR ''x'' \<or> ds ! 1 = CHR ''X'')"
    then have "digit_value (ds ! 1) < 16" by (intro d nth_mem) simp
    with h not_digit(4,5) show False by auto
  qed
  have t: "takeWhile (\<lambda>c. digit_value c < base) ds = ds" using assms(1) by (simp add: takeWhile_eq_all_conv digits_def)
  have sp: "dropWhile isspace ds = ds" using c(1) assms(3) by (cases ds) auto
  have w: "(case width of None \<Rightarrow> ds | Some w \<Rightarrow> take w ds) = ds" using assms(5) by (cases width) auto
  have g: "(if ds \<noteq> [] \<and> (hd ds = CHR ''-'' \<or> hd ds = CHR ''+'') then tl ds else ds) = ds" using c by simp
  show ?thesis
    unfolding sscanf_unsigned_def Let_def sp w g if_not_P [OF hex] t using assms(3,4) c(2) by simp
qed

lemma hex_bytes_ok:
  "digits 16 (concat (map hex_byte bs)) \<and> digits_value 16 (concat (map hex_byte bs)) < 256 ^ length bs \<and>
   of_nat (digits_value 16 (concat (map hex_byte bs))) = (word_be bs :: u64)"
proof (induction bs rule: rev_induct)
  case Nil
  then show ?case by (simp add: digits_def digits_value_def)
next
  case (snoc b bs)
  let ?n = "digits_value 16 (concat (map hex_byte bs))"
  have b: "unat b < 256" using unsigned_less [of b, where 'a = nat] by simp
  then have "unat b div 16 < 16" by (simp add: div_less_iff_less_mult)
  then have h: "digits 16 (hex_byte b)" "digits_value 16 (hex_byte b) = unat b"
    by (simp_all add: digits_def hex_byte_def digit_value_char digits_value_def)
  have v: "digits_value 16 (concat (map hex_byte (bs @ [b]))) = ?n * 256 + unat b"
    using h(2) by (simp add: digits_value_append hex_byte_def)
  have "push_bit 8 w AND ucast b = 0" for w :: u64
    by (rule bit_word_eqI) (auto simp: bit_simps dest: bit_byte_bound)
  then have "push_bit 8 (word_be bs :: u64) OR ucast b = push_bit 8 (word_be bs) + ucast b"
    by (metis disjunctive_add_eq_or)
  moreover have "(of_nat (unat b) :: u64) = ucast b" by simp
  ultimately have "of_nat (?n * 256 + unat b) = (word_be (bs @ [b]) :: u64)"
    using snoc.IH by (simp add: push_bit_eq_mult mult.commute)
  moreover have "?n * 256 + unat b < 256 ^ length (bs @ [b])" using snoc.IH b by simp
  ultimately show ?case using snoc.IH h(1) unfolding v by (auto simp: digits_def)
qed

lemma zero_padded_ok:
  "digits b ds \<Longrightarrow> 0 < b \<Longrightarrow> digits b (zero_padded w ds)" "digits_value b (zero_padded w ds) = digits_value b ds"
  "length ds \<le> w \<Longrightarrow> length (zero_padded w ds) = w" "ds \<noteq> [] \<Longrightarrow> zero_padded w ds \<noteq> []"
  by (auto simp: zero_padded_def digits_def digits_value_append digits_value_zeros digit_value_def)

text \<open>Every printed value consists of hexadecimal digits and is read back.\<close>

lemma print_base_scan:
  assumes "b = 10 \<or> b = 16" and "n < 2 ^ 64"
  shows "sscanf_unsigned b None (print_base b n) = Some (of_nat n)" "digits 16 (print_base b n)" "print_base b n \<noteq> []"
proof -
  have ok: "digits_value b (print_base b n) = n" "digits b (print_base b n)" "print_base b n \<noteq> []"
    using print_base_ok [of b n] assms(1) by auto
  from sscanf_digits [OF ok(2) _ ok(3), of None] ok(1) assms show "sscanf_unsigned b None (print_base b n) = Some (of_nat n)" by auto
  show "digits 16 (print_base b n)" using ok(2) assms(1) by (fastforce simp: digits_def)
  show "print_base b n \<noteq> []" by (rule ok(3))
qed

lemma hex4_scan:
  assumes "n < 2 ^ 16"
  shows "sscanf_unsigned 16 (Some 4) (zero_padded 4 (print_base 16 n)) = Some (of_nat n)" "digits 16 (zero_padded 4 (print_base 16 n))"
    "zero_padded 4 (print_base 16 n) \<noteq> []"
proof -
  have ok: "digits_value 16 (print_base 16 n) = n" "digits 16 (print_base 16 n)" "print_base 16 n \<noteq> []" "length (print_base 16 n) \<le> 4"
    using print_base_ok [of 16 n] print_base_length [of n 16 4] assms by auto
  note z = zero_padded_ok(1) [where b = 16 and ds = "print_base 16 n" and w = 4]
    zero_padded_ok(2) [where b = 16 and ds = "print_base 16 n" and w = 4]
    zero_padded_ok(3,4) [where ds = "print_base 16 n" and w = 4]
  show "digits 16 (zero_padded 4 (print_base 16 n))" "zero_padded 4 (print_base 16 n) \<noteq> []" using z ok by simp_all
  with sscanf_digits [of 16 "zero_padded 4 (print_base 16 n)" "Some 4"] z ok assms
  show "sscanf_unsigned 16 (Some 4) (zero_padded 4 (print_base 16 n)) = Some (of_nat n)" by simp
qed

lemma hex_bytes_scan:
  assumes "bs \<noteq> []" and "length bs \<le> 8"
  shows "sscanf_unsigned 16 None (concat (map hex_byte bs)) = Some (word_be bs)" "digits 16 (concat (map hex_byte bs))"
    "concat (map hex_byte bs) \<noteq> []"
proof -
  note h = hex_bytes_ok [of bs]
  show ne: "concat (map hex_byte bs) \<noteq> []" using assms(1) by (cases bs) (simp_all add: hex_byte_def)
  have "digits_value 16 (concat (map hex_byte bs)) < 256 ^ 8"
    using h power_increasing [OF assms(2), of "256 :: nat"] by linarith
  with sscanf_digits [of 16 "concat (map hex_byte bs)" None] h ne
  show "sscanf_unsigned 16 None (concat (map hex_byte bs)) = Some (word_be bs)" by simp
  show "digits 16 (concat (map hex_byte bs))" using h by simp
qed

lemma byte_array:
  "n = 8 \<or> n = 6 \<Longrightarrow> length bs = n \<Longrightarrow> map (\<lambda>i. ucast (drop_bit ((n - 1 - i) * 8) (word_be bs :: u64))) [0..<n] = bs"
  using bytes_be_word_be [of bs n, where 'a = 64] by (auto simp: bytes_be_def mult.commute)

lemma ucast_back:
  "ucast (ucast (ucast (x :: u8) :: u64) :: u32) = x" "ucast (ucast (ucast (y :: u16) :: u64) :: u32) = y"
  "ucast (ucast (z :: u32) :: u64) = z"
  by (rule bit_word_eqI; auto simp: bit_simps)+

lemma parse_field_print:
  assumes "value_of_type t v"
  shows "parse_field t (print_value t v) = Some v" "digits 16 (print_value t v)" "print_value t v \<noteq> []"
proof -
  have u: "unat (x :: 'a::len word) < 2 ^ 64" "of_nat (unat x) = (ucast x :: u64)" if "LENGTH('a) \<le> 64" for x
    using order.strict_trans2 [OF unsigned_less power_increasing [OF that, of "2 :: nat"]] by simp_all
  have "parse_field t (print_value t v) = Some v \<and> digits 16 (print_value t v) \<and> print_value t v \<noteq> []"
  proof (cases v)
    case (V_u8 x)
    with assms print_base_scan [of 10 "unat x"] u [of x] show ?thesis by (simp add: value_of_type_def parse_field_def print_value_def ucast_back)
  next
    case (V_u16 x)
    with assms print_base_scan [of 10 "unat x"] hex4_scan [of "unat x"] u [of x] unsigned_less [of x, where 'a = nat]
    show ?thesis by (auto simp: value_of_type_def parse_field_def print_value_def ucast_back)
  next
    case (V_u32 x)
    with assms print_base_scan [of 10 "unat x"] u [of x] show ?thesis by (simp add: value_of_type_def parse_field_def print_value_def ucast_back)
  next
    case (V_u64 x)
    with assms print_base_scan [of 10 "unat x"] print_base_scan [of 16 "unat x"] u [of x] show ?thesis
      by (auto simp: value_of_type_def parse_field_def print_value_def)
  next
    case (V_bytes bs)
    with assms have l: "t = parse_c64 \<and> length bs = 8 \<or> t = parse_mac \<and> length bs = 6" by (simp add: value_of_type_def)
    then have "bs \<noteq> []" "length bs \<le> 8" by auto
    from hex_bytes_scan [OF this] l V_bytes byte_array [of 8 bs] byte_array [of 6 bs] show ?thesis
      by (auto simp: parse_field_def print_value_def)
  qed
  then show "parse_field t (print_value t v) = Some v" "digits 16 (print_value t v)" "print_value t v \<noteq> []" by simp_all
qed

lemma strstr_prefix:
  assumes "s \<noteq> []"
  shows "strstr (w @ s) w = Some (w @ s)"
proof -
  obtain c r where e: "w @ s = c # r" using assms by (cases "w @ s") auto
  have "take (length w) (c # r) = w" unfolding e [symmetric] by simp
  then show ?thesis unfolding e by simp
qed

lemma parse_loop_step:
  assumes "strstr s (pname q) = Some (pname q @ d)" "takeWhile (\<lambda>c. c \<noteq> PARSE_DELIMITER) d = field"
    "dropWhile (\<lambda>c. c \<noteq> PARSE_DELIMITER) d = rest" "ptype q \<noteq> parse_null" "parse_field (ptype q) field = Some v"
  shows "parse_loop s k ok (q # specs) =
    (case parse_loop (if rest \<noteq> [] then tl rest else s) (k + 1) True specs of (rc, e, vs, lost) \<Rightarrow> (rc, e, v # vs, lost))"
  using assms by (simp add: Let_def)

lemma parse_loop_join:
  assumes "\<forall>(q, v)\<in>set fs. value_of_type (ptype q) v"
  shows "parse_loop (join_fields fs) k ok (map fst fs) = (0, 0, map snd fs, 0)"
  using assms
proof (induction fs arbitrary: k ok rule: join_fields.induct)
  case 1
  then show ?case by simp
next
  case (2 q v)
  let ?p = "print_value (ptype q) v"
  have t: "value_of_type (ptype q) v" using 2 by simp
  note f = parse_field_print [OF t]
  have n: "ptype q \<noteq> parse_null" using t by (auto simp: value_of_type_def split: parse_value.splits)
  have d: "\<forall>c\<in>set ?p. c \<noteq> PARSE_DELIMITER" using f(2) not_digit(6) by (fastforce simp: digits_def)
  then have tw: "takeWhile (\<lambda>c. c \<noteq> PARSE_DELIMITER) ?p = ?p" "dropWhile (\<lambda>c. c \<noteq> PARSE_DELIMITER) ?p = []"
    by (simp_all only: takeWhile_eq_all_conv dropWhile_eq_Nil_conv)
  from parse_loop_step [OF strstr_prefix [OF f(3)] tw n f(1), of k ok "[]"] show ?case by simp
next
  case (3 q v g fs)
  let ?p = "print_value (ptype q) v" and ?r = "PARSE_DELIMITER # join_fields (g # fs)"
  have t: "value_of_type (ptype q) v" using 3 by simp
  note f = parse_field_print [OF t]
  have n: "ptype q \<noteq> parse_null" using t by (auto simp: value_of_type_def split: parse_value.splits)
  have d: "\<forall>c\<in>set ?p. c \<noteq> PARSE_DELIMITER" using f(2) not_digit(6) by (fastforce simp: digits_def)
  then have tw: "takeWhile (\<lambda>c. c \<noteq> PARSE_DELIMITER) (?p @ ?r) = ?p" "dropWhile (\<lambda>c. c \<noteq> PARSE_DELIMITER) (?p @ ?r) = ?r"
    by (simp_all add: takeWhile_append2 dropWhile_append2)
  have st: "strstr (pname q @ ?p @ ?r) (pname q) = Some (pname q @ ?p @ ?r)" by (rule strstr_prefix) simp
  have "parse_loop (join_fields (g # fs)) (k + 1) True (map fst (g # fs)) = (0, 0, map snd (g # fs), 0)"
    using 3 by simp
  with parse_loop_step [OF st tw n f(1), of k ok "map fst (g # fs)"] show ?case
    by (simp only: join_fields.simps list.map fst_conv snd_conv) simp
qed

lemma join_fields_text:
  assumes "\<forall>(q, v)\<in>set fs. value_of_type (ptype q) v \<and> CHR 0x00 \<notin> set (pname q)"
  shows "CHR 0x00 \<notin> set (join_fields fs)"
  using assms
proof (induction fs rule: join_fields.induct)
  case (2 q v)
  then show ?case using parse_field_print(2) [of "ptype q" v] not_digit(7) by (fastforce simp: digits_def)
next
  case (3 q v g fs)
  then show ?case using parse_field_print(2) [of "ptype q" v] not_digit(7) by (fastforce simp: digits_def PARSE_DELIMITER_def)
qed simp

lemma parse_joined:
  assumes "\<forall>(q, v)\<in>set fs. value_of_type (ptype q) v \<and> CHR 0x00 \<notin> set (pname q)"
    and "length (join_fields fs) < len" and "len \<le> Suc (length (join_fields fs) + length post)"
  shows "parse (pre @ join_fields fs @ CHR 0x00 # post) (length pre) len (map fst fs) =
    Some (0, Some 0, map snd fs, pre @ join_fields fs @ CHR 0x00 # post)"
proof -
  have "CHR 0x00 \<notin> set (join_fields fs)" by (rule join_fields_text [OF assms(1)])
  then have "takeWhile (\<lambda>c. c \<noteq> CHR 0x00) (join_fields fs @ CHR 0x00 # post) = join_fields fs"
    by (subst takeWhile_append2) auto
  moreover have "CHR 0x00 \<in> set (take len (join_fields fs @ CHR 0x00 # post))"
    using assms(2) by (simp add: take_Cons' )
  moreover have "parse_loop (join_fields fs) 0 False (map fst fs) = (0, 0, map snd fs, 0)"
    using parse_loop_join [of fs] assms(1) by fastforce
  ultimately show ?thesis using assms(3) by (simp add: parse_def)
qed

section \<open>What a parse delivers\<close>

lemma parse_keeps_null:
  assumes "parse buf st len specs = Some (rc, e, vs, buf')" "CHR 0x00 \<in> set buf"
  shows "CHR 0x00 \<in> set buf'"
proof -
  have u: "CHR 0x00 \<in> set (buf[i := CHR 0x00])" for i
    using assms(2) by (cases "i < length buf") (auto simp: set_update_memI list_update_beyond)
  have "buf' = buf \<or> (\<exists>i. buf' = buf[i := CHR 0x00])"
    using assms(1) by (auto simp: parse_def Let_def bind_eq_Some_conv split: if_splits prod.splits)
  with u assms(2) show ?thesis by auto
qed

lemma parse_field_typed: "parse_field t d = Some v \<Longrightarrow> value_of_type t v"
  by (cases t) (auto simp: parse_field_def value_of_type_def)

lemma parse_loop_typed:
  assumes "parse_loop s k ok specs = (rc, e, vs, lost)" "rc = 0" "\<forall>q\<in>set specs. ptype q \<noteq> parse_null"
  shows "list_all2 (\<lambda>q v. value_of_type (ptype q) v) specs vs"
  using assms
proof (induction specs arbitrary: s k ok rc e vs lost)
  case (Cons q specs)
  obtain d where d: "strstr s (pname q) = Some d" using Cons.prems(1,2) by (auto split: option.splits)
  let ?data = "drop (length (pname q)) d"
  let ?rest = "dropWhile (\<lambda>c. c \<noteq> PARSE_DELIMITER) ?data"
  obtain v where v: "parse_field (ptype q) (takeWhile (\<lambda>c. c \<noteq> PARSE_DELIMITER) ?data) = Some v"
    using Cons.prems d by (auto simp: Let_def split: if_splits)
  obtain rc' e' vs' lost' where r: "parse_loop (if ?rest \<noteq> [] then tl ?rest else s) (k + 1) True specs = (rc', e', vs', lost')" using prod_cases4 by blast
  have "rc' = 0" "vs = v # vs'" using Cons.prems d v r by (auto simp: Let_def split: if_splits prod.splits)
  then show ?case using Cons.IH [OF r] Cons.prems(3) parse_field_typed [OF v] by simp
qed simp

text \<open>A parse within the buffer ends; if it succeeds, its values have the types of the parameters.\<close>

lemma parse_total:
  assumes "start + len \<le> length buf" "0 < start" "CHR 0x00 \<in> set buf" "\<forall>q\<in>set specs. ptype q \<noteq> parse_null"
  shows "\<exists>rc e vs buf'. parse buf start len specs = Some (rc, e, vs, buf') \<and> CHR 0x00 \<in> set buf' \<and>
    (rc = 0 \<longrightarrow> list_all2 (\<lambda>q v. value_of_type (ptype q) v) specs vs)"
proof -
  have "\<exists>r. parse buf start len specs = Some r" using assms(1,2) by (auto simp: parse_def c_assert_def Let_def split: prod.split)
  then obtain rc e vs buf' where p: "parse buf start len specs = Some (rc, e, vs, buf')" by (metis prod_cases4)
  have "rc = 0 \<Longrightarrow> list_all2 (\<lambda>q v. value_of_type (ptype q) v) specs vs"
    using p parse_loop_typed [OF _ _ assms(4)] by (auto simp: parse_def Let_def bind_eq_Some_conv split: if_splits prod.splits)
  then show ?thesis using p parse_keeps_null [OF p assms(3)] by blast
qed

section \<open>Properties\<close>

text \<open>
  Property C28.  What the clients print is what the parser reads: a string of fields, each with
  its name and a printed value of its type, separated by commas and ended by a null character within the
  buffer, is parsed without error into exactly these values, and the buffer is left as it was.
\<close>

theorem parse_roundtrip:
  assumes "\<forall>(q, v)\<in>set fs. value_of_type (ptype q) v \<and> CHR 0x00 \<notin> set (pname q)"
    and "length (join_fields fs) < len" and "len \<le> Suc (length (join_fields fs) + length post)"
  shows "parse (pre @ join_fields fs @ CHR 0x00 # post) (length pre) len (map fst fs) =
    Some (0, Some 0, map snd fs, pre @ join_fields fs @ CHR 0x00 # post)"
  by (rule parse_joined [OF assms])

theorem parse_roundtrip_witness:
  "parse (''V++:I=0002'' @ CHR 0x00 # []) (length ''V++:'') 7 [\<lparr>pname = ''I='', ptype = parse_u16_04x\<rparr>] =
     Some (0, Some 0, [V_u16 2], ''V++:I=0002'' @ CHR 0x00 # [])"
proof -
  let ?fs = "[(\<lparr>pname = ''I='', ptype = parse_u16_04x\<rparr>, V_u16 2)]"
  have "zero_padded 4 (print_base 16 2) = ''0002''" by code_simp
  then have "join_fields ?fs = ''I=0002''" by (simp add: print_value_def)
  then show ?thesis
    using parse_roundtrip [of ?fs 7 "[]" "''V++:''"] by (simp add: value_of_type_def)
qed

end
