(* ===== verification/Maap_Parse.thy ===== *)
theory Maap_Parse
  imports Maap_Client Parse
begin

text \<open>
  The commands of the MAAP daemon, \<open>maap_parse.c\<close>: a command arrives as a structure or as
  a line of text, and is carried out on the client.
\<close>

section \<open>The C library\<close>

definition is_delim :: "char \<Rightarrow> bool" where
  "is_delim c \<longleftrightarrow> c \<in> {CHR '' '', CHR 0x0D, CHR 0x0A}"

text \<open>The words that repeated calls of \<open>strtok\<close> yield.\<close>

function strtok_all :: "string \<Rightarrow> string list" where
  "strtok_all s =
     (let s = dropWhile is_delim s in
      if s = [] then [] else takeWhile (\<lambda>c. \<not> is_delim c) s # strtok_all (dropWhile (\<lambda>c. \<not> is_delim c) s))"
  by pat_completeness auto
termination
proof (relation "measure length")
  fix s x :: string
  assume x: "x = dropWhile is_delim s" "x \<noteq> []"
  then have "\<not> is_delim (hd x)" using hd_dropWhile by blast
  then have "length (dropWhile (\<lambda>c. \<not> is_delim c) x) \<le> length (tl x)" using x(2) by (cases x) (auto simp: length_dropWhile_le)
  also have "\<dots> < length x" using x(2) by simp
  also have "\<dots> \<le> length s" using x(1) by (simp add: length_dropWhile_le)
  finally show "(dropWhile (\<lambda>c. \<not> is_delim c) x, s) \<in> measure length" by simp
qed simp

declare strtok_all.simps [simp del]

text \<open>
  \<open>strtoul\<close> and \<open>strtoull\<close> with 64 bits and base 16 or 0; for base 0 the prefix decides between
  hexadecimal, octal and decimal.  Without digits the value is 0.
\<close>

definition strtoul :: "nat \<Rightarrow> string \<Rightarrow> u64" where
  "strtoul base s =
     (let s = dropWhile isspace s;
          neg = (s \<noteq> [] \<and> hd s = CHR ''-'');
          s = (if s \<noteq> [] \<and> (hd s = CHR ''-'' \<or> hd s = CHR ''+'') then tl s else s);
          hex = (2 \<le> length s \<and> s ! 0 = CHR ''0'' \<and> (s ! 1 = CHR ''x'' \<or> s ! 1 = CHR ''X''));
          b = (if base = 0 then if hex then 16 else if s \<noteq> [] \<and> hd s = CHR ''0'' then 8 else 10 else base);
          n = digits_value b (takeWhile (\<lambda>c. digit_value c < b) (if hex \<and> b = 16 then drop 2 s else s))
      in if 2 ^ 64 \<le> n then - 1 else if neg then - of_nat n else of_nat n)"

section \<open>Model\<close>

datatype maap_cmd_tag =
    MAAP_CMD_INVALID | MAAP_CMD_INIT | MAAP_CMD_RESERVE | MAAP_CMD_RELEASE | MAAP_CMD_STATUS | MAAP_CMD_YIELD | MAAP_CMD_EXIT

record maap_cmd =
  cmd_kind :: maap_cmd_tag
  cmd_id :: int
  cmd_start :: u64
  cmd_count :: u32

text \<open>A number that is no command counts as invalid.\<close>

definition cmd_tag :: "u32 \<Rightarrow> maap_cmd_tag" where
  "cmd_tag w =
     (if w = 1 then MAAP_CMD_INIT else if w = 2 then MAAP_CMD_RESERVE else if w = 3 then MAAP_CMD_RELEASE
      else if w = 4 then MAAP_CMD_STATUS else if w = 5 then MAAP_CMD_YIELD else if w = 6 then MAAP_CMD_EXIT else MAAP_CMD_INVALID)"

text \<open>A word in a buffer, with the least significant byte first.\<close>

definition word_at :: "string \<Rightarrow> nat \<Rightarrow> nat \<Rightarrow> 'a::len word" where
  "word_at buf i n = word_be (rev (map of_char (take n (drop i buf))))"

text \<open>The structure in the buffer: kind, id, start and count, with four bytes of padding at the end.\<close>

definition cmd_at :: "string \<Rightarrow> maap_cmd" where
  "cmd_at buf = \<lparr>cmd_kind = cmd_tag (word_at buf 0 4), cmd_id = sint (word_at buf 4 4 :: u32), cmd_start = word_at buf 8 8, cmd_count = word_at buf 16 4\<rparr>"

definition default_cmd :: maap_cmd where
  "default_cmd = \<lparr>cmd_kind = MAAP_CMD_INVALID, cmd_id = -1, cmd_start = 0, cmd_count = 0\<rparr>"

definition id_of :: "string \<Rightarrow> int" where
  "id_of w = sint (ucast (strtoul 0 w) :: u32)"

text \<open>\<open>None\<close> for the return value 0; the array of words has five places.\<close>

definition parse_text_cmd :: "string \<Rightarrow> maap_cmd option" where
  "parse_text_cmd text =
     (let argv = take 5 (strtok_all text); argc = length argv in
      if argc \<ge> 1 \<and> argc \<le> 3 then
        (if take 4 (argv ! 0) = ''init'' then
           (if argc = 1 then
              Some (default_cmd\<lparr>cmd_kind := MAAP_CMD_INIT, cmd_start := MAAP_DYNAMIC_POOL_BASE, cmd_count := MAAP_DYNAMIC_POOL_SIZE\<rparr>)
            else if argc = 3 then
              Some (default_cmd\<lparr>cmd_kind := MAAP_CMD_INIT, cmd_start := strtoul 16 (argv ! 1), cmd_count := ucast (strtoul 0 (argv ! 2))\<rparr>)
            else None)
         else if take 7 (argv ! 0) = ''reserve'' then
           (if argc = 2 then Some (default_cmd\<lparr>cmd_kind := MAAP_CMD_RESERVE, cmd_count := ucast (strtoul 0 (argv ! 1))\<rparr>)
            else if argc = 3 then
              Some (default_cmd\<lparr>cmd_kind := MAAP_CMD_RESERVE, cmd_start := strtoul 16 (argv ! 1), cmd_count := ucast (strtoul 0 (argv ! 2))\<rparr>)
            else None)
         else if take 7 (argv ! 0) = ''release'' \<and> argc = 2 then
           Some (default_cmd\<lparr>cmd_kind := MAAP_CMD_RELEASE, cmd_id := id_of (argv ! 1)\<rparr>)
         else if argv ! 0 = ''status'' \<and> argc = 2 then
           Some (default_cmd\<lparr>cmd_kind := MAAP_CMD_STATUS, cmd_id := id_of (argv ! 1)\<rparr>)
         else if take 7 (argv ! 0) = ''yield'' \<and> argc = 2 then
           Some (default_cmd\<lparr>cmd_kind := MAAP_CMD_YIELD, cmd_id := id_of (argv ! 1)\<rparr>)
         else if take 4 (argv ! 0) = ''exit'' \<and> argc = 1 then Some (default_cmd\<lparr>cmd_kind := MAAP_CMD_EXIT\<rparr>)
         else None)
      else None)"

text \<open>
  Carrying out a command: the return value 1 asks the daemon to end, -1 reports an unknown command.  The three
  booleans are the answers of the timer and network creation during initialisation.
\<close>

definition perform :: "bool \<Rightarrow> bool \<Rightarrow> bool \<Rightarrow> maap_client \<Rightarrow> sender \<Rightarrow> maap_cmd \<Rightarrow> (int \<times> maap_client) option" where
  "perform tm cr nt mc sd cmd =
     (case cmd_kind cmd of
        MAAP_CMD_INIT \<Rightarrow> do { (rv, mc) \<leftarrow> maap_init_client tm cr nt mc sd (cmd_start cmd) (cmd_count cmd); Some (0, mc) }
      | MAAP_CMD_RESERVE \<Rightarrow> do { (rv, mc) \<leftarrow> maap_reserve_range mc sd (cmd_start cmd) (cmd_count cmd); Some (0, mc) }
      | MAAP_CMD_RELEASE \<Rightarrow> do { (rv, mc) \<leftarrow> maap_release_range mc sd (cmd_id cmd); Some (0, mc) }
      | MAAP_CMD_STATUS \<Rightarrow> do { mc \<leftarrow> maap_range_status mc sd (cmd_id cmd); Some (0, mc) }
      | MAAP_CMD_YIELD \<Rightarrow> do { (rv, mc) \<leftarrow> maap_yield_range mc sd (cmd_id cmd); Some (0, mc) }
      | MAAP_CMD_EXIT \<Rightarrow> Some (1, mc)
      | MAAP_CMD_INVALID \<Rightarrow> Some (-1, mc))"

text \<open>The result has the return value, whether the input is text, and the client.\<close>

definition parse_write :: "bool \<Rightarrow> bool \<Rightarrow> bool \<Rightarrow> maap_client \<Rightarrow> sender \<Rightarrow> string \<Rightarrow> (int \<times> bool \<times> maap_client) option" where
  "parse_write tm cr nt mc sd buf = do {
     c_assert (4 \<le> length buf);
     if cmd_tag (word_at buf 0 4) \<noteq> MAAP_CMD_INVALID then do {
       c_assert (24 \<le> length buf);
       (rv, mc) \<leftarrow> perform tm cr nt mc sd (cmd_at buf);
       Some (rv, False, mc) }
     else do {
       c_assert (CHR 0x00 \<in> set buf);
       case parse_text_cmd (takeWhile (\<lambda>c. c \<noteq> CHR 0x00) buf) of
         None \<Rightarrow> Some (-1, True, mc)
       | Some cmd \<Rightarrow> do { (rv, mc) \<leftarrow> perform tm cr nt mc sd cmd; Some (rv, True, mc) } } }"

section \<open>Words and numbers\<close>

definition word_ok :: "string \<Rightarrow> bool" where
  "word_ok w \<longleftrightarrow> w \<noteq> [] \<and> (\<forall>c\<in>set w. \<not> is_delim c)"

lemma strtok_word:
  assumes "word_ok w" "is_delim d"
  shows "strtok_all (w @ d # s) = w # strtok_all s"
proof -
  have w: "dropWhile is_delim (w @ d # s) = w @ d # s" using assms(1) by (cases w) (auto simp: word_ok_def)
  have t: "takeWhile (\<lambda>c. \<not> is_delim c) (w @ d # s) = w" "dropWhile (\<lambda>c. \<not> is_delim c) (w @ d # s) = d # s"
    using assms by (auto simp: word_ok_def takeWhile_append dropWhile_append)
  have "strtok_all (d # s) = strtok_all s"
    using assms(2) by (subst (1 2) strtok_all.simps) simp
  then show ?thesis by (subst strtok_all.simps) (simp add: w t)
qed

lemma strtok_Nil: "strtok_all [] = []"
  by (subst strtok_all.simps) simp

lemma digits_word: "digits 16 ds \<Longrightarrow> ds \<noteq> [] \<Longrightarrow> word_ok ds"
proof -
  have "\<not> is_delim c" if "digit_value c < 16" for c using that by (auto simp: is_delim_def digit_value_def)
  then show "digits 16 ds \<Longrightarrow> ds \<noteq> [] \<Longrightarrow> word_ok ds" by (auto simp: word_ok_def digits_def)
qed

lemma strtoul_digits:
  assumes "digits b ds" "b \<le> 16" "ds \<noteq> []" "digits_value b ds < 2 ^ 64" and "0 < b"
    and "base = b \<or> base = 0 \<and> (b = 8 \<and> hd ds = CHR ''0'' \<or> b = 10 \<and> hd ds \<noteq> CHR ''0'')"
  shows "strtoul base ds = of_nat (digits_value b ds)"
proof -
  have d: "digit_value x < 16" if "x \<in> set ds" for x using assms(1,2) that by (fastforce simp: digits_def)
  have c: "\<not> isspace (hd ds)" "hd ds \<noteq> CHR ''-''" "hd ds \<noteq> CHR ''+''"
    using d [of "hd ds"] assms(3) not_digit(1) [of "hd ds"] not_digit(2,3) hd_in_set [of ds] by auto
  have hex: "(2 \<le> length ds \<and> ds ! 0 = CHR ''0'' \<and> (ds ! 1 = CHR ''x'' \<or> ds ! 1 = CHR ''X'')) = False"
  proof -
    have "digit_value (ds ! 1) < 16" if "2 \<le> length ds" using that by (intro d nth_mem) simp
    then show ?thesis using not_digit(4,5) by auto
  qed
  have t: "takeWhile (\<lambda>c. digit_value c < b) ds = ds" using assms(1) by (simp add: takeWhile_eq_all_conv digits_def)
  have sp: "dropWhile isspace ds = ds" using c(1) assms(3) by (cases ds) auto
  have g: "(if ds \<noteq> [] \<and> (hd ds = CHR ''-'' \<or> hd ds = CHR ''+'') then tl ds else ds) = ds" using c by simp
  have b: "(if base = 0 then if False then 16 else if ds \<noteq> [] \<and> hd ds = CHR ''0'' then 8 else 10 else base) = b"
    using assms(3,5,6) by auto
  show ?thesis unfolding strtoul_def Let_def sp g hex b using assms(3,4) c(2) by (simp add: t)
qed

lemma print_base_hd: "2 \<le> b \<Longrightarrow> b \<le> 16 \<Longrightarrow> 0 < n \<Longrightarrow> hd (print_base b n) \<noteq> CHR ''0''"
proof (induction b n rule: print_base.induct)
  case (1 b n)
  show ?case
  proof (cases "n < b")
    case True
    have "digit_value (digit_char n) = n" using True 1 by (intro digit_value_char) simp
    then have "digit_char n \<noteq> CHR ''0''" using 1 by (auto simp: digit_value_def)
    then show ?thesis using True by (subst print_base.simps) simp
  next
    case False
    moreover have "print_base b (n div b) \<noteq> []" using print_base_ok [of b "n div b"] 1 by simp
    moreover have "0 < n div b" using False 1 by (simp add: div_greater_zero_iff)
    ultimately show ?thesis using 1 by (subst print_base.simps) simp
  qed
qed

lemma strtoul_print:
  assumes "n < 2 ^ 64"
  shows "strtoul 16 (print_base 16 n) = of_nat n" "strtoul 0 (print_base 10 n) = of_nat n"
proof -
  show "strtoul 16 (print_base 16 n) = of_nat n"
    using strtoul_digits [of 16 "print_base 16 n" 16] print_base_ok [of 16 n] assms by simp
  show "strtoul 0 (print_base 10 n) = of_nat n"
  proof (cases "n = 0")
    case True
    have p: "print_base 10 0 = ''0''" by code_simp
    have "strtoul 0 ''0'' = of_nat (digits_value 8 ''0'')"
      by (rule strtoul_digits) (simp_all add: digits_def digits_value_def digit_value_def)
    then show ?thesis unfolding True p by (simp add: digits_value_def digit_value_def)
  next
    case False
    then show ?thesis
      using strtoul_digits [of 10 "print_base 10 n" 0] print_base_ok [of 10 n] print_base_hd [of 10 n] assms by simp
  qed
qed

section \<open>Text and structure\<close>

text \<open>The text of a command, as the usage message of the daemon describes it: words with spaces, and a line feed.\<close>

fun join_words :: "string list \<Rightarrow> string" where
  "join_words [] = []"
| "join_words [w] = w @ [CHR 0x0A]"
| "join_words (w # v # ws) = w @ CHR '' '' # join_words (v # ws)"

definition cmd_words :: "maap_cmd \<Rightarrow> string list" where
  "cmd_words c =
     (let start = print_base 16 (unat (cmd_start c)); count = print_base 10 (unat (cmd_count c)); i = print_base 10 (nat (cmd_id c)) in
      case cmd_kind c of
        MAAP_CMD_INIT \<Rightarrow> [''init'', start, count]
      | MAAP_CMD_RESERVE \<Rightarrow> (if cmd_start c = 0 then [''reserve'', count] else [''reserve'', start, count])
      | MAAP_CMD_RELEASE \<Rightarrow> [''release'', i]
      | MAAP_CMD_STATUS \<Rightarrow> [''status'', i]
      | MAAP_CMD_YIELD \<Rightarrow> [''yield'', i]
      | MAAP_CMD_EXIT \<Rightarrow> [''exit'']
      | MAAP_CMD_INVALID \<Rightarrow> [])"

definition print_cmd :: "maap_cmd \<Rightarrow> string" where
  "print_cmd c = join_words (cmd_words c)"

text \<open>The structure of a command in memory.\<close>

definition tag_number :: "maap_cmd_tag \<Rightarrow> u32" where
  "tag_number k = (case k of MAAP_CMD_INVALID \<Rightarrow> 0 | MAAP_CMD_INIT \<Rightarrow> 1 | MAAP_CMD_RESERVE \<Rightarrow> 2 | MAAP_CMD_RELEASE \<Rightarrow> 3
     | MAAP_CMD_STATUS \<Rightarrow> 4 | MAAP_CMD_YIELD \<Rightarrow> 5 | MAAP_CMD_EXIT \<Rightarrow> 6)"

definition byte_char :: "u8 \<Rightarrow> char" where
  "byte_char b = char_of (unat b)"

definition cmd_image :: "maap_cmd \<Rightarrow> string" where
  "cmd_image c = map byte_char (rev (bytes_be 4 (tag_number (cmd_kind c))) @ rev (bytes_be 4 (of_int (cmd_id c) :: u32)) @
     rev (bytes_be 8 (cmd_start c)) @ rev (bytes_be 4 (cmd_count c)))"

definition cmd_ok :: "maap_cmd \<Rightarrow> bool" where
  "cmd_ok c \<longleftrightarrow> cmd_kind c \<noteq> MAAP_CMD_INVALID \<and> 0 \<le> cmd_id c \<and> cmd_id c < 2 ^ 31"

lemma char_byte: "of_char (byte_char b) = (b :: u8)"
proof -
  have "unat b < 256" using unsigned_less [of b, where 'a = nat] by simp
  then have "(of_char (char_of (unat b)) :: nat) = unat b" by simp
  then have "of_nat (of_char (char_of (unat b))) = b" by simp
  then show ?thesis by (simp only: of_nat_of_char byte_char_def)
qed

lemma word_at_image:
  assumes "drop i buf = map byte_char (rev (bytes_be n v)) @ rest" and "8 * n = LENGTH('a)"
  shows "word_at buf i n = (v :: 'a::len word)"
  using assms by (simp add: word_at_def rev_map comp_def char_byte word_be_bytes_be take_bit_word_eq_self)

lemma sint_small: "0 \<le> i \<Longrightarrow> i < 2 ^ 31 \<Longrightarrow> sint (word_of_int i :: u32) = i"
  by transfer (simp add: signed_take_bit_int_eq_self)

lemma ucast_of_int: "(ucast (word_of_int i :: u64) :: u32) = word_of_int i"
  by transfer (simp add: take_bit_take_bit)

lemma tag_number_inverse: "cmd_tag (tag_number k) = k"
  by (cases k) (simp_all add: cmd_tag_def tag_number_def)

lemma cmd_at_image:
  assumes "cmd_ok c"
  shows "cmd_at (cmd_image c @ pad) = c" "word_at (cmd_image c @ pad) 0 4 = tag_number (cmd_kind c)" "length (cmd_image c) = 20"
proof -
  let ?b = "cmd_image c @ pad"
  have i: "sint (of_int (cmd_id c) :: u32) = cmd_id c"
    using assms by (intro sint_small) (simp_all add: cmd_ok_def)
  have "word_at ?b 4 4 = (of_int (cmd_id c) :: u32)" "word_at ?b 8 8 = cmd_start c" "word_at ?b 16 4 = cmd_count c"
    by (rule word_at_image; simp add: cmd_image_def)+
  moreover show w: "word_at ?b 0 4 = tag_number (cmd_kind c)" by (rule word_at_image; simp add: cmd_image_def)
  ultimately show "cmd_at ?b = c" by (simp add: cmd_at_def tag_number_inverse i)
  show "length (cmd_image c) = 20" by (simp add: cmd_image_def)
qed

lemma strtok_join: "\<forall>w\<in>set ws. word_ok w \<Longrightarrow> strtok_all (join_words ws) = ws"
  by (induction ws rule: join_words.induct) (simp_all add: strtok_word is_delim_def strtok_Nil)

lemma printed_words: "word_ok (print_base 16 n)" "word_ok (print_base 10 n)"
proof -
  have "digits 16 (print_base 10 n)" using print_base_ok [of 10 n] by (fastforce simp: digits_def)
  then show "word_ok (print_base 10 n)" using print_base_ok [of 10 n] digits_word by simp
  show "word_ok (print_base 16 n)" using print_base_ok [of 16 n] digits_word by simp
qed

lemma strtok_print: "strtok_all (print_cmd c) = cmd_words c"
proof -
  have "word_ok ''init''" "word_ok ''reserve''" "word_ok ''release''" "word_ok ''status''" "word_ok ''yield''" "word_ok ''exit''"
    by (simp_all add: word_ok_def is_delim_def)
  then show ?thesis
    unfolding print_cmd_def by (intro strtok_join) (auto simp: cmd_words_def Let_def printed_words split: maap_cmd_tag.split)
qed

lemma printed_id:
  assumes "0 \<le> i" "i < 2 ^ 31"
  shows "id_of (print_base 10 (nat i)) = i"
proof -
  have "strtoul 0 (print_base 10 (nat i)) = of_nat (nat i)" using strtoul_print(2) [of "nat i"] assms by simp
  then have "id_of (print_base 10 (nat i)) = sint (of_int i :: u32)" using assms(1) by (simp add: id_of_def ucast_of_int)
  also have "\<dots> = i" using assms by (intro sint_small)
  finally show ?thesis .
qed

lemma printed_start: "strtoul 16 (print_base 16 (unat (x :: u64))) = x"
  using strtoul_print(1) [of "unat x"] unsigned_less [of x, where 'a = nat] by simp

lemma printed_count: "ucast (strtoul 0 (print_base 10 (unat (x :: u32)))) = x"
proof -
  have "unat x < 2 ^ 64" using unsigned_less [of x, where 'a = nat] by simp
  then show ?thesis using strtoul_print(2) [of "unat x"] by (simp add: ucast_back(3))
qed

text \<open>The parser reads back the fields that the command uses, so both are carried out alike.\<close>

lemma parse_printed:
  assumes "cmd_ok c"
  shows "\<exists>d. parse_text_cmd (print_cmd c) = Some d \<and> (\<forall>tm cr nt mc sd. perform tm cr nt mc sd d = perform tm cr nt mc sd c)"
proof -
  have i: "id_of (print_base 10 (nat (cmd_id c))) = cmd_id c" using assms by (intro printed_id) (simp_all add: cmd_ok_def)
  show ?thesis
    unfolding parse_text_cmd_def strtok_print cmd_words_def Let_def
    using assms by (cases "cmd_kind c") (simp_all add: cmd_ok_def perform_def default_cmd_def printed_start printed_count i)
qed

text \<open>A text is not mistaken for a structure, because its first letter is no command number.\<close>

lemma word_low_byte:
  assumes "4 \<le> length buf"
  shows "ucast (word_at buf 0 4 :: u32) = (of_char (hd buf) :: u8)"
proof -
  obtain a r where b: "buf = a # r" using assms by (cases buf) auto
  have "rev (map of_char (take 4 (drop 0 buf))) = rev (map of_char (take 3 r)) @ [of_char a :: u8]"
    by (simp add: b take_Cons' )
  then have "word_at buf 0 4 = (push_bit 8 (word_be (rev (map of_char (take 3 r)))) OR ucast (of_char a :: u8) :: u32)"
    by (simp add: word_at_def)
  then show ?thesis by (simp add: b) (rule bit_word_eqI, auto simp: bit_simps)
qed

lemma print_not_binary:
  assumes "cmd_ok c"
  shows "cmd_tag (word_at (print_cmd c @ CHR 0x00 # rest) 0 4) = MAAP_CMD_INVALID" "4 \<le> length (print_cmd c)"
proof -
  have h: "hd (print_cmd c) \<in> {CHR ''i'', CHR ''r'', CHR ''s'', CHR ''y'', CHR ''e''} \<and> 4 \<le> length (print_cmd c)"
    using assms by (cases "cmd_kind c") (simp_all add: print_cmd_def cmd_words_def cmd_ok_def Let_def)
  then show "4 \<le> length (print_cmd c)" by blast
  have "ucast (word_at (print_cmd c @ CHR 0x00 # rest) 0 4 :: u32) = (of_char (hd (print_cmd c)) :: u8)"
    using word_low_byte [of "print_cmd c @ CHR 0x00 # rest"] h by (cases "print_cmd c") auto
  moreover have "(of_char (hd (print_cmd c)) :: u8) \<notin> {1, 2, 3, 4, 5, 6}" using h by auto
  ultimately show "cmd_tag (word_at (print_cmd c @ CHR 0x00 # rest) 0 4) = MAAP_CMD_INVALID"
    by (auto simp: cmd_tag_def)
qed

lemma print_no_null: "CHR 0x00 \<notin> set (print_cmd c)"
proof -
  have d: "CHR 0x00 \<notin> set (print_base 10 n)" "CHR 0x00 \<notin> set (print_base 16 n)" for n
    using print_base_ok [of 10 n] print_base_ok [of 16 n] not_digit(7) by (auto simp: digits_def)
  have j: "\<forall>w\<in>set ws. CHR 0x00 \<notin> set w \<Longrightarrow> CHR 0x00 \<notin> set (join_words ws)" for ws by (induction ws rule: join_words.induct) auto
  show ?thesis unfolding print_cmd_def by (rule j) (auto simp: cmd_words_def Let_def d split: maap_cmd_tag.split)
qed

section \<open>Properties\<close>

text \<open>
  Property C23.  A command has the same effect as a line of text and as a structure: the daemon
  recognises which of them it received, returns the same value and leaves the same client; a crash of one is a
  crash of the other.  Whatever lies behind the text or the structure in the buffer does not matter.
\<close>

theorem parse_write_text_binary:
  assumes "cmd_ok c" and "4 \<le> length pad"
  shows "parse_write tm cr nt mc sd (print_cmd c @ CHR 0x00 # rest) = do { (rv, s) \<leftarrow> perform tm cr nt mc sd c; Some (rv, True, s) } \<and>
    parse_write tm cr nt mc sd (cmd_image c @ pad) = do { (rv, s) \<leftarrow> perform tm cr nt mc sd c; Some (rv, False, s) }"
proof -
  obtain d where d: "parse_text_cmd (print_cmd c) = Some d" "perform tm cr nt mc sd d = perform tm cr nt mc sd c"
    using parse_printed [OF assms(1)] by blast
  have "takeWhile (\<lambda>x. x \<noteq> CHR 0x00) (print_cmd c @ CHR 0x00 # rest) = print_cmd c"
    using print_no_null [of c] by (subst takeWhile_append2) auto
  then have "parse_write tm cr nt mc sd (print_cmd c @ CHR 0x00 # rest) = do { (rv, s) \<leftarrow> perform tm cr nt mc sd c; Some (rv, True, s) }"
    using print_not_binary(1) [OF assms(1), of rest] print_not_binary(2) [OF assms(1)] d by (simp add: parse_write_def)
  moreover have "cmd_kind c \<noteq> MAAP_CMD_INVALID" using assms(1) by (simp add: cmd_ok_def)
  then have "parse_write tm cr nt mc sd (cmd_image c @ pad) = do { (rv, s) \<leftarrow> perform tm cr nt mc sd c; Some (rv, False, s) }"
    using cmd_at_image(1,2) [OF assms(1), of pad] cmd_at_image(3) [OF assms(1)] assms(2) by (simp add: parse_write_def tag_number_inverse)
  ultimately show ?thesis ..
qed

theorem parse_write_text_binary_witness:
  "\<forall>mc. parse_write True True True mc 1 (''reserve 5'' @ [CHR 0x0A, CHR 0x00]) =
     do { (rv, s) \<leftarrow> maap_reserve_range mc 1 0 5; Some (0, True, s) }"
proof
  fix mc
  let ?c = "\<lparr>cmd_kind = MAAP_CMD_RESERVE, cmd_id = 0, cmd_start = 0, cmd_count = 5\<rparr>"
  have "print_base 10 5 = ''5''" by code_simp
  then have p: "''reserve 5'' @ [CHR 0x0A, CHR 0x00] = print_cmd ?c @ CHR 0x00 # []" by (simp add: print_cmd_def cmd_words_def)
  have "cmd_ok ?c" by (simp add: cmd_ok_def)
  from parse_write_text_binary [OF this, of "replicate 4 (CHR 0x00)" True True True mc 1 "[]", THEN conjunct1]
  show "parse_write True True True mc 1 (''reserve 5'' @ [CHR 0x0A, CHR 0x00]) =
     do { (rv, s) \<leftarrow> maap_reserve_range mc 1 0 5; Some (0, True, s) }"
    unfolding p by (cases "maap_reserve_range mc 1 0 5") (auto simp: perform_def)
qed

end
