(* ===== verification/Mrp.thy ===== *)
theory Mrp
  imports Avb_Prelude
begin

text \<open>
  The state machines of the multiple registration protocol, \<open>mrpd/mrp.c\<close>: the
  applicant and the registrar of one attribute, the leave-all and periodic timers, and
  the list of control clients.  The calls to the timers of the operating system are
  recorded in order; an oracle in the state answers them.
\<close>

section \<open>Data\<close>

text \<open>The applicant states and the three registrar states share one number space in the code.\<close>

datatype mrp_state =
    MRP_VO_STATE | MRP_VP_STATE | MRP_VN_STATE | MRP_AN_STATE | MRP_AA_STATE | MRP_QA_STATE | MRP_LA_STATE
  | MRP_AO_STATE | MRP_QO_STATE | MRP_AP_STATE | MRP_QP_STATE | MRP_LO_STATE
  | MRP_IN_STATE | MRP_LV_STATE | MRP_MT_STATE

datatype mrp_event =
    MRP_EVENT_BEGIN | MRP_EVENT_NEW | MRP_EVENT_JOIN | MRP_EVENT_LV | MRP_EVENT_TX | MRP_EVENT_TXLA | MRP_EVENT_TXLAF
  | MRP_EVENT_RNEW | MRP_EVENT_RJOININ | MRP_EVENT_RIN | MRP_EVENT_RJOINMT | MRP_EVENT_RMT | MRP_EVENT_RLV
  | MRP_EVENT_RLA | MRP_EVENT_FLUSH | MRP_EVENT_REDECLARE | MRP_EVENT_PERIODIC | MRP_EVENT_PERIODIC_ENABLE
  | MRP_EVENT_PERIODIC_DISABLE | MRP_EVENT_LVTIMER | MRP_EVENT_LVATIMER

datatype mrp_snd = MRP_SND_NEW | MRP_SND_JOIN | MRP_SND_IN | MRP_SND_LV | MRP_SND_LVA | MRP_SND_NULL | MRP_SND_NONE

datatype mrp_encode = MRP_ENCODE_YES | MRP_ENCODE_OPTIONAL

datatype mrp_notify = MRP_NOTIFY_NONE | MRP_NOTIFY_NEW | MRP_NOTIFY_JOIN | MRP_NOTIFY_LV

datatype timer_state = MRP_TIMER_PASSIVE | MRP_TIMER_ACTIVE

text \<open>A previous state of \<open>None\<close> is the -1 of a fresh attribute.\<close>

record mrp_applicant_attribute =
  a_state :: mrp_state
  a_tx :: bool
  a_sndmsg :: mrp_snd
  a_encode :: mrp_encode
  a_previous :: "mrp_state option"

record mrp_registrar_attribute =
  r_state :: mrp_state
  r_notify :: mrp_notify
  r_macaddr :: "u8 list"
  r_previous :: "mrp_state option"

record mrp_timer =
  t_state :: timer_state
  t_tx :: bool
  t_sndmsg :: mrp_snd

record sockaddr_in =
  sin_family :: u16
  sin_port :: u16
  sin_addr :: u32
  sin_zero :: "u8 list"

text \<open>
  The database of one application.  The last four fields are the environment: the
  timer calls made so far, the answers of the operating system to them, and the numbers of
  \<open>random\<close> with the position in them.
\<close>

datatype timer_id = JOIN_TIMER | LV_TIMER | LVA_TIMER

datatype timer_call = Start timer_id nat | Stop timer_id

record mrp_database =
  lva :: mrp_timer
  join_timer_running :: bool
  lv_timer_running :: bool
  lva_timer_running :: bool
  clients :: "sockaddr_in list"
  registration :: int
  participant :: int
  calls :: "timer_call list"
  answers :: "nat \<Rightarrow> int"
  rands :: "nat \<Rightarrow> nat"
  rands_pos :: nat

definition MRP_JOINTIMER_VAL :: nat where "MRP_JOINTIMER_VAL = 100"
definition MRP_LVTIMER_VAL :: nat where "MRP_LVTIMER_VAL = 1000"
definition MRP_LVATIMER_VAL :: nat where "MRP_LVATIMER_VAL = 10000"

section \<open>Clients\<close>

text \<open>The linked list of clients is a list.  \<open>mem\<close> answers \<open>malloc\<close>.\<close>

fun client_lookup :: "sockaddr_in list \<Rightarrow> sockaddr_in \<Rightarrow> bool" where
  "client_lookup [] c = False"
| "client_lookup (x # xs) c = (sin_port x = sin_port c \<or> client_lookup xs c)"

fun mrp_client_count :: "sockaddr_in list \<Rightarrow> int" where
  "mrp_client_count [] = 0"
| "mrp_client_count (x # xs) = mrp_client_count xs + 1"

definition mrp_client_add :: "bool \<Rightarrow> sockaddr_in list \<Rightarrow> sockaddr_in option \<Rightarrow> int \<times> sockaddr_in list" where
  "mrp_client_add mem xs newclient =
     (case newclient of
        None \<Rightarrow> (-1, xs)
      | Some c \<Rightarrow> if client_lookup xs c then (0, xs) else if mem then (0, xs @ [c]) else (-1, xs))"

fun client_delete :: "sockaddr_in list \<Rightarrow> sockaddr_in \<Rightarrow> sockaddr_in list" where
  "client_delete [] c = []"
| "client_delete (x # xs) c = (if x = c then xs else x # client_delete xs c)"

definition mrp_client_delete :: "sockaddr_in list \<Rightarrow> sockaddr_in option \<Rightarrow> int \<times> sockaddr_in list" where
  "mrp_client_delete xs newclient = (case newclient of None \<Rightarrow> (0, xs) | Some c \<Rightarrow> (0, client_delete xs c))"

definition mrp_client_remove_all :: "sockaddr_in list \<Rightarrow> int \<times> sockaddr_in list" where
  "mrp_client_remove_all xs = (0, [])"

section \<open>Timers\<close>

text \<open>A call of the timer functions of the operating system: its answer and the record of it.\<close>

definition mrpd_timer :: "mrp_database \<Rightarrow> timer_call \<Rightarrow> int \<times> mrp_database" where
  "mrpd_timer db c = (answers db (length (calls db)), db\<lparr>calls := calls db @ [c]\<rparr>)"

definition mrp_jointimer_start :: "mrp_database \<Rightarrow> int \<times> mrp_database" where
  "mrp_jointimer_start db =
     (let (ret, db) = (if \<not> join_timer_running db then mrpd_timer db (Start JOIN_TIMER MRP_JOINTIMER_VAL) else (0, db))
      in (ret, if ret \<ge> 0 then db\<lparr>join_timer_running := True\<rparr> else db))"

definition mrp_jointimer_stop :: "mrp_database \<Rightarrow> int \<times> mrp_database" where
  "mrp_jointimer_stop db = mrpd_timer (db\<lparr>join_timer_running := False\<rparr>) (Stop JOIN_TIMER)"

definition mrp_lvtimer_start :: "mrp_database \<Rightarrow> int \<times> mrp_database" where
  "mrp_lvtimer_start db =
     (let (ret, db) = mrpd_timer db (Start LV_TIMER MRP_LVTIMER_VAL)
      in (ret, if ret \<ge> 0 then db\<lparr>lv_timer_running := True\<rparr> else db))"

definition mrp_lvtimer_stop :: "mrp_database \<Rightarrow> int \<times> mrp_database" where
  "mrp_lvtimer_stop db = mrpd_timer (db\<lparr>lv_timer_running := False\<rparr>) (Stop LV_TIMER)"

definition mrp_lvatimer_start :: "mrp_database \<Rightarrow> int \<times> mrp_database" where
  "mrp_lvatimer_start db =
     (let x = rands db (rands_pos db);
          db = db\<lparr>rands_pos := Suc (rands_pos db)\<rparr>;
          timeout = MRP_LVATIMER_VAL + x mod (MRP_LVATIMER_VAL div 2);
          (ret, db) = (if \<not> lva_timer_running db then mrpd_timer db (Start LVA_TIMER timeout) else (0, db))
      in (ret, if ret \<ge> 0 then db\<lparr>lva_timer_running := True\<rparr> else db))"

definition mrp_lvatimer_stop :: "mrp_database \<Rightarrow> int \<times> mrp_database" where
  "mrp_lvatimer_stop db = mrpd_timer (db\<lparr>lva_timer_running := False\<rparr>) (Stop LVA_TIMER)"

definition lva_set :: "mrp_database \<Rightarrow> timer_state \<Rightarrow> mrp_snd \<Rightarrow> bool \<Rightarrow> int \<times> mrp_database" where
  "lva_set db la_state sndmsg tx = (0, db\<lparr>lva := \<lparr>t_state = la_state, t_tx = tx, t_sndmsg = sndmsg\<rparr>\<rparr>)"

definition mrp_lvatimer_fsm :: "mrp_database \<Rightarrow> mrp_event \<Rightarrow> int \<times> mrp_database" where
  "mrp_lvatimer_fsm db event =
     (case event of
        MRP_EVENT_BEGIN \<Rightarrow> lva_set (snd (mrp_lvatimer_start db)) MRP_TIMER_PASSIVE MRP_SND_NONE False
      | MRP_EVENT_TX \<Rightarrow>
          if t_state (lva db) = MRP_TIMER_ACTIVE then lva_set db MRP_TIMER_PASSIVE MRP_SND_LVA True
          else lva_set db (t_state (lva db)) MRP_SND_NONE False
      | MRP_EVENT_RLA \<Rightarrow>
          lva_set (snd (mrp_lvatimer_start (snd (mrp_lvatimer_stop db)))) MRP_TIMER_PASSIVE MRP_SND_NONE False
      | MRP_EVENT_LVATIMER \<Rightarrow>
          lva_set (snd (mrp_lvatimer_start (snd (mrp_lvatimer_stop db)))) MRP_TIMER_ACTIVE MRP_SND_NONE False
      | _ \<Rightarrow> (-1, db))"

text \<open>The periodic machine; the boolean says whether the periodic timer is started.\<close>

definition mrp_periodictimer_fsm :: "timer_state option \<Rightarrow> mrp_event \<Rightarrow> int \<times> timer_state option \<times> bool" where
  "mrp_periodictimer_fsm periodic_state event =
     (case periodic_state of
        None \<Rightarrow> (-1, None, False)
      | Some p_state \<Rightarrow>
          (case event of
             MRP_EVENT_BEGIN \<Rightarrow> (0, Some MRP_TIMER_ACTIVE, True)
           | MRP_EVENT_PERIODIC \<Rightarrow> (0, Some p_state, p_state = MRP_TIMER_ACTIVE)
           | MRP_EVENT_PERIODIC_DISABLE \<Rightarrow> (0, Some MRP_TIMER_PASSIVE, False)
           | MRP_EVENT_PERIODIC_ENABLE \<Rightarrow>
               if p_state = MRP_TIMER_PASSIVE then (0, Some MRP_TIMER_ACTIVE, True) else (0, Some p_state, False)
           | _ \<Rightarrow> (-1, Some p_state, False)))"

section \<open>The applicant\<close>

text \<open>
  One function per event of the big switch.  A transmission event also yields whether
  to transmit, whether the message is optional, and the message.
\<close>

definition applicant_new :: "mrp_state \<Rightarrow> mrp_state" where
  "applicant_new st = (case st of MRP_VN_STATE \<Rightarrow> st | MRP_AN_STATE \<Rightarrow> st | _ \<Rightarrow> MRP_VN_STATE)"

definition applicant_join :: "mrp_state \<Rightarrow> mrp_state" where
  "applicant_join st =
     (case st of
        MRP_LO_STATE \<Rightarrow> MRP_VP_STATE
      | MRP_VO_STATE \<Rightarrow> MRP_VP_STATE
      | MRP_LA_STATE \<Rightarrow> MRP_AA_STATE
      | MRP_AO_STATE \<Rightarrow> MRP_AP_STATE
      | MRP_QO_STATE \<Rightarrow> MRP_QP_STATE
      | _ \<Rightarrow> st)"

definition applicant_lv :: "mrp_state \<Rightarrow> mrp_state" where
  "applicant_lv st =
     (case st of
        MRP_VN_STATE \<Rightarrow> MRP_LA_STATE
      | MRP_AN_STATE \<Rightarrow> MRP_LA_STATE
      | MRP_AA_STATE \<Rightarrow> MRP_LA_STATE
      | MRP_QA_STATE \<Rightarrow> MRP_LA_STATE
      | MRP_VP_STATE \<Rightarrow> MRP_VO_STATE
      | MRP_AP_STATE \<Rightarrow> MRP_AO_STATE
      | MRP_QP_STATE \<Rightarrow> MRP_QO_STATE
      | _ \<Rightarrow> st)"

type_synonym tx_result = "bool \<times> bool \<times> mrp_snd \<times> mrp_state"

definition applicant_txla :: "mrp_state \<Rightarrow> tx_result" where
  "applicant_txla st =
     (case st of
        MRP_VO_STATE \<Rightarrow> (True, True, MRP_SND_IN, MRP_LO_STATE)
      | MRP_VP_STATE \<Rightarrow> (True, False, MRP_SND_IN, MRP_AA_STATE)
      | MRP_VN_STATE \<Rightarrow> (True, False, MRP_SND_NEW, MRP_AN_STATE)
      | MRP_AN_STATE \<Rightarrow> (True, False, MRP_SND_NEW, MRP_QA_STATE)
      | MRP_QP_STATE \<Rightarrow> (True, False, MRP_SND_JOIN, MRP_QA_STATE)
      | MRP_AP_STATE \<Rightarrow> (True, False, MRP_SND_JOIN, MRP_QA_STATE)
      | MRP_AA_STATE \<Rightarrow> (True, False, MRP_SND_JOIN, MRP_QA_STATE)
      | MRP_QA_STATE \<Rightarrow> (True, False, MRP_SND_JOIN, st)
      | MRP_LA_STATE \<Rightarrow> (True, True, MRP_SND_IN, MRP_LO_STATE)
      | MRP_AO_STATE \<Rightarrow> (True, True, MRP_SND_IN, MRP_LO_STATE)
      | MRP_QO_STATE \<Rightarrow> (True, True, MRP_SND_IN, MRP_LO_STATE)
      | MRP_LO_STATE \<Rightarrow> (True, True, MRP_SND_IN, st)
      | _ \<Rightarrow> (False, False, MRP_SND_NULL, st))"

definition applicant_txlaf :: "mrp_state \<Rightarrow> mrp_state" where
  "applicant_txlaf st =
     (case st of
        MRP_VO_STATE \<Rightarrow> MRP_LO_STATE
      | MRP_AN_STATE \<Rightarrow> MRP_VN_STATE
      | MRP_QP_STATE \<Rightarrow> MRP_VP_STATE
      | MRP_AP_STATE \<Rightarrow> MRP_VP_STATE
      | MRP_AA_STATE \<Rightarrow> MRP_VP_STATE
      | MRP_QA_STATE \<Rightarrow> MRP_VP_STATE
      | MRP_QO_STATE \<Rightarrow> MRP_LO_STATE
      | MRP_AO_STATE \<Rightarrow> MRP_LO_STATE
      | MRP_LA_STATE \<Rightarrow> MRP_LO_STATE
      | _ \<Rightarrow> st)"

definition applicant_tx :: "mrp_state \<Rightarrow> bool \<Rightarrow> tx_result" where
  "applicant_tx st registrar_is_IN =
     (case st of
        MRP_VO_STATE \<Rightarrow> (True, True, MRP_SND_IN, st)
      | MRP_VP_STATE \<Rightarrow> (True, False, MRP_SND_JOIN, MRP_AA_STATE)
      | MRP_VN_STATE \<Rightarrow> (True, False, MRP_SND_NEW, MRP_AN_STATE)
      | MRP_AN_STATE \<Rightarrow> (True, False, MRP_SND_NEW, if registrar_is_IN then MRP_QA_STATE else MRP_AA_STATE)
      | MRP_AP_STATE \<Rightarrow> (True, False, MRP_SND_JOIN, MRP_QA_STATE)
      | MRP_AA_STATE \<Rightarrow> (True, False, MRP_SND_JOIN, MRP_QA_STATE)
      | MRP_QA_STATE \<Rightarrow> (True, True, MRP_SND_JOIN, st)
      | MRP_LA_STATE \<Rightarrow> (True, False, MRP_SND_LV, MRP_VO_STATE)
      | MRP_AO_STATE \<Rightarrow> (True, True, MRP_SND_IN, st)
      | MRP_QO_STATE \<Rightarrow> (True, True, MRP_SND_IN, st)
      | MRP_QP_STATE \<Rightarrow> (True, True, MRP_SND_IN, st)
      | MRP_LO_STATE \<Rightarrow> (True, False, MRP_SND_IN, MRP_VO_STATE)
      | _ \<Rightarrow> (False, False, MRP_SND_NULL, st))"

definition applicant_rjoinin :: "int \<Rightarrow> mrp_state \<Rightarrow> mrp_state" where
  "applicant_rjoinin p2pmac st =
     (case st of
        MRP_VO_STATE \<Rightarrow> if p2pmac = 0 then MRP_AO_STATE else st
      | MRP_VP_STATE \<Rightarrow> if p2pmac = 0 then MRP_AP_STATE else st
      | MRP_AA_STATE \<Rightarrow> MRP_QA_STATE
      | MRP_AO_STATE \<Rightarrow> MRP_QO_STATE
      | MRP_AP_STATE \<Rightarrow> MRP_QP_STATE
      | _ \<Rightarrow> st)"

definition applicant_rin :: "int \<Rightarrow> mrp_state \<Rightarrow> mrp_state" where
  "applicant_rin p2pmac st = (case st of MRP_AA_STATE \<Rightarrow> if p2pmac = 1 then MRP_QA_STATE else st | _ \<Rightarrow> st)"

definition applicant_rmt :: "mrp_state \<Rightarrow> mrp_state" where
  "applicant_rmt st =
     (case st of
        MRP_QA_STATE \<Rightarrow> MRP_AA_STATE
      | MRP_QO_STATE \<Rightarrow> MRP_AO_STATE
      | MRP_QP_STATE \<Rightarrow> MRP_AP_STATE
      | MRP_LO_STATE \<Rightarrow> MRP_VO_STATE
      | _ \<Rightarrow> st)"

definition applicant_rlv :: "mrp_state \<Rightarrow> mrp_state" where
  "applicant_rlv st =
     (case st of
        MRP_VO_STATE \<Rightarrow> MRP_LO_STATE
      | MRP_AN_STATE \<Rightarrow> MRP_VN_STATE
      | MRP_QA_STATE \<Rightarrow> MRP_VP_STATE
      | MRP_AA_STATE \<Rightarrow> MRP_VP_STATE
      | MRP_AO_STATE \<Rightarrow> MRP_LO_STATE
      | MRP_QO_STATE \<Rightarrow> MRP_LO_STATE
      | MRP_AP_STATE \<Rightarrow> MRP_VP_STATE
      | MRP_QP_STATE \<Rightarrow> MRP_VP_STATE
      | _ \<Rightarrow> st)"

definition applicant_periodic :: "mrp_state \<Rightarrow> mrp_state" where
  "applicant_periodic st = (case st of MRP_QA_STATE \<Rightarrow> MRP_AA_STATE | MRP_QP_STATE \<Rightarrow> MRP_AP_STATE | _ \<Rightarrow> st)"

text \<open>The outcome of the switch; \<open>None\<close> for an unexpected event.\<close>

definition applicant_switch :: "int \<Rightarrow> mrp_state \<Rightarrow> mrp_event \<Rightarrow> bool \<Rightarrow> tx_result option" where
  "applicant_switch p2pmac st event registrar_is_IN =
     (let silent = (\<lambda>st'. Some (False, False, MRP_SND_NULL, st')) in
      case event of
        MRP_EVENT_BEGIN \<Rightarrow> silent MRP_VO_STATE
      | MRP_EVENT_NEW \<Rightarrow> silent (applicant_new st)
      | MRP_EVENT_JOIN \<Rightarrow> silent (applicant_join st)
      | MRP_EVENT_LV \<Rightarrow> silent (applicant_lv st)
      | MRP_EVENT_TXLA \<Rightarrow> Some (applicant_txla st)
      | MRP_EVENT_TXLAF \<Rightarrow> silent (applicant_txlaf st)
      | MRP_EVENT_TX \<Rightarrow> Some (applicant_tx st registrar_is_IN)
      | MRP_EVENT_RNEW \<Rightarrow> silent st
      | MRP_EVENT_RJOININ \<Rightarrow> silent (applicant_rjoinin p2pmac st)
      | MRP_EVENT_RIN \<Rightarrow> silent (applicant_rin p2pmac st)
      | MRP_EVENT_RJOINMT \<Rightarrow> silent (applicant_rmt st)
      | MRP_EVENT_RMT \<Rightarrow> silent (applicant_rmt st)
      | MRP_EVENT_RLV \<Rightarrow> silent (applicant_rlv st)
      | MRP_EVENT_RLA \<Rightarrow> silent (applicant_rlv st)
      | MRP_EVENT_REDECLARE \<Rightarrow> silent (applicant_rlv st)
      | MRP_EVENT_PERIODIC \<Rightarrow> silent (applicant_periodic st)
      | _ \<Rightarrow> None)"

definition mrp_applicant_fsm ::
  "int \<Rightarrow> mrp_applicant_attribute \<Rightarrow> mrp_event \<Rightarrow> bool \<Rightarrow> int \<times> mrp_applicant_attribute" where
  "mrp_applicant_fsm p2pmac attrib event registrar_is_IN =
     (case applicant_switch p2pmac (a_state attrib) event registrar_is_IN of
        None \<Rightarrow> (-1, attrib)
      | Some (tx, optional, sndmsg, st) \<Rightarrow>
          (0, attrib\<lparr>a_previous := Some (a_state attrib), a_tx := tx, a_state := st, a_sndmsg := sndmsg,
                a_encode := if optional then MRP_ENCODE_OPTIONAL else MRP_ENCODE_YES\<rparr>))"

definition mrp_applicant_state_transition_implies_tx :: "mrp_applicant_attribute \<Rightarrow> nat" where
  "mrp_applicant_state_transition_implies_tx attrib =
     (if a_previous attrib = Some (a_state attrib) then 0
      else (case a_state attrib of
              MRP_VP_STATE \<Rightarrow> 1 | MRP_VN_STATE \<Rightarrow> 1 | MRP_AN_STATE \<Rightarrow> 1 | MRP_AA_STATE \<Rightarrow> 1 | MRP_LA_STATE \<Rightarrow> 1
            | _ \<Rightarrow> 0))"

section \<open>The registrar\<close>

definition registrar_leave :: "mrp_state \<Rightarrow> mrp_database \<Rightarrow> mrp_state \<times> mrp_database" where
  "registrar_leave st db = (if st = MRP_IN_STATE then (MRP_LV_STATE, snd (mrp_lvtimer_start db)) else (st, db))"

text \<open>The outcome of the switch: notification, state and database.\<close>

definition registrar_switch :: "mrp_state \<Rightarrow> mrp_database \<Rightarrow> mrp_event \<Rightarrow> (mrp_notify \<times> mrp_state \<times> mrp_database) option" where
  "registrar_switch st db event =
     (case event of
        MRP_EVENT_BEGIN \<Rightarrow> Some (MRP_NOTIFY_NONE, MRP_MT_STATE, db)
      | MRP_EVENT_RLV \<Rightarrow> Some (MRP_NOTIFY_LV, registrar_leave st db)
      | MRP_EVENT_TXLA \<Rightarrow> Some (MRP_NOTIFY_NONE, registrar_leave st db)
      | MRP_EVENT_RLA \<Rightarrow> Some (MRP_NOTIFY_NONE, registrar_leave st db)
      | MRP_EVENT_REDECLARE \<Rightarrow> Some (MRP_NOTIFY_NONE, registrar_leave st db)
      | MRP_EVENT_RNEW \<Rightarrow>
          Some (MRP_NOTIFY_NEW,
            (case st of MRP_MT_STATE \<Rightarrow> MRP_IN_STATE | MRP_IN_STATE \<Rightarrow> MRP_IN_STATE | MRP_LV_STATE \<Rightarrow> MRP_IN_STATE | _ \<Rightarrow> st), db)
      | MRP_EVENT_RJOININ \<Rightarrow>
          Some (case st of
                  MRP_MT_STATE \<Rightarrow> (MRP_NOTIFY_JOIN, MRP_IN_STATE, db)
                | MRP_IN_STATE \<Rightarrow> (MRP_NOTIFY_NONE, MRP_IN_STATE, db)
                | MRP_LV_STATE \<Rightarrow> (MRP_NOTIFY_JOIN, MRP_IN_STATE, db)
                | _ \<Rightarrow> (MRP_NOTIFY_NONE, st, db))
      | MRP_EVENT_RJOINMT \<Rightarrow>
          Some (case st of
                  MRP_MT_STATE \<Rightarrow> (MRP_NOTIFY_JOIN, MRP_IN_STATE, db)
                | MRP_IN_STATE \<Rightarrow> (MRP_NOTIFY_NONE, MRP_IN_STATE, db)
                | MRP_LV_STATE \<Rightarrow> (MRP_NOTIFY_JOIN, MRP_IN_STATE, db)
                | _ \<Rightarrow> (MRP_NOTIFY_NONE, st, db))
      | MRP_EVENT_LVTIMER \<Rightarrow>
          Some (case st of MRP_LV_STATE \<Rightarrow> (MRP_NOTIFY_LV, MRP_MT_STATE, db) | _ \<Rightarrow> (MRP_NOTIFY_NONE, st, db))
      | MRP_EVENT_FLUSH \<Rightarrow>
          Some (MRP_NOTIFY_LV,
            (case st of MRP_LV_STATE \<Rightarrow> MRP_MT_STATE | MRP_MT_STATE \<Rightarrow> MRP_MT_STATE | MRP_IN_STATE \<Rightarrow> MRP_MT_STATE | _ \<Rightarrow> st), db)
      | MRP_EVENT_RMT \<Rightarrow> Some (MRP_NOTIFY_NONE, st, db)
      | MRP_EVENT_RIN \<Rightarrow> Some (MRP_NOTIFY_NONE, st, db)
      | _ \<Rightarrow> None)"

definition mrp_registrar_fsm ::
  "mrp_registrar_attribute \<Rightarrow> mrp_database \<Rightarrow> mrp_event \<Rightarrow> int \<times> mrp_registrar_attribute \<times> mrp_database" where
  "mrp_registrar_fsm attrib db event =
     (case registrar_switch (r_state attrib) db event of
        None \<Rightarrow> (-1, attrib, db)
      | Some (ntf, st, db) \<Rightarrow> (0, attrib\<lparr>r_state := st, r_notify := ntf\<rparr>, db))"

definition mrp_registrar_in :: "mrp_registrar_attribute \<Rightarrow> bool" where
  "mrp_registrar_in attrib = (r_state attrib = MRP_IN_STATE)"

section \<open>Reporting\<close>

text \<open>The number of a state, printed for an attribute in an unexpected state.\<close>

fun state_number :: "mrp_state \<Rightarrow> string" where
  "state_number MRP_VO_STATE = ''0''"
| "state_number MRP_VP_STATE = ''1''"
| "state_number MRP_VN_STATE = ''2''"
| "state_number MRP_AN_STATE = ''3''"
| "state_number MRP_AA_STATE = ''4''"
| "state_number MRP_QA_STATE = ''5''"
| "state_number MRP_LA_STATE = ''6''"
| "state_number MRP_AO_STATE = ''7''"
| "state_number MRP_QO_STATE = ''8''"
| "state_number MRP_AP_STATE = ''9''"
| "state_number MRP_QP_STATE = ''10''"
| "state_number MRP_LO_STATE = ''11''"
| "state_number MRP_IN_STATE = ''16''"
| "state_number MRP_LV_STATE = ''17''"
| "state_number MRP_MT_STATE = ''18''"

text \<open>\<open>snprintf\<close> into a buffer of \<open>n\<close> bytes keeps \<open>n - 1\<close> characters.\<close>

definition snprintf :: "nat \<Rightarrow> string \<Rightarrow> string" where
  "snprintf n s = take (n - 1) s"

definition mrp_decode_state :: "mrp_registrar_attribute \<Rightarrow> mrp_applicant_attribute \<Rightarrow> nat \<Rightarrow> string" where
  "mrp_decode_state rattrib aattrib strlen =
     (let reg_stat = snprintf 7 (case r_state rattrib of
            MRP_IN_STATE \<Rightarrow> ''IN'' | MRP_LV_STATE \<Rightarrow> ''LV'' | MRP_MT_STATE \<Rightarrow> ''MT'' | st \<Rightarrow> state_number st)
      in snprintf (strlen - 1) ((case a_state aattrib of
            MRP_VO_STATE \<Rightarrow> ''VO'' | MRP_VP_STATE \<Rightarrow> ''VP'' | MRP_VN_STATE \<Rightarrow> ''VN'' | MRP_AN_STATE \<Rightarrow> ''AN''
          | MRP_AA_STATE \<Rightarrow> ''AA'' | MRP_QA_STATE \<Rightarrow> ''QA'' | MRP_LA_STATE \<Rightarrow> ''LA'' | MRP_AO_STATE \<Rightarrow> ''AO''
          | MRP_QO_STATE \<Rightarrow> ''QO'' | MRP_AP_STATE \<Rightarrow> ''AP'' | MRP_QP_STATE \<Rightarrow> ''QP'' | MRP_LO_STATE \<Rightarrow> ''LO''
          | st \<Rightarrow> state_number st) @ ''/'' @ reg_stat))"

definition MRP_DEFAULT_POINT_TO_POINT_MAC :: int where "MRP_DEFAULT_POINT_TO_POINT_MAC = 1"

definition mrp_init :: "int \<times> nat" where
  "mrp_init = (MRP_DEFAULT_POINT_TO_POINT_MAC, MRP_LVATIMER_VAL)"

end
