(* ===== verification/Mrp_Application.thy ===== *)
theory Mrp_Application
  imports Mrp Parse
begin

text \<open>
  What the applications of the multiple registration protocol share, \<open>mrpd/mrp.h\<close>, \<open>mrpd/mrpd.c\<close> and
  the parts that \<open>mvrp.c\<close>, \<open>mmrp.c\<close> and \<open>msrp.c\<close> have in common: the state of an application, the passes
  over its list of attributes, the notifications of the clients, and the coding of events in frames.
  The doubly linked list of attributes is a list, the frames and control messages that are sent are
  recorded in order, and an oracle answers \<open>malloc\<close> and \<open>send\<close>.
\<close>

section \<open>Data\<close>

text \<open>An application extends the attribute with its value.\<close>

record mrp_attribute =
  applicant :: mrp_applicant_attribute
  registrar :: mrp_registrar_attribute

text \<open>
  Behind the first three fields: the global \<open>p2pmac\<close> and \<open>STATION_ADDR\<close>, the frames handed to
  the socket and the answers of \<open>send\<close>, the control messages, and the answers of \<open>malloc\<close>.
\<close>

record 'a mrp_application =
  mrp_db :: mrp_database
  attrib_list :: "'a list"
  send_empty_LeaveAll_flag :: bool
  p2pmac :: int
  station :: "u8 list"
  frames :: "u8 list list"
  send_rc :: "nat \<Rightarrow> int"
  ctl :: "(sockaddr_in \<times> string) list"
  mem_ok :: "nat \<Rightarrow> bool"
  mem_pos :: nat

type_synonym ('a, 'z) app = "('a, 'z) mrp_application_scheme"
type_synonym 'v attrib = "'v mrp_attribute_scheme"

definition MAX_FRAME_SIZE :: nat where "MAX_FRAME_SIZE = 2000"
definition MAX_MRPD_CMDSZ :: nat where "MAX_MRPD_CMDSZ = 1500"
definition MRPDU_ENDMARK_SZ :: nat where "MRPDU_ENDMARK_SZ = 2"

datatype mrpdu_event = MRPDU_NEW | MRPDU_JOININ | MRPDU_IN | MRPDU_JOINMT | MRPDU_MT | MRPDU_LV

fun mrpdu_code :: "mrpdu_event \<Rightarrow> nat" where
  "mrpdu_code MRPDU_NEW = 0"
| "mrpdu_code MRPDU_JOININ = 1"
| "mrpdu_code MRPDU_IN = 2"
| "mrpdu_code MRPDU_JOINMT = 3"
| "mrpdu_code MRPDU_MT = 4"
| "mrpdu_code MRPDU_LV = 5"

definition mrpd_malloc :: "('a, 'z) app \<Rightarrow> bool \<times> ('a, 'z) app" where
  "mrpd_malloc s = (mem_ok s (mem_pos s), s\<lparr>mem_pos := Suc (mem_pos s)\<rparr>)"

text \<open>The machines of a new attribute.\<close>

definition new_applicant :: mrp_applicant_attribute where
  "new_applicant =
     \<lparr>a_state = MRP_VO_STATE, a_tx = False, a_sndmsg = MRP_SND_NULL, a_encode = MRP_ENCODE_OPTIONAL, a_previous = None\<rparr>"

definition new_registrar :: mrp_registrar_attribute where
  "new_registrar = \<lparr>r_state = MRP_MT_STATE, r_notify = MRP_NOTIFY_NONE, r_macaddr = replicate 6 0, r_previous = None\<rparr>"

text \<open>What \<open>memset\<close> and the initialisation leave in the part of a database that the applications share.\<close>

definition reset_application :: "('a, 'z) app \<Rightarrow> ('a, 'z) app" where
  "reset_application s =
     s\<lparr>attrib_list := [], send_empty_LeaveAll_flag := False,
       mrp_db := (mrp_db s)\<lparr>lva := \<lparr>t_state = MRP_TIMER_PASSIVE, t_tx = False, t_sndmsg = MRP_SND_NEW\<rparr>,
         join_timer_running := False, lv_timer_running := False, lva_timer_running := False, clients := [],
         registration := 0, participant := 0\<rparr>\<rparr>"

section \<open>Identifiers\<close>

fun memcmp_less :: "u8 list \<Rightarrow> u8 list \<Rightarrow> bool" where
  "memcmp_less (x # xs) (y # ys) = (x < y \<or> x = y \<and> memcmp_less xs ys)"
| "memcmp_less _ _ = False"

text \<open>An identifier is incremented from its last byte; its first byte never changes.\<close>

fun increment_at :: "nat \<Rightarrow> u8 list \<Rightarrow> u8 list" where
  "increment_at 0 bs = bs"
| "increment_at (Suc i) bs =
     (if 255 \<noteq> bs ! Suc i then bs[Suc i := bs ! Suc i + 1] else increment_at i (bs[Suc i := 0]))"

definition mmrp_increment_macaddr :: "u8 list \<Rightarrow> u8 list" where
  "mmrp_increment_macaddr = increment_at 5"

section \<open>Notifications and reclaiming\<close>

definition newline :: string where "newline = [CHR 0x0A]"

definition hex_bytes :: "u8 list \<Rightarrow> string" where
  "hex_bytes bs = concat (map hex_byte bs)"

text \<open>
  The control message for a client: the letter of the application and the kind of the change, the text of the
  attribute, \<open>R=\<close> with six times \<open>%02x\<close>, and the states.
\<close>

definition source_text :: "'v attrib \<Rightarrow> string" where
  "source_text a = ''R='' @ concat (map hex_byte (take 6 (r_macaddr (registrar a))))"

definition notification_text :: "char \<Rightarrow> ('v attrib \<Rightarrow> string) \<Rightarrow> string \<Rightarrow> 'v attrib \<Rightarrow> string" where
  "notification_text letter text code a =
     snprintf (MAX_MRPD_CMDSZ - 1)
       (letter # code @ '' '' @ text a @ '' '' @ source_text a @ '' '' @ mrp_decode_state (registrar a) (applicant a) 8 @ newline)"

definition send_notifications ::
  "char \<Rightarrow> ('v attrib \<Rightarrow> string) \<Rightarrow> ('v attrib, 'z) app \<Rightarrow> 'v attrib \<Rightarrow> mrp_notify \<Rightarrow> int \<times> ('v attrib, 'z) app" where
  "send_notifications letter text s a ntf =
     (let (m1, s) = mrpd_malloc s in
      if \<not> m1 then (-1, s)
      else
        let (m2, s) = mrpd_malloc s; (m3, s) = mrpd_malloc s in
        if \<not> m2 \<or> \<not> m3 then (0, s)
        else
          let send = (\<lambda>code. (0, s\<lparr>ctl := ctl s @ map (\<lambda>c. (c, notification_text letter text code a)) (clients (mrp_db s))\<rparr>))
          in (case ntf of
                MRP_NOTIFY_NEW \<Rightarrow> send ''NE''
              | MRP_NOTIFY_JOIN \<Rightarrow> send ''JO''
              | MRP_NOTIFY_LV \<Rightarrow> send ''LE''
              | MRP_NOTIFY_NONE \<Rightarrow> (0, s)))"

definition reclaimable :: "'v attrib \<Rightarrow> bool" where
  "reclaimable a \<longleftrightarrow> r_state (registrar a) = MRP_MT_STATE \<and>
     (a_state (applicant a) = MRP_VO_STATE \<or> a_state (applicant a) = MRP_AO_STATE \<or> a_state (applicant a) = MRP_QO_STATE)"

text \<open>The attribute of the list, or nothing if it is freed.\<close>

definition conditional_reclaim ::
  "char \<Rightarrow> ('v attrib \<Rightarrow> string) \<Rightarrow> 'v attrib \<Rightarrow> ('v attrib, 'z) app \<Rightarrow> 'v attrib list \<times> ('v attrib, 'z) app" where
  "conditional_reclaim letter text a s =
     (if reclaimable a then ([], snd (send_notifications letter text s a MRP_NOTIFY_LV)) else ([a], s))"

definition notify_attribute ::
  "char \<Rightarrow> ('v attrib \<Rightarrow> string) \<Rightarrow> 'v attrib \<Rightarrow> ('v attrib, 'z) app \<Rightarrow> 'v attrib list \<times> ('v attrib, 'z) app" where
  "notify_attribute letter text a s =
     (if r_notify (registrar a) \<noteq> MRP_NOTIFY_NONE
      then ([a\<lparr>registrar := (registrar a)\<lparr>r_notify := MRP_NOTIFY_NONE\<rparr>\<rparr>],
        snd (send_notifications letter text s a (r_notify (registrar a))))
      else ([a], s))"

section \<open>Passes over the list\<close>

text \<open>The body of a loop over the list yields the attributes that replace the visited one.\<close>

type_synonym ('a, 'z) pass = "'a \<Rightarrow> ('a, 'z) app \<Rightarrow> 'a list \<times> ('a, 'z) app"

fun for_attributes :: "('a, 'z) pass \<Rightarrow> 'a list \<Rightarrow> ('a, 'z) app \<Rightarrow> 'a list \<times> ('a, 'z) app" where
  "for_attributes body [] s = ([], s)"
| "for_attributes body (a # as) s =
     (let (xs, s) = body a s; (ys, s) = for_attributes body as s in (xs @ ys, s))"

definition over_list :: "('a, 'z) pass \<Rightarrow> ('a, 'z) app \<Rightarrow> ('a, 'z) app" where
  "over_list body s = (let (as, s) = for_attributes body (attrib_list s) s in s\<lparr>attrib_list := as\<rparr>)"

text \<open>The first attribute with a property, which a lookup returns, is replaced by what the body yields.\<close>

fun at_first :: "('a \<Rightarrow> bool) \<Rightarrow> ('a, 'z) pass \<Rightarrow> 'a list \<Rightarrow> ('a, 'z) app \<Rightarrow> 'a list \<times> ('a, 'z) app" where
  "at_first P body [] s = ([], s)"
| "at_first P body (a # as) s =
     (if P a then (case body a s of (xs, s) \<Rightarrow> (xs @ as, s))
      else (case at_first P body as s of (ys, s) \<Rightarrow> (a # ys, s)))"

fun update_first :: "('a \<Rightarrow> bool) \<Rightarrow> ('a \<Rightarrow> 'a) \<Rightarrow> 'a list \<Rightarrow> 'a list" where
  "update_first P f [] = []"
| "update_first P f (a # as) = (if P a then f a # as else a # update_first P f as)"

section \<open>Machines\<close>

definition applicant_step :: "mrp_event \<Rightarrow> 'v attrib \<Rightarrow> ('a, 'z) app \<Rightarrow> 'v attrib" where
  "applicant_step e a s =
     a\<lparr>applicant := snd (mrp_applicant_fsm (p2pmac s) (applicant a) e (mrp_registrar_in (registrar a)))\<rparr>"

definition registrar_step :: "mrp_event \<Rightarrow> 'v attrib \<Rightarrow> ('a, 'z) app \<Rightarrow> 'v attrib \<times> ('a, 'z) app" where
  "registrar_step e a s =
     (case mrp_registrar_fsm (registrar a) (mrp_db s) e of (rc, r, db) \<Rightarrow> (a\<lparr>registrar := r\<rparr>, s\<lparr>mrp_db := db\<rparr>))"

definition both_step :: "mrp_event \<Rightarrow> ('v attrib, 'z) pass" where
  "both_step e a s = (case registrar_step e (applicant_step e a s) s of (a, s) \<Rightarrow> ([a], s))"

definition on_db :: "(mrp_database \<Rightarrow> int \<times> mrp_database) \<Rightarrow> ('a, 'z) app \<Rightarrow> ('a, 'z) app" where
  "on_db f s = s\<lparr>mrp_db := snd (f (mrp_db s))\<rparr>"

text \<open>Both machines of one attribute; a local request is mapped to an event of the registrar.\<close>

definition attribute_step :: "mrp_event \<Rightarrow> 'v attrib \<Rightarrow> ('a, 'z) app \<Rightarrow> 'v attrib \<times> ('a, 'z) app" where
  "attribute_step e a s =
     (let a = applicant_step e a s in
      case e of
        MRP_EVENT_NEW \<Rightarrow>
          (case registrar_step MRP_EVENT_BEGIN a s of (a, s) \<Rightarrow> (a\<lparr>registrar := (registrar a)\<lparr>r_notify := MRP_NOTIFY_NEW\<rparr>\<rparr>, s))
      | MRP_EVENT_JOIN \<Rightarrow>
          registrar_step (if r_state (registrar a) = MRP_IN_STATE then MRP_EVENT_RJOININ else MRP_EVENT_RJOINMT) a s
      | MRP_EVENT_LV \<Rightarrow> registrar_step MRP_EVENT_RLV a s
      | _ \<Rightarrow> registrar_step e a s)"

section \<open>Encoding events\<close>

text \<open>The event that is sent for an attribute; \<open>None\<close> for a message that cannot be sent.\<close>

definition pdu_event :: "'v attrib \<Rightarrow> mrpdu_event option" where
  "pdu_event a =
     (case a_sndmsg (applicant a) of
        MRP_SND_IN \<Rightarrow> Some (if r_state (registrar a) = MRP_IN_STATE then MRPDU_IN else MRPDU_MT)
      | MRP_SND_NEW \<Rightarrow> Some MRPDU_NEW
      | MRP_SND_LV \<Rightarrow> Some MRPDU_LV
      | MRP_SND_JOIN \<Rightarrow> Some (if r_state (registrar a) = MRP_IN_STATE then MRPDU_JOININ else MRPDU_JOINMT)
      | _ \<Rightarrow> None)"

definition MRPDU_3PACK_ENCODE :: "nat \<Rightarrow> nat \<Rightarrow> nat \<Rightarrow> u8" where
  "MRPDU_3PACK_ENCODE x y z = of_nat ((x * 6 + y) * 6 + z)"

definition pack3 :: "nat list \<Rightarrow> u8" where
  "pack3 evs = MRPDU_3PACK_ENCODE (evs ! 0) (if 1 < length evs then evs ! 1 else 0) (if 2 < length evs then evs ! 2 else 0)"

definition clear_tx :: "'v attrib \<Rightarrow> 'v attrib" where
  "clear_tx a = a\<lparr>applicant := (applicant a)\<lparr>a_tx := False\<rparr>\<rparr>"

definition vector_header :: "nat \<Rightarrow> bool \<Rightarrow> u8 list" where
  "vector_header n l = bytes_be 2 ((of_nat n AND 0x1FFF) OR (if l then 0x2000 else 0) :: u16)"

section \<open>Decoding events\<close>

text \<open>Reading the receive buffer: \<open>None\<close> for a read behind its end.\<close>

definition rd :: "u8 list \<Rightarrow> nat \<Rightarrow> u8 option" where
  "rd buf i = (if i < length buf then Some (buf ! i) else None)"

definition rds :: "u8 list \<Rightarrow> nat \<Rightarrow> nat \<Rightarrow> u8 list option" where
  "rds buf i n = (if i + n \<le> length buf then Some (take n (drop i buf)) else None)"

definition unpack3 :: "u8 \<Rightarrow> nat list" where
  "unpack3 b = (let n = unat b; x = n div 36; y = (n - x * 36) div 6 in [x, y, n - 36 * x - 6 * y])"

text \<open>The event for a received code; \<open>None\<close> for an unknown code.\<close>

definition rx_event :: "nat \<Rightarrow> mrp_event option" where
  "rx_event c =
     (if c = mrpdu_code MRPDU_NEW then Some MRP_EVENT_RNEW
      else if c = mrpdu_code MRPDU_JOININ then Some MRP_EVENT_RJOININ
      else if c = mrpdu_code MRPDU_IN then Some MRP_EVENT_RIN
      else if c = mrpdu_code MRPDU_JOINMT then Some MRP_EVENT_RJOINMT
      else if c = mrpdu_code MRPDU_MT then Some MRP_EVENT_RMT
      else if c = mrpdu_code MRPDU_LV then Some MRP_EVENT_RLV
      else None)"

definition MRPDU_VECT_NUMVALUES :: "u16 \<Rightarrow> nat" where "MRPDU_VECT_NUMVALUES x = unat (x AND 0x1FFF)"
definition MRPDU_VECT_LVA :: "u16 \<Rightarrow> bool" where "MRPDU_VECT_LVA x = (x AND 0xE000 = 0x2000)"

text \<open>The number of bytes that hold \<open>n\<close> events.\<close>

definition vector_bytes :: "nat \<Rightarrow> nat" where
  "vector_bytes n = (if n \<noteq> n div 3 * 3 then n div 3 + 1 else n div 3)"

section \<open>Clients\<close>

text \<open>The text of a C string, which must be terminated within its buffer.\<close>

definition c_string :: "string \<Rightarrow> string option" where
  "c_string buf = (if CHR 0x00 \<in> set buf then Some (takeWhile (\<lambda>c. c \<noteq> CHR 0x00) buf) else None)"

text \<open>An answer to the client is formatted into an array of characters, of which the last is not used.\<close>

definition respond :: "nat \<Rightarrow> string \<Rightarrow> string \<Rightarrow> string list option" where
  "respond n code buf = do { t \<leftarrow> c_string buf; Some [snprintf n (code @ t)] }"

definition add_client :: "('a, 'z) app \<Rightarrow> sockaddr_in \<Rightarrow> ('a, 'z) app" where
  "add_client s c =
     (let (mem, s) = (if client_lookup (clients (mrp_db s)) c then (True, s) else mrpd_malloc s)
      in s\<lparr>mrp_db := (mrp_db s)\<lparr>clients := snd (mrp_client_add mem (clients (mrp_db s)) (Some c))\<rparr>\<rparr>)"

definition drop_client :: "('a, 'z) app \<Rightarrow> sockaddr_in \<Rightarrow> ('a, 'z) app" where
  "drop_client s c = s\<lparr>mrp_db := (mrp_db s)\<lparr>clients := snd (mrp_client_delete (clients (mrp_db s)) (Some c))\<rparr>\<rparr>"

end
