(* ===== verification/Mvrp.thy ===== *)
theory Mvrp
  imports Mrp_Application
begin

text \<open>
  The VLAN registration protocol, \<open>mrpd/mvrp.c\<close>: the sorted list of VLAN
  attributes, the handler of all events, the encoding of the attributes into frames and
  their decoding, and the commands of the control clients.
\<close>

section \<open>Data\<close>

record mvrp_attribute = mrp_attribute +
  attribute :: u16

type_synonym mvrp_database = "mvrp_attribute mrp_application"

definition MVRP_ETYPE :: u16 where "MVRP_ETYPE = 0x88F5"
definition MVRP_PROT_VER :: u8 where "MVRP_PROT_VER = 0x00"
definition MVRP_VID_TYPE :: u8 where "MVRP_VID_TYPE = 1"
definition MVRP_CUSTOMER_BRIDGE_ADDR :: "u8 list" where "MVRP_CUSTOMER_BRIDGE_ADDR = [0x01, 0x80, 0xC2, 0x00, 0x00, 0x21]"
section \<open>The attribute list\<close>

definition mvrp_lookup :: "mvrp_database \<Rightarrow> u16 \<Rightarrow> mvrp_attribute option" where
  "mvrp_lookup s v = find (\<lambda>a. attribute a = v) (attrib_list s)"

fun insert_attribute :: "mvrp_attribute \<Rightarrow> mvrp_attribute list \<Rightarrow> mvrp_attribute list" where
  "insert_attribute r [] = [r]"
| "insert_attribute r (a # as) = (if attribute a < attribute r then a # insert_attribute r as else r # a # as)"

definition mvrp_add :: "mvrp_database \<Rightarrow> mvrp_attribute \<Rightarrow> mvrp_database" where
  "mvrp_add s r = s\<lparr>attrib_list := insert_attribute r (attrib_list s)\<rparr>"

text \<open>Changing the attribute that a lookup returns.\<close>

abbreviation update_attribute :: "u16 \<Rightarrow> (mvrp_attribute \<Rightarrow> mvrp_attribute) \<Rightarrow> mvrp_attribute list \<Rightarrow> mvrp_attribute list" where
  "update_attribute v \<equiv> update_first (\<lambda>a. attribute a = v)"

definition mvrp_merge :: "mvrp_database \<Rightarrow> mvrp_attribute \<Rightarrow> int \<times> mvrp_database" where
  "mvrp_merge s r =
     (case mvrp_lookup s (attribute r) of
        None \<Rightarrow> (-1, s)
      | Some _ \<Rightarrow> (0, s\<lparr>attrib_list := update_attribute (attribute r)
          (\<lambda>a. a\<lparr>registrar := (registrar a)\<lparr>r_macaddr := r_macaddr (registrar r)\<rparr>\<rparr>) (attrib_list s)\<rparr>))"

definition mvrp_alloc :: "mvrp_database \<Rightarrow> mvrp_attribute option \<times> mvrp_database" where
  "mvrp_alloc s =
     (let (ok, s) = mrpd_malloc s in
      (if ok then Some \<lparr>applicant = new_applicant, registrar = new_registrar, attribute = 0\<rparr> else None, s))"

section \<open>Notifications and reclaiming\<close>

text \<open>The field \<open>%04x\<close> of a control message.\<close>

definition attribute_text :: "mvrp_attribute \<Rightarrow> string" where
  "attribute_text a = zero_padded 4 (print_base 16 (unat (attribute a)))"

definition mvrp_send_notifications :: "mvrp_database \<Rightarrow> mvrp_attribute \<Rightarrow> mrp_notify \<Rightarrow> int \<times> mvrp_database" where
  "mvrp_send_notifications = send_notifications (CHR ''V'') attribute_text"

definition mvrp_conditional_reclaim :: "mvrp_attribute \<Rightarrow> mvrp_database \<Rightarrow> mvrp_attribute list \<times> mvrp_database" where
  "mvrp_conditional_reclaim = conditional_reclaim (CHR ''V'') attribute_text"

definition mvrp_reclaim :: "mvrp_database option \<Rightarrow> int \<times> mvrp_database option" where
  "mvrp_reclaim db = (0, map_option (over_list mvrp_conditional_reclaim) db)"

section \<open>Encoding\<close>

text \<open>
  The loop that appends the following attributes to a vector that begins at offset \<open>vp\<close>: whether it
  ended without an error, the events not packed yet, the packed bytes, the number of values, and the
  attributes with their flags.
\<close>

fun vector_loop :: "nat \<Rightarrow> nat \<Rightarrow> u16 \<Rightarrow> nat list \<Rightarrow> u8 list \<Rightarrow> nat \<Rightarrow> mvrp_attribute list \<Rightarrow>
    bool \<times> nat list \<times> u8 list \<times> nat \<times> mvrp_attribute list" where
  "vector_loop room vp vid evs packed n [] = (True, evs, packed, n, [])"
| "vector_loop room vp vid evs packed n (a # as) =
     (if \<not> a_tx (applicant a) then (True, evs, packed, n, a # as)
      else let vid = vid + 1 in
        if attribute a \<noteq> vid then (True, evs, packed, n, a # as)
        else (case pdu_event a of
            None \<Rightarrow> (False, evs, packed, n, clear_tx a # as)
          | Some e \<Rightarrow>
              let evs = evs @ [mrpdu_code e];
                  (evs, packed) = (if length evs > 2 then ([], packed @ [pack3 evs]) else (evs, packed))
              in if room < vp + 2 + (2 + length packed) + MRPDU_ENDMARK_SZ then (False, evs, packed, n + 1, clear_tx a # as)
                 else (case vector_loop room vp vid evs packed (n + 1) as of
                         (ok, evs, packed, n, as) \<Rightarrow> (ok, evs, packed, n, clear_tx a # as))))"

lemma length_vector_loop: "vector_loop room vp vid evs packed n as = (ok, evs', packed', n', as') \<Longrightarrow> length as' = length as"
  by (induction room vp vid evs packed n as arbitrary: as' rule: vector_loop.induct)
    (auto simp: Let_def split: if_splits option.splits prod.splits)

text \<open>The loop over all attributes; \<open>found\<close> is \<open>attrib_found_flag\<close>, and the first vector begins behind type and length.\<close>

function emit_loop :: "nat \<Rightarrow> u8 list \<Rightarrow> bool \<Rightarrow> bool \<Rightarrow> mvrp_attribute list \<Rightarrow> bool \<times> u8 list \<times> bool \<times> mvrp_attribute list" where
  "emit_loop room out found l [] = (True, out, found, [])"
| "emit_loop room out found l (a # as) =
     (if \<not> (if found then length out else 0) + 6 + MRPDU_ENDMARK_SZ < room then (True, out, found, a # as)
      else if \<not> a_tx (applicant a) then
        (case emit_loop room out found l as of (ok, out, found, as) \<Rightarrow> (ok, out, found, a # as))
      else if a_encode (applicant a) = MRP_ENCODE_OPTIONAL then
        (case emit_loop room out found l as of (ok, out, found, as) \<Rightarrow> (ok, out, found, clear_tx a # as))
      else (case pdu_event a of
          None \<Rightarrow> (False, out, True, clear_tx a # as)
        | Some e \<Rightarrow>
            (case vector_loop room (length out) (attribute a) [mrpdu_code e] [] 1 as of
               (ok, evs, packed, n, bs) \<Rightarrow>
                 if \<not> ok then (False, out, True, clear_tx a # bs)
                 else let packed = (if evs \<noteq> [] then packed @ [pack3 evs] else packed) in
                   if room < length out + 2 + (2 + length packed) + MRPDU_ENDMARK_SZ then (False, out, True, clear_tx a # bs)
                   else (case emit_loop room (out @ vector_header n l @ bytes_be 2 (attribute a) @ packed) True False bs of
                           (ok, out, found, bs) \<Rightarrow> (ok, out, found, clear_tx a # bs)))))"
  by pat_completeness auto
termination by (relation "measure (\<lambda>(room, out, found, l, as). length as)") (auto dest!: length_vector_loop [OF sym])

text \<open>Return value, bytes written into a buffer of \<open>room\<close> bytes, and the attributes with their flags.\<close>

definition mvrp_emit_vidvectors :: "nat \<Rightarrow> bool \<Rightarrow> bool \<Rightarrow> mvrp_attribute list \<Rightarrow> int \<times> u8 list \<times> mvrp_attribute list" where
  "mvrp_emit_vidvectors room empty_leaveall l as =
     (if room < 6 then (-1, [], as)
      else (case emit_loop room [MVRP_VID_TYPE, 2] False l as of
          (ok, out, found, as) \<Rightarrow>
            if \<not> ok then (-1, [], as)
            else let out = (if \<not> found \<and> empty_leaveall then out @ vector_header 0 True @ [0, 0] else out) in
              if length out = 2 then (0, [], as) else (0, out @ [0, 0], as)))"

text \<open>The Ethernet header takes 14 bytes and the protocol version one.\<close>

definition mvrp_txpdu :: "mvrp_database \<Rightarrow> int \<times> mvrp_database" where
  "mvrp_txpdu s =
     (let (ok, s) = mrpd_malloc s in
      if \<not> ok then (-1, s)
      else
        let l = t_tx (lva (mrp_db s));
            s = (if l then s\<lparr>mrp_db := (mrp_db s)\<lparr>lva := (lva (mrp_db s))\<lparr>t_tx := False\<rparr>\<rparr>\<rparr> else s);
            (rc, bytes, as) = mvrp_emit_vidvectors (MAX_FRAME_SIZE - 15) (send_empty_LeaveAll_flag s) l (attrib_list s);
            s = s\<lparr>attrib_list := as\<rparr>
        in if rc = -1 then (-1, s)
           else if bytes = [] then (-1, s)
           else if \<not> 15 + length bytes + MRPDU_ENDMARK_SZ < MAX_FRAME_SIZE then (-1, s)
           else
             let frame = MVRP_CUSTOMER_BRIDGE_ADDR @ station s @ bytes_be 2 MVRP_ETYPE @ [MVRP_PROT_VER] @ bytes @ [0, 0];
                 sent = send_rc s (length (frames s));
                 s = s\<lparr>frames := frames s @ [frame]\<rparr>
             in (if sent \<le> 0 then -1 else 0, s))"

section \<open>Events\<close>

definition event_lvatimer :: "mvrp_database \<Rightarrow> mvrp_database" where
  "event_lvatimer s =
     (let s = on_db mrp_jointimer_stop (on_db mrp_lvatimer_stop s);
          s = over_list (both_step MRP_EVENT_TXLA) s;
          s = on_db (\<lambda>db. mrp_lvatimer_fsm db MRP_EVENT_LVATIMER) s;
          s = on_db (\<lambda>db. mrp_lvatimer_fsm db MRP_EVENT_TX) (s\<lparr>send_empty_LeaveAll_flag := True\<rparr>);
          s = snd (mvrp_txpdu s)
      in s\<lparr>send_empty_LeaveAll_flag := False\<rparr>)"

definition event_rla :: "mvrp_database \<Rightarrow> mvrp_database" where
  "event_rla s =
     (let s = over_list (both_step MRP_EVENT_RLA) (on_db mrp_jointimer_start s)
      in on_db (\<lambda>db. mrp_lvatimer_fsm db MRP_EVENT_RLA) s)"

definition event_tx :: "mvrp_database \<Rightarrow> mvrp_database" where
  "event_tx s =
     (let s = over_list (\<lambda>a s. ([applicant_step MRP_EVENT_TX a s], s)) (on_db mrp_jointimer_stop s);
          count = sum_list (map (\<lambda>a. mrp_applicant_state_transition_implies_tx (applicant a)) (attrib_list s));
          s = snd (mvrp_txpdu s)
      in if count \<noteq> 0 then on_db mrp_jointimer_start s else s)"

definition event_lvtimer :: "mvrp_database \<Rightarrow> mvrp_database" where
  "event_lvtimer s =
     over_list (\<lambda>a s. case registrar_step MRP_EVENT_LVTIMER a s of (a, s) \<Rightarrow> mvrp_conditional_reclaim a s) (on_db mrp_lvtimer_stop s)"

definition event_periodic :: "mvrp_database \<Rightarrow> mvrp_database" where
  "event_periodic s =
     (let s = (if attrib_list s \<noteq> [] then on_db mrp_jointimer_start s else s)
      in over_list (\<lambda>a s. ([applicant_step MRP_EVENT_PERIODIC a s], s)) s)"

abbreviation at_attribute ::
  "u16 \<Rightarrow> (mvrp_attribute \<Rightarrow> mvrp_database \<Rightarrow> mvrp_attribute list \<times> mvrp_database) \<Rightarrow> mvrp_attribute list \<Rightarrow> mvrp_database \<Rightarrow>
     mvrp_attribute list \<times> mvrp_database" where
  "at_attribute v \<equiv> at_first (\<lambda>a. attribute a = v)"

text \<open>The boolean is false for the return before the notifications.\<close>

definition event_attribute :: "mrp_event \<Rightarrow> mvrp_attribute \<Rightarrow> mvrp_database \<Rightarrow> bool \<times> mvrp_database" where
  "event_attribute e r s =
     (if mvrp_lookup s (attribute r) = None \<and> e = MRP_EVENT_RMT then (False, s)
      else
        let s = (if mvrp_lookup s (attribute r) = None then mvrp_add s r else snd (mvrp_merge s r));
            (as, s) = at_attribute (attribute r)
              (\<lambda>a s. case attribute_step e a s of (a, s) \<Rightarrow> mvrp_conditional_reclaim a s) (attrib_list s) s
        in (True, s\<lparr>attrib_list := as\<rparr>))"

definition notify_step :: "mvrp_attribute \<Rightarrow> mvrp_database \<Rightarrow> mvrp_attribute list \<times> mvrp_database" where
  "notify_step = notify_attribute (CHR ''V'') attribute_text"

definition mvrp_event :: "mvrp_database \<Rightarrow> mrp_event \<Rightarrow> mvrp_attribute option \<Rightarrow> int \<times> mvrp_database" where
  "mvrp_event s event rattrib =
     (let notify = (\<lambda>s. (0, over_list notify_step s)) in
      if event \<in> {MRP_EVENT_NEW, MRP_EVENT_JOIN, MRP_EVENT_RNEW, MRP_EVENT_RJOININ, MRP_EVENT_RJOINMT, MRP_EVENT_LV, MRP_EVENT_RIN,
          MRP_EVENT_RMT, MRP_EVENT_RLV} then
        let s = on_db mrp_jointimer_start s in
        (case rattrib of
           None \<Rightarrow> (-1, s)
         | Some r \<Rightarrow> (case event_attribute event r s of (go, s) \<Rightarrow> if go then notify s else (0, s)))
      else notify (case event of
          MRP_EVENT_LVATIMER \<Rightarrow> event_lvatimer s
        | MRP_EVENT_RLA \<Rightarrow> event_rla s
        | MRP_EVENT_TX \<Rightarrow> event_tx s
        | MRP_EVENT_LVTIMER \<Rightarrow> event_lvtimer s
        | MRP_EVENT_PERIODIC \<Rightarrow> event_periodic s
        | _ \<Rightarrow> s))"

section \<open>Receiving\<close>

text \<open>
  The loop over the events of one byte; the boolean is false for the jump to the error exit.
  A VID of more than twelve bits is passed over and not incremented.
\<close>

fun rx_values :: "u8 list \<Rightarrow> nat list \<Rightarrow> u16 \<Rightarrow> mvrp_database \<Rightarrow> bool \<times> u16 \<times> mvrp_database" where
  "rx_values src [] vid s = (True, vid, s)"
| "rx_values src (c # cs) vid s =
     (if 0xFFF < vid then rx_values src cs vid s
      else (case mvrp_alloc s of
          (None, s) \<Rightarrow> (False, vid, s)
        | (Some a, s) \<Rightarrow>
            let a = a\<lparr>attribute := vid, registrar := (registrar a)\<lparr>r_macaddr := src\<rparr>\<rparr>;
                s = (case rx_event c of None \<Rightarrow> s | Some e \<Rightarrow> snd (mvrp_event s e (Some a)))
            in rx_values src cs (vid + 1) s))"

text \<open>The loop over the bytes of a vector, with \<open>k\<close> rounds to go and \<open>n\<close> values left.\<close>

fun rx_bytes :: "u8 list \<Rightarrow> u8 list \<Rightarrow> nat \<Rightarrow> nat \<Rightarrow> nat \<Rightarrow> u16 \<Rightarrow> mvrp_database \<Rightarrow> (bool \<times> mvrp_database) option" where
  "rx_bytes buf src i 0 n vid s = Some (True, s)"
| "rx_bytes buf src i (Suc k) n vid s = do {
     b \<leftarrow> rd buf i;
     let m = (if n > 3 then 3 else n);
     case rx_values src (take m (unpack3 b)) vid s of (ok, vid, s) \<Rightarrow>
       if \<not> ok then Some (False, s) else rx_bytes buf src (Suc i) k (n - m) vid s }"

text \<open>One vector: the number of its event bytes, or \<open>None\<close> for a malformed one; and \<open>saw_vlan_lva\<close>.\<close>

definition rx_vector :: "u8 list \<Rightarrow> nat \<Rightarrow> u8 list \<Rightarrow> nat \<Rightarrow> bool \<Rightarrow> mvrp_database \<Rightarrow> (nat option \<times> bool \<times> mvrp_database) option" where
  "rx_vector buf eof src vp saw s = do {
     h0 \<leftarrow> rd buf vp;
     h1 \<leftarrow> rd buf (vp + 1);
     let hdr = word_be [h0, h1];
     let n = MRPDU_VECT_NUMVALUES hdr;
     let (saw, s) = (if MRPDU_VECT_LVA hdr \<and> \<not> saw then (True, snd (mvrp_event s MRP_EVENT_RLA None)) else (saw, s));
     if n = 0 \<or> eof \<le> vp + 2 + n div 3 then Some (None, saw, s)
     else do {
       f0 \<leftarrow> rd buf (vp + 2);
       f1 \<leftarrow> rd buf (vp + 3);
       (ok, s) \<leftarrow> rx_bytes buf src (vp + 4) (vector_bytes n + 1) n (word_be [f0, f1]) s;
       Some (if ok then Some (vector_bytes n) else None, saw, s) } }"

text \<open>The loop over the vectors of a message: the position of its end mark, \<open>None\<close> for the error exit.\<close>

function rx_vectors :: "u8 list \<Rightarrow> nat \<Rightarrow> u8 list \<Rightarrow> nat \<Rightarrow> bool \<Rightarrow> mvrp_database \<Rightarrow> (nat option \<times> bool \<times> mvrp_database) option" where
  "rx_vectors buf eof src vp saw s = do {
     h0 \<leftarrow> rd buf vp;
     h1 \<leftarrow> rd buf (vp + 1);
     if h0 = 0 \<and> h1 = 0 then Some (Some vp, saw, s)
     else do {
       (r, saw, s) \<leftarrow> rx_vector buf eof src vp saw s;
       case r of None \<Rightarrow> Some (None, saw, s) | Some nvb \<Rightarrow> rx_vectors buf eof src (vp + 4 + nvb) saw s } }"
  by pat_completeness auto
termination by (relation "measure (\<lambda>(buf, eof, src, vp, saw, s). length buf - vp)") (auto simp: rd_def split: if_splits)

declare rx_vectors.simps [simp del]

lemma rx_vectors_position:
  "rx_vectors buf eof src vp saw s = Some (Some q, saw', s') \<Longrightarrow> vp \<le> q"
proof (induction buf eof src vp saw s rule: rx_vectors.induct)
  case (1 buf eof src vp saw s)
  note unfolded = 1(2) [unfolded rx_vectors.simps [of buf eof src vp saw s]]
  show ?case
    using unfolded by (auto simp: bind_eq_Some_conv split: if_splits option.splits dest!: 1(1) [rotated -1])
qed

text \<open>The loop over the messages behind the protocol version.\<close>

function rx_messages :: "u8 list \<Rightarrow> nat \<Rightarrow> u8 list \<Rightarrow> nat \<Rightarrow> nat \<Rightarrow> bool \<Rightarrow> mvrp_database \<Rightarrow> (int \<times> mvrp_database) option" where
  "rx_messages buf eof src mp endmarks saw s =
     (if \<not> mp + MRPDU_ENDMARK_SZ < eof then Some (0, s)
      else do {
        t \<leftarrow> rd buf mp;
        l \<leftarrow> rd buf (mp + 1);
        if t = 0 \<and> l = 0 then
          (if endmarks + 1 < 2 then rx_messages buf eof src (mp + 2) (endmarks + 1) saw s else Some (0, s))
        else if t = MVRP_VID_TYPE then
          (if l \<noteq> 2 then Some (-1, s)
           else do {
             (r, saw, s) \<leftarrow> rx_vectors buf eof src (mp + 2) saw s;
             case r of None \<Rightarrow> Some (-1, s) | Some q \<Rightarrow> rx_messages buf eof src q 0 saw s })
        else do {
          version \<leftarrow> rd buf 14;
          if version = MVRP_PROT_VER then Some (-1, s)
          else do {
            h0 \<leftarrow> rd buf (mp + 2);
            h1 \<leftarrow> rd buf (mp + 3);
            rx_messages buf eof src (mp + 2 + (2 + unat l + (MRPDU_VECT_NUMVALUES (word_be [h0, h1]) + 2) div 3)) 0 saw s } } })"
  by pat_completeness auto
termination
  by (relation "measure (\<lambda>(buf, eof, src, mp, endmarks, saw, s). eof - mp)")
    (auto simp: MRPDU_ENDMARK_SZ_def dest!: rx_vectors_position)

declare rx_messages.simps [simp del]

text \<open>The buffer has \<open>MAX_FRAME_SIZE\<close> bytes, of which \<open>mrpd_recvmsgbuf\<close> filled \<open>bytes\<close>.\<close>

definition mvrp_recv_msg :: "mvrp_database \<Rightarrow> int \<Rightarrow> u8 list \<Rightarrow> (int \<times> mvrp_database) option" where
  "mvrp_recv_msg s bytes buf =
     (if bytes \<le> 0 then Some (-1, s)
      else if bytes < 14 + 1 + 2 then Some (-1, s)
      else do {
        c_assert (14 \<le> length buf);
        if word_be (take 2 (drop 12 buf)) \<noteq> MVRP_ETYPE then Some (-1, s)
        else if take 6 buf \<noteq> MVRP_CUSTOMER_BRIDGE_ADDR then Some (-1, s)
        else rx_messages buf (nat bytes) (take 6 (drop 6 buf)) 15 0 False s })"

section \<open>Commands\<close>

text \<open>
  The answer to a query, \<open>None\<close> if it does not fit into the buffer of \<open>MAX_MRPD_CMDSZ\<close> bytes
  with its terminating null character; the list holds the text that is sent, if any.
\<close>

definition dump_line :: "mvrp_attribute \<Rightarrow> string" where
  "dump_line a = ''V:I='' @ attribute_text a @ '' '' @ source_text a @ '' '' @ mrp_decode_state (registrar a) (applicant a) 8 @ newline"

definition mvrp_dumptable :: "mvrp_database \<Rightarrow> (int \<times> string list \<times> mvrp_database) option" where
  "mvrp_dumptable s =
     (let (m1, s) = mrpd_malloc s in
      if \<not> m1 then Some (-1, [], s)
      else
        let (m2, s) = mrpd_malloc s; (m3, s) = mrpd_malloc s; (m4, s) = mrpd_malloc s in
        if \<not> m2 \<or> \<not> m3 \<or> \<not> m4 then Some (0, [], s)
        else do {
          let msg = (if attrib_list s = [] then ''MVRP:Empty'' @ newline else concat (map dump_line (attrib_list s)));
          c_assert (length msg < MAX_MRPD_CMDSZ);
          Some (0, [msg], s) })"

definition mvrp_cmd_parse_vid :: "string \<Rightarrow> nat \<Rightarrow> (int \<times> u16 \<times> string) option" where
  "mvrp_cmd_parse_vid buf buflen =
     (if buflen < 9 then Some (-1, 0, buf)
      else do {
        (rc, e, vs, buf) \<leftarrow> parse buf 4 (buflen - 4) [\<lparr>pname = ''I='', ptype = parse_u16_04x\<rparr>];
        Some (rc, case vs of [V_u16 v] \<Rightarrow> v | _ \<Rightarrow> 0, buf) })"

definition mvrp_cmd_vid :: "mvrp_database \<Rightarrow> u16 \<Rightarrow> mrp_event \<Rightarrow> int \<times> mvrp_database" where
  "mvrp_cmd_vid s v event =
     (case mvrp_alloc s of
        (None, s) \<Rightarrow> (-1, s)
      | (Some a, s) \<Rightarrow> (0, snd (mvrp_event s event (Some (a\<lparr>attribute := v\<rparr>)))))"

text \<open>The return value, the messages to the client that sent the command, and the database.\<close>

definition mvrp_recv_cmd ::
  "mvrp_database option \<Rightarrow> string \<Rightarrow> nat \<Rightarrow> sockaddr_in \<Rightarrow> (int \<times> string list \<times> mvrp_database option) option" where
  "mvrp_recv_cmd db buf buflen client =
     (case db of
        None \<Rightarrow> do { t \<leftarrow> c_string buf; Some (-1, [snprintf 11 (''ERC MVRP_db '' @ t @ newline)], None) }
      | Some s \<Rightarrow> do {
          let s = add_client s client;
          let vid_command = (\<lambda>event. do {
            (rc, v, buf) \<leftarrow> mvrp_cmd_parse_vid buf buflen;
            if rc \<noteq> 0 then do { r \<leftarrow> respond 11 ''ERP '' buf; Some (-1, r, Some s) }
            else case mvrp_cmd_vid s v event of (rc, s) \<Rightarrow>
              if rc \<noteq> 0 then do { r \<leftarrow> respond 11 ''ERI '' buf; Some (-1, r, Some s) }
              else Some (0, [], Some s) });
          if buflen < 3 then Some (-1, [], Some s)
          else if buf = [] \<or> hd buf \<noteq> CHR ''V'' then Some (-1, [], Some s)
          else if take 3 buf = ''V??'' then do { (rc, r, s) \<leftarrow> mvrp_dumptable s; Some (0, r, Some s) }
          else if take 3 buf = ''V--'' then vid_command MRP_EVENT_LV
          else if take 3 buf = ''V++'' \<or> take 3 buf = ''V+?'' then
            vid_command (if buf ! 2 = CHR ''?'' then MRP_EVENT_JOIN else MRP_EVENT_NEW)
          else do { r \<leftarrow> respond 11 ''ERC MVRP '' buf; Some (-1, r, Some s) } })"

section \<open>Lifetime\<close>

text \<open>
  The environment is given as a database; the socket and the timers answer \<open>sock_rc\<close> and \<open>timers_rc\<close>.
  The result is the return value, whether the socket is open, and the database.
\<close>

definition mvrp_init :: "bool \<Rightarrow> int \<Rightarrow> int \<Rightarrow> mvrp_database \<Rightarrow> int \<times> bool \<times> mvrp_database option" where
  "mvrp_init mvrp_enable sock_rc timers_rc env =
     (if \<not> mvrp_enable then (0, False, None)
      else if sock_rc < 0 then (-1, False, None)
      else
        let (ok, s) = mrpd_malloc env in
        if \<not> ok then (-1, False, None)
        else
          let s = reset_application s
          in if timers_rc < 0 then (-1, False, None)
             else (0, True, Some (on_db (\<lambda>db. mrp_lvatimer_fsm db MRP_EVENT_BEGIN) s)))"

definition mvrp_bye :: "mvrp_database option \<Rightarrow> sockaddr_in \<Rightarrow> mvrp_database option" where
  "mvrp_bye db client =
     map_option (\<lambda>s. drop_client s client) db"

end
