(* ===== verification/Mrp_Codec.thy ===== *)
theory Mrp_Codec
  imports Mrp_Application
begin

text \<open>
  The coding of events that the applications share: three events in a byte, the header of a
  vector, and the attributes that are marked for transmission.
\<close>

section \<open>Packing\<close>

fun pack_all :: "nat list \<Rightarrow> u8 list" where
  "pack_all [] = []"
| "pack_all [x] = [pack3 [x]]"
| "pack_all [x, y] = [pack3 [x, y]]"
| "pack_all (x # y # z # cs) = pack3 [x, y, z] # pack_all cs"

lemma unpack3_pack:
  assumes "x < 6" "y < 6" "z < 6"
  shows "unpack3 (of_nat ((x * 6 + y) * 6 + z)) = [x, y, z]"
proof -
  define n where "n = (x * 6 + y) * 6 + z"
  have "n < 256" using assms by (simp add: n_def)
  then have u: "unat (of_nat n :: u8) = n" by (simp add: unat_of_nat)
  have d: "n div 36 = x" using assms unfolding n_def by (intro div_nat_eqI) auto
  have e: "(n - x * 36) div 6 = y" using assms unfolding n_def by (intro div_nat_eqI) auto
  have f: "n - 36 * x - 6 * y = z" unfolding n_def by simp
  show ?thesis unfolding n_def [symmetric] by (simp add: unpack3_def Let_def u d e f del: diff_diff_left)
qed

lemma unpack3_pack3:
  "x < 6 \<Longrightarrow> y < 6 \<Longrightarrow> z < 6 \<Longrightarrow> unpack3 (pack3 [x, y, z]) = [x, y, z]"
  "x < 6 \<Longrightarrow> y < 6 \<Longrightarrow> unpack3 (pack3 [x, y]) = [x, y, 0]"
  "x < 6 \<Longrightarrow> unpack3 (pack3 [x]) = [x, 0, 0]"
  using unpack3_pack [of x y z] unpack3_pack [of x y 0] unpack3_pack [of x 0 0]
  by (simp_all add: pack3_def MRPDU_3PACK_ENCODE_def)

lemma vector_bytes_eq: "vector_bytes n = (n + 2) div 3"
  by (cases "n = n div 3 * 3") (simp_all only: vector_bytes_def if_True if_False not_True_eq_False not_False_eq_True, presburger+)

lemma vector_bytes_step: "vector_bytes (Suc (Suc (Suc n))) = Suc (vector_bytes n)"
  by (simp add: vector_bytes_eq)

lemma length_pack_all: "length (pack_all cs) = vector_bytes (length cs)"
  by (induction cs rule: pack_all.induct) (simp_all add: vector_bytes_step, simp_all add: vector_bytes_def)

lemma vector_bytes_le: "vector_bytes n \<le> n"
  unfolding vector_bytes_eq by presburger

lemma mrpdu_code_less: "mrpdu_code e < 6"
  by (cases e) simp_all

section \<open>Headers and bytes\<close>

lemma length_vector_header [simp]: "length (vector_header n l) = 2"
  by (simp add: vector_header_def)

lemma word_be_pair: "word_be (bytes_be 2 (x :: u16)) = x"
  by (simp add: word_be_bytes_be take_bit_word_eq_self)

lemma header_word:
  assumes "n < 8192" and "hdr = (of_nat n AND 0x1FFF) OR (if l then 0x2000 else 0 :: u16)"
  shows "MRPDU_VECT_NUMVALUES hdr = n" "MRPDU_VECT_LVA hdr = l"
proof -
  have m: "of_nat n AND 0x1FFF = (of_nat n :: u16)"
  proof -
    have "of_nat n AND 0x1FFF = take_bit 13 (of_nat n :: u16)" by (simp add: take_bit_eq_mask mask_eq_exp_minus_1)
    also have "\<dots> = of_nat (take_bit 13 n)" by (simp add: take_bit_of_nat)
    also have "take_bit 13 n = n" using assms(1) by (simp add: take_bit_nat_eq_self_iff)
    finally show ?thesis .
  qed
  have "hdr AND 0x1FFF = of_nat n"
    unfolding assms(2) by (simp add: bit.conj_disj_distrib2 and.assoc m)
  then show "MRPDU_VECT_NUMVALUES hdr = n"
    using assms(1) by (simp add: MRPDU_VECT_NUMVALUES_def unat_of_nat)
  have "hdr AND 0xE000 = (if l then 0x2000 else 0)"
    unfolding assms(2) by (simp add: bit.conj_disj_distrib2 and.assoc)
  then show "MRPDU_VECT_LVA hdr = l"
    by (simp add: MRPDU_VECT_LVA_def)
qed

lemma two_bytes: obtains h0 h1 where "bytes_be 2 (x :: u16) = [h0, h1]" and "word_be [h0, h1] = x"
proof -
  have b: "bytes_be 2 x = [ucast (drop_bit 8 x), ucast x]" by (simp add: bytes_be_def upt_rec)
  have "word_be [ucast (drop_bit 8 x), ucast x] = x" using word_be_pair [of x] unfolding b .
  with b show thesis by (rule that)
qed

lemma rd_at: "drop i buf = b # rest \<Longrightarrow> rd buf i = Some b"
  by (metis drop_eq_Nil2 leI list.distinct(1) nth_via_drop rd_def)

lemma drop_step: "drop i buf = xs @ rest \<Longrightarrow> drop (i + length xs) buf = rest"
  by (metis append_eq_conv_conj drop_drop add.commute)

lemma length_increment_at [simp]: "length (increment_at i bs) = length bs"
  by (induction i bs rule: increment_at.induct) auto

lemma length_hex_bytes [simp]: "length (hex_bytes bs) = 2 * length bs"
  by (induction bs) (simp_all add: hex_bytes_def hex_byte_def)

section \<open>The bytes of a vector\<close>

text \<open>
  The receiving loop over the bytes of a vector, with the number of rounds and of values to go.  It unpacks each byte and
  handles its events; \<open>vals\<close> handles a list of events, and \<open>out\<close> is what the loop returns of its state.  The last round
  reads the byte behind the events, without a value left for it.
\<close>

locale packed_events =
  fixes vals :: "nat list \<Rightarrow> 'c \<Rightarrow> (bool \<times> 'c) option"
    and loop :: "u8 list \<Rightarrow> nat \<Rightarrow> nat \<Rightarrow> nat \<Rightarrow> 'c \<Rightarrow> (bool \<times> 'r) option"
    and out :: "'c \<Rightarrow> 'r"
  assumes vals_nil: "vals [] c = Some (True, c)"
    and vals_append: "vals (xs @ ys) c = do { (ok, c) \<leftarrow> vals xs c; if ok then vals ys c else Some (False, c) }"
    and loop_0: "loop buf i 0 n c = Some (True, out c)"
    and loop_step: "rd buf i = Some b \<Longrightarrow> loop buf i (Suc k) n c =
      do { (ok, c) \<leftarrow> vals (take (min 3 n) (unpack3 b)) c; if ok then loop buf (Suc i) k (n - min 3 n) c else Some (False, out c) }"
begin

definition result :: "nat list \<Rightarrow> 'c \<Rightarrow> (bool \<times> 'r) option" where
  "result cs c = do { (ok, c) \<leftarrow> vals cs c; Some (ok, out c) }"

lemma result_append: "result (xs @ ys) c = do { (ok, c) \<leftarrow> vals xs c; if ok then result ys c else Some (False, out c) }"
  by (cases "vals xs c") (auto simp: result_def vals_append)

lemma loop_last:
  assumes "rd buf i = Some b" and "unpack3 b = cs @ zs" and "length cs \<le> 3" and "rd buf (Suc i) = Some b'"
  shows "loop buf i (Suc (Suc 0)) (length cs) c = result cs c"
proof -
  have "take (min 3 (length cs)) (unpack3 b) = cs" "length cs - min 3 (length cs) = 0" using assms(2,3) by (simp_all add: min_def)
  then show ?thesis
    unfolding loop_step [OF assms(1)] loop_step [OF assms(4)] by (cases "vals cs c") (auto simp: result_def vals_nil loop_0)
qed

lemma loop_pack:
  assumes "\<forall>c\<in>set cs. c < 6" and "drop i buf = pack_all cs @ b # rest"
  shows "loop buf i (Suc (vector_bytes (length cs))) (length cs) c = result cs c"
  using assms
proof (induction cs arbitrary: i c rule: pack_all.induct)
  case 1
  then show ?case by (simp add: vector_bytes_def loop_step [OF rd_at] loop_0 vals_nil result_def)
next
  case (2 x)
  have "rd buf i = Some (pack3 [x])" "rd buf (Suc i) = Some b"
    using 2(2) drop_step [of i buf "[pack3 [x]]"] by (simp_all add: rd_at)
  from loop_last [OF this(1) _ _ this(2), of "[x]" "[0, 0]"] 2(1) show ?case by (simp add: vector_bytes_def unpack3_pack3)
next
  case (3 x y)
  have "rd buf i = Some (pack3 [x, y])" "rd buf (Suc i) = Some b"
    using 3(2) drop_step [of i buf "[pack3 [x, y]]"] by (simp_all add: rd_at)
  from loop_last [OF this(1) _ _ this(2), of "[x, y]" "[0]"] 3(1) show ?case by (simp add: vector_bytes_def unpack3_pack3)
next
  case (4 x y z cs)
  have r: "rd buf i = Some (pack3 [x, y, z])" "drop (Suc i) buf = pack_all cs @ b # rest"
    using 4(3) drop_step [of i buf "[pack3 [x, y, z]]"] by (simp_all add: rd_at)
  have u: "take (min 3 (length (x # y # z # cs))) (unpack3 (pack3 [x, y, z])) = [x, y, z]"
    "length (x # y # z # cs) - min 3 (length (x # y # z # cs)) = length cs" using 4(2) by (simp_all add: unpack3_pack3)
  have v: "vector_bytes (length (x # y # z # cs)) = Suc (vector_bytes (length cs))" by (simp add: vector_bytes_step)
  have IH: "loop buf (Suc i) (Suc (vector_bytes (length cs))) (length cs) c = result cs c" for c using 4(1) [OF _ r(2)] 4(2) by simp
  show ?case unfolding v loop_step [OF r(1)] u IH using result_append [of "[x, y, z]" cs c] by simp
qed

end

text \<open>The loop stays within the buffer and keeps an invariant of its state.\<close>

locale packed_events_inv = packed_events vals loop out
  for vals :: "nat list \<Rightarrow> 'c \<Rightarrow> (bool \<times> 'c) option" and loop :: "u8 list \<Rightarrow> nat \<Rightarrow> nat \<Rightarrow> nat \<Rightarrow> 'c \<Rightarrow> (bool \<times> 'r) option" and out :: "'c \<Rightarrow> 'r" +
  fixes inv :: "'c \<Rightarrow> bool"
  assumes vals_total: "inv c \<Longrightarrow> \<exists>ok c'. vals cs c = Some (ok, c') \<and> inv c'"
begin

lemma loop_total: "inv c \<Longrightarrow> i + k \<le> length buf \<Longrightarrow> \<exists>ok c'. loop buf i k n c = Some (ok, out c') \<and> inv c'"
proof (induction k arbitrary: i n c)
  case 0
  then show ?case by (auto simp: loop_0)
next
  case (Suc k)
  have r: "rd buf i = Some (buf ! i)" using Suc.prems(2) by (simp add: rd_def)
  obtain ok d where v: "vals (take (min 3 n) (unpack3 (buf ! i))) c = Some (ok, d)" "inv d" using vals_total [OF Suc.prems(1)] by blast
  have "\<exists>ok c'. loop buf (Suc i) k (n - min 3 n) d = Some (ok, out c') \<and> inv c'" using Suc.IH [OF v(2)] Suc.prems(2) by simp
  with v show ?case by (auto simp: loop_step [OF r])
qed

end

section \<open>Marked attributes\<close>

definition code_of :: "'v attrib \<Rightarrow> nat" where
  "code_of a = (case pdu_event a of None \<Rightarrow> 6 | Some e \<Rightarrow> mrpdu_code e)"

definition tx_ready :: "'v attrib list \<Rightarrow> bool" where
  "tx_ready as \<longleftrightarrow> (\<forall>a\<in>set as. a_tx (applicant a) \<longrightarrow> pdu_event a \<noteq> None)"

lemma tx_ready_simps [simp]:
  "tx_ready []" "tx_ready (a # as) \<longleftrightarrow> (a_tx (applicant a) \<longrightarrow> pdu_event a \<noteq> None) \<and> tx_ready as"
  "tx_ready (xs @ ys) \<longleftrightarrow> tx_ready xs \<and> tx_ready ys"
  by (auto simp: tx_ready_def)

lemma clear_tx_simps [simp]:
  "a_tx (applicant (clear_tx a)) = False" "registrar (clear_tx a) = registrar a"
  "a_state (applicant (clear_tx a)) = a_state (applicant a)" "mrp_attribute.more (clear_tx a) = mrp_attribute.more a"
  by (simp_all add: clear_tx_def)

lemma clear_tx_idle: "\<not> a_tx (applicant a) \<Longrightarrow> clear_tx a = a"
  by (simp add: clear_tx_def)

lemma clear_tx_twice [simp]: "clear_tx (clear_tx a) = clear_tx a"
  by (simp add: clear_tx_def)

lemma tx_ready_cleared: "tx_ready (map clear_tx xs)"
  by (simp add: tx_ready_def)

definition marked :: "'v attrib list \<Rightarrow> nat" where
  "marked as = length (filter (\<lambda>a. a_tx (applicant a)) as)"

lemma marked_simps [simp]:
  "marked [] = 0" "marked (a # as) = (if a_tx (applicant a) then Suc (marked as) else marked as)"
  "marked (xs @ ys) = marked xs + marked ys" "marked (map clear_tx xs) = 0"
  by (simp_all add: marked_def)

lemma marked_le: "marked as \<le> length as"
  by (simp add: marked_def)

end
