(* ===== verification/Mvrp_Codec.thy ===== *)
theory Mvrp_Codec
  imports Mvrp Mrp_Codec
begin

text \<open>
  The frames of the VLAN registration protocol: what \<open>mvrp_txpdu\<close> encodes is what
  \<open>mvrp_recv_msg\<close> decodes.  Between them stands an abstract message, a list of
  vectors with a leave-all flag, a first VID and the codes of consecutive VIDs.
\<close>

section \<open>Vectors\<close>

type_synonym vect = "bool \<times> u16 \<times> nat list"

definition enc_vector :: "vect \<Rightarrow> u8 list" where
  "enc_vector = (\<lambda>(l, v, cs). vector_header (length cs) l @ bytes_be 2 v @ pack_all cs)"

definition vect_ok :: "vect \<Rightarrow> bool" where
  "vect_ok = (\<lambda>(l, v, cs). cs \<noteq> [] \<and> length cs < 8192 \<and> (\<forall>c\<in>set cs. c < 6))"

section \<open>Receiving vectors\<close>

lemma rx_values_append:
  "rx_values src (xs @ ys) vid s =
     (case rx_values src xs vid s of (ok, vid, s) \<Rightarrow> if ok then rx_values src ys vid s else (False, vid, s))"
  by (induction src xs vid s rule: rx_values.induct) (auto simp: Let_def split: prod.splits option.splits)

lemma rx_bytes_step:
  assumes "rd buf i = Some b"
  shows "rx_bytes buf src i (Suc k) n vid s =
    (case rx_values src (take (min 3 n) (unpack3 b)) vid s of (ok, vid, s) \<Rightarrow>
       if ok then rx_bytes buf src (Suc i) k (n - min 3 n) vid s else Some (False, s))"
proof -
  have "(if n > 3 then 3 else n) = min 3 n" by simp
  then show ?thesis using assms by (simp only: rx_bytes.simps Let_def) (simp split: prod.splits)
qed

interpretation mvrp_bytes: packed_events "\<lambda>cs (vid, s). Some (rx_values src cs vid s)" "\<lambda>buf i k n (vid, s). rx_bytes buf src i k n vid s" snd for src
  by unfold_locales
    (simp_all add: rx_values_append rx_bytes_step del: rx_values.simps(2) rx_bytes.simps(2) split: prod.splits)

lemma rx_bytes_pack:
  assumes "\<forall>c\<in>set cs. c < 6" and "drop i buf = pack_all cs @ b # rest"
  shows "rx_bytes buf src i (Suc (vector_bytes (length cs))) (length cs) vid s =
    (case rx_values src cs vid s of (ok, _, s) \<Rightarrow> Some (ok, s))"
  using mvrp_bytes.loop_pack [OF assms, of src "(vid, s)", unfolded mvrp_bytes.result_def] by (simp add: split_def del: rx_bytes.simps)

lemma enc_vector_bytes:
  assumes "vect_ok (l, v, cs)"
  obtains h0 h1 f0 f1 where "enc_vector (l, v, cs) = h0 # h1 # f0 # f1 # pack_all cs" and "\<not> (h0 = 0 \<and> h1 = 0)"
    and "MRPDU_VECT_NUMVALUES (word_be [h0, h1]) = length cs" and "MRPDU_VECT_LVA (word_be [h0, h1]) = l"
    and "word_be [f0, f1] = v"
proof -
  define hdr :: u16 where "hdr = (of_nat (length cs) AND 0x1FFF) OR (if l then 0x2000 else 0)"
  obtain h0 h1 where h: "bytes_be 2 hdr = [h0, h1]" "word_be [h0, h1] = hdr" by (rule two_bytes)
  obtain f0 f1 where f: "bytes_be 2 v = [f0, f1]" "word_be [f0, f1] = v" by (rule two_bytes)
  have n: "cs \<noteq> []" "length cs < 8192" using assms by (simp_all add: vect_ok_def)
  note hw = header_word [OF n(2) hdr_def]
  have "\<not> (h0 = 0 \<and> h1 = 0)"
  proof
    assume "h0 = 0 \<and> h1 = 0"
    then have "hdr = word_be [0, 0]" using h(2) by simp
    then have "hdr = 0" by (simp add: word_be_def)
    with hw(1) n(1) show False by (simp add: MRPDU_VECT_NUMVALUES_def)
  qed
  moreover have "enc_vector (l, v, cs) = h0 # h1 # f0 # f1 # pack_all cs"
    using h(1) f(1) by (simp add: enc_vector_def vector_header_def hdr_def)
  ultimately show thesis using that [of h0 h1 f0 f1] hw h(2) f(2) by simp
qed

text \<open>What the receiver does with an abstract vector and with a list of them.\<close>

definition see_leaveall :: "bool \<Rightarrow> bool \<Rightarrow> mvrp_database \<Rightarrow> bool \<times> mvrp_database" where
  "see_leaveall l saw s = (if l \<and> \<not> saw then (True, snd (mvrp_event s MRP_EVENT_RLA None)) else (saw, s))"

fun take_vectors :: "u8 list \<Rightarrow> vect list \<Rightarrow> bool \<Rightarrow> mvrp_database \<Rightarrow> bool \<times> bool \<times> mvrp_database" where
  "take_vectors src [] saw s = (True, saw, s)"
| "take_vectors src ((l, v, cs) # vs) saw s =
     (case see_leaveall l saw s of (saw, s) \<Rightarrow>
        (case rx_values src cs v s of (ok, _, s) \<Rightarrow> if ok then take_vectors src vs saw s else (False, saw, s)))"

lemma rx_vector_enc:
  assumes ok: "vect_ok (l, v, cs)" and at: "drop vp buf = enc_vector (l, v, cs) @ b # rest"
    and eof: "vp + 4 + length (pack_all cs) \<le> eof"
  shows "rx_vector buf eof src vp saw s =
    (case see_leaveall l saw s of (saw, s) \<Rightarrow>
       (case rx_values src cs v s of (ok, _, s) \<Rightarrow> Some (if ok then Some (vector_bytes (length cs)) else None, saw, s)))"
proof -
  obtain h0 h1 f0 f1 where e: "enc_vector (l, v, cs) = h0 # h1 # f0 # f1 # pack_all cs"
    and w: "MRPDU_VECT_NUMVALUES (word_be [h0, h1]) = length cs" "MRPDU_VECT_LVA (word_be [h0, h1]) = l" "word_be [f0, f1] = v"
    by (rule enc_vector_bytes [OF ok]) blast
  have at4: "drop (vp + 4) buf = pack_all cs @ b # rest"
    using at e drop_step [of vp buf "[h0, h1, f0, f1]" "pack_all cs @ b # rest"] by (simp add: numeral_eq_Suc)
  have r: "rd buf vp = Some h0" "rd buf (vp + 1) = Some h1" "rd buf (vp + 2) = Some f0" "rd buf (vp + 3) = Some f1"
    using at e drop_step [of vp buf "[h0]"] drop_step [of vp buf "[h0, h1]"] drop_step [of vp buf "[h0, h1, f0]"]
    by (simp_all add: rd_at numeral_eq_Suc)
  have n: "length cs \<noteq> 0" "\<not> eof \<le> vp + 2 + length cs div 3"
    using ok eof by (auto simp: vect_ok_def length_pack_all vector_bytes_def split: if_splits)
  have six: "\<forall>c\<in>set cs. c < 6" using ok by (simp add: vect_ok_def)
  have B: "rx_bytes buf src (vp + 4) (vector_bytes (length cs) + 1) (length cs) v t = (case rx_values src cs v t of (ok, _, s) \<Rightarrow> Some (ok, s))" for t
    using rx_bytes_pack [OF six at4] by (simp del: rx_bytes.simps)
  show ?thesis
    unfolding rx_vector_def r bind.bind_lunit Let_def w B see_leaveall_def using n by (auto split: prod.splits)
qed

lemma length_enc_vector: "length (enc_vector (l, v, cs)) = 4 + vector_bytes (length cs)"
  by (simp add: enc_vector_def length_pack_all)

lemma rx_vectors_enc:
  assumes "\<forall>x\<in>set vs. vect_ok x" and "drop vp buf = concat (map enc_vector vs) @ [0, 0] @ rest"
    and "vp + length (concat (map enc_vector vs)) \<le> eof"
  shows "rx_vectors buf eof src vp saw s =
    (case take_vectors src vs saw s of (ok, saw, s) \<Rightarrow>
       Some (if ok then Some (vp + length (concat (map enc_vector vs))) else None, saw, s))"
  using assms
proof (induction vs arbitrary: vp saw s)
  case Nil
  then have "rd buf vp = Some 0" "rd buf (vp + 1) = Some 0"
    using drop_step [of vp buf "[0]"] by (simp_all add: rd_at)
  then show ?case by (subst rx_vectors.simps) simp
next
  case (Cons x vs)
  obtain l v cs where x: "x = (l, v, cs)" by (cases x)
  have ok: "vect_ok (l, v, cs)" using Cons.prems(1) x by simp
  let ?tail = "concat (map enc_vector vs) @ [0, 0] @ rest"
  obtain b r where br: "?tail = b # r" by (cases ?tail) auto
  have at: "drop vp buf = enc_vector (l, v, cs) @ b # r" using Cons.prems(2) x br by simp
  have at': "drop (vp + 4 + vector_bytes (length cs)) buf = ?tail"
    using drop_step [OF at] br by (simp add: length_enc_vector add.assoc)
  have le: "vp + 4 + length (pack_all cs) \<le> eof" using Cons.prems(3) x by (simp add: length_enc_vector length_pack_all)
  obtain h0 h1 f0 f1 where e: "enc_vector (l, v, cs) = h0 # h1 # f0 # f1 # pack_all cs" and nz: "\<not> (h0 = 0 \<and> h1 = 0)"
    by (rule enc_vector_bytes [OF ok]) blast
  have rd: "rd buf vp = Some h0" "rd buf (vp + 1) = Some h1"
    using at e drop_step [of vp buf "[h0]"] by (simp_all add: rd_at)
  have len: "vp + length (concat (map enc_vector (x # vs))) = vp + 4 + vector_bytes (length cs) + length (concat (map enc_vector vs))"
    by (simp add: x length_enc_vector)
  have IH: "rx_vectors buf eof src (vp + 4 + vector_bytes (length cs)) w t =
    (case take_vectors src vs w t of (ok, saw, s) \<Rightarrow>
       Some (if ok then Some (vp + length (concat (map enc_vector (x # vs)))) else None, saw, s))" for w t
    unfolding len by (rule Cons.IH [OF _ at']) (use Cons.prems(1,3) len in auto)
  show ?case
    unfolding rx_vectors.simps [of buf eof src vp] rx_vector_enc [OF ok at le] x using nz
    by (auto simp: rd [simplified] IH [unfolded x] split: prod.splits)
qed

section \<open>Emitting vectors\<close>

lemma clear_tx_attribute [simp]: "attribute (clear_tx a) = attribute a"
  by (simp add: clear_tx_def)

text \<open>
  The attributes that are sent: those marked for transmission whose message is not optional,
  and those marked that follow, with the next VID, one that is sent.
\<close>

fun sent :: "u16 option \<Rightarrow> mvrp_attribute list \<Rightarrow> mvrp_attribute list" where
  "sent prev [] = []"
| "sent prev (a # as) =
     (if a_tx (applicant a) \<and> (a_encode (applicant a) = MRP_ENCODE_YES \<or> prev = Some (attribute a - 1))
      then a # sent (Some (attribute a)) as else sent None as)"

fun consecutive :: "u16 \<Rightarrow> mvrp_attribute list \<Rightarrow> bool" where
  "consecutive v [] = True"
| "consecutive v (a # as) = (attribute a = v \<and> consecutive (v + 1) as)"

lemma sent_cleared: "sent None (map clear_tx xs @ ys) = sent None ys"
  by (induction xs) auto

lemma vector_loop_spec:
  assumes "tx_ready as" and "vp + 6 + length packed + marked as \<le> room" and "length evs \<le> 2"
  shows "\<exists>evs' packed' xs ys. as = xs @ ys \<and>
    vector_loop room vp vid evs packed n as = (True, evs', packed', n + length xs, map clear_tx xs @ ys) \<and>
    packed' @ (if evs' = [] then [] else [pack3 evs']) = packed @ pack_all (evs @ map code_of xs) \<and>
    sent (Some vid) as = xs @ sent None ys \<and> consecutive (vid + 1) xs \<and> tx_ready ys \<and>
    (\<forall>x\<in>set xs. code_of x < 6) \<and> marked xs = length xs"
  using assms
proof (induction as arbitrary: vid evs packed n)
  case Nil
  have "pack_all evs = (if evs = [] then [] else [pack3 evs])" if "length evs \<le> 2"
    using that by (cases evs rule: pack_all.cases) auto
  with Nil show ?case by auto
next
  case (Cons a as)
  show ?case
  proof (cases "a_tx (applicant a) \<and> attribute a = vid + 1")
    case False
    have "sent (Some vid) (a # as) = sent None (a # as)" using False by (auto simp: algebra_simps)
    moreover have "pack_all evs = (if evs = [] then [] else [pack3 evs])"
      using Cons.prems(3) by (cases evs rule: pack_all.cases) auto
    moreover have "vector_loop room vp vid evs packed n (a # as) = (True, evs, packed, n, a # as)"
      using False by (auto simp: Let_def)
    ultimately show ?thesis using Cons.prems(1) by (intro exI [of _ evs] exI [of _ packed] exI [of _ "[]"] exI [of _ "a # as"]) auto
  next
    case True
    then obtain e where e: "pdu_event a = Some e" using Cons.prems(1) by auto
    define evs1 where "evs1 = evs @ [mrpdu_code e]"
    define st where "st = (if length evs1 > 2 then ([], packed @ [pack3 evs1]) else (evs1, packed))"
    have st: "length (fst st) \<le> 2" "length (snd st) \<le> Suc (length packed)"
      "snd st @ pack_all (fst st @ cs) = packed @ pack_all (evs1 @ cs)" for cs
    proof -
      show "length (fst st) \<le> 2" "length (snd st) \<le> Suc (length packed)" by (auto simp: st_def)
      have "length evs1 \<le> 3" using Cons.prems(3) by (simp add: evs1_def)
      moreover have "pack_all (evs1 @ cs) = pack3 evs1 # pack_all cs" if "length evs1 = 3"
        using that by (auto simp: numeral_eq_Suc length_Suc_conv)
      ultimately show "snd st @ pack_all (fst st @ cs) = packed @ pack_all (evs1 @ cs)" by (auto simp: st_def)
    qed
    have room: "\<not> room < vp + 2 + (2 + length (snd st)) + MRPDU_ENDMARK_SZ"
      using Cons.prems(2) st(2) True by (simp add: MRPDU_ENDMARK_SZ_def)
    obtain evs' packed' xs ys where IH: "as = xs @ ys"
      "vector_loop room vp (vid + 1) (fst st) (snd st) (n + 1) as = (True, evs', packed', n + 1 + length xs, map clear_tx xs @ ys)"
      "packed' @ (if evs' = [] then [] else [pack3 evs']) = snd st @ pack_all (fst st @ map code_of xs)"
      "sent (Some (vid + 1)) as = xs @ sent None ys" "consecutive (vid + 1 + 1) xs" "tx_ready ys" "\<forall>x\<in>set xs. code_of x < 6" "marked xs = length xs"
      using Cons.IH [of "snd st" "fst st" "vid + 1" "n + 1"] Cons.prems(1,2) st(1,2) True by (simp) blast
    have "vector_loop room vp vid evs packed n (a # as) = (True, evs', packed', n + length (a # xs), map clear_tx (a # xs) @ ys)"
      using True e room IH(2) unfolding st_def evs1_def by (cases "Suc 0 < length evs") (auto simp: Let_def)
    moreover have c: "code_of a = mrpdu_code e" by (simp add: code_of_def e)
    moreover have "packed' @ (if evs' = [] then [] else [pack3 evs']) = packed @ pack_all (evs @ map code_of (a # xs))"
      using IH(3) st(3) c by (simp add: evs1_def)
    ultimately show ?thesis using IH True mrpdu_code_less [of e]
      by (intro exI [of _ evs'] exI [of _ packed'] exI [of _ "a # xs"] exI [of _ ys]) auto
  qed
qed

text \<open>The values of the vectors, and the place of the leave-all flag in the first of them.\<close>

fun vids :: "u16 \<Rightarrow> nat list \<Rightarrow> (u16 \<times> nat) list" where
  "vids v [] = []"
| "vids v (c # cs) = (v, c) # vids (v + 1) cs"

definition vect_values :: "vect list \<Rightarrow> (u16 \<times> nat) list" where
  "vect_values vs = concat (map (\<lambda>(l, v, cs). vids v cs) vs)"

definition sent_values :: "mvrp_attribute list \<Rightarrow> (u16 \<times> nat) list" where
  "sent_values as = map (\<lambda>a. (attribute a, code_of a)) as"

fun flagged :: "bool \<Rightarrow> vect list \<Rightarrow> bool" where
  "flagged l [] = True"
| "flagged l ((f, v, cs) # vs) = (f = l \<and> flagged False vs)"

lemma vids_consecutive: "consecutive v xs \<Longrightarrow> vids v (map code_of xs) = sent_values xs"
  by (induction xs arbitrary: v) (auto simp: sent_values_def)

text \<open>Each attribute takes at most five bytes.\<close>

lemma emit_loop_spec:
  assumes "tx_ready as" and "length out + 5 * marked as + 9 \<le> room" and "length as < 8000"
  shows "\<exists>vs. emit_loop room out found l as = (True, out @ concat (map enc_vector vs), found \<or> vs \<noteq> [], map clear_tx as) \<and>
    vect_values vs = sent_values (sent None as) \<and> (\<forall>x\<in>set vs. vect_ok x) \<and> flagged l vs \<and>
    length (concat (map enc_vector vs)) \<le> 5 * marked as"
  using assms
proof (induction room out found l as rule: emit_loop.induct)
  case (1 room out found l)
  then show ?case by (intro exI [of _ "[]"]) (simp add: vect_values_def sent_values_def)
next
  case (2 room out found l a as)
  have enter: "(if found then length out else 0) + 6 + MRPDU_ENDMARK_SZ < room"
    using 2(5) by (simp add: MRPDU_ENDMARK_SZ_def)
  consider (idle) "\<not> a_tx (applicant a)" | (opt) "a_tx (applicant a)" "a_encode (applicant a) = MRP_ENCODE_OPTIONAL"
    | (yes) "a_tx (applicant a)" "a_encode (applicant a) = MRP_ENCODE_YES" by (cases "a_encode (applicant a)") auto
  then show ?case
  proof cases
    case idle
    from 2(1) [OF _ idle] 2(4-6) enter show ?thesis using idle by (fastforce simp: clear_tx_idle)
  next
    case opt
    from 2(2) [OF _ _ opt(2)] 2(4-6) enter opt(1) show ?thesis using opt by fastforce
  next
    case yes
    then obtain e where e: "pdu_event a = Some e" using 2(4) by auto
    have c: "code_of a = mrpdu_code e" by (simp add: code_of_def e)
    have pre: "tx_ready as" "length out + 6 + length ([] :: u8 list) + marked as \<le> room" "length [mrpdu_code e] \<le> 2"
      using 2(4,5) yes by simp_all
    obtain evs' packed' xs ys where v: "as = xs @ ys"
      "vector_loop room (length out) (attribute a) [mrpdu_code e] [] 1 as = (True, evs', packed', 1 + length xs, map clear_tx xs @ ys)"
      "packed' @ (if evs' = [] then [] else [pack3 evs']) = pack_all (map code_of (a # xs))"
      "sent (Some (attribute a)) as = xs @ sent None ys" "consecutive (attribute a + 1) xs" "tx_ready ys" "\<forall>x\<in>set xs. code_of x < 6" "marked xs = length xs"
      using vector_loop_spec [OF pre, of "attribute a" 1] c by (auto simp del: vector_loop.simps)
    let ?bs = "map clear_tx xs @ ys"
    let ?x = "(l, attribute a, map code_of (a # xs))"
    let ?p = "if evs' \<noteq> [] then packed' @ [pack3 evs'] else packed'"
    have p: "?p = pack_all (map code_of (a # xs))" using v(3) by auto
    have ex: "enc_vector ?x = vector_header (1 + length xs) l @ bytes_be 2 (attribute a) @ ?p" using p by (simp add: enc_vector_def)
    have lx: "length (enc_vector ?x) \<le> 5 * Suc (length xs)"
      using vector_bytes_le [of "Suc (length xs)"] by (simp add: length_enc_vector)
    have lp: "length ?p \<le> Suc (length xs)" unfolding p length_pack_all using vector_bytes_le [of "Suc (length xs)"] by simp
    have fits: "\<not> room < length out + 2 + (2 + length ?p) + MRPDU_ENDMARK_SZ"
      using 2(5) lp v(1,8) yes by (simp add: MRPDU_ENDMARK_SZ_def)
    have bs: "tx_ready ?bs" "length ?bs < 8000" "length (out @ enc_vector ?x) + 5 * marked ?bs + 9 \<le> room"
      using v(1,6,8) tx_ready_cleared [of xs] 2(5,6) lx yes by simp_all
    obtain vs where vs: "emit_loop room (out @ enc_vector ?x) True False ?bs =
        (True, (out @ enc_vector ?x) @ concat (map enc_vector vs), True, map clear_tx ?bs)"
      "vect_values vs = sent_values (sent None ys)" "\<forall>x\<in>set vs. vect_ok x" "flagged False vs"
      "length (concat (map enc_vector vs)) \<le> 5 * marked ys"
      using 2(3) [OF _ _ _ e v(2) [symmetric] refl refl refl _ refl fits, unfolded ex [symmetric], OF _ _ _ _ bs(1) bs(3) bs(2)] enter yes
      by (auto simp: sent_cleared)
    have "emit_loop room out found l (a # as) =
      (True, out @ concat (map enc_vector (?x # vs)), found \<or> ?x # vs \<noteq> [], map clear_tx (a # as))"
      using enter yes e v(1,2) fits vs(1) ex by (cases "evs' = []") (simp_all add: Let_def comp_def)
    moreover have "vect_values (?x # vs) = sent_values (sent None (a # as))"
      using vs(2) v(4) yes vids_consecutive [OF v(5)] by (simp add: vect_values_def sent_values_def)
    moreover have "vect_ok ?x" using v(1,7) c mrpdu_code_less [of e] 2(6) by (simp add: vect_ok_def)
    moreover have "length (concat (map enc_vector (?x # vs))) \<le> 5 * marked (a # as)" using vs(5) lx v(1,8) yes by simp
    ultimately show ?thesis using vs(3,4) by (intro exI [of _ "?x # vs"]) auto
  qed
qed

section \<open>Frames\<close>

text \<open>The effect of a received message: its values in order, until the memory is exhausted.\<close>

fun deliver :: "u8 list \<Rightarrow> (u16 \<times> nat) list \<Rightarrow> mvrp_database \<Rightarrow> bool \<times> mvrp_database" where
  "deliver src [] s = (True, s)"
| "deliver src ((v, c) # vals) s =
     (case mvrp_alloc s of
        (None, s) \<Rightarrow> (False, s)
      | (Some a, s) \<Rightarrow>
          deliver src vals (case rx_event c of None \<Rightarrow> s
            | Some e \<Rightarrow> snd (mvrp_event s e (Some (a\<lparr>attribute := v, registrar := (registrar a)\<lparr>r_macaddr := src\<rparr>\<rparr>)))))"

lemma deliver_append:
  "deliver src (xs @ ys) s = (case deliver src xs s of (ok, s) \<Rightarrow> if ok then deliver src ys s else (False, s))"
  by (induction src xs s rule: deliver.induct) (auto split: prod.splits option.splits)

lemma rx_values_deliver:
  assumes "\<forall>(w, c)\<in>set (vids v cs). w \<le> 0xFFF"
  shows "deliver src (vids v cs) s = (case rx_values src cs v s of (ok, _, s) \<Rightarrow> (ok, s))"
  using assms by (induction src cs v s rule: rx_values.induct) (auto simp: Let_def not_less [symmetric] split: prod.splits option.splits)

lemma take_vectors_unflagged:
  assumes "flagged False vs" and "\<forall>(w, c)\<in>set (vect_values vs). w \<le> 0xFFF"
  shows "take_vectors src vs saw s = (case deliver src (vect_values vs) s of (ok, s) \<Rightarrow> (ok, saw, s))"
  using assms
proof (induction vs arbitrary: s)
  case (Cons x vs)
  obtain l v cs where x: "x = (l, v, cs)" by (cases x)
  have "vect_values (x # vs) = vids v cs @ vect_values vs" by (simp add: vect_values_def x)
  with Cons x show ?case
    by (auto simp: deliver_append rx_values_deliver see_leaveall_def split: prod.splits)
qed (simp add: vect_values_def)

lemma take_vectors_flagged:
  assumes "flagged l vs" and "\<forall>(w, c)\<in>set (vect_values vs). w \<le> 0xFFF" and "vs \<noteq> []"
  shows "take_vectors src vs False s =
    (case deliver src (vect_values vs) (if l then snd (mvrp_event s MRP_EVENT_RLA None) else s) of (ok, s) \<Rightarrow> (ok, l, s))"
proof -
  obtain v cs vs' where vs: "vs = (l, v, cs) # vs'" using assms(1,3) by (cases vs) auto
  have "vect_values vs = vids v cs @ vect_values vs'" by (simp add: vect_values_def vs)
  with assms(1,2) show ?thesis
    by (auto simp: vs deliver_append rx_values_deliver see_leaveall_def take_vectors_unflagged split: prod.splits)
qed

definition frame_of :: "u8 list \<Rightarrow> vect list \<Rightarrow> u8 list" where
  "frame_of src vs = MVRP_CUSTOMER_BRIDGE_ADDR @ src @ bytes_be 2 MVRP_ETYPE @ [MVRP_PROT_VER] @
     ([MVRP_VID_TYPE, 2] @ concat (map enc_vector vs) @ [0, 0]) @ [0, 0]"

definition padded :: "u8 list \<Rightarrow> u8 list" where
  "padded f = f @ replicate (MAX_FRAME_SIZE - length f) 0"

lemma rx_messages_enc:
  assumes "\<forall>x\<in>set vs. vect_ok x" and at: "drop 15 buf = [MVRP_VID_TYPE, 2] @ concat (map enc_vector vs) @ [0, 0] @ [0, 0] @ rest"
    and eof: "eof = 15 + 2 + length (concat (map enc_vector vs)) + 4"
  shows "rx_messages buf eof src 15 0 False s =
    (case take_vectors src vs False s of (ok, _, s) \<Rightarrow> Some (if ok then 0 else -1, s))"
proof -
  let ?n = "length (concat (map enc_vector vs))"
  have at17: "drop 17 buf = concat (map enc_vector vs) @ [0, 0] @ [0, 0] @ rest"
    using at drop_step [of 15 buf "[MVRP_VID_TYPE, 2]"] by simp
  have at_end: "drop (17 + ?n) buf = [0, 0] @ [0, 0] @ rest" using drop_step [OF at17] by simp
  have r: "rd buf 15 = Some MVRP_VID_TYPE" "rd buf 16 = Some 2" "rd buf (17 + ?n) = Some 0" "rd buf (17 + ?n + 1) = Some 0"
    using at drop_step [of 15 buf "[MVRP_VID_TYPE]"] at_end drop_step [of "17 + ?n" buf "[0]"] by (simp_all add: rd_at)
  have v: "rx_vectors buf eof src 17 False s =
      (case take_vectors src vs False s of (ok, saw, s) \<Rightarrow> Some (if ok then Some (17 + ?n) else None, saw, s))"
    using rx_vectors_enc [OF assms(1) at17, of eof src False s] eof by simp
  have fin: "rx_messages buf eof src (17 + ?n) 0 saw t = Some (0, t)" for saw t
  proof -
    have "rx_messages buf eof src (17 + ?n + 2) 1 saw t = Some (0, t)"
      by (subst rx_messages.simps) (simp add: eof MRPDU_ENDMARK_SZ_def)
    then show ?thesis
      using r(3,4) by (subst rx_messages.simps) (simp add: eof MRPDU_ENDMARK_SZ_def)
  qed
  show ?thesis
    using r(1,2) v fin by (subst rx_messages.simps) (auto simp: eof MRPDU_ENDMARK_SZ_def MVRP_VID_TYPE_def split: prod.splits)
qed

lemma recv_frame:
  assumes "\<forall>x\<in>set vs. vect_ok x" and "flagged l vs" and "vs \<noteq> []" and "\<forall>(w, c)\<in>set (vect_values vs). w \<le> 0xFFF" and "length src = 6"
  shows "mvrp_recv_msg t (int (length (frame_of src vs))) (padded (frame_of src vs)) =
    (case deliver src (vect_values vs) (if l then snd (mvrp_event t MRP_EVENT_RLA None) else t) of
       (ok, t) \<Rightarrow> Some (if ok then 0 else -1, t))"
proof -
  let ?f = "frame_of src vs" and ?z = "replicate (MAX_FRAME_SIZE - length (frame_of src vs)) (0 :: u8)"
  obtain h0 h1 where h: "bytes_be 2 MVRP_ETYPE = [h0, h1]" "word_be [h0, h1] = MVRP_ETYPE" by (rule two_bytes)
  have f: "padded ?f = MVRP_CUSTOMER_BRIDGE_ADDR @ src @ [h0, h1, MVRP_PROT_VER] @
      [MVRP_VID_TYPE, 2] @ concat (map enc_vector vs) @ [0, 0] @ [0, 0] @ ?z"
    by (simp add: padded_def frame_of_def h)
  have len: "length MVRP_CUSTOMER_BRIDGE_ADDR = 6" by (simp add: MVRP_CUSTOMER_BRIDGE_ADDR_def)
  have parts: "take 6 (padded ?f) = MVRP_CUSTOMER_BRIDGE_ADDR" "take 6 (drop 6 (padded ?f)) = src"
    "take 2 (drop 12 (padded ?f)) = [h0, h1]"
    "drop 15 (padded ?f) = [MVRP_VID_TYPE, 2] @ concat (map enc_vector vs) @ [0, 0] @ [0, 0] @ ?z" "14 \<le> length (padded ?f)"
    unfolding f using len assms(5) by simp_all
  have lf: "length ?f = 15 + 2 + length (concat (map enc_vector vs)) + 4"
    using len assms(5) by (simp add: frame_of_def)
  have "17 \<le> length ?f" using lf by simp
  then have "mvrp_recv_msg t (int (length ?f)) (padded ?f) = rx_messages (padded ?f) (length ?f) src 15 0 False t"
    using parts(1-3,5) h(2) by (cases "?f = []") (simp_all add: mvrp_recv_msg_def)
  then show ?thesis
    unfolding rx_messages_enc [OF assms(1) parts(4) lf] take_vectors_flagged [OF assms(2,4,3)] by (simp split: prod.splits)
qed

lemma sent_subset: "set (sent prev as) \<subseteq> set as"
  by (induction prev as rule: sent.induct) auto

text \<open>A frame with at most 390 marked attributes is emitted completely.\<close>

lemma txpdu_frame:
  assumes mem: "mem_ok s (mem_pos s)" and ready: "tx_ready (attrib_list s)" and bound: "marked (attrib_list s) \<le> 390"
    "length (attrib_list s) < 8000" and some: "sent None (attrib_list s) \<noteq> []" and src: "length (station s) = 6"
  obtains vs s' where "mvrp_txpdu s = (if send_rc s (length (frames s)) \<le> 0 then -1 else 0, s')"
    and "frames s' = frames s @ [frame_of (station s) vs]" and "attrib_list s' = map clear_tx (attrib_list s)"
    and "vect_values vs = sent_values (sent None (attrib_list s))" and "\<forall>x\<in>set vs. vect_ok x"
    and "flagged (t_tx (lva (mrp_db s))) vs" and "vs \<noteq> []" and "length (frame_of (station s) vs) \<le> MAX_FRAME_SIZE"
proof -
  let ?l = "t_tx (lva (mrp_db s))"
  have "length [MVRP_VID_TYPE, 2] + 5 * marked (attrib_list s) + 9 \<le> MAX_FRAME_SIZE - 15"
    using bound by (simp add: MAX_FRAME_SIZE_def)
  from emit_loop_spec [OF ready this bound(2), of False ?l]
  obtain vs where e: "emit_loop (MAX_FRAME_SIZE - 15) [MVRP_VID_TYPE, 2] False ?l (attrib_list s) =
      (True, [MVRP_VID_TYPE, 2] @ concat (map enc_vector vs), vs \<noteq> [], map clear_tx (attrib_list s))"
    and vs: "vect_values vs = sent_values (sent None (attrib_list s))" "\<forall>x\<in>set vs. vect_ok x" "flagged ?l vs"
    "length (concat (map enc_vector vs)) \<le> 5 * marked (attrib_list s)" by auto
  have ne: "vs \<noteq> []" using vs(1) some by (auto simp: vect_values_def sent_values_def)
  then have "concat (map enc_vector vs) \<noteq> []" by (cases vs) (auto simp: enc_vector_def dest: arg_cong [of _ _ length])
  then have em: "mvrp_emit_vidvectors (MAX_FRAME_SIZE - 15) b ?l (attrib_list s) =
      (0, [MVRP_VID_TYPE, 2] @ concat (map enc_vector vs) @ [0, 0], map clear_tx (attrib_list s))" for b
    using e ne by (simp add: mvrp_emit_vidvectors_def MAX_FRAME_SIZE_def)
  have fits: "15 + length ([MVRP_VID_TYPE, 2] @ concat (map enc_vector vs) @ [0, 0]) + MRPDU_ENDMARK_SZ < MAX_FRAME_SIZE"
    using vs(4) bound(1) by (simp add: MAX_FRAME_SIZE_def MRPDU_ENDMARK_SZ_def)
  define s' where "s' = snd (mvrp_txpdu s)"
  have "mvrp_txpdu s = (if send_rc s (length (frames s)) \<le> 0 then -1 else 0, s') \<and>
    frames s' = frames s @ [frame_of (station s) vs] \<and> attrib_list s' = map clear_tx (attrib_list s)"
    using mem em fits unfolding s'_def by (cases ?l) (simp_all add: mvrp_txpdu_def mrpd_malloc_def Let_def frame_of_def)
  moreover have "length (frame_of (station s) vs) \<le> MAX_FRAME_SIZE"
    using fits src by (simp add: frame_of_def MVRP_CUSTOMER_BRIDGE_ADDR_def MRPDU_ENDMARK_SZ_def)
  ultimately show thesis using that [of s' vs] vs(1-3) ne by blast
qed

end
