(* ===== verification/Mrp_Machines.thy ===== *)
theory Mrp_Machines
  imports Mrp
begin

text \<open>
  Properties of the MRP state machines: the applicant keeps an abstract declaration,
  announces it until it may be quiet and withdraws it once; the leave-all timer
  sends one message per expiry; and the reports of different states differ.
\<close>

section \<open>The abstract applicant\<close>

definition applicant_state :: "mrp_state \<Rightarrow> bool" where
  "applicant_state st \<longleftrightarrow> st \<notin> {MRP_IN_STATE, MRP_LV_STATE, MRP_MT_STATE}"

definition registrar_state :: "mrp_state \<Rightarrow> bool" where
  "registrar_state st \<longleftrightarrow> st \<in> {MRP_IN_STATE, MRP_LV_STATE, MRP_MT_STATE}"

definition declared :: "mrp_state \<Rightarrow> bool" where
  "declared st \<longleftrightarrow> st \<in> {MRP_VP_STATE, MRP_VN_STATE, MRP_AN_STATE, MRP_AA_STATE, MRP_QA_STATE, MRP_AP_STATE, MRP_QP_STATE}"

text \<open>Declared by a member of its own that is announced, and the states without need to transmit.\<close>

definition announcing :: "mrp_state \<Rightarrow> bool" where
  "announcing st \<longleftrightarrow> st \<in> {MRP_VN_STATE, MRP_AN_STATE, MRP_AA_STATE, MRP_QA_STATE}"

definition quiet :: "mrp_state \<Rightarrow> bool" where
  "quiet st \<longleftrightarrow> st \<in> {MRP_QA_STATE, MRP_QP_STATE}"

text \<open>The specification: an attribute is declared or not.\<close>

definition declare_spec :: "mrp_event \<Rightarrow> bool \<Rightarrow> bool" where
  "declare_spec e d = (if e \<in> {MRP_EVENT_NEW, MRP_EVENT_JOIN} then True
     else if e \<in> {MRP_EVENT_LV, MRP_EVENT_BEGIN} then False else d)"

named_theorems machine_defs

lemmas applicant_defs [machine_defs] =
  applicant_new_def applicant_join_def applicant_lv_def applicant_txla_def applicant_txlaf_def applicant_tx_def
  applicant_rjoinin_def applicant_rin_def applicant_rmt_def applicant_rlv_def applicant_periodic_def
  applicant_switch_def mrp_applicant_fsm_def

lemmas state_sets [machine_defs] =
  applicant_state_def registrar_state_def declared_def announcing_def quiet_def declare_spec_def

text \<open>The next state does not depend on the rest of the attribute.\<close>

lemma applicant_fsm_state:
  "a_state (snd (mrp_applicant_fsm p a e b)) =
     (case applicant_switch p (a_state a) e b of None \<Rightarrow> a_state a | Some (_, _, _, st) \<Rightarrow> st)"
  by (auto simp: mrp_applicant_fsm_def split: option.split)

lemma applicant_switch_spec:
  assumes "applicant_state st" and "applicant_switch p st e b = Some (tx, opt, msg, st')"
  shows "applicant_state st'" "declared st' = declare_spec e (declared st)"
  using assms by (cases st; cases e; auto simp: machine_defs split: if_splits)+

section \<open>Runs of transmissions\<close>

text \<open>
  The applicant under a sequence of transmission opportunities, for each of which
  the flag says whether the registrar is IN: its messages that must be sent, and its final state.
\<close>

fun tx_run :: "int \<Rightarrow> mrp_applicant_attribute \<Rightarrow> bool list \<Rightarrow> mrp_snd list \<times> mrp_applicant_attribute" where
  "tx_run p a [] = ([], a)"
| "tx_run p a (b # bs) =
     (let a' = snd (mrp_applicant_fsm p a MRP_EVENT_TX b); (msgs, a'') = tx_run p a' bs
      in (if a_tx a' \<and> a_encode a' = MRP_ENCODE_YES then a_sndmsg a' # msgs else msgs, a''))"

text \<open>Only the state matters for such a run.\<close>

fun st_run :: "mrp_state \<Rightarrow> bool list \<Rightarrow> mrp_snd list \<times> mrp_state" where
  "st_run st [] = ([], st)"
| "st_run st (b # bs) =
     (case applicant_tx st b of (tx, opt, msg, st') \<Rightarrow> case st_run st' bs of (msgs, st'') \<Rightarrow>
        (if tx \<and> \<not> opt then msg # msgs else msgs, st''))"

lemma tx_run_state: "tx_run p a bs = (msgs, a') \<Longrightarrow> st_run (a_state a) bs = (msgs, a_state a')"
proof (induction bs arbitrary: a msgs)
  case Nil
  then show ?case by simp
next
  case (Cons b bs)
  obtain tx opt msg st where x: "applicant_tx (a_state a) b = (tx, opt, msg, st)" using prod_cases4 by blast
  define a1 where "a1 = snd (mrp_applicant_fsm p a MRP_EVENT_TX b)"
  have a1: "a_tx a1 = tx" "(a_encode a1 = MRP_ENCODE_YES) = (\<not> opt)" "a_sndmsg a1 = msg" "a_state a1 = st"
    using x by (simp_all add: a1_def mrp_applicant_fsm_def applicant_switch_def)
  obtain ms where "tx_run p a1 bs = (ms, a')" "msgs = (if tx \<and> \<not> opt then msg # ms else ms)"
    using Cons.prems a1 by (auto simp: Let_def a1_def [symmetric] split: prod.splits)
  with Cons.IH [of a1 ms] x a1(4) show ?case by simp
qed

lemmas run_defs = applicant_tx_def state_sets

text \<open>The two halves of a report.\<close>

definition app_name :: "mrp_state \<Rightarrow> string" where
  "app_name st = (case st of
            MRP_VO_STATE \<Rightarrow> ''VO'' | MRP_VP_STATE \<Rightarrow> ''VP'' | MRP_VN_STATE \<Rightarrow> ''VN'' | MRP_AN_STATE \<Rightarrow> ''AN''
          | MRP_AA_STATE \<Rightarrow> ''AA'' | MRP_QA_STATE \<Rightarrow> ''QA'' | MRP_LA_STATE \<Rightarrow> ''LA'' | MRP_AO_STATE \<Rightarrow> ''AO''
          | MRP_QO_STATE \<Rightarrow> ''QO'' | MRP_AP_STATE \<Rightarrow> ''AP'' | MRP_QP_STATE \<Rightarrow> ''QP'' | _ \<Rightarrow> ''LO'')"

definition reg_name :: "mrp_state \<Rightarrow> string" where
  "reg_name st = (case st of MRP_IN_STATE \<Rightarrow> ''IN'' | MRP_LV_STATE \<Rightarrow> ''LV'' | _ \<Rightarrow> ''MT'')"

lemma name_inj:
  shows "applicant_state x \<Longrightarrow> applicant_state y \<Longrightarrow> app_name x = app_name y \<longleftrightarrow> x = y"
    and "registrar_state x \<Longrightarrow> registrar_state y \<Longrightarrow> reg_name x = reg_name y \<longleftrightarrow> x = y"
  by (cases x; cases y; simp add: app_name_def reg_name_def state_sets)+

lemma name_length: "length (app_name st) = 2" "length (reg_name st) = 2"
  by (cases st; simp add: app_name_def reg_name_def)+

lemma decode_names:
  assumes "applicant_state (a_state a)" "registrar_state (r_state r)" "8 \<le> n"
  shows "mrp_decode_state r a n = app_name (a_state a) @ ''/'' @ reg_name (r_state r)"
proof -
  obtain k where "n = k + 8" using assms(3) by (metis add.commute le_Suc_ex)
  then have r: "mrp_decode_state r a n = take (k + 6) (app_name (a_state a) @ ''/'' @ reg_name (r_state r))"
    using assms(1,2) by (cases "a_state a"; cases "r_state r";
        simp add: mrp_decode_state_def snprintf_def applicant_state_def registrar_state_def app_name_def reg_name_def)
  show ?thesis unfolding r by (intro take_all) (simp add: name_length)
qed

section \<open>Properties\<close>

text \<open>
  Property C14.  The applicant implements an abstract declaration: New and Join declare
  the attribute, Lv and Begin withdraw it, and no other event - transmission, reception, leave-all
  or periodic - changes whether it is declared; the state stays an applicant state.
\<close>

theorem applicant_refines_declaration:
  assumes "applicant_state (a_state a)" and "mrp_applicant_fsm p a e b = (0, a')"
  shows "applicant_state (a_state a') \<and> declared (a_state a') = declare_spec e (declared (a_state a))"
proof -
  obtain tx opt msg st where s: "applicant_switch p (a_state a) e b = Some (tx, opt, msg, st)" "a_state a' = st"
    using assms(2) by (auto simp: mrp_applicant_fsm_def split: option.splits)
  with applicant_switch_spec [OF assms(1) s(1)] show ?thesis by simp
qed

definition fresh_applicant :: mrp_applicant_attribute where
  "fresh_applicant = \<lparr>a_state = MRP_VO_STATE, a_tx = False, a_sndmsg = MRP_SND_NULL, a_encode = MRP_ENCODE_OPTIONAL, a_previous = None\<rparr>"

theorem applicant_refines_declaration_witness:
  "declared (a_state (snd (mrp_applicant_fsm 1 fresh_applicant MRP_EVENT_NEW False)))"
  using applicant_refines_declaration [of fresh_applicant 1 MRP_EVENT_NEW False]
  by (simp add: mrp_applicant_fsm_def applicant_switch_def applicant_state_def fresh_applicant_def declare_spec_def)

text \<open>
  Property C26.  A declared attribute that hears nothing is quiet after three transmission
  opportunities, whatever its registrar does; on the way it sends only New and Join messages, and at least
  one unless it was quiet before.
\<close>

theorem applicant_settles:
  assumes "declared (a_state a)" and "tx_run p a [b1, b2, b3] = (msgs, a')"
  shows "quiet (a_state a') \<and> set msgs \<subseteq> {MRP_SND_NEW, MRP_SND_JOIN} \<and> (quiet (a_state a) \<or> msgs \<noteq> [])"
  using assms(1) tx_run_state [OF assms(2)] by (cases "a_state a"; auto simp: run_defs split: if_splits)

theorem applicant_settles_witness:
  "quiet (a_state (snd (tx_run 1 (fresh_applicant\<lparr>a_state := MRP_VN_STATE\<rparr>) [False, False, False]))) \<and>
   fst (tx_run 1 (fresh_applicant\<lparr>a_state := MRP_VN_STATE\<rparr>) [False, False, False]) \<noteq> []"
  using applicant_settles [OF _ prod.collapse [symmetric], of "fresh_applicant\<lparr>a_state := MRP_VN_STATE\<rparr>" 1 False False False]
  by (simp add: declared_def quiet_def del: tx_run.simps)

text \<open>
  Property C27.  Withdrawing a declaration that was announced sends exactly one Leave
  message, at the next transmission opportunity, and a declaration that was only passive is withdrawn in
  silence; afterwards the attribute is not declared.
\<close>

theorem applicant_withdraws:
  assumes "declared (a_state a)" and "mrp_applicant_fsm p a MRP_EVENT_LV b = (0, a1)" and "tx_run p a1 [b1, b2] = (msgs, a')"
  shows "msgs = (if announcing (a_state a) then [MRP_SND_LV] else []) \<and> \<not> declared (a_state a')"
proof -
  have "a_state a1 = applicant_lv (a_state a)" using assms(2) by (auto simp: mrp_applicant_fsm_def applicant_switch_def)
  with assms(1) tx_run_state [OF assms(3)] show ?thesis by (cases "a_state a"; auto simp: run_defs applicant_lv_def)
qed

theorem applicant_withdraws_witness:
  "fst (tx_run 1 (snd (mrp_applicant_fsm 1 (fresh_applicant\<lparr>a_state := MRP_QA_STATE\<rparr>) MRP_EVENT_LV True)) [True, True]) = [MRP_SND_LV]"
proof -
  let ?a = "fresh_applicant\<lparr>a_state := MRP_QA_STATE\<rparr>"
  have "mrp_applicant_fsm 1 ?a MRP_EVENT_LV True = (0, snd (mrp_applicant_fsm 1 ?a MRP_EVENT_LV True))"
    by (simp add: mrp_applicant_fsm_def applicant_switch_def)
  from applicant_withdraws [OF _ this prod.collapse [symmetric]] show ?thesis
    by (simp add: declared_def announcing_def del: tx_run.simps)
qed

text \<open>
  After a change of state, the code asks for another transmission
  opportunity exactly if the next one has a message that must be sent, with two exceptions: in
  states AP and LO a message is due but no opportunity is requested.
\<close>

theorem implies_tx_iff_due:
  assumes "applicant_state (a_state a)" and "a_previous a \<noteq> Some (a_state a)"
  shows "mrp_applicant_state_transition_implies_tx a = 1 \<longleftrightarrow>
    fst (tx_run p a [b]) \<noteq> [] \<and> a_state a \<notin> {MRP_AP_STATE, MRP_LO_STATE}"
  using assms by (cases "a_state a") (auto simp: machine_defs mrp_applicant_state_transition_implies_tx_def)

text \<open>
  When the leave-all timer expires the machine restarts it, with a
  time-out from 10 to 15 seconds, and the next transmission sends one leave-all message; the
  one after that sends none.
\<close>

theorem leaveall_once:
  assumes "db1 = snd (mrp_lvatimer_fsm db MRP_EVENT_LVATIMER)" and "db2 = snd (mrp_lvatimer_fsm db1 MRP_EVENT_TX)"
    and "db3 = snd (mrp_lvatimer_fsm db2 MRP_EVENT_TX)"
  shows "(\<exists>ms. calls db1 = calls db @ [Stop LVA_TIMER, Start LVA_TIMER ms] \<and> 10000 \<le> ms \<and> ms < 15000) \<and>
    \<not> t_tx (lva db1) \<and> t_tx (lva db2) \<and> t_sndmsg (lva db2) = MRP_SND_LVA \<and> \<not> t_tx (lva db3)"
  using assms by (auto simp: mrp_lvatimer_fsm_def mrp_lvatimer_start_def mrp_lvatimer_stop_def mrpd_timer_def lva_set_def
      MRP_LVATIMER_VAL_def Let_def)

definition sample_db :: mrp_database where
  "sample_db = \<lparr>lva = \<lparr>t_state = MRP_TIMER_PASSIVE, t_tx = False, t_sndmsg = MRP_SND_NONE\<rparr>, join_timer_running = False,
     lv_timer_running = False, lva_timer_running = True, clients = [], registration = 0, participant = 0, calls = [],
     answers = (\<lambda>i. 0), rands = (\<lambda>i. 12345), rands_pos = 0\<rparr>"

theorem leaveall_once_witness:
  "\<exists>ms. calls (snd (mrp_lvatimer_fsm sample_db MRP_EVENT_LVATIMER)) = [Stop LVA_TIMER, Start LVA_TIMER ms] \<and> 10000 \<le> ms \<and> ms < 15000"
  using leaveall_once [OF refl refl refl, of sample_db] by (simp add: sample_db_def)

text \<open>
  The reports of two pairs of an applicant and a registrar state are
  equal only if the states are: six characters are enough for every combination.
\<close>

theorem decode_state_distinguishes:
  assumes "applicant_state (a_state a)" "applicant_state (a_state a')" and "registrar_state (r_state r)" "registrar_state (r_state r')"
    and "8 \<le> n"
  shows "mrp_decode_state r a n = mrp_decode_state r' a' n \<longleftrightarrow> a_state a = a_state a' \<and> r_state r = r_state r'"
  unfolding decode_names [OF assms(1,3,5)] decode_names [OF assms(2,4,5)]
  using name_inj(1) [OF assms(1,2)] name_inj(2) [OF assms(3,4)] by (simp add: append_eq_append_conv name_length)

end
