(* ===== verification/Mrp_Passes.thy ===== *)
theory Mrp_Passes
  imports Mrp_Codec Mrp_Machines "HOL-Library.Sublist"
begin

text \<open>
  Passes over the attributes of an application: what the machines and the loops over the list
  keep.  The machines of every attribute are in states of their own kind, an attribute marked
  for transmission has a message that can be sent, and the leave timer runs while a registrar is
  leaving; a pass leaves the values of the attributes alone and may only remove some of them.
\<close>

section \<open>The invariant of an application\<close>

definition attr_ok :: "'v attrib \<Rightarrow> bool" where
  "attr_ok a \<longleftrightarrow> applicant_state (a_state (applicant a)) \<and> registrar_state (r_state (registrar a)) \<and>
     (a_tx (applicant a) \<longrightarrow> pdu_event a \<noteq> None)"

definition leaving :: "'v attrib \<Rightarrow> bool" where
  "leaving a \<longleftrightarrow> r_state (registrar a) = MRP_LV_STATE"

definition timers_ok :: "('a, 'z) app \<Rightarrow> bool" where
  "timers_ok s \<longleftrightarrow> (\<forall>i. 0 \<le> answers (mrp_db s) i)"

definition covered :: "'v attrib list \<Rightarrow> ('a, 'z) app \<Rightarrow> bool" where
  "covered as s \<longleftrightarrow> (\<forall>a\<in>set as. leaving a \<longrightarrow> lv_timer_running (mrp_db s))"

definition app_inv :: "('v attrib, 'z) app \<Rightarrow> bool" where
  "app_inv s \<longleftrightarrow> list_all attr_ok (attrib_list s) \<and> covered (attrib_list s) s \<and> timers_ok s"

text \<open>The values of the attributes, which an application adds to the machines.\<close>

definition values_of :: "'v attrib list \<Rightarrow> 'v list" where
  "values_of = map mrp_attribute.more"

lemma values_of_simps [simp]:
  "values_of [] = []" "values_of (a # as) = mrp_attribute.more a # values_of as" "values_of (as @ bs) = values_of as @ values_of bs"
  by (simp_all add: values_of_def)

lemma subseq_set: "subseq xs ys \<Longrightarrow> set xs \<subseteq> set ys"
  by (induction rule: list_emb.induct) auto

lemma subseq_distinct: "subseq xs ys \<Longrightarrow> distinct ys \<Longrightarrow> distinct xs"
  by (induction rule: list_emb.induct) (auto dest: subseq_set)

lemma subseq_sorted_wrt: "subseq xs ys \<Longrightarrow> sorted_wrt R ys \<Longrightarrow> sorted_wrt R xs"
  by (induction rule: list_emb.induct) (auto dest: subseq_set)

section \<open>What an operation leaves alone\<close>

text \<open>The environment of a database, and the preservation of it.\<close>

definition same_env :: "('a, 'z) app \<Rightarrow> ('a, 'z) app \<Rightarrow> bool" where
  "same_env s s' \<longleftrightarrow> answers (mrp_db s') = answers (mrp_db s) \<and> mem_ok s' = mem_ok s \<and> station s' = station s \<and> p2pmac s' = p2pmac s \<and>
     mrp_application.more s' = mrp_application.more s \<and> (lv_timer_running (mrp_db s) \<longrightarrow> lv_timer_running (mrp_db s'))"

lemma same_env_refl [simp]: "same_env s s"
  by (simp add: same_env_def)

lemma same_env_trans: "same_env s t \<Longrightarrow> same_env t u \<Longrightarrow> same_env s u"
  by (simp add: same_env_def)

lemma same_env_attrib [simp]: "same_env s (t\<lparr>attrib_list := as\<rparr>) = same_env s t" "same_env (s\<lparr>attrib_list := as\<rparr>) t = same_env s t"
  by (simp_all add: same_env_def)

lemma timers_ok_env: "same_env s t \<Longrightarrow> timers_ok t = timers_ok s"
  by (simp add: same_env_def timers_ok_def)

lemma covered_env: "same_env s t \<Longrightarrow> covered as s \<Longrightarrow> covered as t"
  by (auto simp: same_env_def covered_def)

lemma malloc_env [simp]: "same_env s (snd (mrpd_malloc s))" "attrib_list (snd (mrpd_malloc s)) = attrib_list s"
  by (simp_all add: mrpd_malloc_def same_env_def)

lemma app_inv_env: "app_inv s \<Longrightarrow> same_env s t \<Longrightarrow> attrib_list t = attrib_list s \<Longrightarrow> app_inv t"
  using timers_ok_env covered_env by (auto simp: app_inv_def)

lemma send_notifications_env [simp]:
  "attrib_list (snd (send_notifications l t s a n)) = attrib_list s" "mrp_db (snd (send_notifications l t s a n)) = mrp_db s"
  "same_env s (snd (send_notifications l t s a n))"
  by (auto simp: send_notifications_def mrpd_malloc_def Let_def same_env_def split: mrp_notify.split)

lemmas timer_defs =
  mrp_jointimer_start_def mrp_jointimer_stop_def mrp_lvtimer_start_def mrp_lvtimer_stop_def mrp_lvatimer_start_def
  mrp_lvatimer_stop_def mrp_lvatimer_fsm_def lva_set_def mrpd_timer_def

text \<open>The timer operations other than stopping the leave timer.\<close>

lemma on_db_env [simp]:
  "attrib_list (on_db f s) = attrib_list s"
  "same_env s (on_db mrp_jointimer_start s)" "same_env s (on_db mrp_jointimer_stop s)"
  "same_env s (on_db mrp_lvatimer_stop s)" "same_env s (on_db (\<lambda>db. mrp_lvatimer_fsm db e) s)"
  by (cases e; auto simp: on_db_def same_env_def timer_defs Let_def)+

lemma lvtimer_stop_env: "timers_ok (on_db mrp_lvtimer_stop s) = timers_ok s"
  by (simp add: on_db_def timers_ok_def timer_defs)

lemma client_env [simp]:
  "attrib_list (add_client s c) = attrib_list s" "same_env s (add_client s c)"
  "attrib_list (drop_client s c) = attrib_list s" "same_env s (drop_client s c)"
  by (simp_all add: add_client_def drop_client_def mrpd_malloc_def Let_def same_env_def)

section \<open>Single attributes\<close>

text \<open>The contract of a pass over attributes: what its body may do to one attribute.\<close>

definition step_ok :: "bool \<Rightarrow> 'v attrib \<Rightarrow> ('v attrib, 'z) app \<Rightarrow> 'v attrib list \<times> ('v attrib, 'z) app \<Rightarrow> bool" where
  "step_ok keep a s = (\<lambda>(xs, s'). same_env s s' \<and> attrib_list s' = attrib_list s \<and>
     (\<forall>a'\<in>set xs. xs = [a'] \<and> mrp_attribute.more a' = mrp_attribute.more a \<and> attr_ok a' \<and>
        (leaving a' \<longrightarrow> lv_timer_running (mrp_db s') \<or> keep \<and> leaving a)))"

lemma step_ok_skip: "attr_ok a \<Longrightarrow> step_ok True a s ([a], s)"
  by (simp add: step_ok_def)

lemma pdu_event_None: "pdu_event a = None \<longleftrightarrow> a_sndmsg (applicant a) \<in> {MRP_SND_LVA, MRP_SND_NULL, MRP_SND_NONE}"
  by (auto simp: pdu_event_def split: mrp_snd.splits)

lemma applicant_switch_sends:
  "applicant_state st \<Longrightarrow> applicant_switch p st e b = Some (True, opt, msg, st') \<Longrightarrow> msg \<notin> {MRP_SND_LVA, MRP_SND_NULL, MRP_SND_NONE}"
  by (cases e; cases st; auto simp: machine_defs)

lemma applicant_step_same [simp]:
  "mrp_attribute.more (applicant_step e a s) = mrp_attribute.more a" "registrar (applicant_step e a s) = registrar a"
  by (simp_all add: applicant_step_def)

lemma applicant_step_ok:
  assumes "attr_ok a"
  shows "attr_ok (applicant_step e a s)"
proof -
  let ?b = "mrp_registrar_in (registrar a)"
  show "attr_ok (applicant_step e a s)"
  proof (cases "applicant_switch (p2pmac s) (a_state (applicant a)) e ?b")
    case None
    then have "applicant_step e a s = a" by (simp add: applicant_step_def mrp_applicant_fsm_def)
    with assms show ?thesis by simp
  next
    case (Some y)
    then obtain tx opt msg st where y: "applicant_switch (p2pmac s) (a_state (applicant a)) e ?b = Some (tx, opt, msg, st)"
      by (cases y) auto
    have st: "applicant_state (a_state (applicant a))" "registrar_state (r_state (registrar a))" using assms by (simp_all add: attr_ok_def)
    have "a_tx (applicant (applicant_step e a s)) = tx" "a_sndmsg (applicant (applicant_step e a s)) = msg"
      "a_state (applicant (applicant_step e a s)) = st"
      using y by (simp_all add: applicant_step_def mrp_applicant_fsm_def)
    moreover have "msg \<notin> {MRP_SND_LVA, MRP_SND_NULL, MRP_SND_NONE}" if tx
      using applicant_switch_sends [OF st(1), of "p2pmac s" e ?b opt msg st] y that by simp
    ultimately show ?thesis
      using st applicant_switch_spec(1) [OF st(1) y] by (simp add: attr_ok_def pdu_event_None)
  qed
qed

text \<open>A transmission event leaves every attribute with a message that can be sent.\<close>

lemma applicant_tx_sends:
  "attr_ok a \<Longrightarrow> e = MRP_EVENT_TX \<or> e = MRP_EVENT_TXLA \<Longrightarrow> pdu_event (applicant_step e a s) \<noteq> None"
  unfolding pdu_event_None by (cases "a_state (applicant a)")
    (auto simp: applicant_step_def mrp_applicant_fsm_def applicant_switch_def applicant_tx_def applicant_txla_def attr_ok_def applicant_state_def)

lemma registrar_switch_ok:
  assumes "registrar_state st" and "registrar_switch st db e = Some (n, st', db')" and "\<forall>i. 0 \<le> answers db i"
  shows "registrar_state st'" "answers db' = answers db" "lv_timer_running db \<Longrightarrow> lv_timer_running db'"
    "st' = MRP_LV_STATE \<Longrightarrow> lv_timer_running db' \<or> st = MRP_LV_STATE"
  using assms by (cases e; cases st; auto simp: registrar_switch_def registrar_leave_def registrar_state_def timer_defs Let_def split: if_splits)+

lemma registrar_step_ok:
  assumes "attr_ok a" "timers_ok s" "registrar_step e a s = (a', s')"
  shows "attr_ok a' \<and> mrp_attribute.more a' = mrp_attribute.more a \<and> applicant a' = applicant a \<and> same_env s s' \<and> attrib_list s' = attrib_list s \<and>
      (leaving a' \<longrightarrow> lv_timer_running (mrp_db s') \<or> leaving a)"
proof (cases "registrar_switch (r_state (registrar a)) (mrp_db s) e")
  case None
  then show ?thesis using assms by (auto simp: registrar_step_def mrp_registrar_fsm_def)
next
  case (Some y)
  then obtain n st db where y: "registrar_switch (r_state (registrar a)) (mrp_db s) e = Some (n, st, db)" by (cases y) auto
  then have r: "a' = a\<lparr>registrar := (registrar a)\<lparr>r_state := st, r_notify := n\<rparr>\<rparr>" "s' = s\<lparr>mrp_db := db\<rparr>"
    using assms(3) by (simp_all add: registrar_step_def mrp_registrar_fsm_def)
  have "registrar_state (r_state (registrar a))" "\<forall>i. 0 \<le> answers (mrp_db s) i" using assms(1,2) by (simp_all add: attr_ok_def timers_ok_def)
  note o = registrar_switch_ok [OF this(1) y this(2)]
  show ?thesis using assms(1) o r by (auto simp: attr_ok_def leaving_def same_env_def pdu_event_None)
qed

lemma both_step_ok:
  assumes "attr_ok a" "timers_ok s"
  shows "step_ok True a s (both_step e a s)"
proof -
  obtain a' s' where r: "registrar_step e (applicant_step e a s) s = (a', s')" by (cases "registrar_step e (applicant_step e a s) s")
  note o = registrar_step_ok [OF applicant_step_ok [OF assms(1)] assms(2) r]
  have "leaving (applicant_step e a s) = leaving a" by (simp add: leaving_def)
  with r o show ?thesis by (simp add: both_step_def step_ok_def)
qed

lemma applicant_only_ok: "attr_ok a \<Longrightarrow> step_ok True a s ([applicant_step e a s], s)"
  using applicant_step_ok [of a e s] by (simp add: step_ok_def leaving_def)

lemma reclaim_ok: "attr_ok a \<Longrightarrow> step_ok True a s (conditional_reclaim l t a s)"
  by (simp add: conditional_reclaim_def step_ok_def)

lemma notify_attribute_ok: "attr_ok a \<Longrightarrow> step_ok True a s (notify_attribute l t a s)"
  by (auto simp: notify_attribute_def step_ok_def attr_ok_def leaving_def pdu_event_None)

lemma step_ok_then:
  assumes "mrp_attribute.more a' = mrp_attribute.more a" "same_env s s'" "attrib_list s' = attrib_list s"
    "leaving a' \<Longrightarrow> lv_timer_running (mrp_db s') \<or> keep \<and> leaving a" "step_ok True a' s' r"
  shows "step_ok keep a s r"
  using assms by (cases r) (auto simp: step_ok_def same_env_def)

lemma lvtimer_step_ok:
  assumes "attr_ok a" "timers_ok s"
  shows "step_ok False a s (case registrar_step MRP_EVENT_LVTIMER a s of (a, s) \<Rightarrow> conditional_reclaim l t a s)"
proof -
  obtain a' s' where r: "registrar_step MRP_EVENT_LVTIMER a s = (a', s')" by (cases "registrar_step MRP_EVENT_LVTIMER a s")
  note o = registrar_step_ok [OF assms r]
  have "\<not> leaving a'"
    using r assms(1) by (cases "r_state (registrar a)")
      (auto simp: registrar_step_def mrp_registrar_fsm_def registrar_switch_def leaving_def attr_ok_def registrar_state_def)
  then have "step_ok False a s (conditional_reclaim l t a' s')"
    using o by (intro step_ok_then [of a' a s s'] reclaim_ok) auto
  then show ?thesis by (simp add: r)
qed

lemma attribute_step_ok:
  assumes "attr_ok a" "timers_ok s" "attribute_step e a s = (a', s')"
  shows "attr_ok a' \<and> mrp_attribute.more a' = mrp_attribute.more a \<and> same_env s s' \<and> attrib_list s' = attrib_list s \<and>
    (leaving a' \<longrightarrow> lv_timer_running (mrp_db s') \<or> leaving a)"
proof -
  let ?a = "applicant_step e a s"
  define ev where "ev = (case e of MRP_EVENT_NEW \<Rightarrow> MRP_EVENT_BEGIN
    | MRP_EVENT_JOIN \<Rightarrow> if r_state (registrar ?a) = MRP_IN_STATE then MRP_EVENT_RJOININ else MRP_EVENT_RJOINMT
    | MRP_EVENT_LV \<Rightarrow> MRP_EVENT_RLV | _ \<Rightarrow> e)"
  obtain a1 s1 where r: "registrar_step ev ?a s = (a1, s1)" by (cases "registrar_step ev ?a s")
  have e: "s' = s1" "a' = (if e = MRP_EVENT_NEW then a1\<lparr>registrar := (registrar a1)\<lparr>r_notify := MRP_NOTIFY_NEW\<rparr>\<rparr> else a1)"
    using assms(3) r by (cases e; simp add: attribute_step_def ev_def Let_def)+
  note o = registrar_step_ok [OF applicant_step_ok [OF assms(1)] assms(2) r]
  have "leaving ?a = leaving a" by (simp add: leaving_def)
  with o e show ?thesis by (auto simp: attr_ok_def leaving_def pdu_event_None)
qed

lemma attribute_reclaim_ok:
  assumes "attr_ok a" "timers_ok s"
  shows "step_ok True a s (case attribute_step e a s of (a, s) \<Rightarrow> conditional_reclaim l t a s)"
proof -
  obtain a' s' where r: "attribute_step e a s = (a', s')" by (cases "attribute_step e a s")
  note o = attribute_step_ok [OF assms r]
  have "step_ok True a s (conditional_reclaim l t a' s')"
    by (rule step_ok_then [of a' a s s']) (use o reclaim_ok in auto)
  then show ?thesis by (simp add: r)
qed

section \<open>Passes over the list\<close>

text \<open>
  The contract that a body of the loops over the list has to keep; with it a pass keeps the
  invariant and the values.  A pass that does not keep leaving registrars needs no leave timer.
\<close>

locale attribute_pass =
  fixes body :: "'v attrib \<Rightarrow> ('v attrib, 'z) app \<Rightarrow> 'v attrib list \<times> ('v attrib, 'z) app"
    and keep :: bool
  assumes body_ok: "attr_ok a \<Longrightarrow> timers_ok s \<Longrightarrow> step_ok keep a s (body a s)"
begin

lemma body_values:
  assumes "attr_ok a" "timers_ok s" "body a s = (xs, s')"
  shows "same_env s s'" "attrib_list s' = attrib_list s" "list_all attr_ok xs" "subseq (values_of xs) [mrp_attribute.more a]"
    "(keep \<Longrightarrow> covered [a] s) \<Longrightarrow> covered xs s'"
proof -
  have o: "same_env s s'" "attrib_list s' = attrib_list s"
    "\<forall>a'\<in>set xs. xs = [a'] \<and> mrp_attribute.more a' = mrp_attribute.more a \<and> attr_ok a' \<and> (leaving a' \<longrightarrow> lv_timer_running (mrp_db s') \<or> keep \<and> leaving a)"
    using body_ok [OF assms(1,2)] assms(3) by (simp_all add: step_ok_def)
  then show "same_env s s'" "attrib_list s' = attrib_list s" "list_all attr_ok xs" by (simp_all add: list_all_iff)
  show "subseq (values_of xs) [mrp_attribute.more a]"
  proof (cases xs)
    case (Cons a' r)
    then have "xs = [a']" "mrp_attribute.more a' = mrp_attribute.more a" using o(3) by auto
    then show ?thesis by simp
  qed simp
  show "covered xs s'" if "keep \<Longrightarrow> covered [a] s" using o that by (auto simp: covered_def same_env_def)
qed

lemma for_attributes_ok:
  assumes "list_all attr_ok as" "timers_ok s" "keep \<Longrightarrow> covered as s" "for_attributes body as s = (ys, s')"
  shows "same_env s s' \<and> attrib_list s' = attrib_list s \<and> list_all attr_ok ys \<and> covered ys s' \<and> subseq (values_of ys) (values_of as)"
  using assms
proof (induction as arbitrary: s ys)
  case Nil
  then show ?case by (simp add: covered_def)
next
  case (Cons a as)
  obtain xs s1 where b: "body a s = (xs, s1)" by (cases "body a s")
  obtain zs where z: "for_attributes body as s1 = (zs, s')" "ys = xs @ zs" using Cons.prems(4) b by (auto split: prod.splits)
  have g: "attr_ok a" "list_all attr_ok as" using Cons.prems(1) by simp_all
  note o = body_values [OF g(1) Cons.prems(2) b]
  have t1: "timers_ok s1" using Cons.prems(2) timers_ok_env [OF o(1)] by simp
  have c1: "keep \<Longrightarrow> covered as s1" using covered_env [OF o(1), of as] Cons.prems(3) by (simp add: covered_def)
  note IH = Cons.IH [OF g(2) t1 c1 z(1)]
  have "covered xs s1" using Cons.prems(3) by (intro o(5)) (simp add: covered_def)
  then have "covered ys s'" using IH z(2) covered_env [of s1 s' xs] by (auto simp: covered_def)
  moreover have "subseq (values_of ys) (values_of (a # as))" using list_emb_append_mono [OF o(4)] IH z(2) by fastforce
  ultimately show ?case using IH o(1-3) z(2) same_env_trans by auto
qed

lemma over_list_ok:
  assumes "list_all attr_ok (attrib_list s)" "timers_ok s" "keep \<Longrightarrow> covered (attrib_list s) s"
  shows "app_inv (over_list body s)" "same_env s (over_list body s)"
    "subseq (values_of (attrib_list (over_list body s))) (values_of (attrib_list s))"
proof -
  obtain ys s' where f: "for_attributes body (attrib_list s) s = (ys, s')" by (cases "for_attributes body (attrib_list s) s")
  note o = for_attributes_ok [OF assms f]
  have "timers_ok s'" using o assms(2) timers_ok_env by blast
  then show "app_inv (over_list body s)" "same_env s (over_list body s)"
    "subseq (values_of (attrib_list (over_list body s))) (values_of (attrib_list s))"
    using o f by (simp_all add: over_list_def app_inv_def covered_def timers_ok_def)
qed

lemma over_list_app:
  assumes "app_inv s"
  shows "app_inv (over_list body s)" "same_env s (over_list body s)"
    "subseq (values_of (attrib_list (over_list body s))) (values_of (attrib_list s))"
  using over_list_ok [of s] assms by (simp_all add: app_inv_def)

lemma at_first_ok:
  assumes "list_all attr_ok as" "timers_ok s" "covered as s" "at_first P body as s = (ys, s')"
  shows "same_env s s' \<and> attrib_list s' = attrib_list s \<and> list_all attr_ok ys \<and> covered ys s' \<and> subseq (values_of ys) (values_of as)"
  using assms
proof (induction as arbitrary: ys)
  case Nil
  then show ?case by simp
next
  case (Cons a as)
  have g: "attr_ok a" "list_all attr_ok as" "covered as s" "covered [a] s" using Cons.prems(1,3) by (auto simp: covered_def)
  show ?case
  proof (cases "P a")
    case True
    then obtain xs where b: "body a s = (xs, s')" "ys = xs @ as" using Cons.prems(4) by (auto split: prod.splits)
    note o = body_values [OF g(1) Cons.prems(2) b(1)]
    have "covered ys s'" using o(5) g covered_env [OF o(1), of as] b(2) by (auto simp: covered_def)
    moreover have "subseq (values_of ys) (values_of (a # as))" using list_emb_append_mono [OF o(4)] b(2) by fastforce
    ultimately show ?thesis using o(1-3) b(2) g(2) by simp
  next
    case False
    then obtain zs where z: "at_first P body as s = (zs, s')" "ys = a # zs" using Cons.prems(4) by (auto split: prod.splits)
    note IH = Cons.IH [OF g(2) Cons.prems(2) g(3) z(1)]
    have "covered ys s'" using IH z(2) g(4) covered_env [of s s' "[a]"] by (auto simp: covered_def)
    then show ?thesis using IH z(2) g(1) by simp
  qed
qed

end

interpretation both: attribute_pass "both_step e" True for e
  by unfold_locales (rule both_step_ok)

interpretation applicants: attribute_pass "\<lambda>a s. ([applicant_step e a s], s)" True for e
  by unfold_locales (rule applicant_only_ok)

interpretation leaves: attribute_pass "\<lambda>a s. case registrar_step MRP_EVENT_LVTIMER a s of (a, s) \<Rightarrow> conditional_reclaim l t a s" False for l t
  by unfold_locales (rule lvtimer_step_ok)

interpretation reclaims: attribute_pass "conditional_reclaim l t" True for l t
  by unfold_locales (rule reclaim_ok)

interpretation notifies: attribute_pass "notify_attribute l t" True for l t
  by unfold_locales (rule notify_attribute_ok)

interpretation requests: attribute_pass "\<lambda>a s. case attribute_step e a s of (a, s) \<Rightarrow> conditional_reclaim l t a s" True for e l t
  by unfold_locales (rule attribute_reclaim_ok)

text \<open>A pass that treats only some attributes.\<close>

lemma selective_ok:
  "attr_ok a \<Longrightarrow> timers_ok s \<Longrightarrow> step_ok True a s (if P a then both_step e a s else ([a], s))"
  by (simp add: both_step_ok step_ok_skip)

interpretation selective: attribute_pass "\<lambda>a s. if P a then both_step e a s else ([a], s)" True for P e
  by unfold_locales (rule selective_ok)

text \<open>Passes that do not send frames.\<close>

lemma applicants_map:
  "for_attributes (\<lambda>a s. ([applicant_step e a s], s)) as s = (map (\<lambda>a. applicant_step e a s) as, s)"
  by (induction as) simp_all

lemma notify_pass_frames: "frames (snd (for_attributes (notify_attribute l t) as s)) = frames s"
proof (induction as arbitrary: s)
  case (Cons a as)
  have "frames (snd (send_notifications l t s a n)) = frames s" for n
    by (auto simp: send_notifications_def mrpd_malloc_def Let_def split: mrp_notify.split)
  then have "frames (snd (notify_attribute l t a s)) = frames s" by (simp add: notify_attribute_def)
  with Cons show ?case by (simp add: case_prod_beta)
qed simp

lemma notify_keeps_frames: "frames (over_list (notify_attribute l t) s) = frames s"
  using notify_pass_frames [of l t "attrib_list s" s] by (simp add: over_list_def case_prod_beta)

section \<open>Transmission only clears flags\<close>

definition cleared :: "'v attrib list \<Rightarrow> 'v attrib list \<Rightarrow> bool" where
  "cleared = list_all2 (\<lambda>a b. b = a \<or> b = clear_tx a)"

lemma cleared_refl [simp]: "cleared as as"
  by (simp add: cleared_def list_all2_refl)

lemma cleared_Cons: "cleared as bs \<Longrightarrow> b = a \<or> b = clear_tx a \<Longrightarrow> cleared (a # as) (b # bs)"
  by (simp add: cleared_def)

lemma cleared_trans: "cleared as bs \<Longrightarrow> cleared bs cs \<Longrightarrow> cleared as cs"
  unfolding cleared_def by (rule list_all2_trans [of "\<lambda>a b. b = a \<or> b = clear_tx a" "\<lambda>a b. b = a \<or> b = clear_tx a"]) auto

lemma cleared_keeps:
  assumes "cleared as bs"
  shows "list_all attr_ok as \<Longrightarrow> list_all attr_ok bs" "covered as s \<Longrightarrow> covered bs s" "values_of bs = values_of as" "length bs = length as"
proof -
  have l: "list_all2 (\<lambda>a b. mrp_attribute.more b = mrp_attribute.more a \<and> (attr_ok a \<longrightarrow> attr_ok b) \<and> leaving b = leaving a) as bs"
    using assms unfolding cleared_def by (elim list_all2_mono) (auto simp: attr_ok_def leaving_def)
  then have "list_all attr_ok as \<longrightarrow> list_all attr_ok bs" "covered as s \<longrightarrow> covered bs s" "values_of bs = values_of as"
    by (induction as bs rule: list_all2_induct) (auto simp: covered_def)
  then show "list_all attr_ok as \<Longrightarrow> list_all attr_ok bs" "covered as s \<Longrightarrow> covered bs s" "values_of bs = values_of as" by blast+
  show "length bs = length as" using assms by (simp add: cleared_def list_all2_lengthD)
qed

lemma app_inv_cleared:
  "app_inv s \<Longrightarrow> same_env s t \<Longrightarrow> cleared (attrib_list s) (attrib_list t) \<Longrightarrow> app_inv t"
  using cleared_keeps [of "attrib_list s" "attrib_list t"] timers_ok_env covered_env by (fastforce simp: app_inv_def)

lemma flag_app [simp]: "app_inv (s\<lparr>send_empty_LeaveAll_flag := b\<rparr>) = app_inv s"
  by (simp add: app_inv_def covered_def timers_ok_def)

text \<open>A new attribute.\<close>

definition fresh :: "'v attrib \<Rightarrow> bool" where
  "fresh r \<longleftrightarrow> attr_ok r \<and> \<not> leaving r"

lemma new_fresh: "fresh (a\<lparr>applicant := new_applicant, registrar := new_registrar\<lparr>r_macaddr := m\<rparr>\<rparr>)"
  "applicant a = new_applicant \<Longrightarrow> r_state (registrar a) = MRP_MT_STATE \<Longrightarrow> fresh a"
  by (simp_all add: fresh_def attr_ok_def leaving_def new_applicant_def new_registrar_def state_sets)

end
