(* ===== verification/Mvrp_Invariant.thy ===== *)
theory Mvrp_Invariant
  imports Mvrp_Codec Mrp_Passes
begin

text \<open>
  The invariant of the VLAN database, and that every operation keeps it: the attributes
  are strictly sorted by VID, their machines are in states of their own kind, an attribute
  marked for transmission has a message that can be sent, and the leave timer runs while a
  registrar is leaving.
\<close>

section \<open>The invariant\<close>

definition good :: "mvrp_attribute list \<Rightarrow> bool" where
  "good as \<longleftrightarrow> sorted_wrt (<) (map attribute as) \<and> (\<forall>a\<in>set as. attr_ok a)"

definition mvrp_inv :: "mvrp_database \<Rightarrow> bool" where
  "mvrp_inv s \<longleftrightarrow> good (attrib_list s) \<and> covered (attrib_list s) s \<and> timers_ok s"

lemma inv_parts: "mvrp_inv s \<Longrightarrow> good (attrib_list s)" "mvrp_inv s \<Longrightarrow> timers_ok s" "mvrp_inv s \<Longrightarrow> covered (attrib_list s) s"
  by (simp_all add: mvrp_inv_def)

lemma mvrp_inv_app: "mvrp_inv s \<longleftrightarrow> app_inv s \<and> sorted_wrt (<) (map attribute (attrib_list s))"
  by (auto simp: mvrp_inv_def good_def app_inv_def list_all_iff)

lemma inv_env: "mvrp_inv s \<Longrightarrow> same_env s t \<Longrightarrow> attrib_list t = attrib_list s \<Longrightarrow> mvrp_inv t"
  using app_inv_env by (auto simp: mvrp_inv_app)

text \<open>The VID is the value that the application adds to an attribute.\<close>

definition vid_of :: "unit mvrp_attribute_ext \<Rightarrow> u16" where
  "vid_of x = attribute (\<lparr>applicant = new_applicant, registrar = new_registrar, \<dots> = x\<rparr>)"

lemma vid_of_more [simp]: "vid_of (mrp_attribute.more a) = attribute a"
  by (cases a) (simp add: vid_of_def)

lemma attribute_value: "map attribute as = map vid_of (values_of as)"
  by (simp add: values_of_def)

lemma sorted_values:
  fixes as ys :: "mvrp_attribute list"
  assumes "subseq (values_of ys) (values_of as)"
  shows "sorted_wrt (<) (map attribute as) \<Longrightarrow> sorted_wrt (<) (map attribute ys)" "attribute ` set ys \<subseteq> attribute ` set as"
proof -
  have m: "subseq (map attribute ys) (map attribute as)"
    using subseq_map [OF assms, of vid_of] by (simp add: attribute_value [symmetric])
  then show "sorted_wrt (<) (map attribute as) \<Longrightarrow> sorted_wrt (<) (map attribute ys)" by (rule subseq_sorted_wrt)
  show "attribute ` set ys \<subseteq> attribute ` set as" using subseq_set [OF m] by simp
qed

lemma inv_shrinks:
  "mvrp_inv s \<Longrightarrow> app_inv t \<Longrightarrow> subseq (values_of (attrib_list t)) (values_of (attrib_list s)) \<Longrightarrow> mvrp_inv t"
  using sorted_values(1) by (auto simp: mvrp_inv_app)

lemma pass_inv:
  assumes "mvrp_inv s"
  shows "mvrp_inv (over_list (both_step e) s)" "mvrp_inv (over_list (\<lambda>a s. ([applicant_step e a s], s)) s)"
    "mvrp_inv (over_list mvrp_conditional_reclaim s)" "mvrp_inv (over_list notify_step s)"
proof -
  have a: "app_inv s" using assms by (simp add: mvrp_inv_app)
  show "mvrp_inv (over_list (both_step e) s)" by (rule inv_shrinks [OF assms both.over_list_app(1,3) [OF a]])
  show "mvrp_inv (over_list (\<lambda>a s. ([applicant_step e a s], s)) s)" by (rule inv_shrinks [OF assms applicants.over_list_app(1,3) [OF a]])
  show "mvrp_inv (over_list mvrp_conditional_reclaim s)"
    unfolding mvrp_conditional_reclaim_def by (rule inv_shrinks [OF assms reclaims.over_list_app(1,3) [OF a]])
  show "mvrp_inv (over_list notify_step s)"
    unfolding notify_step_def by (rule inv_shrinks [OF assms notifies.over_list_app(1,3) [OF a]])
qed

lemma pass_env:
  assumes "mvrp_inv s"
  shows "same_env s (over_list (both_step e) s)" "same_env s (over_list notify_step s)"
  using assms both.over_list_app(2) notifies.over_list_app(2) by (auto simp: mvrp_inv_app notify_step_def)

section \<open>Events keep the invariant\<close>

lemma inv_timers:
  assumes "mvrp_inv s"
  shows "mvrp_inv (on_db mrp_jointimer_start s)" "mvrp_inv (on_db mrp_jointimer_stop s)" "mvrp_inv (on_db mrp_lvatimer_stop s)"
    "mvrp_inv (on_db (\<lambda>db. mrp_lvatimer_fsm db e) s)"
  by (auto intro!: inv_env [OF assms])

lemma vector_loop_cleared:
  "vector_loop room vp vid evs packed n as = (ok, evs', packed', n', as') \<Longrightarrow> cleared as as'"
  by (induction room vp vid evs packed n as arbitrary: as' rule: vector_loop.induct)
    (auto simp: Let_def intro: cleared_Cons split: if_splits option.splits prod.splits)

lemma emit_loop_cleared: "emit_loop room out found l as = (ok, out', found', as') \<Longrightarrow> cleared as as'"
proof (induction room out found l as arbitrary: ok out' found' as' rule: emit_loop.induct)
  case (2 room out found l a as)
  let ?enter = "(if found then length out else 0) + 6 + MRPDU_ENDMARK_SZ < room"
  consider (stop) "\<not> ?enter" | (idle) ?enter "\<not> a_tx (applicant a)"
    | (opt) ?enter "a_tx (applicant a)" "a_encode (applicant a) = MRP_ENCODE_OPTIONAL"
    | (yes) ?enter "a_tx (applicant a)" "a_encode (applicant a) \<noteq> MRP_ENCODE_OPTIONAL" by blast
  then show ?case
  proof cases
    case stop
    with "2.prems" show ?thesis by auto
  next
    case idle
    with "2.prems" 2(1) show ?thesis by (auto intro!: cleared_Cons split: prod.splits)
  next
    case opt
    with "2.prems" 2(2) show ?thesis by (auto intro!: cleared_Cons split: prod.splits)
  next
    case yes
    show ?thesis
    proof (cases "pdu_event a")
      case None
      with yes "2.prems" show ?thesis by (auto intro!: cleared_Cons)
    next
      case (Some e)
      obtain vok evs packed n bs where v: "vector_loop room (length out) (attribute a) [mrpdu_code e] [] 1 as = (vok, evs, packed, n, bs)"
        using prod_cases5 by blast
      let ?p = "if evs \<noteq> [] then packed @ [pack3 evs] else packed"
      let ?bad = "\<not> vok \<or> room < length out + 2 + (2 + length ?p) + MRPDU_ENDMARK_SZ"
      note cb = vector_loop_cleared [OF v]
      show ?thesis
      proof (cases ?bad)
        case True
        then have "as' = clear_tx a # bs" using yes Some v "2.prems" by (cases vok) (auto simp: Let_def)
        with cb show ?thesis by (simp add: cleared_Cons)
      next
        case False
        then obtain cs where c: "as' = clear_tx a # cs"
          "emit_loop room (out @ vector_header n l @ bytes_be 2 (attribute a) @ ?p) True False bs = (ok, out', found', cs)"
          using yes Some v "2.prems" by (auto simp: Let_def split: prod.splits)
        have "cleared bs cs"
          using 2(3) [OF _ _ yes(3) Some v [symmetric] refl refl refl _ refl _ c(2)] yes False by simp
        with cb c(1) show ?thesis using cleared_trans [of as bs cs] by (simp add: cleared_Cons)
      qed
    qed
  qed
qed simp

lemma txpdu_ok:
  assumes "mvrp_inv s"
  shows "mvrp_inv (snd (mvrp_txpdu s))" "same_env s (snd (mvrp_txpdu s))"
proof -
  have c: "cleared as bs" if "mvrp_emit_vidvectors room b l as = (rc, out, bs)" for room b l as rc out bs
    using that by (auto simp: mvrp_emit_vidvectors_def Let_def dest!: emit_loop_cleared split: if_splits prod.splits)
  have x: "cleared (attrib_list s) (attrib_list (snd (mvrp_txpdu s))) \<and> same_env s (snd (mvrp_txpdu s))"
    by (auto simp: mvrp_txpdu_def mrpd_malloc_def same_env_def Let_def dest!: c split: prod.splits)
  then show "mvrp_inv (snd (mvrp_txpdu s))" "same_env s (snd (mvrp_txpdu s))"
    using assms app_inv_cleared [of s "snd (mvrp_txpdu s)"] cleared_keeps(3) [of "attrib_list s" "attrib_list (snd (mvrp_txpdu s))"]
    by (simp_all add: mvrp_inv_app attribute_value)
qed

lemma flag_inv [simp]: "mvrp_inv (s\<lparr>send_empty_LeaveAll_flag := b\<rparr>) = mvrp_inv s"
  by (simp add: mvrp_inv_def covered_def timers_ok_def)

lemma event_lvatimer_inv: "mvrp_inv s \<Longrightarrow> mvrp_inv (event_lvatimer s)"
  unfolding event_lvatimer_def Let_def flag_inv
  by (intro txpdu_ok inv_timers pass_inv flag_inv [THEN iffD2])

lemma event_rla_inv: "mvrp_inv s \<Longrightarrow> mvrp_inv (event_rla s)"
  unfolding event_rla_def Let_def by (intro inv_timers pass_inv)

lemma event_tx_inv: "mvrp_inv s \<Longrightarrow> mvrp_inv (event_tx s)"
  unfolding event_tx_def Let_def by (simp split: if_split) (intro conjI impI txpdu_ok inv_timers pass_inv; assumption)

lemma event_lvtimer_inv: "mvrp_inv s \<Longrightarrow> mvrp_inv (event_lvtimer s)"
proof -
  assume i: "mvrp_inv s"
  let ?s = "on_db mrp_lvtimer_stop s"
  have "list_all attr_ok (attrib_list ?s)" "timers_ok ?s" using i by (simp_all add: mvrp_inv_app app_inv_def lvtimer_stop_env)
  note o = leaves.over_list_ok [OF this, simplified]
  show ?thesis unfolding event_lvtimer_def mvrp_conditional_reclaim_def by (rule inv_shrinks [OF i]) (use o in simp_all)
qed

lemma event_periodic_inv: "mvrp_inv s \<Longrightarrow> mvrp_inv (event_periodic s)"
  unfolding event_periodic_def Let_def by (rule pass_inv) (simp add: inv_timers)

section \<open>Requests and received messages\<close>

lemma lookup_None: "mvrp_lookup s v = None \<longleftrightarrow> v \<notin> attribute ` set (attrib_list s)"
  by (auto simp: mvrp_lookup_def find_None_iff)

lemma set_insert_attribute [simp]: "set (insert_attribute r as) = insert r (set as)"
  by (induction r as rule: insert_attribute.induct) auto

lemma good_insert: "good as \<Longrightarrow> attr_ok r \<Longrightarrow> attribute r \<notin> attribute ` set as \<Longrightarrow> good (insert_attribute r as)"
  by (induction r as rule: insert_attribute.induct) (force simp: good_def not_less)+

lemma update_attribute_ok:
  assumes "good as" "\<And>a. attribute (f a) = attribute a" "\<And>a. attr_ok a \<Longrightarrow> attr_ok (f a)" "\<And>a. leaving (f a) = leaving a"
  shows "good (update_attribute v f as)" "covered (update_attribute v f as) s = covered as s"
    "map attribute (update_attribute v f as) = map attribute as"
proof -
  show m: "map attribute (update_attribute v f as) = map attribute as" by (induction as) (auto simp: assms(2))
  have "\<forall>a\<in>set (update_attribute v f as). attr_ok a"
    using assms(1) unfolding good_def by (induction as) (auto simp: assms(3))
  then show "good (update_attribute v f as)" using assms(1) m by (simp add: good_def)
  show "covered (update_attribute v f as) s = covered as s" unfolding covered_def by (induction as) (auto simp: assms(4))
qed

lemma alloc_fresh:
  assumes "mvrp_alloc s = (Some a, s')"
  shows "fresh (a\<lparr>attribute := v\<rparr>)" "fresh (a\<lparr>attribute := v, registrar := (registrar a)\<lparr>r_macaddr := m\<rparr>\<rparr>)"
  using assms by (auto simp: mvrp_alloc_def mrpd_malloc_def Let_def fresh_def attr_ok_def leaving_def state_sets new_applicant_def new_registrar_def split: if_splits)

lemma alloc_env: "mvrp_alloc s = (r, s') \<Longrightarrow> same_env s s' \<and> attrib_list s' = attrib_list s"
  by (auto simp: mvrp_alloc_def mrpd_malloc_def Let_def same_env_def)

lemma merge_or_add_inv:
  assumes "mvrp_inv s" "fresh r"
  defines "t \<equiv> (if mvrp_lookup s (attribute r) = None then mvrp_add s r else snd (mvrp_merge s r))"
  shows "mvrp_inv t" "same_env s t"
proof -
  have f: "attr_ok r" "\<not> leaving r" using assms(2) by (simp_all add: fresh_def)
  show "same_env s t" by (auto simp: t_def mvrp_add_def mvrp_merge_def split: option.splits)
  let ?m = "\<lambda>a. a\<lparr>registrar := (registrar a)\<lparr>r_macaddr := r_macaddr (registrar r)\<rparr>\<rparr>"
  have u: "good (update_attribute v ?m (attrib_list s))" "covered (update_attribute v ?m (attrib_list s)) s" for v
    using update_attribute_ok(1,2) [OF inv_parts(1) [OF assms(1)], of ?m] inv_parts(3) [OF assms(1)]
    by (auto simp: attr_ok_def leaving_def pdu_event_None)
  show "mvrp_inv t"
  proof (cases "mvrp_lookup s (attribute r) = None")
    case True
    then have "t = s\<lparr>attrib_list := insert_attribute r (attrib_list s)\<rparr>" "good (insert_attribute r (attrib_list s))"
      using good_insert [OF inv_parts(1) [OF assms(1)] f(1)] lookup_None [of s "attribute r"] by (simp_all add: t_def mvrp_add_def)
    then show ?thesis using assms(1) f(2) by (auto simp: mvrp_inv_def covered_def timers_ok_def)
  next
    case False
    then show ?thesis using assms(1) u
      by (auto simp: t_def mvrp_merge_def mvrp_inv_def covered_def timers_ok_def split: option.splits)
  qed
qed

lemma at_attribute_ok:
  assumes "mvrp_inv t"
    and "at_attribute v (\<lambda>a s. case attribute_step e a s of (a, s) \<Rightarrow> mvrp_conditional_reclaim a s) (attrib_list t) t = (ys, s')"
  shows "same_env t s' \<and> attrib_list s' = attrib_list t \<and> good ys \<and> covered ys s' \<and> attribute ` set ys \<subseteq> attribute ` set (attrib_list t)"
proof -
  have a: "list_all attr_ok (attrib_list t)" "timers_ok t" "covered (attrib_list t) t" "sorted_wrt (<) (map attribute (attrib_list t))"
    using assms(1) by (simp_all add: mvrp_inv_app app_inv_def)
  note o = requests.at_first_ok [OF a(1-3) assms(2) [unfolded mvrp_conditional_reclaim_def]]
  then show ?thesis using sorted_values [of ys "attrib_list t"] a(4) by (auto simp: good_def list_all_iff)
qed

lemma event_attribute_ok:
  assumes "mvrp_inv s" "fresh r"
  shows "mvrp_inv (snd (event_attribute e r s))" "same_env s (snd (event_attribute e r s))"
proof -
  let ?t = "if mvrp_lookup s (attribute r) = None then mvrp_add s r else snd (mvrp_merge s r)"
  let ?body = "\<lambda>a s. case attribute_step e a s of (a, s) \<Rightarrow> mvrp_conditional_reclaim a s"
  note t = merge_or_add_inv [OF assms]
  obtain ys s' where b: "at_attribute (attribute r) ?body (attrib_list ?t) ?t = (ys, s')"
    by (cases "at_attribute (attribute r) ?body (attrib_list ?t) ?t")
  note o = at_attribute_ok [OF t(1) b]
  have "timers_ok s'" using o timers_ok_env inv_parts(2) [OF t(1)] by blast
  then have "mvrp_inv (s'\<lparr>attrib_list := ys\<rparr>)" "same_env s (s'\<lparr>attrib_list := ys\<rparr>)"
    using o t(2) same_env_trans by (auto simp: mvrp_inv_def covered_def timers_ok_def)
  moreover have "snd (event_attribute e r s) =
      (if mvrp_lookup s (attribute r) = None \<and> e = MRP_EVENT_RMT then s else s'\<lparr>attrib_list := ys\<rparr>)"
    using b by (simp add: event_attribute_def Let_def)
  ultimately show "mvrp_inv (snd (event_attribute e r s))" "same_env s (snd (event_attribute e r s))"
    using assms(1) by simp_all
qed

lemma mvrp_event_inv:
  assumes "mvrp_inv s" and "\<And>r. rattrib = Some r \<Longrightarrow> fresh r"
  shows "mvrp_inv (snd (mvrp_event s e rattrib))"
proof -
  let ?s = "on_db mrp_jointimer_start s"
  have i: "mvrp_inv ?s" using inv_timers(1) [OF assms(1)] .
  have a: "mvrp_inv (snd (event_attribute e r ?s))" if "rattrib = Some r" for r using event_attribute_ok(1) [OF i assms(2) [OF that]] .
  show ?thesis
    using assms(1) i a
    by (cases e; cases rattrib)
      (auto simp: mvrp_event_def Let_def split: prod.split
        intro!: pass_inv event_lvatimer_inv event_rla_inv event_tx_inv event_lvtimer_inv event_periodic_inv)
qed

end
