(* ===== verification/Mrp_Stations.thy ===== *)
theory Mrp_Stations
  imports Mrp_Passes
begin

text \<open>
  Stations on a link: what the applications share of the way from a declaration at one station to
  the registration at another one, and the events of a running application.
\<close>

text \<open>
  What can happen to a running application: the timers of the daemon, a received frame, a command, the
  end of a client, and a reclamation.
\<close>

datatype mrp_action =
  Timer mrp_event | Recv int "u8 list" | Cmd string nat sockaddr_in | Bye sockaddr_in | Reclaim

text \<open>Enough memory.\<close>

definition plenty :: "('a, 'z) app \<Rightarrow> bool" where
  "plenty s \<longleftrightarrow> mem_ok s = (\<lambda>n. True)"

lemma plenty_env: "same_env s t \<Longrightarrow> plenty s \<Longrightarrow> plenty t"
  by (simp add: plenty_def same_env_def)

section \<open>The transmitter\<close>

definition anxious :: "mrp_state \<Rightarrow> bool" where
  "anxious st \<longleftrightarrow> declared st \<and> \<not> quiet st"

text \<open>A declaration that is not quiet is announced at the next opportunity.\<close>

lemma anxious_sends:
  assumes "anxious (a_state (applicant a))" and "a' = applicant_step MRP_EVENT_TX a s"
  shows "a_tx (applicant a')" "a_encode (applicant a') = MRP_ENCODE_YES"
    "\<exists>e. rx_event (code_of a') = Some e \<and> e \<in> {MRP_EVENT_RNEW, MRP_EVENT_RJOININ, MRP_EVENT_RJOINMT}"
  using assms by (cases "a_state (applicant a)"; auto simp: machine_defs anxious_def applicant_step_def code_of_def pdu_event_def rx_event_def)+

lemma new_anxious: "applicant_state st \<Longrightarrow> anxious (applicant_new st)"
  by (cases st) (simp_all add: applicant_new_def anxious_def state_sets)

text \<open>A new declaration stays in the list and is anxious.\<close>

lemma attribute_step_declares:
  assumes "attr_ok a"
  shows "\<exists>b. fst (case attribute_step MRP_EVENT_NEW a s of (a, s) \<Rightarrow> conditional_reclaim letter text a s) = [b] \<and>
    anxious (a_state (applicant b)) \<and> mrp_attribute.more b = mrp_attribute.more a"
proof -
  let ?a = "applicant_step MRP_EVENT_NEW a s"
  have "a_state (applicant ?a) = applicant_new (a_state (applicant a))" "mrp_attribute.more ?a = mrp_attribute.more a"
    by (simp_all add: applicant_step_def mrp_applicant_fsm_def applicant_switch_def)
  moreover have "anxious (applicant_new (a_state (applicant a)))" using new_anxious assms by (simp add: attr_ok_def)
  moreover have "\<not> anxious MRP_VO_STATE" "\<not> anxious MRP_AO_STATE" "\<not> anxious MRP_QO_STATE" by (simp_all add: anxious_def state_sets)
  ultimately show ?thesis
    by (auto simp: attribute_step_def Let_def registrar_step_def mrp_registrar_fsm_def registrar_switch_def conditional_reclaim_def reclaimable_def)
qed

section \<open>The receiver\<close>

lemma at_first_other:
  "at_first P body as s = (ys, s') \<Longrightarrow> b \<in> set as \<Longrightarrow> \<not> P b \<Longrightarrow> b \<in> set ys"
  by (induction as arbitrary: ys) (auto split: if_splits prod.splits)

lemma at_first_own:
  "at_first P body as s = (ys, s') \<Longrightarrow> \<exists>a\<in>set as. P a \<Longrightarrow> \<exists>a\<in>set as. P a \<and> set (fst (body a s)) \<subseteq> set ys"
proof (induction as arbitrary: ys)
  case (Cons a as)
  show ?case
  proof (cases "P a")
    case True
    with Cons.prems show ?thesis by (auto split: prod.splits)
  next
    case False
    then obtain zs where z: "at_first P body as s = (zs, s')" "ys = a # zs" using Cons.prems(1) by (auto split: prod.splits)
    from Cons.IH [OF z(1)] Cons.prems(2) False obtain x where "x \<in> set as" "P x" "set (fst (body x s)) \<subseteq> set zs" by auto
    with z(2) show ?thesis by (intro bexI [of _ x]) auto
  qed
qed simp

lemma update_first_other: "b \<in> set as \<Longrightarrow> \<not> P b \<Longrightarrow> b \<in> set (update_first P f as)"
  by (induction as) auto

text \<open>The notifications keep what does not depend on the pending notification.\<close>

lemma notify_keeps:
  assumes "\<exists>b\<in>set (attrib_list s). Q b" "\<And>a n. Q a \<Longrightarrow> Q (a\<lparr>registrar := (registrar a)\<lparr>r_notify := n\<rparr>\<rparr>)"
  shows "\<exists>b\<in>set (attrib_list (over_list (notify_attribute letter text) s)). Q b"
proof -
  let ?n = "notify_attribute letter text"
  have "\<exists>b\<in>set (fst (for_attributes ?n as s)). Q b" if "\<exists>b\<in>set as. Q b" for as s
    using that
  proof (induction as arbitrary: s)
    case (Cons a as)
    have "Q a \<Longrightarrow> \<exists>b\<in>set (fst (?n a s)). Q b" using assms(2) by (auto simp: notify_attribute_def)
    moreover obtain xs t where x: "?n a s = (xs, t)" by (cases "?n a s")
    moreover obtain ys u where y: "for_attributes ?n as t = (ys, u)" by (cases "for_attributes ?n as t")
    ultimately show ?case using Cons.IH [of t] Cons.prems by auto
  qed simp
  from this [OF assms(1), of s] show ?thesis unfolding over_list_def by (auto split: prod.splits)
qed

definition rx_events :: "mrp_event set" where
  "rx_events = {MRP_EVENT_RNEW, MRP_EVENT_RJOININ, MRP_EVENT_RIN, MRP_EVENT_RJOINMT, MRP_EVENT_RMT, MRP_EVENT_RLV}"

lemma rx_event_rx: "rx_event c = Some e \<Longrightarrow> e \<in> rx_events"
  by (auto simp: rx_event_def rx_events_def split: if_splits)

text \<open>A received declaration is registered.\<close>

lemma attribute_step_registers:
  assumes "attr_ok a" "e \<in> {MRP_EVENT_RNEW, MRP_EVENT_RJOININ, MRP_EVENT_RJOINMT}"
  shows "\<exists>b. fst (case attribute_step e a s of (a, s) \<Rightarrow> conditional_reclaim letter text a s) = [b] \<and>
    r_state (registrar b) = MRP_IN_STATE \<and> r_macaddr (registrar b) = r_macaddr (registrar a) \<and> mrp_attribute.more b = mrp_attribute.more a"
proof -
  have "registrar (applicant_step e a s) = registrar a" "mrp_attribute.more (applicant_step e a s) = mrp_attribute.more a"
    by (simp_all add: applicant_step_def)
  moreover have "r_state (registrar a) \<in> {MRP_IN_STATE, MRP_LV_STATE, MRP_MT_STATE}" using assms(1) by (simp add: attr_ok_def registrar_state_def)
  ultimately show ?thesis using assms(2)
    by (auto simp: attribute_step_def Let_def registrar_step_def mrp_registrar_fsm_def registrar_switch_def conditional_reclaim_def reclaimable_def)
qed

section \<open>What a request keeps\<close>

text \<open>A leave-all that is due, and the flag for an empty one.\<close>

definition same_leaveall :: "('a, 'z) app \<Rightarrow> ('a, 'z) app \<Rightarrow> bool" where
  "same_leaveall s s' \<longleftrightarrow> lva (mrp_db s') = lva (mrp_db s) \<and> send_empty_LeaveAll_flag s' = send_empty_LeaveAll_flag s"

lemma same_leaveall_trans: "same_leaveall s t \<Longrightarrow> same_leaveall t u \<Longrightarrow> same_leaveall s u"
  by (simp add: same_leaveall_def)

lemma same_leaveall_basic:
  "same_leaveall s s" "same_leaveall s (s\<lparr>attrib_list := as\<rparr>)" "same_leaveall s (on_db mrp_jointimer_start s)" "same_leaveall s (snd (mrpd_malloc s))"
  "same_leaveall s (add_client s c)"
  by (simp_all add: same_leaveall_def on_db_def mrp_jointimer_start_def mrpd_timer_def mrpd_malloc_def add_client_def Let_def)

lemma send_leaveall: "same_leaveall s (snd (send_notifications l t s a n))"
  by (auto simp: same_leaveall_def send_notifications_def mrpd_malloc_def Let_def split: mrp_notify.split)

lemma notify_leaveall: "same_leaveall s (over_list (notify_attribute l t) s)"
proof -
  have "same_leaveall s (snd (for_attributes (notify_attribute l t) as s))" for as s
  proof (induction as arbitrary: s)
    case (Cons a as)
    have "same_leaveall s (snd (notify_attribute l t a s))" by (simp add: notify_attribute_def send_leaveall same_leaveall_basic(1))
    from same_leaveall_trans [OF this Cons] show ?case by (simp add: case_prod_beta)
  qed (simp add: same_leaveall_basic)
  then show ?thesis by (simp add: over_list_def case_prod_beta same_leaveall_def)
qed

lemma new_leaveall: "snd (attribute_step MRP_EVENT_NEW a s) = s"
  by (simp add: attribute_step_def registrar_step_def mrp_registrar_fsm_def registrar_switch_def)

end
