(* ===== verification/Mvrp_Safety.thy ===== *)
theory Mvrp_Safety
  imports Mvrp_Invariant Mrp_Stations Event_System
begin

text \<open>
  Safety of the VLAN registration protocol: received frames, commands and timer events
  keep the invariant and cause no access behind a buffer, under the bounds that are stated
  with each.
\<close>

section \<open>Receiving\<close>

lemma alloc_inv: "mvrp_inv s \<Longrightarrow> mvrp_alloc s = (r, s') \<Longrightarrow> mvrp_inv s'"
  using alloc_env inv_env by blast

lemma rx_values_inv: "mvrp_inv s \<Longrightarrow> rx_values src cs vid s = (ok, vid', s') \<Longrightarrow> mvrp_inv s'"
proof (induction cs arbitrary: vid s)
  case Nil
  then show ?case by simp
next
  case (Cons c cs)
  show ?case
  proof (cases "0xFFF < vid")
    case True
    with Cons show ?thesis by simp
  next
    case False
    obtain r t where al: "mvrp_alloc s = (r, t)" by (cases "mvrp_alloc s")
    then have t: "mvrp_inv t" using alloc_inv Cons.prems(1) by blast
    show ?thesis
    proof (cases r)
      case None
      with al t False Cons.prems(2) show ?thesis by auto
    next
      case (Some a)
      let ?a = "a\<lparr>attribute := vid, registrar := (registrar a)\<lparr>r_macaddr := src\<rparr>\<rparr>"
      let ?s = "case rx_event c of None \<Rightarrow> t | Some e \<Rightarrow> snd (mvrp_event t e (Some ?a))"
      have "fresh ?a" using alloc_fresh(2) al Some by blast
      then have "mvrp_inv ?s" using t mvrp_event_inv [OF t] by (auto split: option.split)
      moreover have "rx_values src cs (vid + 1) ?s = (ok, vid', s')" using al Some False Cons.prems(2) by (simp add: Let_def)
      ultimately show ?thesis using Cons.IH by blast
    qed
  qed
qed

interpretation mvrp_bytes_inv: packed_events_inv "\<lambda>cs (vid, s). Some (rx_values src cs vid s)" "\<lambda>buf i k n (vid, s). rx_bytes buf src i k n vid s" snd
  "\<lambda>(vid, s). mvrp_inv s" for src
proof unfold_locales
  fix cs and c :: "u16 \<times> mvrp_database"
  obtain vid s where c: "c = (vid, s)" by (cases c)
  obtain ok w t where v: "rx_values src cs vid s = (ok, w, t)" using prod_cases3 by blast
  assume "case c of (vid, s) \<Rightarrow> mvrp_inv s"
  then have "mvrp_inv t" using rx_values_inv [OF _ v] c by simp
  then show "\<exists>ok c'. (case c of (vid, s) \<Rightarrow> Some (rx_values src cs vid s)) = Some (ok, c') \<and> (case c' of (vid, s) \<Rightarrow> mvrp_inv s)" using c v by simp
qed

lemma rx_bytes_total:
  "mvrp_inv s \<Longrightarrow> i + k \<le> length buf \<Longrightarrow> \<exists>ok s'. rx_bytes buf src i k n vid s = Some (ok, s') \<and> mvrp_inv s'"
  using mvrp_bytes_inv.loop_total [of "(vid, s)" i k buf src n] by auto

lemma rx_vector_total:
  assumes "mvrp_inv s" "vp \<le> eof + 2" "eof + 4 \<le> length buf"
  shows "\<exists>r saw' s'. rx_vector buf eof src vp saw s = Some (r, saw', s') \<and> mvrp_inv s' \<and> (\<forall>nvb. r = Some nvb \<longrightarrow> vp + 4 + nvb \<le> eof + 2)"
proof -
  have h: "rd buf vp = Some (buf ! vp)" "rd buf (vp + 1) = Some (buf ! (vp + 1))" using assms(2,3) by (simp_all add: rd_def)
  let ?hdr = "word_be [buf ! vp, buf ! (vp + 1)] :: u16"
  let ?n = "MRPDU_VECT_NUMVALUES ?hdr"
  obtain saw1 s1 where l: "(if MRPDU_VECT_LVA ?hdr \<and> \<not> saw then (True, snd (mvrp_event s MRP_EVENT_RLA None)) else (saw, s)) = (saw1, s1)"
    using prod.exhaust by blast
  have i1: "mvrp_inv s1" using l assms(1) mvrp_event_inv [OF assms(1), of None] by (auto split: if_splits)
  show ?thesis
  proof (cases "?n = 0 \<or> eof \<le> vp + 2 + ?n div 3")
    case True
    then show ?thesis using i1 by (simp add: rx_vector_def h l Let_def del: One_nat_def add_Suc_right)
  next
    case False
    have nvb: "vector_bytes ?n \<le> ?n div 3 + 1" by (simp add: vector_bytes_def)
    have f: "rd buf (vp + 2) = Some (buf ! (vp + 2))" "rd buf (vp + 3) = Some (buf ! (vp + 3))"
      using False assms(3) by (simp_all add: rd_def)
    have "vp + 4 + (vector_bytes ?n + 1) \<le> length buf" using False nvb assms(3) by linarith
    from rx_bytes_total [OF i1 this, of src ?n "word_be [buf ! (vp + 2), buf ! (vp + 3)]"]
    obtain ok s2 where b: "rx_bytes buf src (vp + 4) (vector_bytes ?n + 1) ?n (word_be [buf ! (vp + 2), buf ! (vp + 3)]) s1 = Some (ok, s2)"
      "mvrp_inv s2" by blast
    have "vp + 4 + vector_bytes ?n \<le> eof + 2" using False nvb by linarith
    moreover have "rx_vector buf eof src vp saw s = Some (if ok then Some (vector_bytes ?n) else None, saw1, s2)"
      unfolding rx_vector_def h bind.bind_lunit Let_def l prod.case if_not_P [OF False] f b(1) by simp
    ultimately show ?thesis using b(2) by auto
  qed
qed

lemma rx_vectors_total:
  assumes "mvrp_inv s" "vp \<le> eof + 2" "eof + 4 \<le> length buf"
  shows "\<exists>r saw' s'. rx_vectors buf eof src vp saw s = Some (r, saw', s') \<and> mvrp_inv s'"
  using assms
proof (induction buf eof src vp saw s rule: rx_vectors.induct)
  case (1 buf eof src vp saw s)
  have h: "rd buf vp = Some (buf ! vp)" "rd buf (vp + 1) = Some (buf ! (vp + 1))" using 1(3,4) by (simp_all add: rd_def)
  show ?case
  proof (cases "buf ! vp = 0 \<and> buf ! (vp + 1) = 0")
    case True
    then show ?thesis using 1(2) h by (subst rx_vectors.simps) (simp del: One_nat_def add_Suc_right)
  next
    case False
    obtain r w t where v: "rx_vector buf eof src vp saw s = Some (r, w, t)" "mvrp_inv t" "\<forall>nvb. r = Some nvb \<longrightarrow> vp + 4 + nvb \<le> eof + 2"
      using rx_vector_total [OF 1(2-4), of src saw] by blast
    have "\<exists>r saw' s'. rx_vectors buf eof src (vp + 4 + nvb) w t = Some (r, saw', s') \<and> mvrp_inv s'" if "r = Some nvb" for nvb
      using 1(1) [OF h False v(1) refl refl that v(2)] v(3) that 1(4) by blast
    then show ?thesis unfolding rx_vectors.simps [of buf eof src vp] h bind.bind_lunit using False v(1,2) by (cases r) auto
  qed
qed

lemma rx_messages_total:
  assumes "mvrp_inv s" "eof + 4 \<le> length buf" "15 \<le> mp"
  shows "\<exists>rc s'. rx_messages buf eof src mp m saw s = Some (rc, s') \<and> mvrp_inv s' \<and> rc \<in> {0, -1}"
  using assms
proof (induction buf eof src mp m saw s rule: rx_messages.induct)
  case (1 buf eof src mp m saw s)
  show ?case
  proof (cases "mp + MRPDU_ENDMARK_SZ < eof")
    case False
    then show ?thesis using 1(4) by (subst rx_messages.simps) simp
  next
    case True
    have r: "rd buf mp = Some (buf ! mp)" "rd buf (mp + 1) = Some (buf ! (mp + 1))" "rd buf 14 = Some (buf ! 14)"
      "rd buf (mp + 2) = Some (buf ! (mp + 2))" "rd buf (mp + 3) = Some (buf ! (mp + 3))"
      using True 1(5,6) by (auto simp: rd_def MRPDU_ENDMARK_SZ_def)
    let ?t = "buf ! mp" and ?l = "buf ! (mp + 1)"
    consider (mark) "?t = 0 \<and> ?l = 0" | (vid) "\<not> (?t = 0 \<and> ?l = 0)" "?t = MVRP_VID_TYPE" | (unknown) "\<not> (?t = 0 \<and> ?l = 0)" "?t \<noteq> MVRP_VID_TYPE" by blast
    then show ?thesis
    proof cases
      case mark
      then show ?thesis
        using 1(1) [OF _ r(1,2) mark] True 1(4-6) by (cases "m + 1 < 2") (subst rx_messages.simps, simp add: r [simplified])+
    next
      case vid
      show ?thesis
      proof (cases "?l = 2")
        case l2: True
        have "mp + 2 \<le> eof + 2" using True by simp
        then obtain q w t where v: "rx_vectors buf eof src (mp + 2) saw s = Some (q, w, t)" "mvrp_inv t"
          using rx_vectors_total [OF 1(4) _ 1(5)] by blast
        have "\<exists>rc s'. rx_messages buf eof src p 0 w t = Some (rc, s') \<and> mvrp_inv s' \<and> rc \<in> {0, -1}" if "q = Some p" for p
        proof -
          have "15 \<le> p" using rx_vectors_position v(1) that 1(6) by fastforce
          then show ?thesis using 1(2) [OF _ r(1,2) vid _ v(1) refl refl that v(2) 1(5)] True l2 by simp
        qed
        then show ?thesis unfolding rx_messages.simps [of buf eof src mp] r bind.bind_lunit using True vid v l2 by (cases q) auto
      qed (use True vid 1(4) r in \<open>subst rx_messages.simps, auto\<close>)
    next
      case unknown
      then show ?thesis unfolding rx_messages.simps [of buf eof src mp] r bind.bind_lunit
        using 1(3) [OF _ r(1,2) unknown r(3) _ r(4,5) 1(4,5)] True 1(4,6) by auto
    qed
  qed
qed

lemma recv_msg_total:
  assumes "mvrp_inv s" "length buf = MAX_FRAME_SIZE" "bytes \<le> 1996"
  shows "\<exists>rc s'. mvrp_recv_msg s bytes buf = Some (rc, s') \<and> mvrp_inv s' \<and> rc \<in> {0, -1}"
proof -
  have "nat bytes + 4 \<le> length buf" using assms(2,3) by (simp add: MAX_FRAME_SIZE_def)
  from rx_messages_total [OF assms(1) this order_refl] show ?thesis
    using assms(1,2) by (simp add: mvrp_recv_msg_def MAX_FRAME_SIZE_def)
qed

section \<open>Commands\<close>

lemma add_client_ok: "mvrp_inv s \<Longrightarrow> mvrp_inv (add_client s c)"
  using inv_env client_env(1,2) by blast

lemma parse_vid_total:
  assumes "n \<le> length buf" "CHR 0x00 \<in> set buf"
  shows "\<exists>rc v buf'. mvrp_cmd_parse_vid buf n = Some (rc, v, buf') \<and> CHR 0x00 \<in> set buf'"
proof (cases "n < 9")
  case True
  then show ?thesis using assms(2) by (simp add: mvrp_cmd_parse_vid_def)
next
  case False
  let ?specs = "[\<lparr>pname = ''I='', ptype = parse_u16_04x\<rparr>]"
  have "\<exists>r. parse buf 4 (n - 4) ?specs = Some r" using False assms(1) by (auto simp: parse_def Let_def split: prod.split)
  then obtain rc e vs buf' where p: "parse buf 4 (n - 4) ?specs = Some (rc, e, vs, buf')" by (metis prod_cases4)
  from parse_keeps_null [OF p assms(2)] p False show ?thesis by (simp add: mvrp_cmd_parse_vid_def)
qed

lemma cmd_vid_inv: "mvrp_inv s \<Longrightarrow> mvrp_inv (snd (mvrp_cmd_vid s v e))"
proof -
  assume i: "mvrp_inv s"
  obtain r t where al: "mvrp_alloc s = (r, t)" by (cases "mvrp_alloc s")
  have t: "mvrp_inv t" using alloc_inv [OF i al] .
  have "mvrp_inv (snd (mvrp_event t e (Some (a\<lparr>attribute := v\<rparr>))))" if "r = Some a" for a
    using mvrp_event_inv [OF t] alloc_fresh(1) [of s a t v] al that by auto
  with t al show ?thesis by (auto simp: mvrp_cmd_vid_def split: option.split)
qed

lemma dump_line_le: "attr_ok a \<Longrightarrow> length (dump_line a) = 18 + 2 * min 6 (length (r_macaddr (registrar a)))"
proof -
  assume a: "attr_ok a"
  have "unat (attribute a) < 16 ^ 4" using unsigned_less [of "attribute a", where 'a = nat] by simp
  then have "length (attribute_text a) = 4"
    using print_base_length [of "unat (attribute a)" 16 4] by (simp add: attribute_text_def zero_padded_def)
  moreover have "length (concat (map hex_byte bs)) = 2 * length bs" for bs by (induction bs) (simp_all add: hex_byte_def)
  moreover have "length (mrp_decode_state (registrar a) (applicant a) 8) = 5"
    using a by (simp add: attr_ok_def decode_names name_length)
  ultimately show ?thesis by (simp add: dump_line_def source_text_def newline_def)
qed

lemma dumptable_fits:
  assumes "mvrp_inv s" "length (attrib_list s) < 50"
  shows "\<exists>rc r s'. mvrp_dumptable s = Some (rc, r, s') \<and> mvrp_inv s'"
proof -
  have "length (concat (map dump_line as)) \<le> 30 * length as" if "\<forall>a\<in>set as. attr_ok a" for as
    using that dump_line_le by (induction as) (auto simp: min_def)
  then have "length (concat (map dump_line (attrib_list s))) < 1500" using assms by (fastforce simp: mvrp_inv_def good_def)
  moreover have "mvrp_inv (s\<lparr>mem_pos := n\<rparr>)" for n using assms(1) by (simp add: mvrp_inv_def covered_def timers_ok_def)
  ultimately show ?thesis
    by (auto simp: mvrp_dumptable_def mrpd_malloc_def Let_def MAX_MRPD_CMDSZ_def newline_def)
qed

lemma recv_cmd_total:
  assumes "mvrp_inv s" "n \<le> length buf" "CHR 0x00 \<in> set buf" "take 3 buf = ''V??'' \<Longrightarrow> length (attrib_list s) < 50"
  shows "\<exists>rc r s'. mvrp_recv_cmd (Some s) buf n c = Some (rc, r, Some s') \<and> mvrp_inv s'"
proof -
  let ?s = "add_client s c"
  have i: "mvrp_inv ?s" using add_client_ok [OF assms(1)] .
  obtain rc v buf' where p: "mvrp_cmd_parse_vid buf n = Some (rc, v, buf')" "CHR 0x00 \<in> set buf'"
    using parse_vid_total [OF assms(2,3)] by blast
  have v: "\<exists>rc r s'. (case mvrp_cmd_vid ?s v e of (rc, s) \<Rightarrow>
      if rc \<noteq> 0 then do { r \<leftarrow> respond 11 ''ERI '' buf'; Some (-1, r, Some s) } else Some (0, [], Some s)) = Some (rc, r, Some s') \<and> mvrp_inv s'" for e
    using cmd_vid_inv [OF i, of v e] p(2) by (auto simp: respond_def c_string_def split: prod.split)
  have d: "take 3 buf = ''V??'' \<Longrightarrow> \<exists>rc r s'. mvrp_dumptable ?s = Some (rc, r, s') \<and> mvrp_inv s'"
    using dumptable_fits [OF i] assms(4) by simp
  show ?thesis
    using i p v d assms(3) by (auto simp: mvrp_recv_cmd_def Let_def respond_def c_string_def)
qed

section \<open>Runs\<close>

definition mvrp_exec :: "mvrp_database \<Rightarrow> mrp_action \<Rightarrow> mvrp_database option" where
  "mvrp_exec s act =
     (case act of
        Timer e \<Rightarrow> Some (snd (mvrp_event s e None))
      | Recv n buf \<Rightarrow> map_option snd (mvrp_recv_msg s n buf)
      | Cmd buf n c \<Rightarrow> do { (rc, r, db) \<leftarrow> mvrp_recv_cmd (Some s) buf n c; db }
      | Bye c \<Rightarrow> mvrp_bye (Some s) c
      | Reclaim \<Rightarrow> snd (mvrp_reclaim (Some s)))"

definition mvrp_admissible :: "mvrp_database \<Rightarrow> mrp_action \<Rightarrow> bool" where
  "mvrp_admissible s act =
     (case act of
        Timer e \<Rightarrow> e \<in> {MRP_EVENT_LVATIMER, MRP_EVENT_TX, MRP_EVENT_LVTIMER, MRP_EVENT_PERIODIC}
      | Recv n buf \<Rightarrow> length buf = MAX_FRAME_SIZE \<and> n \<le> 1996
      | Cmd buf n c \<Rightarrow> n \<le> length buf \<and> CHR 0x00 \<in> set buf \<and> (take 3 buf = ''V??'' \<longrightarrow> length (attrib_list s) < 50)
      | _ \<Rightarrow> True)"

interpretation mvrp: event_system mvrp_inv mvrp_admissible mvrp_exec
proof unfold_locales
  fix s act
  assume i: "mvrp_inv s" and a: "mvrp_admissible s act"
  show "\<exists>s'. mvrp_exec s act = Some s' \<and> mvrp_inv s'"
  proof (cases act)
    case (Timer e)
    then show ?thesis using mvrp_event_inv [OF i, of None] by (simp add: mvrp_exec_def)
  next
    case (Recv n buf)
    then show ?thesis using recv_msg_total [OF i] a by (fastforce simp: mvrp_exec_def mvrp_admissible_def)
  next
    case (Cmd buf n c)
    then show ?thesis using recv_cmd_total [OF i, of n buf c] a by (fastforce simp: mvrp_exec_def mvrp_admissible_def)
  next
    case (Bye c)
    then show ?thesis using inv_env [OF i client_env(4,3)] by (simp add: mvrp_exec_def mvrp_bye_def)
  next
    case Reclaim
    then show ?thesis using pass_inv(3) [OF i] by (simp add: mvrp_exec_def mvrp_reclaim_def)
  qed
qed

lemma init_inv:
  assumes "mvrp_init True sock_rc timers_rc env = (0, True, Some s)" and "timers_ok env"
  shows "mvrp_inv s \<and> attrib_list s = []"
  using assms by (auto simp: mvrp_init_def mrpd_malloc_def Let_def mvrp_inv_def good_def covered_def timers_ok_def on_db_def
      reset_application_def timer_defs split: if_splits)

end
