(* ===== verification/Mvrp_Stations.thy ===== *)
theory Mvrp_Stations
  imports Mvrp_Safety
begin

text \<open>
  Two stations on a link: what a station declares and transmits is registered at the
  station that receives the frame.
\<close>

section \<open>The transmitter\<close>

lemma notify_frames: "frames (over_list notify_step s) = frames s"
  unfolding notify_step_def by (rule notify_keeps_frames)

lemma sent_must: "a \<in> set as \<Longrightarrow> a_tx (applicant a) \<Longrightarrow> a_encode (applicant a) = MRP_ENCODE_YES \<Longrightarrow> a \<in> set (sent prev as)"
  by (induction prev as rule: sent.induct) auto

lemma sent_distinct: "sorted_wrt (<) (map attribute as) \<Longrightarrow> distinct (map attribute (sent prev as))"
proof (induction prev as rule: sent.induct)
  case (2 prev a as)
  have "attribute a \<notin> attribute ` set (sent (Some (attribute a)) as)"
    using "2.prems" sent_subset [of "Some (attribute a)" as] by auto
  with 2 show ?case by (cases "a_tx (applicant a) \<and> (a_encode (applicant a) = MRP_ENCODE_YES \<or> prev = Some (attribute a - 1))") auto
qed simp

section \<open>The receiver\<close>

definition registered :: "u16 \<Rightarrow> u8 list \<Rightarrow> mvrp_database \<Rightarrow> bool" where
  "registered v src s \<longleftrightarrow> (\<exists>b\<in>set (attrib_list s). attribute b = v \<and> r_state (registrar b) = MRP_IN_STATE \<and> r_macaddr (registrar b) = src)"

definition registers :: "u16 \<Rightarrow> u8 list \<Rightarrow> mvrp_attribute \<Rightarrow> bool" where
  "registers v src b \<longleftrightarrow> attribute b = v \<and> r_state (registrar b) = MRP_IN_STATE \<and> r_macaddr (registrar b) = src"

lemma registered_iff: "registered v src s \<longleftrightarrow> (\<exists>b\<in>set (attrib_list s). registers v src b)"
  by (simp add: registered_def registers_def)

lemma notify_registered: "registered v src s \<Longrightarrow> registered v src (over_list notify_step s)"
  unfolding registered_iff notify_step_def by (rule notify_keeps) (simp_all add: registers_def)

text \<open>The list between lookup and the machines: the other attributes stay, the own one has the sender's address.\<close>

lemma update_attribute_elems:
  assumes "\<And>a. attribute (f a) = attribute a"
  shows "b \<in> set as \<Longrightarrow> attribute b \<noteq> v \<Longrightarrow> b \<in> set (update_attribute v f as)"
    and "attribute ` set (update_attribute v f as) = attribute ` set as"
    and "sorted_wrt (<) (map attribute as) \<Longrightarrow> c \<in> set (update_attribute v f as) \<Longrightarrow> attribute c = v \<Longrightarrow> \<exists>a. c = f a"
proof -
  show "b \<in> set as \<Longrightarrow> attribute b \<noteq> v \<Longrightarrow> b \<in> set (update_attribute v f as)" by (induction as) auto
  show "attribute ` set (update_attribute v f as) = attribute ` set as" by (induction as) (auto simp: assms)
  show "sorted_wrt (<) (map attribute as) \<Longrightarrow> c \<in> set (update_attribute v f as) \<Longrightarrow> attribute c = v \<Longrightarrow> \<exists>a. c = f a"
  proof (induction as)
    case (Cons a as)
    have "c \<notin> set as" if "attribute a = v" using Cons.prems(1,3) that by auto
    with Cons show ?case by (cases "attribute a = v") auto
  qed simp
qed

lemma merged_list:
  assumes "t = (if mvrp_lookup s (attribute r) = None then mvrp_add s r else snd (mvrp_merge s r))"
  shows "b \<in> set (attrib_list s) \<Longrightarrow> attribute b \<noteq> attribute r \<Longrightarrow> b \<in> set (attrib_list t)"
    and "\<exists>a\<in>set (attrib_list t). attribute a = attribute r"
    and "sorted_wrt (<) (map attribute (attrib_list s)) \<Longrightarrow> c \<in> set (attrib_list t) \<Longrightarrow> attribute c = attribute r \<Longrightarrow>
      r_macaddr (registrar c) = r_macaddr (registrar r)"
proof -
  let ?m = "\<lambda>a. a\<lparr>registrar := (registrar a)\<lparr>r_macaddr := r_macaddr (registrar r)\<rparr>\<rparr>"
  have u: "\<And>a. attribute (?m a) = attribute a" by simp
  have look: "mvrp_lookup s (attribute r) \<noteq> None \<longleftrightarrow> attribute r \<in> attribute ` set (attrib_list s)"
    unfolding lookup_None by (rule not_not)
  have l: "attrib_list t = (if attribute r \<in> attribute ` set (attrib_list s) then update_attribute (attribute r) ?m (attrib_list s)
      else insert_attribute r (attrib_list s))"
  proof (cases "mvrp_lookup s (attribute r)")
    case None
    then show ?thesis using look by (simp add: assms mvrp_add_def)
  next
    case (Some y)
    then show ?thesis using look by (simp add: assms mvrp_merge_def)
  qed
  show "b \<in> set (attrib_list s) \<Longrightarrow> attribute b \<noteq> attribute r \<Longrightarrow> b \<in> set (attrib_list t)"
    using l update_attribute_elems(1) [OF u, of b "attrib_list s" "attribute r"] by auto
  have "attribute r \<in> attribute ` set (attrib_list t)"
    using l update_attribute_elems(2) [OF u, of "attribute r" "attrib_list s"] by auto
  then show "\<exists>a\<in>set (attrib_list t). attribute a = attribute r" by force
  show "r_macaddr (registrar c) = r_macaddr (registrar r)"
    if "sorted_wrt (<) (map attribute (attrib_list s))" "c \<in> set (attrib_list t)" "attribute c = attribute r"
  proof (cases "attribute r \<in> attribute ` set (attrib_list s)")
    case True
    then show ?thesis using update_attribute_elems(3) [OF u that(1), of c "attribute r"] that(2,3) l by auto
  next
    case False
    then have "c \<in> insert r (set (attrib_list s))" "c \<notin> set (attrib_list s)" using that(2,3) l by (auto simp: image_iff)
    then show ?thesis by simp
  qed
qed

lemma mvrp_event_rx:
  assumes "e \<in> rx_events"
  shows "snd (mvrp_event s e (Some r)) =
    (case event_attribute e r (on_db mrp_jointimer_start s) of (go, s) \<Rightarrow> if go then over_list notify_step s else s)"
  using assms by (auto simp: mvrp_event_def Let_def rx_events_def split: prod.split)

lemma at_attribute_other:
  "at_attribute v body as s = (ys, s') \<Longrightarrow> b \<in> set as \<Longrightarrow> attribute b \<noteq> v \<Longrightarrow> b \<in> set ys" for s :: mvrp_database
  by (rule at_first_other)

lemma event_attribute_other:
  assumes "registered v src s" "attribute r \<noteq> v"
  shows "registered v src (snd (event_attribute e r s))"
proof -
  obtain b where b: "b \<in> set (attrib_list s)" "registers v src b" using assms(1) by (auto simp: registered_iff)
  then have n: "attribute b \<noteq> attribute r" using assms(2) by (auto simp: registers_def)
  from merged_list(1) [OF refl b(1) n] at_attribute_other [OF _ _ n] b show ?thesis
    by (auto simp: event_attribute_def Let_def registered_iff split: prod.split)
qed

lemma own_attribute: "mrp_attribute.more b = mrp_attribute.more a \<Longrightarrow> attribute b = attribute a" for a b :: mvrp_attribute
  by (cases a; cases b) simp

lemma own_step_registers:
  assumes "attr_ok a" "e \<in> {MRP_EVENT_RNEW, MRP_EVENT_RJOININ, MRP_EVENT_RJOINMT}"
  shows "\<exists>b\<in>set (fst (case attribute_step e a s of (a, s) \<Rightarrow> mvrp_conditional_reclaim a s)). registers (attribute a) (r_macaddr (registrar a)) b"
proof -
  obtain b where b: "fst (case attribute_step e a s of (a, s) \<Rightarrow> mvrp_conditional_reclaim a s) = [b]" "r_state (registrar b) = MRP_IN_STATE"
    "r_macaddr (registrar b) = r_macaddr (registrar a)" "mrp_attribute.more b = mrp_attribute.more a"
    unfolding mvrp_conditional_reclaim_def using attribute_step_registers [OF assms] by blast
  then show ?thesis using own_attribute [OF b(4)] by (simp add: registers_def)
qed

lemma event_attribute_registers:
  assumes "mvrp_inv s" "fresh r" "e \<in> {MRP_EVENT_RNEW, MRP_EVENT_RJOININ, MRP_EVENT_RJOINMT}"
  shows "fst (event_attribute e r s)" "registered (attribute r) (r_macaddr (registrar r)) (snd (event_attribute e r s))"
proof -
  define t where "t = (if mvrp_lookup s (attribute r) = None then mvrp_add s r else snd (mvrp_merge s r))"
  let ?body = "\<lambda>a s. case attribute_step e a s of (a, s) \<Rightarrow> mvrp_conditional_reclaim a s"
  obtain ys s' where b: "at_attribute (attribute r) ?body (attrib_list t) t = (ys, s')"
    by (cases "at_attribute (attribute r) ?body (attrib_list t) t")
  have e: "event_attribute e r s = (True, s'\<lparr>attrib_list := ys\<rparr>)"
    using assms(3) b by (auto simp: event_attribute_def Let_def t_def)
  have srt: "sorted_wrt (<) (map attribute (attrib_list s))" using assms(1) by (simp add: mvrp_inv_def good_def)
  note ml = merged_list(2,3) [OF t_def]
  obtain a where a: "a \<in> set (attrib_list t)" "attribute a = attribute r" "set (fst (?body a t)) \<subseteq> set ys"
    using at_first_own [OF b ml(1)] by blast
  have "mvrp_inv t" using merge_or_add_inv(1) [OF assms(1,2)] by (simp add: t_def)
  then have "attr_ok a" using a(1) by (simp add: mvrp_inv_def good_def)
  moreover have "r_macaddr (registrar a) = r_macaddr (registrar r)" using ml(2) [OF srt a(1,2)] .
  ultimately have "\<exists>b\<in>set ys. registers (attribute r) (r_macaddr (registrar r)) b"
    using own_step_registers [OF _ assms(3), of a t] a(2,3) by auto
  then show "fst (event_attribute e r s)" "registered (attribute r) (r_macaddr (registrar r)) (snd (event_attribute e r s))"
    by (simp_all add: e registered_iff)
qed

lemma event_rx_ok:
  assumes "mvrp_inv s" "fresh r" "e \<in> rx_events"
  defines "s' \<equiv> snd (mvrp_event s e (Some r))"
  shows "mvrp_inv s'" "same_env s s'"
    "registered v src s \<Longrightarrow> attribute r \<noteq> v \<Longrightarrow> registered v src s'"
    "e \<in> {MRP_EVENT_RNEW, MRP_EVENT_RJOININ, MRP_EVENT_RJOINMT} \<Longrightarrow> registered (attribute r) (r_macaddr (registrar r)) s'"
proof -
  let ?j = "on_db mrp_jointimer_start s"
  have j: "mvrp_inv ?j" "same_env s ?j" using inv_timers(1) [OF assms(1)] by simp_all
  obtain go t where t: "event_attribute e r ?j = (go, t)" by (cases "event_attribute e r ?j")
  have o: "mvrp_inv t" "same_env ?j t" using event_attribute_ok [OF j(1) assms(2), of e] t by simp_all
  have s': "s' = (if go then over_list notify_step t else t)" unfolding s'_def using t by (simp add: mvrp_event_rx [OF assms(3)])
  show "mvrp_inv s'" unfolding s'_def by (rule mvrp_event_inv [OF assms(1)]) (use assms(2) in simp)
  show "same_env s s'" using s' o pass_env(2) [OF o(1)] j(2) same_env_trans by (metis (full_types))
  show "registered v src s \<Longrightarrow> attribute r \<noteq> v \<Longrightarrow> registered v src s'"
    using event_attribute_other [of v src ?j r e] t notify_registered s' by (simp add: registered_def)
  show "registered (attribute r) (r_macaddr (registrar r)) s'" if "e \<in> {MRP_EVENT_RNEW, MRP_EVENT_RJOININ, MRP_EVENT_RJOINMT}"
    using event_attribute_registers [OF j(1) assms(2) that] t notify_registered s' by simp
qed

lemma rla_ok:
  assumes "mvrp_inv s"
  shows "mvrp_inv (snd (mvrp_event s MRP_EVENT_RLA None))" "same_env s (snd (mvrp_event s MRP_EVENT_RLA None))"
proof -
  have j: "mvrp_inv (on_db mrp_jointimer_start s)" using inv_timers(1) [OF assms] .
  note b = pass_env(1) [OF j, of MRP_EVENT_RLA] pass_inv(1) [OF j, of MRP_EVENT_RLA]
  have e: "same_env s (event_rla s)" unfolding event_rla_def Let_def
    by (rule same_env_trans [OF same_env_trans [OF on_db_env(2) b(1)] on_db_env(5)])
  show "mvrp_inv (snd (mvrp_event s MRP_EVENT_RLA None))" by (rule mvrp_event_inv [OF assms]) simp
  show "same_env s (snd (mvrp_event s MRP_EVENT_RLA None))"
    using same_env_trans [OF e pass_env(2) [OF event_rla_inv [OF assms]]] by (simp add: mvrp_event_def)
qed

text \<open>One value that is received.\<close>

lemma deliver_one:
  assumes "mvrp_inv t" "plenty t"
  shows "\<exists>t'. deliver src [(w, c)] t = (True, t') \<and> mvrp_inv t' \<and> plenty t' \<and>
    (\<forall>v. registered v src t \<and> w \<noteq> v \<longrightarrow> registered v src t') \<and>
    (\<forall>e. rx_event c = Some e \<and> e \<in> {MRP_EVENT_RNEW, MRP_EVENT_RJOININ, MRP_EVENT_RJOINMT} \<longrightarrow> registered w src t')"
proof -
  obtain a t1 where al: "mvrp_alloc t = (Some a, t1)" using assms(2) by (simp add: mvrp_alloc_def mrpd_malloc_def plenty_def)
  note env = alloc_env [OF al]
  have t1: "mvrp_inv t1" "plenty t1" "\<And>v. registered v src t1 = registered v src t"
    using env alloc_inv [OF assms(1) al] plenty_env assms(2) by (auto simp: registered_def)
  let ?a = "a\<lparr>attribute := w, registrar := (registrar a)\<lparr>r_macaddr := src\<rparr>\<rparr>"
  have f: "fresh ?a" using alloc_fresh(2) [OF al] .
  show ?thesis
  proof (cases "rx_event c")
    case None
    then show ?thesis using al t1 by simp
  next
    case (Some e)
    note o = event_rx_ok [OF t1(1) f rx_event_rx [OF Some]]
    show ?thesis using al Some o(1) plenty_env [OF o(2) t1(2)] o(3) o(4) t1(3) by auto
  qed
qed

lemma deliver_ok:
  assumes "mvrp_inv t" "plenty t"
  shows "\<exists>t'. deliver src vals t = (True, t') \<and> mvrp_inv t' \<and> plenty t' \<and> (\<forall>v. registered v src t \<and> v \<notin> fst ` set vals \<longrightarrow> registered v src t')"
  using assms
proof (induction vals arbitrary: t)
  case (Cons x vals)
  obtain w c where x: "x = (w, c)" by (cases x)
  obtain t1 where t1: "deliver src [(w, c)] t = (True, t1)" "mvrp_inv t1" "plenty t1" "\<forall>v. registered v src t \<and> w \<noteq> v \<longrightarrow> registered v src t1"
    using deliver_one [OF Cons.prems] by blast
  from Cons.IH [OF t1(2,3)] obtain t2 where "deliver src vals t1 = (True, t2)" "mvrp_inv t2" "plenty t2"
    "\<forall>v. registered v src t1 \<and> v \<notin> fst ` set vals \<longrightarrow> registered v src t2" by blast
  with t1(1,4) show ?case using deliver_append [of src "[(w, c)]" vals t] x by auto
qed simp

lemma deliver_registers:
  assumes "mvrp_inv t" "plenty t" "distinct (map fst vals)" "(v, c) \<in> set vals" "rx_event c = Some e"
    "e \<in> {MRP_EVENT_RNEW, MRP_EVENT_RJOININ, MRP_EVENT_RJOINMT}"
  shows "\<exists>t'. deliver src vals t = (True, t') \<and> mvrp_inv t' \<and> registered v src t'"
proof -
  obtain xs ys where v: "vals = xs @ [(v, c)] @ ys" using assms(4) by (metis append_Cons append_Nil split_list)
  obtain t1 where t1: "deliver src xs t = (True, t1)" "mvrp_inv t1" "plenty t1" using deliver_ok [OF assms(1,2)] by blast
  obtain t2 where t2: "deliver src [(v, c)] t1 = (True, t2)" "mvrp_inv t2" "plenty t2" "registered v src t2"
    using deliver_one [OF t1(2,3)] assms(5,6) by blast
  obtain t3 where t3: "deliver src ys t2 = (True, t3)" "mvrp_inv t3"
    "\<forall>v. registered v src t2 \<and> v \<notin> fst ` set ys \<longrightarrow> registered v src t3" using deliver_ok [OF t2(2,3), of src ys] by blast
  have "v \<notin> fst ` set ys" using assms(3) v by auto
  then show ?thesis using t1(1) t2(1,4) t3 unfolding v deliver_append by (simp del: deliver.simps)
qed

section \<open>From station to station\<close>

lemma frames_on_db: "frames (on_db f s) = frames s"
  by (simp add: on_db_def)

lemma station_registers:
  assumes "mvrp_inv s" "plenty s" and "length (station s) = 6" and "length (attrib_list s) \<le> 390"
    and "\<forall>a\<in>set (attrib_list s). attribute a \<le> 0xFFF" and "a \<in> set (attrib_list s)" "anxious (a_state (applicant a))"
    and "mvrp_inv t" "plenty t"
  shows "\<exists>f t'. frames (snd (mvrp_event s MRP_EVENT_TX None)) = frames s @ [f] \<and>
    mvrp_recv_msg t (int (length f)) (padded f) = Some (0, t') \<and> mvrp_inv t' \<and> registered (attribute a) (station s) t'"
proof -
  define s0 where "s0 = on_db mrp_jointimer_stop s"
  define s1 where "s1 = over_list (\<lambda>a s. ([applicant_step MRP_EVENT_TX a s], s)) s0"
  have i0: "mvrp_inv s0" using inv_timers(2) [OF assms(1)] by (simp add: s0_def)
  have i1: "mvrp_inv s1" unfolding s1_def by (rule pass_inv(2) [OF i0])
  have l1: "attrib_list s1 = map (\<lambda>a. applicant_step MRP_EVENT_TX a s0) (attrib_list s)" "frames s1 = frames s" "station s1 = station s"
    "mem_ok s1 (mem_pos s1)" "length (attrib_list s1) \<le> 390"
    using assms(2,4) by (simp_all add: s1_def over_list_def applicants_map s0_def on_db_def plenty_def)
  let ?b = "applicant_step MRP_EVENT_TX a s0"
  have b: "?b \<in> set (attrib_list s1)" using l1(1) assms(6) by simp
  obtain e where an: "a_tx (applicant ?b)" "a_encode (applicant ?b) = MRP_ENCODE_YES" "rx_event (code_of ?b) = Some e"
    "e \<in> {MRP_EVENT_RNEW, MRP_EVENT_RJOININ, MRP_EVENT_RJOINMT}"
    using anxious_sends [OF assms(7) refl, of s0] by auto
  have bs: "?b \<in> set (sent None (attrib_list s1))" by (rule sent_must [OF b an(1,2)])
  have ready: "tx_ready (attrib_list s1)" using i1 by (simp add: mvrp_inv_def good_def attr_ok_def tx_ready_def)
  have few: "marked (attrib_list s1) \<le> 390" "length (attrib_list s1) < 8000" using marked_le [of "attrib_list s1"] l1(5) by simp_all
  have ne: "sent None (attrib_list s1) \<noteq> []" using bs by auto
  have six: "length (station s1) = 6" using l1(3) assms(3) by simp
  obtain vs s2 where x: "frames (snd (mvrp_txpdu s1)) = frames s @ [frame_of (station s) vs]"
    and v: "vect_values vs = sent_values (sent None (attrib_list s1))" "\<forall>x\<in>set vs. vect_ok x" "flagged (t_tx (lva (mrp_db s1))) vs" "vs \<noteq> []"
    by (rule txpdu_frame [OF l1(4) ready few ne six]) (use l1(2,3) in auto)
  have f: "frames (snd (mvrp_event s MRP_EVENT_TX None)) = frames s @ [frame_of (station s) vs]"
    using x by (simp add: mvrp_event_def notify_frames event_tx_def Let_def s1_def [symmetric] s0_def [symmetric] frames_on_db)
  have small: "\<forall>(w, c)\<in>set (vect_values vs). w \<le> 0xFFF"
    unfolding v(1) sent_values_def using sent_subset [of None "attrib_list s1"] assms(5) l1(1) by (auto simp: applicant_step_def)
  define t0 where "t0 = (if t_tx (lva (mrp_db s1)) then snd (mvrp_event t MRP_EVENT_RLA None) else t)"
  have t0: "mvrp_inv t0" "plenty t0" using rla_ok [OF assms(8)] assms(8,9) plenty_env by (auto simp: t0_def)
  have d: "distinct (map fst (vect_values vs))"
    using sent_distinct i1 unfolding v(1) sent_values_def by (simp add: mvrp_inv_def good_def comp_def)
  have m: "(attribute a, code_of ?b) \<in> set (vect_values vs)" unfolding v(1) sent_values_def set_map
    by (rule image_eqI [OF _ bs]) (simp add: applicant_step_def)
  obtain t' where "deliver (station s) (vect_values vs) t0 = (True, t')" "mvrp_inv t'" "registered (attribute a) (station s) t'"
    using deliver_registers [OF t0 d m an(3,4)] by blast
  then show ?thesis using recv_frame [OF v(2,3,4) small assms(3), of t] f unfolding t0_def by auto
qed

section \<open>A command declares\<close>

lemma good_length: "good as \<Longrightarrow> length as = card (attribute ` set as)"
  using distinct_card [of "map attribute as"] by (simp add: good_def strict_sorted_iff)

lemma merged_attributes:
  "attribute ` set (attrib_list (if mvrp_lookup s (attribute r) = None then mvrp_add s r else snd (mvrp_merge s r))) \<subseteq>
     insert (attribute r) (attribute ` set (attrib_list s))"
proof -
  let ?m = "\<lambda>a. a\<lparr>registrar := (registrar a)\<lparr>r_macaddr := r_macaddr (registrar r)\<rparr>\<rparr>"
  have u: "\<And>a. attribute (?m a) = attribute a" by simp
  show ?thesis using update_attribute_elems(2) [OF u, of "attribute r" "attrib_list s"]
    by (auto simp: mvrp_add_def mvrp_merge_def split: option.splits)
qed

lemma event_attribute_attributes:
  assumes "mvrp_inv s" "fresh r"
  shows "attribute ` set (attrib_list (snd (event_attribute e r s))) \<subseteq> insert (attribute r) (attribute ` set (attrib_list s))"
proof -
  define t where "t = (if mvrp_lookup s (attribute r) = None then mvrp_add s r else snd (mvrp_merge s r))"
  let ?body = "\<lambda>a s. case attribute_step e a s of (a, s) \<Rightarrow> mvrp_conditional_reclaim a s"
  obtain ys s' where b: "at_attribute (attribute r) ?body (attrib_list t) t = (ys, s')"
    by (cases "at_attribute (attribute r) ?body (attrib_list t) t")
  have i: "mvrp_inv t" using merge_or_add_inv(1) [OF assms] by (simp add: t_def)
  have "attribute ` set ys \<subseteq> attribute ` set (attrib_list t)" using at_attribute_ok [OF i b] by blast
  moreover have "attribute ` set (attrib_list t) \<subseteq> insert (attribute r) (attribute ` set (attrib_list s))"
    unfolding t_def by (rule merged_attributes)
  ultimately have "attribute ` set ys \<subseteq> insert (attribute r) (attribute ` set (attrib_list s))" by (rule subset_trans)
  moreover have "attrib_list (snd (event_attribute e r s)) = attrib_list s \<or> attrib_list (snd (event_attribute e r s)) = ys"
    using b by (simp add: event_attribute_def Let_def t_def)
  ultimately show ?thesis by (auto simp: subset_insertI)
qed

lemma notify_attributes: "mvrp_inv s \<Longrightarrow> attribute ` set (attrib_list (over_list notify_step s)) \<subseteq> attribute ` set (attrib_list s)"
  unfolding notify_step_def mvrp_inv_app by (rule sorted_values(2) [OF notifies.over_list_app(3)]) simp

definition wants :: "u16 \<Rightarrow> mvrp_attribute \<Rightarrow> bool" where
  "wants v a \<longleftrightarrow> attribute a = v \<and> anxious (a_state (applicant a))"

lemma attribute_step_new:
  assumes "attr_ok a"
  shows "\<exists>b\<in>set (fst (case attribute_step MRP_EVENT_NEW a s of (a, s) \<Rightarrow> mvrp_conditional_reclaim a s)). wants (attribute a) b"
proof -
  obtain b where b: "fst (case attribute_step MRP_EVENT_NEW a s of (a, s) \<Rightarrow> mvrp_conditional_reclaim a s) = [b]" "anxious (a_state (applicant b))"
    "mrp_attribute.more b = mrp_attribute.more a"
    unfolding mvrp_conditional_reclaim_def using attribute_step_declares [OF assms] by blast
  then show ?thesis using own_attribute [OF b(3)] by (simp add: wants_def)
qed

lemma notify_wants: "\<exists>a\<in>set (attrib_list s). wants v a \<Longrightarrow> \<exists>a\<in>set (attrib_list (over_list notify_step s)). wants v a"
  unfolding notify_step_def by (rule notify_keeps) (simp_all add: wants_def)

lemma event_new_ok:
  assumes "mvrp_inv s" "fresh r"
  defines "s' \<equiv> snd (mvrp_event s MRP_EVENT_NEW (Some r))"
  shows "mvrp_inv s'" "same_env s s'" "\<exists>a\<in>set (attrib_list s'). wants (attribute r) a"
    "attribute ` set (attrib_list s') \<subseteq> insert (attribute r) (attribute ` set (attrib_list s))"
proof -
  let ?j = "on_db mrp_jointimer_start s"
  have j: "mvrp_inv ?j" "same_env s ?j" using inv_timers(1) [OF assms(1)] by simp_all
  define t where "t = (if mvrp_lookup ?j (attribute r) = None then mvrp_add ?j r else snd (mvrp_merge ?j r))"
  let ?body = "\<lambda>a s. case attribute_step MRP_EVENT_NEW a s of (a, s) \<Rightarrow> mvrp_conditional_reclaim a s"
  obtain ys u where b: "at_attribute (attribute r) ?body (attrib_list t) t = (ys, u)"
    by (cases "at_attribute (attribute r) ?body (attrib_list t) t")
  define w where "w = u\<lparr>attrib_list := ys\<rparr>"
  have e: "event_attribute MRP_EVENT_NEW r ?j = (True, w)" using b by (simp add: event_attribute_def Let_def t_def w_def)
  have s': "s' = over_list notify_step w" unfolding s'_def by (simp add: mvrp_event_def Let_def e)
  have o: "mvrp_inv w" "same_env ?j w" using event_attribute_ok [OF j(1) assms(2), of MRP_EVENT_NEW] e by simp_all
  show "mvrp_inv s'" unfolding s' by (rule pass_inv(4) [OF o(1)])
  show "same_env s s'" unfolding s' using j(2) o pass_env(2) same_env_trans by blast
  obtain a where a: "a \<in> set (attrib_list t)" "attribute a = attribute r" "set (fst (?body a t)) \<subseteq> set ys"
    using at_first_own [OF b merged_list(2) [OF t_def]] by blast
  have "mvrp_inv t" using merge_or_add_inv(1) [OF j(1) assms(2)] by (simp add: t_def)
  then have "attr_ok a" using a(1) by (simp add: mvrp_inv_def good_def)
  from attribute_step_new [OF this, of t] a(2,3) have "\<exists>b\<in>set (attrib_list w). wants (attribute r) b" by (auto simp: w_def)
  then show "\<exists>a\<in>set (attrib_list s'). wants (attribute r) a" unfolding s' by (rule notify_wants)
  show "attribute ` set (attrib_list s') \<subseteq> insert (attribute r) (attribute ` set (attrib_list s))"
    using event_attribute_attributes [OF j(1) assms(2), of MRP_EVENT_NEW] notify_attributes [OF o(1)] unfolding s' e by auto
qed

end
