(* ===== verification/Mvrp_Properties.thy ===== *)
theory Mvrp_Properties
  imports Mvrp_Stations
begin

text \<open>
  The properties of the VLAN registration protocol, over its frames, its runs and two
  stations, with a witness for each.
\<close>

section \<open>A sample station\<close>

definition sample_attribute :: "u16 \<Rightarrow> mrp_state \<Rightarrow> mrp_state \<Rightarrow> mvrp_attribute" where
  "sample_attribute v ap reg = \<lparr>applicant = \<lparr>a_state = ap, a_tx = False, a_sndmsg = MRP_SND_NULL, a_encode = MRP_ENCODE_OPTIONAL, a_previous = None\<rparr>,
     registrar = \<lparr>r_state = reg, r_notify = MRP_NOTIFY_NONE, r_macaddr = replicate 6 0, r_previous = None\<rparr>, attribute = v\<rparr>"

definition sample_station :: "u8 \<Rightarrow> mvrp_attribute list \<Rightarrow> mvrp_database" where
  "sample_station n as =
     \<lparr>mrp_db = \<lparr>lva = \<lparr>t_state = MRP_TIMER_PASSIVE, t_tx = False, t_sndmsg = MRP_SND_NONE\<rparr>, join_timer_running = False,
        lv_timer_running = False, lva_timer_running = True, clients = [], registration = 0, participant = 0, calls = [],
        answers = (\<lambda>i. 0), rands = (\<lambda>i. 12345), rands_pos = 0\<rparr>,
      attrib_list = as, send_empty_LeaveAll_flag = False, p2pmac = 1, station = [n, 0, 0, 0, 0, n], frames = [],
      send_rc = (\<lambda>i. 60), ctl = [], mem_ok = (\<lambda>i. True), mem_pos = 0\<rparr>"

lemma sample_inv:
  assumes "good as" and "\<forall>a\<in>set as. \<not> leaving a"
  shows "mvrp_inv (sample_station n as)"
  using assms by (simp add: mvrp_inv_def covered_def timers_ok_def sample_station_def)

lemma sample_attribute_ok:
  "applicant_state ap \<Longrightarrow> registrar_state reg \<Longrightarrow> attr_ok (sample_attribute v ap reg)"
  "attribute (sample_attribute v ap reg) = v" "leaving (sample_attribute v ap reg) \<longleftrightarrow> reg = MRP_LV_STATE"
  by (simp_all add: sample_attribute_def attr_ok_def leaving_def)

lemma length_concat_const: "\<forall>a\<in>set as. length (f a) = n \<Longrightarrow> length (concat (map f as)) = n * length as"
  by (induction as) simp_all

section \<open>Properties\<close>

text \<open>
  Property C7.  What is transmitted is received: a station whose marked attributes
  fit into one frame sends exactly one frame, clears the marks, and any station that receives the frame
  handles a leave-all first, if it is flagged, and then the values of the attributes that were sent, in
  order, with the sender's address; it reports success unless its memory is exhausted.
\<close>

theorem mvrp_frame_roundtrip:
  assumes "mem_ok s (mem_pos s)" and "tx_ready (attrib_list s)" and "marked (attrib_list s) \<le> 390" "length (attrib_list s) < 8000"
    and "sent None (attrib_list s) \<noteq> []" and "length (station s) = 6" and "\<forall>a\<in>set (attrib_list s). attribute a \<le> 0xFFF"
  shows "\<exists>f s'. mvrp_txpdu s = (if send_rc s (length (frames s)) \<le> 0 then -1 else 0, s') \<and> frames s' = frames s @ [f] \<and>
    attrib_list s' = map clear_tx (attrib_list s) \<and>
    (\<forall>t. mvrp_recv_msg t (int (length f)) (padded f) =
      (case deliver (station s) (sent_values (sent None (attrib_list s)))
          (if t_tx (lva (mrp_db s)) then snd (mvrp_event t MRP_EVENT_RLA None) else t) of
        (ok, t) \<Rightarrow> Some (if ok then 0 else -1, t)))"
proof -
  obtain vs s' where x: "mvrp_txpdu s = (if send_rc s (length (frames s)) \<le> 0 then -1 else 0, s')"
    "frames s' = frames s @ [frame_of (station s) vs]" "attrib_list s' = map clear_tx (attrib_list s)"
    and v: "vect_values vs = sent_values (sent None (attrib_list s))" "\<forall>x\<in>set vs. vect_ok x" "flagged (t_tx (lva (mrp_db s))) vs" "vs \<noteq> []"
    by (rule txpdu_frame [OF assms(1-6)])
  have "\<forall>(w, c)\<in>set (vect_values vs). w \<le> 0xFFF"
    unfolding v(1) sent_values_def using sent_subset [of None "attrib_list s"] assms(7) by auto
  from recv_frame [OF v(2,3,4) this assms(6)] x v(1) show ?thesis by auto
qed

definition sending :: mvrp_database where
  "sending = sample_station 1 [(sample_attribute 2 MRP_AA_STATE MRP_MT_STATE)\<lparr>applicant :=
     \<lparr>a_state = MRP_AA_STATE, a_tx = True, a_sndmsg = MRP_SND_JOIN, a_encode = MRP_ENCODE_YES, a_previous = None\<rparr>\<rparr>]"

theorem mvrp_frame_roundtrip_witness:
  "\<exists>f s'. mvrp_txpdu sending = (0, s') \<and> frames s' = [f] \<and>
    (\<forall>t. mvrp_recv_msg t (int (length f)) (padded f) =
      (case deliver [1, 0, 0, 0, 0, 1] [(2, 3)] t of (ok, t) \<Rightarrow> Some (if ok then 0 else -1, t)))"
  using mvrp_frame_roundtrip [of sending]
  by (auto simp: sending_def sample_station_def sample_attribute_def pdu_event_def code_of_def sent_values_def)

text \<open>
  A declaration reaches the neighbour: if an attribute of a station is declared
  and not quiet, the next transmission opportunity sends a frame, and after receiving it
  the neighbour has the VID registered, with the address of the sender.
\<close>

theorem mvrp_registers:
  assumes "mvrp_inv s" "plenty s" and "length (station s) = 6" and "length (attrib_list s) \<le> 390"
    and "\<forall>a\<in>set (attrib_list s). attribute a \<le> 0xFFF" and "a \<in> set (attrib_list s)" "anxious (a_state (applicant a))"
    and "mvrp_inv t" "plenty t"
  shows "\<exists>f t'. frames (snd (mvrp_event s MRP_EVENT_TX None)) = frames s @ [f] \<and>
    mvrp_recv_msg t (int (length f)) (padded f) = Some (0, t') \<and> mvrp_inv t' \<and> registered (attribute a) (station s) t'"
  by (rule station_registers [OF assms])

theorem mvrp_registers_witness:
  "\<exists>f t'. frames (snd (mvrp_event (sample_station 1 [sample_attribute 2 MRP_VP_STATE MRP_MT_STATE]) MRP_EVENT_TX None)) = [f] \<and>
    mvrp_recv_msg (sample_station 2 []) (int (length f)) (padded f) = Some (0, t') \<and> registered 2 [1, 0, 0, 0, 0, 1] t'"
proof -
  let ?s = "sample_station 1 [sample_attribute 2 MRP_VP_STATE MRP_MT_STATE]"
  have i: "mvrp_inv ?s" "mvrp_inv (sample_station 2 [])"
    by (rule sample_inv; simp add: good_def sample_attribute_ok state_sets)+
  have o: "plenty ?s" "length (station ?s) = 6" "length (attrib_list ?s) \<le> 390" "\<forall>a\<in>set (attrib_list ?s). attribute a \<le> 0xFFF"
    "sample_attribute 2 MRP_VP_STATE MRP_MT_STATE \<in> set (attrib_list ?s)" "plenty (sample_station 2 [])"
    by (simp_all add: plenty_def sample_station_def sample_attribute_def)
  have "anxious (a_state (applicant (sample_attribute 2 MRP_VP_STATE MRP_MT_STATE)))"
    by (simp add: sample_attribute_def anxious_def state_sets)
  from mvrp_registers [OF i(1) o(1-5) this i(2) o(6)] show ?thesis by (auto simp: sample_attribute_ok(2) sample_station_def)
qed

text \<open>
  No sequence of timer events, received frames of at most 1996 bytes, commands that end
  within their buffer and ends of clients makes a running database access memory
  behind a buffer, and its invariant - strictly sorted VIDs, machines in their own states, a running leave timer
  while a registrar leaves - holds at the end; a query is admissible while there are fewer than 50 VIDs.
\<close>

theorem mvrp_run_safe:
  assumes "mvrp_init True sock_rc timers_rc env = (0, True, Some s0)" and "timers_ok env"
    and "all_admissible mvrp_admissible mvrp_exec s0 es"
  shows "\<exists>s'. exec_run mvrp_exec s0 es = Some s' \<and> mvrp_inv s'"
  using mvrp.exec_run_inv init_inv [OF assms(1,2)] assms(3) by blast

theorem mvrp_run_safe_witness:
  "\<exists>s0 s'. mvrp_init True 3 0 (sample_station 1 []) = (0, True, Some s0) \<and>
    exec_run mvrp_exec s0 [Cmd (''V++:I=0002'' @ [CHR 0x00]) 11 \<lparr>sin_family = 2, sin_port = 7, sin_addr = 1, sin_zero = []\<rparr>,
      Timer MRP_EVENT_TX, Recv 60 (replicate 2000 0), Timer MRP_EVENT_LVATIMER, Reclaim] = Some s' \<and> mvrp_inv s'"
proof -
  have "\<exists>s0. mvrp_init True 3 0 (sample_station 1 []) = (0, True, Some s0)"
    by (simp add: mvrp_init_def reset_application_def mrpd_malloc_def sample_station_def)
  then obtain s0 where i: "mvrp_init True 3 0 (sample_station 1 []) = (0, True, Some s0)" by blast
  have "all_admissible mvrp_admissible mvrp_exec s0 [Cmd (''V++:I=0002'' @ [CHR 0x00]) 11 \<lparr>sin_family = 2, sin_port = 7, sin_addr = 1, sin_zero = []\<rparr>,
      Timer MRP_EVENT_TX, Recv 60 (replicate 2000 0), Timer MRP_EVENT_LVATIMER, Reclaim]"
    by (simp add: mvrp_admissible_def MAX_FRAME_SIZE_def split: option.split)
  moreover have "timers_ok (sample_station 1 [])" by (simp add: timers_ok_def sample_station_def)
  ultimately show ?thesis using mvrp_run_safe [OF i] i by blast
qed

text \<open>
  A query overflows its answer buffer exactly if there are 50 or more
  attributes: each takes a line of 30 characters, and the buffer has 1500 bytes.
\<close>

theorem mvrp_dumptable_overflow:
  assumes "mvrp_inv s" "plenty s" and "\<forall>a\<in>set (attrib_list s). length (r_macaddr (registrar a)) = 6"
  shows "mvrp_dumptable s = None \<longleftrightarrow> 50 \<le> length (attrib_list s)"
proof -
  have "\<forall>a\<in>set (attrib_list s). length (dump_line a) = 30"
    using assms(1,3) dump_line_le by (simp add: mvrp_inv_def good_def)
  then have "length (concat (map dump_line (attrib_list s))) = 30 * length (attrib_list s)"
    by (rule length_concat_const)
  then show ?thesis
    using assms(2) by (auto simp: mvrp_dumptable_def mrpd_malloc_def plenty_def Let_def MAX_MRPD_CMDSZ_def newline_def c_assert_def)
qed

theorem mvrp_dumptable_overflow_witness:
  "mvrp_dumptable (sample_station 1 (map (\<lambda>i. sample_attribute (of_nat i) MRP_QA_STATE MRP_MT_STATE) [1..<51])) = None"
proof -
  let ?as = "map (\<lambda>i. sample_attribute (of_nat i) MRP_QA_STATE MRP_MT_STATE) [1..<51]"
  have "sorted_wrt (<) (map (of_nat :: nat \<Rightarrow> u16) [1..<51])" by code_simp
  then have "good ?as" by (auto simp: good_def comp_def sample_attribute_ok state_sets)
  then have "mvrp_inv (sample_station 1 ?as)" by (rule sample_inv) (simp add: sample_attribute_ok)
  from mvrp_dumptable_overflow [OF this] show ?thesis
    by (simp add: plenty_def sample_station_def sample_attribute_def)
qed

end
