(* ===== verification/Mmrp.thy ===== *)
theory Mmrp
  imports Mrp_Application
begin

text \<open>
  The MAC address registration protocol, \<open>mrpd/mmrp.c\<close> and \<open>mrpd/mmrp.h\<close>: attributes for MAC addresses and for
  service requirements, the handler of all events, and the frames in both directions.
\<close>

section \<open>Data\<close>

datatype mmrp_type = MMRP_SVCREQ_TYPE | MMRP_MACVEC_TYPE

text \<open>The tagged union of an attribute: its type says which value it holds.\<close>

datatype mmrp_value = MMRP_SVCREQ u8 | MMRP_MACVEC "u8 list"

fun value_type :: "mmrp_value \<Rightarrow> mmrp_type" where
  "value_type (MMRP_SVCREQ x) = MMRP_SVCREQ_TYPE"
| "value_type (MMRP_MACVEC m) = MMRP_MACVEC_TYPE"

record mmrp_attribute = mrp_attribute +
  m_value :: mmrp_value

abbreviation m_type :: "mmrp_attribute \<Rightarrow> mmrp_type" where
  "m_type a \<equiv> value_type (m_value a)"

text \<open>
  The environment has one more part: what the stack holds in the second and third element of \<open>vectevt\<close> when
  \<open>mmrp_emit_svcvectors\<close> is entered, which it does not initialise.  The number of calls of \<open>malloc\<close> tells one call from another.
\<close>

record mmrp_database = "mmrp_attribute mrp_application" +
  vectevt_stack :: "nat \<Rightarrow> nat \<times> nat"

definition MMRP_ETYPE :: u16 where "MMRP_ETYPE = 0x88F6"
definition MMRP_PROT_VER :: u8 where "MMRP_PROT_VER = 0x00"
definition MMRP_ADDR :: "u8 list" where "MMRP_ADDR = [0x01, 0x80, 0xC2, 0x00, 0x00, 0x20]"

fun mmrp_code :: "mmrp_type \<Rightarrow> u8" where
  "mmrp_code MMRP_SVCREQ_TYPE = 1"
| "mmrp_code MMRP_MACVEC_TYPE = 2"

text \<open>The length of the first value of a vector.\<close>

fun mmrp_length :: "mmrp_type \<Rightarrow> nat" where
  "mmrp_length MMRP_SVCREQ_TYPE = 1"
| "mmrp_length MMRP_MACVEC_TYPE = 6"

text \<open>The value after \<open>memset\<close>, for each type.\<close>

fun mmrp_zero :: "mmrp_type \<Rightarrow> mmrp_value" where
  "mmrp_zero MMRP_SVCREQ_TYPE = MMRP_SVCREQ 0"
| "mmrp_zero MMRP_MACVEC_TYPE = MMRP_MACVEC (replicate 6 0)"

text \<open>Every caller sets the type and the value of the new attribute at once.\<close>

definition mmrp_alloc :: "mmrp_value \<Rightarrow> mmrp_database \<Rightarrow> mmrp_attribute option \<times> mmrp_database" where
  "mmrp_alloc v s =
     (let (ok, s) = mrpd_malloc s in
      (if ok then Some \<lparr>applicant = new_applicant, registrar = new_registrar, m_value = v\<rparr> else None, s))"

section \<open>The attribute list\<close>

definition mmrp_lookup :: "mmrp_database \<Rightarrow> mmrp_attribute \<Rightarrow> mmrp_attribute option" where
  "mmrp_lookup s r = find (\<lambda>a. m_value a = m_value r) (attrib_list s)"

fun mmrp_less :: "mmrp_value \<Rightarrow> mmrp_value \<Rightarrow> bool" where
  "mmrp_less (MMRP_SVCREQ x) (MMRP_SVCREQ y) = (x < y)"
| "mmrp_less (MMRP_MACVEC m) (MMRP_MACVEC n) = memcmp_less m n"
| "mmrp_less _ _ = False"

fun mmrp_insert :: "mmrp_attribute \<Rightarrow> mmrp_attribute list \<Rightarrow> mmrp_attribute list" where
  "mmrp_insert r [] = [r]"
| "mmrp_insert r (a # as) =
     (if m_type r = m_type a then
        if mmrp_less (m_value a) (m_value r) then
          if as \<noteq> [] \<and> m_type (hd as) = m_type a then a # mmrp_insert r as else a # r # as
        else r # a # as
      else a # mmrp_insert r as)"

definition mmrp_add :: "mmrp_database \<Rightarrow> mmrp_attribute \<Rightarrow> mmrp_database" where
  "mmrp_add s r = s\<lparr>attrib_list := mmrp_insert r (attrib_list s)\<rparr>"

definition mmrp_merge :: "mmrp_database \<Rightarrow> mmrp_attribute \<Rightarrow> int \<times> mmrp_database" where
  "mmrp_merge s r =
     (case mmrp_lookup s r of
        None \<Rightarrow> (-1, s)
      | Some _ \<Rightarrow> (0, s\<lparr>attrib_list := update_first (\<lambda>a. m_value a = m_value r)
          (\<lambda>a. a\<lparr>registrar := (registrar a)\<lparr>r_macaddr := r_macaddr (registrar r)\<rparr>\<rparr>) (attrib_list s)\<rparr>))"

section \<open>Notifications and reclaiming\<close>

definition mmrp_text :: "mmrp_attribute \<Rightarrow> string" where
  "mmrp_text a =
     (case m_value a of
        MMRP_SVCREQ x \<Rightarrow> ''S='' @ print_base 10 (unat x)
      | MMRP_MACVEC m \<Rightarrow> ''M='' @ hex_bytes (take 6 m))"

definition mmrp_send_notifications :: "mmrp_database \<Rightarrow> mmrp_attribute \<Rightarrow> mrp_notify \<Rightarrow> int \<times> mmrp_database" where
  "mmrp_send_notifications = send_notifications (CHR ''M'') mmrp_text"

definition mmrp_reclaim :: "mmrp_database option \<Rightarrow> int \<times> mmrp_database option" where
  "mmrp_reclaim db = (0, map_option (over_list (conditional_reclaim (CHR ''M'') mmrp_text)) db)"

section \<open>Encoding MAC addresses\<close>

text \<open>A write behind the end of a buffer of \<open>room\<close> bytes is \<open>None\<close>.\<close>

text \<open>
  The event of an attribute \<open>b\<close> that continues a vector with the first attribute \<open>a\<close>: a join is sent with
  the state of the registrar of \<open>a\<close>.
\<close>

definition follow_event :: "mmrp_attribute \<Rightarrow> mmrp_attribute \<Rightarrow> mrpdu_event option" where
  "follow_event a b =
     (if a_sndmsg (applicant b) = MRP_SND_JOIN
      then Some (if r_state (registrar a) = MRP_IN_STATE then MRPDU_JOININ else MRPDU_JOINMT) else pdu_event b)"

text \<open>
  The loop that appends the following attributes to a vector at offset \<open>vp\<close> with the first attribute \<open>a\<close> and the last
  address \<open>mac\<close>: whether it ended without an error, the events not packed yet, the packed bytes, the number of values, and the
  attributes that follow with their flags.
\<close>

fun mac_vector_loop :: "nat \<Rightarrow> nat \<Rightarrow> mmrp_attribute \<Rightarrow> u8 list \<Rightarrow> nat list \<Rightarrow> u8 list \<Rightarrow> nat \<Rightarrow> mmrp_attribute list \<Rightarrow>
    (bool \<times> nat list \<times> u8 list \<times> nat \<times> mmrp_attribute list) option" where
  "mac_vector_loop room vp a mac evs packed n [] = Some (True, evs, packed, n, [])"
| "mac_vector_loop room vp a mac evs packed n (b # bs) =
     (if m_type b \<noteq> MMRP_MACVEC_TYPE \<or> \<not> a_tx (applicant b) then Some (True, evs, packed, n, b # bs)
      else let mac = mmrp_increment_macaddr mac in
        if m_value b \<noteq> MMRP_MACVEC mac then Some (True, evs, packed, n, b # bs)
        else (case follow_event a b of
            None \<Rightarrow> Some (False, evs, packed, n, clear_tx b # bs)
          | Some e \<Rightarrow> do {
              let evs = evs @ [mrpdu_code e];
              c_assert (length evs > 2 \<longrightarrow> vp + 2 + (6 + length packed) < room);
              let (evs, packed) = (if length evs > 2 then ([], packed @ [pack3 evs]) else (evs, packed));
              if room < vp + 2 + (6 + length packed) + 11 then Some (False, evs, packed, n + 1, clear_tx b # bs)
              else do {
                (ok, evs, packed, n, bs) \<leftarrow> mac_vector_loop room vp a mac evs packed (n + 1) bs;
                Some (ok, evs, packed, n, clear_tx b # bs) } }))"

lemma length_mac_vector_loop:
  "mac_vector_loop room vp a mac evs packed n bs = Some (ok, evs', packed', n', bs') \<Longrightarrow> length bs' = length bs"
  by (induction room vp a mac evs packed n bs arbitrary: ok evs' packed' n' bs' rule: mac_vector_loop.induct)
    (auto simp: Let_def bind_eq_Some_conv split: if_splits option.splits prod.splits)

text \<open>
  One vector that starts with an attribute that is sent: \<open>None\<close> in the first component for the error exit,
  otherwise its bytes; and the attributes that follow.
\<close>

definition mac_vector :: "nat \<Rightarrow> nat \<Rightarrow> bool \<Rightarrow> mmrp_attribute \<Rightarrow> mmrp_attribute list \<Rightarrow> (u8 list option \<times> mmrp_attribute list) option" where
  "mac_vector room vp l a as =
     (case m_value a of
        MMRP_SVCREQ x \<Rightarrow> Some (None, as)
      | MMRP_MACVEC mac \<Rightarrow> do {
          c_assert (vp + 2 + 6 \<le> room);
          case pdu_event a of
            None \<Rightarrow> Some (None, as)
          | Some e \<Rightarrow> do {
              (ok, evs, packed, n, bs) \<leftarrow> mac_vector_loop room vp a mac [mrpdu_code e] [] 1 as;
              if \<not> ok then Some (None, bs)
              else do {
                c_assert (evs \<noteq> [] \<longrightarrow> vp + 2 + (6 + length packed) < room);
                let packed = (if evs \<noteq> [] then packed @ [pack3 evs] else packed);
                if room < vp + 2 + (6 + length packed) + MRPDU_ENDMARK_SZ then Some (None, bs)
                else Some (Some (vector_header n l @ take 6 mac @ packed), bs) } } })"

lemma length_mac_vector: "mac_vector room vp l a as = Some (r, bs) \<Longrightarrow> length bs = length as"
  by (auto simp: mac_vector_def Let_def bind_eq_Some_conv dest!: length_mac_vector_loop
      split: if_splits option.splits prod.splits mmrp_value.splits)

text \<open>
  The loop over all attributes; \<open>found\<close> tells whether a vector has been written, as the first one begins behind type and length.
  Every vector carries the leave-all flag.
\<close>

function mac_emit_loop :: "nat \<Rightarrow> u8 list \<Rightarrow> bool \<Rightarrow> bool \<Rightarrow> mmrp_attribute list \<Rightarrow> (bool \<times> u8 list \<times> mmrp_attribute list) option" where
  "mac_emit_loop room out found l [] = Some (True, out, [])"
| "mac_emit_loop room out found l (a # as) =
     (if \<not> (if found then length out else 0) + 11 + MRPDU_ENDMARK_SZ < room then Some (True, out, a # as)
      else if m_type a \<noteq> MMRP_MACVEC_TYPE \<or> \<not> a_tx (applicant a) then do {
        (ok, out, as) \<leftarrow> mac_emit_loop room out found l as;
        Some (ok, out, a # as) }
      else if a_encode (applicant a) = MRP_ENCODE_OPTIONAL then do {
        (ok, out, as) \<leftarrow> mac_emit_loop room out found l as;
        Some (ok, out, clear_tx a # as) }
      else do {
        (r, bs) \<leftarrow> mac_vector room (length out) l a as;
        case r of
          None \<Rightarrow> Some (False, out, clear_tx a # bs)
        | Some v \<Rightarrow> do {
            (ok, out, bs) \<leftarrow> mac_emit_loop room (out @ v) True l bs;
            Some (ok, out, clear_tx a # bs) } })"
  by pat_completeness auto
termination by (relation "measure (\<lambda>(room, out, found, l, as). length as)") (auto dest!: length_mac_vector)

text \<open>Return value, bytes written into a buffer of \<open>room\<close> bytes, and the attributes with their flags.\<close>

definition mmrp_emit_macvectors :: "nat \<Rightarrow> bool \<Rightarrow> mmrp_attribute list \<Rightarrow> (int \<times> u8 list \<times> mmrp_attribute list) option" where
  "mmrp_emit_macvectors room l as =
     (if room < 11 then Some (-1, [], as)
      else do {
        (ok, out, as) \<leftarrow> mac_emit_loop room [mmrp_code MMRP_MACVEC_TYPE, 6] False l as;
        if \<not> ok then Some (-1, [], as)
        else if length out = 2 then Some (0, [], as)
        else do { c_assert (length out + 2 \<le> room); Some (0, out @ [0, 0], as) } })"

section \<open>Encoding service requirements\<close>

text \<open>
  The events of a vector are written from the third byte of its values on; the byte before stays as \<open>mmrp_txpdu\<close> cleared it.
  The array of events keeps what earlier vectors left in it.
\<close>

fun svc_vector_loop :: "nat \<Rightarrow> nat \<Rightarrow> u8 \<Rightarrow> nat list \<Rightarrow> nat \<Rightarrow> u8 list \<Rightarrow> nat \<Rightarrow> mmrp_attribute list \<Rightarrow>
    (bool \<times> nat list \<times> nat \<times> u8 list \<times> nat \<times> mmrp_attribute list) option" where
  "svc_vector_loop room vp x evt i packed n [] = Some (True, evt, i, packed, n, [])"
| "svc_vector_loop room vp x evt i packed n (b # bs) =
     (if m_type b \<noteq> MMRP_SVCREQ_TYPE \<or> \<not> a_tx (applicant b) then Some (True, evt, i, packed, n, b # bs)
      else let x = x + 1 in
        if m_value b \<noteq> MMRP_SVCREQ x then Some (True, evt, i, packed, n, b # bs)
        else (case pdu_event b of
            None \<Rightarrow> Some (False, evt, i, packed, n, clear_tx b # bs)
          | Some e \<Rightarrow> do {
              let evt = evt[i := mrpdu_code e];
              let i = i + 1;
              c_assert (i > 2 \<longrightarrow> vp + 2 + (2 + length packed) < room);
              let (evt, i, packed) =
                (if i > 2 then ([0, 0, 0], 0, packed @ [MRPDU_3PACK_ENCODE (evt ! 0) (evt ! 1) (evt ! 2)]) else (evt, i, packed));
              if room < vp + 2 + (2 + length packed) + MRPDU_ENDMARK_SZ then Some (False, evt, i, packed, n + 1, clear_tx b # bs)
              else do {
                (ok, evt, i, packed, n, bs) \<leftarrow> svc_vector_loop room vp x evt i packed (n + 1) bs;
                Some (ok, evt, i, packed, n, clear_tx b # bs) } }))"

lemma length_svc_vector_loop:
  "svc_vector_loop room vp x evt i packed n bs = Some (ok, evt', i', packed', n', bs') \<Longrightarrow> length bs' = length bs"
  by (induction room vp x evt i packed n bs arbitrary: ok evt' i' packed' n' bs' rule: svc_vector_loop.induct)
    (auto simp: Let_def bind_eq_Some_conv split: if_splits option.splits prod.splits)

definition svc_vector :: "nat \<Rightarrow> nat \<Rightarrow> bool \<Rightarrow> nat list \<Rightarrow> mmrp_attribute \<Rightarrow> mmrp_attribute list \<Rightarrow>
    (u8 list option \<times> nat list \<times> mmrp_attribute list) option" where
  "svc_vector room vp l evt a as =
     (case m_value a of
        MMRP_MACVEC mac \<Rightarrow> Some (None, evt, as)
      | MMRP_SVCREQ x \<Rightarrow> do {
          c_assert (vp + 2 + 1 \<le> room);
          case pdu_event a of
            None \<Rightarrow> Some (None, evt, as)
          | Some e \<Rightarrow> do {
              (ok, evt, i, packed, n, bs) \<leftarrow> svc_vector_loop room vp x (evt[0 := mrpdu_code e]) 1 [] 1 as;
              if \<not> ok then Some (None, evt, bs)
              else do {
                c_assert (i > 0 \<longrightarrow> vp + 2 + (2 + length packed) < room);
                let packed = (if i > 0 then packed @ [MRPDU_3PACK_ENCODE (evt ! 0) (evt ! 1) (evt ! 2)] else packed);
                if room < vp + 2 + (2 + length packed) + MRPDU_ENDMARK_SZ then Some (None, evt, bs)
                else Some (Some (vector_header n l @ [x, 0] @ packed), evt, bs) } } })"

lemma length_svc_vector: "svc_vector room vp l evt a as = Some (r, evt', bs) \<Longrightarrow> length bs = length as"
  by (auto simp: svc_vector_def Let_def bind_eq_Some_conv dest!: length_svc_vector_loop
      split: if_splits option.splits prod.splits mmrp_value.splits)

text \<open>Here \<open>found\<close> is \<open>attrib_found_flag\<close>, and only the first vector carries the leave-all flag.\<close>

function svc_emit_loop :: "nat \<Rightarrow> u8 list \<Rightarrow> bool \<Rightarrow> bool \<Rightarrow> nat list \<Rightarrow> mmrp_attribute list \<Rightarrow>
    (bool \<times> u8 list \<times> bool \<times> mmrp_attribute list) option" where
  "svc_emit_loop room out found l evt [] = Some (True, out, found, [])"
| "svc_emit_loop room out found l evt (a # as) =
     (if \<not> (if found then length out else 0) + 6 + MRPDU_ENDMARK_SZ < room then Some (True, out, found, a # as)
      else if m_type a \<noteq> MMRP_SVCREQ_TYPE \<or> \<not> a_tx (applicant a) then do {
        (ok, out, found, as) \<leftarrow> svc_emit_loop room out found l evt as;
        Some (ok, out, found, a # as) }
      else if a_encode (applicant a) = MRP_ENCODE_OPTIONAL then do {
        (ok, out, found, as) \<leftarrow> svc_emit_loop room out found l evt as;
        Some (ok, out, found, clear_tx a # as) }
      else do {
        (r, evt, bs) \<leftarrow> svc_vector room (length out) l evt a as;
        case r of
          None \<Rightarrow> Some (False, out, True, clear_tx a # bs)
        | Some v \<Rightarrow> do {
            (ok, out, found, bs) \<leftarrow> svc_emit_loop room (out @ v) True False evt bs;
            Some (ok, out, found, clear_tx a # bs) } })"
  by pat_completeness auto
termination by (relation "measure (\<lambda>(room, out, found, l, evt, as). length as)") (auto dest!: length_svc_vector)

text \<open>The pair holds the uninitialised elements of the array of events.\<close>

definition mmrp_emit_svcvectors :: "nat \<Rightarrow> bool \<Rightarrow> bool \<Rightarrow> nat \<times> nat \<Rightarrow> mmrp_attribute list \<Rightarrow> (int \<times> u8 list \<times> mmrp_attribute list) option" where
  "mmrp_emit_svcvectors room empty_leaveall l = (\<lambda>(j1, j2) as.
     if room < 6 then Some (-1, [], as)
     else do {
       (ok, out, found, as) \<leftarrow> svc_emit_loop room [mmrp_code MMRP_SVCREQ_TYPE, 1] False l [0, j1, j2] as;
       if \<not> ok then Some (-1, [], as)
       else do {
         let out = (if \<not> found \<and> empty_leaveall then out @ vector_header 0 True @ [0] else out);
         if length out = 2 then Some (0, [], as)
         else do { c_assert (length out + 2 \<le> room); Some (0, out @ [0, 0], as) } } })"

section \<open>Frames\<close>

text \<open>The Ethernet header takes 14 bytes and the protocol version one; \<open>room\<close> is what is left behind them.\<close>

definition mmrp_txpdu :: "mmrp_database \<Rightarrow> (int \<times> mmrp_database) option" where
  "mmrp_txpdu s =
     (let (ok, s) = mrpd_malloc s in
      if \<not> ok then Some (-1, s)
      else do {
        let l = t_tx (lva (mrp_db s));
        let s = (if l then s\<lparr>mrp_db := (mrp_db s)\<lparr>lva := (lva (mrp_db s))\<lparr>t_tx := False\<rparr>\<rparr>\<rparr> else s);
        let room = MAX_FRAME_SIZE - 15;
        (rc, b1, as) \<leftarrow> mmrp_emit_macvectors room l (attrib_list s);
        let s = s\<lparr>attrib_list := as\<rparr>;
        if rc = -1 then Some (-1, s)
        else if room \<le> length b1 + MRPDU_ENDMARK_SZ then Some (-1, s)
        else do {
          (rc, b2, as) \<leftarrow> mmrp_emit_svcvectors (room - length b1) (send_empty_LeaveAll_flag s) l (vectevt_stack s (mem_pos s)) (attrib_list s);
          let s = s\<lparr>attrib_list := as\<rparr>;
          let bytes = b1 @ b2;
          if rc = -1 then Some (-1, s)
          else if bytes = [] then Some (0, s)
          else if \<not> length bytes + MRPDU_ENDMARK_SZ < room then Some (-1, s)
          else do {
            let frame = MMRP_ADDR @ station s @ bytes_be 2 MMRP_ETYPE @ [MMRP_PROT_VER] @ bytes @ [0, 0];
            let sent = send_rc s (length (frames s));
            Some (if sent \<le> 0 then -1 else 0, s\<lparr>frames := frames s @ [frame]\<rparr>) } } })"

section \<open>Events\<close>

definition mmrp_event_lvatimer :: "mmrp_database \<Rightarrow> mmrp_database option" where
  "mmrp_event_lvatimer s =
     (let s = on_db mrp_jointimer_stop (on_db mrp_lvatimer_stop s);
          s = over_list (both_step MRP_EVENT_TXLA) s;
          s = on_db (\<lambda>db. mrp_lvatimer_fsm db MRP_EVENT_LVATIMER) s;
          s = on_db (\<lambda>db. mrp_lvatimer_fsm db MRP_EVENT_TX) (s\<lparr>send_empty_LeaveAll_flag := True\<rparr>)
      in do {
        (rc, s) \<leftarrow> mmrp_txpdu s;
        Some (s\<lparr>send_empty_LeaveAll_flag := False\<rparr>) })"

text \<open>A received leave-all concerns the attributes of one type.\<close>

definition mmrp_event_rla :: "mmrp_type \<Rightarrow> mmrp_database \<Rightarrow> mmrp_database" where
  "mmrp_event_rla t s =
     on_db (\<lambda>db. mrp_lvatimer_fsm db MRP_EVENT_RLA) (over_list (\<lambda>a s. if m_type a = t then both_step MRP_EVENT_RLA a s else ([a], s)) s)"

definition mmrp_event_tx :: "mmrp_database \<Rightarrow> mmrp_database option" where
  "mmrp_event_tx s =
     (let s = over_list (\<lambda>a s. ([applicant_step MRP_EVENT_TX a s], s)) (on_db mrp_jointimer_stop s);
          count = sum_list (map (\<lambda>a. mrp_applicant_state_transition_implies_tx (applicant a)) (attrib_list s))
      in do {
        (rc, s) \<leftarrow> mmrp_txpdu s;
        Some (if count \<noteq> 0 then on_db mrp_jointimer_start s else s) })"

definition mmrp_event_lvtimer :: "mmrp_database \<Rightarrow> mmrp_database" where
  "mmrp_event_lvtimer s =
     over_list (\<lambda>a s. case registrar_step MRP_EVENT_LVTIMER a s of (a, s) \<Rightarrow> ([a], s)) (on_db mrp_lvtimer_stop s)"

definition mmrp_event_periodic :: "mmrp_database \<Rightarrow> mmrp_database" where
  "mmrp_event_periodic s =
     over_list (\<lambda>a s. ([applicant_step MRP_EVENT_PERIODIC a s], s))
       (if attrib_list s \<noteq> [] then on_db mrp_jointimer_start s else s)"

text \<open>The boolean is false for the return before the notifications.\<close>

definition mmrp_event_attribute :: "mrp_event \<Rightarrow> mmrp_attribute \<Rightarrow> mmrp_database \<Rightarrow> bool \<times> mmrp_database" where
  "mmrp_event_attribute e r s =
     (if mmrp_lookup s r = None \<and> e = MRP_EVENT_RMT then (False, s)
      else
        let s = (if mmrp_lookup s r = None then mmrp_add s r else snd (mmrp_merge s r));
            (as, s) = at_first (\<lambda>a. m_value a = m_value r)
              (\<lambda>a s. case attribute_step e a s of (a, s) \<Rightarrow> ([a], s)) (attrib_list s) s
        in (True, s\<lparr>attrib_list := as\<rparr>))"

definition mmrp_notify :: "mmrp_database \<Rightarrow> mmrp_database" where
  "mmrp_notify = over_list (notify_attribute (CHR ''M'') mmrp_text)"

definition mmrp_event :: "mmrp_database \<Rightarrow> mrp_event \<Rightarrow> mmrp_attribute option \<Rightarrow> (int \<times> mmrp_database) option" where
  "mmrp_event s event rattrib =
     (if event \<in> {MRP_EVENT_NEW, MRP_EVENT_JOIN, MRP_EVENT_RNEW, MRP_EVENT_RJOININ, MRP_EVENT_RJOINMT, MRP_EVENT_LV, MRP_EVENT_RIN,
          MRP_EVENT_RMT, MRP_EVENT_RLV} then
        let s = on_db mrp_jointimer_start s in
        (case rattrib of
           None \<Rightarrow> Some (-1, s)
         | Some r \<Rightarrow> (case mmrp_event_attribute event r s of (go, s) \<Rightarrow> Some (0, if go then mmrp_notify s else s)))
      else if event = MRP_EVENT_RLA then
        let s = on_db mrp_jointimer_start s in
        (case rattrib of None \<Rightarrow> Some (-1, s) | Some r \<Rightarrow> Some (0, mmrp_notify (mmrp_event_rla (m_type r) s)))
      else do {
        s \<leftarrow> (case event of
            MRP_EVENT_LVATIMER \<Rightarrow> mmrp_event_lvatimer s
          | MRP_EVENT_TX \<Rightarrow> mmrp_event_tx s
          | MRP_EVENT_LVTIMER \<Rightarrow> Some (mmrp_event_lvtimer s)
          | MRP_EVENT_PERIODIC \<Rightarrow> Some (mmrp_event_periodic s)
          | _ \<Rightarrow> Some s);
        Some (0, mmrp_notify s) })"

section \<open>Receiving vectors\<close>

text \<open>The first value of a vector.\<close>

definition mmrp_read_value :: "mmrp_type \<Rightarrow> u8 list \<Rightarrow> mmrp_value" where
  "mmrp_read_value t bs = (case t of MMRP_SVCREQ_TYPE \<Rightarrow> MMRP_SVCREQ (bs ! 0) | MMRP_MACVEC_TYPE \<Rightarrow> MMRP_MACVEC bs)"

fun mmrp_next_value :: "mmrp_value \<Rightarrow> mmrp_value" where
  "mmrp_next_value (MMRP_SVCREQ x) = MMRP_SVCREQ (x + 1)"
| "mmrp_next_value (MMRP_MACVEC m) = MMRP_MACVEC (mmrp_increment_macaddr m)"

fun mmrp_discard :: "mmrp_value \<Rightarrow> bool" where
  "mmrp_discard (MMRP_SVCREQ x) = (1 < x)"
| "mmrp_discard (MMRP_MACVEC m) = False"

text \<open>The loop over the events of one byte; the boolean is false for the jump to the error exit.\<close>

fun mmrp_rx_values :: "u8 list \<Rightarrow> nat list \<Rightarrow> mmrp_value \<Rightarrow> mmrp_database \<Rightarrow> (bool \<times> mmrp_value \<times> mmrp_database) option" where
  "mmrp_rx_values src [] v s = Some (True, v, s)"
| "mmrp_rx_values src (c # cs) v s =
     (if mmrp_discard v then mmrp_rx_values src cs v s
      else (case mmrp_alloc v s of
          (None, s) \<Rightarrow> Some (False, v, s)
        | (Some a, s) \<Rightarrow> do {
            s \<leftarrow> (case rx_event c of
                None \<Rightarrow> Some s
              | Some e \<Rightarrow> map_option snd (mmrp_event s e (Some (a\<lparr>registrar := (registrar a)\<lparr>r_macaddr := src\<rparr>\<rparr>))));
            mmrp_rx_values src cs (mmrp_next_value v) s }))"

text \<open>The loop over the bytes of a vector, with \<open>k\<close> rounds to go and \<open>n\<close> values left.\<close>

fun mmrp_rx_bytes :: "u8 list \<Rightarrow> u8 list \<Rightarrow> nat \<Rightarrow> nat \<Rightarrow> nat \<Rightarrow> mmrp_value \<Rightarrow> mmrp_database \<Rightarrow> (bool \<times> mmrp_database) option" where
  "mmrp_rx_bytes src buf i 0 n v s = Some (True, s)"
| "mmrp_rx_bytes src buf i (Suc k) n v s = do {
     b \<leftarrow> rd buf i;
     let m = (if n > 3 then 3 else n);
     (ok, v, s) \<leftarrow> mmrp_rx_values src (take m (unpack3 b)) v s;
     if \<not> ok then Some (False, s) else mmrp_rx_bytes src buf (Suc i) k (n - m) v s }"

text \<open>
  The leave-all flag of a vector: only the first one counts for the service requirements, all of them for the MAC addresses.
  The result tells whether there was memory, and \<open>saw_lva\<close>.
\<close>

definition mmrp_rx_leaveall :: "mmrp_type \<Rightarrow> bool \<Rightarrow> bool \<Rightarrow> mmrp_database \<Rightarrow> (bool \<times> bool \<times> mmrp_database) option" where
  "mmrp_rx_leaveall t l saw s =
     (if l \<and> (t = MMRP_SVCREQ_TYPE \<longrightarrow> \<not> saw) then
        let saw = (saw \<or> t = MMRP_SVCREQ_TYPE) in
        (case mmrp_alloc (mmrp_zero t) s of
           (None, s) \<Rightarrow> Some (False, saw, s)
         | (Some a, s) \<Rightarrow> do { (rc, s) \<leftarrow> mmrp_event s MRP_EVENT_RLA (Some a); Some (True, saw, s) })
      else Some (True, saw, s))"

text \<open>One vector: the position behind it, or \<open>None\<close> for the error exit.\<close>

definition mmrp_rx_vector :: "mmrp_type \<Rightarrow> u8 list \<Rightarrow> nat \<Rightarrow> u8 list \<Rightarrow> nat \<Rightarrow> bool \<Rightarrow> mmrp_database \<Rightarrow> (nat option \<times> bool \<times> mmrp_database) option" where
  "mmrp_rx_vector t buf eof src vp saw s = do {
     h0 \<leftarrow> rd buf vp;
     h1 \<leftarrow> rd buf (vp + 1);
     let hdr = word_be [h0, h1];
     let n = MRPDU_VECT_NUMVALUES hdr;
     (ok, saw, s) \<leftarrow> mmrp_rx_leaveall t (MRPDU_VECT_LVA hdr) saw s;
     if \<not> ok \<or> n = 0 \<or> eof \<le> vp + 2 + n div 3 then Some (None, saw, s)
     else do {
       fv \<leftarrow> rds buf (vp + 2) (mmrp_length t);
       (ok, s) \<leftarrow> mmrp_rx_bytes src buf (vp + 2 + mmrp_length t) (vector_bytes n + 1) n (mmrp_read_value t fv) s;
       Some (if ok then Some (vp + 2 + mmrp_length t + vector_bytes n) else None, saw, s) } }"

lemma mmrp_rx_vector_position:
  "mmrp_rx_vector t buf eof src vp saw s = Some (Some q, saw', s') \<Longrightarrow> vp < q \<and> vp < length buf"
  by (auto simp: mmrp_rx_vector_def Let_def bind_eq_Some_conv rd_def split: if_splits)

text \<open>The loop over the vectors of a message: the position of its end mark, \<open>None\<close> for the error exit.\<close>

function mmrp_rx_vectors :: "mmrp_type \<Rightarrow> u8 list \<Rightarrow> nat \<Rightarrow> u8 list \<Rightarrow> nat \<Rightarrow> bool \<Rightarrow> mmrp_database \<Rightarrow> (nat option \<times> bool \<times> mmrp_database) option" where
  "mmrp_rx_vectors t buf eof src vp saw s = do {
     h0 \<leftarrow> rd buf vp;
     h1 \<leftarrow> rd buf (vp + 1);
     if h0 = 0 \<and> h1 = 0 then Some (Some vp, saw, s)
     else do {
       (r, saw, s) \<leftarrow> mmrp_rx_vector t buf eof src vp saw s;
       case r of None \<Rightarrow> Some (None, saw, s) | Some q \<Rightarrow> mmrp_rx_vectors t buf eof src q saw s } }"
  by pat_completeness auto
termination
  by (relation "measure (\<lambda>(t, buf, eof, src, vp, saw, s). length buf - vp)") (auto dest: mmrp_rx_vector_position)

declare mmrp_rx_vectors.simps [simp del]

lemma mmrp_rx_vectors_position:
  "mmrp_rx_vectors t buf eof src vp saw s = Some (Some q, saw', s') \<Longrightarrow> vp \<le> q"
proof (induction t buf eof src vp saw s rule: mmrp_rx_vectors.induct)
  case (1 t buf eof src vp saw s)
  note unfolded = 1(2) [unfolded mmrp_rx_vectors.simps [of t buf eof src vp saw s]]
  then consider "vp = q" | r w u where "mmrp_rx_vector t buf eof src vp saw s = Some (Some r, w, u)"
      "mmrp_rx_vectors t buf eof src r w u = Some (Some q, saw', s')" "\<exists>h0. rd buf vp = Some h0" "\<exists>h1. rd buf (vp + 1) = Some h1"
      "\<not> (rd buf vp = Some 0 \<and> rd buf (vp + 1) = Some 0)"
    by (auto simp: bind_eq_Some_conv split: if_splits option.splits)
  then show ?case
  proof cases
    case 2
    then show ?thesis using 1(1) mmrp_rx_vector_position [OF 2(1)] by fastforce
  qed simp
qed

section \<open>Receiving messages\<close>

definition mmrp_type_of_code :: "u8 \<Rightarrow> mmrp_type option" where
  "mmrp_type_of_code c = (if c = 1 then Some MMRP_SVCREQ_TYPE else if c = 2 then Some MMRP_MACVEC_TYPE else None)"

text \<open>The loop over the messages behind the protocol version.\<close>

function mmrp_rx_messages :: "u8 list \<Rightarrow> nat \<Rightarrow> u8 list \<Rightarrow> nat \<Rightarrow> nat \<Rightarrow> bool \<Rightarrow> mmrp_database \<Rightarrow> (int \<times> mmrp_database) option" where
  "mmrp_rx_messages buf eof src mp endmarks saw s =
     (if \<not> mp + MRPDU_ENDMARK_SZ < eof then Some (0, s)
      else do {
        c \<leftarrow> rd buf mp;
        l \<leftarrow> rd buf (mp + 1);
        if c = 0 \<and> l = 0 then
          (if endmarks + 1 < 2 then mmrp_rx_messages buf eof src (mp + 2) (endmarks + 1) saw s else Some (0, s))
        else case mmrp_type_of_code c of
          None \<Rightarrow> Some (-1, s)
        | Some t \<Rightarrow>
            if unat l \<noteq> mmrp_length t then Some (-1, s)
            else do {
              (r, saw, s) \<leftarrow> mmrp_rx_vectors t buf eof src (mp + 2) saw s;
              case r of None \<Rightarrow> Some (-1, s) | Some q \<Rightarrow> mmrp_rx_messages buf eof src q 0 saw s } })"
  by pat_completeness auto
termination
  by (relation "measure (\<lambda>(buf, eof, src, mp, endmarks, saw, s). eof - mp)")
    (auto simp: MRPDU_ENDMARK_SZ_def dest!: mmrp_rx_vectors_position)

declare mmrp_rx_messages.simps [simp del]

text \<open>The buffer has \<open>MAX_FRAME_SIZE\<close> bytes, of which \<open>mrpd_recvmsgbuf\<close> filled \<open>bytes\<close>.\<close>

definition mmrp_recv_msg :: "mmrp_database \<Rightarrow> int \<Rightarrow> u8 list \<Rightarrow> (int \<times> mmrp_database) option" where
  "mmrp_recv_msg s bytes buf =
     (if bytes \<le> 0 then Some (-1, s)
      else if bytes < 14 + 1 + 2 then Some (-1, s)
      else do {
        c_assert (14 \<le> length buf);
        if word_be (take 2 (drop 12 buf)) \<noteq> MMRP_ETYPE then Some (-1, s)
        else if take 6 buf \<noteq> MMRP_ADDR then Some (-1, s)
        else mmrp_rx_messages buf (nat bytes) (take 6 (drop 6 buf)) 15 0 False s })"

end
