(* ===== verification/Mmrp_Commands.thy ===== *)
theory Mmrp_Commands
  imports Mmrp
begin

text \<open>
  The commands that the control clients send to the MAC address registration protocol, and the
  lifetime of its database, \<open>mrpd/mmrp.c\<close>.
\<close>

section \<open>Queries\<close>

text \<open>
  The line of an attribute is formatted into the array \<open>stage\<close>, which keeps its text for a registrar in a state of another machine.
\<close>

definition mmrp_stage :: "mmrp_attribute \<Rightarrow> string option" where
  "mmrp_stage a =
     (let line = (\<lambda>code. Some (code @ '' '' @ mmrp_text a @ '' '' @ source_text a @ newline))
      in case r_state (registrar a) of
        MRP_IN_STATE \<Rightarrow> line ''MIN''
      | MRP_LV_STATE \<Rightarrow> line ''MLV''
      | MRP_MT_STATE \<Rightarrow> line ''MMT''
      | _ \<Rightarrow> None)"

text \<open>The lines of all attributes; \<open>None\<close> for the use of the array before it is written.\<close>

fun mmrp_dump_lines :: "string option \<Rightarrow> mmrp_attribute list \<Rightarrow> string option" where
  "mmrp_dump_lines stage [] = Some []"
| "mmrp_dump_lines stage (a # as) = do {
     let stage = (case mmrp_stage a of None \<Rightarrow> stage | Some t \<Rightarrow> Some t);
     line \<leftarrow> stage;
     rest \<leftarrow> mmrp_dump_lines stage as;
     Some (line @ rest) }"

text \<open>
  The answer to a query, \<open>None\<close> if it does not fit into the buffer of \<open>MAX_MRPD_CMDSZ\<close> bytes
  with its terminating null character.
\<close>

definition mmrp_dumptable :: "mmrp_database \<Rightarrow> (int \<times> string list \<times> mmrp_database) option" where
  "mmrp_dumptable s =
     (let (m1, s) = mrpd_malloc s in
      if \<not> m1 then Some (-1, [], s)
      else
        let (m2, s) = mrpd_malloc s; (m3, s) = mrpd_malloc s; (m4, s) = mrpd_malloc s in
        if \<not> m2 \<or> \<not> m3 \<or> \<not> m4 then Some (0, [], s)
        else do {
          msg \<leftarrow> (if attrib_list s = [] then Some (''MMRP:Empty'' @ newline) else mmrp_dump_lines None (attrib_list s));
          c_assert (length msg < MAX_MRPD_CMDSZ);
          Some (0, [msg], s) })"

section \<open>Parsing\<close>

definition mmrp_cmd_parse_mac :: "string \<Rightarrow> nat \<Rightarrow> (int \<times> u8 list \<times> string) option" where
  "mmrp_cmd_parse_mac buf buflen =
     (if buflen < 17 then Some (-1, [], buf)
      else do {
        (rc, e, vs, buf) \<leftarrow> parse buf 4 (buflen - 4) [\<lparr>pname = ''M='', ptype = parse_mac\<rparr>];
        Some (rc, case vs of [V_bytes m] \<Rightarrow> m | _ \<Rightarrow> replicate 6 0, buf) })"

definition mmrp_cmd_parse_service :: "string \<Rightarrow> nat \<Rightarrow> (int \<times> u8 \<times> string) option" where
  "mmrp_cmd_parse_service buf buflen =
     (if buflen < 5 then Some (-1, 0, buf)
      else do {
        (rc, e, vs, buf) \<leftarrow> parse buf 4 (buflen - 4) [\<lparr>pname = ''S='', ptype = parse_u8\<rparr>];
        Some (rc, case vs of [V_u8 x] \<Rightarrow> x | _ \<Rightarrow> 0, buf) })"

section \<open>Commands\<close>

text \<open>Both commands allocate an attribute, set its value and pass it to the handler of events.\<close>

definition mmrp_cmd_value :: "mmrp_database \<Rightarrow> mmrp_value \<Rightarrow> mrp_event \<Rightarrow> (int \<times> mmrp_database) option" where
  "mmrp_cmd_value s v event =
     (case mmrp_alloc v s of
        (None, s) \<Rightarrow> Some (-1, s)
      | (Some a, s) \<Rightarrow> do { (rc, s) \<leftarrow> mmrp_event s event (Some a); Some (0, s) })"

definition mmrp_cmd_mac :: "mmrp_database \<Rightarrow> u8 list \<Rightarrow> mrp_event \<Rightarrow> (int \<times> mmrp_database) option" where
  "mmrp_cmd_mac s mac event = mmrp_cmd_value s (MMRP_MACVEC mac) event"

definition mmrp_cmd_service :: "mmrp_database \<Rightarrow> u8 \<Rightarrow> mrp_event \<Rightarrow> (int \<times> mmrp_database) option" where
  "mmrp_cmd_service s service event = mmrp_cmd_value s (MMRP_SVCREQ service) event"

text \<open>What follows a command: the answers for an error in the parameters and for an internal error.\<close>

definition mmrp_execute ::
  "mmrp_database \<Rightarrow> (int \<times> 'v \<times> string) option \<Rightarrow> ('v \<Rightarrow> (int \<times> mmrp_database) option) \<Rightarrow>
     (int \<times> string list \<times> mmrp_database option) option" where
  "mmrp_execute s parsed command = do {
     (rc, v, buf) \<leftarrow> parsed;
     if rc \<noteq> 0 then do { r \<leftarrow> respond 11 ''ERP '' buf; Some (-1, r, Some s) }
     else do {
       (rc, s) \<leftarrow> command v;
       if rc \<noteq> 0 then do { r \<leftarrow> respond 11 ''ERI '' buf; Some (-1, r, Some s) }
       else Some (0, [], Some s) } }"

text \<open>The return value, the messages to the client that sent the command, and the database.\<close>

definition mmrp_recv_cmd ::
  "mmrp_database option \<Rightarrow> string \<Rightarrow> nat \<Rightarrow> sockaddr_in \<Rightarrow> (int \<times> string list \<times> mmrp_database option) option" where
  "mmrp_recv_cmd db buf buflen client =
     (case db of
        None \<Rightarrow> do { t \<leftarrow> c_string buf; Some (-1, [snprintf 11 (''ERC MMRP_db '' @ t @ newline)], None) }
      | Some s \<Rightarrow> do {
          let s = add_client s client;
          let service = (\<lambda>event. mmrp_execute s (mmrp_cmd_parse_service buf buflen) (\<lambda>x. mmrp_cmd_service s x event));
          let mac = (\<lambda>event. mmrp_execute s (mmrp_cmd_parse_mac buf buflen) (\<lambda>m. mmrp_cmd_mac s m event));
          let joining = (if buf ! 2 = CHR ''?'' then MRP_EVENT_JOIN else MRP_EVENT_NEW);
          if buflen < 3 then Some (-1, [], Some s)
          else if buf = [] \<or> hd buf \<noteq> CHR ''M'' then Some (-1, [], Some s)
          else if take 3 buf = ''M??'' then do { (rc, r, s) \<leftarrow> mmrp_dumptable s; Some (0, r, Some s) }
          else if take 5 buf = ''M--:S'' then service MRP_EVENT_LV
          else if take 5 buf = ''M--:M'' then mac MRP_EVENT_LV
          else if take 5 buf = ''M++:S'' \<or> take 5 buf = ''M+?:S'' then service joining
          else if take 5 buf = ''M++:M'' \<or> take 5 buf = ''M+?:M'' then mac joining
          else do { r \<leftarrow> respond 11 ''ERC MMRP '' buf; Some (-1, r, Some s) } })"

section \<open>Lifetime\<close>

text \<open>
  The environment is given as a database; the socket and the timers answer \<open>sock_rc\<close> and \<open>timers_rc\<close>.
  The result is the return value, whether the socket is open, and the database.
\<close>

definition mmrp_init :: "bool \<Rightarrow> int \<Rightarrow> int \<Rightarrow> mmrp_database \<Rightarrow> int \<times> bool \<times> mmrp_database option" where
  "mmrp_init mmrp_enable sock_rc timers_rc env =
     (if \<not> mmrp_enable then (0, False, None)
      else if sock_rc < 0 then (-1, False, None)
      else
        let (ok, s) = mrpd_malloc env in
        if \<not> ok then (-1, False, None)
        else
          let s = reset_application s
          in if timers_rc < 0 then (-1, False, None)
             else (0, True, Some (on_db (\<lambda>db. mrp_lvatimer_fsm db MRP_EVENT_BEGIN) s)))"

definition mmrp_bye :: "mmrp_database option \<Rightarrow> sockaddr_in \<Rightarrow> mmrp_database option" where
  "mmrp_bye db client = map_option (\<lambda>s. drop_client s client) db"

end
