(* ===== verification/Mmrp_Invariant.thy ===== *)
theory Mmrp_Invariant
  imports Mmrp_Commands Mrp_Passes
begin

text \<open>
  The invariant of the MAC address database, and that the events keep it: the attributes of one type
  stand together and are strictly sorted, addresses have six bytes, the machines are in states of their own kind, an attribute
  marked for transmission has a message that can be sent, and the leave timer runs while a registrar is leaving.
\<close>

section \<open>Values\<close>

lemma memcmp_less_irrefl: "\<not> memcmp_less xs xs"
  by (induction xs) auto

lemma memcmp_less_trans: "memcmp_less xs ys \<Longrightarrow> memcmp_less ys zs \<Longrightarrow> memcmp_less xs zs"
proof (induction xs ys arbitrary: zs rule: memcmp_less.induct)
  case (1 x xs y ys)
  then show ?case by (cases zs) (auto intro: less_trans)
qed auto

lemma memcmp_less_total: "length xs = length ys \<Longrightarrow> xs \<noteq> ys \<Longrightarrow> memcmp_less xs ys \<or> memcmp_less ys xs"
  by (induction xs ys rule: list_induct2) auto

fun mmrp_shape :: "mmrp_value \<Rightarrow> bool" where
  "mmrp_shape (MMRP_SVCREQ x) = True"
| "mmrp_shape (MMRP_MACVEC m) = (length m = 6)"

lemma mmrp_less_irrefl: "\<not> mmrp_less v v"
  by (cases v) (simp_all add: memcmp_less_irrefl)

lemma mmrp_less_trans: "mmrp_less u v \<Longrightarrow> mmrp_less v w \<Longrightarrow> mmrp_less u w"
  by (cases u; cases v; cases w) (auto intro: memcmp_less_trans)

lemma mmrp_less_total:
  assumes "mmrp_shape u" "mmrp_shape v" "value_type u = value_type v" "u \<noteq> v"
  shows "mmrp_less u v \<or> mmrp_less v u"
proof (cases u)
  case (MMRP_SVCREQ x)
  then show ?thesis using assms by (cases v) (auto simp: neq_iff)
next
  case (MMRP_MACVEC m)
  then obtain n where n: "v = MMRP_MACVEC n" using assms(3) by (cases v) auto
  then show ?thesis using assms MMRP_MACVEC memcmp_less_total [of m n] by simp
qed

text \<open>The values of one type stand together, each group strictly sorted.\<close>

definition groups :: "mmrp_type \<Rightarrow> mmrp_value list \<Rightarrow> mmrp_value list \<Rightarrow> bool" where
  "groups t xs ys \<longleftrightarrow> (\<forall>v\<in>set xs. value_type v = t) \<and> (\<forall>v\<in>set ys. value_type v \<noteq> t) \<and>
     sorted_wrt mmrp_less xs \<and> sorted_wrt mmrp_less ys"

definition grouped :: "mmrp_value list \<Rightarrow> bool" where
  "grouped vs \<longleftrightarrow> (\<exists>t xs ys. vs = xs @ ys \<and> groups t xs ys)"

lemma groupedI: "groups t xs ys \<Longrightarrow> grouped (xs @ ys)"
  by (auto simp: grouped_def)

lemma grouped_subseq:
  assumes "subseq ws vs" "grouped vs"
  shows "grouped ws"
proof -
  obtain t xs ys where g: "vs = xs @ ys" "groups t xs ys" using assms(2) by (auto simp: grouped_def)
  then obtain as bs where w: "ws = as @ bs" "subseq as xs" "subseq bs ys" using assms(1) by (auto simp: subseq_append_iff)
  have "sorted_wrt mmrp_less as" "sorted_wrt mmrp_less bs"
    using subseq_sorted_wrt [OF w(2)] subseq_sorted_wrt [OF w(3)] g(2) by (simp_all add: groups_def)
  moreover have "set as \<subseteq> set xs" "set bs \<subseteq> set ys" using subseq_set w(2,3) by blast+
  ultimately have "groups t as bs" using g(2) by (auto simp: groups_def)
  then show ?thesis unfolding w(1) by (rule groupedI)
qed

lemma grouped_distinct:
  assumes "grouped vs"
  shows "distinct vs"
proof -
  obtain t xs ys where g: "vs = xs @ ys" "groups t xs ys" using assms by (auto simp: grouped_def)
  have d: "distinct xs" if "sorted_wrt mmrp_less xs" for xs using that mmrp_less_irrefl by (induction xs) auto
  have "distinct xs" "distinct ys" using g(2) d by (simp_all add: groups_def)
  moreover have "set xs \<inter> set ys = {}" using g(2) by (auto simp: groups_def)
  ultimately show ?thesis by (simp add: g(1))
qed

text \<open>The insertion on values.\<close>

fun value_insert :: "mmrp_value \<Rightarrow> mmrp_value list \<Rightarrow> mmrp_value list" where
  "value_insert r [] = [r]"
| "value_insert r (a # as) =
     (if value_type r = value_type a then
        if mmrp_less a r then
          if as \<noteq> [] \<and> value_type (hd as) = value_type a then a # value_insert r as else a # r # as
        else r # a # as
      else a # value_insert r as)"

lemma map_mmrp_insert: "map m_value (mmrp_insert r as) = value_insert (m_value r) (map m_value as)"
  by (induction r as rule: mmrp_insert.induct) (auto simp: hd_map)

lemma set_value_insert [simp]: "set (value_insert r vs) = insert r (set vs)"
  by (induction r vs rule: value_insert.induct) auto

lemma set_mmrp_insert [simp]: "set (mmrp_insert r as) = insert r (set as)"
  by (induction r as rule: mmrp_insert.induct) auto

lemma value_insert_other:
  "\<forall>v\<in>set xs. value_type v \<noteq> value_type r \<Longrightarrow> value_insert r (xs @ ys) = xs @ value_insert r ys"
  by (induction xs) auto

lemma value_insert_same:
  "\<forall>v\<in>set xs. value_type v = value_type r \<Longrightarrow> xs \<noteq> [] \<Longrightarrow> \<forall>v\<in>set ys. value_type v \<noteq> value_type r \<Longrightarrow>
     value_insert r (xs @ ys) = value_insert r xs @ ys"
proof (induction xs)
  case (Cons x xs)
  have t: "value_type x = value_type r" using Cons.prems(1) by simp
  have y: "ys \<noteq> [] \<Longrightarrow> value_type (hd ys) \<noteq> value_type r" using Cons.prems(3) by (cases ys) auto
  show ?case
  proof (cases "xs = []")
    case True
    then show ?thesis using t y by auto
  next
    case False
    moreover have "value_type (hd xs) = value_type r" using Cons.prems(1) False by (cases xs) auto
    moreover have "value_insert r (xs @ ys) = value_insert r xs @ ys" using Cons False by simp
    ultimately show ?thesis using t by simp
  qed
qed simp

lemma value_insert_sorted:
  assumes "\<forall>v\<in>set xs. value_type v = value_type r \<and> mmrp_shape v" "mmrp_shape r" "r \<notin> set xs" "sorted_wrt mmrp_less xs"
  shows "sorted_wrt mmrp_less (value_insert r xs)"
  using assms
proof (induction xs)
  case (Cons x xs)
  show ?case
  proof (cases "mmrp_less x r")
    case True
    then show ?thesis using Cons by (cases xs) auto
  next
    case False
    then have "mmrp_less r x" using mmrp_less_total [of r x] Cons.prems by auto
    then show ?thesis using Cons.prems False mmrp_less_trans [of r x] by auto
  qed
qed simp

lemma grouped_insert:
  assumes "grouped vs" "\<forall>v\<in>set vs. mmrp_shape v" "mmrp_shape r" "r \<notin> set vs"
  shows "grouped (value_insert r vs)"
proof -
  obtain t xs ys where vs: "vs = xs @ ys" "groups t xs ys" using assms(1) by (auto simp: grouped_def)
  note g = vs(2) [unfolded groups_def]
  have two: "u = v" if "u \<noteq> w" "v \<noteq> w" for u v w :: mmrp_type using that by (cases u; cases v; cases w) auto
  consider (same) "value_type r = t" "xs \<noteq> []" | (new) "value_type r = t" "xs = []" | (other) "value_type r \<noteq> t" by blast
  then show ?thesis
  proof cases
    case same
    have v: "value_insert r vs = value_insert r xs @ ys" unfolding vs(1) by (rule value_insert_same) (use g same in auto)
    have "sorted_wrt mmrp_less (value_insert r xs)" by (rule value_insert_sorted) (use assms vs(1) g same in auto)
    then have "groups t (value_insert r xs) ys" using g same by (auto simp: groups_def)
    then show ?thesis unfolding v by (rule groupedI)
  next
    case new
    have v: "value_insert r vs = ys @ [r]" using value_insert_other [of ys r "[]"] vs(1) g new by simp
    obtain u where u: "u \<noteq> t" by (cases t) auto
    have "value_type v = u" if "v \<in> set ys" for v using two [OF _ u] g that by auto
    then have "groups u ys [r]" using g new u by (auto simp: groups_def)
    then show ?thesis unfolding v by (rule groupedI)
  next
    case other
    have v: "value_insert r vs = xs @ value_insert r ys" unfolding vs(1) by (rule value_insert_other) (use g other in auto)
    have "value_type v = value_type r" if "v \<in> set ys" for v using two [OF _ other] g that by auto
    then have "sorted_wrt mmrp_less (value_insert r ys)" by (intro value_insert_sorted) (use assms vs(1) g in auto)
    then have "groups t xs (value_insert r ys)" using g other by (auto simp: groups_def)
    then show ?thesis unfolding v by (rule groupedI)
  qed
qed

section \<open>The invariant\<close>

definition values_ok :: "mmrp_value list \<Rightarrow> bool" where
  "values_ok vs \<longleftrightarrow> grouped vs \<and> (\<forall>v\<in>set vs. mmrp_shape v)"

definition mmrp_inv :: "mmrp_database \<Rightarrow> bool" where
  "mmrp_inv s \<longleftrightarrow> app_inv s \<and> values_ok (map m_value (attrib_list s))"

lemma mmrp_inv_env: "mmrp_inv s \<Longrightarrow> same_env s t \<Longrightarrow> attrib_list t = attrib_list s \<Longrightarrow> mmrp_inv t"
  using app_inv_env by (auto simp: mmrp_inv_def)

text \<open>The value is what the application adds to an attribute.\<close>

definition mvalue_of :: "unit mmrp_attribute_ext \<Rightarrow> mmrp_value" where
  "mvalue_of x = m_value (\<lparr>applicant = new_applicant, registrar = new_registrar, \<dots> = x\<rparr>)"

lemma mvalue_of_more [simp]: "mvalue_of (mrp_attribute.more a) = m_value a"
  by (cases a) (simp add: mvalue_of_def)

lemma m_value_values: "map m_value as = map mvalue_of (values_of as)"
  by (simp add: values_of_def)

lemma m_value_more: "mrp_attribute.more b = mrp_attribute.more a \<Longrightarrow> m_value b = m_value a" for a b :: mmrp_attribute
  by (cases a; cases b) simp

lemma values_ok_subseq:
  fixes as ys :: "mmrp_attribute list"
  assumes "subseq (values_of ys) (values_of as)"
  shows "values_ok (map m_value as) \<Longrightarrow> values_ok (map m_value ys)"
proof -
  have m: "subseq (map m_value ys) (map m_value as)"
    using subseq_map [OF assms, of mvalue_of] by (simp add: m_value_values [symmetric])
  then show "values_ok (map m_value as) \<Longrightarrow> values_ok (map m_value ys)"
    using grouped_subseq [OF m] subseq_set [OF m] by (auto simp: values_ok_def)
qed

lemma mmrp_inv_shrinks:
  "mmrp_inv s \<Longrightarrow> app_inv t \<Longrightarrow> subseq (values_of (attrib_list t)) (values_of (attrib_list s)) \<Longrightarrow> mmrp_inv t"
  using values_ok_subseq by (auto simp: mmrp_inv_def)

text \<open>The loops of this application that keep every attribute.\<close>

lemma keeping_request_ok:
  assumes "attr_ok a" "timers_ok s"
  shows "step_ok True a s (case attribute_step e a s of (a, s) \<Rightarrow> ([a], s))"
  using attribute_step_ok [OF assms] by (auto simp: step_ok_def split: prod.split)

lemma keeping_leave_ok:
  assumes "attr_ok a" "timers_ok s"
  shows "step_ok False a s (case registrar_step MRP_EVENT_LVTIMER a s of (a, s) \<Rightarrow> ([a], s))"
proof -
  obtain b t where r: "registrar_step MRP_EVENT_LVTIMER a s = (b, t)" by (cases "registrar_step MRP_EVENT_LVTIMER a s")
  have "\<not> leaving b"
    using r assms(1) by (cases "r_state (registrar a)")
      (auto simp: registrar_step_def mrp_registrar_fsm_def registrar_switch_def leaving_def attr_ok_def registrar_state_def)
  then show ?thesis using registrar_step_ok [OF assms r] r by (simp add: step_ok_def)
qed

interpretation keeping_requests: attribute_pass "\<lambda>a s. case attribute_step e a s of (a, s) \<Rightarrow> ([a], s)" True for e
  by unfold_locales (rule keeping_request_ok)

interpretation keeping_leaves: attribute_pass "\<lambda>a s. case registrar_step MRP_EVENT_LVTIMER a s of (a, s) \<Rightarrow> ([a], s)" False
  by unfold_locales (rule keeping_leave_ok)

lemma mmrp_pass_inv:
  assumes "mmrp_inv s"
  shows "mmrp_inv (over_list (both_step e) s)" "mmrp_inv (over_list (\<lambda>a s. ([applicant_step e a s], s)) s)"
    "mmrp_inv (over_list (conditional_reclaim l x) s)" "mmrp_inv (mmrp_notify s)"
    "mmrp_inv (over_list (\<lambda>a s. if P a then both_step e a s else ([a], s)) s)"
proof -
  have a: "app_inv s" using assms by (simp add: mmrp_inv_def)
  show "mmrp_inv (over_list (both_step e) s)" by (rule mmrp_inv_shrinks [OF assms both.over_list_app(1,3) [OF a]])
  show "mmrp_inv (over_list (\<lambda>a s. ([applicant_step e a s], s)) s)" by (rule mmrp_inv_shrinks [OF assms applicants.over_list_app(1,3) [OF a]])
  show "mmrp_inv (over_list (conditional_reclaim l x) s)" by (rule mmrp_inv_shrinks [OF assms reclaims.over_list_app(1,3) [OF a]])
  show "mmrp_inv (mmrp_notify s)" unfolding mmrp_notify_def by (rule mmrp_inv_shrinks [OF assms notifies.over_list_app(1,3) [OF a]])
  show "mmrp_inv (over_list (\<lambda>a s. if P a then both_step e a s else ([a], s)) s)"
    by (rule mmrp_inv_shrinks [OF assms selective.over_list_app(1,3) [OF a]])
qed

lemma mmrp_pass_env:
  assumes "mmrp_inv s"
  shows "same_env s (mmrp_notify s)" "same_env s (over_list (\<lambda>a s. if P a then both_step e a s else ([a], s)) s)"
  using assms notifies.over_list_app(2) selective.over_list_app(2) by (auto simp: mmrp_inv_def mmrp_notify_def)

lemma mmrp_inv_timers:
  assumes "mmrp_inv s"
  shows "mmrp_inv (on_db mrp_jointimer_start s)" "mmrp_inv (on_db mrp_jointimer_stop s)" "mmrp_inv (on_db mrp_lvatimer_stop s)"
    "mmrp_inv (on_db (\<lambda>db. mrp_lvatimer_fsm db e) s)"
  by (auto intro!: mmrp_inv_env [OF assms])

lemma mmrp_inv_flag [simp]: "mmrp_inv (s\<lparr>send_empty_LeaveAll_flag := b\<rparr>) = mmrp_inv s"
  by (simp add: mmrp_inv_def)

end
