(* ===== verification/Mmrp_Codec.thy ===== *)
theory Mmrp_Codec
  imports Mmrp_Invariant
begin

text \<open>
  The encoders of the MAC address registration protocol: what \<open>mmrp_emit_macvectors\<close> writes is given by a
  reference definition of the vectors, and both encoders stay within their buffer.
\<close>

section \<open>The vectors of MAC addresses\<close>

text \<open>The attributes that continue a vector behind an address: marked, and each with the next address.\<close>

fun mac_run :: "u8 list \<Rightarrow> mmrp_attribute list \<Rightarrow> mmrp_attribute list \<times> mmrp_attribute list" where
  "mac_run m [] = ([], [])"
| "mac_run m (b # bs) =
     (if a_tx (applicant b) \<and> m_value b = MMRP_MACVEC (mmrp_increment_macaddr m)
      then (case mac_run (mmrp_increment_macaddr m) bs of (xs, ys) \<Rightarrow> (b # xs, ys)) else ([], b # bs))"

lemma mac_run_append: "mac_run m bs = (xs, ys) \<Longrightarrow> bs = xs @ ys"
  by (induction m bs arbitrary: xs ys rule: mac_run.induct) (auto split: if_splits prod.splits)

definition starts_vector :: "mmrp_attribute \<Rightarrow> bool" where
  "starts_vector a \<longleftrightarrow> m_type a = MMRP_MACVEC_TYPE \<and> a_tx (applicant a) \<and> a_encode (applicant a) \<noteq> MRP_ENCODE_OPTIONAL"

definition mac_of :: "mmrp_attribute \<Rightarrow> u8 list" where
  "mac_of a = (case m_value a of MMRP_MACVEC m \<Rightarrow> m | MMRP_SVCREQ x \<Rightarrow> [])"

lemma mac_of_value: "m_type a = MMRP_MACVEC_TYPE \<Longrightarrow> m_value a = MMRP_MACVEC (mac_of a)"
  by (cases "m_value a") (simp_all add: mac_of_def)

text \<open>A vector is an attribute that must be sent with those that continue it.\<close>

type_synonym mac_group = "mmrp_attribute \<times> mmrp_attribute list"

function mac_groups :: "mmrp_attribute list \<Rightarrow> mac_group list" where
  "mac_groups [] = []"
| "mac_groups (a # as) =
     (if starts_vector a then (a, fst (mac_run (mac_of a) as)) # mac_groups (snd (mac_run (mac_of a) as)) else mac_groups as)"
  by pat_completeness auto
termination
proof (relation "measure length")
  fix a :: mmrp_attribute and as :: "mmrp_attribute list"
  have "length (snd (mac_run m as)) \<le> length as" for m
    using mac_run_append [of m as "fst (mac_run m as)" "snd (mac_run m as)"] by (metis length_append le_add2 prod.collapse)
  then show "(snd (mac_run (mac_of a) as), a # as) \<in> measure length" by (simp add: le_imp_less_Suc)
qed simp_all

definition follow_code :: "mmrp_attribute \<Rightarrow> mmrp_attribute \<Rightarrow> nat" where
  "follow_code a b = (case follow_event a b of None \<Rightarrow> 6 | Some e \<Rightarrow> mrpdu_code e)"

definition group_codes :: "mac_group \<Rightarrow> nat list" where
  "group_codes = (\<lambda>(a, xs). code_of a # map (follow_code a) xs)"

definition enc_mac :: "bool \<Rightarrow> mac_group \<Rightarrow> u8 list" where
  "enc_mac l g = vector_header (length (group_codes g)) l @ take 6 (mac_of (fst g)) @ pack_all (group_codes g)"

lemma follow_event_ready: "pdu_event b \<noteq> None \<Longrightarrow> follow_event a b \<noteq> None"
  by (simp add: follow_event_def)

lemma m_value_clear_tx [simp]: "m_value (clear_tx a) = m_value a"
  by (simp add: clear_tx_def)

lemma settle_events:
  assumes "length evs \<le> 3" and "st = (if length evs > 2 then ([], packed @ [pack3 evs]) else (evs, packed))"
  shows "length (fst st) \<le> 2" "length (snd st) \<le> Suc (length packed)" "snd st @ pack_all (fst st @ cs) = packed @ pack_all (evs @ cs)"
proof -
  show "length (fst st) \<le> 2" "length (snd st) \<le> Suc (length packed)" by (auto simp: assms(2))
  have "pack_all (evs @ cs) = pack3 evs # pack_all cs" if "length evs = 3" using that by (auto simp: numeral_eq_Suc length_Suc_conv)
  with assms(1) show "snd st @ pack_all (fst st @ cs) = packed @ pack_all (evs @ cs)" by (auto simp: assms(2))
qed

lemma mac_vector_loop_step:
  assumes "a_tx (applicant b)" "m_value b = MMRP_MACVEC (mmrp_increment_macaddr m)" "follow_event a b = Some e"
    and st: "st = (if length (evs @ [mrpdu_code e]) > 2 then ([], packed @ [pack3 (evs @ [mrpdu_code e])]) else (evs @ [mrpdu_code e], packed))"
    and room: "vp + 2 + (6 + length packed) < room" "vp + 2 + (6 + length (snd st)) + 11 \<le> room"
    and rec: "mac_vector_loop room vp a (mmrp_increment_macaddr m) (fst st) (snd st) (n + 1) bs = Some (ok, evs', packed', n', bs')"
  shows "mac_vector_loop room vp a m evs packed n (b # bs) = Some (ok, evs', packed', n', clear_tx b # bs')"
proof (cases "length (evs @ [mrpdu_code e]) > 2")
  case True
  then have "fst st = []" "snd st = packed @ [pack3 (evs @ [mrpdu_code e])]" using st by simp_all
  then show ?thesis using assms(1-3) room rec True by (simp add: Let_def c_assert_def)
next
  case False
  then have "fst st = evs @ [mrpdu_code e]" "snd st = packed" using st by simp_all
  then show ?thesis using assms(1-3) room rec False by (simp add: Let_def c_assert_def)
qed

lemma mac_vector_loop_spec:
  assumes "tx_ready bs" and "vp + 19 + length packed + marked bs \<le> room" and "length evs \<le> 2" and "mac_run m bs = (xs, ys)"
  shows "\<exists>evs' packed'. mac_vector_loop room vp a m evs packed n bs = Some (True, evs', packed', n + length xs, map clear_tx xs @ ys) \<and>
    packed' @ (if evs' = [] then [] else [pack3 evs']) = packed @ pack_all (evs @ map (follow_code a) xs)"
  using assms
proof (induction bs arbitrary: m evs packed n xs)
  case Nil
  have "pack_all evs = (if evs = [] then [] else [pack3 evs])" using Nil(3) by (cases evs rule: pack_all.cases) auto
  with Nil show ?case by auto
next
  case (Cons b bs)
  show ?case
  proof (cases "a_tx (applicant b) \<and> m_value b = MMRP_MACVEC (mmrp_increment_macaddr m)")
    case False
    have "pack_all evs = (if evs = [] then [] else [pack3 evs])" using Cons.prems(3) by (cases evs rule: pack_all.cases) auto
    moreover have "mac_vector_loop room vp a m evs packed n (b # bs) = Some (True, evs, packed, n, b # bs)"
      using False by (auto simp: Let_def)
    moreover have "xs = []" "ys = b # bs" using False Cons.prems(4) by auto
    ultimately show ?thesis by auto
  next
    case True
    obtain e where e: "follow_event a b = Some e" using Cons.prems(1) True follow_event_ready by auto
    define st where "st = (if length (evs @ [mrpdu_code e]) > 2 then ([], packed @ [pack3 (evs @ [mrpdu_code e])]) else (evs @ [mrpdu_code e], packed))"
    have l3: "length (evs @ [mrpdu_code e]) \<le> 3" using Cons.prems(3) by simp
    note st = settle_events [OF l3 st_def]
    obtain zs where z: "mac_run (mmrp_increment_macaddr m) bs = (zs, ys)" "xs = b # zs"
      using Cons.prems(4) True by (auto split: prod.splits)
    have room: "vp + 19 + length (snd st) + marked bs \<le> room" using Cons.prems(2) st(2) True by simp
    from Cons.IH [OF _ room st(1) z(1), of "n + 1"] Cons.prems(1)
    obtain evs' packed' where IH: "mac_vector_loop room vp a (mmrp_increment_macaddr m) (fst st) (snd st) (n + 1) bs =
        Some (True, evs', packed', n + 1 + length zs, map clear_tx zs @ ys)"
      "packed' @ (if evs' = [] then [] else [pack3 evs']) = snd st @ pack_all (fst st @ map (follow_code a) zs)" by auto
    have "vp + 2 + (6 + length packed) < room" "vp + 2 + (6 + length (snd st)) + 11 \<le> room" using Cons.prems(2) room by simp_all
    note step = mac_vector_loop_step [OF conjunct1 [OF True] conjunct2 [OF True] e st_def this IH(1)]
    have "packed' @ (if evs' = [] then [] else [pack3 evs']) = packed @ pack_all (evs @ map (follow_code a) xs)"
      using IH(2) st(3) z(2) e by (simp add: follow_code_def)
    with step z(2) show ?thesis by simp
  qed
qed

lemma marked_run: "mac_run m bs = (xs, ys) \<Longrightarrow> marked bs = length xs + marked ys"
  by (induction m bs arbitrary: xs ys rule: mac_run.induct) (auto split: if_splits prod.splits)

lemma enc_mac_nonempty: "enc_mac l g \<noteq> []"
  using length_vector_header [of "length (group_codes g)" l] by (auto simp: enc_mac_def simp del: length_vector_header)

lemma length_enc_mac: "length (enc_mac l (a, xs)) \<le> 9 + length xs"
proof -
  have "vector_bytes (Suc (length xs)) \<le> Suc (length xs)" by (rule vector_bytes_le)
  then show "length (enc_mac l (a, xs)) \<le> 9 + length xs" by (simp add: enc_mac_def group_codes_def length_pack_all)
qed

lemma mac_vector_spec:
  assumes "starts_vector a" "tx_ready (a # as)" and "vp + 19 + marked as \<le> room" and "mac_run (mac_of a) as = (xs, ys)"
  shows "mac_vector room vp l a as = Some (Some (enc_mac l (a, xs)), map clear_tx xs @ ys)"
proof -
  obtain e where e: "pdu_event a = Some e" using assms(1,2) by (auto simp: starts_vector_def)
  have v: "m_value a = MMRP_MACVEC (mac_of a)" using assms(1) by (simp add: starts_vector_def mac_of_value)
  have pre: "vp + 19 + length ([] :: u8 list) + marked as \<le> room" "tx_ready as" using assms(2,3) by simp_all
  from mac_vector_loop_spec [OF pre(2,1) _ assms(4), of "[mrpdu_code e]" a 1]
  obtain evs packed where p: "mac_vector_loop room vp a (mac_of a) [mrpdu_code e] [] 1 as = Some (True, evs, packed, 1 + length xs, map clear_tx xs @ ys)"
    "packed @ (if evs = [] then [] else [pack3 evs]) = pack_all (group_codes (a, xs))"
    using e by (auto simp: group_codes_def code_of_def)
  let ?p = "if evs \<noteq> [] then packed @ [pack3 evs] else packed"
  have q: "?p = pack_all (group_codes (a, xs))" using p(2) by auto
  have "length ?p \<le> Suc (length xs)" unfolding q length_pack_all using vector_bytes_le [of "Suc (length xs)"] by (simp add: group_codes_def)
  then have fits: "vp + 2 + 6 \<le> room" "evs \<noteq> [] \<Longrightarrow> vp + 2 + (6 + length packed) < room" "\<not> room < vp + 2 + (6 + length ?p) + MRPDU_ENDMARK_SZ"
    using assms(3) marked_run [OF assms(4)] by (auto simp: MRPDU_ENDMARK_SZ_def)
  have "mac_vector room vp l a as = Some (Some (vector_header (1 + length xs) l @ take 6 (mac_of a) @ ?p), map clear_tx xs @ ys)"
    using v e p(1) fits by (cases "evs = []") (simp_all add: mac_vector_def Let_def c_assert_def)
  then show ?thesis unfolding q by (simp add: enc_mac_def group_codes_def)
qed

text \<open>What the encoder leaves of the marks.\<close>

definition mac_unmark :: "mmrp_attribute \<Rightarrow> mmrp_attribute" where
  "mac_unmark a = (if m_type a = MMRP_MACVEC_TYPE then clear_tx a else a)"

lemma mac_run_macs: "mac_run m bs = (xs, ys) \<Longrightarrow> x \<in> set xs \<Longrightarrow> m_type x = MMRP_MACVEC_TYPE \<and> a_tx (applicant x)"
  by (induction m bs arbitrary: xs ys rule: mac_run.induct) (auto split: if_splits prod.splits)

lemma mac_emit_skip:
  assumes "\<not> a_tx (applicant a)" "length out + 14 \<le> room"
  shows "mac_emit_loop room out found l (a # as) = do { (ok, out, as) \<leftarrow> mac_emit_loop room out found l as; Some (ok, out, a # as) }"
  using assms by (auto simp: MRPDU_ENDMARK_SZ_def)

lemma mac_emit_skips:
  assumes "\<forall>x\<in>set xs. \<not> a_tx (applicant x)" "length out + 14 \<le> room"
  shows "mac_emit_loop room out found l (xs @ as) = do { (ok, out, as) \<leftarrow> mac_emit_loop room out found l as; Some (ok, out, xs @ as) }"
  using assms
proof (induction xs)
  case Nil
  then show ?case by (cases "mac_emit_loop room out found l as") auto
next
  case (Cons x xs)
  then show ?case using mac_emit_skip [of x out room found l "xs @ as"]
    by (cases "mac_emit_loop room out found l as") (auto simp del: mac_emit_loop.simps)
qed

text \<open>Each attribute takes at most nine bytes.\<close>

lemma mac_emit_loop_spec:
  assumes "tx_ready as" and "length out + 9 * marked as + 14 \<le> room" 
  shows "mac_emit_loop room out found l as = Some (True, out @ concat (map (enc_mac l) (mac_groups as)), map mac_unmark as)"
    "length (concat (map (enc_mac l) (mac_groups as))) \<le> 9 * marked as"
proof -
  have "mac_emit_loop room out found l as = Some (True, out @ concat (map (enc_mac l) (mac_groups as)), map mac_unmark as) \<and>
    length (concat (map (enc_mac l) (mac_groups as))) \<le> 9 * marked as"
    using assms
  proof (induction as arbitrary: out found rule: mac_groups.induct)
    case (2 a as)
    have enter: "(if found then length out else 0) + 11 + MRPDU_ENDMARK_SZ < room" using "2.prems"(2) by (simp add: MRPDU_ENDMARK_SZ_def)
    show ?case
    proof (cases "starts_vector a")
      case False
      then have IH: "mac_emit_loop room out found l as = Some (True, out @ concat (map (enc_mac l) (mac_groups as)), map mac_unmark as)"
        "length (concat (map (enc_mac l) (mac_groups as))) \<le> 9 * marked as"
        using "2.IH"(2) [OF False, of out found] "2.prems" by (auto split: if_splits)
      have "mac_unmark a = a" if "m_type a \<noteq> MMRP_MACVEC_TYPE \<or> \<not> a_tx (applicant a)"
        using that by (auto simp: mac_unmark_def clear_tx_idle)
      then show ?thesis using IH False enter by (auto simp: starts_vector_def mac_unmark_def)
    next
      case True
      obtain xs ys where r: "mac_run (mac_of a) as = (xs, ys)" by (cases "mac_run (mac_of a) as")
      note split = mac_run_append [OF r] and m = marked_run [OF r]
      have tx: "a_tx (applicant a)" "m_type a = MMRP_MACVEC_TYPE" "a_encode (applicant a) \<noteq> MRP_ENCODE_OPTIONAL" using True by (simp_all add: starts_vector_def)
      have "length out + 19 + marked as \<le> room" using "2.prems"(2) tx by simp
      note v = mac_vector_spec [OF True "2.prems"(1) this r, of l]
      let ?x = "enc_mac l (a, xs)"
      have lx: "length ?x \<le> 9 + length xs" by (rule length_enc_mac)
      have pre: "tx_ready ys" "length (out @ ?x) + 9 * marked ys + 14 \<le> room" using "2.prems" split m tx lx by simp_all
      have IH: "mac_emit_loop room (out @ ?x) True l ys = Some (True, (out @ ?x) @ concat (map (enc_mac l) (mac_groups ys)), map mac_unmark ys)"
        "length (concat (map (enc_mac l) (mac_groups ys))) \<le> 9 * marked ys"
        using "2.IH"(1) [OF True, of "out @ ?x" True] pre r by auto
      have "mac_emit_loop room (out @ ?x) True l (map clear_tx xs @ ys) =
          Some (True, (out @ ?x) @ concat (map (enc_mac l) (mac_groups ys)), map clear_tx xs @ map mac_unmark ys)"
        using mac_emit_skips [of "map clear_tx xs" "out @ ?x" room True l ys] pre(2) IH(1) by simp
      then have "mac_emit_loop room out found l (a # as) =
          Some (True, (out @ ?x) @ concat (map (enc_mac l) (mac_groups ys)), clear_tx a # map clear_tx xs @ map mac_unmark ys)"
        using enter tx v by simp
      moreover have "map clear_tx xs = map mac_unmark xs" "clear_tx a = mac_unmark a"
        using mac_run_macs [OF r] tx by (simp_all add: mac_unmark_def)
      moreover have "mac_groups (a # as) = (a, xs) # mac_groups ys" using True r by simp
      moreover have "length (concat (map (enc_mac l) (mac_groups (a # as)))) \<le> 9 * marked (a # as)"
        using \<open>mac_groups (a # as) = (a, xs) # mac_groups ys\<close> IH(2) lx m tx by simp
      ultimately show ?thesis using split by simp
    qed
  qed simp
  then show "mac_emit_loop room out found l as = Some (True, out @ concat (map (enc_mac l) (mac_groups as)), map mac_unmark as)"
    "length (concat (map (enc_mac l) (mac_groups as))) \<le> 9 * marked as" by blast+
qed

lemma mmrp_emit_macvectors_spec:
  assumes "tx_ready as" "9 * marked as + 16 \<le> room"
  shows "mmrp_emit_macvectors room l as =
    Some (0, if mac_groups as = [] then [] else [2, 6] @ concat (map (enc_mac l) (mac_groups as)) @ [0, 0], map mac_unmark as)"
    "length (concat (map (enc_mac l) (mac_groups as))) \<le> 9 * marked as"
proof -
  let ?b = "concat (map (enc_mac l) (mac_groups as))"
  have "length [mmrp_code MMRP_MACVEC_TYPE, 6] + 9 * marked as + 14 \<le> room" using assms(2) by simp
  note e = mac_emit_loop_spec(1) [OF assms(1) this, where found = False and l = l] mac_emit_loop_spec(2) [OF assms(1) this, where l = l]
  show "length ?b \<le> 9 * marked as" by (rule e(2))
  have "?b = [] \<longleftrightarrow> mac_groups as = []" using enc_mac_nonempty [of l] by (cases "mac_groups as") auto
  moreover have "length ?b + 4 \<le> room" using e(2) assms(2) by simp
  ultimately show "mmrp_emit_macvectors room l as =
      Some (0, if mac_groups as = [] then [] else [2, 6] @ ?b @ [0, 0], map mac_unmark as)"
    using e(1) assms(2) by (simp add: mmrp_emit_macvectors_def c_assert_def)
qed

section \<open>Service requirements\<close>

lemma svc_vector_loop_total:
  assumes "vp + 4 + length packed < room"
  shows "\<exists>ok evt' i' packed' n' bs'. svc_vector_loop room vp x evt i packed n bs = Some (ok, evt', i', packed', n', bs') \<and>
    cleared bs bs' \<and> vp + 4 + length packed' < room + 1 \<and> (ok \<longrightarrow> vp + 4 + length packed' < room)"
  using assms
proof (induction bs arbitrary: x evt i packed n)
  case (Cons b bs)
  show ?case
  proof (cases "a_tx (applicant b) \<and> m_value b = MMRP_SVCREQ (x + 1) \<and> pdu_event b \<noteq> None")
    case False
    then show ?thesis using Cons.prems
      by (cases "m_type b \<noteq> MMRP_SVCREQ_TYPE \<or> \<not> a_tx (applicant b)"; cases "m_value b = MMRP_SVCREQ (x + 1)") (auto simp: Let_def cleared_Cons)
  next
    case True
    then obtain e where e: "pdu_event b = Some e" by auto
    define evt1 where "evt1 = evt[i := mrpdu_code e]"
    define st where "st = (if i + 1 > 2 then ([0, 0, 0], 0, packed @ [MRPDU_3PACK_ENCODE (evt1 ! 0) (evt1 ! 1) (evt1 ! 2)]) else (evt1, i + 1, packed))"
    obtain evt2 i2 packed2 where st2: "st = (evt2, i2, packed2)" by (cases st)
    have p2: "length packed2 \<le> Suc (length packed)" using st2 by (auto simp: st_def split: if_splits)
    let ?full = "room < vp + 2 + (2 + length packed2) + MRPDU_ENDMARK_SZ"
    have step: "svc_vector_loop room vp x evt i packed n (b # bs) =
        (if ?full then Some (False, evt2, i2, packed2, n + 1, clear_tx b # bs)
         else do {
           (ok, evt, i, packed, n, bs) \<leftarrow> svc_vector_loop room vp (x + 1) evt2 i2 packed2 (n + 1) bs;
           Some (ok, evt, i, packed, n, clear_tx b # bs) })"
      using True e Cons.prems st2 unfolding st_def evt1_def by (auto simp: Let_def c_assert_def split: if_splits)
    show ?thesis
    proof (cases ?full)
      case True
      then show ?thesis using step p2 Cons.prems by (auto simp: cleared_Cons simp del: svc_vector_loop.simps)
    next
      case False
      then have "vp + 4 + length packed2 < room" by (simp add: MRPDU_ENDMARK_SZ_def)
      from Cons.IH [OF this, of "x + 1" evt2 i2 "n + 1"] step False show ?thesis by (auto simp: cleared_Cons simp del: svc_vector_loop.simps)
    qed
  qed
qed auto

lemma svc_vector_total:
  assumes "vp + 4 < room"
  shows "\<exists>r evt' bs. svc_vector room vp l evt a as = Some (r, evt', bs) \<and> cleared as bs \<and> (\<forall>v. r = Some v \<longrightarrow> vp + length v + 2 \<le> room)"
proof (cases "m_value a")
  case (MMRP_SVCREQ x)
  show ?thesis
  proof (cases "pdu_event a")
    case (Some e)
    obtain ok evt' i packed n bs where v: "svc_vector_loop room vp x (evt[0 := mrpdu_code e]) 1 [] 1 as = Some (ok, evt', i, packed, n, bs)"
      "cleared as bs" "ok \<Longrightarrow> vp + 4 + length packed < room"
      using svc_vector_loop_total [of vp "[]" room x "evt[0 := mrpdu_code e]" 1 1 as] assms by auto
    then show ?thesis using MMRP_SVCREQ Some assms
      by (auto simp: svc_vector_def Let_def c_assert_def MRPDU_ENDMARK_SZ_def)
  qed (use MMRP_SVCREQ assms in \<open>simp add: svc_vector_def c_assert_def\<close>)
qed (simp add: svc_vector_def)

lemma svc_emit_loop_total:
  assumes "found \<Longrightarrow> length out + 2 \<le> room" "\<not> found \<Longrightarrow> length out = 2"
  shows "\<exists>ok out' found' as'. svc_emit_loop room out found l evt as = Some (ok, out', found', as') \<and> cleared as as' \<and>
    (ok \<longrightarrow> (found' \<longrightarrow> length out' + 2 \<le> room) \<and> (\<not> found' \<longrightarrow> length out' = 2))"
  using assms
proof (induction "length as" arbitrary: out found l evt as rule: less_induct)
  case less
  show ?case
  proof (cases as)
    case Nil
    then show ?thesis using less.prems by auto
  next
    case (Cons a bs)
    let ?enter = "(if found then length out else 0) + 6 + MRPDU_ENDMARK_SZ < room"
    let ?idle = "m_type a \<noteq> MMRP_SVCREQ_TYPE \<or> \<not> a_tx (applicant a)"
    consider (stop) "\<not> ?enter" | (skip) ?enter "?idle \<or> a_encode (applicant a) = MRP_ENCODE_OPTIONAL"
      | (yes) ?enter "\<not> ?idle" "a_encode (applicant a) \<noteq> MRP_ENCODE_OPTIONAL" by blast
    then show ?thesis
    proof cases
      case stop
      then show ?thesis using Cons less.prems by auto
    next
      case skip
      from less.hyps [of bs found out l evt] less.prems Cons
      obtain ok out' found' as' where "svc_emit_loop room out found l evt bs = Some (ok, out', found', as')" "cleared bs as'"
        "ok \<Longrightarrow> (found' \<longrightarrow> length out' + 2 \<le> room) \<and> (\<not> found' \<longrightarrow> length out' = 2)" by auto
      then show ?thesis using skip Cons by (cases ?idle) (auto simp: cleared_Cons)
    next
      case yes
      have "length out + 4 < room" using yes(1) less.prems by (cases found) (simp_all add: MRPDU_ENDMARK_SZ_def)
      then obtain r evt' cs where v: "svc_vector room (length out) l evt a bs = Some (r, evt', cs)" "cleared bs cs"
        "\<And>v. r = Some v \<Longrightarrow> length out + length v + 2 \<le> room" using svc_vector_total by blast
      show ?thesis
      proof (cases r)
        case None
        then show ?thesis using yes v Cons by (auto simp: cleared_Cons)
      next
        case (Some w)
        have "length cs < length as" using cleared_keeps(4) [OF v(2)] Cons by simp
        from less.hyps [OF this, of True "out @ w" False evt'] v(3) [OF Some]
        obtain ok out' found' as' where "svc_emit_loop room (out @ w) True False evt' cs = Some (ok, out', found', as')" "cleared cs as'"
          "ok \<Longrightarrow> (found' \<longrightarrow> length out' + 2 \<le> room) \<and> (\<not> found' \<longrightarrow> length out' = 2)" by auto
        then show ?thesis using yes v(1,2) Some Cons cleared_trans [of bs cs as'] by (auto simp: cleared_Cons)
      qed
    qed
  qed
qed

lemma mmrp_emit_svcvectors_total:
  assumes "7 \<le> room"
  shows "\<exists>rc b as'. mmrp_emit_svcvectors room e l j as = Some (rc, b, as') \<and> cleared as as'"
proof -
  obtain ok out found as' where "svc_emit_loop room [mmrp_code MMRP_SVCREQ_TYPE, 1] False l [0, fst j, snd j] as = Some (ok, out, found, as')"
    "cleared as as'" "ok \<Longrightarrow> (found \<longrightarrow> length out + 2 \<le> room) \<and> (\<not> found \<longrightarrow> length out = 2)"
    using svc_emit_loop_total [of False "[mmrp_code MMRP_SVCREQ_TYPE, 1]" room l "[0, fst j, snd j]" as] by auto
  then show ?thesis using assms by (cases j; cases ok; cases found; cases e) (auto simp: mmrp_emit_svcvectors_def c_assert_def Let_def)
qed

lemma svc_emit_loop_idle:
  "\<forall>a\<in>set as. m_type a = MMRP_SVCREQ_TYPE \<longrightarrow> \<not> a_tx (applicant a) \<Longrightarrow> svc_emit_loop room out found l evt as = Some (True, out, found, as)"
  by (induction as) auto

lemma mmrp_emit_svcvectors_idle:
  assumes "\<forall>a\<in>set as. m_type a = MMRP_SVCREQ_TYPE \<longrightarrow> \<not> a_tx (applicant a)" "6 \<le> room"
  shows "mmrp_emit_svcvectors room False l j as = Some (0, [], as)"
  using assms by (cases j) (simp add: mmrp_emit_svcvectors_def svc_emit_loop_idle)

section \<open>Transmission\<close>

lemma mac_unmark_cleared: "cleared as (map mac_unmark as)"
  by (induction as) (auto intro!: cleared_Cons simp: mac_unmark_def)

text \<open>With at most 218 attributes a transmission stays within its buffer.\<close>

lemma mmrp_txpdu_total:
  assumes "mmrp_inv s" "length (attrib_list s) \<le> 218"
  shows "\<exists>rc s'. mmrp_txpdu s = Some (rc, s') \<and> mmrp_inv s' \<and> same_env s s' \<and> values_of (attrib_list s') = values_of (attrib_list s)"
proof -
  let ?as = "attrib_list s" and ?l = "t_tx (lva (mrp_db s))" and ?room = "MAX_FRAME_SIZE - 15"
  have ready: "tx_ready ?as" using assms(1) by (auto simp: mmrp_inv_def app_inv_def list_all_iff attr_ok_def tx_ready_def)
  have m: "9 * marked ?as \<le> 1962" using marked_le [of ?as] assms(2) by simp
  note e = mmrp_emit_macvectors_spec [OF ready, of ?room ?l]
  define b1 where "b1 = (if mac_groups ?as = [] then [] else [2, 6] @ concat (map (enc_mac ?l) (mac_groups ?as)) @ [0, 0])"
  have e1: "mmrp_emit_macvectors ?room ?l ?as = Some (0, b1, map mac_unmark ?as)" unfolding b1_def by (rule e(1)) (use m in \<open>simp add: MAX_FRAME_SIZE_def\<close>)
  have lb: "length b1 \<le> 1966" using e(2) m by (auto simp: b1_def MAX_FRAME_SIZE_def)
  then have "7 \<le> ?room - length b1" by (simp add: MAX_FRAME_SIZE_def)
  then obtain rc b2 as' where e2: "mmrp_emit_svcvectors (?room - length b1) (send_empty_LeaveAll_flag s) ?l (vectevt_stack s (Suc (mem_pos s))) (map mac_unmark ?as) =
      Some (rc, b2, as')" "cleared (map mac_unmark ?as) as'" using mmrp_emit_svcvectors_total by blast
  have c: "cleared ?as as'" using cleared_trans [OF mac_unmark_cleared e2(2)] .
  have "\<exists>rc s'. mmrp_txpdu s = Some (rc, s') \<and> same_env s s' \<and> cleared ?as (attrib_list s')"
    using e1 e2 c lb mac_unmark_cleared [of ?as]
    by (auto simp: mmrp_txpdu_def mrpd_malloc_def Let_def same_env_def MAX_FRAME_SIZE_def MRPDU_ENDMARK_SZ_def)
  then obtain rc s' where x: "mmrp_txpdu s = Some (rc, s')" "same_env s s'" "cleared ?as (attrib_list s')" by blast
  note k = cleared_keeps(3) [OF x(3)]
  have "mmrp_inv s'" using assms(1) app_inv_cleared [OF _ x(2,3)] k by (simp add: mmrp_inv_def m_value_values)
  then show ?thesis using x(1,2) k by blast
qed

end
