(* ===== verification/Mmrp_Safety.thy ===== *)
theory Mmrp_Safety
  imports Mmrp_Codec Mrp_Stations Event_System
begin

text \<open>
  Safety of the MAC address registration protocol: events, received frames and commands keep the invariant
  and cause no access behind a buffer, under the bounds that are stated with each.
\<close>

section \<open>Events\<close>

lemma mmrp_lookup_None: "mmrp_lookup s r = None \<longleftrightarrow> m_value r \<notin> m_value ` set (attrib_list s)"
  by (force simp: mmrp_lookup_def find_None_iff image_iff)

definition new_attribute :: "mmrp_attribute \<Rightarrow> bool" where
  "new_attribute r \<longleftrightarrow> fresh r \<and> mmrp_shape (m_value r)"

lemma mmrp_alloc_new:
  assumes "mmrp_alloc v s = (Some a, s')" "mmrp_shape v"
  shows "new_attribute (a\<lparr>registrar := (registrar a)\<lparr>r_macaddr := m\<rparr>\<rparr>)" "new_attribute a" "m_value a = v"
  using assms by (auto simp: mmrp_alloc_def mrpd_malloc_def Let_def new_attribute_def fresh_def attr_ok_def leaving_def state_sets
      new_applicant_def new_registrar_def split: if_splits)

lemma mmrp_alloc_env: "mmrp_alloc v s = (r, s') \<Longrightarrow> same_env s s' \<and> attrib_list s' = attrib_list s"
  by (auto simp: mmrp_alloc_def mrpd_malloc_def Let_def same_env_def)

lemma mmrp_alloc_inv: "mmrp_inv s \<Longrightarrow> mmrp_alloc v s = (r, s') \<Longrightarrow> mmrp_inv s'"
  using mmrp_alloc_env mmrp_inv_env by blast

text \<open>The database that an attribute has been added to or merged into.\<close>

definition mmrp_merged :: "mmrp_attribute \<Rightarrow> mmrp_database \<Rightarrow> mmrp_database" where
  "mmrp_merged r s = (if mmrp_lookup s r = None then mmrp_add s r else snd (mmrp_merge s r))"

definition with_source :: "mmrp_attribute \<Rightarrow> mmrp_attribute \<Rightarrow> mmrp_attribute" where
  "with_source r a = a\<lparr>registrar := (registrar a)\<lparr>r_macaddr := r_macaddr (registrar r)\<rparr>\<rparr>"

lemma with_source_simps [simp]:
  "m_value (with_source r a) = m_value a" "attr_ok (with_source r a) = attr_ok a" "leaving (with_source r a) = leaving a"
  "applicant (with_source r a) = applicant a"
  by (simp_all add: with_source_def attr_ok_def leaving_def pdu_event_None)

lemma mmrp_merged_list:
  "attrib_list (mmrp_merged r s) =
     (if m_value r \<in> m_value ` set (attrib_list s) then update_first (\<lambda>a. m_value a = m_value r) (with_source r) (attrib_list s)
      else mmrp_insert r (attrib_list s))"
proof (cases "mmrp_lookup s r")
  case None
  then show ?thesis using mmrp_lookup_None [of s r] by (simp add: mmrp_merged_def mmrp_add_def)
next
  case (Some a)
  then have "m_value r \<in> m_value ` set (attrib_list s)" using mmrp_lookup_None [of s r] by auto
  then show ?thesis using Some by (simp add: mmrp_merged_def mmrp_merge_def with_source_def [abs_def])
qed

lemma mmrp_merged_env: "same_env s (mmrp_merged r s)" "mrp_db (mmrp_merged r s) = mrp_db s"
  by (auto simp: mmrp_merged_def mmrp_add_def mmrp_merge_def split: option.splits)

lemma map_update_first: "(\<And>a. g (f a) = g a) \<Longrightarrow> map g (update_first P f as) = map g as"
  by (induction as) auto

lemma update_first_all: "(\<And>a. Q a \<Longrightarrow> Q (f a)) \<Longrightarrow> list_all Q as \<Longrightarrow> list_all Q (update_first P f as)"
  by (induction as) auto

lemma mmrp_merged_inv:
  assumes "mmrp_inv s" "new_attribute r"
  shows "mmrp_inv (mmrp_merged r s)"
proof -
  have r: "attr_ok r" "\<not> leaving r" "mmrp_shape (m_value r)" using assms(2) by (simp_all add: new_attribute_def fresh_def)
  have s: "list_all attr_ok (attrib_list s)" "covered (attrib_list s) s" "timers_ok s" "values_ok (map m_value (attrib_list s))"
    using assms(1) by (simp_all add: mmrp_inv_def app_inv_def)
  let ?as = "attrib_list (mmrp_merged r s)"
  have "list_all attr_ok ?as \<and> covered ?as s \<and> values_ok (map m_value ?as)"
  proof (cases "m_value r \<in> m_value ` set (attrib_list s)")
    case True
    let ?Q = "\<lambda>a. attr_ok a \<and> (leaving a \<longrightarrow> lv_timer_running (mrp_db s))"
    have "list_all ?Q (attrib_list s)" using s(1,2) by (auto simp: list_all_iff covered_def)
    then have "list_all ?Q (update_first (\<lambda>a. m_value a = m_value r) (with_source r) (attrib_list s))" by (intro update_first_all) simp_all
    then show ?thesis using True s(4) by (auto simp: mmrp_merged_list map_update_first list_all_iff covered_def)
  next
    case False
    then have "values_ok (value_insert (m_value r) (map m_value (attrib_list s)))"
      using grouped_insert [of "map m_value (attrib_list s)" "m_value r"] s(4) r(3) by (auto simp: values_ok_def)
    then show ?thesis using False s(1,2) r(1,2) by (auto simp: mmrp_merged_list map_mmrp_insert list_all_iff covered_def)
  qed
  moreover have "timers_ok (mmrp_merged r s)" using s(3) by (simp add: timers_ok_def mmrp_merged_env)
  ultimately show ?thesis by (simp add: mmrp_inv_def app_inv_def covered_def mmrp_merged_env)
qed

lemma mmrp_request_ok:
  assumes "mmrp_inv t" and "at_first P (\<lambda>a s. case attribute_step e a s of (a, s) \<Rightarrow> ([a], s)) (attrib_list t) t = (ys, s')"
  shows "mmrp_inv (s'\<lparr>attrib_list := ys\<rparr>)" "same_env t s'"
proof -
  have a: "list_all attr_ok (attrib_list t)" "timers_ok t" "covered (attrib_list t) t" using assms(1) by (simp_all add: mmrp_inv_def app_inv_def)
  note o = keeping_requests.at_first_ok [OF a assms(2)]
  then have "app_inv (s'\<lparr>attrib_list := ys\<rparr>)" using timers_ok_env a(2) by (auto simp: app_inv_def covered_def timers_ok_def)
  then show "mmrp_inv (s'\<lparr>attrib_list := ys\<rparr>)" by (rule mmrp_inv_shrinks [OF assms(1)]) (use o in simp)
  show "same_env t s'" using o by blast
qed

lemma mmrp_event_attribute_ok:
  assumes "mmrp_inv s" "new_attribute r"
  shows "mmrp_inv (snd (mmrp_event_attribute e r s))" "same_env s (snd (mmrp_event_attribute e r s))"
proof -
  let ?body = "\<lambda>a s. case attribute_step e a s of (a, s) \<Rightarrow> ([a], s)"
  obtain ys s' where b: "at_first (\<lambda>a. m_value a = m_value r) ?body (attrib_list (mmrp_merged r s)) (mmrp_merged r s) = (ys, s')"
    by (cases "at_first (\<lambda>a. m_value a = m_value r) ?body (attrib_list (mmrp_merged r s)) (mmrp_merged r s)")
  note o = mmrp_request_ok [OF mmrp_merged_inv [OF assms] b]
  have "snd (mmrp_event_attribute e r s) = (if mmrp_lookup s r = None \<and> e = MRP_EVENT_RMT then s else s'\<lparr>attrib_list := ys\<rparr>)"
    using b by (simp add: mmrp_event_attribute_def mmrp_merged_def Let_def)
  then show "mmrp_inv (snd (mmrp_event_attribute e r s))" "same_env s (snd (mmrp_event_attribute e r s))"
    using assms(1) o same_env_trans [OF mmrp_merged_env(1) o(2)] by simp_all
qed

definition request_events :: "mrp_event set" where
  "request_events = {MRP_EVENT_NEW, MRP_EVENT_JOIN, MRP_EVENT_RNEW, MRP_EVENT_RJOININ, MRP_EVENT_RJOINMT, MRP_EVENT_LV, MRP_EVENT_RIN,
     MRP_EVENT_RMT, MRP_EVENT_RLV}"

text \<open>What the handler does with an attribute.\<close>

definition mmrp_handle :: "mrp_event \<Rightarrow> mmrp_attribute \<Rightarrow> mmrp_database \<Rightarrow> mmrp_database" where
  "mmrp_handle e r s =
     (case mmrp_event_attribute e r (on_db mrp_jointimer_start s) of (go, s) \<Rightarrow> if go then mmrp_notify s else s)"

lemma mmrp_event_handle: "e \<in> request_events \<Longrightarrow> mmrp_event s e (Some r) = Some (0, mmrp_handle e r s)"
  by (auto simp: mmrp_event_def request_events_def mmrp_handle_def Let_def split: prod.split)

lemma mmrp_handle_ok:
  assumes "mmrp_inv s" "new_attribute r"
  shows "mmrp_inv (mmrp_handle e r s)" "same_env s (mmrp_handle e r s)"
proof -
  let ?j = "on_db mrp_jointimer_start s"
  obtain go t where t: "mmrp_event_attribute e r ?j = (go, t)" by (cases "mmrp_event_attribute e r ?j")
  have o: "mmrp_inv t" "same_env ?j t" using mmrp_event_attribute_ok [OF mmrp_inv_timers(1) [OF assms(1)] assms(2), of e] t by simp_all
  have st: "same_env s t" using o(2) same_env_trans on_db_env(2) by blast
  show "mmrp_inv (mmrp_handle e r s)" using t o(1) mmrp_pass_inv(4) by (simp add: mmrp_handle_def)
  show "same_env s (mmrp_handle e r s)"
    using t st same_env_trans [OF st mmrp_pass_env(1) [OF o(1)]] by (simp add: mmrp_handle_def)
qed

text \<open>A received leave-all.\<close>

definition mmrp_leaveall :: "mmrp_type \<Rightarrow> mmrp_database \<Rightarrow> mmrp_database" where
  "mmrp_leaveall t s = mmrp_notify (mmrp_event_rla t (on_db mrp_jointimer_start s))"

lemma mmrp_event_leaveall: "mmrp_event s MRP_EVENT_RLA (Some r) = Some (0, mmrp_leaveall (m_type r) s)"
  by (simp add: mmrp_event_def mmrp_leaveall_def)

lemma mmrp_leaveall_ok:
  assumes "mmrp_inv s"
  shows "mmrp_inv (mmrp_leaveall t s)" "same_env s (mmrp_leaveall t s)"
proof -
  let ?j = "on_db mrp_jointimer_start s"
  let ?o = "over_list (\<lambda>a s. if m_type a = t then both_step MRP_EVENT_RLA a s else ([a], s)) ?j"
  have j: "mmrp_inv ?j" using mmrp_inv_timers(1) [OF assms] .
  have r: "mmrp_inv (mmrp_event_rla t ?j)" unfolding mmrp_event_rla_def by (intro mmrp_inv_timers mmrp_pass_inv j)
  show "mmrp_inv (mmrp_leaveall t s)" unfolding mmrp_leaveall_def by (rule mmrp_pass_inv(4) [OF r])
  have "same_env s ?o" using same_env_trans [OF on_db_env(2) mmrp_pass_env(2) [OF j]] .
  then have "same_env s (mmrp_event_rla t ?j)" unfolding mmrp_event_rla_def using same_env_trans on_db_env(5) by blast
  then show "same_env s (mmrp_leaveall t s)" unfolding mmrp_leaveall_def using same_env_trans mmrp_pass_env(1) [OF r] by blast
qed

section \<open>Timers\<close>

lemma mmrp_event_tx_total:
  assumes "mmrp_inv s" "length (attrib_list s) \<le> 218"
  shows "\<exists>s'. mmrp_event_tx s = Some s' \<and> mmrp_inv s'"
proof -
  let ?s = "over_list (\<lambda>a s. ([applicant_step MRP_EVENT_TX a s], s)) (on_db mrp_jointimer_stop s)"
  have i: "mmrp_inv ?s" by (rule mmrp_pass_inv(2) [OF mmrp_inv_timers(2) [OF assms(1)]])
  have "length (attrib_list ?s) \<le> 218" using assms(2) by (simp add: over_list_def applicants_map)
  then obtain rc t where "mmrp_txpdu ?s = Some (rc, t)" "mmrp_inv t" using mmrp_txpdu_total [OF i] by blast
  then show ?thesis using mmrp_inv_timers(1) by (simp add: mmrp_event_tx_def Let_def)
qed

lemma length_over_list:
  "subseq (values_of (attrib_list t)) (values_of (attrib_list s)) \<Longrightarrow> length (attrib_list t) \<le> length (attrib_list s)"
  using list_emb_length [of "(=)" "values_of (attrib_list t)" "values_of (attrib_list s)"] by (simp add: values_of_def)

lemma mmrp_event_lvatimer_total:
  assumes "mmrp_inv s" "length (attrib_list s) \<le> 218"
  shows "\<exists>s'. mmrp_event_lvatimer s = Some s' \<and> mmrp_inv s'"
proof -
  let ?u = "on_db mrp_jointimer_stop (on_db mrp_lvatimer_stop s)"
  let ?s = "on_db (\<lambda>db. mrp_lvatimer_fsm db MRP_EVENT_TX) ((on_db (\<lambda>db. mrp_lvatimer_fsm db MRP_EVENT_LVATIMER)
    (over_list (both_step MRP_EVENT_TXLA) ?u))\<lparr>send_empty_LeaveAll_flag := True\<rparr>)"
  have i0: "mmrp_inv ?u" by (intro mmrp_inv_timers assms(1))
  have i1: "mmrp_inv (on_db (\<lambda>db. mrp_lvatimer_fsm db MRP_EVENT_LVATIMER) (over_list (both_step MRP_EVENT_TXLA) ?u))"
    using mmrp_inv_timers(4) [OF mmrp_pass_inv(1) [OF i0]] .
  have i: "mmrp_inv ?s" using mmrp_inv_timers(4) [OF mmrp_inv_flag [THEN iffD2, OF i1]] .
  have "app_inv ?u" using i0 by (simp add: mmrp_inv_def)
  from length_over_list [OF both.over_list_app(3) [OF this, of MRP_EVENT_TXLA]] have "length (attrib_list ?s) \<le> 218" using assms(2) by simp
  then obtain rc t where "mmrp_txpdu ?s = Some (rc, t)" "mmrp_inv t" using mmrp_txpdu_total [OF i] by blast
  then show ?thesis by (simp add: mmrp_event_lvatimer_def Let_def)
qed

lemma mmrp_event_lvtimer_inv:
  assumes "mmrp_inv s"
  shows "mmrp_inv (mmrp_event_lvtimer s)"
proof -
  let ?s = "on_db mrp_lvtimer_stop s"
  have "list_all attr_ok (attrib_list ?s)" "timers_ok ?s" using assms by (simp_all add: mmrp_inv_def app_inv_def lvtimer_stop_env)
  note o = keeping_leaves.over_list_ok [OF this, simplified]
  show ?thesis unfolding mmrp_event_lvtimer_def by (rule mmrp_inv_shrinks [OF assms]) (use o in simp_all)
qed

lemma mmrp_event_total:
  assumes "mmrp_inv s" "\<And>r. rattrib = Some r \<Longrightarrow> new_attribute r"
    and "e \<in> {MRP_EVENT_TX, MRP_EVENT_LVATIMER} \<Longrightarrow> length (attrib_list s) \<le> 218"
  shows "\<exists>rc s'. mmrp_event s e rattrib = Some (rc, s') \<and> mmrp_inv s'"
proof -
  have j: "mmrp_inv (on_db mrp_jointimer_start s)" using mmrp_inv_timers(1) [OF assms(1)] .
  consider (request) "e \<in> request_events" | (leaveall) "e = MRP_EVENT_RLA" | (other) "e \<notin> request_events" "e \<noteq> MRP_EVENT_RLA" by blast
  then show ?thesis
  proof cases
    case request
    then show ?thesis using j mmrp_event_handle [OF request] mmrp_handle_ok(1) [OF assms(1) assms(2)]
      by (cases rattrib) (auto simp: mmrp_event_def request_events_def)
  next
    case leaveall
    then show ?thesis using j mmrp_event_leaveall mmrp_leaveall_ok(1) [OF assms(1)] by (cases rattrib) (auto simp: mmrp_event_def)
  next
    case other
    have p: "mmrp_inv (mmrp_event_periodic s)" unfolding mmrp_event_periodic_def by (rule mmrp_pass_inv(2)) (simp add: assms(1) mmrp_inv_timers)
    have "\<exists>t. (case e of MRP_EVENT_LVATIMER \<Rightarrow> mmrp_event_lvatimer s | MRP_EVENT_TX \<Rightarrow> mmrp_event_tx s
        | MRP_EVENT_LVTIMER \<Rightarrow> Some (mmrp_event_lvtimer s) | MRP_EVENT_PERIODIC \<Rightarrow> Some (mmrp_event_periodic s) | _ \<Rightarrow> Some s) = Some t \<and> mmrp_inv t"
      using assms(1,3) p mmrp_event_lvatimer_total [OF assms(1)] mmrp_event_tx_total [OF assms(1)] mmrp_event_lvtimer_inv [OF assms(1)]
      by (cases e) simp_all
    then show ?thesis using other mmrp_pass_inv(4) by (auto simp: mmrp_event_def request_events_def)
  qed
qed

section \<open>Receiving\<close>

lemma mmrp_next_shape [simp]: "mmrp_shape (mmrp_next_value v) = mmrp_shape v"
  by (cases v) (simp_all add: mmrp_increment_macaddr_def)

lemma mmrp_zero_shape [simp]: "mmrp_shape (mmrp_zero t)" "value_type (mmrp_zero t) = t"
  by (cases t; simp)+

lemma mmrp_rx_values_append:
  "mmrp_rx_values src (xs @ ys) v s =
     do { (ok, v, s) \<leftarrow> mmrp_rx_values src xs v s; if ok then mmrp_rx_values src ys v s else Some (False, v, s) }"
proof (induction src xs v s rule: mmrp_rx_values.induct)
  case (2 src c cs v s)
  show ?case
  proof (cases "mmrp_discard v")
    case True
    then show ?thesis using "2.IH"(1) by simp
  next
    case False
    obtain r t where al: "mmrp_alloc v s = (r, t)" by (cases "mmrp_alloc v s")
    show ?thesis
    proof (cases r)
      case None
      then show ?thesis using False al by simp
    next
      case (Some a)
      let ?e = "case rx_event c of None \<Rightarrow> Some t | Some e \<Rightarrow> map_option snd (mmrp_event t e (Some (a\<lparr>registrar := (registrar a)\<lparr>r_macaddr := src\<rparr>\<rparr>)))"
      show ?thesis using "2.IH"(2) [OF False al [symmetric] Some] False al Some by (cases ?e) auto
    qed
  qed
qed simp

lemma mmrp_rx_bytes_step:
  assumes "rd buf i = Some b"
  shows "mmrp_rx_bytes src buf i (Suc k) n v s =
    do { (ok, v, s) \<leftarrow> mmrp_rx_values src (take (min 3 n) (unpack3 b)) v s;
         if ok then mmrp_rx_bytes src buf (Suc i) k (n - min 3 n) v s else Some (False, s) }"
proof -
  have "(if n > 3 then 3 else n) = min 3 n" by simp
  then show ?thesis using assms
    by (simp only: mmrp_rx_bytes.simps Let_def bind.bind_lunit) (cases "mmrp_rx_values src (take (min 3 n) (unpack3 b)) v s"; auto)
qed

lemma mmrp_rx_values_total:
  "mmrp_inv s \<Longrightarrow> mmrp_shape v \<Longrightarrow> \<exists>ok v' s'. mmrp_rx_values src cs v s = Some (ok, v', s') \<and> mmrp_inv s' \<and> mmrp_shape v'"
proof (induction cs arbitrary: v s)
  case (Cons c cs)
  show ?case
  proof (cases "mmrp_discard v")
    case True
    with Cons show ?thesis by simp
  next
    case False
    obtain r t where al: "mmrp_alloc v s = (r, t)" by (cases "mmrp_alloc v s")
    then have t: "mmrp_inv t" using mmrp_alloc_inv Cons.prems(1) by blast
    show ?thesis
    proof (cases r)
      case None
      with al t False Cons.prems(2) show ?thesis by auto
    next
      case (Some a)
      let ?a = "a\<lparr>registrar := (registrar a)\<lparr>r_macaddr := src\<rparr>\<rparr>"
      let ?e = "case rx_event c of None \<Rightarrow> Some t | Some e \<Rightarrow> map_option snd (mmrp_event t e (Some ?a))"
      have n: "new_attribute ?a" using mmrp_alloc_new(1) al Some Cons.prems(2) by blast
      have "\<exists>u. ?e = Some u \<and> mmrp_inv u"
      proof (cases "rx_event c")
        case (Some e)
        then have "e \<in> request_events" using rx_event_rx by (auto simp: rx_events_def request_events_def)
        then show ?thesis using Some mmrp_event_handle mmrp_handle_ok(1) [OF t n] by simp
      qed (simp add: t)
      then obtain u where u: "?e = Some u" "mmrp_inv u" by blast
      have "mmrp_rx_values src (c # cs) v s = mmrp_rx_values src cs (mmrp_next_value v) u" using u(1) al Some False by simp
      then show ?thesis using Cons.IH [OF u(2), of "mmrp_next_value v"] Cons.prems(2) by simp
    qed
  qed
qed auto

interpretation mmrp_bytes: packed_events_inv "\<lambda>cs (v, s). mmrp_rx_values src cs v s" "\<lambda>buf i k n (v, s). mmrp_rx_bytes src buf i k n v s" snd
  "\<lambda>(v, s). mmrp_inv s \<and> mmrp_shape v" for src
proof unfold_locales
  fix cs and c :: "mmrp_value \<times> mmrp_database"
  assume "case c of (v, s) \<Rightarrow> mmrp_inv s \<and> mmrp_shape v"
  then show "\<exists>ok c'. (case c of (v, s) \<Rightarrow> mmrp_rx_values src cs v s) = Some (ok, c') \<and> (case c' of (v, s) \<Rightarrow> mmrp_inv s \<and> mmrp_shape v)"
    using mmrp_rx_values_total [of "snd c" "fst c" src cs] by (auto split: prod.splits)
qed (simp_all add: split_def mmrp_rx_values_append mmrp_rx_bytes_step del: mmrp_rx_values.simps(2) mmrp_rx_bytes.simps(2) cong: if_cong)

lemma mmrp_rx_leaveall_eq:
  "mmrp_rx_leaveall t l saw s =
     (if l \<and> (t = MMRP_SVCREQ_TYPE \<longrightarrow> \<not> saw) then
        (case mmrp_alloc (mmrp_zero t) s of
           (None, s) \<Rightarrow> Some (False, saw \<or> t = MMRP_SVCREQ_TYPE, s)
         | (Some a, s) \<Rightarrow> Some (True, saw \<or> t = MMRP_SVCREQ_TYPE, mmrp_leaveall t s))
      else Some (True, saw, s))"
  using mmrp_alloc_new(3) [of "mmrp_zero t" s]
  by (auto simp: mmrp_rx_leaveall_def Let_def mmrp_event_leaveall split: prod.split option.split)

lemma mmrp_rx_leaveall_total:
  assumes "mmrp_inv s"
  shows "\<exists>ok saw' s'. mmrp_rx_leaveall t l saw s = Some (ok, saw', s') \<and> mmrp_inv s'"
  unfolding mmrp_rx_leaveall_eq using mmrp_alloc_inv [OF assms] mmrp_leaveall_ok(1) assms by (auto split: prod.split option.split)

lemma mmrp_length_le: "mmrp_length t \<le> 6"
  by (cases t) simp_all

lemma mmrp_read_shape: "length bs = mmrp_length t \<Longrightarrow> mmrp_shape (mmrp_read_value t bs)"
  by (cases t) (simp_all add: mmrp_read_value_def)

text \<open>The decoder reads up to eight bytes behind the end of a frame.\<close>

lemma mmrp_rx_vector_total:
  assumes "mmrp_inv s" "vp \<le> eof + 6" "eof + 8 \<le> length buf"
  shows "\<exists>r saw' s'. mmrp_rx_vector t buf eof src vp saw s = Some (r, saw', s') \<and> mmrp_inv s' \<and> (\<forall>q. r = Some q \<longrightarrow> q \<le> eof + 6)"
proof -
  have h: "rd buf vp = Some (buf ! vp)" "rd buf (vp + 1) = Some (buf ! (vp + 1))" using assms(2,3) by (simp_all add: rd_def)
  let ?hdr = "word_be [buf ! vp, buf ! (vp + 1)] :: u16"
  let ?n = "MRPDU_VECT_NUMVALUES ?hdr" and ?k = "mmrp_length t"
  obtain ok saw1 u where l: "mmrp_rx_leaveall t (MRPDU_VECT_LVA ?hdr) saw s = Some (ok, saw1, u)" "mmrp_inv u"
    using mmrp_rx_leaveall_total [OF assms(1)] by blast
  show ?thesis
  proof (cases "\<not> ok \<or> ?n = 0 \<or> eof \<le> vp + 2 + ?n div 3")
    case True
    then show ?thesis using l(2) unfolding mmrp_rx_vector_def h bind.bind_lunit Let_def l(1) prod.case if_P [OF True] by auto
  next
    case False
    have k: "?k \<le> 6" "vector_bytes ?n \<le> ?n div 3 + 1" by (rule mmrp_length_le) (simp add: vector_bytes_def)
    let ?fv = "take ?k (drop (vp + 2) buf)"
    have "vp + 2 + ?k \<le> length buf" using False assms(3) k(1) by linarith
    then have f: "rds buf (vp + 2) ?k = Some ?fv" "length ?fv = ?k" by (simp_all add: rds_def)
    have "vp + 2 + ?k + (vector_bytes ?n + 1) \<le> length buf" using False k assms(3) by linarith
    from mmrp_bytes.loop_total [OF _ this, where c = "(mmrp_read_value t ?fv, u)" and n = ?n and src = src] l(2) mmrp_read_shape [OF f(2)]
    obtain ok2 d where "mmrp_rx_bytes src buf (vp + 2 + ?k) (vector_bytes ?n + 1) ?n (mmrp_read_value t ?fv) u = Some (ok2, snd d)"
      "case d of (v, s) \<Rightarrow> mmrp_inv s \<and> mmrp_shape v" by (auto simp del: mmrp_rx_bytes.simps)
    then obtain w where b: "mmrp_rx_bytes src buf (vp + 2 + ?k) (vector_bytes ?n + 1) ?n (mmrp_read_value t ?fv) u = Some (ok2, w)" "mmrp_inv w"
      by (cases d) simp
    have "vp + 2 + ?k + vector_bytes ?n \<le> eof + 6" using False k by linarith
    moreover have "mmrp_rx_vector t buf eof src vp saw s = Some (if ok2 then Some (vp + 2 + ?k + vector_bytes ?n) else None, saw1, w)"
      unfolding mmrp_rx_vector_def h bind.bind_lunit Let_def l(1) prod.case if_not_P [OF False] f b(1) ..
    ultimately show ?thesis using b(2) by auto
  qed
qed

lemma mmrp_rx_vectors_total:
  assumes "mmrp_inv s" "vp \<le> eof + 6" "eof + 8 \<le> length buf"
  shows "\<exists>r saw' s'. mmrp_rx_vectors t buf eof src vp saw s = Some (r, saw', s') \<and> mmrp_inv s'"
  using assms
proof (induction t buf eof src vp saw s rule: mmrp_rx_vectors.induct)
  case (1 t buf eof src vp saw s)
  have h: "rd buf vp = Some (buf ! vp)" "rd buf (vp + 1) = Some (buf ! (vp + 1))" using 1(3,4) by (simp_all add: rd_def)
  show ?case
  proof (cases "buf ! vp = 0 \<and> buf ! (vp + 1) = 0")
    case True
    then show ?thesis using 1(2) h by (subst mmrp_rx_vectors.simps) (simp del: One_nat_def add_Suc_right)
  next
    case False
    obtain r w u where v: "mmrp_rx_vector t buf eof src vp saw s = Some (r, w, u)" "mmrp_inv u" "\<forall>q. r = Some q \<longrightarrow> q \<le> eof + 6"
      using mmrp_rx_vector_total [OF 1(2-4), of t src saw] by blast
    have "\<exists>r saw' s'. mmrp_rx_vectors t buf eof src q w u = Some (r, saw', s') \<and> mmrp_inv s'" if "r = Some q" for q
      using 1(1) [OF h False v(1) refl refl that v(2)] v(3) that 1(4) by blast
    then show ?thesis unfolding mmrp_rx_vectors.simps [of t buf eof src vp] h bind.bind_lunit using False v(1,2) by (cases r) auto
  qed
qed

lemma mmrp_rx_messages_total:
  assumes "mmrp_inv s" "eof + 8 \<le> length buf"
  shows "\<exists>rc s'. mmrp_rx_messages buf eof src mp m saw s = Some (rc, s') \<and> mmrp_inv s' \<and> rc \<in> {0, -1}"
  using assms
proof (induction buf eof src mp m saw s rule: mmrp_rx_messages.induct)
  case (1 buf eof src mp m saw s)
  show ?case
  proof (cases "mp + MRPDU_ENDMARK_SZ < eof")
    case False
    then show ?thesis using 1(3) by (subst mmrp_rx_messages.simps) simp
  next
    case True
    have r: "rd buf mp = Some (buf ! mp)" "rd buf (mp + 1) = Some (buf ! (mp + 1))"
      using True 1(4) by (simp_all add: rd_def MRPDU_ENDMARK_SZ_def)
    let ?c = "buf ! mp" and ?l = "buf ! (mp + 1)"
    consider (mark) "?c = 0 \<and> ?l = 0" | (known) t where "\<not> (?c = 0 \<and> ?l = 0)" "mmrp_type_of_code ?c = Some t" "unat ?l = mmrp_length t"
      | (wrong) t where "\<not> (?c = 0 \<and> ?l = 0)" "mmrp_type_of_code ?c = Some t" "unat ?l \<noteq> mmrp_length t"
      | (unknown) "\<not> (?c = 0 \<and> ?l = 0)" "mmrp_type_of_code ?c = None" by (cases "mmrp_type_of_code ?c") auto
    then show ?thesis
    proof cases
      case mark
      then show ?thesis
        using 1(1) [OF _ r mark] True 1(3,4) by (cases "m + 1 < 2") (subst mmrp_rx_messages.simps, simp add: r [simplified])+
    next
      case known
      have "mp + 2 \<le> eof + 6" using True by simp
      then obtain q w u where v: "mmrp_rx_vectors t buf eof src (mp + 2) saw s = Some (q, w, u)" "mmrp_inv u"
        using mmrp_rx_vectors_total [OF 1(3) _ 1(4)] by blast
      have "\<exists>rc s'. mmrp_rx_messages buf eof src p 0 w u = Some (rc, s') \<and> mmrp_inv s' \<and> rc \<in> {0, -1}" if "q = Some p" for p
        using 1(2) [OF _ r known(1,2) _ v(1) refl refl that v(2) 1(4)] True known(3) by simp
      then show ?thesis unfolding mmrp_rx_messages.simps [of buf eof src mp] r bind.bind_lunit using True known v by (cases q) auto
    next
      case wrong
      then show ?thesis unfolding mmrp_rx_messages.simps [of buf eof src mp] r bind.bind_lunit using True 1(3) by auto
    next
      case unknown
      then show ?thesis unfolding mmrp_rx_messages.simps [of buf eof src mp] r bind.bind_lunit using True 1(3) by auto
    qed
  qed
qed

lemma mmrp_recv_msg_total:
  assumes "mmrp_inv s" "length buf = MAX_FRAME_SIZE" "bytes \<le> 1992"
  shows "\<exists>rc s'. mmrp_recv_msg s bytes buf = Some (rc, s') \<and> mmrp_inv s' \<and> rc \<in> {0, -1}"
proof -
  have "nat bytes + 8 \<le> length buf" using assms(2,3) by (simp add: MAX_FRAME_SIZE_def)
  from mmrp_rx_messages_total [OF assms(1) this] show ?thesis using assms(1,2) by (simp add: mmrp_recv_msg_def MAX_FRAME_SIZE_def c_assert_def)
qed

section \<open>Commands\<close>

lemma mmrp_stage_ok:
  assumes "attr_ok a" "mmrp_shape (m_value a)"
  shows "\<exists>line. mmrp_stage a = Some line \<and> length line \<le> 34"
    "m_type a = MMRP_MACVEC_TYPE \<Longrightarrow> length (r_macaddr (registrar a)) = 6 \<Longrightarrow> \<exists>line. mmrp_stage a = Some line \<and> length line = 34"
proof -
  have st: "r_state (registrar a) \<in> {MRP_IN_STATE, MRP_LV_STATE, MRP_MT_STATE}" using assms(1) by (simp add: attr_ok_def registrar_state_def)
  have hx: "length (concat (map hex_byte bs)) = 2 * length bs" for bs by (induction bs) (simp_all add: hex_byte_def)
  have src: "length (source_text a) = 2 + 2 * min 6 (length (r_macaddr (registrar a)))" by (simp add: source_text_def hx min_def)
  have "length (mmrp_text a) \<le> 14 \<and> (m_type a = MMRP_MACVEC_TYPE \<longrightarrow> length (mmrp_text a) = 14)"
  proof (cases "m_value a")
    case (MMRP_SVCREQ x)
    have "unat x < 10 ^ 3" using unsigned_less [of x, where 'a = nat] by simp
    then have "length (print_base 10 (unat x)) \<le> 3" using print_base_length [of "unat x" 10 3] by simp
    then show ?thesis using MMRP_SVCREQ by (simp add: mmrp_text_def)
  next
    case (MMRP_MACVEC m)
    then show ?thesis using assms(2) by (simp add: mmrp_text_def)
  qed
  then show "\<exists>line. mmrp_stage a = Some line \<and> length line \<le> 34"
    "m_type a = MMRP_MACVEC_TYPE \<Longrightarrow> length (r_macaddr (registrar a)) = 6 \<Longrightarrow> \<exists>line. mmrp_stage a = Some line \<and> length line = 34"
    using st src by (auto simp: mmrp_stage_def newline_def)
qed

lemma mmrp_dump_lines_ok:
  assumes "\<forall>a\<in>set as. attr_ok a \<and> mmrp_shape (m_value a)"
  shows "\<exists>msg. mmrp_dump_lines stage as = Some msg \<and> length msg \<le> 34 * length as \<and>
    ((\<forall>a\<in>set as. m_type a = MMRP_MACVEC_TYPE \<and> length (r_macaddr (registrar a)) = 6) \<longrightarrow> length msg = 34 * length as)"
  using assms
proof (induction as arbitrary: stage)
  case (Cons a as)
  obtain line where l: "mmrp_stage a = Some line" "length line \<le> 34"
    "m_type a = MMRP_MACVEC_TYPE \<and> length (r_macaddr (registrar a)) = 6 \<Longrightarrow> length line = 34"
    using mmrp_stage_ok [of a] Cons.prems by fastforce
  obtain msg where "mmrp_dump_lines (Some line) as = Some msg" "length msg \<le> 34 * length as"
    "(\<forall>a\<in>set as. m_type a = MMRP_MACVEC_TYPE \<and> length (r_macaddr (registrar a)) = 6) \<longrightarrow> length msg = 34 * length as"
    using Cons.IH [of "Some line"] Cons.prems by auto
  then show ?case using l by simp
qed simp

lemma mmrp_inv_attributes:
  assumes "mmrp_inv s"
  shows "\<forall>a\<in>set (attrib_list s). attr_ok a \<and> mmrp_shape (m_value a)"
  using assms by (simp add: mmrp_inv_def app_inv_def list_all_iff values_ok_def)

lemma mmrp_dumptable_fits:
  assumes "mmrp_inv s" "length (attrib_list s) < 45"
  shows "\<exists>rc r s'. mmrp_dumptable s = Some (rc, r, s') \<and> mmrp_inv s'"
proof -
  obtain msg where "mmrp_dump_lines None (attrib_list s) = Some msg" "length msg \<le> 34 * length (attrib_list s)"
    using mmrp_dump_lines_ok [OF mmrp_inv_attributes [OF assms(1)]] by blast
  moreover have "mmrp_inv (s\<lparr>mem_pos := n\<rparr>)" for n using mmrp_inv_env [OF assms(1)] by (simp add: same_env_def)
  ultimately show ?thesis
    using assms(2) by (auto simp: mmrp_dumptable_def mrpd_malloc_def Let_def MAX_MRPD_CMDSZ_def newline_def c_assert_def)
qed

lemma mmrp_cmd_parse_mac_total:
  assumes "n \<le> length buf" "CHR 0x00 \<in> set buf"
  shows "\<exists>rc m buf'. mmrp_cmd_parse_mac buf n = Some (rc, m, buf') \<and> CHR 0x00 \<in> set buf' \<and> (rc = 0 \<longrightarrow> length m = 6)"
proof (cases "n < 17")
  case True
  then show ?thesis using assms(2) by (simp add: mmrp_cmd_parse_mac_def)
next
  case False
  then have "4 + (n - 4) \<le> length buf" using assms(1) by simp
  from parse_total [OF this _ assms(2), of "[\<lparr>pname = ''M='', ptype = parse_mac\<rparr>]"]
  obtain rc e vs b where p: "parse buf 4 (n - 4) [\<lparr>pname = ''M='', ptype = parse_mac\<rparr>] = Some (rc, e, vs, b)" "CHR 0x00 \<in> set b"
    "rc = 0 \<longrightarrow> (\<exists>v. vs = [v] \<and> value_of_type parse_mac v)" by (auto simp: list_all2_Cons1)
  have "\<exists>bs. v = V_bytes bs \<and> length bs = 6" if "value_of_type parse_mac v" for v using that by (cases v) (auto simp: value_of_type_def)
  then have "rc = 0 \<longrightarrow> length (case vs of [V_bytes m] \<Rightarrow> m | _ \<Rightarrow> replicate 6 0) = 6" using p(3) by fastforce
  then show ?thesis using p(1,2) False by (simp add: mmrp_cmd_parse_mac_def)
qed

lemma mmrp_cmd_parse_service_total:
  assumes "n \<le> length buf" "CHR 0x00 \<in> set buf"
  shows "\<exists>rc x buf'. mmrp_cmd_parse_service buf n = Some (rc, x, buf') \<and> CHR 0x00 \<in> set buf'"
proof (cases "n < 5")
  case True
  then show ?thesis using assms(2) by (simp add: mmrp_cmd_parse_service_def)
next
  case False
  then have "4 + (n - 4) \<le> length buf" using assms(1) by simp
  from parse_total [OF this _ assms(2), of "[\<lparr>pname = ''S='', ptype = parse_u8\<rparr>]"] False show ?thesis
    by (auto simp: mmrp_cmd_parse_service_def)
qed

lemma mmrp_cmd_value_total:
  assumes "mmrp_inv s" "mmrp_shape v" "e \<in> request_events"
  shows "\<exists>rc s'. mmrp_cmd_value s v e = Some (rc, s') \<and> mmrp_inv s'"
proof -
  obtain r t where al: "mmrp_alloc v s = (r, t)" by (cases "mmrp_alloc v s")
  have t: "mmrp_inv t" using mmrp_alloc_inv [OF assms(1) al] .
  show ?thesis
  proof (cases r)
    case (Some a)
    then have "new_attribute a" using mmrp_alloc_new(2) al assms(2) by blast
    then show ?thesis using al Some mmrp_handle_ok(1) [OF t] mmrp_event_handle [OF assms(3)] by (simp add: mmrp_cmd_value_def)
  qed (simp add: mmrp_cmd_value_def al t)
qed

lemma mmrp_execute_total:
  assumes "mmrp_inv s" "parsed = Some (rc, v, buf)" "CHR 0x00 \<in> set buf" "rc = 0 \<Longrightarrow> \<exists>rc s'. command v = Some (rc, s') \<and> mmrp_inv s'"
  shows "\<exists>rc r s'. mmrp_execute s parsed command = Some (rc, r, Some s') \<and> mmrp_inv s'"
  using assms by (cases "rc = 0") (auto simp: mmrp_execute_def respond_def c_string_def)

lemma mmrp_recv_cmd_total:
  assumes "mmrp_inv s" "n \<le> length buf" "CHR 0x00 \<in> set buf" "take 3 buf = ''M??'' \<Longrightarrow> length (attrib_list s) < 45"
  shows "\<exists>rc r s'. mmrp_recv_cmd (Some s) buf n c = Some (rc, r, Some s') \<and> mmrp_inv s'"
proof -
  let ?s = "add_client s c"
  have i: "mmrp_inv ?s" by (rule mmrp_inv_env [OF assms(1)]) simp_all
  have m: "\<exists>rc r s'. mmrp_execute ?s (mmrp_cmd_parse_mac buf n) (\<lambda>m. mmrp_cmd_mac ?s m e) = Some (rc, r, Some s') \<and> mmrp_inv s'"
    if "e \<in> request_events" for e
  proof -
    obtain rc m b where "mmrp_cmd_parse_mac buf n = Some (rc, m, b)" "CHR 0x00 \<in> set b" "rc = 0 \<longrightarrow> length m = 6"
      using mmrp_cmd_parse_mac_total [OF assms(2,3)] by blast
    then show ?thesis by (intro mmrp_execute_total [OF i]) (auto simp: mmrp_cmd_mac_def intro!: mmrp_cmd_value_total [OF i _ that])
  qed
  have x: "\<exists>rc r s'. mmrp_execute ?s (mmrp_cmd_parse_service buf n) (\<lambda>x. mmrp_cmd_service ?s x e) = Some (rc, r, Some s') \<and> mmrp_inv s'"
    if "e \<in> request_events" for e
  proof -
    obtain rc m b where "mmrp_cmd_parse_service buf n = Some (rc, m, b)" "CHR 0x00 \<in> set b"
      using mmrp_cmd_parse_service_total [OF assms(2,3)] by blast
    then show ?thesis by (intro mmrp_execute_total [OF i]) (auto simp: mmrp_cmd_service_def intro!: mmrp_cmd_value_total [OF i _ that])
  qed
  have d: "take 3 buf = ''M??'' \<Longrightarrow> \<exists>rc r s'. mmrp_dumptable ?s = Some (rc, r, s') \<and> mmrp_inv s'"
    using mmrp_dumptable_fits [OF i] assms(4) by simp
  have e: "MRP_EVENT_LV \<in> request_events" "(if b then MRP_EVENT_JOIN else MRP_EVENT_NEW) \<in> request_events" for b by (simp_all add: request_events_def)
  show ?thesis
    using i d m [OF e(1)] x [OF e(1)] m [OF e(2)] x [OF e(2)] assms(3) by (auto simp: mmrp_recv_cmd_def Let_def respond_def c_string_def)
qed

section \<open>Runs\<close>

definition mmrp_exec :: "mmrp_database \<Rightarrow> mrp_action \<Rightarrow> mmrp_database option" where
  "mmrp_exec s act =
     (case act of
        Timer e \<Rightarrow> map_option snd (mmrp_event s e None)
      | Recv n buf \<Rightarrow> map_option snd (mmrp_recv_msg s n buf)
      | Cmd buf n c \<Rightarrow> do { (rc, r, db) \<leftarrow> mmrp_recv_cmd (Some s) buf n c; db }
      | Bye c \<Rightarrow> mmrp_bye (Some s) c
      | Reclaim \<Rightarrow> snd (mmrp_reclaim (Some s)))"

definition mmrp_admissible :: "mmrp_database \<Rightarrow> mrp_action \<Rightarrow> bool" where
  "mmrp_admissible s act =
     (case act of
        Timer e \<Rightarrow> e \<in> {MRP_EVENT_LVATIMER, MRP_EVENT_TX, MRP_EVENT_LVTIMER, MRP_EVENT_PERIODIC} \<and>
          (e \<in> {MRP_EVENT_LVATIMER, MRP_EVENT_TX} \<longrightarrow> length (attrib_list s) \<le> 218)
      | Recv n buf \<Rightarrow> length buf = MAX_FRAME_SIZE \<and> n \<le> 1992
      | Cmd buf n c \<Rightarrow> n \<le> length buf \<and> CHR 0x00 \<in> set buf \<and> (take 3 buf = ''M??'' \<longrightarrow> length (attrib_list s) < 45)
      | _ \<Rightarrow> True)"

interpretation mmrp: event_system mmrp_inv mmrp_admissible mmrp_exec
proof unfold_locales
  fix s act
  assume i: "mmrp_inv s" and a: "mmrp_admissible s act"
  show "\<exists>s'. mmrp_exec s act = Some s' \<and> mmrp_inv s'"
  proof (cases act)
    case (Timer e)
    have "\<exists>rc s'. mmrp_event s e None = Some (rc, s') \<and> mmrp_inv s'"
      by (rule mmrp_event_total [OF i]) (use a Timer in \<open>auto simp: mmrp_admissible_def\<close>)
    then show ?thesis using Timer by (auto simp: mmrp_exec_def)
  next
    case (Recv n buf)
    then show ?thesis using mmrp_recv_msg_total [OF i] a by (fastforce simp: mmrp_exec_def mmrp_admissible_def)
  next
    case (Cmd buf n c)
    then show ?thesis using mmrp_recv_cmd_total [OF i, of n buf c] a by (fastforce simp: mmrp_exec_def mmrp_admissible_def)
  next
    case (Bye c)
    then show ?thesis using mmrp_inv_env [OF i client_env(4,3)] by (simp add: mmrp_exec_def mmrp_bye_def)
  next
    case Reclaim
    then show ?thesis using mmrp_pass_inv(3) [OF i] by (simp add: mmrp_exec_def mmrp_reclaim_def)
  qed
qed

lemma mmrp_init_inv:
  assumes "mmrp_init True sock_rc timers_rc env = (0, True, Some s)" and "timers_ok env"
  shows "mmrp_inv s" "attrib_list s = []"
proof -
  have "groups MMRP_SVCREQ_TYPE [] []" by (simp add: groups_def)
  then have "values_ok []" using groupedI by (fastforce simp: values_ok_def)
  then show "mmrp_inv s" "attrib_list s = []"
    using assms by (auto simp: mmrp_init_def mrpd_malloc_def Let_def mmrp_inv_def app_inv_def covered_def timers_ok_def on_db_def
      reset_application_def timer_defs split: if_splits)
qed

end
