(* ===== verification/Mmrp_Stations.thy ===== *)
theory Mmrp_Stations
  imports Mmrp_Safety
begin

text \<open>
  Two stations on a link: what a station sends about its MAC addresses is what the other one hears, and a declared address is
  registered there.
\<close>

section \<open>What is heard\<close>

text \<open>The effect of received values, in order, until the memory is exhausted.\<close>

fun mmrp_deliver :: "u8 list \<Rightarrow> (mmrp_value \<times> nat) list \<Rightarrow> mmrp_database \<Rightarrow> (bool \<times> mmrp_database) option" where
  "mmrp_deliver src [] s = Some (True, s)"
| "mmrp_deliver src ((v, c) # vals) s =
     (case mmrp_alloc v s of
        (None, s) \<Rightarrow> Some (False, s)
      | (Some a, s) \<Rightarrow> do {
          s \<leftarrow> (case rx_event c of
              None \<Rightarrow> Some s
            | Some e \<Rightarrow> map_option snd (mmrp_event s e (Some (a\<lparr>registrar := (registrar a)\<lparr>r_macaddr := src\<rparr>\<rparr>))));
          mmrp_deliver src vals s })"

definition group_values :: "mac_group \<Rightarrow> (mmrp_value \<times> nat) list" where
  "group_values = (\<lambda>(a, xs). (m_value a, code_of a) # map (\<lambda>b. (m_value b, follow_code a b)) xs)"

text \<open>The vectors of a message: before the values of each vector comes a leave-all, if they are flagged.\<close>

fun mac_hear :: "u8 list \<Rightarrow> bool \<Rightarrow> mac_group list \<Rightarrow> mmrp_database \<Rightarrow> (bool \<times> mmrp_database) option" where
  "mac_hear src l [] s = Some (True, s)"
| "mac_hear src l (g # gs) s = do {
     (ok, saw, s) \<leftarrow> mmrp_rx_leaveall MMRP_MACVEC_TYPE l False s;
     if \<not> ok then Some (False, s)
     else do {
       (ok, s) \<leftarrow> mmrp_deliver src (group_values g) s;
       if ok then mac_hear src l gs s else Some (False, s) } }"

definition mac_group_ok :: "mac_group \<Rightarrow> bool" where
  "mac_group_ok g \<longleftrightarrow> m_type (fst g) = MMRP_MACVEC_TYPE \<and> length (mac_of (fst g)) = 6 \<and> length (group_codes g) < 8192 \<and> (\<forall>c\<in>set (group_codes g). c < 6) \<and>
     (\<exists>bs ys. mac_run (mac_of (fst g)) bs = (snd g, ys))"

lemma mac_groups_ok:
  assumes "tx_ready as" "length as < 8000" "\<forall>a\<in>set as. mmrp_shape (m_value a)"
  shows "\<forall>g\<in>set (mac_groups as). mac_group_ok g"
  using assms
proof (induction as rule: mac_groups.induct)
  case (2 a as)
  show ?case
  proof (cases "starts_vector a")
    case False
    then show ?thesis using 2 by simp
  next
    case True
    obtain xs ys where r: "mac_run (mac_of a) as = (xs, ys)" by (cases "mac_run (mac_of a) as")
    note split = mac_run_append [OF r]
    have IH: "\<forall>g\<in>set (mac_groups ys). mac_group_ok g" using "2.IH"(1) [OF True] "2.prems" r split by simp
    have "\<exists>e. pdu_event a = Some e" using "2.prems"(1) True by (auto simp: starts_vector_def)
    then have "code_of a < 6" using mrpdu_code_less by (auto simp: code_of_def)
    moreover have "follow_code a x < 6" if "x \<in> set xs" for x
    proof -
      have "pdu_event x \<noteq> None" using that mac_run_macs [OF r that] split "2.prems"(1) by (auto simp: tx_ready_def)
      then show ?thesis using follow_event_ready [of x a] mrpdu_code_less by (auto simp: follow_code_def)
    qed
    moreover have "length (mac_of a) = 6" using "2.prems"(3) True mac_of_value [of a] by (auto simp: starts_vector_def)
    ultimately have "mac_group_ok (a, xs)" using True split "2.prems"(2) r by (auto simp: mac_group_ok_def group_codes_def starts_vector_def)
    then show ?thesis using IH True r by simp
  qed
qed simp

lemma rx_run_deliver:
  "mac_run m bs = (xs, ys) \<Longrightarrow>
     do { (ok, v, s) \<leftarrow> mmrp_rx_values src (map (follow_code a) xs) (MMRP_MACVEC (mmrp_increment_macaddr m)) s; Some (ok, s) } =
     mmrp_deliver src (map (\<lambda>b. (m_value b, follow_code a b)) xs) s"
proof (induction m bs arbitrary: xs s rule: mac_run.induct)
  case (2 m b bs)
  show ?case
  proof (cases "a_tx (applicant b) \<and> m_value b = MMRP_MACVEC (mmrp_increment_macaddr m)")
    case True
    then obtain zs where z: "mac_run (mmrp_increment_macaddr m) bs = (zs, ys)" "xs = b # zs" using "2.prems" by (auto split: prod.splits)
    obtain r t where al: "mmrp_alloc (m_value b) s = (r, t)" by (cases "mmrp_alloc (m_value b) s")
    show ?thesis
    proof (cases r)
      case (Some x)
      let ?e = "case rx_event (follow_code a b) of None \<Rightarrow> Some t
        | Some e \<Rightarrow> map_option snd (mmrp_event t e (Some (x\<lparr>registrar := (registrar x)\<lparr>r_macaddr := src\<rparr>\<rparr>)))"
      show ?thesis using "2.IH" [OF True z(1)] z(2) al Some True by (cases ?e) auto
    qed (use z(2) al True in simp)
  qed (use "2.prems" in auto)
qed auto

lemma rx_group_deliver:
  assumes "mac_group_ok g"
  shows "do { (ok, v, s) \<leftarrow> mmrp_rx_values src (group_codes g) (MMRP_MACVEC (mac_of (fst g))) s; Some (ok, s) } = mmrp_deliver src (group_values g) s"
proof -
  obtain a xs where g: "g = (a, xs)" by (cases g)
  obtain bs ys where r: "mac_run (mac_of a) bs = (xs, ys)" using assms g by (auto simp: mac_group_ok_def)
  have v: "m_value a = MMRP_MACVEC (mac_of a)" using assms g by (simp add: mac_group_ok_def mac_of_value)
  obtain r' t where al: "mmrp_alloc (m_value a) s = (r', t)" by (cases "mmrp_alloc (m_value a) s")
  show ?thesis
  proof (cases r')
    case (Some x)
    let ?e = "case rx_event (code_of a) of None \<Rightarrow> Some t
      | Some e \<Rightarrow> map_option snd (mmrp_event t e (Some (x\<lparr>registrar := (registrar x)\<lparr>r_macaddr := src\<rparr>\<rparr>)))"
    show ?thesis using rx_run_deliver [OF r, of src a] al Some v by (cases ?e) (auto simp: g group_codes_def group_values_def)
  qed (use al v in \<open>simp add: g group_codes_def group_values_def\<close>)
qed

section \<open>Receiving a message\<close>

lemma enc_mac_bytes:
  assumes "mac_group_ok g"
  obtains h0 h1 where "enc_mac l g = h0 # h1 # mac_of (fst g) @ pack_all (group_codes g)" and "\<not> (h0 = 0 \<and> h1 = 0)"
    and "MRPDU_VECT_NUMVALUES (word_be [h0, h1]) = length (group_codes g)" and "MRPDU_VECT_LVA (word_be [h0, h1]) = l"
proof -
  let ?n = "length (group_codes g)"
  define hdr :: u16 where "hdr = (of_nat ?n AND 0x1FFF) OR (if l then 0x2000 else 0)"
  obtain h0 h1 where h: "bytes_be 2 hdr = [h0, h1]" "word_be [h0, h1] = hdr" by (rule two_bytes)
  have n: "?n < 8192" "?n \<noteq> 0" "length (mac_of (fst g)) = 6" using assms by (auto simp: mac_group_ok_def group_codes_def split: prod.splits)
  note hw = header_word [OF n(1) hdr_def]
  have "\<not> (h0 = 0 \<and> h1 = 0)"
  proof
    assume "h0 = 0 \<and> h1 = 0"
    then have "hdr = word_be [0, 0]" using h(2) by simp
    then have "hdr = 0" by (simp add: word_be_def)
    with hw(1) n(2) show False by (simp add: MRPDU_VECT_NUMVALUES_def)
  qed
  moreover have "enc_mac l g = h0 # h1 # mac_of (fst g) @ pack_all (group_codes g)" using h(1) n(3) by (simp add: enc_mac_def vector_header_def hdr_def)
  ultimately show thesis using that [of h0 h1] hw h(2) by simp
qed

lemma length_enc_ok: "mac_group_ok g \<Longrightarrow> length (enc_mac l g) = 8 + vector_bytes (length (group_codes g))"
  by (simp add: enc_mac_def mac_group_ok_def length_pack_all)

lemma mmrp_leaveall_saw:
  "mmrp_rx_leaveall MMRP_MACVEC_TYPE l False s = Some (ok, saw, s') \<Longrightarrow> saw = False"
  by (auto simp: mmrp_rx_leaveall_eq split: if_splits prod.splits option.splits)

lemma mmrp_rx_vector_enc:
  assumes ok: "mac_group_ok g" and at: "drop vp buf = enc_mac l g @ b # rest" and eof: "vp + length (enc_mac l g) \<le> eof"
  shows "mmrp_rx_vector MMRP_MACVEC_TYPE buf eof src vp False s = do {
    (ok, saw, s) \<leftarrow> mmrp_rx_leaveall MMRP_MACVEC_TYPE l False s;
    if \<not> ok then Some (None, False, s)
    else do { (ok, s) \<leftarrow> mmrp_deliver src (group_values g) s; Some (if ok then Some (vp + length (enc_mac l g)) else None, False, s) } }"
proof -
  let ?m = "mac_of (fst g)" and ?cs = "group_codes g"
  obtain h0 h1 where e: "enc_mac l g = h0 # h1 # ?m @ pack_all ?cs"
    and w: "MRPDU_VECT_NUMVALUES (word_be [h0, h1]) = length ?cs" "MRPDU_VECT_LVA (word_be [h0, h1]) = l"
    by (rule enc_mac_bytes [OF ok]) blast
  have m: "length ?m = 6" "\<forall>c\<in>set ?cs. c < 6" "?cs \<noteq> []" using ok by (auto simp: mac_group_ok_def group_codes_def split: prod.splits)
  have at2: "drop (vp + 2) buf = ?m @ pack_all ?cs @ b # rest"
    using at e drop_step [of vp buf "[h0, h1]" "?m @ pack_all ?cs @ b # rest"] by simp
  have at8: "drop (vp + 2 + 6) buf = pack_all ?cs @ b # rest" using drop_step [OF at2] m(1) by simp
  have r: "rd buf vp = Some h0" "rd buf (vp + 1) = Some h1" using at e drop_step [of vp buf "[h0]"] by (simp_all add: rd_at)
  have "vp + 2 + 6 \<le> length buf" using arg_cong [OF at2, of length] m(1) by simp
  then have f: "rds buf (vp + 2) 6 = Some ?m" using at2 m(1) by (simp add: rds_def)
  have n: "\<not> (length ?cs = 0 \<or> eof \<le> vp + 2 + length ?cs div 3)"
    using m(3) eof length_enc_ok [OF ok, of l] by (auto simp: vector_bytes_def split: if_splits)
  have B: "mmrp_rx_bytes src buf (vp + 2 + 6) (vector_bytes (length ?cs) + 1) (length ?cs) (MMRP_MACVEC ?m) t = mmrp_deliver src (group_values g) t" for t
    using mmrp_bytes.loop_pack [OF m(2) at8, of src "(MMRP_MACVEC ?m, t)", unfolded mmrp_bytes.result_def] rx_group_deliver [OF ok, of src t]
    by (simp add: split_def del: mmrp_rx_bytes.simps)
  show ?thesis
  proof (cases "mmrp_rx_leaveall MMRP_MACVEC_TYPE l False s")
    case None
    then show ?thesis unfolding mmrp_rx_vector_def r bind.bind_lunit Let_def w by simp
  next
    case (Some x)
    obtain lok saw u where "x = (lok, saw, u)" by (cases x)
    with Some have l: "mmrp_rx_leaveall MMRP_MACVEC_TYPE l False s = Some (lok, False, u)" using mmrp_leaveall_saw [of l s lok saw u] by simp
    have q: "vp + 2 + 6 + vector_bytes (length ?cs) = vp + length (enc_mac l g)" using length_enc_ok [OF ok, of l] by simp
    have v: "mmrp_read_value MMRP_MACVEC_TYPE ?m = MMRP_MACVEC ?m" by (simp add: mmrp_read_value_def)
    show ?thesis unfolding mmrp_rx_vector_def r bind.bind_lunit Let_def w l prod.case mmrp_length.simps f q v B using n by (cases lok) auto
  qed
qed

lemma mmrp_rx_vectors_enc:
  assumes "\<forall>g\<in>set gs. mac_group_ok g" and "drop vp buf = concat (map (enc_mac l) gs) @ [0, 0] @ rest"
    and "vp + length (concat (map (enc_mac l) gs)) \<le> eof"
  shows "mmrp_rx_vectors MMRP_MACVEC_TYPE buf eof src vp False s = do {
    (ok, s) \<leftarrow> mac_hear src l gs s;
    Some (if ok then Some (vp + length (concat (map (enc_mac l) gs))) else None, False, s) }"
  using assms
proof (induction gs arbitrary: vp s)
  case Nil
  then have "rd buf vp = Some 0" "rd buf (vp + 1) = Some 0" using drop_step [of vp buf "[0]"] by (simp_all add: rd_at)
  then show ?case by (subst mmrp_rx_vectors.simps) simp
next
  case (Cons g gs)
  have ok: "mac_group_ok g" using Cons.prems(1) by simp
  let ?tail = "concat (map (enc_mac l) gs) @ [0, 0] @ rest" and ?p = "vp + length (enc_mac l g)"
  obtain b r where br: "?tail = b # r" by (cases ?tail) auto
  have at: "drop vp buf = enc_mac l g @ b # r" using Cons.prems(2) br by simp
  have at': "drop ?p buf = ?tail" using drop_step [OF at] br by simp
  have le: "?p \<le> eof" using Cons.prems(3) by simp
  obtain h0 h1 where e: "enc_mac l g = h0 # h1 # mac_of (fst g) @ pack_all (group_codes g)" and nz: "\<not> (h0 = 0 \<and> h1 = 0)"
    by (rule enc_mac_bytes [OF ok]) blast
  have rd: "rd buf vp = Some h0" "rd buf (vp + 1) = Some h1" using at e drop_step [of vp buf "[h0]"] by (simp_all add: rd_at)
  have IH: "mmrp_rx_vectors MMRP_MACVEC_TYPE buf eof src ?p False t = do {
      (ok, s) \<leftarrow> mac_hear src l gs t;
      Some (if ok then Some (vp + length (concat (map (enc_mac l) (g # gs)))) else None, False, s) }" for t
  proof -
    have len: "vp + length (concat (map (enc_mac l) (g # gs))) = ?p + length (concat (map (enc_mac l) gs))" by simp
    show ?thesis unfolding len by (rule Cons.IH [OF _ at']) (use Cons.prems(1,3) in auto)
  qed
  show ?case
  proof (cases "mmrp_rx_leaveall MMRP_MACVEC_TYPE l False s")
    case None
    then show ?thesis unfolding mmrp_rx_vectors.simps [of _ buf eof src vp] rd bind.bind_lunit mmrp_rx_vector_enc [OF ok at le] if_not_P [OF nz] by simp
  next
    case (Some x)
    obtain lok saw u where x: "x = (lok, saw, u)" by (cases x)
    show ?thesis
      unfolding mmrp_rx_vectors.simps [of _ buf eof src vp] rd bind.bind_lunit mmrp_rx_vector_enc [OF ok at le] if_not_P [OF nz] Some x mac_hear.simps prod.case
      by (cases lok; cases "mmrp_deliver src (group_values g) u") (auto simp: IH)
  qed
qed

definition mmrp_frame :: "u8 list \<Rightarrow> bool \<Rightarrow> mac_group list \<Rightarrow> u8 list" where
  "mmrp_frame src l gs = MMRP_ADDR @ src @ bytes_be 2 MMRP_ETYPE @ [MMRP_PROT_VER] @
     ([2, 6] @ concat (map (enc_mac l) gs) @ [0, 0]) @ [0, 0]"

text \<open>A frame in the receive buffer.\<close>

definition mmrp_buffer :: "u8 list \<Rightarrow> u8 list" where
  "mmrp_buffer f = f @ replicate (MAX_FRAME_SIZE - length f) 0"

lemma mmrp_rx_messages_enc:
  assumes "\<forall>g\<in>set gs. mac_group_ok g" and at: "drop 15 buf = [2, 6] @ concat (map (enc_mac l) gs) @ [0, 0] @ [0, 0] @ rest"
    and eof: "eof = 15 + 2 + length (concat (map (enc_mac l) gs)) + 4"
  shows "mmrp_rx_messages buf eof src 15 0 False s = do { (ok, s) \<leftarrow> mac_hear src l gs s; Some (if ok then 0 else -1, s) }"
proof -
  let ?n = "length (concat (map (enc_mac l) gs))"
  have at17: "drop 17 buf = concat (map (enc_mac l) gs) @ [0, 0] @ [0, 0] @ rest" using at drop_step [of 15 buf "[2, 6]"] by simp
  have at_end: "drop (17 + ?n) buf = [0, 0] @ [0, 0] @ rest" using drop_step [OF at17] by simp
  have r: "rd buf 15 = Some 2" "rd buf (15 + 1) = Some 6" "rd buf (17 + ?n) = Some 0" "rd buf (17 + ?n + 1) = Some 0"
    using at drop_step [of 15 buf "[2]"] at_end drop_step [of "17 + ?n" buf "[0]"] by (simp_all add: rd_at)
  have v: "mmrp_rx_vectors MMRP_MACVEC_TYPE buf eof src (15 + 2) False s = do {
      (ok, s) \<leftarrow> mac_hear src l gs s; Some (if ok then Some (17 + ?n) else None, False, s) }"
    using mmrp_rx_vectors_enc [OF assms(1) at17, of eof src s] eof by simp
  have fin: "mmrp_rx_messages buf eof src (17 + ?n) 0 False t = Some (0, t)" for t
  proof -
    have "mmrp_rx_messages buf eof src (17 + ?n + 2) 1 False t = Some (0, t)" by (subst mmrp_rx_messages.simps) (simp add: eof MRPDU_ENDMARK_SZ_def)
    then show ?thesis using r(3,4) by (subst mmrp_rx_messages.simps) (simp add: eof MRPDU_ENDMARK_SZ_def)
  qed
  have t: "mmrp_type_of_code 2 = Some MMRP_MACVEC_TYPE" by (simp add: mmrp_type_of_code_def)
  have go: "15 + MRPDU_ENDMARK_SZ < eof" by (simp add: eof MRPDU_ENDMARK_SZ_def)
  show ?thesis unfolding mmrp_rx_messages.simps [of buf eof src 15] r bind.bind_lunit t option.case v
    using go by (cases "mac_hear src l gs s") (auto simp: fin)
qed

lemma mmrp_recv_frame:
  assumes "\<forall>g\<in>set gs. mac_group_ok g" and "length src = 6"
  shows "mmrp_recv_msg t (int (length (mmrp_frame src l gs))) (mmrp_buffer (mmrp_frame src l gs)) =
    do { (ok, t) \<leftarrow> mac_hear src l gs t; Some (if ok then 0 else -1, t) }"
proof -
  let ?f = "mmrp_frame src l gs" and ?z = "replicate (MAX_FRAME_SIZE - length (mmrp_frame src l gs)) (0 :: u8)"
  obtain h0 h1 where h: "bytes_be 2 MMRP_ETYPE = [h0, h1]" "word_be [h0, h1] = MMRP_ETYPE" by (rule two_bytes)
  have f: "mmrp_buffer ?f = MMRP_ADDR @ src @ [h0, h1, MMRP_PROT_VER] @ [2, 6] @ concat (map (enc_mac l) gs) @ [0, 0] @ [0, 0] @ ?z"
    by (simp add: mmrp_buffer_def mmrp_frame_def h)
  have len: "length MMRP_ADDR = 6" by (simp add: MMRP_ADDR_def)
  have parts: "take 6 (mmrp_buffer ?f) = MMRP_ADDR" "take 6 (drop 6 (mmrp_buffer ?f)) = src" "take 2 (drop 12 (mmrp_buffer ?f)) = [h0, h1]"
    "drop 15 (mmrp_buffer ?f) = [2, 6] @ concat (map (enc_mac l) gs) @ [0, 0] @ [0, 0] @ ?z" "14 \<le> length (mmrp_buffer ?f)"
    unfolding f using len assms(2) by simp_all
  have lf: "length ?f = 15 + 2 + length (concat (map (enc_mac l) gs)) + 4" using len assms(2) by (simp add: mmrp_frame_def)
  have "17 \<le> length ?f" using lf by simp
  then have "mmrp_recv_msg t (int (length ?f)) (mmrp_buffer ?f) = mmrp_rx_messages (mmrp_buffer ?f) (length ?f) src 15 0 False t"
    using parts(1-3,5) h(2) by (cases "?f = []") (simp_all add: mmrp_recv_msg_def c_assert_def)
  then show ?thesis unfolding mmrp_rx_messages_enc [OF assms(1) parts(4) lf] .
qed

section \<open>Sending a frame\<close>

definition no_service :: "mmrp_attribute list \<Rightarrow> bool" where
  "no_service as \<longleftrightarrow> (\<forall>a\<in>set as. m_type a = MMRP_SVCREQ_TYPE \<longrightarrow> \<not> a_tx (applicant a))"

lemma mmrp_txpdu_frame:
  assumes mem: "mem_ok s (mem_pos s)" and ready: "tx_ready (attrib_list s)" and bound: "length (attrib_list s) \<le> 218"
    and "no_service (attrib_list s)" "\<not> send_empty_LeaveAll_flag s" and some: "mac_groups (attrib_list s) \<noteq> []"
  shows "\<exists>s'. mmrp_txpdu s = Some (if send_rc s (length (frames s)) \<le> 0 then -1 else 0, s') \<and>
    frames s' = frames s @ [mmrp_frame (station s) (t_tx (lva (mrp_db s))) (mac_groups (attrib_list s))] \<and>
    attrib_list s' = map clear_tx (attrib_list s)"
proof -
  let ?as = "attrib_list s" and ?l = "t_tx (lva (mrp_db s))" and ?room = "MAX_FRAME_SIZE - 15"
  let ?b = "[2, 6] @ concat (map (enc_mac ?l) (mac_groups ?as)) @ [0, 0]"
  have m: "9 * marked ?as \<le> 1962" using marked_le [of ?as] bound by simp
  then have r: "9 * marked ?as + 16 \<le> ?room" by (simp add: MAX_FRAME_SIZE_def)
  have e1: "mmrp_emit_macvectors ?room ?l ?as = Some (0, ?b, map mac_unmark ?as)" using mmrp_emit_macvectors_spec(1) [OF ready r] some by simp
  have lb: "length ?b \<le> 1966" using mmrp_emit_macvectors_spec(2) [OF ready r, of ?l] m by simp
  have u: "map mac_unmark ?as = map clear_tx ?as"
  proof (rule map_cong [OF refl])
    fix a assume a: "a \<in> set ?as"
    show "mac_unmark a = clear_tx a"
    proof (cases "m_type a")
      case MMRP_SVCREQ_TYPE
      then have "\<not> a_tx (applicant a)" using a assms(4) by (simp add: no_service_def)
      then show ?thesis using MMRP_SVCREQ_TYPE by (simp add: mac_unmark_def clear_tx_idle)
    qed (simp add: mac_unmark_def)
  qed
  have e2: "mmrp_emit_svcvectors (?room - length ?b) False l j (map mac_unmark ?as) = Some (0, [], map mac_unmark ?as)" for l j
    by (rule mmrp_emit_svcvectors_idle) (use lb in \<open>simp_all add: u MAX_FRAME_SIZE_def\<close>)
  have fits: "length ?b + MRPDU_ENDMARK_SZ < ?room" "\<not> ?room \<le> length ?b + MRPDU_ENDMARK_SZ" using lb by (simp_all add: MAX_FRAME_SIZE_def MRPDU_ENDMARK_SZ_def)
  define t where "t = (if ?l then s\<lparr>mrp_db := (mrp_db s)\<lparr>lva := (lva (mrp_db s))\<lparr>t_tx := False\<rparr>\<rparr>\<rparr> else s)\<lparr>mem_pos := Suc (mem_pos s)\<rparr>"
  have "mmrp_txpdu s = Some (if send_rc s (length (frames s)) \<le> 0 then -1 else 0,
      t\<lparr>attrib_list := map clear_tx ?as, frames := frames s @ [mmrp_frame (station s) ?l (mac_groups ?as)]\<rparr>)"
    using mem assms(5) e1 e2 fits
    by (cases ?l) (simp_all add: mmrp_txpdu_def mrpd_malloc_def t_def u mmrp_frame_def Let_def del: append_Cons)
  then show ?thesis by simp
qed

section \<open>The receiver\<close>

definition mmrp_registers :: "mmrp_value \<Rightarrow> u8 list \<Rightarrow> mmrp_attribute \<Rightarrow> bool" where
  "mmrp_registers v src b \<longleftrightarrow> m_value b = v \<and> r_state (registrar b) = MRP_IN_STATE \<and> r_macaddr (registrar b) = src"

definition mmrp_registered :: "mmrp_value \<Rightarrow> u8 list \<Rightarrow> mmrp_database \<Rightarrow> bool" where
  "mmrp_registered v src s \<longleftrightarrow> (\<exists>b\<in>set (attrib_list s). mmrp_registers v src b)"

lemma notify_mmrp_registered: "mmrp_registered v src s \<Longrightarrow> mmrp_registered v src (mmrp_notify s)"
  unfolding mmrp_registered_def mmrp_notify_def by (rule notify_keeps) (simp_all add: mmrp_registers_def)

lemma find_update_first: "find P as = Some a \<Longrightarrow> P (f a) \<Longrightarrow> find P (update_first P f as) = Some (f a)"
  by (induction as) (auto split: if_splits)

lemma find_mmrp_insert: "v = m_value r \<Longrightarrow> v \<notin> m_value ` set as \<Longrightarrow> find (\<lambda>a. m_value a = v) (mmrp_insert r as) = Some r"
  by (induction r as rule: mmrp_insert.induct) auto

lemma at_first_find:
  "at_first P body as s = (ys, s') \<Longrightarrow> find P as = Some a \<Longrightarrow> set (fst (body a s)) \<subseteq> set ys"
  by (induction as arbitrary: ys) (auto split: if_splits prod.splits)

lemma mmrp_merged_find:
  "\<exists>a. find (\<lambda>a. m_value a = m_value r) (attrib_list (mmrp_merged r s)) = Some a \<and> a \<in> set (attrib_list (mmrp_merged r s)) \<and>
     m_value a = m_value r \<and> r_macaddr (registrar a) = r_macaddr (registrar r)"
proof (cases "m_value r \<in> m_value ` set (attrib_list s)")
  case True
  let ?P = "\<lambda>a. m_value a = m_value r"
  obtain a where f: "find ?P (attrib_list s) = Some a" using True by (cases "find ?P (attrib_list s)") (auto simp: find_None_iff)
  then have "?P a" by (auto simp: find_Some_iff)
  with f have u: "find ?P (attrib_list (mmrp_merged r s)) = Some (with_source r a)" using True by (simp add: mmrp_merged_list find_update_first)
  then have "with_source r a \<in> set (attrib_list (mmrp_merged r s))" by (auto simp: find_Some_iff)
  with u \<open>?P a\<close> show ?thesis by (simp add: with_source_def)
next
  case False
  then show ?thesis by (simp add: mmrp_merged_list find_mmrp_insert)
qed

lemma mmrp_merged_other: "b \<in> set (attrib_list s) \<Longrightarrow> m_value b \<noteq> m_value r \<Longrightarrow> b \<in> set (attrib_list (mmrp_merged r s))"
  by (simp add: mmrp_merged_list update_first_other)

lemma reclaim_keeps: "fst (case x of (a, s) \<Rightarrow> conditional_reclaim l t a s) = [b] \<Longrightarrow> b = fst x"
  by (cases x) (auto simp: conditional_reclaim_def split: if_splits)

abbreviation request_body :: "mrp_event \<Rightarrow> mmrp_attribute \<Rightarrow> mmrp_database \<Rightarrow> mmrp_attribute list \<times> mmrp_database" where
  "request_body e \<equiv> (\<lambda>a s. case attribute_step e a s of (a, s) \<Rightarrow> ([a], s))"

lemma mmrp_event_attribute_eq:
  assumes "mmrp_lookup s r \<noteq> None \<or> e \<noteq> MRP_EVENT_RMT"
    and "at_first (\<lambda>a. m_value a = m_value r) (request_body e) (attrib_list (mmrp_merged r s)) (mmrp_merged r s) = (ys, s')"
  shows "mmrp_event_attribute e r s = (True, s'\<lparr>attrib_list := ys\<rparr>)"
  using assms by (auto simp: mmrp_event_attribute_def mmrp_merged_def Let_def)

text \<open>The attribute that an event concerns: what is true of it afterwards, and whether others stay.\<close>

lemma mmrp_handle_own:
  assumes "mmrp_inv s" "new_attribute r" "e \<noteq> MRP_EVENT_RMT"
    and own: "\<And>a (t :: mmrp_database). attr_ok a \<Longrightarrow> m_value a = m_value r \<Longrightarrow> r_macaddr (registrar a) = r_macaddr (registrar r) \<Longrightarrow> Q (fst (attribute_step e a t))"
    and "\<And>a n. Q a \<Longrightarrow> Q (a\<lparr>registrar := (registrar a)\<lparr>r_notify := n\<rparr>\<rparr>)"
  shows "\<exists>b\<in>set (attrib_list (mmrp_handle e r s)). Q b"
proof -
  let ?j = "on_db mrp_jointimer_start s"
  let ?P = "\<lambda>a. m_value a = m_value r"
  obtain ys u where b: "at_first ?P (request_body e) (attrib_list (mmrp_merged r ?j)) (mmrp_merged r ?j) = (ys, u)"
    by (cases "at_first ?P (request_body e) (attrib_list (mmrp_merged r ?j)) (mmrp_merged r ?j)")
  have ev: "mmrp_event_attribute e r ?j = (True, u\<lparr>attrib_list := ys\<rparr>)" using mmrp_event_attribute_eq [OF _ b] assms(3) by simp
  obtain a where a: "find ?P (attrib_list (mmrp_merged r ?j)) = Some a" "a \<in> set (attrib_list (mmrp_merged r ?j))" "m_value a = m_value r"
    "r_macaddr (registrar a) = r_macaddr (registrar r)" using mmrp_merged_find by blast
  have "attr_ok a" using mmrp_inv_attributes [OF mmrp_merged_inv [OF mmrp_inv_timers(1) [OF assms(1)] assms(2)]] a(2) by blast
  then have "Q (fst (attribute_step e a (mmrp_merged r ?j)))" using own a(3,4) by blast
  moreover have "fst (attribute_step e a (mmrp_merged r ?j)) \<in> set ys"
    using at_first_find [OF b a(1)] by (cases "attribute_step e a (mmrp_merged r ?j)") simp
  ultimately have "\<exists>b\<in>set (attrib_list (u\<lparr>attrib_list := ys\<rparr>)). Q b" by auto
  from notify_keeps [OF this assms(5)] show ?thesis by (simp add: mmrp_handle_def ev mmrp_notify_def)
qed

lemma mmrp_handle_keeps:
  assumes "\<exists>b\<in>set (attrib_list s). Q b" and "\<And>b. Q b \<Longrightarrow> m_value b \<noteq> m_value r"
    and "\<And>a n. Q a \<Longrightarrow> Q (a\<lparr>registrar := (registrar a)\<lparr>r_notify := n\<rparr>\<rparr>)"
  shows "\<exists>b\<in>set (attrib_list (mmrp_handle e r s)). Q b"
proof -
  let ?j = "on_db mrp_jointimer_start s"
  obtain b where b: "b \<in> set (attrib_list ?j)" "Q b" using assms(1) by auto
  then have n: "m_value b \<noteq> m_value r" using assms(2) by blast
  obtain go u where ev: "mmrp_event_attribute e r ?j = (go, u)" by (cases "mmrp_event_attribute e r ?j")
  have "b \<in> set (attrib_list u)"
  proof (cases "mmrp_lookup ?j r = None \<and> e = MRP_EVENT_RMT")
    case True
    then show ?thesis using ev b(1) by (simp add: mmrp_event_attribute_def)
  next
    case False
    obtain ys w where f: "at_first (\<lambda>a. m_value a = m_value r) (request_body e) (attrib_list (mmrp_merged r ?j)) (mmrp_merged r ?j) = (ys, w)"
      by (cases "at_first (\<lambda>a. m_value a = m_value r) (request_body e) (attrib_list (mmrp_merged r ?j)) (mmrp_merged r ?j)")
    have "u = w\<lparr>attrib_list := ys\<rparr>" using mmrp_event_attribute_eq [OF _ f] False ev by auto
    then show ?thesis using at_first_other [OF f mmrp_merged_other [OF b(1) n]] n by simp
  qed
  then have u: "\<exists>b\<in>set (attrib_list u). Q b" using b(2) by blast
  from notify_keeps [OF u assms(3)] u show ?thesis using ev by (simp add: mmrp_handle_def mmrp_notify_def)
qed

lemma mmrp_handle_other: "mmrp_registered v src s \<Longrightarrow> m_value r \<noteq> v \<Longrightarrow> mmrp_registered v src (mmrp_handle e r s)"
  unfolding mmrp_registered_def by (rule mmrp_handle_keeps) (auto simp: mmrp_registers_def)

lemma mmrp_handle_registers:
  assumes "mmrp_inv s" "new_attribute r" "e \<in> {MRP_EVENT_RNEW, MRP_EVENT_RJOININ, MRP_EVENT_RJOINMT}"
  shows "mmrp_registered (m_value r) (r_macaddr (registrar r)) (mmrp_handle e r s)"
  unfolding mmrp_registered_def
proof (rule mmrp_handle_own [OF assms(1,2)])
  show "e \<noteq> MRP_EVENT_RMT" using assms(3) by auto
  fix a :: mmrp_attribute and t :: mmrp_database
  assume a: "attr_ok a" "m_value a = m_value r" "r_macaddr (registrar a) = r_macaddr (registrar r)"
  obtain b where b: "fst (case attribute_step e a t of (a, s) \<Rightarrow> conditional_reclaim (CHR ''M'') mmrp_text a s) = [b]" "r_state (registrar b) = MRP_IN_STATE"
    "r_macaddr (registrar b) = r_macaddr (registrar a)" "mrp_attribute.more b = mrp_attribute.more a" using attribute_step_registers [OF a(1) assms(3)] by blast
  then show "mmrp_registers (m_value r) (r_macaddr (registrar r)) (fst (attribute_step e a t))"
    using reclaim_keeps [OF b(1)] m_value_more [OF b(4)] a(2,3) by (simp add: mmrp_registers_def)
qed (simp add: mmrp_registers_def)

text \<open>One value that is received, and a list of them.\<close>

lemma mmrp_deliver_append:
  "mmrp_deliver src (xs @ ys) s = do { (ok, s) \<leftarrow> mmrp_deliver src xs s; if ok then mmrp_deliver src ys s else Some (False, s) }"
proof (induction src xs s rule: mmrp_deliver.induct)
  case (2 src v c vals s)
  obtain r t where al: "mmrp_alloc v s = (r, t)" by (cases "mmrp_alloc v s")
  show ?case
  proof (cases r)
    case (Some a)
    let ?e = "case rx_event c of None \<Rightarrow> Some t | Some e \<Rightarrow> map_option snd (mmrp_event t e (Some (a\<lparr>registrar := (registrar a)\<lparr>r_macaddr := src\<rparr>\<rparr>)))"
    show ?thesis using "2.IH" [OF al [symmetric] Some] al Some by (cases ?e) auto
  qed (simp add: al)
qed simp

lemma mmrp_deliver_one:
  assumes "mmrp_inv t" "plenty t" "mmrp_shape w"
  shows "\<exists>t'. mmrp_deliver src [(w, c)] t = Some (True, t') \<and> mmrp_inv t' \<and> plenty t' \<and>
    (\<forall>v. mmrp_registered v src t \<and> w \<noteq> v \<longrightarrow> mmrp_registered v src t') \<and>
    (\<forall>e. rx_event c = Some e \<and> e \<in> {MRP_EVENT_RNEW, MRP_EVENT_RJOININ, MRP_EVENT_RJOINMT} \<longrightarrow> mmrp_registered w src t')"
proof -
  obtain a u where al: "mmrp_alloc w t = (Some a, u)" using assms(2) by (simp add: mmrp_alloc_def mrpd_malloc_def plenty_def)
  note env = mmrp_alloc_env [OF al]
  have u: "mmrp_inv u" "plenty u" "\<And>v. mmrp_registered v src u = mmrp_registered v src t"
    using env mmrp_alloc_inv [OF assms(1) al] plenty_env [OF conjunct1 [OF env] assms(2)] by (simp_all add: mmrp_registered_def)
  let ?a = "a\<lparr>registrar := (registrar a)\<lparr>r_macaddr := src\<rparr>\<rparr>"
  have n: "new_attribute ?a" "m_value ?a = w" using mmrp_alloc_new(1,3) [OF al assms(3)] by simp_all
  show ?thesis
  proof (cases "rx_event c")
    case None
    then show ?thesis using al u by simp
  next
    case (Some e)
    then have e: "e \<in> request_events" using rx_event_rx by (auto simp: rx_events_def request_events_def)
    have d: "mmrp_deliver src [(w, c)] t = Some (True, mmrp_handle e ?a u)" using al Some mmrp_event_handle [OF e] by simp
    note o = mmrp_handle_ok [OF u(1) n(1), of e]
    have "mmrp_registered v src (mmrp_handle e ?a u)" if "mmrp_registered v src t" "w \<noteq> v" for v
      using mmrp_handle_other [of v src u ?a e] u(3) that n(2) by blast
    moreover have "mmrp_registered w src (mmrp_handle e ?a u)" if "e \<in> {MRP_EVENT_RNEW, MRP_EVENT_RJOININ, MRP_EVENT_RJOINMT}"
      using mmrp_handle_registers [OF u(1) n(1) that] n(2) by simp
    ultimately show ?thesis using d o(1) plenty_env [OF o(2) u(2)] Some by auto
  qed
qed

lemma mmrp_deliver_ok:
  assumes "mmrp_inv t" "plenty t" "\<forall>x\<in>set vals. mmrp_shape (fst x)"
  shows "\<exists>t'. mmrp_deliver src vals t = Some (True, t') \<and> mmrp_inv t' \<and> plenty t' \<and>
    (\<forall>v. mmrp_registered v src t \<and> v \<notin> fst ` set vals \<longrightarrow> mmrp_registered v src t')"
  using assms
proof (induction vals arbitrary: t)
  case (Cons x vals)
  obtain w c where x: "x = (w, c)" by (cases x)
  obtain u where u: "mmrp_deliver src [(w, c)] t = Some (True, u)" "mmrp_inv u" "plenty u" "\<forall>v. mmrp_registered v src t \<and> w \<noteq> v \<longrightarrow> mmrp_registered v src u"
    using mmrp_deliver_one [OF Cons.prems(1,2), of w src c] Cons.prems(3) x by auto
  from Cons.IH [OF u(2,3)] obtain y where "mmrp_deliver src vals u = Some (True, y)" "mmrp_inv y" "plenty y"
    "\<forall>v. mmrp_registered v src u \<and> v \<notin> fst ` set vals \<longrightarrow> mmrp_registered v src y" using Cons.prems(3) by auto
  with u(1,4) show ?case using mmrp_deliver_append [of src "[(w, c)]" vals t] x by auto
qed simp

lemma mmrp_deliver_registers:
  assumes "mmrp_inv t" "plenty t" "\<forall>x\<in>set vals. mmrp_shape (fst x)" "distinct (map fst vals)" "(v, c) \<in> set vals" "rx_event c = Some e"
    "e \<in> {MRP_EVENT_RNEW, MRP_EVENT_RJOININ, MRP_EVENT_RJOINMT}"
  shows "\<exists>t'. mmrp_deliver src vals t = Some (True, t') \<and> mmrp_inv t' \<and> plenty t' \<and> mmrp_registered v src t'"
proof -
  obtain xs ys where v: "vals = xs @ [(v, c)] @ ys" using assms(5) by (metis append_Cons append_Nil split_list)
  obtain t1 where t1: "mmrp_deliver src xs t = Some (True, t1)" "mmrp_inv t1" "plenty t1" using mmrp_deliver_ok [OF assms(1,2), of xs src] assms(3) v by auto
  obtain t2 where t2: "mmrp_deliver src [(v, c)] t1 = Some (True, t2)" "mmrp_inv t2" "plenty t2" "mmrp_registered v src t2"
    using mmrp_deliver_one [OF t1(2,3), of v src c] assms(3,6,7) v by auto
  obtain t3 where t3: "mmrp_deliver src ys t2 = Some (True, t3)" "mmrp_inv t3" "plenty t3"
    "\<forall>v. mmrp_registered v src t2 \<and> v \<notin> fst ` set ys \<longrightarrow> mmrp_registered v src t3" using mmrp_deliver_ok [OF t2(2,3), of ys src] assms(3) v by auto
  have "v \<notin> fst ` set ys" using assms(4) v by auto
  then show ?thesis using t1(1) t2(1,4) t3 unfolding v mmrp_deliver_append by (simp del: mmrp_deliver.simps)
qed

text \<open>Without a leave-all, the vectors are heard like one list of values.\<close>

lemma mac_hear_plain: "mac_hear src False gs s = mmrp_deliver src (concat (map group_values gs)) s"
proof (induction gs arbitrary: s)
  case (Cons g gs)
  then show ?case by (cases "mmrp_deliver src (group_values g) s") (auto simp: mmrp_rx_leaveall_def mmrp_deliver_append)
qed simp

section \<open>From station to station\<close>

definition join_events :: "mrp_event set" where
  "join_events = {MRP_EVENT_RNEW, MRP_EVENT_RJOININ, MRP_EVENT_RJOINMT}"

lemma follow_code_joins:
  assumes "rx_event (code_of b) = Some e" "e \<in> join_events"
  shows "\<exists>e\<in>join_events. rx_event (follow_code x b) = Some e"
proof (cases "a_sndmsg (applicant b) = MRP_SND_JOIN")
  case True
  then show ?thesis by (auto simp: follow_code_def follow_event_def rx_event_def join_events_def)
next
  case False
  then have "follow_code x b = code_of b" by (simp add: follow_code_def follow_event_def code_of_def)
  then show ?thesis using assms by auto
qed

lemma mac_groups_member:
  assumes "b \<in> set as" "starts_vector b" "rx_event (code_of b) = Some e" "e \<in> join_events"
  shows "\<exists>c. (m_value b, c) \<in> set (concat (map group_values (mac_groups as))) \<and> (\<exists>e\<in>join_events. rx_event c = Some e)"
  using assms(1)
proof (induction as rule: mac_groups.induct)
  case (2 a as)
  show ?case
  proof (cases "starts_vector a")
    case False
    then have "b \<in> set as" using 2(3) assms(2) by auto
    then show ?thesis using 2(2) [OF False] False by simp
  next
    case True
    obtain xs ys where r: "mac_run (mac_of a) as = (xs, ys)" by (cases "mac_run (mac_of a) as")
    consider "b = a" | "b \<in> set xs" | "b \<in> set ys" using 2(3) mac_run_append [OF r] by auto
    then show ?thesis
    proof cases
      case 1
      then show ?thesis using True r assms(3,4) by (auto simp: group_values_def)
    next
      case 2
      then have "(m_value b, follow_code a b) \<in> set (group_values (a, xs))" by (auto simp: group_values_def)
      then show ?thesis using True r follow_code_joins [OF assms(3,4), of a] by auto
    next
      case 3
      then show ?thesis using 2(1) [OF True] r True by auto
    qed
  qed
qed simp

lemma mac_groups_values: "subseq (map fst (concat (map group_values (mac_groups as)))) (map m_value as)"
proof (induction as rule: mac_groups.induct)
  case (2 a as)
  show ?case
  proof (cases "starts_vector a")
    case False
    then show ?thesis using list_emb_Cons [OF 2(2) [OF False]] by simp
  next
    case True
    obtain xs ys where r: "mac_run (mac_of a) as = (xs, ys)" by (cases "mac_run (mac_of a) as")
    have "subseq (map fst (concat (map group_values (mac_groups ys)))) (map m_value ys)" using 2(1) [OF True] r by simp
    moreover have "map fst (group_values (a, xs)) = map m_value (a # xs)" by (simp add: group_values_def comp_def)
    ultimately show ?thesis using True r mac_run_append [OF r] by (simp add: list_emb_append_mono)
  qed
qed simp

lemma tx_pass:
  assumes "s1 = over_list (\<lambda>a s. ([applicant_step MRP_EVENT_TX a s], s)) (on_db mrp_jointimer_stop s)"
  shows "attrib_list s1 = map (\<lambda>a. applicant_step MRP_EVENT_TX a (on_db mrp_jointimer_stop s)) (attrib_list s)" "frames s1 = frames s"
    "station s1 = station s" "mem_ok s1 = mem_ok s" "send_empty_LeaveAll_flag s1 = send_empty_LeaveAll_flag s"
    "lva (mrp_db s1) = lva (mrp_db s)"
  unfolding assms by (simp_all add: over_list_def applicants_map on_db_def timer_defs)

lemma m_value_applicant_step [simp]: "m_value (applicant_step e a s) = m_value a"
  by (simp add: applicant_step_def)

lemma mmrp_frames_kept: "frames (mmrp_notify s) = frames s" "frames (on_db f s) = frames s"
  unfolding mmrp_notify_def by (rule notify_keeps_frames) (simp add: on_db_def)

lemma mmrp_station_registers:
  assumes "mmrp_inv s" "plenty s" "length (station s) = 6" "length (attrib_list s) \<le> 218"
    and "\<forall>a\<in>set (attrib_list s). m_type a = MMRP_MACVEC_TYPE" "\<not> t_tx (lva (mrp_db s))" "\<not> send_empty_LeaveAll_flag s"
    and "a \<in> set (attrib_list s)" "anxious (a_state (applicant a))" and "mmrp_inv t" "plenty t"
  shows "\<exists>s' f t'. mmrp_event s MRP_EVENT_TX None = Some (0, s') \<and> frames s' = frames s @ [f] \<and>
    mmrp_recv_msg t (int (length f)) (mmrp_buffer f) = Some (0, t') \<and> mmrp_inv t' \<and> mmrp_registered (m_value a) (station s) t'"
proof -
  define s1 where "s1 = over_list (\<lambda>a s. ([applicant_step MRP_EVENT_TX a s], s)) (on_db mrp_jointimer_stop s)"
  note p = tx_pass [OF s1_def]
  have i: "mmrp_inv s1" unfolding s1_def by (rule mmrp_pass_inv(2) [OF mmrp_inv_timers(2) [OF assms(1)]])
  let ?as = "attrib_list s1" and ?b = "applicant_step MRP_EVENT_TX a (on_db mrp_jointimer_stop s)"
  let ?vals = "concat (map group_values (mac_groups ?as))"
  obtain e where an: "a_tx (applicant ?b)" "a_encode (applicant ?b) = MRP_ENCODE_YES" "rx_event (code_of ?b) = Some e" "e \<in> join_events"
    using anxious_sends [OF assms(9) refl, of "on_db mrp_jointimer_stop s"] by (auto simp: join_events_def)
  have b: "?b \<in> set ?as" "starts_vector ?b" using p(1) assms(5,8) an(1,2) by (simp_all add: starts_vector_def)
  obtain c e' where c: "(m_value a, c) \<in> set ?vals" "rx_event c = Some e'" "e' \<in> join_events"
    using mac_groups_member [OF b an(3,4)] by auto
  have ne: "mac_groups ?as \<noteq> []" using c(1) by auto
  have ok: "tx_ready ?as" "\<forall>a\<in>set ?as. mmrp_shape (m_value a)" using mmrp_inv_attributes [OF i] by (auto simp: attr_ok_def tx_ready_def)
  have few: "length ?as \<le> 218" "length ?as < 8000" using p(1) assms(4) by simp_all
  have svc: "no_service ?as" using p(1) assms(5) by (auto simp: no_service_def)
  have "mem_ok s1 (mem_pos s1)" using p(4) assms(2) by (simp add: plenty_def)
  from mmrp_txpdu_frame [OF this ok(1) few(1) svc _ ne] p assms(6,7)
  obtain rc s2 where x: "mmrp_txpdu s1 = Some (rc, s2)" "frames s2 = frames s @ [mmrp_frame (station s) False (mac_groups ?as)]" by auto
  have ev: "\<exists>s'. mmrp_event s MRP_EVENT_TX None = Some (0, s') \<and> frames s' = frames s2"
    using x(1) by (simp add: mmrp_event_def mmrp_event_tx_def s1_def [symmetric] Let_def mmrp_frames_kept)
  have d: "distinct (map fst ?vals)" "\<forall>x\<in>set ?vals. mmrp_shape (fst x)"
  proof -
    have "distinct (map m_value ?as)" using i grouped_distinct by (simp add: mmrp_inv_def values_ok_def)
    then show "distinct (map fst ?vals)" using mac_groups_values [of ?as] subseq_distinct by blast
    have sub: "fst ` set ?vals \<subseteq> m_value ` set ?as" using subseq_set [OF mac_groups_values [of ?as]] by simp
    show "\<forall>x\<in>set ?vals. mmrp_shape (fst x)"
    proof
      fix x assume "x \<in> set ?vals"
      then have "fst x \<in> m_value ` set ?as" using subsetD [OF sub imageI] by blast
      then show "mmrp_shape (fst x)" using ok(2) by auto
    qed
  qed
  obtain t' where t': "mmrp_deliver (station s) ?vals t = Some (True, t')" "mmrp_inv t'" "mmrp_registered (m_value a) (station s) t'"
    using mmrp_deliver_registers [OF assms(10,11) d(2,1) c(1,2) c(3) [unfolded join_events_def]] by blast
  have "mmrp_recv_msg t (int (length (mmrp_frame (station s) False (mac_groups ?as)))) (mmrp_buffer (mmrp_frame (station s) False (mac_groups ?as))) = Some (0, t')"
    using mmrp_recv_frame [OF mac_groups_ok [OF ok(1) few(2) ok(2)] assms(3), of t False] t'(1) by (simp add: mac_hear_plain)
  then show ?thesis using ev x(2) t'(2,3) by auto
qed

section \<open>Leave-all\<close>

text \<open>A received leave-all makes a registered address leave.\<close>

definition mac_leaving :: "u8 list \<Rightarrow> mmrp_attribute \<Rightarrow> bool" where
  "mac_leaving m b \<longleftrightarrow> m_value b = MMRP_MACVEC m \<and> r_state (registrar b) = MRP_LV_STATE"

lemma for_attributes_member:
  "x \<in> set as \<Longrightarrow> \<exists>t. set (fst (body x t)) \<subseteq> set (fst (for_attributes body as s))"
proof (induction as arbitrary: s)
  case (Cons a as)
  obtain xs u where b: "body a s = (xs, u)" by (cases "body a s")
  obtain ys w where f: "for_attributes body as u = (ys, w)" by (cases "for_attributes body as u")
  show ?case
  proof (cases "x = a")
    case True
    then show ?thesis using b f by (intro exI [of _ s]) auto
  next
    case False
    then show ?thesis using Cons.IH [of u] Cons.prems b f by auto
  qed
qed simp

lemma mmrp_leaveall_leaves:
  assumes "mmrp_registered (MMRP_MACVEC m) src s"
  shows "\<exists>b\<in>set (attrib_list (mmrp_leaveall MMRP_MACVEC_TYPE s)). mac_leaving m b"
proof -
  let ?j = "on_db mrp_jointimer_start s"
  let ?body = "\<lambda>(a :: mmrp_attribute) (s :: mmrp_database). if m_type a = MMRP_MACVEC_TYPE then both_step MRP_EVENT_RLA a s else ([a], s)"
  obtain b where b: "b \<in> set (attrib_list ?j)" "m_value b = MMRP_MACVEC m" "r_state (registrar b) = MRP_IN_STATE"
    using assms by (auto simp: mmrp_registered_def mmrp_registers_def)
  obtain t where t: "set (fst (?body b t)) \<subseteq> set (fst (for_attributes ?body (attrib_list ?j) ?j))" using for_attributes_member [OF b(1), where body = ?body and s = ?j] by blast
  have "\<exists>c\<in>set (fst (?body b t)). mac_leaving m c"
    using b(2,3) by (auto simp: both_step_def registrar_step_def applicant_step_def mrp_registrar_fsm_def registrar_switch_def registrar_leave_def
        mac_leaving_def Let_def split: prod.splits)
  then have "\<exists>c\<in>set (attrib_list (mmrp_event_rla MMRP_MACVEC_TYPE ?j)). mac_leaving m c"
    using t by (auto simp: mmrp_event_rla_def over_list_def case_prod_beta)
  then show ?thesis unfolding mmrp_leaveall_def mmrp_notify_def by (rule notify_keeps) (simp add: mac_leaving_def)
qed

text \<open>Two vectors with a leave-all: the second one makes the address of the first one leave.\<close>

lemma mmrp_hear_leaveall:
  assumes "mmrp_inv s" "plenty s"
  shows "\<exists>u. mmrp_rx_leaveall MMRP_MACVEC_TYPE True False s = Some (True, False, mmrp_leaveall MMRP_MACVEC_TYPE u) \<and> mmrp_inv u \<and> plenty u \<and>
    attrib_list u = attrib_list s"
proof -
  obtain a u where al: "mmrp_alloc (mmrp_zero MMRP_MACVEC_TYPE) s = (Some a, u)" using assms(2) by (simp add: mmrp_alloc_def mrpd_malloc_def plenty_def)
  have "mmrp_inv u" "plenty u" "attrib_list u = attrib_list s"
    using mmrp_alloc_inv [OF assms(1) al] mmrp_alloc_env [OF al] plenty_env [OF conjunct1 [OF mmrp_alloc_env [OF al]] assms(2)] by simp_all
  moreover have "mmrp_rx_leaveall MMRP_MACVEC_TYPE True False s = Some (True, False, mmrp_leaveall MMRP_MACVEC_TYPE u)"
    using al by (simp add: mmrp_rx_leaveall_eq)
  ultimately show ?thesis by blast
qed

lemma mmrp_deliver_leaving:
  assumes "mmrp_inv t" "plenty t" "mmrp_shape w" "\<exists>b\<in>set (attrib_list t). mac_leaving m b" "w \<noteq> MMRP_MACVEC m"
  shows "\<exists>t'. mmrp_deliver src [(w, c)] t = Some (True, t') \<and> (\<exists>b\<in>set (attrib_list t'). mac_leaving m b)"
proof -
  obtain a u where al: "mmrp_alloc w t = (Some a, u)" using assms(2) by (simp add: mmrp_alloc_def mrpd_malloc_def plenty_def)
  let ?a = "a\<lparr>registrar := (registrar a)\<lparr>r_macaddr := src\<rparr>\<rparr>"
  have u: "\<exists>b\<in>set (attrib_list u). mac_leaving m b" "m_value ?a = w" using mmrp_alloc_env [OF al] assms(4) mmrp_alloc_new(3) [OF al assms(3)] by simp_all
  show ?thesis
  proof (cases "rx_event c")
    case None
    then show ?thesis using al u by simp
  next
    case (Some e)
    then have e: "e \<in> request_events" using rx_event_rx by (auto simp: rx_events_def request_events_def)
    have "\<exists>b\<in>set (attrib_list (mmrp_handle e ?a u)). mac_leaving m b"
      by (rule mmrp_handle_keeps [OF u(1)]) (use u(2) assms(5) in \<open>auto simp: mac_leaving_def\<close>)
    then show ?thesis using al Some mmrp_event_handle [OF e] by simp
  qed
qed

lemma mac_hear_two:
  assumes "mmrp_inv t" "plenty t" "length m = 6" "length n = 6" "m \<noteq> n"
    and "m_value a = MMRP_MACVEC m" "m_value b = MMRP_MACVEC n" "rx_event (code_of a) = Some e" "e \<in> join_events"
  shows "\<exists>t'. mac_hear src True [(a, []), (b, [])] t = Some (True, t') \<and> (\<exists>x\<in>set (attrib_list t'). mac_leaving m x)"
proof -
  let ?L = "mmrp_leaveall MMRP_MACVEC_TYPE"
  have keep: "mmrp_inv (?L u)" "plenty (?L u)" if "mmrp_inv u" "plenty u" for u
    using mmrp_leaveall_ok [OF that(1)] plenty_env [OF mmrp_leaveall_ok(2) [OF that(1)] that(2)] by auto
  have g: "group_values (a, []) = [(MMRP_MACVEC m, code_of a)]" "group_values (b, []) = [(MMRP_MACVEC n, code_of b)]"
    using assms(6,7) by (simp_all add: group_values_def)
  obtain u where u: "mmrp_rx_leaveall MMRP_MACVEC_TYPE True False t = Some (True, False, ?L u)" "mmrp_inv u" "plenty u"
    using mmrp_hear_leaveall [OF assms(1,2)] by blast
  obtain v where v: "mmrp_deliver src [(MMRP_MACVEC m, code_of a)] (?L u) = Some (True, v)" "mmrp_inv v" "plenty v" "mmrp_registered (MMRP_MACVEC m) src v"
    using mmrp_deliver_one [OF keep [OF u(2,3)], of "MMRP_MACVEC m" src "code_of a"] assms(3,8,9) by (auto simp: join_events_def)
  obtain w where w: "mmrp_rx_leaveall MMRP_MACVEC_TYPE True False v = Some (True, False, ?L w)" "mmrp_inv w" "plenty w" "attrib_list w = attrib_list v"
    using mmrp_hear_leaveall [OF v(2,3)] by blast
  have "mmrp_registered (MMRP_MACVEC m) src w" using v(4) w(4) by (simp add: mmrp_registered_def)
  from mmrp_leaveall_leaves [OF this] have l: "\<exists>x\<in>set (attrib_list (?L w)). mac_leaving m x" .
  obtain t' where "mmrp_deliver src [(MMRP_MACVEC n, code_of b)] (?L w) = Some (True, t')" "\<exists>x\<in>set (attrib_list t'). mac_leaving m x"
    using mmrp_deliver_leaving [OF keep [OF w(2,3)] _ l, of "MMRP_MACVEC n" src "code_of b"] assms(4,5) by auto
  then show ?thesis using u(1) v(1) w(1) by (simp add: g del: mmrp_deliver.simps)
qed

end
