(* ===== verification/Mmrp_Properties.thy ===== *)
theory Mmrp_Properties
  imports Mmrp_Stations
begin

text \<open>
  The properties of the MAC address registration protocol, over its frames, its runs and two
  stations, with a witness for each.
\<close>

section \<open>A command declares\<close>

lemma mmrp_handle_values:
  assumes "mmrp_inv s" "new_attribute r"
  shows "subseq (values_of (attrib_list (mmrp_handle e r s))) (values_of (attrib_list s)) \<or>
    subseq (values_of (attrib_list (mmrp_handle e r s))) (values_of (attrib_list (mmrp_merged r s)))"
proof -
  let ?j = "on_db mrp_jointimer_start s"
  have m: "attrib_list (mmrp_merged r ?j) = attrib_list (mmrp_merged r s)" by (simp add: mmrp_merged_list)
  obtain go u where ev: "mmrp_event_attribute e r ?j = (go, u)" by (cases "mmrp_event_attribute e r ?j")
  have j: "mmrp_inv ?j" using mmrp_inv_timers(1) [OF assms(1)] .
  have u: "mmrp_inv u" using mmrp_event_attribute_ok(1) [OF j assms(2), of e] ev by simp
  have n: "subseq (values_of (attrib_list (mmrp_handle e r s))) (values_of (attrib_list u))"
    using notifies.over_list_app(3) u ev by (auto simp: mmrp_handle_def mmrp_notify_def mmrp_inv_def)
  show ?thesis
  proof (cases "mmrp_lookup ?j r = None \<and> e = MRP_EVENT_RMT")
    case True
    then have "attrib_list u = attrib_list s" using ev by (auto simp: mmrp_event_attribute_def)
    then show ?thesis using n by simp
  next
    case False
    let ?t = "mmrp_merged r ?j"
    obtain ys w where f: "at_first (\<lambda>a. m_value a = m_value r) (request_body e) (attrib_list ?t) ?t = (ys, w)"
      by (cases "at_first (\<lambda>a. m_value a = m_value r) (request_body e) (attrib_list ?t) ?t")
    have "u = w\<lparr>attrib_list := ys\<rparr>" using mmrp_event_attribute_eq [OF _ f] False ev by auto
    moreover have "list_all attr_ok (attrib_list ?t)" "timers_ok ?t" "covered (attrib_list ?t) ?t"
      using mmrp_merged_inv [OF j assms(2)] by (simp_all add: mmrp_inv_def app_inv_def)
    ultimately show ?thesis using subseq_order.trans [OF n] keeping_requests.at_first_ok [OF _ _ _ f] m by simp
  qed
qed

lemma mmrp_merged_values:
  "m_value ` set (attrib_list (mmrp_merged r s)) \<subseteq> insert (m_value r) (m_value ` set (attrib_list s))"
  "length (attrib_list (mmrp_merged r s)) \<le> Suc (length (attrib_list s))"
proof -
  have "map m_value (attrib_list (mmrp_merged r s)) =
      (if m_value r \<in> m_value ` set (attrib_list s) then map m_value (attrib_list s) else value_insert (m_value r) (map m_value (attrib_list s)))"
    by (simp add: mmrp_merged_list map_update_first map_mmrp_insert)
  then have "set (map m_value (attrib_list (mmrp_merged r s))) \<subseteq> insert (m_value r) (m_value ` set (attrib_list s))"
    by (simp only: split: if_split) auto
  then show "m_value ` set (attrib_list (mmrp_merged r s)) \<subseteq> insert (m_value r) (m_value ` set (attrib_list s))" by simp
  have i: "length (mmrp_insert r as) = Suc (length as)" for as by (induction r as rule: mmrp_insert.induct) auto
  have "length (update_first P f as) = length as" for P and f :: "mmrp_attribute \<Rightarrow> mmrp_attribute" and as by (induction as) auto
  then show "length (attrib_list (mmrp_merged r s)) \<le> Suc (length (attrib_list s))" by (simp add: mmrp_merged_list i)
qed

lemma mmrp_handle_bounds:
  assumes "mmrp_inv s" "new_attribute r"
  shows "m_value ` set (attrib_list (mmrp_handle e r s)) \<subseteq> insert (m_value r) (m_value ` set (attrib_list s))"
    "length (attrib_list (mmrp_handle e r s)) \<le> Suc (length (attrib_list s))"
proof -
  have v: "m_value ` set as = mvalue_of ` set (values_of as)" for as :: "mmrp_attribute list"
    using arg_cong [OF m_value_values [of as], of set] by simp
  have sub: "m_value ` set xs \<subseteq> m_value ` set ys" if "subseq (values_of xs) (values_of ys)" for xs ys :: "mmrp_attribute list"
    using subseq_set [OF that] unfolding v by blast
  have len: "length xs \<le> length ys" if "subseq (values_of xs) (values_of ys)" for xs ys :: "mmrp_attribute list"
    using list_emb_length [OF that] by (simp add: values_of_def)
  show "m_value ` set (attrib_list (mmrp_handle e r s)) \<subseteq> insert (m_value r) (m_value ` set (attrib_list s))"
    using mmrp_handle_values [OF assms] sub mmrp_merged_values(1) by blast
  show "length (attrib_list (mmrp_handle e r s)) \<le> Suc (length (attrib_list s))"
    using mmrp_handle_values [OF assms, of e] len mmrp_merged_values(2) [of r s] by (meson le_SucI le_trans)
qed

lemma mmrp_new_leaveall:
  "same_leaveall s (mmrp_handle MRP_EVENT_NEW r s)"
proof -
  let ?j = "on_db mrp_jointimer_start s"
  let ?t = "mmrp_merged r ?j" and ?P = "\<lambda>a. m_value a = m_value r"
  have a: "same_leaveall w (snd (at_first P (request_body MRP_EVENT_NEW) as w))" for P as w
    by (induction as) (simp_all add: case_prod_beta same_leaveall_basic(1) new_leaveall)
  obtain ys u where b: "at_first ?P (request_body MRP_EVENT_NEW) (attrib_list ?t) ?t = (ys, u)"
    by (cases "at_first ?P (request_body MRP_EVENT_NEW) (attrib_list ?t) ?t")
  have "same_leaveall ?t (u\<lparr>attrib_list := ys\<rparr>)" using a [of ?t ?P "attrib_list ?t"] b by (simp add: same_leaveall_def)
  moreover have "same_leaveall s ?t"
    using same_leaveall_basic(3) [of s] by (auto simp: same_leaveall_def mmrp_merged_def mmrp_add_def mmrp_merge_def split: option.splits)
  ultimately have "same_leaveall s (u\<lparr>attrib_list := ys\<rparr>)" using same_leaveall_trans by blast
  then have "same_leaveall s (mmrp_notify (u\<lparr>attrib_list := ys\<rparr>))" unfolding mmrp_notify_def using notify_leaveall same_leaveall_trans by blast
  then show ?thesis using mmrp_event_attribute_eq [OF _ b] by (simp add: mmrp_handle_def)
qed

lemma mmrp_new_anxious:
  assumes "mmrp_inv s" "new_attribute r"
  shows "\<exists>b\<in>set (attrib_list (mmrp_handle MRP_EVENT_NEW r s)). m_value b = m_value r \<and> anxious (a_state (applicant b))"
proof (rule mmrp_handle_own [OF assms])
  fix a :: mmrp_attribute and t :: mmrp_database
  assume a: "attr_ok a" "m_value a = m_value r"
  obtain b where b: "fst (case attribute_step MRP_EVENT_NEW a t of (a, s) \<Rightarrow> conditional_reclaim (CHR ''M'') mmrp_text a s) = [b]"
    "anxious (a_state (applicant b))" "mrp_attribute.more b = mrp_attribute.more a" using attribute_step_declares [OF a(1)] by blast
  then show "m_value (fst (attribute_step MRP_EVENT_NEW a t)) = m_value r \<and> anxious (a_state (applicant (fst (attribute_step MRP_EVENT_NEW a t))))"
    using reclaim_keeps [OF b(1)] m_value_more [OF b(3)] a(2) by simp
qed simp_all

text \<open>The command by which a client declares a MAC address, as it lies in the receive buffer.\<close>

definition mac_command :: "u8 list \<Rightarrow> string" where
  "mac_command m = ''M++:M='' @ hex_bytes m @ [CHR 0x00]"

lemma parse_mac_command:
  assumes "length m = 6"
  shows "length (mac_command m) = 19" "mmrp_cmd_parse_mac (mac_command m) 19 = Some (0, m, mac_command m)"
proof -
  show l: "length (mac_command m) = 19" using assms by (simp add: mac_command_def)
  let ?q = "\<lparr>pname = ''M='', ptype = parse_mac\<rparr>"
  have b: "mac_command m = ''M++:'' @ join_fields [(?q, V_bytes m)] @ CHR 0x00 # []" by (simp add: mac_command_def hex_bytes_def print_value_def)
  have "length (join_fields [(?q, V_bytes m)]) = 14" using l unfolding b by simp
  then have "parse (mac_command m) 4 15 [?q] = Some (0, Some 0, [V_bytes m], mac_command m)"
    using parse_joined [of "[(?q, V_bytes m)]" 15 "[]" "''M++:''"] assms unfolding b by (simp add: value_of_type_def numeral_eq_Suc del: join_fields.simps)
  then show "mmrp_cmd_parse_mac (mac_command m) 19 = Some (0, m, mac_command m)" by (simp add: mmrp_cmd_parse_mac_def)
qed

lemma mac_command_declares:
  assumes "mmrp_inv s" "plenty s" "length m = 6"
  shows "\<exists>s'. mmrp_recv_cmd (Some s) (mac_command m) 19 c = Some (0, [], Some s') \<and> mmrp_inv s' \<and> same_env s s' \<and> same_leaveall s s' \<and>
    (\<exists>a\<in>set (attrib_list s'). m_value a = MMRP_MACVEC m \<and> anxious (a_state (applicant a))) \<and>
    m_value ` set (attrib_list s') \<subseteq> insert (MMRP_MACVEC m) (m_value ` set (attrib_list s)) \<and> length (attrib_list s') \<le> Suc (length (attrib_list s))"
proof -
  let ?s = "add_client s c"
  have i: "mmrp_inv ?s" "plenty ?s" using mmrp_inv_env [OF assms(1)] plenty_env [OF _ assms(2)] by simp_all
  obtain a t where al: "mmrp_alloc (MMRP_MACVEC m) ?s = (Some a, t)" using i(2) by (simp add: mmrp_alloc_def mrpd_malloc_def plenty_def)
  have n: "new_attribute a" "m_value a = MMRP_MACVEC m" using mmrp_alloc_new(2,3) [OF al] assms(3) by simp_all
  have t: "mmrp_inv t" "same_env ?s t" "attrib_list t = attrib_list s" "same_leaveall ?s t"
    using mmrp_alloc_inv [OF i(1) al] mmrp_alloc_env [OF al] al
    by (auto simp: mmrp_alloc_def Let_def same_leaveall_basic(4) split: prod.splits) (metis same_leaveall_basic(4) snd_conv)
  let ?h = "mmrp_handle MRP_EVENT_NEW a t"
  have "MRP_EVENT_NEW \<in> request_events" by (simp add: request_events_def)
  then have "mmrp_cmd_mac ?s m MRP_EVENT_NEW = Some (0, ?h)" using mmrp_event_handle al by (simp add: mmrp_cmd_mac_def mmrp_cmd_value_def)
  then have "mmrp_recv_cmd (Some s) (mac_command m) 19 c = Some (0, [], Some ?h)"
    using parse_mac_command(2) [OF assms(3)] by (simp add: mmrp_recv_cmd_def mmrp_execute_def Let_def) (simp add: mac_command_def)
  moreover have "same_env s ?h" using mmrp_handle_ok(2) [OF t(1) n(1)] t(2) same_env_trans client_env(2) by blast
  moreover have "same_leaveall s ?h" using mmrp_new_leaveall t(4) same_leaveall_basic(5) same_leaveall_trans by blast
  ultimately show ?thesis
    using mmrp_handle_ok(1) [OF t(1) n(1)] mmrp_new_anxious [OF t(1) n(1)] mmrp_handle_bounds [OF t(1) n(1), of MRP_EVENT_NEW] n(2) t(3) by simp
qed

section \<open>A sample station\<close>

definition sample_mac :: "u8 \<Rightarrow> mmrp_value" where
  "sample_mac x = MMRP_MACVEC [0x91, 0xE0, 0xF0, 0, 0x0E, x]"

definition sample_mmrp_attribute :: "mmrp_value \<Rightarrow> mrp_state \<Rightarrow> bool \<Rightarrow> mrp_snd \<Rightarrow> mmrp_attribute" where
  "sample_mmrp_attribute v st tx msg =
     \<lparr>applicant = \<lparr>a_state = st, a_tx = tx, a_sndmsg = msg, a_encode = MRP_ENCODE_YES, a_previous = None\<rparr>, registrar = new_registrar, m_value = v\<rparr>"

definition sample_mmrp :: "u8 \<Rightarrow> bool \<Rightarrow> mmrp_attribute list \<Rightarrow> mmrp_database" where
  "sample_mmrp n l as =
     \<lparr>mrp_db = \<lparr>lva = \<lparr>t_state = MRP_TIMER_PASSIVE, t_tx = l, t_sndmsg = MRP_SND_NONE\<rparr>, join_timer_running = False,
        lv_timer_running = False, lva_timer_running = True, clients = [], registration = 0, participant = 0, calls = [],
        answers = (\<lambda>i. 0), rands = (\<lambda>i. 12345), rands_pos = 0\<rparr>,
      attrib_list = as, send_empty_LeaveAll_flag = False, p2pmac = 1, station = [n, 0, 0, 0, 0, n], frames = [],
      send_rc = (\<lambda>i. 60), ctl = [], mem_ok = (\<lambda>i. True), mem_pos = 0, vectevt_stack = (\<lambda>i. (0, 0))\<rparr>"

lemma sample_mmrp_fields [simp]:
  "plenty (sample_mmrp n l as)" "station (sample_mmrp n l as) = [n, 0, 0, 0, 0, n]" "attrib_list (sample_mmrp n l as) = as"
  "frames (sample_mmrp n l as) = []" "\<not> send_empty_LeaveAll_flag (sample_mmrp n l as)" "t_tx (lva (mrp_db (sample_mmrp n l as))) = l"
  "mem_ok (sample_mmrp n l as) k" "timers_ok (sample_mmrp n l as)" "send_rc (sample_mmrp n l as) k = 60"
  "vectevt_stack (sample_mmrp n l as) k = (0, 0)"
  by (simp_all add: sample_mmrp_def plenty_def timers_ok_def)

lemma sample_mmrp_attribute_fields [simp]:
  "m_value (sample_mmrp_attribute v st tx msg) = v" "a_state (applicant (sample_mmrp_attribute v st tx msg)) = st"
  "a_tx (applicant (sample_mmrp_attribute v st tx msg)) = tx" "a_encode (applicant (sample_mmrp_attribute v st tx msg)) = MRP_ENCODE_YES"
  "a_sndmsg (applicant (sample_mmrp_attribute v st tx msg)) = msg"
  by (simp_all add: sample_mmrp_attribute_def)

lemma sample_mmrp_empty: "mmrp_inv (sample_mmrp n l [])"
proof -
  have "groups MMRP_SVCREQ_TYPE [] []" by (simp add: groups_def)
  then have "values_ok []" using groupedI by (fastforce simp: values_ok_def)
  then show ?thesis by (simp add: mmrp_inv_def app_inv_def covered_def)
qed

section \<open>Frames\<close>















text \<open>
  Property C8.  From the client to the neighbour: after the command that declares a MAC address, the next transmission opportunity
  sends a frame, and a station that receives it has the address registered, with the address of the sender.
\<close>

theorem mac_reaches_neighbour:
  assumes "mmrp_inv s" "plenty s" "length (station s) = 6" "length (attrib_list s) < 218" "\<forall>a\<in>set (attrib_list s). m_type a = MMRP_MACVEC_TYPE"
    and "\<not> t_tx (lva (mrp_db s))" "\<not> send_empty_LeaveAll_flag s" "length m = 6" "mmrp_inv t" "plenty t"
  shows "\<exists>s1 s2 f t'. mmrp_recv_cmd (Some s) (mac_command m) 19 c = Some (0, [], Some s1) \<and> mmrp_event s1 MRP_EVENT_TX None = Some (0, s2) \<and>
    frames s2 = frames s1 @ [f] \<and> mmrp_recv_msg t (int (length f)) (mmrp_buffer f) = Some (0, t') \<and> mmrp_inv t' \<and>
    mmrp_registered (MMRP_MACVEC m) (station s) t'"
proof -
  obtain s1 a where c: "mmrp_recv_cmd (Some s) (mac_command m) 19 c = Some (0, [], Some s1)" "mmrp_inv s1" "same_env s s1" "same_leaveall s s1"
    "a \<in> set (attrib_list s1)" "m_value a = MMRP_MACVEC m" "anxious (a_state (applicant a))"
    "m_value ` set (attrib_list s1) \<subseteq> insert (MMRP_MACVEC m) (m_value ` set (attrib_list s))" "length (attrib_list s1) \<le> Suc (length (attrib_list s))"
    using mac_command_declares [OF assms(1,2,8), of c] by blast
  have "m_type b = MMRP_MACVEC_TYPE" if "b \<in> set (attrib_list s1)" for b
  proof -
    have "m_value b \<in> insert (MMRP_MACVEC m) (m_value ` set (attrib_list s))" using c(8) that by blast
    then show ?thesis using assms(5) by auto
  qed
  then have all: "\<forall>b\<in>set (attrib_list s1). m_type b = MMRP_MACVEC_TYPE" by blast
  have k: "plenty s1" "station s1 = station s" "\<not> t_tx (lva (mrp_db s1))" "\<not> send_empty_LeaveAll_flag s1"
    using plenty_env [OF c(3) assms(2)] c(3,4) assms(6,7) by (simp_all add: same_env_def same_leaveall_def)
  have "length (station s1) = 6" "length (attrib_list s1) \<le> 218" using k(2) assms(3,4) c(9) by simp_all
  from mmrp_station_registers [OF c(2) k(1) this all k(3,4) c(5,7) assms(9,10)] show ?thesis using c(1,6) k(2) by simp
qed

theorem mac_reaches_neighbour_witness:
  "\<exists>s1 s2 f t'. mmrp_recv_cmd (Some (sample_mmrp 1 False [])) (mac_command [1, 2, 3, 4, 5, 6]) 19 \<lparr>sin_family = 2, sin_port = 7, sin_addr = 1, sin_zero = []\<rparr> =
      Some (0, [], Some s1) \<and> mmrp_event s1 MRP_EVENT_TX None = Some (0, s2) \<and> frames s2 = frames s1 @ [f] \<and>
    mmrp_recv_msg (sample_mmrp 2 False []) (int (length f)) (mmrp_buffer f) = Some (0, t') \<and>
    mmrp_registered (MMRP_MACVEC [1, 2, 3, 4, 5, 6]) [1, 0, 0, 0, 0, 1] t'"
  using mac_reaches_neighbour [of "sample_mmrp 1 False []" "[1, 2, 3, 4, 5, 6]" "sample_mmrp 2 False []" "\<lparr>sin_family = 2, sin_port = 7, sin_addr = 1, sin_zero = []\<rparr>"]
  by (auto simp: sample_mmrp_empty)

section \<open>Runs\<close>

text \<open>
  A station never leaves its buffers under the following bounds: from its initialisation on, every
  sequence of timers, frames of at most 1992 bytes, terminated commands, goodbyes and reclaims ends, and the invariant of the database holds: the
  attributes of a type stand together, in ascending order and without duplicates.  At most 218 attributes may be in the list when a frame is
  sent, and fewer than 45 when a client asks for the table.
\<close>

theorem mmrp_run_safe:
  assumes "mmrp_init True sock_rc timers_rc env = (0, True, Some s)" "timers_ok env" "all_admissible mmrp_admissible mmrp_exec s es"
  shows "\<exists>s'. exec_run mmrp_exec s es = Some s' \<and> mmrp_inv s'"
  using mmrp.exec_run_inv mmrp_init_inv(1) [OF assms(1,2)] assms(3) by blast

theorem mmrp_run_safe_witness:
  "\<exists>s s'. mmrp_init True 3 0 (sample_mmrp 1 False []) = (0, True, Some s) \<and>
    exec_run mmrp_exec s [Timer MRP_EVENT_TX, Recv 60 (replicate 2000 0), Timer MRP_EVENT_LVTIMER,
      Cmd (mac_command [1, 2, 3, 4, 5, 6]) 19 \<lparr>sin_family = 2, sin_port = 7, sin_addr = 1, sin_zero = []\<rparr>, Reclaim] = Some s' \<and> mmrp_inv s'"
proof -
  have "\<exists>s. mmrp_init True 3 0 (sample_mmrp 1 False []) = (0, True, Some s) \<and> attrib_list s = []"
    by (simp add: mmrp_init_def reset_application_def mrpd_malloc_def sample_mmrp_def on_db_def)
  then obtain s where i: "mmrp_init True 3 0 (sample_mmrp 1 False []) = (0, True, Some s)" "attrib_list s = []" by blast
  have "all_admissible mmrp_admissible mmrp_exec s [Timer MRP_EVENT_TX, Recv 60 (replicate 2000 0), Timer MRP_EVENT_LVTIMER,
      Cmd (mac_command [1, 2, 3, 4, 5, 6]) 19 \<lparr>sin_family = 2, sin_port = 7, sin_addr = 1, sin_zero = []\<rparr>, Reclaim]"
    using i(2) parse_mac_command(1) [of "[1, 2, 3, 4, 5, 6]"]
    by (simp add: mmrp_admissible_def MAX_FRAME_SIZE_def split: option.split) (simp add: mac_command_def)
  then show ?thesis using mmrp_run_safe [OF i(1) sample_mmrp_fields(8)] i(1) by blast
qed

section \<open>Leave-all\<close>

text \<open>
  Property C38.  A leave-all is repeated: a station that sends two MAC addresses which are not consecutive in a frame with a leave-all puts the
  flag on both vectors, and the receiver, after it has registered the first address again, makes it leave again when it reaches the second.
\<close>

theorem mmrp_leaveall_repeated:
  assumes "mem_ok s (mem_pos s)" "\<not> send_empty_LeaveAll_flag s" "length (station s) = 6" "t_tx (lva (mrp_db s))" "attrib_list s = [a, b]"
    and "m_value a = MMRP_MACVEC m" "m_value b = MMRP_MACVEC n" "length m = 6" "length n = 6" "m \<noteq> n" "n \<noteq> mmrp_increment_macaddr m"
    and "starts_vector a" "starts_vector b" "pdu_event a \<in> {Some MRPDU_JOININ, Some MRPDU_JOINMT}" "pdu_event b \<noteq> None" "mmrp_inv t" "plenty t"
  shows "\<exists>rc s' f t'. mmrp_txpdu s = Some (rc, s') \<and> frames s' = frames s @ [f] \<and>
    mmrp_recv_msg t (int (length f)) (mmrp_buffer f) = Some (0, t') \<and> (\<exists>x\<in>set (attrib_list t'). m_value x = MMRP_MACVEC m \<and> r_state (registrar x) = MRP_LV_STATE)"
proof -
  have g: "mac_groups (attrib_list s) = [(a, []), (b, [])]" using assms(5-7,11-13) by (simp add: mac_of_def)
  have ready: "tx_ready (attrib_list s)" "no_service (attrib_list s)" "\<forall>a\<in>set (attrib_list s). mmrp_shape (m_value a)"
    using assms(5-9,14,15) by (auto simp: no_service_def)
  obtain rc s' where x: "mmrp_txpdu s = Some (rc, s')" "frames s' = frames s @ [mmrp_frame (station s) True (mac_groups (attrib_list s))]"
    using mmrp_txpdu_frame [OF assms(1) ready(1) _ ready(2) assms(2)] g assms(4,5) by auto
  have ok: "\<forall>h\<in>set (mac_groups (attrib_list s)). mac_group_ok h" using mac_groups_ok [OF ready(1) _ ready(3)] assms(5) by simp
  obtain e where "rx_event (code_of a) = Some e" "e \<in> join_events" using assms(14) by (auto simp: code_of_def rx_event_def join_events_def)
  from mac_hear_two [OF assms(16,17,8-10,6,7) this, of "station s"]
  obtain t' where t': "mac_hear (station s) True (mac_groups (attrib_list s)) t = Some (True, t')" "\<exists>x\<in>set (attrib_list t'). mac_leaving m x"
    unfolding g by blast
  have "mmrp_recv_msg t (int (length (mmrp_frame (station s) True (mac_groups (attrib_list s))))) (mmrp_buffer (mmrp_frame (station s) True (mac_groups (attrib_list s)))) =
      Some (0, t')" using mmrp_recv_frame [OF ok assms(3), of t True] by (simp add: t'(1))
  then show ?thesis using x t'(2) unfolding mac_leaving_def by blast
qed

theorem mmrp_leaveall_repeated_witness:
  "\<exists>rc s' f t'. mmrp_txpdu (sample_mmrp 1 True [sample_mmrp_attribute (sample_mac 1) MRP_VP_STATE True MRP_SND_JOIN,
      sample_mmrp_attribute (sample_mac 9) MRP_VP_STATE True MRP_SND_JOIN]) = Some (rc, s') \<and> frames s' = [f] \<and>
    mmrp_recv_msg (sample_mmrp 2 False []) (int (length f)) (mmrp_buffer f) = Some (0, t') \<and>
    (\<exists>x\<in>set (attrib_list t'). m_value x = sample_mac 1 \<and> r_state (registrar x) = MRP_LV_STATE)"
proof -
  let ?a = "\<lambda>x. sample_mmrp_attribute (sample_mac x) MRP_VP_STATE True MRP_SND_JOIN"
  let ?m = "\<lambda>x. [0x91, 0xE0, 0xF0, 0, 0x0E, x] :: u8 list"
  have i: "mmrp_increment_macaddr (?m 1) = ?m 2" by code_simp
  have "pdu_event (?a x) = Some MRPDU_JOINMT" for x by (simp add: pdu_event_def sample_mmrp_attribute_def new_registrar_def)
  then show ?thesis
    using mmrp_leaveall_repeated [of "sample_mmrp 1 True [?a 1, ?a 9]" "?a 1" "?a 9" "?m 1" "?m 9" "sample_mmrp 2 False []"]
    by (simp add: i starts_vector_def sample_mac_def sample_mmrp_empty)
qed

section \<open>Service requirements\<close>

text \<open>The frame by which a station withdraws a service requirement, behind the protocol version.\<close>

definition withdrawal_bytes :: "u8 \<Rightarrow> u8 list" where
  "withdrawal_bytes x = [1, 1, 0, 1, x, 0, 180, 0, 0, 0, 0]"

lemma withdrawal_sent:
  assumes "mem_ok s (mem_pos s)" "\<not> send_empty_LeaveAll_flag s" "\<not> t_tx (lva (mrp_db s))" "attrib_list s = [a]" "m_value a = MMRP_SVCREQ x"
    and "a_tx (applicant a)" "a_encode (applicant a) = MRP_ENCODE_YES" "a_sndmsg (applicant a) = MRP_SND_LV" "vectevt_stack s (Suc (mem_pos s)) = (0, 0)"
  shows "\<exists>rc s'. mmrp_txpdu s = Some (rc, s') \<and>
    frames s' = frames s @ [MMRP_ADDR @ station s @ bytes_be 2 MMRP_ETYPE @ [MMRP_PROT_VER] @ withdrawal_bytes x]"
proof -
  have e: "pdu_event a = Some MRPDU_LV" using assms(8) by (simp add: pdu_event_def)
  have h: "vector_header (Suc 0) False = [0, 1]" "MRPDU_3PACK_ENCODE 5 0 0 = 180" by code_simp+
  have m: "mmrp_emit_macvectors (MAX_FRAME_SIZE - 15) False [a] = Some (0, [], [a])"
    using assms(5) by (simp add: mmrp_emit_macvectors_def MAX_FRAME_SIZE_def MRPDU_ENDMARK_SZ_def)
  have "svc_vector (MAX_FRAME_SIZE - 15) (Suc (Suc 0)) False [0, 0, 0] a [] = Some (Some [0, 1, x, 0, 180], [5, 0, 0], [])"
    using e assms(5) by (simp add: svc_vector_def MAX_FRAME_SIZE_def MRPDU_ENDMARK_SZ_def c_assert_def h)
  then have v: "mmrp_emit_svcvectors (MAX_FRAME_SIZE - 15) False False (0, 0) [a] = Some (0, [1, 1, 0, 1, x, 0, 180, 0, 0], [clear_tx a])"
    using assms(5-7) by (simp add: mmrp_emit_svcvectors_def MAX_FRAME_SIZE_def MRPDU_ENDMARK_SZ_def c_assert_def)
  show ?thesis using assms(1-4,9) m v
    by (simp add: mmrp_txpdu_def mrpd_malloc_def Let_def withdrawal_bytes_def MAX_FRAME_SIZE_def MRPDU_ENDMARK_SZ_def)
qed

lemma withdrawal_received:
  assumes "drop 15 buf = withdrawal_bytes x @ rest" "mmrp_alloc (MMRP_SVCREQ x) t = (Some a, u)" "x \<le> 1"
  shows "mmrp_rx_messages buf 26 src 15 0 False t = Some (-1, mmrp_handle MRP_EVENT_RNEW (a\<lparr>registrar := (registrar a)\<lparr>r_macaddr := src\<rparr>\<rparr>) u)"
proof -
  let ?h = "mmrp_handle MRP_EVENT_RNEW (a\<lparr>registrar := (registrar a)\<lparr>r_macaddr := src\<rparr>\<rparr>) u"
  have len: "length (withdrawal_bytes x) = 11" by (simp add: withdrawal_bytes_def)
  then have le: "26 \<le> length buf" using arg_cong [OF assms(1), of length] by simp
  have r: "rd buf (15 + k) = Some (withdrawal_bytes x ! k)" if "k < 11" for k
    using arg_cong [OF assms(1), of "\<lambda>bs. bs ! k"] le that by (simp add: rd_def nth_append len)
  have b: "rd buf 15 = Some 1" "rd buf 16 = Some 1" "rd buf 17 = Some 0" "rd buf 18 = Some 1" "rd buf 20 = Some 0" "rd buf 21 = Some 180" "rd buf 22 = Some 0"
    using r [of 0] r [of 1] r [of 2] r [of 3] r [of 5] r [of 6] r [of 7] by (simp_all add: withdrawal_bytes_def)
  have f: "rds buf 19 1 = Some [x]" using drop_step [of 15 buf "take 4 (withdrawal_bytes x)"] assms(1) le by (simp add: rds_def withdrawal_bytes_def)
  have h1: "MRPDU_VECT_NUMVALUES (word_be [0, 1]) = 1" "\<not> MRPDU_VECT_LVA (word_be [0, 1])" by code_simp+
  have h2: "MRPDU_VECT_NUMVALUES (word_be [180, 0]) = 5120" "\<not> MRPDU_VECT_LVA (word_be [180, 0])" by code_simp+
  have none: "mmrp_rx_leaveall t False saw s = Some (True, saw, s)" for t saw s by (simp add: mmrp_rx_leaveall_def)
  have "mmrp_event u MRP_EVENT_RNEW (Some (a\<lparr>registrar := (registrar a)\<lparr>r_macaddr := src\<rparr>\<rparr>)) = Some (0, ?h)"
    by (rule mmrp_event_handle) (simp add: request_events_def)
  then have "mmrp_rx_values src [0] (MMRP_SVCREQ x) t = Some (True, MMRP_SVCREQ (x + 1), ?h)"
    using assms(2,3) by (simp add: rx_event_def not_less)
  moreover have "take 1 (unpack3 0) = [0]" "vector_bytes 1 = 1" by code_simp+
  ultimately have y: "mmrp_rx_bytes src buf 20 (Suc (Suc 0)) 1 (MMRP_SVCREQ x) t = Some (True, ?h)" using b(5,6) by (simp add: numeral_eq_Suc)
  have v1: "mmrp_rx_vector MMRP_SVCREQ_TYPE buf 26 src 17 False t = Some (Some 21, False, ?h)"
  proof -
    have "vector_bytes 1 + 1 = 2" "rd buf (17 + 1) = Some 1" "rds buf (17 + 2) 1 = Some [x]" using b(4) f by (simp_all add: vector_bytes_def)
    then show ?thesis unfolding mmrp_rx_vector_def b bind.bind_lunit Let_def h1(1) mmrp_length.simps using h1 none y
      by (simp add: mmrp_read_value_def del: mmrp_rx_bytes.simps)
  qed
  have v2: "mmrp_rx_vector MMRP_SVCREQ_TYPE buf 26 src 21 False ?h = Some (None, False, ?h)" using b(6,7) h2 none by (simp add: mmrp_rx_vector_def Let_def)
  have "mmrp_rx_vectors MMRP_SVCREQ_TYPE buf 26 src 21 False ?h = Some (None, False, ?h)"
    using b(6,7) v2 by (simp add: mmrp_rx_vectors.simps [of _ _ _ _ 21])
  then have "mmrp_rx_vectors MMRP_SVCREQ_TYPE buf 26 src 17 False t = Some (None, False, ?h)"
    using b(3,4) v1 by (simp add: mmrp_rx_vectors.simps [of _ _ _ _ 17])
  then show ?thesis using b(1,2) by (simp add: mmrp_rx_messages.simps [of _ _ _ 15] MRPDU_ENDMARK_SZ_def mmrp_type_of_code_def)
qed

text \<open>
  Property C37.  A withdrawn service requirement is misread: the events of a service requirement are written one byte behind the
  place where they are read, so that a station that receives the withdrawal of a service requirement registers it as new,
  takes the withdrawal for a vector of 5120 values, and refuses the rest of the frame.
\<close>

theorem mmrp_withdrawal_misread:
  assumes "mem_ok s (mem_pos s)" "\<not> send_empty_LeaveAll_flag s" "\<not> t_tx (lva (mrp_db s))" "attrib_list s = [a]" "m_value a = MMRP_SVCREQ x" "x \<le> 1"
    and "a_tx (applicant a)" "a_encode (applicant a) = MRP_ENCODE_YES" "a_sndmsg (applicant a) = MRP_SND_LV" "vectevt_stack s (Suc (mem_pos s)) = (0, 0)"
    and "length (station s) = 6" "mmrp_inv t" "plenty t"
  shows "\<exists>rc s' f t'. mmrp_txpdu s = Some (rc, s') \<and> frames s' = frames s @ [f] \<and>
    mmrp_recv_msg t (int (length f)) (mmrp_buffer f) = Some (-1, t') \<and> mmrp_registered (MMRP_SVCREQ x) (station s) t'"
proof -
  let ?f = "MMRP_ADDR @ station s @ bytes_be 2 MMRP_ETYPE @ [MMRP_PROT_VER] @ withdrawal_bytes x"
  obtain rc s' where s': "mmrp_txpdu s = Some (rc, s')" "frames s' = frames s @ [?f]" using withdrawal_sent [OF assms(1-5,7-10)] by blast
  obtain h0 h1 where h: "bytes_be 2 MMRP_ETYPE = [h0, h1]" "word_be [h0, h1] = MMRP_ETYPE" by (rule two_bytes)
  have len: "length MMRP_ADDR = 6" "length (withdrawal_bytes x) = 11" by (simp_all add: MMRP_ADDR_def withdrawal_bytes_def)
  have lf: "length ?f = 26" using len assms(11) by (simp add: h)
  have parts: "take 6 (mmrp_buffer ?f) = MMRP_ADDR" "take 6 (drop 6 (mmrp_buffer ?f)) = station s" "take 2 (drop 12 (mmrp_buffer ?f)) = [h0, h1]"
    "drop 15 (mmrp_buffer ?f) = withdrawal_bytes x @ replicate (MAX_FRAME_SIZE - 26) 0" "14 \<le> length (mmrp_buffer ?f)"
    using len assms(11) lf by (simp_all add: mmrp_buffer_def h)
  obtain r u where al: "mmrp_alloc (MMRP_SVCREQ x) t = (Some r, u)" using assms(13) by (simp add: mmrp_alloc_def mrpd_malloc_def plenty_def)
  let ?r = "r\<lparr>registrar := (registrar r)\<lparr>r_macaddr := station s\<rparr>\<rparr>"
  have "mmrp_recv_msg t (int (length ?f)) (mmrp_buffer ?f) = Some (-1, mmrp_handle MRP_EVENT_RNEW ?r u)"
    using withdrawal_received [OF parts(4) al assms(6), of "station s"] parts h(2)
    unfolding lf by (simp add: mmrp_recv_msg_def c_assert_def)
  moreover have "mmrp_registered (MMRP_SVCREQ x) (station s) (mmrp_handle MRP_EVENT_RNEW ?r u)"
    using mmrp_handle_registers [OF mmrp_alloc_inv [OF assms(12) al], of ?r MRP_EVENT_RNEW] mmrp_alloc_new(1,3) [OF al] assms(6) by simp
  ultimately show ?thesis using s' by blast
qed

theorem mmrp_withdrawal_misread_witness:
  "\<exists>rc s' f t'. mmrp_txpdu (sample_mmrp 1 False [sample_mmrp_attribute (MMRP_SVCREQ 1) MRP_LA_STATE True MRP_SND_LV]) = Some (rc, s') \<and> frames s' = [f] \<and>
    mmrp_recv_msg (sample_mmrp 2 False []) (int (length f)) (mmrp_buffer f) = Some (-1, t') \<and> mmrp_registered (MMRP_SVCREQ 1) [1, 0, 0, 0, 0, 1] t'"
  using mmrp_withdrawal_misread [of "sample_mmrp 1 False [sample_mmrp_attribute (MMRP_SVCREQ 1) MRP_LA_STATE True MRP_SND_LV]" _ 1 "sample_mmrp 2 False []"]
  by (simp add: sample_mmrp_empty)

end
