(* ===== verification/Eui64_Set.thy ===== *)
theory Eui64_Set
  imports Avb_Prelude "HOL-Library.Multiset"
begin

text \<open>
  The sorted table of EUI-64 identifiers, \<open>common/eui64set.c\<close>.  \<open>qsort\<close> and \<open>bsearch\<close>
  are functions of the C library: the order in which \<open>qsort\<close> leaves equal keys is
  unspecified, so it is an argument here, of which only the sorting is known; \<open>bsearch\<close> is
  the binary search.
\<close>

section \<open>Model\<close>

record eui64set_entry =
  eui64 :: u64
  e_p :: ptr

text \<open>The storage is \<open>None\<close> for a null pointer.\<close>

record eui64set =
  storage :: "eui64set_entry list option"
  num_entries :: int
  max_entries :: int

definition eui64_read :: "u8 list \<Rightarrow> u64" where
  "eui64_read b = push_bit 56 (ucast (b ! 0)) + push_bit 48 (ucast (b ! 1)) + push_bit 40 (ucast (b ! 2)) + push_bit 32 (ucast (b ! 3)) +
     push_bit 24 (ucast (b ! 4)) + push_bit 16 (ucast (b ! 5)) + push_bit 8 (ucast (b ! 6)) + push_bit 0 (ucast (b ! 7))"

definition eui64_write :: "u64 \<Rightarrow> u8 list" where
  "eui64_write v = map (\<lambda>k. ucast (drop_bit k v AND 0xff)) [56, 48, 40, 32, 24, 16, 8, 0]"

definition eui64set_compare :: "eui64set_entry \<Rightarrow> eui64set_entry \<Rightarrow> int" where
  "eui64set_compare lhs rhs = (if eui64 lhs < eui64 rhs then -1 else if eui64 lhs > eui64 rhs then 1 else 0)"

text \<open>The boolean answers \<open>calloc\<close>.\<close>

definition eui64set_init :: "bool \<Rightarrow> int \<Rightarrow> int \<times> eui64set" where
  "eui64set_init mem n =
     (let self = \<lparr>storage = None, num_entries = 0, max_entries = n\<rparr> in
      if n > 0 then
        if mem then (0, self\<lparr>storage := Some (replicate (nat n) \<lparr>eui64 = 0, e_p = None\<rparr>)\<rparr>) else (-1, self)
      else (0, self))"

definition eui64set_clear :: "eui64set \<Rightarrow> eui64set" where
  "eui64set_clear self = self\<lparr>num_entries := 0\<rparr>"

definition eui64set_num_entries :: "eui64set \<Rightarrow> int" where
  "eui64set_num_entries self = num_entries self"

definition eui64set_is_full :: "eui64set \<Rightarrow> bool" where
  "eui64set_is_full self \<longleftrightarrow> num_entries self \<ge> max_entries self"

definition eui64set_insert :: "eui64set \<Rightarrow> u64 \<Rightarrow> ptr \<Rightarrow> (int \<times> eui64set) option" where
  "eui64set_insert self v q =
     (if num_entries self < max_entries self then do {
        xs \<leftarrow> storage self;
        c_assert (0 \<le> num_entries self \<and> nat (num_entries self) < length xs);
        Some (1, self\<lparr>storage := Some (xs[nat (num_entries self) := \<lparr>eui64 = v, e_p = q\<rparr>]), num_entries := num_entries self + 1\<rparr>) }
      else Some (0, self))"

type_synonym qsort = "eui64set_entry list \<Rightarrow> eui64set_entry list"

definition eui64set_sort :: "qsort \<Rightarrow> eui64set \<Rightarrow> eui64set" where
  "eui64set_sort qsort self =
     (let n = nat (num_entries self)
      in self\<lparr>storage := map_option (\<lambda>xs. qsort (take n xs) @ drop n xs) (storage self)\<rparr>)"

definition eui64set_insert_and_sort :: "qsort \<Rightarrow> eui64set \<Rightarrow> u64 \<Rightarrow> ptr \<Rightarrow> (int \<times> eui64set) option" where
  "eui64set_insert_and_sort qsort self v q = do {
     (r, self) \<leftarrow> eui64set_insert self v q;
     Some (r, if r = 1 then eui64set_sort qsort self else self) }"

text \<open>The binary search between two indices.\<close>

function bsearch :: "eui64set_entry list \<Rightarrow> eui64set_entry \<Rightarrow> nat \<Rightarrow> nat \<Rightarrow> nat option" where
  "bsearch xs key l u =
     (if l < u then
        let i = (l + u) div 2; c = eui64set_compare key (xs ! i) in
        if c < 0 then bsearch xs key l i else if c > 0 then bsearch xs key (Suc i) u else Some i
      else None)"
  by pat_completeness auto
termination by (relation "measure (\<lambda>(xs, key, l, u). u - l)") auto

declare bsearch.simps [simp del]

definition eui64set_find :: "eui64set \<Rightarrow> u64 \<Rightarrow> nat option" where
  "eui64set_find self v =
     (case storage self of None \<Rightarrow> None
      | Some xs \<Rightarrow> bsearch xs \<lparr>eui64 = v, e_p = None\<rparr> 0 (nat (num_entries self)))"

text \<open>The last component is the memory that is freed.\<close>

definition eui64set_remove_and_sort :: "qsort \<Rightarrow> eui64set \<Rightarrow> u64 \<Rightarrow> int \<times> eui64set \<times> ptr" where
  "eui64set_remove_and_sort qsort self v =
     (case eui64set_find self v of
        None \<Rightarrow> (0, self, None)
      | Some i \<Rightarrow>
          (let xs = the (storage self); item = xs ! i;
               self = eui64set_sort qsort (self\<lparr>storage := Some (xs[i := item\<lparr>eui64 := - 1\<rparr>])\<rparr>)
           in (1, self\<lparr>num_entries := num_entries self - 1\<rparr>, e_p item)))"

section \<open>Invariant and abstraction\<close>

definition qsort_spec :: "qsort \<Rightarrow> bool" where
  "qsort_spec qsort \<longleftrightarrow> (\<forall>xs. mset (qsort xs) = mset xs \<and> sorted (map eui64 (qsort xs)))"

definition entries_of :: "eui64set \<Rightarrow> eui64set_entry list" where
  "entries_of self = (case storage self of None \<Rightarrow> [] | Some xs \<Rightarrow> take (nat (num_entries self)) xs)"

definition eui_keys :: "eui64set \<Rightarrow> u64 set" where
  "eui_keys self = eui64 ` set (entries_of self)"

definition eui_inv :: "eui64set \<Rightarrow> bool" where
  "eui_inv self \<longleftrightarrow> 0 \<le> num_entries self \<and> num_entries self \<le> max 0 (max_entries self) \<and>
     (0 < max_entries self \<longrightarrow> (\<exists>xs. storage self = Some xs \<and> length xs = nat (max_entries self))) \<and>
     sorted (map eui64 (entries_of self))"

section \<open>Lemmas\<close>

lemma sort_key_spec: "qsort_spec (sort_key eui64)"
  by (simp add: qsort_spec_def)

lemma qsort_length: "qsort_spec qsort \<Longrightarrow> length (qsort xs) = length xs"
  unfolding qsort_spec_def by (metis size_mset)

lemma bsearch_sorted:
  assumes "sorted (map eui64 (take n xs))" and "u \<le> n" and "n \<le> length xs"
  shows "case bsearch xs key l u of
      None \<Rightarrow> \<forall>j. l \<le> j \<longrightarrow> j < u \<longrightarrow> eui64 (xs ! j) \<noteq> eui64 key
    | Some i \<Rightarrow> l \<le> i \<and> i < u \<and> eui64 (xs ! i) = eui64 key"
  using assms
proof (induction xs key l u rule: bsearch.induct)
  case (1 xs key l u)
  let ?i = "(l + u) div 2" and ?c = "eui64set_compare key (xs ! ((l + u) div 2))"
  have mono: "eui64 (xs ! j) \<le> eui64 (xs ! k)" if "j \<le> k" "k < u" for j k
    using sorted_nth_mono [OF "1.prems"(1), of j k] that "1.prems"(2,3) by simp
  show ?case
  proof (cases "l < u")
    case False
    then show ?thesis by (subst bsearch.simps) auto
  next
    case True
    then have i: "l \<le> ?i" "?i < u" by auto
    consider (lt) "?c < 0" | (gt) "\<not> ?c < 0" "?c > 0" | (eq) "\<not> ?c < 0" "\<not> ?c > 0" by linarith
    then show ?thesis
    proof cases
      case lt
      then have "eui64 key < eui64 (xs ! ?i)" by (simp add: eui64set_compare_def split: if_splits)
      then have no: "eui64 (xs ! j) \<noteq> eui64 key" if "?i \<le> j" "j < u" for j
        using mono [of ?i j] that by auto
      from "1.IH"(1) [OF True refl refl lt] "1.prems" i(2)
      have "case bsearch xs key l ?i of None \<Rightarrow> \<forall>j. l \<le> j \<longrightarrow> j < ?i \<longrightarrow> eui64 (xs ! j) \<noteq> eui64 key
        | Some k \<Rightarrow> l \<le> k \<and> k < ?i \<and> eui64 (xs ! k) = eui64 key" by simp
      moreover have "bsearch xs key l u = bsearch xs key l ?i" using True lt by (subst bsearch.simps) (simp add: Let_def)
      ultimately show ?thesis using no i(2) by (fastforce split: option.splits)
    next
      case gt
      then have "eui64 (xs ! ?i) < eui64 key" by (simp add: eui64set_compare_def split: if_splits)
      then have no: "eui64 (xs ! j) \<noteq> eui64 key" if "j \<le> ?i" for j
        using mono [of j ?i] that i(2) by auto
      from "1.IH"(2) [OF True refl refl gt] "1.prems"
      have "case bsearch xs key (Suc ?i) u of None \<Rightarrow> \<forall>j. Suc ?i \<le> j \<longrightarrow> j < u \<longrightarrow> eui64 (xs ! j) \<noteq> eui64 key
        | Some k \<Rightarrow> Suc ?i \<le> k \<and> k < u \<and> eui64 (xs ! k) = eui64 key" by simp
      moreover have "bsearch xs key l u = bsearch xs key (Suc ?i) u" using True gt by (subst bsearch.simps) (simp add: Let_def)
      ultimately show ?thesis using no i(1) by (cases "bsearch xs key (Suc ?i) u") (simp, metis not_less_eq_eq, simp)
    next
      case eq
      then have "eui64 (xs ! ?i) = eui64 key" by (auto simp: eui64set_compare_def split: if_splits)
      then show ?thesis using True eq i by (subst bsearch.simps) (simp add: Let_def)
    qed
  qed
qed

lemma find_sound:
  assumes "eui_inv self"
  shows "case eui64set_find self v of
      None \<Rightarrow> v \<notin> eui_keys self
    | Some i \<Rightarrow> i < length (entries_of self) \<and> eui64 (entries_of self ! i) = v"
proof (cases "storage self")
  case None
  then show ?thesis by (simp add: eui64set_find_def eui_keys_def entries_of_def)
next
  case (Some xs)
  let ?n = "nat (num_entries self)"
  have e: "entries_of self = take ?n xs" using Some by (simp add: entries_of_def)
  show ?thesis
  proof (cases "max_entries self > 0")
    case True
    then have "?n \<le> length xs" "sorted (map eui64 (take ?n xs))" using assms Some e by (auto simp: eui_inv_def)
    with bsearch_sorted [of ?n xs ?n, where l = 0 and key = "\<lparr>eui64 = v, e_p = None\<rparr>"] Some show ?thesis
      by (fastforce simp: eui64set_find_def eui_keys_def e in_set_conv_nth split: option.splits)
  next
    case False
    then have "?n = 0" using assms by (simp add: eui_inv_def)
    with Some e show ?thesis by (simp add: eui64set_find_def eui_keys_def bsearch.simps)
  qed
qed

lemma sort_entries:
  assumes "qsort_spec qsort" and "storage self = Some xs" and "0 \<le> num_entries self" "nat (num_entries self) \<le> length xs"
  shows "entries_of (eui64set_sort qsort self) = qsort (entries_of self)"
    "\<exists>ys. storage (eui64set_sort qsort self) = Some ys \<and> length ys = length xs"
  using assms qsort_length [OF assms(1)] by (simp_all add: eui64set_sort_def entries_of_def Let_def)

lemma sorted_max_last:
  assumes "sorted (map eui64 (xs @ [e]))" and "f \<in> set (xs @ [e])" and "eui64 f = - 1"
  shows "eui64 e = - 1"
proof -
  have "eui64 f \<le> eui64 e" using assms(1,2) by (auto simp: sorted_append)
  with assms(3) show ?thesis by (metis word_order.extremum antisym)
qed

lemma take_bit_byte:
  assumes "k + 8 \<le> 64"
  shows "push_bit k (ucast (ucast (drop_bit k v AND 0xff) :: u8)) + take_bit k v = take_bit (k + 8) (v :: u64)"
proof -
  let ?x = "push_bit k (ucast (ucast (drop_bit k v AND 0xff) :: u8)) :: u64"
  have ff: "(0xff :: u64) = mask 8" by (simp add: mask_eq_exp_minus_1)
  have "?x AND take_bit k v = 0" by (rule bit_word_eqI) (auto simp: bit_simps)
  then have "?x + take_bit k v = ?x OR take_bit k v" by (rule disjunctive_add_eq_or)
  also have "\<dots> = take_bit (k + 8) v"
    unfolding ff using assms by (intro bit_word_eqI) (auto simp: bit_simps)
  finally show ?thesis .
qed

lemma eui64_read_write: "eui64_read (eui64_write v) = v"
proof -
  define b where "b k = push_bit k (ucast (ucast (drop_bit k v AND 0xff) :: u8) :: u64)" for k
  have t: "b k + take_bit k v = take_bit (k + 8) v" if "k \<le> 56" for k using take_bit_byte [of k v] that by (simp add: b_def)
  have "eui64_read (eui64_write v) = b 56 + (b 48 + (b 40 + (b 32 + (b 24 + (b 16 + (b 8 + (b 0 + take_bit 0 v)))))))"
    by (simp only: eui64_read_def eui64_write_def b_def add.assoc) simp
  also have "\<dots> = take_bit 64 v"
    using t [of 0] t [of 8] t [of 16] t [of 24] t [of 32] t [of 40] t [of 48] t [of 56] by (simp del: take_bit_0)
  finally show ?thesis by (simp add: take_bit_word_eq_self)
qed

section \<open>The set interface\<close>

text \<open>
  What the MRP applications rely on: a bounded collection of keys with insertion, search
  and removal.
\<close>

locale key_set =
  fixes inv :: "'s \<Rightarrow> bool"
    and keys :: "'s \<Rightarrow> 'k set"
    and full :: "'s \<Rightarrow> bool"
    and ins :: "'k \<Rightarrow> 's \<Rightarrow> 's"
    and mem :: "'k \<Rightarrow> 's \<Rightarrow> bool"
  assumes ins_inv: "inv s \<Longrightarrow> inv (ins k s)"
    and ins_keys: "inv s \<Longrightarrow> \<not> full s \<Longrightarrow> keys (ins k s) = insert k (keys s)"
    and ins_full: "inv s \<Longrightarrow> full s \<Longrightarrow> ins k s = s"
    and mem_keys: "inv s \<Longrightarrow> mem k s \<longleftrightarrow> k \<in> keys s"
begin

lemma mem_ins: "inv s \<Longrightarrow> \<not> full s \<Longrightarrow> mem k (ins k s)"
  by (simp add: mem_keys ins_inv ins_keys)

lemma mem_ins_other: "inv s \<Longrightarrow> k \<noteq> k' \<Longrightarrow> mem k' (ins k s) = mem k' s"
  by (cases "full s") (simp_all add: mem_keys ins_inv ins_keys ins_full)

end

lemma insert_entries:
  assumes "qsort_spec qsort" and "eui_inv self"
  shows "\<exists>r self'. eui64set_insert_and_sort qsort self v q = Some (r, self') \<and> eui_inv self' \<and>
    (if eui64set_is_full self then r = 0 \<and> self' = self
     else r = 1 \<and> mset (entries_of self') = add_mset \<lparr>eui64 = v, e_p = q\<rparr> (mset (entries_of self)))"
proof (cases "eui64set_is_full self")
  case True
  then show ?thesis using assms(2)
    by (simp add: eui64set_insert_and_sort_def eui64set_insert_def eui64set_is_full_def)
next
  case False
  let ?n = "nat (num_entries self)"
  have m: "num_entries self < max_entries self" "0 \<le> num_entries self" using False assms(2) by (auto simp: eui64set_is_full_def eui_inv_def)
  then obtain xs where xs: "storage self = Some xs" "length xs = nat (max_entries self)" using assms(2) by (auto simp: eui_inv_def)
  have n: "?n < length xs" using m xs(2) by simp
  let ?s = "self\<lparr>storage := Some (xs[?n := \<lparr>eui64 = v, e_p = q\<rparr>]), num_entries := num_entries self + 1\<rparr>"
  have ent: "entries_of ?s = entries_of self @ [\<lparr>eui64 = v, e_p = q\<rparr>]"
    using xs(1) m n by (simp add: entries_of_def nat_add_distrib take_Suc_conv_app_nth)
  note srt = sort_entries [OF assms(1), of ?s "xs[?n := \<lparr>eui64 = v, e_p = q\<rparr>]"]
  have "entries_of (eui64set_sort qsort ?s) = qsort (entries_of ?s)"
    "\<exists>ys. storage (eui64set_sort qsort ?s) = Some ys \<and> length ys = length xs" using srt m n by auto
  moreover have "num_entries (eui64set_sort qsort ?s) = num_entries self + 1" "max_entries (eui64set_sort qsort ?s) = max_entries self"
    by (simp_all add: eui64set_sort_def Let_def)
  ultimately have "eui_inv (eui64set_sort qsort ?s)"
    "mset (entries_of (eui64set_sort qsort ?s)) = add_mset \<lparr>eui64 = v, e_p = q\<rparr> (mset (entries_of self))"
    using assms(1) m xs(2) ent by (simp_all add: eui_inv_def qsort_spec_def)
  then show ?thesis using False m xs(1) n
    by (simp add: eui64set_insert_and_sort_def eui64set_insert_def)
qed

interpretation eui: key_set eui_inv eui_keys eui64set_is_full
  "\<lambda>k s. snd (the (eui64set_insert_and_sort (sort_key eui64) s k None))" "\<lambda>k s. eui64set_find s k \<noteq> None"
proof
  fix s k
  assume i: "eui_inv s"
  obtain r s' where x: "eui64set_insert_and_sort (sort_key eui64) s k None = Some (r, s')" "eui_inv s'"
    "if eui64set_is_full s then r = 0 \<and> s' = s
     else r = 1 \<and> mset (entries_of s') = add_mset \<lparr>eui64 = k, e_p = None\<rparr> (mset (entries_of s))"
    using insert_entries [OF sort_key_spec i] by blast
  then show "eui_inv (snd (the (eui64set_insert_and_sort (sort_key eui64) s k None)))" by simp
  show "eui_keys (snd (the (eui64set_insert_and_sort (sort_key eui64) s k None))) = insert k (eui_keys s)" if "\<not> eui64set_is_full s"
  proof -
    have "set (entries_of s') = insert \<lparr>eui64 = k, e_p = None\<rparr> (set (entries_of s))"
      using x(3) that by (metis set_mset_add_mset_insert set_mset_mset)
    with x(1) show ?thesis by (simp add: eui_keys_def)
  qed
  show "snd (the (eui64set_insert_and_sort (sort_key eui64) s k None)) = s" if "eui64set_is_full s" using x that by simp
  show "(eui64set_find s k \<noteq> None) = (k \<in> eui_keys s)"
    using find_sound [OF i, of k] by (auto simp: eui_keys_def split: option.splits)
qed

lemma insert_finds:
  assumes "qsort_spec qsort" and "eui_inv self" and "\<not> eui64set_is_full self"
  shows "\<exists>self'. eui64set_insert_and_sort qsort self v q = Some (1, self') \<and> eui_inv self' \<and>
    (\<forall>w. eui64set_find self' w \<noteq> None \<longleftrightarrow> w = v \<or> eui64set_find self w \<noteq> None)"
proof -
  obtain self' where x: "eui64set_insert_and_sort qsort self v q = Some (1, self')" "eui_inv self'"
    "mset (entries_of self') = add_mset \<lparr>eui64 = v, e_p = q\<rparr> (mset (entries_of self))"
    using insert_entries [OF assms(1,2), of v q] assms(3) by auto
  have "set (entries_of self') = insert \<lparr>eui64 = v, e_p = q\<rparr> (set (entries_of self))"
    using x(3) by (metis set_mset_add_mset_insert set_mset_mset)
  then have "eui_keys self' = insert v (eui_keys self)" by (simp add: eui_keys_def)
  with x(1,2) eui.mem_keys [OF assms(2)] eui.mem_keys [OF x(2)] show ?thesis by auto
qed

section \<open>Properties\<close>

text \<open>
  Property C29.  Inserting a key into a table that is not full succeeds, and afterwards the
  search finds exactly the keys it found before and the new one, however \<open>qsort\<close> orders equal keys.
\<close>

theorem eui64set_insert_find:
  assumes "qsort_spec qsort" and "eui_inv self" and "\<not> eui64set_is_full self"
  shows "\<exists>self'. eui64set_insert_and_sort qsort self v q = Some (1, self') \<and> eui_inv self' \<and>
    (\<forall>w. eui64set_find self' w \<noteq> None \<longleftrightarrow> w = v \<or> eui64set_find self w \<noteq> None)"
  by (rule insert_finds [OF assms])

definition sample_set :: eui64set where
  "sample_set = \<lparr>storage = Some [\<lparr>eui64 = 3, e_p = None\<rparr>, \<lparr>eui64 = 8, e_p = Some 5\<rparr>, \<lparr>eui64 = 0, e_p = None\<rparr>],
     num_entries = 2, max_entries = 3\<rparr>"

lemma sample_set_inv: "eui_inv sample_set"
  by (simp add: eui_inv_def sample_set_def entries_of_def)

theorem eui64set_insert_find_witness:
  "\<exists>self'. eui64set_insert_and_sort (sort_key eui64) sample_set 5 None = Some (1, self') \<and> eui_inv self' \<and>
    eui64set_find self' 5 \<noteq> None"
  using eui64set_insert_find [OF sort_key_spec sample_set_inv, of 5 None] by (auto simp: eui64set_is_full_def sample_set_def)

text \<open>A removal of a key that is found: the entries that are left, and the one that is cut off.\<close>

lemma remove_entries:
  assumes "qsort_spec qsort" and "eui_inv self" and "eui64set_find self v = Some i" and "item = entries_of self ! i"
  shows "\<exists>self' e. eui64set_remove_and_sort qsort self v = (1, self', e_p item) \<and> eui_inv self' \<and> eui64 e = - 1 \<and>
    add_mset e (mset (entries_of self')) = add_mset (item\<lparr>eui64 := - 1\<rparr>) (mset (entries_of self) - {#item#})"
proof -
  let ?n = "nat (num_entries self)"
  have i: "i < length (entries_of self)" using find_sound [OF assms(2), of v] assms(3) by simp
  then obtain xs where xs: "storage self = Some xs" "entries_of self = take ?n xs" by (cases "storage self") (auto simp: entries_of_def)
  have n: "0 < ?n" "?n \<le> length xs" "i < ?n" "length xs = nat (max_entries self)" "0 < max_entries self" "num_entries self \<le> max_entries self"
    using i xs assms(2) by (auto simp: eui_inv_def max_def split: if_splits)
  have item: "item = xs ! i" using assms(4) xs(2) n(3) by simp
  let ?m = "item\<lparr>eui64 := - 1\<rparr>"
  let ?s = "self\<lparr>storage := Some (xs[i := ?m])\<rparr>"
  define zs where "zs = qsort (entries_of ?s)"
  have es: "entries_of ?s = (entries_of self)[i := ?m]" using xs n by (simp add: entries_of_def take_update_swap)
  have zs: "mset zs = mset ((entries_of self)[i := ?m])" "sorted (map eui64 zs)"
    using assms(1) unfolding zs_def qsort_spec_def es by blast+
  then have zs: "mset zs = add_mset ?m (mset (entries_of self) - {#item#})" "sorted (map eui64 zs)"
    using mset_update [OF i, of ?m] assms(4) by simp_all
  then have "length zs = length (entries_of self)" using qsort_length [OF assms(1)] es by (simp add: zs_def)
  then obtain ys e where ye: "zs = ys @ [e]" using i by (cases zs rule: rev_cases) auto
  have "?m \<in> set zs" using zs(1) by (metis union_single_eq_member set_mset_mset)
  then have e: "eui64 e = - 1" using sorted_max_last [of ys e ?m] zs(2) ye by simp
  have ys: "add_mset e (mset ys) = add_mset ?m (mset (entries_of self) - {#item#})" using zs(1) ye by simp
  let ?r = "eui64set_sort qsort ?s"
  have sr: "storage ?r = Some (zs @ drop ?n (xs[i := ?m]))" "num_entries ?r = num_entries self" "max_entries ?r = max_entries self"
    by (simp_all add: eui64set_sort_def Let_def zs_def entries_of_def)
  have "length ys = ?n - 1" using \<open>length zs = length (entries_of self)\<close> ye xs(2) n(2) by simp
  then have er: "entries_of (?r\<lparr>num_entries := num_entries ?r - 1\<rparr>) = ys"
    using sr ye by (simp add: entries_of_def nat_diff_distrib')
  have "eui_inv (?r\<lparr>num_entries := num_entries ?r - 1\<rparr>)"
    unfolding eui_inv_def er using sr n zs(2) ye \<open>length ys = ?n - 1\<close> by (auto simp: sorted_append)
  moreover have "eui64set_remove_and_sort qsort self v = (1, ?r\<lparr>num_entries := num_entries ?r - 1\<rparr>, e_p item)"
    using assms(3) xs(1) item by (simp add: eui64set_remove_and_sort_def Let_def)
  ultimately show ?thesis using er ys e by auto
qed

lemma remove_keeps: "qsort_spec qsort \<Longrightarrow> eui_inv self \<Longrightarrow> eui_inv (fst (snd (eui64set_remove_and_sort qsort self v)))"
proof (cases "eui64set_find self v")
  case (Some i)
  assume "qsort_spec qsort" "eui_inv self"
  from remove_entries [OF this Some refl] show ?thesis by auto
qed (simp add: eui64set_remove_and_sort_def)

text \<open>
  Property C30.  Removing a key that is found takes out exactly the entry that was found and
  frees exactly its data, provided that no other entry has the key of all ones, which the code uses as
  the mark of the removed entry.
\<close>

theorem eui64set_remove_exact:
  assumes "qsort_spec qsort" and "eui_inv self" and "eui64set_find self v = Some i" and "item = entries_of self ! i"
    and "\<forall>e\<in>#mset (entries_of self) - {#item#}. eui64 e \<noteq> - 1"
  shows "\<exists>self'. eui64set_remove_and_sort qsort self v = (1, self', e_p item) \<and> eui_inv self' \<and>
    mset (entries_of self') = mset (entries_of self) - {#item#}"
proof -
  obtain self' e where r: "eui64set_remove_and_sort qsort self v = (1, self', e_p item)" "eui_inv self'" "eui64 e = - 1"
    "add_mset e (mset (entries_of self')) = add_mset (item\<lparr>eui64 := - 1\<rparr>) (mset (entries_of self) - {#item#})"
    using remove_entries [OF assms(1-4)] by blast
  have "e \<in># add_mset (item\<lparr>eui64 := - 1\<rparr>) (mset (entries_of self) - {#item#})" using r(4) by (metis union_single_eq_member)
  then have "e = item\<lparr>eui64 := - 1\<rparr>" using assms(5) r(3) by auto
  then show ?thesis using r by auto
qed

theorem eui64set_remove_exact_witness:
  "\<exists>self'. eui64set_remove_and_sort (sort_key eui64) sample_set 8 = (1, self', Some 5) \<and> eui_inv self' \<and>
    mset (entries_of self') = {#\<lparr>eui64 = 3, e_p = None\<rparr>#}"
proof -
  have "eui64set_find sample_set 8 = Some 1" by (simp add: eui64set_find_def sample_set_def bsearch.simps eui64set_compare_def Let_def)
  from eui64set_remove_exact [OF sort_key_spec sample_set_inv this refl] show ?thesis by (simp add: sample_set_def entries_of_def)
qed

end
