(* ===== verification/Msrp_Data.thy ===== *)
theory Msrp_Data
  imports Mrp_Application Eui64_Set
begin

text \<open>
  The stream reservation protocol, \<open>mrpd/msrp.c\<close> and \<open>mrpd/msrp.h\<close>: its attributes, the
  list of attributes with lookup, insertion and merging, and the notifications.
\<close>

section \<open>Data\<close>

datatype msrp_type = MSRP_TALKER_ADV_TYPE | MSRP_TALKER_FAILED_TYPE | MSRP_LISTENER_TYPE | MSRP_DOMAIN_TYPE

fun type_code :: "msrp_type \<Rightarrow> u8" where
  "type_code MSRP_TALKER_ADV_TYPE = 1"
| "type_code MSRP_TALKER_FAILED_TYPE = 2"
| "type_code MSRP_LISTENER_TYPE = 3"
| "type_code MSRP_DOMAIN_TYPE = 4"

text \<open>The length of the first value of a vector.\<close>

fun type_length :: "msrp_type \<Rightarrow> nat" where
  "type_length MSRP_TALKER_ADV_TYPE = 25"
| "type_length MSRP_TALKER_FAILED_TYPE = 34"
| "type_length MSRP_LISTENER_TYPE = 8"
| "type_length MSRP_DOMAIN_TYPE = 4"

definition is_talker :: "msrp_type \<Rightarrow> bool" where
  "is_talker t \<longleftrightarrow> t = MSRP_TALKER_ADV_TYPE \<or> t = MSRP_TALKER_FAILED_TYPE"

definition MSRP_LISTENER_IGNORE :: u32 where "MSRP_LISTENER_IGNORE = 0"
definition MSRP_LISTENER_ASKFAILED :: u32 where "MSRP_LISTENER_ASKFAILED = 1"

datatype msrp_operation = MSRP_OPERATION_REGISTER | MSRP_OPERATION_DECLARE

record msrpdu_talker_fail =
  StreamID :: "u8 list"
  Dest_Addr :: "u8 list"
  Vlan_ID :: u16
  MaxFrameSize :: u16
  MaxIntervalFrames :: u16
  PriorityAndRank :: u8
  AccumulatedLatency :: u32
  BridgeID :: "u8 list"
  FailureCode :: u8

record msrpdu_domain =
  SRclassID :: u8
  SRclassPriority :: u8
  neighborSRclassPriority :: u8
  SRclassVID :: u16

text \<open>
  The union of the two values is a pair of fields: the type of an attribute says which of them is
  in use, and no operation touches the other.
\<close>

record msrp_attribute = mrp_attribute +
  s_type :: msrp_type
  talk_listen :: msrpdu_talker_fail
  domain :: msrpdu_domain
  substate :: u32
  operation :: msrp_operation

record msrp_database = "msrp_attribute mrp_application" +
  interesting_stream_ids :: eui64set
  enable_pruning_of_uninteresting_ids :: bool

definition MSRP_ETYPE :: u16 where "MSRP_ETYPE = 0x22EA"
definition MSRP_PROT_VER :: u8 where "MSRP_PROT_VER = 0x00"
definition MSRP_ADDR :: "u8 list" where "MSRP_ADDR = [0x01, 0x80, 0xC2, 0x00, 0x00, 0x0E]"

text \<open>What \<open>memset\<close> leaves in the two values.\<close>

definition zero_talker :: msrpdu_talker_fail where
  "zero_talker = \<lparr>StreamID = replicate 8 0, Dest_Addr = replicate 6 0, Vlan_ID = 0, MaxFrameSize = 0, MaxIntervalFrames = 0,
     PriorityAndRank = 0, AccumulatedLatency = 0, BridgeID = replicate 8 0, FailureCode = 0\<rparr>"

definition zero_domain :: msrpdu_domain where
  "zero_domain = \<lparr>SRclassID = 0, SRclassPriority = 0, neighborSRclassPriority = 0, SRclassVID = 0\<rparr>"

text \<open>Every caller sets the type of the new attribute at once.\<close>

definition msrp_alloc :: "msrp_type \<Rightarrow> msrp_database \<Rightarrow> msrp_attribute option \<times> msrp_database" where
  "msrp_alloc t s =
     (let (ok, s) = mrpd_malloc s in
      (if ok then Some \<lparr>applicant = new_applicant, registrar = new_registrar, s_type = t, talk_listen = zero_talker,
         domain = zero_domain, substate = 0, operation = MSRP_OPERATION_REGISTER\<rparr>
       else None, s))"

section \<open>The attribute list\<close>

definition msrp_count_type :: "msrp_database option \<Rightarrow> msrp_type \<Rightarrow> nat" where
  "msrp_count_type db t = (case db of None \<Rightarrow> 0 | Some s \<Rightarrow> length (filter (\<lambda>a. t = s_type a) (attrib_list s)))"

text \<open>Talker advertise and talker failed are one attribute in two states.\<close>

definition msrp_match :: "msrp_attribute \<Rightarrow> msrp_attribute \<Rightarrow> bool" where
  "msrp_match r a \<longleftrightarrow>
     (s_type r = s_type a \<or> (s_type r = MSRP_TALKER_ADV_TYPE \<and> s_type a = MSRP_TALKER_FAILED_TYPE) \<or>
        (s_type r = MSRP_TALKER_FAILED_TYPE \<and> s_type a = MSRP_TALKER_ADV_TYPE)) \<and>
     (if s_type a = MSRP_DOMAIN_TYPE then SRclassID (domain a) = SRclassID (domain r)
      else StreamID (talk_listen a) = StreamID (talk_listen r))"

definition msrp_lookup :: "msrp_database \<Rightarrow> msrp_attribute \<Rightarrow> msrp_attribute option" where
  "msrp_lookup s r = find (msrp_match r) (attrib_list s)"

text \<open>The search of a talker or listener by its stream, with an attribute that is allocated for it.\<close>

definition msrp_lookup_stream_declaration :: "msrp_type \<Rightarrow> u8 list \<Rightarrow> msrp_database \<Rightarrow> msrp_attribute option \<times> msrp_database" where
  "msrp_lookup_stream_declaration t i s =
     (case msrp_alloc t s of
        (None, s) \<Rightarrow> (None, s)
      | (Some a, s) \<Rightarrow> (msrp_lookup s (a\<lparr>talk_listen := (talk_listen a)\<lparr>StreamID := i\<rparr>\<rparr>), s))"

text \<open>The memory of a domain value, with a byte of padding and the low byte of the VID first.\<close>

definition domain_bytes :: "msrpdu_domain \<Rightarrow> u8 list" where
  "domain_bytes d = [SRclassID d, SRclassPriority d, neighborSRclassPriority d, 0, ucast (SRclassVID d), ucast (drop_bit 8 (SRclassVID d))]"

definition value_less :: "msrp_attribute \<Rightarrow> msrp_attribute \<Rightarrow> bool" where
  "value_less a r =
     (if s_type a = MSRP_DOMAIN_TYPE then memcmp_less (domain_bytes (domain a)) (domain_bytes (domain r))
      else memcmp_less (StreamID (talk_listen a)) (StreamID (talk_listen r)))"

fun insert_sorted_type :: "msrp_attribute \<Rightarrow> msrp_attribute list \<Rightarrow> msrp_attribute list" where
  "insert_sorted_type r [] = [r]"
| "insert_sorted_type r (a # as) =
     (if s_type r = s_type a then
        if value_less a r then
          if as \<noteq> [] \<and> s_type (hd as) = s_type a then a # insert_sorted_type r as else a # r # as
        else r # a # as
      else a # insert_sorted_type r as)"

definition msrp_add :: "msrp_database \<Rightarrow> msrp_attribute \<Rightarrow> msrp_database" where
  "msrp_add s r = s\<lparr>attrib_list := insert_sorted_type r (attrib_list s)\<rparr>"

section \<open>Merging\<close>

definition merge_address :: "msrp_attribute \<Rightarrow> msrp_attribute \<Rightarrow> msrp_attribute" where
  "merge_address r a = a\<lparr>registrar := (registrar a)\<lparr>r_macaddr := r_macaddr (registrar r)\<rparr>\<rparr>"

definition force_notify :: "msrp_attribute \<Rightarrow> msrp_attribute" where
  "force_notify a = a\<lparr>registrar := (registrar a)\<lparr>r_state := MRP_MT_STATE\<rparr>\<rparr>"

definition merge_talker :: "msrp_attribute \<Rightarrow> msrp_attribute \<Rightarrow> msrp_attribute" where
  "merge_talker r a =
     (if operation r = operation a then
        let a = a\<lparr>talk_listen := (talk_listen a)\<lparr>FailureCode := FailureCode (talk_listen r), BridgeID := BridgeID (talk_listen r)\<rparr>\<rparr>
        in if s_type a \<noteq> s_type r then force_notify (a\<lparr>s_type := s_type r\<rparr>) else a
      else a)"

definition merge_listener :: "msrp_attribute \<Rightarrow> msrp_attribute \<Rightarrow> msrp_attribute" where
  "merge_listener r a = force_notify (if operation r = operation a then a\<lparr>substate := substate r\<rparr> else a)"

definition merge_domain :: "msrp_attribute \<Rightarrow> msrp_attribute \<Rightarrow> msrp_attribute" where
  "merge_domain r a =
     (if SRclassPriority (domain a) \<noteq> SRclassPriority (domain r) \<or> SRclassVID (domain a) \<noteq> SRclassVID (domain r)
      then force_notify (a\<lparr>domain := (domain a)\<lparr>neighborSRclassPriority := SRclassPriority (domain r), SRclassVID := SRclassVID (domain r)\<rparr>\<rparr>)
      else a)"

definition merge_into :: "msrp_attribute \<Rightarrow> (msrp_attribute \<Rightarrow> msrp_attribute) \<Rightarrow> msrp_database \<Rightarrow> msrp_database" where
  "merge_into r f s = s\<lparr>attrib_list := update_first (msrp_match r) (\<lambda>a. f (merge_address r a)) (attrib_list s)\<rparr>"

text \<open>A listener that asked for a failed stream is only merged if its talker is known.\<close>

definition msrp_merge :: "msrp_database \<Rightarrow> msrp_attribute \<Rightarrow> int \<times> msrp_database" where
  "msrp_merge s r =
     (case msrp_lookup s r of
        None \<Rightarrow> (-1, s)
      | Some a \<Rightarrow>
          (case s_type a of
             MSRP_TALKER_ADV_TYPE \<Rightarrow> (0, merge_into r (merge_talker r) s)
           | MSRP_TALKER_FAILED_TYPE \<Rightarrow> (0, merge_into r (merge_talker r) s)
           | MSRP_LISTENER_TYPE \<Rightarrow>
               if substate a = substate r then (0, merge_into r id s)
               else if substate a = MSRP_LISTENER_ASKFAILED then
                 (case msrp_alloc MSRP_TALKER_ADV_TYPE s of
                    (None, s) \<Rightarrow> (0, merge_into r id s)
                  | (Some k, s) \<Rightarrow>
                      (case msrp_lookup s (k\<lparr>talk_listen := (talk_listen k)\<lparr>StreamID := StreamID (talk_listen a)\<rparr>\<rparr>) of
                         None \<Rightarrow> (0, merge_into r id s)
                       | Some _ \<Rightarrow> (0, merge_into r (merge_listener r) s)))
               else (0, merge_into r (merge_listener r) s)
           | MSRP_DOMAIN_TYPE \<Rightarrow> (0, merge_into r (merge_domain r) s)))"

section \<open>Notifications and reclaiming\<close>

text \<open>The conversions \<open>%d\<close> of an unsigned argument, which is printed as a signed number, and \<open>%04x\<close>.\<close>

definition print_d :: "u32 \<Rightarrow> string" where
  "print_d w = (if sint w < 0 then CHR ''-'' # print_base 10 (nat (- sint w)) else print_base 10 (nat (sint w)))"

definition print_04x :: "u16 \<Rightarrow> string" where
  "print_04x w = zero_padded 4 (print_base 16 (unat w))"

definition talker_text :: "msrpdu_talker_fail \<Rightarrow> string" where
  "talker_text v = ''T:S='' @ hex_bytes (StreamID v) @ '',A='' @ hex_bytes (Dest_Addr v) @ '',V='' @ print_04x (Vlan_ID v) @
     '',Z='' @ print_base 10 (unat (MaxFrameSize v)) @ '',I='' @ print_base 10 (unat (MaxIntervalFrames v)) @
     '',P='' @ print_base 10 (unat (PriorityAndRank v)) @ '',L='' @ print_d (AccumulatedLatency v)"

definition failure_text :: "msrpdu_talker_fail \<Rightarrow> string" where
  "failure_text v = '',B='' @ hex_bytes (BridgeID v) @ '',C='' @ print_base 10 (unat (FailureCode v))"

definition listener_text :: "msrp_attribute \<Rightarrow> string" where
  "listener_text a = ''L:D='' @ print_d (substate a) @ '',S='' @ hex_bytes (StreamID (talk_listen a))"

definition domain_text :: "msrpdu_domain \<Rightarrow> string" where
  "domain_text d = ''D:C='' @ print_base 10 (unat (SRclassID d)) @ '',P='' @ print_base 10 (unat (SRclassPriority d)) @
     '',V='' @ print_04x (SRclassVID d) @ '',N='' @ print_base 10 (unat (neighborSRclassPriority d))"

definition variant_text :: "msrp_attribute \<Rightarrow> string" where
  "variant_text a =
     (case s_type a of
        MSRP_LISTENER_TYPE \<Rightarrow> listener_text a
      | MSRP_DOMAIN_TYPE \<Rightarrow> domain_text (domain a)
      | MSRP_TALKER_ADV_TYPE \<Rightarrow> talker_text (talk_listen a)
      | MSRP_TALKER_FAILED_TYPE \<Rightarrow> talker_text (talk_listen a) @ failure_text (talk_listen a))"

text \<open>The text of the attribute is formatted into an array of 128 characters first.\<close>

definition msrp_text :: "msrp_attribute \<Rightarrow> string" where
  "msrp_text a = snprintf (128 - 1) (variant_text a)"

definition msrp_send_notifications :: "msrp_database \<Rightarrow> msrp_attribute \<Rightarrow> mrp_notify \<Rightarrow> int \<times> msrp_database" where
  "msrp_send_notifications = send_notifications (CHR ''S'') msrp_text"

definition msrp_conditional_reclaim :: "msrp_attribute \<Rightarrow> msrp_database \<Rightarrow> msrp_attribute list \<times> msrp_database" where
  "msrp_conditional_reclaim = conditional_reclaim (CHR ''S'') msrp_text"

definition msrp_reclaim :: "msrp_database option \<Rightarrow> int \<times> msrp_database option" where
  "msrp_reclaim db = (0, map_option (over_list msrp_conditional_reclaim) db)"

section \<open>Consecutive values\<close>

definition msrp_increment_streamid :: "u8 list \<Rightarrow> u8 list" where
  "msrp_increment_streamid = increment_at 7"

end
