(* ===== verification/Msrp_Emit.thy ===== *)
theory Msrp_Emit
  imports Msrp_Data
begin

text \<open>
  The frames that the stream reservation protocol sends, \<open>msrp_emit_talkervectors\<close>,
  \<open>msrp_emit_listenvectors\<close>, \<open>msrp_emit_domainvectors\<close> and \<open>msrp_txpdu\<close> of \<open>mrpd/msrp.c\<close>.  The three
  functions are one loop with different first values.  A message is written into a buffer of
  \<open>room\<close> bytes; \<open>None\<close> is a write behind its end or through a null pointer.
\<close>

section \<open>First values\<close>

definition talker_value :: "msrp_attribute \<Rightarrow> u8 list" where
  "talker_value a =
     (let v = talk_listen a in
      take 8 (StreamID v) @ take 6 (Dest_Addr v) @ bytes_be 2 (Vlan_ID v) @ bytes_be 2 (MaxFrameSize v) @ bytes_be 2 (MaxIntervalFrames v) @
      [PriorityAndRank v] @ bytes_be 4 (AccumulatedLatency v) @
      (if s_type a = MSRP_TALKER_FAILED_TYPE then take 8 (BridgeID v) @ [FailureCode v] else []))"

definition listener_value :: "msrp_attribute \<Rightarrow> u8 list" where
  "listener_value a = take 8 (StreamID (talk_listen a))"

definition domain_value :: "msrp_attribute \<Rightarrow> u8 list" where
  "domain_value a = [SRclassID (domain a), SRclassPriority (domain a)] @ bytes_be 2 (SRclassVID (domain a))"

text \<open>Whether an attribute continues a vector that starts with another one and has \<open>k\<close> values.\<close>

definition vectorize_talker :: "msrp_attribute \<Rightarrow> u8 list \<Rightarrow> u8 list \<Rightarrow> msrp_attribute \<Rightarrow> bool" where
  "vectorize_talker a streamid_firstval mac_firstval b \<longleftrightarrow>
     (talk_listen a)\<lparr>StreamID := streamid_firstval, Dest_Addr := mac_firstval\<rparr> = talk_listen b"

definition continues :: "msrp_type \<Rightarrow> msrp_attribute \<Rightarrow> nat \<Rightarrow> msrp_attribute \<Rightarrow> bool" where
  "continues t a k b =
     (case t of
        MSRP_DOMAIN_TYPE \<Rightarrow> False
      | MSRP_LISTENER_TYPE \<Rightarrow> StreamID (talk_listen b) = (msrp_increment_streamid ^^ k) (StreamID (talk_listen a))
      | _ \<Rightarrow> vectorize_talker a ((msrp_increment_streamid ^^ k) (StreamID (talk_listen a)))
               ((mmrp_increment_macaddr ^^ k) (Dest_Addr (talk_listen a))) b)"

definition first_value :: "msrp_attribute \<Rightarrow> u8 list" where
  "first_value a =
     (case s_type a of
        MSRP_DOMAIN_TYPE \<Rightarrow> domain_value a
      | MSRP_LISTENER_TYPE \<Rightarrow> listener_value a
      | _ \<Rightarrow> talker_value a)"

text \<open>The size of one vector that the guards of the loops count with.\<close>

fun vector_size :: "msrp_type \<Rightarrow> nat" where
  "vector_size MSRP_TALKER_ADV_TYPE = 28"
| "vector_size MSRP_TALKER_FAILED_TYPE = 28 + 9"
| "vector_size MSRP_LISTENER_TYPE = 13"
| "vector_size MSRP_DOMAIN_TYPE = 5"

section \<open>Vectors\<close>

text \<open>
  The array of listener states: its size, the answers of \<open>realloc\<close> and how many were asked for.
  The loop does not test the result of \<open>realloc\<close>.  The other vectors need no array; its size is 0 for them.
\<close>

type_synonym declare_array = "nat \<times> (nat \<Rightarrow> bool) \<times> nat"

definition grow_declare :: "nat \<Rightarrow> declare_array \<Rightarrow> declare_array option" where
  "grow_declare idx = (\<lambda>(sz, mem, pos).
     if sz = idx + 1 then (if mem pos then Some (sz + 64, mem, Suc pos) else None) else Some (sz, mem, pos))"

text \<open>
  The loop that appends the following attributes to a vector at offset \<open>vp\<close> with the attributes \<open>vs\<close>: whether it
  ended without an error, the events not packed yet, the packed bytes, the attributes of the vector, the array,
  and the attributes that follow with their flags.
\<close>

fun msrp_vector_loop :: "msrp_type \<Rightarrow> nat \<Rightarrow> nat \<Rightarrow> msrp_attribute list \<Rightarrow> nat list \<Rightarrow> u8 list \<Rightarrow> declare_array \<Rightarrow> msrp_attribute list \<Rightarrow>
    (bool \<times> nat list \<times> u8 list \<times> msrp_attribute list \<times> declare_array \<times> msrp_attribute list) option" where
  "msrp_vector_loop t room vp vs evs packed m [] = Some (True, evs, packed, vs, m, [])"
| "msrp_vector_loop t room vp vs evs packed m (b # bs) =
     (if s_type b \<noteq> t \<or> \<not> a_tx (applicant b) \<or> \<not> continues t (hd vs) (length vs) b then Some (True, evs, packed, vs, m, b # bs)
      else (case pdu_event b of
          None \<Rightarrow> Some (False, evs, packed, vs, m, clear_tx b # bs)
        | Some e \<Rightarrow> do {
            m \<leftarrow> grow_declare (length vs) m;
            let evs = evs @ [mrpdu_code e];
            let vs = vs @ [b];
            c_assert (length evs > 2 \<longrightarrow> vp + 2 + (type_length t + length packed) < room);
            let (evs, packed) = (if length evs > 2 then ([], packed @ [pack3 evs]) else (evs, packed));
            if room < vp + 2 + (type_length t + length packed) + MRPDU_ENDMARK_SZ then Some (False, evs, packed, vs, m, clear_tx b # bs)
            else do {
              (ok, evs, packed, vs, m, bs) \<leftarrow> msrp_vector_loop t room vp vs evs packed m bs;
              Some (ok, evs, packed, vs, m, clear_tx b # bs) } }))"

definition MRPDU_4PACK_ENCODE :: "u32 \<Rightarrow> u32 \<Rightarrow> u32 \<Rightarrow> u32 \<Rightarrow> u8" where
  "MRPDU_4PACK_ENCODE w x y z = ucast (w * 64 + x * 16 + y * 4 + z)"

text \<open>The four-packed events from offset \<open>pos\<close> on, and whether the loop ended without an error.\<close>

fun four_loop :: "nat \<Rightarrow> nat \<Rightarrow> u32 list \<Rightarrow> (bool \<times> u8 list) option" where
  "four_loop room pos (w # x # y # z # ss) =
     (if room < pos + MRPDU_ENDMARK_SZ then Some (False, [])
      else do {
        c_assert (pos < room);
        if room < (pos + 1) + 3 then Some (False, [])
        else do { (ok, bs) \<leftarrow> four_loop room (pos + 1) ss; Some (ok, MRPDU_4PACK_ENCODE w x y z # bs) } })"
| "four_loop room pos [] = Some (True, [])"
| "four_loop room pos ss = do {
     c_assert (pos < room);
     Some (True, [MRPDU_4PACK_ENCODE (ss ! 0) (if 1 < length ss then ss ! 1 else 0) (if 2 < length ss then ss ! 2 else 0) 0]) }"

lemma length_msrp_vector_loop:
  "msrp_vector_loop t room vp vs evs packed m bs = Some (ok, evs', packed', vs', m', bs') \<Longrightarrow> length bs' = length bs"
  by (induction t room vp vs evs packed m bs arbitrary: bs' ok evs' packed' vs' m' rule: msrp_vector_loop.induct)
    (auto simp: Let_def bind_eq_Some_conv split: if_splits option.splits prod.splits)

text \<open>
  One vector that starts with an attribute that is sent: \<open>None\<close> in the first component for the error exit,
  otherwise its bytes; and the attributes with their flags.
\<close>

definition emit_vector :: "msrp_type \<Rightarrow> nat \<Rightarrow> nat \<Rightarrow> bool \<Rightarrow> declare_array \<Rightarrow> msrp_attribute \<Rightarrow> msrp_attribute list \<Rightarrow>
    (u8 list option \<times> declare_array \<times> msrp_attribute list) option" where
  "emit_vector t room vp l m a as = do {
     c_assert (vp + 2 + type_length t \<le> room);
     (case pdu_event a of
        None \<Rightarrow> Some (None, m, as)
      | Some e \<Rightarrow> do {
          (ok, evs, packed, vs, m, bs) \<leftarrow> msrp_vector_loop t room vp [a] [mrpdu_code e] [] m as;
          if \<not> ok then Some (None, m, bs)
          else do {
            c_assert (evs \<noteq> [] \<longrightarrow> vp + 2 + (type_length t + length packed) < room);
            let packed = (if evs \<noteq> [] then packed @ [pack3 evs] else packed);
            (ok, four) \<leftarrow> (if t = MSRP_LISTENER_TYPE then four_loop room (vp + 2 + (type_length t + length packed)) (map substate vs)
                            else Some (True, []));
            let packed = packed @ four;
            if \<not> ok \<or> room < vp + 2 + (type_length t + length packed) + MRPDU_ENDMARK_SZ then Some (None, m, bs)
            else Some (Some (vector_header (length vs) l @ first_value a @ packed), m, bs) } }) }"

lemma length_emit_vector: "emit_vector t room vp l m a as = Some (r, m', bs) \<Longrightarrow> length bs = length as"
  by (auto simp: emit_vector_def Let_def bind_eq_Some_conv dest!: length_msrp_vector_loop split: if_splits option.splits prod.splits)

text \<open>The loop over all attributes; \<open>found\<close> is \<open>attrib_found_flag\<close>, and the first vector begins behind four bytes.\<close>

function msrp_emit_loop :: "msrp_type \<Rightarrow> nat \<Rightarrow> u8 list \<Rightarrow> bool \<Rightarrow> bool \<Rightarrow> declare_array \<Rightarrow> msrp_attribute list \<Rightarrow>
    (bool \<times> u8 list \<times> bool \<times> declare_array \<times> msrp_attribute list) option" where
  "msrp_emit_loop t room out found l m [] = Some (True, out, found, m, [])"
| "msrp_emit_loop t room out found l m (a # as) =
     (if \<not> (if found then length out else 0) + vector_size t + MRPDU_ENDMARK_SZ < room then Some (True, out, found, m, a # as)
      else if s_type a \<noteq> t \<or> \<not> a_tx (applicant a) then do {
        (ok, out, found, m, as) \<leftarrow> msrp_emit_loop t room out found l m as;
        Some (ok, out, found, m, a # as) }
      else if a_encode (applicant a) = MRP_ENCODE_OPTIONAL then do {
        (ok, out, found, m, as) \<leftarrow> msrp_emit_loop t room out found l m as;
        Some (ok, out, found, m, clear_tx a # as) }
      else do {
        (r, m, bs) \<leftarrow> emit_vector t room (length out) l m a as;
        case r of
          None \<Rightarrow> Some (False, out, True, m, clear_tx a # bs)
        | Some v \<Rightarrow> do {
            (ok, out, found, m, bs) \<leftarrow> msrp_emit_loop t room (out @ v) True False m bs;
            Some (ok, out, found, m, clear_tx a # bs) } })"
  by pat_completeness auto
termination
  by (relation "measure (\<lambda>(t, room, out, found, l, m, as). length as)") (auto dest!: length_emit_vector)

section \<open>Messages\<close>

text \<open>Return value, bytes written into a buffer of \<open>room\<close> bytes, the array, and the attributes with their flags.\<close>

definition emit_message :: "msrp_type \<Rightarrow> nat \<Rightarrow> bool \<Rightarrow> bool \<Rightarrow> declare_array \<Rightarrow> msrp_attribute list \<Rightarrow>
    (int \<times> u8 list \<times> declare_array \<times> msrp_attribute list) option" where
  "emit_message t room empty_leaveall l m as = do {
     (ok, out, found, m, as) \<leftarrow> msrp_emit_loop t room [type_code t, of_nat (type_length t), 0, 0] False l m as;
     if \<not> ok then Some (-1, [], m, as)
     else do {
       let out = (if \<not> found \<and> empty_leaveall then out @ vector_header 0 True @ replicate (type_length t) 0 else out);
       if length out = 4 then Some (0, [], m, as)
       else do {
         c_assert (length out + 2 \<le> room);
         let out = out @ [0, 0];
         let attriblistlen = length out - 4;
         Some (0, out[2 := of_nat (attriblistlen div 256), 3 := of_nat attriblistlen], m, as) } } }"

definition msrp_emit_domainvectors :: "nat \<Rightarrow> bool \<Rightarrow> bool \<Rightarrow> msrp_attribute list \<Rightarrow> (int \<times> u8 list \<times> msrp_attribute list) option" where
  "msrp_emit_domainvectors room empty_leaveall l as =
     (if room < vector_size MSRP_DOMAIN_TYPE then Some (-1, [], as)
      else do {
        (rc, out, m, as) \<leftarrow> emit_message MSRP_DOMAIN_TYPE room empty_leaveall l (0, \<lambda>i. True, 0) as;
        Some (rc, out, as) })"

definition msrp_emit_talkervectors ::
  "msrp_type \<Rightarrow> nat \<Rightarrow> bool \<Rightarrow> bool \<Rightarrow> msrp_attribute list \<Rightarrow> (int \<times> u8 list \<times> msrp_attribute list) option" where
  "msrp_emit_talkervectors t room empty_leaveall l as =
     (if room < vector_size t then Some (-1, [], as)
      else do {
        (rc, out, m, as) \<leftarrow> emit_message t room empty_leaveall l (0, \<lambda>i. True, 0) as;
        Some (rc, out, as) })"

definition mark_listener :: "msrp_attribute \<Rightarrow> msrp_attribute" where
  "mark_listener a = (if s_type a = MSRP_LISTENER_TYPE then a\<lparr>applicant := (applicant a)\<lparr>a_tx := True\<rparr>\<rparr> else a)"

text \<open>The database carries the attributes and the answers of \<open>malloc\<close> and \<open>realloc\<close>.\<close>

definition msrp_emit_listenvectors :: "nat \<Rightarrow> bool \<Rightarrow> msrp_database \<Rightarrow> (int \<times> u8 list \<times> msrp_database) option" where
  "msrp_emit_listenvectors room l s =
     (if room < vector_size MSRP_LISTENER_TYPE then Some (-1, [], s)
      else
        let (ok, s) = mrpd_malloc s in
        if \<not> ok then Some (-1, [], s)
        else do {
          (rc, out, m, as) \<leftarrow> emit_message MSRP_LISTENER_TYPE room (send_empty_LeaveAll_flag s) l (64, mem_ok s, mem_pos s)
            (map mark_listener (attrib_list s));
          Some (rc, out, s\<lparr>attrib_list := as, mem_pos := snd (snd m)\<rparr>) })"

section \<open>Frames\<close>

text \<open>The Ethernet header takes 14 bytes and the protocol version one; \<open>room\<close> is what is left behind them.\<close>

definition msrp_txpdu :: "msrp_database \<Rightarrow> (int \<times> msrp_database) option" where
  "msrp_txpdu s =
     (let (ok, s) = mrpd_malloc s in
      if \<not> ok then Some (-1, s)
      else do {
        let l = t_tx (lva (mrp_db s));
        let s = (if l then s\<lparr>mrp_db := (mrp_db s)\<lparr>lva := (lva (mrp_db s))\<lparr>t_tx := False\<rparr>\<rparr>\<rparr> else s);
        let room = MAX_FRAME_SIZE - 15;
        (rc, b1, as) \<leftarrow> msrp_emit_talkervectors MSRP_TALKER_ADV_TYPE room (send_empty_LeaveAll_flag s) l (attrib_list s);
        let s = s\<lparr>attrib_list := as\<rparr>;
        if rc = -1 then Some (-1, s) else do {
        (rc, b2, as) \<leftarrow> msrp_emit_talkervectors MSRP_TALKER_FAILED_TYPE (room - length b1) (send_empty_LeaveAll_flag s) l (attrib_list s);
        let s = s\<lparr>attrib_list := as\<rparr>;
        if rc = -1 then Some (-1, s)
        else if room \<le> length (b1 @ b2) + MRPDU_ENDMARK_SZ then Some (-1, s) else do {
        (rc, b3, s) \<leftarrow> msrp_emit_listenvectors (room - length (b1 @ b2)) l s;
        if rc = -1 then Some (-1, s) else do {
        (rc, b4, as) \<leftarrow> msrp_emit_domainvectors (room - length (b1 @ b2 @ b3)) (send_empty_LeaveAll_flag s) l (attrib_list s);
        let s = s\<lparr>attrib_list := as\<rparr>;
        let bytes = b1 @ b2 @ b3 @ b4;
        if rc = -1 then Some (-1, s)
        else if bytes = [] then Some (-1, s)
        else if \<not> length bytes + MRPDU_ENDMARK_SZ < room then Some (-1, s)
        else do {
          let frame = MSRP_ADDR @ station s @ bytes_be 2 MSRP_ETYPE @ [MSRP_PROT_VER] @ bytes @ [0, 0];
          let sent = send_rc s (length (frames s));
          Some (if sent \<le> 0 then -1 else 0, s\<lparr>frames := frames s @ [frame]\<rparr>) } } } } })"

end
