(* ===== verification/Msrp.thy ===== *)
theory Msrp
  imports Msrp_Emit
begin

text \<open>
  The handler of all events of the stream reservation protocol, \<open>msrp_event\<close>, and the frames
  that it receives, \<open>msrp_recv_msg\<close> of \<open>mrpd/msrp.c\<close>.
\<close>

section \<open>Events\<close>

definition msrp_event_lvatimer :: "msrp_database \<Rightarrow> msrp_database option" where
  "msrp_event_lvatimer s = do {
     let s = on_db mrp_jointimer_stop (on_db mrp_lvatimer_stop s);
     let s = over_list (both_step MRP_EVENT_TXLA) s;
     let s = on_db (\<lambda>db. mrp_lvatimer_fsm db MRP_EVENT_LVATIMER) s;
     let s = on_db (\<lambda>db. mrp_lvatimer_fsm db MRP_EVENT_TX) (s\<lparr>send_empty_LeaveAll_flag := True\<rparr>);
     (rc, s) \<leftarrow> msrp_txpdu s;
     Some (s\<lparr>send_empty_LeaveAll_flag := False\<rparr>) }"

text \<open>A received leave-all concerns the attributes of one type only.\<close>

definition msrp_event_rla :: "msrp_type \<Rightarrow> msrp_database \<Rightarrow> msrp_database" where
  "msrp_event_rla t s =
     on_db (\<lambda>db. mrp_lvatimer_fsm db MRP_EVENT_RLA)
       (over_list (\<lambda>a s. if s_type a = t then both_step MRP_EVENT_RLA a s else ([a], s)) s)"

definition msrp_event_tx :: "msrp_database \<Rightarrow> msrp_database option" where
  "msrp_event_tx s = do {
     let s = over_list (\<lambda>a s. ([applicant_step MRP_EVENT_TX a s], s)) (on_db mrp_jointimer_stop s);
     let n = sum_list (map (\<lambda>a. mrp_applicant_state_transition_implies_tx (applicant a)) (attrib_list s));
     (rc, s) \<leftarrow> msrp_txpdu s;
     Some (if n \<noteq> 0 then on_db mrp_jointimer_start s else s) }"

definition msrp_event_lvtimer :: "msrp_database \<Rightarrow> msrp_database" where
  "msrp_event_lvtimer s =
     over_list (\<lambda>a s. case registrar_step MRP_EVENT_LVTIMER a s of (a, s) \<Rightarrow> msrp_conditional_reclaim a s) (on_db mrp_lvtimer_stop s)"

text \<open>
  With pruning, a talker is of interest if its stream is in the table of interesting streams or
  has a listener in the database.
\<close>

definition interested :: "msrp_database \<Rightarrow> msrp_attribute \<Rightarrow> bool" where
  "interested s r =
     (if is_talker (s_type r) \<and> enable_pruning_of_uninteresting_ids s then
        eui64set_find (interesting_stream_ids s) (eui64_read (StreamID (talk_listen r))) \<noteq> None \<or>
        msrp_lookup s (r\<lparr>s_type := MSRP_LISTENER_TYPE\<rparr>) \<noteq> None
      else True)"

text \<open>A request or a received message; the boolean is false for the return before the notifications.\<close>

definition msrp_event_attribute :: "mrp_event \<Rightarrow> msrp_attribute \<Rightarrow> msrp_database \<Rightarrow> bool \<times> msrp_database" where
  "msrp_event_attribute e r s =
     (if \<not> interested s r then (True, s)
      else
        let s = on_db mrp_jointimer_start s in
        if msrp_lookup s r = None \<and> e = MRP_EVENT_RMT then (False, s)
        else
          let s = (if msrp_lookup s r = None then msrp_add s r else snd (msrp_merge s r));
              (as, s) = at_first (msrp_match r)
                (\<lambda>a s. case attribute_step e a s of (a, s) \<Rightarrow> msrp_conditional_reclaim a s) (attrib_list s) s
          in (True, s\<lparr>attrib_list := as\<rparr>))"

definition msrp_notify :: "msrp_database \<Rightarrow> msrp_database" where
  "msrp_notify s = over_list (notify_attribute (CHR ''S'') msrp_text) s"

definition msrp_event :: "msrp_database \<Rightarrow> mrp_event \<Rightarrow> msrp_attribute option \<Rightarrow> (int \<times> msrp_database) option" where
  "msrp_event s event rattrib =
     (if event \<in> {MRP_EVENT_NEW, MRP_EVENT_JOIN, MRP_EVENT_RNEW, MRP_EVENT_RJOININ, MRP_EVENT_RJOINMT, MRP_EVENT_LV, MRP_EVENT_RIN,
          MRP_EVENT_RMT, MRP_EVENT_RLV} then
        (case rattrib of
           None \<Rightarrow> Some (-1, s)
         | Some r \<Rightarrow> (case msrp_event_attribute event r s of (go, s) \<Rightarrow> Some (0, if go then msrp_notify s else s)))
      else if event = MRP_EVENT_RLA then
        let s = on_db mrp_jointimer_start s in
        (case rattrib of None \<Rightarrow> Some (-1, s) | Some r \<Rightarrow> Some (0, msrp_notify (msrp_event_rla (s_type r) s)))
      else do {
        s \<leftarrow> (case event of
            MRP_EVENT_LVATIMER \<Rightarrow> msrp_event_lvatimer s
          | MRP_EVENT_TX \<Rightarrow> msrp_event_tx s
          | MRP_EVENT_LVTIMER \<Rightarrow> Some (msrp_event_lvtimer s)
          | _ \<Rightarrow> Some s);
        Some (0, msrp_notify s) })"

section \<open>Receiving values\<close>

text \<open>The running first value of a vector, and the one that follows it.\<close>

type_synonym msrp_value = "msrpdu_talker_fail \<times> msrpdu_domain"

definition read_value :: "msrp_type \<Rightarrow> u8 list \<Rightarrow> msrp_value" where
  "read_value t bs =
     (case t of
        MSRP_DOMAIN_TYPE \<Rightarrow>
          (zero_talker, \<lparr>SRclassID = bs ! 0, SRclassPriority = bs ! 1, neighborSRclassPriority = bs ! 1, SRclassVID = word_be (take 2 (drop 2 bs))\<rparr>)
      | MSRP_LISTENER_TYPE \<Rightarrow> (zero_talker\<lparr>StreamID := take 8 bs\<rparr>, zero_domain)
      | _ \<Rightarrow>
          (\<lparr>StreamID = take 8 bs, Dest_Addr = take 6 (drop 8 bs), Vlan_ID = word_be (take 2 (drop 14 bs)),
             MaxFrameSize = word_be (take 2 (drop 16 bs)), MaxIntervalFrames = word_be (take 2 (drop 18 bs)), PriorityAndRank = bs ! 20,
             AccumulatedLatency = word_be (take 4 (drop 21 bs)),
             BridgeID = (if t = MSRP_TALKER_FAILED_TYPE then take 8 (drop 25 bs) else replicate 8 0),
             FailureCode = (if t = MSRP_TALKER_FAILED_TYPE then bs ! 33 else 0)\<rparr>, zero_domain))"

definition next_value :: "msrp_type \<Rightarrow> msrp_value \<Rightarrow> msrp_value" where
  "next_value t = (\<lambda>(v, d).
     case t of
       MSRP_DOMAIN_TYPE \<Rightarrow>
         (v, d\<lparr>SRclassID := SRclassID d + 1, SRclassPriority := SRclassPriority d + 1, neighborSRclassPriority := SRclassPriority d + 1\<rparr>)
     | MSRP_LISTENER_TYPE \<Rightarrow> (v\<lparr>StreamID := msrp_increment_streamid (StreamID v)\<rparr>, d)
     | _ \<Rightarrow> (v\<lparr>StreamID := msrp_increment_streamid (StreamID v), Dest_Addr := mmrp_increment_macaddr (Dest_Addr v)\<rparr>, d))"

definition received :: "u8 list \<Rightarrow> msrp_value \<Rightarrow> u32 \<Rightarrow> msrp_attribute \<Rightarrow> msrp_attribute" where
  "received src v sub a =
     a\<lparr>talk_listen := fst v, domain := snd v, substate := sub, operation := MSRP_OPERATION_REGISTER,
       registrar := (registrar a)\<lparr>r_macaddr := src\<rparr>\<rparr>"

text \<open>
  The loop over the events of one byte: whether it ended without an error, the value and the listener states
  that follow, and the database.  A listener state of 0 is passed over.
\<close>

fun msrp_rx_values :: "msrp_type \<Rightarrow> u8 list \<Rightarrow> nat list \<Rightarrow> msrp_value \<Rightarrow> u32 list \<Rightarrow> msrp_database \<Rightarrow>
    (bool \<times> msrp_value \<times> u32 list \<times> msrp_database) option" where
  "msrp_rx_values t src [] v subs s = Some (True, v, subs, s)"
| "msrp_rx_values t src (c # cs) v subs s = do {
     (sub, subs) \<leftarrow> (if t \<noteq> MSRP_LISTENER_TYPE then Some (0, subs) else (case subs of [] \<Rightarrow> None | x # xs \<Rightarrow> Some (x, xs)));
     if t = MSRP_LISTENER_TYPE \<and> sub = MSRP_LISTENER_IGNORE then msrp_rx_values t src cs (next_value t v) subs s
     else (case msrp_alloc t s of
         (None, s) \<Rightarrow> Some (False, v, subs, s)
       | (Some a, s) \<Rightarrow> do {
           s \<leftarrow> (case rx_event c of None \<Rightarrow> Some s | Some e \<Rightarrow> map_option snd (msrp_event s e (Some (received src v sub a))));
           msrp_rx_values t src cs (next_value t v) subs s }) }"

text \<open>
  The loop over the bytes of a vector, with \<open>k\<close> rounds to go and \<open>n\<close> values left.  The values of a byte with an
  event out of range are passed over, without advancing the running value.
\<close>

fun msrp_rx_bytes :: "msrp_type \<Rightarrow> u8 list \<Rightarrow> u8 list \<Rightarrow> nat \<Rightarrow> nat \<Rightarrow> nat \<Rightarrow> msrp_value \<Rightarrow> u32 list \<Rightarrow> msrp_database \<Rightarrow>
    (bool \<times> msrp_database) option" where
  "msrp_rx_bytes t buf src i 0 n v subs s = Some (True, s)"
| "msrp_rx_bytes t buf src i (Suc k) n v subs s = do {
     b \<leftarrow> rd buf i;
     let m = (if n > 3 then 3 else n);
     if hd (unpack3 b) > mrpdu_code MRPDU_LV then msrp_rx_bytes t buf src (Suc i) k (n - m) v subs s
     else do {
       (ok, v, subs, s) \<leftarrow> msrp_rx_values t src (take m (unpack3 b)) v subs s;
       if \<not> ok then Some (False, s) else msrp_rx_bytes t buf src (Suc i) k (n - m) v subs s } }"

section \<open>Listener states\<close>

definition unpack4 :: "u8 \<Rightarrow> u32 list" where
  "unpack4 b = map (\<lambda>k. ucast (drop_bit k b AND 3)) [6, 4, 2, 0]"

definition four_bytes :: "nat \<Rightarrow> nat" where
  "four_bytes n = (if n \<noteq> n div 4 * 4 then n div 4 + 1 else n div 4)"

text \<open>The states are appended to an array of \<open>sz\<close> elements, which grows if it is full.\<close>

fun store_states :: "u32 list \<Rightarrow> u32 list \<Rightarrow> nat \<Rightarrow> msrp_database \<Rightarrow> bool \<times> u32 list \<times> nat \<times> msrp_database" where
  "store_states [] acc sz s = (True, acc, sz, s)"
| "store_states (c # cs) acc sz s =
     (if length acc = sz then
        (case mrpd_malloc s of (ok, s) \<Rightarrow> if \<not> ok then (False, acc, sz, s) else store_states cs (acc @ [c]) (sz + 64) s)
      else store_states cs (acc @ [c]) sz s)"

fun msrp_rx_four :: "u8 list \<Rightarrow> nat \<Rightarrow> nat \<Rightarrow> nat \<Rightarrow> u32 list \<Rightarrow> nat \<Rightarrow> msrp_database \<Rightarrow> (bool \<times> u32 list \<times> nat \<times> msrp_database) option" where
  "msrp_rx_four buf i 0 n acc sz s = Some (True, acc, sz, s)"
| "msrp_rx_four buf i (Suc k) n acc sz s = do {
     b \<leftarrow> rd buf i;
     let m = (if n > 4 then 4 else n);
     case store_states (take m (unpack4 b)) acc sz s of (ok, acc, sz, s) \<Rightarrow>
       if \<not> ok then Some (False, acc, sz, s) else msrp_rx_four buf (Suc i) k (n - m) acc sz s }"

text \<open>
  The four-packed events of a vector at \<open>vp\<close> with \<open>n\<close> values, which are read before the three-packed ones; an array of 64
  elements is allocated for the first of them.
\<close>

definition msrp_rx_states :: "u8 list \<Rightarrow> nat \<Rightarrow> nat \<Rightarrow> nat \<Rightarrow> nat \<Rightarrow> msrp_database \<Rightarrow> (bool \<times> u32 list \<times> nat \<times> msrp_database) option" where
  "msrp_rx_states buf eof vp n sz s =
     (let i = vp + 2 + (8 + vector_bytes n) in
      if eof \<le> i + four_bytes n then Some (False, [], sz, s)
      else
        let (ok, sz, s) = (if sz = 0 then (case mrpd_malloc s of (ok, s) \<Rightarrow> (ok, 64, s)) else (True, sz, s)) in
        if \<not> ok then Some (False, [], sz, s) else msrp_rx_four buf i (four_bytes n) n [] sz s)"

section \<open>Receiving vectors\<close>

text \<open>
  One vector: the position behind it, or \<open>None\<close> for the error exit; which leave-alls were seen; the size of the array of
  listener states, 0 for none; and the database.
\<close>

type_synonym msrp_rx = "nat option \<times> (msrp_type \<Rightarrow> bool) \<times> nat \<times> msrp_database"

definition rx_leaveall :: "msrp_type \<Rightarrow> bool \<Rightarrow> (msrp_type \<Rightarrow> bool) \<Rightarrow> msrp_database \<Rightarrow> (bool \<times> (msrp_type \<Rightarrow> bool) \<times> msrp_database) option" where
  "rx_leaveall t l saw s =
     (if l \<and> \<not> saw t then
        (case msrp_alloc t s of
           (None, s) \<Rightarrow> Some (False, saw(t := True), s)
         | (Some a, s) \<Rightarrow> do { (rc, s) \<leftarrow> msrp_event s MRP_EVENT_RLA (Some a); Some (True, saw(t := True), s) })
      else Some (True, saw, s))"

definition msrp_rx_vector :: "msrp_type \<Rightarrow> u8 list \<Rightarrow> nat \<Rightarrow> u8 list \<Rightarrow> nat \<Rightarrow> (msrp_type \<Rightarrow> bool) \<Rightarrow> nat \<Rightarrow> msrp_database \<Rightarrow> msrp_rx option" where
  "msrp_rx_vector t buf eof src vp saw sz s = do {
     h0 \<leftarrow> rd buf vp;
     h1 \<leftarrow> rd buf (vp + 1);
     let hdr = word_be [h0, h1];
     let n = MRPDU_VECT_NUMVALUES hdr;
     (ok, saw, s) \<leftarrow> rx_leaveall t (MRPDU_VECT_LVA hdr) saw s;
     if \<not> ok then Some (None, saw, sz, s)
     else if n = 0 then Some (Some (vp + 2 + type_length t), saw, sz, s)
     else if eof \<le> vp + 2 + n div 3 + (if t = MSRP_LISTENER_TYPE then n div 4 else 0) then Some (None, saw, sz, s)
     else do {
       fv \<leftarrow> rds buf (vp + 2) (type_length t);
       (ok, subs, sz, s) \<leftarrow> (if t = MSRP_LISTENER_TYPE then msrp_rx_states buf eof vp n sz s else Some (True, [], sz, s));
       if \<not> ok then Some (None, saw, sz, s)
       else do {
         (ok, s) \<leftarrow> msrp_rx_bytes t buf src (vp + 2 + type_length t) (vector_bytes n + 1) n (read_value t fv) subs s;
         Some (if ok then Some (vp + 2 + type_length t + vector_bytes n + (if t = MSRP_LISTENER_TYPE then four_bytes n else 0)) else None,
           saw, sz, s) } } }"

text \<open>The loop over the vectors of a message: the position of its end mark, \<open>None\<close> for the error exit.\<close>

lemma msrp_rx_vector_position:
  "msrp_rx_vector t buf eof src vp saw sz s = Some (Some q, saw', sz', s') \<Longrightarrow> vp < q \<and> vp < length buf"
  by (auto simp: msrp_rx_vector_def Let_def bind_eq_Some_conv rd_def split: if_splits)

function msrp_rx_vectors :: "msrp_type \<Rightarrow> u8 list \<Rightarrow> nat \<Rightarrow> u8 list \<Rightarrow> nat \<Rightarrow> (msrp_type \<Rightarrow> bool) \<Rightarrow> nat \<Rightarrow> msrp_database \<Rightarrow> msrp_rx option" where
  "msrp_rx_vectors t buf eof src vp saw sz s = do {
     h0 \<leftarrow> rd buf vp;
     h1 \<leftarrow> rd buf (vp + 1);
     if h0 = 0 \<and> h1 = 0 then Some (Some vp, saw, sz, s)
     else do {
       (r, saw, sz, s) \<leftarrow> msrp_rx_vector t buf eof src vp saw sz s;
       case r of None \<Rightarrow> Some (None, saw, sz, s) | Some q \<Rightarrow> msrp_rx_vectors t buf eof src q saw sz s } }"
  by pat_completeness auto
termination
  by (relation "measure (\<lambda>(t, buf, eof, src, vp, saw, sz, s). length buf - vp)") (auto dest: msrp_rx_vector_position)

declare msrp_rx_vectors.simps [simp del]

lemma msrp_rx_vectors_position:
  "msrp_rx_vectors t buf eof src vp saw sz s = Some (Some q, saw', sz', s') \<Longrightarrow> vp \<le> q"
proof (induction t buf eof src vp saw sz s rule: msrp_rx_vectors.induct)
  case (1 t buf eof src vp saw sz s)
  note unfolded = 1(2) [unfolded msrp_rx_vectors.simps [of t buf eof src vp saw sz s]]
  then consider "vp = q" | r w z u where "msrp_rx_vector t buf eof src vp saw sz s = Some (Some r, w, z, u)"
      "msrp_rx_vectors t buf eof src r w z u = Some (Some q, saw', sz', s')" "\<exists>h0. rd buf vp = Some h0" "\<exists>h1. rd buf (vp + 1) = Some h1"
      "\<not> (rd buf vp = Some 0 \<and> rd buf (vp + 1) = Some 0)"
    by (auto simp: bind_eq_Some_conv split: if_splits option.splits)
  then show ?case
  proof cases
    case 2
    then show ?thesis using 1(1) msrp_rx_vector_position [OF 2(1)] by fastforce
  qed simp
qed

section \<open>Receiving messages\<close>

definition type_of_code :: "u8 \<Rightarrow> msrp_type option" where
  "type_of_code c =
     (if c = 4 then Some MSRP_DOMAIN_TYPE else if c = 3 then Some MSRP_LISTENER_TYPE else if c = 1 then Some MSRP_TALKER_ADV_TYPE
      else if c = 2 then Some MSRP_TALKER_FAILED_TYPE else None)"

text \<open>The test of the length field behind the type and the length of a message at \<open>mp\<close>.\<close>

definition msrp_recv_msg_check_attrib_list_len :: "u8 list \<Rightarrow> nat \<Rightarrow> nat \<Rightarrow> bool option" where
  "msrp_recv_msg_check_attrib_list_len buf mp eof = do {
     l0 \<leftarrow> rd buf (mp + 2);
     l1 \<leftarrow> rd buf (mp + 3);
     attrib_len \<leftarrow> rd buf (mp + 1);
     let list_len = unat l0 * 256 + unat l1;
     if list_len < unat attrib_len + 2 + 1 then Some False
     else if eof \<le> mp + 2 + list_len then Some False
     else do {
       e0 \<leftarrow> rd buf (mp + 2 + list_len);
       if e0 \<noteq> 0 then Some False
       else do { e1 \<leftarrow> rd buf (mp + 2 + list_len + 1); Some (e1 = 0) } } }"

text \<open>The loop over the messages behind the protocol version.  A message whose length field is wrong is passed over.\<close>

function msrp_rx_messages :: "u8 list \<Rightarrow> nat \<Rightarrow> u8 list \<Rightarrow> nat \<Rightarrow> nat \<Rightarrow> (msrp_type \<Rightarrow> bool) \<Rightarrow> nat \<Rightarrow> msrp_database \<Rightarrow> (int \<times> msrp_database) option" where
  "msrp_rx_messages buf eof src mp endmarks saw sz s =
     (if \<not> mp + MRPDU_ENDMARK_SZ < eof then Some (0, s)
      else do {
        c \<leftarrow> rd buf mp;
        l \<leftarrow> rd buf (mp + 1);
        if c = 0 \<and> l = 0 then
          (if endmarks + 1 < 2 then msrp_rx_messages buf eof src (mp + 2) (endmarks + 1) saw sz s else Some (0, s))
        else case type_of_code c of
          None \<Rightarrow> Some (-1, s)
        | Some t \<Rightarrow>
            if unat l \<noteq> type_length t then Some (-1, s)
            else do {
              ok \<leftarrow> msrp_recv_msg_check_attrib_list_len buf mp eof;
              if \<not> ok then do {
                h0 \<leftarrow> rd buf (mp + 4);
                h1 \<leftarrow> rd buf (mp + 5);
                let n = MRPDU_VECT_NUMVALUES (word_be [h0, h1]);
                msrp_rx_messages buf eof src
                  (mp + 4 + (2 + type_length t + (n + 2) div 3 + (if t = MSRP_LISTENER_TYPE then (n + 3) div 4 else 0))) 0 saw sz s }
              else do {
                (r, saw, sz, s) \<leftarrow> msrp_rx_vectors t buf eof src (mp + 4) saw sz s;
                case r of None \<Rightarrow> Some (-1, s) | Some q \<Rightarrow> msrp_rx_messages buf eof src q 0 saw sz s } } })"
  by pat_completeness auto
termination
  by (relation "measure (\<lambda>(buf, eof, src, mp, endmarks, saw, sz, s). eof - mp)")
    (auto simp: MRPDU_ENDMARK_SZ_def dest!: msrp_rx_vectors_position)

declare msrp_rx_messages.simps [simp del]

text \<open>The buffer has \<open>MAX_FRAME_SIZE\<close> bytes, of which \<open>mrpd_recvmsgbuf\<close> filled \<open>bytes\<close>.\<close>

definition msrp_recv_msg :: "msrp_database \<Rightarrow> int \<Rightarrow> u8 list \<Rightarrow> (int \<times> msrp_database) option" where
  "msrp_recv_msg s bytes buf =
     (if bytes \<le> 0 then Some (-1, s)
      else if bytes < 14 + 1 + 2 then Some (-1, s)
      else do {
        c_assert (14 \<le> length buf);
        if word_be (take 2 (drop 12 buf)) \<noteq> MSRP_ETYPE then Some (-1, s)
        else if take 6 buf \<noteq> MSRP_ADDR then Some (-1, s)
        else msrp_rx_messages buf (nat bytes) (take 6 (drop 6 buf)) 15 0 (\<lambda>t. False) 0 s })"

end
