(* ===== verification/Msrp_Commands.thy ===== *)
theory Msrp_Commands
  imports Msrp
begin

text \<open>
  The commands that the control clients send to the stream reservation protocol, and the
  lifetime of its database, \<open>mrpd/msrp.c\<close>.
\<close>

section \<open>Queries\<close>

text \<open>
  The answer to a query, \<open>None\<close> if it does not fit into its buffers: 128 bytes for the text of an attribute and for a line,
  and \<open>MAX_MRPD_CMDSZ\<close> bytes for all lines, each with a terminating null character.
\<close>

definition dump_text :: "msrp_attribute \<Rightarrow> string" where
  "dump_text a =
     (case s_type a of
        MSRP_LISTENER_TYPE \<Rightarrow> listener_text a
      | MSRP_DOMAIN_TYPE \<Rightarrow> domain_text (domain a)
      | _ \<Rightarrow> talker_text (talk_listen a) @ failure_text (talk_listen a))"

definition msrp_dump_line :: "msrp_attribute \<Rightarrow> string" where
  "msrp_dump_line a =
     dump_text a @ '' '' @ source_text a @ '' '' @ mrp_decode_state (registrar a) (applicant a) 8 @ newline"

definition msrp_dumptable :: "msrp_database \<Rightarrow> (int \<times> string list \<times> msrp_database) option" where
  "msrp_dumptable s =
     (let (m1, s) = mrpd_malloc s in
      if \<not> m1 then Some (-1, [], s)
      else
        let (m2, s) = mrpd_malloc s; (m3, s) = mrpd_malloc s; (m4, s) = mrpd_malloc s in
        if \<not> m2 \<or> \<not> m3 \<or> \<not> m4 then Some (0, [], s)
        else do {
          c_assert (list_all (\<lambda>a. length (dump_text a) < 128 \<and> length (msrp_dump_line a) < 128) (attrib_list s));
          let msg = (if attrib_list s = [] then ''MSRP:Empty'' @ newline else concat (map msrp_dump_line (attrib_list s)));
          c_assert (length msg < MAX_MRPD_CMDSZ);
          Some (0, [msg], s) })"

section \<open>Parsing\<close>

text \<open>The values that a successful parse stores into the zeroed structure, in the order of the fields.\<close>

definition streamid_spec :: parse_param where "streamid_spec = \<lparr>pname = ''S='', ptype = parse_c64\<rparr>"
definition listener_spec :: parse_param where "listener_spec = \<lparr>pname = ''L='', ptype = parse_c64\<rparr>"

definition stream_specs :: "parse_param list" where
  "stream_specs = [streamid_spec, \<lparr>pname = ''A='', ptype = parse_mac\<rparr>, \<lparr>pname = ''V='', ptype = parse_u16_04x\<rparr>,
     \<lparr>pname = ''Z='', ptype = parse_u16\<rparr>, \<lparr>pname = ''I='', ptype = parse_u16\<rparr>, \<lparr>pname = ''P='', ptype = parse_u8\<rparr>,
     \<lparr>pname = ''L='', ptype = parse_u32\<rparr>]"

definition failure_specs :: "parse_param list" where
  "failure_specs = stream_specs @ [\<lparr>pname = ''B='', ptype = parse_c64\<rparr>, \<lparr>pname = ''C='', ptype = parse_u8\<rparr>]"

definition domain_specs :: "parse_param list" where
  "domain_specs = [\<lparr>pname = ''C='', ptype = parse_u8\<rparr>, \<lparr>pname = ''P='', ptype = parse_u8\<rparr>, \<lparr>pname = ''V='', ptype = parse_u16_04x\<rparr>]"

text \<open>A parser of a command: the minimal length of the command, and the parameters behind its first four characters.\<close>

definition msrp_cmd_parse :: "nat \<Rightarrow> parse_param list \<Rightarrow> string \<Rightarrow> nat \<Rightarrow> (int \<times> parse_value list \<times> string) option" where
  "msrp_cmd_parse least specs buf buflen =
     (if buflen < least then Some (-1, [], buf)
      else do { (rc, e, vs, buf) \<leftarrow> parse buf 4 (buflen - 4) specs; Some (rc, vs, buf) })"

definition stream_of :: "parse_value list \<Rightarrow> msrpdu_talker_fail" where
  "stream_of vs =
     (case vs of
        [V_bytes i, V_bytes d, V_u16 v, V_u16 z, V_u16 n, V_u8 q, V_u32 l] \<Rightarrow>
          zero_talker\<lparr>StreamID := i, Dest_Addr := d, Vlan_ID := v, MaxFrameSize := z, MaxIntervalFrames := n, PriorityAndRank := q,
            AccumulatedLatency := l\<rparr>
      | [V_bytes i, V_bytes d, V_u16 v, V_u16 z, V_u16 n, V_u8 q, V_u32 l, V_bytes b, V_u8 c] \<Rightarrow>
          zero_talker\<lparr>StreamID := i, Dest_Addr := d, Vlan_ID := v, MaxFrameSize := z, MaxIntervalFrames := n, PriorityAndRank := q,
            AccumulatedLatency := l, BridgeID := b, FailureCode := c\<rparr>
      | V_bytes i # _ \<Rightarrow> zero_talker\<lparr>StreamID := i\<rparr>
      | _ \<Rightarrow> zero_talker)"

definition substate_of :: "parse_value list \<Rightarrow> u32" where
  "substate_of vs = (case vs of [_, V_u32 d] \<Rightarrow> d | _ \<Rightarrow> 0)"

definition domain_of :: "parse_value list \<Rightarrow> msrpdu_domain" where
  "domain_of vs =
     (case vs of [V_u8 c, V_u8 q, V_u16 v] \<Rightarrow> zero_domain\<lparr>SRclassID := c, SRclassPriority := q, SRclassVID := v\<rparr> | _ \<Rightarrow> zero_domain)"

definition msrp_cmd_parse_stream_id :: "string \<Rightarrow> nat \<Rightarrow> (int \<times> u8 list \<times> string) option" where
  "msrp_cmd_parse_stream_id buf buflen = do {
     (rc, vs, buf) \<leftarrow> msrp_cmd_parse (16 + 4) [streamid_spec] buf buflen;
     Some (rc, StreamID (stream_of vs), buf) }"

definition msrp_cmd_parse_join_or_new_stream :: "string \<Rightarrow> nat \<Rightarrow> (int \<times> msrpdu_talker_fail \<times> string) option" where
  "msrp_cmd_parse_join_or_new_stream buf buflen = do {
     (rc, vs, buf) \<leftarrow> msrp_cmd_parse 22 stream_specs buf buflen; Some (rc, stream_of vs, buf) }"

definition msrp_cmd_parse_join_or_new_stream_failure :: "string \<Rightarrow> nat \<Rightarrow> (int \<times> msrpdu_talker_fail \<times> string) option" where
  "msrp_cmd_parse_join_or_new_stream_failure buf buflen = do {
     (rc, vs, buf) \<leftarrow> msrp_cmd_parse 47 failure_specs buf buflen; Some (rc, stream_of vs, buf) }"

definition msrp_cmd_parse_leave_stream :: "string \<Rightarrow> nat \<Rightarrow> (int \<times> msrpdu_talker_fail \<times> string) option" where
  "msrp_cmd_parse_leave_stream buf buflen = do {
     (rc, vs, buf) \<leftarrow> msrp_cmd_parse 22 [streamid_spec] buf buflen; Some (rc, stream_of vs, buf) }"

definition msrp_cmd_parse_report_listener_status :: "string \<Rightarrow> nat \<Rightarrow> (int \<times> (msrpdu_talker_fail \<times> u32) \<times> string) option" where
  "msrp_cmd_parse_report_listener_status buf buflen = do {
     (rc, vs, buf) \<leftarrow> msrp_cmd_parse 26 [listener_spec, \<lparr>pname = ''D='', ptype = parse_u32\<rparr>] buf buflen;
     Some (rc, (stream_of vs, substate_of vs), buf) }"

definition msrp_cmd_parse_withdraw_listener_status :: "string \<Rightarrow> nat \<Rightarrow> (int \<times> msrpdu_talker_fail \<times> string) option" where
  "msrp_cmd_parse_withdraw_listener_status buf buflen = do {
     (rc, vs, buf) \<leftarrow> msrp_cmd_parse 22 [listener_spec] buf buflen; Some (rc, stream_of vs, buf) }"

definition msrp_cmd_parse_domain_status :: "string \<Rightarrow> nat \<Rightarrow> (int \<times> msrpdu_domain \<times> string) option" where
  "msrp_cmd_parse_domain_status buf buflen = do {
     (rc, vs, buf) \<leftarrow> msrp_cmd_parse 18 domain_specs buf buflen; Some (rc, domain_of vs, buf) }"

section \<open>Requests\<close>

text \<open>A new attribute with a value, handed to the events; the return value is -1 if there is no memory for it.\<close>

definition request :: "msrp_type \<Rightarrow> (msrp_attribute \<Rightarrow> msrp_attribute) \<Rightarrow> mrp_event \<Rightarrow> msrp_database \<Rightarrow> (int \<times> msrp_database) option" where
  "request t fill e s =
     (case msrp_alloc t s of
        (None, s) \<Rightarrow> Some (-1, s)
      | (Some a, s) \<Rightarrow> do { (rc, s) \<leftarrow> msrp_event s e (Some (fill a)); Some (0, s) })"

definition msrp_cmd_join_or_new_stream :: "msrpdu_talker_fail \<Rightarrow> msrp_type \<Rightarrow> mrp_event \<Rightarrow> msrp_database \<Rightarrow> (int \<times> msrp_database) option" where
  "msrp_cmd_join_or_new_stream v t = request t (\<lambda>a. a\<lparr>operation := MSRP_OPERATION_DECLARE, talk_listen := v\<rparr>)"

definition msrp_cmd_leave_stream :: "msrpdu_talker_fail \<Rightarrow> msrp_database \<Rightarrow> (int \<times> msrp_database) option" where
  "msrp_cmd_leave_stream v = request MSRP_TALKER_ADV_TYPE (\<lambda>a. a\<lparr>talk_listen := v\<rparr>) MRP_EVENT_LV"

definition msrp_cmd_report_listener_status :: "msrpdu_talker_fail \<Rightarrow> u32 \<Rightarrow> msrp_database \<Rightarrow> (int \<times> msrp_database) option" where
  "msrp_cmd_report_listener_status v sub =
     request MSRP_LISTENER_TYPE (\<lambda>a. a\<lparr>operation := MSRP_OPERATION_DECLARE, substate := sub, talk_listen := v\<rparr>) MRP_EVENT_NEW"

text \<open>A withdrawal keeps the state of the listener that is known.\<close>

definition msrp_cmd_withdraw_listener_status :: "msrpdu_talker_fail \<Rightarrow> msrp_database \<Rightarrow> (int \<times> msrp_database) option" where
  "msrp_cmd_withdraw_listener_status v s =
     request MSRP_LISTENER_TYPE
       (\<lambda>a. let a = a\<lparr>talk_listen := v\<rparr> in case msrp_lookup s a of None \<Rightarrow> a | Some b \<Rightarrow> a\<lparr>substate := substate b\<rparr>) MRP_EVENT_LV s"

definition msrp_cmd_report_domain_status :: "msrpdu_domain \<Rightarrow> bool \<Rightarrow> msrp_database \<Rightarrow> (int \<times> msrp_database) option" where
  "msrp_cmd_report_domain_status d report =
     request MSRP_DOMAIN_TYPE (\<lambda>a. a\<lparr>domain := d\<lparr>neighborSRclassPriority := SRclassPriority d\<rparr>\<rparr>)
       (if report then MRP_EVENT_JOIN else MRP_EVENT_LV)"

text \<open>The talkers of a stream leave the list.\<close>

definition prune_stream :: "u8 list \<Rightarrow> msrp_database \<Rightarrow> msrp_database" where
  "prune_stream i s =
     s\<lparr>attrib_list := filter (\<lambda>a. \<not> (is_talker (s_type a) \<and> StreamID (talk_listen a) = i)) (attrib_list s)\<rparr>"

section \<open>Commands\<close>

datatype cmd_end = Cmd_done | Cmd_erp | Cmd_eri

text \<open>
  A command that is parsed and carried out: how it ends, the buffer, and the database.
\<close>

definition parsed :: "(int \<times> 'v \<times> string) option \<Rightarrow> ('v \<Rightarrow> msrp_database \<Rightarrow> (int \<times> msrp_database) option) \<Rightarrow> msrp_database \<Rightarrow>
    (cmd_end \<times> string \<times> msrp_database) option" where
  "parsed p act s = do {
     (rc, v, buf) \<leftarrow> p;
     if rc \<noteq> 0 then Some (Cmd_erp, buf, s)
     else do { (rc, s) \<leftarrow> act v s; Some (if rc \<noteq> 0 then Cmd_eri else Cmd_done, buf, s) } }"

definition cmd_withdraw_listener :: "msrpdu_talker_fail \<Rightarrow> msrp_database \<Rightarrow> (int \<times> msrp_database) option" where
  "cmd_withdraw_listener v s = do {
     (rc, s) \<leftarrow> msrp_cmd_withdraw_listener_status v s;
     Some (rc, if rc = 0 \<and> enable_pruning_of_uninteresting_ids s \<and> eui64set_find (interesting_stream_ids s) (eui64_read (StreamID v)) = None
       then prune_stream (StreamID v) s else s) }"

text \<open>The table of interesting streams; a result of -1 is an internal error.\<close>

definition cmd_add_interesting :: "qsort \<Rightarrow> u8 list \<Rightarrow> msrp_database \<Rightarrow> (int \<times> msrp_database) option" where
  "cmd_add_interesting qsort i s =
     (if eui64set_find (interesting_stream_ids s) (eui64_read i) \<noteq> None then Some (-1, s)
      else do {
        (r, set) \<leftarrow> eui64set_insert_and_sort qsort (interesting_stream_ids s) (eui64_read i) None;
        Some (if r = 0 then -1 else 0, s\<lparr>interesting_stream_ids := set\<rparr>) })"

definition cmd_remove_interesting :: "qsort \<Rightarrow> u8 list \<Rightarrow> msrp_database \<Rightarrow> (int \<times> msrp_database) option" where
  "cmd_remove_interesting qsort i s =
     (let (r, set, freed) = eui64set_remove_and_sort qsort (interesting_stream_ids s) (eui64_read i);
          s = s\<lparr>interesting_stream_ids := set\<rparr>
      in if r = 0 then Some (-1, s)
         else Some (0, if \<not> list_ex (\<lambda>a. s_type a = MSRP_LISTENER_TYPE \<and> StreamID (talk_listen a) = i) (attrib_list s)
           then prune_stream i s else s))"

text \<open>
  The commands by their first three characters; \<open>None\<close> in the result for an unknown command.  The talker failed variant of
  a declaration is recognised by the text \<open>B=\<close>.
\<close>

definition msrp_command :: "qsort \<Rightarrow> string \<Rightarrow> nat \<Rightarrow> msrp_database \<Rightarrow> (cmd_end \<times> string \<times> msrp_database) option option" where
  "msrp_command qsort buf buflen s =
     (let c = take 3 buf; prune = enable_pruning_of_uninteresting_ids s in
      if c = ''S-L'' then Some (parsed (msrp_cmd_parse_withdraw_listener_status buf buflen) cmd_withdraw_listener s)
      else if c = ''S-D'' then Some (parsed (msrp_cmd_parse_domain_status buf buflen) (\<lambda>d. msrp_cmd_report_domain_status d False) s)
      else if c = ''S--'' then Some (parsed (msrp_cmd_parse_leave_stream buf buflen) msrp_cmd_leave_stream s)
      else if c = ''S+L'' then
        Some (parsed (msrp_cmd_parse_report_listener_status buf buflen) (\<lambda>(v, sub). msrp_cmd_report_listener_status v sub) s)
      else if c = ''S+D'' then Some (parsed (msrp_cmd_parse_domain_status buf buflen) (\<lambda>d. msrp_cmd_report_domain_status d True) s)
      else if c = ''S+?'' \<or> c = ''S++'' then Some (do {
        text \<leftarrow> c_string buf;
        let e = (if buf ! 2 = CHR ''?'' then MRP_EVENT_JOIN else MRP_EVENT_NEW);
        if strstr text ''B='' \<noteq> None then
          parsed (msrp_cmd_parse_join_or_new_stream_failure buf buflen) (\<lambda>v. msrp_cmd_join_or_new_stream v MSRP_TALKER_FAILED_TYPE e) s
        else parsed (msrp_cmd_parse_join_or_new_stream buf buflen) (\<lambda>v. msrp_cmd_join_or_new_stream v MSRP_TALKER_ADV_TYPE e) s })
      else if c = ''I+S'' then
        Some (if \<not> prune then Some (Cmd_erp, buf, s) else parsed (msrp_cmd_parse_stream_id buf buflen) (cmd_add_interesting qsort) s)
      else if c = ''I-S'' then
        Some (if \<not> prune then Some (Cmd_erp, buf, s) else parsed (msrp_cmd_parse_stream_id buf buflen) (cmd_remove_interesting qsort) s)
      else if c = ''I-A'' then Some (Some (Cmd_done, buf, s\<lparr>interesting_stream_ids := eui64set_clear (interesting_stream_ids s)\<rparr>))
      else None)"

text \<open>The return value, the messages to the client that sent the command, and the database.\<close>

definition msrp_recv_cmd ::
  "qsort \<Rightarrow> msrp_database option \<Rightarrow> string \<Rightarrow> nat \<Rightarrow> sockaddr_in \<Rightarrow> (int \<times> string list \<times> msrp_database option) option" where
  "msrp_recv_cmd qsort db buf buflen client =
     (case db of
        None \<Rightarrow> do { t \<leftarrow> c_string buf; Some (-1, [snprintf 63 (''ERC MSRP_db '' @ t @ newline)], None) }
      | Some s \<Rightarrow>
          let s = add_client s client in
          if enable_pruning_of_uninteresting_ids s \<and> mrp_client_count (clients (mrp_db s)) > 1 then
            Some (-1, [''ERR pruning enabled too many clients'' @ newline], Some (drop_client s client))
          else if buflen < 3 then Some (-1, [], Some s)
          else if buf = [] \<or> hd buf \<noteq> CHR ''S'' \<and> hd buf \<noteq> CHR ''I'' then Some (-1, [], Some s)
          else if take 3 buf = ''S??'' then do { (rc, r, s) \<leftarrow> msrp_dumptable s; Some (0, r, Some s) }
          else (case msrp_command qsort buf buflen s of
              None \<Rightarrow> do { r \<leftarrow> respond 63 ''ERC MSRP '' buf; Some (-1, r, Some s) }
            | Some cmd \<Rightarrow> do {
                (e, buf, s) \<leftarrow> cmd;
                case e of
                  Cmd_done \<Rightarrow> Some (0, [], Some s)
                | Cmd_erp \<Rightarrow> do { r \<leftarrow> respond 63 ''ERP '' buf; Some (-1, r, Some s) }
                | Cmd_eri \<Rightarrow> do { r \<leftarrow> respond 63 ''ERI '' buf; Some (-1, r, Some s) } }))"

section \<open>Lifetime\<close>

text \<open>
  The environment is given as a database; the socket and the timers answer \<open>sock_rc\<close> and \<open>timers_rc\<close>.
  The result is the return value, whether the socket is open, and the database.
\<close>

definition msrp_init :: "bool \<Rightarrow> int \<Rightarrow> bool \<Rightarrow> int \<Rightarrow> int \<Rightarrow> msrp_database \<Rightarrow> int \<times> bool \<times> msrp_database option" where
  "msrp_init msrp_enable max_interesting_stream_ids enable_pruning sock_rc timers_rc env =
     (if \<not> msrp_enable then (0, False, None)
      else if sock_rc < 0 then (-1, False, None)
      else
        let (ok, s) = mrpd_malloc env in
        if \<not> ok then (-1, False, None)
        else
          let n = (if max_interesting_stream_ids < 8 then 8 else max_interesting_stream_ids);
              s = reset_application s;
              (mem, s) = mrpd_malloc s;
              (rc, set) = eui64set_init mem n
          in if rc < 0 then (-1, False, None)
             else
               let s = s\<lparr>interesting_stream_ids := set, enable_pruning_of_uninteresting_ids := enable_pruning\<rparr>
               in if timers_rc < 0 then (-1, False, None)
                  else (0, True, Some (on_db (\<lambda>db. mrp_lvatimer_fsm db MRP_EVENT_BEGIN) s)))"

definition msrp_interesting_id_count :: "msrp_database option \<Rightarrow> int" where
  "msrp_interesting_id_count db = (case db of None \<Rightarrow> 0 | Some s \<Rightarrow> eui64set_num_entries (interesting_stream_ids s))"

definition msrp_bye :: "msrp_database option \<Rightarrow> sockaddr_in \<Rightarrow> msrp_database option" where
  "msrp_bye db client = map_option (\<lambda>s. drop_client s client) db"

end
