(* ===== verification/Msrp_Invariant.thy ===== *)
theory Msrp_Invariant
  imports Msrp_Commands Mrp_Passes
begin

text \<open>
  The invariant of the database of streams, and that the operations on the list and the events
  keep it: no two attributes have the same key, identifiers and addresses have their
  lengths, the machines are in states of their own kind, and the table of interesting streams
  is sorted.
\<close>

section \<open>Keys and shapes\<close>

datatype msrp_key = Talker_key "u8 list" | Listener_key "u8 list" | Domain_key u8

definition attr_key :: "msrp_attribute \<Rightarrow> msrp_key" where
  "attr_key a =
     (case s_type a of
        MSRP_LISTENER_TYPE \<Rightarrow> Listener_key (StreamID (talk_listen a))
      | MSRP_DOMAIN_TYPE \<Rightarrow> Domain_key (SRclassID (domain a))
      | _ \<Rightarrow> Talker_key (StreamID (talk_listen a)))"

lemma match_key: "msrp_match r a \<longleftrightarrow> attr_key a = attr_key r"
  by (cases "s_type r"; cases "s_type a") (auto simp: msrp_match_def attr_key_def)

definition talker_shape :: "msrpdu_talker_fail \<Rightarrow> bool" where
  "talker_shape v \<longleftrightarrow> length (StreamID v) = 8 \<and> length (Dest_Addr v) = 6 \<and> length (BridgeID v) = 8"

definition attr_shape :: "msrp_attribute \<Rightarrow> bool" where
  "attr_shape a \<longleftrightarrow> talker_shape (talk_listen a)"

definition shaped :: "msrp_attribute list \<Rightarrow> bool" where
  "shaped as \<longleftrightarrow> distinct (map attr_key as) \<and> list_all attr_shape as"

definition msrp_inv :: "msrp_database \<Rightarrow> bool" where
  "msrp_inv s \<longleftrightarrow> app_inv s \<and> shaped (attrib_list s) \<and> eui_inv (interesting_stream_ids s)"

text \<open>Key and shape belong to the value that the application adds to an attribute.\<close>

definition of_value :: "unit msrp_attribute_ext \<Rightarrow> msrp_attribute" where
  "of_value x = (\<lparr>applicant = new_applicant, registrar = new_registrar, \<dots> = x\<rparr>)"

lemma of_value_fields [simp]:
  "s_type (of_value (mrp_attribute.more a)) = s_type a" "talk_listen (of_value (mrp_attribute.more a)) = talk_listen a"
  "domain (of_value (mrp_attribute.more a)) = domain a"
  by (cases a; simp add: of_value_def)+

lemma of_value_more [simp]:
  "attr_key (of_value (mrp_attribute.more a)) = attr_key a" "attr_shape (of_value (mrp_attribute.more a)) = attr_shape a"
  by (simp_all add: attr_key_def attr_shape_def split: msrp_type.split)

lemma values_key_shape:
  "map attr_key as = map (\<lambda>x. attr_key (of_value x)) (values_of as)" "list_all attr_shape as = list_all (\<lambda>x. attr_shape (of_value x)) (values_of as)"
  by (simp_all add: values_of_def list_all_iff)

lemma shaped_values:
  fixes as ys :: "msrp_attribute list"
  assumes "subseq (values_of ys) (values_of as)" "shaped as"
  shows "shaped ys"
proof -
  have "subseq (map attr_key ys) (map attr_key as)"
    using subseq_map [OF assms(1), of "\<lambda>x. attr_key (of_value x)"] by (simp add: values_key_shape(1) [symmetric])
  moreover have "list_all attr_shape ys"
    using assms subseq_set [OF assms(1)] unfolding shaped_def values_key_shape(2) by (auto simp: list_all_iff)
  ultimately show ?thesis using assms(2) subseq_distinct by (auto simp: shaped_def)
qed

lemma msrp_inv_shrinks:
  assumes "msrp_inv s" "app_inv t" "subseq (values_of (attrib_list t)) (values_of (attrib_list s))"
    "interesting_stream_ids t = interesting_stream_ids s"
  shows "msrp_inv t"
  using assms shaped_values by (auto simp: msrp_inv_def)

lemma env_set: "same_env s t \<Longrightarrow> interesting_stream_ids t = interesting_stream_ids s"
  "same_env s t \<Longrightarrow> enable_pruning_of_uninteresting_ids t = enable_pruning_of_uninteresting_ids s" for s :: msrp_database
  by (cases s; cases t; simp add: same_env_def)+

lemma msrp_inv_env: "msrp_inv s \<Longrightarrow> same_env s t \<Longrightarrow> attrib_list t = attrib_list s \<Longrightarrow> msrp_inv t"
  using app_inv_env env_set(1) by (auto simp: msrp_inv_def)

section \<open>Passes\<close>

lemma msrp_passes:
  assumes "msrp_inv s"
  shows "msrp_inv (over_list (both_step e) s)" "msrp_inv (over_list (\<lambda>a s. ([applicant_step e a s], s)) s)"
    "msrp_inv (over_list msrp_conditional_reclaim s)" "msrp_inv (msrp_notify s)"
    "msrp_inv (over_list (\<lambda>a s. if P a then both_step e a s else ([a], s)) s)"
proof -
  have a: "app_inv s" using assms by (simp add: msrp_inv_def)
  note shrink = msrp_inv_shrinks [OF assms]
  show "msrp_inv (over_list (both_step e) s)" using shrink both.over_list_app [OF a] env_set(1) by blast
  show "msrp_inv (over_list (\<lambda>a s. ([applicant_step e a s], s)) s)" using shrink applicants.over_list_app [OF a] env_set(1) by blast
  show "msrp_inv (over_list msrp_conditional_reclaim s)"
    unfolding msrp_conditional_reclaim_def using shrink reclaims.over_list_app [OF a] env_set(1) by blast
  show "msrp_inv (msrp_notify s)" unfolding msrp_notify_def using shrink notifies.over_list_app [OF a] env_set(1) by blast
  show "msrp_inv (over_list (\<lambda>a s. if P a then both_step e a s else ([a], s)) s)"
    using shrink selective.over_list_app [OF a] env_set(1) by blast
qed

lemma msrp_pass_env:
  assumes "msrp_inv s"
  shows "same_env s (msrp_notify s)" "same_env s (over_list (\<lambda>a s. if P a then both_step e a s else ([a], s)) s)"
  using assms notifies.over_list_app(2) selective.over_list_app(2) by (auto simp: msrp_inv_def msrp_notify_def)

lemma msrp_timers:
  assumes "msrp_inv s"
  shows "msrp_inv (on_db mrp_jointimer_start s)" "msrp_inv (on_db mrp_jointimer_stop s)" "msrp_inv (on_db mrp_lvatimer_stop s)"
    "msrp_inv (on_db (\<lambda>db. mrp_lvatimer_fsm db e) s)"
  by (auto intro!: msrp_inv_env [OF assms])

section \<open>Insertion and merging\<close>

lemma set_insert_sorted_type [simp]: "set (insert_sorted_type r as) = insert r (set as)"
  by (induction r as rule: insert_sorted_type.induct) auto

lemma mset_insert_sorted_type: "mset (insert_sorted_type r as) = add_mset r (mset as)"
  by (induction r as rule: insert_sorted_type.induct) auto

lemma lookup_key:
  "msrp_lookup s r = None \<longleftrightarrow> attr_key r \<notin> attr_key ` set (attrib_list s)"
  "msrp_lookup s r = Some a \<Longrightarrow> a \<in> set (attrib_list s) \<and> attr_key a = attr_key r"
proof -
  show "msrp_lookup s r = None \<longleftrightarrow> attr_key r \<notin> attr_key ` set (attrib_list s)"
    unfolding msrp_lookup_def find_None_iff match_key image_iff by auto
  show "msrp_lookup s r = Some a \<Longrightarrow> a \<in> set (attrib_list s) \<and> attr_key a = attr_key r"
    by (auto simp: msrp_lookup_def find_Some_iff match_key)
qed

lemma shaped_insert:
  assumes "shaped as" "attr_shape r" "attr_key r \<notin> attr_key ` set as"
  shows "shaped (insert_sorted_type r as)"
proof -
  have "mset (map attr_key (insert_sorted_type r as)) = mset (map attr_key (r # as))" by (simp add: mset_insert_sorted_type)
  then have "distinct (map attr_key (insert_sorted_type r as)) = distinct (map attr_key (r # as))" by (rule mset_eq_imp_distinct_iff)
  then show ?thesis using assms by (auto simp: shaped_def list_all_iff)
qed

text \<open>What merging may do to one attribute.\<close>

definition merge_ok :: "(msrp_attribute \<Rightarrow> msrp_attribute) \<Rightarrow> (msrp_attribute \<Rightarrow> bool) \<Rightarrow> bool" where
  "merge_ok f P \<longleftrightarrow> (\<forall>a. P a \<longrightarrow> attr_key (f a) = attr_key a \<and> (attr_shape a \<longrightarrow> attr_shape (f a)) \<and> (attr_ok a \<longrightarrow> attr_ok (f a)) \<and>
     (leaving (f a) \<longrightarrow> leaving a))"

lemma update_first_ok:
  assumes "merge_ok f P" "shaped as" "list_all attr_ok as" "covered as s"
  shows "shaped (update_first P f as)" "list_all attr_ok (update_first P f as)" "covered (update_first P f as) s"
proof -
  have "map attr_key (update_first P f as) = map attr_key as" using assms(1) by (induction as) (auto simp: merge_ok_def)
  moreover have "list_all attr_shape (update_first P f as)"
    using assms(1,2) unfolding shaped_def by (induction as) (auto simp: merge_ok_def)
  ultimately show "shaped (update_first P f as)" using assms(2) by (simp add: shaped_def)
  show "list_all attr_ok (update_first P f as)" using assms(1,3) by (induction as) (auto simp: merge_ok_def)
  show "covered (update_first P f as) s" using assms(1,4) by (induction as) (auto simp: merge_ok_def covered_def)
qed

lemma force_notify_simps [simp]:
  "attr_key (force_notify a) = attr_key a" "attr_shape (force_notify a) = attr_shape a" "\<not> leaving (force_notify a)"
  "attr_ok a \<Longrightarrow> attr_ok (force_notify a)" "applicant (force_notify a) = applicant a" "s_type (force_notify a) = s_type a"
  by (auto simp: force_notify_def attr_key_def attr_shape_def leaving_def attr_ok_def pdu_event_None registrar_state_def split: msrp_type.split)

lemma merge_address_simps [simp]:
  "attr_key (merge_address r a) = attr_key a" "attr_shape (merge_address r a) = attr_shape a" "leaving (merge_address r a) = leaving a"
  "attr_ok (merge_address r a) = attr_ok a" "s_type (merge_address r a) = s_type a" "applicant (merge_address r a) = applicant a"
  by (auto simp: merge_address_def attr_key_def attr_shape_def leaving_def attr_ok_def pdu_event_None split: msrp_type.split)

lemma machine_fields [simp]:
  "attr_ok (a\<lparr>talk_listen := v\<rparr>) = attr_ok a" "attr_ok (a\<lparr>s_type := t\<rparr>) = attr_ok a" "attr_ok (a\<lparr>substate := u\<rparr>) = attr_ok a"
  "attr_ok (a\<lparr>domain := d\<rparr>) = attr_ok a" "attr_ok (a\<lparr>operation := p\<rparr>) = attr_ok a"
  "leaving (a\<lparr>talk_listen := v\<rparr>) = leaving a" "leaving (a\<lparr>s_type := t\<rparr>) = leaving a" "leaving (a\<lparr>substate := u\<rparr>) = leaving a"
  "leaving (a\<lparr>domain := d\<rparr>) = leaving a" "leaving (a\<lparr>operation := p\<rparr>) = leaving a"
  for a :: msrp_attribute
  by (simp_all add: attr_ok_def leaving_def pdu_event_None)

lemma merges_ok:
  assumes "attr_shape r"
  shows "merge_ok (merge_address r) P" "is_talker (s_type r) \<Longrightarrow> merge_ok (\<lambda>a. merge_talker r (merge_address r a)) (\<lambda>a. is_talker (s_type a))"
    "merge_ok (\<lambda>a. merge_listener r (merge_address r a)) P" "merge_ok (\<lambda>a. merge_domain r (merge_address r a)) P"
proof -
  have k: "attr_key (a\<lparr>substate := u\<rparr>) = attr_key a" "attr_shape (a\<lparr>substate := u\<rparr>) = attr_shape a"
    "attr_shape (a\<lparr>domain := d\<rparr>) = attr_shape a" "attr_shape (a\<lparr>s_type := t\<rparr>) = attr_shape a" for a u d t
    by (simp_all add: attr_key_def attr_shape_def split: msrp_type.split)
  have d: "attr_key (a\<lparr>domain := (domain a)\<lparr>neighborSRclassPriority := x, SRclassVID := y\<rparr>\<rparr>) = attr_key a" for a x y
    by (cases "s_type a") (simp_all add: attr_key_def)
  have t: "attr_key (a\<lparr>talk_listen := (talk_listen a)\<lparr>FailureCode := x, BridgeID := y\<rparr>\<rparr>) = attr_key a" for a x y
    by (cases "s_type a") (simp_all add: attr_key_def)
  have y: "is_talker (s_type a) \<Longrightarrow> is_talker x \<Longrightarrow> attr_key (a\<lparr>s_type := x\<rparr>) = attr_key a" for a x
    by (cases "s_type a"; cases x) (simp_all add: attr_key_def is_talker_def)
  have z: "attr_shape (a\<lparr>talk_listen := (talk_listen a)\<lparr>FailureCode := x, BridgeID := BridgeID (talk_listen r)\<rparr>\<rparr>) = attr_shape a" if "attr_shape a" for a x
    using assms that by (simp add: attr_shape_def talker_shape_def)
  show "merge_ok (merge_address r) P" by (simp add: merge_ok_def)
  show "merge_ok (\<lambda>a. merge_listener r (merge_address r a)) P" by (auto simp: merge_ok_def merge_listener_def k)
  show "merge_ok (\<lambda>a. merge_domain r (merge_address r a)) P" by (auto simp: merge_ok_def merge_domain_def k d)
  show "merge_ok (\<lambda>a. merge_talker r (merge_address r a)) (\<lambda>a. is_talker (s_type a))" if "is_talker (s_type r)"
    using that by (auto simp: merge_ok_def merge_talker_def Let_def k t y z)
qed

lemma merge_ok_mono: "merge_ok f P \<Longrightarrow> (\<And>a. Q a \<Longrightarrow> P a) \<Longrightarrow> merge_ok f Q"
  by (simp add: merge_ok_def)

lemma merge_into_inv:
  assumes "msrp_inv s" "merge_ok (\<lambda>a. f (merge_address r a)) (msrp_match r)"
  shows "msrp_inv (merge_into r f s)" "same_env s (merge_into r f s)"
proof -
  show "same_env s (merge_into r f s)" by (simp add: merge_into_def)
  show "msrp_inv (merge_into r f s)"
    using update_first_ok [OF assms(2), of "attrib_list s" s] assms(1)
    by (auto simp: msrp_inv_def app_inv_def merge_into_def covered_def timers_ok_def)
qed

lemma msrp_alloc_ok:
  assumes "msrp_alloc t s = (r, s')"
  shows "same_env s s'" "attrib_list s' = attrib_list s" "\<And>a. r = Some a \<Longrightarrow> fresh a \<and> attr_shape a \<and> s_type a = t"
  using assms by (auto simp: msrp_alloc_def mrpd_malloc_def Let_def same_env_def attr_shape_def talker_shape_def zero_talker_def
      intro!: new_fresh(2) split: if_splits) (simp add: new_registrar_def)

text \<open>Merging updates the attribute that the lookup finds.\<close>

lemma msrp_merge_into:
  assumes "attr_shape r" "msrp_lookup s r = Some a"
  shows "\<exists>f u. snd (msrp_merge s r) = merge_into r f u \<and> attrib_list u = attrib_list s \<and> same_env s u \<and>
    merge_ok (\<lambda>a. f (merge_address r a)) (msrp_match r)"
proof -
  define into where "into = (\<lambda>t. \<exists>f u. t = merge_into r f u \<and> attrib_list u = attrib_list s \<and> same_env s u \<and> merge_ok (\<lambda>a. f (merge_address r a)) (msrp_match r))"
  have intoI: "into (merge_into r f u)" if "attrib_list u = attrib_list s" "same_env s u" "merge_ok (\<lambda>a. f (merge_address r a)) (msrp_match r)" for f u
    using that unfolding into_def by blast
  have m: "into (merge_into r id u)" "into (merge_into r (merge_listener r) u)" "into (merge_into r (merge_domain r) u)"
    if "attrib_list u = attrib_list s" "same_env s u" for u
    by (rule intoI [OF that]; use merges_ok(1,3,4) [OF assms(1), of "msrp_match r"] in simp)+
  have tk: "into (merge_into r (merge_talker r) s)" if "is_talker (s_type a)"
  proof -
    have "attr_key a = attr_key r" using lookup_key(2) [OF assms(2)] by simp
    then have t: "is_talker (s_type r)" using that by (cases "s_type a"; cases "s_type r") (simp_all add: attr_key_def is_talker_def)
    have "is_talker (s_type b)" if "msrp_match r b" for b
      using that t by (cases "s_type b"; cases "s_type r") (simp_all add: match_key attr_key_def is_talker_def)
    then have "merge_ok (\<lambda>a. merge_talker r (merge_address r a)) (msrp_match r)" using merge_ok_mono merges_ok(2) [OF assms(1) t] by blast
    then show ?thesis by (rule intoI [OF refl same_env_refl])
  qed
  have al: "attrib_list u = attrib_list s" "same_env s u" if "msrp_alloc t s = (x, u)" for t x u using msrp_alloc_ok(1,2) [OF that] by simp_all
  obtain x u where u: "msrp_alloc MSRP_TALKER_ADV_TYPE s = (x, u)" by (cases "msrp_alloc MSRP_TALKER_ADV_TYPE s")
  have "into (snd (msrp_merge s r))"
    using assms(2) tk u m [OF al [OF u]] m [OF refl same_env_refl] by (cases "s_type a") (auto simp: msrp_merge_def is_talker_def split: option.split)
  then show ?thesis by (simp add: into_def)
qed

lemma msrp_merge_inv:
  assumes "msrp_inv s" "attr_shape r"
  shows "msrp_inv (snd (msrp_merge s r))" "same_env s (snd (msrp_merge s r))"
proof -
  have "msrp_inv (snd (msrp_merge s r)) \<and> same_env s (snd (msrp_merge s r))"
  proof (cases "msrp_lookup s r")
    case None
    then show ?thesis using assms(1) by (simp add: msrp_merge_def)
  next
    case (Some a)
    from msrp_merge_into [OF assms(2) Some] obtain f u where u: "snd (msrp_merge s r) = merge_into r f u" "attrib_list u = attrib_list s" "same_env s u"
      "merge_ok (\<lambda>a. f (merge_address r a)) (msrp_match r)" by blast
    have "msrp_inv u" using msrp_inv_env [OF assms(1) u(3,2)] .
    then show ?thesis using merge_into_inv [OF _ u(4)] u(1,3) same_env_trans by metis
  qed
  then show "msrp_inv (snd (msrp_merge s r))" "same_env s (snd (msrp_merge s r))" by simp_all
qed

section \<open>Events without transmission\<close>

definition msrp_fresh :: "msrp_attribute \<Rightarrow> bool" where
  "msrp_fresh r \<longleftrightarrow> fresh r \<and> attr_shape r"

lemma add_or_merge_inv:
  assumes "msrp_inv s" "msrp_fresh r"
  defines "t \<equiv> (if msrp_lookup s r = None then msrp_add s r else snd (msrp_merge s r))"
  shows "msrp_inv t" "same_env s t"
proof -
  have f: "attr_ok r" "\<not> leaving r" "attr_shape r" using assms(2) by (simp_all add: msrp_fresh_def fresh_def)
  note m = msrp_merge_inv [OF assms(1) f(3)]
  have a: "msrp_inv (msrp_add s r)" if "msrp_lookup s r = None"
    using assms(1) f shaped_insert [OF _ f(3)] that
    by (auto simp: msrp_inv_def app_inv_def msrp_add_def lookup_key covered_def timers_ok_def list_all_iff)
  show "msrp_inv t" "same_env s t" using m a by (simp_all add: t_def msrp_add_def)
qed

lemma msrp_event_attribute_ok:
  assumes "msrp_inv s" "msrp_fresh r"
  shows "msrp_inv (snd (msrp_event_attribute e r s))" "same_env s (snd (msrp_event_attribute e r s))"
proof -
  let ?j = "on_db mrp_jointimer_start s"
  let ?t = "if msrp_lookup ?j r = None then msrp_add ?j r else snd (msrp_merge ?j r)"
  let ?body = "\<lambda>a s. case attribute_step e a s of (a, s) \<Rightarrow> msrp_conditional_reclaim a s"
  have j: "msrp_inv ?j" "same_env s ?j" using msrp_timers(1) [OF assms(1)] by simp_all
  note t = add_or_merge_inv [OF j(1) assms(2)]
  obtain ys s' where b: "at_first (msrp_match r) ?body (attrib_list ?t) ?t = (ys, s')"
    by (cases "at_first (msrp_match r) ?body (attrib_list ?t) ?t")
  have a: "list_all attr_ok (attrib_list ?t)" "timers_ok ?t" "covered (attrib_list ?t) ?t" using t(1) by (simp_all add: msrp_inv_def app_inv_def)
  note o = requests.at_first_ok [OF a b [unfolded msrp_conditional_reclaim_def]]
  have "app_inv (s'\<lparr>attrib_list := ys\<rparr>)" using o timers_ok_env [of ?t s'] a(2) by (simp add: app_inv_def covered_def timers_ok_def)
  moreover have "same_env s (s'\<lparr>attrib_list := ys\<rparr>)"
    using same_env_trans [OF same_env_trans [OF j(2) t(2)], of s'] o by simp
  moreover have "msrp_inv (s'\<lparr>attrib_list := ys\<rparr>)"
    by (rule msrp_inv_shrinks [OF t(1) calculation(1)]) (use o env_set(1) [of ?t s'] in simp_all)
  moreover have "snd (msrp_event_attribute e r s) =
      (if \<not> interested s r then s else if msrp_lookup ?j r = None \<and> e = MRP_EVENT_RMT then ?j else s'\<lparr>attrib_list := ys\<rparr>)"
    using b by (simp add: msrp_event_attribute_def Let_def)
  ultimately show "msrp_inv (snd (msrp_event_attribute e r s))" "same_env s (snd (msrp_event_attribute e r s))"
    using assms(1) j by simp_all
qed

lemma msrp_event_rla_ok:
  assumes "msrp_inv s"
  shows "msrp_inv (msrp_event_rla t s)" "same_env s (msrp_event_rla t s)"
proof -
  let ?p = "over_list (\<lambda>a s. if s_type a = t then both_step MRP_EVENT_RLA a s else ([a], s)) s"
  note p = msrp_passes(5) [OF assms] and e = msrp_pass_env(2) [OF assms]
  show "msrp_inv (msrp_event_rla t s)" unfolding msrp_event_rla_def by (rule msrp_timers(4) [OF p])
  show "same_env s (msrp_event_rla t s)" unfolding msrp_event_rla_def by (rule same_env_trans [OF e on_db_env(5)])
qed

lemma msrp_event_lvtimer_inv: "msrp_inv s \<Longrightarrow> msrp_inv (msrp_event_lvtimer s)"
proof -
  assume i: "msrp_inv s"
  let ?s = "on_db mrp_lvtimer_stop s"
  have "list_all attr_ok (attrib_list ?s)" "timers_ok ?s" using i by (simp_all add: msrp_inv_def app_inv_def lvtimer_stop_env)
  note o = leaves.over_list_ok [OF this, simplified]
  have "interesting_stream_ids ?s = interesting_stream_ids s" by (simp add: on_db_def)
  then show ?thesis unfolding msrp_event_lvtimer_def msrp_conditional_reclaim_def
    by (intro msrp_inv_shrinks [OF i]) (use o env_set(1) in \<open>simp_all, metis\<close>)
qed

definition silent_event :: "mrp_event \<Rightarrow> bool" where
  "silent_event e \<longleftrightarrow> e \<noteq> MRP_EVENT_TX \<and> e \<noteq> MRP_EVENT_LVATIMER"

text \<open>An event that does not transmit always ends, and keeps the invariant.\<close>

lemma msrp_silent_event:
  assumes "msrp_inv s" "silent_event e" "\<And>r. rattrib = Some r \<Longrightarrow> msrp_fresh r"
  shows "\<exists>rc s'. msrp_event s e rattrib = Some (rc, s') \<and> msrp_inv s'"
proof -
  let ?j = "on_db mrp_jointimer_start s"
  have n: "msrp_inv (msrp_notify u)" if "msrp_inv u" for u using msrp_passes(4) [OF that] .
  have a: "msrp_inv (snd (msrp_event_attribute e r s))" if "rattrib = Some r" for r
    using msrp_event_attribute_ok(1) [OF assms(1) assms(3) [OF that]] .
  have j: "msrp_inv ?j" "msrp_inv (msrp_event_rla t ?j)" for t using msrp_timers(1) [OF assms(1)] msrp_event_rla_ok(1) by blast+
  show ?thesis
    using assms(1,2) a j n msrp_event_lvtimer_inv [OF assms(1)]
    by (cases e; cases rattrib) (auto simp: msrp_event_def silent_event_def Let_def split: prod.split)
qed

lemma msrp_attribute_event_env:
  assumes "msrp_inv s" "msrp_fresh r" "msrp_event s e (Some r) = Some (rc, s')" "silent_event e" "e \<noteq> MRP_EVENT_LVTIMER"
  shows "same_env s s'"
proof -
  let ?j = "on_db mrp_jointimer_start s"
  obtain go t where t: "msrp_event_attribute e r s = (go, t)" by (cases "msrp_event_attribute e r s")
  have o: "msrp_inv t" "same_env s t" using msrp_event_attribute_ok [OF assms(1,2), of e] t by simp_all
  have n: "same_env s (msrp_notify u)" if "same_env s u" "msrp_inv u" for u using same_env_trans [OF that(1) msrp_pass_env(1) [OF that(2)]] .
  have j: "msrp_inv ?j" "same_env s ?j" using msrp_timers(1) [OF assms(1)] by simp_all
  have rla: "same_env s (msrp_notify (msrp_event_rla (s_type r) ?j))"
    by (rule n) (use msrp_event_rla_ok [OF j(1)] same_env_trans [OF j(2)] in blast)+
  show ?thesis
    using assms(1,3-5) t o n [OF o(2,1)] n [OF same_env_refl assms(1)] rla
    by (cases e) (auto simp: msrp_event_def silent_event_def Let_def split: if_splits)
qed

end
