(* ===== verification/Msrp_Receive.thy ===== *)
theory Msrp_Receive
  imports Msrp_Invariant
begin

text \<open>
  Receiving in the stream reservation protocol is safe: whatever a frame holds, its handling ends
  without a read behind the buffer and keeps the invariant, because the bytes of the buffer
  behind the frame are zero.
\<close>

section \<open>Values\<close>

lemma talker_shape_next: "talker_shape (fst v) \<Longrightarrow> talker_shape (fst (next_value t v))"
  by (cases v; cases t) (simp_all add: next_value_def talker_shape_def msrp_increment_streamid_def mmrp_increment_macaddr_def)

lemma talker_shape_read: "length bs = type_length t \<Longrightarrow> talker_shape (fst (read_value t bs))"
  by (cases t) (simp_all add: read_value_def talker_shape_def zero_talker_def)

lemma received_fresh:
  assumes "msrp_alloc t s = (Some a, s')" "talker_shape (fst v)"
  shows "msrp_fresh (received src v sub a)"
proof -
  have "applicant a = new_applicant" "registrar a = new_registrar"
    using assms(1) by (auto simp: msrp_alloc_def mrpd_malloc_def Let_def split: if_splits)
  then have "fresh (received src v sub a)" by (intro new_fresh(2)) (simp_all add: received_def new_registrar_def)
  then show ?thesis using assms(2) by (simp add: msrp_fresh_def received_def attr_shape_def)
qed

lemma rx_event_silent: "rx_event c = Some e \<Longrightarrow> silent_event e \<and> e \<noteq> MRP_EVENT_LVTIMER \<and> e \<noteq> MRP_EVENT_RLA"
  by (auto simp: rx_event_def silent_event_def split: if_splits)

lemma msrp_alloc_inv: "msrp_inv s \<Longrightarrow> msrp_alloc t s = (r, s') \<Longrightarrow> msrp_inv s'"
  using msrp_alloc_ok(1,2) msrp_inv_env by blast

lemma msrp_rx_values_total:
  assumes "msrp_inv s" "talker_shape (fst v)" "t = MSRP_LISTENER_TYPE \<longrightarrow> length cs \<le> length subs"
  shows "\<exists>ok v' subs' s'. msrp_rx_values t src cs v subs s = Some (ok, v', subs', s') \<and> msrp_inv s' \<and> talker_shape (fst v') \<and>
    (ok \<longrightarrow> t = MSRP_LISTENER_TYPE \<longrightarrow> length subs' = length subs - length cs)"
  using assms
proof (induction cs arbitrary: v subs s)
  case Nil
  then show ?case by auto
next
  case (Cons c cs)
  define sub rest where "sub = (if t \<noteq> MSRP_LISTENER_TYPE then 0 else hd subs)" and "rest = (if t \<noteq> MSRP_LISTENER_TYPE then subs else tl subs)"
  have st: "(if t \<noteq> MSRP_LISTENER_TYPE then Some (0, subs) else (case subs of [] \<Rightarrow> None | x # xs \<Rightarrow> Some (x, xs))) = Some (sub, rest)"
    using Cons.prems(3) by (cases subs) (auto simp: sub_def rest_def)
  have len: "t = MSRP_LISTENER_TYPE \<longrightarrow> length cs \<le> length rest \<and> length subs = Suc (length rest)"
    using Cons.prems(3) by (cases subs) (auto simp: rest_def)
  note nv = talker_shape_next [OF Cons.prems(2), of t]
  show ?case
  proof (cases "t = MSRP_LISTENER_TYPE \<and> sub = MSRP_LISTENER_IGNORE")
    case True
    have "msrp_rx_values t src (c # cs) v subs s = msrp_rx_values t src cs (next_value t v) rest s"
      unfolding msrp_rx_values.simps st bind.bind_lunit prod.case by (rule if_P [OF True])
    then show ?thesis using Cons.IH [OF Cons.prems(1) nv, of rest] len by auto
  next
    case False
    obtain r u where al: "msrp_alloc t s = (r, u)" by (cases "msrp_alloc t s")
    have u: "msrp_inv u" using msrp_alloc_inv [OF Cons.prems(1) al] .
    show ?thesis
    proof (cases r)
      case None
      have "msrp_rx_values t src (c # cs) v subs s = Some (False, v, rest, u)"
        unfolding msrp_rx_values.simps st bind.bind_lunit prod.case if_not_P [OF False] al None option.case by (rule refl)
      then show ?thesis using u Cons.prems(2) by auto
    next
      case (Some a)
      let ?a = "received src v sub a"
      have f: "msrp_fresh ?a" using received_fresh Cons.prems(2) al Some by blast
      have "\<exists>w. (case rx_event c of None \<Rightarrow> Some u | Some e \<Rightarrow> map_option snd (msrp_event u e (Some ?a))) = Some w \<and> msrp_inv w"
      proof (cases "rx_event c")
        case None
        then show ?thesis using u by simp
      next
        case (Some e)
        then show ?thesis using msrp_silent_event [OF u, of e "Some ?a"] f rx_event_silent [OF Some] by auto
      qed
      then obtain w where w: "(case rx_event c of None \<Rightarrow> Some u | Some e \<Rightarrow> map_option snd (msrp_event u e (Some ?a))) = Some w" "msrp_inv w" by blast
      have "msrp_rx_values t src (c # cs) v subs s = msrp_rx_values t src cs (next_value t v) rest w"
        unfolding msrp_rx_values.simps st bind.bind_lunit prod.case if_not_P [OF False] al Some option.case w(1) by (rule refl)
      then show ?thesis using Cons.IH [OF w(2) nv, of rest] len by auto
    qed
  qed
qed

lemma msrp_rx_bytes_step:
  assumes "rd buf i = Some b"
  shows "msrp_rx_bytes t buf src i (Suc k) n v subs s =
    (if hd (unpack3 b) > mrpdu_code MRPDU_LV then msrp_rx_bytes t buf src (Suc i) k (n - min 3 n) v subs s
     else do {
       (ok, v, subs, s) \<leftarrow> msrp_rx_values t src (take (min 3 n) (unpack3 b)) v subs s;
       if \<not> ok then Some (False, s) else msrp_rx_bytes t buf src (Suc i) k (n - min 3 n) v subs s })"
proof -
  have "(if n > 3 then 3 else n) = min 3 n" by simp
  then show ?thesis using assms by (simp only: msrp_rx_bytes.simps Let_def bind.bind_lunit)
qed

lemma msrp_rx_bytes_total:
  assumes "msrp_inv s" "talker_shape (fst v)" "t = MSRP_LISTENER_TYPE \<longrightarrow> n \<le> length subs" "i + k \<le> length buf"
  shows "\<exists>ok s'. msrp_rx_bytes t buf src i k n v subs s = Some (ok, s') \<and> msrp_inv s'"
  using assms
proof (induction k arbitrary: i n v subs s)
  case 0
  then show ?case by auto
next
  case (Suc k)
  let ?cs = "take (min 3 n) (unpack3 (buf ! i))"
  have r: "rd buf i = Some (buf ! i)" using Suc.prems(4) by (simp add: rd_def)
  have i: "Suc i + k \<le> length buf" using Suc.prems(4) by simp
  have l: "length ?cs = min 3 n" by (simp add: unpack3_def Let_def)
  show ?case
  proof (cases "hd (unpack3 (buf ! i)) > mrpdu_code MRPDU_LV")
    case True
    have "t = MSRP_LISTENER_TYPE \<longrightarrow> n - min 3 n \<le> length subs" using Suc.prems(3) by auto
    then show ?thesis using Suc.IH [OF Suc.prems(1,2) _ i] unfolding msrp_rx_bytes_step [OF r] if_P [OF True] by blast
  next
    case False
    have "t = MSRP_LISTENER_TYPE \<longrightarrow> length ?cs \<le> length subs" using Suc.prems(3) l by auto
    from msrp_rx_values_total [OF Suc.prems(1,2) this, of src]
    obtain ok v' subs' u where v: "msrp_rx_values t src ?cs v subs s = Some (ok, v', subs', u)" "msrp_inv u"
      "talker_shape (fst v')" "ok \<longrightarrow> t = MSRP_LISTENER_TYPE \<longrightarrow> length subs' = length subs - length ?cs" by blast
    have "t = MSRP_LISTENER_TYPE \<longrightarrow> n - min 3 n \<le> length subs'" if ok using v(4) that Suc.prems(3) l by auto
    then have "\<exists>ok s'. msrp_rx_bytes t buf src (Suc i) k (n - min 3 n) v' subs' u = Some (ok, s') \<and> msrp_inv s'" if ok
      using Suc.IH [OF v(2,3) _ i] that by blast
    then show ?thesis unfolding msrp_rx_bytes_step [OF r] if_not_P [OF False] v(1) bind.bind_lunit prod.case using v(2) by (cases ok) auto
  qed
qed

section \<open>Listener states\<close>

lemma store_states_ok:
  assumes "msrp_inv s" "store_states cs acc sz s = (ok, acc', sz', s')"
  shows "msrp_inv s'" "ok \<Longrightarrow> acc' = acc @ cs"
proof -
  have "msrp_inv s' \<and> (ok \<longrightarrow> acc' = acc @ cs)"
    using assms
  proof (induction cs arbitrary: acc sz s)
    case (Cons c cs)
    have m: "msrp_inv (snd (mrpd_malloc s))" using msrp_inv_env [OF Cons.prems(1)] by simp
    show ?case
      using Cons.IH [OF Cons.prems(1), of "acc @ [c]" sz] Cons.IH [OF m, of "acc @ [c]" "sz + 64"] Cons.prems(2) m
      by (cases "length acc = sz"; cases "fst (mrpd_malloc s)") (auto simp: case_prod_beta)
  qed simp
  then show "msrp_inv s'" "ok \<Longrightarrow> acc' = acc @ cs" by simp_all
qed

lemma msrp_rx_four_total:
  assumes "msrp_inv s" "i + k \<le> length buf" "n \<le> 4 * k"
  shows "\<exists>ok acc' sz' s'. msrp_rx_four buf i k n acc sz s = Some (ok, acc', sz', s') \<and> msrp_inv s' \<and> (ok \<longrightarrow> length acc' = length acc + n)"
  using assms
proof (induction k arbitrary: i n acc sz s)
  case (Suc k)
  let ?m = "if n > 4 then 4 else n"
  have r: "rd buf i = Some (buf ! i)" using Suc.prems(2) by (simp add: rd_def)
  obtain ok acc1 sz1 u where st: "store_states (take ?m (unpack4 (buf ! i))) acc sz s = (ok, acc1, sz1, u)"
    using prod_cases4 by blast
  note o = store_states_ok [OF Suc.prems(1) st]
  have l: "length acc1 = length acc + ?m" if ok using o(2) [OF that] by (simp add: unpack4_def)
  have "Suc i + k \<le> length buf" "n - ?m \<le> 4 * k" using Suc.prems(2,3) by auto
  from Suc.IH [OF o(1) this, of acc1 sz1] show ?case using r st o(1) l by (cases ok) (auto simp: Let_def)
qed auto

lemma four_bytes_bounds: "n \<le> 4 * four_bytes n" "four_bytes n \<le> n div 4 + 1"
proof -
  have "four_bytes n = (n + 3) div 4" unfolding four_bytes_def by presburger
  then show "n \<le> 4 * four_bytes n" "four_bytes n \<le> n div 4 + 1" by presburger+
qed

lemma msrp_rx_states_total:
  assumes "msrp_inv s" "eof \<le> length buf"
  shows "\<exists>ok subs sz' s'. msrp_rx_states buf eof vp n sz s = Some (ok, subs, sz', s') \<and> msrp_inv s' \<and>
    (ok \<longrightarrow> length subs = n \<and> vp + 2 + (8 + vector_bytes n) + four_bytes n < eof)"
proof (cases "eof \<le> vp + 2 + (8 + vector_bytes n) + four_bytes n")
  case True
  then show ?thesis using assms(1) by (auto simp: msrp_rx_states_def)
next
  case False
  obtain ok sz1 u where a: "(if sz = 0 then (case mrpd_malloc s of (ok, s) \<Rightarrow> (ok, 64, s)) else (True, sz, s)) = (ok, sz1, u)"
    using prod_cases3 by blast
  have u: "msrp_inv u" using a assms(1) msrp_inv_env [OF assms(1), of "snd (mrpd_malloc s)"] by (auto split: if_splits prod.splits)
  have "vp + 2 + (8 + vector_bytes n) + four_bytes n \<le> length buf" using False assms(2) by simp
  from msrp_rx_four_total [OF u this four_bytes_bounds(1), of "[]" sz1] show ?thesis
    unfolding msrp_rx_states_def Let_def if_not_P [OF False] a using False u by (cases ok) auto
qed

section \<open>Vectors and messages\<close>

lemma rx_leaveall_total:
  assumes "msrp_inv s"
  shows "\<exists>ok saw' s'. rx_leaveall t l saw s = Some (ok, saw', s') \<and> msrp_inv s'"
proof -
  obtain r u where al: "msrp_alloc t s = (r, u)" by (cases "msrp_alloc t s")
  have u: "msrp_inv u" using msrp_alloc_inv [OF assms al] .
  have "\<exists>rc w. msrp_event u MRP_EVENT_RLA (Some a) = Some (rc, w) \<and> msrp_inv w" if "r = Some a" for a
    by (rule msrp_silent_event [OF u]) (use msrp_alloc_ok(3) [OF al that] in \<open>auto simp: silent_event_def msrp_fresh_def\<close>)
  then show ?thesis using assms u al by (cases r) (auto simp: rx_leaveall_def)
qed

text \<open>Behind the frame the buffer is zero.\<close>

definition zero_behind :: "u8 list \<Rightarrow> nat \<Rightarrow> bool" where
  "zero_behind buf eof \<longleftrightarrow> eof + 40 \<le> length buf \<and> (\<forall>i. eof \<le> i \<longrightarrow> i < length buf \<longrightarrow> buf ! i = 0)"

lemma type_length_le: "type_length t \<le> 34"
  by (cases t) simp_all

lemma msrp_rx_vector_total:
  assumes "msrp_inv s" "zero_behind buf eof" "vp < eof"
  shows "\<exists>r saw' sz' s'. msrp_rx_vector t buf eof src vp saw sz s = Some (r, saw', sz', s') \<and> msrp_inv s' \<and> (\<forall>q. r = Some q \<longrightarrow> q \<le> eof + 35)"
proof -
  have len: "eof + 40 \<le> length buf" using assms(2) by (simp add: zero_behind_def)
  have h: "rd buf vp = Some (buf ! vp)" "rd buf (vp + 1) = Some (buf ! (vp + 1))" using len assms(3) by (simp_all add: rd_def)
  let ?hdr = "word_be [buf ! vp, buf ! (vp + 1)] :: u16"
  let ?n = "MRPDU_VECT_NUMVALUES ?hdr"
  obtain ok saw1 u where l: "rx_leaveall t (MRPDU_VECT_LVA ?hdr) saw s = Some (ok, saw1, u)" "msrp_inv u"
    using rx_leaveall_total [OF assms(1)] by blast
  note start = msrp_rx_vector_def h bind.bind_lunit Let_def l(1) prod.case
  have tl: "vp + 2 + type_length t \<le> eof + 35" using assms(3) type_length_le [of t] by linarith
  consider (lva) "\<not> ok" | (zero) ok "?n = 0" | (bad) ok "?n \<noteq> 0" "eof \<le> vp + 2 + ?n div 3 + (if t = MSRP_LISTENER_TYPE then ?n div 4 else 0)"
    | (vec) ok "?n \<noteq> 0" "\<not> eof \<le> vp + 2 + ?n div 3 + (if t = MSRP_LISTENER_TYPE then ?n div 4 else 0)" by blast
  then show ?thesis
  proof cases
    case lva
    then show ?thesis unfolding start using l(2) by simp
  next
    case zero
    then show ?thesis unfolding start using l(2) tl by simp
  next
    case bad
    have go: "\<not> \<not> ok" using bad(1) by simp
    show ?thesis unfolding start if_not_P [OF go] if_not_P [OF bad(2)] if_P [OF bad(3)] using l(2) by auto
  next
    case vec
    have go: "\<not> \<not> ok" using vec(1) by simp
    have nvb: "vector_bytes ?n \<le> ?n div 3 + 1" by (simp add: vector_bytes_def)
    have le: "vp + 2 + ?n div 3 < eof" using vec(3) by simp
    let ?fv = "take (type_length t) (drop (vp + 2) buf)"
    have rds: "rds buf (vp + 2) (type_length t) = Some ?fv" using tl len by (simp add: rds_def)
    have sh: "talker_shape (fst (read_value t ?fv))" by (rule talker_shape_read) (use tl len in simp)
    have "\<exists>ok subs sz' s'. (if t = MSRP_LISTENER_TYPE then msrp_rx_states buf eof vp ?n sz u else Some (True, [], sz, u)) = Some (ok, subs, sz', s') \<and>
        msrp_inv s' \<and> (ok \<longrightarrow> t = MSRP_LISTENER_TYPE \<longrightarrow> length subs = ?n \<and> vp + 2 + (8 + vector_bytes ?n) + four_bytes ?n < eof)"
      using msrp_rx_states_total [OF l(2), of eof buf vp ?n sz] len l(2) by (cases "t = MSRP_LISTENER_TYPE") (simp_all, blast)
    then obtain ok2 subs sz2 w where st: "(if t = MSRP_LISTENER_TYPE then msrp_rx_states buf eof vp ?n sz u else Some (True, [], sz, u)) = Some (ok2, subs, sz2, w)"
      "msrp_inv w" "ok2 \<longrightarrow> t = MSRP_LISTENER_TYPE \<longrightarrow> length subs = ?n \<and> vp + 2 + (8 + vector_bytes ?n) + four_bytes ?n < eof" by blast
    have b: "vp + 2 + type_length t + (vector_bytes ?n + 1) \<le> length buf" using le nvb len type_length_le [of t] by linarith
    show ?thesis
    proof (cases ok2)
      case True
      have "t = MSRP_LISTENER_TYPE \<longrightarrow> ?n \<le> length subs" using st(3) True by (metis order_refl)
      from msrp_rx_bytes_total [OF st(2) sh this b, of src]
      obtain ok3 x where x: "msrp_rx_bytes t buf src (vp + 2 + type_length t) (vector_bytes ?n + 1) ?n (read_value t ?fv) subs w = Some (ok3, x)" "msrp_inv x"
        by blast
      have "vp + 2 + type_length t + vector_bytes ?n + (if t = MSRP_LISTENER_TYPE then four_bytes ?n else 0) \<le> eof + 35"
      proof (cases "t = MSRP_LISTENER_TYPE")
        case l: True
        have "vp + 2 + (8 + vector_bytes ?n) + four_bytes ?n < eof" using st(3) True l by blast
        then show ?thesis unfolding l by simp
      next
        case False
        then show ?thesis using le nvb type_length_le [of t] by simp
      qed
      moreover have "msrp_rx_vector t buf eof src vp saw sz s = Some (if ok3 then Some (vp + 2 + type_length t + vector_bytes ?n +
          (if t = MSRP_LISTENER_TYPE then four_bytes ?n else 0)) else None, saw1, sz2, x)"
        unfolding start if_not_P [OF go] if_not_P [OF vec(2)] if_not_P [OF vec(3)] rds st(1) x(1) using True by simp
      ultimately show ?thesis using x(2) by auto
    next
      case False
      have "msrp_rx_vector t buf eof src vp saw sz s = Some (None, saw1, sz2, w)"
        unfolding start if_not_P [OF go] if_not_P [OF vec(2)] if_not_P [OF vec(3)] rds st(1) using False by simp
      then show ?thesis using st(2) by auto
    qed
  qed
qed

lemma msrp_rx_vectors_total:
  assumes "msrp_inv s" "zero_behind buf eof" "vp \<le> eof + 35"
  shows "\<exists>r saw' sz' s'. msrp_rx_vectors t buf eof src vp saw sz s = Some (r, saw', sz', s') \<and> msrp_inv s'"
  using assms
proof (induction t buf eof src vp saw sz s rule: msrp_rx_vectors.induct)
  case (1 t buf eof src vp saw sz s)
  have len: "eof + 40 \<le> length buf" using 1(3) by (simp add: zero_behind_def)
  have h: "rd buf vp = Some (buf ! vp)" "rd buf (vp + 1) = Some (buf ! (vp + 1))" using len 1(4) by (simp_all add: rd_def)
  show ?case
  proof (cases "buf ! vp = 0 \<and> buf ! (vp + 1) = 0")
    case True
    then show ?thesis unfolding msrp_rx_vectors.simps [of t buf eof src vp] h bind.bind_lunit using 1(2) by simp
  next
    case False
    have "vp < eof"
    proof (rule ccontr)
      assume "\<not> vp < eof"
      then have "buf ! vp = 0" "buf ! (vp + 1) = 0" using 1(3,4) by (simp_all add: zero_behind_def)
      with False show False by simp
    qed
    from msrp_rx_vector_total [OF 1(2,3) this, of t src saw sz]
    obtain r w z u where v: "msrp_rx_vector t buf eof src vp saw sz s = Some (r, w, z, u)" "msrp_inv u" "\<forall>q. r = Some q \<longrightarrow> q \<le> eof + 35" by blast
    have "\<exists>r saw' sz' s'. msrp_rx_vectors t buf eof src q w z u = Some (r, saw', sz', s') \<and> msrp_inv s'" if "r = Some q" for q
      using 1(1) [OF h False v(1) refl refl refl that v(2) 1(3)] v(3) that by blast
    then show ?thesis unfolding msrp_rx_vectors.simps [of t buf eof src vp] h bind.bind_lunit using False v(1,2) by (cases r) auto
  qed
qed

lemma check_attrib_list_len_total:
  assumes "zero_behind buf eof" "mp + 2 < eof"
  shows "\<exists>ok. msrp_recv_msg_check_attrib_list_len buf mp eof = Some ok"
proof -
  have len: "eof + 40 \<le> length buf" using assms(1) by (simp add: zero_behind_def)
  then have "rd buf i = Some (buf ! i)" if "i \<le> eof" for i using that by (simp add: rd_def)
  with assms(2) show ?thesis by (auto simp: msrp_recv_msg_check_attrib_list_len_def Let_def)
qed

lemma msrp_rx_messages_total:
  assumes "msrp_inv s" "zero_behind buf eof"
  shows "\<exists>rc s'. msrp_rx_messages buf eof src mp m saw sz s = Some (rc, s') \<and> msrp_inv s' \<and> rc \<in> {0, -1}"
  using assms
proof (induction buf eof src mp m saw sz s rule: msrp_rx_messages.induct)
  case (1 buf eof src mp m saw sz s)
  note unfold = msrp_rx_messages.simps [of buf eof src mp]
  have len: "eof + 40 \<le> length buf" using 1(5) by (simp add: zero_behind_def)
  show ?case
  proof (cases "mp + MRPDU_ENDMARK_SZ < eof")
    case False
    then show ?thesis using 1(4) by (simp add: unfold)
  next
    case True
    then have mp: "mp + 2 < eof" by (simp add: MRPDU_ENDMARK_SZ_def)
    have r: "rd buf mp = Some (buf ! mp)" "rd buf (mp + 1) = Some (buf ! (mp + 1))" "rd buf (mp + 4) = Some (buf ! (mp + 4))"
      "rd buf (mp + 5) = Some (buf ! (mp + 5))" using mp len by (simp_all add: rd_def)
    let ?c = "buf ! mp" and ?l = "buf ! (mp + 1)"
    consider (mark) "?c = 0 \<and> ?l = 0" | (unknown) "\<not> (?c = 0 \<and> ?l = 0)" "type_of_code ?c = None"
      | (wrong) t where "\<not> (?c = 0 \<and> ?l = 0)" "type_of_code ?c = Some t" "unat ?l \<noteq> type_length t"
      | (message) t where "\<not> (?c = 0 \<and> ?l = 0)" "type_of_code ?c = Some t" "\<not> unat ?l \<noteq> type_length t" by fast
    then show ?thesis
    proof cases
      case mark
      then show ?thesis
        using 1(1) [OF _ r(1,2) mark _ 1(4,5)] True 1(4) unfolding unfold r bind.bind_lunit by (cases "m + 1 < 2") simp_all
    next
      case unknown
      then show ?thesis unfolding unfold r bind.bind_lunit using True 1(4) by auto
    next
      case wrong
      then show ?thesis unfolding unfold r bind.bind_lunit using True 1(4) by auto
    next
      case (message t)
      have T: "\<not> \<not> mp + MRPDU_ENDMARK_SZ < eof" using True by simp
      obtain ok where ck: "msrp_recv_msg_check_attrib_list_len buf mp eof = Some ok" using check_attrib_list_len_total [OF 1(5) mp] by blast
      show ?thesis
      proof (cases ok)
        case False
        then have nok: "\<not> ok" by simp
        show ?thesis
          unfolding unfold r bind.bind_lunit if_not_P [OF T] if_not_P [OF message(1)] message(2) option.case if_not_P [OF message(3)] ck if_P [OF nok] Let_def
          by (rule 1(2) [OF T r(1,2) message ck nok r(3,4) refl 1(4,5)])
      next
        case ok: True
        have "mp + 4 \<le> eof + 35" using mp by simp
        then obtain q w z u where v: "msrp_rx_vectors t buf eof src (mp + 4) saw sz s = Some (q, w, z, u)" "msrp_inv u"
          using msrp_rx_vectors_total [OF 1(4,5)] by blast
        have nok: "\<not> \<not> ok" using ok by simp
        have "\<exists>rc s'. msrp_rx_messages buf eof src p 0 w z u = Some (rc, s') \<and> msrp_inv s' \<and> rc \<in> {0, -1}" if "q = Some p" for p
          using 1(3) [OF T r(1,2) message ck nok v(1) refl refl refl that v(2) 1(5)] .
        then show ?thesis unfolding unfold r bind.bind_lunit using T message ck ok v by (cases q) auto
      qed
    qed
  qed
qed

text \<open>A frame of at most 1960 bytes in the zeroed buffer of \<open>mrpd_recvmsgbuf\<close>.\<close>

definition frame_buffer :: "int \<Rightarrow> u8 list \<Rightarrow> bool" where
  "frame_buffer bytes buf \<longleftrightarrow> length buf = MAX_FRAME_SIZE \<and> bytes \<le> 1960 \<and> list_all (\<lambda>b. b = 0) (drop (nat bytes) buf)"

lemma msrp_recv_total:
  assumes "msrp_inv s" "frame_buffer bytes buf"
  shows "\<exists>rc s'. msrp_recv_msg s bytes buf = Some (rc, s') \<and> msrp_inv s' \<and> rc \<in> {0, -1}"
proof -
  have "buf ! i = 0" if "nat bytes \<le> i" "i < length buf" for i
    using assms(2) that nth_mem [of "i - nat bytes" "drop (nat bytes) buf"] by (simp add: frame_buffer_def list_all_iff)
  then have "zero_behind buf (nat bytes)" using assms(2) by (auto simp: frame_buffer_def zero_behind_def MAX_FRAME_SIZE_def)
  from msrp_rx_messages_total [OF assms(1) this] show ?thesis
    using assms by (simp add: msrp_recv_msg_def frame_buffer_def MAX_FRAME_SIZE_def)
qed

end
