(* ===== verification/Msrp_Codec.thy ===== *)
theory Msrp_Codec
  imports Msrp_Receive Mrp_Codec
begin

text \<open>
  The frames of the stream reservation protocol: what \<open>msrp_txpdu\<close> encodes is what
  \<open>msrp_recv_msg\<close> decodes.  Between them stands an abstract message, a list of groups of
  attributes with consecutive values and a leave-all flag; a group without attributes is the
  vector of an empty leave-all.
\<close>

section \<open>Groups\<close>

type_synonym group = "bool \<times> msrp_attribute list"

fun four_all :: "u32 list \<Rightarrow> u8 list" where
  "four_all (w # x # y # z # ss) = MRPDU_4PACK_ENCODE w x y z # four_all ss"
| "four_all [] = []"
| "four_all [w] = [MRPDU_4PACK_ENCODE w 0 0 0]"
| "four_all [w, x] = [MRPDU_4PACK_ENCODE w x 0 0]"
| "four_all [w, x, y] = [MRPDU_4PACK_ENCODE w x y 0]"

definition states_of :: "msrp_type \<Rightarrow> msrp_attribute list \<Rightarrow> u8 list" where
  "states_of t vs = (if t = MSRP_LISTENER_TYPE then four_all (map substate vs) else [])"

definition enc_group :: "msrp_type \<Rightarrow> group \<Rightarrow> u8 list" where
  "enc_group t = (\<lambda>(l, vs). vector_header (length vs) l @
     (if vs = [] then replicate (type_length t) 0 else first_value (hd vs) @ pack_all (map code_of vs) @ states_of t vs))"

definition chained :: "msrp_type \<Rightarrow> msrp_attribute list \<Rightarrow> bool" where
  "chained t vs \<longleftrightarrow> (\<forall>k < length vs. 0 < k \<longrightarrow> continues t (hd vs) k (vs ! k))"

definition group_ok :: "msrp_type \<Rightarrow> group \<Rightarrow> bool" where
  "group_ok t = (\<lambda>(l, vs). (vs = [] \<longrightarrow> l) \<and> length vs < 8192 \<and> chained t vs \<and>
     (\<forall>a\<in>set vs. s_type a = t \<and> code_of a < 6 \<and> attr_shape a))"

fun group_flags :: "bool \<Rightarrow> group list \<Rightarrow> bool" where
  "group_flags l [] = True"
| "group_flags l ((f, vs) # gs) = (f = l \<and> group_flags False gs)"

lemma length_first_value: "attr_shape a \<Longrightarrow> length (first_value a) = type_length (s_type a)"
  by (cases "s_type a") (simp_all add: first_value_def talker_value_def listener_value_def domain_value_def attr_shape_def talker_shape_def Let_def)

lemma four_bytes_eq: "four_bytes n = (n + 3) div 4"
  unfolding four_bytes_def by presburger

lemma length_four_all: "length (four_all ss) = four_bytes (length ss)"
proof -
  have "length (four_all ss) = (length ss + 3) div 4" by (induction ss rule: four_all.induct) simp_all
  then show ?thesis by (simp add: four_bytes_eq)
qed

lemma length_states_of: "length (states_of t vs) = (if t = MSRP_LISTENER_TYPE then four_bytes (length vs) else 0)"
  by (simp add: states_of_def length_four_all)

lemma length_enc_group:
  assumes "group_ok t (l, vs)"
  shows "length (enc_group t (l, vs)) = 2 + type_length t + vector_bytes (length vs) + (if t = MSRP_LISTENER_TYPE then four_bytes (length vs) else 0)"
proof (cases vs)
  case Nil
  then show ?thesis by (simp add: enc_group_def vector_bytes_def four_bytes_def)
next
  case (Cons a as)
  then show ?thesis using assms length_first_value [of a]
    by (simp add: enc_group_def length_pack_all length_states_of group_ok_def del: pack_all.simps)
qed

lemma four_bytes_le: "four_bytes n \<le> n"
  by (cases n) (simp_all add: four_bytes_eq)

text \<open>Each attribute takes at most 37 bytes.\<close>

lemma length_enc_group_le:
  assumes "group_ok t (l, vs)" "vs \<noteq> []"
  shows "length (enc_group t (l, vs)) \<le> 37 * length vs"
proof -
  obtain n where n: "length vs = Suc n" using assms(2) by (cases vs) auto
  show ?thesis unfolding length_enc_group [OF assms(1)] n using vector_bytes_le [of "Suc n"] four_bytes_le [of "Suc n"] by (cases t) auto
qed

section \<open>Emitting vectors\<close>

text \<open>The attributes of a type that are marked for transmission.\<close>

definition marked_of :: "msrp_type \<Rightarrow> msrp_attribute list \<Rightarrow> msrp_attribute list" where
  "marked_of t = filter (\<lambda>a. s_type a = t \<and> a_tx (applicant a))"

definition unmark :: "msrp_type \<Rightarrow> msrp_attribute \<Rightarrow> msrp_attribute" where
  "unmark t a = (if s_type a = t then clear_tx a else a)"

lemma s_type_clear_tx [simp]: "s_type (clear_tx a) = s_type a"
  by (simp add: clear_tx_def)

lemma marked_of_simps [simp]:
  "marked_of t [] = []" "marked_of t (a # as) = (if s_type a = t \<and> a_tx (applicant a) then a # marked_of t as else marked_of t as)"
  "marked_of t (xs @ ys) = marked_of t xs @ marked_of t ys" "marked_of t (map clear_tx xs) = []"
  by (simp_all add: marked_of_def filter_empty_conv)

text \<open>The array of listener states does not grow.\<close>

definition no_growth :: "declare_array \<Rightarrow> nat \<Rightarrow> bool" where
  "no_growth m n \<longleftrightarrow> fst m = 0 \<or> n < fst m"

lemma grow_declare_none: "no_growth m n \<Longrightarrow> idx < n \<Longrightarrow> grow_declare idx m = Some m"
  by (cases m) (auto simp: no_growth_def grow_declare_def)

definition flushed :: "nat list \<Rightarrow> u8 list \<Rightarrow> u8 list" where
  "flushed evs packed = packed @ (if evs = [] then [] else [pack3 evs])"

definition settle :: "nat list \<Rightarrow> u8 list \<Rightarrow> nat list \<times> u8 list" where
  "settle evs packed = (if length evs > 2 then ([], packed @ [pack3 evs]) else (evs, packed))"

lemma flushed_pack: "length evs \<le> 2 \<Longrightarrow> flushed evs packed = packed @ pack_all evs"
  by (cases evs rule: pack_all.cases) (auto simp: flushed_def)

lemma settle_props:
  assumes "length evs \<le> 3"
  shows "length (fst (settle evs packed)) \<le> 2" "length (snd (settle evs packed)) \<le> Suc (length packed)"
    "snd (settle evs packed) @ pack_all (fst (settle evs packed) @ cs) = packed @ pack_all (evs @ cs)"
proof -
  show "length (fst (settle evs packed)) \<le> 2" "length (snd (settle evs packed)) \<le> Suc (length packed)" by (auto simp: settle_def)
  have "pack_all (evs @ cs) = pack3 evs # pack_all cs" if "length evs = 3"
    using that by (auto simp: numeral_eq_Suc length_Suc_conv)
  then show "snd (settle evs packed) @ pack_all (fst (settle evs packed) @ cs) = packed @ pack_all (evs @ cs)"
    using assms by (auto simp: settle_def)
qed

lemma msrp_vector_loop_step:
  assumes "s_type b = t" "a_tx (applicant b)" "continues t (hd vs) (length vs) b" "pdu_event b = Some e" "grow_declare (length vs) m = Some m"
    "vp + 2 + type_length t + length packed + 3 \<le> room"
  shows "msrp_vector_loop t room vp vs evs packed m (b # bs) =
    map_option (\<lambda>(ok, evs, packed, vs, m, bs). (ok, evs, packed, vs, m, clear_tx b # bs))
      (msrp_vector_loop t room vp (vs @ [b]) (fst (settle (evs @ [mrpdu_code e]) packed)) (snd (settle (evs @ [mrpdu_code e]) packed)) m bs)"
proof -
  have "\<not> room < vp + 2 + (type_length t + length (snd (settle (evs @ [mrpdu_code e]) packed))) + MRPDU_ENDMARK_SZ"
    using assms(6) by (simp add: settle_def MRPDU_ENDMARK_SZ_def)
  moreover have "vp + 2 + (type_length t + length packed) < room" using assms(6) by simp
  ultimately show ?thesis
    using assms(1-5)
    by (cases "length (evs @ [mrpdu_code e]) > 2"; cases "msrp_vector_loop t room vp (vs @ [b]) (fst (settle (evs @ [mrpdu_code e]) packed))
        (snd (settle (evs @ [mrpdu_code e]) packed)) m bs") (auto simp: Let_def c_assert_def settle_def)
qed

lemma chained_snoc:
  "chained t vs \<Longrightarrow> vs \<noteq> [] \<Longrightarrow> continues t (hd vs) (length vs) b \<Longrightarrow> chained t (vs @ [b])"
  by (auto simp: chained_def nth_append less_Suc_eq)

lemma msrp_vector_loop_spec:
  assumes "tx_ready bs" and "vp + 2 + type_length t + length packed + length (marked_of t bs) + 2 \<le> room" and "length evs \<le> 2"
    and "no_growth m (length vs + length bs)" and "chained t vs" and "vs \<noteq> []"
  shows "\<exists>evs' packed' xs ys. bs = xs @ ys \<and>
    msrp_vector_loop t room vp vs evs packed m bs = Some (True, evs', packed', vs @ xs, m, map clear_tx xs @ ys) \<and>
    flushed evs' packed' = packed @ pack_all (evs @ map code_of xs) \<and> chained t (vs @ xs) \<and> tx_ready ys \<and>
    (\<forall>x\<in>set xs. code_of x < 6) \<and> marked_of t xs = xs"
  using assms
proof (induction bs arbitrary: vs evs packed)
  case Nil
  then show ?case using flushed_pack by auto
next
  case (Cons b bs)
  show ?case
  proof (cases "s_type b \<noteq> t \<or> \<not> a_tx (applicant b) \<or> \<not> continues t (hd vs) (length vs) b")
    case True
    then have "msrp_vector_loop t room vp vs evs packed m (b # bs) = Some (True, evs, packed, vs, m, b # bs)" by (simp only: msrp_vector_loop.simps if_True)
    then show ?thesis using Cons.prems flushed_pack [OF Cons.prems(3), of packed]
      by (intro exI [of _ evs] exI [of _ packed] exI [of _ "[]"] exI [of _ "b # bs"]) simp
  next
    case False
    then obtain e where e: "pdu_event b = Some e" using Cons.prems(1) by auto
    have c: "code_of b = mrpdu_code e" by (simp add: code_of_def e)
    define st where "st = settle (evs @ [mrpdu_code e]) packed"
    have "length (evs @ [mrpdu_code e]) \<le> 3" using Cons.prems(3) by simp
    note st = settle_props [OF this, of packed, folded st_def]
    have g: "grow_declare (length vs) m = Some m" by (rule grow_declare_none [OF Cons.prems(4)]) simp
    have step: "msrp_vector_loop t room vp vs evs packed m (b # bs) =
      map_option (\<lambda>(ok, evs, packed, vs, m, bs). (ok, evs, packed, vs, m, clear_tx b # bs)) (msrp_vector_loop t room vp (vs @ [b]) (fst st) (snd st) m bs)"
      unfolding st_def by (rule msrp_vector_loop_step) (use False e g Cons.prems(2) in simp_all)
    have pre: "tx_ready bs" "vp + 2 + type_length t + length (snd st) + length (marked_of t bs) + 2 \<le> room" "no_growth m (length (vs @ [b]) + length bs)"
      "chained t (vs @ [b])" "vs @ [b] \<noteq> []"
      using Cons.prems st(2) False chained_snoc by auto
    from Cons.IH [OF pre(1,2) st(1) pre(3-5)] obtain evs' packed' xs ys where IH: "bs = xs @ ys"
      "msrp_vector_loop t room vp (vs @ [b]) (fst st) (snd st) m bs = Some (True, evs', packed', (vs @ [b]) @ xs, m, map clear_tx xs @ ys)"
      "flushed evs' packed' = snd st @ pack_all (fst st @ map code_of xs)" "chained t ((vs @ [b]) @ xs)" "tx_ready ys"
      "\<forall>x\<in>set xs. code_of x < 6" "marked_of t xs = xs" by blast
    have "flushed evs' packed' = packed @ pack_all (evs @ map code_of (b # xs))" using IH(3) st(3) c by simp
    then show ?thesis using IH step False c mrpdu_code_less [of e]
      by (intro exI [of _ evs'] exI [of _ packed'] exI [of _ "b # xs"] exI [of _ ys]) simp
  qed
qed

lemma four_loop_spec: "pos + length ss + 3 \<le> room \<Longrightarrow> four_loop room pos ss = Some (True, four_all ss)"
  by (induction room pos ss rule: four_loop.induct) (auto simp: c_assert_def MRPDU_ENDMARK_SZ_def)

lemma enc_group_flushed:
  assumes "flushed evs packed = pack_all (map code_of (a # xs))"
  shows "enc_group t (l, a # xs) = vector_header (length (a # xs)) l @ first_value a @
    (if evs \<noteq> [] then packed @ [pack3 evs] else packed) @ states_of t (a # xs)"
proof -
  have "(if evs \<noteq> [] then packed @ [pack3 evs] else packed) = pack_all (map code_of (a # xs))" using assms by (auto simp: flushed_def)
  then show ?thesis unfolding enc_group_def by (simp del: pack_all.simps)
qed

lemma emit_vector_spec:
  assumes "tx_ready (a # as)" and "s_type a = t" "a_tx (applicant a)" and "list_all attr_shape (a # as)"
    and "vp + 37 * Suc (length (marked_of t as)) + 4 \<le> room" and "no_growth m (Suc (length as))" "length as < 8000"
  shows "\<exists>xs ys. as = xs @ ys \<and> emit_vector t room vp l m a as = Some (Some (enc_group t (l, a # xs)), m, map clear_tx xs @ ys) \<and>
    group_ok t (l, a # xs) \<and> tx_ready ys \<and> marked_of t xs = xs"
proof -
  obtain e where e: "pdu_event a = Some e" using assms(1,3) by auto
  have c: "code_of a = mrpdu_code e" by (simp add: code_of_def e)
  have tl: "type_length t + 2 \<le> 36" using type_length_le [of t] by simp
  have "tx_ready as" "vp + 2 + type_length t + length ([] :: u8 list) + length (marked_of t as) + 2 \<le> room" "length [mrpdu_code e] \<le> 2"
    "no_growth m (length [a] + length as)" "chained t [a]" "[a] \<noteq> []" using assms tl by (simp_all add: chained_def)
  from msrp_vector_loop_spec [OF this] obtain evs packed xs ys where v: "as = xs @ ys"
    "msrp_vector_loop t room vp [a] [mrpdu_code e] [] m as = Some (True, evs, packed, [a] @ xs, m, map clear_tx xs @ ys)"
    "flushed evs packed = [] @ pack_all ([mrpdu_code e] @ map code_of xs)" "chained t ([a] @ xs)" "tx_ready ys" "\<forall>x\<in>set xs. code_of x < 6"
    "marked_of t xs = xs" by blast
  have p: "flushed evs packed = pack_all (map code_of (a # xs))" using v(3) c by (simp del: pack_all.simps)
  have ty: "s_type x = t" if "x \<in> set xs" for x using that v(7) unfolding marked_of_def filter_id_conv by blast
  have g: "group_ok t (l, a # xs)"
    using v(4,6) assms(2,4,7) v(1) c mrpdu_code_less [of e] ty by (auto simp: group_ok_def list_all_iff)
  let ?p = "if evs \<noteq> [] then packed @ [pack3 evs] else packed"
  have lp: "length ?p = vector_bytes (Suc (length xs))"
    using arg_cong [OF p, of length] by (auto simp: flushed_def length_pack_all split: if_splits)
  have n: "vector_bytes (Suc (length xs)) \<le> Suc (length xs)" "length xs \<le> length (marked_of t as)" using vector_bytes_le v(1,7) by auto
  have room: "vp + 2 + type_length t + length ?p + (if t = MSRP_LISTENER_TYPE then Suc (length xs) else 0) + 3 \<le> room"
    using assms(5) n lp by (cases t) auto
  have fl: "(if t = MSRP_LISTENER_TYPE then four_loop room (vp + 2 + (type_length t + length ?p)) (map substate ([a] @ xs)) else Some (True, [])) =
      Some (True, states_of t (a # xs))"
    using four_loop_spec [of "vp + 2 + (type_length t + length ?p)" "map substate (a # xs)" room] room by (auto simp: states_of_def)
  have ls: "length (states_of t (a # xs)) \<le> (if t = MSRP_LISTENER_TYPE then Suc (length xs) else 0)"
    using four_bytes_le [of "Suc (length xs)"] by (simp add: length_states_of)
  have fits: "vp + 2 + type_length t \<le> room" "evs \<noteq> [] \<longrightarrow> vp + 2 + (type_length t + length packed) < room"
    "\<not> (\<not> True \<or> room < vp + 2 + (type_length t + length (?p @ states_of t (a # xs))) + MRPDU_ENDMARK_SZ)"
    using room ls by (auto simp: MRPDU_ENDMARK_SZ_def split: if_splits)
  have "emit_vector t room vp l m a as = Some (Some (enc_group t (l, a # xs)), m, map clear_tx xs @ ys)"
    unfolding emit_vector_def e option.case v(2) bind.bind_lunit prod.case c_assert_def if_P [OF fits(1)] if_P [OF fits(2)] Let_def fl
      if_not_P [OF fits(3)] enc_group_flushed [OF p] by simp
  then show ?thesis using v(1,5,7) g by blast
qed

definition members :: "group list \<Rightarrow> msrp_attribute list" where
  "members gs = concat (map snd gs)"

lemma members_simps [simp]: "members [] = []" "members (g # gs) = snd g @ members gs"
  by (simp_all add: members_def)

definition must_send :: "msrp_attribute \<Rightarrow> bool" where
  "must_send a \<longleftrightarrow> a_encode (applicant a) = MRP_ENCODE_YES"

text \<open>What is sent: a selection of the marked attributes with all whose message is not optional.\<close>

definition selection :: "msrp_attribute list \<Rightarrow> msrp_attribute list \<Rightarrow> bool" where
  "selection as zs \<longleftrightarrow> subseq zs as \<and> filter must_send zs = filter must_send as"

lemma selection_cons:
  "selection as zs \<Longrightarrow> \<not> must_send a \<Longrightarrow> selection (a # as) zs" "selection as zs \<Longrightarrow> selection (xs @ as) (xs @ zs)"
  using list_emb_append_mono [OF subseq_order.refl, of zs as xs] by (auto simp: selection_def)

lemma unmark_cleared: "marked_of t xs = xs \<Longrightarrow> map clear_tx xs = map (unmark t) xs"
  unfolding marked_of_def filter_id_conv by (auto simp: unmark_def)

lemma map_unmark_cleared: "map (unmark t) (map clear_tx xs) = map clear_tx xs"
  by (simp add: unmark_def)

lemma msrp_emit_loop_spec:
  assumes "tx_ready as" "list_all attr_shape as" and "length out + 37 * length (marked_of t as) + 42 \<le> room" "length as < 8000"
    and "no_growth m (length as)"
  shows "\<exists>gs. msrp_emit_loop t room out found l m as = Some (True, out @ concat (map (enc_group t) gs), found \<or> gs \<noteq> [], m, map (unmark t) as) \<and>
    (\<forall>g\<in>set gs. group_ok t g \<and> snd g \<noteq> []) \<and> group_flags l gs \<and> selection (marked_of t as) (members gs) \<and>
    length (concat (map (enc_group t) gs)) \<le> 37 * length (marked_of t as)"
  using assms
proof (induction as arbitrary: out found l rule: length_induct)
  case (1 as)
  show ?case
  proof (cases as)
    case Nil
    then show ?thesis by (intro exI [of _ "[]"]) (simp add: selection_def)
  next
    case (Cons a bs)
    have vs: "vector_size t \<le> 37" by (cases t) simp_all
    have enter: "\<not> \<not> (if found then length out else 0) + vector_size t + MRPDU_ENDMARK_SZ < room"
      using 1(4) vs by (simp add: MRPDU_ENDMARK_SZ_def)
    have IH: "\<exists>gs. msrp_emit_loop t room out found l m bs = Some (True, out @ concat (map (enc_group t) gs), found \<or> gs \<noteq> [], m, map (unmark t) bs) \<and>
      (\<forall>g\<in>set gs. group_ok t g \<and> snd g \<noteq> []) \<and> group_flags l gs \<and> selection (marked_of t bs) (members gs) \<and>
      length (concat (map (enc_group t) gs)) \<le> 37 * length (marked_of t bs)"
      using 1 Cons by (auto simp: no_growth_def split: if_splits)
    consider (idle) "s_type a \<noteq> t \<or> \<not> a_tx (applicant a)"
      | (opt) "\<not> (s_type a \<noteq> t \<or> \<not> a_tx (applicant a))" "a_encode (applicant a) = MRP_ENCODE_OPTIONAL"
      | (yes) "\<not> (s_type a \<noteq> t \<or> \<not> a_tx (applicant a))" "a_encode (applicant a) \<noteq> MRP_ENCODE_OPTIONAL" by blast
    then show ?thesis
    proof cases
      case idle
      obtain gs where gs: "msrp_emit_loop t room out found l m bs = Some (True, out @ concat (map (enc_group t) gs), found \<or> gs \<noteq> [], m, map (unmark t) bs)"
        "\<forall>g\<in>set gs. group_ok t g \<and> snd g \<noteq> []" "group_flags l gs" "selection (marked_of t bs) (members gs)"
        "length (concat (map (enc_group t) gs)) \<le> 37 * length (marked_of t bs)" using IH by blast
      have "unmark t a = a" using idle by (auto simp: unmark_def clear_tx_idle)
      then have "msrp_emit_loop t room out found l m as = Some (True, out @ concat (map (enc_group t) gs), found \<or> gs \<noteq> [], m, map (unmark t) as)"
        unfolding Cons msrp_emit_loop.simps if_not_P [OF enter] if_P [OF idle] gs(1) by simp
      moreover have "marked_of t as = marked_of t bs" using idle Cons by auto
      ultimately show ?thesis using gs by auto
    next
      case opt
      obtain gs where gs: "msrp_emit_loop t room out found l m bs = Some (True, out @ concat (map (enc_group t) gs), found \<or> gs \<noteq> [], m, map (unmark t) bs)"
        "\<forall>g\<in>set gs. group_ok t g \<and> snd g \<noteq> []" "group_flags l gs" "selection (marked_of t bs) (members gs)"
        "length (concat (map (enc_group t) gs)) \<le> 37 * length (marked_of t bs)" using IH by blast
      have "unmark t a = clear_tx a" using opt by (auto simp: unmark_def)
      then have "msrp_emit_loop t room out found l m as = Some (True, out @ concat (map (enc_group t) gs), found \<or> gs \<noteq> [], m, map (unmark t) as)"
        unfolding Cons msrp_emit_loop.simps if_not_P [OF enter] if_not_P [OF opt(1)] if_P [OF opt(2)] gs(1) by simp
      moreover have "marked_of t as = a # marked_of t bs" using opt Cons by auto
      moreover have "\<not> must_send a" using opt by (simp add: must_send_def)
      ultimately show ?thesis using gs selection_cons(1) [OF gs(4)] by (intro exI [of _ gs]) auto
    next
      case yes
      have a: "s_type a = t" "a_tx (applicant a)" "tx_ready (a # bs)" "list_all attr_shape (a # bs)" "length bs < 8000" using yes 1(2,3,5) Cons by auto
      have "length out + 37 * Suc (length (marked_of t bs)) + 4 \<le> room" "no_growth m (Suc (length bs))" using 1(4,6) Cons yes by auto
      from emit_vector_spec [OF a(3,1,2,4) this a(5), of l] obtain xs ys where v: "bs = xs @ ys"
        "emit_vector t room (length out) l m a bs = Some (Some (enc_group t (l, a # xs)), m, map clear_tx xs @ ys)"
        "group_ok t (l, a # xs)" "tx_ready ys" "marked_of t xs = xs" by blast
      let ?v = "enc_group t (l, a # xs)" and ?bs = "map clear_tx xs @ ys"
      have lv: "length ?v \<le> 37 * Suc (length xs)" using length_enc_group_le [OF v(3)] by simp
      have m: "marked_of t as = a # xs @ marked_of t ys" "marked_of t ?bs = marked_of t ys" using Cons v(1,5) a by auto
      have pre: "length ?bs < length as" "tx_ready ?bs" "list_all attr_shape ?bs" "length (out @ ?v) + 37 * length (marked_of t ?bs) + 42 \<le> room"
        "length ?bs < 8000" "no_growth m (length ?bs)"
        using 1(3-6) Cons v(1,4) m lv tx_ready_cleared [of xs] by (auto simp: list_all_iff attr_shape_def clear_tx_def no_growth_def)
      from 1(1) [rule_format, OF pre(1), of "out @ ?v" True False, OF pre(2-6)] obtain gs where
        gs: "msrp_emit_loop t room (out @ ?v) True False m ?bs = Some (True, (out @ ?v) @ concat (map (enc_group t) gs), True \<or> gs \<noteq> [], m, map (unmark t) ?bs)"
        "\<forall>g\<in>set gs. group_ok t g \<and> snd g \<noteq> []" "group_flags False gs" "selection (marked_of t ?bs) (members gs)"
        "length (concat (map (enc_group t) gs)) \<le> 37 * length (marked_of t ?bs)" by blast
      have u: "clear_tx a # map (unmark t) ?bs = map (unmark t) as"
        unfolding map_append map_unmark_cleared unmark_cleared [OF v(5)] using Cons v(1) a(1) by (simp add: unmark_def)
      have "msrp_emit_loop t room out found l m as =
          Some (True, out @ concat (map (enc_group t) ((l, a # xs) # gs)), found \<or> (l, a # xs) # gs \<noteq> [], m, map (unmark t) as)"
        unfolding u [symmetric] unfolding Cons msrp_emit_loop.simps if_not_P [OF enter] if_not_P [OF yes(1)] if_not_P [OF yes(2)] v(2) bind.bind_lunit prod.case
          option.case gs(1) by simp
      moreover have "selection (marked_of t as) (members ((l, a # xs) # gs))"
        using selection_cons(2) [OF gs(4) [unfolded m(2)], of "a # xs"] m(1) by simp
      moreover have "length (concat (map (enc_group t) ((l, a # xs) # gs))) \<le> 37 * length (marked_of t as)" using gs(5) lv m by simp
      ultimately show ?thesis using gs(2,3) v(3) by (intro exI [of _ "(l, a # xs) # gs"]) auto
    qed
  qed
qed

section \<open>Emitting messages\<close>

definition enc_message :: "msrp_type \<Rightarrow> group list \<Rightarrow> u8 list" where
  "enc_message t gs =
     (if gs = [] then []
      else let body = concat (map (enc_group t) gs) @ [0, 0] in
        [type_code t, of_nat (type_length t), of_nat (length body div 256), of_nat (length body)] @ body)"

lemma enc_group_nonempty: "enc_group t g \<noteq> []"
  by (cases g) (simp add: enc_group_def vector_header_def bytes_be_def upt_rec)

text \<open>What the groups of a message are for the attributes of a list.\<close>

definition message_ok :: "bool \<Rightarrow> bool \<Rightarrow> msrp_type \<Rightarrow> msrp_attribute list \<Rightarrow> group list \<Rightarrow> bool" where
  "message_ok empty_leaveall l t as gs \<longleftrightarrow> list_all (group_ok t) gs \<and> ((empty_leaveall \<longrightarrow> l) \<longrightarrow> group_flags l gs) \<and>
     selection (marked_of t as) (members gs) \<and> (gs \<noteq> [] \<longleftrightarrow> empty_leaveall \<or> members gs \<noteq> []) \<and>
     length (enc_message t gs) \<le> 42 + 37 * length (marked_of t as)"

lemma emit_message_spec:
  assumes "tx_ready as" "list_all attr_shape as" and "37 * length (marked_of t as) + 46 \<le> room" "length as < 8000" "no_growth m (length as)"
  shows "\<exists>gs. emit_message t room el l m as = Some (0, enc_message t gs, m, map (unmark t) as) \<and> message_ok el l t as gs"
proof -
  let ?hd = "[type_code t, of_nat (type_length t), 0, 0] :: u8 list"
  have "length ?hd + 37 * length (marked_of t as) + 42 \<le> room" using assms(3) by simp
  from msrp_emit_loop_spec [OF assms(1,2) this assms(4,5), of False l] obtain gs where
    gs: "msrp_emit_loop t room ?hd False l m as = Some (True, ?hd @ concat (map (enc_group t) gs), gs \<noteq> [], m, map (unmark t) as)"
    "\<forall>g\<in>set gs. group_ok t g \<and> snd g \<noteq> []" "group_flags l gs" "selection (marked_of t as) (members gs)"
    "length (concat (map (enc_group t) gs)) \<le> 37 * length (marked_of t as)" by auto
  define hs where "hs = (if gs = [] \<and> el then [(True, [])] else gs)"
  have e0: "enc_group t (True, []) = vector_header 0 True @ replicate (type_length t) 0" by (simp add: enc_group_def)
  have body: "(if \<not> gs \<noteq> [] \<and> el then (?hd @ concat (map (enc_group t) gs)) @ vector_header 0 True @ replicate (type_length t) 0
      else ?hd @ concat (map (enc_group t) gs)) = ?hd @ concat (map (enc_group t) hs)" by (auto simp: hs_def e0)
  have len: "length (concat (map (enc_group t) hs)) \<le> 37 * length (marked_of t as) + 36"
    using gs(5) e0 type_length_le [of t] by (auto simp: hs_def)
  have "emit_message t room el l m as = Some (0, enc_message t hs, m, map (unmark t) as)"
  proof (cases "hs = []")
    case True
    then show ?thesis unfolding emit_message_def gs(1) bind.bind_lunit prod.case Let_def body by (simp add: enc_message_def)
  next
    case False
    then have ne: "concat (map (enc_group t) hs) \<noteq> []" using enc_group_nonempty by (cases hs) simp_all
    let ?body = "concat (map (enc_group t) hs)"
    have fits: "length (?hd @ ?body) + 2 \<le> room" "length (?hd @ ?body) \<noteq> 4" using len assms(3) ne by simp_all
    have up: "((?hd @ ?body) @ [0, 0])[2 := x, 3 := y] = [type_code t, of_nat (type_length t), x, y] @ ?body @ [0, 0]" for x y
      by (simp add: numeral_eq_Suc)
    have ln: "length ((?hd @ ?body) @ [0, 0]) - 4 = length (?body @ [0, 0])" by simp
    have nt: "\<not> \<not> True" by simp
    show ?thesis
      unfolding emit_message_def gs(1) bind.bind_lunit prod.case Let_def body c_assert_def if_P [OF fits(1)] if_not_P [OF fits(2)] up ln enc_message_def
        if_not_P [OF False] if_not_P [OF nt] by (rule refl)
  qed
  moreover have "list_all (group_ok t) hs" using gs(2) by (auto simp: hs_def list_all_iff group_ok_def chained_def)
  moreover have "(el \<longrightarrow> l) \<longrightarrow> group_flags l hs" using gs(3) by (auto simp: hs_def)
  moreover have "members hs = members gs" by (simp add: hs_def)
  moreover have "gs = [] \<longleftrightarrow> members gs = []" using gs(2) by (cases gs) auto
  moreover have "length (enc_message t hs) \<le> 42 + 37 * length (marked_of t as)" using len by (auto simp: enc_message_def Let_def)
  ultimately show ?thesis using gs(4) unfolding message_ok_def by (intro exI [of _ hs]) (auto simp: hs_def)
qed

text \<open>Every attribute has a message that can be sent.\<close>

definition sendable :: "msrp_attribute list \<Rightarrow> bool" where
  "sendable as \<longleftrightarrow> (\<forall>a\<in>set as. pdu_event a \<noteq> None)"

lemma pdu_event_marks [simp]: "pdu_event (unmark t a) = pdu_event a" "pdu_event (mark_listener a) = pdu_event a"
  "attr_shape (unmark t a) = attr_shape a" "attr_shape (mark_listener a) = attr_shape a" "s_type (unmark t a) = s_type a" "s_type (mark_listener a) = s_type a"
  by (auto simp: unmark_def mark_listener_def pdu_event_def clear_tx_def attr_shape_def)

lemma sendable_marks [simp]:
  "sendable (map (unmark t) as) = sendable as" "sendable (map mark_listener as) = sendable as"
  "list_all attr_shape (map (unmark t) as) = list_all attr_shape as" "list_all attr_shape (map mark_listener as) = list_all attr_shape as"
  by (simp_all add: sendable_def list_all_iff)

lemma sendable_ready: "sendable as \<Longrightarrow> tx_ready as"
  by (simp add: sendable_def tx_ready_def)

lemma marked_of_unmark:
  "t \<noteq> t' \<Longrightarrow> marked_of t (map (unmark t') as) = marked_of t as" "t \<noteq> MSRP_LISTENER_TYPE \<Longrightarrow> marked_of t (map mark_listener as) = marked_of t as"
  by (induction as) (auto simp: unmark_def mark_listener_def)

lemma marked_of_le: "length (marked_of MSRP_TALKER_ADV_TYPE as) + length (marked_of MSRP_TALKER_FAILED_TYPE as) +
    length (marked_of MSRP_LISTENER_TYPE as) + length (marked_of MSRP_DOMAIN_TYPE as) \<le> length as"
  by (induction as) auto

lemma marked_of_listeners: "marked_of MSRP_LISTENER_TYPE (map mark_listener (map (unmark MSRP_TALKER_FAILED_TYPE) (map (unmark MSRP_TALKER_ADV_TYPE) as))) =
    marked_of MSRP_LISTENER_TYPE (map mark_listener as)"
  by (induction as) (auto simp: unmark_def mark_listener_def)

lemma unmark_all: "map (unmark MSRP_DOMAIN_TYPE) (map (unmark MSRP_LISTENER_TYPE) (map mark_listener
    (map (unmark MSRP_TALKER_FAILED_TYPE) (map (unmark MSRP_TALKER_ADV_TYPE) as)))) = map clear_tx as"
proof -
  have "unmark MSRP_DOMAIN_TYPE (unmark MSRP_LISTENER_TYPE (mark_listener (unmark MSRP_TALKER_FAILED_TYPE (unmark MSRP_TALKER_ADV_TYPE a)))) = clear_tx a" for a
    by (cases "s_type a") (simp_all add: unmark_def mark_listener_def, simp add: clear_tx_def)
  then show ?thesis by simp
qed

section \<open>Emitting frames\<close>

definition all_types :: "msrp_type list" where
  "all_types = [MSRP_TALKER_ADV_TYPE, MSRP_TALKER_FAILED_TYPE, MSRP_LISTENER_TYPE, MSRP_DOMAIN_TYPE]"

definition payload :: "(msrp_type \<Rightarrow> group list) \<Rightarrow> u8 list" where
  "payload gs = concat (map (\<lambda>t. enc_message t (gs t)) all_types)"

definition msrp_frame :: "u8 list \<Rightarrow> (msrp_type \<Rightarrow> group list) \<Rightarrow> u8 list" where
  "msrp_frame src gs = MSRP_ADDR @ src @ bytes_be 2 MSRP_ETYPE @ [MSRP_PROT_VER] @ payload gs @ [0, 0]"

text \<open>What the transmission does to the rest of the database, with the two answers of \<open>malloc\<close> that it asks for.\<close>

definition tx_state :: "msrp_database \<Rightarrow> nat \<Rightarrow> msrp_attribute list \<Rightarrow> u8 list list \<Rightarrow> msrp_database" where
  "tx_state s n as fs = s\<lparr>mem_pos := mem_pos s + n, mrp_db := (mrp_db s)\<lparr>lva := (lva (mrp_db s))\<lparr>t_tx := False\<rparr>\<rparr>, attrib_list := as,
     frames := frames s @ fs\<rparr>"

lemma lva_flag: "(if t_tx (lva (mrp_db s)) then s\<lparr>mrp_db := (mrp_db s)\<lparr>lva := (lva (mrp_db s))\<lparr>t_tx := False\<rparr>\<rparr>\<rparr> else s) =
    s\<lparr>mrp_db := (mrp_db s)\<lparr>lva := (lva (mrp_db s))\<lparr>t_tx := False\<rparr>\<rparr>\<rparr>" for s :: msrp_database
proof -
  have "x\<lparr>t_tx := False\<rparr> = x" if "\<not> t_tx x" for x :: mrp_timer using that by (cases x) simp
  then show ?thesis by (cases s) simp
qed

definition tx_begun :: "msrp_database \<Rightarrow> msrp_database" where
  "tx_begun s = s\<lparr>mem_pos := Suc (mem_pos s), mrp_db := (mrp_db s)\<lparr>lva := (lva (mrp_db s))\<lparr>t_tx := False\<rparr>\<rparr>\<rparr>"

lemma msrp_txpdu_unfold:
  assumes "mem_ok s (mem_pos s)"
  shows "msrp_txpdu s = do {
      (rc, b1, as) \<leftarrow> msrp_emit_talkervectors MSRP_TALKER_ADV_TYPE (MAX_FRAME_SIZE - 15) (send_empty_LeaveAll_flag s) (t_tx (lva (mrp_db s))) (attrib_list s);
      if rc = -1 then Some (-1, (tx_begun s)\<lparr>attrib_list := as\<rparr>) else do {
      (rc, b2, as) \<leftarrow> msrp_emit_talkervectors MSRP_TALKER_FAILED_TYPE ((MAX_FRAME_SIZE - 15) - length b1) (send_empty_LeaveAll_flag s) (t_tx (lva (mrp_db s))) as;
      if rc = -1 then Some (-1, (tx_begun s)\<lparr>attrib_list := as\<rparr>)
      else if (MAX_FRAME_SIZE - 15) \<le> length (b1 @ b2) + MRPDU_ENDMARK_SZ then Some (-1, (tx_begun s)\<lparr>attrib_list := as\<rparr>) else do {
      (rc, b3, w) \<leftarrow> msrp_emit_listenvectors ((MAX_FRAME_SIZE - 15) - length (b1 @ b2)) (t_tx (lva (mrp_db s))) ((tx_begun s)\<lparr>attrib_list := as\<rparr>);
      if rc = -1 then Some (-1, w) else do {
      (rc, b4, as) \<leftarrow> msrp_emit_domainvectors ((MAX_FRAME_SIZE - 15) - length (b1 @ b2 @ b3)) (send_empty_LeaveAll_flag w) (t_tx (lva (mrp_db s))) (attrib_list w);
      let w = w\<lparr>attrib_list := as\<rparr>;
      let bytes = b1 @ b2 @ b3 @ b4;
      if rc = -1 then Some (-1, w)
      else if bytes = [] then Some (-1, w)
      else if \<not> length bytes + MRPDU_ENDMARK_SZ < (MAX_FRAME_SIZE - 15) then Some (-1, w)
      else Some (if send_rc w (length (frames w)) \<le> 0 then -1 else 0,
        w\<lparr>frames := frames w @ [MSRP_ADDR @ station w @ bytes_be 2 MSRP_ETYPE @ [MSRP_PROT_VER] @ bytes @ [0, 0]]\<rparr>) } } } }"
  using assms unfolding msrp_txpdu_def mrpd_malloc_def Let_def prod.case lva_flag by (simp add: tx_begun_def cong: if_cong)

lemma emit_stage:
  assumes "sendable as" "list_all attr_shape as" "length as \<le> 49" "marked_of t as = marked_of t M" "37 * length (marked_of t M) + 46 \<le> room"
    "fst m = 0 \<or> fst m = 64"
  shows "\<exists>gs. emit_message t room el l m as = Some (0, enc_message t gs, m, map (unmark t) as) \<and> message_ok el l t M gs"
proof -
  have "message_ok el l t as gs = message_ok el l t M gs" for gs using assms(4) by (simp add: message_ok_def)
  moreover have "no_growth m (length as)" using assms(3,6) by (auto simp: no_growth_def)
  ultimately show ?thesis using emit_message_spec [OF sendable_ready [OF assms(1)] assms(2), of t room m el l] assms(3-5) by simp
qed

text \<open>A database of at most 49 attributes is sent in one frame, without a write behind the buffer.\<close>

lemma msrp_txpdu_spec:
  assumes "mem_ok s (mem_pos s)" "sendable (attrib_list s)" "list_all attr_shape (attrib_list s)" "length (attrib_list s) \<le> 49"
  shows "if mem_ok s (Suc (mem_pos s))
    then \<exists>gs. (\<forall>t. message_ok (send_empty_LeaveAll_flag s) (t_tx (lva (mrp_db s))) t (map mark_listener (attrib_list s)) (gs t)) \<and>
      msrp_txpdu s = Some (if payload gs = [] \<or> send_rc s (length (frames s)) \<le> 0 then -1 else 0,
        tx_state s 2 (map clear_tx (attrib_list s)) (if payload gs = [] then [] else [msrp_frame (station s) gs]))
    else msrp_txpdu s = Some (-1, tx_state s 2 (map (unmark MSRP_TALKER_FAILED_TYPE) (map (unmark MSRP_TALKER_ADV_TYPE) (attrib_list s))) [])"
proof -
  let ?A = MSRP_TALKER_ADV_TYPE and ?F = MSRP_TALKER_FAILED_TYPE and ?L = MSRP_LISTENER_TYPE and ?D = MSRP_DOMAIN_TYPE
  let ?as = "attrib_list s" and ?el = "send_empty_LeaveAll_flag s" and ?l = "t_tx (lva (mrp_db s))"
  let ?M = "map mark_listener ?as" and ?room = "MAX_FRAME_SIZE - 15"
  let ?as2 = "map (unmark ?F) (map (unmark ?A) ?as)"
  let ?as3 = "map (unmark ?L) (map mark_listener ?as2)"
  have n: "length (marked_of ?A ?M) + length (marked_of ?F ?M) + length (marked_of ?L ?M) + length (marked_of ?D ?M) \<le> 49"
    using marked_of_le [of ?M] assms(4) by simp
  have R: "?room = 1985" by (simp add: MAX_FRAME_SIZE_def)
  have m1: "marked_of ?A ?as = marked_of ?A ?M" "marked_of ?F (map (unmark ?A) ?as) = marked_of ?F ?M"
    "marked_of ?L (map mark_listener ?as2) = marked_of ?L ?M" "marked_of ?D ?as3 = marked_of ?D ?M"
    by (simp_all only: marked_of_listeners marked_of_unmark msrp_type.distinct simp_thms)
  let ?z = "(0, \<lambda>i. True, 0)"
  note stage = emit_stage [where el = ?el and l = ?l and M = ?M]
  have c2: "sendable (map (unmark ?A) ?as)" "list_all attr_shape (map (unmark ?A) ?as)" "length (map (unmark ?A) ?as) \<le> 49"
    and c3: "sendable (map mark_listener ?as2)" "list_all attr_shape (map mark_listener ?as2)" "length (map mark_listener ?as2) \<le> 49"
    and c4: "sendable ?as3" "list_all attr_shape ?as3" "length ?as3 \<le> 49"
    by (simp_all only: sendable_marks length_map assms(2-4))
  have "37 * length (marked_of ?A ?M) + 46 \<le> ?room" using n R by simp
  from stage [OF assms(2-4) m1(1) this, of ?z] obtain g1 where
    g1: "emit_message ?A ?room ?el ?l ?z ?as = Some (0, enc_message ?A g1, ?z, map (unmark ?A) ?as)" "message_ok ?el ?l ?A ?M g1" by auto
  have b1: "length (enc_message ?A g1) \<le> 42 + 37 * length (marked_of ?A ?M)" using g1(2) by (simp add: message_ok_def)
  have "37 * length (marked_of ?F ?M) + 46 \<le> ?room - length (enc_message ?A g1)" using n R b1 by simp
  from stage [OF c2 m1(2) this, of ?z] obtain g2 where
    g2: "emit_message ?F (?room - length (enc_message ?A g1)) ?el ?l ?z (map (unmark ?A) ?as) = Some (0, enc_message ?F g2, ?z, ?as2)"
    "message_ok ?el ?l ?F ?M g2" by (auto simp del: map_map)
  have b2: "length (enc_message ?F g2) \<le> 42 + 37 * length (marked_of ?F ?M)" using g2(2) by (simp add: message_ok_def)
  let ?r3 = "?room - length (enc_message ?A g1 @ enc_message ?F g2)" and ?m = "(64, mem_ok s, mem_pos s + 2)"
  have "37 * length (marked_of ?L ?M) + 46 \<le> ?r3" using n R b1 b2 by simp
  from stage [OF c3 m1(3) this, of ?m] obtain g3 where
    g3: "emit_message ?L ?r3 ?el ?l ?m (map mark_listener ?as2) = Some (0, enc_message ?L g3, ?m, ?as3)" "message_ok ?el ?l ?L ?M g3" by (auto simp del: map_map)
  have b3: "length (enc_message ?L g3) \<le> 42 + 37 * length (marked_of ?L ?M)" using g3(2) by (simp add: message_ok_def)
  let ?r4 = "?room - length (enc_message ?A g1 @ enc_message ?F g2 @ enc_message ?L g3)"
  have "37 * length (marked_of ?D ?M) + 46 \<le> ?r4" using n R b1 b2 b3 by simp
  from stage [OF c4 m1(4) this, of ?z] obtain g4 where
    g4: "emit_message ?D ?r4 ?el ?l ?z ?as3 = Some (0, enc_message ?D g4, ?z, map (unmark ?D) ?as3)" "message_ok ?el ?l ?D ?M g4" by (auto simp del: map_map)
  have b4: "length (enc_message ?D g4) \<le> 42 + 37 * length (marked_of ?D ?M)" using g4(2) by (simp add: message_ok_def)
  define gs where "gs = (\<lambda>t. case t of MSRP_TALKER_ADV_TYPE \<Rightarrow> g1 | MSRP_TALKER_FAILED_TYPE \<Rightarrow> g2 | MSRP_LISTENER_TYPE \<Rightarrow> g3 | MSRP_DOMAIN_TYPE \<Rightarrow> g4)"
  have pl: "payload gs = enc_message ?A g1 @ enc_message ?F g2 @ enc_message ?L g3 @ enc_message ?D g4" by (simp add: payload_def gs_def all_types_def)
  define u where "u = tx_begun s"
  have u: "attrib_list u = ?as" "send_empty_LeaveAll_flag u = ?el" "mem_pos u = Suc (mem_pos s)" "mem_ok u = mem_ok s" by (simp_all add: u_def tx_begun_def)
  have t1: "msrp_emit_talkervectors ?A ?room ?el ?l ?as = Some (0, enc_message ?A g1, map (unmark ?A) ?as)"
    using R unfolding msrp_emit_talkervectors_def g1(1) by simp
  have t2: "msrp_emit_talkervectors ?F (?room - length (enc_message ?A g1)) ?el ?l (map (unmark ?A) ?as) = Some (0, enc_message ?F g2, ?as2)"
    using R b1 n unfolding msrp_emit_talkervectors_def g2(1) by simp
  have nr: "\<not> ?r3 < 13" using R b1 b2 n by simp
  let ?u2 = "u\<lparr>attrib_list := ?as2\<rparr>"
  have t3: "msrp_emit_listenvectors ?r3 ?l ?u2 = (if mem_ok s (Suc (mem_pos s)) then
      Some (0, enc_message ?L g3, u\<lparr>mem_pos := mem_pos s + 2, attrib_list := ?as3\<rparr>) else Some (-1, [], u\<lparr>mem_pos := mem_pos s + 2, attrib_list := ?as2\<rparr>))"
    using nr g3(1) by (simp add: msrp_emit_listenvectors_def mrpd_malloc_def u)
  have t4: "msrp_emit_domainvectors ?r4 ?el ?l ?as3 = Some (0, enc_message ?D g4, map (unmark ?D) ?as3)"
    using R b1 b2 b3 n unfolding msrp_emit_domainvectors_def g4(1) by simp
  have r: "\<not> ?room \<le> length (enc_message ?A g1 @ enc_message ?F g2) + MRPDU_ENDMARK_SZ" "\<not> \<not> length (payload gs) + MRPDU_ENDMARK_SZ < ?room"
    using R b1 b2 b3 b4 n by (simp_all add: pl MRPDU_ENDMARK_SZ_def)
  have nz: "\<not> (0 :: int) = -1" by simp
  note start = msrp_txpdu_unfold [OF assms(1), folded u_def]
  have "\<forall>t. message_ok ?el ?l t ?M (gs t)" using g1(2) g2(2) g3(2) g4(2) by (simp add: gs_def split: msrp_type.split)
  moreover have "msrp_txpdu s = (if mem_ok s (Suc (mem_pos s))
      then Some (if payload gs = [] \<or> send_rc s (length (frames s)) \<le> 0 then -1 else 0,
        tx_state s 2 (map clear_tx ?as) (if payload gs = [] then [] else [msrp_frame (station s) gs]))
      else Some (-1, tx_state s 2 ?as2 []))"
  proof (cases "mem_ok s (Suc (mem_pos s))")
    case True
    have e: "map (unmark ?D) ?as3 = map clear_tx ?as" by (rule unmark_all)
    let ?w = "u\<lparr>mem_pos := mem_pos s + 2, attrib_list := ?as3\<rparr>"
    have fin: "send_empty_LeaveAll_flag ?w = ?el" "attrib_list ?w = ?as3" by (simp_all add: u)
    have "msrp_txpdu s = (if payload gs = [] then Some (-1, ?w\<lparr>attrib_list := map clear_tx ?as\<rparr>)
        else Some (if send_rc s (length (frames s)) \<le> 0 then -1 else 0,
          ?w\<lparr>attrib_list := map clear_tx ?as, frames := frames s @ [msrp_frame (station s) gs]\<rparr>))"
      unfolding start t1 t2 bind.bind_lunit prod.case if_not_P [OF nz] if_not_P [OF r(1)] t3 if_P [OF True] fin t4 e pl [symmetric] Let_def if_not_P [OF r(2)]
        msrp_frame_def by (simp add: u_def tx_begun_def cong: if_cong)
    then show ?thesis using True by (simp add: tx_state_def u_def tx_begun_def)
  next
    case False
    have "msrp_txpdu s = Some (-1, u\<lparr>mem_pos := mem_pos s + 2, attrib_list := ?as2\<rparr>)"
      unfolding start t1 t2 bind.bind_lunit prod.case if_not_P [OF nz] if_not_P [OF r(1)] t3 if_not_P [OF False] by simp
    then show ?thesis using False by (simp add: tx_state_def u_def tx_begun_def)
  qed
  ultimately show ?thesis by auto
qed

end
