(* ===== verification/Msrp_Frames.thy ===== *)
theory Msrp_Frames
  imports Msrp_Codec
begin

text \<open>
  What a station does with a frame of the stream reservation protocol that another one
  emitted: it sees the leave-all of each group and hears its attributes one by one, with the
  values that they have on the wire.
\<close>

section \<open>Values on the wire\<close>

definition on_wire :: "msrp_attribute \<Rightarrow> msrp_value" where
  "on_wire a =
     (case s_type a of
        MSRP_DOMAIN_TYPE \<Rightarrow> (zero_talker, (domain a)\<lparr>neighborSRclassPriority := SRclassPriority (domain a)\<rparr>)
      | MSRP_LISTENER_TYPE \<Rightarrow> (zero_talker\<lparr>StreamID := StreamID (talk_listen a)\<rparr>, zero_domain)
      | MSRP_TALKER_FAILED_TYPE \<Rightarrow> (talk_listen a, zero_domain)
      | MSRP_TALKER_ADV_TYPE \<Rightarrow> ((talk_listen a)\<lparr>BridgeID := replicate 8 0, FailureCode := 0\<rparr>, zero_domain))"

lemma word_be_quad: "word_be (bytes_be 4 (x :: u32)) = x"
  by (simp add: word_be_bytes_be take_bit_word_eq_self)

lemma read_first_value:
  assumes "attr_shape a"
  shows "read_value (s_type a) (first_value a) = on_wire a"
proof (cases "s_type a")
  case MSRP_DOMAIN_TYPE
  then show ?thesis by (cases "domain a") (simp add: read_value_def first_value_def domain_value_def on_wire_def word_be_pair)
next
  case MSRP_LISTENER_TYPE
  then show ?thesis using assms by (simp add: read_value_def first_value_def listener_value_def on_wire_def attr_shape_def talker_shape_def)
next
  case MSRP_TALKER_ADV_TYPE
  then show ?thesis using assms
    by (cases "talk_listen a") (simp add: read_value_def first_value_def talker_value_def on_wire_def word_be_pair word_be_quad attr_shape_def talker_shape_def nth_append Let_def)
next
  case MSRP_TALKER_FAILED_TYPE
  then show ?thesis using assms
    by (cases "talk_listen a") (simp add: read_value_def first_value_def talker_value_def on_wire_def word_be_pair word_be_quad attr_shape_def talker_shape_def nth_append Let_def)
qed

text \<open>The running value of the receiver is the one of the attribute that the sender appended.\<close>

lemma next_values:
  "(next_value MSRP_LISTENER_TYPE ^^ k) (v, d) = (v\<lparr>StreamID := (msrp_increment_streamid ^^ k) (StreamID v)\<rparr>, d)"
  "is_talker t \<Longrightarrow> (next_value t ^^ k) (v, d) =
     (v\<lparr>StreamID := (msrp_increment_streamid ^^ k) (StreamID v), Dest_Addr := (mmrp_increment_macaddr ^^ k) (Dest_Addr v)\<rparr>, d)"
proof -
  show "(next_value MSRP_LISTENER_TYPE ^^ k) (v, d) = (v\<lparr>StreamID := (msrp_increment_streamid ^^ k) (StreamID v)\<rparr>, d)"
    by (induction k) (simp_all add: next_value_def)
  show "(next_value t ^^ k) (v, d) =
     (v\<lparr>StreamID := (msrp_increment_streamid ^^ k) (StreamID v), Dest_Addr := (mmrp_increment_macaddr ^^ k) (Dest_Addr v)\<rparr>, d)" if "is_talker t"
    using that by (induction k) (auto simp: next_value_def is_talker_def)
qed

lemma chained_values:
  assumes "chained t vs" "\<forall>a\<in>set vs. s_type a = t" "k < length vs"
  shows "(next_value t ^^ k) (on_wire (hd vs)) = on_wire (vs ! k)"
proof (cases "k = 0")
  case True
  then show ?thesis using assms(3) by (simp add: hd_conv_nth)
next
  case False
  have "vs \<noteq> []" using assms(3) by auto
  then have ty: "s_type (hd vs) = t" "s_type (vs ! k) = t" using assms(2,3) by simp_all
  have "continues t (hd vs) k (vs ! k)" using assms(1,3) False by (simp add: chained_def)
  then show ?thesis
  proof (cases t)
    case MSRP_DOMAIN_TYPE
    then show ?thesis using \<open>continues t (hd vs) k (vs ! k)\<close> by (simp add: continues_def)
  next
    case MSRP_LISTENER_TYPE
    then show ?thesis using \<open>continues t (hd vs) k (vs ! k)\<close> ty by (simp add: continues_def on_wire_def next_values(1))
  next
    case MSRP_TALKER_ADV_TYPE
    then have "talk_listen (vs ! k) = (talk_listen (hd vs))\<lparr>StreamID := (msrp_increment_streamid ^^ k) (StreamID (talk_listen (hd vs))),
        Dest_Addr := (mmrp_increment_macaddr ^^ k) (Dest_Addr (talk_listen (hd vs)))\<rparr>"
      using \<open>continues t (hd vs) k (vs ! k)\<close> by (simp add: continues_def vectorize_talker_def)
    then show ?thesis using MSRP_TALKER_ADV_TYPE ty next_values(2) [of t] by (simp add: on_wire_def is_talker_def)
  next
    case MSRP_TALKER_FAILED_TYPE
    then have "talk_listen (vs ! k) = (talk_listen (hd vs))\<lparr>StreamID := (msrp_increment_streamid ^^ k) (StreamID (talk_listen (hd vs))),
        Dest_Addr := (mmrp_increment_macaddr ^^ k) (Dest_Addr (talk_listen (hd vs)))\<rparr>"
      using \<open>continues t (hd vs) k (vs ! k)\<close> by (simp add: continues_def vectorize_talker_def)
    then show ?thesis using MSRP_TALKER_FAILED_TYPE ty next_values(2) [of t] by (simp add: on_wire_def is_talker_def)
  qed
qed

section \<open>Hearing attributes\<close>

text \<open>The effect of one attribute of another station: \<open>False\<close> if the memory is exhausted.\<close>

definition wire_state :: "msrp_attribute \<Rightarrow> u32" where
  "wire_state a = (if s_type a = MSRP_LISTENER_TYPE then substate a else 0)"

definition hear :: "u8 list \<Rightarrow> msrp_attribute \<Rightarrow> msrp_database \<Rightarrow> (bool \<times> msrp_database) option" where
  "hear src a s =
     (if s_type a = MSRP_LISTENER_TYPE \<and> substate a = MSRP_LISTENER_IGNORE then Some (True, s)
      else (case msrp_alloc (s_type a) s of
          (None, s) \<Rightarrow> Some (False, s)
        | (Some b, s) \<Rightarrow> map_option (Pair True)
            (case rx_event (code_of a) of None \<Rightarrow> Some s
             | Some e \<Rightarrow> map_option snd (msrp_event s e (Some (received src (on_wire a) (wire_state a) b))))))"

fun hear_all :: "u8 list \<Rightarrow> msrp_attribute list \<Rightarrow> msrp_database \<Rightarrow> (bool \<times> msrp_database) option" where
  "hear_all src [] s = Some (True, s)"
| "hear_all src (a # as) s = do { (ok, s) \<leftarrow> hear src a s; if ok then hear_all src as s else Some (False, s) }"

lemma hear_all_append:
  "hear_all src (xs @ ys) s = do { (ok, s) \<leftarrow> hear_all src xs s; if ok then hear_all src ys s else Some (False, s) }"
  by (induction xs arbitrary: s) (auto split: bind_splits)

text \<open>Listener states that the receiver has read for attributes.\<close>

definition subs_for :: "msrp_type \<Rightarrow> msrp_attribute list \<Rightarrow> u32 list" where
  "subs_for t xs = (if t = MSRP_LISTENER_TYPE then map substate xs else [])"

definition wired :: "msrp_type \<Rightarrow> msrp_value \<Rightarrow> msrp_attribute list \<Rightarrow> bool" where
  "wired t v xs \<longleftrightarrow> (\<forall>k < length xs. (next_value t ^^ k) v = on_wire (xs ! k) \<and> s_type (xs ! k) = t)"

lemma wired_Cons: "wired t v (x # xs) \<longleftrightarrow> v = on_wire x \<and> s_type x = t \<and> wired t (next_value t v) xs"
  unfolding wired_def by (auto simp: less_Suc_eq_0_disj funpow_swap1)

lemma wired_append: "wired t v (xs @ ys) \<longleftrightarrow> wired t v xs \<and> wired t ((next_value t ^^ length xs) v) ys"
  by (induction xs arbitrary: v) (auto simp: wired_Cons funpow_swap1, simp_all add: wired_def)

lemma msrp_rx_values_hear:
  assumes "wired t v xs"
  shows "\<exists>w zs. msrp_rx_values t src (map code_of xs) v (subs_for t xs @ rest) s =
    map_option (\<lambda>(ok, s). (ok, if ok then (next_value t ^^ length xs) v else w, if ok then rest else zs, s)) (hear_all src xs s)"
  using assms
proof (induction xs arbitrary: v s)
  case Nil
  then show ?case by (simp add: subs_for_def)
next
  case (Cons x xs)
  have x: "v = on_wire x" "s_type x = t" "wired t (next_value t v) xs" using Cons.prems unfolding wired_Cons by blast+
  have st: "(if t \<noteq> MSRP_LISTENER_TYPE then Some (0, subs_for t (x # xs) @ rest)
      else (case subs_for t (x # xs) @ rest of [] \<Rightarrow> None | y # ys \<Rightarrow> Some (y, ys))) = Some (wire_state x, subs_for t xs @ rest)"
    using x(2) by (auto simp: subs_for_def wire_state_def)
  have nx: "(next_value t ^^ length (x # xs)) v = (next_value t ^^ length xs) (next_value t v)" by (simp add: funpow_swap1)
  note IH = Cons.IH [OF x(3)]
  show ?case
  proof (cases "t = MSRP_LISTENER_TYPE \<and> wire_state x = MSRP_LISTENER_IGNORE")
    case True
    then have "hear src x s = Some (True, s)" using x(2) by (auto simp: hear_def wire_state_def)
    then show ?thesis using IH [of s] unfolding list.map msrp_rx_values.simps st bind.bind_lunit prod.case if_P [OF True] nx by simp
  next
    case False
    obtain r u where al: "msrp_alloc t s = (r, u)" by (cases "msrp_alloc t s")
    have h: "hear src x s = (case r of None \<Rightarrow> Some (False, u) | Some b \<Rightarrow> map_option (Pair True)
        (case rx_event (code_of x) of None \<Rightarrow> Some u | Some e \<Rightarrow> map_option snd (msrp_event u e (Some (received src v (wire_state x) b)))))"
      using False x(1,2) al by (auto simp: hear_def wire_state_def)
    show ?thesis
    proof (cases r)
      case None
      then have "hear src x s = Some (False, u)" using h by simp
      then show ?thesis unfolding list.map msrp_rx_values.simps st bind.bind_lunit prod.case if_not_P [OF False] al None option.case nx
        by (intro exI [of _ v] exI [of _ "subs_for t xs @ rest"]) simp
    next
      case (Some b)
      let ?e = "case rx_event (code_of x) of None \<Rightarrow> Some u | Some e \<Rightarrow> map_option snd (msrp_event u e (Some (received src v (wire_state x) b)))"
      have h': "hear src x s = map_option (Pair True) ?e" using h Some by simp
      show ?thesis
      proof (cases ?e)
        case None
        then show ?thesis unfolding list.map msrp_rx_values.simps st bind.bind_lunit prod.case if_not_P [OF False] al Some option.case nx hear_all.simps h'
          by simp
      next
        case (Some w)
        then show ?thesis using IH [of w]
          unfolding list.map msrp_rx_values.simps st bind.bind_lunit prod.case if_not_P [OF False] al \<open>r = Some b\<close> option.case nx hear_all.simps h' by simp
      qed
    qed
  qed
qed

text \<open>The last byte of a vector, and the one that is read behind it.\<close>

lemma msrp_rx_bytes_done:
  assumes "rd buf i = Some b"
  shows "msrp_rx_bytes t buf src i (Suc 0) 0 v subs s = Some (True, s)"
  using assms by (simp add: msrp_rx_bytes_step)

lemma msrp_rx_bytes_last:
  assumes "rd buf i = Some b" and "unpack3 b = map code_of xs @ zs" and "xs \<noteq> []" "length xs \<le> 3" and "rd buf (Suc i) = Some b'"
    and "wired t v xs" and "\<forall>x\<in>set xs. code_of x < 6"
  shows "msrp_rx_bytes t buf src i (Suc (Suc 0)) (length xs) v (subs_for t xs) s = hear_all src xs s"
proof -
  have t: "take (min 3 (length xs)) (unpack3 b) = map code_of xs" "length xs - min 3 (length xs) = 0"
    using assms(2,4) by (simp_all add: min_def)
  have c: "\<not> hd (unpack3 b) > mrpdu_code MRPDU_LV" using assms(2,3,7) by (cases xs) auto
  obtain w ws where h: "msrp_rx_values t src (map code_of xs) v (subs_for t xs @ []) s =
    map_option (\<lambda>(ok, s). (ok, if ok then (next_value t ^^ length xs) v else w, if ok then [] else ws, s)) (hear_all src xs s)"
    using msrp_rx_values_hear [OF assms(6)] by blast
  show ?thesis
    unfolding msrp_rx_bytes_step [OF assms(1)] if_not_P [OF c] t h [unfolded append_Nil2]
    by (cases "hear_all src xs s") (auto simp del: msrp_rx_bytes.simps simp: msrp_rx_bytes_done [OF assms(5)])
qed

lemma msrp_rx_bytes_hear:
  assumes "wired t v xs" and "\<forall>x\<in>set xs. code_of x < 6" and "drop i buf = pack_all (map code_of xs) @ b # rest"
  shows "msrp_rx_bytes t buf src i (Suc (vector_bytes (length xs))) (length xs) v (subs_for t xs) s = hear_all src xs s"
  using assms
proof (induction "map code_of xs" arbitrary: xs i v s rule: pack_all.induct)
  case 1
  then have "xs = []" "rd buf i = Some b" by (simp_all add: rd_at)
  then show ?case by (simp add: vector_bytes_def msrp_rx_bytes_done del: msrp_rx_bytes.simps)
next
  case (2 c)
  then obtain x where xs: "xs = [x]" "c = code_of x" by auto
  have "rd buf i = Some (pack3 [c])" "rd buf (Suc i) = Some b"
    using 2(4) xs drop_step [of i buf "[pack3 [c]]"] by (simp_all add: rd_at)
  from msrp_rx_bytes_last [OF this(1) _ _ _ this(2) 2(2,3), of "[0, 0]"] show ?case using xs 2(3)
    by (simp add: vector_bytes_def unpack3_pack3 del: msrp_rx_bytes.simps)
next
  case (3 c d)
  then obtain x y where xs: "xs = [x, y]" "c = code_of x" "d = code_of y" by auto
  have "rd buf i = Some (pack3 [c, d])" "rd buf (Suc i) = Some b"
    using 3(4) xs drop_step [of i buf "[pack3 [c, d]]"] by (simp_all add: rd_at)
  from msrp_rx_bytes_last [OF this(1) _ _ _ this(2) 3(2,3), of "[0]"] show ?case using xs 3(3)
    by (simp add: vector_bytes_def unpack3_pack3 del: msrp_rx_bytes.simps)
next
  case (4 c d e cs)
  then obtain x y z ys where xs: "xs = [x, y, z] @ ys" "c = code_of x" "d = code_of y" "e = code_of z" "cs = map code_of ys" by auto
  have r: "rd buf i = Some (pack3 [c, d, e])" "drop (Suc i) buf = pack_all cs @ b # rest"
    using 4(5) xs drop_step [of i buf "[pack3 [c, d, e]]"] by (simp_all add: rd_at)
  have six: "c < 6" "d < 6" "e < 6" "\<forall>y\<in>set ys. code_of y < 6" using 4(4) xs by simp_all
  have u: "take (min 3 (length xs)) (unpack3 (pack3 [c, d, e])) = map code_of [x, y, z]" "length xs - min 3 (length xs) = length ys"
    "vector_bytes (length xs) = Suc (vector_bytes (length ys))" "subs_for t xs = subs_for t [x, y, z] @ subs_for t ys"
    using xs six by (simp_all add: unpack3_pack3 vector_bytes_step subs_for_def)
  have c: "\<not> hd (unpack3 (pack3 [c, d, e])) > mrpdu_code MRPDU_LV" using six by (simp add: unpack3_pack3)
  define q where "q = (next_value t ^^ length [x, y, z]) v"
  have w: "wired t v [x, y, z]" "wired t q ys" using 4(3) unfolding xs(1) wired_append q_def by blast+
  obtain v' ws where h: "msrp_rx_values t src (map code_of [x, y, z]) v (subs_for t [x, y, z] @ subs_for t ys) s =
    map_option (\<lambda>(ok, s). (ok, if ok then q else v', if ok then subs_for t ys else ws, s)) (hear_all src [x, y, z] s)"
    using msrp_rx_values_hear [OF w(1)] unfolding q_def by blast
  note IH = 4(1) [OF xs(5) w(2) six(4) r(2) [unfolded xs(5)]]
  have "hear_all src xs s = do { (ok, s) \<leftarrow> hear_all src [x, y, z] s; if ok then hear_all src ys s else Some (False, s) }"
    unfolding xs(1) by (rule hear_all_append)
  then show ?case
    unfolding u(3) msrp_rx_bytes_step [OF r(1)] if_not_P [OF c] u(1,2,4) h
    by (cases "hear_all src [x, y, z] s") (auto simp del: msrp_rx_bytes.simps hear_all.simps simp: IH)
qed

section \<open>Listener states\<close>

lemma below_four: "w < 4 \<Longrightarrow> w \<in> {0, 1, 2, 3}" for w :: u32
proof -
  assume "w < 4"
  then have "unat w < 4" by (simp add: word_less_nat_alt)
  then have "unat w \<in> {0, 1, 2, 3}" by auto
  then have "w \<in> of_nat ` {0, 1, 2, 3}" by (intro image_eqI [of _ _ "unat w"]) simp_all
  then show ?thesis by simp
qed

lemma unpack4_encode:
  assumes "w < 4" "x < 4" "y < 4" "z < 4"
  shows "unpack4 (MRPDU_4PACK_ENCODE w x y z) = [w, x, y, z]"
proof -
  have "\<forall>w\<in>{0, 1, 2, 3}. \<forall>x\<in>{0, 1, 2, 3}. \<forall>y\<in>{0, 1, 2, 3}. \<forall>z\<in>{0, 1, 2, 3}. unpack4 (MRPDU_4PACK_ENCODE w x y z) = [w, x, y, z]"
    by code_simp
  then show ?thesis using assms below_four by blast
qed

lemma store_states_fit: "length acc + length cs \<le> sz \<Longrightarrow> store_states cs acc sz s = (True, acc @ cs, sz, s)"
  by (induction cs acc sz s rule: store_states.induct) auto

lemma msrp_rx_four_step:
  assumes "rd buf i = Some b" "take (min 4 n) (unpack4 b) = cs" "length acc + length cs \<le> sz"
  shows "msrp_rx_four buf i (Suc k) n acc sz s = msrp_rx_four buf (Suc i) k (n - min 4 n) (acc @ cs) sz s"
proof -
  have "(if n > 4 then 4 else n) = min 4 n" by simp
  then show ?thesis using assms by (simp add: store_states_fit Let_def del: min_def)
qed

lemma msrp_rx_four_spec:
  assumes "drop i buf = four_all ss @ rest" "\<forall>x\<in>set ss. x < 4" "length acc + length ss \<le> sz"
  shows "msrp_rx_four buf i (four_bytes (length ss)) (length ss) acc sz s = Some (True, acc @ ss, sz, s)"
  using assms
proof (induction ss arbitrary: i acc rule: four_all.induct)
  case (1 w x y z ss)
  have r: "rd buf i = Some (MRPDU_4PACK_ENCODE w x y z)" "drop (Suc i) buf = four_all ss @ rest"
    using 1(2) drop_step [of i buf "[MRPDU_4PACK_ENCODE w x y z]"] by (simp_all add: rd_at)
  have f: "four_bytes (length (w # x # y # z # ss)) = Suc (four_bytes (length ss))" by (simp add: four_bytes_eq)
  have t: "take (min 4 (length (w # x # y # z # ss))) (unpack4 (MRPDU_4PACK_ENCODE w x y z)) = [w, x, y, z]" using 1(3) by (simp add: unpack4_encode)
  show ?case unfolding f msrp_rx_four_step [OF r(1) t, of acc sz, simplified] using 1(1) [OF r(2), of "acc @ [w, x, y, z]"] 1(3,4)
    msrp_rx_four_step [OF r(1) t, of acc sz] by simp
next
  case 2
  then show ?case by (simp add: four_bytes_def)
next
  case (3 w)
  have r: "rd buf i = Some (MRPDU_4PACK_ENCODE w 0 0 0)" using 3(1) by (simp add: rd_at)
  have "take (min 4 (length [w])) (unpack4 (MRPDU_4PACK_ENCODE w 0 0 0)) = [w]" using 3(2) by (simp add: unpack4_encode)
  from msrp_rx_four_step [OF r this] 3(3) show ?case by (simp add: four_bytes_def)
next
  case (4 w x)
  have r: "rd buf i = Some (MRPDU_4PACK_ENCODE w x 0 0)" using 4(1) by (simp add: rd_at)
  have "take (min 4 (length [w, x])) (unpack4 (MRPDU_4PACK_ENCODE w x 0 0)) = [w, x]" using 4(2) by (simp add: unpack4_encode)
  from msrp_rx_four_step [OF r this] 4(3) show ?case by (simp add: four_bytes_def)
next
  case (5 w x y)
  have r: "rd buf i = Some (MRPDU_4PACK_ENCODE w x y 0)" using 5(1) by (simp add: rd_at)
  have "take (min 4 (length [w, x, y])) (unpack4 (MRPDU_4PACK_ENCODE w x y 0)) = [w, x, y]" using 5(2) by (simp add: unpack4_encode)
  from msrp_rx_four_step [OF r this] 5(3) show ?case by (simp add: four_bytes_def)
qed

text \<open>The array of listener states, of 64 elements, is allocated for the first vector of listeners.\<close>

definition need_states :: "msrp_type \<Rightarrow> nat \<Rightarrow> msrp_database \<Rightarrow> bool \<times> nat \<times> msrp_database" where
  "need_states t sz s = (if t = MSRP_LISTENER_TYPE \<and> sz = 0 then (case mrpd_malloc s of (ok, s) \<Rightarrow> (ok, 64, s)) else (True, sz, s))"

lemma msrp_rx_states_spec:
  assumes "drop (vp + 2 + (8 + vector_bytes (length ss))) buf = four_all ss @ rest" "\<forall>x\<in>set ss. x < 4" "length ss \<le> 64"
    "vp + 2 + (8 + vector_bytes (length ss)) + four_bytes (length ss) < eof" "sz = 0 \<or> 64 \<le> sz"
  shows "msrp_rx_states buf eof vp (length ss) sz s = (case need_states MSRP_LISTENER_TYPE sz s of (ok, sz, s) \<Rightarrow> Some (ok, if ok then ss else [], sz, s))"
proof -
  have e: "\<not> eof \<le> vp + 2 + (8 + vector_bytes (length ss)) + four_bytes (length ss)" using assms(4) by simp
  have f: "msrp_rx_four buf (vp + 2 + (8 + vector_bytes (length ss))) (four_bytes (length ss)) (length ss) [] k u = Some (True, ss, k, u)" if "64 \<le> k" for k u
    using msrp_rx_four_spec [OF assms(1,2), of "[]" k u] assms(3) that by simp
  show ?thesis
    unfolding msrp_rx_states_def Let_def if_not_P [OF e] need_states_def using assms(5) f by (auto split: prod.split)
qed

section \<open>Hearing groups and messages\<close>

definition hear_group :: "msrp_type \<Rightarrow> u8 list \<Rightarrow> group \<Rightarrow> (msrp_type \<Rightarrow> bool) \<Rightarrow> nat \<Rightarrow> msrp_database \<Rightarrow>
    (bool \<times> (msrp_type \<Rightarrow> bool) \<times> nat \<times> msrp_database) option" where
  "hear_group t src = (\<lambda>(l, vs) saw sz s. do {
     (ok, saw, s) \<leftarrow> rx_leaveall t l saw s;
     if \<not> ok then Some (False, saw, sz, s)
     else if vs = [] then Some (True, saw, sz, s)
     else (case need_states t sz s of (ok, sz, s) \<Rightarrow>
       if \<not> ok then Some (False, saw, sz, s)
       else do { (ok, s) \<leftarrow> hear_all src vs s; Some (ok, saw, sz, s) }) })"

fun hear_groups :: "msrp_type \<Rightarrow> u8 list \<Rightarrow> group list \<Rightarrow> (msrp_type \<Rightarrow> bool) \<Rightarrow> nat \<Rightarrow> msrp_database \<Rightarrow>
    (bool \<times> (msrp_type \<Rightarrow> bool) \<times> nat \<times> msrp_database) option" where
  "hear_groups t src [] saw sz s = Some (True, saw, sz, s)"
| "hear_groups t src (g # gs) saw sz s = do {
     (ok, saw, sz, s) \<leftarrow> hear_group t src g saw sz s;
     if ok then hear_groups t src gs saw sz s else Some (False, saw, sz, s) }"

text \<open>Groups that fit the array of listener states, with states of two bits.\<close>

definition small_group :: "msrp_type \<Rightarrow> group \<Rightarrow> bool" where
  "small_group t g \<longleftrightarrow> group_ok t g \<and> length (snd g) \<le> 64 \<and> (t = MSRP_LISTENER_TYPE \<longrightarrow> (\<forall>a\<in>set (snd g). substate a < 4))"

lemma group_header:
  assumes "group_ok t (l, vs)"
  obtains h0 h1 where "vector_header (length vs) l = [h0, h1]" "MRPDU_VECT_NUMVALUES (word_be [h0, h1]) = length vs"
    "MRPDU_VECT_LVA (word_be [h0, h1]) = l" "\<not> (h0 = 0 \<and> h1 = 0)"
proof -
  define hdr :: u16 where "hdr = (of_nat (length vs) AND 0x1FFF) OR (if l then 0x2000 else 0)"
  obtain h0 h1 where h: "bytes_be 2 hdr = [h0, h1]" "word_be [h0, h1] = hdr" by (rule two_bytes)
  have n: "vs = [] \<longrightarrow> l" "length vs < 8192" using assms by (simp_all add: group_ok_def)
  note hw = header_word [OF n(2) hdr_def]
  have "\<not> (h0 = 0 \<and> h1 = 0)"
  proof
    assume "h0 = 0 \<and> h1 = 0"
    then have "hdr = word_be [0, 0]" using h(2) by simp
    then have "hdr = 0" by (simp add: word_be_def)
    with hw n(1) show False by (cases vs) (simp_all add: MRPDU_VECT_NUMVALUES_def MRPDU_VECT_LVA_def)
  qed
  then show thesis using that [of h0 h1] hw h by (simp add: vector_header_def hdr_def)
qed

lemma group_wired:
  assumes "group_ok t (l, vs)" "vs \<noteq> []"
  shows "wired t (on_wire (hd vs)) vs" "\<forall>x\<in>set vs. code_of x < 6"
  using assms chained_values [of t vs] by (auto simp: group_ok_def wired_def)

lemma group_body:
  assumes ok: "small_group t (l, vs)" "vs \<noteq> []" and at: "drop (vp + 2) buf = first_value (hd vs) @ pack_all (map code_of vs) @ states_of t vs @ b # rest"
    and eof: "vp + length (enc_group t (l, vs)) < eof" and sz: "sz = 0 \<or> 64 \<le> sz"
  shows "rds buf (vp + 2) (type_length t) = Some (first_value (hd vs))" "read_value t (first_value (hd vs)) = on_wire (hd vs)"
    "\<not> eof \<le> vp + 2 + length vs div 3 + (if t = MSRP_LISTENER_TYPE then length vs div 4 else 0)"
    "(if t = MSRP_LISTENER_TYPE then msrp_rx_states buf eof vp (length vs) sz u else Some (True, [], sz, u)) =
      (case need_states t sz u of (ok, sz, s) \<Rightarrow> Some (ok, if ok then subs_for t vs else [], sz, s))"
    "msrp_rx_bytes t buf src (vp + 2 + type_length t) (vector_bytes (length vs) + 1) (length vs) (on_wire (hd vs)) (subs_for t vs) w = hear_all src vs w"
proof -
  have g: "group_ok t (l, vs)" using ok(1) by (simp add: small_group_def)
  have a: "s_type (hd vs) = t" "attr_shape (hd vs)" using g ok(2) by (simp_all add: group_ok_def)
  have len: "length (first_value (hd vs)) = type_length t" using length_first_value [OF a(2)] a(1) by simp
  have fits: "vp + 2 + type_length t + vector_bytes (length vs) + (if t = MSRP_LISTENER_TYPE then four_bytes (length vs) else 0) < eof"
    using eof length_enc_group [OF g] by simp
  have "type_length t < length buf - (vp + 2)" using arg_cong [OF at, of length] len by simp
  then have "vp + 2 + type_length t \<le> length buf" by simp
  then show "rds buf (vp + 2) (type_length t) = Some (first_value (hd vs))" using at len by (simp add: rds_def)
  show "read_value t (first_value (hd vs)) = on_wire (hd vs)" using read_first_value [OF a(2)] a(1) by simp
  have "length vs div 3 \<le> vector_bytes (length vs)" "length vs div 4 \<le> four_bytes (length vs)" by (simp_all add: vector_bytes_def four_bytes_def)
  then show "\<not> eof \<le> vp + 2 + length vs div 3 + (if t = MSRP_LISTENER_TYPE then length vs div 4 else 0)" using fits by auto
  have at1: "drop (vp + 2 + type_length t) buf = pack_all (map code_of vs) @ states_of t vs @ b # rest" using drop_step [OF at] len by simp
  have at2: "drop (vp + 2 + type_length t + vector_bytes (length vs)) buf = states_of t vs @ b # rest"
    using drop_step [OF at1] by (simp add: length_pack_all)
  show "(if t = MSRP_LISTENER_TYPE then msrp_rx_states buf eof vp (length vs) sz u else Some (True, [], sz, u)) =
      (case need_states t sz u of (ok, sz, s) \<Rightarrow> Some (ok, if ok then subs_for t vs else [], sz, s))"
  proof (cases "t = MSRP_LISTENER_TYPE")
    case True
    have s4: "\<forall>x\<in>set (map substate vs). x < 4" "length (map substate vs) \<le> 64" using ok(1) True by (auto simp: small_group_def)
    from msrp_rx_states_spec [OF _ s4, of vp buf "b # rest" eof sz u] show ?thesis
      using at2 fits sz True by (simp add: states_of_def subs_for_def add.assoc cong: if_cong)
  qed (simp add: need_states_def subs_for_def)
  obtain b' rest' where "states_of t vs @ b # rest = b' # rest'" by (cases "states_of t vs @ b # rest") auto
  with at1 have "drop (vp + 2 + type_length t) buf = pack_all (map code_of vs) @ b' # rest'" by simp
  from msrp_rx_bytes_hear [OF group_wired [OF g ok(2)] this]
  show "msrp_rx_bytes t buf src (vp + 2 + type_length t) (vector_bytes (length vs) + 1) (length vs) (on_wire (hd vs)) (subs_for t vs) w = hear_all src vs w"
    by (simp del: msrp_rx_bytes.simps)
qed

lemma msrp_rx_vector_group:
  assumes ok: "small_group t (l, vs)" and at: "drop vp buf = enc_group t (l, vs) @ b # rest"
    and eof: "vp + length (enc_group t (l, vs)) < eof" and sz: "sz = 0 \<or> 64 \<le> sz"
  shows "msrp_rx_vector t buf eof src vp saw sz s =
    map_option (\<lambda>(ok, saw, sz, s). (if ok then Some (vp + length (enc_group t (l, vs))) else None, saw, sz, s)) (hear_group t src (l, vs) saw sz s)"
proof -
  have g: "group_ok t (l, vs)" using ok by (simp add: small_group_def)
  obtain h0 h1 where h: "vector_header (length vs) l = [h0, h1]" "MRPDU_VECT_NUMVALUES (word_be [h0, h1]) = length vs"
    "MRPDU_VECT_LVA (word_be [h0, h1]) = l" by (rule group_header [OF g])
  define tl where "tl = (if vs = [] then replicate (type_length t) 0 else first_value (hd vs) @ pack_all (map code_of vs) @ states_of t vs)"
  have e: "drop vp buf = [h0, h1] @ tl @ b # rest" using at h(1) by (simp add: enc_group_def tl_def)
  have r: "rd buf vp = Some h0" "rd buf (vp + 1) = Some h1" "drop (vp + 2) buf = tl @ b # rest"
    using e drop_step [of vp buf "[h0]"] drop_step [of vp buf "[h0, h1]"] by (simp_all add: rd_at)
  note start = msrp_rx_vector_def r(1,2) bind.bind_lunit Let_def h(2,3)
  show ?thesis
  proof (cases "rx_leaveall t l saw s")
    case None
    then show ?thesis unfolding start by (simp add: hear_group_def)
  next
    case (Some q)
    then obtain k saw1 u where la: "rx_leaveall t l saw s = Some (k, saw1, u)" by (cases q) auto
    show ?thesis
    proof (cases "k \<and> vs \<noteq> []")
      case False
      then show ?thesis unfolding start la prod.case using length_enc_group [OF g] by (auto simp: la hear_group_def vector_bytes_def four_bytes_def)
    next
      case True
      then have k: "\<not> \<not> k" "length vs \<noteq> 0" "vs \<noteq> []" by simp_all
      have "drop (vp + 2) buf = first_value (hd vs) @ pack_all (map code_of vs) @ states_of t vs @ b # rest" using r(3) k(3) by (simp add: tl_def)
      note body = group_body [OF ok k(3) this eof sz]
      obtain k2 sz2 w where ns: "need_states t sz u = (k2, sz2, w)" by (cases "need_states t sz u") auto
      note go = start la prod.case if_not_P [OF k(1)] if_not_P [OF k(2)] if_not_P [OF body(3)] body(1) bind.bind_lunit
      have "msrp_rx_vector t buf eof src vp saw sz s =
        (if \<not> k2 then Some (None, saw1, sz2, w)
         else do { (ok, s) \<leftarrow> hear_all src vs w; Some (if ok then Some (vp + length (enc_group t (l, vs))) else None, saw1, sz2, s) })"
      proof (cases k2)
        case False
        then show ?thesis unfolding go body(4) [of u, unfolded ns prod.case] by simp
      next
        case True
        then have nt: "\<not> \<not> True" and st: "(if t = MSRP_LISTENER_TYPE then msrp_rx_states buf eof vp (length vs) sz u else Some (True, [], sz, u)) =
          Some (True, subs_for t vs, sz2, w)" using body(4) [of u, unfolded ns prod.case] by simp_all
        show ?thesis unfolding go st if_not_P [OF nt] body(2,5) length_enc_group [OF g] using True by (cases "hear_all src vs w") auto
      qed
      moreover have "hear_group t src (l, vs) saw sz s =
        (if \<not> k2 then Some (False, saw1, sz2, w) else do { (ok, s) \<leftarrow> hear_all src vs w; Some (ok, saw1, sz2, s) })"
        using k by (simp add: hear_group_def la ns)
      ultimately show ?thesis by (cases "hear_all src vs w") auto
    qed
  qed
qed

lemma hear_group_size:
  "hear_group t src g saw sz s = Some (ok, saw', sz', s') \<Longrightarrow> sz = 0 \<or> 64 \<le> sz \<Longrightarrow> sz' = 0 \<or> 64 \<le> sz'"
  by (cases g) (auto simp: hear_group_def need_states_def bind_eq_Some_conv split: if_splits prod.splits)

lemma hear_groups_size:
  "hear_groups t src gs saw sz s = Some (ok, saw', sz', s') \<Longrightarrow> sz = 0 \<or> 64 \<le> sz \<Longrightarrow> sz' = 0 \<or> 64 \<le> sz'"
proof (induction gs arbitrary: saw sz s)
  case (Cons g gs)
  then obtain k saw1 sz1 s1 where h: "hear_group t src g saw sz s = Some (k, saw1, sz1, s1)"
    "(if k then hear_groups t src gs saw1 sz1 s1 else Some (False, saw1, sz1, s1)) = Some (ok, saw', sz', s')"
    by (auto simp: bind_eq_Some_conv)
  note z = hear_group_size [OF h(1) Cons.prems(2)]
  show ?case using Cons.IH [OF _ z] h(2) z by (cases k) auto
qed auto

lemma msrp_rx_vectors_groups:
  assumes "\<forall>g\<in>set gs. small_group t g" and "drop vp buf = concat (map (enc_group t) gs) @ [0, 0] @ rest"
    and "vp + length (concat (map (enc_group t) gs)) < eof" and "sz = 0 \<or> 64 \<le> sz"
  shows "msrp_rx_vectors t buf eof src vp saw sz s =
    map_option (\<lambda>(ok, saw, sz, s). (if ok then Some (vp + length (concat (map (enc_group t) gs))) else None, saw, sz, s)) (hear_groups t src gs saw sz s)"
  using assms
proof (induction gs arbitrary: vp saw sz s)
  case Nil
  then have "rd buf vp = Some 0" "rd buf (vp + 1) = Some 0" using drop_step [of vp buf "[0]"] by (simp_all add: rd_at)
  then show ?case by (subst msrp_rx_vectors.simps) simp
next
  case (Cons g gs)
  obtain l vs where g: "g = (l, vs)" by (cases g)
  have ok: "small_group t (l, vs)" "group_ok t (l, vs)" using Cons.prems(1) g by (simp_all add: small_group_def)
  let ?e = "enc_group t (l, vs)" and ?tail = "concat (map (enc_group t) gs) @ [0, 0] @ rest"
  obtain b r where br: "?tail = b # r" by (cases ?tail) auto
  have at: "drop vp buf = ?e @ b # r" "drop (vp + length ?e) buf = ?tail" using Cons.prems(2) g br drop_step [of vp buf ?e ?tail] by simp_all
  have eof: "vp + length ?e < eof" "vp + length ?e + length (concat (map (enc_group t) gs)) < eof" using Cons.prems(3) g by simp_all
  obtain h0 h1 where h: "vector_header (length vs) l = [h0, h1]" "\<not> (h0 = 0 \<and> h1 = 0)" by (rule group_header [OF ok(2)])
  obtain tl where "?e = [h0, h1] @ tl" using h(1) by (simp add: enc_group_def)
  then have rd: "rd buf vp = Some h0" "rd buf (vp + 1) = Some h1" using at(1) drop_step [of vp buf "[h0]"] by (simp_all add: rd_at)
  note v = msrp_rx_vector_group [OF ok(1) at(1) eof(1) Cons.prems(4), of src saw s]
  show ?case
  proof (cases "hear_group t src g saw sz s")
    case None
    then show ?thesis unfolding msrp_rx_vectors.simps [of t buf eof src vp] rd bind.bind_lunit if_not_P [OF h(2)] v using g by simp
  next
    case (Some q)
    then obtain k saw1 sz1 s1 where q: "hear_group t src (l, vs) saw sz s = Some (k, saw1, sz1, s1)" using g by (cases q) auto
    note IH = Cons.IH [OF _ at(2) eof(2) hear_group_size [OF q Cons.prems(4)], of saw1 s1]
    have len: "vp + length (concat (map (enc_group t) (g # gs))) = vp + length ?e + length (concat (map (enc_group t) gs))" by (simp add: g)
    show ?thesis
      unfolding msrp_rx_vectors.simps [of t buf eof src vp] rd bind.bind_lunit if_not_P [OF h(2)] v q len using q g IH Cons.prems(1)
      by (cases k) simp_all
  qed
qed

text \<open>Messages in the order of the frame.\<close>

fun hear_messages :: "u8 list \<Rightarrow> (msrp_type \<times> group list) list \<Rightarrow> (msrp_type \<Rightarrow> bool) \<Rightarrow> nat \<Rightarrow> msrp_database \<Rightarrow> (bool \<times> msrp_database) option" where
  "hear_messages src [] saw sz s = Some (True, s)"
| "hear_messages src ((t, gs) # ms) saw sz s = do {
     (ok, saw, sz, s) \<leftarrow> hear_groups t src gs saw sz s;
     if ok then hear_messages src ms saw sz s else Some (False, s) }"

lemma enc_message_bytes:
  assumes "gs \<noteq> []" "length (enc_message t gs) < 65536"
  obtains l0 l1 where "enc_message t gs = [type_code t, of_nat (type_length t), l0, l1] @ concat (map (enc_group t) gs) @ [0, 0]"
    "unat l0 * 256 + unat l1 = length (concat (map (enc_group t) gs)) + 2"
proof -
  let ?n = "length (concat (map (enc_group t) gs) @ [0 :: u8, 0])"
  have "?n < 65536" using assms by (simp add: enc_message_def Let_def)
  then have "?n div 256 < 256" by (simp add: less_mult_imp_div_less)
  then have "unat (of_nat (?n div 256) :: u8) * 256 + unat (of_nat ?n :: u8) = ?n"
    by (simp add: unat_of_nat take_bit_nat_eq_self_iff del: length_append length_concat)
  then show thesis using that [of "of_nat (?n div 256)" "of_nat ?n"] assms(1) by (simp add: enc_message_def Let_def)
qed

lemma type_codes [simp]: "type_of_code (type_code t) = Some t" "type_code t \<noteq> 0" "unat (of_nat (type_length t) :: u8) = type_length t"
  by (cases t; simp add: type_of_code_def)+

lemma msrp_rx_messages_end:
  "mp + 2 = eof \<Longrightarrow> msrp_rx_messages buf eof src mp em saw sz s = Some (0, s)"
  by (subst msrp_rx_messages.simps) (simp add: MRPDU_ENDMARK_SZ_def)

lemma msrp_rx_messages_mark:
  "drop mp buf = [0, 0] @ rest \<Longrightarrow> mp + 2 < eof \<Longrightarrow>
     msrp_rx_messages buf eof src mp 0 saw sz s = msrp_rx_messages buf eof src (mp + 2) 1 saw sz s"
  using drop_step [of mp buf "[0]"]
  by (subst msrp_rx_messages.simps) (simp add: MRPDU_ENDMARK_SZ_def rd_at)

lemma msrp_rx_messages_message:
  assumes "gs \<noteq> []" "\<forall>g\<in>set gs. small_group t g" "drop mp buf = enc_message t gs @ rest" "mp + length (enc_message t gs) < eof" "eof < 65536"
    "sz = 0 \<or> 64 \<le> sz"
  shows "msrp_rx_messages buf eof src mp em saw sz s = do {
    (ok, saw, sz, s) \<leftarrow> hear_groups t src gs saw sz s;
    if ok then msrp_rx_messages buf eof src (mp + length (enc_message t gs)) 1 saw sz s else Some (-1, s) }"
proof -
  let ?c = "concat (map (enc_group t) gs)"
  have "length (enc_message t gs) < 65536" using assms(4,5) by simp
  then obtain l0 l1 where e: "enc_message t gs = [type_code t, of_nat (type_length t), l0, l1] @ ?c @ [0, 0]"
    "unat l0 * 256 + unat l1 = length ?c + 2" by (rule enc_message_bytes [OF assms(1)])
  have len: "length (enc_message t gs) = 4 + length ?c + 2" using e(1) by simp
  have d: "drop mp buf = [type_code t, of_nat (type_length t), l0, l1] @ ?c @ [0, 0] @ rest" using assms(3) e(1) by simp
  have r: "rd buf mp = Some (type_code t)" "rd buf (mp + 1) = Some (of_nat (type_length t))" "rd buf (mp + 2) = Some l0" "rd buf (mp + 3) = Some l1"
    using d drop_step [of mp buf "[type_code t]"] drop_step [of mp buf "[type_code t, of_nat (type_length t)]"]
      drop_step [of mp buf "[type_code t, of_nat (type_length t), l0]"] by (simp_all add: rd_at numeral_eq_Suc)
  have d4: "drop (mp + 4) buf = ?c @ [0, 0] @ rest" using d drop_step [of mp buf "[type_code t, of_nat (type_length t), l0, l1]"] by (simp add: numeral_eq_Suc)
  have dq: "drop (mp + 4 + length ?c) buf = [0, 0] @ rest" using drop_step [OF d4] .
  have q: "rd buf (mp + 4 + length ?c) = Some 0" "rd buf (mp + 4 + length ?c + 1) = Some 0"
    using dq drop_step [of "mp + 4 + length ?c" buf "[0]"] by (simp_all add: rd_at)
  obtain l vs hs where gs: "gs = (l, vs) # hs" using assms(1) by (cases gs) auto
  have "group_ok t (l, vs)" using assms(2) gs by (simp add: small_group_def)
  then have big: "type_length t + 2 \<le> length ?c" using length_enc_group gs by auto
  have ck: "msrp_recv_msg_check_attrib_list_len buf mp eof = Some True"
  proof -
    have p: "mp + 2 + (length ?c + 2) = mp + 4 + length ?c" by simp
    have g: "\<not> length ?c + 2 < unat (of_nat (type_length t) :: u8) + 2 + 1" "\<not> eof \<le> mp + 4 + length ?c" using big assms(4) len by simp_all
    show ?thesis
      unfolding msrp_recv_msg_check_attrib_list_len_def r bind.bind_lunit Let_def e(2) if_not_P [OF g(1)] p if_not_P [OF g(2)] q by simp
  qed
  have v: "msrp_rx_vectors t buf eof src (mp + 4) saw sz s =
    map_option (\<lambda>(ok, saw, sz, s). (if ok then Some (mp + 4 + length ?c) else None, saw, sz, s)) (hear_groups t src gs saw sz s)"
    by (rule msrp_rx_vectors_groups [OF assms(2) d4 _ assms(6)]) (use assms(4) len in simp)
  have le: "mp + length (enc_message t gs) = mp + 4 + length ?c + 2" using len by simp
  have m: "msrp_rx_messages buf eof src (mp + 4 + length ?c) 0 w z u = msrp_rx_messages buf eof src (mp + length (enc_message t gs)) 1 w z u" for w z u
    unfolding le by (rule msrp_rx_messages_mark [OF dq]) (use assms(4) len in simp)
  have g: "\<not> \<not> mp + MRPDU_ENDMARK_SZ < eof" "\<not> (type_code t = 0 \<and> (of_nat (type_length t) :: u8) = 0)" "\<not> unat (of_nat (type_length t) :: u8) \<noteq> type_length t"
    "\<not> \<not> True" using assms(4) len by (simp_all add: MRPDU_ENDMARK_SZ_def)
  show ?thesis
    unfolding msrp_rx_messages.simps [of buf eof src mp] if_not_P [OF g(1)] r(1,2) bind.bind_lunit if_not_P [OF g(2)] type_codes(1) option.case if_not_P [OF g(3)] ck
      if_not_P [OF g(4)] v
    by (cases "hear_groups t src gs saw sz s") (auto simp: m)
qed

lemma msrp_rx_messages_hear:
  assumes "\<forall>(t, gs)\<in>set ms. \<forall>g\<in>set gs. small_group t g" "drop mp buf = concat (map (\<lambda>(t, gs). enc_message t gs) ms) @ [0, 0] @ rest"
    "mp + length (concat (map (\<lambda>(t, gs). enc_message t gs) ms)) + 2 = eof" "eof < 65536" "sz = 0 \<or> 64 \<le> sz"
  shows "msrp_rx_messages buf eof src mp em saw sz s = map_option (\<lambda>(ok, s). (if ok then 0 else -1, s)) (hear_messages src ms saw sz s)"
  using assms
proof (induction ms arbitrary: mp em saw sz s)
  case Nil
  then show ?case using msrp_rx_messages_end by simp
next
  case (Cons m ms)
  obtain t gs where m: "m = (t, gs)" by (cases m)
  let ?e = "enc_message t gs"
  have pre: "drop (mp + length ?e) buf = concat (map (\<lambda>(t, gs). enc_message t gs) ms) @ [0, 0] @ rest"
    "mp + length ?e + length (concat (map (\<lambda>(t, gs). enc_message t gs) ms)) + 2 = eof"
    using Cons.prems(2,3) m drop_step [of mp buf ?e] by simp_all
  have IH: "msrp_rx_messages buf eof src (mp + length ?e) k w z u = map_option (\<lambda>(ok, s). (if ok then 0 else -1, s)) (hear_messages src ms w z u)"
    if "z = 0 \<or> 64 \<le> z" for k w z u using Cons.IH [OF _ pre Cons.prems(4) that] Cons.prems(1) by simp
  show ?case
  proof (cases "gs = []")
    case True
    then have "?e = []" by (simp add: enc_message_def)
    then show ?thesis using IH [OF Cons.prems(5), of em saw s] m True by simp
  next
    case False
    have g: "\<forall>g\<in>set gs. small_group t g" "drop mp buf = ?e @ (concat (map (\<lambda>(t, gs). enc_message t gs) ms) @ [0, 0] @ rest)" "mp + length ?e < eof"
      using Cons.prems(1-3) m by auto
    show ?thesis
    proof (cases "hear_groups t src gs saw sz s")
      case None
      then show ?thesis unfolding msrp_rx_messages_message [OF False g Cons.prems(4,5)] using m by simp
    next
      case (Some q)
      obtain k w z u where q: "hear_groups t src gs saw sz s = Some (k, w, z, u)" using Some by (cases q) auto
      show ?thesis unfolding msrp_rx_messages_message [OF False g Cons.prems(4,5)] using m q IH [OF hear_groups_size [OF q Cons.prems(5)], of 1 w u] by (cases k) simp_all
    qed
  qed
qed

section \<open>Hearing frames\<close>

text \<open>What a station does with a frame: the messages of the four types in order.\<close>

definition hear_frame :: "u8 list \<Rightarrow> (msrp_type \<Rightarrow> group list) \<Rightarrow> msrp_database \<Rightarrow> (bool \<times> msrp_database) option" where
  "hear_frame src gs s = hear_messages src (map (\<lambda>t. (t, gs t)) all_types) (\<lambda>t. False) 0 s"

definition in_buffer :: "u8 list \<Rightarrow> u8 list" where
  "in_buffer f = f @ replicate (MAX_FRAME_SIZE - length f) 0"

lemma msrp_recv_frame:
  assumes "\<forall>t. \<forall>g\<in>set (gs t). small_group t g" "length src = 6" "length (msrp_frame src gs) \<le> MAX_FRAME_SIZE"
  shows "msrp_recv_msg s (int (length (msrp_frame src gs))) (in_buffer (msrp_frame src gs)) =
    map_option (\<lambda>(ok, s). (if ok then 0 else -1, s)) (hear_frame src gs s)"
proof -
  let ?f = "msrp_frame src gs" and ?z = "replicate (MAX_FRAME_SIZE - length (msrp_frame src gs)) (0 :: u8)"
  let ?ms = "map (\<lambda>t. (t, gs t)) all_types"
  obtain h0 h1 where h: "bytes_be 2 MSRP_ETYPE = [h0, h1]" "word_be [h0, h1] = MSRP_ETYPE" by (rule two_bytes)
  have pl: "concat (map (\<lambda>(t, gs). enc_message t gs) ?ms) = payload gs" by (simp add: payload_def comp_def)
  have f: "in_buffer ?f = MSRP_ADDR @ src @ [h0, h1, MSRP_PROT_VER] @ payload gs @ [0, 0] @ ?z" by (simp add: in_buffer_def msrp_frame_def h)
  have len: "length MSRP_ADDR = 6" by (simp add: MSRP_ADDR_def)
  have lf: "15 + length (payload gs) + 2 = length ?f" using len assms(2) by (simp add: msrp_frame_def)
  have parts: "take 6 (in_buffer ?f) = MSRP_ADDR" "take 6 (drop 6 (in_buffer ?f)) = src" "take 2 (drop 12 (in_buffer ?f)) = [h0, h1]"
    "drop 15 (in_buffer ?f) = payload gs @ [0, 0] @ ?z" "14 \<le> length (in_buffer ?f)"
    unfolding f using len assms(2) by simp_all
  have "17 \<le> length ?f" "length ?f < 65536" using lf assms(3) by (simp_all add: MAX_FRAME_SIZE_def)
  moreover have "msrp_recv_msg s (int (length ?f)) (in_buffer ?f) = msrp_rx_messages (in_buffer ?f) (length ?f) src 15 0 (\<lambda>t. False) 0 s"
    using calculation(1) parts(1-3,5) h(2) by (cases "?f = []") (simp_all add: msrp_recv_msg_def c_assert_def)
  ultimately show ?thesis
    using msrp_rx_messages_hear [of ?ms 15 "in_buffer ?f" ?z "length ?f" 0 src 0 "\<lambda>t. False" s] assms(1) parts(4) lf
    unfolding pl hear_frame_def by simp
qed

end
