(* ===== verification/Msrp_Safety.thy ===== *)
theory Msrp_Safety
  imports Msrp_Codec Mrp_Stations Event_System
begin

text \<open>
  Safety of the stream reservation protocol: timer events, received frames and commands keep
  the invariant and cause no access behind a buffer or through a null pointer, under the bounds that are
  stated with each.
\<close>

section \<open>Transmission\<close>

lemma tx_state_env: "same_env s (tx_state s n as fs)" "attrib_list (tx_state s n as fs) = as"
  by (simp_all add: tx_state_def same_env_def)

lemma cleared_marks: "cleared as (map clear_tx as)" "cleared as (map (unmark t) (map (unmark t') as))"
  by (auto simp: cleared_def list_all2_conv_all_nth unmark_def)

lemma msrp_inv_cleared:
  assumes "msrp_inv s" "same_env s t" "cleared (attrib_list s) (attrib_list t)"
  shows "msrp_inv t"
  by (rule msrp_inv_shrinks [OF assms(1)])
    (use assms app_inv_cleared [of s t] cleared_keeps(3) [OF assms(3)] env_set(1) [OF assms(2)] in \<open>simp_all add: msrp_inv_def\<close>)

lemma msrp_txpdu_total:
  assumes "msrp_inv s" "sendable (attrib_list s)" "length (attrib_list s) \<le> 49"
  shows "\<exists>rc s'. msrp_txpdu s = Some (rc, s') \<and> msrp_inv s' \<and> same_env s s' \<and> length (attrib_list s') = length (attrib_list s)"
proof -
  have shape: "list_all attr_shape (attrib_list s)" using assms(1) by (simp add: msrp_inv_def shaped_def)
  have keep: "msrp_inv (tx_state s n as fs)" if "cleared (attrib_list s) as" for n as fs
    by (rule msrp_inv_cleared [OF assms(1) tx_state_env(1)]) (use that tx_state_env(2) in simp)
  show ?thesis
  proof (cases "mem_ok s (mem_pos s)")
    case False
    have "msrp_inv (snd (mrpd_malloc s))" using msrp_inv_env [OF assms(1)] by simp
    moreover have "msrp_txpdu s = Some (-1, snd (mrpd_malloc s))" using False by (simp add: msrp_txpdu_def mrpd_malloc_def)
    ultimately show ?thesis by simp
  next
    case True
    note spec = msrp_txpdu_spec [OF True assms(2) shape assms(3)]
    show ?thesis
    proof (cases "mem_ok s (Suc (mem_pos s))")
      case m: True
      then obtain rc fs where "msrp_txpdu s = Some (rc, tx_state s 2 (map clear_tx (attrib_list s)) fs)" using spec by auto
      then show ?thesis using keep [OF cleared_marks(1)] tx_state_env by simp
    next
      case False
      then have "msrp_txpdu s = Some (-1, tx_state s 2 (map (unmark MSRP_TALKER_FAILED_TYPE) (map (unmark MSRP_TALKER_ADV_TYPE) (attrib_list s))) [])"
        using spec by (simp only: if_False)
      then show ?thesis using keep [OF cleared_marks(2)] tx_state_env by simp
    qed
  qed
qed

lemma both_pass_sends:
  assumes "list_all attr_ok as" "e = MRP_EVENT_TXLA"
  shows "(\<forall>a\<in>set (fst (for_attributes (both_step e) as s)). pdu_event a \<noteq> None) \<and> length (fst (for_attributes (both_step e) as s)) = length as"
  using assms(1)
proof (induction as arbitrary: s)
  case (Cons a as)
  obtain b u where b: "registrar_step e (applicant_step e a s) s = (b, u)" by (cases "registrar_step e (applicant_step e a s) s")
  have "applicant b = applicant (applicant_step e a s)" using b by (auto simp: registrar_step_def split: prod.splits)
  then have "pdu_event b \<noteq> None" using applicant_tx_sends [of a e s] Cons.prems assms(2) unfolding pdu_event_None by simp
  moreover have "both_step e a s = ([b], u)" using b by (simp add: both_step_def)
  ultimately show ?case using Cons.IH [of u] Cons.prems by (auto simp: case_prod_beta)
qed simp

lemma msrp_flag_inv [simp]: "msrp_inv (s\<lparr>send_empty_LeaveAll_flag := b\<rparr>) = msrp_inv s"
  by (simp add: msrp_inv_def)

text \<open>A transmission opportunity and the expiry of the leave-all timer, with at most 49 attributes.\<close>

lemma msrp_event_tx_total:
  assumes "msrp_inv s" "length (attrib_list s) \<le> 49"
  shows "\<exists>s'. msrp_event_tx s = Some s' \<and> msrp_inv s'"
proof -
  let ?j = "on_db mrp_jointimer_stop s"
  let ?t = "over_list (\<lambda>a s. ([applicant_step MRP_EVENT_TX a s], s)) ?j"
  have t: "msrp_inv ?t" using msrp_passes(2) [OF msrp_timers(2) [OF assms(1)]] .
  have l: "attrib_list ?t = map (\<lambda>a. applicant_step MRP_EVENT_TX a ?j) (attrib_list s)" by (simp add: over_list_def applicants_map on_db_def)
  have "sendable (attrib_list ?t)"
    unfolding l sendable_def using applicant_tx_sends [of _ MRP_EVENT_TX ?j] assms(1) by (auto simp: msrp_inv_def app_inv_def list_all_iff)
  then obtain rc u where "msrp_txpdu ?t = Some (rc, u)" "msrp_inv u" using msrp_txpdu_total [OF t] assms(2) l by auto
  then show ?thesis using msrp_timers(1) by (auto simp: msrp_event_tx_def Let_def)
qed

lemma msrp_event_lvatimer_total:
  assumes "msrp_inv s" "length (attrib_list s) \<le> 49"
  shows "\<exists>s'. msrp_event_lvatimer s = Some s' \<and> msrp_inv s'"
proof -
  let ?j = "on_db mrp_jointimer_stop (on_db mrp_lvatimer_stop s)"
  let ?t = "over_list (both_step MRP_EVENT_TXLA) ?j"
  let ?u = "on_db (\<lambda>db. mrp_lvatimer_fsm db MRP_EVENT_TX) ((on_db (\<lambda>db. mrp_lvatimer_fsm db MRP_EVENT_LVATIMER) ?t)\<lparr>send_empty_LeaveAll_flag := True\<rparr>)"
  have j: "msrp_inv ?j" "attrib_list ?j = attrib_list s" using msrp_timers(2) [OF msrp_timers(3) [OF assms(1)]] by simp_all
  then have "list_all attr_ok (attrib_list ?j)" by (simp add: msrp_inv_def app_inv_def)
  from both_pass_sends [OF this refl, of ?j] have t: "sendable (attrib_list ?t)" "length (attrib_list ?t) = length (attrib_list s)"
    using j(2) by (simp_all add: over_list_def sendable_def case_prod_beta)
  have "msrp_inv ?u" using msrp_passes(1) [OF j(1)] msrp_timers(4) by simp
  moreover have "attrib_list ?u = attrib_list ?t" by (simp add: on_db_def)
  ultimately obtain rc v where "msrp_txpdu ?u = Some (rc, v)" "msrp_inv v" using msrp_txpdu_total [of ?u] t assms(2) by auto
  then show ?thesis by (simp add: msrp_event_lvatimer_def Let_def)
qed

lemma msrp_event_total:
  assumes "msrp_inv s" "\<And>r. rattrib = Some r \<Longrightarrow> msrp_fresh r" "silent_event e \<or> length (attrib_list s) \<le> 49"
  shows "\<exists>rc s'. msrp_event s e rattrib = Some (rc, s') \<and> msrp_inv s'"
proof (cases "silent_event e")
  case True
  then show ?thesis using msrp_silent_event [OF assms(1) True assms(2)] by blast
next
  case False
  then have "length (attrib_list s) \<le> 49" "e = MRP_EVENT_TX \<or> e = MRP_EVENT_LVATIMER" using assms(3) by (auto simp: silent_event_def)
  then show ?thesis using msrp_event_tx_total [OF assms(1)] msrp_event_lvatimer_total [OF assms(1)] msrp_passes(4)
    by (auto simp: msrp_event_def)
qed

section \<open>Requests\<close>

lemma fresh_fields:
  assumes "msrp_alloc t s = (Some a, u)" "applicant b = applicant a" "registrar b = registrar a" "talker_shape (talk_listen b)"
  shows "msrp_fresh b"
proof -
  have "applicant a = new_applicant" "registrar a = new_registrar"
    using assms(1) by (auto simp: msrp_alloc_def mrpd_malloc_def Let_def split: if_splits)
  then have "fresh b" using assms(2,3) by (intro new_fresh(2)) (simp_all add: new_registrar_def)
  then show ?thesis using assms(4) by (simp add: msrp_fresh_def attr_shape_def)
qed

lemma request_total:
  assumes "msrp_inv s" "silent_event e"
    and "\<And>a. applicant (fill a) = applicant a" "\<And>a. registrar (fill a) = registrar a" "\<And>a. talker_shape (talk_listen a) \<Longrightarrow> talker_shape (talk_listen (fill a))"
  shows "\<exists>rc s'. request t fill e s = Some (rc, s') \<and> msrp_inv s'"
proof -
  obtain r u where al: "msrp_alloc t s = (r, u)" by (cases "msrp_alloc t s")
  have u: "msrp_inv u" using msrp_alloc_inv [OF assms(1) al] .
  have "\<exists>rc s'. msrp_event u e (Some (fill a)) = Some (rc, s') \<and> msrp_inv s'" if "r = Some a" for a
  proof (rule msrp_silent_event [OF u assms(2)])
    fix x
    assume "Some (fill a) = Some x"
    moreover have "talker_shape (talk_listen a)" using msrp_alloc_ok(3) [OF al that] by (simp add: attr_shape_def)
    ultimately show "msrp_fresh x" using fresh_fields [of t s a u x] al that assms(3-5) by auto
  qed
  then show ?thesis using u al by (cases r) (auto simp: request_def)
qed

lemma silent_requests [simp]: "silent_event MRP_EVENT_LV" "silent_event MRP_EVENT_NEW" "silent_event MRP_EVENT_JOIN"
  by (simp_all add: silent_event_def)

lemma requests_total:
  assumes "msrp_inv s"
  shows "talker_shape v \<Longrightarrow> silent_event e \<Longrightarrow> \<exists>rc s'. msrp_cmd_join_or_new_stream v t e s = Some (rc, s') \<and> msrp_inv s'"
    "talker_shape v \<Longrightarrow> \<exists>rc s'. msrp_cmd_leave_stream v s = Some (rc, s') \<and> msrp_inv s'"
    "talker_shape v \<Longrightarrow> \<exists>rc s'. msrp_cmd_report_listener_status v sub s = Some (rc, s') \<and> msrp_inv s'"
    "talker_shape v \<Longrightarrow> \<exists>rc s'. msrp_cmd_withdraw_listener_status v s = Some (rc, s') \<and> msrp_inv s'"
    "\<exists>rc s'. msrp_cmd_report_domain_status d report s = Some (rc, s') \<and> msrp_inv s'"
  unfolding msrp_cmd_join_or_new_stream_def msrp_cmd_leave_stream_def msrp_cmd_report_listener_status_def msrp_cmd_withdraw_listener_status_def
    msrp_cmd_report_domain_status_def
  by (rule request_total [OF assms]; auto simp: Let_def split: option.split)+

lemma filter_values: "subseq (values_of (filter P as)) (values_of as)"
  unfolding values_of_def by (intro subseq_map subseq_filter_left)

lemma prune_stream_inv: "msrp_inv s \<Longrightarrow> msrp_inv (prune_stream i s)"
proof -
  assume i: "msrp_inv s"
  have "app_inv (prune_stream i s)" using i by (auto simp: msrp_inv_def app_inv_def prune_stream_def list_all_iff covered_def timers_ok_def)
  then show ?thesis using filter_values by (intro msrp_inv_shrinks [OF i]) (simp_all add: prune_stream_def)
qed

lemma msrp_inv_set: "msrp_inv s \<Longrightarrow> eui_inv ids \<Longrightarrow> msrp_inv (s\<lparr>interesting_stream_ids := ids\<rparr>)"
  by (simp add: msrp_inv_def app_inv_def covered_def timers_ok_def)

lemma cmd_withdraw_listener_total:
  "msrp_inv s \<Longrightarrow> talker_shape v \<Longrightarrow> \<exists>rc s'. cmd_withdraw_listener v s = Some (rc, s') \<and> msrp_inv s'"
  using requests_total(4) [of s v] prune_stream_inv by (auto simp: cmd_withdraw_listener_def)

lemma cmd_add_interesting_total:
  "qsort_spec qsort \<Longrightarrow> msrp_inv s \<Longrightarrow> \<exists>rc s'. cmd_add_interesting qsort i s = Some (rc, s') \<and> msrp_inv s'"
proof -
  assume q: "qsort_spec qsort" and i: "msrp_inv s"
  have "eui_inv (interesting_stream_ids s)" using i by (simp add: msrp_inv_def)
  from insert_entries [OF q this] obtain r set' where
    "eui64set_insert_and_sort qsort (interesting_stream_ids s) (eui64_read i) None = Some (r, set')" "eui_inv set'" by blast
  then show ?thesis using i msrp_inv_set by (auto simp: cmd_add_interesting_def)
qed

lemma cmd_remove_interesting_total:
  "qsort_spec qsort \<Longrightarrow> msrp_inv s \<Longrightarrow> \<exists>rc s'. cmd_remove_interesting qsort i s = Some (rc, s') \<and> msrp_inv s'"
proof -
  assume q: "qsort_spec qsort" and i: "msrp_inv s"
  obtain r set' freed where x: "eui64set_remove_and_sort qsort (interesting_stream_ids s) (eui64_read i) = (r, set', freed)" using prod_cases3 by blast
  have "eui_inv (interesting_stream_ids s)" using i by (simp add: msrp_inv_def)
  from remove_keeps [OF q this, of "eui64_read i"] have "eui_inv set'" using x by simp
  then have "msrp_inv (s\<lparr>interesting_stream_ids := set'\<rparr>)" using i msrp_inv_set by blast
  then show ?thesis using x prune_stream_inv by (simp add: cmd_remove_interesting_def Let_def)
qed

section \<open>Parsing\<close>

lemma msrp_cmd_parse_total:
  assumes "n \<le> length buf" "CHR 0x00 \<in> set buf" "4 \<le> least" "\<forall>q\<in>set specs. ptype q \<noteq> parse_null"
  shows "\<exists>rc vs buf'. msrp_cmd_parse least specs buf n = Some (rc, vs, buf') \<and> CHR 0x00 \<in> set buf' \<and>
    (rc = 0 \<longrightarrow> list_all2 (\<lambda>q v. value_of_type (ptype q) v) specs vs)"
proof (cases "n < least")
  case True
  then show ?thesis using assms(2) by (simp add: msrp_cmd_parse_def)
next
  case False
  then have "4 + (n - 4) \<le> length buf" using assms(1,3) by simp
  from parse_total [OF this _ assms(2,4)] obtain rc e vs buf' where "parse buf 4 (n - 4) specs = Some (rc, e, vs, buf')" "CHR 0x00 \<in> set buf'"
    "rc = 0 \<longrightarrow> list_all2 (\<lambda>q v. value_of_type (ptype q) v) specs vs" by auto
  then show ?thesis using False by (simp add: msrp_cmd_parse_def)
qed

lemma typed_values:
  "value_of_type parse_c64 v \<longleftrightarrow> (\<exists>bs. v = V_bytes bs \<and> length bs = 8)" "value_of_type parse_mac v \<longleftrightarrow> (\<exists>bs. v = V_bytes bs \<and> length bs = 6)"
  "value_of_type parse_u8 v \<longleftrightarrow> (\<exists>x. v = V_u8 x)" "value_of_type parse_u16 v \<longleftrightarrow> (\<exists>x. v = V_u16 x)"
  "value_of_type parse_u16_04x v \<longleftrightarrow> (\<exists>x. v = V_u16 x)" "value_of_type parse_u32 v \<longleftrightarrow> (\<exists>x. v = V_u32 x)"
  by (auto simp: value_of_type_def split: parse_value.split)

lemma zero_shape [simp]: "length (StreamID zero_talker) = 8" "length (Dest_Addr zero_talker) = 6" "length (BridgeID zero_talker) = 8"
  by (simp_all add: zero_talker_def)

lemma parsed_shapes:
  "list_all2 (\<lambda>q v. value_of_type (ptype q) v) stream_specs vs \<Longrightarrow> talker_shape (stream_of vs)"
  "list_all2 (\<lambda>q v. value_of_type (ptype q) v) failure_specs vs \<Longrightarrow> talker_shape (stream_of vs)"
  "list_all2 (\<lambda>q v. value_of_type (ptype q) v) [streamid_spec] vs \<Longrightarrow> talker_shape (stream_of vs)"
  "list_all2 (\<lambda>q v. value_of_type (ptype q) v) [listener_spec] vs \<Longrightarrow> talker_shape (stream_of vs)"
  "list_all2 (\<lambda>q v. value_of_type (ptype q) v) [listener_spec, \<lparr>pname = ''D='', ptype = parse_u32\<rparr>] vs \<Longrightarrow> talker_shape (stream_of vs)"
  by (auto simp: stream_specs_def failure_specs_def streamid_spec_def listener_spec_def list_all2_Cons1 typed_values stream_of_def talker_shape_def)

lemma specs_typed:
  "\<forall>q\<in>set stream_specs. ptype q \<noteq> parse_null" "\<forall>q\<in>set failure_specs. ptype q \<noteq> parse_null" "\<forall>q\<in>set domain_specs. ptype q \<noteq> parse_null"
  "\<forall>q\<in>set [streamid_spec]. ptype q \<noteq> parse_null" "\<forall>q\<in>set [listener_spec]. ptype q \<noteq> parse_null"
  "\<forall>q\<in>set [listener_spec, \<lparr>pname = ''D='', ptype = parse_u32\<rparr>]. ptype q \<noteq> parse_null"
  by (simp_all add: stream_specs_def failure_specs_def streamid_spec_def listener_spec_def domain_specs_def)

text \<open>A parser ends, leaves a terminated buffer, and its values are well-formed if it succeeds.\<close>

definition parses :: "(int \<times> 'v \<times> string) option \<Rightarrow> ('v \<Rightarrow> bool) \<Rightarrow> bool" where
  "parses p P \<longleftrightarrow> (\<exists>rc v buf. p = Some (rc, v, buf) \<and> CHR 0x00 \<in> set buf \<and> (rc = 0 \<longrightarrow> P v))"

lemma parsers_total:
  assumes "n \<le> length buf" "CHR 0x00 \<in> set buf"
  shows "parses (msrp_cmd_parse_stream_id buf n) (\<lambda>i. True)" "parses (msrp_cmd_parse_join_or_new_stream buf n) talker_shape"
    "parses (msrp_cmd_parse_join_or_new_stream_failure buf n) talker_shape" "parses (msrp_cmd_parse_leave_stream buf n) talker_shape"
    "parses (msrp_cmd_parse_report_listener_status buf n) (\<lambda>(v, sub). talker_shape v)"
    "parses (msrp_cmd_parse_withdraw_listener_status buf n) talker_shape" "parses (msrp_cmd_parse_domain_status buf n) (\<lambda>d. True)"
proof -
  note go = msrp_cmd_parse_total [OF assms]
  show "parses (msrp_cmd_parse_stream_id buf n) (\<lambda>i. True)"
    using go [of "16 + 4", OF _ specs_typed(4)] by (auto simp: parses_def msrp_cmd_parse_stream_id_def)
  show "parses (msrp_cmd_parse_join_or_new_stream buf n) talker_shape"
    using go [of 22, OF _ specs_typed(1)] parsed_shapes(1) by (auto simp: parses_def msrp_cmd_parse_join_or_new_stream_def)
  show "parses (msrp_cmd_parse_join_or_new_stream_failure buf n) talker_shape"
    using go [of 47, OF _ specs_typed(2)] parsed_shapes(2) by (auto simp: parses_def msrp_cmd_parse_join_or_new_stream_failure_def)
  show "parses (msrp_cmd_parse_leave_stream buf n) talker_shape"
    using go [of 22, OF _ specs_typed(4)] parsed_shapes(3) by (auto simp: parses_def msrp_cmd_parse_leave_stream_def)
  show "parses (msrp_cmd_parse_report_listener_status buf n) (\<lambda>(v, sub). talker_shape v)"
    using go [of 26, OF _ specs_typed(6)] parsed_shapes(5) by (auto simp: parses_def msrp_cmd_parse_report_listener_status_def)
  show "parses (msrp_cmd_parse_withdraw_listener_status buf n) talker_shape"
    using go [of 22, OF _ specs_typed(5)] parsed_shapes(4) by (auto simp: parses_def msrp_cmd_parse_withdraw_listener_status_def)
  show "parses (msrp_cmd_parse_domain_status buf n) (\<lambda>d. True)"
    using go [of 18, OF _ specs_typed(3)] by (auto simp: parses_def msrp_cmd_parse_domain_status_def)
qed

definition cmd_ends :: "(cmd_end \<times> string \<times> msrp_database) option \<Rightarrow> bool" where
  "cmd_ends cmd \<longleftrightarrow> (\<exists>e buf s. cmd = Some (e, buf, s) \<and> CHR 0x00 \<in> set buf \<and> msrp_inv s)"

lemma parsed_total:
  assumes "parses p P" "msrp_inv s" "\<And>v. P v \<Longrightarrow> \<exists>rc s'. act v s = Some (rc, s') \<and> msrp_inv s'"
  shows "cmd_ends (parsed p act s)"
proof -
  obtain rc v buf where p: "p = Some (rc, v, buf)" "CHR 0x00 \<in> set buf" "rc = 0 \<longrightarrow> P v" using assms(1) by (auto simp: parses_def)
  show ?thesis
  proof (cases "rc = 0")
    case True
    then obtain rc' s' where "act v s = Some (rc', s')" "msrp_inv s'" using p(3) assms(3) by blast
    then show ?thesis using True p by (simp add: parsed_def cmd_ends_def)
  qed (use p assms(2) in \<open>simp add: parsed_def cmd_ends_def\<close>)
qed

section \<open>Queries\<close>

lemma length_print_04x [simp]: "length (print_04x w) = 4"
proof -
  have "unat w < 16 ^ 4" using unsigned_less [of w, where 'a = nat] by simp
  then show ?thesis using print_base_length [of "unat w" 16 4] by (simp add: print_04x_def zero_padded_def)
qed

lemma print_unsigned_length:
  "length (print_base 10 (unat (b :: u8))) \<le> 3" "length (print_base 10 (unat (h :: u16))) \<le> 5" "1 \<le> length (print_base 10 n)"
proof -
  have "unat b < 10 ^ 3" "unat h < 10 ^ 5" using unsigned_less [of b, where 'a = nat] unsigned_less [of h, where 'a = nat] by simp_all
  then show "length (print_base 10 (unat b)) \<le> 3" "length (print_base 10 (unat h)) \<le> 5"
    using print_base_length [of "unat b" 10 3] print_base_length [of "unat h" 10 5] by simp_all
  show "1 \<le> length (print_base 10 n)" by (subst print_base.simps) simp
qed

lemma print_d_length: "length (print_d w) \<le> 11" "1 \<le> length (print_d w)"
proof -
  have "- (2 ^ 31) \<le> sint w" "sint w < 2 ^ 31" using sint_ge [of w] sint_lt [of w] by simp_all
  then have n: "nat (- sint w) < 10 ^ 10" "nat (sint w) < 10 ^ 10" by simp_all
  then show "length (print_d w) \<le> 11" using print_base_length [OF n(1)] print_base_length [OF n(2)] by (simp add: print_d_def)
  show "1 \<le> length (print_d w)" using print_unsigned_length(3) by (simp add: print_d_def)
qed

lemma dump_text_length:
  assumes "attr_shape a"
  shows "length (dump_text a) \<le> 103" "is_talker (s_type a) \<Longrightarrow> 81 \<le> length (dump_text a)"
proof -
  let ?v = "talk_listen a" and ?d = "domain a"
  note u8 = print_unsigned_length(1) and u16 = print_unsigned_length(2) and one = print_unsigned_length(3)
  have l: "length (StreamID ?v) = 8" "length (Dest_Addr ?v) = 6" "length (BridgeID ?v) = 8" using assms by (simp_all add: attr_shape_def talker_shape_def)
  have t: "length (talker_text ?v) \<le> 78" "58 \<le> length (talker_text ?v)"
    using l u16 [of "MaxFrameSize ?v"] u16 [of "MaxIntervalFrames ?v"] u8 [of "PriorityAndRank ?v"] print_d_length [of "AccumulatedLatency ?v"]
      one [of "unat (MaxFrameSize ?v)"] one [of "unat (MaxIntervalFrames ?v)"] one [of "unat (PriorityAndRank ?v)"] by (simp_all add: talker_text_def)
  have f: "length (failure_text ?v) \<le> 25" "23 \<le> length (failure_text ?v)"
    using l u8 [of "FailureCode ?v"] one [of "unat (FailureCode ?v)"] by (simp_all add: failure_text_def)
  have "length (listener_text a) \<le> 34" using l print_d_length [of "substate a"] by (simp add: listener_text_def)
  moreover have "length (domain_text ?d) \<le> 26"
    using u8 [of "SRclassID ?d"] u8 [of "SRclassPriority ?d"] u8 [of "neighborSRclassPriority ?d"] by (simp add: domain_text_def)
  ultimately show "length (dump_text a) \<le> 103" using t f by (simp add: dump_text_def split: msrp_type.split)
  show "81 \<le> length (dump_text a)" if "is_talker (s_type a)" using that t f by (auto simp: dump_text_def is_talker_def)
qed

lemma dump_line_length:
  assumes "attr_ok a"
  shows "length (msrp_dump_line a) = length (dump_text a) + 10 + 2 * min 6 (length (r_macaddr (registrar a)))"
proof -
  have "length (concat (map hex_byte bs)) = 2 * length bs" for bs by (induction bs) (simp_all add: hex_byte_def)
  moreover have "length (mrp_decode_state (registrar a) (applicant a) 8) = 5" using assms by (simp add: attr_ok_def decode_names name_length)
  ultimately show ?thesis by (simp add: msrp_dump_line_def source_text_def newline_def)
qed

text \<open>A line has at most 125 characters, so that a line always fits and the lines of eleven attributes do.\<close>

lemma msrp_dumptable_fits:
  assumes "msrp_inv s" "length (attrib_list s) < 12"
  shows "\<exists>rc r s'. msrp_dumptable s = Some (rc, r, s') \<and> msrp_inv s'"
proof -
  have le: "length (dump_text a) \<le> 103" "length (msrp_dump_line a) \<le> 125" if "a \<in> set (attrib_list s)" for a
  proof -
    have a: "attr_ok a" "attr_shape a" using that assms(1) by (simp_all add: msrp_inv_def app_inv_def shaped_def list_all_iff)
    show "length (dump_text a) \<le> 103" using dump_text_length(1) [OF a(2)] .
    then show "length (msrp_dump_line a) \<le> 125" unfolding dump_line_length [OF a(1)] by simp
  qed
  have "length (concat (map msrp_dump_line as)) \<le> 125 * length as" if "set as \<subseteq> set (attrib_list s)" for as
    using that le(2) by (induction as) (auto intro!: add_mono)
  then have "length (concat (map msrp_dump_line (attrib_list s))) \<le> 125 * length (attrib_list s)" by blast
  then have "length (concat (map msrp_dump_line (attrib_list s))) < 1500" using assms(2) by simp
  moreover have "list_all (\<lambda>a. length (dump_text a) < 128 \<and> length (msrp_dump_line a) < 128) (attrib_list s)"
    using le by (fastforce simp: list_all_iff)
  moreover have "msrp_inv (s\<lparr>mem_pos := n\<rparr>)" for n by (rule msrp_inv_env [OF assms(1)]) (simp_all add: same_env_def)
  ultimately show ?thesis
    by (auto simp: msrp_dumptable_def mrpd_malloc_def Let_def c_assert_def MAX_MRPD_CMDSZ_def newline_def)
qed

section \<open>Commands\<close>

lemma msrp_command_total:
  assumes "qsort_spec qsort" "msrp_inv s" "n \<le> length buf" "CHR 0x00 \<in> set buf" "msrp_command qsort buf n s = Some cmd"
  shows "cmd_ends cmd"
proof -
  note p = parsers_total [OF assms(3,4)] and r = requests_total [OF assms(2)]
  have c: "cmd_ends (parsed (msrp_cmd_parse_withdraw_listener_status buf n) cmd_withdraw_listener s)"
    "cmd_ends (parsed (msrp_cmd_parse_domain_status buf n) (\<lambda>d. msrp_cmd_report_domain_status d b) s)"
    "cmd_ends (parsed (msrp_cmd_parse_leave_stream buf n) msrp_cmd_leave_stream s)"
    "cmd_ends (parsed (msrp_cmd_parse_report_listener_status buf n) (\<lambda>(v, sub). msrp_cmd_report_listener_status v sub) s)"
    "silent_event ev \<Longrightarrow> cmd_ends (parsed (msrp_cmd_parse_join_or_new_stream_failure buf n) (\<lambda>v. msrp_cmd_join_or_new_stream v MSRP_TALKER_FAILED_TYPE ev) s)"
    "silent_event ev \<Longrightarrow> cmd_ends (parsed (msrp_cmd_parse_join_or_new_stream buf n) (\<lambda>v. msrp_cmd_join_or_new_stream v MSRP_TALKER_ADV_TYPE ev) s)"
    "cmd_ends (parsed (msrp_cmd_parse_stream_id buf n) (cmd_add_interesting qsort) s)"
    "cmd_ends (parsed (msrp_cmd_parse_stream_id buf n) (cmd_remove_interesting qsort) s)" for ev b
    by (rule parsed_total [OF p(6) assms(2)] parsed_total [OF p(7) assms(2)] parsed_total [OF p(4) assms(2)] parsed_total [OF p(5) assms(2)]
        parsed_total [OF p(3) assms(2)] parsed_total [OF p(2) assms(2)] parsed_total [OF p(1) assms(2)];
      use r cmd_withdraw_listener_total [OF assms(2)] cmd_add_interesting_total [OF assms(1,2)] cmd_remove_interesting_total [OF assms(1,2)] in auto)+
  have i: "cmd_ends (Some (e, buf, s))" "cmd_ends (Some (e, buf, s\<lparr>interesting_stream_ids := eui64set_clear (interesting_stream_ids s)\<rparr>))" for e
    using assms(2,4) msrp_inv_set [OF assms(2), of "eui64set_clear (interesting_stream_ids s)"]
    by (auto simp: cmd_ends_def msrp_inv_def eui_inv_def eui64set_clear_def entries_of_def split: option.split)
  show ?thesis
    using assms(4,5) c i by (auto simp: msrp_command_def Let_def c_string_def split: if_splits)
qed

lemma msrp_recv_cmd_total:
  assumes "qsort_spec qsort" "msrp_inv s" "n \<le> length buf" "CHR 0x00 \<in> set buf" "take 3 buf = ''S??'' \<Longrightarrow> length (attrib_list s) < 12"
  shows "\<exists>rc r s'. msrp_recv_cmd qsort (Some s) buf n c = Some (rc, r, Some s') \<and> msrp_inv s'"
proof -
  let ?s = "add_client s c"
  have i: "msrp_inv ?s" "msrp_inv (drop_client ?s c)" using msrp_inv_env [OF assms(2)] msrp_inv_env [of ?s "drop_client ?s c"] by simp_all
  have d: "take 3 buf = ''S??'' \<Longrightarrow> \<exists>rc r s'. msrp_dumptable ?s = Some (rc, r, s') \<and> msrp_inv s'"
    using msrp_dumptable_fits [OF i(1)] assms(5) by simp
  have t: "\<exists>t. c_string b = Some t" if "CHR 0x00 \<in> set b" for b using that by (simp add: c_string_def)
  have cmd: "\<exists>rc r s'. (do { (e, buf, s) \<leftarrow> cmd;
      case e of Cmd_done \<Rightarrow> Some (0, [], Some s)
      | Cmd_erp \<Rightarrow> do { r \<leftarrow> respond 63 ''ERP '' buf; Some (-1, r, Some s) }
      | Cmd_eri \<Rightarrow> do { r \<leftarrow> respond 63 ''ERI '' buf; Some (-1, r, Some s) } }) = Some (rc :: int, r, Some s') \<and> msrp_inv s'"
    if "msrp_command qsort buf n ?s = Some cmd" for cmd
    using msrp_command_total [OF assms(1) i(1) assms(3,4) that] t by (fastforce simp: cmd_ends_def respond_def split: cmd_end.split)
  show ?thesis
    using i d t [OF assms(4)] cmd by (auto simp: msrp_recv_cmd_def Let_def respond_def split: option.split)
qed

section \<open>Runs\<close>

definition msrp_exec :: "qsort \<Rightarrow> msrp_database \<Rightarrow> mrp_action \<Rightarrow> msrp_database option" where
  "msrp_exec qsort s act =
     (case act of
        Timer e \<Rightarrow> map_option snd (msrp_event s e None)
      | Recv n buf \<Rightarrow> map_option snd (msrp_recv_msg s n buf)
      | Cmd buf n c \<Rightarrow> do { (rc, r, db) \<leftarrow> msrp_recv_cmd qsort (Some s) buf n c; db }
      | Bye c \<Rightarrow> msrp_bye (Some s) c
      | Reclaim \<Rightarrow> snd (msrp_reclaim (Some s)))"

definition msrp_admissible :: "msrp_database \<Rightarrow> mrp_action \<Rightarrow> bool" where
  "msrp_admissible s act =
     (case act of
        Timer e \<Rightarrow> e \<in> {MRP_EVENT_LVATIMER, MRP_EVENT_TX, MRP_EVENT_LVTIMER, MRP_EVENT_PERIODIC} \<and>
          (e = MRP_EVENT_LVATIMER \<or> e = MRP_EVENT_TX \<longrightarrow> length (attrib_list s) \<le> 49)
      | Recv n buf \<Rightarrow> frame_buffer n buf
      | Cmd buf n c \<Rightarrow> n \<le> length buf \<and> CHR 0x00 \<in> set buf \<and> (take 3 buf = ''S??'' \<longrightarrow> length (attrib_list s) < 12)
      | _ \<Rightarrow> True)"

lemma msrp_event_system:
  assumes "qsort_spec qsort"
  shows "event_system msrp_inv msrp_admissible (msrp_exec qsort)"
proof unfold_locales
  fix s act
  assume i: "msrp_inv s" and a: "msrp_admissible s act"
  show "\<exists>s'. msrp_exec qsort s act = Some s' \<and> msrp_inv s'"
  proof (cases act)
    case (Timer e)
    then show ?thesis using msrp_event_total [OF i, of None e] a by (fastforce simp: msrp_exec_def msrp_admissible_def silent_event_def)
  next
    case (Recv n buf)
    then show ?thesis using msrp_recv_total [OF i] a by (fastforce simp: msrp_exec_def msrp_admissible_def)
  next
    case (Cmd buf n c)
    then show ?thesis using msrp_recv_cmd_total [OF assms i, of n buf c] a by (fastforce simp: msrp_exec_def msrp_admissible_def)
  next
    case (Bye c)
    then show ?thesis using msrp_inv_env [OF i client_env(4,3)] by (simp add: msrp_exec_def msrp_bye_def)
  next
    case Reclaim
    then show ?thesis using msrp_passes(3) [OF i] by (simp add: msrp_exec_def msrp_reclaim_def)
  qed
qed

interpretation msrp: event_system msrp_inv msrp_admissible "msrp_exec (sort_key eui64)"
  by (rule msrp_event_system [OF sort_key_spec])

lemma eui64set_init_inv: "eui64set_init mem n = (rc, ids) \<Longrightarrow> 0 \<le> rc \<Longrightarrow> eui_inv ids"
  by (auto simp: eui64set_init_def eui_inv_def entries_of_def Let_def split: if_splits)

lemma msrp_init_inv:
  assumes "msrp_init True n prune sock_rc timers_rc env = (0, True, Some s)" and "timers_ok env"
  shows "msrp_inv s \<and> attrib_list s = []"
proof -
  let ?s = "reset_application (snd (mrpd_malloc env))"
  let ?u = "snd (mrpd_malloc ?s)"
  let ?e = "eui64set_init (fst (mrpd_malloc ?s)) (if n < 8 then 8 else n)"
  let ?v = "?u\<lparr>interesting_stream_ids := snd ?e, enable_pruning_of_uninteresting_ids := prune\<rparr>"
  have x: "0 \<le> fst ?e" "s = on_db (\<lambda>db. mrp_lvatimer_fsm db MRP_EVENT_BEGIN) ?v"
    using assms(1) by (auto simp: msrp_init_def Let_def case_prod_beta split: if_splits)
  have "eui_inv (snd ?e)" by (rule eui64set_init_inv [of _ _ "fst ?e"]) (use x(1) in simp_all)
  moreover have "timers_ok ?u" using assms(2) by (simp add: timers_ok_def reset_application_def mrpd_malloc_def)
  ultimately have "msrp_inv ?v"
    by (simp add: msrp_inv_def app_inv_def covered_def timers_ok_def shaped_def reset_application_def mrpd_malloc_def)
  then show ?thesis unfolding x(2) using msrp_timers(4) [of ?v MRP_EVENT_BEGIN] by (intro conjI) (simp_all add: on_db_def reset_application_def mrpd_malloc_def)
qed

end
