(* ===== verification/Msrp_Stations.thy ===== *)
theory Msrp_Stations
  imports Msrp_Frames Msrp_Safety
begin

text \<open>
  Two stations on a link: a stream that a station declares and transmits is known to the station
  that receives the frame, with the parameters that it was declared with.
\<close>

section \<open>Knowledge of an attribute\<close>

text \<open>An attribute that was registered from a station, with the value that was on the wire.\<close>

definition knows :: "u8 list \<Rightarrow> msrp_attribute \<Rightarrow> msrp_attribute \<Rightarrow> bool" where
  "knows src a b \<longleftrightarrow> s_type b = s_type a \<and> (talk_listen b, domain b) = on_wire a \<and> substate b = wire_state a \<and>
     r_state (registrar b) = MRP_IN_STATE \<and> r_macaddr (registrar b) = src"

definition known :: "u8 list \<Rightarrow> msrp_attribute \<Rightarrow> msrp_database \<Rightarrow> bool" where
  "known src a s \<longleftrightarrow> (\<exists>b\<in>set (attrib_list s). knows src a b)"

definition absent :: "msrp_attribute \<Rightarrow> msrp_database \<Rightarrow> bool" where
  "absent a s \<longleftrightarrow> attr_key a \<notin> attr_key ` set (attrib_list s)"

lemma wire_key:
  "s_type b = s_type a \<Longrightarrow> (talk_listen b, domain b) = on_wire a \<Longrightarrow> attr_key b = attr_key a"
  by (cases "s_type a") (auto simp: attr_key_def on_wire_def)

lemma knows_key: "knows src a b \<Longrightarrow> attr_key b = attr_key a"
  using wire_key by (simp add: knows_def)

lemma received_wire:
  assumes "msrp_alloc (s_type x) s = (Some b, u)" and r_def: "r = received src (on_wire x) (wire_state x) b"
  shows "s_type r = s_type x" "(talk_listen r, domain r) = on_wire x" "substate r = wire_state x" "r_macaddr (registrar r) = src" "attr_key r = attr_key x"
proof -
  show t: "s_type r = s_type x" using msrp_alloc_ok(3) [OF assms(1) refl] by (simp add: r_def received_def)
  show v: "(talk_listen r, domain r) = on_wire x" by (simp add: r_def received_def)
  show "substate r = wire_state x" "r_macaddr (registrar r) = src" by (simp_all add: r_def received_def)
  show "attr_key r = attr_key x" using wire_key [OF t v] .
qed

section \<open>One attribute is heard\<close>

lemma knows_notify: "knows src a b \<Longrightarrow> knows src a (b\<lparr>registrar := (registrar b)\<lparr>r_notify := n\<rparr>\<rparr>)"
  by (simp add: knows_def)

lemma notify_known: "known src a s \<Longrightarrow> known src a (msrp_notify s)"
  unfolding known_def msrp_notify_def by (rule notify_keeps) (simp_all add: knows_notify)

lemma values_keys:
  fixes as ys :: "msrp_attribute list"
  assumes "subseq (values_of ys) (values_of as)"
  shows "attr_key ` set ys \<subseteq> attr_key ` set as"
proof -
  have "subseq (map attr_key ys) (map attr_key as)"
    using subseq_map [OF assms, of "\<lambda>x. attr_key (of_value x)"] by (simp add: values_key_shape(1) [symmetric])
  then show ?thesis using subseq_set by fastforce
qed

lemma notify_absent: "msrp_inv s \<Longrightarrow> absent a s \<Longrightarrow> absent a (msrp_notify s)"
  using values_keys [OF notifies.over_list_app(3) [of s "CHR ''S''" msrp_text]] unfolding absent_def msrp_notify_def msrp_inv_def by blast

text \<open>The list between lookup and the machines.\<close>

lemma update_first_keys:
  "(\<And>a. P a \<Longrightarrow> attr_key (f a) = attr_key a) \<Longrightarrow> attr_key ` set (update_first P f as) = attr_key ` set as"
  by (induction as) auto

lemma added_or_merged:
  assumes "msrp_inv s" "msrp_fresh r"
  defines "t \<equiv> (if msrp_lookup s r = None then msrp_add s r else snd (msrp_merge s r))"
  shows "b \<in> set (attrib_list s) \<Longrightarrow> attr_key b \<noteq> attr_key r \<Longrightarrow> b \<in> set (attrib_list t)"
    and "attr_key ` set (attrib_list t) \<subseteq> insert (attr_key r) (attr_key ` set (attrib_list s))"
    and "absent r s \<Longrightarrow> r \<in> set (attrib_list t)"
proof -
  have "\<exists>f. attrib_list t = update_first (msrp_match r) f (attrib_list s) \<and> (\<forall>a. msrp_match r a \<longrightarrow> attr_key (f a) = attr_key a)" if l: "msrp_lookup s r \<noteq> None"
  proof -
    obtain a where "msrp_lookup s r = Some a" using l by blast
    from msrp_merge_into [OF _ this] assms(2) obtain f u where u: "snd (msrp_merge s r) = merge_into r f u" "attrib_list u = attrib_list s"
      "merge_ok (\<lambda>a. f (merge_address r a)) (msrp_match r)" by (auto simp: msrp_fresh_def)
    then show ?thesis using l by (intro exI [of _ "\<lambda>a. f (merge_address r a)"]) (auto simp: t_def merge_into_def merge_ok_def)
  qed
  then consider "attrib_list t = insert_sorted_type r (attrib_list s)" "absent r s"
    | f where "attrib_list t = update_first (msrp_match r) f (attrib_list s)" "\<And>a. msrp_match r a \<Longrightarrow> attr_key (f a) = attr_key a" "\<not> absent r s"
    by (cases "msrp_lookup s r") (auto simp: t_def msrp_add_def absent_def lookup_key(1) [symmetric])
  note cs = this
  show "b \<in> set (attrib_list s) \<Longrightarrow> attr_key b \<noteq> attr_key r \<Longrightarrow> b \<in> set (attrib_list t)"
    using cs update_first_other [of b "attrib_list s" "msrp_match r"] by (cases rule: cs) (auto simp: match_key)
  show "attr_key ` set (attrib_list t) \<subseteq> insert (attr_key r) (attr_key ` set (attrib_list s))"
    using update_first_keys [of "msrp_match r" _ "attrib_list s"] by (cases rule: cs) auto
  show "absent r s \<Longrightarrow> r \<in> set (attrib_list t)" by (cases rule: cs) auto
qed

lemma same_values: "mrp_attribute.more b = mrp_attribute.more a \<Longrightarrow> s_type b = s_type a \<and> talk_listen b = talk_listen a \<and> domain b = domain a \<and> substate b = substate a"
  for a b :: msrp_attribute
  by (cases a; cases b) simp

lemma stream_others:
  assumes "msrp_inv s" "msrp_fresh r" "attr_key a \<noteq> attr_key r"
  shows "known src a s \<Longrightarrow> known src a (snd (msrp_event_attribute e r s))" "absent a s \<Longrightarrow> absent a (snd (msrp_event_attribute e r s))"
proof -
  let ?j = "on_db mrp_jointimer_start s"
  define t where "t = (if msrp_lookup ?j r = None then msrp_add ?j r else snd (msrp_merge ?j r))"
  let ?body = "\<lambda>a s. case attribute_step e a s of (a, s) \<Rightarrow> msrp_conditional_reclaim a s"
  obtain ys u where b: "at_first (msrp_match r) ?body (attrib_list t) t = (ys, u)" by (cases "at_first (msrp_match r) ?body (attrib_list t) t")
  have j: "msrp_inv ?j" "attrib_list ?j = attrib_list s" using msrp_timers(1) [OF assms(1)] by simp_all
  note am = added_or_merged [OF j(1) assms(2), folded t_def]
  have e: "attrib_list (snd (msrp_event_attribute e r s)) = attrib_list s \<or> attrib_list (snd (msrp_event_attribute e r s)) = ys"
    using b by (auto simp: msrp_event_attribute_def Let_def t_def)
  have "msrp_inv t" unfolding t_def by (rule add_or_merge_inv(1) [OF j(1) assms(2)])
  then have "list_all attr_ok (attrib_list t)" "timers_ok t" "covered (attrib_list t) t" by (simp_all add: msrp_inv_def app_inv_def)
  from requests.at_first_ok [OF this b [unfolded msrp_conditional_reclaim_def]] have sub: "subseq (values_of ys) (values_of (attrib_list t))" by blast
  show "known src a (snd (msrp_event_attribute e r s))" if k: "known src a s"
  proof -
    obtain c where c: "c \<in> set (attrib_list s)" "knows src a c" using k by (auto simp: known_def)
    then have n: "\<not> msrp_match r c" using knows_key [OF c(2)] assms(3) by (simp add: match_key)
    have "c \<in> set ys" by (rule at_first_other [OF b am(1) n]) (use c(1) n j(2) in \<open>simp_all add: match_key\<close>)
    then show ?thesis using e c by (auto simp: known_def)
  qed
  show "absent a (snd (msrp_event_attribute e r s))" if "absent a s"
    using that e values_keys [OF sub] am(2) j(2) assms(3) by (auto simp: absent_def)
qed

text \<open>A new attribute is added and goes through both machines.\<close>

lemma event_attribute_own:
  assumes "msrp_inv s" "msrp_fresh r" "absent r s" "interested s r" "e \<noteq> MRP_EVENT_RMT"
  shows "fst (msrp_event_attribute e r s)"
    "\<exists>t. set (fst (case attribute_step e r t of (a, t) \<Rightarrow> msrp_conditional_reclaim a t)) \<subseteq> set (attrib_list (snd (msrp_event_attribute e r s)))"
proof -
  let ?j = "on_db mrp_jointimer_start s"
  define t where "t = (if msrp_lookup ?j r = None then msrp_add ?j r else snd (msrp_merge ?j r))"
  let ?body = "\<lambda>a s. case attribute_step e a s of (a, s) \<Rightarrow> msrp_conditional_reclaim a s"
  obtain ys u where b: "at_first (msrp_match r) ?body (attrib_list t) t = (ys, u)" by (cases "at_first (msrp_match r) ?body (attrib_list t) t")
  have j: "msrp_inv ?j" "absent r ?j" using msrp_timers(1) [OF assms(1)] assms(3) by (simp_all add: absent_def)
  have ev: "msrp_event_attribute e r s = (True, u\<lparr>attrib_list := ys\<rparr>)" using assms(4,5) b by (auto simp: msrp_event_attribute_def Let_def t_def)
  have t: "msrp_inv t" unfolding t_def by (rule add_or_merge_inv(1) [OF j(1) assms(2)])
  have r: "r \<in> set (attrib_list t)" using added_or_merged(3) [OF j(1) assms(2) j(2)] by (simp add: t_def)
  then have "\<exists>a\<in>set (attrib_list t). msrp_match r a" by (auto simp: match_key)
  from at_first_own [OF b this] obtain a where a: "a \<in> set (attrib_list t)" "msrp_match r a" "set (fst (?body a t)) \<subseteq> set ys" by blast
  have "distinct (map attr_key (attrib_list t))" using t by (simp add: msrp_inv_def shaped_def)
  then have "a = r" using a(1,2) r inj_onD [of attr_key "set (attrib_list t)" a r] by (simp add: match_key distinct_map)
  then show "fst (msrp_event_attribute e r s)"
    "\<exists>t. set (fst (case attribute_step e r t of (a, t) \<Rightarrow> msrp_conditional_reclaim a t)) \<subseteq> set (attrib_list (snd (msrp_event_attribute e r s)))"
    using a(3) ev by auto
qed

lemma stream_registers:
  assumes "msrp_inv s" "msrp_fresh r" "absent r s" "interested s r" "e \<in> {MRP_EVENT_RNEW, MRP_EVENT_RJOININ, MRP_EVENT_RJOINMT}"
  shows "fst (msrp_event_attribute e r s)" "\<exists>b\<in>set (attrib_list (snd (msrp_event_attribute e r s))). r_state (registrar b) = MRP_IN_STATE \<and>
    r_macaddr (registrar b) = r_macaddr (registrar r) \<and> mrp_attribute.more b = mrp_attribute.more r"
proof -
  have e: "e \<noteq> MRP_EVENT_RMT" using assms(5) by auto
  note own = event_attribute_own [OF assms(1-4) e]
  have "attr_ok r" using assms(2) by (simp add: msrp_fresh_def fresh_def)
  then have "\<exists>c. fst (case attribute_step e r t of (a, t) \<Rightarrow> msrp_conditional_reclaim a t) = [c] \<and> r_state (registrar c) = MRP_IN_STATE \<and>
      r_macaddr (registrar c) = r_macaddr (registrar r) \<and> mrp_attribute.more c = mrp_attribute.more r" for t
    unfolding msrp_conditional_reclaim_def by (rule attribute_step_registers [OF _ assms(5)])
  then show "\<exists>b\<in>set (attrib_list (snd (msrp_event_attribute e r s))). r_state (registrar b) = MRP_IN_STATE \<and>
    r_macaddr (registrar b) = r_macaddr (registrar r) \<and> mrp_attribute.more b = mrp_attribute.more r" using own(2) by (metis list.set_intros(1) subsetD)
  show "fst (msrp_event_attribute e r s)" by (rule own(1))
qed

lemma stream_declares:
  assumes "msrp_inv s" "msrp_fresh r" "absent r s" "interested s r"
  shows "fst (msrp_event_attribute MRP_EVENT_NEW r s)" "\<exists>b\<in>set (attrib_list (snd (msrp_event_attribute MRP_EVENT_NEW r s))).
    anxious (a_state (applicant b)) \<and> mrp_attribute.more b = mrp_attribute.more r"
proof -
  note own = event_attribute_own [OF assms, of MRP_EVENT_NEW, simplified]
  have "attr_ok r" using assms(2) by (simp add: msrp_fresh_def fresh_def)
  then have "\<exists>c. fst (case attribute_step MRP_EVENT_NEW r t of (a, t) \<Rightarrow> msrp_conditional_reclaim a t) = [c] \<and>
      anxious (a_state (applicant c)) \<and> mrp_attribute.more c = mrp_attribute.more r" for t
    unfolding msrp_conditional_reclaim_def by (rule attribute_step_declares)
  then show "\<exists>b\<in>set (attrib_list (snd (msrp_event_attribute MRP_EVENT_NEW r s))). anxious (a_state (applicant b)) \<and> mrp_attribute.more b = mrp_attribute.more r"
    using own(2) by (metis list.set_intros(1) subsetD)
  show "fst (msrp_event_attribute MRP_EVENT_NEW r s)" by (rule own(1))
qed

text \<open>Another station's attribute that is heard: what was known stays, and a declaration becomes known.\<close>

definition audible :: "msrp_attribute \<Rightarrow> bool" where
  "audible x \<longleftrightarrow> attr_shape x \<and> \<not> (s_type x = MSRP_LISTENER_TYPE \<and> substate x = MSRP_LISTENER_IGNORE) \<and>
     (\<exists>e. rx_event (code_of x) = Some e \<and> e \<in> {MRP_EVENT_RNEW, MRP_EVENT_RJOININ, MRP_EVENT_RJOINMT})"

text \<open>A receiver with memory that does not prune streams.\<close>

definition open_ears :: "msrp_database \<Rightarrow> bool" where
  "open_ears s \<longleftrightarrow> msrp_inv s \<and> plenty s \<and> \<not> enable_pruning_of_uninteresting_ids s"

lemma open_ears_env: "open_ears s \<Longrightarrow> msrp_inv t \<Longrightarrow> same_env s t \<Longrightarrow> open_ears t"
  using plenty_env env_set(2) by (auto simp: open_ears_def)

lemma wire_shape: "attr_shape x \<Longrightarrow> talker_shape (fst (on_wire x))"
  by (cases "s_type x") (simp_all add: on_wire_def attr_shape_def talker_shape_def)

lemma msrp_event_rx:
  assumes "e \<in> rx_events"
  shows "msrp_event s e (Some r) = (case msrp_event_attribute e r s of (go, s) \<Rightarrow> Some (0, if go then msrp_notify s else s))"
  using assms by (auto simp: msrp_event_def rx_events_def split: prod.split)

lemma hear_one:
  assumes "open_ears t" "attr_shape x"
  shows "\<exists>t'. hear src x t = Some (True, t') \<and> open_ears t' \<and>
    (\<forall>a. attr_key a \<noteq> attr_key x \<longrightarrow> (known src a t \<longrightarrow> known src a t') \<and> (absent a t \<longrightarrow> absent a t')) \<and>
    (audible x \<and> absent x t \<longrightarrow> known src x t')"
proof (cases "s_type x = MSRP_LISTENER_TYPE \<and> substate x = MSRP_LISTENER_IGNORE")
  case True
  then show ?thesis using assms(1) by (auto simp: hear_def audible_def)
next
  case False
  have i: "msrp_inv t" "plenty t" using assms(1) by (simp_all add: open_ears_def)
  obtain b u where al: "msrp_alloc (s_type x) t = (Some b, u)" using i(2) by (simp add: msrp_alloc_def mrpd_malloc_def plenty_def)
  define r where "r = received src (on_wire x) (wire_state x) b"
  note w = received_wire [OF al r_def]
  have u: "msrp_inv u" "same_env t u" "attrib_list u = attrib_list t" using msrp_alloc_ok(1,2) [OF al] msrp_alloc_inv [OF i(1) al] by simp_all
  have ou: "open_ears u" using open_ears_env [OF assms(1) u(1,2)] .
  have f: "msrp_fresh r" unfolding r_def by (rule received_fresh [OF al wire_shape [OF assms(2)]])
  have kn: "known src a u = known src a t" "absent a u = absent a t" for a using u(3) by (simp_all add: known_def absent_def)
  show ?thesis
  proof (cases "rx_event (code_of x)")
    case None
    then have "hear src x t = Some (True, u)" using False al by (auto simp: hear_def)
    then show ?thesis using ou kn None by (auto simp: audible_def)
  next
    case (Some e)
    obtain go v where v: "msrp_event_attribute e r u = (go, v)" by (cases "msrp_event_attribute e r u")
    let ?t = "if go then msrp_notify v else v"
    have h: "hear src x t = Some (True, ?t)" using False al Some v msrp_event_rx [OF rx_event_rx [OF Some]] by (auto simp: hear_def r_def)
    have iv: "msrp_inv v" "same_env u v" using msrp_event_attribute_ok [OF u(1) f, of e] v by simp_all
    have "open_ears v" using open_ears_env [OF ou iv] .
    then have ot: "open_ears ?t" using open_ears_env [of v "msrp_notify v"] msrp_passes(4) [OF iv(1)] msrp_pass_env(1) [OF iv(1)] by simp
    have oth: "(known src a t \<longrightarrow> known src a ?t) \<and> (absent a t \<longrightarrow> absent a ?t)" if "attr_key a \<noteq> attr_key x" for a
      using stream_others(1) [OF u(1) f, of a src e] stream_others(2) [OF u(1) f, of a e] that w(5) kn v notify_known notify_absent [OF iv(1)] by auto
    have own: "known src x ?t" if au: "audible x" "absent x t"
    proof -
      have "absent r u" "interested u r" using au(2) w(5) kn(2) ou by (simp_all add: absent_def interested_def open_ears_def)
      moreover have "e \<in> {MRP_EVENT_RNEW, MRP_EVENT_RJOININ, MRP_EVENT_RJOINMT}" using au(1) Some by (simp add: audible_def)
      ultimately have x: "go" "\<exists>c\<in>set (attrib_list v). r_state (registrar c) = MRP_IN_STATE \<and>
          r_macaddr (registrar c) = r_macaddr (registrar r) \<and> mrp_attribute.more c = mrp_attribute.more r"
        using stream_registers [OF u(1) f, of e] v by simp_all
      then obtain c where c: "c \<in> set (attrib_list v)" "r_state (registrar c) = MRP_IN_STATE" "r_macaddr (registrar c) = r_macaddr (registrar r)"
        "mrp_attribute.more c = mrp_attribute.more r" by blast
      have "knows src x c" using same_values [OF c(4)] c(2,3) w(1-4) by (simp add: knows_def)
      then have "known src x v" using c(1) by (auto simp: known_def)
      then show ?thesis using x(1) notify_known by simp
    qed
    show ?thesis using h ot oth own by blast
  qed
qed

section \<open>A frame is heard\<close>

text \<open>What a receiver knows after it heard a list of attributes.\<close>

definition heard :: "u8 list \<Rightarrow> msrp_attribute list \<Rightarrow> msrp_database \<Rightarrow> msrp_database \<Rightarrow> bool" where
  "heard src xs t t' \<longleftrightarrow> open_ears t' \<and>
     (\<forall>a. attr_key a \<notin> attr_key ` set xs \<longrightarrow> (known src a t \<longrightarrow> known src a t') \<and> (absent a t \<longrightarrow> absent a t')) \<and>
     (distinct (map attr_key xs) \<longrightarrow> (\<forall>x\<in>set xs. audible x \<and> absent x t \<longrightarrow> known src x t'))"

lemma heard_nothing: "open_ears u \<Longrightarrow> attrib_list u = attrib_list t \<Longrightarrow> heard src [] t u"
  by (simp add: heard_def known_def absent_def)

lemma heard_append:
  assumes "heard src xs t u" "heard src ys u v"
  shows "heard src (xs @ ys) t v"
proof -
  have "known src x v" if d: "distinct (map attr_key (xs @ ys))" and x: "x \<in> set (xs @ ys)" "audible x" "absent x t" for x
  proof (cases "x \<in> set xs")
    case True
    have n: "attr_key x \<notin> attr_key ` set ys" using d True by auto
    have "known src x u" using assms(1) True d x(2,3) unfolding heard_def by auto
    then show ?thesis using assms(2) n unfolding heard_def by blast
  next
    case False
    then have y: "x \<in> set ys" "attr_key x \<notin> attr_key ` set xs" using x(1) d by auto
    then have "absent x u" using assms(1) x(3) unfolding heard_def by blast
    then show ?thesis using assms(2) y(1) d x(2) unfolding heard_def by auto
  qed
  then show ?thesis using assms unfolding heard_def by auto
qed

lemma hear_all_ok:
  assumes "open_ears t" "\<forall>x\<in>set xs. attr_shape x"
  shows "\<exists>t'. hear_all src xs t = Some (True, t') \<and> heard src xs t t'"
  using assms
proof (induction xs arbitrary: t)
  case Nil
  then show ?case by (simp add: heard_nothing)
next
  case (Cons x xs)
  obtain u where u: "hear src x t = Some (True, u)" "heard src [x] t u"
    using hear_one [OF Cons.prems(1), of x src] Cons.prems(2) by (auto simp: heard_def)
  from Cons.IH [of u] u(2) Cons.prems(2) obtain v where "hear_all src xs u = Some (True, v)" "heard src xs u v" by (auto simp: heard_def)
  then show ?case using u heard_append [OF u(2)] by auto
qed

text \<open>Without a leave-all flag a group is just its attributes.\<close>

lemma hear_group_ok:
  assumes "open_ears s" "\<forall>x\<in>set vs. attr_shape x"
  shows "\<exists>sz' s'. hear_group t src (False, vs) saw sz s = Some (True, saw, sz', s') \<and> heard src vs s s'"
proof -
  obtain ok sz' u where n: "need_states t sz s = (ok, sz', u)" using prod_cases3 by blast
  have p: "plenty s" "msrp_inv s" using assms(1) by (simp_all add: open_ears_def)
  have m: "open_ears (snd (mrpd_malloc s))" by (rule open_ears_env [OF assms(1) msrp_inv_env [OF p(2)]]) simp_all
  have u: ok "open_ears u" "attrib_list u = attrib_list s"
    using n p(1) m assms(1) by (auto simp: need_states_def mrpd_malloc_def plenty_def split: if_splits)
  obtain v where v: "hear_all src vs u = Some (True, v)" "heard src vs u v" using hear_all_ok [OF u(2) assms(2)] by blast
  have "heard src vs s v" using heard_append [OF heard_nothing [OF u(2,3)] v(2)] by simp
  moreover have "heard src [] s s" by (rule heard_nothing [OF assms(1) refl])
  ultimately show ?thesis using n u(1) v(1) by (auto simp: hear_group_def rx_leaveall_def)
qed

lemma hear_groups_ok:
  assumes "open_ears s" "group_flags False gs" "\<forall>x\<in>set (members gs). attr_shape x"
  shows "\<exists>sz' s'. hear_groups t src gs saw sz s = Some (True, saw, sz', s') \<and> heard src (members gs) s s'"
  using assms
proof (induction gs arbitrary: sz s)
  case Nil
  then show ?case by (simp add: heard_nothing)
next
  case (Cons g gs)
  obtain l vs where g: "g = (l, vs)" by (cases g)
  have l: "l = False" "group_flags False gs" using Cons.prems(2) g by simp_all
  obtain z u where u: "hear_group t src (False, vs) saw sz s = Some (True, saw, z, u)" "heard src vs s u"
    using hear_group_ok [OF Cons.prems(1)] Cons.prems(3) g by fastforce
  then have o: "open_ears u" by (simp add: heard_def)
  from Cons.IH [OF o l(2)] Cons.prems(3) obtain z' v where "hear_groups t src gs saw z u = Some (True, saw, z', v)" "heard src (members gs) u v" by fastforce
  then show ?case using u g l(1) heard_append [OF u(2)] by auto
qed

lemma hear_messages_ok:
  assumes "open_ears s" "\<forall>(t, gs)\<in>set ms. group_flags False gs \<and> (\<forall>x\<in>set (members gs). attr_shape x)"
  shows "\<exists>s'. hear_messages src ms saw sz s = Some (True, s') \<and> heard src (concat (map (\<lambda>(t, gs). members gs) ms)) s s'"
  using assms
proof (induction ms arbitrary: saw sz s)
  case Nil
  then show ?case by (simp add: heard_nothing)
next
  case (Cons m ms)
  obtain t gs where m: "m = (t, gs)" by (cases m)
  obtain z u where u: "hear_groups t src gs saw sz s = Some (True, saw, z, u)" "heard src (members gs) s u"
    using hear_groups_ok [OF Cons.prems(1), of gs t src saw sz] Cons.prems(2) m by auto
  then have o: "open_ears u" by (simp add: heard_def)
  obtain v where "hear_messages src ms saw z u = Some (True, v)" "heard src (concat (map (\<lambda>(t, gs). members gs) ms)) u v"
    using Cons.IH [OF o, of saw z] Cons.prems(2) by auto
  then show ?case using u m heard_append [OF u(2)] by auto
qed

section \<open>From station to station\<close>

definition sent_attributes :: "(msrp_type \<Rightarrow> group list) \<Rightarrow> msrp_attribute list" where
  "sent_attributes gs = concat (map (\<lambda>t. members (gs t)) all_types)"

lemma mem_all_types [simp]: "t \<in> set all_types"
  by (cases t) (simp_all add: all_types_def)

lemma sent_from_marked:
  assumes "\<forall>t. message_ok el l t M (gs t)" "distinct (map attr_key M)"
  shows "set (sent_attributes gs) \<subseteq> set M" "distinct (map attr_key (sent_attributes gs))"
    "x \<in> set M \<Longrightarrow> a_tx (applicant x) \<Longrightarrow> must_send x \<Longrightarrow> x \<in> set (sent_attributes gs)"
proof -
  have sub: "subseq (members (gs t)) (marked_of t M)" "filter must_send (members (gs t)) = filter must_send (marked_of t M)" for t
    using assms(1) by (auto simp: message_ok_def selection_def)
  have ty: "x \<in> set M \<and> s_type x = t" if "x \<in> set (members (gs t))" for x t using that subseq_set [OF sub(1)] by (auto simp: marked_of_def)
  then show s: "set (sent_attributes gs) \<subseteq> set M" by (auto simp: sent_attributes_def)
  have "distinct M" using assms(2) by (simp add: distinct_map)
  then have "distinct (members (gs t))" for t using subseq_distinct [OF sub(1)] by (simp add: marked_of_def)
  moreover have "set (members (gs t)) \<inter> set (members (gs t')) = {}" if "t \<noteq> t'" for t t' using ty that by auto
  ultimately have "distinct (sent_attributes gs)" by (simp add: sent_attributes_def all_types_def Int_Un_distrib)
  then show "distinct (map attr_key (sent_attributes gs))" using assms(2) s by (auto simp: distinct_map intro: inj_on_subset)
  show "x \<in> set (sent_attributes gs)" if "x \<in> set M" "a_tx (applicant x)" "must_send x"
  proof -
    have "x \<in> set (filter must_send (members (gs (s_type x))))" unfolding sub(2) using that by (simp add: marked_of_def)
    then show ?thesis by (force simp: sent_attributes_def)
  qed
qed

lemma marks_keep [simp]:
  "attr_key (mark_listener a) = attr_key a" "on_wire (mark_listener a) = on_wire a" "substate (mark_listener a) = substate a"
  "wire_state (mark_listener a) = wire_state a" "a_encode (applicant (mark_listener a)) = a_encode (applicant a)"
  "attr_key (applicant_step e a s) = attr_key a" "on_wire (applicant_step e a s) = on_wire a" "wire_state (applicant_step e a s) = wire_state a"
  "s_type (applicant_step e a s) = s_type a" "attr_shape (applicant_step e a s) = attr_shape a" "substate (applicant_step e a s) = substate a"
  for a :: msrp_attribute
  by (auto simp: mark_listener_def attr_key_def on_wire_def wire_state_def applicant_step_def attr_shape_def split: msrp_type.split)

lemma mark_listener_code [simp]: "code_of (mark_listener a) = code_of a"
  by (simp add: code_of_def)

lemma mark_listener_tx: "a_tx (applicant a) \<Longrightarrow> a_tx (applicant (mark_listener a))"
  by (simp add: mark_listener_def)

lemma knows_same:
  "s_type x = s_type a \<Longrightarrow> on_wire x = on_wire a \<Longrightarrow> wire_state x = wire_state a \<Longrightarrow> known src x t \<Longrightarrow> known src a t"
  by (simp add: known_def knows_def)

text \<open>Groups of a frame are small.\<close>

lemma message_small:
  assumes "message_ok el l t M gs" "length M \<le> 49" "\<forall>a\<in>set M. s_type a = MSRP_LISTENER_TYPE \<longrightarrow> substate a < 4"
  shows "\<forall>g\<in>set gs. small_group t g" "\<forall>x\<in>set (members gs). x \<in> set M"
proof -
  have sub: "subseq (members gs) (marked_of t M)" using assms(1) by (simp add: message_ok_def selection_def)
  then have sM: "subseq (members gs) M" unfolding marked_of_def using subseq_filter_left subseq_order.trans by blast
  then show "\<forall>x\<in>set (members gs). x \<in> set M" using subseq_set by blast
  show "\<forall>g\<in>set gs. small_group t g"
  proof
    fix g
    assume g: "g \<in> set gs"
    have "length (snd g) \<le> length (members gs)" using g by (induction gs) auto
    also have "\<dots> \<le> 49" using list_emb_length [OF sM] assms(2) by simp
    finally have "length (snd g) \<le> 64" by simp
    moreover have "group_ok t g" using assms(1) g by (simp add: message_ok_def list_all_iff)
    moreover have "set (snd g) \<subseteq> set (members gs)" using g by (auto simp: members_def)
    ultimately show "small_group t g" using assms(3) subseq_set [OF sM] by (cases g) (fastforce simp: small_group_def group_ok_def)
  qed
qed

lemma msrp_frame_length:
  assumes "\<forall>t. message_ok el l t M (gs t)" "length M \<le> 49" "length src = 6"
  shows "length (msrp_frame src gs) \<le> 1998"
proof -
  have "length (enc_message t (gs t)) \<le> 42 + 37 * length (marked_of t M)" for t using assms(1) by (simp add: message_ok_def)
  note this [of MSRP_TALKER_ADV_TYPE] this [of MSRP_TALKER_FAILED_TYPE] this [of MSRP_LISTENER_TYPE] this [of MSRP_DOMAIN_TYPE]
  then have "length (payload gs) \<le> 168 + 37 * length M" using marked_of_le [of M] by (simp add: payload_def all_types_def)
  then show ?thesis using assms(2,3) by (simp add: msrp_frame_def MSRP_ADDR_def)
qed

lemma msrp_event_tx_frame:
  assumes "msrp_inv s" "plenty s" "length (attrib_list s) \<le> 49"
  defines "M \<equiv> map (\<lambda>a. mark_listener (applicant_step MRP_EVENT_TX a (on_db mrp_jointimer_stop s))) (attrib_list s)"
  shows "\<exists>gs s'. msrp_event s MRP_EVENT_TX None = Some (0, s') \<and> frames s' = frames s @ (if payload gs = [] then [] else [msrp_frame (station s) gs]) \<and>
    (\<forall>t. message_ok (send_empty_LeaveAll_flag s) (t_tx (lva (mrp_db s))) t M (gs t))"
proof -
  let ?j = "on_db mrp_jointimer_stop s"
  let ?t = "over_list (\<lambda>a s. ([applicant_step MRP_EVENT_TX a s], s)) ?j"
  have t: "msrp_inv ?t" using msrp_passes(2) [OF msrp_timers(2) [OF assms(1)]] .
  have l: "attrib_list ?t = map (\<lambda>a. applicant_step MRP_EVENT_TX a ?j) (attrib_list s)" by (simp add: over_list_def applicants_map)
  have eq: "frames ?t = frames s" "station ?t = station s" "mem_ok ?t = (\<lambda>n. True)" "send_empty_LeaveAll_flag ?t = send_empty_LeaveAll_flag s"
    "t_tx (lva (mrp_db ?t)) = t_tx (lva (mrp_db s))"
    using assms(2) by (simp_all add: over_list_def applicants_map on_db_def plenty_def timer_defs Let_def)
  have "sendable (attrib_list ?t)"
    unfolding l sendable_def using applicant_tx_sends [of _ MRP_EVENT_TX ?j] assms(1) by (auto simp: msrp_inv_def app_inv_def list_all_iff)
  moreover have "list_all attr_shape (attrib_list ?t)" using t by (simp add: msrp_inv_def shaped_def)
  moreover have "M = map mark_listener (attrib_list ?t)" by (simp add: M_def l)
  ultimately obtain gs rc where gs: "\<forall>t. message_ok (send_empty_LeaveAll_flag s) (t_tx (lva (mrp_db s))) t M (gs t)"
    "msrp_txpdu ?t = Some (rc, tx_state ?t 2 (map clear_tx (attrib_list ?t)) (if payload gs = [] then [] else [msrp_frame (station s) gs]))"
    using msrp_txpdu_spec [of ?t] eq l assms(3) by auto
  define v where "v = tx_state ?t 2 (map clear_tx (attrib_list ?t)) (if payload gs = [] then [] else [msrp_frame (station s) gs])"
  have "frames v = frames s @ (if payload gs = [] then [] else [msrp_frame (station s) gs])" using eq(1) by (simp add: v_def tx_state_def)
  moreover have "\<exists>b. msrp_event s MRP_EVENT_TX None = Some (0, msrp_notify (if b then on_db mrp_jointimer_start v else v))"
    using gs(2) by (auto simp: msrp_event_def msrp_event_tx_def Let_def v_def)
  moreover have "frames (msrp_notify (if b then on_db mrp_jointimer_start v else v)) = frames v" for b
    by (simp add: msrp_notify_def notify_keeps_frames on_db_def)
  ultimately show ?thesis using gs(1) by (intro exI [of _ gs]) auto
qed

lemma msrp_station_knows:
  assumes "msrp_inv s" "plenty s" "length (station s) = 6" "length (attrib_list s) \<le> 49"
    and "\<not> t_tx (lva (mrp_db s))" "\<not> send_empty_LeaveAll_flag s" "\<forall>b\<in>set (attrib_list s). s_type b = MSRP_LISTENER_TYPE \<longrightarrow> substate b < 4"
    and "a \<in> set (attrib_list s)" "anxious (a_state (applicant a))" "s_type a = MSRP_LISTENER_TYPE \<longrightarrow> substate a \<noteq> MSRP_LISTENER_IGNORE"
    and "open_ears t" "absent a t"
  shows "\<exists>s' f t'. msrp_event s MRP_EVENT_TX None = Some (0, s') \<and> frames s' = frames s @ [f] \<and>
    msrp_recv_msg t (int (length f)) (in_buffer f) = Some (0, t') \<and> msrp_inv t' \<and> known (station s) a t' \<and> length f \<le> MAX_FRAME_SIZE"
proof -
  let ?j = "on_db mrp_jointimer_stop s"
  define M where "M = map (\<lambda>a. mark_listener (applicant_step MRP_EVENT_TX a ?j)) (attrib_list s)"
  obtain gs s' where x: "msrp_event s MRP_EVENT_TX None = Some (0, s')"
    "frames s' = frames s @ (if payload gs = [] then [] else [msrp_frame (station s) gs])" "\<forall>t. message_ok False False t M (gs t)"
    using msrp_event_tx_frame [OF assms(1,2,4)] assms(5,6) unfolding M_def by auto
  have M: "length M \<le> 49" "\<forall>b\<in>set M. s_type b = MSRP_LISTENER_TYPE \<longrightarrow> substate b < 4" "\<forall>b\<in>set M. attr_shape b" "distinct (map attr_key M)"
    using assms(1,4,7) by (auto simp: M_def msrp_inv_def shaped_def list_all_iff comp_def)
  define b where "b = mark_listener (applicant_step MRP_EVENT_TX a ?j)"
  note snd = anxious_sends [OF assms(9) refl, of ?j]
  have b: "b \<in> set M" "a_tx (applicant b)" "must_send b" using assms(8) snd mark_listener_tx by (auto simp: b_def M_def must_send_def)
  have sent: "b \<in> set (sent_attributes gs)" by (rule sent_from_marked(3) [OF x(3) M(4) b])
  have shape: "attr_shape b" using M(3) b(1) by blast
  have au: "audible b" using shape snd(3) assms(10) by (auto simp: audible_def b_def)
  have ab: "absent b t" using assms(12) by (simp add: absent_def b_def)
  have small: "\<forall>t. \<forall>g\<in>set (gs t). small_group t g" using message_small(1) [OF _ M(1,2)] x(3) by blast
  have "\<forall>(t, gs)\<in>set (map (\<lambda>t. (t, gs t)) all_types). group_flags False gs \<and> (\<forall>x\<in>set (members gs). attr_shape x)"
    using x(3) message_small(2) [OF _ M(1,2)] M(3) by (auto simp: message_ok_def) blast
  from hear_messages_ok [OF assms(11) this, of "station s" "\<lambda>t. False" 0] obtain t' where
    t': "hear_frame (station s) gs t = Some (True, t')" "heard (station s) (sent_attributes gs) t t'"
    by (auto simp: hear_frame_def sent_attributes_def comp_def)
  have "known (station s) b t'" using t'(2) sent au ab sent_from_marked(2) [OF x(3) M(4)] unfolding heard_def by blast
  then have k: "known (station s) a t'" by (rule knows_same [rotated 3]) (simp_all add: b_def)
  have fits: "length (msrp_frame (station s) gs) \<le> MAX_FRAME_SIZE" using msrp_frame_length [OF x(3) M(1) assms(3)] by (simp add: MAX_FRAME_SIZE_def)
  from msrp_recv_frame [OF small assms(3) fits, of t] t'(1) have r: "msrp_recv_msg t (int (length (msrp_frame (station s) gs))) (in_buffer (msrp_frame (station s) gs)) = Some (0, t')"
    by simp
  have "payload gs \<noteq> []"
  proof -
    obtain ty where "b \<in> set (members (gs ty))" using sent by (auto simp: sent_attributes_def)
    then have "gs ty \<noteq> []" by auto
    then have "enc_message ty (gs ty) \<noteq> []" by (simp add: enc_message_def Let_def)
    then show ?thesis unfolding payload_def using mem_all_types [of ty] by force
  qed
  then show ?thesis using x(1,2) r k t'(2) fits by (auto simp: heard_def open_ears_def)
qed

end
