(* ===== verification/Msrp_Declare.thy ===== *)
theory Msrp_Declare
  imports Msrp_Stations
begin

text \<open>
  A client declares a stream: its command is parsed, the stream is added to the database, and what
  the next transmission relies on is kept.
\<close>

section \<open>A new attribute\<close>

text \<open>The request for an attribute that is not in the list.\<close>

lemma new_event_keeps:
  assumes "msrp_inv s" "msrp_fresh r" "absent r s" "interested s r" "msrp_event s MRP_EVENT_NEW (Some r) = Some (rc, s')"
  shows "subseq (values_of (attrib_list s')) (values_of (insert_sorted_type r (attrib_list s)))" "same_leaveall s s'"
    "\<exists>b\<in>set (attrib_list s'). anxious (a_state (applicant b)) \<and> mrp_attribute.more b = mrp_attribute.more r"
proof -
  let ?j = "on_db mrp_jointimer_start s"
  let ?body = "\<lambda>a s. case attribute_step MRP_EVENT_NEW a s of (a, s) \<Rightarrow> msrp_conditional_reclaim a s"
  define t where "t = msrp_add ?j r"
  obtain ys u where b: "at_first (msrp_match r) ?body (attrib_list t) t = (ys, u)" by (cases "at_first (msrp_match r) ?body (attrib_list t) t")
  define v where "v = u\<lparr>attrib_list := ys\<rparr>"
  have j: "msrp_inv ?j" using msrp_timers(1) [OF assms(1)] .
  have none: "msrp_lookup ?j r = None" using assms(3) by (simp add: absent_def lookup_key)
  have t: "msrp_inv t" using add_or_merge_inv(1) [OF j assms(2)] none by (simp add: t_def)
  have ev: "msrp_event_attribute MRP_EVENT_NEW r s = (True, v)" using assms(4) none b by (simp add: msrp_event_attribute_def Let_def t_def v_def)
  then have s': "s' = msrp_notify v" using assms(5) by (simp add: msrp_event_def)
  have a: "list_all attr_ok (attrib_list t)" "timers_ok t" "covered (attrib_list t) t" using t by (simp_all add: msrp_inv_def app_inv_def)
  have "subseq (values_of ys) (values_of (attrib_list t))" using requests.at_first_ok [OF a b [unfolded msrp_conditional_reclaim_def]] by blast
  then have sub: "subseq (values_of (attrib_list v)) (values_of (insert_sorted_type r (attrib_list s)))" by (simp add: v_def t_def msrp_add_def)
  have vi: "msrp_inv v" using msrp_event_attribute_ok(1) [OF assms(1,2), of MRP_EVENT_NEW] ev by simp
  then have "app_inv v" by (simp add: msrp_inv_def)
  from notifies.over_list_app(3) [OF this, of "CHR ''S''" msrp_text] sub
  show "subseq (values_of (attrib_list s')) (values_of (insert_sorted_type r (attrib_list s)))"
    unfolding s' msrp_notify_def by (rule subseq_order.trans)
  have "same_leaveall w (snd (?body a w))" for a w
    using new_leaveall [of a w] by (simp add: case_prod_beta msrp_conditional_reclaim_def conditional_reclaim_def send_leaveall same_leaveall_basic(1))
  then have "same_leaveall w (snd (at_first P ?body as w))" for P as w by (induction as) (simp_all add: case_prod_beta same_leaveall_basic(1))
  from this [of t "msrp_match r" "attrib_list t"] b have "same_leaveall t v" by (simp add: v_def same_leaveall_def)
  moreover have "same_leaveall s t" using same_leaveall_basic(3) [of s] by (simp add: t_def msrp_add_def same_leaveall_def)
  ultimately show "same_leaveall s s'" unfolding s' msrp_notify_def using notify_leaveall same_leaveall_trans by blast
  have "\<exists>b\<in>set (attrib_list v). anxious (a_state (applicant b)) \<and> mrp_attribute.more b = mrp_attribute.more r"
    using stream_declares(2) [OF assms(1-4)] ev by simp
  then show "\<exists>b\<in>set (attrib_list s'). anxious (a_state (applicant b)) \<and> mrp_attribute.more b = mrp_attribute.more r"
    unfolding s' msrp_notify_def by (rule notify_keeps) simp
qed

section \<open>The text of the command\<close>

text \<open>The command as it lies in the receive buffer.\<close>

definition stream_fields :: "msrpdu_talker_fail \<Rightarrow> (parse_param \<times> parse_value) list" where
  "stream_fields v = zip stream_specs [V_bytes (StreamID v), V_bytes (Dest_Addr v), V_u16 (Vlan_ID v), V_u16 (MaxFrameSize v),
     V_u16 (MaxIntervalFrames v), V_u8 (PriorityAndRank v), V_u32 (AccumulatedLatency v)]"

definition stream_command :: "msrpdu_talker_fail \<Rightarrow> string" where
  "stream_command v = ''S++:'' @ join_fields (stream_fields v) @ [CHR 0x00]"

text \<open>The text has no upper-case B, so that it is not taken for a failed talker.\<close>

lemma digit_char_lower: "k < 16 \<Longrightarrow> digit_char k \<noteq> CHR ''B''"
proof
  assume "k < 16" "digit_char k = CHR ''B''"
  then have "of_char (digit_char k) = (66 :: nat)" by simp
  then show False using \<open>k < 16\<close> by (simp add: digit_char_def split: if_splits)
qed

lemma print_base_lower: "2 \<le> b \<Longrightarrow> b \<le> 16 \<Longrightarrow> CHR ''B'' \<notin> set (print_base b n)"
proof (induction b n rule: print_base.induct)
  case (1 b n)
  have "n < b \<Longrightarrow> n < 16" "n mod b < 16" using 1(2,3) mod_less_divisor [of b n] by linarith+
  then have "n < b \<Longrightarrow> digit_char n \<noteq> CHR ''B''" "digit_char (n mod b) \<noteq> CHR ''B''" using digit_char_lower by blast+
  then show ?case using 1 by (subst print_base.simps) (simp add: eq_commute [of "CHR ''B''"])
qed

lemma print_value_lower: "CHR ''B'' \<notin> set (print_value t v)"
proof -
  have "CHR ''B'' \<notin> set (hex_byte b)" for b
  proof -
    have "unat b div 16 < 16" "unat b mod 16 < 16" using unsigned_less [of b, where 'a = nat] by auto
    then show ?thesis using digit_char_lower by (metis empty_iff empty_set hex_byte_def set_ConsD)
  qed
  then show ?thesis using print_base_lower [of 10] print_base_lower [of 16]
    by (auto simp: print_value_def zero_padded_def split: parse_value.split)
qed

lemma strstr_none: "c \<notin> set s \<Longrightarrow> strstr s (c # w) = None"
  by (induction s) auto

lemma fields_typed:
  assumes "talker_shape v"
  shows "\<forall>(q, v)\<in>set (stream_fields v). value_of_type (ptype q) v \<and> CHR 0x00 \<notin> set (pname q)"
  using assms by (simp add: stream_fields_def stream_specs_def streamid_spec_def value_of_type_def talker_shape_def)

lemma stream_command_text:
  assumes "talker_shape v"
  shows "c_string (stream_command v) = Some (''S++:'' @ join_fields (stream_fields v))" "strstr (''S++:'' @ join_fields (stream_fields v)) ''B='' = None"
proof -
  have "CHR ''B'' \<notin> set (join_fields (stream_fields v))"
    by (simp add: stream_fields_def stream_specs_def streamid_spec_def print_value_lower PARSE_DELIMITER_def)
  then show "strstr (''S++:'' @ join_fields (stream_fields v)) ''B='' = None" by (intro strstr_none) simp
  show "c_string (stream_command v) = Some (''S++:'' @ join_fields (stream_fields v))"
    using join_fields_text [OF fields_typed [OF assms]] by (auto simp: c_string_def stream_command_def) (subst takeWhile_append2; auto)
qed

lemma parse_stream_command:
  assumes "talker_shape v"
  shows "msrp_cmd_parse_join_or_new_stream (stream_command v) (length (stream_command v)) =
    Some (0, v\<lparr>BridgeID := replicate 8 0, FailureCode := 0\<rparr>, stream_command v)"
proof -
  let ?f = "stream_fields v"
  have m: "map fst ?f = stream_specs" by (simp add: stream_fields_def stream_specs_def)
  have "parse (stream_command v) 4 (length (stream_command v) - 4) stream_specs = Some (0, Some 0, map snd ?f, stream_command v)"
    using parse_joined [OF fields_typed [OF assms], of "Suc (length (join_fields ?f))" "[]" "''S++:''"] unfolding m
    by (simp add: stream_command_def numeral_eq_Suc)
  moreover have "22 \<le> length (stream_command v)"
    using assms by (simp add: stream_command_def stream_fields_def stream_specs_def streamid_spec_def talker_shape_def)
  moreover have "stream_of (map snd ?f) = v\<lparr>BridgeID := replicate 8 0, FailureCode := 0\<rparr>"
    by (simp add: stream_fields_def stream_specs_def stream_of_def zero_talker_def)
  ultimately show ?thesis by (simp add: msrp_cmd_parse_join_or_new_stream_def msrp_cmd_parse_def)
qed

section \<open>The declaration\<close>

lemma stream_command_declares:
  assumes "msrp_inv s" "plenty s" "\<not> enable_pruning_of_uninteresting_ids s" "talker_shape v"
    and "\<forall>a\<in>set (attrib_list s). is_talker (s_type a) \<longrightarrow> StreamID (talk_listen a) \<noteq> StreamID v"
  shows "\<exists>s'. msrp_recv_cmd qsort (Some s) (stream_command v) (length (stream_command v)) c = Some (0, [], Some s') \<and> msrp_inv s' \<and>
    same_env s s' \<and> same_leaveall s s' \<and> length (attrib_list s') \<le> Suc (length (attrib_list s)) \<and>
    (\<forall>b\<in>set (attrib_list s'). s_type b = MSRP_LISTENER_TYPE \<longrightarrow> (\<exists>a\<in>set (attrib_list s). s_type a = MSRP_LISTENER_TYPE \<and> substate b = substate a)) \<and>
    (\<exists>b\<in>set (attrib_list s'). anxious (a_state (applicant b)) \<and> s_type b = MSRP_TALKER_ADV_TYPE \<and>
      talk_listen b = v\<lparr>BridgeID := replicate 8 0, FailureCode := 0\<rparr>)"
proof -
  let ?s = "add_client s c" and ?v = "v\<lparr>BridgeID := replicate 8 0, FailureCode := 0\<rparr>"
  have i: "msrp_inv ?s" "attrib_list ?s = attrib_list s" "same_env s ?s" "same_leaveall s ?s"
    using msrp_inv_env [OF assms(1)] client_env by (simp_all add: same_leaveall_basic)
  have pl: "plenty ?s" "\<not> enable_pruning_of_uninteresting_ids ?s" using plenty_env [OF i(3) assms(2)] env_set(2) [OF i(3)] assms(3) by simp_all
  obtain a t where al: "msrp_alloc MSRP_TALKER_ADV_TYPE ?s = (Some a, t)" using pl(1) by (simp add: msrp_alloc_def mrpd_malloc_def plenty_def)
  note ok = msrp_alloc_ok [OF al]
  have t: "msrp_inv t" "attrib_list t = attrib_list s" "same_env s t" "same_leaveall ?s t" "\<not> enable_pruning_of_uninteresting_ids t"
    using msrp_alloc_inv [OF i(1) al] ok(1,2) i(2) same_env_trans [OF i(3) ok(1)] env_set(2) [OF ok(1)] pl(2) al
    by (auto simp: msrp_alloc_def mrpd_malloc_def same_leaveall_def)
  define r where "r = a\<lparr>operation := MSRP_OPERATION_DECLARE, talk_listen := ?v\<rparr>"
  have r: "s_type r = MSRP_TALKER_ADV_TYPE" "talk_listen r = ?v" using ok(3) by (simp_all add: r_def)
  have fr: "msrp_fresh r" by (rule fresh_fields [OF al]) (use assms(4) in \<open>simp_all add: r_def talker_shape_def\<close>)
  have ab: "absent r t" using assms(5) t(2) r by (auto simp: absent_def attr_key_def is_talker_def split: msrp_type.splits)
  have "interested t r" using t(5) by (simp add: interested_def)
  obtain rc s' where ev: "msrp_event t MRP_EVENT_NEW (Some r) = Some (rc, s')" "msrp_inv s'"
    using msrp_event_total [OF t(1), of "Some r" MRP_EVENT_NEW] fr by (auto simp: silent_event_def)
  note k = new_event_keeps [OF t(1) fr ab \<open>interested t r\<close> ev(1)]
  have "msrp_cmd_join_or_new_stream ?v MSRP_TALKER_ADV_TYPE MRP_EVENT_NEW ?s = Some (0, s')"
    using al ev(1) by (simp add: msrp_cmd_join_or_new_stream_def request_def r_def)
  then have "msrp_command qsort (stream_command v) (length (stream_command v)) ?s = Some (Some (Cmd_done, stream_command v, s'))"
    using parse_stream_command [OF assms(4)] stream_command_text [OF assms(4)]
    by (simp add: msrp_command_def parsed_def Let_def) (simp add: stream_command_def)
  moreover have "3 \<le> length (stream_command v)" "take 3 (stream_command v) = ''S++''" "stream_command v \<noteq> []" "hd (stream_command v) = CHR ''S''"
    by (simp_all add: stream_command_def)
  ultimately have cmd: "msrp_recv_cmd qsort (Some s) (stream_command v) (length (stream_command v)) c = Some (0, [], Some s')"
    using pl(2) by (simp add: msrp_recv_cmd_def Let_def)
  have env: "same_env s s'" using same_env_trans [OF t(3) msrp_attribute_event_env [OF t(1) fr ev(1)]] by (simp add: silent_event_def)
  have len: "length (attrib_list s') \<le> Suc (length (attrib_list s))"
    using list_emb_length [OF k(1)] size_mset [of "insert_sorted_type r (attrib_list t)"] t(2) by (simp add: values_of_def mset_insert_sorted_type flip: size_mset)
  have more: "mrp_attribute.more ` set (attrib_list s') \<subseteq> insert (mrp_attribute.more r) (mrp_attribute.more ` set (attrib_list s))"
    using subseq_set [OF k(1)] t(2) by (simp add: values_of_def)
  have sub: "\<exists>a\<in>set (attrib_list s). s_type a = MSRP_LISTENER_TYPE \<and> substate b = substate a"
    if b: "b \<in> set (attrib_list s')" "s_type b = MSRP_LISTENER_TYPE" for b
  proof -
    have "mrp_attribute.more b \<noteq> mrp_attribute.more r" using same_values [of b r] b(2) r(1) by auto
    then obtain a where a: "a \<in> set (attrib_list s)" "mrp_attribute.more b = mrp_attribute.more a" using more b(1) by blast
    then show ?thesis using same_values [OF a(2)] b(2) by (intro bexI [of _ a]) auto
  qed
  have "\<exists>b\<in>set (attrib_list s'). anxious (a_state (applicant b)) \<and> s_type b = MSRP_TALKER_ADV_TYPE \<and> talk_listen b = ?v"
    using k(3) same_values r by metis
  then show ?thesis using cmd ev(2) env len sub same_leaveall_trans [OF same_leaveall_trans [OF i(4) t(4)] k(2)] by blast
qed

end
