(* ===== verification/Msrp_Properties.thy ===== *)
theory Msrp_Properties
  imports Msrp_Declare
begin

text \<open>
  The properties of the stream reservation protocol, over its frames, its runs, its commands and two
  stations, with a witness for each.
\<close>

section \<open>A sample station\<close>

definition sample_stream :: msrpdu_talker_fail where
  "sample_stream = \<lparr>StreamID = [0, 1, 2, 3, 4, 5, 0, 1], Dest_Addr = [0x91, 0xE0, 0xF0, 0, 0x0E, 0x80], Vlan_ID = 2, MaxFrameSize = 84,
     MaxIntervalFrames = 1, PriorityAndRank = 96, AccumulatedLatency = 3900, BridgeID = replicate 8 0, FailureCode = 0\<rparr>"

definition sample_talker :: "msrp_type \<Rightarrow> mrp_state \<Rightarrow> msrp_attribute" where
  "sample_talker t st = \<lparr>applicant = \<lparr>a_state = st, a_tx = False, a_sndmsg = MRP_SND_NULL, a_encode = MRP_ENCODE_OPTIONAL, a_previous = None\<rparr>,
     registrar = new_registrar, s_type = t, talk_listen = sample_stream, domain = zero_domain, substate = 2, operation = MSRP_OPERATION_REGISTER\<rparr>"

definition sample_msrp :: "u8 \<Rightarrow> bool \<Rightarrow> msrp_attribute list \<Rightarrow> msrp_database" where
  "sample_msrp n prune as =
     \<lparr>mrp_db = \<lparr>lva = \<lparr>t_state = MRP_TIMER_PASSIVE, t_tx = False, t_sndmsg = MRP_SND_NONE\<rparr>, join_timer_running = False,
        lv_timer_running = False, lva_timer_running = True, clients = [], registration = 0, participant = 0, calls = [],
        answers = (\<lambda>i. 0), rands = (\<lambda>i. 12345), rands_pos = 0\<rparr>,
      attrib_list = as, send_empty_LeaveAll_flag = False, p2pmac = 1, station = [n, 0, 0, 0, 0, n], frames = [],
      send_rc = (\<lambda>i. 60), ctl = [], mem_ok = (\<lambda>i. True), mem_pos = 0, interesting_stream_ids = snd (eui64set_init True 8),
      enable_pruning_of_uninteresting_ids = prune\<rparr>"

lemma sample_msrp_inv:
  assumes "shaped as" "list_all attr_ok as" "\<forall>a\<in>set as. \<not> leaving a"
  shows "msrp_inv (sample_msrp n prune as)"
proof -
  have "eui_inv (snd (eui64set_init True 8))"
    by (rule eui64set_init_inv [of True 8 "fst (eui64set_init True 8)"]) (simp_all add: eui64set_init_def)
  then show ?thesis using assms by (simp add: msrp_inv_def app_inv_def covered_def timers_ok_def sample_msrp_def)
qed

lemma sample_talker_ok:
  "attr_shape (sample_talker t st)" "applicant_state st \<Longrightarrow> attr_ok (sample_talker t st)" "\<not> leaving (sample_talker t st)"
  by (simp_all add: sample_talker_def sample_stream_def attr_shape_def talker_shape_def attr_ok_def leaving_def new_registrar_def state_sets)

lemma sample_msrp_fields [simp]:
  "plenty (sample_msrp n prune as)" "station (sample_msrp n prune as) = [n, 0, 0, 0, 0, n]" "attrib_list (sample_msrp n prune as) = as"
  "frames (sample_msrp n prune as) = []" "enable_pruning_of_uninteresting_ids (sample_msrp n prune as) = prune" "\<not> send_empty_LeaveAll_flag (sample_msrp n prune as)"
  "\<not> t_tx (lva (mrp_db (sample_msrp n prune as)))" "mem_ok (sample_msrp n prune as) k"
  by (simp_all add: sample_msrp_def plenty_def)

section \<open>Frames\<close>

text \<open>
  Property C5.  What is transmitted is received: a database of at most 49 attributes is sent in at most one frame,
  which holds, for each type, a selection of the marked attributes with all whose message is not optional, and
  a leave-all in the first vector if it is due; the marks are cleared; and any station that receives the
  frame handles exactly these attributes in order, with the values that they have on the wire, and the states of the listeners.
\<close>

theorem msrp_frame_roundtrip:
  assumes "plenty s" "sendable (attrib_list s)" "list_all attr_shape (attrib_list s)" "length (attrib_list s) \<le> 49" "length (station s) = 6"
    and "\<forall>a\<in>set (attrib_list s). s_type a = MSRP_LISTENER_TYPE \<longrightarrow> substate a < 4" and "send_empty_LeaveAll_flag s \<longrightarrow> t_tx (lva (mrp_db s))"
  shows "\<exists>rc s' gs. msrp_txpdu s = Some (rc, s') \<and> attrib_list s' = map clear_tx (attrib_list s) \<and>
    (\<forall>t. selection (marked_of t (map mark_listener (attrib_list s))) (members (gs t)) \<and> group_flags (t_tx (lva (mrp_db s))) (gs t)) \<and>
    (if payload gs = [] then frames s' = frames s
     else frames s' = frames s @ [msrp_frame (station s) gs] \<and>
       (\<forall>r. msrp_recv_msg r (int (length (msrp_frame (station s) gs))) (in_buffer (msrp_frame (station s) gs)) =
         map_option (\<lambda>(ok, r). (if ok then 0 else -1, r)) (hear_frame (station s) gs r)))"
proof -
  let ?M = "map mark_listener (attrib_list s)"
  have m: "mem_ok s (mem_pos s)" "mem_ok s (Suc (mem_pos s))" using assms(1) by (simp_all add: plenty_def)
  obtain gs where gs: "\<forall>t. message_ok (send_empty_LeaveAll_flag s) (t_tx (lva (mrp_db s))) t ?M (gs t)"
    "\<exists>rc. msrp_txpdu s = Some (rc, tx_state s 2 (map clear_tx (attrib_list s)) (if payload gs = [] then [] else [msrp_frame (station s) gs]))"
    using msrp_txpdu_spec [OF m(1) assms(2-4)] m(2) by auto
  have M: "length ?M \<le> 49" "\<forall>a\<in>set ?M. s_type a = MSRP_LISTENER_TYPE \<longrightarrow> substate a < 4" using assms(4,6) by auto
  have "\<forall>t. \<forall>g\<in>set (gs t). small_group t g" using message_small(1) [OF _ M] gs(1) by blast
  moreover have "length (msrp_frame (station s) gs) \<le> MAX_FRAME_SIZE" using msrp_frame_length [OF gs(1) M(1) assms(5)] by (simp add: MAX_FRAME_SIZE_def)
  ultimately have r: "msrp_recv_msg r (int (length (msrp_frame (station s) gs))) (in_buffer (msrp_frame (station s) gs)) =
      map_option (\<lambda>(ok, r). (if ok then 0 else -1, r)) (hear_frame (station s) gs r)" for r using msrp_recv_frame assms(5) by blast
  define s' where "s' = tx_state s 2 (map clear_tx (attrib_list s)) (if payload gs = [] then [] else [msrp_frame (station s) gs])"
  then obtain rc where rc: "msrp_txpdu s = Some (rc, s')" using gs(2) by blast
  have s': "attrib_list s' = map clear_tx (attrib_list s)" "payload gs = [] \<Longrightarrow> frames s' = frames s"
    "payload gs \<noteq> [] \<Longrightarrow> frames s' = frames s @ [msrp_frame (station s) gs]" by (simp_all add: s'_def tx_state_def)
  have "\<forall>t. selection (marked_of t ?M) (members (gs t)) \<and> group_flags (t_tx (lva (mrp_db s))) (gs t)" using gs(1) assms(7) by (simp add: message_ok_def)
  then show ?thesis using rc r s' by (intro exI [of _ rc] exI [of _ s'] exI [of _ gs]) simp
qed

definition sending_talker :: msrp_attribute where
  "sending_talker = (sample_talker MSRP_TALKER_ADV_TYPE MRP_AN_STATE)\<lparr>applicant :=
     \<lparr>a_state = MRP_AN_STATE, a_tx = True, a_sndmsg = MRP_SND_NEW, a_encode = MRP_ENCODE_YES, a_previous = None\<rparr>\<rparr>"

theorem msrp_frame_roundtrip_witness:
  "\<exists>rc s' gs. msrp_txpdu (sample_msrp 1 False [sending_talker]) = Some (rc, s') \<and> filter must_send (members (gs MSRP_TALKER_ADV_TYPE)) = [sending_talker] \<and>
    (payload gs = [] \<or> (\<forall>r. msrp_recv_msg r (int (length (msrp_frame [1, 0, 0, 0, 0, 1] gs))) (in_buffer (msrp_frame [1, 0, 0, 0, 0, 1] gs)) =
      map_option (\<lambda>(ok, r). (if ok then 0 else -1, r)) (hear_frame [1, 0, 0, 0, 0, 1] gs r)))"
proof -
  let ?s = "sample_msrp 1 False [sending_talker]"
  have a: "pdu_event sending_talker = Some MRPDU_NEW" "attr_shape sending_talker" "s_type sending_talker = MSRP_TALKER_ADV_TYPE"
    "mark_listener sending_talker = sending_talker" "a_tx (applicant sending_talker)" "must_send sending_talker"
    by (simp_all add: sending_talker_def sample_talker_def sample_stream_def pdu_event_def attr_shape_def talker_shape_def mark_listener_def must_send_def)
  have "sendable (attrib_list ?s)" "list_all attr_shape (attrib_list ?s)" "length (attrib_list ?s) \<le> 49" "length (station ?s) = 6"
    "\<forall>a\<in>set (attrib_list ?s). s_type a = MSRP_LISTENER_TYPE \<longrightarrow> substate a < 4" "send_empty_LeaveAll_flag ?s \<longrightarrow> t_tx (lva (mrp_db ?s))"
    using a by (simp_all add: sendable_def)
  from msrp_frame_roundtrip [OF sample_msrp_fields(1) this] obtain rc s' gs where g: "msrp_txpdu ?s = Some (rc, s')"
    "\<forall>t. selection (marked_of t (map mark_listener (attrib_list ?s))) (members (gs t))"
    "if payload gs = [] then frames s' = frames ?s else frames s' = frames ?s @ [msrp_frame (station ?s) gs] \<and>
       (\<forall>r. msrp_recv_msg r (int (length (msrp_frame (station ?s) gs))) (in_buffer (msrp_frame (station ?s) gs)) =
         map_option (\<lambda>(ok, r). (if ok then 0 else -1, r)) (hear_frame (station ?s) gs r))" by blast
  have "filter must_send (members (gs MSRP_TALKER_ADV_TYPE)) = [sending_talker]"
    using g(2) a unfolding selection_def by simp
  then show ?thesis using g(1,3) by (intro exI [of _ rc] exI [of _ s'] exI [of _ gs]) (simp split: if_splits)
qed

text \<open>
  Property C18.  A reservation reaches the neighbour: if a talker, a listener or a domain of a station is declared and
  not quiet, the next transmission opportunity sends a frame, and a station that does not know the attribute yet and receives
  the frame has it registered, with the sender's address and with all parameters of the stream.
\<close>

theorem msrp_reservation_known:
  assumes "msrp_inv s" "plenty s" "length (station s) = 6" "length (attrib_list s) \<le> 49"
    and "\<not> t_tx (lva (mrp_db s))" "\<not> send_empty_LeaveAll_flag s" "\<forall>b\<in>set (attrib_list s). s_type b = MSRP_LISTENER_TYPE \<longrightarrow> substate b < 4"
    and "a \<in> set (attrib_list s)" "anxious (a_state (applicant a))" "s_type a = MSRP_LISTENER_TYPE \<longrightarrow> substate a \<noteq> MSRP_LISTENER_IGNORE"
    and "open_ears t" "absent a t"
  shows "\<exists>s' f t'. msrp_event s MRP_EVENT_TX None = Some (0, s') \<and> frames s' = frames s @ [f] \<and>
    msrp_recv_msg t (int (length f)) (in_buffer f) = Some (0, t') \<and> msrp_inv t' \<and> known (station s) a t'"
  using msrp_station_knows [OF assms] by blast

theorem msrp_reservation_known_witness:
  "\<exists>s' f t'. msrp_event (sample_msrp 1 False [sample_talker MSRP_LISTENER_TYPE MRP_VN_STATE]) MRP_EVENT_TX None = Some (0, s') \<and> frames s' = [f] \<and>
    msrp_recv_msg (sample_msrp 2 False []) (int (length f)) (in_buffer f) = Some (0, t') \<and>
    known [1, 0, 0, 0, 0, 1] (sample_talker MSRP_LISTENER_TYPE MRP_VN_STATE) t'"
proof -
  let ?a = "sample_talker MSRP_LISTENER_TYPE MRP_VN_STATE" and ?t = "sample_msrp 2 False []"
  let ?s = "sample_msrp 1 False [?a]"
  have i: "msrp_inv ?s" "msrp_inv ?t" by (rule sample_msrp_inv; simp add: shaped_def sample_talker_ok state_sets)+
  have o: "open_ears ?t" "absent ?a ?t" using i(2) by (simp_all add: open_ears_def absent_def)
  have a: "anxious (a_state (applicant ?a))" "substate ?a = 2" by (simp_all add: sample_talker_def anxious_def state_sets)
  have "\<exists>s' f t'. msrp_event ?s MRP_EVENT_TX None = Some (0, s') \<and> frames s' = frames ?s @ [f] \<and>
    msrp_recv_msg ?t (int (length f)) (in_buffer f) = Some (0, t') \<and> msrp_inv t' \<and> known (station ?s) ?a t'"
    by (rule msrp_reservation_known) (use i o a in \<open>simp_all add: MSRP_LISTENER_IGNORE_def\<close>)
  then show ?thesis by auto
qed

section \<open>Runs\<close>

text \<open>
  Property C6.  A station never
  leaves its buffers under the following bounds: from its initialisation on, every sequence of timers, frames of at most 1960 bytes in the zeroed
  buffer, terminated commands, goodbyes
  and reclaims ends, and the invariant of the database holds, however \<open>qsort\<close> orders equal keys, provided that at most 49 attributes are
  in the list when a frame is sent, and at most 11 when a client asks for the table.
\<close>

theorem msrp_run_safe:
  assumes "qsort_spec qsort" "timers_ok env" "msrp_init True n prune sock_rc timers_rc env = (0, True, Some s)"
    and "all_admissible msrp_admissible (msrp_exec qsort) s es"
  shows "\<exists>s'. exec_run (msrp_exec qsort) s es = Some s' \<and> msrp_inv s'"
  using event_system.exec_run_inv [OF msrp_event_system [OF assms(1)]] msrp_init_inv [OF assms(3,2)] assms(4) by blast

theorem msrp_run_safe_witness:
  "\<exists>s s'. msrp_init True 0 False 3 0 (sample_msrp 1 False []) = (0, True, Some s) \<and>
    exec_run (msrp_exec (sort_key eui64)) s [Timer MRP_EVENT_TX, Recv 60 (replicate 2000 0), Timer MRP_EVENT_LVTIMER,
      Cmd (''S+D:C=6,P=3,V=0002'' @ [CHR 0x00]) 19 \<lparr>sin_family = 2, sin_port = 7, sin_addr = 1, sin_zero = []\<rparr>, Reclaim] = Some s' \<and> msrp_inv s'"
proof -
  have "\<exists>s. msrp_init True 0 False 3 0 (sample_msrp 1 False []) = (0, True, Some s) \<and> attrib_list s = []"
    by (simp add: msrp_init_def reset_application_def mrpd_malloc_def sample_msrp_def eui64set_init_def on_db_def)
  then obtain s where i: "msrp_init True 0 False 3 0 (sample_msrp 1 False []) = (0, True, Some s)" "attrib_list s = []" by blast
  have "all_admissible msrp_admissible (msrp_exec (sort_key eui64)) s [Timer MRP_EVENT_TX, Recv 60 (replicate 2000 0), Timer MRP_EVENT_LVTIMER,
      Cmd (''S+D:C=6,P=3,V=0002'' @ [CHR 0x00]) 19 \<lparr>sin_family = 2, sin_port = 7, sin_addr = 1, sin_zero = []\<rparr>, Reclaim]"
    using i(2) by (simp add: msrp_admissible_def MAX_FRAME_SIZE_def frame_buffer_def list_all_iff split: option.split)
  moreover have "timers_ok (sample_msrp 1 False [])" by (simp add: timers_ok_def sample_msrp_def)
  ultimately show ?thesis using msrp_run_safe [OF sort_key_spec _ i(1)] i(1) by blast
qed

text \<open>
  Receiving ends for every frame of at most 1960 bytes in a buffer that is zero behind it: no byte behind the buffer is
  read, the answer is 0 or -1, and the invariant is kept.
\<close>

theorem msrp_recv_terminates:
  assumes "msrp_inv s" "frame_buffer bytes buf"
  shows "\<exists>rc s'. msrp_recv_msg s bytes buf = Some (rc, s') \<and> msrp_inv s' \<and> rc \<in> {0, -1}"
  by (rule msrp_recv_total [OF assms])

theorem msrp_recv_terminates_witness:
  "\<exists>rc s'. msrp_recv_msg (sample_msrp 1 True []) 1000 (replicate 1000 255 @ replicate 1000 0) = Some (rc, s') \<and> msrp_inv s' \<and> rc \<in> {0, -1}"
  by (rule msrp_recv_terminates) (simp_all add: sample_msrp_inv shaped_def frame_buffer_def MAX_FRAME_SIZE_def list_all_iff)

section \<open>Streams\<close>

text \<open>
  Property C16.  Pruning: a talker whose stream is neither in the table of interesting streams nor
  has a listener is dropped, and the list stays as it is; once a client has added the stream to the
  table, the same message registers the talker with its parameters.
\<close>

theorem msrp_pruning:
  assumes "qsort_spec qsort" "msrp_inv s" "enable_pruning_of_uninteresting_ids s" "\<not> eui64set_is_full (interesting_stream_ids s)"
    and "msrp_fresh r" "is_talker (s_type r)" "absent r s" "e \<in> {MRP_EVENT_RNEW, MRP_EVENT_RJOININ, MRP_EVENT_RJOINMT}"
    and "eui64set_find (interesting_stream_ids s) (eui64_read (StreamID (talk_listen r))) = None"
    and "msrp_lookup s (r\<lparr>s_type := MSRP_LISTENER_TYPE\<rparr>) = None"
  shows "msrp_event s e (Some r) = Some (0, msrp_notify s) \<and> absent r (msrp_notify s) \<and>
    (\<exists>u s'. cmd_add_interesting qsort (StreamID (talk_listen r)) s = Some (0, u) \<and> msrp_event u e (Some r) = Some (0, s') \<and>
      (\<exists>b\<in>set (attrib_list s'). r_state (registrar b) = MRP_IN_STATE \<and> s_type b = s_type r \<and> talk_listen b = talk_listen r))"
proof -
  let ?i = "eui64_read (StreamID (talk_listen r))"
  have e: "e \<in> rx_events" using assms(8) by (auto simp: rx_events_def)
  have "\<not> interested s r" using assms(3,6,9,10) by (simp add: interested_def)
  then have drop: "msrp_event s e (Some r) = Some (0, msrp_notify s)" by (simp add: msrp_event_rx [OF e] msrp_event_attribute_def)
  have ids: "eui_inv (interesting_stream_ids s)" using assms(2) by (simp add: msrp_inv_def)
  obtain ids' where x: "eui64set_insert_and_sort qsort (interesting_stream_ids s) ?i None = Some (1, ids')" "eui_inv ids'" "eui64set_find ids' ?i \<noteq> None"
    using insert_finds [OF assms(1) ids assms(4)] by blast
  define u where "u = s\<lparr>interesting_stream_ids := ids'\<rparr>"
  have add: "cmd_add_interesting qsort (StreamID (talk_listen r)) s = Some (0, u)" using x(1) assms(9) by (simp add: cmd_add_interesting_def u_def)
  have u: "msrp_inv u" "absent r u" "interested u r"
    using msrp_inv_set [OF assms(2) x(2)] assms(7) x(3) by (simp_all add: u_def absent_def interested_def)
  note reg = stream_registers [OF u(1) assms(5) u(2,3) assms(8)]
  define v where "v = snd (msrp_event_attribute e r u)"
  have "\<exists>b\<in>set (attrib_list v). r_state (registrar b) = MRP_IN_STATE \<and> s_type b = s_type r \<and> talk_listen b = talk_listen r"
    using reg(2) same_values unfolding v_def by blast
  then have "\<exists>b\<in>set (attrib_list (msrp_notify v)). r_state (registrar b) = MRP_IN_STATE \<and> s_type b = s_type r \<and> talk_listen b = talk_listen r"
    unfolding msrp_notify_def by (rule notify_keeps) simp
  moreover have "msrp_event u e (Some r) = Some (0, msrp_notify v)" using reg(1) by (simp add: msrp_event_rx [OF e] v_def case_prod_beta)
  ultimately show ?thesis using drop add notify_absent [OF assms(2,7)] by blast
qed

theorem msrp_pruning_witness:
  "\<exists>r u s'. msrp_event (sample_msrp 1 True []) MRP_EVENT_RJOININ (Some r) = Some (0, msrp_notify (sample_msrp 1 True [])) \<and>
    cmd_add_interesting (sort_key eui64) [0, 1, 2, 3, 4, 5, 0, 1] (sample_msrp 1 True []) = Some (0, u) \<and>
    msrp_event u MRP_EVENT_RJOININ (Some r) = Some (0, s') \<and> (\<exists>b\<in>set (attrib_list s'). talk_listen b = sample_stream)"
proof -
  let ?s = "sample_msrp 1 True []" and ?r = "sample_talker MSRP_TALKER_ADV_TYPE MRP_VO_STATE"
  have i: "msrp_inv ?s" by (rule sample_msrp_inv) (simp_all add: shaped_def)
  have r: "msrp_fresh ?r" "is_talker (s_type ?r)" "talk_listen ?r = sample_stream" "StreamID sample_stream = [0, 1, 2, 3, 4, 5, 0, 1]"
    using sample_talker_ok [where t = MSRP_TALKER_ADV_TYPE and st = MRP_VO_STATE]
    by (simp_all add: msrp_fresh_def fresh_def state_sets is_talker_def) (simp_all add: sample_talker_def new_registrar_def sample_stream_def)
  have f: "\<not> eui64set_is_full (interesting_stream_ids ?s)" "eui64set_find (interesting_stream_ids ?s) k = None" for k
    by (simp_all add: sample_msrp_def eui64set_init_def eui64set_is_full_def eui64set_find_def bsearch.simps)
  have "enable_pruning_of_uninteresting_ids ?s" "absent ?r ?s" "msrp_lookup ?s (?r\<lparr>s_type := MSRP_LISTENER_TYPE\<rparr>) = None" by (simp_all add: absent_def msrp_lookup_def)
  from msrp_pruning [OF sort_key_spec i this(1) f(1) r(1,2) this(2) _ f(2) this(3), of MRP_EVENT_RJOININ] r(3,4)
  show ?thesis by (intro exI [of _ ?r]) auto
qed

definition failed_like :: "msrp_attribute \<Rightarrow> msrp_attribute \<Rightarrow> msrp_attribute \<Rightarrow> bool" where
  "failed_like a r b \<longleftrightarrow> s_type b = MSRP_TALKER_FAILED_TYPE \<and> r_state (registrar b) = MRP_IN_STATE \<and>
     r_macaddr (registrar b) = r_macaddr (registrar r) \<and>
     talk_listen b = (talk_listen a)\<lparr>FailureCode := FailureCode (talk_listen r), BridgeID := BridgeID (talk_listen r)\<rparr>"

lemma update_first_found: "find P as = Some a \<Longrightarrow> f a \<in> set (update_first P f as)"
  by (induction as) (auto split: if_splits)

text \<open>
  Property C17.  A stream fails: when a talker that is registered as advertised is received as failed, the list
  holds exactly one talker of the stream afterwards, which is failed, with the failure that was received, the address of
  the sender, and the parameters of the stream that were registered first.
\<close>

theorem msrp_talker_fails:
  assumes "msrp_inv s" "\<not> enable_pruning_of_uninteresting_ids s" "msrp_fresh r" "e \<in> {MRP_EVENT_RNEW, MRP_EVENT_RJOININ, MRP_EVENT_RJOINMT}"
    and "s_type r = MSRP_TALKER_FAILED_TYPE" "operation r = MSRP_OPERATION_REGISTER"
    and "msrp_lookup s r = Some a" "s_type a = MSRP_TALKER_ADV_TYPE" "operation a = MSRP_OPERATION_REGISTER"
  shows "\<exists>s'. msrp_event s e (Some r) = Some (0, s') \<and> msrp_inv s' \<and> (\<exists>b\<in>set (attrib_list s'). failed_like a r b \<and>
    (\<forall>c\<in>set (attrib_list s'). is_talker (s_type c) \<and> StreamID (talk_listen c) = StreamID (talk_listen r) \<longrightarrow> c = b))"
proof -
  let ?j = "on_db mrp_jointimer_start s"
  define t where "t = (if msrp_lookup ?j r = None then msrp_add ?j r else snd (msrp_merge ?j r))"
  let ?body = "\<lambda>a s. case attribute_step e a s of (a, s) \<Rightarrow> msrp_conditional_reclaim a s"
  define m where "m = merge_talker r (merge_address r a)"
  obtain ys u where b: "at_first (msrp_match r) ?body (attrib_list t) t = (ys, u)" by (cases "at_first (msrp_match r) ?body (attrib_list t) t")
  have j: "msrp_inv ?j" "msrp_lookup ?j r = Some a" using msrp_timers(1) [OF assms(1)] assms(7) by (simp_all add: msrp_lookup_def)
  have t: "msrp_inv t" unfolding t_def by (rule add_or_merge_inv(1) [OF j(1) assms(3)])
  have "attrib_list t = update_first (msrp_match r) (\<lambda>a. merge_talker r (merge_address r a)) (attrib_list ?j)"
    using j(2) assms(8) by (simp add: t_def msrp_merge_def merge_into_def)
  then have m: "m \<in> set (attrib_list t)" unfolding m_def using update_first_found [of "msrp_match r" "attrib_list ?j" a] j(2) by (simp add: msrp_lookup_def)
  have key: "attr_key a = attr_key r" using lookup_key(2) [OF assms(7)] by simp
  have mf: "s_type m = MSRP_TALKER_FAILED_TYPE" "r_macaddr (registrar m) = r_macaddr (registrar r)"
    "talk_listen m = (talk_listen a)\<lparr>FailureCode := FailureCode (talk_listen r), BridgeID := BridgeID (talk_listen r)\<rparr>"
    using assms(5,6,8,9) by (simp_all add: m_def merge_talker_def merge_address_def force_notify_def Let_def)
  then have mk: "msrp_match r m" using key assms(5,8) by (simp add: match_key attr_key_def)
  obtain c where c: "c \<in> set (attrib_list t)" "msrp_match r c" "set (fst (?body c t)) \<subseteq> set ys" using at_first_own [OF b] m mk by blast
  have "distinct (map attr_key (attrib_list t))" using t by (simp add: msrp_inv_def shaped_def)
  then have "c = m" using c(1,2) m mk inj_onD [of attr_key "set (attrib_list t)" c m] by (simp add: match_key distinct_map)
  moreover have "attr_ok m" using t m by (simp add: msrp_inv_def app_inv_def list_all_iff)
  then have "\<exists>d. fst (?body m t) = [d] \<and> r_state (registrar d) = MRP_IN_STATE \<and> r_macaddr (registrar d) = r_macaddr (registrar m) \<and>
      mrp_attribute.more d = mrp_attribute.more m"
    unfolding msrp_conditional_reclaim_def by (rule attribute_step_registers [OF _ assms(4)])
  ultimately obtain d where d: "d \<in> set ys" "r_state (registrar d) = MRP_IN_STATE" "r_macaddr (registrar d) = r_macaddr (registrar m)"
    "mrp_attribute.more d = mrp_attribute.more m" using c(3) by auto
  have "failed_like a r d" using d same_values [OF d(4)] mf by (simp add: failed_like_def)
  define v where "v = u\<lparr>attrib_list := ys\<rparr>"
  have e: "e \<noteq> MRP_EVENT_RMT" "e \<in> rx_events" using assms(4) by (auto simp: rx_events_def)
  have "msrp_event_attribute e r s = (True, v)"
    using assms(2) b e(1) by (auto simp: msrp_event_attribute_def interested_def Let_def t_def v_def)
  then have ev: "msrp_event s e (Some r) = Some (0, msrp_notify v)" by (simp add: msrp_event_rx [OF e(2)])
  have "\<exists>b\<in>set (attrib_list (msrp_notify v)). failed_like a r b"
    unfolding msrp_notify_def by (rule notify_keeps) (use d(1) \<open>failed_like a r d\<close> in \<open>auto simp: v_def failed_like_def\<close>)
  then obtain b where b: "b \<in> set (attrib_list (msrp_notify v))" "failed_like a r b" by blast
  have i: "msrp_inv (msrp_notify v)"
    using msrp_event_total [OF assms(1), of "Some r" e] assms(3,4) ev by (auto simp: silent_event_def)
  then have "distinct (map attr_key (attrib_list (msrp_notify v)))" by (simp add: msrp_inv_def shaped_def)
  then have "c = b" if "c \<in> set (attrib_list (msrp_notify v))" "is_talker (s_type c)" "StreamID (talk_listen c) = StreamID (talk_listen r)" for c
    using that b key assms(5,8) inj_onD [of attr_key "set (attrib_list (msrp_notify v))" c b]
    by (auto simp: distinct_map failed_like_def attr_key_def is_talker_def)
  then show ?thesis using ev i b by blast
qed

definition failed_talker :: msrp_attribute where
  "failed_talker = (sample_talker MSRP_TALKER_FAILED_TYPE MRP_VO_STATE)\<lparr>talk_listen := sample_stream\<lparr>BridgeID := replicate 8 7, FailureCode := 1\<rparr>\<rparr>"

theorem msrp_talker_fails_witness:
  "\<exists>s'. msrp_event (sample_msrp 1 False [sample_talker MSRP_TALKER_ADV_TYPE MRP_VO_STATE]) MRP_EVENT_RJOININ (Some failed_talker) = Some (0, s') \<and>
    (\<exists>b\<in>set (attrib_list s'). s_type b = MSRP_TALKER_FAILED_TYPE \<and> FailureCode (talk_listen b) = 1)"
proof -
  let ?a = "sample_talker MSRP_TALKER_ADV_TYPE MRP_VO_STATE"
  let ?s = "sample_msrp 1 False [?a]"
  have i: "msrp_inv ?s" by (rule sample_msrp_inv) (simp_all add: shaped_def sample_talker_ok state_sets)
  have r: "msrp_fresh failed_talker" "s_type failed_talker = MSRP_TALKER_FAILED_TYPE" "operation failed_talker = MSRP_OPERATION_REGISTER"
    "StreamID (talk_listen failed_talker) = StreamID sample_stream" "FailureCode (talk_listen failed_talker) = 1"
    by (simp_all add: failed_talker_def sample_talker_def sample_stream_def msrp_fresh_def fresh_def attr_ok_def leaving_def new_registrar_def
        state_sets attr_shape_def talker_shape_def)
  have a: "s_type ?a = MSRP_TALKER_ADV_TYPE" "operation ?a = MSRP_OPERATION_REGISTER" "talk_listen ?a = sample_stream" by (simp_all add: sample_talker_def)
  then have l: "msrp_lookup ?s failed_talker = Some ?a" using r by (simp add: msrp_lookup_def msrp_match_def)
  have "\<not> enable_pruning_of_uninteresting_ids ?s" by simp
  from msrp_talker_fails [OF i this r(1) _ r(2,3) l a(1,2), of MRP_EVENT_RJOININ] obtain s' b where
    "msrp_event ?s MRP_EVENT_RJOININ (Some failed_talker) = Some (0, s')" "b \<in> set (attrib_list s')" "failed_like ?a failed_talker b" by blast
  then show ?thesis using r(5) by (intro exI [of _ s'] conjI bexI [of _ b]) (simp_all add: failed_like_def)
qed

section \<open>Queries\<close>

text \<open>
  Property C35.  The answer to a query has 1500 bytes: with plenty of memory it holds the lines of eleven attributes of any kind, and
  the lines of fifteen talkers, of at least 103 characters each, are written behind its end.
\<close>

theorem msrp_dumptable_limits:
  assumes "msrp_inv s" "plenty s"
  shows "(length (attrib_list s) < 12 \<longrightarrow> msrp_dumptable s \<noteq> None) \<and>
    (15 \<le> length (attrib_list s) \<and> (\<forall>a\<in>set (attrib_list s). is_talker (s_type a) \<and> length (r_macaddr (registrar a)) = 6) \<longrightarrow> msrp_dumptable s = None)"
proof (intro conjI impI)
  show "msrp_dumptable s \<noteq> None" if "length (attrib_list s) < 12" using msrp_dumptable_fits [OF assms(1) that] by auto
  assume l: "15 \<le> length (attrib_list s) \<and> (\<forall>a\<in>set (attrib_list s). is_talker (s_type a) \<and> length (r_macaddr (registrar a)) = 6)"
  have "103 \<le> length (msrp_dump_line a)" if "a \<in> set (attrib_list s)" for a
  proof -
    have a: "attr_ok a" "attr_shape a" using that assms(1) by (simp_all add: msrp_inv_def app_inv_def shaped_def list_all_iff)
    then show ?thesis using dump_text_length(2) [OF a(2)] l that by (simp add: dump_line_length [OF a(1)])
  qed
  then have "103 * length as \<le> length (concat (map msrp_dump_line as))" if "set as \<subseteq> set (attrib_list s)" for as
    using that by (induction as) (auto intro!: add_mono)
  from this [of "attrib_list s"] l have "1500 \<le> length (concat (map msrp_dump_line (attrib_list s)))" by simp
  moreover have "attrib_list s \<noteq> []" using l by auto
  ultimately show "msrp_dumptable s = None"
    using assms(2) by (simp add: msrp_dumptable_def mrpd_malloc_def plenty_def Let_def MAX_MRPD_CMDSZ_def c_assert_def)
qed

definition many_talkers :: "msrp_attribute list" where
  "many_talkers = map (\<lambda>i. (sample_talker MSRP_TALKER_ADV_TYPE MRP_VO_STATE)\<lparr>talk_listen := sample_stream\<lparr>StreamID := [0, 1, 2, 3, 4, 5, 0, i]\<rparr>\<rparr>)
     [0, 1, 2, 3, 4, 5, 6, 7, 8, 9, 10, 11, 12, 13, 14]"

theorem msrp_dumptable_limits_witness:
  "msrp_dumptable (sample_msrp 1 False []) \<noteq> None \<and> msrp_dumptable (sample_msrp 1 False many_talkers) = None"
proof -
  have i: "msrp_inv (sample_msrp 1 False [])" "msrp_inv (sample_msrp 1 False many_talkers)"
    by (rule sample_msrp_inv; simp add: many_talkers_def shaped_def attr_shape_def talker_shape_def sample_stream_def attr_key_def sample_talker_def
        attr_ok_def leaving_def new_registrar_def state_sets)+
  have "length many_talkers = 15" "\<forall>a\<in>set many_talkers. is_talker (s_type a) \<and> length (r_macaddr (registrar a)) = 6"
    by (simp_all add: many_talkers_def sample_talker_def new_registrar_def is_talker_def)
  then show ?thesis
    using msrp_dumptable_limits [OF i(1) sample_msrp_fields(1)] msrp_dumptable_limits [OF i(2) sample_msrp_fields(1)] by simp
qed

section \<open>A frame that is nearly full\<close>

text \<open>
  Property C36.  The guard of the encoder forgets the message header: with six bytes more than the first value left in the frame,
  the guard lets a single talker that must be sent pass, and its event is written behind the frame.
\<close>

theorem msrp_emit_overflow:
  assumes "is_talker t" "s_type a = t" "a_tx (applicant a)" "a_encode (applicant a) \<noteq> MRP_ENCODE_OPTIONAL" "pdu_event a \<noteq> None"
    and "\<forall>b\<in>set as. \<not> a_tx (applicant b)"
  shows "msrp_emit_talkervectors t (type_length t + 6) empty_leaveall l (a # as) = None"
proof -
  obtain e where e: "pdu_event a = Some e" using assms(5) by blast
  have "msrp_vector_loop t room vp [a] [mrpdu_code e] [] m as = Some (True, [mrpdu_code e], [], [a], m, as)" for room vp m
    using assms(6) by (cases as) simp_all
  moreover have "vector_size t \<le> type_length t + 6" "vector_size t + MRPDU_ENDMARK_SZ < type_length t + 6"
    using assms(1) by (auto simp: is_talker_def MRPDU_ENDMARK_SZ_def)
  ultimately show ?thesis
    using assms(2-4) e by (simp add: msrp_emit_talkervectors_def emit_message_def emit_vector_def c_assert_def Let_def)
qed

theorem msrp_emit_overflow_witness:
  "msrp_emit_talkervectors MSRP_TALKER_ADV_TYPE 31 False False [sending_talker] = None"
  using msrp_emit_overflow [of MSRP_TALKER_ADV_TYPE sending_talker "[]" False False]
  by (simp add: is_talker_def sending_talker_def sample_talker_def pdu_event_def)

end
