(* ===== verification/Mrpd.thy ===== *)
theory Mrpd
  imports Mvrp Mmrp_Commands Msrp_Commands
begin

text \<open>
  The daemon of the registration protocols, \<open>mrpd/mrpd.c\<close>: it starts the three applications, waits for its sockets and timers, and
  passes commands, frames and timer events on to them.
\<close>

section \<open>State\<close>

text \<open>What \<open>timerfd_settime\<close> is called with; the times have type \<open>unsigned long\<close> and are far from its bound.\<close>

record timespec =
  tv_sec :: nat
  tv_nsec :: nat

record itimerspec =
  it_interval :: timespec
  it_value :: timespec

datatype daemon_timer = PERIODIC_TIMER | GC_TIMER

text \<open>The global variables, the timers that have been started, and the answers to clients, in order.\<close>

record mrpd =
  mmrp_enable :: bool
  mvrp_enable :: bool
  msrp_enable :: bool
  MMRP_db :: "mmrp_database option"
  MVRP_db :: "mvrp_database option"
  MSRP_db :: "msrp_database option"
  mrp_periodic_state :: timer_state
  started :: "(daemon_timer \<times> itimerspec) list"
  responses :: "(sockaddr_in \<times> string) list"

section \<open>Timers\<close>

definition mrpd_timer_start_interval :: "nat \<Rightarrow> nat \<Rightarrow> itimerspec" where
  "mrpd_timer_start_interval value_ms interval_ms =
     (let ns_per_ms = 1000000; zero = \<lparr>tv_sec = 0, tv_nsec = 0\<rparr>; time = (\<lambda>ms. \<lparr>tv_sec = ms div 1000, tv_nsec = ms mod 1000 * ns_per_ms\<rparr>)
      in \<lparr>it_interval = (if interval_ms \<noteq> 0 then time interval_ms else zero), it_value = time value_ms\<rparr>)"

definition mrpd_timer_start :: "nat \<Rightarrow> itimerspec" where
  "mrpd_timer_start value_ms = mrpd_timer_start_interval value_ms 0"

definition gctimer_start :: "mrpd \<Rightarrow> mrpd" where
  "gctimer_start d = d\<lparr>started := started d @ [(GC_TIMER, mrpd_timer_start (30 * 1000))]\<rparr>"

definition mrp_periodictimer_start :: "mrpd \<Rightarrow> mrpd" where
  "mrp_periodictimer_start d = d\<lparr>started := started d @ [(PERIODIC_TIMER, mrpd_timer_start_interval 1000 1000)]\<rparr>"

text \<open>The periodic machine of the daemon, which starts the timer.\<close>

definition daemon_periodic :: "mrp_event \<Rightarrow> mrpd \<Rightarrow> int \<times> mrpd" where
  "daemon_periodic e d =
     (case mrp_periodictimer_fsm (Some (mrp_periodic_state d)) e of
        (rc, st, start) \<Rightarrow> (rc, (if start then mrp_periodictimer_start d else d)\<lparr>mrp_periodic_state := (case st of None \<Rightarrow> mrp_periodic_state d | Some p \<Rightarrow> p)\<rparr>))"

section \<open>Commands\<close>

definition answer :: "sockaddr_in \<Rightarrow> string list \<Rightarrow> mrpd \<Rightarrow> mrpd" where
  "answer c msgs d = d\<lparr>responses := responses d @ map (Pair c) msgs\<rparr>"

text \<open>The dispatch on the first character of a command; \<open>printf\<close> and \<open>snprintf\<close> read the buffer up to its null character.\<close>

definition process_ctl_msg :: "qsort \<Rightarrow> mrpd \<Rightarrow> string \<Rightarrow> int \<Rightarrow> sockaddr_in \<Rightarrow> (int \<times> mrpd) option" where
  "process_ctl_msg qsort d buf buflen c =
     (if buflen < 3 then Some (-1, d)
      else do {
        c_assert (buf \<noteq> []);
        if hd buf = CHR ''M'' then do {
          (rc, r, db) \<leftarrow> mmrp_recv_cmd (MMRP_db d) buf (nat buflen) c;
          Some (rc, answer c r (d\<lparr>MMRP_db := db\<rparr>)) }
        else if hd buf = CHR ''V'' then do {
          (rc, r, db) \<leftarrow> mvrp_recv_cmd (MVRP_db d) buf (nat buflen) c;
          Some (rc, answer c r (d\<lparr>MVRP_db := db\<rparr>)) }
        else if hd buf = CHR ''S'' \<or> hd buf = CHR ''I'' then do {
          (rc, r, db) \<leftarrow> msrp_recv_cmd qsort (MSRP_db d) buf (nat buflen) c;
          Some (rc, answer c r (d\<lparr>MSRP_db := db\<rparr>)) }
        else if hd buf = CHR ''B'' then
          Some (0, d\<lparr>MMRP_db := mmrp_bye (MMRP_db d) c, MVRP_db := mvrp_bye (MVRP_db d) c, MSRP_db := msrp_bye (MSRP_db d) c\<rparr>)
        else do { r \<leftarrow> respond 7 ''ERC MRP parse '' buf; Some (-1, answer c r d) } })"

text \<open>
  What a receiving call of a socket delivers: whether there was memory for the buffer, and the datagram, \<open>None\<close> for an error.
\<close>

type_synonym 'a datagram = "bool \<times> 'a list option"

text \<open>A datagram in a zeroed buffer of \<open>n\<close> elements, with the answer of \<open>recvmsg\<close>; what does not fit is cut off.\<close>

definition recvmsg :: "nat \<Rightarrow> 'a \<Rightarrow> 'a list option \<Rightarrow> int \<times> 'a list" where
  "recvmsg n zero m =
     (case m of
        None \<Rightarrow> (-1, replicate n zero)
      | Some xs \<Rightarrow> (int (length (take n xs)), take n xs @ replicate (n - length xs) zero))"

definition recv_ctl_msg :: "qsort \<Rightarrow> char datagram \<Rightarrow> sockaddr_in \<Rightarrow> mrpd \<Rightarrow> (int \<times> mrpd) option" where
  "recv_ctl_msg qsort = (\<lambda>(mem, m) c d.
     if \<not> mem then Some (-1, d)
     else case recvmsg MAX_MRPD_CMDSZ (CHR 0x00) m of
       (bytes, msgbuf) \<Rightarrow>
         if bytes \<le> 0 then Some (-1, d)
         else do { (rc, d) \<leftarrow> process_ctl_msg qsort d msgbuf bytes c; Some (-1, d) })"

section \<open>Frames\<close>

definition mrpd_recvmsgbuf :: "u8 datagram \<Rightarrow> int \<times> u8 list" where
  "mrpd_recvmsgbuf = (\<lambda>(mem, m).
     if \<not> mem then (-1, [])
     else case recvmsg MAX_FRAME_SIZE 0 m of
       (bytes, buf) \<Rightarrow> if bytes < 0 then (-1, buf) else if bytes = 0 then (-1, buf) else (bytes, buf))"

section \<open>Events\<close>

definition mrpd_reclaim :: "mrpd \<Rightarrow> int \<times> mrpd" where
  "mrpd_reclaim d =
     (0, gctimer_start (d\<lparr>MMRP_db := snd (mmrp_reclaim (MMRP_db d)), MVRP_db := snd (mvrp_reclaim (MVRP_db d)),
        MSRP_db := snd (msrp_reclaim (MSRP_db d))\<rparr>))"

text \<open>The descriptors of one application that \<open>select\<close> reports, with what its socket delivers.\<close>

record app_fds =
  socket_fd :: "u8 datagram option"
  lva_fd :: bool
  lv_fd :: bool
  join_fd :: bool

record ready_fds =
  control_fd :: "(char datagram \<times> sockaddr_in) option"
  mmrp_fds :: app_fds
  mvrp_fds :: app_fds
  msrp_fds :: app_fds
  periodic_fd :: bool
  gc_fd :: bool

text \<open>
  What the loop does for one application: a frame and its three timers, in this order.  The handlers of the application are arguments, as the
  code repeats the same text for each.
\<close>

definition app_ready :: "('s \<Rightarrow> int \<Rightarrow> u8 list \<Rightarrow> 's option) \<Rightarrow> ('s \<Rightarrow> mrp_event \<Rightarrow> 's option) \<Rightarrow> app_fds \<Rightarrow> 's \<Rightarrow> 's option" where
  "app_ready recv event fds s = do {
     s \<leftarrow> (case socket_fd fds of None \<Rightarrow> Some s | Some m \<Rightarrow> (case mrpd_recvmsgbuf m of (bytes, buf) \<Rightarrow> recv s bytes buf));
     s \<leftarrow> (if lva_fd fds then event s MRP_EVENT_LVATIMER else Some s);
     s \<leftarrow> (if lv_fd fds then event s MRP_EVENT_LVTIMER else Some s);
     if join_fd fds then event s MRP_EVENT_TX else Some s }"

text \<open>An operation on the database of an enabled application; \<open>None\<close> for the use of a null pointer.\<close>

definition on_mmrp :: "(mmrp_database \<Rightarrow> mmrp_database option) \<Rightarrow> mrpd \<Rightarrow> mrpd option" where
  "on_mmrp f d = (if mmrp_enable d then do { s \<leftarrow> MMRP_db d; s \<leftarrow> f s; Some (d\<lparr>MMRP_db := Some s\<rparr>) } else Some d)"

definition on_mvrp :: "(mvrp_database \<Rightarrow> mvrp_database option) \<Rightarrow> mrpd \<Rightarrow> mrpd option" where
  "on_mvrp f d = (if mvrp_enable d then do { s \<leftarrow> MVRP_db d; s \<leftarrow> f s; Some (d\<lparr>MVRP_db := Some s\<rparr>) } else Some d)"

definition on_msrp :: "(msrp_database \<Rightarrow> msrp_database option) \<Rightarrow> mrpd \<Rightarrow> mrpd option" where
  "on_msrp f d = (if msrp_enable d then do { s \<leftarrow> MSRP_db d; s \<leftarrow> f s; Some (d\<lparr>MSRP_db := Some s\<rparr>) } else Some d)"

definition mmrp_handler :: "mmrp_database \<Rightarrow> mrp_event \<Rightarrow> mmrp_database option" where
  "mmrp_handler s e = map_option snd (mmrp_event s e None)"

definition mvrp_handler :: "mvrp_database \<Rightarrow> mrp_event \<Rightarrow> mvrp_database option" where
  "mvrp_handler s e = Some (snd (mvrp_event s e None))"

definition msrp_handler :: "msrp_database \<Rightarrow> mrp_event \<Rightarrow> msrp_database option" where
  "msrp_handler s e = map_option snd (msrp_event s e None)"

text \<open>One round of the loop.\<close>

definition events_round :: "qsort \<Rightarrow> ready_fds \<Rightarrow> mrpd \<Rightarrow> mrpd option" where
  "events_round qsort fds d = do {
     d \<leftarrow> (case control_fd fds of None \<Rightarrow> Some d | Some (m, c) \<Rightarrow> map_option snd (recv_ctl_msg qsort m c d));
     d \<leftarrow> on_mmrp (app_ready (\<lambda>s n buf. map_option snd (mmrp_recv_msg s n buf)) mmrp_handler (mmrp_fds fds)) d;
     d \<leftarrow> on_mvrp (app_ready (\<lambda>s n buf. map_option snd (mvrp_recv_msg s n buf)) mvrp_handler (mvrp_fds fds)) d;
     d \<leftarrow> on_msrp (app_ready (\<lambda>s n buf. map_option snd (msrp_recv_msg s n buf)) msrp_handler (msrp_fds fds)) d;
     d \<leftarrow> (if periodic_fd fds then do {
         let d = snd (daemon_periodic MRP_EVENT_PERIODIC d);
         d \<leftarrow> on_mmrp (\<lambda>s. mmrp_handler s MRP_EVENT_PERIODIC) d;
         d \<leftarrow> on_mvrp (\<lambda>s. mvrp_handler s MRP_EVENT_PERIODIC) d;
         on_msrp (\<lambda>s. msrp_handler s MRP_EVENT_PERIODIC) d }
       else Some d);
     Some (if gc_fd fds then snd (mrpd_reclaim d) else d) }"

text \<open>The loop, given what \<open>select\<close> reports in each round; \<open>None\<close> is its error, which ends the loop.\<close>

fun events_loop :: "qsort \<Rightarrow> ready_fds option list \<Rightarrow> mrpd \<Rightarrow> mrpd option" where
  "events_loop qsort [] d = Some d"
| "events_loop qsort (None # rs) d = Some d"
| "events_loop qsort (Some fds # rs) d = do { d \<leftarrow> events_round qsort fds d; events_loop qsort rs d }"

definition process_events :: "qsort \<Rightarrow> ready_fds option list \<Rightarrow> mrpd \<Rightarrow> mrpd option" where
  "process_events qsort rs d =
     (if mmrp_enable d \<and> MMRP_db d = None \<or> mvrp_enable d \<and> MVRP_db d = None \<or> msrp_enable d \<and> MSRP_db d = None then Some d
      else case daemon_periodic MRP_EVENT_BEGIN d of
        (rc, d) \<Rightarrow> if rc \<noteq> 0 then Some d else events_loop qsort rs d)"

section \<open>Start\<close>

text \<open>
  The command line, and what the operating system answers to the initialisation: the sockets, the timers and the
  environments of the three databases.
\<close>

record options =
  opt_d :: bool
  opt_i :: bool
  opt_m :: bool
  opt_v :: bool
  opt_s :: bool
  opt_p :: bool

record start_env =
  daemon_rc :: int
  ctl_rc :: int
  mmrp_rc :: "int \<times> int"
  mvrp_rc :: "int \<times> int"
  msrp_rc :: "int \<times> int"
  timers_created :: "bool \<times> bool"
  mmrp_env :: mmrp_database
  mvrp_env :: mvrp_database
  msrp_env :: msrp_database

definition MSRP_INTERESTING_STREAM_ID_COUNT :: int where "MSRP_INTERESTING_STREAM_ID_COUNT = 8"

definition init_timers :: "bool \<times> bool \<Rightarrow> mrpd \<Rightarrow> int \<times> mrpd" where
  "init_timers = (\<lambda>(periodic_timer, gc_timer) d.
     if \<not> periodic_timer then (-1, d) else if \<not> gc_timer then (-1, d) else (0, gctimer_start d))"

text \<open>
  The daemon up to its loop: the return value, and the state with which \<open>process_events\<close> is called.  The periodic machine starts in a state outside its
  enumeration, which its first event overwrites.
\<close>

definition mrpd_main :: "options \<Rightarrow> start_env \<Rightarrow> int \<times> mrpd option" where
  "mrpd_main opts env =
     (let m = opt_m opts; v = opt_v opts; s = opt_s opts in
      if \<not> opt_i opts then (1, None)
      else if \<not> m \<and> \<not> v \<and> \<not> s then (1, None)
      else if opt_d opts \<and> daemon_rc env \<noteq> 0 then (daemon_rc env, None)
      else if ctl_rc env \<noteq> 0 then (ctl_rc env, None)
      else
        let (rc1, sock1, db1) = mmrp_init m (fst (mmrp_rc env)) (snd (mmrp_rc env)) (mmrp_env env);
            (rc2, sock2, db2) = mvrp_init v (fst (mvrp_rc env)) (snd (mvrp_rc env)) (mvrp_env env);
            (rc3, sock3, db3) = msrp_init s MSRP_INTERESTING_STREAM_ID_COUNT (opt_p opts) (fst (msrp_rc env)) (snd (msrp_rc env)) (msrp_env env);
            d = \<lparr>mmrp_enable = m, mvrp_enable = v, msrp_enable = s, MMRP_db = db1, MVRP_db = db2, MSRP_db = db3,
              mrp_periodic_state = MRP_TIMER_PASSIVE, started = [], responses = []\<rparr>;
            (rc4, d) = init_timers (timers_created env) d
        in if rc1 \<noteq> 0 then (rc1, None) else if rc2 \<noteq> 0 then (rc2, None) else if rc3 \<noteq> 0 then (rc3, None)
           else if rc4 \<noteq> 0 then (rc4, None) else (0, Some d))"

end
