(* ===== verification/Mrpd_Safety.thy ===== *)
theory Mrpd_Safety
  imports Mrpd Mvrp_Safety Mmrp_Safety Msrp_Safety
begin

text \<open>
  The daemon stays within its buffers: the interface through which its loop drives an application is a locale, and the
  rounds of the loop keep the invariants of all databases.
\<close>

section \<open>Datagrams\<close>

lemma recvmsg_short: "length xs \<le> n \<Longrightarrow> recvmsg n z (Some xs) = (int (length xs), xs @ replicate (n - length xs) z)"
  by (simp add: recvmsg_def)

lemma timer_start_interval:
  "tv_nsec (it_value (mrpd_timer_start_interval v i)) < 1000000000" "tv_nsec (it_interval (mrpd_timer_start_interval v i)) < 1000000000"
  "1000 * tv_sec (it_value (mrpd_timer_start_interval v i)) + tv_nsec (it_value (mrpd_timer_start_interval v i)) div 1000000 = v"
  "1000 * tv_sec (it_interval (mrpd_timer_start_interval v i)) + tv_nsec (it_interval (mrpd_timer_start_interval v i)) div 1000000 = i"
  by (auto simp: mrpd_timer_start_interval_def Let_def)

section \<open>The interface of an application\<close>

text \<open>The actions that one round of the loop causes in an application.\<close>

definition fd_actions :: "app_fds \<Rightarrow> mrp_action list" where
  "fd_actions fds =
     (case socket_fd fds of None \<Rightarrow> [] | Some m \<Rightarrow> [case mrpd_recvmsgbuf m of (n, buf) \<Rightarrow> Recv n buf]) @
     (if lva_fd fds then [Timer MRP_EVENT_LVATIMER] else []) @ (if lv_fd fds then [Timer MRP_EVENT_LVTIMER] else []) @
     (if join_fd fds then [Timer MRP_EVENT_TX] else [])"

locale application = event_system inv adm exec
  for inv :: "'s \<Rightarrow> bool" and adm :: "'s \<Rightarrow> mrp_action \<Rightarrow> bool" and exec :: "'s \<Rightarrow> mrp_action \<Rightarrow> 's option" +
  fixes recv :: "'s \<Rightarrow> int \<Rightarrow> u8 list \<Rightarrow> 's option" and handler :: "'s \<Rightarrow> mrp_event \<Rightarrow> 's option"
    and reclaim :: "'s \<Rightarrow> 's" and cmd :: "'s option \<Rightarrow> string \<Rightarrow> nat \<Rightarrow> sockaddr_in \<Rightarrow> (int \<times> string list \<times> 's option) option"
    and query :: string and fits :: "'s \<Rightarrow> bool"
  assumes exec_recv: "exec s (Recv n buf) = recv s n buf"
    and exec_timer: "exec s (Timer e) = handler s e"
    and exec_reclaim: "exec s Reclaim = Some (reclaim s)"
    and adm_always: "adm s (Timer MRP_EVENT_PERIODIC)" "adm s Reclaim"
    and cmd_without: "CHR 0x00 \<in> set t \<Longrightarrow> \<exists>rc r. cmd None t k c = Some (rc, r, None)"
    and cmd_total: "inv s \<Longrightarrow> k \<le> length t \<Longrightarrow> CHR 0x00 \<in> set t \<Longrightarrow> (take 3 t = query \<Longrightarrow> fits s) \<Longrightarrow>
      \<exists>rc r s'. cmd (Some s) t k c = Some (rc, r, Some s') \<and> inv s'"
begin

lemma app_ready_run: "app_ready recv handler fds s = run s (fd_actions fds)"
proof -
  have one: "run s [e] = exec s e" for s e by (cases "exec s e") simp_all
  have fr: "run s (case socket_fd fds of None \<Rightarrow> [] | Some m \<Rightarrow> [case mrpd_recvmsgbuf m of (n, buf) \<Rightarrow> Recv n buf]) =
      (case socket_fd fds of None \<Rightarrow> Some s | Some m \<Rightarrow> (case mrpd_recvmsgbuf m of (bytes, buf) \<Rightarrow> recv s bytes buf))" for s
    by (auto simp: one exec_recv split: option.split prod.split)
  have tm: "run s (if b then [Timer e] else []) = (if b then handler s e else Some s)" for s b e by (simp add: one exec_timer)
  show ?thesis unfolding app_ready_def fd_actions_def run_append fr tm ..
qed

lemma app_ready_inv:
  assumes "inv s" "all_admissible adm exec s (fd_actions fds)"
  shows "\<exists>s'. app_ready recv handler fds s = Some s' \<and> inv s'"
  using run_inv [OF assms(1)] assms(2) by (simp add: app_ready_run adm_run_all)

lemma periodic_inv: "inv s \<Longrightarrow> \<exists>s'. handler s MRP_EVENT_PERIODIC = Some s' \<and> inv s'"
  using exec_inv [OF _ adm_always(1)] by (simp add: exec_timer)

lemma reclaim_inv: "inv s \<Longrightarrow> inv (reclaim s)"
  using exec_inv [OF _ adm_always(2)] by (simp add: exec_reclaim)

lemma cmd_db:
  assumes "pred_option inv db" "k \<le> length buf" "CHR 0x00 \<in> set buf" "take 3 buf = query \<Longrightarrow> pred_option fits db"
  shows "\<exists>rc r db'. cmd db buf k c = Some (rc, r, db') \<and> pred_option inv db' \<and> (db' = None) = (db = None)"
proof (cases db)
  case None
  then show ?thesis using cmd_without [OF assms(3), of k c] by auto
next
  case (Some s)
  then have "\<exists>rc r s'. cmd (Some s) buf k c = Some (rc, r, Some s') \<and> inv s'" using assms by (intro cmd_total) simp_all
  then show ?thesis using Some by auto
qed

end

definition fewer :: "nat \<Rightarrow> ('v, 'z) app \<Rightarrow> bool" where
  "fewer n s \<longleftrightarrow> length (attrib_list s) < n"

interpretation mmrp_app: application mmrp_inv mmrp_admissible mmrp_exec "\<lambda>s n buf. map_option snd (mmrp_recv_msg s n buf)" mmrp_handler
  "over_list (conditional_reclaim (CHR ''M'') mmrp_text)" mmrp_recv_cmd "''M??''" "fewer 45"
  by unfold_locales
    (use mmrp_recv_cmd_total in \<open>simp_all add: mmrp_exec_def mmrp_admissible_def mmrp_handler_def mmrp_reclaim_def mmrp_recv_cmd_def [of None] c_string_def fewer_def\<close>)

interpretation mvrp_app: application mvrp_inv mvrp_admissible mvrp_exec "\<lambda>s n buf. map_option snd (mvrp_recv_msg s n buf)" mvrp_handler
  "over_list mvrp_conditional_reclaim" mvrp_recv_cmd "''V??''" "fewer 50"
  by unfold_locales
    (use recv_cmd_total in \<open>simp_all add: mvrp_exec_def mvrp_admissible_def mvrp_handler_def mvrp_reclaim_def mvrp_recv_cmd_def [of None] c_string_def fewer_def\<close>)

lemma msrp_application:
  assumes "qsort_spec qsort"
  shows "application msrp_inv msrp_admissible (msrp_exec qsort) (\<lambda>s n buf. map_option snd (msrp_recv_msg s n buf)) msrp_handler
    (over_list msrp_conditional_reclaim) (msrp_recv_cmd qsort) ''S??'' (fewer 12)"
  by (intro application.intro msrp_event_system [OF assms] application_axioms.intro)
    (use msrp_recv_cmd_total [OF assms] in \<open>simp_all add: msrp_exec_def msrp_admissible_def msrp_handler_def msrp_reclaim_def msrp_recv_cmd_def [of qsort None]
      c_string_def fewer_def\<close>)

section \<open>The invariant\<close>

definition mrpd_inv :: "mrpd \<Rightarrow> bool" where
  "mrpd_inv d \<longleftrightarrow> mmrp_enable d = (MMRP_db d \<noteq> None) \<and> mvrp_enable d = (MVRP_db d \<noteq> None) \<and> msrp_enable d = (MSRP_db d \<noteq> None) \<and>
     pred_option mmrp_inv (MMRP_db d) \<and> pred_option mvrp_inv (MVRP_db d) \<and> pred_option msrp_inv (MSRP_db d)"

text \<open>A datagram of a client may come if it leaves room for a null character, and asks only for a table that fits into the answer.\<close>

definition control_ok :: "char datagram \<Rightarrow> mrpd \<Rightarrow> bool" where
  "control_ok = (\<lambda>(mem, m) d.
     (case m of
        None \<Rightarrow> True
      | Some t \<Rightarrow> length t < MAX_MRPD_CMDSZ \<and> (take 3 t = ''M??'' \<longrightarrow> pred_option (fewer 45) (MMRP_db d)) \<and>
          (take 3 t = ''V??'' \<longrightarrow> pred_option (fewer 50) (MVRP_db d)) \<and> (take 3 t = ''S??'' \<longrightarrow> pred_option (fewer 12) (MSRP_db d))))"

section \<open>Commands\<close>

lemma bye_inv:
  assumes "mrpd_inv d"
  shows "mrpd_inv (d\<lparr>MMRP_db := mmrp_bye (MMRP_db d) c, MVRP_db := mvrp_bye (MVRP_db d) c, MSRP_db := msrp_bye (MSRP_db d) c\<rparr>)"
  using assms mmrp_inv_env [OF _ client_env(4,3)] inv_env [OF _ client_env(4,3)] msrp_inv_env [OF _ client_env(4,3)]
  by (auto simp: mrpd_inv_def mmrp_bye_def mvrp_bye_def msrp_bye_def option.pred_map comp_def elim!: option.pred_mono_strong)

lemma process_ctl_msg_ok:
  assumes "qsort_spec qsort" "mrpd_inv d" "3 \<le> n \<longrightarrow> nat n \<le> length buf" "CHR 0x00 \<in> set buf"
    and "take 3 buf = ''M??'' \<Longrightarrow> pred_option (fewer 45) (MMRP_db d)" "take 3 buf = ''V??'' \<Longrightarrow> pred_option (fewer 50) (MVRP_db d)"
      "take 3 buf = ''S??'' \<Longrightarrow> pred_option (fewer 12) (MSRP_db d)"
  shows "\<exists>rc d'. process_ctl_msg qsort d buf n c = Some (rc, d') \<and> mrpd_inv d'"
proof (cases "n < 3")
  case True
  then show ?thesis using assms(2) by (simp add: process_ctl_msg_def)
next
  case False
  then have n: "nat n \<le> length buf" "buf \<noteq> []" using assms(3,4) by auto
  have inv: "pred_option mmrp_inv (MMRP_db d)" "pred_option mvrp_inv (MVRP_db d)" "pred_option msrp_inv (MSRP_db d)" using assms(2) by (simp_all add: mrpd_inv_def)
  obtain r1 m1 db1 where m: "mmrp_recv_cmd (MMRP_db d) buf (nat n) c = Some (r1, m1, db1)" "pred_option mmrp_inv db1" "(db1 = None) = (MMRP_db d = None)"
    using mmrp_app.cmd_db [OF inv(1) n(1) assms(4,5)] by blast
  obtain r2 m2 db2 where v: "mvrp_recv_cmd (MVRP_db d) buf (nat n) c = Some (r2, m2, db2)" "pred_option mvrp_inv db2" "(db2 = None) = (MVRP_db d = None)"
    using mvrp_app.cmd_db [OF inv(2) n(1) assms(4,6)] by blast
  obtain r3 m3 db3 where s: "msrp_recv_cmd qsort (MSRP_db d) buf (nat n) c = Some (r3, m3, db3)" "pred_option msrp_inv db3" "(db3 = None) = (MSRP_db d = None)"
    using application.cmd_db [OF msrp_application [OF assms(1)] inv(3) n(1) assms(4,7)] by blast
  have a: "mrpd_inv (answer c r e) = mrpd_inv e" for r e by (simp add: mrpd_inv_def answer_def)
  have "mrpd_inv (d\<lparr>MMRP_db := db1\<rparr>)" "mrpd_inv (d\<lparr>MVRP_db := db2\<rparr>)" "mrpd_inv (d\<lparr>MSRP_db := db3\<rparr>)" using assms(2) m(2,3) v(2,3) s(2,3) by (auto simp: mrpd_inv_def)
  then show ?thesis using False n(2) m(1) v(1) s(1) bye_inv [OF assms(2), of c] assms(2,4)
    by (simp add: process_ctl_msg_def c_assert_def respond_def c_string_def a)
qed

lemma recv_ctl_msg_ok:
  assumes "qsort_spec qsort" "mrpd_inv d" "control_ok m d"
  shows "\<exists>rc d'. recv_ctl_msg qsort m c d = Some (rc, d') \<and> mrpd_inv d'"
proof -
  obtain mem t where m: "m = (mem, t)" by (cases m)
  show ?thesis
  proof (cases "mem \<and> t \<noteq> None")
    case False
    then show ?thesis using assms(2) m by (auto simp: recv_ctl_msg_def recvmsg_def)
  next
    case True
    then obtain x where x: "t = Some x" by auto
    let ?buf = "x @ replicate (MAX_MRPD_CMDSZ - length x) (CHR 0x00)"
    have l: "length x < MAX_MRPD_CMDSZ" and few: "take 3 x = ''M??'' \<Longrightarrow> pred_option (fewer 45) (MMRP_db d)"
      "take 3 x = ''V??'' \<Longrightarrow> pred_option (fewer 50) (MVRP_db d)" "take 3 x = ''S??'' \<Longrightarrow> pred_option (fewer 12) (MSRP_db d)"
      using assms(3) m x by (simp_all add: control_ok_def)
    have r: "recvmsg MAX_MRPD_CMDSZ (CHR 0x00) t = (int (length x), ?buf)" using l x by (simp add: recvmsg_short)
    have p: "\<exists>rc d'. process_ctl_msg qsort d ?buf (int (length x)) c = Some (rc, d') \<and> mrpd_inv d'"
    proof (cases "length x < 3")
      case True
      then show ?thesis using assms(2) by (simp add: process_ctl_msg_def)
    next
      case False
      then show ?thesis using process_ctl_msg_ok [OF assms(1,2), of "int (length x)" ?buf c] l few by simp
    qed
    then show ?thesis using True assms(2) by (auto simp: m recv_ctl_msg_def r)
  qed
qed

section \<open>Rounds\<close>

text \<open>After the command of a round has been handled, each application may see its frame and its timers.\<close>

definition ready_ok :: "qsort \<Rightarrow> ready_fds \<Rightarrow> mrpd \<Rightarrow> bool" where
  "ready_ok qsort fds d \<longleftrightarrow> pred_option (\<lambda>s. all_admissible mmrp_admissible mmrp_exec s (fd_actions (mmrp_fds fds))) (MMRP_db d) \<and>
     pred_option (\<lambda>s. all_admissible mvrp_admissible mvrp_exec s (fd_actions (mvrp_fds fds))) (MVRP_db d) \<and>
     pred_option (\<lambda>s. all_admissible msrp_admissible (msrp_exec qsort) s (fd_actions (msrp_fds fds))) (MSRP_db d)"

definition round_ok :: "qsort \<Rightarrow> mrpd \<Rightarrow> ready_fds \<Rightarrow> bool" where
  "round_ok qsort d fds =
     (case control_fd fds of
        None \<Rightarrow> ready_ok qsort fds d
      | Some (m, c) \<Rightarrow> control_ok m d \<and> (case recv_ctl_msg qsort m c d of None \<Rightarrow> True | Some (rc, d) \<Rightarrow> ready_ok qsort fds d))"

lemma on_mmrp_ok:
  assumes "mrpd_inv d" "pred_option (\<lambda>s. \<exists>s'. f s = Some s' \<and> mmrp_inv s') (MMRP_db d)"
  shows "\<exists>db. on_mmrp f d = Some (d\<lparr>MMRP_db := db\<rparr>) \<and> mrpd_inv (d\<lparr>MMRP_db := db\<rparr>)"
proof (cases "MMRP_db d")
  case None
  then show ?thesis using assms(1) by (intro exI [of _ None]) (auto simp: on_mmrp_def mrpd_inv_def)
next
  case (Some s)
  then show ?thesis using assms by (auto simp: on_mmrp_def mrpd_inv_def)
qed

lemma on_mvrp_ok:
  assumes "mrpd_inv d" "pred_option (\<lambda>s. \<exists>s'. f s = Some s' \<and> mvrp_inv s') (MVRP_db d)"
  shows "\<exists>db. on_mvrp f d = Some (d\<lparr>MVRP_db := db\<rparr>) \<and> mrpd_inv (d\<lparr>MVRP_db := db\<rparr>)"
proof (cases "MVRP_db d")
  case None
  then show ?thesis using assms(1) by (intro exI [of _ None]) (auto simp: on_mvrp_def mrpd_inv_def)
next
  case (Some s)
  then show ?thesis using assms by (auto simp: on_mvrp_def mrpd_inv_def)
qed

lemma on_msrp_ok:
  assumes "mrpd_inv d" "pred_option (\<lambda>s. \<exists>s'. f s = Some s' \<and> msrp_inv s') (MSRP_db d)"
  shows "\<exists>db. on_msrp f d = Some (d\<lparr>MSRP_db := db\<rparr>) \<and> mrpd_inv (d\<lparr>MSRP_db := db\<rparr>)"
proof (cases "MSRP_db d")
  case None
  then show ?thesis using assms(1) by (intro exI [of _ None]) (auto simp: on_msrp_def mrpd_inv_def)
next
  case (Some s)
  then show ?thesis using assms by (auto simp: on_msrp_def mrpd_inv_def)
qed

lemma on_all_ok:
  assumes "mrpd_inv d" "pred_option (\<lambda>s. \<exists>s'. f s = Some s' \<and> mmrp_inv s') (MMRP_db d)"
    "pred_option (\<lambda>s. \<exists>s'. g s = Some s' \<and> mvrp_inv s') (MVRP_db d)" "pred_option (\<lambda>s. \<exists>s'. h s = Some s' \<and> msrp_inv s') (MSRP_db d)"
  shows "\<exists>d'. do { d \<leftarrow> on_mmrp f d; d \<leftarrow> on_mvrp g d; on_msrp h d } = Some d' \<and> mrpd_inv d'"
proof -
  obtain a where a: "on_mmrp f d = Some (d\<lparr>MMRP_db := a\<rparr>)" "mrpd_inv (d\<lparr>MMRP_db := a\<rparr>)" using on_mmrp_ok [OF assms(1,2)] by blast
  obtain b where b: "on_mvrp g (d\<lparr>MMRP_db := a\<rparr>) = Some (d\<lparr>MMRP_db := a, MVRP_db := b\<rparr>)" "mrpd_inv (d\<lparr>MMRP_db := a, MVRP_db := b\<rparr>)"
    using on_mvrp_ok [OF a(2), of g] assms(3) by auto
  show ?thesis using on_msrp_ok [OF b(2), of h] assms(4) a(1) b(1) by auto
qed

lemma periodic_ok:
  assumes "qsort_spec qsort" "mrpd_inv d"
  shows "\<exists>d'. do { d \<leftarrow> on_mmrp (\<lambda>s. mmrp_handler s MRP_EVENT_PERIODIC) d; d \<leftarrow> on_mvrp (\<lambda>s. mvrp_handler s MRP_EVENT_PERIODIC) d;
    on_msrp (\<lambda>s. msrp_handler s MRP_EVENT_PERIODIC) d } = Some d' \<and> mrpd_inv d'"
proof (rule on_all_ok [OF assms(2)])
  have i: "pred_option mmrp_inv (MMRP_db d)" "pred_option mvrp_inv (MVRP_db d)" "pred_option msrp_inv (MSRP_db d)" using assms(2) by (simp_all add: mrpd_inv_def)
  show "pred_option (\<lambda>s. \<exists>s'. mmrp_handler s MRP_EVENT_PERIODIC = Some s' \<and> mmrp_inv s') (MMRP_db d)"
    using i(1) mmrp_app.periodic_inv by (auto elim: option.pred_mono_strong)
  show "pred_option (\<lambda>s. \<exists>s'. mvrp_handler s MRP_EVENT_PERIODIC = Some s' \<and> mvrp_inv s') (MVRP_db d)"
    using i(2) mvrp_app.periodic_inv by (auto elim: option.pred_mono_strong)
  show "pred_option (\<lambda>s. \<exists>s'. msrp_handler s MRP_EVENT_PERIODIC = Some s' \<and> msrp_inv s') (MSRP_db d)"
    using i(3) application.periodic_inv [OF msrp_application [OF assms(1)]] by (auto elim: option.pred_mono_strong)
qed

lemma ready_inv:
  assumes "qsort_spec qsort" "mrpd_inv d" "ready_ok qsort fds d"
  shows "\<exists>d'. do { d \<leftarrow> on_mmrp (app_ready (\<lambda>s n buf. map_option snd (mmrp_recv_msg s n buf)) mmrp_handler (mmrp_fds fds)) d;
    d \<leftarrow> on_mvrp (app_ready (\<lambda>s n buf. map_option snd (mvrp_recv_msg s n buf)) mvrp_handler (mvrp_fds fds)) d;
    on_msrp (app_ready (\<lambda>s n buf. map_option snd (msrp_recv_msg s n buf)) msrp_handler (msrp_fds fds)) d } = Some d' \<and> mrpd_inv d'"
proof (rule on_all_ok [OF assms(2)])
  have i: "pred_option mmrp_inv (MMRP_db d)" "pred_option mvrp_inv (MVRP_db d)" "pred_option msrp_inv (MSRP_db d)" using assms(2) by (simp_all add: mrpd_inv_def)
  show "pred_option (\<lambda>s. \<exists>s'. app_ready (\<lambda>s n buf. map_option snd (mmrp_recv_msg s n buf)) mmrp_handler (mmrp_fds fds) s = Some s' \<and> mmrp_inv s') (MMRP_db d)"
    using i(1) assms(3) mmrp_app.app_ready_inv by (cases "MMRP_db d") (auto simp: ready_ok_def)
  show "pred_option (\<lambda>s. \<exists>s'. app_ready (\<lambda>s n buf. map_option snd (mvrp_recv_msg s n buf)) mvrp_handler (mvrp_fds fds) s = Some s' \<and> mvrp_inv s') (MVRP_db d)"
    using i(2) assms(3) mvrp_app.app_ready_inv by (cases "MVRP_db d") (auto simp: ready_ok_def)
  show "pred_option (\<lambda>s. \<exists>s'. app_ready (\<lambda>s n buf. map_option snd (msrp_recv_msg s n buf)) msrp_handler (msrp_fds fds) s = Some s' \<and> msrp_inv s') (MSRP_db d)"
    using i(3) assms(3) application.app_ready_inv [OF msrp_application [OF assms(1)]] by (cases "MSRP_db d") (auto simp: ready_ok_def)
qed

lemma daemon_periodic_inv: "mrpd_inv (snd (daemon_periodic e d)) = mrpd_inv d"
  by (simp add: daemon_periodic_def mrp_periodictimer_start_def mrpd_inv_def split: prod.split)

lemma mrpd_reclaim_inv:
  assumes "qsort_spec qsort" "mrpd_inv d"
  shows "mrpd_inv (snd (mrpd_reclaim d))"
  using assms(2) mmrp_app.reclaim_inv mvrp_app.reclaim_inv application.reclaim_inv [OF msrp_application [OF assms(1)]]
  by (auto simp: mrpd_inv_def mrpd_reclaim_def gctimer_start_def mmrp_reclaim_def mvrp_reclaim_def msrp_reclaim_def option.pred_map comp_def
      elim!: option.pred_mono_strong)

lemma mrpd_event_system:
  assumes "qsort_spec qsort"
  shows "event_system mrpd_inv (round_ok qsort) (\<lambda>d fds. events_round qsort fds d)"
proof unfold_locales
  fix d fds
  assume i: "mrpd_inv d" and ok: "round_ok qsort d fds"
  have "\<exists>d1. (case control_fd fds of None \<Rightarrow> Some d | Some (m, c) \<Rightarrow> map_option snd (recv_ctl_msg qsort m c d)) = Some d1 \<and> mrpd_inv d1 \<and> ready_ok qsort fds d1"
  proof (cases "control_fd fds")
    case None
    then show ?thesis using i ok by (simp add: round_ok_def)
  next
    case (Some x)
    obtain m c where x: "x = (m, c)" by (cases x)
    then have "control_ok m d" using ok Some by (simp add: round_ok_def)
    from recv_ctl_msg_ok [OF assms i this, of c] show ?thesis using ok Some x by (auto simp: round_ok_def)
  qed
  then obtain d1 where d1: "(case control_fd fds of None \<Rightarrow> Some d | Some (m, c) \<Rightarrow> map_option snd (recv_ctl_msg qsort m c d)) = Some d1"
    "mrpd_inv d1" "ready_ok qsort fds d1" by blast
  obtain d2 where d2: "do { d \<leftarrow> on_mmrp (app_ready (\<lambda>s n buf. map_option snd (mmrp_recv_msg s n buf)) mmrp_handler (mmrp_fds fds)) d1;
    d \<leftarrow> on_mvrp (app_ready (\<lambda>s n buf. map_option snd (mvrp_recv_msg s n buf)) mvrp_handler (mvrp_fds fds)) d;
    on_msrp (app_ready (\<lambda>s n buf. map_option snd (msrp_recv_msg s n buf)) msrp_handler (msrp_fds fds)) d } = Some d2" "mrpd_inv d2"
    using ready_inv [OF assms d1(2,3)] by blast
  let ?p = "snd (daemon_periodic MRP_EVENT_PERIODIC d2)"
  obtain d3 where d3: "do { d \<leftarrow> on_mmrp (\<lambda>s. mmrp_handler s MRP_EVENT_PERIODIC) ?p; d \<leftarrow> on_mvrp (\<lambda>s. mvrp_handler s MRP_EVENT_PERIODIC) d;
    on_msrp (\<lambda>s. msrp_handler s MRP_EVENT_PERIODIC) d } = Some d3" "mrpd_inv d3"
    using periodic_ok [OF assms, of ?p] d2(2) by (auto simp: daemon_periodic_inv)
  have r: "mrpd_inv (if gc_fd fds then snd (mrpd_reclaim x) else x)" if "mrpd_inv x" for x using mrpd_reclaim_inv [OF assms that] that by simp
  have "events_round qsort fds d = (if periodic_fd fds then Some (if gc_fd fds then snd (mrpd_reclaim d3) else d3)
      else Some (if gc_fd fds then snd (mrpd_reclaim d2) else d2))"
    using d1(1) d2(1) d3(1) unfolding events_round_def by (auto simp: bind_eq_Some_conv Let_def)
  then show "\<exists>d'. events_round qsort fds d = Some d' \<and> mrpd_inv d'" using r [OF d2(2)] r [OF d3(2)] by simp
qed

text \<open>The loop runs until \<open>select\<close> fails.\<close>

lemma events_loop_run:
  "events_loop qsort rs d = exec_run (\<lambda>d fds. events_round qsort fds d) d (map the (takeWhile (\<lambda>r. r \<noteq> None) rs))"
proof (induction qsort rs d rule: events_loop.induct)
  case (3 qsort fds rs d)
  then show ?case by (cases "events_round qsort fds d") auto
qed auto

lemma init_result:
  "mmrp_init e sock timers env1 = (0, k, m) \<Longrightarrow> (m \<noteq> None) = e \<and> k = e"
  "mvrp_init e sock timers env2 = (0, k, v) \<Longrightarrow> (v \<noteq> None) = e \<and> k = e"
  "msrp_init e n p sock timers env3 = (0, k, s) \<Longrightarrow> (s \<noteq> None) = e \<and> k = e"
  by (auto simp: mmrp_init_def mvrp_init_def msrp_init_def Let_def split: if_splits prod.splits)

lemma mrpd_main_inv:
  assumes "mrpd_main opts env = (0, Some d)" "timers_ok (mmrp_env env)" "timers_ok (mvrp_env env)" "timers_ok (msrp_env env)"
  shows "mrpd_inv d"
proof -
  obtain r1 k1 m where m: "mmrp_init (opt_m opts) (fst (mmrp_rc env)) (snd (mmrp_rc env)) (mmrp_env env) = (r1, k1, m)" using prod_cases3 by blast
  obtain r2 k2 v where v: "mvrp_init (opt_v opts) (fst (mvrp_rc env)) (snd (mvrp_rc env)) (mvrp_env env) = (r2, k2, v)" using prod_cases3 by blast
  obtain r3 k3 s where s: "msrp_init (opt_s opts) MSRP_INTERESTING_STREAM_ID_COUNT (opt_p opts) (fst (msrp_rc env)) (snd (msrp_rc env)) (msrp_env env) = (r3, k3, s)"
    using prod_cases3 by blast
  have z: "r1 = 0" "r2 = 0" "r3 = 0" and d: "mmrp_enable d = opt_m opts" "mvrp_enable d = opt_v opts" "msrp_enable d = opt_s opts"
    "MMRP_db d = m" "MVRP_db d = v" "MSRP_db d = s"
    using assms(1) m v s by (auto simp: mrpd_main_def init_timers_def gctimer_start_def Let_def split: if_splits prod.splits)
  have "(m \<noteq> None) = opt_m opts \<and> pred_option mmrp_inv m"
    using init_result(1) [OF m [unfolded z]] mmrp_init_inv(1) [OF _ assms(2)] m z(1) by (cases "opt_m opts") auto
  moreover have "(v \<noteq> None) = opt_v opts \<and> pred_option mvrp_inv v"
    using init_result(2) [OF v [unfolded z]] init_inv [OF _ assms(3)] v z(2) by (cases "opt_v opts") auto
  moreover have "(s \<noteq> None) = opt_s opts \<and> pred_option msrp_inv s"
    using init_result(3) [OF s [unfolded z]] msrp_init_inv [OF _ assms(4)] s z(3) by (cases "opt_s opts") auto
  ultimately show ?thesis using d by (auto simp: mrpd_inv_def)
qed

end
