(* ===== verification/Mrpd_Properties.thy ===== *)
theory Mrpd_Properties
  imports Mrpd_Safety Mvrp_Properties Mmrp_Properties Msrp_Properties
begin

text \<open>
  The properties of the daemon: no run of its loop leaves a buffer, a client that leaves is forgotten
  everywhere, and two daemons on a link agree about a stream.
\<close>

section \<open>Runs\<close>



definition no_fds :: app_fds where
  "no_fds = \<lparr>socket_fd = None, lva_fd = False, lv_fd = False, join_fd = False\<rparr>"

definition nothing_ready :: ready_fds where
  "nothing_ready = \<lparr>control_fd = None, mmrp_fds = no_fds, mvrp_fds = no_fds, msrp_fds = no_fds, periodic_fd = False, gc_fd = False\<rparr>"


definition sample_client :: sockaddr_in where
  "sample_client = \<lparr>sin_family = 2, sin_port = 7, sin_addr = 1, sin_zero = []\<rparr>"


section \<open>Clients\<close>

lemma client_delete_remove: "distinct xs \<Longrightarrow> client_delete xs c = removeAll c xs"
  by (induction xs) auto

text \<open>What is left of an application for a client that leaves.\<close>

definition forgets :: "sockaddr_in \<Rightarrow> ('v, 'z) app option \<Rightarrow> ('v, 'z) app option \<Rightarrow> bool" where
  "forgets c db db' \<longleftrightarrow> rel_option (\<lambda>s s'. clients (mrp_db s') = removeAll c (clients (mrp_db s)) \<and> attrib_list s' = attrib_list s \<and> ctl s' = ctl s) db db'"

definition clients_distinct :: "('v, 'z) app option \<Rightarrow> bool" where
  "clients_distinct db \<longleftrightarrow> pred_option (\<lambda>s. distinct (clients (mrp_db s))) db"

lemma drop_client_forgets: "clients_distinct db \<Longrightarrow> forgets c db (map_option (\<lambda>s. drop_client s c) db)"
  by (cases db) (simp_all add: forgets_def clients_distinct_def drop_client_def mrp_client_delete_def client_delete_remove)

text \<open>
  Property C32.  A client that says goodbye is forgotten by all applications: it is in none of their lists of clients any more, the other
  clients stay, the attributes that it declared stay, and nothing is sent.
\<close>

theorem mrpd_bye:
  assumes "clients_distinct (MMRP_db d)" "clients_distinct (MVRP_db d)" "clients_distinct (MSRP_db d)"
    and "3 \<le> length t" "length t \<le> MAX_MRPD_CMDSZ" "hd t = CHR ''B''"
  shows "\<exists>d'. recv_ctl_msg qsort (True, Some t) c d = Some (-1, d') \<and> forgets c (MMRP_db d) (MMRP_db d') \<and> forgets c (MVRP_db d) (MVRP_db d') \<and>
    forgets c (MSRP_db d) (MSRP_db d') \<and> responses d' = responses d"
proof -
  let ?d = "d\<lparr>MMRP_db := mmrp_bye (MMRP_db d) c, MVRP_db := mvrp_bye (MVRP_db d) c, MSRP_db := msrp_bye (MSRP_db d) c\<rparr>"
  let ?buf = "t @ replicate (MAX_MRPD_CMDSZ - length t) (CHR 0x00)"
  have t: "t \<noteq> []" using assms(4) by auto
  then have "hd ?buf = CHR ''B''" using assms(6) by simp
  then have "process_ctl_msg qsort d ?buf (int (length t)) c = Some (0, ?d)" using assms(4) t by (simp add: process_ctl_msg_def c_assert_def)
  then have "recv_ctl_msg qsort (True, Some t) c d = Some (-1, ?d)" using t by (simp add: recv_ctl_msg_def recvmsg_short [OF assms(5)])
  moreover have "forgets c (MMRP_db d) (MMRP_db ?d)" "forgets c (MVRP_db d) (MVRP_db ?d)" "forgets c (MSRP_db d) (MSRP_db ?d)"
    using drop_client_forgets assms(1-3) by (simp_all add: mmrp_bye_def mvrp_bye_def msrp_bye_def)
  ultimately show ?thesis by auto
qed

definition sample_daemon :: "u8 \<Rightarrow> msrp_attribute list \<Rightarrow> mrpd" where
  "sample_daemon n as = \<lparr>mmrp_enable = True, mvrp_enable = False, msrp_enable = True, MMRP_db = Some (add_client (sample_mmrp n False []) sample_client),
     MVRP_db = None, MSRP_db = Some (sample_msrp n False as), mrp_periodic_state = MRP_TIMER_ACTIVE, started = [], responses = []\<rparr>"

theorem mrpd_bye_witness:
  "\<exists>d'. recv_ctl_msg (sort_key eui64) (True, Some ''BYE'') sample_client (sample_daemon 1 []) = Some (-1, d') \<and>
    map_option (\<lambda>s. clients (mrp_db s)) (MMRP_db (sample_daemon 1 [])) = Some [sample_client] \<and>
    map_option (\<lambda>s. clients (mrp_db s)) (MMRP_db d') = Some []"
proof -
  have c: "clients (mrp_db (add_client (sample_mmrp 1 False []) sample_client)) = [sample_client]"
    by (simp add: add_client_def sample_mmrp_def mrpd_malloc_def mrp_client_add_def)
  have "clients_distinct (MMRP_db (sample_daemon 1 []))" "clients_distinct (MVRP_db (sample_daemon 1 []))" "clients_distinct (MSRP_db (sample_daemon 1 []))"
    using c by (simp_all add: sample_daemon_def clients_distinct_def sample_msrp_def)
  from mrpd_bye [OF this, of "''BYE''" "sort_key eui64" sample_client] show ?thesis
    using c by (auto simp: forgets_def sample_daemon_def MAX_MRPD_CMDSZ_def option_rel_Some1)
qed

text \<open>
  A datagram that fills the buffer has no terminator: if it holds no null character and no known command, the code that answers
  reads behind the buffer.
\<close>

lemma long_datagram_overread:
  assumes "MAX_MRPD_CMDSZ \<le> length t" "CHR 0x00 \<notin> set (take MAX_MRPD_CMDSZ t)" "hd t \<notin> set ''MVSIB''"
  shows "recv_ctl_msg qsort (True, Some t) c d = None"
proof -
  have "recvmsg MAX_MRPD_CMDSZ (CHR 0x00) (Some t) = (int MAX_MRPD_CMDSZ, take MAX_MRPD_CMDSZ t)" using assms(1) by (simp add: recvmsg_def)
  moreover have "hd (take MAX_MRPD_CMDSZ t) = hd t" "t \<noteq> []" using assms(1) by (auto simp: MAX_MRPD_CMDSZ_def)
  ultimately show ?thesis using assms(2,3) by (simp add: recv_ctl_msg_def process_ctl_msg_def c_assert_def respond_def c_string_def MAX_MRPD_CMDSZ_def)
qed

section \<open>Two daemons\<close>

lemma msrp_round:
  assumes "msrp_enable d" "MSRP_db d = Some s" "mmrp_enable d \<longrightarrow> MMRP_db d \<noteq> None" "mvrp_enable d \<longrightarrow> MVRP_db d \<noteq> None"
    and "app_ready (\<lambda>s n buf. map_option snd (msrp_recv_msg s n buf)) msrp_handler fds s = Some s'"
  shows "events_round qsort (nothing_ready\<lparr>msrp_fds := fds\<rparr>) d = Some (d\<lparr>MSRP_db := Some s'\<rparr>)"
proof -
  have idle: "app_ready recv handler no_fds u = Some u" for recv handler and u :: 'u by (simp add: app_ready_def no_fds_def)
  have "on_mmrp (app_ready recv handler no_fds) d = Some d" "on_mvrp (app_ready recv' handler' no_fds) d = Some d" for recv handler recv' handler'
    using assms(3,4) by (auto simp: on_mmrp_def on_mvrp_def idle)
  then show ?thesis using assms(1,2,5) by (simp add: events_round_def nothing_ready_def on_msrp_def)
qed

text \<open>
  Property C15.  A stream goes from daemon to daemon: if a talker, a listener or a domain of the stream database of one daemon is declared and not quiet,
  then the round of its loop in which the join timer expires sends a frame; and a daemon whose socket delivers this frame has the
  attribute registered after its round, with the address of the sender, and its other databases are as before.
\<close>

theorem daemons_agree:
  assumes "mrpd_inv d" "MSRP_db d = Some s" "plenty s" "length (station s) = 6" "length (attrib_list s) \<le> 49"
    and "\<not> t_tx (lva (mrp_db s))" "\<not> send_empty_LeaveAll_flag s" "\<forall>b\<in>set (attrib_list s). s_type b = MSRP_LISTENER_TYPE \<longrightarrow> substate b < 4"
    and "a \<in> set (attrib_list s)" "anxious (a_state (applicant a))" "s_type a = MSRP_LISTENER_TYPE \<longrightarrow> substate a \<noteq> MSRP_LISTENER_IGNORE"
    and "mrpd_inv e" "MSRP_db e = Some t" "open_ears t" "absent a t"
  shows "\<exists>d' s' f e' t'. events_round qsort (nothing_ready\<lparr>msrp_fds := no_fds\<lparr>join_fd := True\<rparr>\<rparr>) d = Some d' \<and> MSRP_db d' = Some s' \<and> frames s' = frames s @ [f] \<and>
    events_round qsort (nothing_ready\<lparr>msrp_fds := no_fds\<lparr>socket_fd := Some (True, Some f)\<rparr>\<rparr>) e = Some e' \<and> MSRP_db e' = Some t' \<and>
    known (station s) a t' \<and> MMRP_db e' = MMRP_db e \<and> MVRP_db e' = MVRP_db e"
proof -
  have "msrp_inv s" using assms(1,2) by (simp add: mrpd_inv_def)
  from msrp_station_knows [OF this assms(3-11,14,15)] obtain s' f t' where x: "msrp_event s MRP_EVENT_TX None = Some (0, s')" "frames s' = frames s @ [f]"
    "msrp_recv_msg t (int (length f)) (in_buffer f) = Some (0, t')" "known (station s) a t'" "length f \<le> MAX_FRAME_SIZE" by blast
  have ne: "f \<noteq> []" using x(3) by (auto simp: msrp_recv_msg_def)
  then have "mrpd_recvmsgbuf (True, Some f) = (int (length f), in_buffer f)" using x(5) by (simp add: mrpd_recvmsgbuf_def recvmsg_short in_buffer_def)
  then have r: "app_ready (\<lambda>s n buf. map_option snd (msrp_recv_msg s n buf)) msrp_handler (no_fds\<lparr>socket_fd := Some (True, Some f)\<rparr>) t = Some t'"
    using x(3) by (simp add: app_ready_def no_fds_def)
  have q: "app_ready (\<lambda>s n buf. map_option snd (msrp_recv_msg s n buf)) msrp_handler (no_fds\<lparr>join_fd := True\<rparr>) s = Some s'"
    using x(1) by (simp add: app_ready_def no_fds_def msrp_handler_def)
  have on: "msrp_enable x \<and> (mmrp_enable x \<longrightarrow> MMRP_db x \<noteq> None) \<and> (mvrp_enable x \<longrightarrow> MVRP_db x \<noteq> None)" if "mrpd_inv x" "MSRP_db x = Some u" for x u
    using that by (auto simp: mrpd_inv_def)
  have "events_round qsort (nothing_ready\<lparr>msrp_fds := no_fds\<lparr>join_fd := True\<rparr>\<rparr>) d = Some (d\<lparr>MSRP_db := Some s'\<rparr>)"
    using msrp_round [OF _ assms(2) _ _ q] on [OF assms(1,2)] by blast
  moreover have "events_round qsort (nothing_ready\<lparr>msrp_fds := no_fds\<lparr>socket_fd := Some (True, Some f)\<rparr>\<rparr>) e = Some (e\<lparr>MSRP_db := Some t'\<rparr>)"
    using msrp_round [OF _ assms(13) _ _ r] on [OF assms(12,13)] by blast
  ultimately show ?thesis using x(2,4) by auto
qed

lemma sample_daemon_inv:
  assumes "shaped as" "list_all attr_ok as" "\<forall>a\<in>set as. \<not> leaving a"
  shows "mrpd_inv (sample_daemon n as)"
proof -
  have "mmrp_inv (add_client (sample_mmrp n False []) sample_client)" using mmrp_inv_env [OF sample_mmrp_empty client_env(2)] by simp
  then show ?thesis using sample_msrp_inv [OF assms] by (simp add: mrpd_inv_def sample_daemon_def)
qed

theorem daemons_agree_witness:
  "\<exists>d' s' f e' t'. events_round (sort_key eui64) (nothing_ready\<lparr>msrp_fds := no_fds\<lparr>join_fd := True\<rparr>\<rparr>)
      (sample_daemon 1 [sample_talker MSRP_TALKER_ADV_TYPE MRP_VN_STATE]) = Some d' \<and> MSRP_db d' = Some s' \<and> frames s' = [f] \<and>
    events_round (sort_key eui64) (nothing_ready\<lparr>msrp_fds := no_fds\<lparr>socket_fd := Some (True, Some f)\<rparr>\<rparr>) (sample_daemon 2 []) = Some e' \<and>
    MSRP_db e' = Some t' \<and> known [1, 0, 0, 0, 0, 1] (sample_talker MSRP_TALKER_ADV_TYPE MRP_VN_STATE) t'"
proof -
  let ?a = "sample_talker MSRP_TALKER_ADV_TYPE MRP_VN_STATE" and ?e = "sample_daemon 2 []" and ?t = "sample_msrp 2 False []"
  let ?d = "sample_daemon 1 [?a]" and ?s = "sample_msrp 1 False [?a]"
  have i: "mrpd_inv ?d" "mrpd_inv ?e" "msrp_inv ?t" by (rule sample_daemon_inv sample_msrp_inv; simp add: shaped_def sample_talker_ok state_sets)+
  have o: "open_ears ?t" "absent ?a ?t" using i(3) by (simp_all add: open_ears_def absent_def)
  have a: "anxious (a_state (applicant ?a))" "s_type ?a = MSRP_TALKER_ADV_TYPE" by (simp_all add: sample_talker_def anxious_def state_sets)
  have db: "MSRP_db ?d = Some ?s" "MSRP_db ?e = Some ?t" by (simp_all add: sample_daemon_def)
  have s: "plenty ?s" "length (station ?s) = 6" "length (attrib_list ?s) \<le> 49" "\<not> t_tx (lva (mrp_db ?s))" "\<not> send_empty_LeaveAll_flag ?s"
    "\<forall>b\<in>set (attrib_list ?s). s_type b = MSRP_LISTENER_TYPE \<longrightarrow> substate b < 4" "?a \<in> set (attrib_list ?s)" using a by simp_all
  have "s_type ?a = MSRP_LISTENER_TYPE \<longrightarrow> substate ?a \<noteq> MSRP_LISTENER_IGNORE" using a(2) by simp
  from daemons_agree [OF i(1) db(1) s a(1) this i(2) db(2) o, of "sort_key eui64"] show ?thesis by auto
qed

end
