(* ===== verification/Spec2Isabelle.thy ===== *)
theory Spec2Isabelle
  imports Maap_Properties Maap_Parse Mvrp_Properties Mmrp_Properties Msrp_Properties Mrpd_Properties
begin

text \<open>
  Verification of the AVB daemons of avb4linux (\<open>src/daemons\<close>).

  \<^bold>\<open>The program.\<close>  The repository holds the daemons of an audio-video bridging end station: the
  multicast address allocation protocol (MAAP, \<open>maap/\<close>), the multiple registration protocol (MRP,
  \<open>mrpd/\<close>) with its applications for VLANs (MVRP), MAC addresses (MMRP) and streams (MSRP), a time
  daemon (gPTP, C++), a traffic shaper, a network driver and client tools.  The MAAP daemon keeps a
  tree of address intervals (\<open>intervals.c\<close>), a client with its ranges, timers and notifications
  (\<open>maap.c\<close>), a pool of packet buffers (\<open>maap_net.c\<close>) and the packet codec (\<open>maap_packet.c\<close>).
  The MRP daemon drives, per attribute, an applicant and a registrar machine (\<open>mrp.c\<close>) from an application
  (\<open>mvrp.c\<close>, \<open>mmrp.c\<close>, \<open>msrp.c\<close>) that keeps the attributes, encodes and decodes frames, and answers commands, which are parsed by
  \<open>common/parse.c\<close>.  Its event loop (\<open>mrpd.c\<close>) waits for the control socket, the sockets and the timers and calls the
  applications.  \<open>common/eui64set.c\<close> is the table of interesting streams.

  \<^bold>\<open>Conventions\<close> (theory \<^verbatim>\<open>Avb_Prelude\<close>).  Integers keep their width as words where the code relies on it.  An
  operation that can run into undefined behaviour, a failed assertion or an endless loop has an option
  type, and \<open>None\<close> stands for exactly that; a theorem that the result is \<open>Some\<close> therefore shows memory safety and
  termination.  The answers of the environment - \<open>malloc\<close>, \<open>random\<close>, the clock, the timers, \<open>send\<close> - are
  functions in the state with a position, and the calls that leave the program (packets, timer calls,
  control messages, notifications) are recorded in order.  Loops are structural or have a
  termination proof; those whose end depends on the state are partial functions into the option type, without fuel, and
  the theorems about them show that they return.  The thousand draws of \<open>assign_interval\<close> and the sanity check of the timer
  queue count down as in the code.  Times are pairs of unbounded integers: \<open>time_t\<close> and \<open>long\<close> do not
  wrap in the model, and no overflow of the clock is considered.

  \<^bold>\<open>MAAP.\<close>
  \<^item> \<^verbatim>\<open>Intervals\<close>, \<^verbatim>\<open>Interval_Tree\<close>, \<^verbatim>\<open>Interval_Store\<close>: \<open>intervals.c\<close> on a heap of nodes with parent pointers; a
    representation predicate relates the heap to a sorted list of disjoint intervals; insertion, search,
    removal and traversal implement the operations of that list, stated as a locale.
  \<^item> \<^verbatim>\<open>Maap_Packet\<close>: \<open>maap_packet.c\<close>, round trips of packing and unpacking, the comparison of addresses.
  \<^item> \<^verbatim>\<open>Maap_Net\<close>, \<^verbatim>\<open>Maap_Time\<close>: the buffer pool of \<open>maap_net.c\<close> with the loop of the daemon that empties it, and the time
    arithmetic of \<open>maap_timer_linux.c\<close>.
  \<^item> \<^verbatim>\<open>Maap_Client\<close>: \<open>maap.c\<close>, one definition per function, over a record with the interval heap, the range heap, the
    timer queue, the buffers and the notifications.
  \<^item> \<^verbatim>\<open>Maap_Invariant\<close>, \<^verbatim>\<open>Maap_Steps\<close>, \<^verbatim>\<open>Maap_Safety\<close>, \<^verbatim>\<open>Maap_Packets\<close>, \<^verbatim>\<open>Maap_Timers\<close>, \<^verbatim>\<open>Maap_Lifecycle\<close>, \<^verbatim>\<open>Maap_Conflict\<close>,
    \<^verbatim>\<open>Maap_Scenarios\<close>: the invariant of the client and that every operation keeps it; \<^verbatim>\<open>Maap_Properties\<close> states
    what reservations, releases, conflicts, timers and the end of a client do - the block a reservation must find
    (\<open>chosen\<close>), who gives way in a conflict and where to, that every probing range acquires its block if nobody objects -
    that no admissible run crashes or makes two blocks overlap, and three situations in which the code goes wrong.  A run is
    admissible as long as the search for a free block does not succeed exactly with its last draw, preferred blocks do not wrap around
    the address space, lengths are positive, ids are left and the queue has at most 50000 ranges; the first two conditions are necessary.

  \<^item> \<^verbatim>\<open>Maap_Parse\<close>: \<open>maap_parse.c\<close>, commands as text and as structures, with \<open>strtok\<close> and \<open>strtoul\<close>, and that both have the
    same effect.  The structure has the layout of 64-bit little-endian Linux.

  \<^bold>\<open>MRP.\<close>
  \<^item> \<^verbatim>\<open>Mrp\<close>: \<open>mrp.c\<close>, the applicant (one function per event of the big switch), the registrar, the leave-all and
    periodic machines, the timers, the clients and the report of states.  \<^verbatim>\<open>Mrp_Machines\<close>: the applicant
    implements an abstract declaration, becomes quiet, withdraws once; leave-all is sent once per expiry.
  \<^item> \<^verbatim>\<open>Parse\<close>: \<open>common/parse.c\<close> with the conversions of \<open>sscanf\<close>, that it reads what \<open>printf\<close> wrote, and that its values have
    the types that the command asks for.
  \<^item> \<^verbatim>\<open>Mrp_Application\<close>: what \<open>mvrp.c\<close>, \<open>mmrp.c\<close> and \<open>msrp.c\<close> have in common - the attributes with their two machines, passes over the
    list, notifications, reclaiming, clients, the packing of events - as definitions over an attribute record that each application
    extends.  The doubly linked list is a list; the loops over it take the body as an argument.  \<^verbatim>\<open>Mrp_Codec\<close>: packing
    and unpacking of three events and of vector headers; the receiving loop over the bytes of a vector is a locale, interpreted on
    those of \<open>mvrp.c\<close> and \<open>mmrp.c\<close>.  \<^verbatim>\<open>Mrp_Passes\<close>: the invariant that the applications share; the
    contract of the loops over the list is a locale, interpreted on each loop body of the code.  \<^verbatim>\<open>Mrp_Stations\<close>: what one
    attribute does on transmission and on reception, and the actions of a run.

  \<^bold>\<open>MVRP.\<close>
  \<^item> \<^verbatim>\<open>Mvrp\<close>: \<open>mvrp.c\<close>, the sorted list of attributes, all events, emission and reception of frames, notifications and commands.
  \<^item> \<^verbatim>\<open>Mvrp_Codec\<close>: an abstract message between encoder and decoder, and that both agree on it.
    At most 390 marked attributes fit into a frame of 2000 bytes, as each takes at most five bytes.
  \<^item> \<^verbatim>\<open>Mvrp_Invariant\<close>: the invariant of the database.  \<^verbatim>\<open>Mvrp_Safety\<close>: reception and commands stay within their buffers; a frame
    of at most 1996 bytes is safe because the decoder reads up to four bytes behind the frame and its buffer has 2000.
    Runs are an instance of the locale of \<^verbatim>\<open>Event_System\<close>, as are those of MMRP, MSRP and of the MAAP client.
  \<^item> \<^verbatim>\<open>Mvrp_Stations\<close>, \<^verbatim>\<open>Mvrp_Properties\<close>: two stations on a link, and the properties with their witnesses.

  \<^bold>\<open>MMRP.\<close>
  \<^item> \<^verbatim>\<open>Mmrp\<close>: \<open>mmrp.c\<close>, the list that is sorted within each of two types, all events, the two encoders and the decoder, whose two branches
    are one definition over the type.  The encoder of service requirements packs array elements that it has not set; they are a
    parameter in the state.  \<^verbatim>\<open>Mmrp_Commands\<close>: the commands, the table, \<open>mmrp_init\<close> and \<open>mmrp_bye\<close>.
  \<^item> \<^verbatim>\<open>Mmrp_Invariant\<close>, \<^verbatim>\<open>Mmrp_Codec\<close>, \<^verbatim>\<open>Mmrp_Safety\<close>: the invariant (the values of a type stand together, ascending and distinct), the vectors of
    consecutive addresses that the encoder writes, and that events, reception and commands stay within their buffers.  At most 218 attributes
    are shown to fit, as each takes at most nine bytes; a received frame may have at most 1992 bytes, as up to eight are read behind it; the table
    holds 44 lines of at most 34 characters.
  \<^item> \<^verbatim>\<open>Mmrp_Stations\<close>, \<^verbatim>\<open>Mmrp_Properties\<close>: two stations for MAC addresses, the properties, and two situations in which the code goes wrong: service
    requirements are decoded from another byte than they are encoded to, and a leave-all is repeated in every vector.

  \<^bold>\<open>MSRP.\<close>
  \<^item> \<^verbatim>\<open>Eui64_Set\<close>: \<open>eui64set.c\<close>, the table of interesting streams; \<open>qsort\<close> is a parameter that sorts, \<open>bsearch\<close> is a definition.
  \<^item> \<^verbatim>\<open>Msrp_Data\<close>: the attributes of \<open>msrp.h\<close> with lookup, insertion and merging, notifications.  \<^verbatim>\<open>Msrp_Emit\<close>: the three
    encoders, which are one loop with different first values, and \<open>msrp_txpdu\<close>.  \<^verbatim>\<open>Msrp\<close>: \<open>msrp_event\<close> and \<open>msrp_recv_msg\<close>,
    whose four branches are one definition over the attribute type, with the four-packed listener states.  \<^verbatim>\<open>Msrp_Commands\<close>:
    parsing, the commands, \<open>msrp_init\<close> and \<open>msrp_bye\<close>.
  \<^item> \<^verbatim>\<open>Msrp_Invariant\<close>, \<^verbatim>\<open>Msrp_Receive\<close>, \<^verbatim>\<open>Msrp_Safety\<close>: the invariant (distinct keys, lengths of identifiers, machines in their
    own states, a sorted table), reception and commands within their buffers, runs.  A received frame may have at most 1960 bytes because a
    first value of up to 34 bytes is read before its vector is tested against the end.  A transmission is shown safe
    for at most 49 attributes, as each takes at most 37 bytes of the 1985 behind the headers, and a message needs at most 46 more; the guards of the encoders do not suffice beyond
    that, which \<open>msrp_emit_overflow\<close> shows.
  \<^item> \<^verbatim>\<open>Msrp_Codec\<close>, \<^verbatim>\<open>Msrp_Frames\<close>: the abstract frame that the encoder writes, and what a station that receives it does.
  \<^item> \<^verbatim>\<open>Msrp_Stations\<close>, \<^verbatim>\<open>Msrp_Declare\<close>, \<^verbatim>\<open>Msrp_Properties\<close>: two stations, the command that announces a stream, and the properties.

  \<^bold>\<open>The MRP daemon.\<close>
  \<^item> \<^verbatim>\<open>Mrpd\<close>: \<open>mrpd.c\<close>, the control messages, the receive buffers, the periodic and the collecting timer, \<open>process_events\<close> and the
    initialisation in \<open>main\<close>.  What \<open>select\<close> reports and what the sockets deliver is given per round.
  \<^item> \<^verbatim>\<open>Mrpd_Safety\<close>: the contract of an application towards the daemon is a locale that extends the one of runs, interpreted on the three
    applications; the daemon keeps all their invariants.  \<^verbatim>\<open>Mrpd_Properties\<close>: runs of the loop, the end of a client, and two
    daemons on a link.

  This theory adds the properties that span the parser, the databases, the machines and the frames.

  \<^bold>\<open>Not modelled.\<close>  The logs and debug strings, \<open>print_notify\<close>, \<open>parse_usage\<close>, \<open>mvrp_reset\<close>, \<open>mmrp_reset\<close>, \<open>msrp_reset\<close> and
  \<open>eui64set_free\<close> (release of storage when a daemon ends), sockets, threads, signals and the option parsing of the daemons (operating
  system), the variant of the MRP daemon for Windows, the shaper (it calls \<open>tc\<close> through the shell), the gPTP daemon (C++), the network driver (register access), and
  the tools.  The memory of the MRP applications is modelled up to their lists and buffers, so a double free or
  a dangling attribute would not be seen there; the MAAP client has explicit heaps.
\<close>

section \<open>From a client to the neighbouring station\<close>

text \<open>The command by which a client declares a VID, as it lies in the receive buffer.\<close>

definition new_command :: "u16 \<Rightarrow> string" where
  "new_command v = ''V++:I='' @ zero_padded 4 (print_base 16 (unat v)) @ [CHR 0x00]"

lemma length_new_command: "length (new_command v) = 11"
proof -
  have "unat v < 16 ^ 4" using unsigned_less [of v, where 'a = nat] by simp
  then show ?thesis using print_base_length [of "unat v" 16 4] by (simp add: new_command_def zero_padded_def)
qed

lemma parse_new_command: "mvrp_cmd_parse_vid (new_command v) 11 = Some (0, v, new_command v)"
proof -
  let ?q = "\<lparr>pname = ''I='', ptype = parse_u16_04x\<rparr>"
  have b: "new_command v = ''V++:'' @ join_fields [(?q, V_u16 v)] @ CHR 0x00 # []"
    by (simp add: new_command_def print_value_def)
  have "length (join_fields [(?q, V_u16 v)]) = 6" using length_new_command [of v] unfolding b by simp
  then have "parse (new_command v) 4 7 [?q] = Some (0, Some 0, [V_u16 v], new_command v)"
    using parse_joined [of "[(?q, V_u16 v)]" 7 "[]" "''V++:''"] unfolding b by (simp add: value_of_type_def numeral_eq_Suc del: join_fields.simps)
  then show ?thesis by (simp add: mvrp_cmd_parse_vid_def)
qed

lemma new_command_declares:
  assumes "mvrp_inv s" "plenty s"
  shows "\<exists>s'. mvrp_recv_cmd (Some s) (new_command v) 11 c = Some (0, [], Some s') \<and> mvrp_inv s' \<and> same_env s s' \<and>
    (\<exists>a\<in>set (attrib_list s'). wants v a) \<and> attribute ` set (attrib_list s') \<subseteq> insert v (attribute ` set (attrib_list s))"
proof -
  let ?s = "add_client s c"
  have i: "mvrp_inv ?s" "plenty ?s" "attrib_list ?s = attrib_list s" "same_env s ?s"
    using add_client_ok [of s c] client_env(1) [of s c] assms by (simp_all add: add_client_def plenty_def mrpd_malloc_def Let_def same_env_def)
  obtain a t where al: "mvrp_alloc ?s = (Some a, t)" using i(2) by (simp add: mvrp_alloc_def mrpd_malloc_def plenty_def)
  note t = alloc_inv [OF i(1) al] alloc_env [OF al]
  let ?r = "a\<lparr>attribute := v\<rparr>"
  note o = event_new_ok [OF t(1) alloc_fresh(1) [OF al], of v]
  have "mvrp_cmd_vid ?s v MRP_EVENT_NEW = (0, snd (mvrp_event t MRP_EVENT_NEW (Some ?r)))" by (simp add: mvrp_cmd_vid_def al)
  then have "mvrp_recv_cmd (Some s) (new_command v) 11 c = Some (0, [], Some (snd (mvrp_event t MRP_EVENT_NEW (Some ?r))))"
    using parse_new_command [of v] by (simp add: mvrp_recv_cmd_def Let_def) (simp add: new_command_def)
  moreover have "same_env s (snd (mvrp_event t MRP_EVENT_NEW (Some ?r)))" using i(4) t(2) o(2) same_env_trans by blast
  ultimately show ?thesis using o(1,3,4) i(3) t(2) by simp
qed

text \<open>
  Property C10.  From a client to the neighbouring station: the command of a client that declares a VID is
  parsed and accepted; at the next transmission opportunity the station sends a frame; and the neighbour that receives it
  has the VID registered with the address of the station.  The property spans the
  command parser, the database, the applicant and registrar machines, and the encoding
  and decoding of frames.
\<close>

theorem command_reaches_neighbour:
  assumes "mvrp_inv s" "plenty s" and "length (station s) = 6" and "length (attrib_list s) < 390"
    and "\<forall>a\<in>set (attrib_list s). attribute a \<le> 0xFFF" and "v \<le> 0xFFF" and "mvrp_inv t" "plenty t"
  shows "\<exists>s' f t'. mvrp_recv_cmd (Some s) (new_command v) 11 c = Some (0, [], Some s') \<and>
    frames (snd (mvrp_event s' MRP_EVENT_TX None)) = frames s' @ [f] \<and>
    mvrp_recv_msg t (int (length f)) (padded f) = Some (0, t') \<and> mvrp_inv t' \<and> registered v (station s) t'"
proof -
  obtain s' where s': "mvrp_recv_cmd (Some s) (new_command v) 11 c = Some (0, [], Some s')" "mvrp_inv s'" "same_env s s'"
    "\<exists>a\<in>set (attrib_list s'). wants v a" "attribute ` set (attrib_list s') \<subseteq> insert v (attribute ` set (attrib_list s))"
    using new_command_declares [OF assms(1,2)] by blast
  obtain a where a: "a \<in> set (attrib_list s')" "attribute a = v" "anxious (a_state (applicant a))" using s'(4) by (auto simp: wants_def)
  have "card (attribute ` set (attrib_list s')) \<le> Suc (card (attribute ` set (attrib_list s)))"
    using card_mono [OF _ s'(5)] card_insert_le_m1 [of "Suc (card (attribute ` set (attrib_list s)))" "attribute ` set (attrib_list s)" v] by simp
  then have few: "length (attrib_list s') \<le> 390"
    using good_length [OF inv_parts(1) [OF s'(2)]] good_length [OF inv_parts(1) [OF assms(1)]] assms(4) by simp
  have small: "\<forall>a\<in>set (attrib_list s'). attribute a \<le> 0xFFF" using s'(5) assms(5,6) by fastforce
  have env: "plenty s'" "station s' = station s" using s'(3) assms(2) by (simp_all add: same_env_def plenty_def)
  from station_registers [OF s'(2) env(1) _ few small a(1,3) assms(7,8)] env(2) assms(3) a(2) s'(1) show ?thesis by auto
qed

theorem command_reaches_neighbour_witness:
  "\<exists>s' f t'. mvrp_recv_cmd (Some (sample_station 1 [])) (new_command 2) 11 \<lparr>sin_family = 2, sin_port = 7, sin_addr = 1, sin_zero = []\<rparr> =
      Some (0, [], Some s') \<and> frames (snd (mvrp_event s' MRP_EVENT_TX None)) = frames s' @ [f] \<and>
    mvrp_recv_msg (sample_station 2 []) (int (length f)) (padded f) = Some (0, t') \<and> mvrp_inv t' \<and> registered 2 [1, 0, 0, 0, 0, 1] t'"
proof -
  have i: "mvrp_inv (sample_station n [])" "plenty (sample_station n [])" "station (sample_station n []) = [n, 0, 0, 0, 0, n]"
    "attrib_list (sample_station n []) = []" for n
    using sample_inv [of "[]" n] by (simp_all add: good_def plenty_def sample_station_def)
  from command_reaches_neighbour [OF i(1,2) _ _ _ _ i(1,2), where v = 2] show ?thesis by (simp add: i(3,4))
qed

text \<open>
  Property C3.  A stream travels from a client to the neighbouring station: the command of a client that announces a
  stream is parsed and accepted; at the next transmission opportunity the station sends a frame; and the neighbour that receives it has
  the talker registered, with the address of the station and all parameters that the client gave.
  The property spans the command parser, the database, the machines, and the encoding and decoding of frames.
\<close>

theorem stream_reaches_neighbour:
  assumes "msrp_inv s" "plenty s" "\<not> enable_pruning_of_uninteresting_ids s" "length (station s) = 6" "length (attrib_list s) < 49"
    and "\<not> t_tx (lva (mrp_db s))" "\<not> send_empty_LeaveAll_flag s" "\<forall>a\<in>set (attrib_list s). s_type a = MSRP_LISTENER_TYPE \<longrightarrow> substate a < 4"
    and "talker_shape v" "open_ears t"
    and "\<forall>a\<in>set (attrib_list s) \<union> set (attrib_list t). is_talker (s_type a) \<longrightarrow> StreamID (talk_listen a) \<noteq> StreamID v"
  shows "\<exists>s' s'' f t'. msrp_recv_cmd qsort (Some s) (stream_command v) (length (stream_command v)) c = Some (0, [], Some s') \<and>
    msrp_event s' MRP_EVENT_TX None = Some (0, s'') \<and> frames s'' = frames s' @ [f] \<and>
    msrp_recv_msg t (int (length f)) (in_buffer f) = Some (0, t') \<and> msrp_inv t' \<and>
    (\<exists>b\<in>set (attrib_list t'). s_type b = MSRP_TALKER_ADV_TYPE \<and> r_state (registrar b) = MRP_IN_STATE \<and> r_macaddr (registrar b) = station s \<and>
      talk_listen b = v\<lparr>BridgeID := replicate 8 0, FailureCode := 0\<rparr>)"
proof -
  have new: "\<forall>a\<in>set (attrib_list s). is_talker (s_type a) \<longrightarrow> StreamID (talk_listen a) \<noteq> StreamID v" using assms(11) by blast
  obtain s' a where s': "msrp_recv_cmd qsort (Some s) (stream_command v) (length (stream_command v)) c = Some (0, [], Some s')" "msrp_inv s'"
    "same_env s s'" "same_leaveall s s'" "length (attrib_list s') \<le> Suc (length (attrib_list s))"
    "\<forall>b\<in>set (attrib_list s'). s_type b = MSRP_LISTENER_TYPE \<longrightarrow> (\<exists>a\<in>set (attrib_list s). s_type a = MSRP_LISTENER_TYPE \<and> substate b = substate a)"
    and a: "a \<in> set (attrib_list s')" "anxious (a_state (applicant a))" "s_type a = MSRP_TALKER_ADV_TYPE"
      "talk_listen a = v\<lparr>BridgeID := replicate 8 0, FailureCode := 0\<rparr>"
    using stream_command_declares [OF assms(1-3,9) new] by blast
  have env: "plenty s'" "station s' = station s" using plenty_env [OF s'(3) assms(2)] s'(3) by (simp_all add: same_env_def)
  have ab: "absent a t" using assms(11) a(3,4) by (auto simp: absent_def attr_key_def is_talker_def split: msrp_type.splits)
  obtain s'' f t' where k: "msrp_event s' MRP_EVENT_TX None = Some (0, s'')" "frames s'' = frames s' @ [f]"
    "msrp_recv_msg t (int (length f)) (in_buffer f) = Some (0, t')" "msrp_inv t'" "known (station s') a t'"
    using msrp_station_knows [OF s'(2) env(1) _ _ _ _ _ a(1,2) _ assms(10) ab] env(2) assms(4-8) s'(4-6) a(3)
    by (force simp: same_leaveall_def)
  have "\<exists>b\<in>set (attrib_list t'). s_type b = MSRP_TALKER_ADV_TYPE \<and> r_state (registrar b) = MRP_IN_STATE \<and> r_macaddr (registrar b) = station s \<and>
      talk_listen b = v\<lparr>BridgeID := replicate 8 0, FailureCode := 0\<rparr>"
    using k(5) env(2) a(3,4) by (auto simp: known_def knows_def on_wire_def)
  then show ?thesis using s'(1) k(1-4) by blast
qed

theorem stream_reaches_neighbour_witness:
  "\<exists>s' s'' f t'. msrp_recv_cmd (sort_key eui64) (Some (sample_msrp 1 False [])) (stream_command sample_stream) (length (stream_command sample_stream))
      \<lparr>sin_family = 2, sin_port = 7, sin_addr = 1, sin_zero = []\<rparr> = Some (0, [], Some s') \<and>
    msrp_event s' MRP_EVENT_TX None = Some (0, s'') \<and> frames s'' = frames s' @ [f] \<and>
    msrp_recv_msg (sample_msrp 2 False []) (int (length f)) (in_buffer f) = Some (0, t') \<and> (\<exists>b\<in>set (attrib_list t'). talk_listen b = sample_stream)"
proof -
  have i: "msrp_inv (sample_msrp n False [])" for n by (rule sample_msrp_inv) (simp_all add: shaped_def)
  have v: "talker_shape sample_stream" "sample_stream\<lparr>BridgeID := replicate 8 0, FailureCode := 0\<rparr> = sample_stream"
    by (simp_all add: sample_stream_def talker_shape_def)
  have "open_ears (sample_msrp 2 False [])" using i by (simp add: open_ears_def)
  from stream_reaches_neighbour [OF i sample_msrp_fields(1) _ _ _ _ _ _ v(1) this, of 1 "sort_key eui64" "\<lparr>sin_family = 2, sin_port = 7, sin_addr = 1, sin_zero = []\<rparr>"]
  show ?thesis unfolding v(2) by fastforce
qed

end
